(* ===== verification/Prelude.thy ===== *)
theory Prelude
  imports Main "HOL-Library.Word" "HOL-Library.Monad_Syntax"
begin

text \<open>
  Shared vocabulary of the development: the C integer types as words, checked
  reads and writes of a C array (\<open>None\<close> is an access outside the array, which
  is undefined behaviour in C), the reading of shifts, masks and disjoint bitwise
  or as arithmetic, and the option monad's inversion rules.
\<close>

unbundle bit_operations_syntax

type_synonym u8 = "8 word"
type_synonym u16 = "16 word"
type_synonym u32 = "32 word"
type_synonym u64 = "64 word"

named_theorems arith_of_bits "bit operations on words read as arithmetic on nat"

section \<open>Arrays with checked access\<close>

definition rd :: "'a list \<Rightarrow> nat \<Rightarrow> 'a option" where
  "rd xs i = (if i < length xs then Some (xs ! i) else None)"

definition wr :: "'a list \<Rightarrow> nat \<Rightarrow> 'a \<Rightarrow> 'a list option" where
  "wr xs i v = (if i < length xs then Some (xs[i := v]) else None)"

lemma rd_Some_iff [simp]: "rd xs i = Some v \<longleftrightarrow> i < length xs \<and> xs ! i = v"
  by (auto simp: rd_def)

lemma rd_None_iff [simp]: "rd xs i = None \<longleftrightarrow> length xs \<le> i"
  by (auto simp: rd_def)

lemma rd_in [simp]: "i < length xs \<Longrightarrow> rd xs i = Some (xs ! i)"
  by (simp add: rd_def)

lemma wr_Some_iff [simp]: "wr xs i v = Some ys \<longleftrightarrow> i < length xs \<and> ys = xs[i := v]"
  by (auto simp: wr_def)

lemma wr_in [simp]: "i < length xs \<Longrightarrow> wr xs i v = Some (xs[i := v])"
  by (simp add: wr_def)

definition wrs :: "'a list \<Rightarrow> nat \<Rightarrow> 'a list \<Rightarrow> 'a list option" where
  "wrs xs i vs = (if i + length vs \<le> length xs
     then Some (take i xs @ vs @ drop (i + length vs) xs) else None)"

lemma wrs_in [simp]:
  "i + length vs \<le> length xs \<Longrightarrow> wrs xs i vs = Some (take i xs @ vs @ drop (i + length vs) xs)"
  by (simp add: wrs_def)

lemma wrs_Some_iff: "wrs xs i vs = Some ys \<longleftrightarrow>
    i + length vs \<le> length xs \<and> ys = take i xs @ vs @ drop (i + length vs) xs"
  by (auto simp: wrs_def)

lemma length_wrs: "wrs xs i vs = Some ys \<Longrightarrow> length ys = length xs"
  by (auto simp: wrs_Some_iff)

lemma wr_wrs: "wr buf p c = wrs buf p [c]"
  by (simp add: wr_def wrs_def Suc_le_eq upd_conv_take_nth_drop)

lemma bind_Some_iff: "Option.bind m f = Some y \<longleftrightarrow> (\<exists>x. m = Some x \<and> f x = Some y)"
  by (cases m) auto

text \<open>The list \<open>e\<close> stands at position \<open>p\<close> of \<open>bs\<close>.\<close>

definition at_pos :: "'a list \<Rightarrow> nat \<Rightarrow> 'a list \<Rightarrow> bool" where
  "at_pos bs p e \<longleftrightarrow> p + length e \<le> length bs \<and> take (length e) (drop p bs) = e"

lemma at_pos_nth: "at_pos bs p e \<Longrightarrow> i < length e \<Longrightarrow> bs ! (p + i) = e ! i"
  unfolding at_pos_def
  by (metis add_leD1 nth_drop nth_take)

lemma at_pos_Nil [simp]: "at_pos bs p [] \<longleftrightarrow> p \<le> length bs"
  by (simp add: at_pos_def)

lemma at_pos_Cons [simp]:
  "at_pos bs p (x # xs) \<longleftrightarrow> p < length bs \<and> bs ! p = x \<and> at_pos bs (Suc p) xs"
  by (auto simp: at_pos_def take_Suc_conv_app_nth Cons_nth_drop_Suc [symmetric]
    simp del: Cons_nth_drop_Suc)

lemma at_pos_append [simp]: "at_pos (xs @ e @ ys) (length xs) e"
  by (simp add: at_pos_def)

text \<open>\<open>y\<close> is the result of \<open>x\<close> where \<open>x\<close> has one.\<close>

definition opt_le :: "'a option \<Rightarrow> 'a option \<Rightarrow> bool" where
  "opt_le x y \<longleftrightarrow> x = None \<or> x = y"

lemma opt_le_refl [simp]: "opt_le x x"
  by (simp add: opt_le_def)

lemma opt_le_if: "opt_le a b \<Longrightarrow> opt_le c d \<Longrightarrow> opt_le (if P then a else c) (if P then b else d)"
  by simp

lemma opt_le_Some: "opt_le x y \<Longrightarrow> x = Some r \<Longrightarrow> y = Some r"
  by (auto simp: opt_le_def)

section \<open>Words as numbers\<close>

lemma unat_drop_bit [arith_of_bits]: "unat (drop_bit k (w :: 'a::len word)) = unat w div 2 ^ k"
  by (metis drop_bit_eq_div take_bit_nat_eq_self unsigned_drop_bit_eq unsigned_less)

lemma unat_push_bit [arith_of_bits]:
  "unat (push_bit k (w :: 'a::len word)) = (unat w * 2 ^ k) mod 2 ^ LENGTH('a)"
  by (simp only: unsigned_push_bit_eq push_bit_nat_def take_bit_nat_def)

lemma unat_ucast_mod [arith_of_bits]:
  "unat (ucast (w :: 'a::len word) :: 'b::len word) = unat w mod 2 ^ LENGTH('b)"
  by (simp only: unsigned_ucast_eq take_bit_nat_def)

lemma unat_and_mask [arith_of_bits]:
  "unat ((w :: 'a::len word) AND mask k) = unat w mod 2 ^ k"
  by (simp only: take_bit_eq_mask [symmetric] unsigned_take_bit_eq take_bit_nat_def)

lemma unat_u32_less: "unat (w :: u32) < 4294967296"
  using unsigned_less [of w] by simp

lemma nat_or_add:
  fixes a b :: nat
  assumes "a < 2 ^ k"
  shows "a OR (b * 2 ^ k) = a + b * 2 ^ k"
proof -
  have "take_bit k a = a"
    using assms by (simp add: take_bit_nat_eq_self)
  then have "a AND push_bit k b = 0"
    by (intro bit_eqI) (metis bit_0_eq bit_and_iff bit_push_bit_iff bit_take_bit_iff bot_apply
      bot_bool_def not_less)
  then have "a + push_bit k b = a OR push_bit k b"
    by (rule disjunctive_add_eq_or)
  then show ?thesis
    by (simp add: push_bit_eq_mult)
qed

end
