(* ===== verification/Utf8.thy ===== *)
theory Utf8
  imports Prelude
begin

text \<open>
  The UTF-8 and UTF-16 helpers of \<^verbatim>\<open>quickjs/cutils.h\<close>: surrogates, encoding and
  decoding of one code point, scanning and converting whole buffers. A byte buffer
  is a list, a pointer into it an index; \<open>None\<close> is a read or write outside it.
  Buffer lengths and counters of type \<^verbatim>\<open>size_t\<close> are natural numbers: they count
  elements of an array that exists, so they cannot wrap.
\<close>

section \<open>Surrogates\<close>

definition is_surrogate :: "u32 \<Rightarrow> bool" where
  "is_surrogate c \<longleftrightarrow> drop_bit 11 c = drop_bit 11 0xD800"

definition is_hi_surrogate :: "u32 \<Rightarrow> bool" where
  "is_hi_surrogate c \<longleftrightarrow> drop_bit 10 c = drop_bit 10 0xD800"

definition is_lo_surrogate :: "u32 \<Rightarrow> bool" where
  "is_lo_surrogate c \<longleftrightarrow> drop_bit 10 c = drop_bit 10 0xDC00"

definition get_hi_surrogate :: "u32 \<Rightarrow> u32" where
  "get_hi_surrogate c = drop_bit 10 c - drop_bit 10 0x10000 + 0xD800"

definition get_lo_surrogate :: "u32 \<Rightarrow> u32" where
  "get_lo_surrogate c = (c AND 0x3FF) OR 0xDC00"

definition from_surrogate :: "u32 \<Rightarrow> u32 \<Rightarrow> u32" where
  "from_surrogate hi lo = 65536 + 1024 * (hi AND 1023) + (lo AND 1023)"

section \<open>One code point\<close>

definition utf8_encode_len :: "u32 \<Rightarrow> nat" where
  "utf8_encode_len c =
     (if c < 0x80 then 1
      else if c < 0x800 then 2
      else if c < 0x10000 then 3
      else if c < 0x110000 then 4
      else 3)"

text \<open>The bytes stored in \<^verbatim>\<open>buf\<close>; the return value is their number.\<close>

definition utf8_encode :: "u32 \<Rightarrow> u8 list" where
  "utf8_encode c =
     (if c < 0x80 then [ucast c]
      else if c < 0x800 then
        [ucast (drop_bit 6 c OR 0xC0),
         ucast ((c AND 0x3F) OR 0x80)]
      else if c < 0x10000 then
        [ucast (drop_bit 12 c OR 0xE0),
         ucast ((drop_bit 6 c AND 0x3F) OR 0x80),
         ucast ((c AND 0x3F) OR 0x80)]
      else if c < 0x110000 then
        [ucast (drop_bit 18 c OR 0xF0),
         ucast ((drop_bit 12 c AND 0x3F) OR 0x80),
         ucast ((drop_bit 6 c AND 0x3F) OR 0x80),
         ucast ((c AND 0x3F) OR 0x80)]
      else
        [ucast (drop_bit 12 (0xFFFD :: u32) OR 0xE0),
         ucast ((drop_bit 6 (0xFFFD :: u32) AND 0x3F) OR 0x80),
         ucast (((0xFFFD :: u32) AND 0x3F) OR 0x80)])"

text \<open>
  The byte \<open>p\<close> lies between \<open>lower\<close> and \<open>upper\<close>; a comparison the C code
  does not reach because \<open>&&\<close> stops earlier is not evaluated here either.
\<close>

definition byte_between :: "u8 list \<Rightarrow> nat \<Rightarrow> u8 \<Rightarrow> u8 \<Rightarrow> bool option" where
  "byte_between bs p lower upper = do { b \<leftarrow> rd bs p; Some (lower \<le> b \<and> b \<le> upper) }"

definition utf8_need1 :: "u8 list \<Rightarrow> nat \<Rightarrow> u32 \<Rightarrow> (u32 \<times> nat) option" where
  "utf8_need1 bs p c = do {
     ok1 \<leftarrow> byte_between bs p 0x80 0xBF;
     if ok1
     then Some (push_bit 6 (c - 0xC0) + (ucast (bs ! p) - 0x80), p + 1)
     else Some (0xFFFD, p) }"

definition utf8_need2 :: "u8 list \<Rightarrow> nat \<Rightarrow> u32 \<Rightarrow> u8 \<Rightarrow> (u32 \<times> nat) option" where
  "utf8_need2 bs p c lower = do {
     ok1 \<leftarrow> byte_between bs p lower 0xBF;
     if \<not> ok1 then Some (0xFFFD, p) else do {
       ok2 \<leftarrow> byte_between bs (p + 1) 0x80 0xBF;
       if ok2
       then Some (push_bit 12 (c - 0xE0) + push_bit 6 (ucast (bs ! p) - 0x80)
              + (ucast (bs ! (p + 1)) - 0x80), p + 2)
       else Some (0xFFFD, p) } }"

definition utf8_need3 :: "u8 list \<Rightarrow> nat \<Rightarrow> u32 \<Rightarrow> u8 \<Rightarrow> u8 \<Rightarrow> (u32 \<times> nat) option" where
  "utf8_need3 bs p c lower upper = do {
     ok1 \<leftarrow> byte_between bs p lower upper;
     if \<not> ok1 then Some (0xFFFD, p) else do {
       ok2 \<leftarrow> byte_between bs (p + 1) 0x80 0xBF;
       if \<not> ok2 then Some (0xFFFD, p) else do {
         ok3 \<leftarrow> byte_between bs (p + 2) 0x80 0xBF;
         if ok3
         then Some (push_bit 18 (c - 0xF0) + push_bit 12 (ucast (bs ! p) - 0x80)
                + push_bit 6 (ucast (bs ! (p + 1)) - 0x80)
                + (ucast (bs ! (p + 2)) - 0x80), p + 3)
         else Some (0xFFFD, p) } } }"

definition utf8_decode :: "u8 list \<Rightarrow> nat \<Rightarrow> (u32 \<times> nat) option" where
  "utf8_decode bs p0 = do {
     b \<leftarrow> rd bs p0;
     let c = ucast b :: u32; p = p0 + 1 in
     if c < 0x80 then Some (c, p)
     else if 0xC2 \<le> c \<and> c \<le> 0xDF then utf8_need1 bs p c
     else if c = 0xE0 then utf8_need2 bs p c 0xA0
     else if 0xE1 \<le> c \<and> c \<le> 0xEF then utf8_need2 bs p c 0x80
     else if c = 0xF0 then utf8_need3 bs p c 0x90 0xBF
     else if c = 0xF4 then utf8_need3 bs p c 0x80 0x8F
     else if 0xF1 \<le> c \<and> c \<le> 0xF3 then utf8_need3 bs p c 0x80 0xBF
     else Some (0xFFFD, p) }"

definition utf8_decode_len :: "u8 list \<Rightarrow> nat \<Rightarrow> nat \<Rightarrow> (u32 \<times> nat) option" where
  "utf8_decode_len bs p max_len =
     (if max_len = 0 then Some (0xFFFD, p)
      else if max_len = 1 then do {
        b \<leftarrow> rd bs p; if b < 0x80 then utf8_decode bs p else Some (0xFFFD, p + 1) }
      else if max_len = 2 then do {
        b \<leftarrow> rd bs p; if b < 0xE0 then utf8_decode bs p else Some (0xFFFD, p + 1) }
      else if max_len = 3 then do {
        b \<leftarrow> rd bs p; if b < 0xF0 then utf8_decode bs p else Some (0xFFFD, p + 1) }
      else utf8_decode bs p)"

section \<open>The bytes of an encoding as numbers\<close>

lemma nat_or_192: "a < 64 \<Longrightarrow> a OR 192 = (a + 192 :: nat)"
  using nat_or_add [of a 6 3] by simp

lemma nat_or_128: "a < 128 \<Longrightarrow> a OR 128 = (a + 128 :: nat)"
  using nat_or_add [of a 7 1] by simp

lemma nat_or_224: "a < 32 \<Longrightarrow> a OR 224 = (a + 224 :: nat)"
  using nat_or_add [of a 5 7] by simp

lemma nat_or_240: "a < 16 \<Longrightarrow> a OR 240 = (a + 240 :: nat)"
  using nat_or_add [of a 4 15] by simp

lemma and_63: "x AND 63 = (x AND mask 6 :: u32)"
  by (simp add: mask_eq_exp_minus_1)

lemmas byte_value = unsigned_or_eq and_63 arith_of_bits nat_or_192 nat_or_128 nat_or_224 nat_or_240

lemma unat_lead2: "unat c < 2048 \<Longrightarrow>
    unat (ucast (drop_bit 6 (c :: u32) OR 192) :: u8) = 192 + unat c div 64"
  by (simp add: byte_value)

lemma unat_lead3: "unat c < 65536 \<Longrightarrow>
    unat (ucast (drop_bit 12 (c :: u32) OR 224) :: u8) = 224 + unat c div 4096"
  by (simp add: byte_value)

lemma unat_lead4: "unat c < 1114112 \<Longrightarrow>
    unat (ucast (drop_bit 18 (c :: u32) OR 240) :: u8) = 240 + unat c div 262144"
  by (simp add: byte_value)

lemma unat_cont: "unat (ucast ((c :: u32) AND 63 OR 128) :: u8) = 128 + unat c mod 64"
  by (simp add: byte_value)

lemma unat_cont6: "unat (ucast (drop_bit 6 (c :: u32) AND 63 OR 128) :: u8)
    = 128 + (unat c div 64) mod 64"
  by (simp add: byte_value)

lemma unat_cont12: "unat (ucast (drop_bit 12 (c :: u32) AND 63 OR 128) :: u8)
    = 128 + (unat c div 4096) mod 64"
  by (simp add: byte_value)


section \<open>Decoding the bytes of a sequence\<close>

lemma unat_byte_less [simp]: "unat (b :: u8) < 256"
  using unsigned_less [of b] by simp

lemma unat_widen [arith_of_bits]: "unat (ucast (b :: u8) :: u32) = unat b"
  by (simp add: unat_ucast_mod order.strict_trans [OF unat_byte_less])

lemma widen_minus:
  "k \<le> unat (b :: u8) \<Longrightarrow> (ucast b :: u32) - word_of_nat k = word_of_nat (unat b - k)"
  by (simp add: of_nat_diff)

lemma utf8_value2:
  assumes "192 \<le> unat (b0 :: u8)" "128 \<le> unat (b1 :: u8)"
  shows "push_bit 6 ((ucast b0 :: u32) - 0xC0) + (ucast b1 - 0x80)
    = word_of_nat (64 * (unat b0 - 192) + (unat b1 - 128))"
proof -
  have "(ucast b0 :: u32) - 0xC0 = word_of_nat (unat b0 - 192)"
    "(ucast b1 :: u32) - 0x80 = word_of_nat (unat b1 - 128)"
    using widen_minus [OF assms(1)] widen_minus [OF assms(2)] by simp_all
  then show ?thesis by (simp only: push_bit_eq_mult) simp
qed

lemma utf8_value3:
  assumes "224 \<le> unat (b0 :: u8)" "128 \<le> unat (b1 :: u8)" "128 \<le> unat (b2 :: u8)"
  shows "push_bit 12 ((ucast b0 :: u32) - 0xE0) + push_bit 6 (ucast b1 - 0x80) + (ucast b2 - 0x80)
    = word_of_nat (4096 * (unat b0 - 224) + 64 * (unat b1 - 128) + (unat b2 - 128))"
proof -
  have "(ucast b0 :: u32) - 0xE0 = word_of_nat (unat b0 - 224)"
    "(ucast b1 :: u32) - 0x80 = word_of_nat (unat b1 - 128)"
    "(ucast b2 :: u32) - 0x80 = word_of_nat (unat b2 - 128)"
    using widen_minus [OF assms(1)] widen_minus [OF assms(2)] widen_minus [OF assms(3)]
    by simp_all
  then show ?thesis by (simp only: push_bit_eq_mult) simp
qed

lemma utf8_value4:
  assumes "240 \<le> unat (b0 :: u8)" "128 \<le> unat (b1 :: u8)" "128 \<le> unat (b2 :: u8)"
    "128 \<le> unat (b3 :: u8)"
  shows "push_bit 18 ((ucast b0 :: u32) - 0xF0) + push_bit 12 (ucast b1 - 0x80)
      + push_bit 6 (ucast b2 - 0x80) + (ucast b3 - 0x80)
    = word_of_nat (262144 * (unat b0 - 240) + 4096 * (unat b1 - 128) + 64 * (unat b2 - 128)
        + (unat b3 - 128))"
proof -
  have "(ucast b0 :: u32) - 0xF0 = word_of_nat (unat b0 - 240)"
    "(ucast b1 :: u32) - 0x80 = word_of_nat (unat b1 - 128)"
    "(ucast b2 :: u32) - 0x80 = word_of_nat (unat b2 - 128)"
    "(ucast b3 :: u32) - 0x80 = word_of_nat (unat b3 - 128)"
    using widen_minus [OF assms(1)] widen_minus [OF assms(2)] widen_minus [OF assms(3)]
      widen_minus [OF assms(4)]
    by simp_all
  then show ?thesis by (simp only: push_bit_eq_mult) simp
qed

lemmas cmp_nat = word_le_nat_alt word_less_nat_alt unat_widen

definition in_range :: "u8 list \<Rightarrow> nat \<Rightarrow> nat \<Rightarrow> nat \<Rightarrow> bool" where
  "in_range bs p lo hi \<longleftrightarrow> p < length bs \<and> lo \<le> unat (bs ! p) \<and> unat (bs ! p) \<le> hi"

lemma byte_between_in:
  "p < length bs \<Longrightarrow> byte_between bs p lo hi = Some (in_range bs p (unat lo) (unat hi))"
  by (simp add: byte_between_def in_range_def cmp_nat)

lemma byte_between_True:
  "in_range bs p (unat lo) (unat hi) \<Longrightarrow> byte_between bs p lo hi = Some True"
  by (simp add: byte_between_in in_range_def)

lemma utf8_need1_in:
  "in_range bs q 128 191 \<Longrightarrow>
    utf8_need1 bs q c = Some (push_bit 6 (c - 0xC0) + (ucast (bs ! q) - 0x80), q + 1)"
  by (simp add: utf8_need1_def byte_between_True)

lemma utf8_need2_in:
  "in_range bs q (unat lo) 191 \<Longrightarrow> in_range bs (q + 1) 128 191 \<Longrightarrow>
    utf8_need2 bs q c lo = Some (push_bit 12 (c - 0xE0) + push_bit 6 (ucast (bs ! q) - 0x80)
      + (ucast (bs ! (q + 1)) - 0x80), q + 2)"
  by (simp add: utf8_need2_def byte_between_True)

lemma utf8_need3_in:
  "in_range bs q (unat lo) (unat hi) \<Longrightarrow> in_range bs (q + 1) 128 191 \<Longrightarrow> in_range bs (q + 2) 128 191 \<Longrightarrow>
    utf8_need3 bs q c lo hi = Some (push_bit 18 (c - 0xF0) + push_bit 12 (ucast (bs ! q) - 0x80)
      + push_bit 6 (ucast (bs ! (q + 1)) - 0x80) + (ucast (bs ! (q + 2)) - 0x80), q + 3)"
  by (simp add: utf8_need3_def byte_between_True)

lemma utf8_decode_ascii:
  "p < length bs \<Longrightarrow> unat (bs ! p) < 128 \<Longrightarrow> utf8_decode bs p = Some (ucast (bs ! p), p + 1)"
  by (simp add: utf8_decode_def cmp_nat)

lemma utf8_decode_seq2:
  assumes "in_range bs p 194 223" "in_range bs (p + 1) 128 191"
  shows "utf8_decode bs p =
    Some (word_of_nat (64 * (unat (bs ! p) - 192) + (unat (bs ! (p + 1)) - 128)), p + 2)"
proof -
  have "utf8_decode bs p = utf8_need1 bs (p + 1) (ucast (bs ! p))"
    using assms(1) by (simp add: utf8_decode_def cmp_nat in_range_def)
  also have "\<dots> = Some (word_of_nat (64 * (unat (bs ! p) - 192) + (unat (bs ! (p + 1)) - 128)),
      p + 1 + 1)"
    using assms by (subst utf8_need1_in, simp, subst utf8_value2) (simp_all add: in_range_def)
  finally show ?thesis by simp
qed

lemma utf8_decode_seq3:
  assumes "in_range bs p 224 239"
    and "in_range bs (p + 1) (if unat (bs ! p) = 224 then 160 else 128) 191"
    and "in_range bs (p + 2) 128 191"
  shows "utf8_decode bs p =
    Some (word_of_nat (4096 * (unat (bs ! p) - 224) + 64 * (unat (bs ! (p + 1)) - 128)
      + (unat (bs ! (p + 2)) - 128)), p + 3)"
proof -
  have eq: "p + 1 + 1 = p + 2" by simp
  have "utf8_decode bs p = utf8_need2 bs (p + 1) (ucast (bs ! p))
      (if unat (bs ! p) = 224 then 0xA0 else 0x80)"
    using assms(1) by (simp add: utf8_decode_def cmp_nat in_range_def word_unat_eq_iff)
  also have "\<dots> = Some (push_bit 12 (ucast (bs ! p) - 0xE0)
      + push_bit 6 (ucast (bs ! (p + 1)) - 0x80) + (ucast (bs ! (p + 2)) - 0x80), p + 1 + 2)"
    using assms(2,3)
    by (intro utf8_need2_in [of bs "p + 1", unfolded eq]) (simp_all split: if_splits)
  also have "push_bit 12 ((ucast (bs ! p) :: u32) - 0xE0)
      + push_bit 6 (ucast (bs ! (p + 1)) - 0x80) + (ucast (bs ! (p + 2)) - 0x80)
    = word_of_nat (4096 * (unat (bs ! p) - 224) + 64 * (unat (bs ! (p + 1)) - 128)
      + (unat (bs ! (p + 2)) - 128))"
    using assms by (intro utf8_value3) (auto simp: in_range_def split: if_splits)
  finally show ?thesis by simp
qed

lemma utf8_decode_seq4:
  assumes "in_range bs p 240 244"
    and "in_range bs (p + 1) (if unat (bs ! p) = 240 then 144 else 128)
      (if unat (bs ! p) = 244 then 143 else 191)"
    and "in_range bs (p + 2) 128 191" and "in_range bs (p + 3) 128 191"
  shows "utf8_decode bs p =
    Some (word_of_nat (262144 * (unat (bs ! p) - 240) + 4096 * (unat (bs ! (p + 1)) - 128)
      + 64 * (unat (bs ! (p + 2)) - 128) + (unat (bs ! (p + 3)) - 128)), p + 4)"
proof -
  have eq: "p + 1 + 1 = p + 2" "p + 1 + 2 = p + 3" by simp_all
  have "utf8_decode bs p = utf8_need3 bs (p + 1) (ucast (bs ! p))
      (if unat (bs ! p) = 240 then 0x90 else 0x80) (if unat (bs ! p) = 244 then 0x8F else 0xBF)"
    using assms(1) by (simp add: utf8_decode_def cmp_nat in_range_def word_unat_eq_iff)
  also have "\<dots> = Some (push_bit 18 (ucast (bs ! p) - 0xF0)
      + push_bit 12 (ucast (bs ! (p + 1)) - 0x80) + push_bit 6 (ucast (bs ! (p + 2)) - 0x80)
      + (ucast (bs ! (p + 3)) - 0x80), p + 1 + 3)"
    using assms(2,3,4)
    by (intro utf8_need3_in [of bs "p + 1", unfolded eq]) (simp_all split: if_splits)
  also have "push_bit 18 ((ucast (bs ! p) :: u32) - 0xF0)
      + push_bit 12 (ucast (bs ! (p + 1)) - 0x80) + push_bit 6 (ucast (bs ! (p + 2)) - 0x80)
      + (ucast (bs ! (p + 3)) - 0x80)
    = word_of_nat (262144 * (unat (bs ! p) - 240) + 4096 * (unat (bs ! (p + 1)) - 128)
      + 64 * (unat (bs ! (p + 2)) - 128) + (unat (bs ! (p + 3)) - 128))"
    using assms by (intro utf8_value4) (auto simp: in_range_def split: if_splits)
  finally show ?thesis by simp
qed


section \<open>Decoding what was encoded, and nothing else\<close>

lemma length_utf8_encode: "length (utf8_encode c) = utf8_encode_len c"
  by (simp add: utf8_encode_def utf8_encode_len_def)

lemma utf8_encode_len_pos [simp]: "0 < utf8_encode_len c"
  by (simp add: utf8_encode_len_def)

lemma unat_byte_of: "unat (b :: u8) = n \<Longrightarrow> b = word_of_nat n"
  by (metis of_nat_unat ucast_id)

lemma utf8_encode1: "unat c < 128 \<Longrightarrow> utf8_encode c = [word_of_nat (unat c)]"
  by (simp add: utf8_encode_def cmp_nat)

lemma utf8_encode2:
  "128 \<le> unat c \<Longrightarrow> unat c < 2048 \<Longrightarrow> utf8_encode c =
    [word_of_nat (192 + unat c div 64), word_of_nat (128 + unat c mod 64)]"
  by (simp add: utf8_encode_def cmp_nat unat_byte_of [OF unat_lead2] unat_byte_of [OF unat_cont])

lemma utf8_encode3:
  "2048 \<le> unat c \<Longrightarrow> unat c < 65536 \<Longrightarrow> utf8_encode c =
    [word_of_nat (224 + unat c div 4096), word_of_nat (128 + unat c div 64 mod 64),
     word_of_nat (128 + unat c mod 64)]"
  by (simp add: utf8_encode_def cmp_nat unat_byte_of [OF unat_lead3] unat_byte_of [OF unat_cont6]
    unat_byte_of [OF unat_cont] unat_drop_bit)

lemma utf8_encode4:
  "65536 \<le> unat c \<Longrightarrow> unat c < 1114112 \<Longrightarrow> utf8_encode c =
    [word_of_nat (240 + unat c div 262144), word_of_nat (128 + unat c div 4096 mod 64),
     word_of_nat (128 + unat c div 64 mod 64), word_of_nat (128 + unat c mod 64)]"
  by (simp add: utf8_encode_def cmp_nat unat_byte_of [OF unat_lead4] unat_byte_of [OF unat_cont12]
    unat_byte_of [OF unat_cont6] unat_byte_of [OF unat_cont] unat_drop_bit)

lemma unat_byte_nat [simp]: "n < 256 \<Longrightarrow> unat (word_of_nat n :: u8) = n"
  by (simp add: unat_of_nat)

lemma div_mod_64: "(n :: nat) = 64 * (n div 64) + n mod 64"
  by simp

lemma div_64_64: "(n :: nat) div 4096 = n div 64 div 64"
  using div_mult2_eq [of n 64 64] by simp

lemma digits_two: "n = 64 * q + r \<Longrightarrow> q = 64 * s + t \<Longrightarrow> (n :: nat) = 4096 * s + 64 * t + r"
  by simp

lemma digits_three: "n = 4096 * q + u \<Longrightarrow> q = 64 * s + t \<Longrightarrow> (n :: nat) = 262144 * s + 4096 * t + u"
  by simp

lemma div_mod_4096: "(n :: nat) = 4096 * (n div 4096) + 64 * (n div 64 mod 64) + n mod 64"
  unfolding div_64_64 by (rule digits_two [OF div_mod_64 div_mod_64])

lemma div_4096_64: "(n :: nat) div 262144 = n div 4096 div 64"
  using div_mult2_eq [of n 4096 64] by simp

lemma div_mod_262144: "(n :: nat) =
    262144 * (n div 262144) + 4096 * (n div 4096 mod 64) + 64 * (n div 64 mod 64) + n mod 64"
  unfolding div_4096_64
  using digits_three [OF div_mod_4096 [of n, unfolded add.assoc] div_mod_64]
  by (simp only: add.assoc)

lemma mod_64_le [simp]: "(x :: nat) mod 64 \<le> 63"
  using mod_less_divisor [of 64 x] by linarith

lemma word_of_unat: "(word_of_nat (unat (c :: u32)) :: u32) = c"
  by (simp only: of_nat_unat ucast_id)

lemma utf8_decode_at_encode:
  assumes c: "c < 0x110000" and at: "at_pos bs p (utf8_encode c)"
  shows "utf8_decode bs p = Some (c, p + utf8_encode_len c)"
proof -
  let ?n = "unat c"
  have n: "?n < 1114112" using c by (simp add: cmp_nat)
  note del [simp del] = of_nat_add
  consider "?n < 128" | "128 \<le> ?n" "?n < 2048" | "2048 \<le> ?n" "?n < 65536" | "65536 \<le> ?n"
    by linarith
  then show ?thesis
  proof cases
    case 1
    then show ?thesis
      using at utf8_decode_ascii [of p bs]
      by (simp add: utf8_encode_def utf8_encode_len_def cmp_nat unat_ucast_mod word_unat_eq_iff)
  next
    case 2
    then have "?n div 64 < 32" "2 \<le> ?n div 64" by simp_all
    with at 2 have b: "p + 1 < length bs" "unat (bs ! p) = 192 + ?n div 64"
        "unat (bs ! (p + 1)) = 128 + ?n mod 64"
      by (simp_all add: utf8_encode2)
    then have "64 * (unat (bs ! p) - 192) + (unat (bs ! (p + 1)) - 128) = ?n" by simp
    from utf8_decode_seq2 [of bs p, unfolded this word_of_unat] show ?thesis
      using 2 b \<open>2 \<le> ?n div 64\<close> \<open>?n div 64 < 32\<close>
      by (simp add: utf8_encode_len_def cmp_nat in_range_def)
  next
    case 3
    then have r: "?n div 4096 < 16" "?n div 4096 = 0 \<Longrightarrow> 32 \<le> ?n div 64 mod 64"
      using div_mod_4096 [of ?n] by linarith+
    with at 3 have b: "p + 2 < length bs" "unat (bs ! p) = 224 + ?n div 4096"
        "unat (bs ! (p + 1)) = 128 + ?n div 64 mod 64" "unat (bs ! (p + 2)) = 128 + ?n mod 64"
      by (simp_all add: utf8_encode3)
    then have "4096 * (unat (bs ! p) - 224) + 64 * (unat (bs ! (p + 1)) - 128)
        + (unat (bs ! (p + 2)) - 128) = ?n" using div_mod_4096 [of ?n] by simp
    moreover have "(if ?n div 4096 = 0 then 160 else 128) \<le> 128 + ?n div 64 mod 64"
      using r(2) by simp
    ultimately show ?thesis
      using 3 b r(1) utf8_decode_seq3 [of bs p] word_of_unat [of c] by (simp add: utf8_encode_len_def cmp_nat in_range_def)
  next
    case 4
    then have r: "?n div 262144 \<le> 4" "?n div 262144 = 0 \<Longrightarrow> 16 \<le> ?n div 4096 mod 64"
        "?n div 262144 = 4 \<Longrightarrow> ?n div 4096 mod 64 < 16"
      using n div_mod_262144 [of ?n] by linarith+
    with at 4 n have b: "p + 3 < length bs" "unat (bs ! p) = 240 + ?n div 262144"
        "unat (bs ! (p + 1)) = 128 + ?n div 4096 mod 64"
        "unat (bs ! (p + 2)) = 128 + ?n div 64 mod 64" "unat (bs ! (p + 3)) = 128 + ?n mod 64"
      by (simp_all add: utf8_encode4 numeral_3_eq_3)
    then have "262144 * (unat (bs ! p) - 240) + 4096 * (unat (bs ! (p + 1)) - 128)
        + 64 * (unat (bs ! (p + 2)) - 128) + (unat (bs ! (p + 3)) - 128) = ?n"
      using div_mod_262144 [of ?n] by simp
    moreover have "(if ?n div 262144 = 0 then 144 else 128) \<le> 128 + ?n div 4096 mod 64"
        "128 + ?n div 4096 mod 64 \<le> (if ?n div 262144 = 4 then 143 else 191)"
      using r(2) r(3) by (simp, cases "?n div 262144 = 4") simp_all
    ultimately show ?thesis
      using 4 n b r(1) utf8_decode_seq4 [of bs p] word_of_unat [of c] by (simp add: utf8_encode_len_def cmp_nat in_range_def)
  qed
qed

text \<open>
  The three ways a call returns: an ASCII byte, a well-formed sequence, or the
  replacement character after exactly one byte.
\<close>

lemma word_of_byte: "(word_of_nat (unat (b :: u8)) :: u8) = b"
  by (simp only: of_nat_unat ucast_id)

lemma utf8_need1_cases:
  "utf8_need1 bs q c = Some r \<Longrightarrow> r = (0xFFFD, q) \<or> in_range bs q 128 191"
  by (auto simp: utf8_need1_def byte_between_def bind_Some_iff in_range_def cmp_nat split: if_splits)

lemma utf8_need2_cases:
  "utf8_need2 bs q c lo = Some r \<Longrightarrow>
    r = (0xFFFD, q) \<or> in_range bs q (unat lo) 191 \<and> in_range bs (q + 1) 128 191"
  by (auto simp: utf8_need2_def byte_between_def bind_Some_iff in_range_def cmp_nat split: if_splits)

lemma utf8_need3_cases:
  "utf8_need3 bs q c lo hi = Some r \<Longrightarrow>
    r = (0xFFFD, q) \<or> in_range bs q (unat lo) (unat hi) \<and> in_range bs (q + 1) 128 191
      \<and> in_range bs (q + 2) 128 191"
  by (auto simp: utf8_need3_def byte_between_def bind_Some_iff in_range_def cmp_nat split: if_splits)

lemma utf8_decode_some_cases:
  assumes "utf8_decode bs p = Some r"
  shows "p < length bs \<and> (unat (bs ! p) < 128 \<or> r = (0xFFFD, p + 1) \<and> 128 \<le> unat (bs ! p)
    \<or> in_range bs p 194 223 \<and> in_range bs (p + 1) 128 191
    \<or> in_range bs p 224 239 \<and> in_range bs (p + 1) (if unat (bs ! p) = 224 then 160 else 128) 191
        \<and> in_range bs (p + 2) 128 191
    \<or> in_range bs p 240 244 \<and> in_range bs (p + 1) (if unat (bs ! p) = 240 then 144 else 128)
          (if unat (bs ! p) = 244 then 143 else 191)
        \<and> in_range bs (p + 2) 128 191 \<and> in_range bs (p + 3) 128 191)"
proof -
  from assms have p: "p < length bs"
    by (auto simp: utf8_decode_def bind_Some_iff)
  have eq: "p + 1 + 1 = p + 2" "p + 1 + 2 = p + 3" by simp_all
  let ?b = "unat (bs ! p)"
  consider "?b < 128" | "128 \<le> ?b" "?b < 194 \<or> 244 < ?b" | "194 \<le> ?b" "?b \<le> 223"
    | "224 \<le> ?b" "?b \<le> 239" | "240 \<le> ?b" "?b \<le> 244"
    by linarith
  then show ?thesis
  proof cases
    case 2
    then have "r = (0xFFFD, p + 1)"
      using assms p by (auto simp: utf8_decode_def cmp_nat Let_def word_unat_eq_iff)
    then show ?thesis using p 2 by simp
  next
    case 3
    then have "utf8_need1 bs (p + 1) (ucast (bs ! p)) = Some r"
      using assms p by (simp add: utf8_decode_def cmp_nat Let_def)
    then show ?thesis using p 3 utf8_need1_cases by (fastforce simp: in_range_def)
  next
    case 4
    then have "utf8_need2 bs (p + 1) (ucast (bs ! p)) (if ?b = 224 then 0xA0 else 0x80) = Some r"
      using assms p by (simp add: utf8_decode_def cmp_nat Let_def word_unat_eq_iff split: if_splits)
    from utf8_need2_cases [OF this, unfolded eq] show ?thesis
      using p 4 by (auto simp: in_range_def)
  next
    case 5
    then have "utf8_need3 bs (p + 1) (ucast (bs ! p)) (if ?b = 240 then 0x90 else 0x80)
        (if ?b = 244 then 0x8F else 0xBF) = Some r"
      using assms p by (simp add: utf8_decode_def cmp_nat Let_def word_unat_eq_iff split: if_splits)
    from utf8_need3_cases [OF this, unfolded eq] show ?thesis
      using p 5 by (auto simp: in_range_def)
  qed (use p in simp)
qed


lemma at_pos_two: "p + 1 < length bs \<Longrightarrow> bs ! p = x \<Longrightarrow> bs ! (p + 1) = y \<Longrightarrow> at_pos bs p [x, y]"
  by simp

lemma encode_of_seq2:
  assumes "in_range bs p 194 223" "in_range bs (p + 1) 128 191"
  defines "c \<equiv> word_of_nat (64 * (unat (bs ! p) - 192) + (unat (bs ! (p + 1)) - 128)) :: u32"
  shows "at_pos bs p (utf8_encode c) \<and> utf8_encode_len c = 2 \<and> c < 0x110000"
proof -
  obtain h l where h: "unat (bs ! p) = 192 + h" "2 \<le> h" "h < 32"
      and l: "unat (bs ! (p + 1)) = 128 + l" "l < 64"
    using assms(1,2) le_Suc_ex [of 194 "unat (bs ! p)"] le_Suc_ex [of 128 "unat (bs ! (p + 1))"]
    by (auto simp: in_range_def intro: that [of "unat (bs ! p) - 192" "unat (bs ! (p + 1)) - 128"])
  have n: "unat c = 64 * h + l"
    using h l by (simp add: c_def unat_of_nat del: of_nat_add of_nat_mult)
  then have "unat c div 64 = h" "unat c mod 64 = l" using l by simp_all
  then have "utf8_encode c = [bs ! p, bs ! (p + 1)]"
    using n h l utf8_encode2 [of c] word_of_byte [of "bs ! p"] word_of_byte [of "bs ! (p + 1)"]
    by (simp del: of_nat_add of_nat_unat)
  with n h l show ?thesis
    using assms(2) by (simp add: in_range_def utf8_encode_len_def cmp_nat)
qed

lemma split_64: "n = 64 * q + r \<Longrightarrow> r < 64 \<Longrightarrow> (n :: nat) div 64 = q \<and> n mod 64 = r"
  by simp

lemma encode_of_seq3:
  assumes "in_range bs p 224 239"
    and "in_range bs (p + 1) (if unat (bs ! p) = 224 then 160 else 128) 191"
    and "in_range bs (p + 2) 128 191"
  defines "c \<equiv> word_of_nat (4096 * (unat (bs ! p) - 224) + 64 * (unat (bs ! (p + 1)) - 128)
      + (unat (bs ! (p + 2)) - 128)) :: u32"
  shows "at_pos bs p (utf8_encode c) \<and> utf8_encode_len c = 3 \<and> c < 0x110000"
proof -
  define h m l where "h = unat (bs ! p) - 224" and "m = unat (bs ! (p + 1)) - 128"
    and "l = unat (bs ! (p + 2)) - 128"
  have h: "unat (bs ! p) = 224 + h" "h < 16" "unat (bs ! (p + 1)) = 128 + m" "m < 64"
      "unat (bs ! (p + 2)) = 128 + l" "l < 64" "h = 0 \<longrightarrow> 32 \<le> m"
    using assms(1,2,3) by (auto simp: in_range_def h_def m_def l_def split: if_splits)
  have n: "unat c = 4096 * h + 64 * m + l"
    using h by (simp add: c_def unat_of_nat del: of_nat_add of_nat_mult)
  have "unat c div 64 = 64 * h + m \<and> unat c mod 64 = l"
    using h n by (intro split_64) simp_all
  then have d: "unat c div 4096 = h" "unat c div 64 mod 64 = m" "unat c mod 64 = l"
    using h by (simp_all add: div_64_64)
  have r: "2048 \<le> unat c" "unat c < 65536" using h n by (cases "h = 0"; simp)+
  have "utf8_encode c = [bs ! p, bs ! (p + 1), bs ! (p + 2)]"
    by (rule utf8_encode3 [OF r, unfolded d, folded h(1) h(3) h(5), unfolded word_of_byte])
  with r h show ?thesis
    using assms(3) by (simp add: in_range_def utf8_encode_len_def cmp_nat)
qed

lemma encode_of_seq4:
  assumes "in_range bs p 240 244"
    and "in_range bs (p + 1) (if unat (bs ! p) = 240 then 144 else 128)
      (if unat (bs ! p) = 244 then 143 else 191)"
    and "in_range bs (p + 2) 128 191" and "in_range bs (p + 3) 128 191"
  defines "c \<equiv> word_of_nat (262144 * (unat (bs ! p) - 240) + 4096 * (unat (bs ! (p + 1)) - 128)
      + 64 * (unat (bs ! (p + 2)) - 128) + (unat (bs ! (p + 3)) - 128)) :: u32"
  shows "at_pos bs p (utf8_encode c) \<and> utf8_encode_len c = 4 \<and> c < 0x110000"
proof -
  define h m u l where "h = unat (bs ! p) - 240" and "m = unat (bs ! (p + 1)) - 128"
    and "u = unat (bs ! (p + 2)) - 128" and "l = unat (bs ! (p + 3)) - 128"
  have h: "unat (bs ! p) = 240 + h" "h < 5" "unat (bs ! (p + 1)) = 128 + m" "m < 64"
      "unat (bs ! (p + 2)) = 128 + u" "u < 64" "unat (bs ! (p + 3)) = 128 + l" "l < 64"
      "h = 0 \<longrightarrow> 16 \<le> m" "h = 4 \<longrightarrow> m < 16"
    using assms(1,2,3,4) by (auto simp: in_range_def h_def m_def u_def l_def split: if_splits)
  have n: "unat c = 262144 * h + 4096 * m + 64 * u + l"
    using h by (simp add: c_def unat_of_nat del: of_nat_add of_nat_mult)
  have l: "unat c div 64 = 64 * (64 * h + m) + u \<and> unat c mod 64 = l"
    using h n by (intro split_64) simp_all
  then have "unat c div 4096 = 64 * h + m \<and> unat c div 64 mod 64 = u"
    unfolding div_64_64 using h by (intro split_64) simp_all
  with l have d: "unat c div 262144 = h" "unat c div 4096 mod 64 = m" "unat c div 64 mod 64 = u"
      "unat c mod 64 = l"
    using h by (simp_all add: div_4096_64)
  have r: "65536 \<le> unat c" "unat c < 1114112"
    using h n by (cases "h = 0"; cases "h = 4"; simp)+
  have "utf8_encode c = [bs ! p, bs ! (p + 1), bs ! (p + 2), bs ! (p + 3)]"
    by (rule utf8_encode4 [OF r, unfolded d, folded h(1) h(3) h(5) h(7), unfolded word_of_byte])
  with r h show ?thesis
    using assms(4) by (simp add: in_range_def utf8_encode_len_def cmp_nat numeral_3_eq_3)
qed

lemma utf8_decode_Some:
  assumes "utf8_decode bs p = Some (c, q)"
  obtains (error) "c = 0xFFFD" "q = p + 1" "p < length bs" "128 \<le> unat (bs ! p)"
  | (seq) "c < 0x110000" "at_pos bs p (utf8_encode c)" "q = p + utf8_encode_len c"
proof -
  from utf8_decode_some_cases [OF assms] consider
      "p < length bs" "unat (bs ! p) < 128"
    | "c = 0xFFFD" "q = p + 1" "p < length bs" "128 \<le> unat (bs ! p)"
    | "in_range bs p 194 223" "in_range bs (p + 1) 128 191"
    | "in_range bs p 224 239" "in_range bs (p + 1) (if unat (bs ! p) = 224 then 160 else 128) 191"
      "in_range bs (p + 2) 128 191"
    | "in_range bs p 240 244" "in_range bs (p + 1) (if unat (bs ! p) = 240 then 144 else 128)
      (if unat (bs ! p) = 244 then 143 else 191)" "in_range bs (p + 2) 128 191"
      "in_range bs (p + 3) 128 191"
    by blast
  then show thesis
  proof cases
    case 1
    from utf8_decode_ascii [OF this] assms have "c = ucast (bs ! p)" "q = p + 1" by simp_all
    with 1 show thesis
      by (intro seq) (simp_all add: utf8_encode_def utf8_encode_len_def cmp_nat word_unat_eq_iff
        unat_ucast_mod)
  next
    case 2
    then show thesis by (rule error)
  next
    case 3
    from utf8_decode_seq2 [OF this] encode_of_seq2 [OF this] assms show thesis
      by (intro seq) (simp_all only: option.inject prod.inject)
  next
    case 4
    from utf8_decode_seq3 [OF this] encode_of_seq3 [OF this] assms show thesis
      by (intro seq) (simp_all only: option.inject prod.inject)
  next
    case 5
    from utf8_decode_seq4 [OF this] encode_of_seq4 [OF this] assms show thesis
      by (intro seq) (simp_all only: option.inject prod.inject)
  qed
qed


lemma utf8_decode_progress: "utf8_decode bs p = Some (c, q) \<Longrightarrow> p < q \<and> q \<le> length bs"
  by (elim utf8_decode_Some) (auto simp: at_pos_def length_utf8_encode)

lemma utf8_decode_bound: "utf8_decode bs p = Some (c, q) \<Longrightarrow> c < 0x110000"
  by (elim utf8_decode_Some) auto

section \<open>Decoding with a length limit\<close>

text \<open>
  A lead byte below \<open>0xE0\<close> announces at most two bytes, one below \<open>0xF0\<close> at most
  three, any other at most four: what \<^verbatim>\<open>utf8_decode\<close> reads is bounded by its lead byte.
\<close>

lemma utf8_need_defined:
  "q < length bs \<Longrightarrow> utf8_need1 bs q c \<noteq> None"
  "q + 1 < length bs \<Longrightarrow> utf8_need2 bs q c lo \<noteq> None"
  "q + 2 < length bs \<Longrightarrow> utf8_need3 bs q c lo hi \<noteq> None"
  by (simp_all add: utf8_need1_def utf8_need2_def utf8_need3_def byte_between_in)

lemma widen_eq:
  "(ucast (b :: u8) :: u32) = 0xE0 \<longleftrightarrow> unat b = 224"
  "(ucast (b :: u8) :: u32) = 0xF0 \<longleftrightarrow> unat b = 240"
  "(ucast (b :: u8) :: u32) = 0xF4 \<longleftrightarrow> unat b = 244"
  by (simp_all add: word_unat_eq_iff unat_widen)

text \<open>The choice of \<^verbatim>\<open>utf8_decode\<close> by the value of the lead byte \<open>b\<close>.\<close>

definition utf8_lead :: "u8 list \<Rightarrow> nat \<Rightarrow> u8 \<Rightarrow> (u32 \<times> nat) option" where
  "utf8_lead bs p b =
    (if unat b < 128 then Some (ucast b, p + 1)
     else if 194 \<le> unat b \<and> unat b \<le> 223 then utf8_need1 bs (p + 1) (ucast b)
     else if unat b = 224 then utf8_need2 bs (p + 1) (ucast b) 0xA0
     else if 225 \<le> unat b \<and> unat b \<le> 239 then utf8_need2 bs (p + 1) (ucast b) 0x80
     else if unat b = 240 then utf8_need3 bs (p + 1) (ucast b) 0x90 0xBF
     else if unat b = 244 then utf8_need3 bs (p + 1) (ucast b) 0x80 0x8F
     else if 241 \<le> unat b \<and> unat b \<le> 243 then utf8_need3 bs (p + 1) (ucast b) 0x80 0xBF
     else Some (0xFFFD, p + 1))"

lemma utf8_decode_lead: "p < length bs \<Longrightarrow> utf8_decode bs p = utf8_lead bs p (bs ! p)"
  by (simp only: utf8_decode_def utf8_lead_def rd_in Option.bind.bind_lunit Let_def widen_eq
      cmp_nat) simp

lemma utf8_decode_defined:
  assumes "p < length bs"
    and "unat (bs ! p) < 0x80 \<or> p + 2 \<le> length bs \<and> unat (bs ! p) < 0xE0
      \<or> p + 3 \<le> length bs \<and> unat (bs ! p) < 0xF0 \<or> p + 4 \<le> length bs"
  shows "utf8_decode bs p \<noteq> None"
proof -
  let ?b = "unat (bs ! p)"
  consider "?b < 128" | "128 \<le> ?b" "?b < 224" "p + 2 \<le> length bs"
    | "224 \<le> ?b" "?b < 240" "p + 3 \<le> length bs" | "240 \<le> ?b" "p + 4 \<le> length bs"
    using assms(2) by linarith
  then show ?thesis
    unfolding utf8_decode_lead [OF assms(1)] utf8_lead_def
    by cases (simp_all del: One_nat_def not_None_eq add: utf8_need_defined)
qed

text \<open>Where a truncated buffer suffices, the whole buffer gives the same result.\<close>

lemma opt_le_between:
  assumes "\<And>v. take m bs ! p = bs ! p \<Longrightarrow> opt_le (f v) (g v)"
  shows "opt_le (byte_between (take m bs) p lo hi \<bind> f) (byte_between bs p lo hi \<bind> g)"
  using assms by (cases "p < length (take m bs)") (simp_all add: byte_between_def rd_def opt_le_def)

lemmas opt_le_intros = opt_le_between opt_le_if opt_le_refl

lemma utf8_need1_take: "opt_le (utf8_need1 (take m bs) q c) (utf8_need1 bs q c)"
  unfolding utf8_need1_def by (intro opt_le_intros; simp only: opt_le_refl)

lemma utf8_need2_take: "opt_le (utf8_need2 (take m bs) q c lo) (utf8_need2 bs q c lo)"
  unfolding utf8_need2_def by (intro opt_le_intros; simp only: opt_le_refl)

lemma utf8_need3_take: "opt_le (utf8_need3 (take m bs) q c lo hi) (utf8_need3 bs q c lo hi)"
  unfolding utf8_need3_def by (intro opt_le_intros; simp only: opt_le_refl)

lemma utf8_decode_take: "opt_le (utf8_decode (take m bs) p) (utf8_decode bs p)"
proof (cases "p < length (take m bs)")
  case True
  then have p: "p < length bs" "take m bs ! p = bs ! p" by simp_all
  show ?thesis
    unfolding utf8_decode_lead [OF True] utf8_decode_lead [OF p(1)] p(2) utf8_lead_def
    by (intro opt_le_if opt_le_refl utf8_need1_take utf8_need2_take utf8_need3_take)
qed (simp add: utf8_decode_def rd_def opt_le_def)

lemma utf8_decode_len_Some:
  assumes "utf8_decode_len bs p n = Some (c, q)" "n \<noteq> 0"
  obtains (error) "c = 0xFFFD" "q = p + 1" "p < length bs" "128 \<le> unat (bs ! p)"
  | (seq) "c < 0x110000" "at_pos bs p (utf8_encode c)" "q = p + utf8_encode_len c"
proof (cases "utf8_decode bs p = Some (c, q)")
  case True
  then show thesis by (elim utf8_decode_Some) (auto intro: that)
next
  case False
  with assms show thesis
    by (auto simp: utf8_decode_len_def bind_Some_iff cmp_nat not_less split: if_splits intro: error)
qed

lemma utf8_decode_len_progress:
  "utf8_decode_len bs p n = Some (c, q) \<Longrightarrow> n \<noteq> 0 \<Longrightarrow> p < q \<and> q \<le> length bs"
  by (erule utf8_decode_len_Some) (auto simp: at_pos_def length_utf8_encode)


end
