(* ===== verification/Utf8_Buffers.thy ===== *)
theory Utf8_Buffers
  imports Utf8
begin

text \<open>
  The whole-buffer conversions of \<^verbatim>\<open>quickjs/cutils.h\<close>: \<^verbatim>\<open>utf8_scan\<close>,
  \<^verbatim>\<open>utf8_decode_buf8/16\<close> and \<^verbatim>\<open>utf8_encode_buf8/16\<close>. Each loop is a recursive
  function over the positions the C loop keeps. The destination array is passed and
  returned; its length is the C parameter \<^verbatim>\<open>dest_len\<close>. The abstract side is the list
  of code points a byte string stands for and the list of UTF-16 units of code points.
\<close>

section \<open>Scanning\<close>

definition UTF8_PLAIN_ASCII :: u32 where "UTF8_PLAIN_ASCII = 0"
definition UTF8_NON_ASCII :: u32 where "UTF8_NON_ASCII = 1"
definition UTF8_HAS_16BIT :: u32 where "UTF8_HAS_16BIT = 2"
definition UTF8_HAS_NON_BMP1 :: u32 where "UTF8_HAS_NON_BMP1 = 4"
definition UTF8_HAS_ERRORS :: u32 where "UTF8_HAS_ERRORS = 8"

function utf8_scan_loop :: "u8 list \<Rightarrow> nat \<Rightarrow> nat \<Rightarrow> u32 \<Rightarrow> (u32 \<times> nat) option" where
  "utf8_scan_loop buf p len kind =
     (if p < length buf then
        (if 0x80 \<le> buf ! p then
           (case utf8_decode_len buf p (length buf - p) of
              None \<Rightarrow> None
            | Some (c, p_next) \<Rightarrow>
                let k1 = (if p_next = p + 1 then kind OR UTF8_HAS_ERRORS else kind);
                    k2 = (if 0xFF < c then k1 OR UTF8_HAS_16BIT else k1);
                    k3 = (if 0xFF < c \<and> 0xFFFF < c then k2 OR UTF8_HAS_NON_BMP1 else k2);
                    len' = (if 0xFF < c \<and> 0xFFFF < c then len + 1 + 1 else len + 1)
                in utf8_scan_loop buf p_next len' k3)
         else utf8_scan_loop buf (p + 1) (len + 1) kind)
      else Some (kind, len))"
  by pat_completeness auto
termination
  by (relation "measure (\<lambda>(buf, p, len, kind). length buf - p)")
     (auto dest: utf8_decode_len_progress)

definition utf8_scan :: "u8 list \<Rightarrow> (u32 \<times> nat) option" where
  "utf8_scan buf =
     (if foldl (OR) 0 buf \<ge> 0x80 then utf8_scan_loop buf 0 0 UTF8_NON_ASCII
      else Some (UTF8_PLAIN_ASCII, length buf))"

section \<open>Decoding buffers\<close>

definition put_if :: "'a list \<Rightarrow> nat \<Rightarrow> 'a \<Rightarrow> 'a list" where
  "put_if dest i v = (if i < length dest then dest[i := v] else dest)"

function utf8_decode_buf8_loop :: "u8 list \<Rightarrow> u8 list \<Rightarrow> nat \<Rightarrow> nat \<Rightarrow> (u8 list \<times> nat) option" where
  "utf8_decode_buf8_loop dest src p i =
     (if p < length src then
        let c = ucast (src ! p) :: u32 in
        if 0xC0 \<le> c then
          (case rd src (p + 1) of
             None \<Rightarrow> None
           | Some b \<Rightarrow>
               let c' = push_bit 6 c + ucast b - (push_bit 6 0xC0 + 0x80) in
               utf8_decode_buf8_loop (put_if dest i (ucast c')) src (p + 2) (i + 1))
        else utf8_decode_buf8_loop (put_if dest i (ucast c)) src (p + 1) (i + 1)
      else Some (dest, i))"
  by pat_completeness auto
termination
  by (relation "measure (\<lambda>(dest, src, p, i). length src - p)") auto

definition utf8_decode_buf8 :: "u8 list \<Rightarrow> u8 list \<Rightarrow> (u8 list \<times> nat) option" where
  "utf8_decode_buf8 dest src =
     (case utf8_decode_buf8_loop dest src 0 0 of
        None \<Rightarrow> None
      | Some (d, i) \<Rightarrow>
          Some (if i < length d then d[i := 0]
                else if 0 < length d then d[length d - 1 := 0] else d, i))"

function utf8_decode_buf16_loop :: "u16 list \<Rightarrow> u8 list \<Rightarrow> nat \<Rightarrow> nat \<Rightarrow> (u16 list \<times> nat) option" where
  "utf8_decode_buf16_loop dest src p i =
     (if p < length src then
        let c = ucast (src ! p) :: u32 in
        if 0x80 \<le> c then
          (case utf8_decode_len src p (length src - p) of
             None \<Rightarrow> None
           | Some (c, q) \<Rightarrow>
               if 0xFFFF < c then
                 utf8_decode_buf16_loop
                   (put_if (put_if dest i (ucast (get_hi_surrogate c))) (i + 1)
                      (ucast (get_lo_surrogate c))) src q (i + 1 + 1)
               else utf8_decode_buf16_loop (put_if dest i (ucast c)) src q (i + 1))
        else utf8_decode_buf16_loop (put_if dest i (ucast c)) src (p + 1) (i + 1)
      else Some (dest, i))"
  by pat_completeness auto
termination
  by (relation "measure (\<lambda>(dest, src, p, i). length src - p)")
     (auto dest: utf8_decode_len_progress)

definition utf8_decode_buf16 :: "u16 list \<Rightarrow> u8 list \<Rightarrow> (u16 list \<times> nat) option" where
  "utf8_decode_buf16 dest src = utf8_decode_buf16_loop dest src 0 0"

section \<open>Encoding buffers\<close>

text \<open>
  The first loop returns the source index and the output length; \<open>True\<close> tells that
  it left through the label \<^verbatim>\<open>overflow\<close>, with the index already set back to the first
  unit of the character that did not fit.
\<close>

function utf8_encode_buf8_loop ::
    "u8 list \<Rightarrow> u8 list \<Rightarrow> nat \<Rightarrow> nat \<Rightarrow> (u8 list \<times> nat \<times> nat \<times> bool) option" where
  "utf8_encode_buf8_loop dest src i j =
     (if i < length src then
        let c = ucast (src ! i) :: u32 in
        if c < 0x80 then
          (if length dest \<le> j + 1 then Some (dest, i, j, True)
           else case wrs dest j [ucast c] of
                  None \<Rightarrow> None
                | Some d \<Rightarrow> utf8_encode_buf8_loop d src (i + 1) (j + 1))
        else
          (if length dest \<le> j + 2 then Some (dest, i, j, True)
           else case wrs dest j [ucast (drop_bit 6 c OR 0xC0), ucast ((c AND 0x3F) OR 0x80)] of
                  None \<Rightarrow> None
                | Some d \<Rightarrow> utf8_encode_buf8_loop d src (i + 1) (j + 2))
      else Some (dest, i, j, False))"
  by pat_completeness auto
termination
  by (relation "measure (\<lambda>(dest, src, i, j). length src - i)") auto

function utf8_count_buf8 :: "u8 list \<Rightarrow> nat \<Rightarrow> nat \<Rightarrow> nat" where
  "utf8_count_buf8 src i j =
     (if i < length src
      then utf8_count_buf8 src (i + 1) (j + (if 0x80 \<le> src ! i then 2 else 1)) else j)"
  by pat_completeness auto
termination
  by (relation "measure (\<lambda>(src, i, j). length src - i)") auto

definition utf8_encode_buf8 :: "u8 list \<Rightarrow> u8 list \<Rightarrow> (u8 list \<times> nat) option" where
  "utf8_encode_buf8 dest src =
     (case utf8_encode_buf8_loop dest src 0 0 of
        None \<Rightarrow> None
      | Some (d, i, j, overflow) \<Rightarrow>
          Some (put_if d j 0, if overflow then utf8_count_buf8 src i j else j))"

text \<open>
  One character of the source: the code unit at \<open>i\<close>, joined with the next one when
  they form a surrogate pair; with the index after it.
\<close>

definition utf16_next :: "u16 list \<Rightarrow> nat \<Rightarrow> u32 \<times> nat" where
  "utf16_next src i =
     (let c = ucast (src ! i) :: u32 in
      if is_hi_surrogate c \<and> i + 1 < length src \<and> is_lo_surrogate (ucast (src ! (i + 1)))
      then (from_surrogate c (ucast (src ! (i + 1))), i + 1 + 1)
      else (c, i + 1))"

lemma utf16_next_less: "utf16_next src i = (c, i') \<Longrightarrow> i < i'"
  by (auto simp: utf16_next_def Let_def split: if_splits)

function utf8_encode_buf16_loop ::
    "u8 list \<Rightarrow> u16 list \<Rightarrow> nat \<Rightarrow> nat \<Rightarrow> (u8 list \<times> nat \<times> nat \<times> bool) option" where
  "utf8_encode_buf16_loop dest src i j =
     (if i < length src then
        let c = ucast (src ! i) :: u32 in
        if c < 0x80 then
          (if length dest \<le> j + 1 then Some (dest, i + 1 - 1, j, True)
           else case wrs dest j [ucast c] of
                  None \<Rightarrow> None
                | Some d \<Rightarrow> utf8_encode_buf16_loop d src (i + 1) (j + 1))
        else
          (case utf16_next src i of (c, i') \<Rightarrow>
             if length dest \<le> j + utf8_encode_len c
             then Some (dest, i' - (1 + (if 0xFFFF < c then 1 else 0)), j, True)
             else case wrs dest j (utf8_encode c) of
                    None \<Rightarrow> None
                  | Some d \<Rightarrow> utf8_encode_buf16_loop d src i' (j + length (utf8_encode c)))
      else Some (dest, i, j, False))"
  by pat_completeness auto
termination
  by (relation "measure (\<lambda>(dest, src, i, j). length src - i)")
     (auto dest!: sym [of "(_, _)"] dest: utf16_next_less intro!: diff_less_mono2)

function utf8_count_buf16 :: "u16 list \<Rightarrow> nat \<Rightarrow> nat \<Rightarrow> nat" where
  "utf8_count_buf16 src i j =
     (if i < length src then
        let c = ucast (src ! i) :: u32 in
        if c < 0x80 then utf8_count_buf16 src (i + 1) (j + 1)
        else (case utf16_next src i of (c, i') \<Rightarrow> utf8_count_buf16 src i' (j + utf8_encode_len c))
      else j)"
  by pat_completeness auto
termination
  by (relation "measure (\<lambda>(src, i, j). length src - i)")
     (auto dest!: sym [of "(_, _)"] dest: utf16_next_less intro!: diff_less_mono2)

definition utf8_encode_buf16 :: "u8 list \<Rightarrow> u16 list \<Rightarrow> (u8 list \<times> nat) option" where
  "utf8_encode_buf16 dest src =
     (case utf8_encode_buf16_loop dest src 0 0 of
        None \<Rightarrow> None
      | Some (d, i, j, overflow) \<Rightarrow>
          Some (put_if d j 0, if overflow then utf8_count_buf16 src i j else j))"

declare utf8_scan_loop.simps [simp del] utf8_decode_buf8_loop.simps [simp del]
  utf8_decode_buf16_loop.simps [simp del] utf8_encode_buf8_loop.simps [simp del]
  utf8_count_buf8.simps [simp del] utf8_encode_buf16_loop.simps [simp del]
  utf8_count_buf16.simps [simp del]

section \<open>What a byte string stands for\<close>

lemma utf8_decode_len_defined:
  assumes "0 < n" "p + n \<le> length bs"
  shows "utf8_decode_len bs p n \<noteq> None"
proof -
  consider "n = 1" | "n = 2" | "n = 3" | "4 \<le> n" using assms(1) by linarith
  then show ?thesis
    by cases (use assms utf8_decode_defined [of p bs] in
      \<open>auto simp: utf8_decode_len_def cmp_nat simp del: not_None_eq\<close>)
qed

function utf8_codes :: "u8 list \<Rightarrow> nat \<Rightarrow> u32 list" where
  "utf8_codes src p =
     (if p < length src then
        (case utf8_decode_len src p (length src - p) of
           None \<Rightarrow> [] | Some (c, q) \<Rightarrow> c # utf8_codes src q)
      else [])"
  by pat_completeness auto
termination
  by (relation "measure (\<lambda>(src, p). length src - p)") (auto dest: utf8_decode_len_progress)

declare utf8_codes.simps [simp del]

definition utf16_units :: "u32 \<Rightarrow> u16 list" where
  "utf16_units c =
     (if 0xFFFF < c then [ucast (get_hi_surrogate c), ucast (get_lo_surrogate c)] else [ucast c])"

function utf16_codes :: "u16 list \<Rightarrow> nat \<Rightarrow> u32 list" where
  "utf16_codes src i =
     (if i < length src then (case utf16_next src i of (c, i') \<Rightarrow> c # utf16_codes src i') else [])"
  by pat_completeness auto
termination
  by (relation "measure (\<lambda>(src, i). length src - i)")
     (auto dest!: sym [of "(_, _)"] dest: utf16_next_less intro!: diff_less_mono2)

declare utf16_codes.simps [simp del]

fun put_from :: "'a list \<Rightarrow> nat \<Rightarrow> 'a list \<Rightarrow> 'a list" where
  "put_from d i [] = d"
| "put_from d i (v # vs) = put_from (put_if d i v) (Suc i) vs"

lemma length_put_if [simp]: "length (put_if d i v) = length d"
  by (simp add: put_if_def)

lemma put_from_append: "put_from d i (xs @ ys) = put_from (put_from d i xs) (i + length xs) ys"
  by (induction xs arbitrary: d i) simp_all

lemma put_from_eq:
  "put_from d i vs = (if i \<le> length d
     then take i d @ take (length d - i) vs @ drop (i + length vs) d else d)"
proof (induction vs arbitrary: d i)
  case (Cons v vs)
  show ?case
  proof (cases "i < length d")
    case True
    then show ?thesis
      by (simp add: Cons.IH put_if_def take_Suc_conv_app_nth take_Cons' drop_update_cancel
        take_update_cancel)
  qed (auto simp: Cons.IH put_if_def)
qed simp

lemma put_from_0: "put_from d 0 vs = take (length d) vs @ drop (length vs) d"
  by (simp add: put_from_eq)

section \<open>The decoders meet the abstract reading\<close>

lemma utf8_decode_len_ascii:
  "p < length src \<Longrightarrow> \<not> 0x80 \<le> src ! p \<Longrightarrow>
    utf8_decode_len src p (length src - p) = Some (ucast (src ! p), p + 1)"
  by (simp add: utf8_decode_len_def cmp_nat utf8_decode_ascii)

lemma widen_ge: "0x80 \<le> (ucast (b :: u8) :: u32) \<longleftrightarrow> 0x80 \<le> b"
  by (simp add: cmp_nat)

lemma widen_gt: "\<not> 0xFFFF < (ucast (b :: u8) :: u32)"
  using order.strict_trans [OF unat_byte_less [of b], of 65535] by (simp add: cmp_nat not_less)

lemma ucast_widen: "ucast (ucast (b :: u8) :: u32) = (ucast b :: u16)"
  by (simp add: word_unat_eq_iff unat_ucast_mod [where 'a = 32] unat_widen) (simp add: unat_ucast_mod)

lemma utf8_decode_buf16_loop_eq:
  "utf8_decode_buf16_loop dest src p i =
     Some (put_from dest i (concat (map utf16_units (utf8_codes src p))),
       i + length (concat (map utf16_units (utf8_codes src p))))"
proof (induction dest src p i rule: utf8_decode_buf16_loop.induct)
  case (1 dest src p i)
  show ?case
  proof (cases "p < length src")
    case False
    then show ?thesis
      by (simp add: utf8_decode_buf16_loop.simps [of dest] utf8_codes.simps [of src p])
  next
    case p: True
    obtain c q where dec: "utf8_decode_len src p (length src - p) = Some (c, q)"
      using utf8_decode_len_defined [of "length src - p" p src] p by fastforce
    note unfold = utf8_decode_buf16_loop.simps [of dest src p i] utf8_codes.simps [of src p]
    show ?thesis
    proof (cases "0x80 \<le> src ! p")
      case True
      then show ?thesis
        using p dec "1.IH" by (simp add: unfold widen_ge utf16_units_def)
    next
      case False
      with dec p have "c = ucast (src ! p)" "q = p + 1"
        by (simp_all add: utf8_decode_len_ascii)
      with False show ?thesis
        using p dec "1.IH" by (simp add: unfold widen_ge utf16_units_def widen_gt)
    qed
  qed
qed


section \<open>Scanning agrees with decoding\<close>

lemma utf8_scan_loop_len:
  "\<exists>k. utf8_scan_loop buf p len kind =
     Some (k, len + length (concat (map utf16_units (utf8_codes buf p))))"
proof (induction buf p len kind rule: utf8_scan_loop.induct)
  case (1 buf p len kind)
  show ?case
  proof (cases "p < length buf")
    case False
    then show ?thesis
      by (simp add: utf8_scan_loop.simps [of buf] utf8_codes.simps [of buf p])
  next
    case p: True
    obtain c q where dec: "utf8_decode_len buf p (length buf - p) = Some (c, q)"
      using utf8_decode_len_defined [of "length buf - p" p buf] p by fastforce
    note unfold = utf8_scan_loop.simps [of buf p len kind] utf8_codes.simps [of buf p]
    show ?thesis
    proof (cases "0x80 \<le> buf ! p")
      case True
      have "(0xFF :: u32) < c" if "0xFFFF < c"
        using that by (simp add: cmp_nat)
      with "1.IH"(1) [OF p True dec refl refl refl refl refl] show ?thesis
        using p True dec by (auto simp: unfold utf16_units_def Let_def)
    next
      case False
      with dec p have "c = ucast (buf ! p)" "q = p + 1"
        by (simp_all add: utf8_decode_len_ascii)
      with False show ?thesis
        using p dec "1.IH"(2) [OF p False] by (simp add: unfold utf16_units_def widen_gt)
    qed
  qed
qed

lemma ascii_or: "(0x80 \<le> (a OR b :: u8)) \<longleftrightarrow> 0x80 \<le> a \<or> 0x80 \<le> b"
proof -
  have "a OR b < 0x80" if "a < 0x80" "b < 0x80"
  proof -
    have "take_bit 7 (unat a) = unat a" "take_bit 7 (unat b) = unat b"
      using that by (simp_all add: take_bit_nat_eq_self cmp_nat)
    then have "take_bit 7 (unat a OR unat b) = unat a OR unat b"
      by (simp only: take_bit_or)
    then have "unat a OR unat b < 2 ^ 7"
      by (rule take_bit_nat_eq_self_iff [THEN iffD1])
    then show ?thesis by (simp add: cmp_nat unsigned_or_eq)
  qed
  moreover have "0x80 \<le> a OR b" if "0x80 \<le> a \<or> 0x80 \<le> b"
    using that order.trans [OF _ le_word_or1 [of a b]] order.trans [OF _ le_word_or2 [of b a]]
    by (auto simp: or.commute [of b a])
  ultimately show ?thesis by (meson not_le)
qed

lemma ascii_foldl: "0x80 \<le> foldl (OR) acc bs \<longleftrightarrow> 0x80 \<le> acc \<or> (\<exists>b \<in> set bs. 0x80 \<le> (b :: u8))"
  by (induction bs arbitrary: acc) (auto simp: ascii_or)

lemma utf8_codes_ascii:
  "\<forall>b \<in> set buf. \<not> 0x80 \<le> b \<Longrightarrow> p \<le> length buf \<Longrightarrow>
    utf8_codes buf p = map ucast (drop p buf)"
proof (induction buf p rule: utf8_codes.induct)
  case (1 buf p)
  show ?case
  proof (cases "p < length buf")
    case True
    with "1.prems" have "utf8_decode_len buf p (length buf - p) = Some (ucast (buf ! p), p + 1)"
      by (intro utf8_decode_len_ascii) auto
    with "1.IH" [OF True this refl] "1.prems" True show ?thesis
      by (simp add: utf8_codes.simps [of buf p] Cons_nth_drop_Suc [symmetric])
  qed (simp add: utf8_codes.simps [of buf p])
qed

lemma units_ascii: "concat (map (utf16_units \<circ> ucast) (bs :: u8 list)) = map ucast bs"
  by (induction bs) (simp_all add: utf16_units_def widen_gt ucast_widen)

text \<open>Property C14 (functional): the two passes over a UTF-8 buffer agree.
  \<^verbatim>\<open>utf8_scan\<close> never reads outside the buffer, and the length it reports is the number
  of UTF-16 units that \<^verbatim>\<open>utf8_decode_buf16\<close> then produces, for every destination;
  the decoder stores exactly the units that fit and leaves the rest of the destination.\<close>

theorem utf8_scan_decode16:
  "\<exists>kind us. utf8_scan src = Some (kind, length us)
     \<and> utf8_decode_buf16 dest src =
         Some (take (length dest) us @ drop (length us) dest, length us)
     \<and> us = concat (map utf16_units (utf8_codes src 0))"
proof -
  define us where "us = concat (map utf16_units (utf8_codes src 0))"
  have "utf8_decode_buf16 dest src = Some (take (length dest) us @ drop (length us) dest, length us)"
    by (simp add: utf8_decode_buf16_def utf8_decode_buf16_loop_eq put_from_0 us_def)
  moreover have "\<exists>kind. utf8_scan src = Some (kind, length us)"
  proof (cases "\<exists>b \<in> set src. 0x80 \<le> b")
    case True
    then show ?thesis
      using utf8_scan_loop_len [of src 0 0 UTF8_NON_ASCII]
      by (auto simp: utf8_scan_def ascii_foldl us_def)
  next
    case False
    then show ?thesis
      by (simp add: utf8_scan_def ascii_foldl us_def utf8_codes_ascii units_ascii map_map)
  qed
  ultimately show ?thesis using us_def by blast
qed


section \<open>Surrogate pairs\<close>

lemma and_1023: "x AND 1023 = (x AND mask 10 :: u32)"
  by (simp add: mask_eq_exp_minus_1)

lemma unat_from_surrogate:
  "unat (from_surrogate h l) = 65536 + 1024 * (unat h mod 1024) + unat l mod 1024"
proof -
  have "unat h mod 1024 < 1024" "unat l mod 1024 < 1024" by simp_all
  then show ?thesis
    by (simp add: from_surrogate_def and_1023 unat_word_ariths unat_and_mask)
qed

lemma hi_surrogate_iff: "is_hi_surrogate c \<longleftrightarrow> unat c div 1024 = 54"
  by (simp add: is_hi_surrogate_def word_unat_eq_iff unat_drop_bit)

lemma lo_surrogate_iff: "is_lo_surrogate c \<longleftrightarrow> unat c div 1024 = 55"
  by (simp add: is_lo_surrogate_def word_unat_eq_iff unat_drop_bit)

lemma nat_or_lo: "a < 1024 \<Longrightarrow> a OR 56320 = (a + 56320 :: nat)"
  using nat_or_add [of a 10 55] by simp

lemma unat_get_lo: "unat (get_lo_surrogate c) = 56320 + unat c mod 1024"
  using nat_or_lo [of "unat c mod 1024"]
  by (simp add: get_lo_surrogate_def and_1023 [of c] unsigned_or_eq unat_and_mask [of c 10])

lemma get_hi_num: "get_hi_surrogate c = drop_bit 10 c + 55232"
  by (simp add: get_hi_surrogate_def)

lemma unat_get_hi: "unat (get_hi_surrogate c) = unat c div 1024 + 55232"
proof -
  have "unat c div 1024 < 4194304"
    using unat_u32_less [of c] by (simp add: less_mult_imp_div_less)
  then show ?thesis by (simp add: get_hi_num unat_word_ariths unat_drop_bit)
qed

lemma unat_widen16: "unat (ucast (w :: u16) :: u32) = unat w"
proof -
  have "unat w < 65536" using unsigned_less [of w] by simp
  then show ?thesis by (simp add: unat_ucast_mod)
qed

lemma unat_u16_less: "unat (w :: u16) < 65536"
  using unsigned_less [of w] by simp

lemma utf16_units_pair:
  assumes "is_hi_surrogate (ucast (h :: u16))" "is_lo_surrogate (ucast (l :: u16))"
  shows "utf16_units (from_surrogate (ucast h) (ucast l)) = [h, l]"
proof -
  let ?c = "from_surrogate (ucast h) (ucast l)"
  have h: "unat h div 1024 = 54" and l: "unat l div 1024 = 55"
    using assms by (simp_all add: hi_surrogate_iff lo_surrogate_iff unat_widen16)
  then have e: "unat h = 55296 + unat h mod 1024" "unat l = 56320 + unat l mod 1024"
    using mult_div_mod_eq [of 1024 "unat h"] mult_div_mod_eq [of 1024 "unat l"] by simp_all
  have c: "unat ?c = 65536 + 1024 * (unat h mod 1024) + unat l mod 1024"
    by (simp add: unat_from_surrogate unat_widen16)
  then have "unat ?c = unat l mod 1024 + 1024 * (64 + unat h mod 1024)"
    by simp
  then have "unat ?c div 1024 = 64 + unat h mod 1024" "unat ?c mod 1024 = unat l mod 1024"
    by (simp_all only: div_mult_self2 [of 1024] mod_mult_self2 mod_mod_trivial)
  with e have "unat (get_hi_surrogate ?c) = unat h" "unat (get_lo_surrogate ?c) = unat l"
    unfolding unat_get_hi unat_get_lo by linarith+
  then have "ucast (get_hi_surrogate ?c) = h" "ucast (get_lo_surrogate ?c) = l"
    by (simp_all add: word_unat_eq_iff unat_ucast_mod unat_u16_less)
  then show ?thesis
    by (simp add: utf16_units_def cmp_nat c)
qed

lemma utf16_units_single: "utf16_units (ucast (w :: u16)) = [w]"
  using unat_u16_less [of w]
  by (simp add: utf16_units_def cmp_nat unat_widen16 word_unat_eq_iff unat_ucast_mod [where 'a = 32])

lemma from_surrogate_bounds: "0xFFFF < from_surrogate h l \<and> from_surrogate h l < 0x110000"
proof -
  have "unat h mod 1024 < 1024" "unat l mod 1024 < 1024" by simp_all
  then show ?thesis by (simp add: cmp_nat unat_from_surrogate)
qed

lemma utf16_single_bounds: "\<not> 0xFFFF < (ucast (w :: u16) :: u32)"
  using unat_u16_less [of w] by (simp add: cmp_nat unat_widen16)

lemma utf16_units_next:
  "i < length src \<Longrightarrow> utf16_next src i = (c, i') \<Longrightarrow>
    utf16_units c = take (i' - i) (drop i src) \<and> i' \<le> length src \<and> c < 0x110000
    \<and> i' = i + 1 + (if 0xFFFF < c then 1 else 0)"
  using from_surrogate_bounds utf16_single_bounds [of "src ! i"]
    utf16_units_pair [of "src ! i" "src ! Suc i"] utf16_units_single [of "src ! i"]
  by (auto simp: utf16_next_def Let_def cmp_nat Cons_nth_drop_Suc [symmetric] split: if_splits
      dest: order.strict_trans1)


lemma utf16_units_codes:
  "i \<le> length src \<Longrightarrow> concat (map utf16_units (utf16_codes src i)) = drop i src"
proof (induction src i rule: utf16_codes.induct)
  case (1 src i)
  show ?case
  proof (cases "i < length src")
    case True
    obtain c i' where n: "utf16_next src i = (c, i')" by fastforce
    have u: "utf16_units c = take (i' - i) (drop i src)" "i' \<le> length src" "i < i'"
      using utf16_units_next [OF True n] utf16_next_less [OF n] by simp_all
    have "drop i src = take (i' - i) (drop i src) @ drop i' src"
      using u(3) by (metis append_take_drop_id drop_drop le_add_diff_inverse2 less_imp_le)
    with "1.IH" [OF True n [symmetric] u(2)] True n u(1) show ?thesis
      by (simp add: utf16_codes.simps [of src i])
  qed (use "1.prems" in \<open>simp add: utf16_codes.simps [of src]\<close>)
qed

lemma utf16_codes_bound: "\<forall>c \<in> set (utf16_codes src i). c < 0x110000"
proof (induction src i rule: utf16_codes.induct)
  case (1 src i)
  show ?case
  proof (cases "i < length src")
    case True
    obtain c i' where n: "utf16_next src i = (c, i')" by fastforce
    with "1.IH" [OF True n [symmetric]] utf16_units_next [OF True n] True show ?thesis
      by (simp add: utf16_codes.simps [of src i])
  qed (simp add: utf16_codes.simps [of src i])
qed

section \<open>Encoding into a bounded destination\<close>

text \<open>
  The outcome of encoding the characters \<open>cs\<close>: \<open>k\<close> characters are stored, a null byte
  follows them, and a character is left out only when it does not fit together with
  the terminator.
\<close>

definition encoded_into :: "u32 list \<Rightarrow> u8 list \<Rightarrow> u8 list \<Rightarrow> bool" where
  "encoded_into cs dest dest' \<longleftrightarrow>
     (\<exists>k out. k \<le> length cs \<and> out = concat (map utf8_encode (take k cs))
        \<and> dest' = take (length dest) (out @ [0]) @ drop (length out + 1) dest
        \<and> (dest \<noteq> [] \<longrightarrow> length out < length dest)
        \<and> (k < length cs \<longrightarrow> length dest \<le> length out + length (utf8_encode (cs ! k))))"

definition utf8_bytes :: "u32 list \<Rightarrow> u8 list" where
  "utf8_bytes cs = concat (map utf8_encode cs)"

lemma utf8_count_buf16_eq:
  "utf8_count_buf16 src i j = j + length (utf8_bytes (utf16_codes src i))"
proof (induction src i j rule: utf8_count_buf16.induct)
  case (1 src i j)
  show ?case
  proof (cases "i < length src")
    case True
    show ?thesis
    proof (cases "(ucast (src ! i) :: u32) < 0x80")
      case small: True
      then have "utf16_next src i = (ucast (src ! i), i + 1)" "length (utf8_encode (ucast (src ! i))) = 1"
        by (auto simp: utf16_next_def hi_surrogate_iff cmp_nat length_utf8_encode utf8_encode_len_def)
      with True small "1.IH"(1) [OF True refl small] show ?thesis
        by (simp add: utf8_count_buf16.simps [of src i j] utf16_codes.simps [of src i] utf8_bytes_def)
    next
      case False
      obtain c i' where n: "utf16_next src i = (c, i')" by fastforce
      with True False "1.IH"(2) [OF True refl False n [symmetric]] show ?thesis
        by (simp add: utf8_count_buf16.simps [of src i j] utf16_codes.simps [of src i] utf8_bytes_def
          length_utf8_encode)
    qed
  qed (simp add: utf8_count_buf16.simps [of src i j] utf16_codes.simps [of src i] utf8_bytes_def)
qed


text \<open>One call of the store loop: \<open>k\<close> more characters are written from position \<open>j\<close>.\<close>

definition stored :: "u32 list \<Rightarrow> u8 list \<Rightarrow> nat \<Rightarrow> nat \<Rightarrow> u8 list \<Rightarrow> nat \<Rightarrow> bool" where
  "stored cs dest j k d j2 \<longleftrightarrow> k \<le> length cs
     \<and> j2 = j + length (utf8_bytes (take k cs))
     \<and> (0 < k \<longrightarrow> j2 < length dest)
     \<and> d = take j dest @ utf8_bytes (take k cs) @ drop j2 dest
     \<and> (k < length cs \<longrightarrow> length dest \<le> j2 + length (utf8_encode (cs ! k)))"

lemma utf8_bytes_simps [simp]:
  "utf8_bytes [] = []" "utf8_bytes (c # cs) = utf8_encode c @ utf8_bytes cs"
  by (simp_all add: utf8_bytes_def)

lemma stored_0_full: "j \<le> length dest \<or> dest = [] \<Longrightarrow> stored [] dest j 0 dest j"
  by (auto simp: stored_def)

lemma stored_0_stop:
  "length dest \<le> j + length (utf8_encode c) \<Longrightarrow> stored (c # cs) dest j 0 dest j"
  by (auto simp: stored_def)

lemma stored_Suc:
  assumes "wrs dest j (utf8_encode c) = Some d1" "j + length (utf8_encode c) < length dest"
    and "stored cs d1 (j + length (utf8_encode c)) k d j2"
  shows "stored (c # cs) dest j (Suc k) d j2"
  using assms by (cases "k = 0") (auto simp: stored_def wrs_Some_iff min_def add_ac)

lemma utf8_encode_ascii: "(c :: u32) < 0x80 \<Longrightarrow> utf8_encode c = [ucast c]"
  by (simp add: utf8_encode_def)

lemma utf16_next_ascii:
  "(ucast (src ! i) :: u32) < 0x80 \<Longrightarrow> utf16_next src i = (ucast (src ! i), i + 1)"
  by (auto simp: utf16_next_def hi_surrogate_iff cmp_nat)

lemma utf8_encode_buf16_loop_stored:
  assumes "i \<le> length src"
  shows "\<exists>k d i2 j2 ov. utf8_encode_buf16_loop dest src i j = Some (d, i2, j2, ov)
     \<and> stored (utf16_codes src i) dest j k d j2
     \<and> (ov \<longleftrightarrow> k < length (utf16_codes src i))
     \<and> (ov \<longrightarrow> utf16_codes src i2 = drop k (utf16_codes src i))"
  using assms
proof (induction dest src i j rule: utf8_encode_buf16_loop.induct)
  case (1 dest src i j)
  show ?case
  proof (cases "i < length src")
    case False
    then show ?thesis
      by (auto simp: utf8_encode_buf16_loop.simps [of dest] utf16_codes.simps [of src i] stored_def)
  next
    case i: True
    obtain c i' where n: "utf16_next src i = (c, i')" by fastforce
    have c: "utf16_codes src i = c # utf16_codes src i'"
      using i n by (simp add: utf16_codes.simps [of src i])
    have i': "i' \<le> length src" "i' - (1 + (if 0xFFFF < c then 1 else 0)) = i"
      using utf16_units_next [OF i n] by simp_all
    have step: "utf8_encode_buf16_loop dest src i j =
        (if length dest \<le> j + length (utf8_encode c) then Some (dest, i, j, True)
         else case wrs dest j (utf8_encode c) of None \<Rightarrow> None
           | Some d \<Rightarrow> utf8_encode_buf16_loop d src i' (j + length (utf8_encode c)))"
    proof (cases "(ucast (src ! i) :: u32) < 0x80")
      case True
      with n have "c = ucast (src ! i)" "i' = i + 1" by (simp_all add: utf16_next_ascii)
      with True i show ?thesis
        by (simp add: utf8_encode_buf16_loop.simps [of dest src i j] utf8_encode_ascii)
    next
      case False
      with i n i'(2) show ?thesis
        by (simp add: utf8_encode_buf16_loop.simps [of dest src i j] length_utf8_encode)
    qed
    show ?thesis
    proof (cases "length dest \<le> j + length (utf8_encode c)")
      case True
      then show ?thesis
        unfolding step c by (intro exI [of _ 0]) (auto intro: stored_0_stop simp: c)
    next
      case False
      then obtain d1 where d1: "wrs dest j (utf8_encode c) = Some d1" by simp
      have "\<exists>k d i2 j2 ov. utf8_encode_buf16_loop d1 src i' (j + length (utf8_encode c))
            = Some (d, i2, j2, ov)
          \<and> stored (utf16_codes src i') d1 (j + length (utf8_encode c)) k d j2
          \<and> (ov \<longleftrightarrow> k < length (utf16_codes src i'))
          \<and> (ov \<longrightarrow> utf16_codes src i2 = drop k (utf16_codes src i'))"
      proof (cases "(ucast (src ! i) :: u32) < 0x80")
        case True
        with n have "c = ucast (src ! i)" "i' = i + 1" by (simp_all add: utf16_next_ascii)
        with "1.IH"(1) [OF i refl True] False d1 i' True show ?thesis
          by (simp add: utf8_encode_ascii)
      next
        case nascii: False
        with "1.IH"(2) [OF i refl nascii n [symmetric] _ d1] False i' show ?thesis
          by (simp add: length_utf8_encode)
      qed
      then show ?thesis
        unfolding step c using False d1 stored_Suc [OF d1] by fastforce
    qed
  qed
qed


section \<open>Round trips\<close>

lemma utf8_encode_lead:
  assumes "c < 0x110000" "at_pos bs p (utf8_encode c)"
  shows "p < length bs" "utf8_encode_len c = 1 \<Longrightarrow> unat (bs ! p) < 128"
    "utf8_encode_len c = 2 \<Longrightarrow> unat (bs ! p) < 224" "utf8_encode_len c = 3 \<Longrightarrow> unat (bs ! p) < 240"
proof -
  have n: "unat c < 1114112" using assms(1) by (simp add: cmp_nat)
  consider "unat c < 128" | "128 \<le> unat c" "unat c < 2048" | "2048 \<le> unat c" "unat c < 65536"
    | "65536 \<le> unat c" by linarith
  note cases = this
  show "p < length bs"
    using assms(2) utf8_encode_len_pos [of c]
    by (auto simp: at_pos_def length_utf8_encode simp del: utf8_encode_len_pos)
  show "unat (bs ! p) < 128" if "utf8_encode_len c = 1"
    using that assms(2)
    by (auto simp: utf8_encode_len_def cmp_nat utf8_encode_def unat_ucast_mod split: if_splits)
  show "unat (bs ! p) < 224" if "utf8_encode_len c = 2"
  proof -
    have "128 \<le> unat c" "unat c < 2048"
      using that by (auto simp: utf8_encode_len_def cmp_nat split: if_splits)
    then show ?thesis using assms(2) by (simp add: utf8_encode2 del: of_nat_add)
  qed
  show "unat (bs ! p) < 240" if "utf8_encode_len c = 3"
  proof -
    have "2048 \<le> unat c" "unat c < 65536"
      using that n by (auto simp: utf8_encode_len_def cmp_nat split: if_splits)
    then show ?thesis using assms(2) by (simp add: utf8_encode3 del: of_nat_add)
  qed
qed

lemma utf8_encode_len_cases:
  "utf8_encode_len c = 1 \<or> utf8_encode_len c = 2 \<or> utf8_encode_len c = 3 \<or> utf8_encode_len c = 4"
  by (simp add: utf8_encode_len_def)

lemma utf8_decode_len_at_encode:
  assumes "c < 0x110000" "at_pos bs p (utf8_encode c)" "utf8_encode_len c \<le> n"
  shows "utf8_decode_len bs p n = Some (c, p + utf8_encode_len c)"
  using assms(3) utf8_decode_at_encode [OF assms(1,2)] utf8_encode_lead [OF assms(1,2)]
    utf8_encode_len_cases [of c]
  by (elim disjE) (auto simp: utf8_decode_len_def cmp_nat)

lemma at_pos_mid: "at_pos (xs @ e @ ys) (length xs) e"
  by simp

lemma utf8_codes_bytes:
  "\<forall>c \<in> set cs. c < 0x110000 \<Longrightarrow> utf8_codes (pre @ utf8_bytes cs) (length pre) = cs"
proof (induction cs arbitrary: pre)
  case Nil
  then show ?case by (simp add: utf8_codes.simps [of pre])
next
  case (Cons c cs)
  let ?bs = "pre @ utf8_encode c @ utf8_bytes cs"
  have "utf8_decode_len ?bs (length pre) (length ?bs - length pre)
      = Some (c, length pre + utf8_encode_len c)"
    using Cons.prems by (intro utf8_decode_len_at_encode at_pos_mid) (simp_all add: length_utf8_encode)
  moreover have "length pre < length ?bs"
    by (simp add: length_utf8_encode)
  moreover have "utf8_codes ?bs (length pre + utf8_encode_len c) = cs"
    using Cons.IH [of "pre @ utf8_encode c"] Cons.prems by (simp add: length_utf8_encode)
  ultimately show ?case
    by (simp add: utf8_codes.simps [of ?bs "length pre"])
qed

lemma utf8_encode_buf16_full:
  "\<exists>dest'. utf8_encode_buf16 dest src = Some (dest', length (utf8_bytes (utf16_codes src 0)))
     \<and> encoded_into (utf16_codes src 0) dest dest'
     \<and> length dest' = length dest"
proof -
  let ?cs = "utf16_codes src 0"
  obtain k d i2 j2 ov where l: "utf8_encode_buf16_loop dest src 0 0 = Some (d, i2, j2, ov)"
      and st: "stored ?cs dest 0 k d j2" and ov: "ov \<longleftrightarrow> k < length ?cs"
      and i2: "ov \<longrightarrow> utf16_codes src i2 = drop k ?cs"
    using utf8_encode_buf16_loop_stored [of 0 src dest 0] by auto
  have n: "(if ov then utf8_count_buf16 src i2 j2 else j2) = length (utf8_bytes ?cs)"
  proof (cases ov)
    case True
    have "utf8_bytes ?cs = utf8_bytes (take k ?cs) @ utf8_bytes (drop k ?cs)"
      by (metis append_take_drop_id concat_append map_append utf8_bytes_def)
    with True i2 st show ?thesis by (simp add: utf8_count_buf16_eq stored_def)
  next
    case False
    with ov st show ?thesis by (simp add: stored_def)
  qed
  have "encoded_into ?cs dest (put_if d j2 0) \<and> length d = length dest"
    using st by (cases "dest = []"; cases "k = 0")
      (auto simp: encoded_into_def stored_def put_if_def utf8_bytes_def list_update_append
        drop_update_swap Cons_nth_drop_Suc [symmetric] upd_conv_take_nth_drop take_Cons'
        intro!: exI [of _ k])
  with l n show ?thesis by (auto simp: utf8_encode_buf16_def)
qed


section \<open>Properties\<close>

text \<open>Property C31 (functional): \<^verbatim>\<open>utf8_encode_buf16\<close> works like \<^verbatim>\<open>snprintf\<close>.
  Whatever the size of the destination it never writes outside it, and it returns the
  length of the complete encoding; what it stores is the longest prefix of whole
  characters that leaves room for the terminating null byte.\<close>

theorem utf8_encode_buf16_bounded:
  "\<exists>dest'. utf8_encode_buf16 dest src = Some (dest', length (utf8_bytes (utf16_codes src 0)))
     \<and> length dest' = length dest
     \<and> encoded_into (utf16_codes src 0) dest dest'"
  using utf8_encode_buf16_full [of dest src] by blast

text \<open>Property C30 (roundtrip): a UTF-16 string, well-formed or with lone surrogates,
  survives encoding to UTF-8 and decoding back, whenever the destination had room.\<close>

theorem utf16_utf8_roundtrip:
  assumes "utf8_encode_buf16 dest src = Some (dest', n)" "n < length dest"
  shows "utf8_decode_buf16 out (take n dest') =
    Some (take (length out) src @ drop (length src) out, length src)"
proof -
  let ?cs = "utf16_codes src 0"
  have n: "n = length (utf8_bytes ?cs)" and enc: "encoded_into ?cs dest dest'"
    using utf8_encode_buf16_full [of dest src] assms(1) by auto
  from enc obtain k o' where k: "k \<le> length ?cs" "o' = utf8_bytes (take k ?cs)"
      "dest' = take (length dest) (o' @ [0]) @ drop (length o' + 1) dest"
      "k < length ?cs \<longrightarrow> length dest \<le> length o' + length (utf8_encode (?cs ! k))"
    unfolding encoded_into_def utf8_bytes_def by blast
  have split: "utf8_bytes ?cs = o' @ utf8_bytes (drop k ?cs)"
    unfolding k(2) by (metis append_take_drop_id concat_append map_append utf8_bytes_def)
  have "k = length ?cs"
  proof (rule ccontr)
    assume "k \<noteq> length ?cs"
    with k(1) have lt: "k < length ?cs" by simp
    then have "utf8_bytes (drop k ?cs) = utf8_encode (?cs ! k) @ utf8_bytes (drop (Suc k) ?cs)"
      by (simp add: Cons_nth_drop_Suc [symmetric])
    with k(4) lt split n assms(2) show False by simp
  qed
  with k(2,3) n assms(2) have "take n dest' = utf8_bytes ?cs" by simp
  moreover have "utf8_codes (utf8_bytes ?cs) 0 = ?cs"
    using utf8_codes_bytes [of ?cs "[]"] utf16_codes_bound [of src 0] by simp
  ultimately show ?thesis
    using utf16_units_codes [of 0 src]
    by (simp add: utf8_decode_buf16_def utf8_decode_buf16_loop_eq put_from_0)
qed

theorem utf16_utf8_roundtrip_witness:
  "utf8_decode_buf16 [7, 7, 7, 7, 7] [0x61, 0xED, 0xA0, 0x80, 0xF0, 0x9F, 0x98, 0x80]
     = Some ([0x61, 0xD800, 0xD83D, 0xDE00, 7], 4)"
proof -
  have e: "utf8_encode_buf16 (replicate 10 0) [0x61, 0xD800, 0xD83D, 0xDE00]
     = Some ([0x61, 0xED, 0xA0, 0x80, 0xF0, 0x9F, 0x98, 0x80, 0, 0], 8)"
    by code_simp
  show ?thesis
    using utf16_utf8_roundtrip [OF e, of "[7, 7, 7, 7, 7]"] by simp
qed

lemma unat_byte_mod [simp]: "unat (b :: u8) mod 65536 = unat b"
  using order.strict_trans [OF unat_byte_less [of b], of 65536] by simp

lemma unat_byte_div [simp]: "unat (b :: u8) div 1024 = 0"
  using order.strict_trans [OF unat_byte_less [of b], of 1024] by simp

lemma widen_byte16: "(ucast (ucast (b :: u8) :: u16) :: u32) = ucast b"
  by (simp add: word_unat_eq_iff unat_widen16 unat_widen unat_ucast_mod [where 'b = 16])

lemma utf16_next_byte:
  "i < length src \<Longrightarrow> utf16_next (map ucast (src :: u8 list)) i = (ucast (src ! i), i + 1)"
  by (simp add: utf16_next_def hi_surrogate_iff widen_byte16 unat_widen Let_def)

lemma utf8_encode_latin1:
  "\<not> (ucast (b :: u8) :: u32) < 0x80 \<Longrightarrow> utf8_encode (ucast b) =
    [ucast (drop_bit 6 (ucast b :: u32) OR 0xC0), ucast (((ucast b :: u32) AND 0x3F) OR 0x80)]"
  using order.strict_trans [OF unat_byte_less [of b], of 2048]
  by (simp add: utf8_encode_def cmp_nat)

lemma utf8_encode_buf8_loop_widen:
  "utf8_encode_buf8_loop dest src i j = utf8_encode_buf16_loop dest (map ucast src) i j"
proof (induction dest src i j rule: utf8_encode_buf8_loop.induct)
  case (1 dest src i j)
  note unf = utf8_encode_buf8_loop.simps [of dest src i j]
    utf8_encode_buf16_loop.simps [of dest "map ucast src" i j]
  show ?case
  proof (cases "i < length src")
    case i: True
    show ?thesis
    proof (cases "(ucast (src ! i) :: u32) < 0x80")
      case True
      with i "1.IH"(1) [OF i refl True] show ?thesis
        by (auto simp: unf widen_byte16 split: option.splits)
    next
      case False
      have l: "utf8_encode_len (ucast (src ! i)) = 2"
        using False by (simp add: length_utf8_encode [symmetric] utf8_encode_latin1)
      from False i l "1.IH"(2) [OF i refl False] show ?thesis
        by (auto simp: unf widen_byte16 utf16_next_byte utf8_encode_latin1 widen_gt Let_def
            split: option.splits)
    qed
  qed (simp add: unf)
qed

lemma utf8_count_buf8_widen: "utf8_count_buf8 src i j = utf8_count_buf16 (map ucast src) i j"
proof (induction src i j rule: utf8_count_buf8.induct)
  case (1 src i j)
  show ?case
  proof (cases "i < length src")
    case i: True
    have "utf8_encode_len (ucast (src ! i)) = 2" if "0x80 \<le> src ! i"
      using that by (simp add: length_utf8_encode [symmetric] utf8_encode_latin1 cmp_nat)
    with "1.IH" [OF i] i show ?thesis
      by (auto simp: utf8_count_buf8.simps [of src i j] utf8_count_buf16.simps [of _ i j]
          widen_byte16 utf16_next_byte cmp_nat)
  qed (simp add: utf8_count_buf8.simps [of src i j] utf8_count_buf16.simps [of _ i j])
qed

text \<open>The 8-bit encoder is the 16-bit one on widened units,
  on every source, destination and destination length, the overflow path included.\<close>

theorem utf8_encode_buf8_is_buf16:
  "utf8_encode_buf8 dest src = utf8_encode_buf16 dest (map ucast src)"
  by (auto simp: utf8_encode_buf8_def utf8_encode_buf16_def utf8_encode_buf8_loop_widen
    utf8_count_buf8_widen split: option.splits)

text \<open>Property C20 (functional): \<^verbatim>\<open>utf8_decode\<close> accepts the encodings of the code points
  up to \<open>0x10FFFF\<close> and nothing else: where the four bytes it may look at are there, it
  returns a code point with its full length when the encoding of that code point stands
  at the position, and otherwise the replacement character after one byte.\<close>

theorem utf8_decode_exact:
  assumes "p + 4 \<le> length bs"
  shows "utf8_decode bs p = Some (c, q) \<longleftrightarrow>
    (c < 0x110000 \<and> at_pos bs p (utf8_encode c) \<and> q = p + utf8_encode_len c)
    \<or> ((\<forall>d. d < 0x110000 \<longrightarrow> \<not> at_pos bs p (utf8_encode d)) \<and> c = 0xFFFD \<and> q = p + 1)"
proof
  assume *: "utf8_decode bs p = Some (c, q)"
  then show "(c < 0x110000 \<and> at_pos bs p (utf8_encode c) \<and> q = p + utf8_encode_len c)
    \<or> ((\<forall>d. d < 0x110000 \<longrightarrow> \<not> at_pos bs p (utf8_encode d)) \<and> c = 0xFFFD \<and> q = p + 1)"
    by (rule utf8_decode_Some) (use * utf8_decode_at_encode in fastforce)+
next
  have "utf8_decode bs p \<noteq> None"
    using assms utf8_decode_defined [of p bs] by simp
  then obtain d r where dr: "utf8_decode bs p = Some (d, r)" by auto
  assume "(c < 0x110000 \<and> at_pos bs p (utf8_encode c) \<and> q = p + utf8_encode_len c)
    \<or> ((\<forall>d. d < 0x110000 \<longrightarrow> \<not> at_pos bs p (utf8_encode d)) \<and> c = 0xFFFD \<and> q = p + 1)"
  then show "utf8_decode bs p = Some (c, q)"
    using dr utf8_decode_at_encode by (auto elim: utf8_decode_Some)
qed

theorem utf8_decode_exact_witness:
  "utf8_decode [0xE2, 0x82, 0xAC, 0] 0 = Some (0x20AC, 3)"
proof -
  have l: "0 + 4 \<le> length [0xE2, 0x82, 0xAC, 0 :: u8]" by simp
  have a: "(0x20AC :: u32) < 0x110000 \<and> at_pos [0xE2, 0x82, 0xAC, 0] 0 (utf8_encode 0x20AC)
      \<and> 3 = 0 + utf8_encode_len 0x20AC"
    by (simp add: utf8_encode_def utf8_encode_len_def)
  show ?thesis
    using utf8_decode_exact [OF l, of "0x20AC" 3] a by blast
qed

text \<open>Property C32 (safety): \<^verbatim>\<open>utf8_decode_len\<close> is safe at the end of a buffer. Called with
  the number of bytes left, it returns without reading past them (the bytes behind do not
  even influence it), it does not advance past them, it advances when there are any, and it
  returns a code point of Unicode.\<close>

theorem utf8_decode_len_safe:
  assumes "p + n \<le> length bs"
  shows "\<exists>c q. utf8_decode_len bs p n = Some (c, q)
     \<and> utf8_decode_len (take (p + n) bs) p n = Some (c, q)
     \<and> q \<le> p + n \<and> (0 < n \<longrightarrow> p < q) \<and> c < 0x110000"
proof (cases "n = 0")
  case True
  then show ?thesis by (simp add: utf8_decode_len_def)
next
  case False
  let ?b = "take (p + n) bs"
  have len: "length ?b = p + n" using assms by simp
  have "utf8_decode_len ?b p n \<noteq> None"
    using False len by (intro utf8_decode_len_defined) simp_all
  then obtain c q where cq: "utf8_decode_len ?b p n = Some (c, q)" by auto
  then have "utf8_decode_len bs p n = Some (c, q)"
    using False assms
    by (auto simp: utf8_decode_len_def bind_Some_iff split: if_splits
      intro: utf8_decode_take [THEN opt_le_Some])
  moreover have "c < 0x110000"
    using cq False by (elim utf8_decode_len_Some) simp_all
  moreover have "p < q \<and> q \<le> p + n"
    using utf8_decode_len_progress [OF cq False] len by simp
  ultimately show ?thesis using cq by blast
qed

theorem utf8_decode_len_safe_witness:
  "\<exists>c q. utf8_decode_len [0x41, 0xE2, 0x82] 1 2 = Some (c, q) \<and> q \<le> 3"
  using utf8_decode_len_safe [of 1 2 "[0x41, 0xE2, 0x82]"] by auto

end
