(* ===== verification/CharRange.thy ===== *)
theory CharRange
  imports Prelude
begin

text \<open>
  Sets of code points as sorted lists of interval bounds, \<^verbatim>\<open>CharRange\<close> of
  \<^verbatim>\<open>quickjs/libunicode.c\<close> and \<^verbatim>\<open>libunicode.h\<close>: even positions open an interval, odd
  positions close it (exclusively). The parameter \<open>rok\<close> is the reallocation callback,
  reduced to whether a request for so many points succeeds; the first \<open>len\<close> points are the
  list \<open>points\<close>, \<open>size\<close> is the capacity. Both are \<open>int\<close> in C and natural
  numbers here: the sum and the product that compute a new capacity overflow only beyond 700 million
  points, where a set of code points has at most 2.3 million. A Boolean result \<open>False\<close> is the C return
  value \<open>-1\<close>.
\<close>

record char_range =
  points :: "u32 list"
  capacity :: nat

datatype cr_op_enum = CR_OP_UNION | CR_OP_INTER | CR_OP_XOR | CR_OP_SUB

definition cr_init :: char_range where
  "cr_init = \<lparr>points = [], capacity = 0\<rparr>"

definition cr_realloc :: "(nat \<Rightarrow> bool) \<Rightarrow> char_range \<Rightarrow> nat \<Rightarrow> bool \<times> char_range" where
  "cr_realloc rok cr sz =
     (if capacity cr < sz then
        let new_size = max sz (capacity cr * 3 div 2) in
        if rok new_size then (True, cr\<lparr>capacity := new_size\<rparr>) else (False, cr)
      else (True, cr))"

definition cr_copy :: "(nat \<Rightarrow> bool) \<Rightarrow> char_range \<Rightarrow> char_range \<Rightarrow> bool \<times> char_range" where
  "cr_copy rok cr cr1 =
     (let (ok, cr) = cr_realloc rok cr (length (points cr1)) in
      if ok then (True, cr\<lparr>points := points cr1\<rparr>) else (False, cr))"

definition cr_add_point :: "(nat \<Rightarrow> bool) \<Rightarrow> char_range \<Rightarrow> u32 \<Rightarrow> bool \<times> char_range" where
  "cr_add_point rok cr v =
     (let (ok, cr) = (if capacity cr \<le> length (points cr)
                      then cr_realloc rok cr (length (points cr) + 1) else (True, cr)) in
      if ok then (True, cr\<lparr>points := points cr @ [v]\<rparr>) else (False, cr))"

definition cr_add_interval :: "(nat \<Rightarrow> bool) \<Rightarrow> char_range \<Rightarrow> u32 \<Rightarrow> u32 \<Rightarrow> bool \<times> char_range" where
  "cr_add_interval rok cr c1 c2 =
     (let (ok, cr) = (if capacity cr < length (points cr) + 2
                      then cr_realloc rok cr (length (points cr) + 2) else (True, cr)) in
      if ok then (True, cr\<lparr>points := points cr @ [c1, c2]\<rparr>) else (False, cr))"

section \<open>Merging adjacent intervals in place\<close>

text \<open>The inner loop moves \<open>j\<close> over the intervals that touch the next one.\<close>

function cr_compress_scan :: "u32 list \<Rightarrow> nat \<Rightarrow> nat" where
  "cr_compress_scan pt j =
     (if j + 3 < length pt \<and> pt ! (j + 1) = pt ! (j + 2) then cr_compress_scan pt (j + 2) else j)"
  by pat_completeness auto
termination
  by (relation "measure (\<lambda>(pt, j). length pt - j)") auto

declare cr_compress_scan.simps [simp del]

lemma cr_compress_scan_ge: "j \<le> cr_compress_scan pt j"
proof (induction pt j rule: cr_compress_scan.induct)
  case (1 pt j)
  then show ?case by (auto simp: cr_compress_scan.simps [of pt j] intro: order.trans)
qed

lemma cr_compress_scan_less: "j + 1 < length pt \<Longrightarrow> cr_compress_scan pt j + 1 < length pt"
proof (induction pt j rule: cr_compress_scan.induct)
  case (1 pt j)
  then show ?case by (auto simp: cr_compress_scan.simps [of pt j])
qed

function cr_compress_loop :: "u32 list \<Rightarrow> nat \<Rightarrow> nat \<Rightarrow> u32 list \<times> nat" where
  "cr_compress_loop pt i k =
     (if i + 1 < length pt then
        if pt ! i = pt ! (i + 1) then cr_compress_loop pt (i + 2) k
        else
          let j = cr_compress_scan pt i;
              pt1 = pt[k := pt ! i];
              pt2 = pt1[k + 1 := pt1 ! (j + 1)]
          in cr_compress_loop pt2 (j + 2) (k + 2)
      else (pt, k))"
  by pat_completeness auto
termination
proof (relation "measure (\<lambda>(pt, i, k). length pt - i)", goal_cases)
  case (3 pt i k j pt1 pt2)
  then show ?case using cr_compress_scan_ge [of i pt] by simp
qed auto

declare cr_compress_loop.simps [simp del]

definition cr_compress :: "char_range \<Rightarrow> char_range" where
  "cr_compress cr =
     (let (pt, k) = cr_compress_loop (points cr) 0 0 in cr\<lparr>points := take k pt\<rparr>)"

section \<open>Set operations\<close>

text \<open>The next point of \<open>a\<close> or \<open>b\<close> in increasing order, with the advanced indices.\<close>

definition cr_next :: "u32 list \<Rightarrow> u32 list \<Rightarrow> nat \<Rightarrow> nat \<Rightarrow> (u32 \<times> nat \<times> nat) option" where
  "cr_next a b i j =
     (if i < length a \<and> j < length b then
        (if a ! i < b ! j then Some (a ! i, i + 1, j)
         else if a ! i = b ! j then Some (a ! i, i + 1, j + 1)
         else Some (b ! j, i, j + 1))
      else if i < length a then Some (a ! i, i + 1, j)
      else if j < length b then Some (b ! j, i, j + 1)
      else None)"

fun cr_is_in :: "cr_op_enum \<Rightarrow> bool \<Rightarrow> bool \<Rightarrow> bool" where
  "cr_is_in CR_OP_UNION x y \<longleftrightarrow> x \<or> y"
| "cr_is_in CR_OP_INTER x y \<longleftrightarrow> x \<and> y"
| "cr_is_in CR_OP_XOR x y \<longleftrightarrow> x \<noteq> y"
| "cr_is_in CR_OP_SUB x y \<longleftrightarrow> x \<and> \<not> y"

lemma cr_next_progress:
  "cr_next a b i j = Some (v, i', j') \<Longrightarrow>
    (length a - i') + (length b - j') < (length a - i) + (length b - j)"
  by (auto simp: cr_next_def split: if_splits)

function cr_op_loop ::
    "(nat \<Rightarrow> bool) \<Rightarrow> char_range \<Rightarrow> u32 list \<Rightarrow> u32 list \<Rightarrow> cr_op_enum \<Rightarrow> nat \<Rightarrow> nat \<Rightarrow> bool \<times> char_range" where
  "cr_op_loop rok cr a b op i j =
     (case cr_next a b i j of
        None \<Rightarrow> (True, cr)
      | Some (v, i', j') \<Rightarrow>
          if cr_is_in op (odd i') (odd j') \<noteq> odd (length (points cr)) then
            (case cr_add_point rok cr v of
               (False, cr') \<Rightarrow> (False, cr')
             | (True, cr') \<Rightarrow> cr_op_loop rok cr' a b op i' j')
          else cr_op_loop rok cr a b op i' j')"
  by pat_completeness auto
termination
  by (relation "measure (\<lambda>(rok, cr, a, b, op, i, j). (length a - i) + (length b - j))")
     (auto dest: cr_next_progress)

declare cr_op_loop.simps [simp del]

definition cr_op ::
    "(nat \<Rightarrow> bool) \<Rightarrow> char_range \<Rightarrow> u32 list \<Rightarrow> u32 list \<Rightarrow> cr_op_enum \<Rightarrow> bool \<times> char_range" where
  "cr_op rok cr a b op =
     (case cr_op_loop rok cr a b op 0 0 of
        (False, cr') \<Rightarrow> (False, cr')
      | (True, cr') \<Rightarrow> (True, cr_compress cr'))"

definition cr_op1 :: "(nat \<Rightarrow> bool) \<Rightarrow> char_range \<Rightarrow> u32 list \<Rightarrow> cr_op_enum \<Rightarrow> bool \<times> char_range" where
  "cr_op1 rok cr b op = cr_op rok (cr\<lparr>points := [], capacity := 0\<rparr>) (points cr) b op"

definition cr_union_interval :: "(nat \<Rightarrow> bool) \<Rightarrow> char_range \<Rightarrow> u32 \<Rightarrow> u32 \<Rightarrow> bool \<times> char_range" where
  "cr_union_interval rok cr c1 c2 = cr_op1 rok cr [c1, c2 + 1] CR_OP_UNION"

definition UINT32_MAX :: u32 where "UINT32_MAX = 0xFFFFFFFF"

definition cr_invert :: "(nat \<Rightarrow> bool) \<Rightarrow> char_range \<Rightarrow> bool \<times> char_range" where
  "cr_invert rok cr =
     (let (ok, cr) = cr_realloc rok cr (length (points cr) + 2) in
      if ok then (True, cr_compress (cr\<lparr>points := 0 # points cr @ [UINT32_MAX]\<rparr>)) else (False, cr))"

section \<open>The set a list of bounds denotes\<close>

text \<open>A code point is in the set when an odd number of bounds is at most it.\<close>

definition below :: "u32 list \<Rightarrow> u32 \<Rightarrow> nat" where
  "below pts c = length (filter (\<lambda>p. p \<le> c) pts)"

definition cr_mem :: "u32 list \<Rightarrow> u32 \<Rightarrow> bool" where
  "cr_mem pts c \<longleftrightarrow> odd (below pts c)"

lemma below_simps [simp]:
  "below [] c = 0" "below (p # ps) c = (if p \<le> c then Suc (below ps c) else below ps c)"
  "below (ps @ qs) c = below ps c + below qs c"
  by (simp_all add: below_def)

lemma below_none: "\<forall>p \<in> set ps. c < p \<Longrightarrow> below ps c = 0"
  by (auto simp: below_def filter_empty_conv)

text \<open>For sorted bounds this is the union of the half-open intervals.\<close>

fun intervals :: "u32 list \<Rightarrow> (u32 \<times> u32) list" where
  "intervals (a # b # r) = (a, b) # intervals r"
| "intervals _ = []"

lemma intervals_fst: "(x, y) \<in> set (intervals ps) \<Longrightarrow> x \<in> set ps"
  by (induction ps rule: intervals.induct) auto

lemma cr_mem_intervals:
  "sorted pts \<Longrightarrow> even (length pts) \<Longrightarrow> cr_mem pts c \<longleftrightarrow> (\<exists>(a, b) \<in> set (intervals pts). a \<le> c \<and> c < b)"
proof (induction pts rule: intervals.induct)
  case (1 a b r)
  then have IH: "cr_mem r c \<longleftrightarrow> (\<exists>(a, b) \<in> set (intervals r). a \<le> c \<and> c < b)" and ab: "a \<le> b"
    by simp_all
  show ?case
  proof (cases "b \<le> c")
    case True
    then have "a \<le> c" using ab by simp
    with True IH show ?thesis by (auto simp: cr_mem_def)
  next
    case False
    then have above: "\<forall>p \<in> set r. c < p" using 1(2) by (auto simp: not_le intro: order.strict_trans2)
    then have "\<not> (\<exists>(a, b) \<in> set (intervals r). a \<le> c \<and> c < b)"
      using intervals_fst by fastforce
    with False above show ?thesis
      by (auto simp: cr_mem_def below_none not_le)
  qed
qed (auto simp: cr_mem_def)

text \<open>Compression on lists: \<open>hold a b r\<close> is the interval under construction and the rest.\<close>

fun cr_merge :: "u32 list \<Rightarrow> u32 list" and hold :: "u32 \<Rightarrow> u32 \<Rightarrow> u32 list \<Rightarrow> u32 list" where
  "cr_merge (a # b # r) = (if a = b then cr_merge r else hold a b r)"
| "cr_merge [] = []"
| "cr_merge [a] = []"
| "hold a b (c # d # r) = (if b = c then hold a d r else a # b # cr_merge (c # d # r))"
| "hold a b [] = [a, b]"
| "hold a b [c] = [a, b]"


lemma drop_two: "j + 1 < length xs \<Longrightarrow> drop j xs = xs ! j # xs ! (j + 1) # drop (j + 2) xs"
  by (simp add: Cons_nth_drop_Suc)

lemma hold_scan:
  "j + 1 < length pt \<Longrightarrow> hold a (pt ! (j + 1)) (drop (j + 2) pt) =
    a # pt ! (cr_compress_scan pt j + 1) # cr_merge (drop (cr_compress_scan pt j + 2) pt)"
proof (induction pt j rule: cr_compress_scan.induct)
  case (1 pt j)
  note [simp del] = drop_drop
  show ?case
  proof (cases "j + 3 < length pt")
    case True
    then have d: "drop (j + 2) pt = pt ! (j + 2) # pt ! (j + 3) # drop (j + 2 + 2) pt"
      using drop_two [of "j + 2" pt] by (simp add: numeral_3_eq_3)
    show ?thesis
    proof (cases "pt ! (j + 1) = pt ! (j + 2)")
      case eq: True
      with True 1(1) have "hold a (pt ! (j + 2 + 1)) (drop (j + 2 + 2) pt)
        = a # pt ! (cr_compress_scan pt (j + 2) + 1) # cr_merge (drop (cr_compress_scan pt (j + 2) + 2) pt)"
        by simp
      with True eq show ?thesis
        unfolding d by (simp add: cr_compress_scan.simps [of pt j] numeral_3_eq_3)
    next
      case False
      then have "cr_compress_scan pt j = j" by (simp add: cr_compress_scan.simps [of pt j])
      then show ?thesis by (simp only: d hold.simps False if_False)
    qed
  next
    case False
    then have "length (drop (j + 2) pt) \<le> 1" by simp
    then have "drop (j + 2) pt = [] \<or> (\<exists>c. drop (j + 2) pt = [c])"
      by (cases "drop (j + 2) pt") (auto simp del: length_drop)
    with False show ?thesis
      by (auto simp: cr_compress_scan.simps [of pt j])
  qed
qed

lemma cr_compress_loop_merge:
  "k \<le> i \<Longrightarrow> cr_compress_loop pt i k = (pt', k') \<Longrightarrow>
    take k' pt' = take k pt @ cr_merge (drop i pt)"
proof (induction pt i k rule: cr_compress_loop.induct)
  case (1 pt i k)
  note step = cr_compress_loop.simps [of pt i k]
  show ?case
  proof (cases "i + 1 < length pt")
    case False
    then have "length (drop i pt) \<le> 1" by simp
    then have "cr_merge (drop i pt) = []"
      by (cases "drop i pt" rule: cr_merge.cases) (auto simp del: length_drop)
    with False 1(4) show ?thesis by (simp add: step)
  next
    case i: True
    note d = drop_two [OF i]
    show ?thesis
    proof (cases "pt ! i = pt ! (i + 1)")
      case True
      with 1(1) [OF i True] 1(3,4) i show ?thesis unfolding d by (simp add: step)
    next
      case False
      define j where "j = cr_compress_scan pt i"
      define pt1 where "pt1 = pt[k := pt ! i]"
      define pt2 where "pt2 = pt1[k + 1 := pt1 ! (j + 1)]"
      have j: "i \<le> j" "j + 1 < length pt"
        using cr_compress_scan_ge [of i pt] cr_compress_scan_less [OF i] by (simp_all add: j_def)
      have "cr_compress_loop pt2 (j + 2) (k + 2) = (pt', k')"
        using 1(4) i False unfolding step j_def pt2_def pt1_def Let_def by simp
      then have "take k' pt' = take (k + 2) pt2 @ cr_merge (drop (j + 2) pt2)"
        using 1(2) [OF i False j_def pt1_def pt2_def] j 1(3) by simp
      moreover have "drop (j + 2) pt2 = drop (j + 2) pt"
        using j 1(3) by (simp add: pt2_def pt1_def)
      moreover have "take (k + 2) pt2 = take k pt @ [pt ! i, pt ! (j + 1)]"
        using j 1(3) by (simp add: pt2_def pt1_def take_Suc_conv_app_nth)
      moreover have "cr_merge (drop i pt) = pt ! i # pt ! (j + 1) # cr_merge (drop (j + 2) pt)"
        unfolding d using False hold_scan [OF i, of "pt ! i"] by (simp add: j_def)
      ultimately show ?thesis by simp
    qed
  qed
qed

lemma points_cr_compress: "points (cr_compress cr) = cr_merge (points cr)"
  using cr_compress_loop_merge [of 0 0 "points cr"]
  by (auto simp: cr_compress_def split: prod.split)

section \<open>What merging keeps and what it establishes\<close>

lemma below_merge:
  "even (length ps) \<Longrightarrow> odd (below (cr_merge ps) c) = odd (below ps c)"
  "even (length r) \<Longrightarrow> odd (below (hold a b r) c) = odd (below (a # b # r) c)"
  by (induction ps and a b r rule: cr_merge_hold.induct) auto

lemma even_length_merge: "even (length (cr_merge ps))" "even (length (hold a b r))"
  by (induction ps and a b r rule: cr_merge_hold.induct) auto

lemma set_merge_subset: "set (cr_merge ps) \<subseteq> set ps" "set (hold a b r) \<subseteq> {a, b} \<union> set r"
  by (induction ps and a b r rule: cr_merge_hold.induct) auto

lemma strict_merge:
  "sorted ps \<Longrightarrow> sorted_wrt (<) (cr_merge ps)"
  "sorted (a # b # r) \<Longrightarrow> a < b \<Longrightarrow> sorted_wrt (<) (hold a b r)"
proof (induction ps and a b r rule: cr_merge_hold.induct)
  case (4 a b c d r)
  show ?case
  proof (cases "b = c")
    case False
    then have "b < c" using 4(3) by (simp add: less_le)
    then have "\<forall>x \<in> set (c # d # r). b < x"
      using 4(3) by (auto intro: order.strict_trans2)
    with set_merge_subset(1) [of "c # d # r"] have "\<forall>x \<in> set (cr_merge (c # d # r)). b < x"
      by blast
    with 4 False show ?thesis by (auto intro: order.strict_trans)
  qed (use 4 in auto)
qed auto


section \<open>The merge of two lists of bounds\<close>

lemma cr_add_point_True: "cr_add_point rok cr v = (True, cr') \<Longrightarrow> points cr' = points cr @ [v]"
  by (auto simp: cr_add_point_def cr_realloc_def Let_def split: if_splits)

lemma cr_add_point_ok: "(\<And>n. rok n) \<Longrightarrow> \<exists>cr'. cr_add_point rok cr v = (True, cr')"
  by (auto simp: cr_add_point_def cr_realloc_def Let_def)

lemma below_drop_step:
  "i < length a \<Longrightarrow> a ! i \<le> c \<Longrightarrow> below (drop i a) c = Suc (below (drop (i + 1) a) c)"
  by (simp add: Cons_nth_drop_Suc [symmetric])

lemma below_drop_0: "sorted a \<Longrightarrow> (i < length a \<Longrightarrow> c < a ! i) \<Longrightarrow> below (drop i a) c = 0"
proof (intro below_none ballI)
  fix p assume sa: "sorted a" and c: "i < length a \<Longrightarrow> c < a ! i" and "p \<in> set (drop i a)"
  then obtain n where "p = a ! (i + n)" "i + n < length a" by (auto simp: in_set_conv_nth)
  with sa c show "c < p"
    using sorted_iff_nth_mono [of a] by (auto intro: order.strict_trans2 [of c "a ! i"])
qed

text \<open>The point taken is the least one left, and only lists whose head it is advance.\<close>

lemma cr_next_Some:
  assumes "cr_next a b i j = Some (v, i', j')" "sorted a" "sorted b"
  shows "v \<le> c \<Longrightarrow> odd (i + below (drop i a) c) = odd (i' + below (drop i' a) c)"
    and "v \<le> c \<Longrightarrow> odd (j + below (drop j b) c) = odd (j' + below (drop j' b) c)"
    and "c < v \<Longrightarrow> below (drop i a) c = 0 \<and> below (drop j b) c = 0
      \<and> below (drop i' a) c = 0 \<and> below (drop j' b) c = 0"
    and "\<forall>x \<in> set (drop i' a) \<union> set (drop j' b). v \<le> x"
proof -
  have a: "i < length a \<Longrightarrow> \<forall>x \<in> set (drop (i + 1) a). a ! i \<le> x"
    and b: "j < length b \<Longrightarrow> \<forall>x \<in> set (drop (j + 1) b). b ! j \<le> x"
    and a0: "i < length a \<Longrightarrow> \<forall>x \<in> set (drop i a). a ! i \<le> x"
    and b0: "j < length b \<Longrightarrow> \<forall>x \<in> set (drop j b). b ! j \<le> x"
    using assms(2,3) by (auto simp: in_set_conv_nth sorted_iff_nth_mono)
  show "v \<le> c \<Longrightarrow> odd (i + below (drop i a) c) = odd (i' + below (drop i' a) c)"
    "v \<le> c \<Longrightarrow> odd (j + below (drop j b) c) = odd (j' + below (drop j' b) c)"
    using assms(1) by (auto simp: cr_next_def below_drop_step split: if_splits)
  show least: "\<forall>x \<in> set (drop i' a) \<union> set (drop j' b). v \<le> x"
    using assms(1) a b a0 b0 by (fastforce simp: cr_next_def split: if_splits)
  have "\<forall>x \<in> set (drop i a) \<union> set (drop j b). v \<le> x"
    using assms(1) a0 b0 by (fastforce simp: cr_next_def split: if_splits)
  with least show "c < v \<Longrightarrow> below (drop i a) c = 0 \<and> below (drop j b) c = 0
      \<and> below (drop i' a) c = 0 \<and> below (drop j' b) c = 0"
    by (auto intro!: below_none intro: order.strict_trans2)
qed

lemma cr_next_None: "cr_next a b i j = None \<Longrightarrow> drop i a = [] \<and> drop j b = []"
  by (auto simp: cr_next_def split: if_splits)

text \<open>
  The invariant of the loop: the number of points written so far is odd exactly when the
  result is in the set at the current position. \<open>ps\<close> are the points still to come.
\<close>

definition cr_rest :: "u32 list \<Rightarrow> u32 list \<Rightarrow> cr_op_enum \<Rightarrow> nat \<Rightarrow> nat \<Rightarrow> nat \<Rightarrow> u32 list \<Rightarrow> bool" where
  "cr_rest a b op i j n ps \<longleftrightarrow> sorted ps \<and> set ps \<subseteq> set (drop i a) \<union> set (drop j b)
    \<and> (\<forall>c. odd (n + below ps c)
          = cr_is_in op (odd (i + below (drop i a) c)) (odd (j + below (drop j b) c)))
    \<and> odd (n + length ps) = cr_is_in op (odd (length a)) (odd (length b))"

lemma cr_rest_step:
  assumes nx: "cr_next a b i j = Some (v, i', j')" and ab: "sorted a" "sorted b"
    and n: "odd n = cr_is_in op (odd i) (odd j)"
    and rest: "cr_rest a b op i' j' (n + length new) ps"
    and new: "new = (if cr_is_in op (odd i') (odd j') \<noteq> odd n then [v] else [])"
  shows "cr_rest a b op i j n (new @ ps)"
proof -
  note N = cr_next_Some [OF nx ab]
  have sub: "set (drop i' a) \<subseteq> set (drop i a)" "set (drop j' b) \<subseteq> set (drop j b)"
    using nx by (auto simp: cr_next_def split: if_splits intro: set_drop_subset_set_drop [THEN subsetD, rotated])
  have v: "v \<in> set (drop i a) \<union> set (drop j b)"
    using nx by (auto simp: cr_next_def Cons_nth_drop_Suc [symmetric] split: if_splits)
  have ps: "\<forall>x \<in> set ps. v \<le> x" using rest N(4) by (auto simp: cr_rest_def)
  have "odd (n + below (new @ ps) c)
          = cr_is_in op (odd (i + below (drop i a) c)) (odd (j + below (drop j b) c))" for c
  proof (cases "v \<le> c")
    case True
    then have "below new c = length new" by (simp add: new)
    with rest N(1,2) [OF True] show ?thesis by (simp add: cr_rest_def add.assoc)
  next
    case False
    then have "c < v" by simp
    with ps have "below ps c = 0" by (auto intro!: below_none intro: order.strict_trans2)
    moreover have "below new c = 0" using False by (simp add: new)
    ultimately show ?thesis using N(3) [OF \<open>c < v\<close>] n by simp
  qed
  with rest ps sub v show ?thesis by (auto simp: cr_rest_def new)
qed

lemma cr_op_loop_rest:
  assumes "cr_op_loop rok cr a b op i j = (True, cr')" "sorted a" "sorted b"
    and "i \<le> length a" "j \<le> length b" and "odd (length (points cr)) = cr_is_in op (odd i) (odd j)"
  shows "\<exists>ps. points cr' = points cr @ ps \<and> cr_rest a b op i j (length (points cr)) ps"
  using assms
proof (induction rok cr a b op i j rule: cr_op_loop.induct)
  case (1 rok cr a b op i j)
  note step = cr_op_loop.simps [of rok cr a b op i j]
  show ?case
  proof (cases "cr_next a b i j")
    case None
    then have "i = length a" "j = length b" using cr_next_None [OF None] 1(6,7) by simp_all
    moreover have "cr' = cr" using None 1(3) by (simp add: step)
    ultimately show ?thesis using 1(8) by (auto simp: cr_rest_def)
  next
    case (Some t)
    then obtain v i' j' where t: "cr_next a b i j = Some (v, i', j')" by (cases t) auto
    have le: "i' \<le> length a" "j' \<le> length b"
      using t 1(6,7) by (auto simp: cr_next_def split: if_splits)
    show ?thesis
    proof (cases "cr_is_in op (odd i') (odd j') \<noteq> odd (length (points cr))")
      case True
      from 1(3) t True obtain cr1 where add: "cr_add_point rok cr v = (True, cr1)"
          and run: "cr_op_loop rok cr1 a b op i' j' = (True, cr')"
        by (auto simp: step split: prod.splits bool.splits)
      note p1 = cr_add_point_True [OF add]
      from 1(1) [OF t refl refl True add [symmetric] refl run 1(4,5) le] True
      obtain ps where "points cr' = points cr1 @ ps" "cr_rest a b op i' j' (length (points cr1)) ps"
        by (auto simp: p1)
      with cr_rest_step [OF t 1(4,5) 1(8), of "[v]" ps] True show ?thesis
        by (auto simp: p1)
    next
      case False
      with 1(3) t have run: "cr_op_loop rok cr a b op i' j' = (True, cr')" by (simp add: step)
      from 1(2) [OF t refl refl False run 1(4,5) le] False
      obtain ps where "points cr' = points cr @ ps" "cr_rest a b op i' j' (length (points cr)) ps"
        by auto
      with cr_rest_step [OF t 1(4,5) 1(8), of "[]" ps] False show ?thesis by auto
    qed
  qed
qed

lemma cr_op_loop_ok:
  "(\<And>n. rok n) \<Longrightarrow> \<exists>cr'. cr_op_loop rok cr a b op i j = (True, cr')"
proof (induction rok cr a b op i j rule: cr_op_loop.induct)
  case (1 rok cr a b op i j)
  note step = cr_op_loop.simps [of rok cr a b op i j]
  show ?case
  proof (cases "cr_next a b i j")
    case (Some t)
    then obtain v i' j' where t: "cr_next a b i j = Some (v, i', j')" by (cases t) auto
    obtain cr1 where add: "cr_add_point rok cr v = (True, cr1)"
      using cr_add_point_ok [of rok cr v] 1(3) by blast
    show ?thesis
      using t add 1(1) [OF t refl refl _ add [symmetric] refl 1(3)] 1(2) [OF t refl refl _ 1(3)]
      by (cases "cr_is_in op (odd i') (odd j') \<noteq> odd (length (points cr))") (simp_all add: step)
  qed (simp add: step)
qed

section \<open>Properties\<close>

definition cr_wf :: "u32 list \<Rightarrow> bool" where
  "cr_wf ps \<longleftrightarrow> sorted_wrt (<) ps \<and> even (length ps)"

lemma cr_op_result:
  assumes "cr_op rok cr a b op = (True, cr')" "points cr = []"
    and "sorted a" "sorted b" "even (length a)" "even (length b)"
  shows "cr_wf (points cr')"
    and "cr_mem (points cr') c = cr_is_in op (cr_mem a c) (cr_mem b c)"
proof -
  obtain cr1 where run: "cr_op_loop rok cr a b op 0 0 = (True, cr1)" and c: "cr' = cr_compress cr1"
    using assms(1) by (auto simp: cr_op_def split: prod.splits bool.splits)
  from cr_op_loop_rest [OF run assms(3,4)] assms(2)
  obtain ps where ps: "points cr1 = ps" "cr_rest a b op 0 0 0 ps"
    by (cases op) auto
  then have ev: "even (length ps)" using assms(5,6) by (cases op) (auto simp: cr_rest_def)
  have p: "points cr' = cr_merge ps" by (simp add: c points_cr_compress ps)
  show "cr_wf (points cr')"
    using strict_merge(1) [of ps] even_length_merge(1) [of ps] ps by (simp add: cr_wf_def p cr_rest_def)
  show "cr_mem (points cr') c = cr_is_in op (cr_mem a c) (cr_mem b c)"
    using below_merge(1) [OF ev, of c] ps(2) unfolding p cr_mem_def by (simp add: cr_rest_def)
qed

lemma cr_op_ok:
  assumes "\<And>n. rok n"
  shows "\<exists>cr'. cr_op rok cr a b op = (True, cr')"
proof -
  obtain cr1 where "cr_op_loop rok cr a b op 0 0 = (True, cr1)"
    using cr_op_loop_ok [of rok cr a b op 0 0] assms by blast
  then show ?thesis by (simp add: cr_op_def)
qed

text \<open>Property C18 (functional): \<^verbatim>\<open>cr_op\<close> computes union, intersection, symmetric
  difference and difference of code point sets. When no allocation fails it succeeds, and
  its result is in normal form: strictly increasing bounds, an even number of them, so
  no interval is empty and no two intervals touch.\<close>

theorem cr_op_correct:
  assumes "\<And>n. rok n" "points cr = []"
    and "sorted a" "sorted b" "even (length a)" "even (length b)"
  shows "\<exists>cr'. cr_op rok cr a b op = (True, cr') \<and> cr_wf (points cr')
    \<and> (\<forall>c. cr_mem (points cr') c = cr_is_in op (cr_mem a c) (cr_mem b c))"
proof -
  obtain cr' where r: "cr_op rok cr a b op = (True, cr')" using cr_op_ok [of rok cr a b op] assms(1) by blast
  show ?thesis using r cr_op_result [OF r assms(2-6)] by blast
qed

theorem cr_op_correct_witness:
  "\<exists>cr'. cr_op (\<lambda>_. True) cr_init [0x30, 0x3A] [0x35, 0x41] CR_OP_SUB = (True, cr')
    \<and> cr_mem (points cr') 0x33"
proof -
  have "\<exists>cr'. cr_op (\<lambda>_. True) cr_init [0x30, 0x3A] [0x35, 0x41] CR_OP_SUB = (True, cr')
    \<and> cr_wf (points cr') \<and> (\<forall>c. cr_mem (points cr') c
      = cr_is_in CR_OP_SUB (cr_mem [0x30, 0x3A] c) (cr_mem [0x35, 0x41] c))"
    by (rule cr_op_correct) (simp_all add: cr_init_def)
  then show ?thesis by (auto simp: cr_mem_def)
qed

lemma cr_mem_cr_wf_intervals:
  "cr_wf ps \<Longrightarrow> cr_mem ps c \<longleftrightarrow> (\<exists>(a, b) \<in> set (intervals ps). a \<le> c \<and> c < b)"
  by (rule cr_mem_intervals) (auto simp: cr_wf_def strict_sorted_imp_sorted)

lemma cr_realloc_True: "cr_realloc rok cr n = (True, cr') \<Longrightarrow> points cr' = points cr"
  by (auto simp: cr_realloc_def Let_def split: if_splits)

text \<open>\<^verbatim>\<open>cr_invert\<close> complements a set within the code points
  below \<open>UINT32_MAX\<close>, keeps the normal form, and changes nothing when it cannot allocate.\<close>

theorem cr_invert_correct:
  assumes "cr_wf (points cr)"
  shows "case cr_invert rok cr of
      (True, cr') \<Rightarrow> cr_wf (points cr')
        \<and> (\<forall>c < UINT32_MAX. cr_mem (points cr') c = (\<not> cr_mem (points cr) c))
    | (False, cr') \<Rightarrow> cr' = cr"
proof (cases "cr_realloc rok cr (length (points cr) + 2)")
  case (Pair ok cr1)
  show ?thesis
  proof (cases ok)
    case True
    let ?ps = "0 # points cr @ [UINT32_MAX]"
    have p1: "points cr1 = points cr" using Pair True cr_realloc_True by auto
    have s: "sorted (points cr)" "even (length ?ps)"
      using assms by (auto simp: cr_wf_def strict_sorted_imp_sorted)
    have "x \<le> UINT32_MAX" for x
      using unat_u32_less [of x] by (simp add: UINT32_MAX_def word_le_nat_alt)
    with s have "sorted ?ps" by (auto simp: sorted_append)
    then have "cr_wf (cr_merge ?ps)"
      using strict_merge(1) [of ?ps] even_length_merge(1) [of ?ps] by (simp add: cr_wf_def)
    moreover have "cr_mem (cr_merge ?ps) c = (\<not> cr_mem (points cr) c)" if "c < UINT32_MAX" for c
      using below_merge(1) [OF s(2), of c] that unfolding cr_mem_def by (simp add: leD)
    ultimately show ?thesis
      using Pair True by (simp add: cr_invert_def p1 points_cr_compress)
  qed (use Pair in \<open>auto simp: cr_invert_def cr_realloc_def Let_def split: if_splits\<close>)
qed

theorem cr_invert_correct_witness:
  "\<exists>cr'. cr_invert (\<lambda>_. True) \<lparr>points = [0x41, 0x5B], capacity = 2\<rparr> = (True, cr')
     \<and> cr_mem (points cr') 0x61"
proof -
  have "cr_wf (points \<lparr>points = [0x41, 0x5B], capacity = 2\<rparr>)" by (simp add: cr_wf_def)
  from cr_invert_correct [OF this, of "\<lambda>_. True"] show ?thesis
    by (auto simp: cr_invert_def cr_realloc_def Let_def cr_mem_def UINT32_MAX_def)
qed

end
