(* ===== verification/CBits.thy ===== *)
theory CBits
  imports Prelude
begin

text \<open>
  The scalar helpers of \<^verbatim>\<open>quickjs/cutils.h\<close>: minima and maxima, hashes, counting of leading
  and trailing zeros, host-order loads and stores on byte arrays, byte swaps, and the tests on
  half-precision values. The host is little endian and has 64-bit pointers. Signed integers
  are words read with \<open>sint\<close>. \<open>None\<close> is an access outside the array.
\<close>

section \<open>Minima, maxima and hashes\<close>

text \<open>\<open>is_be\<close> reads the first byte of the 16-bit value 0x100.\<close>

definition is_be :: "u8" where
  "is_be = ucast (0x100 :: u16)"

definition max_int :: "int \<Rightarrow> int \<Rightarrow> int" where
  "max_int a b = (if a > b then a else b)"

definition min_int :: "int \<Rightarrow> int \<Rightarrow> int" where
  "min_int a b = (if a < b then a else b)"

definition max_uint32 :: "u32 \<Rightarrow> u32 \<Rightarrow> u32" where
  "max_uint32 a b = (if a > b then a else b)"

definition min_uint32 :: "u32 \<Rightarrow> u32 \<Rightarrow> u32" where
  "min_uint32 a b = (if a < b then a else b)"

definition max_int64 :: "u64 \<Rightarrow> u64 \<Rightarrow> u64" where
  "max_int64 a b = (if sint a > sint b then a else b)"

definition min_int64 :: "u64 \<Rightarrow> u64 \<Rightarrow> u64" where
  "min_int64 a b = (if sint a < sint b then a else b)"

definition hash32 :: "u32 \<Rightarrow> u32" where
  "hash32 a = a * 0x61c88647"

definition hash64 :: "u64 \<Rightarrow> u64" where
  "hash64 a = a * 0x61c8864680b583eb"

definition hash_uintptr :: "u64 \<Rightarrow> u64" where
  "hash_uintptr a = hash64 a"

section \<open>Leading and trailing zeros\<close>

text \<open>
  The C functions are undefined at 0; the definitions return the width there, and every
  theorem about them excludes it.
\<close>

fun bit_len :: "nat \<Rightarrow> nat" where
  "bit_len n = (if n = 0 then 0 else Suc (bit_len (n div 2)))"

fun low_zeros :: "nat \<Rightarrow> nat \<Rightarrow> nat" where
  "low_zeros 0 n = 0"
| "low_zeros (Suc w) n = (if odd n then 0 else Suc (low_zeros w (n div 2)))"

declare bit_len.simps [simp del]

definition clz32 :: "u32 \<Rightarrow> nat" where
  "clz32 a = 32 - bit_len (unat a)"

definition clz64 :: "u64 \<Rightarrow> nat" where
  "clz64 a = 64 - bit_len (unat a)"

definition clz_uintptr :: "u64 \<Rightarrow> nat" where
  "clz_uintptr a = clz64 a"

definition ctz32 :: "u32 \<Rightarrow> nat" where
  "ctz32 a = low_zeros 32 (unat a)"

definition ctz64 :: "u64 \<Rightarrow> nat" where
  "ctz64 a = low_zeros 64 (unat a)"

section \<open>Loads and stores\<close>

definition get_u8 :: "u8 list \<Rightarrow> nat \<Rightarrow> u32 option" where
  "get_u8 tab p = do { b \<leftarrow> rd tab p; Some (ucast b) }"

definition get_i8 :: "u8 list \<Rightarrow> nat \<Rightarrow> u32 option" where
  "get_i8 tab p = do { b \<leftarrow> rd tab p; Some (scast b) }"

definition bytes16 :: "u16 \<Rightarrow> u8 list" where
  "bytes16 v = [ucast v, ucast (drop_bit 8 v)]"

definition bytes32 :: "u32 \<Rightarrow> u8 list" where
  "bytes32 v = [ucast v, ucast (drop_bit 8 v), ucast (drop_bit 16 v), ucast (drop_bit 24 v)]"

definition bytes64 :: "u64 \<Rightarrow> u8 list" where
  "bytes64 v = bytes32 (ucast v) @ bytes32 (ucast (drop_bit 32 v))"

definition load16 :: "u8 list \<Rightarrow> nat \<Rightarrow> u16 option" where
  "load16 tab p = do { a \<leftarrow> rd tab p; b \<leftarrow> rd tab (p + 1); Some (ucast a OR push_bit 8 (ucast b)) }"

definition load32 :: "u8 list \<Rightarrow> nat \<Rightarrow> u32 option" where
  "load32 tab p = do {
     a \<leftarrow> load16 tab p; b \<leftarrow> load16 tab (p + 2); Some (ucast a OR push_bit 16 (ucast b)) }"

definition load64 :: "u8 list \<Rightarrow> nat \<Rightarrow> u64 option" where
  "load64 tab p = do {
     a \<leftarrow> load32 tab p; b \<leftarrow> load32 tab (p + 4); Some (ucast a OR push_bit 32 (ucast b)) }"

definition get_u16 :: "u8 list \<Rightarrow> nat \<Rightarrow> u32 option" where
  "get_u16 tab p = do { v \<leftarrow> load16 tab p; Some (ucast v) }"

definition get_i16 :: "u8 list \<Rightarrow> nat \<Rightarrow> u32 option" where
  "get_i16 tab p = do { v \<leftarrow> load16 tab p; Some (scast v) }"

definition get_u32 :: "u8 list \<Rightarrow> nat \<Rightarrow> u32 option" where
  "get_u32 tab p = load32 tab p"

definition get_i32 :: "u8 list \<Rightarrow> nat \<Rightarrow> u32 option" where
  "get_i32 tab p = load32 tab p"

definition get_u64 :: "u8 list \<Rightarrow> nat \<Rightarrow> u64 option" where
  "get_u64 tab p = load64 tab p"

definition get_i64 :: "u8 list \<Rightarrow> nat \<Rightarrow> u64 option" where
  "get_i64 tab p = load64 tab p"

definition put_u8 :: "u8 list \<Rightarrow> nat \<Rightarrow> u8 \<Rightarrow> u8 list option" where
  "put_u8 tab p v = wr tab p v"

definition put_u16 :: "u8 list \<Rightarrow> nat \<Rightarrow> u16 \<Rightarrow> u8 list option" where
  "put_u16 tab p v = wrs tab p (bytes16 v)"

definition put_u32 :: "u8 list \<Rightarrow> nat \<Rightarrow> u32 \<Rightarrow> u8 list option" where
  "put_u32 tab p v = wrs tab p (bytes32 v)"

definition put_u64 :: "u8 list \<Rightarrow> nat \<Rightarrow> u64 \<Rightarrow> u8 list option" where
  "put_u64 tab p v = wrs tab p (bytes64 v)"

section \<open>Byte swaps\<close>

definition bswap16 :: "u16 \<Rightarrow> u16" where
  "bswap16 x = drop_bit 8 x OR push_bit 8 x"

definition bswap32 :: "u32 \<Rightarrow> u32" where
  "bswap32 v = drop_bit 24 (v AND 0xff000000) OR drop_bit 8 (v AND 0x00ff0000)
     OR push_bit 8 (v AND 0x0000ff00) OR push_bit 24 (v AND 0x000000ff)"

definition bswap64 :: "u64 \<Rightarrow> u64" where
  "bswap64 v = drop_bit (7 * 8) (v AND push_bit (7 * 8) 0xff)
     OR drop_bit (5 * 8) (v AND push_bit (6 * 8) 0xff)
     OR drop_bit (3 * 8) (v AND push_bit (5 * 8) 0xff)
     OR drop_bit (1 * 8) (v AND push_bit (4 * 8) 0xff)
     OR push_bit (1 * 8) (v AND push_bit (3 * 8) 0xff)
     OR push_bit (3 * 8) (v AND push_bit (2 * 8) 0xff)
     OR push_bit (5 * 8) (v AND push_bit (1 * 8) 0xff)
     OR push_bit (7 * 8) (v AND push_bit (0 * 8) 0xff)"

section \<open>Half-precision tests\<close>

definition isfp16nan :: "u16 \<Rightarrow> bool" where
  "isfp16nan v \<longleftrightarrow> (v AND 0x7FFF) > 0x7C00"

definition isfp16zero :: "u16 \<Rightarrow> bool" where
  "isfp16zero v \<longleftrightarrow> (v AND 0x7FFF) = 0"

section \<open>Lemmas on counting zeros\<close>

lemma bit_len_0 [simp]: "bit_len 0 = 0"
  by (simp add: bit_len.simps)

lemma bit_len_pos: "0 < n \<Longrightarrow> bit_len n = Suc (bit_len (n div 2))"
  by (simp add: bit_len.simps)

lemma bit_len_numeral [simp]:
  "bit_len (numeral k) = Suc (bit_len (numeral k div 2))" "bit_len (Suc 0) = 1"
  by (simp_all add: bit_len_pos)

lemma bit_len_less: "n < 2 ^ bit_len n"
proof (induction n rule: bit_len.induct)
  case (1 n)
  show ?case
  proof (cases "n = 0")
    case False
    with 1 have "n div 2 < 2 ^ bit_len (n div 2)" by blast
    with False show ?thesis by (simp add: bit_len_pos)
  qed simp
qed

lemma bit_len_ge: "0 < n \<Longrightarrow> 2 ^ (bit_len n - 1) \<le> n"
proof (induction n rule: bit_len.induct)
  case (1 n)
  show ?case
  proof (cases "n div 2 = 0")
    case True
    with 1(2) show ?thesis by (simp add: bit_len_pos)
  next
    case False
    with 1 have "2 ^ (bit_len (n div 2) - 1) \<le> n div 2" by simp
    moreover have "bit_len (n div 2) = Suc (bit_len (n div 2) - 1)"
      using False by (simp add: bit_len_pos)
    ultimately show ?thesis using 1(2)
      by (metis bit_len_pos diff_Suc_1 mult_le_mono2 power_Suc times_div_less_eq_dividend
          order_trans)
  qed
qed

lemma bit_len_le: "n < 2 ^ k \<Longrightarrow> bit_len n \<le> k"
proof (cases "n = 0")
  case False
  assume "n < 2 ^ k"
  then have "(2::nat) ^ (bit_len n - 1) < 2 ^ k"
    using bit_len_ge [of n] False by linarith
  then have "bit_len n - 1 < k" by (rule power_less_imp_less_exp [rotated]) simp
  with False show ?thesis by linarith
qed simp

lemma bit_len_unique: "2 ^ k \<le> n \<Longrightarrow> n < 2 ^ Suc k \<Longrightarrow> bit_len n = Suc k"
proof (rule antisym)
  assume a: "2 ^ k \<le> n" "n < 2 ^ Suc k"
  show "bit_len n \<le> Suc k" by (rule bit_len_le [OF a(2)])
  have "(2::nat) ^ k < 2 ^ bit_len n" using a(1) bit_len_less [of n] by linarith
  then show "Suc k \<le> bit_len n" by (simp add: Suc_le_eq)
qed

lemma clz32_bounds:
  assumes "a \<noteq> 0"
  shows "clz32 a \<le> 31" and "2 ^ (31 - clz32 a) \<le> unat a" and "unat a < 2 ^ (32 - clz32 a)"
proof -
  have n: "0 < unat a" using assms by (simp add: unat_gt_0)
  have "bit_len (unat a) \<le> 32" using unat_u32_less [of a] by (intro bit_len_le) simp
  moreover have "0 < bit_len (unat a)" using n by (simp add: bit_len_pos)
  ultimately show "clz32 a \<le> 31" "2 ^ (31 - clz32 a) \<le> unat a" "unat a < 2 ^ (32 - clz32 a)"
    using bit_len_ge [OF n] bit_len_less [of "unat a"] by (simp_all add: clz32_def)
qed

lemma clz64_bounds:
  assumes "a \<noteq> 0"
  shows "clz64 a \<le> 63" and "2 ^ (63 - clz64 a) \<le> unat a" and "unat a < 2 ^ (64 - clz64 a)"
proof -
  have n: "0 < unat a" using assms by (simp add: unat_gt_0)
  have "bit_len (unat a) \<le> 64" using unsigned_less [of a] by (intro bit_len_le) simp
  moreover have "0 < bit_len (unat a)" using n by (simp add: bit_len_pos)
  ultimately show "clz64 a \<le> 63" "2 ^ (63 - clz64 a) \<le> unat a" "unat a < 2 ^ (64 - clz64 a)"
    using bit_len_ge [OF n] bit_len_less [of "unat a"] by (simp_all add: clz64_def)
qed

lemma low_zeros_dvd:
  "n < 2 ^ w \<Longrightarrow> 0 < n \<Longrightarrow> 2 ^ low_zeros w n dvd n \<and> odd (n div 2 ^ low_zeros w n) \<and> low_zeros w n < w"
proof (induction w n rule: low_zeros.induct)
  case (2 w n)
  show ?case
  proof (cases "odd n")
    case False
    then obtain m where m: "n = 2 * m" by blast
    with 2 False show ?thesis by (simp add: div_mult2_eq [symmetric])
  qed simp
qed simp

section \<open>Lemmas on loads, stores and swaps\<close>

lemma load16_at: "at_pos tab p (bytes16 v) \<Longrightarrow> load16 tab p = Some v"
  unfolding load16_def bytes16_def
  by (simp add: Suc_le_eq) (rule bit_word_eqI, auto simp: bit_simps)

lemma bytes32_split: "bytes32 v = bytes16 (ucast v) @ bytes16 (ucast (drop_bit 16 v))"
  unfolding bytes32_def bytes16_def
  by (simp, intro conjI; rule bit_word_eqI; auto simp: bit_simps)

lemma at_pos_appendD:
  "at_pos tab p (xs @ ys) \<Longrightarrow> at_pos tab p xs \<and> at_pos tab (p + length xs) ys"
  by (auto simp: at_pos_def take_add add.commute [of p])

lemma load32_at:
  assumes "at_pos tab p (bytes32 v)"
  shows "load32 tab p = Some v"
proof -
  have "length (bytes16 w) = 2" for w by (simp add: bytes16_def)
  with at_pos_appendD [OF assms [unfolded bytes32_split]]
  have "load16 tab p = Some (ucast v)" "load16 tab (p + 2) = Some (ucast (drop_bit 16 v))"
    by (simp_all add: load16_at)
  then show ?thesis unfolding load32_def
    by (simp, intro bit_word_eqI) (auto simp: bit_simps)
qed

lemma load64_at:
  assumes "at_pos tab p (bytes64 v)"
  shows "load64 tab p = Some v"
proof -
  have "length (bytes32 w) = 4" for w by (simp add: bytes32_def)
  with at_pos_appendD [OF assms [unfolded bytes64_def]]
  have "load32 tab p = Some (ucast v)" "load32 tab (p + 4) = Some (ucast (drop_bit 32 v))"
    by (simp_all add: load32_at)
  then show ?thesis unfolding load64_def
    by (simp, intro bit_word_eqI) (auto simp: bit_simps)
qed

lemma wrs_at_pos: "wrs xs p vs = Some ys \<Longrightarrow> at_pos ys p vs"
  by (auto simp: wrs_Some_iff at_pos_def)

lemma length_bytes [simp]:
  "length (bytes16 a) = 2" "length (bytes32 b) = 4" "length (bytes64 c) = 8"
  by (simp_all add: bytes16_def bytes32_def bytes64_def)

section \<open>Properties\<close>

text \<open>Bounds: 
  \<open>clz32\<close>, \<open>clz64\<close>, \<open>ctz32\<close> and \<open>ctz64\<close> of a nonzero word: counting from the top gives the
  power of two that the word reaches but whose double it does not, counting from the bottom
  the largest power of two dividing it.\<close>

theorem leading_trailing_zeros:
  fixes a :: u32 and b :: u64
  assumes "a \<noteq> 0" "b \<noteq> 0"
  shows "2 ^ (31 - clz32 a) \<le> unat a \<and> unat a < 2 ^ (32 - clz32 a) \<and> clz32 a < 32
    \<and> 2 ^ (63 - clz_uintptr b) \<le> unat b \<and> unat b < 2 ^ (64 - clz_uintptr b) \<and> clz_uintptr b < 64
    \<and> 2 ^ ctz32 a dvd unat a \<and> odd (unat a div 2 ^ ctz32 a)
    \<and> 2 ^ ctz64 b dvd unat b \<and> odd (unat b div 2 ^ ctz64 b)"
proof -
  have "unat a < 2 ^ 32" "unat b < 2 ^ 64" using unsigned_less [of a] unsigned_less [of b] by simp_all
  moreover have "0 < unat a" "0 < unat b" using assms by (simp_all add: unat_gt_0)
  ultimately show ?thesis
    using clz32_bounds [OF assms(1)] clz64_bounds [OF assms(2)]
      low_zeros_dvd [of "unat a" 32] low_zeros_dvd [of "unat b" 64]
    by (simp add: clz_uintptr_def ctz32_def ctz64_def)
qed

theorem leading_trailing_zeros_witness:
  "clz32 40 < 32 \<and> odd (unat (96 :: u64) div 2 ^ ctz64 96)"
  using leading_trailing_zeros [of 40 96] by simp

text \<open>
  A load after a store at the same place returns the stored value, at each width and with and
  without sign extension; a store inside the array succeeds, keeps its length and writes no other byte.\<close>

theorem get_after_put:
  assumes "p + 8 \<le> length tab"
  shows "(\<exists>t. put_u64 tab p v = Some t \<and> get_u64 t p = Some v \<and> get_i64 t p = Some v
        \<and> length t = length tab \<and> (\<forall>i. i < p \<or> p + 8 \<le> i \<longrightarrow> t ! i = tab ! i))
    \<and> (\<exists>t. put_u32 tab p w = Some t \<and> get_u32 t p = Some w \<and> get_i32 t p = Some w
        \<and> length t = length tab \<and> (\<forall>i. i < p \<or> p + 4 \<le> i \<longrightarrow> t ! i = tab ! i))
    \<and> (\<exists>t. put_u16 tab p h = Some t \<and> get_u16 t p = Some (ucast h) \<and> get_i16 t p = Some (scast h)
        \<and> length t = length tab \<and> (\<forall>i. i < p \<or> p + 2 \<le> i \<longrightarrow> t ! i = tab ! i))
    \<and> (\<exists>t. put_u8 tab p c = Some t \<and> get_u8 t p = Some (ucast c) \<and> get_i8 t p = Some (scast c)
        \<and> length t = length tab \<and> (\<forall>i. i \<noteq> p \<longrightarrow> t ! i = tab ! i))"
proof -
  have st: "\<exists>t. wrs tab p e = Some t \<and> at_pos t p e \<and> length t = length tab
      \<and> (\<forall>i. i < p \<or> p + length e \<le> i \<longrightarrow> t ! i = tab ! i)" if "length e \<le> 8" for e :: "u8 list"
  proof -
    have "p + length e \<le> length tab" using assms that by simp
    then obtain t where t: "wrs tab p e = Some t" "t = take p tab @ e @ drop (p + length e) tab" by simp
    moreover have "t ! i = tab ! i" if "i < p \<or> p + length e \<le> i" for i
      using that \<open>p + length e \<le> length tab\<close> unfolding t(2)
      by (auto simp: nth_append)
    ultimately show ?thesis using wrs_at_pos [OF t(1)] length_wrs [OF t(1)] by blast
  qed
  show ?thesis
    using st [of "bytes64 v"] st [of "bytes32 w"] st [of "bytes16 h"] assms
    by (auto simp: put_u64_def put_u32_def put_u16_def put_u8_def get_u64_def get_i64_def
        get_u32_def get_i32_def get_u16_def get_i16_def get_u8_def get_i8_def
        load64_at load32_at load16_at)
qed

theorem get_after_put_witness:
  "\<exists>t. put_u32 (replicate 9 7) 1 0xdeadbeef = Some t \<and> get_u32 t 1 = Some 0xdeadbeef"
proof -
  have "1 + 8 \<le> length (replicate 9 (7 :: u8))" by simp
  from get_after_put [OF this, of 0 "0xdeadbeef" 0 0] show ?thesis by blast
qed

lemma byte_masks:
  "(0xff000000 :: u32) = push_bit 24 (mask 8)" "(0x00ff0000 :: u32) = push_bit 16 (mask 8)"
  "(0x0000ff00 :: u32) = push_bit 8 (mask 8)" "(0x000000ff :: 'a::len word) = mask 8"
  by (simp_all add: mask_eq_exp_minus_1 push_bit_eq_mult)

lemma byte_eqI: "(\<And>n. n < 8 \<Longrightarrow> bit a n = bit b n) \<Longrightarrow> a = (b :: u8)"
  by (rule bit_word_eqI) simp

lemma bytes16_bswap16: "bytes16 (bswap16 x) = rev (bytes16 x)"
  unfolding bytes16_def bswap16_def
  by (simp, intro conjI; rule bit_word_eqI; auto simp: bit_simps)

lemma bytes32_bswap32: "bytes32 (bswap32 x) = rev (bytes32 x)"
  unfolding bytes32_def bswap32_def byte_masks
  by (simp only: rev.simps append.simps list.inject, intro conjI refl; rule byte_eqI;
    simp add: bit_simps; linarith?)

lemma bytes64_bswap64: "bytes64 (bswap64 x) = rev (bytes64 x)"
  unfolding bytes64_def bytes32_def bswap64_def byte_masks
  by (simp only: rev.simps append.simps list.inject, intro conjI refl; rule byte_eqI;
    simp add: bit_simps; linarith?)

text \<open>
  A byte swap reverses the bytes of the value as they lie in memory, at each width, and is
  undone by a second one.\<close>


theorem bswap_reverses_bytes:
  "bytes16 (bswap16 a) = rev (bytes16 a) \<and> bswap16 (bswap16 a) = a
    \<and> bytes32 (bswap32 b) = rev (bytes32 b) \<and> bswap32 (bswap32 b) = b
    \<and> bytes64 (bswap64 c) = rev (bytes64 c) \<and> bswap64 (bswap64 c) = c"
proof -
  have self: "at_pos xs 0 xs" for xs :: "u8 list" by (simp add: at_pos_def)
  have "x = y" if "bytes16 x = bytes16 y" for x y by (metis load16_at self that option.inject)
  moreover have "x = y" if "bytes32 x = bytes32 y" for x y by (metis load32_at self that option.inject)
  moreover have "x = y" if "bytes64 x = bytes64 y" for x y by (metis load64_at self that option.inject)
  ultimately show ?thesis
    by (simp add: bytes16_bswap16 bytes32_bswap32 bytes64_bswap64)
qed

text \<open>
  The hashes lose nothing: two words with the same hash are equal, so a table indexed by the
  low bits of a hash separates keys as far as its size allows.\<close>

theorem hash_injective:
  "(hash32 a = hash32 b \<longleftrightarrow> a = b) \<and> (hash_uintptr c = hash_uintptr d \<longleftrightarrow> c = d)"
proof -
  have "(0x61c88647 * 3954393975 :: u32) = 1" "(0x61c8864680b583eb * 1018231460777725123 :: u64) = 1"
    by (simp_all add: word_unat_eq_iff)
  then have "hash32 x * 3954393975 = x" "hash64 y * 1018231460777725123 = y" for x y
    unfolding hash32_def hash64_def mult.assoc by (simp_all only: mult_1_right)
  then show ?thesis unfolding hash_uintptr_def by metis
qed

lemma fp16_fields:
  "unat (drop_bit 10 (v AND mask 15) :: u16) = unat v mod 32768 div 1024"
  "unat (v AND mask 10 :: u16) = unat v mod 32768 mod 1024"
  "unat (v AND mask 15 :: u16) = unat v mod 32768"
  by (simp_all only: unat_drop_bit unat_and_mask) (simp_all add: mod_mod_cancel)

lemma isfp16nan_iff:
  "isfp16nan v \<longleftrightarrow> drop_bit 10 (v AND 0x7FFF) = 0x1F \<and> v AND 0x3FF \<noteq> 0"
proof -
  have m: "v AND 0x7FFF = v AND mask 15" "v AND 0x3FF = v AND mask 10"
    by (simp_all add: mask_eq_exp_minus_1)
  define n where "n = unat v mod 32768"
  have "n < 32768" by (simp add: n_def)
  moreover have "31744 < n \<longleftrightarrow> n div 1024 = 31 \<and> n mod 1024 \<noteq> 0" if "n < 32768"
  proof -
    have "31744 < 1024 * q + r \<longleftrightarrow> q = 31 \<and> r \<noteq> 0" if "q < 32" "r < 1024" for q r :: nat
      using that by (cases "q = 31") (simp, linarith)
    moreover have "n div 1024 < 32" using that by (simp add: less_mult_imp_div_less)
    ultimately show ?thesis using mult_div_mod_eq [of 1024 n] mod_less_divisor [of 1024 n]
      by (metis zero_less_numeral)
  qed
  ultimately show ?thesis
    unfolding isfp16nan_def m
    by (simp only: word_less_nat_alt word_unat_eq_iff fp16_fields n_def) simp
qed

lemma isfp16zero_iff:
  "isfp16zero v \<longleftrightarrow> drop_bit 10 (v AND 0x7FFF) = 0 \<and> v AND 0x3FF = 0"
proof -
  have m: "v AND 0x7FFF = v AND mask 15" "v AND 0x3FF = v AND mask 10"
    by (simp_all add: mask_eq_exp_minus_1)
  define n where "n = unat v mod 32768"
  have "n = 0 \<longleftrightarrow> n div 1024 = 0 \<and> n mod 1024 = 0"
    using mult_div_mod_eq [of 1024 n] by (metis add_0 mult_0_right mod_0 div_0)
  then show ?thesis
    unfolding isfp16zero_def m
    by (simp only: word_unat_eq_iff fp16_fields n_def) simp
qed

text \<open>
  The tests on half-precision bit patterns: a value is not a number exactly when its exponent
  field is all ones and its fraction is not zero, and a zero of either sign exactly when both
  fields are zero; the sign bit plays no part.\<close>

theorem fp16_classes:
  "(isfp16nan v \<longleftrightarrow> drop_bit 10 (v AND 0x7FFF) = 0x1F \<and> v AND 0x3FF \<noteq> 0)
    \<and> (isfp16zero v \<longleftrightarrow> drop_bit 10 (v AND 0x7FFF) = 0 \<and> v AND 0x3FF = 0)"
  using isfp16nan_iff isfp16zero_iff by blast

end
