(* ===== verification/Limbs.thy ===== *)
theory Limbs
  imports Prelude
begin

text \<open>
  The multi-precision helpers of \<^verbatim>\<open>quickjs/dtoa.c\<close> on arrays of 32-bit limbs, least
  significant limb first. All callers work in place (\<^verbatim>\<open>tabr == taba\<close>), so a function takes
  the array and returns it together with the C return value. A loop that runs from the
  last limb down to the first is a recursion that handles the tail before the head.
\<close>

type_synonym limb = u32

definition mpv :: "limb list \<Rightarrow> nat" where
  "mpv xs = foldr (\<lambda>x s. unat x + 2 ^ 32 * s) xs 0"

lemma mpv_simps [simp]:
  "mpv [] = 0" "mpv (x # xs) = unat x + 4294967296 * mpv xs"
  by (simp_all add: mpv_def)

fun mp_add_ui :: "limb list \<Rightarrow> limb \<Rightarrow> limb list \<times> limb" where
  "mp_add_ui [] k = ([], k)"
| "mp_add_ui (t # ts) k =
     (if k = 0 then (t # ts, k)
      else let a = t + k; k' = (if a < k then 1 else 0); (rs, c) = mp_add_ui ts k'
           in (a # rs, c))"

fun mp_mul1 :: "limb list \<Rightarrow> limb \<Rightarrow> limb \<Rightarrow> limb list \<times> limb" where
  "mp_mul1 [] b l = ([], l)"
| "mp_mul1 (x # xs) b l =
     (let t = (ucast x :: u64) * ucast b + ucast l;
          (rs, c) = mp_mul1 xs b (ucast (drop_bit 32 t))
      in (ucast t # rs, c))"

definition udiv1norm_init :: "limb \<Rightarrow> limb" where
  "udiv1norm_init d =
     (let a1 = - d - 1; a0 = (- 1 :: limb)
      in ucast ((push_bit 32 (ucast a1 :: u64) OR ucast a0) div ucast d))"

text \<open>Quotient and remainder; \<^verbatim>\<open>(slimb_t)a0 >> 31\<close> is the arithmetic shift.\<close>

definition udiv1norm :: "limb \<Rightarrow> limb \<Rightarrow> limb \<Rightarrow> limb \<Rightarrow> limb \<times> limb" where
  "udiv1norm a1 a0 d d_inv =
     (let n1m = signed_drop_bit 31 a0;
          n_adj = a0 + (n1m AND d);
          a = (ucast d_inv :: u64) * ucast (a1 - n1m) + ucast n_adj;
          q = ucast (drop_bit 32 a) + a1;
          a = push_bit 32 (ucast a1 :: u64) OR ucast a0;
          a = a - (ucast q :: u64) * ucast d - ucast d;
          ah = (ucast (drop_bit 32 a) :: limb);
          q = q + (1 + ah);
          r = ucast a + (ah AND d)
      in (q, r))"

fun mp_div1 :: "limb list \<Rightarrow> limb \<Rightarrow> limb \<Rightarrow> limb list \<times> limb" where
  "mp_div1 [] b r = ([], r)"
| "mp_div1 (x # xs) b r =
     (let (qs, r) = mp_div1 xs b r;
          a1 = push_bit 32 (ucast r :: u64) OR ucast x
      in (ucast (a1 div ucast b) # qs, ucast (a1 mod ucast b)))"

fun mp_shr_loop :: "limb list \<Rightarrow> nat \<Rightarrow> limb \<Rightarrow> limb list \<times> limb" where
  "mp_shr_loop [] shift l = ([], l)"
| "mp_shr_loop (a # xs) shift l =
     (let (rs, l) = mp_shr_loop xs shift l
      in ((drop_bit shift a OR push_bit (32 - shift) l) # rs, a))"

definition mp_shr :: "limb list \<Rightarrow> nat \<Rightarrow> limb \<Rightarrow> limb list \<times> limb" where
  "mp_shr tab shift high =
     (let (rs, l) = mp_shr_loop tab shift high in (rs, l AND (push_bit shift 1 - 1)))"

fun mp_shl :: "limb list \<Rightarrow> nat \<Rightarrow> limb \<Rightarrow> limb list \<times> limb" where
  "mp_shl [] shift l = ([], l)"
| "mp_shl (a # xs) shift l =
     (let (rs, c) = mp_shl xs shift (drop_bit (32 - shift) a)
      in ((push_bit shift a OR l) # rs, c))"

fun mp_div1norm_loop :: "limb list \<Rightarrow> limb \<Rightarrow> limb \<Rightarrow> limb \<Rightarrow> limb list \<times> limb" where
  "mp_div1norm_loop [] b r b_inv = ([], r)"
| "mp_div1norm_loop (x # xs) b r b_inv =
     (let (qs, r) = mp_div1norm_loop xs b r b_inv; (q, r) = udiv1norm r x b b_inv
      in (q # qs, r))"

definition mp_div1norm :: "limb list \<Rightarrow> limb \<Rightarrow> limb \<Rightarrow> limb \<Rightarrow> nat \<Rightarrow> limb list \<times> limb" where
  "mp_div1norm tab b r b_inv shift =
     (let (tab, r) = (if shift \<noteq> 0
            then (let (t, h) = mp_shl tab shift 0 in (t, push_bit shift r OR h)) else (tab, r));
          (qs, r) = mp_div1norm_loop tab b r b_inv
      in (qs, drop_bit shift r))"

section \<open>Words of two limbs\<close>

lemma unat_limb_less: "unat (x :: limb) \<le> 4294967295"
  using unat_u32_less [of x] by linarith

lemma unat_u64_less: "unat (x :: u64) < 18446744073709551616"
  using unsigned_less [of x] by simp

lemma unat_up64: "unat (ucast (x :: limb) :: u64) = unat x"
  using unat_u32_less [of x] by (simp add: unat_ucast_mod)

lemma limb_prod_le: "unat (x :: limb) * unat (b :: limb) \<le> 4294967295 * 4294967295"
  by (intro mult_le_mono unat_limb_less)

lemma unat_muladd:
  "unat ((ucast (x :: limb) :: u64) * ucast (b :: limb) + ucast (l :: limb))
    = unat x * unat b + unat l"
proof -
  have "unat x * unat b + unat l < 2 ^ 64"
    using limb_prod_le [of x b] unat_limb_less [of l] by simp
  then show ?thesis by (simp add: unat_word_ariths unat_up64)
qed

lemma unat_join:
  "unat (push_bit 32 (ucast (h :: limb) :: u64) OR ucast (l :: limb)) = unat l + 4294967296 * unat h"
proof -
  have "4294967296 * unat h < 2 ^ 64" using unat_u32_less [of h] by simp
  then have "unat (push_bit 32 (ucast h :: u64)) = unat h * 2 ^ 32"
    by (simp add: unat_push_bit unat_up64 mult.commute)
  moreover have "unat l OR (unat h * 2 ^ 32) = unat l + unat h * 2 ^ 32"
    using unat_u32_less [of l] by (intro nat_or_add) simp
  ultimately show ?thesis
    by (simp add: unsigned_or_eq unat_up64 or.commute mult.commute)
qed

lemma unat_low64: "unat (ucast (t :: u64) :: limb) = unat t mod 4294967296"
  by (simp add: unat_ucast_mod)

lemma unat_high64: "unat (ucast (drop_bit 32 (t :: u64)) :: limb) = unat t div 4294967296"
proof -
  have "unat t div 4294967296 < 4294967296"
    using unat_u64_less [of t] by (simp add: less_mult_imp_div_less)
  then show ?thesis by (simp add: unat_ucast_mod unat_drop_bit)
qed

section \<open>Addition and multiplication by one limb\<close>

lemma mp_add_ui_value:
  "mp_add_ui xs k = (ys, c) \<Longrightarrow> mpv ys + 2 ^ (32 * length xs) * unat c = mpv xs + unat k"
proof (induction xs k arbitrary: ys c rule: mp_add_ui.induct)
  case (2 t ts k)
  show ?case
  proof (cases "k = 0")
    case False
    define a where "a = t + k"
    define k' where "k' = (if a < k then 1 else 0 :: limb)"
    obtain rs where r: "mp_add_ui ts k' = (rs, c)" and ys: "ys = a # rs"
      using 2(2) False by (auto simp: a_def k'_def Let_def split: prod.splits)
    have IH: "mpv rs + 2 ^ (32 * length ts) * unat c = mpv ts + unat k'"
      using 2(1) [OF False a_def k'_def r] .
    have "unat a + 4294967296 * unat k' = unat t + unat k"
      using unat_u32_less [of t] unat_u32_less [of k]
      by (auto simp: a_def k'_def word_less_nat_alt unat_word_ariths mod_if)
    then show ?thesis
      using IH by (simp add: ys power_add algebra_simps)
  qed (use 2 in simp)
qed simp

lemma mp_mul1_value:
  "mp_mul1 xs b l = (ys, c) \<Longrightarrow> mpv ys + 2 ^ (32 * length xs) * unat c = mpv xs * unat b + unat l"
proof (induction xs b l arbitrary: ys c rule: mp_mul1.induct)
  case (2 x xs b l)
  define t where "t = (ucast x :: u64) * ucast b + ucast l"
  obtain rs where r: "mp_mul1 xs b (ucast (drop_bit 32 t)) = (rs, c)" and ys: "ys = ucast t # rs"
    using 2(2) by (auto simp: t_def Let_def split: prod.splits)
  define m q where "m = unat t mod 4294967296" and "q = unat t div 4294967296"
  have IH: "mpv rs + 2 ^ (32 * length xs) * unat c = mpv xs * unat b + q"
    using 2(1) [OF t_def r] by (simp add: unat_high64 q_def)
  have "unat t = unat x * unat b + unat l"
    unfolding t_def by (rule unat_muladd)
  then have mq: "m + 4294967296 * q = unat x * unat b + unat l"
    by (simp add: m_def q_def)
  have "mpv ys + 2 ^ (32 * length (x # xs)) * unat c
      = m + 4294967296 * (mpv rs + 2 ^ (32 * length xs) * unat c)"
    by (simp add: ys unat_low64 m_def power_add algebra_simps)
  also have "\<dots> = m + 4294967296 * q + 4294967296 * (mpv xs * unat b)"
    unfolding IH by (simp add: algebra_simps)
  finally show ?case unfolding mq by (simp add: algebra_simps)
qed simp

lemma mp_mul1_length: "mp_mul1 xs b l = (ys, c) \<Longrightarrow> length ys = length xs"
  by (induction xs b l arbitrary: ys c rule: mp_mul1.induct) (auto simp: Let_def split: prod.splits)

lemma mp_add_ui_length: "mp_add_ui xs k = (ys, c) \<Longrightarrow> length ys = length xs"
  by (induction xs k arbitrary: ys c rule: mp_add_ui.induct)
     (auto simp: Let_def split: prod.splits if_splits)


section \<open>Division by one limb\<close>

lemma limb_div_less:
  assumes "unat (r :: limb) < unat (b :: limb)"
  shows "(unat (x :: limb) + 4294967296 * unat r) div unat b < 4294967296"
proof -
  have "unat x + 4294967296 * unat r < 4294967296 * (unat r + 1)"
    using unat_u32_less [of x] by simp
  also have "\<dots> \<le> 4294967296 * unat b" using assms by simp
  finally show ?thesis by (intro less_mult_imp_div_less)
qed

lemma mp_div1_step:
  fixes r b x :: limb
  assumes "unat r < unat b"
  defines "a1 \<equiv> push_bit 32 (ucast r :: u64) OR ucast x"
  shows "unat (ucast (a1 div ucast b) :: limb) = (unat x + 4294967296 * unat r) div unat b"
    and "unat (ucast (a1 mod ucast b) :: limb) = (unat x + 4294967296 * unat r) mod unat b"
proof -
  have a1: "unat a1 = unat x + 4294967296 * unat r"
    unfolding a1_def by (rule unat_join)
  show "unat (ucast (a1 div ucast b) :: limb) = (unat x + 4294967296 * unat r) div unat b"
    using limb_div_less [OF assms(1), of x] by (simp add: unat_low64 unat_div_distrib a1 unat_up64)
  have "(unat x + 4294967296 * unat r) mod unat b < 4294967296"
    using assms(1) unat_u32_less [of b] by (intro order.strict_trans [OF mod_less_divisor]) simp_all
  then show "unat (ucast (a1 mod ucast b) :: limb) = (unat x + 4294967296 * unat r) mod unat b"
    by (simp add: unat_low64 unat_mod_distrib a1 unat_up64)
qed

text \<open>
  The quotient digits and the remainder of a long division; any loop that divides one
  digit at a time this way computes the same.
\<close>

fun long_div :: "limb list \<Rightarrow> nat \<Rightarrow> nat \<Rightarrow> nat list \<times> nat" where
  "long_div [] b r = ([], r)"
| "long_div (x # xs) b r =
     (let (qs, r) = long_div xs b r; n = unat x + 4294967296 * r in (n div b # qs, n mod b))"

lemma long_div_less: "r < b \<Longrightarrow> long_div xs b r = (qs, r') \<Longrightarrow> r' < b"
  by (induction xs b r arbitrary: qs r' rule: long_div.induct) (auto simp: Let_def split: prod.splits)

definition digits_value :: "nat list \<Rightarrow> nat" where
  "digits_value ds = foldr (\<lambda>d s. d + 2 ^ 32 * s) ds 0"

lemma digits_value_simps [simp]:
  "digits_value [] = 0" "digits_value (d # ds) = d + 4294967296 * digits_value ds"
  by (simp_all add: digits_value_def)

lemma digits_value_map: "digits_value (map unat xs) = mpv xs"
  by (induction xs) simp_all

lemma long_div_value:
  "long_div xs b r = (qs, r') \<Longrightarrow>
    mpv xs + 2 ^ (32 * length xs) * r = digits_value qs * b + r'"
proof (induction xs b r arbitrary: qs r' rule: long_div.induct)
  case (2 x xs b r)
  obtain ds s where d: "long_div xs b r = (ds, s)" by fastforce
  define n where "n = unat x + 4294967296 * s"
  have q: "qs = n div b # ds" "r' = n mod b" using 2(2) by (simp_all add: d n_def Let_def)
  have "mpv (x # xs) + 2 ^ (32 * length (x # xs)) * r
      = unat x + 4294967296 * (mpv xs + 2 ^ (32 * length xs) * r)"
    by (simp add: power_add algebra_simps)
  also have "\<dots> = n + 4294967296 * (digits_value ds * b)"
    unfolding 2(1) [OF d] n_def by (simp add: algebra_simps)
  also have "n = n div b * b + n mod b" by simp
  finally show ?case by (simp add: q algebra_simps)
qed simp

lemma long_div_unique:
  assumes "long_div xs b r = (qs, r')" "r < b"
  shows "digits_value qs = (mpv xs + 2 ^ (32 * length xs) * r) div b"
    and "r' = (mpv xs + 2 ^ (32 * length xs) * r) mod b"
  using long_div_value [OF assms(1)] long_div_less [OF assms(2,1)] by simp_all

lemma mp_div1_long:
  "unat r < unat b \<Longrightarrow> mp_div1 xs b r = (qs, r') \<Longrightarrow>
    long_div xs (unat b) (unat r) = (map unat qs, unat r') \<and> length qs = length xs"
proof (induction xs b r arbitrary: qs r' rule: mp_div1.induct)
  case (2 x xs b r)
  obtain ds s where d: "mp_div1 xs b r = (ds, s)" by fastforce
  from 2(1) [OF 2(2) d] have l: "long_div xs (unat b) (unat r) = (map unat ds, unat s)"
      "length ds = length xs" by simp_all
  have "unat s < unat b" using long_div_less [OF 2(2) l(1)] .
  from mp_div1_step [OF this, of x] 2(3) l show ?case
    by (auto simp: d Let_def)
qed simp


section \<open>Shifts\<close>

lemma shl_split:
  assumes "s \<le> (32::nat)"
  shows "(a::nat) * 2 ^ s = 4294967296 * (a div 2 ^ (32 - s)) + (a mod 2 ^ (32 - s)) * 2 ^ s"
proof -
  have e: "(4294967296::nat) = 2 ^ (32 - s) * 2 ^ s"
    using assms by (simp add: power_add [symmetric])
  have "a * 2 ^ s = (2 ^ (32 - s) * (a div 2 ^ (32 - s)) + a mod 2 ^ (32 - s)) * 2 ^ s" by simp
  then show ?thesis unfolding e by (simp only: distrib_left distrib_right mult_ac)
qed

lemma unat_shl:
  assumes "s \<le> 32"
  shows "unat (push_bit s (a :: limb)) = (unat a mod 2 ^ (32 - s)) * 2 ^ s"
proof -
  have "(unat a mod 2 ^ (32 - s)) * 2 ^ s < 2 ^ (32 - s) * 2 ^ s"
    by (intro mult_strict_right_mono) simp_all
  also have "\<dots> = 4294967296" using assms by (simp add: power_add [symmetric])
  finally have l: "(unat a mod 2 ^ (32 - s)) * 2 ^ s < 4294967296" .
  have "unat (push_bit s a) = (unat a * 2 ^ s) mod 4294967296" by (simp add: unat_push_bit)
  also have "\<dots> = (unat a mod 2 ^ (32 - s)) * 2 ^ s"
    unfolding shl_split [OF assms, of "unat a"] using l by simp
  finally show ?thesis .
qed

lemma unat_shl_or:
  assumes "s \<le> 32" "unat l < 2 ^ s"
  shows "unat (push_bit s (a :: limb) OR l) = (unat a mod 2 ^ (32 - s)) * 2 ^ s + unat l"
  using nat_or_add [OF assms(2), of "unat a mod 2 ^ (32 - s)"]
  by (simp add: unsigned_or_eq unat_shl assms or.commute add.commute)

lemma mp_shl_value:
  assumes "mp_shl xs s l = (ys, c)" "s \<le> 32" "unat l < 2 ^ s"
  shows "mpv ys + 2 ^ (32 * length xs) * unat c = mpv xs * 2 ^ s + unat l \<and> unat c < 2 ^ s"
  using assms
proof (induction xs s l arbitrary: ys c rule: mp_shl.induct)
  case (2 a xs s l)
  obtain rs where r: "mp_shl xs s (drop_bit (32 - s) a) = (rs, c)"
      and ys: "ys = (push_bit s a OR l) # rs"
    using 2(2) by (auto split: prod.splits)
  have d: "unat (drop_bit (32 - s) a) = unat a div 2 ^ (32 - s)" by (simp add: unat_drop_bit)
  have "unat a < 2 ^ (32 - s) * 2 ^ s"
    using unat_u32_less [of a] 2(3) by (simp add: power_add [symmetric])
  then have "unat (drop_bit (32 - s) a) < 2 ^ s"
    unfolding d by (simp add: less_mult_imp_div_less mult.commute)
  from 2(1) [OF r 2(3) this]
  have IH: "mpv rs + 2 ^ (32 * length xs) * unat c = mpv xs * 2 ^ s + unat a div 2 ^ (32 - s)"
    and c: "unat c < 2 ^ s" by (simp_all add: d)
  have "mpv ys + 2 ^ (32 * length (a # xs)) * unat c
      = (unat a mod 2 ^ (32 - s)) * 2 ^ s + unat l
        + 4294967296 * (mpv rs + 2 ^ (32 * length xs) * unat c)"
    by (simp add: ys unat_shl_or [OF 2(3,4)] power_add algebra_simps)
  also have "\<dots> = 4294967296 * (unat a div 2 ^ (32 - s)) + (unat a mod 2 ^ (32 - s)) * 2 ^ s
      + unat l + 4294967296 * (mpv xs * 2 ^ s)"
    unfolding IH by (simp add: algebra_simps)
  also have "\<dots> = mpv (a # xs) * 2 ^ s + unat l"
    unfolding shl_split [OF 2(3), of "unat a", symmetric] by (simp add: algebra_simps)
  finally show ?case using c by simp
qed simp

lemma mp_shl_length: "mp_shl xs s l = (ys, c) \<Longrightarrow> length ys = length xs"
  by (induction xs s l arbitrary: ys c rule: mp_shl.induct) (auto split: prod.splits)

lemma unat_shr_or:
  assumes "s \<le> 32"
  shows "unat (drop_bit s a OR push_bit (32 - s) (l :: limb))
    = unat a div 2 ^ s + (unat l mod 2 ^ s) * 2 ^ (32 - s)"
proof -
  have "unat a < 2 ^ (32 - s) * 2 ^ s"
    using unat_u32_less [of a] assms by (simp add: power_add [symmetric])
  then have "unat a div 2 ^ s < 2 ^ (32 - s)" by (simp add: less_mult_imp_div_less)
  moreover have "unat (push_bit (32 - s) l) = (unat l mod 2 ^ s) * 2 ^ (32 - s)"
    using unat_shl [of "32 - s" l] assms by simp
  ultimately show ?thesis
    by (simp add: unsigned_or_eq unat_drop_bit nat_or_add)
qed

lemma mp_shr_loop_value:
  "mp_shr_loop xs s h = (rs, l) \<Longrightarrow> s \<le> 32 \<Longrightarrow>
    mpv rs * 2 ^ s + unat l mod 2 ^ s = mpv xs + 2 ^ (32 * length xs) * (unat h mod 2 ^ s)
    \<and> length rs = length xs"
proof (induction xs s h arbitrary: rs l rule: mp_shr_loop.induct)
  case (2 a xs s h)
  obtain ts k where r: "mp_shr_loop xs s h = (ts, k)" by fastforce
  with 2(2) have rs: "rs = (drop_bit s a OR push_bit (32 - s) k) # ts" "l = a" by auto
  from 2(1) [OF r 2(3)]
  have IH: "mpv ts * 2 ^ s + unat k mod 2 ^ s = mpv xs + 2 ^ (32 * length xs) * (unat h mod 2 ^ s)"
    and len: "length ts = length xs" by simp_all
  have e: "(2::nat) ^ (32 - s) * 2 ^ s = 4294967296"
    using 2(3) by (simp add: power_add [symmetric])
  have "mpv rs * 2 ^ s + unat l mod 2 ^ s
      = unat a div 2 ^ s * 2 ^ s + unat a mod 2 ^ s
        + (unat k mod 2 ^ s) * (2 ^ (32 - s) * 2 ^ s) + 4294967296 * (mpv ts * 2 ^ s)"
    by (simp only: rs mpv_simps unat_shr_or [OF 2(3)]) (simp only: algebra_simps)
  also have "\<dots> = unat a + 4294967296 * (mpv ts * 2 ^ s + unat k mod 2 ^ s)"
    unfolding e by (simp only: div_mult_mod_eq) (simp add: algebra_simps)
  finally show ?case unfolding IH by (simp add: rs len power_add algebra_simps)
qed simp

lemma mp_shr_value:
  assumes "mp_shr xs s 0 = (ys, r)" "s \<le> 31"
  shows "mpv ys = mpv xs div 2 ^ s \<and> unat r = mpv xs mod 2 ^ s \<and> length ys = length xs"
proof -
  obtain l where l: "mp_shr_loop xs s 0 = (ys, l)" and r: "r = l AND mask s"
    using assms(1) by (auto simp: mp_shr_def mask_eq_exp_minus_1 split: prod.splits)
  have "mpv ys * 2 ^ s + unat l mod 2 ^ s = mpv xs" "length ys = length xs"
    using mp_shr_loop_value [OF l] assms(2) by simp_all
  moreover have "unat r = unat l mod 2 ^ s" by (simp add: r unat_and_mask)
  moreover have "(q * 2 ^ s + m mod 2 ^ s) div 2 ^ s = q" "(q * 2 ^ s + m mod 2 ^ s) mod 2 ^ s = m mod 2 ^ s"
    for q m :: nat by simp_all
  ultimately show ?thesis by metis
qed


section \<open>Division by a normalized limb\<close>

text \<open>
  The estimate of the quotient from the precomputed inverse is the quotient or one less
  (Granlund and Montgomery), in the two cases of the top bit of the low limb. \<open>B\<close> is $2^{32}$.
\<close>

lemma quotient_estimate_low:
  fixes d m a1 a0 q :: int
  defines "B \<equiv> 4294967296"
  assumes m: "(B + m) * d \<le> B * B - 1" "B * B \<le> (B + m + 1) * d"
    and d: "0 < d" "d < B" and a: "0 \<le> a1" "a1 < d" "0 \<le> a0" "a0 \<le> d"
    and q: "q * B \<le> (m + B) * a1 + a0" "(m + B) * a1 + a0 < (q + 1) * B"
  shows "q * d \<le> a1 * B + a0" and "a1 * B + a0 < (q + 2) * d"
proof -
  have B: "0 < B" by (simp add: B_def)
  have "q * d * B \<le> ((m + B) * a1 + a0) * d"
    using mult_right_mono [OF q(1), of d] d by (simp add: ac_simps)
  also have "\<dots> = (B + m) * d * a1 + a0 * d" by (simp add: algebra_simps)
  also have "\<dots> \<le> (B * B - 1) * a1 + a0 * B"
    by (intro add_mono mult_right_mono mult_left_mono m a) (use d in simp_all)
  also have "\<dots> \<le> (a1 * B + a0) * B" using a by (simp add: algebra_simps)
  finally show "q * d \<le> a1 * B + a0" using B by simp
  have "0 \<le> (d - a0) * (B - d)" using a d by simp
  moreover have "a1 * d \<le> d * d - d"
    using mult_right_mono [of a1 "d - 1" d] a d by (simp add: algebra_simps)
  moreover have "(B * B - d) * a1 \<le> (B + m) * d * a1"
    using m(2) a by (intro mult_right_mono) (simp_all add: algebra_simps)
  moreover have "((m + B) * a1 + a0 + 1) * d \<le> (q + 1) * B * d"
    using q(2) d by (intro mult_right_mono) simp_all
  ultimately have "(a1 * B + a0) * B < (q + 2) * d * B"
    using d by (simp add: algebra_simps)
  then show "a1 * B + a0 < (q + 2) * d" using B by simp
qed

lemma quotient_estimate_high:
  fixes d m a1 a0 q :: int
  defines "B \<equiv> 4294967296"
  assumes m: "(B + m) * d \<le> B * B - 1" "B * B \<le> (B + m + 1) * d"
    and d: "0 < d" "d < B" and a: "0 \<le> a1" "a1 < d" "B - d \<le> a0" "a0 < B"
    and q: "q * B \<le> (m + B) * (a1 + 1) + a0 + d - 2 * B"
      "(m + B) * (a1 + 1) + a0 + d - 2 * B < (q + 1) * B"
  shows "q * d \<le> a1 * B + a0" and "a1 * B + a0 < (q + 2) * d"
proof -
  have B: "0 < B" by (simp add: B_def)
  have "q * d * B \<le> ((m + B) * (a1 + 1) + a0 + d - 2 * B) * d"
    using mult_right_mono [OF q(1), of d] d by (simp add: ac_simps)
  moreover have "(B + m) * d * (a1 + 1) \<le> (B * B - 1) * (a1 + 1)"
    by (intro mult_right_mono m) (use a in simp)
  moreover have "0 \<le> (a0 - (B - d)) * (B - d)" using a d by simp
  ultimately have "q * d * B \<le> (a1 * B + a0) * B" using a
    by (simp add: algebra_simps)
  then show "q * d \<le> a1 * B + a0" using B by simp
  have "0 < (B - d) * (B - a0)" using a d by simp
  moreover have "a1 * d + 1 \<le> d * d"
    using mult_strict_right_mono [of a1 d d] a d by linarith
  moreover have "(B * B - d) * (a1 + 1) \<le> (B + m) * d * (a1 + 1)"
    using m(2) a by (intro mult_right_mono) (simp_all add: algebra_simps)
  moreover have "((m + B) * (a1 + 1) + a0 + d - 2 * B + 1) * d \<le> (q + 1) * B * d"
    using q(2) d by (intro mult_right_mono) simp_all
  ultimately have "(a1 * B + a0) * B < (q + 2) * d * B"
    using d by (simp add: algebra_simps)
  then show "a1 * B + a0 < (q + 2) * d" using B by simp
qed


lemma udiv1norm_init_value:
  assumes "2147483648 \<le> unat (d :: limb)"
  defines "m \<equiv> unat (udiv1norm_init d)"
  shows "(4294967296 + m) * unat d \<le> 4294967296 * 4294967296 - 1"
    and "4294967296 * 4294967296 \<le> (4294967296 + m + 1) * unat d"
proof -
  define n where "n = (4294967296 * 4294967296 - 1 :: nat) - 4294967296 * unat d"
  have "unat (- d - 1) = 4294967295 - unat d"
  proof -
    have "unat (- 1 - d) = unat (- 1 :: limb) - unat d"
      by (rule unat_sub) simp
    moreover have "- d - 1 = - 1 - d" by simp
    ultimately have "unat (- d - 1) = unat (- 1 :: limb) - unat d" by (simp only:)
    then show ?thesis by (simp only: unsigned_minus_1_eq_mask mask_eq_exp_minus_1) simp
  qed
  then have n: "unat (push_bit 32 (ucast (- d - 1) :: u64) OR ucast (- 1 :: limb)) = n"
    using assms(1) unat_u32_less [of d]
    unfolding unat_join by (simp add: n_def diff_mult_distrib2 unsigned_minus_1_eq_mask mask_eq_exp_minus_1)
  have "n < 4294967296 * unat d" using assms(1) by (simp add: n_def)
  then have "n div unat d < 4294967296" by (simp add: less_mult_imp_div_less)
  then have m: "m = n div unat d"
    by (simp add: m_def udiv1norm_init_def Let_def unat_low64 unat_div_distrib unat_up64 n [simplified])
  have "m * unat d \<le> n" "n < (m + 1) * unat d"
    using assms(1) dividend_less_div_times [of "unat d" n] unfolding m by simp_all
  then show "(4294967296 + m) * unat d \<le> 4294967296 * 4294967296 - 1"
    and "4294967296 * 4294967296 \<le> (4294967296 + m + 1) * unat d"
    using unat_u32_less [of d] by (simp_all add: n_def algebra_simps)
qed


lemma neg_of_nat:
  assumes "k \<le> m" "(of_nat m :: 'a::len word) = 0"
  shows "- of_nat k = (of_nat (m - k) :: 'a word)"
proof (rule minus_unique)
  show "of_nat k + of_nat (m - k) = (0 :: 'a word)"
    using assms by (simp only: of_nat_add [symmetric] le_add_diff_inverse)
qed

lemma quotient_correction:
  fixes q d a1 a0 :: limb and n e k :: nat
  defines "a \<equiv> push_bit 32 (ucast a1 :: u64) OR ucast a0"
  defines "a' \<equiv> a - (ucast q :: u64) * ucast d - ucast d"
  defines "ah \<equiv> (ucast (drop_bit 32 a') :: limb)"
  assumes n: "n = unat a1 * 4294967296 + unat a0"
    and e: "unat q * unat d \<le> n" "n < (unat q + 2) * unat d" and d: "0 < unat d"
  shows "(q + (1 + ah), ucast a' + (ah AND d)) = (of_nat (n div unat d), of_nat (n mod unat d))"
proof -
  have "unat a = n" unfolding a_def n by (simp add: unat_join mult.commute)
  then have a: "a = of_nat n" by (metis of_nat_unat ucast_id)
  have u: "(ucast x :: u64) = of_nat (unat x)" for x :: limb by simp
  have D: "unat d < 4294967296" by (rule unat_u32_less)
  show ?thesis
  proof (cases "(unat q + 1) * unat d \<le> n")
    case True
    then obtain k where k: "n = (unat q + 1) * unat d + k" by (auto simp: le_iff_add)
    with e(2) have kd: "k < unat d" by simp
    have "(of_nat n :: u64) = (of_nat (unat q) + 1) * of_nat (unat d) + of_nat k"
      unfolding k by (simp only: of_nat_add of_nat_mult of_nat_1)
    then have a': "a' = of_nat k" unfolding a'_def a u by (simp add: algebra_simps)
    from kd D have ku: "unat (of_nat k :: u64) = k" by (simp add: unat_of_nat)
    have "unat ah = 0" using kd D by (simp add: ah_def unat_high64 a' ku)
    moreover have "ucast a' = (of_nat k :: limb)" 
      using kd D by (simp add: a' word_unat_eq_iff unat_low64 ku unat_of_nat)
    moreover have "n div unat d = unat q + 1" "n mod unat d = k"
      using kd unfolding k by (simp_all only: div_mult_self3 mod_mult_self3 div_less mod_less)
    ultimately show ?thesis by (simp add: unat_eq_0)
  next
    case False
    then obtain k where k: "n + k = (unat q + 1) * unat d" by (metis le_iff_add nat_le_linear)
    with e(1) have kd: "k \<le> unat d" by simp
    from False k have k0: "0 < k" by (cases k) simp_all
    have "of_nat n + of_nat k = (of_nat (unat q) + 1) * (of_nat (unat d) :: u64)"
      using arg_cong [OF k, of "of_nat :: nat \<Rightarrow> u64"]
      by (simp only: of_nat_add of_nat_mult of_nat_1)
    then have a': "a' = - of_nat k"
      unfolding a'_def a u by (simp add: algebra_simps)
    from k0 kd D have "a' = of_nat (18446744073709551616 - k)"
      unfolding a' by (intro neg_of_nat) (simp_all add: word_unat_eq_iff)
    then have ku: "unat a' = 18446744073709551616 - k"
      using k0 by (simp add: unat_of_nat)
    have "unat ah = 4294967295"
      using kd D k0 by (simp add: ah_def unat_high64 ku div_nat_eqI)
    then have ah: "ah = - 1" by (simp add: word_unat_eq_iff unsigned_minus_1_eq_mask mask_eq_exp_minus_1)
    have "d - of_nat k = (of_nat (unat d - k) :: limb)"
      using kd by (simp add: of_nat_diff)
    moreover have "- of_nat k = (of_nat (unat a') :: limb)"
      unfolding ku using kd D by (intro neg_of_nat) (simp_all add: word_unat_eq_iff)
    then have "ucast a' = (- of_nat k :: limb)" by simp
    ultimately have "ucast a' + (ah AND d) = of_nat (unat d - k)" by (simp add: ah algebra_simps)
    moreover have "n = unat q * unat d + (unat d - k)" using k kd by simp
    then have "n div unat d = unat q" "n mod unat d = unat d - k"
      using k0 d by simp_all
    ultimately show ?thesis by (simp add: ah)
  qed
qed


lemma signed_top_bit: "signed_drop_bit 31 (w :: limb) = (if unat w < 2147483648 then 0 else - 1)"
proof -
  have "bit w 31 \<longleftrightarrow> odd (unat w div 2147483648)"
    using bit_unsigned_iff [of w 31, where 'a = nat] by (simp add: bit_iff_odd)
  moreover have "unat w < 2147483648 \<Longrightarrow> unat w div 2147483648 = 0"
    "\<not> unat w < 2147483648 \<Longrightarrow> unat w div 2147483648 = 1"
    using unat_u32_less [of w] by (simp_all add: div_nat_eqI)
  ultimately have "bit w 31 \<longleftrightarrow> \<not> unat w < 2147483648" by fastforce
  moreover have "signed_drop_bit 31 w = (if bit w 31 then - 1 else 0)"
    by (rule bit_word_eqI) (auto simp: bit_signed_drop_bit_iff Suc_le_eq)
  ultimately show ?thesis by simp
qed

lemma quotient_word:
  fixes a :: u64 and a1 :: limb and d n :: nat
  defines "q \<equiv> (ucast (drop_bit 32 a) + a1 :: limb)" and "e \<equiv> unat a div 4294967296 + unat a1"
  assumes "e * d \<le> n" "n < (e + 2) * d" "n < 4294967296 * d"
  shows "unat q * d \<le> n \<and> n < (unat q + 2) * d"
proof -
  have "e * d < 4294967296 * d" using assms(3,5) by linarith
  then have "e < 4294967296" by simp
  then have "unat q = e" by (simp add: q_def e_def unat_word_ariths unat_high64)
  then show ?thesis using assms by simp
qed

lemma udiv1norm_value:
  fixes a0 a1 d :: limb
  assumes d: "2147483648 \<le> unat d" and a1: "unat a1 < unat d"
  shows "udiv1norm a1 a0 d (udiv1norm_init d)
    = (of_nat ((unat a1 * 4294967296 + unat a0) div unat d),
       of_nat ((unat a1 * 4294967296 + unat a0) mod unat d))"
proof -
  define n where "n = unat a1 * 4294967296 + unat a0"
  define m where "m = udiv1norm_init d"
  define s :: limb where "s = signed_drop_bit 31 a0"
  define a where "a = (ucast m :: u64) * ucast (a1 - s) + ucast (a0 + (s AND d))"
  define q :: limb where "q = ucast (drop_bit 32 a) + a1"
  define e where "e = unat a div 4294967296 + unat a1"
  have D: "unat d < 4294967296" and A: "unat a0 < 4294967296" by (rule unat_u32_less)+
  have eb: "int e * 4294967296 \<le> int (unat a) + int (unat a1) * 4294967296"
      "int (unat a) + int (unat a1) * 4294967296 < (int e + 1) * 4294967296"
    unfolding e_def using div_mult_mod_eq [of "unat a" 4294967296]
      mod_less_divisor [of 4294967296 "unat a"] by (simp_all add: zdiv_int del: of_nat_unat)
  note mv = udiv1norm_init_value [OF d, folded m_def]
  have mi: "(4294967296 + int (unat m)) * int (unat d) \<le> 4294967296 * 4294967296 - 1"
      "4294967296 * 4294967296 \<le> (4294967296 + int (unat m) + 1) * int (unat d)"
    using mv [THEN of_nat_mono, where 'a = int] by (simp_all del: of_nat_unat)
  have "int e * int (unat d) \<le> int (unat a1) * 4294967296 + int (unat a0)
      \<and> int (unat a1) * 4294967296 + int (unat a0) < (int e + 2) * int (unat d)"
  proof (cases "unat a0 < 2147483648")
    case True
    then have "s = 0" by (simp add: s_def signed_top_bit)
    then have "unat a = unat m * unat a1 + unat a0" unfolding a_def by (simp add: unat_muladd)
    then have "int (unat a) = int (unat m) * int (unat a1) + int (unat a0)" by (simp del: of_nat_unat)
    with eb True d a1 D mi show ?thesis
      by (intro conjI quotient_estimate_low [of "int (unat m)"]) (simp_all add: algebra_simps del: of_nat_unat)
  next
    case False
    then have s: "s = - 1" by (simp add: s_def signed_top_bit)
    have "unat (a1 + 1) = unat a1 + 1" using a1 D by (simp add: unat_word_ariths)
    moreover have "unat (a0 + d) = unat a0 + unat d - 4294967296"
      using False d A D by (simp add: unat_word_ariths mod_if)
    ultimately have "int (unat a) = int (unat m) * (int (unat a1) + 1) + int (unat a0) + int (unat d) - 4294967296"
      using False d unfolding a_def s diff_minus_eq_add unat_muladd by (simp add: algebra_simps del: of_nat_unat)
    with eb False d a1 A D mi show ?thesis
      by (intro conjI quotient_estimate_high [of "int (unat m)"]) (simp_all add: algebra_simps del: of_nat_unat)
  qed
  then have "int (e * unat d) \<le> int n" "int n < int ((e + 2) * unat d)" by (simp_all add: n_def algebra_simps del: of_nat_unat)
  then have "e * unat d \<le> n" "n < (e + 2) * unat d" by (simp_all only: of_nat_le_iff of_nat_less_iff)
  moreover have "unat a1 * 4294967296 + 4294967296 \<le> 4294967296 * unat d" using a1 by simp
  then have "n < 4294967296 * unat d" using A unfolding n_def by linarith
  ultimately have q: "unat q * unat d \<le> n" "n < (unat q + 2) * unat d"
    using quotient_word [of a a1 "unat d" n] by (simp_all add: q_def e_def)
  have "0 < unat d" using d by simp
  from quotient_correction [OF n_def q this] show ?thesis
    by (simp add: udiv1norm_def Let_def n_def a_def q_def m_def s_def)
qed


lemma div1_of_nat:
  fixes r b x :: limb
  assumes "unat r < unat b"
  shows "(ucast ((push_bit 32 (ucast r :: u64) OR ucast x) div ucast b) :: limb)
      = of_nat ((unat r * 4294967296 + unat x) div unat b)"
    and "(ucast ((push_bit 32 (ucast r :: u64) OR ucast x) mod ucast b) :: limb)
      = of_nat ((unat r * 4294967296 + unat x) mod unat b)"
  using mp_div1_step [OF assms, of x]
  by (metis add.commute mult.commute of_nat_unat ucast_id)+

lemma mp_div1norm_loop_is_mp_div1:
  assumes "2147483648 \<le> unat (b :: limb)"
  shows "unat r < unat b \<Longrightarrow> mp_div1norm_loop xs b r (udiv1norm_init b) = mp_div1 xs b r"
proof (induction xs arbitrary: r)
  case (Cons x xs)
  obtain qs s where d: "mp_div1 xs b r = (qs, s)" by fastforce
  have "unat s < unat b"
    using mp_div1_long [OF Cons.prems d] long_div_less [OF Cons.prems] by blast
  note st = udiv1norm_value [OF assms this, of x] div1_of_nat [OF this, of x]
  have "mp_div1norm_loop (x # xs) b r (udiv1norm_init b)
      = (let (q, r) = udiv1norm s x b (udiv1norm_init b) in (q # qs, r))"
    by (simp only: mp_div1norm_loop.simps Cons.IH [OF Cons.prems] d Let_def prod.case)
  also have "\<dots> = mp_div1 (x # xs) b r"
    by (simp only: mp_div1.simps d st Let_def prod.case)
  finally show ?case .
qed simp

lemma mp_div1_value:
  assumes "mp_div1 xs b r = (qs, r')" "unat r < unat b"
  shows "mpv qs = (mpv xs + 2 ^ (32 * length xs) * unat r) div unat b"
    and "unat r' = (mpv xs + 2 ^ (32 * length xs) * unat r) mod unat b"
    and "length qs = length xs"
proof -
  from mp_div1_long [OF assms(2,1)]
  have l: "long_div xs (unat b) (unat r) = (map unat qs, unat r')" "length qs = length xs" by simp_all
  from long_div_unique [OF l(1) assms(2)] l(2)
  show "mpv qs = (mpv xs + 2 ^ (32 * length xs) * unat r) div unat b"
    and "unat r' = (mpv xs + 2 ^ (32 * length xs) * unat r) mod unat b"
    and "length qs = length xs" by (simp_all add: digits_value_map)
qed

lemma mpv_inj: "length xs = length ys \<Longrightarrow> mpv xs = mpv ys \<Longrightarrow> xs = ys"
proof (induction xs ys rule: list_induct2)
  case (Cons x xs y ys)
  have "(unat z + 4294967296 * m) mod 4294967296 = unat z" "(unat z + 4294967296 * m) div 4294967296 = m"
    for z :: limb and m using unat_u32_less [of z] by simp_all
  then have "unat x = unat y" "mpv xs = mpv ys"
    using Cons(3) by (metis mpv_simps(2))+
  with Cons show ?case by (simp add: word_unat_eq_iff)
qed simp

lemma mpv_less: "mpv xs < 2 ^ (32 * length xs)"
proof (induction xs)
  case (Cons x xs)
  have "unat x + 4294967296 * mpv xs < 4294967296 * (mpv xs + 1)"
    using unat_u32_less [of x] by simp
  also have "\<dots> \<le> 4294967296 * 2 ^ (32 * length xs)" using Cons by (intro mult_left_mono) simp_all
  finally show ?case by (simp add: power_add)
qed simp

lemma unat_shl_small: "unat (d :: limb) * 2 ^ s < 4294967296 \<Longrightarrow> unat (push_bit s d) = unat d * 2 ^ s"
  by (simp add: unat_push_bit)

lemma mp_div1norm_div1:
  assumes "2147483648 \<le> unat d * 2 ^ s" "unat d * 2 ^ s < 4294967296" "s \<le> 31" "unat r < unat d"
  defines "b \<equiv> push_bit s d"
  shows "mp_div1norm xs b r (udiv1norm_init b) s = mp_div1 xs d r"
proof -
  have b: "unat b = unat d * 2 ^ s" unfolding b_def using assms(2) by (rule unat_shl_small)
  have nb: "2147483648 \<le> unat b" using assms(1) b by simp
  obtain t h where t: "mp_shl xs s 0 = (t, h)" by fastforce
  define r' where "r' = push_bit s r OR h"
  have tv: "mpv t + 2 ^ (32 * length xs) * unat h = mpv xs * 2 ^ s" "unat h < 2 ^ s"
    and tl: "length t = length xs"
    using mp_shl_value [OF t] mp_shl_length [OF t] assms(3) by simp_all
  have rs: "unat r * 2 ^ s < 4294967296"
    using assms(2,4) by (meson less_imp_le_nat mult_le_mono1 order.strict_trans1)
  then have r': "unat r' = unat r * 2 ^ s + unat h"
    using nat_or_add [OF tv(2), of "unat r"] unat_shl_small [OF rs]
    by (simp add: r'_def unsigned_or_eq or.commute add.commute)
  have "unat r * 2 ^ s + 2 ^ s \<le> unat d * 2 ^ s"
    using mult_le_mono1 [of "unat r + 1" "unat d" "2 ^ s"] assms(4) by simp
  then have rb: "unat r' < unat b" using tv(2) r' b by linarith
  have norm: "mp_div1norm xs b r (udiv1norm_init b) s
      = (let (qs, k) = mp_div1 t b r' in (qs, drop_bit s k))"
  proof (cases "s = 0")
    case True
    with tv have "mpv t = mpv xs" "h = 0" by (simp_all add: unat_eq_0)
    then have "t = xs" using mpv_inj [OF tl] by simp
    with True \<open>h = 0\<close> rb show ?thesis
      by (simp add: mp_div1norm_def r'_def mp_div1norm_loop_is_mp_div1 [OF nb])
  next
    case False
    then show ?thesis
      by (simp add: mp_div1norm_def t r'_def [symmetric] mp_div1norm_loop_is_mp_div1 [OF nb rb])
  qed
  obtain qs k where q: "mp_div1 t b r' = (qs, k)" by fastforce
  obtain qs' k' where q': "mp_div1 xs d r = (qs', k')" by fastforce
  have num: "mpv t + 2 ^ (32 * length xs) * unat r'
      = (mpv xs + 2 ^ (32 * length xs) * unat r) * 2 ^ s"
    unfolding r' using tv(1) by (simp add: algebra_simps)
  note v = mp_div1_value [OF q rb, unfolded tl num b] mp_div1_value [OF q' assms(4)]
  have "qs = qs'" using v by (intro mpv_inj) simp_all
  moreover have "drop_bit s k = k'" using v by (simp add: word_unat_eq_iff unat_drop_bit)
  ultimately show ?thesis by (simp add: norm q q')
qed

text \<open>
  Division with the precomputed inverse of the normalized divisor is long division: for
  every divisor \<open>d\<close>, every shift that normalizes it and every high limb below \<open>d\<close>, \<open>mp_div1norm\<close>
  (multiplications only, on the shifted number) returns the limbs and the remainder of
  \<open>mp_div1\<close> (hardware division).\<close>

theorem mp_div1norm_is_mp_div1:
  assumes "2147483648 \<le> unat d * 2 ^ s" "unat d * 2 ^ s < 4294967296" "s \<le> 31" "unat r < unat d"
  defines "b \<equiv> push_bit s d"
  shows "mp_div1norm xs b r (udiv1norm_init b) s = mp_div1 xs d r"
  unfolding b_def using assms(1-4) by (rule mp_div1norm_div1)

theorem mp_div1norm_is_mp_div1_witness:
  "mp_div1norm [7, 4294967295, 11] (push_bit 29 5) 3 (udiv1norm_init (push_bit 29 5)) 29
    = mp_div1 [7, 4294967295, 11] 5 3"
  by (rule mp_div1norm_is_mp_div1) simp_all

text \<open>
  Multiplying a number by a limb and adding a smaller one is undone by dividing: dividing the
  limbs of \<open>mp_mul1\<close> by the same limb, with its high carry as the high limb, gives back the
  number and leaves the added limb as the remainder.\<close>

theorem mp_div1_mp_mul1:
  assumes "mp_mul1 xs b l = (ys, c)" "unat l < unat b"
  shows "mp_div1 ys b c = (xs, l)"
proof -
  obtain qs r where d: "mp_div1 ys b c = (qs, r)" by fastforce
  have len: "length ys = length xs" using mp_mul1_length [OF assms(1)] .
  have v: "mpv ys + 2 ^ (32 * length xs) * unat c = mpv xs * unat b + unat l"
    using mp_mul1_value [OF assms(1)] .
  have "2 ^ (32 * length xs) * unat c < 2 ^ (32 * length xs) * unat b"
  proof -
    have "2 ^ (32 * length xs) * unat c < (mpv xs + 1) * unat b"
      using v assms(2) by simp
    also have "\<dots> \<le> 2 ^ (32 * length xs) * unat b"
      using mpv_less [of xs] by (intro mult_right_mono) simp_all
    finally show ?thesis .
  qed
  then have "unat c < unat b" by simp
  from mp_div1_value [OF d this] v assms(2) len
  have "mpv qs = mpv xs" "unat r = unat l" "length qs = length xs" by simp_all
  then show ?thesis using mpv_inj by (simp add: d word_unat_eq_iff)
qed

theorem mp_div1_mp_mul1_witness:
  "mp_div1 (fst (mp_mul1 [3865470566, 2576980377, 7] 4000000000 9)) 4000000000
      (snd (mp_mul1 [3865470566, 2576980377, 7] 4000000000 9))
    = ([3865470566, 2576980377, 7], 9)"
  by (rule mp_div1_mp_mul1 [OF prod.collapse [symmetric]]) simp

end
