(* ===== verification/Mpb.thy ===== *)
theory Mpb
  imports CBits Limbs
begin

text \<open>
  The numbers of \<^verbatim>\<open>quickjs/dtoa.c\<close>, \<^verbatim>\<open>mpb_t\<close>: an array of limbs and how many of them are in
  use. The model keeps the limbs in use as a list, so that the C field \<open>len\<close> is its length;
  the fixed capacity of the C array is not represented. Normalization, powers, bits, the
  rounding shift, comparison and conversion from and to 64 bits, each with its meaning on the
  number \<open>mpv r\<close> that the limbs represent.
\<close>

type_synonym mpb = "limb list"

function mpb_renorm :: "mpb \<Rightarrow> mpb" where
  "mpb_renorm r = (if 1 < length r \<and> last r = 0 then mpb_renorm (butlast r) else r)"
  by pat_completeness auto
termination by (relation "measure length") auto

declare mpb_renorm.simps [simp del]

section \<open>Powers\<close>

definition pow5_table :: "u32 list" where
  "pow5_table = [
    0x00000005, 0x00000019, 0x0000007d, 0x00000271,
    0x00000c35, 0x00003d09, 0x0001312d, 0x0005f5e1,
    0x001dcd65, 0x009502f9, 0x02e90edd, 0x0e8d4a51,
    0x48c27395, 0x6bcc41e9, 0x1afd498d, 0x86f26fc1,
    0xa2bc2ec5]"

definition pow5h_table :: "u8 list" where
  "pow5h_table = [0x00000001, 0x00000007, 0x00000023, 0x000000b1]"

definition pow5_inv_table :: "u32 list" where
  "pow5_inv_table = [
    0x99999999, 0x47ae147a, 0x0624dd2f, 0xa36e2eb1,
    0x4f8b588e, 0x0c6f7a0b, 0xad7f29ab, 0x5798ee23,
    0x12e0be82, 0xb7cdfd9d, 0x5fd7fe17, 0x19799812,
    0xc25c2684]"

text \<open>The loop runs over \<open>i = k - 1, ..., 0\<close>.\<close>

fun pow_ui_loop :: "u64 \<Rightarrow> u32 \<Rightarrow> u32 \<Rightarrow> nat \<Rightarrow> u64" where
  "pow_ui_loop r a b 0 = r"
| "pow_ui_loop r a b (Suc i) =
     (let r = r * r;
          r = (if drop_bit i b AND 1 \<noteq> 0 then r * ucast a else r)
      in pow_ui_loop r a b i)"

definition pow_ui :: "u32 \<Rightarrow> u32 \<Rightarrow> u64" where
  "pow_ui a b =
     (if b = 0 then 1
      else if b = 1 then ucast a
      else if (a = 5 \<or> a = 10) \<and> b \<le> 17 then
        let r = ucast (pow5_table ! unat (b - 1));
            r = (if b \<ge> 14 then r OR push_bit 32 (ucast (pow5h_table ! unat (b - 14))) else r)
        in if a = 10 then push_bit (unat b) r else r
      else
        let n_bits = 32 - clz32 b in pow_ui_loop (ucast a) a b (n_bits - 1))"

text \<open>The result, the inverse of its normalized divisor and the shift.\<close>

definition pow_ui_inv :: "u32 \<Rightarrow> u32 \<Rightarrow> u32 \<times> u32 \<times> nat" where
  "pow_ui_inv a b =
     (if a = 5 \<and> b \<ge> 1 \<and> b \<le> 13 then
        let r = pow5_table ! unat (b - 1); shift = clz32 r
        in (push_bit shift r, pow5_inv_table ! unat (b - 1), shift)
      else
        let r = ucast (pow_ui a b); shift = clz32 r; r = push_bit shift r
        in (r, udiv1norm_init r, shift))"

section \<open>Bits and the rounding shift\<close>

datatype rnd_mode = JS_RNDN | JS_RNDNA | JS_RNDZ

definition mpb_get_bit :: "mpb \<Rightarrow> nat \<Rightarrow> limb" where
  "mpb_get_bit r k =
     (let l = k div 32; k = k mod 32
      in if l \<ge> length r then 0 else drop_bit k (r ! l) AND 1)"

text \<open>The bits below bit \<open>shift - 1\<close>, or-ed together.\<close>

definition mpb_low_bits :: "mpb \<Rightarrow> nat \<Rightarrow> limb" where
  "mpb_low_bits r shift =
     (if shift \<ge> 2 then
        let k = shift - 1; l = k div 32; k = k mod 32;
            bit2 = foldl (OR) 0 (take l r)
        in if l < length r then bit2 OR (r ! l AND (push_bit k 1 - 1)) else bit2
      else 0)"

definition mpb_add_one :: "mpb \<Rightarrow> nat \<Rightarrow> rnd_mode \<Rightarrow> bool" where
  "mpb_add_one r shift m =
     (case m of
        JS_RNDZ \<Rightarrow> False
      | _ \<Rightarrow>
          if mpb_get_bit r (shift - 1) \<noteq> 0 then
            let bit2 = (if m = JS_RNDNA then 1 else mpb_low_bits r shift)
            in if bit2 \<noteq> 0 then True else mpb_get_bit r shift \<noteq> 0
          else False)"

definition mpb_shl :: "mpb \<Rightarrow> nat \<Rightarrow> mpb" where
  "mpb_shl r n =
     (let l = n div 32; shift = n mod 32;
          r = (if shift \<noteq> 0 then let (t, c) = mp_shl r shift 0 in mpb_renorm (t @ [c]) else r)
      in if l > 0 then replicate l 0 @ r else r)"

definition mpb_shr :: "mpb \<Rightarrow> nat \<Rightarrow> bool \<Rightarrow> mpb" where
  "mpb_shr r n add_one =
     (let l = n div 32; shift = n mod 32
      in if l \<ge> length r then [of_bool add_one]
         else
           let r = (if l > 0 then drop l r else r);
               r = (if shift \<noteq> 0 then mpb_renorm (fst (mp_shr r shift 0)) else r)
           in if add_one then
                let (t, a) = mp_add_ui r 1 in if a \<noteq> 0 then t @ [a] else t
              else r)"

definition mpb_shr_round :: "mpb \<Rightarrow> int \<Rightarrow> rnd_mode \<Rightarrow> mpb" where
  "mpb_shr_round r shift m =
     (if shift = 0 then r
      else if shift < 0 then mpb_shl r (nat (- shift))
      else mpb_shr r (nat shift) (mpb_add_one r (nat shift) m))"

section \<open>Comparison and conversions\<close>

text \<open>The loop of \<open>mpb_cmp\<close>: the most significant limbs that differ decide.\<close>

fun mpb_cmp_loop :: "mpb \<Rightarrow> mpb \<Rightarrow> int" where
  "mpb_cmp_loop (x # xs) (y # ys) =
     (let c = mpb_cmp_loop xs ys
      in if c \<noteq> 0 then c else if x \<noteq> y then (if x < y then -1 else 1) else 0)"
| "mpb_cmp_loop _ _ = 0"

definition mpb_cmp :: "mpb \<Rightarrow> mpb \<Rightarrow> int" where
  "mpb_cmp a b =
     (if length a < length b then -1
      else if length a > length b then 1
      else mpb_cmp_loop a b)"

definition mpb_set_u64 :: "u64 \<Rightarrow> mpb" where
  "mpb_set_u64 m =
     (let t0 = ucast m; t1 = ucast (drop_bit 32 m) in if t1 = 0 then [t0] else [t0, t1])"

definition mpb_get_u64 :: "mpb \<Rightarrow> u64" where
  "mpb_get_u64 r =
     (if length r = 1 then ucast (r ! 0) else ucast (r ! 0) OR push_bit 32 (ucast (r ! 1)))"

definition mpb_floor_log2 :: "mpb \<Rightarrow> int" where
  "mpb_floor_log2 a =
     (let v = last a
      in if v = 0 then -1 else int (length a) * 32 - 1 - int (clz32 v))"

section \<open>Normalized numbers\<close>

definition mpb_ok :: "mpb \<Rightarrow> bool" where
  "mpb_ok r \<longleftrightarrow> r \<noteq> [] \<and> (1 < length r \<longrightarrow> last r \<noteq> 0)"

lemma mpv_append: "mpv (xs @ ys) = mpv xs + 2 ^ (32 * length xs) * mpv ys"
  by (induction xs) (simp_all add: power_add algebra_simps)

lemma mpv_replicate [simp]: "mpv (replicate n 0) = 0"
  by (induction n) simp_all

lemma mpv_butlast_last: "xs \<noteq> [] \<Longrightarrow> mpv xs = mpv (butlast xs) + 2 ^ (32 * (length xs - 1)) * unat (last xs)"
  using mpv_append [of "butlast xs" "[last xs]"] by simp

lemma mpv_renorm [simp]: "mpv (mpb_renorm r) = mpv r"
proof (induction r rule: mpb_renorm.induct)
  case (1 r)
  show ?case
  proof (cases "1 < length r \<and> last r = 0")
    case True
    then have "mpv r = mpv (butlast r)" by (subst mpv_butlast_last) auto
    with 1 True show ?thesis by (simp add: mpb_renorm.simps [of r])
  next
    case False
    then show ?thesis by (subst mpb_renorm.simps) auto
  qed
qed

lemma mpb_ok_renorm: "r \<noteq> [] \<Longrightarrow> mpb_ok (mpb_renorm r)"
proof (induction r rule: mpb_renorm.induct)
  case (1 r)
  show ?case
  proof (cases "1 < length r \<and> last r = 0")
    case True
    then have "butlast r \<noteq> []" by (cases r) auto
    with 1 True show ?thesis by (simp add: mpb_renorm.simps [of r])
  qed (use 1(2) in \<open>auto simp: mpb_renorm.simps [of r] mpb_ok_def\<close>)
qed

lemma last_limb_iff: "xs \<noteq> [] \<Longrightarrow> last xs \<noteq> 0 \<longleftrightarrow> 2 ^ (32 * (length xs - 1)) \<le> mpv xs"
proof -
  assume n: "xs \<noteq> []"
  have b: "mpv (butlast xs) < 2 ^ (32 * (length xs - 1))" using mpv_less [of "butlast xs"] by simp
  show ?thesis
  proof (cases "last xs = 0")
    case True
    with b n show ?thesis by (simp add: mpv_butlast_last)
  next
    case False
    then have "1 \<le> unat (last xs)" by (simp add: Suc_le_eq unat_gt_0)
    then have "(2::nat) ^ (32 * (length xs - 1)) * 1 \<le> 2 ^ (32 * (length xs - 1)) * unat (last xs)"
      by (intro mult_left_mono) simp_all
    then have "(2::nat) ^ (32 * (length xs - 1)) \<le> mpv xs"
      unfolding mpv_butlast_last [OF n] by (intro trans_le_add2) simp
    with False show ?thesis by blast
  qed
qed

lemma mpb_ok_value: "mpb_ok r \<longleftrightarrow> r \<noteq> [] \<and> (1 < length r \<longrightarrow> 2 ^ (32 * (length r - 1)) \<le> mpv r)"
  using last_limb_iff [of r] unfolding mpb_ok_def by blast

lemma mpb_ok_unique:
  assumes "mpb_ok a" "mpb_ok b" "mpv a = mpv b"
  shows "a = b"
proof -
  have "\<not> length x < length y" if "mpb_ok x" "mpb_ok y" "mpv x = mpv y" for x y
  proof
    assume l: "length x < length y"
    moreover have "0 < length x" using that(1) by (simp add: mpb_ok_def)
    ultimately have "2 ^ (32 * (length y - 1)) \<le> mpv y" using that(2) unfolding mpb_ok_value by linarith
    moreover have "(2::nat) ^ (32 * length x) \<le> 2 ^ (32 * (length y - 1))"
      using l by (intro power_increasing) simp_all
    ultimately show False using mpv_less [of x] that(3) by linarith
  qed
  with assms have "length a = length b" by (metis nat_neq_iff)
  then show ?thesis using assms(3) by (rule mpv_inj)
qed

section \<open>Bits\<close>

lemma mpv_take_drop: "mpv r = mpv (take l r) + 2 ^ (32 * min l (length r)) * mpv (drop l r)"
  using mpv_append [of "take l r" "drop l r"] by (simp add: min.commute)

lemma mpv_drop: "mpv (drop l r) = mpv r div 2 ^ (32 * l)"
proof (cases "l < length r")
  case True
  have "mpv (take l r) < 2 ^ (32 * l)" using mpv_less [of "take l r"] True by simp
  then show ?thesis using True mpv_take_drop [of r l] by simp
next
  case False
  then have "(2::nat) ^ (32 * length r) \<le> 2 ^ (32 * l)" by (intro power_increasing) simp_all
  with mpv_less [of r] have "mpv r < 2 ^ (32 * l)" by linarith
  with False show ?thesis by simp
qed

lemma mpv_take: "mpv (take l r) = mpv r mod 2 ^ (32 * l)"
proof (cases "l < length r")
  case True
  have "mpv (take l r) < 2 ^ (32 * l)" using mpv_less [of "take l r"] True by simp
  then show ?thesis using True mpv_take_drop [of r l] by simp
next
  case False
  then have "(2::nat) ^ (32 * length r) \<le> 2 ^ (32 * l)" by (intro power_increasing) simp_all
  with mpv_less [of r] have "mpv r < 2 ^ (32 * l)" by linarith
  with False show ?thesis by simp
qed

lemma mpv_nth: "l < length r \<Longrightarrow> unat (r ! l) = mpv r div 2 ^ (32 * l) mod 4294967296"
  using mpv_drop [of l r] unat_u32_less [of "r ! l"]
  by (simp add: Cons_nth_drop_Suc [symmetric] del: Cons_nth_drop_Suc)
    (metis mod_less mod_mult_self2)

lemma div_mod_bit: "k < 32 \<Longrightarrow> (n::nat) div 2 ^ (32 * l) mod 4294967296 div 2 ^ k mod 2
    = n div 2 ^ (32 * l + k) mod 2"
proof -
  assume k: "k < 32"
  define m where "m = n div 2 ^ (32 * l)"
  have "(4294967296::nat) = 2 ^ k * 2 ^ (32 - k)" using k by (simp add: power_add [symmetric])
  then have "m mod 4294967296 div 2 ^ k = m div 2 ^ k mod 2 ^ (32 - k)"
    by (metis mod_mult2_eq div_mult_self4 div_mult_self3 add.commute mod_div_trivial
        Euclidean_Rings.div_add1_eq nonzero_mult_div_cancel_left power_not_zero zero_neq_numeral
        add.right_neutral div_less mod_less_divisor zero_less_numeral zero_less_power)
  moreover have "m div 2 ^ k mod 2 ^ (32 - k) mod 2 = m div 2 ^ k mod 2"
    using k by (intro mod_mod_cancel) (simp add: le_imp_power_dvd)
  ultimately show ?thesis by (simp add: m_def div_mult2_eq power_add)
qed

lemma mpb_get_bit_value: "unat (mpb_get_bit r k) = mpv r div 2 ^ k mod 2"
proof (cases "k div 32 < length r")
  case True
  have "unat (drop_bit (k mod 32) (r ! (k div 32)) AND 1)
      = unat (r ! (k div 32)) div 2 ^ (k mod 32) mod 2"
    using unat_and_mask [of "drop_bit (k mod 32) (r ! (k div 32))" 1]
    by (simp add: unat_drop_bit mask_eq_exp_minus_1)
  also have "\<dots> = mpv r div 2 ^ (32 * (k div 32) + k mod 32) mod 2"
    unfolding mpv_nth [OF True] by (rule div_mod_bit) simp
  finally show ?thesis using True by (simp add: mpb_get_bit_def Let_def)
next
  case False
  then have "32 * length r \<le> k" by linarith
  then have "(2::nat) ^ (32 * length r) \<le> 2 ^ k" by (intro power_increasing) simp_all
  then have "mpv r < 2 ^ k" using mpv_less [of r] by linarith
  with False show ?thesis by (simp add: mpb_get_bit_def Let_def)
qed

lemma mpb_get_bit_iff: "mpb_get_bit r k \<noteq> 0 \<longleftrightarrow> odd (mpv r div 2 ^ k)"
  using mpb_get_bit_value [of r k] by (metis odd_iff_mod_2_eq_one unat_0 unat_eq_zero
      not_mod_2_eq_1_eq_0 zero_neq_one parity_cases)

lemma or_all_zero: "foldl (OR) b xs = 0 \<longleftrightarrow> b = (0 :: limb) \<and> mpv xs = 0"
proof (induction xs arbitrary: b)
  case (Cons x xs)
  have "b OR x = 0 \<longleftrightarrow> b = 0 \<and> x = 0" by (metis or.right_neutral or.left_neutral or_eq_0_iff)
  with Cons show ?case by (auto simp: unat_eq_0)
qed simp

section \<open>The rounding shift\<close>

lemma mpb_low_bits_iff:
  assumes "1 \<le> s"
  shows "mpb_low_bits r s \<noteq> 0 \<longleftrightarrow> mpv r mod 2 ^ (s - 1) \<noteq> 0"
proof (cases "s = 1")
  case False
  define l k where "l = (s - 1) div 32" and "k = (s - 1) mod 32"
  have s: "s - 1 = 32 * l + k" by (simp add: l_def k_def)
  have low: "foldl (OR) 0 (take l r) = 0 \<longleftrightarrow> mpv r mod 2 ^ (32 * l) = 0"
    by (simp add: or_all_zero mpv_take)
  show ?thesis
  proof (cases "l < length r")
    case True
    define n m where "n = mpv r" and "m = mpv r div 2 ^ (32 * l)"
    have "(2::nat) ^ k dvd 2 ^ 32" using k_def by (intro le_imp_power_dvd) simp
    then have "(m mod 4294967296) mod 2 ^ k = m mod 2 ^ k"
      by (intro mod_mod_cancel) simp
    then have "(r ! l AND (push_bit k 1 - 1)) = 0 \<longleftrightarrow> m mod 2 ^ k = 0"
      using unat_and_mask [of "r ! l" k] mpv_nth [OF True]
      by (simp add: word_unat_eq_iff mask_eq_exp_minus_1 m_def)
    moreover have "n mod 2 ^ (s - 1) = 2 ^ (32 * l) * (m mod 2 ^ k) + n mod 2 ^ (32 * l)"
      unfolding s by (simp add: power_add mod_mult2_eq m_def n_def)
    moreover have "mpb_low_bits r s = foldl (OR) 0 (take l r) OR (r ! l AND (push_bit k 1 - 1))"
      using False assms True by (simp add: mpb_low_bits_def l_def k_def Let_def)
    ultimately show ?thesis using low by (auto simp: or_eq_0_iff n_def)
  next
    case l: False
    then have "32 * length r \<le> s - 1" using s by linarith
    then have "(2::nat) ^ (32 * length r) \<le> 2 ^ (s - 1)" "(2::nat) ^ (32 * length r) \<le> 2 ^ (32 * l)"
      using l by (intro power_increasing; simp)+
    then have "mpv r < 2 ^ (s - 1)" "mpv r < 2 ^ (32 * l)"
      using mpv_less [of r] by linarith+
    then have "mpv r mod 2 ^ (s - 1) = mpv r" "mpv r mod 2 ^ (32 * l) = mpv r" by simp_all
    moreover have "mpb_low_bits r s = foldl (OR) 0 (take l r)"
      using False assms l by (simp add: mpb_low_bits_def l_def Let_def)
    ultimately show ?thesis using low by simp
  qed
qed (simp add: mpb_low_bits_def)

text \<open>What rounding a number divided by $2^s$ means in each mode.\<close>

definition round_shr :: "rnd_mode \<Rightarrow> nat \<Rightarrow> nat \<Rightarrow> nat" where
  "round_shr m n s =
     (let q = n div 2 ^ s; rest = n mod 2 ^ s; half = 2 ^ s div 2
      in case m of
           JS_RNDZ \<Rightarrow> q
         | JS_RNDNA \<Rightarrow> if half \<le> rest then q + 1 else q
         | JS_RNDN \<Rightarrow> if half < rest \<or> (half = rest \<and> odd q) then q + 1 else q)"

lemma mpb_add_one_round:
  assumes "1 \<le> s"
  shows "mpv r div 2 ^ s + of_bool (mpb_add_one r s m) = round_shr m (mpv r) s"
proof -
  define n where "n = mpv r"
  define h :: nat where "h = 2 ^ (s - 1)"
  have h: "2 ^ s = 2 * h" "0 < h" using assms by (cases s; simp add: h_def)+
  define b where "b = n div h mod 2"
  define t where "t = n mod h"
  have rest: "n mod 2 ^ s = b * h + t"
    unfolding h b_def t_def by (simp only: mult.commute [of 2 h] mod_mult2_eq) (simp add: mult.commute)
  have th: "t < h" using h by (simp add: t_def)
  have bit: "mpb_get_bit r (s - 1) \<noteq> 0 \<longleftrightarrow> b = 1"
    by (simp add: mpb_get_bit_iff b_def n_def h_def odd_iff_mod_2_eq_one)
  have low: "mpb_low_bits r s \<noteq> 0 \<longleftrightarrow> 0 < t"
    using mpb_low_bits_iff [OF assms] by (simp add: t_def n_def h_def)
  have up: "mpb_get_bit r s \<noteq> 0 \<longleftrightarrow> odd (n div 2 ^ s)"
    by (simp add: mpb_get_bit_iff n_def)
  have one: "mpb_add_one r s m \<longleftrightarrow> (case m of JS_RNDZ \<Rightarrow> False | JS_RNDNA \<Rightarrow> b = 1
      | JS_RNDN \<Rightarrow> b = 1 \<and> (0 < t \<or> odd (n div 2 ^ s)))"
    unfolding mpb_add_one_def Let_def bit up by (cases m) (use low in auto)
  have b: "b = 0 \<or> b = 1" unfolding b_def by linarith
  have c: "h \<le> b * h + t \<longleftrightarrow> b = 1" "h < b * h + t \<longleftrightarrow> b = 1 \<and> 0 < t"
      "h = b * h + t \<longleftrightarrow> b = 1 \<and> t = 0"
    using b th by auto
  have half: "2 ^ s div 2 = h" using h by simp
  show ?thesis
    unfolding one round_shr_def n_def [symmetric] rest Let_def half c
    by (cases m) auto
qed

lemma mpb_shl_value:
  assumes "mpb_ok r"
  shows "mpv (mpb_shl r n) = mpv r * 2 ^ n"
    and "0 < mpv r \<Longrightarrow> mpb_ok (mpb_shl r n)"
proof -
  define s where "s = n mod 32"
  define t where "t = (if s \<noteq> 0 then let (t, c) = mp_shl r s 0 in mpb_renorm (t @ [c]) else r)"
  obtain u c where u: "mp_shl r s 0 = (u, c)" by fastforce
  have "mpv u + 2 ^ (32 * length r) * unat c = mpv r * 2 ^ s" "length u = length r"
    using mp_shl_value [OF u] mp_shl_length [OF u] by (simp_all add: s_def)
  then have t: "mpv t = mpv r * 2 ^ s" "mpb_ok t"
    using assms by (simp_all add: t_def u mpv_append mpb_ok_renorm)
  have e: "mpb_shl r n = replicate (n div 32) 0 @ t"
    by (simp add: mpb_shl_def Let_def t_def s_def)
  have "n = 32 * (n div 32) + s" by (simp add: s_def)
  then have "(2::nat) ^ n = 2 ^ (32 * (n div 32)) * 2 ^ s" by (metis power_add)
  then show v: "mpv (mpb_shl r n) = mpv r * 2 ^ n"
    unfolding e by (simp add: mpv_append t)
  assume "0 < mpv r"
  then have "mpv t \<noteq> 0" by (simp add: t)
  with t(2) have "last t \<noteq> 0"
    by (cases "1 < length t") (auto simp: mpb_ok_def last_conv_nth length_Suc_conv not_less le_Suc_eq unat_eq_0)
  with t(2) show "mpb_ok (mpb_shl r n)" unfolding e by (simp add: mpb_ok_def)
qed

lemma mpv_add_one:
  assumes "mp_add_ui r 1 = (t, a)" "r \<noteq> []"
  defines "v \<equiv> (if a \<noteq> 0 then t @ [a] else t)"
  shows "mpv v = mpv r + 1" and "mpb_ok r \<Longrightarrow> mpb_ok v"
proof -
  have m: "mpv t + 2 ^ (32 * length r) * unat a = mpv r + 1" "length t = length r"
    using mp_add_ui_value [OF assms(1)] mp_add_ui_length [OF assms(1)] by simp_all
  then show v: "mpv v = mpv r + 1" by (auto simp: v_def mpv_append)
  assume ok: "mpb_ok r"
  show "mpb_ok v"
  proof (cases "a = 0")
    case True
    then have "v = t" by (simp add: v_def)
    then show ?thesis using ok v m(2) unfolding mpb_ok_value by fastforce
  next
    case False
    then show ?thesis by (simp add: v_def mpb_ok_def)
  qed
qed

lemma mpb_shr_value:
  assumes "mpb_ok r"
  shows "mpv (mpb_shr r n c) = mpv r div 2 ^ n + of_bool c \<and> mpb_ok (mpb_shr r n c)"
proof -
  define l s where "l = n div 32" and "s = n mod 32"
  have n: "n = 32 * l + s" by (simp add: l_def s_def)
  show ?thesis
  proof (cases "l < length r")
    case False
    then have "32 * length r \<le> n" using n by linarith
    then have "(2::nat) ^ (32 * length r) \<le> 2 ^ n" by (intro power_increasing) simp_all
    with mpv_less [of r] have "mpv r < 2 ^ n" by linarith
    then have "mpv r div 2 ^ n = 0" by simp
    with False show ?thesis by (simp add: mpb_shr_def l_def mpb_ok_def)
  next
    case True
    define t where "t = (if s \<noteq> 0 then mpb_renorm (fst (mp_shr (drop l r) s 0)) else drop l r)"
    obtain u d where u: "mp_shr (drop l r) s 0 = (u, d)" by fastforce
    have "mpv u = mpv (drop l r) div 2 ^ s" "length u = length r - l"
      using mp_shr_value [OF u] by (simp_all add: s_def)
    then have u': "mpv u = mpv r div 2 ^ n" "u \<noteq> []"
      using True by (auto simp: mpv_drop div_mult2_eq [symmetric] power_add [symmetric] n)
    have "mpb_ok (drop l r)" using assms True by (auto simp: mpb_ok_def last_drop)
    with u' have t: "mpv t = mpv r div 2 ^ n" "mpb_ok t"
      by (auto simp: t_def u mpb_ok_renorm mpv_drop n)
    have e: "mpb_shr r n c = (if c then let (t, a) = mp_add_ui t 1 in if a \<noteq> 0 then t @ [a] else t else t)"
      using True by (simp add: mpb_shr_def Let_def l_def s_def t_def)
    obtain v a where v: "mp_add_ui t 1 = (v, a)" by fastforce
    have "t \<noteq> []" using t(2) by (simp add: mpb_ok_def)
    from mpv_add_one [OF v this] t show ?thesis unfolding e by (simp add: v)
  qed
qed

lemma mpb_shr_round_value:
  assumes "mpb_ok r"
  shows "mpv (mpb_shr_round r s m)
      = (if s \<le> 0 then mpv r * 2 ^ nat (- s) else round_shr m (mpv r) (nat s))"
    and "0 < mpv r \<or> 0 \<le> s \<Longrightarrow> mpb_ok (mpb_shr_round r s m)"
proof -
  show "mpv (mpb_shr_round r s m)
      = (if s \<le> 0 then mpv r * 2 ^ nat (- s) else round_shr m (mpv r) (nat s))"
    using mpb_shl_value [OF assms] mpb_shr_value [OF assms] mpb_add_one_round [of "nat s" r m]
    by (auto simp: mpb_shr_round_def)
  show "0 < mpv r \<or> 0 \<le> s \<Longrightarrow> mpb_ok (mpb_shr_round r s m)"
    using mpb_shl_value [OF assms] mpb_shr_value [OF assms] assms
    by (auto simp: mpb_shr_round_def)
qed

section \<open>Powers\<close>

lemma u64_square_mult: "(of_nat x :: u64) * of_nat x * of_nat y = of_nat (x * x * y)"
  by simp

lemma pow_ui_loop_value:
  "r = of_nat (unat a ^ (unat b div 2 ^ k)) \<Longrightarrow> pow_ui_loop r a b k = of_nat (unat a ^ unat b)"
proof (induction r a b k rule: pow_ui_loop.induct)
  case (2 r a b i)
  define e where "e = unat b div 2 ^ Suc i"
  define x where "x = unat b div 2 ^ i"
  have x: "x = 2 * e + x mod 2"
    unfolding e_def x_def power_Suc2 div_mult2_eq by simp
  have bit: "drop_bit i b AND 1 \<noteq> 0 \<longleftrightarrow> x mod 2 = 1"
    using unat_and_mask [of "drop_bit i b" 1]
    by (simp add: word_unat_eq_iff mask_eq_exp_minus_1 unat_drop_bit x_def)
  define r' where "r' = (if drop_bit i b AND 1 \<noteq> 0 then r * r * ucast a else r * r)"
  have r: "r = of_nat (unat a ^ e)" using 2(2) by (simp only: e_def)
  have "unat a ^ x = unat a ^ e * unat a ^ e * unat a ^ (x mod 2)"
    by (subst x) (simp only: power_add mult_2)
  moreover have "r' = of_nat (unat a ^ e * unat a ^ e * unat a ^ (x mod 2))"
    unfolding r'_def bit r by (cases "x mod 2 = 1") (simp_all add: not_mod_2_eq_1_eq_0)
  ultimately have "r' = of_nat (unat a ^ x)" by simp
  then have "pow_ui_loop r' a b i = of_nat (unat a ^ unat b)"
    using 2(1) [of "r * r" r'] by (simp add: r'_def x_def)
  then show ?case by (simp add: r'_def Let_def)
qed simp

lemma pow5_entries:
  "b \<in> {2..17} \<Longrightarrow> (let r = ucast (pow5_table ! (b - 1)) :: u64 in
     if 14 \<le> b then r OR push_bit 32 (ucast (pow5h_table ! (b - 14))) else r) = of_nat (5 ^ b)"
proof -
  have "\<forall>b \<in> set [2..<18]. (let r = ucast (pow5_table ! (b - 1)) :: u64 in
     if 14 \<le> b then r OR push_bit 32 (ucast (pow5h_table ! (b - 14))) else r) = of_nat (5 ^ b)"
    by (simp add: pow5_table_def pow5h_table_def upt_rec_numeral Let_def)
  moreover assume "b \<in> {2..17}"
  then have "b \<in> set [2..<18]" unfolding set_upt by simp
  ultimately show ?thesis by blast
qed

lemma pow_ui_value: "pow_ui a b = of_nat (unat a ^ unat b)"
proof -
  consider "b = 0" | "b = 1" | "b \<noteq> 0" "b \<noteq> 1" "(a = 5 \<or> a = 10) \<and> b \<le> 17"
    | "b \<noteq> 0" "b \<noteq> 1" "\<not> ((a = 5 \<or> a = 10) \<and> b \<le> 17)" by blast
  then show ?thesis
  proof cases
    case 3
    define n where "n = unat b"
    have n: "n \<in> {2..17}"
      using 3 by (auto simp: n_def word_le_nat_alt word_unat_eq_iff)
    have ge: "b \<ge> 14 \<longleftrightarrow> 14 \<le> n" by (simp add: word_le_nat_alt n_def)
    have i1: "unat (b - 1) = n - 1" using n by (subst unat_sub) (auto simp: n_def word_le_nat_alt)
    have i14: "14 \<le> n \<Longrightarrow> unat (b - 14) = n - 14" by (subst unat_sub) (auto simp: n_def word_le_nat_alt)
    define R :: u64 where "R = (let r = ucast (pow5_table ! (n - 1)) in
      if 14 \<le> n then r OR push_bit 32 (ucast (pow5h_table ! (n - 14))) else r)"
    have "pow_ui a b = (if a = 10 then push_bit n R else R)"
      using 3 i1 i14 by (cases "14 \<le> n") (simp_all add: pow_ui_def Let_def R_def ge n_def [symmetric])
    moreover have "R = of_nat (5 ^ n)" unfolding R_def by (rule pow5_entries [OF n])
    moreover have "push_bit n (of_nat (5 ^ n) :: u64) = of_nat (10 ^ n)"
      by (simp add: push_bit_eq_mult power_mult_distrib [symmetric])
    ultimately show ?thesis using 3 by (auto simp: n_def)
  next
    case 4
    note c = clz32_bounds [OF 4(1)]
    have "2 ^ (31 - clz32 b) \<le> unat b" "unat b < 2 * 2 ^ (31 - clz32 b)"
      using c Suc_diff_le [OF c(1)] by (simp_all flip: power_Suc)
    then have "unat b div 2 ^ (31 - clz32 b) = 1" by (intro div_nat_eqI) simp_all
    then have "pow_ui_loop (ucast a) a b (31 - clz32 b) = of_nat (unat a ^ unat b)"
      by (intro pow_ui_loop_value) simp
    moreover have "32 - clz32 b - 1 = 31 - clz32 b" by simp
    ultimately show ?thesis using 4 unfolding pow_ui_def Let_def by (simp only: if_False)
  qed (simp_all add: pow_ui_def)
qed

lemma clz32_normalizes:
  assumes "r \<noteq> 0"
  shows "unat r * 2 ^ clz32 r < 4294967296" and "2147483648 \<le> unat r * 2 ^ clz32 r"
proof -
  note c = clz32_bounds [OF assms]
  have e: "(2::nat) ^ (32 - clz32 r) * 2 ^ clz32 r = 4294967296"
    "(2::nat) ^ (31 - clz32 r) * 2 ^ clz32 r = 2147483648"
    using c(1) by (simp_all add: power_add [symmetric])
  show "unat r * 2 ^ clz32 r < 4294967296"
    using mult_strict_right_mono [OF c(3), of "2 ^ clz32 r"] e by simp
  show "2147483648 \<le> unat r * 2 ^ clz32 r"
    using mult_right_mono [OF c(2), of "2 ^ clz32 r"] e by simp
qed

lemma ucast_ones: "ucast (- 1 :: limb) = (4294967295 :: u64)"
  by (simp add: word_unat_eq_iff unat_up64 unsigned_minus_1_eq_mask mask_eq_exp_minus_1)

lemma pow5_inv_entries:
  "n \<in> {1..13} \<Longrightarrow> pow5_table ! (n - 1) = of_nat (5 ^ n)
    \<and> pow5_inv_table ! (n - 1) = udiv1norm_init (push_bit (clz32 (of_nat (5 ^ n))) (of_nat (5 ^ n)))"
proof -
  have "\<forall>n \<in> set [2..<14]. pow5_table ! (n - 1) = of_nat (5 ^ n)
      \<and> pow5_inv_table ! (n - 1) = udiv1norm_init (push_bit (clz32 (of_nat (5 ^ n))) (of_nat (5 ^ n)))"
    by (simp add: pow5_table_def pow5_inv_table_def upt_rec_numeral clz32_def udiv1norm_init_def Let_def
        ucast_ones)
  moreover assume "n \<in> {1..13}"
  then have "n = 1 \<or> n \<in> set [2..<14]" unfolding set_upt by simp linarith
  moreover have "pow5_table ! (1 - 1) = of_nat (5 ^ 1)
      \<and> pow5_inv_table ! (1 - 1) = udiv1norm_init (push_bit (clz32 (of_nat (5 ^ 1))) (of_nat (5 ^ 1)))"
    by (simp add: pow5_table_def pow5_inv_table_def clz32_def udiv1norm_init_def Let_def
        ucast_ones)
  ultimately show ?thesis by blast
qed

lemma pow_ui_inv_value:
  assumes "unat a ^ unat b < 4294967296" "a \<noteq> 0"
  defines "p \<equiv> (of_nat (unat a ^ unat b) :: u32)"
  shows "pow_ui_inv a b = (push_bit (clz32 p) p, udiv1norm_init (push_bit (clz32 p) p), clz32 p)"
proof (cases "a = 5 \<and> b \<ge> 1 \<and> b \<le> 13")
  case True
  define n where "n = unat b"
  have n: "n \<in> {1..13}" using True by (simp add: n_def word_le_nat_alt)
  have i1: "unat (b - 1) = n - 1" using n by (subst unat_sub) (auto simp: n_def word_le_nat_alt)
  have "p = of_nat (5 ^ n)" using True by (simp add: p_def n_def)
  with True pow5_inv_entries [OF n] show ?thesis
    by (simp add: pow_ui_inv_def Let_def i1 del: of_nat_power)
next
  case False
  have "ucast (of_nat (unat a ^ unat b) :: u64) = p"
    using assms(1) by (simp add: p_def word_unat_eq_iff unat_of_nat unat_low64 del: of_nat_power)
  with False show ?thesis by (simp only: pow_ui_inv_def Let_def pow_ui_value if_False)
qed

section \<open>Comparison and conversions\<close>

lemma mpb_cmp_loop_value:
  "length a = length b \<Longrightarrow> mpb_cmp_loop a b = sgn (int (mpv a) - int (mpv b))"
proof (induction a b rule: list_induct2)
  case (Cons x xs y ys)
  have b: "int (unat x) < 4294967296" "int (unat y) < 4294967296"
    using unat_u32_less [of x] unat_u32_less [of y] by linarith+
  define d where "d = int (mpv xs) - int (mpv ys)"
  have e: "int (mpv (x # xs)) - int (mpv (y # ys)) = int (unat x) - int (unat y) + 4294967296 * d"
    by (simp add: d_def algebra_simps del: of_nat_unat)
  consider "d = 0" | "0 < d" | "d < 0" by linarith
  then show ?case
  proof cases
    case 1
    with Cons e show ?thesis
      by (auto simp: d_def [symmetric] Let_def sgn_if word_less_nat_alt word_unat_eq_iff simp del: of_nat_unat)
  next
    case 2
    then have "0 < int (unat x) - int (unat y) + 4294967296 * d" using b by linarith
    with 2 Cons show ?thesis unfolding e by (simp add: d_def [symmetric] Let_def)
  next
    case 3
    then have "int (unat x) - int (unat y) + 4294967296 * d < 0" using b by linarith
    with 3 Cons show ?thesis unfolding e by (simp add: d_def [symmetric] Let_def)
  qed
qed simp

lemma mpb_shorter_less:
  assumes "mpb_ok a" "mpb_ok b" "length a < length b"
  shows "mpv a < mpv b"
proof -
  have "0 < length a" using assms(1) by (simp add: mpb_ok_def)
  then have "2 ^ (32 * (length b - 1)) \<le> mpv b" using assms(2,3) unfolding mpb_ok_value by linarith
  moreover have "(2::nat) ^ (32 * length a) \<le> 2 ^ (32 * (length b - 1))"
    using assms(3) by (intro power_increasing) simp_all
  ultimately show ?thesis using mpv_less [of a] by linarith
qed

lemma mpb_cmp_value:
  assumes "mpb_ok a" "mpb_ok b"
  shows "mpb_cmp a b = sgn (int (mpv a) - int (mpv b))"
  using mpb_shorter_less [OF assms] mpb_shorter_less [OF assms(2,1)] mpb_cmp_loop_value [of a b]
  by (auto simp: mpb_cmp_def sgn_if)

lemma mpb_set_u64_value: "mpv (mpb_set_u64 m) = unat m" "mpb_ok (mpb_set_u64 m)"
proof -
  have "mpv [ucast m :: limb, ucast (drop_bit 32 m)] = unat m"
    by (simp only: mpv_simps unat_high64) (simp add: unat_low64)
  then show "mpv (mpb_set_u64 m) = unat m" by (auto simp: mpb_set_u64_def Let_def)
  show "mpb_ok (mpb_set_u64 m)" by (simp add: mpb_set_u64_def Let_def mpb_ok_def)
qed

lemma mpb_get_u64_value:
  assumes "mpb_ok r" "mpv r < 2 ^ 64"
  shows "unat (mpb_get_u64 r) = mpv r"
proof -
  have "length r \<le> 2"
  proof (rule ccontr)
    assume a: "\<not> length r \<le> 2"
    then have "2 ^ (32 * (length r - 1)) \<le> mpv r" using assms(1) unfolding mpb_ok_value by simp
    moreover have "(2::nat) ^ 64 \<le> 2 ^ (32 * (length r - 1))" using a by (intro power_increasing) simp_all
    ultimately show False using assms(2) by linarith
  qed
  moreover have "r \<noteq> []" using assms(1) by (simp add: mpb_ok_def)
  ultimately consider x where "r = [x]" | x y where "r = [x, y]"
    by (cases r; cases "tl r") auto
  then show ?thesis
    by cases (simp_all add: mpb_get_u64_def unat_join or.commute [of "ucast _"] unat_up64)
qed

lemma mpb_floor_log2_value:
  assumes "mpb_ok a" "0 < mpv a"
  shows "\<exists>e. mpb_floor_log2 a = int e \<and> 2 ^ e \<le> mpv a \<and> mpv a < 2 ^ (e + 1)"
proof -
  have n: "a \<noteq> []" using assms(1) by (simp add: mpb_ok_def)
  have v: "last a \<noteq> 0"
  proof (cases "1 < length a")
    case False
    with n obtain x where "a = [x]" by (cases a) auto
    with assms(2) show ?thesis by (auto simp: unat_gt_0)
  qed (use assms(1) in \<open>simp add: mpb_ok_def\<close>)
  note c = clz32_bounds [OF v]
  define l k where "l = 32 * (length a - 1)" and "k = 31 - clz32 (last a)"
  have b: "mpv (butlast a) < 2 ^ l" using mpv_less [of "butlast a"] by (simp add: l_def)
  have m: "mpv a = mpv (butlast a) + 2 ^ l * unat (last a)" by (simp add: mpv_butlast_last [OF n] l_def)
  have "mpb_floor_log2 a = int (l + k)"
    using v c(1) n by (cases a) (simp_all add: mpb_floor_log2_def Let_def l_def k_def of_nat_diff)
  moreover have "2 ^ (l + k) \<le> mpv a"
    unfolding m power_add using c(2) by (intro trans_le_add2 mult_left_mono) (simp_all add: k_def)
  moreover have "mpv a < 2 ^ (l + k + 1)"
  proof -
    have "unat (last a) + 1 \<le> 2 ^ (k + 1)" using c(3) Suc_diff_le [OF c(1)] by (simp add: k_def Suc_le_eq flip: power_Suc)
    then have "2 ^ l * (unat (last a) + 1) \<le> 2 ^ l * 2 ^ (k + 1)" by (intro mult_left_mono) simp_all
    then show ?thesis using b unfolding m power_add by (simp add: mult.assoc)
  qed
  ultimately show ?thesis by blast
qed

section \<open>Properties\<close>

text \<open>Property C19 (functional): 
  The rounding shift. On every normalized number, for every shift and rounding mode, the
  result represents the number divided by $2^s$ and rounded in that mode (to nearest with ties
  to even, to nearest with ties away from zero, towards zero); a shift of zero or less
  multiplies exactly. The result is normalized again whenever the number is not zero or the
  shift goes right.\<close>

theorem mpb_shr_round_correct:
  assumes "mpb_ok r"
  shows "mpv (mpb_shr_round r s m)
      = (if s \<le> 0 then mpv r * 2 ^ nat (- s) else round_shr m (mpv r) (nat s))
    \<and> (0 < mpv r \<or> 0 \<le> s \<longrightarrow> mpb_ok (mpb_shr_round r s m))"
  using mpb_shr_round_value [OF assms] by blast

theorem mpb_shr_round_correct_witness:
  "mpv (mpb_shr_round [0, 2147483648, 5] 64 JS_RNDN) = 6 \<and> mpv (mpb_shr_round [0, 2147483648, 4] 64 JS_RNDN) = 4"
  using mpb_shr_round_correct [of "[0, 2147483648, 5]" 64 JS_RNDN]
    mpb_shr_round_correct [of "[0, 2147483648, 4]" 64 JS_RNDN]
  by (simp add: mpb_ok_def round_shr_def)

text \<open>
  \<open>pow_ui a b\<close> is $a^b$ reduced modulo $2^{64}$, for all arguments: the table of powers of five,
  its high bytes, the shift for powers of ten and the square-and-multiply loop agree.\<close>

theorem pow_ui_correct: "unat (pow_ui a b) = unat a ^ unat b mod 2 ^ 64"
  by (simp add: pow_ui_value unat_of_nat del: of_nat_power)

text \<open>Property C33 (functional): 
  For a power that fits one limb, \<open>pow_ui_inv\<close> returns it shifted to its normal form, the
  inverse that \<open>mp_div1norm\<close> expects and the shift: dividing with what it returns is dividing by
  the power. In particular the 13 precomputed inverses of the powers of five are right.\<close>

theorem pow_ui_inv_divides:
  assumes "unat a ^ unat b < 4294967296" "a \<noteq> 0" "pow_ui_inv a b = (d, d_inv, shift)"
  shows "mp_div1norm xs d 0 d_inv shift = mp_div1 xs (of_nat (unat a ^ unat b)) 0"
proof -
  define p where "p = (of_nat (unat a ^ unat b) :: u32)"
  have u: "unat p = unat a ^ unat b"
    using assms(1) by (simp add: p_def unat_of_nat del: of_nat_power)
  have "0 < unat a" using assms(2) by (simp add: unat_gt_0)
  then have "0 < unat p" unfolding u by simp
  then have p: "p \<noteq> 0" by auto
  have "d = push_bit (clz32 p) p" "d_inv = udiv1norm_init d" "shift = clz32 p"
    using pow_ui_inv_value [OF assms(1,2)] assms(3) by (simp_all add: p_def)
  then show ?thesis
    using mp_div1norm_div1 [of p "clz32 p" 0 xs] clz32_normalizes [OF p] clz32_bounds(1) [OF p] \<open>0 < unat p\<close>
    by (simp add: p_def [symmetric] del: of_nat_power)
qed

theorem pow_ui_inv_divides_witness:
  "mp_div1norm [0, 1] (fst (pow_ui_inv 7 3)) 0 (fst (snd (pow_ui_inv 7 3))) (snd (snd (pow_ui_inv 7 3)))
    = mp_div1 [0, 1] 343 0"
proof -
  have "mp_div1norm [0, 1] (fst (pow_ui_inv 7 3)) 0 (fst (snd (pow_ui_inv 7 3))) (snd (snd (pow_ui_inv 7 3)))
      = mp_div1 [0, 1] (of_nat (unat (7 :: u32) ^ unat (3 :: u32))) 0"
    by (rule pow_ui_inv_divides) simp_all
  then show ?thesis by simp
qed

text \<open>
  Comparison, conversion and size of normalized numbers: \<open>mpb_cmp\<close> is the sign of the
  difference, \<open>mpb_set_u64\<close> gives the normalized number of a 64-bit word and \<open>mpb_get_u64\<close> reads
  back any number below $2^{64}$, and \<open>mpb_floor_log2\<close> is the position of the top bit.\<close>

theorem mpb_cmp_conversions:
  assumes "mpb_ok a" "mpb_ok b" "0 < mpv a"
  shows "mpb_cmp a b = sgn (int (mpv a) - int (mpv b))
    \<and> mpv (mpb_set_u64 m) = unat m \<and> mpb_ok (mpb_set_u64 m)
    \<and> (mpv a < 2 ^ 64 \<longrightarrow> unat (mpb_get_u64 a) = mpv a \<and> mpb_set_u64 (mpb_get_u64 a) = a)
    \<and> (\<exists>e. mpb_floor_log2 a = int e \<and> 2 ^ e \<le> mpv a \<and> mpv a < 2 ^ (e + 1))"
  using mpb_cmp_value [OF assms(1,2)] mpb_set_u64_value mpb_get_u64_value [OF assms(1)]
    mpb_floor_log2_value [OF assms(1,3)] mpb_ok_unique [OF _ assms(1)] by simp

theorem mpb_cmp_conversions_witness:
  "mpb_cmp [7, 1] [4294967295] = 1 \<and> mpb_set_u64 (mpb_get_u64 [7, 1]) = [7, 1]"
  using mpb_cmp_conversions [of "[7, 1]" "[4294967295]"] by (simp add: mpb_ok_def)

end
