(* ===== verification/Itoa.thy ===== *)
theory Itoa
  imports Mpb
begin

text \<open>
  Integers to text (\<^verbatim>\<open>quickjs/dtoa.c\<close>): \<open>u32toa\<close>, \<open>i32toa\<close>, \<open>u64toa\<close>, \<open>i64toa\<close> and their
  versions for any radix, and the fixed-width writers they share. A function takes the output array and the position it writes at,
  and returns the array (and the length written); \<open>None\<close> is a write outside an array. The local
  arrays \<open>buf1\<close> of the C code are filled from their end: the second argument of the digit loops
  is the room left in them. The specification is the usual positional notation.
\<close>

section \<open>The writers\<close>

definition digit_char :: "nat \<Rightarrow> u8" where
  "digit_char digit = of_nat (if digit < 10 then digit + 48 else digit + 97 - 10)"

fun u32toa_len :: "u8 list \<Rightarrow> nat \<Rightarrow> u32 \<Rightarrow> nat \<Rightarrow> u8 list option" where
  "u32toa_len buf p n 0 = Some buf"
| "u32toa_len buf p n (Suc i) =
     do { let digit = unat (n mod 10);
          buf \<leftarrow> wr buf (p + i) (of_nat (digit + 48));
          u32toa_len buf p (n div 10) i }"

fun u64toa_bin_len :: "u8 list \<Rightarrow> nat \<Rightarrow> u64 \<Rightarrow> nat \<Rightarrow> nat \<Rightarrow> u8 list option" where
  "u64toa_bin_len buf p n radix_bits 0 = Some buf"
| "u64toa_bin_len buf p n radix_bits (Suc i) =
     do { let digit = unat (n AND (push_bit radix_bits 1 - 1));
          buf \<leftarrow> wr buf (p + i) (digit_char digit);
          u64toa_bin_len buf p (drop_bit radix_bits n) radix_bits i }"

fun limb_to_a_loop :: "u8 list \<Rightarrow> nat \<Rightarrow> limb \<Rightarrow> u32 \<Rightarrow> nat \<Rightarrow> u8 list option" where
  "limb_to_a_loop buf p n radix 0 = Some buf"
| "limb_to_a_loop buf p n radix (Suc i) =
     do { let digit = unat (n mod radix);
          buf \<leftarrow> wr buf (p + i) (digit_char digit);
          limb_to_a_loop buf p (n div radix) radix i }"

definition limb_to_a :: "u8 list \<Rightarrow> nat \<Rightarrow> limb \<Rightarrow> u32 \<Rightarrow> nat \<Rightarrow> u8 list option" where
  "limb_to_a buf p n radix len =
     (if radix = 10 then u32toa_len buf p n len else limb_to_a_loop buf p n radix len)"

text \<open>The digits of the loop of \<open>u32toa\<close>, which writes downwards into \<open>buf1\<close>.\<close>

fun u32toa_loop :: "u32 \<Rightarrow> nat \<Rightarrow> u8 list \<Rightarrow> u8 list option" where
  "u32toa_loop n 0 q = None"
| "u32toa_loop n (Suc room) q =
     (let q = of_nat (unat (n mod 10) + 48) # q; n = n div 10
      in if n \<noteq> 0 then u32toa_loop n room q else Some q)"

definition u32toa :: "u8 list \<Rightarrow> nat \<Rightarrow> u32 \<Rightarrow> (u8 list \<times> nat) option" where
  "u32toa buf p n = do {
     q \<leftarrow> u32toa_loop n 10 [];
     let len = length q;
     buf \<leftarrow> wrs buf p q;
     Some (buf, len) }"

definition i32toa :: "u8 list \<Rightarrow> nat \<Rightarrow> u32 \<Rightarrow> (u8 list \<times> nat) option" where
  "i32toa buf p n =
     (if sint n \<ge> 0 then u32toa buf p n
      else do { buf \<leftarrow> wr buf p 45; (buf, l) \<leftarrow> u32toa buf (p + 1) (- n); Some (buf, l + 1) })"

definition u64toa :: "u8 list \<Rightarrow> nat \<Rightarrow> u64 \<Rightarrow> (u8 list \<times> nat) option" where
  "u64toa buf p n =
     (if n < 0x100000000 then u32toa buf p (ucast n)
      else
        let n1 = n div 1000000000; n = n mod 1000000000 in
        do {
          (buf, q) \<leftarrow>
            (if n1 \<ge> 0x100000000 then
               let n2 = (ucast (n1 div 1000000000) :: u32); n1 = n1 mod 1000000000 in
               do {
                 (buf, q, n2) \<leftarrow>
                   (if n2 \<ge> 10 then
                      do { buf \<leftarrow> wr buf p (of_nat (unat (n2 div 10) + 48)); Some (buf, p + 1, n2 mod 10) }
                    else Some (buf, p, n2));
                 buf \<leftarrow> wr buf q (of_nat (unat n2 + 48));
                 let q = q + 1;
                 buf \<leftarrow> u32toa_len buf q (ucast n1) 9;
                 Some (buf, q + 9) }
             else do { (buf, l) \<leftarrow> u32toa buf p (ucast n1); Some (buf, p + l) });
          buf \<leftarrow> u32toa_len buf q (ucast n) 9;
          let q = q + 9;
          Some (buf, q - p) })"

definition i64toa :: "u8 list \<Rightarrow> nat \<Rightarrow> u64 \<Rightarrow> (u8 list \<times> nat) option" where
  "i64toa buf p n =
     (if sint n \<ge> 0 then u64toa buf p n
      else do { buf \<leftarrow> wr buf p 45; (buf, l) \<leftarrow> u64toa buf (p + 1) (- n); Some (buf, l + 1) })"

fun u64toa_radix_loop :: "u64 \<Rightarrow> u32 \<Rightarrow> nat \<Rightarrow> u8 list \<Rightarrow> u8 list option" where
  "u64toa_radix_loop n radix 0 q = None"
| "u64toa_radix_loop n radix (Suc room) q =
     (let digit = unat (n mod ucast radix); n = n div ucast radix; q = digit_char digit # q
      in if n \<noteq> 0 then u64toa_radix_loop n radix room q else Some q)"

definition u64toa_radix :: "u8 list \<Rightarrow> nat \<Rightarrow> u64 \<Rightarrow> u32 \<Rightarrow> (u8 list \<times> nat) option" where
  "u64toa_radix buf p n radix =
     (if radix = 10 then u64toa buf p n
      else if radix AND (radix - 1) = 0 then
        let radix_bits = 31 - clz32 radix;
            l = (if n = 0 then 1 else (64 - clz64 n + radix_bits - 1) div radix_bits)
        in do { buf \<leftarrow> u64toa_bin_len buf p n radix_bits l; Some (buf, l) }
      else do {
        q \<leftarrow> u64toa_radix_loop n radix 41 [];
        let len = length q;
        buf \<leftarrow> wrs buf p q;
        Some (buf, len) })"

definition i64toa_radix :: "u8 list \<Rightarrow> nat \<Rightarrow> u64 \<Rightarrow> u32 \<Rightarrow> (u8 list \<times> nat) option" where
  "i64toa_radix buf p n radix =
     (if sint n \<ge> 0 then u64toa_radix buf p n radix
      else do { buf \<leftarrow> wr buf p 45; (buf, l) \<leftarrow> u64toa_radix buf (p + 1) (- n) radix; Some (buf, l + 1) })"

text \<open>The value of a digit, 36 if the byte is none; it reads what the writers write.\<close>

definition to_digit :: "u8 \<Rightarrow> nat" where
  "to_digit c =
     (if 48 \<le> c \<and> c \<le> 57 then unat c - 48
      else if 65 \<le> c \<and> c \<le> 90 then unat c - 65 + 10
      else if 97 \<le> c \<and> c \<le> 122 then unat c - 97 + 10
      else 36)"

section \<open>Positional notation\<close>

text \<open>The last \<open>k\<close> digits of a number, and all its digits.\<close>

fun pad :: "nat \<Rightarrow> nat \<Rightarrow> nat \<Rightarrow> u8 list" where
  "pad r 0 n = []"
| "pad r (Suc k) n = pad r k (n div r) @ [digit_char (n mod r)]"

function digits_of :: "nat \<Rightarrow> nat \<Rightarrow> u8 list" where
  "digits_of r n =
     (if n < r \<or> r < 2 then [digit_char n] else digits_of r (n div r) @ [digit_char (n mod r)])"
  by pat_completeness auto
termination by (relation "measure snd") auto

declare digits_of.simps [simp del]

lemma length_pad [simp]: "length (pad r k n) = k"
  by (induction k arbitrary: n) simp_all

lemma digits_of_small: "n < r \<Longrightarrow> digits_of r n = [digit_char n]"
  by (simp add: digits_of.simps)

lemma digits_of_big: "2 \<le> r \<Longrightarrow> r \<le> n \<Longrightarrow> digits_of r n = digits_of r (n div r) @ [digit_char (n mod r)]"
  by (subst digits_of.simps) simp

lemma digits_of_append_pad:
  "2 \<le> r \<Longrightarrow> 0 < a \<Longrightarrow> b < r ^ k \<Longrightarrow> digits_of r (a * r ^ k + b) = digits_of r a @ pad r k b"
proof (induction k arbitrary: b)
  case (Suc k)
  have r: "0 < r" using Suc(2) by simp
  have "1 \<le> a * r ^ k" using Suc(3) r by (simp add: Suc_le_eq)
  then have "r * 1 \<le> r * (a * r ^ k)" by (intro mult_left_mono) simp_all
  also have "\<dots> \<le> a * r ^ Suc k + b" by (simp add: ac_simps)
  finally have "r \<le> a * r ^ Suc k + b" by simp
  then have "digits_of r (a * r ^ Suc k + b)
      = digits_of r ((a * r ^ Suc k + b) div r) @ [digit_char ((a * r ^ Suc k + b) mod r)]"
    using Suc(2) by (intro digits_of_big)
  also have "(a * r ^ Suc k + b) div r = a * r ^ k + b div r"
    using r div_mult_self1 [of r b "a * r ^ k"] by (simp add: ac_simps)
  also have "(a * r ^ Suc k + b) mod r = b mod r"
    using mod_mult_self1 [of b "a * r ^ k" r] by (simp add: ac_simps)
  also have "digits_of r (a * r ^ k + b div r) = digits_of r a @ pad r k (b div r)"
    using Suc r by (intro Suc.IH) (simp_all add: less_mult_imp_div_less mult.commute)
  finally show ?case by simp
qed simp

lemma pad_digits_of:
  assumes "2 \<le> r" "r ^ k \<le> n" "n < r ^ Suc k"
  shows "pad r (Suc k) n = digits_of r n"
  using assms
proof (induction k arbitrary: n)
  case (Suc k)
  have r: "0 < r" using Suc(2) by simp
  have "r ^ k \<le> n div r" using Suc(3) r by (simp add: less_eq_div_iff_mult_less_eq mult.commute)
  moreover have "n div r < r ^ Suc k" using Suc(4) by (simp add: less_mult_imp_div_less mult.commute)
  moreover have "r \<le> n" using Suc(3) r by (metis dual_order.trans le_add1 mult.right_neutral mult_le_mono2 one_le_power power_Suc Suc_leI One_nat_def)
  ultimately show ?case using Suc.IH [of "n div r"] Suc(2) by (simp add: digits_of_big)
qed (simp add: digits_of_small)

section \<open>The writers write the digits\<close>

lemma wrs_snoc:
  "p + length xs < length buf \<Longrightarrow> wrs (buf[p + length xs := c]) p xs = wrs buf p (xs @ [c])"
  by (simp add: wrs_def drop_update_swap Cons_nth_drop_Suc [symmetric] del: Cons_nth_drop_Suc)

lemma u32toa_len_pad:
  "p + len \<le> length buf \<Longrightarrow> u32toa_len buf p n len = wrs buf p (pad 10 len (unat n))"
proof (induction len arbitrary: buf n)
  case (Suc i)
  have d: "of_nat (unat (n mod 10) + 48) = digit_char (unat n mod 10)"
    by (simp add: digit_char_def unat_mod_distrib)
  have "u32toa_len buf p n (Suc i) = u32toa_len (buf[p + i := digit_char (unat n mod 10)]) p (n div 10) i"
    using Suc(2) unfolding u32toa_len.simps d Let_def by simp
  also have "\<dots> = wrs (buf[p + i := digit_char (unat n mod 10)]) p (pad 10 i (unat n div 10))"
    using Suc(2) by (subst Suc.IH) (simp_all add: unat_div_distrib)
  also have "\<dots> = wrs buf p (pad 10 (Suc i) (unat n))"
    using wrs_snoc [of p "pad 10 i (unat n div 10)" buf] Suc(2) by simp
  finally show ?case .
qed simp

lemma limb_to_a_loop_pad:
  "p + len \<le> length buf \<Longrightarrow> limb_to_a_loop buf p n radix len = wrs buf p (pad (unat radix) len (unat n))"
proof (induction len arbitrary: buf n)
  case (Suc i)
  have "limb_to_a_loop buf p n radix (Suc i)
      = limb_to_a_loop (buf[p + i := digit_char (unat n mod unat radix)]) p (n div radix) radix i"
    using Suc(2) by (simp add: unat_mod_distrib Let_def)
  also have "\<dots> = wrs (buf[p + i := digit_char (unat n mod unat radix)]) p
      (pad (unat radix) i (unat n div unat radix))"
    using Suc(2) by (subst Suc.IH) (simp_all add: unat_div_distrib)
  also have "\<dots> = wrs buf p (pad (unat radix) (Suc i) (unat n))"
    using wrs_snoc [of p "pad (unat radix) i (unat n div unat radix)" buf] Suc(2) by simp
  finally show ?case .
qed simp

lemma limb_to_a_pad:
  "p + len \<le> length buf \<Longrightarrow> limb_to_a buf p n radix len = wrs buf p (pad (unat radix) len (unat n))"
  by (simp add: limb_to_a_def u32toa_len_pad limb_to_a_loop_pad)

lemma u64toa_bin_len_pad:
  "p + len \<le> length buf \<Longrightarrow>
    u64toa_bin_len buf p n bits len = wrs buf p (pad (2 ^ bits) len (unat n))"
proof (induction len arbitrary: buf n)
  case (Suc i)
  have d: "unat (n AND (push_bit bits 1 - 1)) = unat n mod 2 ^ bits"
    using unat_and_mask [of n bits] by (simp add: mask_eq_exp_minus_1)
  have "u64toa_bin_len buf p n bits (Suc i)
      = u64toa_bin_len (buf[p + i := digit_char (unat n mod 2 ^ bits)]) p (drop_bit bits n) bits i"
    using Suc(2) unfolding u64toa_bin_len.simps d Let_def by simp
  also have "\<dots> = wrs (buf[p + i := digit_char (unat n mod 2 ^ bits)]) p
      (pad (2 ^ bits) i (unat n div 2 ^ bits))"
    using Suc(2) by (subst Suc.IH) (simp_all add: unat_drop_bit)
  also have "\<dots> = wrs buf p (pad (2 ^ bits) (Suc i) (unat n))"
    using wrs_snoc [of p "pad (2 ^ bits) i (unat n div 2 ^ bits)" buf] Suc(2) by simp
  finally show ?case .
qed simp

lemma u32toa_loop_digits:
  "unat n < 10 ^ room \<Longrightarrow> 0 < room \<Longrightarrow> u32toa_loop n room q = Some (digits_of 10 (unat n) @ q)"
proof (induction n room q rule: u32toa_loop.induct)
  case (2 n room q)
  have d: "of_nat (unat (n mod 10) + 48) = digit_char (unat n mod 10)"
    by (simp add: digit_char_def unat_mod_distrib)
  have u: "unat (n div 10) = unat n div 10" by (simp add: unat_div_distrib)
  show ?case
  proof (cases "n div 10 = 0")
    case True
    then have "unat n div 10 = 0" by (metis u unat_0)
    then have "unat n < 10" by simp
    then show ?thesis unfolding u32toa_loop.simps d Let_def
      by (simp add: True digits_of_small)
  next
    case False
    then have "unat n div 10 \<noteq> 0" by (metis u unat_eq_zero)
    then have "10 \<le> unat n" by (simp add: not_less)
    moreover have "unat (n div 10) < 10 ^ room"
      using 2(2) u by (simp add: less_mult_imp_div_less mult.commute)
    moreover have "0 < room" using calculation(2) \<open>unat n div 10 \<noteq> 0\<close> u by (cases room) simp_all
    note 2(1) [OF refl refl False calculation(2) this]
    ultimately show ?thesis using False unfolding u32toa_loop.simps d Let_def
      by (simp add: d u digits_of_big)
  qed
qed simp

lemma u64toa_radix_loop_digits:
  "unat n < unat radix ^ room \<Longrightarrow> 0 < room \<Longrightarrow> 2 \<le> unat radix \<Longrightarrow>
    u64toa_radix_loop n radix room q = Some (digits_of (unat radix) (unat n) @ q)"
proof (induction n radix room q rule: u64toa_radix_loop.induct)
  case (2 n radix room q)
  define r where "r = unat radix"
  have d: "unat (n mod ucast radix) = unat n mod r"
    by (simp add: r_def unat_mod_distrib unat_up64)
  have u: "unat (n div ucast radix) = unat n div r" by (simp add: r_def unat_div_distrib unat_up64)
  show ?case
  proof (cases "n div ucast radix = 0")
    case True
    then have "unat n div r = 0" by (metis u unat_0)
    then have "unat n < r" using 2(4) by (simp add: r_def div_eq_0_iff)
    then show ?thesis unfolding u64toa_radix_loop.simps d Let_def
      by (simp add: True digits_of_small r_def)
  next
    case False
    then have "unat n div r \<noteq> 0" by (metis u unat_eq_zero)
    then have "r \<le> unat n" by (simp add: div_eq_0_iff not_less)
    moreover have "unat (n div ucast radix) < r ^ room"
      using 2(2) u by (simp add: r_def less_mult_imp_div_less mult.commute)
    moreover have "0 < room" using calculation(2) \<open>unat n div r \<noteq> 0\<close> u by (cases room) simp_all
    note 2(1) [OF refl refl refl False calculation(2) [unfolded r_def] this 2(4)]
    ultimately show ?thesis using False 2(4) unfolding u64toa_radix_loop.simps d Let_def
      by (simp add: u r_def [symmetric] digits_of_big)
  qed
qed simp

section \<open>Signed words\<close>

lemma sint_unat:
  "sint (w :: 'a::len word)
    = (if unat w < 2 ^ (LENGTH('a) - 1) then int (unat w) else int (unat w) - 2 ^ LENGTH('a))"
proof -
  define n where "n = LENGTH('a) - 1"
  have n: "LENGTH('a) = Suc n" by (simp add: n_def)
  have lt: "unat w < 2 * 2 ^ n" using unsigned_less [of w, where 'a = nat] by (simp add: n)
  have "bit (uint w) n \<longleftrightarrow> bit (unat w) n" by (simp only: bit_unsigned_iff) simp
  also have "\<dots> \<longleftrightarrow> odd (unat w div 2 ^ n)" by (simp only: bit_iff_odd)
  also have "\<dots> \<longleftrightarrow> \<not> unat w < 2 ^ n"
  proof (cases "unat w < 2 ^ n")
    case False
    then have "unat w div 2 ^ n = 1" using lt by (intro div_nat_eqI) simp_all
    with False show ?thesis by simp
  qed simp
  finally have b: "bit (uint w) n \<longleftrightarrow> \<not> unat w < 2 ^ n" .
  have "take_bit (Suc n) (uint w) = uint w" using n by (intro bintr_uint) simp
  then show ?thesis
    unfolding sint_uint n by (simp add: signed_take_bit_eq_take_bit_minus b)
qed

section \<open>Whole numbers\<close>

text \<open>Writing a string: the array and the length that the C functions return.\<close>

definition str_put :: "u8 list \<Rightarrow> nat \<Rightarrow> u8 list \<Rightarrow> (u8 list \<times> nat) option" where
  "str_put buf p s = do { buf \<leftarrow> wrs buf p s; Some (buf, length s) }"

lemma wrs_append:
  "wrs buf p xs = Some b \<Longrightarrow> wrs b (p + length xs) ys = wrs buf p (xs @ ys)"
  by (auto simp: wrs_def ac_simps split: if_splits)

lemma wrs_ok: "p + length xs \<le> length buf \<Longrightarrow> \<exists>b. wrs buf p xs = Some b \<and> length b = length buf"
  by (simp add: wrs_def)

lemma emit_pad:
  assumes "wrs buf p xs = Some b" "p + length xs + k \<le> length buf"
  shows "u32toa_len b (p + length xs) n k = wrs buf p (xs @ pad 10 k (unat n))"
  using assms(2) length_wrs [OF assms(1)] by (simp add: u32toa_len_pad wrs_append [OF assms(1)])

lemma u32toa_value: "u32toa buf p n = str_put buf p (digits_of 10 (unat n))"
proof -
  have "unat n < 10 ^ 10" using unat_u32_less [of n] by simp
  then show ?thesis by (simp add: u32toa_def u32toa_loop_digits str_put_def Let_def)
qed

lemma digits_ten_pow: "0 < a \<Longrightarrow> b < 1000000000 \<Longrightarrow>
    digits_of 10 (a * 1000000000 + b) = digits_of 10 a @ pad 10 9 b"
  using digits_of_append_pad [of 10 a b 9] by simp

lemma emit_two_digits:
  assumes "unat n2 < 100" "p + length (digits_of 10 (unat n2)) \<le> length buf"
  shows "\<exists>b. wrs buf p (digits_of 10 (unat n2)) = Some b
    \<and> (if n2 \<ge> (10 :: u32) then
         do { buf \<leftarrow> wr buf p (of_nat (unat (n2 div 10) + 48)); Some (buf, p + 1, n2 mod 10) }
       else Some (buf, p, n2)) \<bind> (\<lambda>(buf, q, n2).
       wr buf q (of_nat (unat n2 + 48)) \<bind> (\<lambda>buf. K buf (q + 1)))
      = K b (p + length (digits_of 10 (unat n2)))"
proof (cases "n2 \<ge> 10")
  case True
  have ge: "10 \<le> unat n2" using True by (simp add: word_le_nat_alt)
  define c d where "c = digit_char (unat n2 div 10)" and "d = digit_char (unat n2 mod 10)"
  have e: "of_nat (unat (n2 div 10) + 48) = c" "of_nat (unat (n2 mod 10) + 48) = d"
    using assms(1) by (simp_all add: c_def d_def digit_char_def unat_div_distrib unat_mod_distrib)
  have ds: "digits_of 10 (unat n2) = [c] @ [d]"
    using ge assms(1) by (simp add: digits_of_big digits_of_small c_def d_def)
  then have "p + length [c] \<le> length buf" "p + length ([c] @ [d]) \<le> length buf" using assms(2) by simp_all
  then obtain b1 b2 where b1: "wrs buf p [c] = Some b1" and b2: "wrs buf p ([c] @ [d]) = Some b2"
    using wrs_ok by meson
  have "wrs b1 (p + 1) [d] = Some b2" using wrs_append [OF b1, of "[d]"] b2 by simp
  then show ?thesis unfolding ds using True b1 b2 e [simplified] by (simp add: wr_wrs)
next
  case False
  then have l: "unat n2 < 10" by (simp add: word_le_nat_alt)
  then have e: "of_nat (unat n2 + 48) = digit_char (unat n2)" by (simp add: digit_char_def)
  obtain b where "wrs buf p [digit_char (unat n2)] = Some b"
    using assms(2) l wrs_ok [of p "[digit_char (unat n2)]" buf] by (auto simp: digits_of_small)
  then show ?thesis using False l e [simplified] by (simp add: wr_wrs digits_of_small)
qed

lemma u64toa_value:
  assumes "p + length (digits_of 10 (unat n)) \<le> length buf"
  shows "u64toa buf p n = str_put buf p (digits_of 10 (unat n))"
proof (cases "n < 0x100000000")
  case True
  then have "unat n < 4294967296" by (simp add: word_less_nat_alt)
  with True show ?thesis by (simp add: u64toa_def u32toa_value unat_low64)
next
  case False
  define N where "N = unat n"
  have Nb: "4294967296 \<le> N" using False by (simp add: N_def word_less_nat_alt)
  have Nl: "N < 18446744073709551616" unfolding N_def by (rule unat_u64_less)
  define n1 n0 where "n1 = n div 1000000000" and "n0 = n mod 1000000000"
  have u1: "unat n1 = N div 1000000000" and u0: "unat n0 = N mod 1000000000"
    by (simp_all add: n1_def n0_def N_def unat_div_distrib unat_mod_distrib)
  have c0: "unat (ucast n0 :: u32) = N mod 1000000000"
    using mod_less_divisor [of 1000000000 N] by (simp add: unat_low64 u0)
  have pos1: "0 < N div 1000000000" using Nb by (simp add: div_greater_zero_iff)
  have dN: "digits_of 10 N = digits_of 10 (N div 1000000000) @ pad 10 9 (N mod 1000000000)"
    using digits_ten_pow [OF pos1, of "N mod 1000000000"] by simp
  show ?thesis
  proof (cases "n1 \<ge> 0x100000000")
    case True
    define n2 :: u32 where "n2 = ucast (n1 div 1000000000)"
    define M where "M = N div 1000000000"
    have Mb: "4294967296 \<le> M" using True by (simp add: word_le_nat_alt u1 M_def)
    have "M div 1000000000 < 100" using Nl by (simp add: M_def div_mult2_eq [symmetric] less_mult_imp_div_less)
    then have u2: "unat n2 = M div 1000000000" "unat n2 < 100"
      by (simp_all add: n2_def unat_low64 unat_div_distrib u1 M_def)
    have c1: "unat (ucast (n1 mod 1000000000) :: u32) = M mod 1000000000"
      using mod_less_divisor [of 1000000000 M] by (simp add: unat_low64 unat_mod_distrib u1 M_def)
    have pos2: "0 < M div 1000000000" using Mb by (simp add: div_greater_zero_iff)
    define xs where "xs = digits_of 10 (unat n2)"
    have dM: "digits_of 10 M = xs @ pad 10 9 (M mod 1000000000)"
      using digits_ten_pow [OF pos2, of "M mod 1000000000"] by (simp add: u2 xs_def)
    have len: "p + length xs + 9 + 9 \<le> length buf"
      using assms by (simp add: N_def [symmetric] dN M_def [symmetric] dM)
    have "p + length (digits_of 10 (unat n2)) \<le> length buf" using len by (simp add: xs_def)
    note two = emit_two_digits [OF u2(2) this, folded xs_def]
    obtain b2 b3 where b2: "wrs buf p (xs @ pad 10 9 (M mod 1000000000)) = Some b2"
        and b3: "wrs buf p (xs @ pad 10 9 (M mod 1000000000) @ pad 10 9 (N mod 1000000000)) = Some b3"
      using wrs_ok [of p "xs @ pad 10 9 (M mod 1000000000)" buf] len
        wrs_ok [of p "xs @ pad 10 9 (M mod 1000000000) @ pad 10 9 (N mod 1000000000)" buf] by auto
    have e1: "u32toa_len b (p + length xs) (ucast (n1 mod 1000000000)) 9 = Some b2"
      if "wrs buf p xs = Some b" for b
      using emit_pad [OF that, of 9 "ucast (n1 mod 1000000000)"] len b2 by (simp only: c1)
    have e2: "u32toa_len b2 (p + length xs + 9) (ucast n0) 9 = Some b3"
      using emit_pad [OF b2, of 9 "ucast n0"] len b3 by (simp only: c0 length_append length_pad append_assoc add.assoc)
    define K where "K = (\<lambda>buf q. u32toa_len buf q (ucast (n1 mod 1000000000)) 9 \<bind>
      (\<lambda>buf. Some (buf, q + 9)) \<bind> (\<lambda>(buf, q). u32toa_len buf q (ucast n0) 9 \<bind>
      (\<lambda>buf. Some (buf, q + 9 - p))))"
    obtain b1 where b1: "wrs buf p xs = Some b1"
      and k: "(if n2 \<ge> 10 then
         do { buf \<leftarrow> wr buf p (of_nat (unat (n2 div 10) + 48)); Some (buf, p + 1, n2 mod 10) }
       else Some (buf, p, n2)) \<bind> (\<lambda>(buf, q, n2).
       wr buf q (of_nat (unat n2 + 48)) \<bind> (\<lambda>buf. K buf (q + 1)))
      = K b1 (p + length xs)"
      using two [of K] by blast
    have "u64toa buf p n = K b1 (p + length xs)"
      unfolding k [symmetric]
      using False True
      by (simp add: u64toa_def n1_def [symmetric] n0_def [symmetric] n2_def [symmetric] K_def Let_def
          split_def del: of_nat_add)
    also have "\<dots> = str_put buf p (digits_of 10 N)"
      by (simp add: K_def e1 [OF b1] e2 dN M_def [symmetric] dM str_put_def b3)
    finally show ?thesis by (simp add: N_def)
  next
    case small: False
    then have l1: "unat (ucast n1 :: u32) = N div 1000000000"
      by (simp add: unat_low64 u1 word_le_nat_alt)
    have len: "p + length (digits_of 10 (N div 1000000000)) + 9 \<le> length buf"
      using assms by (simp add: N_def [symmetric] dN)
    then obtain b1 where b1: "wrs buf p (digits_of 10 (N div 1000000000)) = Some b1"
      using wrs_ok [of p "digits_of 10 (N div 1000000000)" buf] by auto
    from emit_pad [OF b1 len, of "ucast n0"]
    show ?thesis using False small
      by (simp add: u64toa_def n1_def [symmetric] n0_def [symmetric] u32toa_value l1 b1 str_put_def
          N_def [symmetric] dN c0 add.assoc Let_def)
  qed
qed

lemma power_of_two_radix:
  assumes "r AND (r - 1) = (0 :: u32)" "r \<noteq> 0"
  shows "unat r = 2 ^ (31 - clz32 r)"
proof -
  note c = clz32_bounds [OF assms(2)]
  define k where "k = 31 - clz32 r"
  have k: "2 ^ k \<le> unat r" "unat r < 2 ^ Suc k" "k < 32"
    using c Suc_diff_le [OF c(1)] by (simp_all add: k_def)
  show ?thesis
  proof (rule ccontr)
    assume "unat r \<noteq> 2 ^ (31 - clz32 r)"
    then have gt: "2 ^ k < unat r" using k(1) by (simp add: k_def)
    have "1 \<le> r" using assms(2) by (simp add: word_le_nat_alt Suc_le_eq unat_gt_0)
    then have m: "unat (r - 1) = unat r - 1" by (subst unat_sub) simp_all
    have top: "bit x k" if "2 ^ k \<le> unat x" "unat x < 2 ^ Suc k" for x :: u32
    proof -
      have "unat x div 2 ^ k = 1" using that by (intro div_nat_eqI) simp_all
      then have "bit (unat x) k" by (simp add: bit_iff_odd)
      then show ?thesis by (simp add: bit_unsigned_iff)
    qed
    have "bit r k" "bit (r - 1) k" using k gt m by (auto intro!: top)
    then have "bit (r AND (r - 1)) k" by (simp add: bit_and_iff)
    then show False using assms(1) by simp
  qed
qed

lemma radix_bits_len:
  assumes "0 < b" "n \<noteq> 0"
  defines "l \<equiv> (64 - clz64 n + b - 1) div b"
  shows "pad (2 ^ b) l (unat n) = digits_of (2 ^ b) (unat n)"
proof -
  note c = clz64_bounds [OF assms(2)]
  define m where "m = 64 - clz64 n"
  have m: "2 ^ (m - 1) \<le> unat n" "unat n < 2 ^ m" "0 < m"
    using c by (simp_all add: m_def)
  have l: "l = (m + b - 1) div b" by (simp add: l_def m_def)
  have "b * l \<ge> m" "b * l < m + b"
    using assms(1) m(3) mult_div_mod_eq [of b "m + b - 1"] mod_less_divisor [of b "m + b - 1"]
    unfolding l by linarith+
  moreover have "0 < l" using calculation(1) m(3) by (cases l) simp_all
  then obtain k where k: "l = Suc k" by (cases l) auto
  ultimately have "b * k \<le> m - 1" "m \<le> b * Suc k" by (simp_all add: k)
  then have "2 ^ (b * k) \<le> unat n" "unat n < 2 ^ (b * Suc k)"
    using m order_trans [OF power_increasing [of "b * k" "m - 1" "2 :: nat"]]
      order.strict_trans2 [OF _ power_increasing [of m "b * Suc k" "2 :: nat"]] by simp_all
  moreover have "2 ^ 1 \<le> (2::nat) ^ b" using assms(1) by (intro power_increasing) simp_all
  ultimately show ?thesis unfolding k
    by (intro pad_digits_of) (simp_all only: power_mult [symmetric] power_one_right)
qed

lemma u64toa_radix_value:
  assumes "2 \<le> unat radix" "p + length (digits_of (unat radix) (unat n)) \<le> length buf"
  shows "u64toa_radix buf p n radix = str_put buf p (digits_of (unat radix) (unat n))"
proof -
  consider "radix = 10" | "radix \<noteq> 10" "radix AND (radix - 1) = 0"
    | "radix \<noteq> 10" "radix AND (radix - 1) \<noteq> 0" by blast
  then show ?thesis
  proof cases
    case 1
    then show ?thesis using assms(2) by (simp add: u64toa_radix_def u64toa_value)
  next
    case 2
    have nz: "radix \<noteq> 0" using assms(1) by auto
    define b where "b = 31 - clz32 radix"
    have r: "unat radix = 2 ^ b" unfolding b_def by (rule power_of_two_radix [OF 2(2) nz])
    have b: "0 < b" using assms(1) r by (cases b) simp_all
    define l where "l = (if n = 0 then 1 else (64 - clz64 n + b - 1) div b)"
    have pl: "pad (2 ^ b) l (unat n) = digits_of (2 ^ b) (unat n)"
      using radix_bits_len [OF b] b by (simp add: l_def digits_of_small)
    then have len: "length (digits_of (2 ^ b) (unat n)) = l" by (metis length_pad)
    have "u64toa_bin_len buf p n b l = wrs buf p (digits_of (2 ^ b) (unat n))"
      using assms(2) r len pl by (simp add: u64toa_bin_len_pad)
    then show ?thesis using 2
      unfolding u64toa_radix_def Let_def b_def [symmetric] l_def [symmetric] str_put_def r len by simp
  next
    case 3
    have "unat radix \<noteq> 2"
    proof
      assume "unat radix = 2"
      then have "radix = 2" by (simp add: word_unat_eq_iff)
      with 3(2) show False by simp
    qed
    then have r: "3 \<le> unat radix" using assms(1) by linarith
    have "unat n < 3 ^ 41" using unat_u64_less [of n] by simp
    also have "(3::nat) ^ 41 \<le> unat radix ^ 41" using r by (intro power_mono) simp_all
    finally show ?thesis using 3 assms(1)
      by (simp add: u64toa_radix_def u64toa_radix_loop_digits str_put_def Let_def)
  qed
qed

text \<open>A signed number: a minus sign and the digits of its absolute value.\<close>

definition int_str :: "nat \<Rightarrow> int \<Rightarrow> u8 list" where
  "int_str r i = (if i < 0 then 45 # digits_of r (nat (- i)) else digits_of r (nat i))"

lemma unat_neg:
  "sint (w :: 'a::len word) < 0 \<Longrightarrow> unat (- w) = nat (- sint w)"
proof -
  assume n: "sint w < 0"
  then have s: "sint w = int (unat w) - 2 ^ LENGTH('a)" "w \<noteq> 0"
    by (auto simp: sint_unat simp del: of_nat_unat split: if_splits)
  have "unat (- w) = 2 ^ LENGTH('a) - unat w"
  proof -
    have "- of_nat (unat w) = (of_nat (2 ^ LENGTH('a) - unat w) :: 'a word)"
      using unsigned_less [of w, where 'a = nat]
      by (intro neg_of_nat) (simp_all add: less_imp_le word_unat_eq_iff unat_of_nat)
    then have "unat (- w) = unat (of_nat (2 ^ LENGTH('a) - unat w) :: 'a word)" by simp
    moreover have "0 < unat w" using s(2) by (simp add: unat_gt_0)
    ultimately show ?thesis by (simp only: unat_of_nat) simp
  qed
  then show ?thesis
    using unsigned_less [of w, where 'a = nat] by (simp add: s(1) nat_diff_distrib' nat_power_eq del: of_nat_unat)
qed

lemma str_put_sign:
  assumes "p < length buf"
  shows "do { buf \<leftarrow> wr buf p c; (buf, l) \<leftarrow> str_put buf (p + 1) s; Some (buf, l + 1) }
    = str_put buf p (c # s)"
proof -
  obtain b where b: "wrs buf p [c] = Some b" using assms wrs_ok [of p "[c]" buf] by auto
  show ?thesis
    using wrs_append [OF b, of s] unfolding str_put_def wr_wrs b
    by (cases "wrs buf p (c # s)") simp_all
qed

lemma i64toa_radix_value:
  assumes "2 \<le> unat radix" "p + length (int_str (unat radix) (sint n)) \<le> length buf"
  shows "i64toa_radix buf p n radix = str_put buf p (int_str (unat radix) (sint n))"
proof (cases "sint n < 0")
  case True
  then have s: "int_str (unat radix) (sint n) = 45 # digits_of (unat radix) (unat (- n))"
    by (simp add: int_str_def unat_neg)
  then have "p < length buf"
    "p + 1 + length (digits_of (unat radix) (unat (- n))) \<le> length buf" using assms(2) by simp_all
  have "i64toa_radix buf p n radix
      = do { b \<leftarrow> wr buf p 45; (b, l) \<leftarrow> u64toa_radix b (p + 1) (- n) radix; Some (b, l + 1) }"
    using True by (simp add: i64toa_radix_def)
  also have "\<dots> = do { b \<leftarrow> wr buf p 45;
      (b, l) \<leftarrow> str_put b (p + 1) (digits_of (unat radix) (unat (- n))); Some (b, l + 1) }"
    using \<open>p < length buf\<close> \<open>p + 1 + _ \<le> length buf\<close> assms(1)
    by (simp add: u64toa_radix_value)
  finally show ?thesis using str_put_sign [OF \<open>p < length buf\<close>] by (simp add: s)
next
  case False
  then have "nat (sint n) = unat n" using unsigned_less [of n, where 'a = int]
    by (auto simp: sint_unat split: if_splits)
  with False assms show ?thesis
    by (simp add: i64toa_radix_def int_str_def u64toa_radix_value)
qed

lemma i32toa_value:
  assumes "p + length (int_str 10 (sint n)) \<le> length buf"
  shows "i32toa buf p n = str_put buf p (int_str 10 (sint n))"
proof (cases "sint n < 0")
  case True
  then have s: "int_str 10 (sint n) = 45 # digits_of 10 (unat (- n))"
    by (simp add: int_str_def unat_neg)
  then have l: "p < length buf" using assms by simp
  show ?thesis
    using True str_put_sign [OF l, of 45 "digits_of 10 (unat (- n))"]
    by (simp add: i32toa_def u32toa_value s)
next
  case False
  then have "nat (sint n) = unat n" using unsigned_less [of n, where 'a = int]
    by (auto simp: sint_unat split: if_splits)
  with False show ?thesis
    by (simp add: i32toa_def int_str_def u32toa_value)
qed

section \<open>Reading the digits back\<close>

definition read_digits :: "nat \<Rightarrow> u8 list \<Rightarrow> nat" where
  "read_digits r s = foldl (\<lambda>v c. v * r + to_digit c) 0 s"

lemma to_digit_char: "d < 36 \<Longrightarrow> to_digit (digit_char d) = d"
proof -
  assume d: "d < 36"
  then have "unat (digit_char d) = (if d < 10 then d + 48 else d + 87)"
    unfolding digit_char_def unat_of_nat by simp
  then show ?thesis using d by (simp add: to_digit_def word_le_nat_alt)
qed

lemma read_digits_of:
  "2 \<le> r \<Longrightarrow> r \<le> 36 \<Longrightarrow> read_digits r (digits_of r n) = n \<and> (\<forall>c \<in> set (digits_of r n). to_digit c < r)"
proof (induction r n rule: digits_of.induct)
  case (1 r n)
  show ?case
  proof (cases "n < r")
    case True
    with 1(3) show ?thesis by (simp add: digits_of_small read_digits_def to_digit_char)
  next
    case False
    have "n mod r < r" using 1(2) by simp
    then have d: "to_digit (digit_char (n mod r)) = n mod r" using 1(3) by (intro to_digit_char) linarith
    have "read_digits r (digits_of r (n div r)) = n div r \<and> (\<forall>c \<in> set (digits_of r (n div r)). to_digit c < r)"
      using False 1 by simp
    with False 1(2) d show ?thesis
      by (simp add: digits_of_big read_digits_def)
  qed
qed

lemma digits_of_leading: "2 \<le> r \<Longrightarrow> r \<le> 36 \<Longrightarrow> 0 < n \<Longrightarrow> digits_of r n \<noteq> [] \<and> to_digit (hd (digits_of r n)) \<noteq> 0"
proof (induction r n rule: digits_of.induct)
  case (1 r n)
  show ?case
  proof (cases "n < r")
    case True
    with 1(3,4) show ?thesis by (simp add: digits_of_small to_digit_char)
  next
    case False
    then have "0 < n div r" using 1(2) by (simp add: div_greater_zero_iff)
    with False 1 show ?thesis by (simp add: digits_of_big)
  qed
qed

section \<open>Properties\<close>

text \<open>Property C34 (functional): 
  The integer printers write the number. For every word, radix and array with room for
  the text, \<open>i64toa_radix\<close> (and \<open>u64toa_radix\<close> for an unsigned word, and \<open>i32toa\<close> in base ten) writes the digits of
  its value in that radix, most significant first, with a minus sign when it is negative, at the
  given place and nowhere else, and returns their number; no local buffer overflows. So the
  splitting into groups of nine digits, the shift-and-mask loop for powers of two and the
  division loop agree.\<close>

theorem i64toa_radix_correct:
  assumes "2 \<le> unat radix" "p + length (int_str (unat radix) (sint n)) \<le> length buf"
    "p + length (digits_of (unat radix) (unat n)) \<le> length buf"
    "p + length (int_str 10 (sint m)) \<le> length buf"
  shows "i64toa_radix buf p n radix = str_put buf p (int_str (unat radix) (sint n))
    \<and> u64toa_radix buf p n radix = str_put buf p (digits_of (unat radix) (unat n))
    \<and> i32toa buf p m = str_put buf p (int_str 10 (sint m))"
  using i64toa_radix_value [OF assms(1,2)] u64toa_radix_value [OF assms(1,3)] i32toa_value [OF assms(4)]
  by blast

theorem i64toa_radix_correct_witness:
  "i64toa_radix (replicate 20 0) 1 (- 255) 16 = str_put (replicate 20 0) 1 [45, 102, 102]
    \<and> i32toa (replicate 20 0) 1 (- 255) = str_put (replicate 20 0) 1 [45, 50, 53, 53]"
  using i64toa_radix_correct [of 16 1 "- 255" "replicate 20 0" "- 255"]
  by (simp add: int_str_def digits_of.simps digit_char_def)

text \<open>
  What the printers write reads back: the digits of a number, each below the radix in the sense
  of \<open>to_digit\<close>, evaluate to the number, the first of them is not zero unless the number is, and
  no two numbers have the same digits.\<close>

theorem digits_read_back:
  assumes "2 \<le> r" "r \<le> 36"
  shows "read_digits r (digits_of r n) = n
    \<and> (\<forall>c \<in> set (digits_of r n). to_digit c < r)
    \<and> (0 < n \<longrightarrow> to_digit (hd (digits_of r n)) \<noteq> 0)
    \<and> (digits_of r n = digits_of r m \<longrightarrow> n = m)"
  using read_digits_of [OF assms] digits_of_leading [OF assms] by metis

theorem digits_read_back_witness:
  "read_digits 36 (digits_of 36 1000000) = 1000000"
  using digits_read_back [of 36 1000000] by simp

end
