(* ===== verification/Dtoa.thy ===== *)
theory Dtoa
  imports Complex_Main Itoa "HOL-Library.Signed_Division"
begin

text \<open>
  The radix conversions of \<^verbatim>\<open>quickjs/dtoa.c\<close> that sit between the limbs and the printers: the
  estimate \<open>mul_log2_radix\<close> of the number of digits and \<open>output_digits\<close>, which prints a
  multi-precision number with an optional point. C \<open>int\<close> values are \<open>int\<close>; every intermediate
  value is far inside the range.
\<close>

section \<open>Printing a number with a point\<close>

definition digits_per_limb_table :: "nat list" where
  "digits_per_limb_table = [
    32,20,16,13,12,11,10,10, 9, 9, 8, 8, 8, 8, 8, 7, 7, 7, 7, 7, 7, 7, 6, 6, 6, 6, 6, 6, 6, 6, 6, 6, 6, 6, 6]"

definition radix_base_table :: "u32 list" where
  "radix_base_table = [
    0x00000000, 0xcfd41b91, 0x00000000, 0x48c27395,
    0x81bf1000, 0x75db9c97, 0x40000000, 0xcfd41b91,
    0x3b9aca00, 0x8c8b6d2b, 0x19a10000, 0x309f1021,
    0x57f6c100, 0x98c29b81, 0x00000000, 0x18754571,
    0x247dbc80, 0x3547667b, 0x4c4b4000, 0x6b5a6e1d,
    0x94ace180, 0xcaf18367, 0x0b640000, 0x0e8d4a51,
    0x1269ae40, 0x17179149, 0x1cb91000, 0x23744899,
    0x2b73a840, 0x34e63b41, 0x40000000, 0x4cfa3cc1,
    0x5c13d840, 0x6d91b519, 0x81bf1000]"

text \<open>
  The two loops of \<open>output_digits\<close>. A table entry of 0 would make them run for ever, which is
  \<open>None\<close> here.
\<close>

function output_bin_loop :: "u8 list \<Rightarrow> nat \<Rightarrow> mpb \<Rightarrow> nat \<Rightarrow> nat \<Rightarrow> nat \<Rightarrow> u8 list option" where
  "output_bin_loop buf p a radix_bits digits_per_limb n_digits =
     (let n = min n_digits digits_per_limb; n_digits = n_digits - n
      in do {
        a0 \<leftarrow> rd a 0;
        buf \<leftarrow> u64toa_bin_len buf (p + n_digits) (ucast a0) radix_bits n;
        if n_digits = 0 then Some buf
        else if n = 0 then None
        else output_bin_loop buf p (mpb_shr_round a (int (digits_per_limb * radix_bits)) JS_RNDZ)
          radix_bits digits_per_limb n_digits })"
  by pat_completeness auto
termination by (relation "measure (\<lambda>(buf, p, a, radix_bits, digits_per_limb, n_digits). n_digits)") auto

function output_loop :: "u8 list \<Rightarrow> nat \<Rightarrow> mpb \<Rightarrow> u32 \<Rightarrow> limb \<Rightarrow> nat \<Rightarrow> nat \<Rightarrow> u8 list option" where
  "output_loop buf p a radix base digits_per_limb n_digits =
     (if n_digits \<noteq> 0 then
        let n = min n_digits digits_per_limb; n_digits = n_digits - n;
            (t, r) = mp_div1 a base 0; a = mpb_renorm t
        in do {
          buf \<leftarrow> limb_to_a buf (p + n_digits) r radix n;
          if n = 0 then None
          else output_loop buf p a radix base digits_per_limb n_digits }
      else Some buf)"
  by pat_completeness auto
termination
  by (relation "measure (\<lambda>(buf, p, a, radix, base, digits_per_limb, n_digits). n_digits)") auto

declare output_bin_loop.simps [simp del] output_loop.simps [simp del]

definition output_digits :: "u8 list \<Rightarrow> nat \<Rightarrow> mpb \<Rightarrow> u32 \<Rightarrow> nat \<Rightarrow> nat \<Rightarrow> (u8 list \<times> nat) option" where
  "output_digits buf p a radix n_digits1 dot_pos =
     (let radix_bits = (if radix AND (radix - 1) = 0 then 31 - clz32 radix else 0)
      in do {
        digits_per_limb \<leftarrow> rd digits_per_limb_table (unat (radix - 2));
        base \<leftarrow> rd radix_base_table (unat (radix - 2));
        buf \<leftarrow> (if radix_bits \<noteq> 0
                then output_bin_loop buf p a radix_bits digits_per_limb n_digits1
                else output_loop buf p a radix base digits_per_limb n_digits1);
        if dot_pos \<noteq> n_digits1 then do {
          buf \<leftarrow> wrs buf (p + dot_pos + 1) (take (n_digits1 - dot_pos) (drop (p + dot_pos) buf));
          buf \<leftarrow> wr buf (p + dot_pos) 46;
          Some (buf, n_digits1 + 1) }
        else Some (buf, n_digits1) })"

lemma pad_numeral [simp]:
  "pad r (numeral k) n = pad r (pred_numeral k) (n div r) @ [digit_char (n mod r)]"
  by (simp add: numeral_eq_Suc)

lemma pad_append: "pad r (k + m) n = pad r k (n div r ^ m) @ pad r m n"
proof (induction m arbitrary: n)
  case (Suc m)
  then show ?case by (simp add: div_mult2_eq)
qed simp

lemma pad_mod: "k \<le> m \<Longrightarrow> pad r k (n mod r ^ m) = pad r k n"
proof (induction k arbitrary: m n)
  case (Suc k)
  then obtain l where m: "m = Suc l" by (cases m) auto
  have "n mod r ^ m div r = (n div r) mod r ^ l"
    by (cases "r = 0") (simp_all add: m mod_mult2_eq)
  moreover have "n mod r ^ m mod r = n mod r" by (simp add: m mod_mod_cancel)
  ultimately show ?case using Suc m by simp
qed simp

text \<open>Writing a block before one that is already there.\<close>

lemma wrs_before:
  assumes "wrs buf (p + length xs) ys = Some b" "p + length xs + length ys \<le> length buf"
  shows "wrs b p xs = wrs buf p (xs @ ys)"
  using assms by (auto simp: wrs_def ac_simps)

lemma output_loop_pad:
  assumes "base \<noteq> 0" "unat base = unat radix ^ dpl" "0 < dpl"
  shows "a \<noteq> [] \<Longrightarrow> p + n \<le> length buf \<Longrightarrow>
    output_loop buf p a radix base dpl n = wrs buf p (pad (unat radix) n (mpv a))"
proof (induction n arbitrary: a buf rule: less_induct)
  case (less n)
  show ?case
  proof (cases "n = 0")
    case True
    then show ?thesis using less(3) by (simp add: output_loop.simps [of buf])
  next
    case False
    define k m where "k = min n dpl" and "m = n - k"
    have k: "k \<le> dpl" "0 < k" "n = m + k" "m < n" using False assms(3) by (auto simp: k_def m_def)
    obtain t r where d: "mp_div1 a base 0 = (t, r)" by fastforce
    have "0 < unat base" using assms(1) by (simp add: unat_gt_0)
    then have v: "mpv t = mpv a div unat radix ^ dpl" "unat r = mpv a mod unat radix ^ dpl"
        "length t = length a"
      using mp_div1_value [OF d] by (simp_all add: assms(2))
    have r: "pad (unat radix) k (unat r) = pad (unat radix) k (mpv a)"
      unfolding v by (rule pad_mod [OF k(1)])
    have "p + m + k \<le> length buf" using less(3) k by simp
    then obtain b where b: "wrs buf (p + m) (pad (unat radix) k (mpv a)) = Some b" "length b = length buf"
      using wrs_ok [of "p + m" "pad (unat radix) k (mpv a)" buf] by auto
    have ne: "mpb_renorm t \<noteq> []"
      using mpb_ok_renorm [of t] v(3) less(2) unfolding mpb_ok_def by fastforce
    have "output_loop buf p a radix base dpl n = output_loop b p (mpb_renorm t) radix base dpl m"
      using False k \<open>p + m + k \<le> length buf\<close> b
      unfolding output_loop.simps [of buf p a radix base dpl n, unfolded Let_def, folded k_def, folded m_def]
      by (simp add: d limb_to_a_pad r)
    also have "\<dots> = wrs b p (pad (unat radix) m (mpv a div unat radix ^ dpl))"
      using less.IH [OF k(4) ne] less(3) b(2) k v by simp
    also have "pad (unat radix) m (mpv a div unat radix ^ dpl) = pad (unat radix) m (mpv a div unat radix ^ k)"
    proof (cases "m = 0")
      case False
      then have "k = dpl" by (simp add: k_def m_def min_def split: if_splits)
      then show ?thesis by simp
    qed simp
    also have "wrs b p (pad (unat radix) m (mpv a div unat radix ^ k)) = wrs buf p (pad (unat radix) n (mpv a))"
      using wrs_before [of buf p "pad (unat radix) m (mpv a div unat radix ^ k)"
        "pad (unat radix) k (mpv a)" b] b(1) less(3) k(3)
      by (simp add: pad_append)
    finally show ?thesis .
  qed
qed

lemma pad_low: "r ^ k dvd M \<Longrightarrow> pad r k (n mod M) = pad r k n"
  using pad_mod [of k k r "n mod M"] pad_mod [of k k r n] by (simp add: mod_mod_cancel)

lemma output_bin_loop_pad:
  assumes "0 < dpl" "dpl * bits \<le> 32"
  shows "mpb_ok a \<Longrightarrow> p + n \<le> length buf \<Longrightarrow>
    output_bin_loop buf p a bits dpl n = wrs buf p (pad (2 ^ bits) n (mpv a))"
proof (induction n arbitrary: a buf rule: less_induct)
  case (less n)
  define k m where "k = min n dpl" and "m = n - k"
  have k: "k \<le> dpl" "n = m + k" by (auto simp: k_def m_def)
  have ne: "a \<noteq> []" using less(2) by (simp add: mpb_ok_def)
  have "bits * k \<le> 32" using mult_le_mono2 [OF k(1), of bits] assms(2) by (simp only: mult.commute)
  then have "((2::nat) ^ bits) ^ k dvd 2 ^ 32"
    unfolding power_mult [symmetric] by (rule le_imp_power_dvd)
  moreover have "unat (ucast (a ! 0) :: u64) = mpv a mod 2 ^ 32"
    using mpv_nth [of 0 a] ne by (simp add: unat_up64)
  ultimately have a0: "pad (2 ^ bits) k (unat (ucast (a ! 0) :: u64)) = pad (2 ^ bits) k (mpv a)"
    by (simp only: pad_low)
  have "p + m + k \<le> length buf" using less(3) k by simp
  then obtain b where b: "wrs buf (p + m) (pad (2 ^ bits) k (mpv a)) = Some b" "length b = length buf"
    using wrs_ok [of "p + m" "pad (2 ^ bits) k (mpv a)" buf] by auto
  define a' where "a' = mpb_shr_round a (int (dpl * bits)) JS_RNDZ"
  have w: "u64toa_bin_len buf (p + m) (ucast (a ! 0)) bits k = Some b"
    using \<open>p + m + k \<le> length buf\<close> b(1) by (simp only: u64toa_bin_len_pad a0)
  have r0: "rd a 0 = Some (a ! 0)" using ne by simp
  have e: "output_bin_loop buf p a bits dpl n
      = (if m = 0 then Some b else if k = 0 then None else output_bin_loop b p a' bits dpl m)"
    unfolding output_bin_loop.simps [of buf p a bits dpl n, unfolded Let_def, folded k_def, folded m_def]
      r0 w Option.bind.bind_lunit a'_def by (rule refl)
  show ?case
  proof (cases "m = 0")
    case True
    with k b show ?thesis unfolding e by simp
  next
    case False
    then have kd: "k = dpl" by (simp add: k_def m_def min_def split: if_splits)
    have v: "mpv a' = mpv a div (2 ^ bits) ^ k" "mpb_ok a'"
      using mpb_shr_round_value [OF less(2), of "int (dpl * bits)" JS_RNDZ] kd
      by (auto simp: a'_def round_shr_def power_mult [symmetric] mult.commute [of bits] simp del: of_nat_mult
          split: if_splits)
    have "m < n" using kd k(2) assms(1) by simp
    from less.IH [OF this v(2), of b] have "output_bin_loop b p a' bits dpl m
        = wrs b p (pad (2 ^ bits) m (mpv a div (2 ^ bits) ^ k))"
      using less(3) b(2) k(2) by (simp only: v)
    also have "\<dots> = wrs buf p (pad (2 ^ bits) n (mpv a))"
      using wrs_before [of buf p "pad (2 ^ bits) m (mpv a div (2 ^ bits) ^ k)"
        "pad (2 ^ bits) k (mpv a)" b] b(1) less(3) k(2)
      by (simp add: pad_append)
    finally show ?thesis using False kd assms(1) unfolding e by simp
  qed
qed

lemma radix_tables:
  "2 \<le> r \<Longrightarrow> r \<le> 36 \<Longrightarrow> 0 < digits_per_limb_table ! (r - 2)
    \<and> (if of_nat r AND (of_nat r - 1) = (0 :: u32)
       then 31 - clz32 (of_nat r) \<noteq> 0 \<and> digits_per_limb_table ! (r - 2) * (31 - clz32 (of_nat r)) \<le> 32
       else unat (radix_base_table ! (r - 2)) = r ^ (digits_per_limb_table ! (r - 2)))"
proof -
  have "\<forall>r \<in> set [2..<37]. 0 < digits_per_limb_table ! (r - 2)
    \<and> (if of_nat r AND (of_nat r - 1) = (0 :: u32)
       then 31 - clz32 (of_nat r) \<noteq> 0 \<and> digits_per_limb_table ! (r - 2) * (31 - clz32 (of_nat r)) \<le> 32
       else unat (radix_base_table ! (r - 2)) = r ^ (digits_per_limb_table ! (r - 2)))"
    by (simp add: upt_rec_numeral digits_per_limb_table_def radix_base_table_def clz32_def)
  moreover assume "2 \<le> r" "r \<le> 36"
  then have "r \<in> set [2..<37]" unfolding set_upt by simp
  ultimately show ?thesis by blast
qed

lemma insert_dot:
  assumes "wrs buf p s = Some b" "d < length s" "p + length s < length buf"
  shows "do { b \<leftarrow> wrs b (p + d + 1) (take (length s - d) (drop (p + d) b)); b \<leftarrow> wr b (p + d) c;
      Some (b, length s + 1) } = str_put buf p (take d s @ c # drop d s)"
proof -
  have b: "b = take p buf @ s @ drop (p + length s) buf" "length b = length buf"
    using assms(1) length_wrs by (auto simp: wrs_Some_iff)
  have t: "take (length s - d) (drop (p + d) b) = drop d s"
    using assms(2,3) by (simp add: b(1))
  obtain b1 where b1: "wrs b (p + d + 1) (drop d s) = Some b1"
    using assms(2,3) b(2) wrs_ok [of "p + d + 1" "drop d s" b] by auto
  then have l: "b1 = take (p + d + 1) b @ drop d s @ drop (p + length s + 1) b" "length b1 = length b"
    using assms(2) length_wrs [OF b1] by (auto simp: wrs_Some_iff)
  have "wr b1 (p + d) c = Some (b1[p + d := c])" using assms l b(2) by simp
  moreover have "b1[p + d := c] = take (p + d) b @ c # drop d s @ drop (p + length s + 1) b"
    using assms(2,3) b(2) by (simp add: upd_conv_take_nth_drop l(2)) (simp add: l(1))
  moreover have "take (p + d) b = take p buf @ take d s" "drop (p + length s + 1) b = drop (p + length s + 1) buf"
    using assms(2,3) by (simp_all add: b(1))
  moreover have "wrs buf p (take d s @ c # drop d s)
      = Some (take p buf @ take d s @ c # drop d s @ drop (p + length s + 1) buf)"
    using assms(2,3) by (simp add: wrs_def)
  ultimately show ?thesis
    using assms(2) b1 by (simp add: t str_put_def)
qed

text \<open>Property C35 (functional): 
  \<open>output_digits\<close> prints a multi-precision number: for every normalized number, radix from 2 to
  36 and width it writes exactly that many digits of the number in the radix, most significant
  first and with leading zeros, with a point before the digit \<open>dot_pos\<close> unless that is the
  end, and nothing else; it returns the length. Radixes that are powers of two (shifting the
  number right) and all others (dividing by a table entry) print alike.\<close>

theorem output_digits_correct:
  assumes "mpb_ok a" "2 \<le> unat radix" "unat radix \<le> 36" "dot_pos \<le> n"
    "p + n < length buf"
  shows "output_digits buf p a radix n dot_pos =
    (let s = pad (unat radix) n (mpv a)
     in str_put buf p (if dot_pos = n then s else take dot_pos s @ 46 # drop dot_pos s))"
proof -
  define r where "r = unat radix"
  define s where "s = pad r n (mpv a)"
  define dpl base where "dpl = digits_per_limb_table ! (r - 2)" and "base = radix_base_table ! (r - 2)"
  have w: "of_nat r = radix" by (simp add: r_def)
  have i: "unat (radix - 2) = r - 2" using assms(2) by (subst unat_sub) (simp_all add: word_le_nat_alt r_def)
  have t: "0 < dpl" "if radix AND (radix - 1) = 0
       then 31 - clz32 radix \<noteq> 0 \<and> dpl * (31 - clz32 radix) \<le> 32 else unat base = r ^ dpl"
    using radix_tables [of r] assms(2,3) by (simp_all add: dpl_def base_def w r_def [symmetric] split: if_splits)
  have rd: "rd digits_per_limb_table (r - 2) = Some dpl" "rd radix_base_table (r - 2) = Some base"
    using assms(2,3) by (simp_all add: r_def [symmetric] dpl_def base_def digits_per_limb_table_def radix_base_table_def)
  obtain b where b: "wrs buf p s = Some b"
    using wrs_ok [of p s buf] assms(5) by (auto simp: s_def)
  have loop: "(if (if radix AND (radix - 1) = 0 then 31 - clz32 radix else 0) \<noteq> 0
      then output_bin_loop buf p a (if radix AND (radix - 1) = 0 then 31 - clz32 radix else 0) dpl n
      else output_loop buf p a radix base dpl n) = Some b"
  proof (cases "radix AND (radix - 1) = 0")
    case True
    have "radix \<noteq> 0" using assms(2) by auto
    with True have "r = 2 ^ (31 - clz32 radix)" unfolding r_def by (intro power_of_two_radix)
    with True t b show ?thesis
      using output_bin_loop_pad [of dpl "31 - clz32 radix" a p n buf] assms(1,5) by (simp add: s_def)
  next
    case False
    with t have "unat base = r ^ dpl" by simp
    moreover from this have "base \<noteq> 0" using assms(2) by (auto simp: r_def)
    ultimately show ?thesis
      using False output_loop_pad [of base radix dpl a p n buf] t(1) assms(1,5) b
      by (simp add: s_def r_def mpb_ok_def)
  qed
  have ls: "length s = n" by (simp add: s_def)
  have "output_digits buf p a radix n dot_pos =
    (if dot_pos \<noteq> n then do { b \<leftarrow> wrs b (p + dot_pos + 1) (take (n - dot_pos) (drop (p + dot_pos) b));
        b \<leftarrow> wr b (p + dot_pos) 46; Some (b, n + 1) } else Some (b, n))"
    unfolding output_digits_def Let_def i rd Option.bind.bind_lunit loop by simp
  also have "\<dots> = str_put buf p (if dot_pos = n then s else take dot_pos s @ 46 # drop dot_pos s)"
    using insert_dot [OF b, of dot_pos 46] assms(4,5) b by (simp add: ls str_put_def)
  finally show ?thesis by (simp add: s_def r_def Let_def)
qed

theorem output_digits_correct_witness:
  "output_digits (replicate 9 0) 1 [1, 1] 10 5 3 = str_put (replicate 9 0) 1 [54, 55, 50, 46, 57, 55]"
  using output_digits_correct [of "[1, 1]" 10 3 5 1 "replicate 9 0"]
  by (simp add: mpb_ok_def digit_char_def)

section \<open>The logarithm of the radix\<close>

definition mul_log2_radix_table :: "int list" where
  "mul_log2_radix_table = [
    0x000000, 0xa1849d, 0x000000, 0x6e40d2,
    0x6308c9, 0x5b3065, 0x000000, 0x50c24e,
    0x4d104d, 0x4a0027, 0x4768ce, 0x452e54,
    0x433d00, 0x418677, 0x000000, 0x3ea16b,
    0x3d645a, 0x3c43c2, 0x3b3b9a, 0x3a4899,
    0x39680b, 0x3897b3, 0x37d5af, 0x372069,
    0x367686, 0x35d6df, 0x354072, 0x34b261,
    0x342bea, 0x33ac62, 0x000000, 0x32bfd9,
    0x3251dd, 0x31e8d6, 0x318465]"

definition mul_log2_radix :: "int \<Rightarrow> int \<Rightarrow> int" where
  "mul_log2_radix a radix =
     (if radix AND (radix - 1) = 0 then
        let radix_bits = 31 - int (clz32 (of_int radix));
            a = (if a < 0 then a - (radix_bits - 1) else a)
        in a sdiv radix_bits
      else
        let mult = mul_log2_radix_table ! nat (radix - 2) in (a * mult) div 2 ^ 24)"

text \<open>
  Two numbers between neighbours \<open>p/q < P/Q\<close> of a Farey sequence have the same floors of
  multiples: a fraction between them has a denominator of at least \<open>q + Q\<close>.
\<close>

lemma farey_pos:
  fixes x y :: real and p q P Q a n :: int
  assumes "P * q - p * Q = 1" "0 < q" "0 < Q" "0 < a" "a < q + Q"
    and x: "p < x * q" "x * Q < P" and y: "p < y * q" "y * Q < P"
    and n: "n \<le> a * y"
  shows "n \<le> a * x"
proof (rule ccontr)
  assume "\<not> n \<le> a * x"
  then have less: "a * x < n" by simp
  have "real_of_int (a * p) < a * (x * q)" using x(1) assms(4) by simp
  also have "\<dots> = (a * x) * q" by simp
  also have "\<dots> < n * q" using less assms(2) by simp
  finally have "a * p < n * q" by (metis of_int_less_iff of_int_mult)
  then have 1: "1 \<le> n * q - a * p" by simp
  have "n * Q \<le> a * y * Q" using n assms(3) by simp
  also have "\<dots> = a * (y * Q)" by simp
  also have "\<dots> < a * P" using y(2) assms(4) by simp
  finally have "n * Q < a * P" by (metis of_int_less_iff of_int_mult)
  then have 2: "1 \<le> a * P - n * Q" by simp
  have "a = a * (P * q - p * Q)" using assms(1) by simp
  also have "\<dots> = q * (a * P - n * Q) + Q * (n * q - a * p)" by (simp add: algebra_simps)
  also have "\<dots> \<ge> q * 1 + Q * 1"
    using 1 2 assms(2,3) by (intro add_mono mult_left_mono) simp_all
  finally show False using assms(5) by simp
qed

lemma farey_floor:
  fixes x y :: real and p q P Q a :: int
  assumes "P * q - p * Q = 1" "0 < q" "0 < Q" "\<bar>a\<bar> < q + Q"
    and x: "p < x * q" "x * Q < P" and y: "p < y * q" "y * Q < P"
  shows "\<lfloor>a * x\<rfloor> = \<lfloor>a * y\<rfloor>"
proof -
  consider "a = 0" | "0 < a" | "0 < - a" by linarith
  then have "n \<le> a * x \<longleftrightarrow> n \<le> a * y" for n :: int
  proof cases
    case 2
    then show ?thesis
      using farey_pos [OF assms(1-3) _ _ x y, of a n] farey_pos [OF assms(1-3) _ _ y x, of a n] assms(4)
      by auto
  next
    case 3
    have f: "- p * Q - - P * q = 1" using assms(1) by simp
    have n: "real_of_int (- P) < - x * Q" "- x * q < real_of_int (- p)"
      "real_of_int (- P) < - y * Q" "- y * q < real_of_int (- p)" using x y by simp_all
    show ?thesis
      using farey_pos [OF f assms(3,2) 3 _ n(1,2) n(3,4), of n]
        farey_pos [OF f assms(3,2) 3 _ n(3,4) n(1,2), of n] assms(4) 3
      by auto
  qed simp
  then show ?thesis by (metis le_floor_iff order_antisym order_refl)
qed

lemma log_row:
  assumes "(r::nat) ^ p < 2 ^ q" "2 ^ Q < r ^ P" "int P * int q - int p * int Q = 1"
    "0 < q" "0 < Q" "1 < r" "2048 < q + Q" "\<bar>a\<bar> \<le> 2048"
    "int p * 2 ^ 24 < m * int q" "m * int Q < int P * 2 ^ 24"
  shows "\<lfloor>a / log 2 (real r)\<rfloor> = (a * m) div 2 ^ 24"
proof -
  define l where "l = log 2 (real r)"
  have l: "0 < l" using assms(6) by (simp add: l_def)
  have pw: "log 2 (real (r ^ k)) = k * l" for k using assms(6) by (simp add: l_def log_nat_power)
  have "log 2 (real (r ^ p)) < q"
    using assms(1,6) by (intro log_of_power_less) (simp_all flip: of_nat_power)
  then have a: "real p * l < q" by (simp only: pw)
  have "Q < log 2 (real (r ^ P))"
    using assms(2) by (intro less_log_of_power) (simp_all flip: of_nat_power)
  then have b: "Q < real P * l" by (simp only: pw)
  define y where "y = real_of_int m / 2 ^ 24"
  have "real_of_int (int p * 2 ^ 24) < real_of_int (m * int q)"
    "real_of_int (m * int Q) < real_of_int (int P * 2 ^ 24)" using assms(9,10) by (simp_all only: of_int_less_iff)
  then have y: "real_of_int (int p) < y * real_of_int (int q)" "y * real_of_int (int Q) < real_of_int (int P)"
    by (simp_all add: y_def field_simps)
  have "\<lfloor>a * (1 / l)\<rfloor> = \<lfloor>a * y\<rfloor>"
    using assms(4,5,7,8) a b l
    by (intro farey_floor [OF assms(3) _ _ _ _ _ y]) (simp_all add: field_simps)
  also have "a * y = real_of_int (a * m) / real_of_int (2 ^ 24)" by (simp add: y_def)
  also have "\<lfloor>\<dots>\<rfloor> = (a * m) div 2 ^ 24" by (rule floor_divide_of_int_eq)
  finally show ?thesis by (simp add: l_def)
qed

lemma ceil_div:
  assumes "0 < (k :: int)"
  shows "- ((b + k - 1) div k) = (- b) div k"
proof -
  define q where "q = (b + k - 1) div k"
  have "b + k - 1 = k * q + (b + k - 1) mod k" by (simp add: q_def)
  moreover have "0 \<le> (b + k - 1) mod k" "(b + k - 1) mod k < k" using assms by simp_all
  ultimately have "0 \<le> k * q - b" "k * q - b < k" by linarith+
  moreover have "- b = k * (- q) + (k * q - b)" by simp
  ultimately show ?thesis
    unfolding q_def [symmetric] by (metis int_div_pos_eq)
qed

lemma pow2_row:
  assumes "0 < k"
  shows "\<lfloor>a / log 2 (2 ^ k)\<rfloor> = (if a < 0 then a - (int k - 1) else a) sdiv int k"
proof -
  have "a / log 2 (2 ^ k) = real_of_int a / real_of_int (int k)" by (simp add: log_nat_power)
  then have "\<lfloor>a / log 2 (2 ^ k)\<rfloor> = a div int k" by (metis floor_divide_of_int_eq)
  moreover have "(if a < 0 then a - (int k - 1) else a) sdiv int k = a div int k"
    using ceil_div [of "int k" "- a"] assms
    by (auto simp: signed_divide_int_def sgn_if algebra_simps)
  ultimately show ?thesis by simp
qed

text \<open>
  Powers bounded from above and below by a mantissa of at most 34 bits and a power of two, so
  that \<open>r ^ p\<close> and \<open>2 ^ q\<close> compare without computing either. The exponent is given by its bits,
  least significant first.
\<close>

function short :: "bool \<Rightarrow> int \<Rightarrow> int \<Rightarrow> int \<times> int" where
  "short up m e =
     (if m < 17179869184 then (m, e) else short up (if up then m div 2 + 1 else m div 2) (e + 1))"
  by pat_completeness auto
termination by (relation "measure (\<lambda>(up, m, e). nat m)") auto

declare short.simps [simp del]

fun pw :: "bool \<Rightarrow> int \<Rightarrow> bool list \<Rightarrow> int \<times> int" where
  "pw up r [] = (1, 0)"
| "pw up r (b # bs) =
     (let (m, e) = pw up r bs; (m, e) = short up (m * m) (2 * e)
      in if b then short up (m * r) e else (m, e))"

fun bits_value :: "bool list \<Rightarrow> nat" where
  "bits_value [] = 0"
| "bits_value (b # bs) = of_bool b + 2 * bits_value bs"

function bits_of :: "int \<Rightarrow> bool list" where
  "bits_of n = (if n \<le> 0 then [] else odd n # bits_of (n div 2))"
  by pat_completeness auto
termination by (relation "measure nat") auto

declare bits_of.simps [simp del]

lemma bits_of_value: "0 \<le> n \<Longrightarrow> bits_value (bits_of n) = nat n"
proof (induction n rule: bits_of.induct)
  case (1 n)
  show ?case
  proof (cases "n \<le> 0")
    case False
    with 1 have "bits_value (bits_of (n div 2)) = nat (n div 2)" by simp
    moreover have "nat n = of_bool (odd n) + 2 * nat (n div 2)"
      using False by (cases "odd n") (auto elim!: oddE evenE simp: nat_add_distrib nat_mult_distrib)
    ultimately show ?thesis using False by (subst bits_of.simps) simp
  qed (use 1(2) in \<open>simp add: bits_of.simps\<close>)
qed

text \<open>\<open>(m, e)\<close> bounds \<open>x\<close> from above (\<open>up\<close>) or from below.\<close>

definition bounds :: "bool \<Rightarrow> int \<Rightarrow> int \<times> int \<Rightarrow> bool" where
  "bounds up x b \<longleftrightarrow> (case b of (m, e) \<Rightarrow> 0 \<le> e \<and> 0 \<le> m
     \<and> (if up then x \<le> m * 2 ^ nat e else m * 2 ^ nat e \<le> x))"

lemma bounds_short: "bounds up x (m, e) \<Longrightarrow> bounds up x (short up m e)"
proof (induction up m e rule: short.induct)
  case (1 up m e)
  show ?case
  proof (cases "m < 17179869184")
    case False
    have p: "(2::int) ^ nat (e + 1) = 2 * 2 ^ nat e" if "0 \<le> e" using that by (simp add: nat_add_distrib)
    have "m div 2 * 2 \<le> m" "m \<le> (m div 2 + 1) * 2" by presburger+
    then have "m div 2 * 2 * 2 ^ nat e \<le> m * 2 ^ nat e" "m * 2 ^ nat e \<le> (m div 2 + 1) * 2 * 2 ^ nat e"
      by (intro mult_right_mono; simp)+
    then have k: "m div 2 * (2 * 2 ^ nat e) \<le> m * 2 ^ nat e" "m * 2 ^ nat e \<le> (m div 2 + 1) * (2 * 2 ^ nat e)"
      by (simp_all only: mult.assoc)
    have m: "0 \<le> m div 2" "0 \<le> e" using 1(2) False by (simp_all add: bounds_def)
    have "bounds up x (if up then m div 2 + 1 else m div 2, e + 1)"
    proof (cases up)
      case True
      then have "x \<le> (m div 2 + 1) * (2 * 2 ^ nat e)"
        using k(2) 1(2) by (simp only: bounds_def prod.case if_True) linarith
      with True m show ?thesis by (simp add: bounds_def p del: distrib_right_numeral)
    next
      case False
      then have "m div 2 * (2 * 2 ^ nat e) \<le> x"
        using k(1) 1(2) by (simp only: bounds_def prod.case if_False) linarith
      with False m show ?thesis by (simp add: bounds_def p)
    qed
    with 1(1) False show ?thesis by (subst short.simps) simp
  qed (use 1(2) in \<open>simp add: short.simps [of up m e]\<close>)
qed

lemma bounds_mult:
  assumes "bounds up x (m, e)" "bounds up y (n, f)" "0 \<le> x" "0 \<le> y"
  shows "bounds up (x * y) (m * n, e + f)"
proof -
  have e: "(2::int) ^ nat (e + f) = 2 ^ nat e * 2 ^ nat f"
    using assms(1,2) by (auto simp: bounds_def nat_add_distrib power_add)
  have "x * y \<le> m * 2 ^ nat e * (n * 2 ^ nat f)" if up
    using assms that by (intro mult_mono) (auto simp: bounds_def)
  moreover have "m * 2 ^ nat e * (n * 2 ^ nat f) \<le> x * y" if "\<not> up"
    using assms that by (intro mult_mono) (auto simp: bounds_def)
  ultimately show ?thesis using assms(1,2) by (auto simp: bounds_def e ac_simps)
qed

lemma bounds_pw: "0 \<le> r \<Longrightarrow> bounds up (r ^ bits_value bs) (pw up r bs)"
proof (induction up r bs rule: pw.induct)
  case (2 up r b bs)
  obtain m e where p: "pw up r bs = (m, e)" by fastforce
  define x where "x = r ^ bits_value bs"
  have x: "0 \<le> x" using 2(2) by (simp add: x_def)
  have "bounds up x (m, e)" using 2 by (simp add: p x_def)
  from bounds_mult [OF this this x x] have "bounds up (x * x) (short up (m * m) (2 * e))"
    by (intro bounds_short) simp
  moreover obtain n f where s: "short up (m * m) (2 * e) = (n, f)" by fastforce
  ultimately have sq: "bounds up (x * x) (n, f)" by simp
  have "bounds up r (r, 0)" using 2(2) by (simp add: bounds_def)
  from bounds_mult [OF sq this _ 2(2)] have "bounds up (x * x * r) (short up (n * r) f)"
    by (intro bounds_short) simp
  moreover have "r ^ bits_value (b # bs) = (if b then x * x * r else x * x)"
    by (simp add: x_def mult_2 power_add)
  ultimately show ?case using sq by (simp only: pw.simps p s Let_def prod.case split: if_split) simp
qed (simp add: bounds_def)

function pow2_int :: "int \<Rightarrow> int" where
  "pow2_int k = (if k \<le> 0 then 1 else 2 * pow2_int (k - 1))"
  by pat_completeness auto
termination by (relation "measure nat") auto

declare pow2_int.simps [simp del]

lemma pow2_int_value: "0 \<le> k \<Longrightarrow> pow2_int k = 2 ^ nat k"
proof (induction k rule: pow2_int.induct)
  case (1 k)
  show ?case
  proof (cases "k = 0")
    case False
    then have "nat k = Suc (nat (k - 1))" using 1(2) by simp
    then show ?thesis using 1 False by (subst pow2_int.simps) simp
  qed (simp add: pow2_int.simps)
qed

definition below_pow2 :: "int \<Rightarrow> int \<Rightarrow> int \<Rightarrow> bool" where
  "below_pow2 r p q \<longleftrightarrow> (case pw True r (bits_of p) of (m, e) \<Rightarrow> e \<le> q \<and> m < pow2_int (q - e))"

definition above_pow2 :: "int \<Rightarrow> int \<Rightarrow> int \<Rightarrow> bool" where
  "above_pow2 r p q \<longleftrightarrow> (case pw False r (bits_of p) of (m, e) \<Rightarrow> e \<le> q \<and> pow2_int (q - e) < m)"

lemma pow2_split: "0 \<le> e \<Longrightarrow> e \<le> q \<Longrightarrow> (2::int) ^ nat q = pow2_int (q - e) * 2 ^ nat e"
  by (simp add: pow2_int_value power_add [symmetric] nat_diff_distrib')

lemma below_pow2_less:
  assumes "below_pow2 r p q" "0 \<le> r" "0 \<le> p"
  shows "r ^ nat p < 2 ^ nat q"
proof -
  obtain m e where e: "pw True r (bits_of p) = (m, e)" by fastforce
  have "bounds True (r ^ nat p) (m, e)"
    using bounds_pw [OF assms(2), of True "bits_of p"] assms(3) by (simp add: bits_of_value e)
  moreover have "e \<le> q" "m < pow2_int (q - e)" using assms(1) by (simp_all add: below_pow2_def e)
  ultimately have "0 \<le> e" "e \<le> q" "m < pow2_int (q - e)" "r ^ nat p \<le> m * 2 ^ nat e"
    by (simp_all add: bounds_def)
  then show ?thesis using pow2_split [of e q] mult_strict_right_mono [of m "pow2_int (q - e)" "2 ^ nat e"]
    by (metis order.strict_trans1 zero_less_numeral zero_less_power)
qed

lemma above_pow2_less:
  assumes "above_pow2 r p q" "0 \<le> r" "0 \<le> p"
  shows "2 ^ nat q < r ^ nat p"
proof -
  obtain m e where e: "pw False r (bits_of p) = (m, e)" by fastforce
  have "bounds False (r ^ nat p) (m, e)"
    using bounds_pw [OF assms(2), of False "bits_of p"] assms(3) by (simp add: bits_of_value e)
  moreover have "e \<le> q" "pow2_int (q - e) < m" using assms(1) by (simp_all add: above_pow2_def e)
  ultimately have "0 \<le> e" "e \<le> q" "pow2_int (q - e) < m" "m * 2 ^ nat e \<le> r ^ nat p"
    by (simp_all add: bounds_def)
  then show ?thesis using pow2_split [of e q] mult_strict_right_mono [of "pow2_int (q - e)" m "2 ^ nat e"]
    by (metis order.strict_trans2 zero_less_numeral zero_less_power)
qed

text \<open>
  For each radix that is not a power of two, fractions \<open>p/q\<close> and \<open>P/Q\<close> that enclose both the
  inverse of its logarithm and the table entry.
\<close>

definition log_neighbours :: "(int \<times> int \<times> int \<times> int \<times> int) list" where
  "log_neighbours = [
    (3, 971, 1539, 665, 1054), (5, 643, 1493, 789, 1832), (6, 306, 791, 665, 1719),
    (7, 571, 1603, 680, 1909), (9, 153, 485, 512, 1623), (10, 497, 1651, 146, 485),
    (11, 37, 128, 579, 2003), (12, 306, 1097, 359, 1287), (13, 227, 840, 464, 1717),
    (14, 462, 1759, 109, 415), (15, 290, 1133, 247, 965), (17, 343, 1402, 263, 1075),
    (18, 153, 638, 359, 1497), (19, 121, 514, 480, 2039), (20, 351, 1517, 146, 631),
    (21, 339, 1489, 130, 571), (22, 37, 165, 431, 1922), (23, 403, 1823, 191, 864),
    (24, 306, 1403, 359, 1646), (25, 424, 1969, 73, 339), (26, 227, 1067, 237, 1114),
    (27, 102, 485, 359, 1707), (28, 353, 1697, 109, 524), (29, 169, 821, 345, 1676),
    (30, 290, 1423, 247, 1212), (31, 131, 649, 371, 1838), (33, 45, 227, 383, 1932),
    (34, 343, 1745, 263, 1338), (35, 379, 1944, 263, 1349), (36, 153, 791, 359, 1856)]"

lemma log_neighbours_powers:
  "list_all (\<lambda>(r, p, q, P, Q). below_pow2 r p q \<and> above_pow2 r P Q) log_neighbours"
  by code_simp

lemma log_neighbours_farey:
  "list_all (\<lambda>(r, p, q, P, Q). P * q - p * Q = 1 \<and> 0 < p \<and> 0 < q \<and> 0 < P \<and> 0 < Q \<and> 1 < r \<and> 2048 < q + Q
      \<and> p * 2 ^ 24 < mul_log2_radix_table ! nat (r - 2) * q
      \<and> mul_log2_radix_table ! nat (r - 2) * Q < P * 2 ^ 24
      \<and> r AND (r - 1) \<noteq> 0) log_neighbours"
  by (simp add: log_neighbours_def mul_log2_radix_table_def)

lemma log_neighbours_radix:
  "2 \<le> r \<Longrightarrow> r \<le> 36 \<Longrightarrow> r \<in> set (map fst log_neighbours) \<union> {2 ^ 1, 2 ^ 2, 2 ^ 3, 2 ^ 4, 2 ^ 5}"
proof -
  have "\<forall>r \<in> set [2..36]. r \<in> set (map fst log_neighbours) \<union> {2 ^ 1, 2 ^ 2, 2 ^ 3, 2 ^ 4, 2 ^ 5}"
    by (simp add: log_neighbours_def upto_rec_numeral)
  moreover assume "2 \<le> r" "r \<le> 36"
  then have "r \<in> set [2..36]" unfolding set_upto by simp
  ultimately show ?thesis by blast
qed

lemma mul_log2_radix_row:
  assumes "(r, p, q, P, Q) \<in> set log_neighbours" "\<bar>a\<bar> \<le> 2048"
  shows "mul_log2_radix a r = \<lfloor>a / log 2 (real_of_int r)\<rfloor>"
proof -
  from assms(1) log_neighbours_farey
  have o: "P * q - p * Q = 1" "0 < p" "0 < q" "0 < P" "0 < Q" "1 < r" "2048 < q + Q"
      "p * 2 ^ 24 < mul_log2_radix_table ! nat (r - 2) * q"
      "mul_log2_radix_table ! nat (r - 2) * Q < P * 2 ^ 24" "r AND (r - 1) \<noteq> 0"
    by (auto simp: list_all_iff)
  from assms(1) log_neighbours_powers have "below_pow2 r p q" "above_pow2 r P Q"
    by (auto simp: list_all_iff)
  then have "r ^ nat p < 2 ^ nat q" "2 ^ nat Q < r ^ nat P"
    using o by (simp_all add: below_pow2_less above_pow2_less)
  moreover have "r = int (nat r)" using o by simp
  ultimately have w: "nat r ^ nat p < 2 ^ nat q" "2 ^ nat Q < nat r ^ nat P"
    by (metis of_nat_less_iff of_nat_numeral of_nat_power)+
  have "\<lfloor>a / log 2 (real (nat r))\<rfloor> = (a * (mul_log2_radix_table ! nat (r - 2))) div 2 ^ 24"
    by (rule log_row [OF w]) (use o assms(2) in \<open>simp_all flip: nat_add_distrib\<close>)
  then show ?thesis using o by (simp add: mul_log2_radix_def Let_def)
qed

lemma mul_log2_radix_pow2:
  "k \<in> {1, 2, 3, 4, 5} \<Longrightarrow> mul_log2_radix a (2 ^ k) = \<lfloor>a / log 2 (2 ^ k)\<rfloor>"
proof -
  assume k: "k \<in> {1, 2, 3, 4, 5}"
  then have "mul_log2_radix a (2 ^ k) = (if a < 0 then a - (int k - 1) else a) sdiv int k"
    by (elim insertE) (simp_all add: mul_log2_radix_def clz32_def Let_def)
  then show ?thesis using pow2_row [of k a] k by auto
qed

text \<open>
  The digit estimate is exact: for every radix from 2 to 36 and every exponent of a double,
  \<open>mul_log2_radix a radix\<close> is the floor of $a / \log_2 radix$, though it is computed with a 24-bit
  table (and by a corrected truncating division for powers of two).\<close>

theorem mul_log2_radix_exact:
  assumes "2 \<le> radix" "radix \<le> 36" "- 2048 \<le> a" "a \<le> 2047"
  shows "mul_log2_radix a radix = \<lfloor>a / log 2 (real_of_int radix)\<rfloor>"
proof -
  have a: "\<bar>a\<bar> \<le> 2048" using assms(3,4) by simp
  show ?thesis
  proof (cases "radix \<in> set (map fst log_neighbours)")
    case True
    then obtain p q P Q where "(radix, p, q, P, Q) \<in> set log_neighbours" by auto
    then show ?thesis by (rule mul_log2_radix_row [OF _ a])
  next
    case False
    with log_neighbours_radix [OF assms(1,2)]
    have "radix \<in> {2 ^ 1, 2 ^ 2, 2 ^ 3, 2 ^ 4, 2 ^ 5}" by blast
    then obtain k :: nat where k: "k \<in> {1, 2, 3, 4, 5}" "radix = 2 ^ k" by blast
    then show ?thesis using mul_log2_radix_pow2 [OF k(1), of a] by simp
  qed
qed

theorem mul_log2_radix_exact_witness:
  "mul_log2_radix (- 1074) 10 = \<lfloor>- 1074 / log 2 10\<rfloor> \<and> mul_log2_radix (- 1074) 10 = - 324"
  using mul_log2_radix_exact [of 10 "- 1074"] by (simp add: mul_log2_radix_def mul_log2_radix_table_def)

end
