(* ===== verification/UniIndex.thy ===== *)
theory UniIndex
  imports Prelude
begin

text \<open>
  The compressed code point tables of \<^verbatim>\<open>quickjs/libunicode.c\<close>: a table is a byte string of run
  lengths of code points outside and inside a set, an index gives a position in the table for
  every 32 bytes of it. \<open>get_index_pos\<close> finds the block by binary search and
  \<open>lre_is_in_table\<close> scans from there. The reference is the scan of the whole table from its
  first byte; the two agree for a consistent index, which is an executable condition.
\<close>

section \<open>The code\<close>

definition get_le24 :: "u8 list \<Rightarrow> nat \<Rightarrow> u32 option" where
  "get_le24 ptr p = do {
     a \<leftarrow> rd ptr p; b \<leftarrow> rd ptr (p + 1); c \<leftarrow> rd ptr (p + 2);
     Some (ucast a OR push_bit 8 (ucast b) OR push_bit 16 (ucast c)) }"

text \<open>The binary search; \<open>idx_min\<close> at its end.\<close>

function index_loop :: "u32 \<Rightarrow> u8 list \<Rightarrow> nat \<Rightarrow> nat \<Rightarrow> nat option" where
  "index_loop c index_table idx_min idx_max =
     (if idx_max - idx_min > 1 then
        let idx = (idx_max + idx_min) div 2 in do {
          v \<leftarrow> get_le24 index_table (idx * 3);
          let code = v AND (push_bit 21 1 - 1);
          if c < code then index_loop c index_table idx_min idx
          else index_loop c index_table idx idx_max }
      else Some idx_min)"
  by pat_completeness auto
termination by (relation "measure (\<lambda>(c, t, idx_min, idx_max). idx_max - idx_min)") auto

declare index_loop.simps [simp del]

text \<open>The position, -1 if the code point is beyond the table, and the code point it stands for.\<close>

definition get_index_pos :: "u32 \<Rightarrow> u8 list \<Rightarrow> nat \<Rightarrow> (int \<times> u32) option" where
  "get_index_pos c index_table index_table_len = do {
     v \<leftarrow> get_le24 index_table 0;
     let code = v AND (push_bit 21 1 - 1);
     if c < code then Some (0, 0)
     else do {
       let idx_max = index_table_len - 1;
       code \<leftarrow> get_le24 index_table (idx_max * 3);
       if c \<ge> code then Some (-1, 0)
       else do {
         idx_min \<leftarrow> index_loop c index_table 0 idx_max;
         v \<leftarrow> get_le24 index_table (idx_min * 3);
         Some (int ((idx_min + 1) * 32 + unat (drop_bit 21 v)), v AND (push_bit 21 1 - 1)) } } }"

text \<open>The scan, on the bytes from \<open>p\<close> on.\<close>

fun table_scan :: "u32 \<Rightarrow> u32 \<Rightarrow> bool \<Rightarrow> u8 list \<Rightarrow> bool option" where
  "table_scan c code flag [] = None"
| "table_scan c code flag (b # p) =
     (if b < 64 then
        let code = code + ucast (drop_bit 3 b) + 1
        in if c < code then Some flag
           else let flag = (\<not> flag); code = code + ucast (b AND 7) + 1
                in if c < code then Some flag else table_scan c code (\<not> flag) p
      else if b \<ge> 0x80 then
        let code = code + (ucast b - 0x80 + 1)
        in if c < code then Some flag else table_scan c code (\<not> flag) p
      else if b < 0x60 then
        (case p of
           p0 # p \<Rightarrow>
             let code = code + ((push_bit 8 (ucast b - 0x40) OR ucast p0) + 1)
             in if c < code then Some flag else table_scan c code (\<not> flag) p
         | _ \<Rightarrow> None)
      else
        (case p of
           p0 # p1 # p \<Rightarrow>
             let code = code + ((push_bit 16 (ucast b - 0x60) OR push_bit 8 (ucast p0) OR ucast p1) + 1)
             in if c < code then Some flag else table_scan c code (\<not> flag) p
         | _ \<Rightarrow> None))"

definition lre_is_in_table :: "u32 \<Rightarrow> u8 list \<Rightarrow> u8 list \<Rightarrow> nat \<Rightarrow> bool option" where
  "lre_is_in_table c table index_table index_table_len = do {
     (pos, code) \<leftarrow> get_index_pos c index_table index_table_len;
     if pos < 0 then Some False
     else table_scan c code False (drop (nat pos) table) }"

section \<open>The runs of a table\<close>

text \<open>
  An item of a table: how many bytes it has, the one or two run lengths it stands for, and the
  bytes after it.
\<close>

definition item :: "u8 \<Rightarrow> u8 list \<Rightarrow> ((int \<times> int list) \<times> u8 list) option" where
  "item b p =
     (if uint b < 64 then Some ((1, [uint b div 8 + 1, uint b mod 8 + 1]), p)
      else if 128 \<le> uint b then Some ((1, [uint b - 127]), p)
      else if uint b < 96 then
        (case p of
           p0 # p \<Rightarrow> Some ((2, [(uint b - 64) * 256 + uint p0 + 1]), p)
         | _ \<Rightarrow> None)
      else
        (case p of
           p0 # p1 # p \<Rightarrow> Some ((3, [(uint b - 96) * 65536 + uint p0 * 256 + uint p1 + 1]), p)
         | _ \<Rightarrow> None))"

lemma item_rest: "item b p = Some (it, r) \<Longrightarrow> length r \<le> length p"
  by (auto simp: item_def split: if_splits list.splits)

function items :: "u8 list \<Rightarrow> (int \<times> int list) list option" where
  "items [] = Some []"
| "items (b # p) =
     (case item b p of
        None \<Rightarrow> None
      | Some (it, r) \<Rightarrow> do { its \<leftarrow> items r; Some (it # its) })"
  by pat_completeness auto
termination by (relation "measure length") (auto dest: item_rest)

definition lens :: "(int \<times> int list) list \<Rightarrow> int list" where
  "lens its = concat (map snd its)"

definition nbytes :: "(int \<times> int list) list \<Rightarrow> int" where
  "nbytes its = sum_list (map fst its)"

text \<open>The reference: walk the runs, which alternate between outside and inside.\<close>

fun in_runs :: "int \<Rightarrow> int \<Rightarrow> bool \<Rightarrow> int list \<Rightarrow> bool option" where
  "in_runs x code flag [] = None"
| "in_runs x code flag (n # ns) =
     (if x < code + n then Some flag else in_runs x (code + n) (\<not> flag) ns)"

definition in_table_ref :: "u32 \<Rightarrow> u8 list \<Rightarrow> bool" where
  "in_table_ref c table =
     (case items table of None \<Rightarrow> False | Some its \<Rightarrow> in_runs (uint c) 0 False (lens its) = Some True)"

lemma lens_simps [simp]: "lens [] = []" "lens ((k, ls) # its) = ls @ lens its"
    "lens (xs @ ys) = lens xs @ lens ys"
  by (simp_all add: lens_def)

lemma nbytes_simps [simp]: "nbytes [] = 0" "nbytes ((k, ls) # its) = k + nbytes its"
    "nbytes (xs @ ys) = nbytes xs + nbytes ys"
  by (simp_all add: nbytes_def)

lemma in_runs_append:
  "\<forall>n \<in> set xs. 0 < n \<Longrightarrow> code + sum_list xs \<le> x \<Longrightarrow>
    in_runs x code flag (xs @ ys) = in_runs x (code + sum_list xs) (flag \<noteq> odd (length xs)) ys"
proof (induction xs arbitrary: code flag)
  case (Cons n xs)
  have "0 \<le> sum_list xs" using Cons(2) by (intro sum_list_nonneg) fastforce
  then have "\<not> x < code + n" using Cons(3) by simp
  with Cons show ?case by (cases flag) (simp_all add: add.assoc)
qed simp

lemma in_runs_prefix:
  "x < code + sum_list xs \<Longrightarrow> xs \<noteq> [] \<Longrightarrow> in_runs x code flag (xs @ ys) = in_runs x code flag xs"
proof (induction xs arbitrary: code flag)
  case (Cons n xs)
  show ?case
  proof (cases "x < code + n")
    case False
    then have "xs \<noteq> []" "x < code + n + sum_list xs" using Cons(2) by (auto simp: add.assoc)
    with Cons(1) False show ?thesis by simp
  qed simp
qed simp

lemma in_runs_defined:
  "x < code + sum_list xs \<Longrightarrow> in_runs x code flag xs \<noteq> None \<or> xs = []"
proof (induction xs arbitrary: code flag)
  case (Cons n xs)
  show ?case
  proof (cases "x < code + n")
    case False
    with Cons(2) have "x < code + n + sum_list xs" by (simp add: add.assoc)
    moreover from False Cons(2) have "xs \<noteq> []" by auto
    ultimately show ?thesis using Cons(1) [of "code + n" "\<not> flag"] False by simp
  qed simp
qed simp

lemma uint8_bounds: "0 \<le> uint (b :: u8)" "uint (b :: u8) < 256"
  using unsigned_less [of b, where 'a = int] by simp_all

text \<open>The shapes of an item.\<close>

lemma item_cases [consumes 1, case_names two one_long two_byte three_byte]:
  assumes "item b p = Some ((k, ls), r)"
  obtains "uint b < 64" "k = 1" "ls = [uint b div 8 + 1, uint b mod 8 + 1]" "r = p"
    | "128 \<le> uint b" "k = 1" "ls = [uint b - 127]" "r = p"
    | p0 where "64 \<le> uint b" "uint b < 96" "k = 2" "p = p0 # r" "ls = [(uint b - 64) * 256 + uint p0 + 1]"
    | p0 p1 where "96 \<le> uint b" "uint b < 128" "k = 3" "p = p0 # p1 # r"
        "ls = [(uint b - 96) * 65536 + uint p0 * 256 + uint p1 + 1]"
  using assms by (auto simp: item_def split: if_splits list.splits)

lemma item_positive:
  assumes "item b p = Some ((k, ls), r)"
  shows "0 < k \<and> ls \<noteq> [] \<and> (\<forall>n \<in> set ls. 0 < n)"
  using assms
proof (cases rule: item_cases)
  case two
  then show ?thesis using uint8_bounds [of b] by (simp add: add_nonneg_pos pos_imp_zdiv_nonneg_iff)
next
  case (two_byte p0)
  then have "0 < (uint b - 64) * 256 + uint p0 + 1"
    by (intro add_nonneg_pos add_nonneg_nonneg mult_nonneg_nonneg) simp_all
  with two_byte show ?thesis by simp
next
  case (three_byte p0 p1)
  then have "0 < (uint b - 96) * 65536 + uint p0 * 256 + uint p1 + 1"
    by (intro add_nonneg_pos add_nonneg_nonneg mult_nonneg_nonneg) simp_all
  with three_byte show ?thesis by simp
qed simp_all

lemma item_bytes: "item b p = Some ((k, ls), r) \<Longrightarrow> r = drop (nat k) (b # p) \<and> nat k \<le> length (b # p)"
  by (auto simp: item_def numeral_eq_Suc split: if_splits list.splits)

lemma items_Cons: "items (b # p) = Some its \<Longrightarrow>
    \<exists>k ls r its'. item b p = Some ((k, ls), r) \<and> items r = Some its' \<and> its = (k, ls) # its'"
  by (auto simp: bind_Some_iff split: option.splits)

lemma items_positive: "items bs = Some its \<Longrightarrow> (\<forall>n \<in> set (lens its). 0 < n) \<and> (\<forall>(k, ls) \<in> set its. 0 < k)"
proof (induction bs arbitrary: its rule: items.induct)
  case (2 b p)
  from items_Cons [OF 2(2)] obtain k ls r its'
    where i: "item b p = Some ((k, ls), r)" "items r = Some its'" "its = (k, ls) # its'" by blast
  from 2(1) [OF i(1) refl i(2)] item_positive [OF i(1)] show ?case by (auto simp: i(3))
qed simp

lemma items_drop: "items bs = Some (xs @ ys) \<Longrightarrow> items (drop (nat (nbytes xs)) bs) = Some ys"
proof (induction bs arbitrary: xs rule: items.induct)
  case (2 b p)
  from items_Cons [OF 2(2)] obtain k ls r its'
    where i: "item b p = Some ((k, ls), r)" "items r = Some its'" "xs @ ys = (k, ls) # its'" by blast
  show ?case
  proof (cases xs)
    case (Cons a xs')
    with i have a: "a = (k, ls)" "its' = xs' @ ys" by simp_all
    have "items (drop (nat (nbytes xs')) r) = Some ys" using 2(1) [OF i(1) refl] i(2) a by simp
    moreover have "\<forall>(k, ls) \<in> set xs'. 0 < k" using items_positive [OF i(2)] by (auto simp: a(2))
    then have "0 \<le> nbytes xs'" by (induction xs') auto
    ultimately show ?thesis
      using item_bytes [OF i(1)] item_positive [OF i(1)] by (simp add: Cons a(1) nat_add_distrib add.commute)
  qed (use 2(2) in simp)
qed simp

lemma uint_add_small: "uint a + uint b < 4294967296 \<Longrightarrow> uint (a + b :: u32) = uint a + uint b"
  by (simp add: uint_word_ariths take_bit_int_eq_self)

lemma code_plus:
  fixes code n :: u32
  assumes "uint code + uint n < 4294967296"
  shows "code + n = word_of_int (uint code + uint n)" "c < code + n \<longleftrightarrow> uint c < uint code + uint n"
  using uint_add_small [OF assms] by (simp_all add: word_less_def flip: word_of_int_uint)

lemma uint_ucast8: "uint (ucast (b :: u8) :: u32) = uint b"
  using uint8_bounds [of b] by (simp add: unsigned_ucast_eq take_bit_int_eq_self)

lemma uint_shl8: "uint x < 16777216 \<Longrightarrow> uint (push_bit 8 (x :: u32)) = 256 * uint x"
  unfolding unsigned_push_bit_eq by (simp add: take_bit_int_eq_self push_bit_eq_mult)

lemma int_or_add: "0 \<le> a \<Longrightarrow> a < 2 ^ k \<Longrightarrow> 0 \<le> b \<Longrightarrow> (a :: int) OR (b * 2 ^ k) = a + b * 2 ^ k"
proof -
  assume a: "0 \<le> a" "a < 2 ^ k" "0 \<le> b"
  then have "nat a < 2 ^ k" by (simp add: nat_less_iff)
  from nat_or_add [OF this, of "nat b"] have "int (nat a OR (nat b * 2 ^ k)) = int (nat a + nat b * 2 ^ k)" by simp
  then show ?thesis using a by (simp add: of_nat_or_eq)
qed

lemma uint_bytes2:
  assumes "uint (h :: u32) < 65536"
  shows "uint (push_bit 8 h OR ucast (p0 :: u8)) = uint h * 256 + uint p0"
proof -
  have "uint (ucast p0 :: u32) OR (uint h * 2 ^ 8) = uint p0 + uint h * 2 ^ 8"
    using uint8_bounds [of p0] unfolding uint_ucast8 by (intro int_or_add) simp_all
  then show ?thesis
    using assms by (simp add: unsigned_or_eq uint_shl8 or.commute mult.commute add.commute)
qed

lemma uint_byte_sub:
  assumes "uint n \<le> uint b"
  shows "uint (ucast (b :: u8) - (n :: u32)) = uint b - uint n"
proof -
  have "0 \<le> uint n" by simp
  then have "uint b - uint n < 4294967296" using uint8_bounds [of b] by linarith
  then show ?thesis using assms by (simp add: uint_word_ariths uint_ucast8 mod_pos_pos_trivial)
qed

lemma uint_of_small: "0 \<le> i \<Longrightarrow> i < 4294967296 \<Longrightarrow> uint (word_of_int i :: u32) = i"
  by (simp add: uint_word_of_int)

lemma one_run:
  assumes "uint m = n" "uint code + n < 4294967296"
    and t: "t = (if c < code + m then Some flag else table_scan c (code + m) (\<not> flag) r)"
  shows "t = (if uint c < uint code + sum_list [n] then in_runs (uint c) (uint code) flag [n]
     else table_scan c (word_of_int (uint code + sum_list [n])) (flag \<noteq> odd (length [n])) r)"
proof -
  have l: "uint code + uint m < 4294967296" using assms by simp
  have "code + m = word_of_int (uint code + n)" "c < code + m \<longleftrightarrow> uint c < uint code + n"
    using code_plus(1) [OF l] code_plus(2) [OF l, of c] by (simp_all only: assms(1))
  moreover have "(flag \<noteq> odd (length [n])) = (\<not> flag)" "sum_list [n] = n" by simp_all
  ultimately show ?thesis unfolding t by (simp only:) simp
qed

lemma uint_byte_parts:
  "uint (ucast (drop_bit 3 (b :: u8)) :: u32) = uint b div 8"
  "uint (ucast (b AND 7) :: u32) = uint b mod 8"
proof -
  have "b AND 7 = b AND mask 3" by (simp add: mask_eq_exp_minus_1)
  then have "uint (b AND 7) = uint b mod 8"
    by (simp only: take_bit_eq_mask [symmetric] unsigned_take_bit_eq) (simp add: take_bit_eq_mod)
  moreover have "uint (drop_bit 3 b) = uint b div 8"
    by (simp add: drop_bit_eq_div uint_div_distrib)
  ultimately show "uint (ucast (drop_bit 3 b) :: u32) = uint b div 8"
    "uint (ucast (b AND 7) :: u32) = uint b mod 8"
    unfolding uint_ucast8 by simp_all
qed

lemma uint_bytes3:
  assumes "uint (h :: u32) < 256"
  shows "uint (push_bit 16 h OR push_bit 8 (ucast (p0 :: u8)) OR ucast (p1 :: u8))
    = uint h * 65536 + uint p0 * 256 + uint p1"
proof -
  define m where "m = (push_bit 8 h OR ucast p0 :: u32)"
  have m: "uint m = uint h * 256 + uint p0" unfolding m_def using assms by (intro uint_bytes2) simp
  have "push_bit 16 h OR push_bit 8 (ucast p0) OR ucast p1 = (push_bit 8 m OR ucast p1 :: u32)"
    by (rule bit_word_eqI) (auto simp: m_def bit_simps)
  then show ?thesis
    using uint_bytes2 [of m p1] assms uint8_bounds [of p0] by (simp add: m)
qed

text \<open>One round of the scan is one item.\<close>

lemma table_scan_item:
  assumes "item b p = Some ((k, ls), r)" "uint code + sum_list ls < 4294967296"
  shows "table_scan c code flag (b # p) =
    (if uint c < uint code + sum_list ls then in_runs (uint c) (uint code) flag ls
     else table_scan c (word_of_int (uint code + sum_list ls)) (flag \<noteq> odd (length ls)) r)"
  using assms(1)
proof (cases rule: item_cases)
  case two
  define m n where "m = (ucast (drop_bit 3 b) + 1 :: u32)" and "n = (ucast (b AND 7) + 1 :: u32)"
  have mn: "uint m = uint b div 8 + 1" "uint n = uint b mod 8 + 1"
    using uint8_bounds [of b] unfolding m_def n_def
    by (subst uint_add_small; simp add: uint_byte_parts)+
  have c: "b < 64" using two by (simp add: word_less_def)
  have lt: "uint code + uint m + uint n < 4294967296" "0 \<le> uint n"
    using assms(2) two by (simp_all add: mn)
  then have l1: "uint code + uint m < 4294967296" by linarith
  have l2: "uint (code + m) + uint n < 4294967296" using lt(1) uint_add_small [OF l1] by simp
  have st: "table_scan c code flag (b # p) = (if c < code + m then Some flag
      else if c < code + m + n then Some (\<not> flag) else table_scan c (code + m + n) flag p)"
    using c by (simp only: table_scan.simps Let_def if_True m_def n_def add.assoc not_not)
  have c1: "c < code + m \<longleftrightarrow> uint c < uint code + (uint b div 8 + 1)"
    using code_plus(2) [OF l1, of c] by (simp only: mn)
  have c2: "code + m + n = word_of_int (uint code + sum_list ls)"
      "c < code + m + n \<longleftrightarrow> uint c < uint code + sum_list ls"
    using code_plus(1) [OF l2] code_plus(2) [OF l2, of c] uint_add_small [OF l1] mn two
    by (simp_all only: sum_list.Cons sum_list.Nil) (simp_all add: add.assoc)
  have n: "0 \<le> uint b mod 8" by simp
  show ?thesis
  proof (cases "uint c < uint code + sum_list ls")
    case True
    then show ?thesis unfolding st c1 c2(2) by (simp add: two(3))
  next
    case False
    then have "\<not> uint c < uint code + (uint b div 8 + 1)" using two(3) n by simp
    with False have "table_scan c code flag (b # p) = table_scan c (code + m + n) flag p"
      unfolding st c1 c2(2) by (simp only: if_False)
    moreover have "(flag \<noteq> odd (length ls)) = flag" by (simp add: two(3))
    ultimately show ?thesis using False by (simp only: if_False c2(1) two(4))
  qed
next
  case one_long
  define m where "m = (ucast b - 0x80 + 1 :: u32)"
  have "uint (ucast b - 0x80 :: u32) = uint b - 128" using one_long by (subst uint_byte_sub) simp_all
  then have m: "uint m = uint b - 127"
    using uint8_bounds [of b] unfolding m_def by (subst uint_add_small) simp_all
  have c: "\<not> b < 64" "b \<ge> 0x80" using one_long by (simp_all add: word_less_def word_le_def)
  have l: "uint code + (uint b - 127) < 4294967296" using assms(2) one_long by simp
  show ?thesis unfolding one_long(3)
    using c one_long by (intro one_run [OF m l]) (simp only: table_scan.simps Let_def if_True if_False
      list.case m_def)
next
  case (two_byte p0)
  define h m where "h = (ucast b - 0x40 :: u32)" and "m = ((push_bit 8 h OR ucast p0) + 1 :: u32)"
  have h: "uint h = uint b - 64" using two_byte unfolding h_def by (subst uint_byte_sub) simp_all
  have hp: "uint (push_bit 8 h OR ucast p0) = (uint b - 64) * 256 + uint p0"
    using two_byte by (subst uint_bytes2) (simp_all add: h)
  have m: "uint m = (uint b - 64) * 256 + uint p0 + 1"
    using two_byte uint8_bounds [of p0] unfolding m_def by (subst uint_add_small) (simp_all add: hp)
  have c: "\<not> b < 64" "\<not> b \<ge> 0x80" "b < 0x60" using two_byte by (simp_all add: word_less_def word_le_def)
  have l: "uint code + ((uint b - 64) * 256 + uint p0 + 1) < 4294967296" using assms(2) two_byte by simp
  show ?thesis unfolding two_byte(5)
    using c two_byte by (intro one_run [OF m l]) (simp only: table_scan.simps Let_def if_True if_False
      list.case h_def m_def)
next
  case (three_byte p0 p1)
  define h m where "h = (ucast b - 0x60 :: u32)"
    and "m = ((push_bit 16 h OR push_bit 8 (ucast p0) OR ucast p1) + 1 :: u32)"
  have h: "uint h = uint b - 96" using three_byte unfolding h_def by (subst uint_byte_sub) simp_all
  have hp: "uint (push_bit 16 h OR push_bit 8 (ucast p0) OR ucast p1) = (uint b - 96) * 65536 + uint p0 * 256 + uint p1"
    using three_byte by (subst uint_bytes3) (simp_all add: h)
  have m: "uint m = (uint b - 96) * 65536 + uint p0 * 256 + uint p1 + 1"
    using three_byte uint8_bounds [of p0] uint8_bounds [of p1] unfolding m_def
    by (subst uint_add_small) (simp_all add: hp)
  have c: "\<not> b < 64" "\<not> b \<ge> 0x80" "\<not> b < 0x60" using three_byte by (simp_all add: word_less_def word_le_def)
  have l: "uint code + ((uint b - 96) * 65536 + uint p0 * 256 + uint p1 + 1) < 4294967296" using assms(2) three_byte by simp
  show ?thesis unfolding three_byte(5)
    using c three_byte by (intro one_run [OF m l]) (simp only: table_scan.simps Let_def if_True if_False
      list.case h_def m_def)
qed

text \<open>The whole scan walks the runs.\<close>

lemma table_scan_runs:
  "items bs = Some its \<Longrightarrow> uint code + sum_list (lens its) < 4294967296 \<Longrightarrow>
    table_scan c code flag bs = in_runs (uint c) (uint code) flag (lens its)"
proof (induction bs arbitrary: its code flag rule: items.induct)
  case (2 b p)
  from items_Cons [OF 2(2)] obtain k ls r its'
    where i: "item b p = Some ((k, ls), r)" "items r = Some its'" "its = (k, ls) # its'" by blast
  have pos: "\<forall>n \<in> set ls. 0 < n" "\<forall>n \<in> set (lens its'). 0 < n"
    using item_positive [OF i(1)] items_positive [OF i(2)] by simp_all
  then have s: "0 \<le> sum_list ls" "0 \<le> sum_list (lens its')" by (intro sum_list_nonneg; fastforce)+
  then have lt: "uint code + sum_list ls < 4294967296" using 2(3) by (simp add: i(3))
  note step = table_scan_item [OF i(1) lt, of c flag]
  show ?case
  proof (cases "uint c < uint code + sum_list ls")
    case True
    have "ls \<noteq> []" using item_positive [OF i(1)] by simp
    with True have "in_runs (uint c) (uint code) flag (ls @ lens its') = in_runs (uint c) (uint code) flag ls"
      by (simp add: in_runs_prefix)
    with True step show ?thesis by (simp add: i(3))
  next
    case False
    have u: "uint (word_of_int (uint code + sum_list ls) :: u32) = uint code + sum_list ls"
      using lt s by (intro uint_of_small) simp_all
    have "table_scan c (word_of_int (uint code + sum_list ls)) (flag \<noteq> odd (length ls)) r
      = in_runs (uint c) (uint code + sum_list ls) (flag \<noteq> odd (length ls)) (lens its')"
      using 2(1) [OF i(1) refl i(2), of "word_of_int (uint code + sum_list ls)"] 2(3) u
      by (simp add: i(3) add.assoc)
    with False step in_runs_append [OF pos(1), of "uint code" "uint c" flag "lens its'"] show ?thesis
      by (simp add: i(3))
  qed
qed simp

section \<open>The index\<close>

text \<open>
  The marks of an index, ending with the sentinel for the end of the table, and the test that
  each mark is met by the scan of the table outside a set.
\<close>

fun le24s :: "u8 list \<Rightarrow> int list" where
  "le24s (a # b # c # r) = (uint a + uint b * 256 + uint c * 65536) # le24s r"
| "le24s _ = []"

fun marks_from :: "int \<Rightarrow> int list \<Rightarrow> (int \<times> int) list" where
  "marks_from i [] = []"
| "marks_from i (v # vs) = ((i + 1) * 32 + v div 2097152, v mod 2097152) # marks_from (i + 1) vs"

fun marks_met :: "int \<Rightarrow> int \<Rightarrow> bool \<Rightarrow> (int \<times> int) list \<Rightarrow> (int \<times> int list) list \<Rightarrow> bool" where
  "marks_met pos code flag ms [] \<longleftrightarrow> ms = [(pos, code)] \<and> \<not> flag"
| "marks_met pos code flag ms ((k, ls) # its) \<longleftrightarrow>
     (case ms of
        [] \<Rightarrow> False
      | (p, c) # r \<Rightarrow>
          if p = pos then c = code \<and> \<not> flag
            \<and> marks_met (pos + k) (code + sum_list ls) (flag \<noteq> odd (length ls)) r its
          else marks_met (pos + k) (code + sum_list ls) (flag \<noteq> odd (length ls)) ms its)"

definition index_ok :: "u8 list \<Rightarrow> u8 list \<Rightarrow> bool" where
  "index_ok table index \<longleftrightarrow>
     (let es = le24s index in
      es \<noteq> [] \<and> last es < 2097152
      \<and> sorted_wrt (<) (map (\<lambda>v. v mod 2097152) es)
      \<and> (case items table of
           None \<Rightarrow> False
         | Some its \<Rightarrow>
             marks_met 0 0 False (marks_from 0 (butlast es) @ [(int (length table), last es)]) its))"

lemma marks_met_split:
  "marks_met pos code flag ms its \<Longrightarrow> (p, c) \<in> set ms \<Longrightarrow>
    \<exists>xs ys. its = xs @ ys \<and> p = pos + nbytes xs \<and> c = code + sum_list (lens xs)
      \<and> (flag = odd (length (lens xs)))"
proof (induction pos code flag ms its rule: marks_met.induct)
  case (2 pos code flag ms k ls its)
  from 2(3) obtain p' c' r where ms: "ms = (p', c') # r"
    by (auto split: list.splits)
  show ?case
  proof (cases "p' = pos")
    case True
    with 2(3) ms have m: "c' = code" "\<not> flag"
        "marks_met (pos + k) (code + sum_list ls) (flag \<noteq> odd (length ls)) r its" by auto
    show ?thesis
    proof (cases "(p, c) = (p', c')")
      case True
      with m \<open>p' = pos\<close> have "(k, ls) # its = [] @ (k, ls) # its \<and> p = pos + nbytes []
          \<and> c = code + sum_list (lens []) \<and> flag = odd (length (lens []))" by simp
      then show ?thesis by blast
    next
      case False
      with 2(4) ms have "(p, c) \<in> set r" by auto
      from 2(1) [OF ms refl \<open>p' = pos\<close> m(3) this] obtain xs ys where
        "its = xs @ ys" "p = pos + k + nbytes xs" "c = code + sum_list ls + sum_list (lens xs)"
        "(flag \<noteq> odd (length ls)) = odd (length (lens xs))" by blast
      then show ?thesis by (intro exI [of _ "(k, ls) # xs"] exI [of _ ys]) auto
    qed
  next
    case False
    with 2(3) ms have "marks_met (pos + k) (code + sum_list ls) (flag \<noteq> odd (length ls)) ms its" by auto
    from 2(2) [OF ms refl False this 2(4)] obtain xs ys where
      "its = xs @ ys" "p = pos + k + nbytes xs" "c = code + sum_list ls + sum_list (lens xs)"
      "(flag \<noteq> odd (length ls)) = odd (length (lens xs))" by blast
    then show ?thesis by (intro exI [of _ "(k, ls) # xs"] exI [of _ ys]) auto
  qed
qed auto

lemma marks_met_total:
  "marks_met pos code flag ms its \<Longrightarrow> ms \<noteq> [] \<and> last ms = (pos + nbytes its, code + sum_list (lens its))"
proof (induction pos code flag ms its rule: marks_met.induct)
  case (2 pos code flag ms k ls its)
  from 2(3) obtain p' c' r where ms: "ms = (p', c') # r" by (auto split: list.splits)
  from 2(3) consider "p' = pos" "marks_met (pos + k) (code + sum_list ls) (flag \<noteq> odd (length ls)) r its"
    | "p' \<noteq> pos" "marks_met (pos + k) (code + sum_list ls) (flag \<noteq> odd (length ls)) ms its"
    by (auto simp: ms split: if_splits)
  then show ?case
  proof cases
    case 1
    from 2(1) [OF ms refl 1] show ?thesis by (simp add: ms add.assoc)
  next
    case miss: 2
    from 2(2) [OF ms refl miss] show ?thesis by (simp add: add.assoc)
  qed
qed simp

lemma le24s_length: "length (le24s ix) = length ix div 3"
  by (induction ix rule: le24s.induct) simp_all

lemma get_le24_value:
  "i < length (le24s ix) \<Longrightarrow> \<exists>v. get_le24 ix (i * 3) = Some v \<and> uint v = le24s ix ! i"
proof (induction ix arbitrary: i rule: le24s.induct)
  case (1 a b c r)
  show ?case
  proof (cases i)
    case 0
    define v where "v = (push_bit 16 (ucast c) OR push_bit 8 (ucast b) OR ucast a :: u32)"
    have "uint (ucast c :: u32) < 256" using uint8_bounds [of c] by (simp add: uint_ucast8)
    from uint_bytes3 [OF this, of b a] have "uint v = uint c * 65536 + uint b * 256 + uint a"
      by (simp add: v_def uint_ucast8)
    moreover have "get_le24 (a # b # c # r) 0 = Some v"
      by (simp add: get_le24_def rd_def v_def or.commute or.left_commute or.assoc)
    ultimately show ?thesis using 0 by simp
  next
    case (Suc j)
    with 1 obtain v where "get_le24 r (j * 3) = Some v" "uint v = le24s r ! j" by fastforce
    then show ?thesis using Suc by (simp add: get_le24_def rd_def split: if_splits)
  qed
qed simp_all

definition code_at :: "u8 list \<Rightarrow> nat \<Rightarrow> int" where
  "code_at ix i = le24s ix ! i mod 2097152"

lemma uint_low21: "uint (v AND (push_bit 21 1 - 1) :: u32) = uint v mod 2097152"
proof -
  have "v AND (push_bit 21 1 - 1) = take_bit 21 v" by (simp add: take_bit_eq_mask mask_eq_exp_minus_1)
  then show ?thesis by (simp only: unsigned_take_bit_eq) (simp add: take_bit_eq_mod)
qed

lemma index_loop_value:
  "idx_min < idx_max \<Longrightarrow> idx_max < length (le24s ix) \<Longrightarrow> code_at ix idx_min \<le> uint c \<Longrightarrow>
    uint c < code_at ix idx_max \<Longrightarrow>
    \<exists>k. index_loop c ix idx_min idx_max = Some k \<and> idx_min \<le> k \<and> Suc k \<le> idx_max
      \<and> code_at ix k \<le> uint c \<and> uint c < code_at ix (Suc k)"
proof (induction c ix idx_min idx_max rule: index_loop.induct)
  case (1 c ix idx_min idx_max)
  show ?case
  proof (cases "idx_max - idx_min > 1")
    case True
    define idx where "idx = (idx_max + idx_min) div 2"
    have i: "idx_min < idx" "idx < idx_max" using True by (auto simp: idx_def)
    then have "idx < length (le24s ix)" using 1(4) by simp
    then obtain v where v: "get_le24 ix (idx * 3) = Some v" "uint v = le24s ix ! idx"
      using get_le24_value by blast
    have cd: "uint (v AND (push_bit 21 1 - 1)) = code_at ix idx"
      by (simp only: uint_low21 v(2) code_at_def)
    have e: "index_loop c ix idx_min idx_max =
        (if uint c < code_at ix idx then index_loop c ix idx_min idx else index_loop c ix idx idx_max)"
      using True v(1) by (subst index_loop.simps) (simp add: idx_def [symmetric] Let_def word_less_def cd [simplified])
    show ?thesis
    proof (cases "uint c < code_at ix idx")
      case True': True
      have "c < v AND (push_bit 21 1 - 1)" using True' by (simp only: word_less_def cd)
      from 1(1) [OF True idx_def v(1) refl this i(1) _ 1(5) True'] 1(4) i
      show ?thesis unfolding e using True' by fastforce
    next
      case False
      then have "\<not> c < v AND (push_bit 21 1 - 1)" unfolding word_less_def cd .
      from 1(2) [OF True idx_def v(1) refl this i(2) 1(4) _ 1(6)] False i
      show ?thesis unfolding e by fastforce
    qed
  next
    case False
    then have "idx_max = Suc idx_min" using 1(3) by simp
    with 1 False show ?thesis by (subst index_loop.simps) simp
  qed
qed

lemma in_runs_beyond:
  "\<forall>n \<in> set xs. 0 < n \<Longrightarrow> code + sum_list xs \<le> x \<Longrightarrow> in_runs x code flag xs = None"
  using in_runs_append [of xs code x flag "[]"] by simp

lemma marks_from_nth:
  "k < length es \<Longrightarrow> ((i + int k + 1) * 32 + es ! k div 2097152, es ! k mod 2097152) \<in> set (marks_from i es)"
proof (induction es arbitrary: i k)
  case (Cons v vs)
  show ?case
  proof (cases k)
    case (Suc j)
    with Cons have "((i + 1 + int j + 1) * 32 + vs ! j div 2097152, vs ! j mod 2097152) \<in> set (marks_from (i + 1) vs)"
      using Cons(1) [of j "i + 1"] by simp
    moreover have "i + 1 + int j + 1 = i + int k + 1" using Suc by simp
    ultimately show ?thesis using Suc by simp
  qed simp
qed simp

lemma lre_is_in_table_value:
  assumes "index_ok table ix"
  shows "lre_is_in_table c table ix (length ix div 3) = Some (in_table_ref c table)"
proof -
  define es where "es = le24s ix"
  from assms obtain its where its: "items table = Some its"
    and es: "es \<noteq> []" "last es < 2097152" "sorted_wrt (<) (map (\<lambda>v. v mod 2097152) es)"
    and met: "marks_met 0 0 False (marks_from 0 (butlast es) @ [(int (length table), last es)]) its"
    by (auto simp: index_ok_def es_def Let_def split: option.splits)
  define n where "n = length es"
  have "0 < n" using es(1) unfolding n_def by simp
  then have n: "0 < n" "length ix div 3 = n" by (simp_all add: n_def es_def le24s_length)
  have pos: "\<forall>k \<in> set (lens its). 0 < k" using items_positive [OF its] by simp
  have total: "sum_list (lens its) = last es" using marks_met_total [OF met] by simp
  have scan: "table_scan c 0 False table = in_runs (uint c) 0 False (lens its)"
    using table_scan_runs [OF its, of 0 c False] total es(2) by simp
  have ref: "in_table_ref c table = (in_runs (uint c) 0 False (lens its) = Some True)"
    by (simp add: in_table_ref_def its)
  have nn: "0 \<le> last es" using total pos by (metis sum_list_nonneg less_imp_le)
  have last: "code_at ix (n - 1) = last es"
    using es nn by (simp add: code_at_def es_def [symmetric] n_def last_conv_nth mod_pos_pos_trivial)
  have "0 < length (le24s ix)" "n - 1 < length (le24s ix)" using n by (simp_all add: n_def es_def)
  then obtain v0 vl where v0: "get_le24 ix 0 = Some v0" "uint v0 = le24s ix ! 0"
      and vl: "get_le24 ix ((n - 1) * 3) = Some vl" "uint vl = le24s ix ! (n - 1)"
    using get_le24_value by (metis mult_0)
  have vl': "uint vl = last es" using vl(2) es(1) by (simp add: es_def n_def last_conv_nth)
  have c0: "c < v0 AND (push_bit 21 1 - 1) \<longleftrightarrow> uint c < code_at ix 0"
    by (simp only: word_less_def uint_low21 v0(2) code_at_def)
  have cl: "c \<ge> vl \<longleftrightarrow> last es \<le> uint c" by (simp add: word_le_def vl')
  have mono: "code_at ix 0 \<le> last es"
  proof (cases "n = 1")
    case False
    then have "1 < n" using n(1) by linarith
    then have i: "0 < n - 1" "n - 1 < length es" "0 < length es" unfolding n_def by linarith+
    then have "code_at ix 0 < code_at ix (n - 1)"
      using sorted_wrt_nth_less [OF es(3), of 0 "n - 1"] by (simp add: es_def code_at_def)
    then show ?thesis using last by simp
  qed (use last in simp)
  consider "uint c < code_at ix 0" | "code_at ix 0 \<le> uint c" "last es \<le> uint c"
    | "code_at ix 0 \<le> uint c" "uint c < last es" by linarith
  then show ?thesis
  proof cases
    case 1
    then have "uint c < 0 + sum_list (lens its)" using mono total by simp
    moreover from this have "lens its \<noteq> []" by auto
    ultimately obtain b where "in_runs (uint c) 0 False (lens its) = Some b"
      using in_runs_defined by blast
    then show ?thesis using 1
      by (simp add: lre_is_in_table_def get_index_pos_def v0 Let_def c0 [simplified] scan ref)
  next
    case 2
    then have "in_runs (uint c) 0 False (lens its) = None" using pos total by (intro in_runs_beyond) simp_all
    then show ?thesis using 2
      by (simp add: lre_is_in_table_def get_index_pos_def v0 vl [simplified] n Let_def c0 [simplified] cl [simplified] ref)
  next
    case 3
    have "0 < n - 1"
    proof (rule ccontr)
      assume "\<not> 0 < n - 1"
      then have "n - 1 = 0" by simp
      with last 3 show False by simp
    qed
    with index_loop_value [of 0 "n - 1" ix c] 3 last n obtain k where
      k: "index_loop c ix 0 (n - 1) = Some k" "Suc k \<le> n - 1" "code_at ix k \<le> uint c"
      by (auto simp: n_def es_def)
    then have kn: "k < length (le24s ix)" using n by (simp add: n_def es_def)
    then obtain v where v: "get_le24 ix (k * 3) = Some v" "uint v = le24s ix ! k"
      using get_le24_value by blast
    define q where "q = int ((k + 1) * 32 + unat (drop_bit 21 v))"
    have "uint (drop_bit 21 v) = uint v div 2097152" by (simp add: drop_bit_eq_div uint_div_distrib)
    then have q: "q = (int k + 1) * 32 + es ! k div 2097152"
      by (simp add: q_def v(2) es_def)
    define w where "w = v AND (push_bit 21 1 - 1 :: u32)"
    have w: "uint w = code_at ix k" by (simp only: w_def uint_low21 v(2) code_at_def)
    have "k < length (butlast es)" "butlast es ! k = es ! k"
      using k(2) by (simp_all add: n_def nth_butlast)
    with marks_from_nth [of k "butlast es" 0] have
      "(q, code_at ix k) \<in> set (marks_from 0 (butlast es) @ [(int (length table), last es)])"
      by (simp add: q code_at_def es_def)
    from marks_met_split [OF met this] obtain xs ys where
      s: "its = xs @ ys" "q = nbytes xs" "code_at ix k = sum_list (lens xs)" "\<not> odd (length (lens xs))"
      by auto
    have d: "items (drop (nat q) table) = Some ys" unfolding s(2) by (rule items_drop) (use its s(1) in simp)
    have "in_runs (uint c) 0 False (lens its) = in_runs (uint c) (code_at ix k) False (lens ys)"
      using in_runs_append [of "lens xs" 0 "uint c" False "lens ys"] pos s k(3) by simp
    moreover have "table_scan c w False (drop (nat q) table) = in_runs (uint c) (code_at ix k) False (lens ys)"
      using table_scan_runs [OF d, of w c False] total es(2) s w by simp
    moreover obtain b where "in_runs (uint c) 0 False (lens its) = Some b"
      using in_runs_defined [of "uint c" 0 "lens its" False] 3 total es(1) s by fastforce
    moreover have "get_index_pos c ix n = Some (q, w)" using 3
      by (simp add: get_index_pos_def v0 vl [simplified] Let_def c0 [simplified] cl [simplified]
          k(1) [simplified] v(1) q_def w_def)
    moreover have "\<not> q < 0" unfolding q_def not_less by (rule of_nat_0_le_iff)
    ultimately have "lre_is_in_table c table ix (length ix div 3) = Some b"
      "in_runs (uint c) 0 False (lens its) = Some b"
      by (simp_all add: lre_is_in_table_def n(2))
    then show ?thesis by (simp add: ref)
  qed
qed

section \<open>Checking an index block by block\<close>

text \<open>
  The marks are checked on the bytes themselves, in blocks of a table that end between two
  items: the position, the code point, the side and the marks still to be met after a block.
\<close>

function walk :: "int \<Rightarrow> int \<Rightarrow> bool \<Rightarrow> (int \<times> int) list \<Rightarrow> u8 list \<Rightarrow>
    (int \<times> int \<times> bool \<times> (int \<times> int) list) option" where
  "walk pos code flag ms [] = Some (pos, code, flag, ms)"
| "walk pos code flag ms (b # p) =
     (case item b p of
        None \<Rightarrow> None
      | Some ((k, ls), r) \<Rightarrow>
          (case ms of
             [] \<Rightarrow> None
           | (q, c) # ms' \<Rightarrow>
               if q = pos then
                 if c = code \<and> \<not> flag
                 then walk (pos + k) (code + sum_list ls) (flag \<noteq> odd (length ls)) ms' r
                 else None
               else walk (pos + k) (code + sum_list ls) (flag \<noteq> odd (length ls)) ms r))"
  by pat_completeness auto
termination by (relation "measure (\<lambda>(pos, code, flag, ms, bs). length bs)") (auto dest: item_rest)

lemma item_append: "item b p = Some (it, r) \<Longrightarrow> item b (p @ q) = Some (it, r @ q)"
  by (auto simp: item_def split: if_splits list.splits)

lemma walk_append:
  "walk pos code flag ms xs = Some (pos', code', flag', ms') \<Longrightarrow>
    walk pos code flag ms (xs @ ys) = walk pos' code' flag' ms' ys"
  by (induction pos code flag ms xs rule: walk.induct)
    (auto simp: item_append split: option.splits list.splits if_splits)

lemma walk_met:
  "walk pos code flag ms bs = Some (pos', code', False, [(pos', code')]) \<Longrightarrow>
    \<exists>its. items bs = Some its \<and> marks_met pos code flag ms its"
proof (induction pos code flag ms bs rule: walk.induct)
  case (2 pos code flag ms b p)
  from 2(3) obtain k ls r q c ms' where i: "item b p = Some ((k, ls), r)" "ms = (q, c) # ms'"
    by (auto split: option.splits list.splits)
  have pair: "((k, ls), r) = ((k, ls), r)" "(k, ls) = (k, ls)" by simp_all
  show ?case
  proof (cases "q = pos")
    case True
    with 2(3) i have m: "c = code \<and> \<not> flag"
        "walk (pos + k) (code + sum_list ls) (flag \<noteq> odd (length ls)) ms' r = Some (pos', code', False, [(pos', code')])"
      by (auto split: if_splits)
    from 2(1) [OF i(1) pair i(2) refl True m] obtain its where
      "items r = Some its" "marks_met (pos + k) (code + sum_list ls) (flag \<noteq> odd (length ls)) ms' its" by blast
    with i m True show ?thesis by (intro exI [of _ "(k, ls) # its"]) simp
  next
    case False
    with 2(3) i have m:
        "walk (pos + k) (code + sum_list ls) (flag \<noteq> odd (length ls)) ms r = Some (pos', code', False, [(pos', code')])"
      by (auto split: if_splits)
    from 2(2) [OF i(1) pair i(2) refl False m] obtain its where
      "items r = Some its" "marks_met (pos + k) (code + sum_list ls) (flag \<noteq> odd (length ls)) ms its" by blast
    with i False show ?thesis by (intro exI [of _ "(k, ls) # its"]) simp
  qed
qed simp

lemma item_length: "item b p = Some ((k, ls), r) \<Longrightarrow> int (length r) = 1 + int (length p) - k"
  by (erule item_cases) simp_all

lemma walk_length:
  "walk pos code flag ms bs = Some (pos', st) \<Longrightarrow> pos' = pos + int (length bs)"
proof (induction pos code flag ms bs rule: walk.induct)
  case (2 pos code flag ms b p)
  from 2(3) obtain k ls r q c ms' where i: "item b p = Some ((k, ls), r)" "ms = (q, c) # ms'"
    by (auto split: option.splits list.splits)
  have pair: "((k, ls), r) = ((k, ls), r)" "(k, ls) = (k, ls)" by simp_all
  have "pos' = pos + k + int (length r)"
  proof (cases "q = pos")
    case True
    with 2(3) i have m: "c = code \<and> \<not> flag"
        "walk (pos + k) (code + sum_list ls) (flag \<noteq> odd (length ls)) ms' r = Some (pos', st)"
      by (auto split: if_splits)
    from 2(1) [OF i(1) pair i(2) refl True m] show ?thesis .
  next
    case False
    with 2(3) i have "walk (pos + k) (code + sum_list ls) (flag \<noteq> odd (length ls)) ms r = Some (pos', st)"
      by (auto split: if_splits)
    from 2(2) [OF i(1) pair i(2) refl False this] show ?thesis .
  qed
  then show ?case using item_length [OF i(1)] by simp
qed simp

lemma index_okI:
  assumes w: "walk 0 0 False ms table = Some (n, e, False, [(n, e)])" and es: "le24s ix = es"
    and "ms = marks_from 0 (butlast es) @ [(n, e)]" "es \<noteq> []" "last es = e" "e < 2097152"
      "sorted_wrt (<) (map (\<lambda>v. v mod 2097152) es)"
  shows "index_ok table ix"
proof -
  obtain its where its: "items table = Some its" "marks_met 0 0 False ms its"
    using walk_met [OF w] by blast
  have "n = int (length table)" using walk_length [OF w] by simp
  then show ?thesis using assms its by (simp add: index_ok_def Let_def)
qed

end
