(* ===== verification/UniClass.thy ===== *)
theory UniClass
  imports UniTables
begin

text \<open>
  The character classes of \<^verbatim>\<open>quickjs/libunicode.c\<close>, \<^verbatim>\<open>libunicode.h\<close> and \<^verbatim>\<open>libregexp.h\<close>: identifier
  characters and white space. The code decides them by four unrelated means (compressed tables
  with an index, a table of class bits per byte, bit maps for ASCII, a list of ranges), and the
  theorems say that they agree on every 32-bit value.
\<close>

section \<open>The compressed tables\<close>

definition lre_is_case_ignorable :: "u32 \<Rightarrow> bool option" where
  "lre_is_case_ignorable c = lre_is_in_table c unicode_prop_Case_Ignorable_table
     unicode_prop_Case_Ignorable_index (length unicode_prop_Case_Ignorable_index div 3)"

definition lre_is_id_start :: "u32 \<Rightarrow> bool option" where
  "lre_is_id_start c = lre_is_in_table c unicode_prop_ID_Start_table
     unicode_prop_ID_Start_index (length unicode_prop_ID_Start_index div 3)"

definition lre_is_id_continue :: "u32 \<Rightarrow> bool option" where
  "lre_is_id_continue c = do {
     s \<leftarrow> lre_is_id_start c;
     if s then Some True
     else lre_is_in_table c unicode_prop_ID_Continue1_table
       unicode_prop_ID_Continue1_index (length unicode_prop_ID_Continue1_index div 3) }"

definition lre_is_white_space :: "u32 \<Rightarrow> bool option" where
  "lre_is_white_space c = lre_is_in_table c unicode_prop_White_Space_table
     unicode_prop_White_Space_index (length unicode_prop_White_Space_index div 3)"

section \<open>The class bits of a byte\<close>

definition unicode_c_space :: u8 where "unicode_c_space = push_bit 0 1"
definition unicode_c_digit :: u8 where "unicode_c_digit = push_bit 1 1"
definition unicode_c_upper :: u8 where "unicode_c_upper = push_bit 2 1"
definition unicode_c_lower :: u8 where "unicode_c_lower = push_bit 3 1"
definition unicode_c_under :: u8 where "unicode_c_under = push_bit 4 1"
definition unicode_c_dollar :: u8 where "unicode_c_dollar = push_bit 5 1"
definition unicode_c_xdigit :: u8 where "unicode_c_xdigit = push_bit 6 1"

lemmas unicode_c_defs = unicode_c_space_def unicode_c_digit_def unicode_c_upper_def
  unicode_c_lower_def unicode_c_under_def unicode_c_dollar_def unicode_c_xdigit_def

definition lre_ctype_bits :: "u8 list" where
  "lre_ctype_bits =
    (let S = unicode_c_space; U = unicode_c_upper; L = unicode_c_lower;
         W = unicode_c_under; Q = unicode_c_dollar;
         XD = unicode_c_xdigit OR unicode_c_digit;
         XU = unicode_c_xdigit OR unicode_c_upper;
         XL = unicode_c_xdigit OR unicode_c_lower in [
    0, 0, 0, 0, 0, 0, 0, 0, 0, S, S, S, S, S, 0, 0,
    0, 0, 0, 0, 0, 0, 0, 0, 0, 0, 0, 0, 0, 0, 0, 0,
    S, 0, 0, 0, Q, 0, 0, 0, 0, 0, 0, 0, 0, 0, 0, 0,
    XD, XD, XD, XD, XD, XD, XD, XD, XD, XD, 0, 0, 0, 0, 0, 0,
    0, XU, XU, XU, XU, XU, XU, U, U, U, U, U, U, U, U, U,
    U, U, U, U, U, U, U, U, U, U, U, 0, 0, 0, 0, W,
    0, XL, XL, XL, XL, XL, XL, L, L, L, L, L, L, L, L, L,
    L, L, L, L, L, L, L, L, L, L, L, 0, 0, 0, 0, 0,
    0, 0, 0, 0, 0, 0, 0, 0, 0, 0, 0, 0, 0, 0, 0, 0,
    0, 0, 0, 0, 0, 0, 0, 0, 0, 0, 0, 0, 0, 0, 0, 0,
    S, 0, 0, 0, 0, 0, 0, 0, 0, 0, 0, 0, 0, 0, 0, 0,
    0, 0, 0, 0, 0, 0, 0, 0, 0, 0, 0, 0, 0, 0, 0, 0,
    0, 0, 0, 0, 0, 0, 0, 0, 0, 0, 0, 0, 0, 0, 0, 0,
    0, 0, 0, 0, 0, 0, 0, 0, 0, 0, 0, 0, 0, 0, 0, 0,
    0, 0, 0, 0, 0, 0, 0, 0, 0, 0, 0, 0, 0, 0, 0, 0,
    0, 0, 0, 0, 0, 0, 0, 0, 0, 0, 0, 0, 0, 0, 0, 0])"

definition lre_is_space_byte :: "u8 \<Rightarrow> u8" where
  "lre_is_space_byte c = lre_ctype_bits ! unat c AND unicode_c_space"

definition lre_is_id_start_byte :: "u8 \<Rightarrow> u8" where
  "lre_is_id_start_byte c = lre_ctype_bits ! unat c
     AND (unicode_c_upper OR unicode_c_lower OR unicode_c_under OR unicode_c_dollar)"

definition lre_is_id_continue_byte :: "u8 \<Rightarrow> u8" where
  "lre_is_id_continue_byte c = lre_ctype_bits ! unat c
     AND (unicode_c_upper OR unicode_c_lower OR unicode_c_under OR unicode_c_dollar OR unicode_c_digit)"

definition lre_is_word_byte :: "u8 \<Rightarrow> u8" where
  "lre_is_word_byte c = lre_ctype_bits ! unat c
     AND (unicode_c_upper OR unicode_c_lower OR unicode_c_under OR unicode_c_digit)"

section \<open>The ranges of space characters\<close>

definition char_range_space :: "u16 list" where
  "char_range_space = [
     10,
     0x0009, 0x000D + 1,
     0x0020, 0x0020 + 1,
     0x00A0, 0x00A0 + 1,
     0x1680, 0x1680 + 1,
     0x2000, 0x200A + 1,
     0x2028, 0x2029 + 1,
     0x202F, 0x202F + 1,
     0x205F, 0x205F + 1,
     0x3000, 0x3000 + 1,
     0xFEFF, 0xFEFF + 1]"

text \<open>The loop on the table from index \<open>i\<close> on, where \<open>i\<close> advances by two.\<close>

fun space_ranges :: "u32 \<Rightarrow> u16 list \<Rightarrow> bool" where
  "space_ranges c (low # high # r) =
     (if c < ucast low then False else if c < ucast high then True else space_ranges c r)"
| "space_ranges c _ = False"

definition lre_is_space_non_ascii :: "u32 \<Rightarrow> bool" where
  "lre_is_space_non_ascii c = space_ranges c (drop 5 char_range_space)"

definition lre_is_space :: "u32 \<Rightarrow> bool" where
  "lre_is_space c =
     (if c < 256 then lre_is_space_byte (ucast c) \<noteq> 0 else lre_is_space_non_ascii c)"

section \<open>The identifier bit maps\<close>

definition lre_id_start_table_ascii :: "u32 list" where
  "lre_id_start_table_ascii = [0x00000000, 0x00000010, 0x87FFFFFE, 0x07FFFFFE]"

definition lre_id_continue_table_ascii :: "u32 list" where
  "lre_id_continue_table_ascii = [0x00000000, 0x03FF0010, 0x87FFFFFE, 0x07FFFFFE]"

text \<open>The argument is a C \<^verbatim>\<open>int\<close>, read as unsigned.\<close>

definition lre_js_is_ident_first :: "u32 \<Rightarrow> bool option" where
  "lre_js_is_ident_first c =
     (if c < 128 then do {
        w \<leftarrow> rd lre_id_start_table_ascii (unat (drop_bit 5 c));
        Some (drop_bit (unat (c AND 31)) w AND 1 \<noteq> 0) }
      else lre_is_id_start c)"

definition lre_js_is_ident_next :: "u32 \<Rightarrow> bool option" where
  "lre_js_is_ident_next c =
     (if c < 128 then do {
        w \<leftarrow> rd lre_id_continue_table_ascii (unat (drop_bit 5 c));
        Some (drop_bit (unat (c AND 31)) w AND 1 \<noteq> 0) }
      else do {
        s \<leftarrow> lre_is_id_continue c;
        Some (s \<or> c = 0x200C \<or> c = 0x200D) })"

section \<open>The classes are the runs of their tables\<close>

lemma lre_is_id_start_value:
  "lre_is_id_start c = Some (in_table_ref c unicode_prop_ID_Start_table)"
  unfolding lre_is_id_start_def by (rule lre_is_in_table_value [OF index_ok_ID_Start])

lemma lre_is_id_continue_value:
  "lre_is_id_continue c = Some (in_table_ref c unicode_prop_ID_Start_table
      \<or> in_table_ref c unicode_prop_ID_Continue1_table)"
  unfolding lre_is_id_continue_def lre_is_id_start_value lre_is_in_table_value [OF index_ok_ID_Continue1]
  by simp

lemma lre_is_white_space_value:
  "lre_is_white_space c = Some (in_table_ref c unicode_prop_White_Space_table)"
  unfolding lre_is_white_space_def by (rule lre_is_in_table_value [OF index_ok_White_Space])

lemma lre_is_case_ignorable_value:
  "lre_is_case_ignorable c = Some (in_table_ref c unicode_prop_Case_Ignorable_table)"
  unfolding lre_is_case_ignorable_def by (rule lre_is_in_table_value [OF index_ok_Case_Ignorable])

text \<open>A statement on small code points, checked one by one.\<close>

lemma small_word_cases:
  assumes "uint (c :: u32) < n" "\<forall>i \<in> set [0..n - 1]. P (word_of_int i)"
  shows "P c"
  using bspec [OF assms(2), of "uint c"] assms(1) by simp

text \<open>Where a table starts with the items \<open>xs\<close>, small code points are decided by them.\<close>

lemma items_append:
  "items xs = Some a \<Longrightarrow> items (xs @ ys) = map_option (\<lambda>b. a @ b) (items ys)"
proof (induction xs arbitrary: a rule: items.induct)
  case (2 b p)
  from items_Cons [OF 2(2)] obtain k ls r its'
    where i: "item b p = Some ((k, ls), r)" "items r = Some its'" "a = (k, ls) # its'" by blast
  from 2(1) [OF i(1) refl i(2)] show ?case
    by (cases "items ys") (simp_all add: item_append [OF i(1)] i(3))
qed (cases "items ys"; simp)

lemma in_table_prefix:
  assumes "items xs = Some a" "items (xs @ ys) \<noteq> None" "uint c < sum_list (lens a)"
  shows "in_table_ref c (xs @ ys) = (in_runs (uint c) 0 False (lens a) = Some True)"
proof -
  from assms(2) obtain b where b: "items ys = Some b"
    using items_append [OF assms(1), of ys] by auto
  have "lens a \<noteq> []" using assms(3) le_less_trans [OF uint_nonnegative, of c] by fastforce
  with assms(3) show ?thesis
    by (simp add: in_table_ref_def items_append [OF assms(1)] b in_runs_prefix)
qed

lemma ascii_id_start:
  assumes "c < 128"
  shows "in_table_ref c unicode_prop_ID_Start_table \<longleftrightarrow> 0x41 \<le> c \<and> c \<le> 0x5a \<or> 0x61 \<le> c \<and> c \<le> 0x7a"
proof -
  have "\<exists>r. unicode_prop_ID_Start_table = [0xc0, 0x99, 0x85, 0x99, 0xae] @ r"
    by (simp add: unicode_prop_ID_Start_table_def ID_Start_0_def)
  then obtain r where r: "unicode_prop_ID_Start_table = [0xc0, 0x99, 0x85, 0x99, 0xae] @ r" ..
  have i: "items [0xc0, 0x99, 0x85, 0x99, 0xae] = Some [(1, [65]), (1, [26]), (1, [6]), (1, [26]), (1, [47])]"
    by code_simp
  have c: "uint c < 128" using assms by (simp add: word_less_def)
  have "items unicode_prop_ID_Start_table \<noteq> None"
    using index_ok_ID_Start by (auto simp: index_ok_def Let_def split: option.splits)
  from in_table_prefix [OF i this [unfolded r], of c] c show ?thesis
    unfolding r by (auto simp: word_le_def)
qed

lemma ascii_id_continue:
  assumes "c < 128"
  shows "in_table_ref c unicode_prop_ID_Continue1_table \<longleftrightarrow> 0x30 \<le> c \<and> c \<le> 0x39 \<or> c = 0x5f"
proof -
  have "\<exists>r. unicode_prop_ID_Continue1_table = [0xaf, 0x89, 0xa4, 0x80, 0xd6] @ r"
    by (simp add: unicode_prop_ID_Continue1_table_def ID_Continue1_0_def)
  then obtain r where r: "unicode_prop_ID_Continue1_table = [0xaf, 0x89, 0xa4, 0x80, 0xd6] @ r" ..
  have i: "items [0xaf, 0x89, 0xa4, 0x80, 0xd6] = Some [(1, [48]), (1, [10]), (1, [37]), (1, [1]), (1, [87])]"
    by code_simp
  have c: "uint c < 128" using assms by (simp add: word_less_def)
  have "items unicode_prop_ID_Continue1_table \<noteq> None"
    using index_ok_ID_Continue1 by (auto simp: index_ok_def Let_def split: option.splits)
  moreover have "c = 0x5f \<longleftrightarrow> uint c = 0x5f" by (simp add: word_uint_eq_iff)
  ultimately show ?thesis using in_table_prefix [OF i, of r c] c
    unfolding r by (auto simp: word_le_def)
qed

text \<open>The bit maps and the class bits, byte by byte.\<close>

lemma lre_ctype_bits_value [code]: "lre_ctype_bits = [
    0, 0, 0, 0, 0, 0, 0, 0, 0, 1, 1, 1, 1, 1, 0, 0, 0, 0, 0, 0, 0, 0, 0, 0, 0, 0, 0, 0, 0, 0, 0, 0,
    1, 0, 0, 0, 32, 0, 0, 0, 0, 0, 0, 0, 0, 0, 0, 0, 66, 66, 66, 66, 66, 66, 66, 66, 66, 66, 0, 0, 0, 0, 0, 0,
    0, 68, 68, 68, 68, 68, 68, 4, 4, 4, 4, 4, 4, 4, 4, 4, 4, 4, 4, 4, 4, 4, 4, 4, 4, 4, 4, 0, 0, 0, 0, 16,
    0, 72, 72, 72, 72, 72, 72, 8, 8, 8, 8, 8, 8, 8, 8, 8, 8, 8, 8, 8, 8, 8, 8, 8, 8, 8, 8, 0, 0, 0, 0, 0,
    0, 0, 0, 0, 0, 0, 0, 0, 0, 0, 0, 0, 0, 0, 0, 0, 0, 0, 0, 0, 0, 0, 0, 0, 0, 0, 0, 0, 0, 0, 0, 0,
    1, 0, 0, 0, 0, 0, 0, 0, 0, 0, 0, 0, 0, 0, 0, 0, 0, 0, 0, 0, 0, 0, 0, 0, 0, 0, 0, 0, 0, 0, 0, 0,
    0, 0, 0, 0, 0, 0, 0, 0, 0, 0, 0, 0, 0, 0, 0, 0, 0, 0, 0, 0, 0, 0, 0, 0, 0, 0, 0, 0, 0, 0, 0, 0,
    0, 0, 0, 0, 0, 0, 0, 0, 0, 0, 0, 0, 0, 0, 0, 0, 0, 0, 0, 0, 0, 0, 0, 0, 0, 0, 0, 0, 0, 0, 0, 0]"
  by (simp add: lre_ctype_bits_def unicode_c_defs Let_def)

definition ascii_ok :: "u32 \<Rightarrow> bool" where
  "ascii_ok c \<longleftrightarrow>
     (let letter = (0x41 \<le> c \<and> c \<le> 0x5a \<or> 0x61 \<le> c \<and> c \<le> 0x7a); digit = (0x30 \<le> c \<and> c \<le> 0x39);
          start = (letter \<or> c = 0x24 \<or> c = 0x5f) in
      map_option (\<lambda>w. drop_bit (unat (c AND 31)) w AND 1 \<noteq> 0)
         (rd lre_id_start_table_ascii (unat (drop_bit 5 c))) = Some start
      \<and> map_option (\<lambda>w. drop_bit (unat (c AND 31)) w AND 1 \<noteq> 0)
         (rd lre_id_continue_table_ascii (unat (drop_bit 5 c))) = Some (start \<or> digit)
      \<and> (lre_is_id_start_byte (ucast c) \<noteq> 0) = start
      \<and> (lre_is_id_continue_byte (ucast c) \<noteq> 0) = (start \<or> digit)
      \<and> (lre_is_word_byte (ucast c) \<noteq> 0) = (letter \<or> c = 0x5f \<or> digit))"

lemma ascii_ok: "c < 128 \<Longrightarrow> ascii_ok c"
proof (rule small_word_cases [of c 128 ascii_ok])
  show "\<forall>i \<in> set [0..128 - 1]. ascii_ok (word_of_int i)" by code_simp
qed (simp add: word_less_def)

lemma ident_ascii:
  assumes "(c :: u32) < 128"
  shows "do { w \<leftarrow> rd lre_id_start_table_ascii (unat (drop_bit 5 c));
      Some (drop_bit (unat (c AND 31)) w AND 1 \<noteq> 0) }
    = Some ((0x41 \<le> c \<and> c \<le> 0x5a \<or> 0x61 \<le> c \<and> c \<le> 0x7a) \<or> c = 0x24 \<or> c = 0x5f)"
    and "do { w \<leftarrow> rd lre_id_continue_table_ascii (unat (drop_bit 5 c));
      Some (drop_bit (unat (c AND 31)) w AND 1 \<noteq> 0) }
    = Some (((0x41 \<le> c \<and> c \<le> 0x5a \<or> 0x61 \<le> c \<and> c \<le> 0x7a) \<or> c = 0x24 \<or> c = 0x5f) \<or> 0x30 \<le> c \<and> c \<le> 0x39)"
    and "(lre_is_id_start_byte (ucast c) \<noteq> 0)
      = ((0x41 \<le> c \<and> c \<le> 0x5a \<or> 0x61 \<le> c \<and> c \<le> 0x7a) \<or> c = 0x24 \<or> c = 0x5f)"
    and "(lre_is_id_continue_byte (ucast c) \<noteq> 0)
      = (((0x41 \<le> c \<and> c \<le> 0x5a \<or> 0x61 \<le> c \<and> c \<le> 0x7a) \<or> c = 0x24 \<or> c = 0x5f) \<or> 0x30 \<le> c \<and> c \<le> 0x39)"
    and "(lre_is_word_byte (ucast c) \<noteq> 0)
      = ((0x41 \<le> c \<and> c \<le> 0x5a \<or> 0x61 \<le> c \<and> c \<le> 0x7a) \<or> c = 0x5f \<or> 0x30 \<le> c \<and> c \<le> 0x39)"
  using ascii_ok [OF assms] unfolding ascii_ok_def Let_def
  by (simp_all only: map_conv_bind_option o_def)

lemma latin1_space: "(c :: u32) < 256 \<Longrightarrow> (lre_is_space_byte (ucast c) \<noteq> 0) = (9 \<le> c \<and> c \<le> 13 \<or> c = 0x20 \<or> c = 0xa0)"
proof (rule small_word_cases [of c 256])
  show "\<forall>i \<in> set [0..256 - 1]. (lre_is_space_byte (ucast (word_of_int i :: u32)) \<noteq> 0)
      = (9 \<le> (word_of_int i :: u32) \<and> word_of_int i \<le> (13 :: u32)
          \<or> word_of_int i = (0x20 :: u32) \<or> word_of_int i = (0xa0 :: u32))" by code_simp
qed (simp add: word_less_def)

text \<open>The space characters of ECMAScript.\<close>

definition es_space :: "u32 \<Rightarrow> bool" where
  "es_space c \<longleftrightarrow> 9 \<le> c \<and> c \<le> 13 \<or> c = 0x20 \<or> c = 0xa0 \<or> c = 0x1680 \<or> 0x2000 \<le> c \<and> c \<le> 0x200a
     \<or> c = 0x2028 \<or> c = 0x2029 \<or> c = 0x202f \<or> c = 0x205f \<or> c = 0x3000 \<or> c = 0xfeff"

lemma lre_is_space_value: "lre_is_space c = es_space c"
proof (cases "c < 256")
  case True
  then have "uint c < 256" by (simp add: word_less_def)
  then have "es_space c = (9 \<le> c \<and> c \<le> 13 \<or> c = 0x20 \<or> c = 0xa0)"
    by (auto simp: es_space_def word_le_def)
  then show ?thesis using True by (simp add: lre_is_space_def latin1_space)
next
  case False
  then have "256 \<le> uint c" by (simp add: word_less_def)
  then show ?thesis using False
    by (auto simp: lre_is_space_def lre_is_space_non_ascii_def char_range_space_def es_space_def
        word_le_def word_less_def word_uint_eq_iff)
qed

lemma white_space_runs: "in_table_ref c unicode_prop_White_Space_table
    \<longleftrightarrow> (9 \<le> c \<and> c \<le> 13 \<or> c = 0x20 \<or> c = 0x85 \<or> c = 0xa0 \<or> c = 0x1680 \<or> 0x2000 \<le> c \<and> c \<le> 0x200a
     \<or> c = 0x2028 \<or> c = 0x2029 \<or> c = 0x202f \<or> c = 0x205f \<or> c = 0x3000)"
proof -
  have i: "items unicode_prop_White_Space_table = Some [(1, [9]), (1, [5]), (1, [18]), (1, [1]),
      (1, [100]), (1, [1]), (1, [26]), (1, [1]), (2, [5599]), (1, [1]), (2, [2431]), (1, [11]), (1, [29]),
      (1, [2, 5]), (1, [1]), (1, [47]), (1, [1]), (2, [4000]), (1, [1])]"
    by code_simp
  have "0 \<le> uint c" by simp
  then show ?thesis
    unfolding in_table_ref_def i word_le_def word_uint_eq_iff by (auto simp del: uint_nonnegative)
qed

section \<open>The properties\<close>

text \<open>Property C23 (equivalence): looking a code point up through the index of a compressed table
  gives what the scan of the whole table from its first byte gives, for each of the tables
  and every 32-bit value; no byte outside a table or an index is read.\<close>
theorem class_lookup_is_scan:
  "lre_is_id_start c = Some (in_table_ref c unicode_prop_ID_Start_table)
    \<and> lre_is_id_continue c = Some (in_table_ref c unicode_prop_ID_Start_table
        \<or> in_table_ref c unicode_prop_ID_Continue1_table)
    \<and> lre_is_white_space c = Some (in_table_ref c unicode_prop_White_Space_table)
    \<and> lre_is_case_ignorable c = Some (in_table_ref c unicode_prop_Case_Ignorable_table)"
  by (simp add: lre_is_id_start_value lre_is_id_continue_value lre_is_white_space_value
      lre_is_case_ignorable_value)

text \<open>The tests for identifier characters agree: on every 32-bit value
  \<open>lre_js_is_ident_first\<close> and \<open>lre_js_is_ident_next\<close>, which use bit maps for ASCII, are the classes
  of the compressed tables with the extra characters of ECMAScript (dollar, underscore, and the
  two joiners), and the class bits of \<open>lre_ctype_bits\<close> give the same answer for ASCII bytes.\<close>
theorem identifier_classes_agree:
  "lre_js_is_ident_first c = Some (in_table_ref c unicode_prop_ID_Start_table \<or> c = 0x24 \<or> c = 0x5f)
    \<and> lre_js_is_ident_next c = Some (in_table_ref c unicode_prop_ID_Start_table
        \<or> in_table_ref c unicode_prop_ID_Continue1_table \<or> c = 0x24 \<or> c = 0x200c \<or> c = 0x200d)
    \<and> lre_js_is_ident_first (c AND 127) = Some (lre_is_id_start_byte (ucast (c AND 127)) \<noteq> 0)
    \<and> lre_js_is_ident_next (c AND 127) = Some (lre_is_id_continue_byte (ucast (c AND 127)) \<noteq> 0)
    \<and> (lre_is_word_byte (ucast (c AND 127)) \<noteq> 0)
        = (lre_is_id_continue_byte (ucast (c AND 127)) \<noteq> 0 \<and> c AND 127 \<noteq> 0x24)"
proof -
  have "c AND 127 = take_bit 7 c" by (simp add: take_bit_eq_mask mask_eq_exp_minus_1)
  then have "uint (c AND 127) < 128" by (simp only: unsigned_take_bit_eq) (simp add: take_bit_eq_mod)
  then have a: "c AND 127 < 128" by (simp add: word_less_def)
  have small: "x < 128 \<Longrightarrow>
      lre_js_is_ident_first x = Some (in_table_ref x unicode_prop_ID_Start_table \<or> x = 0x24 \<or> x = 0x5f)
      \<and> lre_js_is_ident_next x = Some (in_table_ref x unicode_prop_ID_Start_table
        \<or> in_table_ref x unicode_prop_ID_Continue1_table \<or> x = 0x24 \<or> x = 0x200c \<or> x = 0x200d)" for x
    by (auto simp: lre_js_is_ident_first_def lre_js_is_ident_next_def ident_ascii ascii_id_start ascii_id_continue)
  moreover have "\<not> x < 128 \<Longrightarrow> x \<noteq> 0x24 \<and> x \<noteq> 0x5f" for x :: u32 by auto
  ultimately have "lre_js_is_ident_first c = Some (in_table_ref c unicode_prop_ID_Start_table \<or> c = 0x24 \<or> c = 0x5f)
    \<and> lre_js_is_ident_next c = Some (in_table_ref c unicode_prop_ID_Start_table
        \<or> in_table_ref c unicode_prop_ID_Continue1_table \<or> c = 0x24 \<or> c = 0x200c \<or> c = 0x200d)"
    by (cases "c < 128") (simp_all add: lre_js_is_ident_first_def lre_js_is_ident_next_def
        lre_is_id_start_value lre_is_id_continue_value)
  moreover have "x < 128 \<Longrightarrow> lre_js_is_ident_first x = Some (lre_is_id_start_byte (ucast x) \<noteq> 0)
    \<and> lre_js_is_ident_next x = Some (lre_is_id_continue_byte (ucast x) \<noteq> 0)
    \<and> (lre_is_word_byte (ucast x) \<noteq> 0) = (lre_is_id_continue_byte (ucast x) \<noteq> 0 \<and> x \<noteq> 0x24)" for x
    by (auto simp: lre_js_is_ident_first_def lre_js_is_ident_next_def ident_ascii)
  from this [OF a] calculation show ?thesis by blast
qed

text \<open>
  on every 32-bit value \<open>lre_is_space\<close>, by class bits below 256 and by
  the list of ranges above, holds of exactly the space characters of ECMAScript, and it differs
  from the compressed table of \<open>lre_is_white_space\<close> at two code points only: U+0085 is white space
  for the table alone, U+FEFF for \<open>lre_is_space\<close> alone.\<close>
theorem space_classes_agree:
  "lre_is_space c = es_space c
    \<and> lre_is_white_space c = Some (lre_is_space c \<and> c \<noteq> 0xfeff \<or> c = 0x85)"
  unfolding lre_is_space_value lre_is_white_space_value white_space_runs es_space_def by auto

end
