(* ===== verification/DynBuf.thy ===== *)
theory DynBuf
  imports CBits
begin

text \<open>
  The growable byte buffer of \<^verbatim>\<open>quickjs/cutils.h\<close> (\<open>DynBuf\<close>, \<open>dbuf_init\<close> to \<open>dbuf_free\<close>). A buffer
  carries its allocator; what the buffer relies on is the locale \<open>dbuf_allocator\<close>, interpreted on
  \<open>dbuf_default_realloc\<close>. The heap of the C library decides by itself, at every request, whether
  it grants memory, so every pattern of failures is covered. \<open>dbuf_printf\<close> depends on the result of
  \<^verbatim>\<open>vsnprintf\<close>, an \<open>int\<close> that is negative on an error, which the code takes for a length.
\<close>

section \<open>The C library's heap\<close>

record libc_heap =
  tick :: nat
  grant :: "nat \<Rightarrow> nat \<Rightarrow> bool"
  junk :: u8
  live :: nat

text \<open>
  The \<open>tick\<close>-th request, for \<open>n\<close> bytes, succeeds if \<open>grant tick n\<close>; new bytes have an arbitrary
  value, \<open>live\<close> counts the bytes handed out. A pointer is NULL or a block.
\<close>

definition block :: "u8 list option \<Rightarrow> u8 list" where
  "block p = (case p of None \<Rightarrow> [] | Some b \<Rightarrow> b)"

definition libc_realloc :: "libc_heap \<Rightarrow> u8 list option \<Rightarrow> u64 \<Rightarrow> u8 list option \<times> libc_heap" where
  "libc_realloc h p n =
     (let h1 = h\<lparr>tick := Suc (tick h)\<rparr>; old = block p in
      if grant h (tick h) (unat n)
      then (Some (take (unat n) old @ replicate (unat n - length old) (junk h)),
            h1\<lparr>live := live h - length old + unat n\<rparr>)
      else (None, h1))"

definition libc_free :: "libc_heap \<Rightarrow> u8 list option \<Rightarrow> libc_heap" where
  "libc_free h p = h\<lparr>live := live h - length (block p)\<rparr>"

section \<open>The buffer\<close>

text \<open>The allocator of a buffer gets the opaque value, the old block and the new size; \<open>'o\<close> is what
  the opaque pointer points to. NULL is \<open>None\<close>, also for the function pointer.\<close>

type_synonym 'o realloc_func =
  "'o option \<Rightarrow> libc_heap \<Rightarrow> u8 list option \<Rightarrow> u64 \<Rightarrow> u8 list option \<times> 'o option \<times> libc_heap"

record 'o dyn_buf =
  db_buf :: "u8 list option"
  db_size :: u64
  db_alloc :: u64
  db_err :: bool
  db_realloc :: "'o realloc_func option"
  db_opaque :: "'o option"
  db_heap :: libc_heap

definition dbuf_default_realloc :: "'o realloc_func" where
  "dbuf_default_realloc opaque h ptr n =
     (if n = 0 then (None, opaque, libc_free h ptr)
      else (case libc_realloc h ptr n of (p, h') \<Rightarrow> (p, opaque, h')))"

definition dbuf_init2 :: "libc_heap \<Rightarrow> 'o option \<Rightarrow> 'o realloc_func option \<Rightarrow> 'o dyn_buf" where
  "dbuf_init2 h opaque realloc_func =
     \<lparr>db_buf = None, db_size = 0, db_alloc = 0, db_err = False,
      db_realloc = (case realloc_func of None \<Rightarrow> Some dbuf_default_realloc | Some f \<Rightarrow> Some f),
      db_opaque = opaque, db_heap = h\<rparr>"

definition dbuf_init :: "libc_heap \<Rightarrow> 'o dyn_buf" where
  "dbuf_init h = dbuf_init2 h None None"

definition dbuf_error :: "'o dyn_buf \<Rightarrow> bool" where
  "dbuf_error s = db_err s"

definition dbuf_set_error :: "'o dyn_buf \<Rightarrow> 'o dyn_buf" where
  "dbuf_set_error s = s\<lparr>db_err := True\<rparr>"

text \<open>An operation returns the buffer and the C result, or \<open>None\<close> where C's behaviour is undefined.\<close>

type_synonym 'o db_result = "('o dyn_buf \<times> int) option"

definition dbuf_claim :: "'o dyn_buf \<Rightarrow> u64 \<Rightarrow> 'o db_result" where
  "dbuf_claim s len =
     (let new_size = db_size s + len in
      if new_size < len then Some (s, -1)
      else if new_size > db_alloc s then
        (if db_err s then Some (s, -1)
         else
           let size = db_alloc s + db_alloc s div 2;
               new_allocated_size = (if size < new_size \<or> size < db_alloc s then new_size else size)
           in case db_realloc s of
                None \<Rightarrow> None
              | Some f \<Rightarrow>
                  (case f (db_opaque s) (db_heap s) (db_buf s) new_allocated_size of
                     (None, a, h) \<Rightarrow>
                       Some (s\<lparr>db_opaque := a, db_heap := h, db_err := True\<rparr>, -1)
                   | (Some new_buf, a, h) \<Rightarrow>
                       Some (s\<lparr>db_opaque := a, db_heap := h, db_buf := Some new_buf,
                               db_alloc := new_allocated_size\<rparr>, 0)))
      else Some (s, 0))"

text \<open>The copy of \<open>len\<close> bytes to the end of the contents.\<close>

definition dbuf_append :: "'o dyn_buf \<Rightarrow> u8 list \<Rightarrow> u64 \<Rightarrow> 'o db_result" where
  "dbuf_append s data len =
     (if len > 0 then
        if unat len \<le> length data then do {
          b \<leftarrow> db_buf s;
          b \<leftarrow> wrs b (unat (db_size s)) (take (unat len) data);
          Some (s\<lparr>db_buf := Some b, db_size := db_size s + len\<rparr>, 0) }
        else None
      else Some (s, 0))"

definition dbuf_put :: "'o dyn_buf \<Rightarrow> u8 list \<Rightarrow> u64 \<Rightarrow> 'o db_result" where
  "dbuf_put s data len =
     (if db_size s + len > db_alloc s then do {
        (s, r) \<leftarrow> dbuf_claim s len;
        if r \<noteq> 0 then Some (s, -1) else dbuf_append s data len }
      else dbuf_append s data len)"

text \<open>Here the source is in the buffer itself, and \<^verbatim>\<open>memcpy\<close> asks that it does not reach the bytes written.\<close>

definition dbuf_append_self :: "'o dyn_buf \<Rightarrow> u64 \<Rightarrow> u64 \<Rightarrow> 'o db_result" where
  "dbuf_append_self s offset len =
     (if len > 0 \<and> unat (db_size s) < unat offset + unat len \<and> unat offset < unat (db_size s) + unat len
      then None
      else dbuf_append s (drop (unat offset) (block (db_buf s))) len)"

definition dbuf_put_self :: "'o dyn_buf \<Rightarrow> u64 \<Rightarrow> u64 \<Rightarrow> 'o db_result" where
  "dbuf_put_self s offset len =
     (if db_size s + len > db_alloc s then do {
        (s, r) \<leftarrow> dbuf_claim s len;
        if r \<noteq> 0 then Some (s, -1) else dbuf_append_self s offset len }
      else dbuf_append_self s offset len)"

definition dbuf_putc_slow :: "'o dyn_buf \<Rightarrow> u8 \<Rightarrow> 'o db_result" where
  "dbuf_putc_slow s c = dbuf_put s [c] 1"

definition dbuf_put_u16_slow :: "'o dyn_buf \<Rightarrow> u16 \<Rightarrow> 'o db_result" where
  "dbuf_put_u16_slow s v = dbuf_put s (bytes16 v) 2"

definition dbuf_put_u32_slow :: "'o dyn_buf \<Rightarrow> u32 \<Rightarrow> 'o db_result" where
  "dbuf_put_u32_slow s v = dbuf_put s (bytes32 v) 4"

definition dbuf_put_u64_slow :: "'o dyn_buf \<Rightarrow> u64 \<Rightarrow> 'o db_result" where
  "dbuf_put_u64_slow s v = dbuf_put s (bytes64 v) 8"

definition dbuf_putc :: "'o dyn_buf \<Rightarrow> u8 \<Rightarrow> 'o db_result" where
  "dbuf_putc s c =
     (if db_alloc s - db_size s < 1 then dbuf_putc_slow s c
      else do {
        b \<leftarrow> db_buf s;
        b \<leftarrow> wr b (unat (db_size s)) c;
        Some (s\<lparr>db_buf := Some b, db_size := db_size s + 1\<rparr>, 0) })"

definition dbuf_put_u16 :: "'o dyn_buf \<Rightarrow> u16 \<Rightarrow> 'o db_result" where
  "dbuf_put_u16 s v =
     (if db_alloc s - db_size s < 2 then dbuf_put_u16_slow s v
      else do {
        b \<leftarrow> db_buf s;
        b \<leftarrow> put_u16 b (unat (db_size s)) v;
        Some (s\<lparr>db_buf := Some b, db_size := db_size s + 2\<rparr>, 0) })"

definition dbuf_put_u32 :: "'o dyn_buf \<Rightarrow> u32 \<Rightarrow> 'o db_result" where
  "dbuf_put_u32 s v =
     (if db_alloc s - db_size s < 4 then dbuf_put_u32_slow s v
      else do {
        b \<leftarrow> db_buf s;
        b \<leftarrow> put_u32 b (unat (db_size s)) v;
        Some (s\<lparr>db_buf := Some b, db_size := db_size s + 4\<rparr>, 0) })"

definition dbuf_put_u64 :: "'o dyn_buf \<Rightarrow> u64 \<Rightarrow> 'o db_result" where
  "dbuf_put_u64 s v =
     (if db_alloc s - db_size s < 8 then dbuf_put_u64_slow s v
      else do {
        b \<leftarrow> db_buf s;
        b \<leftarrow> put_u64 b (unat (db_size s)) v;
        Some (s\<lparr>db_buf := Some b, db_size := db_size s + 8\<rparr>, 0) })"

text \<open>A C string is its bytes up to the terminating zero.\<close>

definition dbuf_putstr :: "'o dyn_buf \<Rightarrow> u8 list \<Rightarrow> 'o db_result" where
  "dbuf_putstr s str = dbuf_put s (str @ [0]) (of_nat (length str))"

text \<open>
  \<open>dbuf_printf\<close> gets the text that its format and arguments stand for, or \<open>None\<close> where they cannot be
  converted. \<^verbatim>\<open>vsnprintf\<close> writes as much of the text as fits, and a zero, and returns its full length, an
  \<open>int\<close>; it returns a negative number for a failed conversion and for a length above \<^verbatim>\<open>INT_MAX\<close>. The
  code does not look for that: the number is less than 128 and becomes a \<open>size_t\<close>. For \<^verbatim>\<open>INT_MAX\<close> itself
  the sum \<^verbatim>\<open>len + 1\<close> overflows.
\<close>

definition INT_MAX :: int where "INT_MAX = 2147483647"

definition vsnprintf_len :: "u8 list option \<Rightarrow> int" where
  "vsnprintf_len txt =
     (case txt of None \<Rightarrow> - 1 | Some t \<Rightarrow> if int (length t) > INT_MAX then - 1 else int (length t))"

definition vsnprintf_to :: "u8 list \<Rightarrow> nat \<Rightarrow> nat \<Rightarrow> u8 list option \<Rightarrow> u8 list option" where
  "vsnprintf_to b pos n txt =
     (case txt of None \<Rightarrow> Some b
      | Some t \<Rightarrow> if n = 0 then Some b else wrs b pos (take (n - 1) t @ [0]))"

definition dbuf_printf :: "'o dyn_buf \<Rightarrow> u8 list option \<Rightarrow> 'o db_result" where
  "dbuf_printf s txt =
     (let len = vsnprintf_len txt in do {
        b \<leftarrow> vsnprintf_to (replicate 128 0) 0 128 txt;
        if len < 128 then dbuf_put s b (word_of_int len)
        else if len = INT_MAX then None
        else do {
          (s, r) \<leftarrow> dbuf_claim s (word_of_int (len + 1));
          if r \<noteq> 0 then Some (s, -1)
          else do {
            b \<leftarrow> db_buf s;
            b \<leftarrow> vsnprintf_to b (unat (db_size s)) (unat (db_alloc s - db_size s)) txt;
            Some (s\<lparr>db_buf := Some b, db_size := db_size s + word_of_int len\<rparr>, 0) } } })"

definition dbuf_free :: "'o dyn_buf \<Rightarrow> 'o dyn_buf option" where
  "dbuf_free s =
     (let clear = \<lparr>db_buf = None, db_size = 0, db_alloc = 0, db_err = False, db_realloc = None,
                   db_opaque = None, db_heap = db_heap s\<rparr> in
      case db_buf s of
        None \<Rightarrow> Some clear
      | Some b \<Rightarrow>
          (case db_realloc s of
             None \<Rightarrow> None
           | Some f \<Rightarrow>
               (case f (db_opaque s) (db_heap s) (Some b) 0 of
                  (p, a, h) \<Rightarrow> Some (clear\<lparr>db_heap := h\<rparr>))))"

section \<open>Contents and invariant\<close>

definition contents :: "'o dyn_buf \<Rightarrow> u8 list" where
  "contents s = take (unat (db_size s)) (block (db_buf s))"

definition dbuf_ok :: "'o dyn_buf \<Rightarrow> bool" where
  "dbuf_ok s \<longleftrightarrow> length (block (db_buf s)) = unat (db_alloc s) \<and> db_size s \<le> db_alloc s
     \<and> (db_buf s = None \<or> 0 < db_alloc s)"

lemma length_contents: "dbuf_ok s \<Longrightarrow> length (contents s) = unat (db_size s)"
  by (simp add: dbuf_ok_def contents_def word_le_nat_alt)

text \<open>
  What a buffer keeps with an allocator \<open>f\<close>; \<open>acct\<close> says what the heap looks like while the
  buffer holds a block of a given length. The result of an operation that appends \<open>d\<close>: it is defined
  and either appends \<open>d\<close> or returns -1 with the contents as they were and the error mark set.
\<close>

definition good :: "'o realloc_func \<Rightarrow> (libc_heap \<Rightarrow> nat \<Rightarrow> bool) \<Rightarrow> 'o dyn_buf \<Rightarrow> bool" where
  "good f acct s \<longleftrightarrow> dbuf_ok s \<and> db_realloc s = Some f \<and> acct (db_heap s) (length (block (db_buf s)))"

text \<open>The allocator can refuse a request that the buffer makes.\<close>

definition refuses :: "'o realloc_func \<Rightarrow> (libc_heap \<Rightarrow> nat \<Rightarrow> bool) \<Rightarrow> bool" where
  "refuses f acct \<longleftrightarrow> (\<exists>a h p n. n \<noteq> 0 \<and> acct h (length (block p)) \<and> fst (f a h p n) = None)"

definition appends :: "'o realloc_func \<Rightarrow> (libc_heap \<Rightarrow> nat \<Rightarrow> bool) \<Rightarrow> 'o dyn_buf \<Rightarrow> u8 list \<Rightarrow>
    'o db_result \<Rightarrow> bool" where
  "appends f acct s d res \<longleftrightarrow> (\<exists>s' r. res = Some (s', r) \<and> good f acct s'
     \<and> (r = 0 \<and> contents s' = contents s @ d \<and> db_err s' = db_err s
        \<or> r = -1 \<and> contents s' = contents s \<and> db_err s' \<and> (db_err s \<or> refuses f acct)))"

lemma u64_add: "unat a + unat b < 18446744073709551616 \<Longrightarrow> unat (a + b :: u64) = unat a + unat b"
  by (simp add: unat_word_ariths)

lemma u64_less: "unat (a :: u64) < 18446744073709551616"
  using unsigned_less [of a, where 'a = nat] by simp

lemma dbuf_append_good:
  assumes "good f acct s" "unat (db_size s) + length d \<le> unat (db_alloc s)" "take (unat len) data = d"
    "unat len = length d"
  shows "\<exists>s'. dbuf_append s data len = Some (s', 0) \<and> good f acct s'
    \<and> contents s' = contents s @ d \<and> db_err s' = db_err s"
proof (cases "len > 0")
  case True
  then have l: "0 < length d" using assms(4) by (simp add: word_less_nat_alt)
  then obtain b where b: "db_buf s = Some b" "length b = unat (db_alloc s)"
    using assms(1,2) by (auto simp: good_def dbuf_ok_def block_def split: option.splits)
  have sz: "unat (db_size s + len) = unat (db_size s) + length d"
    using assms(2,4) u64_less [of "db_alloc s"] by (subst u64_add) simp_all
  have "length d \<le> length data" using arg_cong [OF assms(3), of length] assms(4) by simp
  then have "dbuf_append s data len = Some (s\<lparr>db_buf := Some (take (unat (db_size s)) b @ d
      @ drop (unat (db_size s) + length d) b), db_size := db_size s + len\<rparr>, 0)"
    using True assms b by (auto simp: dbuf_append_def)
  then show ?thesis
    using assms b sz by (auto simp: good_def dbuf_ok_def contents_def block_def word_le_nat_alt)
next
  case False
  then have "len = 0" by (simp add: word_less_nat_alt flip: unat_eq_zero)
  then show ?thesis using assms by (auto simp: dbuf_append_def)
qed

section \<open>What a buffer relies on\<close>

locale dbuf_allocator =
  fixes f :: "'o realloc_func" and acct :: "libc_heap \<Rightarrow> nat \<Rightarrow> bool"
  assumes realloc_block: "f a h p n = (Some b, a', h') \<Longrightarrow> n \<noteq> 0 \<Longrightarrow> length (block p) \<le> unat n \<Longrightarrow>
      length b = unat n \<and> take (length (block p)) b = block p"
    and acct_grant: "f a h p n = (Some b, a', h') \<Longrightarrow> n \<noteq> 0 \<Longrightarrow> acct h (length (block p)) \<Longrightarrow> acct h' (unat n)"
    and acct_fail: "f a h p n = (None, a', h') \<Longrightarrow> n \<noteq> 0 \<Longrightarrow> acct h k \<Longrightarrow> acct h' k"
    and acct_free: "f a h p 0 = (q, a', h') \<Longrightarrow> acct h (length (block p)) \<Longrightarrow> acct h' 0"
begin

lemma claim_good:
  assumes g: "good f acct s" and fit: "unat (db_size s) + unat len < 18446744073709551616"
  shows "\<exists>s' r. dbuf_claim s len = Some (s', r) \<and> good f acct s' \<and> contents s' = contents s
    \<and> db_size s' = db_size s \<and> (r = 0 \<and> unat (db_size s) + unat len \<le> unat (db_alloc s') \<and> db_err s' = db_err s
        \<or> r = -1 \<and> db_err s' \<and> (db_err s \<or> refuses f acct))"
proof -
  define new_size where "new_size = db_size s + len"
  have ns: "unat new_size = unat (db_size s) + unat len" unfolding new_size_def by (rule u64_add [OF fit])
  then have nov: "\<not> new_size < len" by (simp add: word_less_nat_alt)
  consider "\<not> new_size > db_alloc s" | "new_size > db_alloc s" "db_err s" | "new_size > db_alloc s" "\<not> db_err s"
    by blast
  then show ?thesis
  proof cases
    case 1
    then show ?thesis using g nov ns
      by (simp add: dbuf_claim_def new_size_def [symmetric] word_less_nat_alt)
  next
    case 2
    then show ?thesis using g nov by (simp add: dbuf_claim_def new_size_def [symmetric])
  next
    case 3
    define sz where "sz = db_alloc s + db_alloc s div 2"
    define n where "n = (if sz < new_size \<or> sz < db_alloc s then new_size else sz)"
    have n: "unat new_size \<le> unat n" "db_alloc s < n" "db_size s \<le> n" "n \<noteq> 0"
      using 3 g by (auto simp: n_def word_less_nat_alt word_le_nat_alt good_def dbuf_ok_def)
    have len: "length (block (db_buf s)) \<le> unat n"
      using g n(2) by (simp add: good_def dbuf_ok_def word_less_nat_alt)
    obtain p a h where r: "f (db_opaque s) (db_heap s) (db_buf s) n = (p, a, h)"
      by (metis prod_cases3)
    have e: "dbuf_claim s len = (case p of
        None \<Rightarrow> Some (s\<lparr>db_opaque := a, db_heap := h, db_err := True\<rparr>, -1)
      | Some b \<Rightarrow> Some (s\<lparr>db_opaque := a, db_heap := h, db_buf := Some b, db_alloc := n\<rparr>, 0))"
      using 3 nov g r unfolding dbuf_claim_def Let_def new_size_def [symmetric] sz_def [symmetric]
          n_def [symmetric] by (simp only: good_def if_True if_False option.case) (simp split: option.splits)
    show ?thesis
    proof (cases p)
      case None
      then have "refuses f acct" using r g n(4) unfolding refuses_def good_def by (metis fst_conv)
      then show ?thesis using None g e acct_fail [OF r [unfolded None] n(4)]
        by (auto simp: good_def dbuf_ok_def contents_def)
    next
      case (Some b)
      have b: "length b = unat n" "take (length (block (db_buf s))) b = block (db_buf s)"
        using realloc_block [OF r [unfolded Some] n(4) len] by simp_all
      have "unat (db_size s) \<le> length (block (db_buf s))"
        using g by (simp add: good_def dbuf_ok_def word_le_nat_alt)
      then have "take (unat (db_size s)) b = take (unat (db_size s)) (block (db_buf s))"
        by (metis b(2) min.absorb1 take_take)
      moreover have "acct h (unat n)" using acct_grant [OF r [unfolded Some] n(4)] g by (simp add: good_def)
      ultimately show ?thesis using g e Some b n ns
        by (simp add: good_def dbuf_ok_def contents_def block_def word_less_nat_alt)
    qed
  qed
qed

lemma put_good:
  assumes g: "good f acct s" and fit: "length (contents s) + length d < 18446744073709551616"
    and d: "take (unat len) data = d" "unat len = length d"
  shows "appends f acct s d (dbuf_put s data len)"
proof -
  have fit: "unat (db_size s) + unat len < 18446744073709551616"
    using fit g d(2) length_contents [of s] by (simp add: good_def)
  show ?thesis
  proof (cases "db_size s + len > db_alloc s")
    case True
    from claim_good [OF g fit] obtain s' r where c: "dbuf_claim s len = Some (s', r)" "good f acct s'"
      "contents s' = contents s" "db_size s' = db_size s"
      "r = 0 \<and> unat (db_size s) + unat len \<le> unat (db_alloc s') \<and> db_err s' = db_err s
        \<or> r = -1 \<and> db_err s' \<and> (db_err s \<or> refuses f acct)"
      by blast
    from c(5) show ?thesis
    proof
      assume r: "r = 0 \<and> unat (db_size s) + unat len \<le> unat (db_alloc s') \<and> db_err s' = db_err s"
      with dbuf_append_good [OF c(2) _ d] c d(2) True show ?thesis
        by (auto simp: dbuf_put_def appends_def)
    qed (use c True in \<open>simp add: dbuf_put_def appends_def\<close>)
  next
    case False
    then have "unat (db_size s) + length d \<le> unat (db_alloc s)"
      using d(2) u64_add [OF fit] by (simp add: word_less_nat_alt)
    from dbuf_append_good [OF g this d] False show ?thesis by (auto simp: dbuf_put_def appends_def)
  qed
qed

text \<open>The inline versions for a few bytes do what \<open>dbuf_put\<close> does.\<close>

lemma room:
  assumes "dbuf_ok s" "unat (db_size s) + unat n < 18446744073709551616"
  shows "db_alloc s - db_size s < n \<longleftrightarrow> db_size s + n > db_alloc s"
  using assms u64_add [OF assms(2)]
  by (auto simp: dbuf_ok_def word_less_nat_alt word_le_nat_alt unat_sub)

lemma fast_append:
  "unat n = length d \<Longrightarrow> 0 < length d \<Longrightarrow>
    dbuf_append s d n = do {
      b \<leftarrow> db_buf s; b \<leftarrow> wrs b (unat (db_size s)) d;
      Some (s\<lparr>db_buf := Some b, db_size := db_size s + n\<rparr>, 0) }"
  by (simp add: dbuf_append_def word_less_nat_alt)

lemma inline_puts:
  assumes "good f acct s"
  shows "length (contents s) + 1 < 18446744073709551616 \<Longrightarrow> dbuf_putc s c = dbuf_put s [c] 1"
    and "length (contents s) + 2 < 18446744073709551616 \<Longrightarrow> dbuf_put_u16 s v2 = dbuf_put s (bytes16 v2) 2"
    and "length (contents s) + 4 < 18446744073709551616 \<Longrightarrow> dbuf_put_u32 s v4 = dbuf_put s (bytes32 v4) 4"
    and "length (contents s) + 8 < 18446744073709551616 \<Longrightarrow> dbuf_put_u64 s v8 = dbuf_put s (bytes64 v8) 8"
proof -
  have ok: "dbuf_ok s" using assms by (simp add: good_def)
  note room = room [OF ok]
  note l = length_contents [OF ok]
  show "dbuf_putc s c = dbuf_put s [c] 1" if "length (contents s) + 1 < 18446744073709551616"
    using room [of 1] that l by (simp add: dbuf_putc_def dbuf_putc_slow_def dbuf_put_def fast_append wr_wrs)
  show "dbuf_put_u16 s v2 = dbuf_put s (bytes16 v2) 2" if "length (contents s) + 2 < 18446744073709551616"
    using room [of 2] that l
    by (simp add: dbuf_put_u16_def dbuf_put_u16_slow_def dbuf_put_def fast_append put_u16_def)
  show "dbuf_put_u32 s v4 = dbuf_put s (bytes32 v4) 4" if "length (contents s) + 4 < 18446744073709551616"
    using room [of 4] that l
    by (simp add: dbuf_put_u32_def dbuf_put_u32_slow_def dbuf_put_def fast_append put_u32_def)
  show "dbuf_put_u64 s v8 = dbuf_put s (bytes64 v8) 8" if "length (contents s) + 8 < 18446744073709551616"
    using room [of 8] that l
    by (simp add: dbuf_put_u64_def dbuf_put_u64_slow_def dbuf_put_def fast_append put_u64_def)
qed

lemma putstr_good:
  assumes "good f acct s" "length (contents s) + length d < 18446744073709551616"
  shows "appends f acct s d (dbuf_putstr s d)"
  unfolding dbuf_putstr_def using assms by (intro put_good) (simp_all add: unat_of_nat take_bit_nat_eq_self_iff)

lemma printf_good:
  assumes g: "good f acct s" and fit: "length (contents s) + length d + 1 < 18446744073709551616"
    and int: "int (length d) < INT_MAX"
  shows "appends f acct s d (dbuf_printf s (Some d))"
proof (cases "length d < 128")
  case True
  then have "vsnprintf_to (replicate 128 0) 0 128 (Some d) = Some (d @ [0] @ replicate (127 - length d) 0)"
    by (simp add: vsnprintf_to_def)
  moreover have "vsnprintf_len (Some d) = int (length d)" "int (length d) < 128" using True by (simp_all add: vsnprintf_len_def INT_MAX_def)
  ultimately have "dbuf_printf s (Some d) = dbuf_put s (d @ [0] @ replicate (127 - length d) 0) (of_nat (length d))"
    by (simp add: dbuf_printf_def)
  moreover have "appends f acct s d (dbuf_put s (d @ [0] @ replicate (127 - length d) 0) (of_nat (length d)))"
    using True fit g by (intro put_good) (simp_all add: unat_of_nat take_bit_nat_eq_self_iff)
  ultimately show ?thesis by simp
next
  case False
  have len: "vsnprintf_len (Some d) = int (length d)" "\<not> int (length d) < 128" "int (length d) \<noteq> INT_MAX"
    using False int by (simp_all add: vsnprintf_len_def INT_MAX_def)
  have "\<exists>b. vsnprintf_to (replicate 128 0) 0 128 (Some d) = Some b" using False by (simp add: vsnprintf_to_def)
  then obtain b0 where b0: "vsnprintf_to (replicate 128 0) 0 128 (Some d) = Some b0" by blast
  have w: "word_of_int (int (length d) + 1) = (of_nat (length d + 1) :: u64)"
    "word_of_int (int (length d)) = (of_nat (length d) :: u64)" by simp_all
  define n where "n = (of_nat (length d + 1) :: u64)"
  have n: "unat n = length d + 1" using fit
    unfolding n_def by (subst unat_of_nat) (simp add: take_bit_nat_eq_self_iff)
  have printf: "dbuf_printf s (Some d) = do {
        (s, r) \<leftarrow> dbuf_claim s n;
        if r \<noteq> 0 then Some (s, -1)
        else do {
          b \<leftarrow> db_buf s;
          b \<leftarrow> vsnprintf_to b (unat (db_size s)) (unat (db_alloc s - db_size s)) (Some d);
          Some (s\<lparr>db_buf := Some b, db_size := db_size s + of_nat (length d)\<rparr>, 0) } }"
    unfolding dbuf_printf_def Let_def len(1) b0 Option.bind.simps if_not_P [OF len(2)] if_not_P [OF len(3)] w n_def ..
  have "dbuf_ok s" using g by (simp add: good_def)
  note l = length_contents [OF this]
  have "unat (db_size s) + unat n < 18446744073709551616" using fit l n by simp
  from claim_good [OF g this] obtain s' r where c: "dbuf_claim s n = Some (s', r)" "good f acct s'"
      "contents s' = contents s" "db_size s' = db_size s"
      "r = 0 \<and> unat (db_size s) + unat n \<le> unat (db_alloc s') \<and> db_err s' = db_err s
        \<or> r = -1 \<and> db_err s' \<and> (db_err s \<or> refuses f acct)"
    by blast
  from c(5) show ?thesis
  proof
    assume r: "r = 0 \<and> unat (db_size s) + unat n \<le> unat (db_alloc s') \<and> db_err s' = db_err s"
    have ok: "dbuf_ok s'" using c(2) by (simp add: good_def)
    then obtain b where b: "db_buf s' = Some b" "length b = unat (db_alloc s')"
      using r n by (auto simp: dbuf_ok_def block_def split: option.splits)
    have m: "unat (db_alloc s' - db_size s') = unat (db_alloc s') - unat (db_size s')"
      using ok by (simp add: dbuf_ok_def unat_sub)
    have fit': "unat (db_size s') + unat (of_nat (length d) :: u64) < 18446744073709551616"
      "unat (of_nat (length d) :: u64) = length d"
      using fit l c(4) by (simp_all add: unat_of_nat take_bit_nat_eq_self_iff)
    have "vsnprintf_to b (unat (db_size s')) (unat (db_alloc s' - db_size s')) (Some d)
      = Some (take (unat (db_size s')) b @ (d @ [0]) @ drop (unat (db_size s') + length (d @ [0])) b)"
    proof -
      have "take (unat (db_alloc s' - db_size s') - 1) d = d" "unat (db_alloc s' - db_size s') \<noteq> 0"
        using r n m c(4) by (auto intro!: take_all)
      moreover have "unat (db_size s') + length (d @ [0]) \<le> length b" using r n b(2) c(4) by simp
      ultimately show ?thesis by (simp only: vsnprintf_to_def option.case if_False wrs_in)
    qed
    moreover define s2 where "s2 = s'\<lparr>db_buf := Some (take (unat (db_size s')) b @ (d @ [0])
        @ drop (unat (db_size s') + length (d @ [0])) b), db_size := db_size s' + of_nat (length d)\<rparr>"
    ultimately have "dbuf_printf s (Some d) = Some (s2, 0)"
      using c(1) r b(1) unfolding printf by simp
    moreover have "unat (db_size s') \<le> length b" using ok b(2) by (simp add: dbuf_ok_def word_le_nat_alt)
    then have "good f acct s2" "contents s2 = contents s' @ d" "db_err s2 = db_err s'"
      using c(2,4) r n b u64_add [OF fit'(1)] fit'(2) ok
      by (simp_all add: s2_def good_def dbuf_ok_def contents_def block_def word_le_nat_alt)
    ultimately show ?thesis using c(3) r by (simp add: appends_def)
  qed (use c in \<open>simp add: printf appends_def\<close>)
qed

lemma put_self_good:
  assumes g: "good f acct s" and fit: "length (contents s) + unat len < 18446744073709551616"
    and inside: "unat offset + unat len \<le> length (contents s)"
  shows "appends f acct s (take (unat len) (drop (unat offset) (contents s))) (dbuf_put_self s offset len)"
proof -
  have ok: "dbuf_ok s" using g by (simp add: good_def)
  note l = length_contents [OF ok]
  have fit: "unat (db_size s) + unat len < 18446744073709551616" using fit l by simp
  define d where "d = take (unat len) (drop (unat offset) (contents s))"
  have d: "length d = unat len" using inside by (simp add: d_def)
  have src: "take (unat len) (drop (unat offset) (block (db_buf s'))) = d"
    if "contents s' = contents s" "db_size s' = db_size s" for s'
  proof -
    have "take (unat len) (drop (unat offset) (block (db_buf s')))
        = take (unat len) (drop (unat offset) (contents s'))"
      using inside l that(2) by (simp add: contents_def drop_take min_def)
    then show ?thesis by (simp add: d_def that(1))
  qed
  have self: "dbuf_append_self s' offset len = dbuf_append s' (drop (unat offset) (block (db_buf s'))) len"
    if "db_size s' = db_size s" for s'
    using that inside l by (simp add: dbuf_append_self_def)
  show ?thesis unfolding d_def [symmetric]
  proof (cases "db_size s + len > db_alloc s")
    case True
    from claim_good [OF g fit] obtain s' r where c: "dbuf_claim s len = Some (s', r)" "good f acct s'"
      "contents s' = contents s" "db_size s' = db_size s"
      "r = 0 \<and> unat (db_size s) + unat len \<le> unat (db_alloc s') \<and> db_err s' = db_err s
        \<or> r = -1 \<and> db_err s' \<and> (db_err s \<or> refuses f acct)"
      by blast
    from c(5) show "appends f acct s d (dbuf_put_self s offset len)"
    proof
      assume r: "r = 0 \<and> unat (db_size s) + unat len \<le> unat (db_alloc s') \<and> db_err s' = db_err s"
      have "unat (db_size s') + length d \<le> unat (db_alloc s')" using r c(4) d by simp
      from dbuf_append_good [OF c(2) this src [OF c(3,4)] d [symmetric]] r c True self [OF c(4)]
      show ?thesis by (auto simp: dbuf_put_self_def appends_def)
    qed (use c True in \<open>simp add: dbuf_put_self_def appends_def\<close>)
  next
    case False
    then have "unat (db_size s) + length d \<le> unat (db_alloc s)"
      using d u64_add [OF fit] by (simp add: word_less_nat_alt)
    from dbuf_append_good [OF g this src [OF refl refl] d [symmetric]] False self [of s]
    show "appends f acct s d (dbuf_put_self s offset len)" by (auto simp: dbuf_put_self_def appends_def)
  qed
qed

lemma free_good:
  assumes "good f acct s"
  shows "\<exists>s'. dbuf_free s = Some s' \<and> db_buf s' = None \<and> contents s' = [] \<and> acct (db_heap s') 0
    \<and> dbuf_free s' = Some s'"
proof (cases "db_buf s")
  case None
  then show ?thesis using assms by (simp add: dbuf_free_def good_def block_def contents_def)
next
  case (Some b)
  obtain q a h where r: "f (db_opaque s) (db_heap s) (Some b) 0 = (q, a, h)" by (metis prod_cases3)
  have "acct h 0" using acct_free [OF r] assms by (simp add: good_def Some)
  then show ?thesis using assms Some r by (simp add: dbuf_free_def good_def block_def contents_def)
qed

end

text \<open>An allocator that grants every request while \<open>acct\<close> holds.\<close>

locale dbuf_granting = dbuf_allocator f acct
  for f :: "'o realloc_func" and acct :: "libc_heap \<Rightarrow> nat \<Rightarrow> bool" +
  assumes granting: "acct h (length (block p)) \<Longrightarrow> n \<noteq> 0 \<Longrightarrow> \<exists>b a' h'. f a h p n = (Some b, a', h')"

section \<open>Sequences of operations\<close>

text \<open>
  A client writes a sequence of items and looks at the error mark at the end, as the code does;
  the result collects the return values. (\<open>dbuf_put_self\<close> is not among them: it reads what
  earlier operations must have written.)
\<close>

datatype dbuf_item =
  Bytes "u8 list" | Char u8 | U16 u16 | U32 u32 | U64 u64 | Str "u8 list" | Printf "u8 list option"

fun item_bytes :: "dbuf_item \<Rightarrow> u8 list" where
  "item_bytes (Bytes d) = d"
| "item_bytes (Char c) = [c]"
| "item_bytes (U16 v) = bytes16 v"
| "item_bytes (U32 v) = bytes32 v"
| "item_bytes (U64 v) = bytes64 v"
| "item_bytes (Str d) = d"
| "item_bytes (Printf t) = (case t of None \<Rightarrow> [] | Some d \<Rightarrow> d)"

text \<open>A text that \<open>dbuf_printf\<close> can handle: it is converted, and is shorter than \<^verbatim>\<open>INT_MAX\<close>.\<close>

fun printable :: "dbuf_item \<Rightarrow> bool" where
  "printable (Printf t) \<longleftrightarrow> (case t of None \<Rightarrow> False | Some d \<Rightarrow> int (length d) < INT_MAX)"
| "printable _ \<longleftrightarrow> True"

fun dbuf_item_put :: "'o dyn_buf \<Rightarrow> dbuf_item \<Rightarrow> 'o db_result" where
  "dbuf_item_put s (Bytes d) = dbuf_put s d (of_nat (length d))"
| "dbuf_item_put s (Char c) = dbuf_putc s c"
| "dbuf_item_put s (U16 v) = dbuf_put_u16 s v"
| "dbuf_item_put s (U32 v) = dbuf_put_u32 s v"
| "dbuf_item_put s (U64 v) = dbuf_put_u64 s v"
| "dbuf_item_put s (Str d) = dbuf_putstr s d"
| "dbuf_item_put s (Printf t) = dbuf_printf s t"

fun dbuf_items :: "'o dyn_buf \<Rightarrow> dbuf_item list \<Rightarrow> ('o dyn_buf \<times> int list) option" where
  "dbuf_items s [] = Some (s, [])"
| "dbuf_items s (x # xs) = do {
     (s, r) \<leftarrow> dbuf_item_put s x; (s, rs) \<leftarrow> dbuf_items s xs; Some (s, r # rs) }"

text \<open>The abstract specification: the bytes of the items whose operation succeeded.\<close>

fun written :: "dbuf_item list \<Rightarrow> int list \<Rightarrow> u8 list" where
  "written (x # xs) (r # rs) = (if r = 0 then item_bytes x else []) @ written xs rs"
| "written _ _ = []"

definition total :: "dbuf_item list \<Rightarrow> nat" where
  "total xs = sum_list (map (\<lambda>x. length (item_bytes x)) xs)"

lemma total_Cons [simp]: "total [] = 0" "total (x # xs) = length (item_bytes x) + total xs"
  by (simp_all add: total_def)

context dbuf_allocator
begin

lemma item_good:
  assumes "good f acct s" "length (contents s) + length (item_bytes x) + 1 < 18446744073709551616" "printable x"
  shows "appends f acct s (item_bytes x) (dbuf_item_put s x)"
  using assms
  by (cases x) (auto simp: inline_puts putstr_good printf_good put_good unat_of_nat take_bit_nat_eq_self_iff split: option.splits)

lemma items_good:
  assumes "good f acct s" "length (contents s) + total xs + 1 < 18446744073709551616" "list_all printable xs"
  shows "\<exists>s' rs. dbuf_items s xs = Some (s', rs) \<and> good f acct s' \<and> length rs = length xs
    \<and> set rs \<subseteq> {0, -1} \<and> contents s' = contents s @ written xs rs
    \<and> dbuf_error s' = (dbuf_error s \<or> -1 \<in> set rs)
    \<and> (-1 \<in> set rs \<longrightarrow> dbuf_error s \<or> refuses f acct)"
  using assms
proof (induction xs arbitrary: s)
  case (Cons x xs)
  have "appends f acct s (item_bytes x) (dbuf_item_put s x)" using Cons(2-4) by (intro item_good) simp_all
  then obtain s1 r where s1: "dbuf_item_put s x = Some (s1, r)" "good f acct s1"
    "r = 0 \<and> contents s1 = contents s @ item_bytes x \<and> db_err s1 = db_err s
      \<or> r = -1 \<and> contents s1 = contents s \<and> db_err s1 \<and> (db_err s \<or> refuses f acct)"
    unfolding appends_def by blast
  then have "length (contents s1) + total xs + 1 < 18446744073709551616" using Cons(3) by auto
  from Cons(1) [OF s1(2) this] Cons(4) s1 show ?case by (auto simp: dbuf_error_def)
qed simp

lemma init_good: "acct h 0 \<Longrightarrow> good f acct (dbuf_init2 h a (Some f))"
  by (simp add: good_def dbuf_init2_def dbuf_ok_def block_def)

end

context dbuf_granting
begin

lemma items_granted:
  assumes "good f acct s" "\<not> dbuf_error s" "length (contents s) + total xs + 1 < 18446744073709551616" "list_all printable xs"
  shows "\<exists>s' rs. dbuf_items s xs = Some (s', rs) \<and> good f acct s' \<and> length rs = length xs
    \<and> set rs \<subseteq> {0} \<and> contents s' = contents s @ written xs rs \<and> \<not> dbuf_error s'"
proof -
  have "\<not> refuses f acct"
  proof
    assume "refuses f acct"
    then obtain a h p n where "n \<noteq> 0" "acct h (length (block p))" "fst (f a h p n) = None"
      unfolding refuses_def by blast
    with granting [of h p n a] show False by auto
  qed
  with items_good [OF assms(1,3,4)] assms(2) show ?thesis by blast
qed

end

lemma written_all: "length rs = length xs \<Longrightarrow> set rs \<subseteq> {0} \<Longrightarrow> written xs rs = concat (map item_bytes xs)"
  by (induction xs rs rule: written.induct) auto

section \<open>The default allocator\<close>

text \<open>The heap holds \<open>base\<close> bytes beside the buffer's block.\<close>

definition holds :: "nat \<Rightarrow> libc_heap \<Rightarrow> nat \<Rightarrow> bool" where
  "holds base h n \<longleftrightarrow> live h = base + n"

interpretation libc: dbuf_allocator dbuf_default_realloc "holds base"
  by unfold_locales
    (auto simp: dbuf_default_realloc_def libc_realloc_def libc_free_def holds_def Let_def
      split: if_splits)

interpretation libc_granting: dbuf_granting dbuf_default_realloc
    "\<lambda>h n. holds base h n \<and> (\<forall>t m. grant h t m)"
  by unfold_locales
    (auto simp: dbuf_default_realloc_def libc_realloc_def libc_free_def holds_def Let_def
      split: if_splits)

section \<open>The properties\<close>

text \<open>The code leaves the block, or the local buffer, where \<^verbatim>\<open>vsnprintf\<close> fails or the text is too long.\<close>

lemma dbuf_printf_undefined:
  assumes "dbuf_ok s" "0 < db_size s" "out = None \<or> out = Some t \<and> INT_MAX < int (length t)"
  shows "dbuf_printf s out = None"
proof -
  have "\<exists>b. vsnprintf_to (replicate 128 0) 0 128 out = Some b \<and> length b = 128"
  proof (cases out)
    case (Some u)
    then have "vsnprintf_to (replicate 128 0) 0 128 out = Some (take 127 u @ [0] @ drop (min (length u) 127 + 1) (replicate 128 0))"
      by (simp add: vsnprintf_to_def min_def)
    then show ?thesis by simp
  qed (simp add: vsnprintf_to_def)
  then obtain b where b: "vsnprintf_to (replicate 128 0) 0 128 out = Some b" "length b = 128" by blast
  have len: "vsnprintf_len out = - 1" using assms(3) by (auto simp: vsnprintf_len_def)
  have m: "unat (- 1 :: u64) = 18446744073709551615" by (simp add: unsigned_minus_1_eq_mask mask_eq_exp_minus_1)
  have d: "db_size s + - 1 \<le> db_alloc s"
  proof -
    have "unat (db_size s - 1) = unat (db_size s) - 1" using assms(2) by (intro unat_minus_one) auto
    then have "db_size s + - 1 \<le> db_size s" by (simp add: word_le_nat_alt)
    then show ?thesis using assms(1) by (auto simp: dbuf_ok_def elim: order_trans)
  qed
  have "dbuf_append s b (- 1) = None" using b(2) m by (simp add: dbuf_append_def word_less_nat_alt)
  moreover have "\<not> db_alloc s < db_size s + - 1" using d by (simp add: not_less)
  ultimately show ?thesis using b(1) len by (simp add: dbuf_printf_def dbuf_put_def)
qed

text \<open>Property C15 (refinement): a client that starts from \<open>dbuf_init\<close>, writes a sequence of items by
  the operations of the buffer and looks at \<open>dbuf_error\<close> at the end gets what an append-only byte
  list specifies, whatever requests for memory the heap refuses, provided that the texts it gives to
  \<open>dbuf_printf\<close> can be converted and are shorter than \<^verbatim>\<open>INT_MAX\<close> (otherwise the code leaves its
  buffers: \<open>dbuf_printf_undefined\<close>): no operation leaves its block, the contents are the bytes of the
  items whose operation returned 0, the error mark is set exactly if one returned -1, and if the heap
  grants every request, all succeed and the contents are the bytes of all items.\<close>
theorem dbuf_refines_append_list:
  assumes "total xs + 1 < 18446744073709551616" "list_all printable xs"
  shows "\<exists>s rs. dbuf_items (dbuf_init h :: 'o dyn_buf) xs = Some (s, rs) \<and> dbuf_ok s
    \<and> contents s = written xs rs \<and> length rs = length xs \<and> set rs \<subseteq> {0, -1}
    \<and> dbuf_error s = (-1 \<in> set rs)
    \<and> ((\<forall>t n. grant h t n) \<longrightarrow> contents s = concat (map item_bytes xs) \<and> \<not> dbuf_error s)"
proof -
  have i: "(dbuf_init h :: 'o dyn_buf) = dbuf_init2 h None (Some dbuf_default_realloc)"
    by (simp add: dbuf_init_def dbuf_init2_def)
  have c: "contents (dbuf_init h :: 'o dyn_buf) = []" "\<not> dbuf_error (dbuf_init h :: 'o dyn_buf)"
    by (simp_all add: dbuf_init_def dbuf_init2_def contents_def dbuf_error_def)
  have "good dbuf_default_realloc (holds (live h)) (dbuf_init h :: 'o dyn_buf)"
    unfolding i by (rule libc.init_good) (simp add: holds_def)
  from libc.items_good [OF this, of xs] assms c obtain s :: "'o dyn_buf" and rs where
    a: "dbuf_items (dbuf_init h) xs = Some (s, rs)" "good dbuf_default_realloc (holds (live h)) s"
      "length rs = length xs" "set rs \<subseteq> {0, -1}" "contents s = written xs rs" "dbuf_error s = (-1 \<in> set rs)"
    by auto
  moreover have "contents s = concat (map item_bytes xs) \<and> \<not> dbuf_error s" if "\<forall>t n. grant h t n"
  proof -
    have "good dbuf_default_realloc (\<lambda>h' n. holds (live h) h' n \<and> (\<forall>t m. grant h' t m)) (dbuf_init h :: 'o dyn_buf)"
      unfolding i by (rule libc_granting.init_good) (simp add: holds_def that)
    from libc_granting.items_granted [OF this c(2), of xs] assms c a(1) written_all [of rs xs] show ?thesis
      by auto
  qed
  ultimately show ?thesis by (auto simp: good_def)
qed

theorem dbuf_refines_append_list_witness:
  "\<exists>s rs. dbuf_items (dbuf_init \<lparr>tick = 0, grant = \<lambda>t n. t \<noteq> 1, junk = 0, live = 7\<rparr> :: unit dyn_buf)
      [Bytes [1, 2, 3], U32 0x11223344, Printf (Some [52, 50]), Char 9] = Some (s, rs)
    \<and> contents s = written [Bytes [1, 2, 3], U32 0x11223344, Printf (Some [52, 50]), Char 9] rs"
proof -
  let ?xs = "[Bytes [1, 2, 3], U32 0x11223344, Printf (Some [52, 50]), Char 9]"
  have "total ?xs + 1 < 18446744073709551616" "list_all printable ?xs" by (simp_all add: INT_MAX_def bytes32_def)
  from dbuf_refines_append_list [OF this, of "\<lparr>tick = 0, grant = \<lambda>t n. t \<noteq> 1, junk = 0, live = 7\<rparr>"] show ?thesis by blast
qed

text \<open>Property C36 (invariant): \<open>dbuf_put_self\<close> on a range of the contents appends a copy of it or
  fails without a change, also where the block moves while it grows; it keeps the invariant and
  the balance of the heap, so that \<open>dbuf_free\<close> afterwards gives back all bytes that the buffer
  held, and a second \<open>dbuf_free\<close> changes nothing.\<close>
theorem dbuf_put_self_invariant:
  assumes "dbuf_ok s" "db_realloc s = Some dbuf_default_realloc"
    and "live (db_heap s) = base + unat (db_alloc s)"
    and "unat offset + unat len \<le> length (contents s)"
    and "length (contents s) + unat len < 18446744073709551616"
  shows "\<exists>s' r s''. dbuf_put_self s offset len = Some (s', r) \<and> dbuf_ok s'
    \<and> (r = 0 \<and> contents s' = contents s @ take (unat len) (drop (unat offset) (contents s))
          \<and> dbuf_error s' = dbuf_error s
        \<or> r = -1 \<and> contents s' = contents s \<and> dbuf_error s')
    \<and> live (db_heap s') = base + unat (db_alloc s')
    \<and> dbuf_free s' = Some s'' \<and> live (db_heap s'') = base \<and> dbuf_free s'' = Some s''"
proof -
  have g: "good dbuf_default_realloc (holds base) s" using assms by (simp add: good_def holds_def dbuf_ok_def)
  from libc.put_self_good [OF g assms(5,4)] obtain s' r where s': "dbuf_put_self s offset len = Some (s', r)"
      "good dbuf_default_realloc (holds base) s'"
      "r = 0 \<and> contents s' = contents s @ take (unat len) (drop (unat offset) (contents s)) \<and> db_err s' = db_err s
        \<or> r = -1 \<and> contents s' = contents s \<and> db_err s'"
    unfolding appends_def by blast
  from libc.free_good [OF s'(2)] obtain s'' where
    s'': "dbuf_free s' = Some s''" "holds base (db_heap s'') 0" "dbuf_free s'' = Some s''" by blast
  have "dbuf_ok s'" "live (db_heap s') = base + unat (db_alloc s')"
    using s'(2) by (simp_all add: good_def holds_def dbuf_ok_def)
  with s' s'' show ?thesis by (auto simp: holds_def dbuf_error_def)
qed

theorem dbuf_put_self_invariant_witness:
  "\<exists>s' r s''. dbuf_put_self (\<lparr>db_buf = Some [1, 2, 3, 4], db_size = 4, db_alloc = 4, db_err = False,
      db_realloc = Some dbuf_default_realloc, db_opaque = None,
      db_heap = \<lparr>tick = 0, grant = \<lambda>t n. True, junk = 0, live = 9\<rparr>\<rparr> :: unit dyn_buf) 1 3 = Some (s', r)
    \<and> dbuf_free s' = Some s'' \<and> live (db_heap s'') = 5"
  using dbuf_put_self_invariant [of "\<lparr>db_buf = Some [1, 2, 3, 4], db_size = 4, db_alloc = 4, db_err = False,
      db_realloc = Some dbuf_default_realloc, db_opaque = None,
      db_heap = \<lparr>tick = 0, grant = \<lambda>t n. True, junk = 0, live = 9\<rparr>\<rparr> :: unit dyn_buf" 5 1 3]
  by (fastforce simp: dbuf_ok_def contents_def block_def)

end
