(* ===== verification/CString.thy ===== *)
theory CString
  imports Prelude "HOL-Library.Sublist"
begin

text \<open>
  The C string helpers of \<^verbatim>\<open>quickjs/cutils.h\<close>: bounded copy and concatenation, prefix and suffix
  tests, on memory with checked access. \<open>cstr\<close> is the string a block of memory holds.
\<close>

definition cstr :: "u8 list \<Rightarrow> u8 list" where
  "cstr bs = takeWhile (\<lambda>b. b \<noteq> 0) bs"

section \<open>The code\<close>

text \<open>The library's \<^verbatim>\<open>strlen\<close>; \<open>None\<close> if no terminator is found.\<close>

definition strlen :: "u8 list \<Rightarrow> nat option" where
  "strlen bs = (if 0 \<in> set bs then Some (length (cstr bs)) else None)"

text \<open>The copy from the source's position on to position \<open>q\<close>; the loop stops at the last byte.\<close>

fun pstrcpy_loop :: "u8 list \<Rightarrow> nat \<Rightarrow> int \<Rightarrow> u8 list \<Rightarrow> u8 list option" where
  "pstrcpy_loop buf q buf_size [] = None"
| "pstrcpy_loop buf q buf_size (c # str) =
     (if c = 0 \<or> int q \<ge> buf_size - 1 then wr buf q 0
      else do { buf \<leftarrow> wr buf q c; pstrcpy_loop buf (q + 1) buf_size str })"

definition js_pstrcpy :: "u8 list \<Rightarrow> int \<Rightarrow> u8 list \<Rightarrow> u8 list option" where
  "js_pstrcpy buf buf_size str = (if buf_size \<le> 0 then Some buf else pstrcpy_loop buf 0 buf_size str)"

definition js_pstrcat :: "u8 list \<Rightarrow> int \<Rightarrow> u8 list \<Rightarrow> u8 list option" where
  "js_pstrcat buf buf_size s = do {
     len \<leftarrow> strlen buf;
     if int len < buf_size then do {
       b \<leftarrow> js_pstrcpy (drop len buf) (buf_size - int len) s;
       Some (take len buf @ b) }
     else Some buf }"

text \<open>The position in \<open>str\<close> after the prefix \<open>val\<close>, if it has it; -1 if not.\<close>

fun strstart_loop :: "u8 list \<Rightarrow> nat \<Rightarrow> u8 list \<Rightarrow> int option" where
  "strstart_loop str p [] = None"
| "strstart_loop str p (q # val) =
     (if q \<noteq> 0 then do { c \<leftarrow> rd str p; if c \<noteq> q then Some (-1) else strstart_loop str (p + 1) val }
      else Some (int p))"

definition js_strstart :: "u8 list \<Rightarrow> u8 list \<Rightarrow> int option" where
  "js_strstart str val = strstart_loop str 0 val"

definition js_has_suffix :: "u8 list \<Rightarrow> u8 list \<Rightarrow> bool option" where
  "js_has_suffix str sfx = do {
     len \<leftarrow> strlen str; slen \<leftarrow> strlen sfx;
     Some (len \<ge> slen \<and> take slen (drop (len - slen) str) = take slen sfx) }"

section \<open>Lemmas\<close>

lemma cstr_append: "0 \<notin> set xs \<Longrightarrow> cstr (xs @ 0 # ys) = xs"
  unfolding cstr_def by (subst takeWhile_append2) auto

lemma cstr_split: "0 \<in> set bs \<Longrightarrow> \<exists>r. bs = cstr bs @ 0 # r \<and> 0 \<notin> set (cstr bs)"
proof (induction bs)
  case (Cons b bs)
  then show ?case by (cases "b = 0") (auto simp: cstr_def)
qed simp

lemma pstrcpy_loop_value:
  "0 \<notin> set s \<Longrightarrow> int q < buf_size \<Longrightarrow> buf_size \<le> int (length buf) \<Longrightarrow>
    pstrcpy_loop buf q buf_size (s @ 0 # r) =
      wrs buf q (take (nat (buf_size - 1) - q) s @ [0])"
proof (induction s arbitrary: buf q)
  case Nil
  then show ?case by (simp add: wr_def wrs_def upd_conv_take_nth_drop)
next
  case (Cons c s)
  show ?case
  proof (cases "int q \<ge> buf_size - 1")
    case True
    then have "nat (buf_size - 1) - q = 0" by simp
    then show ?thesis using True Cons by (simp add: wr_def wrs_def upd_conv_take_nth_drop)
  next
    case False
    then obtain k where k: "nat (buf_size - 1) - q = Suc k" "nat (buf_size - 1) - Suc q = k"
      by (cases "nat (buf_size - 1) - q") auto
    have "pstrcpy_loop buf q buf_size ((c # s) @ 0 # r) =
      wrs (buf[q := c]) (Suc q) (take k s @ [0])"
      using False Cons k by simp
    also have "\<dots> = wrs buf q (take (Suc k) (c # s) @ [0])"
      using Cons(3,4) by (auto simp: wrs_def upd_conv_take_nth_drop take_Suc_conv_app_nth add.commute)
    finally show ?thesis using k by simp
  qed
qed

lemma js_pstrcpy_value:
  assumes "0 \<in> set str" "0 < buf_size" "buf_size \<le> int (length buf)"
  shows "js_pstrcpy buf buf_size str = Some (take (nat (buf_size - 1)) (cstr str) @ [0]
    @ drop (length (take (nat (buf_size - 1)) (cstr str)) + 1) buf)"
proof -
  from cstr_split [OF assms(1)] obtain r where r: "str = cstr str @ 0 # r" "0 \<notin> set (cstr str)" by blast
  have "pstrcpy_loop buf 0 buf_size (cstr str @ 0 # r) = wrs buf 0 (take (nat (buf_size - 1)) (cstr str) @ [0])"
    using pstrcpy_loop_value [OF r(2), of 0 buf_size buf r] assms by simp
  also have "\<dots> = Some (take (nat (buf_size - 1)) (cstr str) @ [0]
    @ drop (length (take (nat (buf_size - 1)) (cstr str)) + 1) buf)"
    using assms by (subst wrs_in) auto
  finally show ?thesis using assms(2) r(1) by (simp add: js_pstrcpy_def)
qed

lemma strstart_loop_value:
  "0 \<notin> set v \<Longrightarrow> 0 \<notin> set s \<Longrightarrow> strstart_loop (pre @ s @ 0 # r) (length pre) (v @ 0 # r') =
    Some (if prefix v s then int (length pre + length v) else -1)"
proof (induction v arbitrary: s pre)
  case (Cons q v)
  show ?case
  proof (cases s)
    case Nil
    then show ?thesis using Cons by simp
  next
    case (Cons c s')
    with Cons.IH [of s' "pre @ [c]"] Cons.prems show ?thesis by auto
  qed
qed simp

lemma js_strstart_value:
  assumes "0 \<in> set str" "0 \<in> set val"
  shows "js_strstart str val = Some (if prefix (cstr val) (cstr str) then int (length (cstr val)) else -1)"
proof -
  from cstr_split [OF assms(1)] obtain r where r: "str = cstr str @ 0 # r" "0 \<notin> set (cstr str)" by blast
  from cstr_split [OF assms(2)] obtain r' where r': "val = cstr val @ 0 # r'" "0 \<notin> set (cstr val)" by blast
  show ?thesis
    using strstart_loop_value [OF r'(2) r(2), of "[]" r r'] unfolding js_strstart_def
    by (subst r(1), subst r'(1)) simp
qed

lemma js_has_suffix_value:
  assumes "0 \<in> set str" "0 \<in> set sfx"
  shows "js_has_suffix str sfx = Some (suffix (cstr sfx) (cstr str))"
proof -
  from cstr_split [OF assms(1)] obtain r where r: "str = cstr str @ 0 # r" by blast
  from cstr_split [OF assms(2)] obtain r' where r': "sfx = cstr sfx @ 0 # r'" by blast
  define a b where "a = cstr str" and "b = cstr sfx"
  have "(length b \<le> length a \<and> take (length b) (drop (length a - length b) str) = take (length b) sfx)
      = suffix b a"
  proof -
    have "take (length b) sfx = b" by (subst r') (simp add: b_def)
    moreover have "length b \<le> length a \<Longrightarrow> take (length b) (drop (length a - length b) str) = drop (length a - length b) a"
      by (subst r) (simp add: a_def)
    ultimately show ?thesis
      by (metis append_take_drop_id diff_diff_cancel length_drop suffixI suffix_length_le suffix_take
          append_eq_append_conv)
  qed
  then show ?thesis using assms by (simp add: js_has_suffix_def strlen_def a_def b_def)
qed

section \<open>The property\<close>

lemma cstr_no_zero: "0 \<notin> set (take k (cstr x))"
  using set_take_subset [of k "cstr x"] by (auto simp: cstr_def dest: set_takeWhileD)

lemma pstrcpy_bytes:
  assumes "0 \<in> set str" "0 < m" "m \<le> length buf"
  shows "js_pstrcpy buf (int m) str = Some (take (m - 1) (cstr str) @ 0 # drop (length (take (m - 1) (cstr str)) + 1) buf)"
  using js_pstrcpy_value [OF assms(1), of "int m" buf] assms(2,3) by (simp add: nat_diff_distrib)

lemma pstrcpy_result:
  assumes "0 \<in> set str" "0 < n" "n \<le> length buf"
  shows "\<exists>b. js_pstrcpy buf (int n) str = Some b \<and> cstr b = take (n - 1) (cstr str)
    \<and> 0 \<in> set (take n b) \<and> length b = length buf \<and> drop n b = drop n buf"
proof -
  define b where "b = take (n - 1) (cstr str) @ 0 # drop (length (take (n - 1) (cstr str)) + 1) buf"
  have whole: "length (take (n - 1) (cstr str)) + 1 \<le> n" using assms(2) by auto
  have "cstr b = take (n - 1) (cstr str)" using cstr_no_zero by (simp add: b_def cstr_append)
  moreover have "0 \<in> set (take n b)" "length b = length buf" "drop n b = drop n buf"
    using whole assms(2,3) unfolding b_def by (simp_all add: take_Cons' drop_Cons' min_def)
  ultimately show ?thesis using pstrcpy_bytes [OF assms] by (simp add: b_def)
qed

lemma pstrcat_result:
  assumes "0 \<in> set str" "0 < n" "n \<le> length buf" "0 \<in> set (take n buf)"
  shows "\<exists>b. js_pstrcat buf (int n) str = Some b \<and> cstr b = take (n - 1) (cstr buf @ cstr str)
    \<and> 0 \<in> set (take n b) \<and> length b = length buf \<and> drop n b = drop n buf"
proof -
  note no0 = cstr_no_zero
  have buf0: "0 \<in> set buf" using assms(4) by (meson in_set_takeD)
  from cstr_split [OF buf0] obtain r where r: "buf = cstr buf @ 0 # r" "0 \<notin> set (cstr buf)" by blast
  define len where "len = length (cstr buf)"
  have len: "len < n"
  proof (rule ccontr)
    assume "\<not> len < n"
    then have "take n buf = take n (cstr buf)" by (subst r(1)) (simp add: len_def)
    with assms(4) no0 [of n buf] show False by simp
  qed
  have whole: "length (take (n - len - 1) (cstr str)) + 1 \<le> n - len" using len by auto
  have dl: "0 < n - len" "n - len \<le> length (drop len buf)" using len assms(3) by simp_all
  define b2 where "b2 = take (n - len - 1) (cstr str) @ 0 # drop (length (take (n - len - 1) (cstr str)) + 1) (drop len buf)"
  have b2: "js_pstrcpy (drop len buf) (int (n - len)) str = Some b2" using pstrcpy_bytes [OF assms(1) dl] by (simp only: b2_def)
  have cat: "js_pstrcat buf (int n) str = Some (take len buf @ b2)"
    using b2 len buf0 by (simp add: js_pstrcat_def strlen_def len_def of_nat_diff)
  have tl: "take len buf = cstr buf" by (subst r(1)) (simp add: len_def)
  have "cstr (cstr buf @ take (n - len - 1) (cstr str) @ 0 # x) = cstr buf @ take (n - len - 1) (cstr str)" for x
    using cstr_append [of "cstr buf @ take (n - len - 1) (cstr str)" x] r(2) no0 by simp
  then have "cstr (take len buf @ b2) = take (n - 1) (cstr buf @ cstr str)"
    using len unfolding tl b2_def by (simp add: len_def)
  moreover have "0 \<in> set (take n (take len buf @ b2))"
    using whole len unfolding tl b2_def by (auto simp: len_def take_Cons' min_def)
  moreover have "length (take len buf @ b2) = length buf" "drop n (take len buf @ b2) = drop n buf"
    using whole len assms(3) unfolding b2_def by (simp_all add: drop_Cons' min_def)
  ultimately show ?thesis using cat by blast
qed

text \<open>Property C37 (bounds): on strings with a terminator, \<open>js__pstrcpy\<close> leaves in a buffer of
  \<open>n\<close> bytes, whatever it holds, the longest prefix of the source that fits with its terminator, and
  \<open>js__pstrcat\<close>, in a buffer that holds a string, that of the concatenation; neither writes behind the \<open>n\<close> bytes nor reads behind a terminator, and
  \<open>js__strstart\<close> and \<open>js__has_suffix\<close> decide prefix and suffix, the former with the position after it.\<close>
theorem c_string_helpers:
  assumes "0 \<in> set str" "0 \<in> set str2" "0 < n" "n \<le> length buf"
  shows "(\<exists>b. js_pstrcpy buf (int n) str = Some b \<and> cstr b = take (n - 1) (cstr str)
      \<and> 0 \<in> set (take n b) \<and> length b = length buf \<and> drop n b = drop n buf)
    \<and> (0 \<in> set (take n buf) \<longrightarrow> (\<exists>b. js_pstrcat buf (int n) str = Some b \<and> cstr b = take (n - 1) (cstr buf @ cstr str)
      \<and> 0 \<in> set (take n b) \<and> length b = length buf \<and> drop n b = drop n buf))
    \<and> js_strstart str str2 = Some (if prefix (cstr str2) (cstr str) then int (length (cstr str2)) else -1)
    \<and> js_has_suffix str str2 = Some (suffix (cstr str2) (cstr str))"
  using pstrcpy_result [OF assms(1,3,4)] pstrcat_result [OF assms(1,3,4)] js_strstart_value [OF assms(1,2)]
    js_has_suffix_value [OF assms(1,2)] by simp

theorem c_string_helpers_witness:
  "\<exists>b. js_pstrcat [97, 0, 1, 2, 3] 4 [98, 99, 100, 0] = Some b \<and> cstr b = [97, 98, 99]"
  using c_string_helpers [of "[98, 99, 100, 0]" "[0]" 4 "[97, 0, 1, 2, 3]"]
  by (auto simp: cstr_def)

end
