(* ===== verification/CircList.thy ===== *)
theory CircList
  imports Prelude
begin

text \<open>
  The circular doubly linked lists of \<^verbatim>\<open>quickjs/list.h\<close>. The heap maps addresses to list nodes,
  0 is NULL, and an access to an address without a node is undefined behaviour. The abstract
  value of a list head is the list of the addresses of its elements.
\<close>

section \<open>The code\<close>

type_synonym addr = nat

record list_head =
  prev :: addr
  "next" :: addr

type_synonym nodes = "addr \<Rightarrow> list_head option"

definition set_prev :: "nodes \<Rightarrow> addr \<Rightarrow> addr \<Rightarrow> nodes option" where
  "set_prev h p v = do { n \<leftarrow> h p; Some (h(p \<mapsto> n\<lparr>prev := v\<rparr>)) }"

definition set_next :: "nodes \<Rightarrow> addr \<Rightarrow> addr \<Rightarrow> nodes option" where
  "set_next h p v = do { n \<leftarrow> h p; Some (h(p \<mapsto> n\<lparr>next := v\<rparr>)) }"

definition init_list_head :: "nodes \<Rightarrow> addr \<Rightarrow> nodes option" where
  "init_list_head h head = do { h \<leftarrow> set_prev h head head; set_next h head head }"

definition list_add_between :: "nodes \<Rightarrow> addr \<Rightarrow> addr \<Rightarrow> addr \<Rightarrow> nodes option" where
  "list_add_between h el prv nxt = do {
     h \<leftarrow> set_next h prv el;
     h \<leftarrow> set_prev h el prv;
     h \<leftarrow> set_next h el nxt;
     set_prev h nxt el }"

definition list_add :: "nodes \<Rightarrow> addr \<Rightarrow> addr \<Rightarrow> nodes option" where
  "list_add h el head = do { n \<leftarrow> h head; list_add_between h el head (next n) }"

definition list_add_tail :: "nodes \<Rightarrow> addr \<Rightarrow> addr \<Rightarrow> nodes option" where
  "list_add_tail h el head = do { n \<leftarrow> h head; list_add_between h el (prev n) head }"

definition list_del :: "nodes \<Rightarrow> addr \<Rightarrow> nodes option" where
  "list_del h el = do {
     n \<leftarrow> h el;
     h \<leftarrow> set_next h (prev n) (next n);
     h \<leftarrow> set_prev h (next n) (prev n);
     h \<leftarrow> set_prev h el 0;
     set_next h el 0 }"

definition list_empty :: "nodes \<Rightarrow> addr \<Rightarrow> bool option" where
  "list_empty h el = do { n \<leftarrow> h el; Some (next n = el) }"

text \<open>
  The loops that the macros make, with the addresses that the body sees. They end only if the
  chain of nodes leads back to the head.
\<close>

partial_function (option) for_each_from :: "nodes \<Rightarrow> addr \<Rightarrow> addr \<Rightarrow> addr list option" where
  "for_each_from h head el =
     (if el = head then Some []
      else do { n \<leftarrow> h el; r \<leftarrow> for_each_from h head (next n); Some (el # r) })"

partial_function (option) for_each_prev_from :: "nodes \<Rightarrow> addr \<Rightarrow> addr \<Rightarrow> addr list option" where
  "for_each_prev_from h head el =
     (if el = head then Some []
      else do { n \<leftarrow> h el; r \<leftarrow> for_each_prev_from h head (prev n); Some (el # r) })"

text \<open>The safe loops read the next element before the body, which may change the list.\<close>

partial_function (option) for_each_safe_from ::
    "(nodes \<Rightarrow> addr \<Rightarrow> nodes option) \<Rightarrow> addr \<Rightarrow> nodes \<Rightarrow> addr \<Rightarrow> addr \<Rightarrow> (nodes \<times> addr list) option" where
  "for_each_safe_from body head h el el1 =
     (if el = head then Some (h, [])
      else do {
        h \<leftarrow> body h el; n \<leftarrow> h el1;
        (h, r) \<leftarrow> for_each_safe_from body head h el1 (next n);
        Some (h, el # r) })"

partial_function (option) for_each_prev_safe_from ::
    "(nodes \<Rightarrow> addr \<Rightarrow> nodes option) \<Rightarrow> addr \<Rightarrow> nodes \<Rightarrow> addr \<Rightarrow> addr \<Rightarrow> (nodes \<times> addr list) option" where
  "for_each_prev_safe_from body head h el el1 =
     (if el = head then Some (h, [])
      else do {
        h \<leftarrow> body h el; n \<leftarrow> h el1;
        (h, r) \<leftarrow> for_each_prev_safe_from body head h el1 (prev n);
        Some (h, el # r) })"

declare for_each_from.simps [code] for_each_prev_from.simps [code]
  for_each_safe_from.simps [code] for_each_prev_safe_from.simps [code]

definition list_for_each :: "nodes \<Rightarrow> addr \<Rightarrow> addr list option" where
  "list_for_each h head = do { n \<leftarrow> h head; for_each_from h head (next n) }"

definition list_for_each_prev :: "nodes \<Rightarrow> addr \<Rightarrow> addr list option" where
  "list_for_each_prev h head = do { n \<leftarrow> h head; for_each_prev_from h head (prev n) }"

definition list_for_each_safe ::
    "(nodes \<Rightarrow> addr \<Rightarrow> nodes option) \<Rightarrow> nodes \<Rightarrow> addr \<Rightarrow> (nodes \<times> addr list) option" where
  "list_for_each_safe body h head = do {
     n \<leftarrow> h head; n1 \<leftarrow> h (next n); for_each_safe_from body head h (next n) (next n1) }"

definition list_for_each_prev_safe ::
    "(nodes \<Rightarrow> addr \<Rightarrow> nodes option) \<Rightarrow> nodes \<Rightarrow> addr \<Rightarrow> (nodes \<times> addr list) option" where
  "list_for_each_prev_safe body h head = do {
     n \<leftarrow> h head; n1 \<leftarrow> h (prev n); for_each_prev_safe_from body head h (prev n) (prev n1) }"

section \<open>The representation\<close>

text \<open>Consecutive addresses point to each other, and the elements form a ring with the head.\<close>

fun linked :: "(addr \<Rightarrow> addr option) \<Rightarrow> (addr \<Rightarrow> addr option) \<Rightarrow> addr list \<Rightarrow> bool" where
  "linked nx pv (x # y # r) \<longleftrightarrow> nx x = Some y \<and> pv y = Some x \<and> linked nx pv (y # r)"
| "linked nx pv _ \<longleftrightarrow> True"

definition nx :: "nodes \<Rightarrow> addr \<Rightarrow> addr option" where "nx h p = map_option next (h p)"
definition pv :: "nodes \<Rightarrow> addr \<Rightarrow> addr option" where "pv h p = map_option prev (h p)"

definition is_list :: "nodes \<Rightarrow> addr \<Rightarrow> addr list \<Rightarrow> bool" where
  "is_list h head xs \<longleftrightarrow> distinct (head # xs) \<and> linked (nx h) (pv h) (head # xs @ [head])"

lemma linked_split:
  "linked n p (xs @ [x] @ ys) \<longleftrightarrow> linked n p (xs @ [x]) \<and> linked n p (x # ys)"
  by (induction xs rule: induct_list012; cases ys) simp_all

lemma linked_cong:
  "linked n p xs \<Longrightarrow> (\<And>x. x \<in> set (butlast xs) \<Longrightarrow> n' x = n x) \<Longrightarrow>
    (\<And>x. x \<in> set (tl xs) \<Longrightarrow> p' x = p x) \<Longrightarrow> linked n' p' xs"
  by (induction n p xs rule: linked.induct) auto

lemma linked_nx_Some:
  "linked n p (xs @ x # y # ys) \<Longrightarrow> n x = Some y \<and> p y = Some x"
  using linked_split [of n p xs x "y # ys"] by simp

lemma set_next_fields:
  assumes "h p \<noteq> None"
  obtains h' where "set_next h p v = Some h'" "nx h' = (nx h)(p \<mapsto> v)" "pv h' = pv h"
    "\<And>q. h' q = None \<longleftrightarrow> h q = None" "\<And>q. q \<noteq> p \<Longrightarrow> h' q = h q"
proof -
  from assms obtain n where n: "h p = Some n" by auto
  show thesis by (rule that [of "h(p \<mapsto> n\<lparr>next := v\<rparr>)"]) (auto simp: set_next_def nx_def pv_def n)
qed

lemma set_prev_fields:
  assumes "h p \<noteq> None"
  obtains h' where "set_prev h p v = Some h'" "pv h' = (pv h)(p \<mapsto> v)" "nx h' = nx h"
    "\<And>q. h' q = None \<longleftrightarrow> h q = None" "\<And>q. q \<noteq> p \<Longrightarrow> h' q = h q"
proof -
  from assms obtain n where n: "h p = Some n" by auto
  show thesis by (rule that [of "h(p \<mapsto> n\<lparr>prev := v\<rparr>)"]) (auto simp: set_prev_def nx_def pv_def n)
qed

lemma nx_None: "nx h p = None \<longleftrightarrow> h p = None" "pv h p = None \<longleftrightarrow> h p = None"
  by (simp_all add: nx_def pv_def)

lemma add_between_fields:
  assumes "h a \<noteq> None" "h el \<noteq> None" "h b \<noteq> None" "el \<noteq> a" "el \<noteq> b"
  obtains h' where "list_add_between h el a b = Some h'"
    "nx h' = (nx h)(a \<mapsto> el, el \<mapsto> b)" "pv h' = (pv h)(el \<mapsto> a, b \<mapsto> el)"
    "\<And>q. q \<notin> {a, b, el} \<Longrightarrow> h' q = h q"
proof -
  obtain h1 where h1: "set_next h a el = Some h1" "nx h1 = (nx h)(a \<mapsto> el)" "pv h1 = pv h"
    "\<And>q. h1 q = None \<longleftrightarrow> h q = None" "\<And>q. q \<noteq> a \<Longrightarrow> h1 q = h q"
    using set_next_fields [of h a, OF assms(1)] by blast
  have "h1 el \<noteq> None" using h1(4) assms by simp
  then obtain h2 where h2: "set_prev h1 el a = Some h2" "pv h2 = (pv h1)(el \<mapsto> a)" "nx h2 = nx h1"
    "\<And>q. h2 q = None \<longleftrightarrow> h1 q = None" "\<And>q. q \<noteq> el \<Longrightarrow> h2 q = h1 q"
    using set_prev_fields by blast
  have "h2 el \<noteq> None" using h1(4) h2(4) assms by simp
  then obtain h3 where h3: "set_next h2 el b = Some h3" "nx h3 = (nx h2)(el \<mapsto> b)" "pv h3 = pv h2"
    "\<And>q. h3 q = None \<longleftrightarrow> h2 q = None" "\<And>q. q \<noteq> el \<Longrightarrow> h3 q = h2 q"
    using set_next_fields by blast
  have "h3 b \<noteq> None" using h1(4) h2(4) h3(4) assms by simp
  then obtain h4 where h4: "set_prev h3 b el = Some h4" "pv h4 = (pv h3)(b \<mapsto> el)" "nx h4 = nx h3"
    "\<And>q. h4 q = None \<longleftrightarrow> h3 q = None" "\<And>q. q \<noteq> b \<Longrightarrow> h4 q = h3 q"
    using set_prev_fields by blast
  show thesis using that [of h4] h1 h2 h3 h4 by (simp add: list_add_between_def)
qed

text \<open>An insertion between the parts \<open>as\<close> and \<open>bs\<close> of a list.\<close>

lemma add_between_list:
  assumes l: "is_list h head (as @ bs)" and el: "el \<notin> set (head # as @ bs)" "h el \<noteq> None"
    and a: "last (head # as) = a" and b: "hd (bs @ [head]) = b"
  shows "\<exists>h'. list_add_between h el a b = Some h' \<and> is_list h' head (as @ el # bs)
    \<and> (\<forall>q. q \<notin> set (head # el # as @ bs) \<longrightarrow> h' q = h q)"
proof -
  define as0 where "as0 = butlast (head # as)"
  have as: "head # as = as0 @ [a]" unfolding as0_def a [symmetric] by simp
  define bs0 where "bs0 = tl (bs @ [head])"
  have bs: "bs @ [head] = b # bs0" unfolding bs0_def b [symmetric] by simp
  have d: "distinct (head # as @ bs)" using l by (simp add: is_list_def)
  have ring: "head # (as @ bs) @ [head] = as0 @ a # b # bs0" using as bs by simp
  then have lk: "linked (nx h) (pv h) (as0 @ a # b # bs0)" using l by (simp add: is_list_def)
  have parts: "linked (nx h) (pv h) (as0 @ [a])" "linked (nx h) (pv h) (b # bs0)"
    using lk linked_split [of "nx h" "pv h" as0 a "b # bs0"] by auto
  have ab: "a \<in> set (head # as)" "b \<in> set (bs @ [head])" by (simp_all add: as bs)
  have ex: "h a \<noteq> None" "h b \<noteq> None" "h el \<noteq> None" "el \<noteq> a" "el \<noteq> b"
    using linked_nx_Some [OF lk] el ab by (auto simp: nx_def pv_def)
  obtain h' where h': "list_add_between h el a b = Some h'"
    "nx h' = (nx h)(a \<mapsto> el, el \<mapsto> b)" "pv h' = (pv h)(el \<mapsto> a, b \<mapsto> el)"
    "\<And>q. q \<notin> {a, b, el} \<Longrightarrow> h' q = h q" using add_between_fields [OF ex(1,3,2,4,5)] by blast
  have da: "distinct (as0 @ [a])" using d unfolding as [symmetric] by simp
  have "linked (nx h') (pv h') (as0 @ [a])"
  proof (rule linked_cong [OF parts(1)])
    show "nx h' x = nx h x" if "x \<in> set (butlast (as0 @ [a]))" for x
    proof -
      have "x \<in> set as0" using that by simp
      then have "x \<in> set (head # as)" by (simp only: as) simp
      then have "x \<noteq> el" "x \<noteq> a" using el(1) da \<open>x \<in> set as0\<close> by auto
      then show ?thesis by (simp add: h'(2))
    qed
    show "pv h' x = pv h x" if "x \<in> set (tl (as0 @ [a]))" for x
    proof -
      have "x \<in> set as" using that as [symmetric] by simp
      then have "x \<noteq> el" "x \<noteq> b" using el(1) ab(2) d by auto
      then show ?thesis by (simp add: h'(3))
    qed
  qed
  moreover have "linked (nx h') (pv h') (b # bs0)"
  proof (rule linked_cong [OF parts(2)])
    show "nx h' x = nx h x" if "x \<in> set (butlast (b # bs0))" for x
    proof -
      have "x \<in> set bs" using that unfolding bs [symmetric] by simp
      then have "x \<noteq> el" "x \<noteq> a" using el(1) ab(1) d by auto
      then show ?thesis by (simp add: h'(2))
    qed
    show "pv h' x = pv h x" if "x \<in> set (tl (b # bs0))" for x
    proof -
      have "x \<noteq> el \<and> x \<noteq> b" using that el(1) d bs by (cases bs) auto
      then show ?thesis by (simp add: h'(3))
    qed
  qed
  moreover have "nx h' a = Some el" "nx h' el = Some b" "pv h' el = Some a" "pv h' b = Some el"
    using ex by (simp_all add: h')
  ultimately have "linked (nx h') (pv h') (as0 @ [a] @ [el] @ [b] @ bs0)"
    by (subst linked_split) simp
  moreover have "as0 @ [a] @ [el] @ [b] @ bs0 = head # (as @ el # bs) @ [head]"
    using as bs by (metis append.assoc append_Cons append_Nil)
  ultimately have "is_list h' head (as @ el # bs)" using d el(1) by (auto simp: is_list_def)
  moreover have "h' q = h q" if "q \<notin> set (head # el # as @ bs)" for q
    using that ab by (intro h'(4)) auto
  ultimately show ?thesis using h'(1) by blast
qed


lemma is_list_ends:
  assumes "is_list h head xs"
  shows "\<exists>n. h head = Some n \<and> next n = hd (xs @ [head]) \<and> prev n = last (head # xs)"
proof -
  have l: "linked (nx h) (pv h) (head # xs @ [head])" using assms by (simp add: is_list_def)
  have "nx h head = Some (hd (xs @ [head]))" using l by (cases xs) simp_all
  moreover have "pv h head = Some (last (head # xs))"
    using linked_nx_Some [of "nx h" "pv h" "butlast (head # xs)" "last (head # xs)" head "[]"] l
    by (metis append.assoc append_Cons append_Nil append_butlast_last_id list.discI)
  ultimately show ?thesis by (auto simp: nx_def pv_def)
qed

lemma list_add_list:
  assumes "is_list h head xs" "el \<notin> set (head # xs)" "h el \<noteq> None"
  shows "\<exists>h'. list_add h el head = Some h' \<and> is_list h' head (el # xs)
    \<and> (\<forall>q. q \<notin> set (head # el # xs) \<longrightarrow> h' q = h q)"
  using add_between_list [of h head "[]" xs el] is_list_ends [OF assms(1)] assms
  by (auto simp: list_add_def)

lemma list_add_tail_list:
  assumes "is_list h head xs" "el \<notin> set (head # xs)" "h el \<noteq> None"
  shows "\<exists>h'. list_add_tail h el head = Some h' \<and> is_list h' head (xs @ [el])
    \<and> (\<forall>q. q \<notin> set (head # el # xs) \<longrightarrow> h' q = h q)"
  using add_between_list [of h head xs "[]" el] is_list_ends [OF assms(1)] assms
  by (auto simp: list_add_tail_def)

text \<open>The removal of the element between the parts \<open>as\<close> and \<open>bs\<close>.\<close>

lemma list_del_fields:
  assumes "h el = Some \<lparr>prev = a, next = b\<rparr>" "h a \<noteq> None" "h b \<noteq> None"
  obtains h' where "list_del h el = Some h'" "nx h' = (nx h)(a \<mapsto> b, el \<mapsto> 0)" "pv h' = (pv h)(b \<mapsto> a, el \<mapsto> 0)"
    "\<And>q. q \<notin> {a, b, el} \<Longrightarrow> h' q = h q"
proof -
  obtain h1 where h1: "set_next h a b = Some h1" "nx h1 = (nx h)(a \<mapsto> b)" "pv h1 = pv h"
    "\<And>q. h1 q = None \<longleftrightarrow> h q = None" "\<And>q. q \<noteq> a \<Longrightarrow> h1 q = h q"
    using set_next_fields [of h a, OF assms(2)] by blast
  have "h1 b \<noteq> None" using h1(4) assms by simp
  then obtain h2 where h2: "set_prev h1 b a = Some h2" "pv h2 = (pv h1)(b \<mapsto> a)" "nx h2 = nx h1"
    "\<And>q. h2 q = None \<longleftrightarrow> h1 q = None" "\<And>q. q \<noteq> b \<Longrightarrow> h2 q = h1 q"
    using set_prev_fields by blast
  have "h2 el \<noteq> None" using h1(4) h2(4) assms by simp
  then obtain h3 where h3: "set_prev h2 el 0 = Some h3" "pv h3 = (pv h2)(el \<mapsto> 0)" "nx h3 = nx h2"
    "\<And>q. h3 q = None \<longleftrightarrow> h2 q = None" "\<And>q. q \<noteq> el \<Longrightarrow> h3 q = h2 q"
    using set_prev_fields by blast
  have "h3 el \<noteq> None" using h1(4) h2(4) h3(4) assms by simp
  then obtain h4 where h4: "set_next h3 el 0 = Some h4" "nx h4 = (nx h3)(el \<mapsto> 0)" "pv h4 = pv h3"
    "\<And>q. h4 q = None \<longleftrightarrow> h3 q = None" "\<And>q. q \<noteq> el \<Longrightarrow> h4 q = h3 q"
    using set_next_fields by blast
  show thesis using that [of h4] h1 h2 h3 h4 assms(1) by (simp add: list_del_def)
qed

lemma list_del_list:
  assumes l: "is_list h head (as @ el # bs)"
  shows "\<exists>h'. list_del h el = Some h' \<and> is_list h' head (as @ bs)
    \<and> h' el = Some \<lparr>prev = 0, next = 0\<rparr> \<and> (\<forall>q. q \<notin> set (head # as @ el # bs) \<longrightarrow> h' q = h q)"
proof -
  define a as0 where "a = last (head # as)" and "as0 = butlast (head # as)"
  have as: "head # as = as0 @ [a]" unfolding as0_def a_def by simp
  define b bs0 where "b = hd (bs @ [head])" and "bs0 = tl (bs @ [head])"
  have bs: "bs @ [head] = b # bs0" unfolding bs0_def b_def by simp
  have d: "distinct (head # as @ el # bs)" using l by (simp add: is_list_def)
  have ring: "head # (as @ el # bs) @ [head] = as0 @ a # el # b # bs0" using as bs by simp
  then have lk: "linked (nx h) (pv h) (as0 @ a # el # b # bs0)" using l by (simp add: is_list_def)
  have parts: "linked (nx h) (pv h) (as0 @ [a])" "linked (nx h) (pv h) (b # bs0)"
    using lk linked_split [of "nx h" "pv h" as0 a "el # b # bs0"] by auto
  have ab: "a \<in> set (head # as)" "b \<in> set (bs @ [head])" by (simp_all add: as bs)
  have e: "nx h a = Some el" "pv h el = Some a" "nx h el = Some b" "pv h b = Some el"
    using linked_nx_Some [OF lk] lk linked_split [of "nx h" "pv h" as0 a "el # b # bs0"] by auto
  then have ex: "h el = Some \<lparr>prev = a, next = b\<rparr>" "h a \<noteq> None" "h b \<noteq> None"
    by (auto simp: nx_def pv_def)
  obtain h' where h': "list_del h el = Some h'" "nx h' = (nx h)(a \<mapsto> b, el \<mapsto> 0)"
    "pv h' = (pv h)(b \<mapsto> a, el \<mapsto> 0)" "\<And>q. q \<notin> {a, b, el} \<Longrightarrow> h' q = h q"
    using list_del_fields [OF ex] by blast
  have ne: "el \<noteq> a" "el \<noteq> b" using d ab by auto
  have da: "distinct (as0 @ [a])" using d unfolding as [symmetric] by simp
  have "linked (nx h') (pv h') (as0 @ [a])"
  proof (rule linked_cong [OF parts(1)])
    show "nx h' x = nx h x" if "x \<in> set (butlast (as0 @ [a]))" for x
    proof -
      have "x \<in> set as0" using that by simp
      then have "x \<in> set (head # as)" by (simp only: as) simp
      then have "x \<noteq> el" "x \<noteq> a" using d da \<open>x \<in> set as0\<close> by auto
      then show ?thesis by (simp add: h'(2))
    qed
    show "pv h' x = pv h x" if "x \<in> set (tl (as0 @ [a]))" for x
    proof -
      have "x \<in> set as" using that as [symmetric] by simp
      then have "x \<noteq> el" "x \<noteq> b" using ab(2) d by auto
      then show ?thesis by (simp add: h'(3))
    qed
  qed
  moreover have "linked (nx h') (pv h') (b # bs0)"
  proof (rule linked_cong [OF parts(2)])
    show "nx h' x = nx h x" if "x \<in> set (butlast (b # bs0))" for x
    proof -
      have "x \<in> set bs" using that unfolding bs [symmetric] by simp
      then have "x \<noteq> el" "x \<noteq> a" using ab(1) d by auto
      then show ?thesis by (simp add: h'(2))
    qed
    show "pv h' x = pv h x" if "x \<in> set (tl (b # bs0))" for x
    proof -
      have "x \<noteq> el \<and> x \<noteq> b" using that d bs by (cases bs) auto
      then show ?thesis by (simp add: h'(3))
    qed
  qed
  moreover have "nx h' a = Some b" "pv h' b = Some a" using ne by (simp_all add: h')
  ultimately have "linked (nx h') (pv h') (as0 @ [a] @ [b] @ bs0)"
    by (subst linked_split) simp
  moreover have "as0 @ [a] @ [b] @ bs0 = head # (as @ bs) @ [head]"
    using as bs by (metis append.assoc append_Cons append_Nil)
  ultimately have "is_list h' head (as @ bs)" using d by (auto simp: is_list_def)
  moreover have "nx h' el = Some 0" "pv h' el = Some 0" by (simp_all add: h')
  then have "h' el = Some \<lparr>prev = 0, next = 0\<rparr>" by (auto simp: nx_def pv_def)
  moreover have "h' q = h q" if "q \<notin> set (head # as @ el # bs)" for q
    using that ab by (intro h'(4)) auto
  ultimately show ?thesis using h'(1) by blast
qed

lemma list_empty_list: "is_list h head xs \<Longrightarrow> list_empty h head = Some (xs = [])"
  using is_list_ends [of h head xs] by (cases xs) (auto simp: list_empty_def is_list_def)

section \<open>The loops\<close>

lemma stop: "for_each_from h head head = Some []" "for_each_prev_from h head head = Some []"
    "for_each_safe_from body head h head el1 = Some (h, [])"
    "for_each_prev_safe_from body head h head el1 = Some (h, [])"
  by (simp_all add: for_each_from.simps for_each_prev_from.simps for_each_safe_from.simps
      for_each_prev_safe_from.simps)

lemma for_each_from_list:
  "linked (nx h) (pv h) (x # xs @ [head]) \<Longrightarrow> head \<notin> set (x # xs) \<Longrightarrow>
    for_each_from h head x = Some (x # xs)"
proof (induction xs arbitrary: x)
  case Nil
  then show ?case
    by (subst for_each_from.simps) (auto simp: nx_def bind_Some_iff stop)
next
  case (Cons y ys)
  then have "for_each_from h head y = Some (y # ys)" by simp
  with Cons(2,3) show ?case by (subst for_each_from.simps) (auto simp: nx_def)
qed

lemma list_for_each_list:
  assumes "is_list h head xs"
  shows "list_for_each h head = Some xs"
proof -
  obtain n where n: "h head = Some n" "next n = hd (xs @ [head])" using is_list_ends [OF assms] by blast
  show ?thesis
  proof (cases xs)
    case Nil
    then show ?thesis using n by (simp add: list_for_each_def for_each_from.simps)
  next
    case (Cons x ys)
    then have "for_each_from h head x = Some (x # ys)"
      using assms by (intro for_each_from_list) (auto simp: is_list_def)
    then show ?thesis using n Cons by (simp add: list_for_each_def)
  qed
qed

lemma for_each_prev_from_list:
  "linked (nx h) (pv h) (head # xs @ [x]) \<Longrightarrow> head \<notin> set (x # xs) \<Longrightarrow>
    for_each_prev_from h head x = Some (x # rev xs)"
proof (induction xs arbitrary: x rule: rev_induct)
  case Nil
  then show ?case
    by (subst for_each_prev_from.simps) (auto simp: pv_def stop)
next
  case (snoc y ys)
  have s: "linked (nx h) (pv h) ((head # ys) @ [y] @ [x])" using snoc(2) by simp
  then have "linked (nx h) (pv h) ((head # ys) @ [y])" "linked (nx h) (pv h) [y, x]"
    unfolding linked_split by simp_all
  with snoc have "for_each_prev_from h head y = Some (y # rev ys)" "pv h x = Some y" by simp_all
  with snoc(3) show ?case by (subst for_each_prev_from.simps) (auto simp: pv_def)
qed

lemma list_for_each_prev_list:
  assumes "is_list h head xs"
  shows "list_for_each_prev h head = Some (rev xs)"
proof -
  obtain n where n: "h head = Some n" "prev n = last (head # xs)" using is_list_ends [OF assms] by blast
  show ?thesis
  proof (cases xs rule: rev_cases)
    case Nil
    then show ?thesis using n by (simp add: list_for_each_prev_def for_each_prev_from.simps)
  next
    case (snoc ys x)
    have "linked (nx h) (pv h) ((head # ys) @ [x] @ [head])" using assms snoc by (simp add: is_list_def)
    then have "linked (nx h) (pv h) (head # ys @ [x])" unfolding linked_split by simp
    then have "for_each_prev_from h head x = Some (x # rev ys)"
      using assms snoc by (intro for_each_prev_from_list) (auto simp: is_list_def)
    then show ?thesis using n snoc by (simp add: list_for_each_prev_def)
  qed
qed

text \<open>The safe loops with a body that takes each element out of the list.\<close>

lemma hd_last_links:
  assumes "is_list h head xs"
  shows "\<exists>n. h (hd (xs @ [head])) = Some n \<and> (xs \<noteq> [] \<longrightarrow> next n = hd (tl xs @ [head]))"
    and "\<exists>n. h (last (head # xs)) = Some n \<and> (xs \<noteq> [] \<longrightarrow> prev n = last (head # butlast xs))"
proof -
  have l: "linked (nx h) (pv h) (head # xs @ [head])" using assms by (simp add: is_list_def)
  show "\<exists>n. h (hd (xs @ [head])) = Some n \<and> (xs \<noteq> [] \<longrightarrow> next n = hd (tl xs @ [head]))"
  proof (cases xs)
    case (Cons x ys)
    then have "nx h x = Some (hd (ys @ [head]))" using l by (cases ys) simp_all
    then show ?thesis using Cons by (auto simp: nx_def)
  qed (use is_list_ends [OF assms] in auto)
  show "\<exists>n. h (last (head # xs)) = Some n \<and> (xs \<noteq> [] \<longrightarrow> prev n = last (head # butlast xs))"
  proof (cases xs rule: rev_cases)
    case (snoc ys x)
    have "linked (nx h) (pv h) (butlast (head # ys) @ last (head # ys) # x # [head])"
      using l snoc append_butlast_last_id [of "head # ys"]
      by (metis append.assoc append_Cons append_Nil list.discI)
    then have "pv h x = Some (last (head # ys))" using linked_nx_Some by blast
    then show ?thesis using snoc by (auto simp: pv_def)
  qed (use is_list_ends [OF assms] in auto)
qed

lemma safe_from_del:
  assumes "is_list h head xs" "h (hd (xs @ [head])) = Some n"
  shows "\<exists>h'. for_each_safe_from list_del head h (hd (xs @ [head])) (next n) = Some (h', xs)
    \<and> is_list h' head [] \<and> (\<forall>q. q \<notin> set (head # xs) \<longrightarrow> h' q = h q)"
  using assms
proof (induction xs arbitrary: h n)
  case (Cons x xs)
  have n: "next n = hd (xs @ [head])" using hd_last_links(1) [OF Cons(2)] Cons(3) by auto
  from list_del_list [of h head "[]" x xs] Cons(2) obtain h1 where h1: "list_del h x = Some h1"
    "is_list h1 head xs" "\<forall>q. q \<notin> set (head # x # xs) \<longrightarrow> h1 q = h q" by auto
  obtain n1 where n1: "h1 (hd (xs @ [head])) = Some n1" using hd_last_links(1) [OF h1(2)] by blast
  from Cons(1) [OF h1(2) n1] obtain h' where h': "for_each_safe_from list_del head h1 (hd (xs @ [head])) (next n1) = Some (h', xs)"
    "is_list h' head []" "\<forall>q. q \<notin> set (head # xs) \<longrightarrow> h' q = h1 q" by blast
  have "x \<noteq> head" using Cons(2) by (auto simp: is_list_def)
  then have "for_each_safe_from list_del head h x (next n) = Some (h', x # xs)"
    by (subst for_each_safe_from.simps) (simp add: h1(1) n n1 h'(1))
  then show ?case using h' h1(3) by auto
qed (auto simp: stop)

lemma prev_safe_from_del:
  assumes "is_list h head xs" "h (last (head # xs)) = Some n"
  shows "\<exists>h'. for_each_prev_safe_from list_del head h (last (head # xs)) (prev n) = Some (h', rev xs)
    \<and> is_list h' head [] \<and> (\<forall>q. q \<notin> set (head # xs) \<longrightarrow> h' q = h q)"
  using assms
proof (induction xs arbitrary: h n rule: rev_induct)
  case (snoc x xs)
  have n: "prev n = last (head # xs)" using hd_last_links(2) [OF snoc(2)] snoc(3) by auto
  from list_del_list [of h head xs x "[]"] snoc(2) obtain h1 where h1: "list_del h x = Some h1"
    "is_list h1 head xs" "\<forall>q. q \<notin> set (head # xs @ [x]) \<longrightarrow> h1 q = h q" by auto
  obtain n1 where n1: "h1 (last (head # xs)) = Some n1" using hd_last_links(2) [OF h1(2)] by blast
  from snoc(1) [OF h1(2) n1] obtain h' where h': "for_each_prev_safe_from list_del head h1 (last (head # xs)) (prev n1) = Some (h', rev xs)"
    "is_list h' head []" "\<forall>q. q \<notin> set (head # xs) \<longrightarrow> h' q = h1 q" by blast
  have "x \<noteq> head" using snoc(2) by (auto simp: is_list_def)
  then have "for_each_prev_safe_from list_del head h x (prev n) = Some (h', x # rev xs)"
    using n by (subst for_each_prev_safe_from.simps) (simp add: h1(1) n1 [simplified] h'(1) [simplified])
  then show ?case using h' h1(3) by auto
qed (auto simp: stop)

section \<open>The properties\<close>

text \<open>Property C21 (refinement): the list operations implement operations on a list of distinct
  elements. For a ring of nodes that represents \<open>xs\<close> and an allocated node \<open>el\<close> outside it,
  \<open>list_add\<close> and \<open>list_add_tail\<close> put \<open>el\<close> first or last, \<open>list_del\<close> takes out any one element and
  clears its pointers, \<open>list_empty\<close> tests for the empty list; every node outside the ring is
  unchanged, so other lists are too, and no operation follows a bad pointer.\<close>
theorem list_operations_refine:
  assumes "is_list h head xs" "el \<notin> set (head # xs)" "h el \<noteq> None"
  shows "(\<exists>h'. list_add h el head = Some h' \<and> is_list h' head (el # xs)
      \<and> (\<forall>q. q \<notin> set (head # el # xs) \<longrightarrow> h' q = h q))
    \<and> (\<exists>h'. list_add_tail h el head = Some h' \<and> is_list h' head (xs @ [el])
      \<and> (\<forall>q. q \<notin> set (head # el # xs) \<longrightarrow> h' q = h q))
    \<and> (\<forall>x \<in> set xs. \<exists>h'. list_del h x = Some h' \<and> is_list h' head (remove1 x xs) \<and> h' x = Some \<lparr>prev = 0, next = 0\<rparr>
      \<and> (\<forall>q. q \<notin> set (head # xs) \<longrightarrow> h' q = h q))
    \<and> list_empty h head = Some (xs = [])
    \<and> (\<exists>h'. init_list_head h el = Some h' \<and> is_list h' el [] \<and> is_list h' head xs)"
proof -
  have del: "\<exists>h'. list_del h x = Some h' \<and> is_list h' head (remove1 x xs)
      \<and> h' x = Some \<lparr>prev = 0, next = 0\<rparr> \<and> (\<forall>q. q \<notin> set (head # xs) \<longrightarrow> h' q = h q)" if "x \<in> set xs" for x
  proof -
    from split_list_first [OF that] obtain as bs where x: "xs = as @ x # bs" "x \<notin> set as" by blast
    then have "remove1 x xs = as @ bs" by (simp add: remove1_append)
    with list_del_list [of h head as x bs] assms(1) x(1) show ?thesis by simp
  qed
  have "\<exists>h'. init_list_head h el = Some h' \<and> is_list h' el [] \<and> is_list h' head xs"
  proof -
    from assms(3) obtain n where n: "h el = Some n" by auto
    define h' where "h' = h(el \<mapsto> n\<lparr>prev := el, next := el\<rparr>)"
    have "init_list_head h el = Some h'"
      by (simp add: init_list_head_def set_prev_def set_next_def n h'_def)
    moreover have "is_list h' el []" by (simp add: is_list_def nx_def pv_def h'_def)
    moreover have "linked (nx h') (pv h') (head # xs @ [head])"
    proof (rule linked_cong)
      show "linked (nx h) (pv h) (head # xs @ [head])" using assms(1) by (simp add: is_list_def)
    qed (use assms(2) in \<open>auto simp: nx_def pv_def h'_def split: if_splits\<close>)
    then have "is_list h' head xs" using assms(1) by (simp add: is_list_def)
    ultimately show ?thesis by blast
  qed
  then show ?thesis
    using list_add_list [OF assms(1-3)] list_add_tail_list [OF assms(1-3)] list_empty_list [OF assms(1)] del
    by blast
qed

theorem list_operations_refine_witness:
  "\<exists>h'. list_add_tail [1 \<mapsto> \<lparr>prev = 3, next = 2\<rparr>, 2 \<mapsto> \<lparr>prev = 1, next = 3\<rparr>, 3 \<mapsto> \<lparr>prev = 2, next = 1\<rparr>,
      4 \<mapsto> \<lparr>prev = 0, next = 0\<rparr>] 4 1 = Some h' \<and> is_list h' 1 [2, 3, 4]"
  using list_operations_refine [of "[1 \<mapsto> \<lparr>prev = 3, next = 2\<rparr>, 2 \<mapsto> \<lparr>prev = 1, next = 3\<rparr>,
      3 \<mapsto> \<lparr>prev = 2, next = 1\<rparr>, 4 \<mapsto> \<lparr>prev = 0, next = 0\<rparr>]" 1 "[2, 3]" 4]
  by (fastforce simp: is_list_def nx_def pv_def)

text \<open>Property C38 (termination): on a ring of nodes that represents \<open>xs\<close>, every loop macro ends and
  visits exactly the elements, in order or in reverse; the safe loops still do when their body
  deletes each element it is given, and leave the empty list.\<close>
theorem list_loops_terminate:
  assumes "is_list h head xs"
  shows "list_for_each h head = Some xs \<and> list_for_each_prev h head = Some (rev xs)
    \<and> (\<exists>h'. list_for_each_safe list_del h head = Some (h', xs) \<and> is_list h' head []
        \<and> (\<forall>q. q \<notin> set (head # xs) \<longrightarrow> h' q = h q))
    \<and> (\<exists>h'. list_for_each_prev_safe list_del h head = Some (h', rev xs) \<and> is_list h' head []
        \<and> (\<forall>q. q \<notin> set (head # xs) \<longrightarrow> h' q = h q))"
proof -
  obtain n where n: "h head = Some n" "next n = hd (xs @ [head])" "prev n = last (head # xs)"
    using is_list_ends [OF assms] by blast
  obtain n1 n2 where "h (hd (xs @ [head])) = Some n1" "h (last (head # xs)) = Some n2"
    using hd_last_links [OF assms] by blast
  with safe_from_del [OF assms this(1)] prev_safe_from_del [OF assms this(2)] n show ?thesis
    using list_for_each_list [OF assms] list_for_each_prev_list [OF assms]
    by (simp add: list_for_each_safe_def list_for_each_prev_safe_def)
qed

theorem list_loops_terminate_witness:
  "list_for_each_prev [1 \<mapsto> \<lparr>prev = 3, next = 2\<rparr>, 2 \<mapsto> \<lparr>prev = 1, next = 3\<rparr>, 3 \<mapsto> \<lparr>prev = 2, next = 1\<rparr>] 1
    = Some [3, 2]"
  using list_loops_terminate [of "[1 \<mapsto> \<lparr>prev = 3, next = 2\<rparr>, 2 \<mapsto> \<lparr>prev = 1, next = 3\<rparr>,
      3 \<mapsto> \<lparr>prev = 2, next = 1\<rparr>]" 1 "[2, 3]"]
  by (simp add: is_list_def nx_def pv_def)

end
