(* ===== verification/Exchange.thy ===== *)
theory Exchange
  imports Prelude
begin

text \<open>
  The exchange functions that \<^verbatim>\<open>rqsort\<close> of \<^verbatim>\<open>quickjs/cutils.h\<close> chooses from by the alignment of the
  array and the size of its elements. Memory is a list of bytes, or of larger units: a unit of
  \<open>u\<close> list items is moved at once. The theorem says that whatever function is chosen, it moves
  aligned units and exchanges two elements, or two runs of elements, of the array.
\<close>

section \<open>The code\<close>

definition get_unit :: "nat \<Rightarrow> 'a list \<Rightarrow> nat \<Rightarrow> 'a list option" where
  "get_unit u mem p = (if p + u \<le> length mem then Some (take u (drop p mem)) else None)"

definition exchange_unit :: "nat \<Rightarrow> 'a list \<Rightarrow> nat \<Rightarrow> nat \<Rightarrow> 'a list option" where
  "exchange_unit u mem a b = do {
     t \<leftarrow> get_unit u mem a; v \<leftarrow> get_unit u mem b; mem \<leftarrow> wrs mem a v; wrs mem b t }"

fun exchange_units :: "nat \<Rightarrow> 'a list \<Rightarrow> nat \<Rightarrow> nat \<Rightarrow> nat \<Rightarrow> 'a list option" where
  "exchange_units u mem a b 0 = Some mem"
| "exchange_units u mem a b (Suc n) = do {
     mem \<leftarrow> exchange_unit u mem a b; exchange_units u mem (a + u) (b + u) n }"

definition exchange_bytes :: "u8 list \<Rightarrow> nat \<Rightarrow> nat \<Rightarrow> nat \<Rightarrow> u8 list option" where
  "exchange_bytes mem a b sz = exchange_units 1 mem a b sz"

definition exchange_one_byte :: "u8 list \<Rightarrow> nat \<Rightarrow> nat \<Rightarrow> nat \<Rightarrow> u8 list option" where
  "exchange_one_byte mem a b sz = exchange_unit 1 mem a b"

definition exchange_int16s :: "u8 list \<Rightarrow> nat \<Rightarrow> nat \<Rightarrow> nat \<Rightarrow> u8 list option" where
  "exchange_int16s mem a b sz = exchange_units 2 mem a b (sz div 2)"

definition exchange_one_int16 :: "u8 list \<Rightarrow> nat \<Rightarrow> nat \<Rightarrow> nat \<Rightarrow> u8 list option" where
  "exchange_one_int16 mem a b sz = exchange_unit 2 mem a b"

definition exchange_int32s :: "u8 list \<Rightarrow> nat \<Rightarrow> nat \<Rightarrow> nat \<Rightarrow> u8 list option" where
  "exchange_int32s mem a b sz = exchange_units 4 mem a b (sz div 4)"

definition exchange_one_int32 :: "u8 list \<Rightarrow> nat \<Rightarrow> nat \<Rightarrow> nat \<Rightarrow> u8 list option" where
  "exchange_one_int32 mem a b sz = exchange_unit 4 mem a b"

definition exchange_int64s :: "u8 list \<Rightarrow> nat \<Rightarrow> nat \<Rightarrow> nat \<Rightarrow> u8 list option" where
  "exchange_int64s mem a b sz = exchange_units 8 mem a b (sz div 8)"

definition exchange_one_int64 :: "u8 list \<Rightarrow> nat \<Rightarrow> nat \<Rightarrow> nat \<Rightarrow> u8 list option" where
  "exchange_one_int64 mem a b sz = exchange_unit 8 mem a b"

definition exchange_int128s :: "u8 list \<Rightarrow> nat \<Rightarrow> nat \<Rightarrow> nat \<Rightarrow> u8 list option" where
  "exchange_int128s mem a b sz = exchange_units 16 mem a b (sz div 16)"

definition exchange_one_int128 :: "u8 list \<Rightarrow> nat \<Rightarrow> nat \<Rightarrow> nat \<Rightarrow> u8 list option" where
  "exchange_one_int128 mem a b sz = exchange_unit 16 mem a b"

text \<open>A pointer to one of these functions.\<close>

datatype exchange_f = One_byte | Bytes | One_int16 | Int16s | One_int32 | Int32s
  | One_int64 | Int64s | One_int128 | Int128s

fun exchange :: "exchange_f \<Rightarrow> u8 list \<Rightarrow> nat \<Rightarrow> nat \<Rightarrow> nat \<Rightarrow> u8 list option" where
  "exchange One_byte = exchange_one_byte"
| "exchange Bytes = exchange_bytes"
| "exchange One_int16 = exchange_one_int16"
| "exchange Int16s = exchange_int16s"
| "exchange One_int32 = exchange_one_int32"
| "exchange Int32s = exchange_int32s"
| "exchange One_int64 = exchange_one_int64"
| "exchange Int64s = exchange_int64s"
| "exchange One_int128 = exchange_one_int128"
| "exchange Int128s = exchange_int128s"

definition exchange_func :: "nat \<Rightarrow> nat \<Rightarrow> exchange_f" where
  "exchange_func base sz =
     (let k = (base OR sz) AND 15 in
      if k = 0 then if sz = 16 then One_int128 else Int128s
      else if k = 8 then if sz = 8 then One_int64 else Int64s
      else if k \<in> {4, 12} then if sz = 4 then One_int32 else Int32s
      else if k \<in> {2, 6, 10, 14} then if sz = 2 then One_int16 else Int16s
      else if sz = 1 then One_byte else Bytes)"

section \<open>Exchanging two runs of a list\<close>

lemma exchange_unit_parts:
  assumes "length x = u" "length y = u"
  shows "exchange_unit u (as @ x @ ms @ y @ bs) (length as) (length as + u + length ms)
      = Some (as @ y @ ms @ x @ bs)"
    and "exchange_unit u (as @ x @ ms @ y @ bs) (length as + u + length ms) (length as)
      = Some (as @ y @ ms @ x @ bs)"
  using assms by (auto simp: exchange_unit_def get_unit_def wrs_def)

lemma exchange_unit_same: "p + u \<le> length mem \<Longrightarrow> exchange_unit u mem p p = Some mem"
proof -
  assume "p + u \<le> length mem"
  then have "mem = take p mem @ take u (drop p mem) @ drop (p + u) mem" "min u (length mem - p) = u"
    by (auto simp: add.commute) (metis append_take_drop_id drop_drop add.commute)
  then show ?thesis using \<open>p + u \<le> length mem\<close>
    by (simp add: exchange_unit_def get_unit_def wrs_def)
qed

lemma exchange_units_parts:
  "length xs = n * u \<Longrightarrow> length ys = n * u \<Longrightarrow>
    exchange_units u (as @ xs @ ms @ ys @ bs) (length as) (length as + n * u + length ms) n
      = Some (as @ ys @ ms @ xs @ bs)
    \<and> exchange_units u (as @ xs @ ms @ ys @ bs) (length as + n * u + length ms) (length as) n
      = Some (as @ ys @ ms @ xs @ bs)"
proof (induction n arbitrary: as xs ms ys)
  case (Suc n)
  define x xs' y ys' where "x = take u xs" "xs' = drop u xs" "y = take u ys" "ys' = drop u ys"
  then have p: "xs = x @ xs'" "ys = y @ ys'" "length x = u" "length y = u"
    "length xs' = n * u" "length ys' = n * u" using Suc(2,3) by simp_all
  have l: "length as + Suc n * u + length ms = length as + u + length (xs' @ ms)"
    "length as + Suc n * u + length ms + u = length (as @ y) + n * u + length (ms @ x)"
    using p by simp_all
  show ?case
    using exchange_unit_parts [OF p(3,4), of as "xs' @ ms" "ys' @ bs"]
      Suc(1) [OF p(5,6), of "as @ y" "ms @ x"]
    unfolding p(1,2) exchange_units.simps l by (simp add: p add.assoc add.left_commute add.commute)
qed simp

lemma exchange_units_same: "p + n * u \<le> length mem \<Longrightarrow> exchange_units u mem p p n = Some mem"
  by (induction n arbitrary: p) (auto simp: exchange_unit_same)

text \<open>Two runs of \<open>n\<close> items, with the parts of the list around and between them.\<close>

definition swapped :: "'a list \<Rightarrow> nat \<Rightarrow> nat \<Rightarrow> nat \<Rightarrow> 'a list" where
  "swapped xs i j n =
     (let p = min i j; q = max i j in
      if i = j then xs
      else take p xs @ take n (drop q xs) @ take (q - (p + n)) (drop (p + n) xs) @ take n (drop p xs) @ drop (q + n) xs)"

lemma five_parts:
  assumes "p + n \<le> q" "q + n \<le> length xs"
  shows "xs = take p xs @ take n (drop p xs) @ take (q - (p + n)) (drop (p + n) xs) @ take n (drop q xs) @ drop (q + n) xs"
    (is "_ = ?a @ ?x @ ?m @ ?y @ ?b")
proof -
  have "?y @ ?b = drop q xs" by (metis append_take_drop_id drop_drop add.commute)
  moreover have "?m @ drop q xs = drop (p + n) xs"
    using assms(1) append_take_drop_id [of "q - (p + n)" "drop (p + n) xs"] by simp
  moreover have "?x @ drop (p + n) xs = drop p xs" by (metis append_take_drop_id drop_drop add.commute)
  ultimately show ?thesis by (simp only: append_take_drop_id)
qed

lemma exchange_units_swapped:
  assumes "i = j \<or> i + n * u \<le> j \<or> j + n * u \<le> i" "i + n * u \<le> length xs" "j + n * u \<le> length xs"
  shows "exchange_units u xs i j n = Some (swapped xs i j (n * u))"
proof (cases "i = j")
  case True
  then show ?thesis using exchange_units_same [OF assms(2)] by (simp add: swapped_def)
next
  case False
  define p q where "p = min i j" "q = max i j"
  have pq: "p + n * u \<le> q" "q + n * u \<le> length xs" using assms False by (auto simp: p_q_def)
  define as x ms y bs where parts: "as = take p xs" "x = take (n * u) (drop p xs)"
    "ms = take (q - (p + n * u)) (drop (p + n * u) xs)" "y = take (n * u) (drop q xs)" "bs = drop (q + n * u) xs"
  have xs: "xs = as @ x @ ms @ y @ bs" unfolding parts by (rule five_parts [OF pq])
  have l: "length x = n * u" "length y = n * u" "length as = p" "length as + n * u + length ms = q"
    using pq by (simp_all add: parts)
  have "exchange_units u xs p q n = Some (as @ y @ ms @ x @ bs)"
    "exchange_units u xs q p n = Some (as @ y @ ms @ x @ bs)"
    using exchange_units_parts [OF l(1,2), of as ms bs] unfolding xs [symmetric] l(3) l(4) [unfolded l(3)] by (simp_all only:)
  moreover have "swapped xs i j (n * u) = as @ y @ ms @ x @ bs"
    using False by (simp add: swapped_def p_q_def parts Let_def)
  ultimately show ?thesis by (cases "i < j") (auto simp: p_q_def)
qed

lemma exchange_unit_swapped:
  assumes "i = j \<or> i + u \<le> j \<or> j + u \<le> i" "i + u \<le> length xs" "j + u \<le> length xs"
  shows "exchange_unit u xs i j = Some (swapped xs i j u)"
  using exchange_units_swapped [of i j 1 u xs] assms
  by (cases "exchange_unit u xs i j") (simp_all add: numeral_eq_Suc)

section \<open>Alignment\<close>

definition width :: "exchange_f \<Rightarrow> nat" where
  "width f = (if f \<in> {One_byte, Bytes} then 1 else if f \<in> {One_int16, Int16s} then 2
     else if f \<in> {One_int32, Int32s} then 4 else if f \<in> {One_int64, Int64s} then 8 else 16)"

lemma or_dvd: "(2 :: nat) ^ k dvd a OR b \<longleftrightarrow> 2 ^ k dvd a \<and> 2 ^ k dvd b"
proof -
  have "(2 :: nat) ^ k dvd x \<longleftrightarrow> take_bit k x = 0" for x
    by (simp add: take_bit_eq_mod dvd_eq_mod_eq_0)
  then show ?thesis by (simp add: take_bit_or or_eq_0_iff)
qed

lemma width_dvd: "width (exchange_func base sz) dvd base \<and> width (exchange_func base sz) dvd sz"
proof -
  define k where "k = (base OR sz) AND 15"
  have k: "k = (base OR sz) mod 16"
  proof -
    have "(15 :: nat) = mask 4" by (simp add: mask_eq_exp_minus_1)
    then show ?thesis unfolding k_def by (simp only: take_bit_eq_mask [symmetric]) (simp add: take_bit_eq_mod)
  qed
  have m: "x mod 16 = 0 \<Longrightarrow> 16 dvd x" "x mod 16 = 8 \<Longrightarrow> 8 dvd x" "x mod 16 = 4 \<or> x mod 16 = 12 \<Longrightarrow> 4 dvd x"
    "x mod 16 = 2 \<or> x mod 16 = 6 \<or> x mod 16 = 10 \<or> x mod 16 = 14 \<Longrightarrow> 2 dvd x" for x :: nat
    by presburger+
  have "k = 0 \<Longrightarrow> 2 ^ 4 dvd base OR sz" "k = 8 \<Longrightarrow> 2 ^ 3 dvd base OR sz"
    "k \<in> {4, 12} \<Longrightarrow> 2 ^ 2 dvd base OR sz" "k \<in> {2, 6, 10, 14} \<Longrightarrow> 2 ^ 1 dvd base OR sz"
    using m [of "base OR sz"] unfolding k by auto
  then have d: "k = 0 \<Longrightarrow> 16 dvd base \<and> 16 dvd sz" "k = 8 \<Longrightarrow> 8 dvd base \<and> 8 dvd sz"
    "k \<in> {4, 12} \<Longrightarrow> 4 dvd base \<and> 4 dvd sz" "k \<in> {2, 6, 10, 14} \<Longrightarrow> 2 dvd base \<and> 2 dvd sz"
    unfolding or_dvd by simp_all
  consider "k = 0" | "k = 8" | "k \<in> {4, 12}" | "k \<in> {2, 6, 10, 14}" | "k \<notin> {0, 8, 4, 12, 2, 6, 10, 14}" by blast
  then show ?thesis
    by cases (use d in \<open>auto simp: exchange_func_def k_def [symmetric] Let_def width_def\<close>)
qed

lemma one_width:
  "exchange_func base sz \<in> {One_byte, One_int16, One_int32, One_int64, One_int128} \<Longrightarrow>
    sz = width (exchange_func base sz)"
proof -
  define k where "k = (base OR sz) AND 15"
  have e: "exchange_func base sz =
     (if k = 0 then if sz = 16 then One_int128 else Int128s
      else if k = 8 then if sz = 8 then One_int64 else Int64s
      else if k \<in> {4, 12} then if sz = 4 then One_int32 else Int32s
      else if k \<in> {2, 6, 10, 14} then if sz = 2 then One_int16 else Int16s
      else if sz = 1 then One_byte else Bytes)"
    by (simp only: exchange_func_def k_def Let_def)
  show "exchange_func base sz \<in> {One_byte, One_int16, One_int32, One_int64, One_int128} \<Longrightarrow>
      sz = width (exchange_func base sz)"
    unfolding e by (auto simp: width_def split: if_splits)
qed

lemma width_values: "width f \<in> {1, 2, 4, 8, 16}"
  by (simp add: width_def)

text \<open>Whatever function is chosen for elements of size \<open>sz\<close> exchanges \<open>n * sz\<close> bytes, with
  \<open>n = 1\<close> for the one-element functions.\<close>

lemma exchange_bytes_swapped:
  assumes "f = exchange_func base sz0" "width f dvd len" "i = j \<or> i + len \<le> j \<or> j + len \<le> i"
    "i + len \<le> length mem" "j + len \<le> length mem" "sz0 = len \<or> sz0 \<notin> {1, 2, 4, 8, 16}"
  shows "exchange f mem i j len = Some (swapped mem i j len)"
proof -
  note assms(2)
  moreover have "0 < width f" by (simp add: width_def)
  ultimately have n: "len = len div width f * width f" by simp
  have "exchange_units (width f) mem i j (len div width f) = Some (swapped mem i j len)"
    using exchange_units_swapped [of i j "len div width f" "width f" mem] assms(3-5) n by simp
  moreover have one: "len = width f" if "f \<in> {One_byte, One_int16, One_int32, One_int64, One_int128}"
  proof -
    have "sz0 = width f" using one_width [of base sz0] that assms(1) by simp
    then show ?thesis using assms(6) width_values [of f] by auto
  qed
  then have "exchange_unit (width f) mem i j = Some (swapped mem i j len)"
    if "f \<in> {One_byte, One_int16, One_int32, One_int64, One_int128}"
    using exchange_unit_swapped [of i j "width f" mem] assms(3-5) that by simp
  moreover have "exchange f mem i j len = (if f \<in> {One_byte, One_int16, One_int32, One_int64, One_int128}
      then exchange_unit (width f) mem i j else exchange_units (width f) mem i j (len div width f))"
    by (cases f) (simp_all add: width_def exchange_one_byte_def exchange_bytes_def
        exchange_one_int16_def exchange_int16s_def exchange_one_int32_def exchange_int32s_def
        exchange_one_int64_def exchange_int64s_def exchange_one_int128_def exchange_int128s_def)
  ultimately show ?thesis
    by (cases "f \<in> {One_byte, One_int16, One_int32, One_int64, One_int128}") (simp_all only: if_True if_False)
qed

section \<open>Arrays of elements\<close>

lemma concat_take: "\<forall>x \<in> set xs. length x = sz \<Longrightarrow> take (k * sz) (concat xs) = concat (take k xs)"
  by (induction xs arbitrary: k) (auto simp: take_Cons split: nat.splits)

lemma concat_drop: "\<forall>x \<in> set xs. length x = sz \<Longrightarrow> drop (k * sz) (concat xs) = concat (drop k xs)"
  by (induction xs arbitrary: k) (auto simp: drop_Cons split: nat.splits)

lemma concat_length: "\<forall>x \<in> set xs. length x = sz \<Longrightarrow> length (concat xs) = length xs * sz"
  by (induction xs) auto

lemma concat_take_drop:
  "\<forall>x \<in> set xs. length x = sz \<Longrightarrow> take (k * sz) (drop (i * sz) (concat xs)) = concat (take k (drop i xs))"
  using concat_take [of "drop i xs" sz k] concat_drop [of xs sz i] set_drop_subset [of i xs] by auto

lemma swapped_concat:
  assumes "\<forall>x \<in> set xs. length x = sz" "0 < sz"
  shows "swapped (concat xs) (i * sz) (j * sz) (n * sz) = concat (swapped xs i j n)"
proof -
  define p q where "p = min i j" "q = max i j"
  have m: "min (i * sz) (j * sz) = p * sz" "max (i * sz) (j * sz) = q * sz"
    unfolding p_q_def using assms(2) by (simp_all add: min_def max_def)
  have "q * sz - (p * sz + n * sz) = (q - (p + n)) * sz" by (simp add: algebra_simps)
  moreover have "p * sz + n * sz = (p + n) * sz" "q * sz + n * sz = (q + n) * sz" by (simp_all add: algebra_simps)
  moreover have d: "\<forall>x \<in> set (drop k xs). length x = sz" for k
    using assms(1) by (auto dest: in_set_dropD)
  ultimately show ?thesis
    using assms unfolding swapped_def Let_def m p_q_def [symmetric]
    by (simp add: concat_take concat_drop concat_take [OF d])
qed

text \<open>Property C39 (equivalence): on an array of elements of \<open>sz\<close> bytes at address \<open>base\<close>, the function that
  \<open>exchange_func\<close> chooses exchanges two elements, and the one it chooses for \<open>sz\<close> with the bit 128 set,
  as \<open>rqsort\<close> calls it, exchanges two runs of \<open>n\<close> elements that are equal or disjoint; no access
  is outside the array, and the unit that is moved divides the address and the size, so that
  every access is aligned.\<close>
theorem exchange_elements:
  assumes "\<forall>x \<in> set xs. length x = sz" "0 < sz" "a < length xs" "b < length xs"
    and "i + n \<le> length xs" "j + n \<le> length xs" "i = j \<or> i + n \<le> j \<or> j + n \<le> i"
  shows "exchange (exchange_func base sz) (concat xs) (a * sz) (b * sz) sz = Some (concat (swapped xs a b 1))
    \<and> exchange (exchange_func base (sz OR 128)) (concat xs) (i * sz) (j * sz) (n * sz)
        = Some (concat (swapped xs i j n))
    \<and> (\<forall>f \<in> {exchange_func base sz, exchange_func base (sz OR 128)}. width f dvd base \<and> width f dvd sz)"
proof -
  have w: "width (exchange_func base (sz OR 128)) dvd base \<and> width (exchange_func base (sz OR 128)) dvd sz"
  proof -
    have "\<exists>k. width f = 2 ^ k" for f
    proof -
      have "(1 :: nat) = 2 ^ 0" "(2 :: nat) = 2 ^ 1" "(4 :: nat) = 2 ^ 2" "(8 :: nat) = 2 ^ 3" "(16 :: nat) = 2 ^ 4"
        by simp_all
      then show ?thesis using width_values [of f] by (metis insert_iff empty_iff)
    qed
    then show ?thesis using width_dvd [of base "sz OR 128"] or_dvd by metis
  qed
  have "bit (128 :: nat) 7" by (simp add: bit_iff_odd)
  then have "bit (sz OR 128) 7" by (simp add: bit_or_iff)
  then have "odd ((sz OR 128) div 128)" by (simp add: bit_iff_odd)
  then have big: "sz OR 128 \<notin> {1, 2, 4, 8, 16}" by auto
  note c = concat_length [OF assms(1)]
  have le: "k * sz + n * sz \<le> length xs * sz" if "k + n \<le> length xs" for k n
    using mult_le_mono1 [OF that, of sz] by (simp add: algebra_simps)
  have dis: "k * sz + n * sz \<le> l * sz" if "k + n \<le> l" for k l n
    using mult_le_mono1 [OF that, of sz] by (simp add: algebra_simps)
  have "exchange (exchange_func base sz) (concat xs) (a * sz) (b * sz) sz = Some (swapped (concat xs) (a * sz) (b * sz) sz)"
  proof (rule exchange_bytes_swapped [OF refl])
    have "a = b \<or> a + 1 \<le> b \<or> b + 1 \<le> a" by arith
    then show "a * sz = b * sz \<or> a * sz + sz \<le> b * sz \<or> b * sz + sz \<le> a * sz"
      using dis [of a 1 b] dis [of b 1 a] by auto
  qed (use width_dvd [of base sz] le [of a 1] le [of b 1] assms(3,4) in \<open>auto simp: c\<close>)
  moreover have "exchange (exchange_func base (sz OR 128)) (concat xs) (i * sz) (j * sz) (n * sz)
      = Some (swapped (concat xs) (i * sz) (j * sz) (n * sz))"
    using w le [OF assms(5)] le [OF assms(6)] dis [of i n j] dis [of j n i] assms(7) big
    by (intro exchange_bytes_swapped [OF refl]) (auto simp: c)
  ultimately show ?thesis
    using swapped_concat [OF assms(1,2), of a b 1] swapped_concat [OF assms(1,2), of i j n] w width_dvd [of base sz]
    by simp
qed

theorem exchange_elements_witness:
  "exchange (exchange_func 24 12) (concat [replicate 12 1, replicate 12 2, replicate 12 3]) (0 * 12) (2 * 12) 12
    = Some (concat (swapped [replicate 12 1, replicate 12 2, replicate 12 3] 0 2 1))"
  using exchange_elements [of "[replicate 12 1, replicate 12 2, replicate 12 3]" 12 0 2 0 1 1 24] by simp

end
