(* ===== verification/Rqsort.thy ===== *)
theory Rqsort
  imports Exchange "HOL-Library.Multiset"
begin

text \<open>
  \<open>rqsort\<close> of \<^verbatim>\<open>quickjs/cutils.h\<close>: quicksort with a three-way partition on an explicit stack of at
  most 50 segments, heapsort for segments that were partitioned more than 50 times, insertion sort
  for segments of at most 6 elements. Positions count elements (theory Exchange relates the
  element exchanges to the byte exchanges), accesses are checked, and the comparison is
  an arbitrary function of two elements.
\<close>

section \<open>The code\<close>

type_synonym 'a cmp_f = "'a \<Rightarrow> 'a \<Rightarrow> int"

definition swap_el :: "'a list \<Rightarrow> nat \<Rightarrow> nat \<Rightarrow> 'a list option" where
  "swap_el a i j = exchange_unit 1 a i j"

definition swap_block :: "'a list \<Rightarrow> nat \<Rightarrow> nat \<Rightarrow> nat \<Rightarrow> 'a list option" where
  "swap_block a i j n = exchange_units 1 a i j n"

definition cmp_at :: "'a cmp_f \<Rightarrow> 'a list \<Rightarrow> nat \<Rightarrow> nat \<Rightarrow> int option" where
  "cmp_at cmp a i j = do { x \<leftarrow> rd a i; y \<leftarrow> rd a j; Some (cmp x y) }"

subsection \<open>Heapsort\<close>

text \<open>One descent from node \<open>r\<close> in the heap of the \<open>n\<close> elements at \<open>b\<close>.\<close>

definition larger_child :: "'a cmp_f \<Rightarrow> 'a list \<Rightarrow> nat \<Rightarrow> nat \<Rightarrow> nat \<Rightarrow> nat option" where
  "larger_child cmp a b c n =
     (if c < n - 1 then do {
        k \<leftarrow> cmp_at cmp a (b + c) (b + c + 1); Some (if k \<le> 0 then c + 1 else c) }
      else Some c)"

lemma larger_child_cases: "larger_child cmp a b c n = Some c' \<Longrightarrow> c' = c \<or> c' = c + 1"
  by (auto simp: larger_child_def bind_Some_iff split: if_splits)

function sift :: "'a cmp_f \<Rightarrow> 'a list \<Rightarrow> nat \<Rightarrow> nat \<Rightarrow> nat \<Rightarrow> 'a list option" where
  "sift cmp a b r n =
     (let c = r * 2 + 1 in
      if c < n then do {
        c \<leftarrow> larger_child cmp a b c n;
        k \<leftarrow> cmp_at cmp a (b + r) (b + c);
        if k > 0 then Some a
        else do { a \<leftarrow> swap_el a (b + r) (b + c); sift cmp a b c n } }
      else Some a)"
  by pat_completeness auto
termination
  by (relation "measure (\<lambda>(cmp, a, b, r, n). n - r)") (auto dest: larger_child_cases)

declare sift.simps [simp del]

fun heapify :: "'a cmp_f \<Rightarrow> 'a list \<Rightarrow> nat \<Rightarrow> nat \<Rightarrow> nat \<Rightarrow> 'a list option" where
  "heapify cmp a b 0 n = Some a"
| "heapify cmp a b (Suc i) n = do { a \<leftarrow> sift cmp a b i n; heapify cmp a b i n }"

fun heap_out :: "'a cmp_f \<Rightarrow> 'a list \<Rightarrow> nat \<Rightarrow> nat \<Rightarrow> 'a list option" where
  "heap_out cmp a b 0 = Some a"
| "heap_out cmp a b (Suc i) = do {
     a \<leftarrow> swap_el a b (b + Suc i); a \<leftarrow> sift cmp a b 0 (Suc i); heap_out cmp a b i }"

definition heapsortx :: "'a cmp_f \<Rightarrow> 'a list \<Rightarrow> nat \<Rightarrow> nat \<Rightarrow> 'a list option" where
  "heapsortx cmp a b nmemb =
     (if nmemb > 1 then do { a \<leftarrow> heapify cmp a b (nmemb div 2) nmemb; heap_out cmp a b (nmemb - 1) }
      else Some a)"

subsection \<open>Partition\<close>

definition med3 :: "'a cmp_f \<Rightarrow> 'a list \<Rightarrow> nat \<Rightarrow> nat \<Rightarrow> nat \<Rightarrow> nat option" where
  "med3 cmp t a b c = do {
     ab \<leftarrow> cmp_at cmp t a b;
     if ab < 0 then do {
       bc \<leftarrow> cmp_at cmp t b c;
       if bc < 0 then Some b else do { ac \<leftarrow> cmp_at cmp t a c; Some (if ac < 0 then c else a) } }
     else do {
       bc \<leftarrow> cmp_at cmp t b c;
       if bc > 0 then Some b else do { ac \<leftarrow> cmp_at cmp t a c; Some (if ac < 0 then a else c) } } }"

text \<open>
  The two scans. Positions \<open>i\<close>, \<open>lt\<close>, \<open>j\<close>, \<open>gt\<close> are relative to the segment's start \<open>p\<close>; the C code
  keeps \<open>i\<close>, \<open>lt\<close> and \<open>gt\<close> as numbers and as pointers.
\<close>

function scan_up :: "'a cmp_f \<Rightarrow> 'a list \<Rightarrow> nat \<Rightarrow> nat \<Rightarrow> nat \<Rightarrow> nat \<Rightarrow> ('a list \<times> nat \<times> nat) option" where
  "scan_up cmp a p i lt j =
     (if i < j then do {
        c \<leftarrow> cmp_at cmp a p (p + i);
        if c \<ge> 0 then
          (if c = 0 then do { a \<leftarrow> swap_el a (p + lt) (p + i); scan_up cmp a p (i + 1) (lt + 1) j }
           else scan_up cmp a p (i + 1) lt j)
        else Some (a, i, lt) }
      else Some (a, i, lt))"
  by pat_completeness auto
termination by (relation "measure (\<lambda>(cmp, a, p, i, lt, j). j - i)") auto

function scan_down :: "'a cmp_f \<Rightarrow> 'a list \<Rightarrow> nat \<Rightarrow> nat \<Rightarrow> nat \<Rightarrow> nat \<Rightarrow> ('a list \<times> nat \<times> nat) option" where
  "scan_down cmp a p i j gt =
     (if i < j - 1 then do {
        c \<leftarrow> cmp_at cmp a p (p + (j - 1));
        if c \<le> 0 then
          (if c = 0 then do {
             a \<leftarrow> swap_el a (p + (gt - 1)) (p + (j - 1)); scan_down cmp a p i (j - 1) (gt - 1) }
           else scan_down cmp a p i (j - 1) gt)
        else Some (a, j - 1, gt) }
      else Some (a, j - 1, gt))"
  by pat_completeness auto
termination by (relation "measure (\<lambda>(cmp, a, p, i, j, gt). j)") auto

declare scan_up.simps [simp del] scan_down.simps [simp del]

lemma scan_up_mono: "scan_up cmp a p i lt j = Some (a', i', lt') \<Longrightarrow> i \<le> i'"
proof (induction cmp a p i lt j rule: scan_up.induct)
  case (1 cmp a p i lt j)
  from 1(3) [unfolded scan_up.simps [of cmp a p i lt j]] 1(1,2) show ?case
    by (force simp: bind_Some_iff split: if_splits)
qed

lemma scan_down_mono: "scan_down cmp a p i j gt = Some (a', j', gt') \<Longrightarrow> j' \<le> j - 1"
proof (induction cmp a p i j gt rule: scan_down.induct)
  case (1 cmp a p i j gt)
  from 1(3) [unfolded scan_down.simps [of cmp a p i j gt]] 1(1,2) show ?case
    by (force simp: bind_Some_iff split: if_splits)
qed

function part_loop :: "'a cmp_f \<Rightarrow> 'a list \<Rightarrow> nat \<Rightarrow> nat \<Rightarrow> nat \<Rightarrow> nat \<Rightarrow> nat \<Rightarrow>
    ('a list \<times> nat \<times> nat \<times> nat) option" where
  "part_loop cmp a p i lt j gt = do {
     (a, i, lt) \<leftarrow> scan_up cmp a p i lt j;
     (a, j, gt) \<leftarrow> scan_down cmp a p i j gt;
     if i \<ge> j then Some (a, i, lt, gt)
     else do { a \<leftarrow> swap_el a (p + i) (p + j); part_loop cmp a p (i + 1) lt j gt } }"
  by pat_completeness auto
termination
  by (relation "measure (\<lambda>(cmp, a, p, i, lt, j, gt). j - i)")
    (auto dest!: scan_up_mono scan_down_mono)

declare part_loop.simps [simp del]

definition partition_seg :: "'a cmp_f \<Rightarrow> 'a list \<Rightarrow> nat \<Rightarrow> nat \<Rightarrow> ('a list \<times> nat \<times> nat) option" where
  "partition_seg cmp a p n = do {
     let m4 = n div 4;
     m \<leftarrow> med3 cmp a (p + m4) (p + 2 * m4) (p + 3 * m4);
     a \<leftarrow> swap_el a p m;
     (a, i, lt, gt) \<leftarrow> part_loop cmp a p 1 1 n n;
     let span = min lt (i - lt);
     a \<leftarrow> swap_block a p (p + i - span) span;
     let span = min (n - gt) (gt - i);
     a \<leftarrow> swap_block a (p + i) (p + n - span) span;
     Some (a, i - lt, n - (gt - i)) }"

subsection \<open>The stack\<close>

text \<open>A segment: start, length, number of partitions before it. The stack's top is the head.\<close>

type_synonym segment = "nat \<times> nat \<times> nat"

function rq_seg :: "'a cmp_f \<Rightarrow> 'a list \<Rightarrow> segment list \<Rightarrow> nat \<Rightarrow> nat \<Rightarrow> nat \<Rightarrow>
    ('a list \<times> segment list \<times> nat \<times> nat) option" where
  "rq_seg cmp a stack p n depth =
     (if n > 6 then
        if depth + 1 > 50 then do { a \<leftarrow> heapsortx cmp a p n; Some (a, stack, p, 0) }
        else do {
          (a, lt, gt) \<leftarrow> partition_seg cmp a p n;
          if length stack \<ge> 50 then None
          else if lt > n - gt
          then rq_seg cmp a ((p, lt, depth + 1) # stack) (p + gt) (n - gt) (depth + 1)
          else rq_seg cmp a ((p + gt, n - gt, depth + 1) # stack) p lt (depth + 1) }
      else Some (a, stack, p, n))"
  by pat_completeness auto
termination by (relation "measure (\<lambda>(cmp, a, stack, p, n, depth). 51 - depth)") auto

declare rq_seg.simps [simp del]

fun ins_inner :: "'a cmp_f \<Rightarrow> 'a list \<Rightarrow> nat \<Rightarrow> nat \<Rightarrow> 'a list option" where
  "ins_inner cmp a p 0 = Some a"
| "ins_inner cmp a p (Suc j) = do {
     k \<leftarrow> cmp_at cmp a (p + j) (p + Suc j);
     if k > 0 then do { a \<leftarrow> swap_el a (p + Suc j) (p + j); ins_inner cmp a p j } else Some a }"

function ins_outer :: "'a cmp_f \<Rightarrow> 'a list \<Rightarrow> nat \<Rightarrow> nat \<Rightarrow> nat \<Rightarrow> 'a list option" where
  "ins_outer cmp a p i n =
     (if i < n then do { a \<leftarrow> ins_inner cmp a p i; ins_outer cmp a p (i + 1) n } else Some a)"
  by pat_completeness auto
termination by (relation "measure (\<lambda>(cmp, a, p, i, n). n - i)") auto

declare ins_outer.simps [simp del]

partial_function (option) rq_loop :: "'a cmp_f \<Rightarrow> 'a list \<Rightarrow> segment list \<Rightarrow> 'a list option" where
  "rq_loop cmp a stack =
     (case stack of
        [] \<Rightarrow> Some a
      | (p, n, depth) # stack \<Rightarrow> do {
          (a, stack, p, n) \<leftarrow> rq_seg cmp a stack p n depth;
          a \<leftarrow> ins_outer cmp a p 1 n;
          rq_loop cmp a stack })"

declare rq_loop.simps [code]

definition rqsort :: "'a cmp_f \<Rightarrow> 'a list \<Rightarrow> nat \<Rightarrow> nat \<Rightarrow> 'a list option" where
  "rqsort cmp a base nmemb =
     (if nmemb < 2 then Some a else rq_loop cmp a [(base, nmemb, 0)])"

section \<open>Rearranging a segment\<close>

text \<open>\<open>a'\<close> is \<open>a\<close> with the \<open>n\<close> elements at \<open>p\<close> in another order.\<close>

definition seg_perm :: "nat \<Rightarrow> nat \<Rightarrow> 'a list \<Rightarrow> 'a list \<Rightarrow> bool" where
  "seg_perm p n a a' \<longleftrightarrow> take p a' = take p a \<and> drop (p + n) a' = drop (p + n) a \<and> mset a' = mset a"

lemma seg_perm_refl [simp]: "seg_perm p n a a"
  by (simp add: seg_perm_def)

lemma seg_perm_trans: "seg_perm p n a b \<Longrightarrow> seg_perm p n b c \<Longrightarrow> seg_perm p n a c"
  by (simp add: seg_perm_def)

lemma seg_perm_length: "seg_perm p n a a' \<Longrightarrow> length a' = length a"
  unfolding seg_perm_def by (metis mset_eq_length)

lemma seg_perm_sub:
  assumes "seg_perm q m a a'" "p \<le> q" "q + m \<le> p + n"
  shows "seg_perm p n a a'"
proof -
  have "take p a' = take p a" using assms(1,2) unfolding seg_perm_def by (metis min.absorb1 take_take)
  moreover have "drop (p + n) x = drop (p + n - (q + m)) (drop (q + m) x)" for x :: "'a list"
    using assms(3) by simp
  then have "drop (p + n) a' = drop (p + n) a" using assms(1) unfolding seg_perm_def by metis
  ultimately show ?thesis using assms(1) by (simp add: seg_perm_def)
qed

lemma seg_perm_outside:
  assumes "seg_perm p n a a'" "k < p \<or> p + n \<le> k" "k < length a"
  shows "a' ! k = a ! k"
  using assms(2)
proof
  assume "k < p"
  then have "take p a' ! k = a' ! k" "take p a ! k = a ! k" by simp_all
  then show ?thesis using assms(1) by (simp add: seg_perm_def)
next
  assume k: "p + n \<le> k"
  have "drop (p + n) a' ! (k - (p + n)) = a' ! k" "drop (p + n) a ! (k - (p + n)) = a ! k"
    using k assms(3) seg_perm_length [OF assms(1)] by simp_all
  then show ?thesis using assms(1) by (simp add: seg_perm_def)
qed

lemma seg_split:
  "p + n \<le> length a \<Longrightarrow> a = take p a @ take n (drop p a) @ drop (p + n) a"
  by (metis append_take_drop_id drop_drop add.commute)

lemma seg_perm_mset:
  assumes "seg_perm p n a a'" "p + n \<le> length a"
  shows "mset (take n (drop p a')) = mset (take n (drop p a))"
proof -
  have "mset a' = mset a" using assms(1) by (simp add: seg_perm_def)
  moreover have "p + n \<le> length a'" using seg_perm_length [OF assms(1)] assms(2) by simp
  ultimately have "mset (take p a' @ take n (drop p a') @ drop (p + n) a')
      = mset (take p a @ take n (drop p a) @ drop (p + n) a)"
    using seg_split [OF assms(2)] seg_split [of p n a'] by metis
  then show ?thesis using assms(1) by (simp add: seg_perm_def)
qed

text \<open>Every element of the segment was in it before.\<close>

lemma seg_perm_elem:
  assumes "seg_perm p n a a'" "p + n \<le> length a" "p \<le> k" "k < p + n"
  shows "\<exists>k'. p \<le> k' \<and> k' < p + n \<and> a' ! k = a ! k'"
proof -
  have "p + n \<le> length a'" using assms seg_perm_length [OF assms(1)] by simp
  then have "a' ! k = take n (drop p a') ! (k - p)" "k - p < length (take n (drop p a'))"
    using assms(3,4) by simp_all
  then have "a' ! k \<in> set (take n (drop p a'))" by (metis nth_mem)
  then have "a' ! k \<in> set (take n (drop p a))" using seg_perm_mset [OF assms(1,2)] by (metis set_mset_mset)
  then obtain l where "l < n" "a' ! k = take n (drop p a) ! l" "l < length (drop p a)"
    by (auto simp: in_set_conv_nth)
  then show ?thesis using assms(2) by (intro exI [of _ "p + l"]) simp
qed

lemma seg_perm_swap:
  assumes "p \<le> i" "i < p + n" "p \<le> j" "j < p + n" "p + n \<le> length a"
  shows "seg_perm p n a (a[i := a ! j, j := a ! i])"
  using assms by (simp add: seg_perm_def mset_swap [of j a i] drop_update_cancel)

text \<open>Exchanging two disjoint runs.\<close>

lemma nth_five:
  assumes "length as = i" "length ys = n" "length ms = j - (i + n)" "length xs = n" "i + n \<le> j"
  shows "(as @ ys @ ms @ xs @ bs) ! k =
    (if k < i then as ! k else if k < i + n then ys ! (k - i) else if k < j then ms ! (k - (i + n))
     else if k < j + n then xs ! (k - j) else bs ! (k - (j + n)))"
proof -
  obtain m where m: "j = i + n + m" using assms(5) le_Suc_ex by blast
  then have lm: "length ms = m" using assms(3) by simp
  consider "k < i" | l where "k = i + l" "l < n" | l where "k = i + n + l" "l < m"
    | l where "k = i + n + m + l" "l < n" | l where "k = i + n + m + n + l"
    by (metis le_Suc_ex not_less nat_add_left_cancel_less)
  then show ?thesis
    by cases (use assms(1,2,4) lm m in \<open>auto simp: nth_append\<close>)
qed

lemma swapped_nth:
  assumes "i + n \<le> j" "j + n \<le> length xs" "k < length xs"
  shows "swapped xs i j n ! k =
    (if i \<le> k \<and> k < i + n then xs ! (j + (k - i)) else if j \<le> k \<and> k < j + n then xs ! (i + (k - j)) else xs ! k)"
proof (cases "i = j")
  case False
  then have ij: "min i j = i" "max i j = j" using assms(1) by simp_all
  have "swapped xs i j n = take i xs @ take n (drop j xs) @ take (j - (i + n)) (drop (i + n) xs)
      @ take n (drop i xs) @ drop (j + n) xs" using False by (simp add: swapped_def Let_def ij)
  moreover have "length (take i xs) = i" "length (take n (drop j xs)) = n" "length (take n (drop i xs)) = n"
    "length (take (j - (i + n)) (drop (i + n) xs)) = j - (i + n)" using assms by simp_all
  ultimately have "swapped xs i j n ! k = (if k < i then take i xs ! k
      else if k < i + n then take n (drop j xs) ! (k - i)
      else if k < j then take (j - (i + n)) (drop (i + n) xs) ! (k - (i + n))
      else if k < j + n then take n (drop i xs) ! (k - j) else drop (j + n) xs ! (k - (j + n)))"
    using nth_five assms(1) by metis
  then show ?thesis using assms by simp
qed (use assms in \<open>auto simp: swapped_def\<close>)

lemma seg_perm_swapped:
  assumes "p \<le> i" "i + n \<le> j" "j + n \<le> p + m" "p + m \<le> length xs"
  shows "seg_perm p m xs (swapped xs i j n)"
proof (cases "i = j")
  case False
  then have ij: "min i j = i" "max i j = j" using assms(2) by simp_all
  have l: "j + n \<le> length xs" using assms by simp
  define w where "w = take i xs @ take n (drop j xs) @ take (j - (i + n)) (drop (i + n) xs) @ take n (drop i xs)"
  have e: "swapped xs i j n = w @ drop (j + n) xs" using False by (simp add: swapped_def Let_def ij w_def)
  have lw: "length w = j + n" using assms(2) l by (simp add: w_def)
  have "mset xs = mset (take i xs @ take n (drop i xs) @ take (j - (i + n)) (drop (i + n) xs)
      @ take n (drop j xs) @ drop (j + n) xs)"
    using five_parts [OF assms(2) l] by simp
  then have "mset (swapped xs i j n) = mset xs" unfolding e w_def by simp
  moreover have "take p w = take p xs" using assms(1) l assms(2) by (simp add: w_def min_def)
  then have "take p (swapped xs i j n) = take p xs" using assms lw by (simp add: e)
  moreover have "drop (p + m) (swapped xs i j n) = drop (p + m) xs" using assms(3) lw by (simp add: e)
  ultimately show ?thesis by (simp add: seg_perm_def)
qed (simp add: swapped_def)

lemma length_swapped: "i + n \<le> j \<Longrightarrow> j + n \<le> length xs \<Longrightarrow> length (swapped xs i j n) = length xs"
  using seg_perm_length [OF seg_perm_swapped [of 0 i n j "length xs" xs]] by simp

lemma swapped_1:
  assumes "i < length a" "j < length a"
  shows "swapped a i j 1 = a[i := a ! j, j := a ! i]"
proof -
  have 1: "swapped a i j 1 = a[i := a ! j, j := a ! i]" if "i < j" "j < length a" for i j
    using that by (intro nth_equalityI) (auto simp: length_swapped swapped_nth nth_list_update)
  show ?thesis
  proof (cases i j rule: linorder_cases)
    case less
    then show ?thesis using 1 assms by blast
  next
    case equal
    then show ?thesis by (simp add: swapped_def Let_def)
  next
    case greater
    moreover have "swapped a i j 1 = swapped a j i 1"
      by (auto simp: swapped_def Let_def min.commute max.commute)
    ultimately show ?thesis using 1 [of j i] assms by (simp add: list_update_swap)
  qed
qed

lemma swap_el_value [simp]:
  "i < length a \<Longrightarrow> j < length a \<Longrightarrow> swap_el a i j = Some (a[i := a ! j, j := a ! i])"
  unfolding swap_el_def using exchange_unit_swapped [of i j 1 a] swapped_1 [of i a j]
  by (metis Suc_eq_plus1 Suc_leI linorder_neqE_nat)

lemma cmp_at_value [simp]:
  "i < length a \<Longrightarrow> j < length a \<Longrightarrow> cmp_at cmp a i j = Some (cmp (a ! i) (a ! j))"
  by (simp add: cmp_at_def)


section \<open>What a comparison must be for the result to be sorted\<close>

locale comparator =
  fixes cmp :: "'a cmp_f"
  assumes flip: "cmp x y \<le> 0 \<longleftrightarrow> 0 \<le> cmp y x"
    and cmp_trans: "cmp x y \<le> 0 \<Longrightarrow> cmp y z \<le> 0 \<Longrightarrow> cmp x z \<le> 0"
begin

lemma cmp_refl [simp]: "cmp x x = 0"
  using flip [of x x] by linarith

lemma cmp_less: "cmp x y < 0 \<longleftrightarrow> 0 < cmp y x"
  using flip [of y x] by linarith

lemma cmp_less_le: "0 < cmp x y \<Longrightarrow> cmp y x \<le> 0"
  using flip [of y x] by linarith

end

text \<open>The elements of a segment are in order.\<close>

definition seg_sorted :: "'a cmp_f \<Rightarrow> 'a list \<Rightarrow> nat \<Rightarrow> nat \<Rightarrow> bool" where
  "seg_sorted cmp a p n \<longleftrightarrow> (\<forall>x y. x < y \<longrightarrow> y < n \<longrightarrow> cmp (a ! (p + x)) (a ! (p + y)) \<le> 0)"

section \<open>Heapsort\<close>

definition child :: "nat \<Rightarrow> nat \<Rightarrow> bool" where
  "child c k \<longleftrightarrow> c = 2 * k + 1 \<or> c = 2 * k + 2"

text \<open>The nodes from \<open>lo\<close> on are at least as large as their children; in the second form node \<open>r\<close>
  may be too small, but its parent is large enough for its children.\<close>

definition heap :: "'a cmp_f \<Rightarrow> 'a list \<Rightarrow> nat \<Rightarrow> nat \<Rightarrow> nat \<Rightarrow> bool" where
  "heap cmp a b lo n \<longleftrightarrow> (\<forall>k c. lo \<le> k \<longrightarrow> child c k \<longrightarrow> c < n \<longrightarrow> cmp (a ! (b + c)) (a ! (b + k)) \<le> 0)"

definition heap_except :: "'a cmp_f \<Rightarrow> 'a list \<Rightarrow> nat \<Rightarrow> nat \<Rightarrow> nat \<Rightarrow> nat \<Rightarrow> bool" where
  "heap_except cmp a b lo r n \<longleftrightarrow>
     (\<forall>k c. lo \<le> k \<longrightarrow> k \<noteq> r \<longrightarrow> child c k \<longrightarrow> c < n \<longrightarrow> cmp (a ! (b + c)) (a ! (b + k)) \<le> 0)
     \<and> (\<forall>k c. lo \<le> k \<longrightarrow> child r k \<longrightarrow> child c r \<longrightarrow> c < n \<longrightarrow> cmp (a ! (b + c)) (a ! (b + k)) \<le> 0)"

lemma child_less: "child c k \<Longrightarrow> k < c"
  by (auto simp: child_def)

lemma child_parent: "child c k \<Longrightarrow> child c k' \<Longrightarrow> k = k'"
  by (auto simp: child_def)

lemma larger_child_value:
  assumes "b + n \<le> length a" "2 * r + 1 < n"
  shows "\<exists>m. larger_child cmp a b (2 * r + 1) n = Some m \<and> child m r \<and> m < n
    \<and> (comparator cmp \<longrightarrow> (\<forall>c. child c r \<longrightarrow> c < n \<longrightarrow> cmp (a ! (b + c)) (a ! (b + m)) \<le> 0))"
proof (cases "2 * r + 1 < n - 1")
  case True
  define k where "k = cmp (a ! (b + (2 * r + 1))) (a ! (b + (2 * r + 1) + 1))"
  have e: "larger_child cmp a b (2 * r + 1) n = Some (if k \<le> 0 then 2 * r + 2 else 2 * r + 1)"
    using True assms by (simp add: larger_child_def k_def)
  show ?thesis
  proof (cases "k \<le> 0")
    case le: True
    have "cmp (a ! (b + c)) (a ! (b + (2 * r + 2))) \<le> 0" if "comparator cmp" "child c r" for c
      using that le comparator.cmp_refl [OF that(1)] by (auto simp: child_def k_def)
    then show ?thesis using True le by (intro exI [of _ "2 * r + 2"]) (use e in \<open>auto simp: child_def\<close>)
  next
    case False
    have "cmp (a ! (b + c)) (a ! (b + (2 * r + 1))) \<le> 0" if "comparator cmp" "child c r" for c
    proof -
      have "cmp (a ! (b + (2 * r + 1) + 1)) (a ! (b + (2 * r + 1))) \<le> 0"
        using comparator.cmp_less_le [OF that(1)] False by (simp add: k_def)
      then show ?thesis using that(2) comparator.cmp_refl [OF that(1)] by (auto simp: child_def)
    qed
    then show ?thesis using True False by (intro exI [of _ "2 * r + 1"]) (use e in \<open>auto simp: child_def\<close>)
  qed
next
  case False
  then have n: "n = 2 * r + 2" using assms(2) by simp
  then have e: "larger_child cmp a b (2 * r + 1) n = Some (2 * r + 1)" by (simp add: larger_child_def)
  have "cmp (a ! (b + c)) (a ! (b + (2 * r + 1))) \<le> 0" if "comparator cmp" "child c r" "c < n" for c
    using that n comparator.cmp_refl [OF that(1)] by (auto simp: child_def)
  then show ?thesis using n by (intro exI [of _ "2 * r + 1"]) (use e in \<open>auto simp: child_def\<close>)
qed

text \<open>One step down keeps the exception, one level deeper.\<close>

lemma heap_except_swap:
  assumes c: "comparator cmp" and h: "heap_except cmp a b lo r n" and b: "b + n \<le> length a"
    and m: "child m r" "m < n" "\<And>c. child c r \<Longrightarrow> c < n \<Longrightarrow> cmp (a ! (b + c)) (a ! (b + m)) \<le> 0"
    and le: "cmp (a ! (b + r)) (a ! (b + m)) \<le> 0" and lo: "lo \<le> r"
  shows "heap_except cmp (a[b + r := a ! (b + m), b + m := a ! (b + r)]) b lo m n"
proof -
  define a' where "a' = a[b + r := a ! (b + m), b + m := a ! (b + r)]"
  have rm: "r < m" using child_less [OF m(1)] .
  have nth: "k < n \<Longrightarrow> a' ! (b + k) = (if k = m then a ! (b + r) else if k = r then a ! (b + m) else a ! (b + k))" for k
    using b rm m(2) by (simp add: a'_def nth_list_update)
  have h1: "lo \<le> k \<Longrightarrow> k \<noteq> r \<Longrightarrow> child c k \<Longrightarrow> c < n \<Longrightarrow> cmp (a ! (b + c)) (a ! (b + k)) \<le> 0"
    and h2: "lo \<le> k \<Longrightarrow> child r k \<Longrightarrow> child c r \<Longrightarrow> c < n \<Longrightarrow> cmp (a ! (b + c)) (a ! (b + k)) \<le> 0" for k c
    using h unfolding heap_except_def by blast+
  have "cmp (a' ! (b + c)) (a' ! (b + k)) \<le> 0" if k: "lo \<le> k" "k \<noteq> m" "child c k" "c < n" for k c
  proof -
    have kc: "k < c" "k < n" using child_less [OF k(3)] k(4) by simp_all
    show ?thesis
    proof (cases "k = r")
      case True
      then have "c \<noteq> r" using kc by simp
      then show ?thesis using True k kc m(3) [of c] le by (simp add: nth)
    next
      case False
      then have "c \<noteq> m" using child_parent [OF m(1)] k(3) by auto
      then show ?thesis using False k kc h1 [of k c] h2 [of k m] m(1,2) by (auto simp: nth)
    qed
  qed
  moreover have "cmp (a' ! (b + c)) (a' ! (b + k)) \<le> 0"
    if k: "lo \<le> k" "child m k" "child c m" "c < n" for k c
  proof -
    have "k = r" using child_parent [OF m(1) k(2)] by simp
    moreover have "m < c" using child_less [OF k(3)] .
    ultimately show ?thesis using h1 [of m c] k rm lo by (simp add: nth)
  qed
  ultimately show ?thesis unfolding heap_except_def a'_def by blast
qed

lemma sift_value:
  "b + n \<le> length a \<Longrightarrow> r < n \<Longrightarrow> \<exists>a'. sift cmp a b r n = Some a' \<and> seg_perm b n a a'
    \<and> (comparator cmp \<longrightarrow> lo \<le> r \<longrightarrow> heap_except cmp a b lo r n \<longrightarrow> heap cmp a' b lo n)"
proof (induction "n - r" arbitrary: a r rule: less_induct)
  case less
  show ?case
  proof (cases "2 * r + 1 < n")
    case True
    from larger_child_value [OF less(2) True, of cmp] obtain m where m: "larger_child cmp a b (2 * r + 1) n = Some m"
      "child m r" "m < n" "comparator cmp \<longrightarrow> (\<forall>c. child c r \<longrightarrow> c < n \<longrightarrow> cmp (a ! (b + c)) (a ! (b + m)) \<le> 0)"
      by blast
    have rm: "r < m" using child_less [OF m(2)] .
    define k where "k = cmp (a ! (b + r)) (a ! (b + m))"
    define a1 where "a1 = a[b + r := a ! (b + m), b + m := a ! (b + r)]"
    have e: "sift cmp a b r n = (if k > 0 then Some a else sift cmp a1 b m n)"
      using less(2) True m(1,3) rm by (subst sift.simps) (simp add: k_def a1_def Let_def mult.commute)
    show ?thesis
    proof (cases "k > 0")
      case pos: True
      have "heap cmp a b lo n" if c: "comparator cmp" and h: "heap_except cmp a b lo r n"
        unfolding heap_def
      proof (intro allI impI)
        fix x c assume x: "lo \<le> x" "child c x" "c < n"
        show "cmp (a ! (b + c)) (a ! (b + x)) \<le> 0"
        proof (cases "x = r")
          case True
          have "cmp (a ! (b + m)) (a ! (b + r)) \<le> 0"
            using comparator.cmp_less_le [OF c] pos by (simp add: k_def)
          then show ?thesis using m(4) c x True comparator.cmp_trans [OF c] by blast
        qed (use h x in \<open>auto simp: heap_except_def\<close>)
      qed
      then show ?thesis using e pos by auto
    next
      case False
      have l: "length a1 = length a" by (simp add: a1_def)
      have p: "seg_perm b n a a1" unfolding a1_def
        using less(2) m(3) rm by (intro seg_perm_swap) simp_all
      have "n - m < n - r" using rm less(3) by simp
      from less(1) [OF this, of a1] less(2) m(3) rm l obtain a' where a': "sift cmp a1 b m n = Some a'"
        "seg_perm b n a1 a'"
        "comparator cmp \<longrightarrow> lo \<le> m \<longrightarrow> heap_except cmp a1 b lo m n \<longrightarrow> heap cmp a' b lo n" by auto
      moreover have "heap_except cmp a1 b lo m n" if "comparator cmp" "lo \<le> r" "heap_except cmp a b lo r n"
        unfolding a1_def using that m False less(2)
        by (intro heap_except_swap) (auto simp: k_def)
      ultimately show ?thesis using e False seg_perm_trans [OF p a'(2)] rm by auto
    qed
  next
    case False
    have "heap cmp a b lo n" if "heap_except cmp a b lo r n"
      using that False by (auto simp: heap_def heap_except_def child_def)
    then show ?thesis using False by (subst sift.simps) (auto simp: mult.commute)
  qed
qed

lemma heapify_value:
  "b + n \<le> length a \<Longrightarrow> i \<le> n \<Longrightarrow> \<exists>a'. heapify cmp a b i n = Some a' \<and> seg_perm b n a a'
    \<and> (comparator cmp \<longrightarrow> heap cmp a b i n \<longrightarrow> heap cmp a' b 0 n)"
proof (induction i arbitrary: a)
  case (Suc i)
  from sift_value [of b n a i cmp i] Suc(2,3) obtain a1 where a1: "sift cmp a b i n = Some a1"
    "seg_perm b n a a1" "comparator cmp \<longrightarrow> heap_except cmp a b i i n \<longrightarrow> heap cmp a1 b i n" by auto
  have h: "heap_except cmp a b i i n" if "heap cmp a b (Suc i) n"
    using that child_less by (fastforce simp: heap_def heap_except_def)
  from Suc(1) [of a1] Suc(2,3) seg_perm_length [OF a1(2)] obtain a' where
    "heapify cmp a1 b i n = Some a'" "seg_perm b n a1 a'"
    "comparator cmp \<longrightarrow> heap cmp a1 b i n \<longrightarrow> heap cmp a' b 0 n" by auto
  then show ?case using a1 h seg_perm_trans [OF a1(2)] by auto
qed simp

lemma heap_root:
  assumes "comparator cmp" "heap cmp a b 0 n"
  shows "k < n \<Longrightarrow> cmp (a ! (b + k)) (a ! b) \<le> 0"
proof (induction k rule: less_induct)
  case (less k)
  show ?case
  proof (cases "k = 0")
    case False
    define q where "q = (k - 1) div 2"
    have q: "child k q" "q < k" using False by (auto simp: child_def q_def)
    then have "cmp (a ! (b + k)) (a ! (b + q)) \<le> 0" using assms(2) less(2) by (simp add: heap_def)
    then show ?thesis using less(1) [OF q(2)] q(2) less(2) comparator.cmp_trans [OF assms(1)] by force
  qed (use comparator.cmp_refl [OF assms(1)] in simp)
qed

lemma heap_out_value:
  "b + n \<le> length a \<Longrightarrow> i < n \<Longrightarrow> \<exists>a'. heap_out cmp a b i = Some a' \<and> seg_perm b n a a'
    \<and> (comparator cmp \<longrightarrow> heap cmp a b 0 (Suc i) \<longrightarrow>
        (\<forall>x y. x < y \<longrightarrow> i < y \<longrightarrow> y < n \<longrightarrow> cmp (a ! (b + x)) (a ! (b + y)) \<le> 0) \<longrightarrow> seg_sorted cmp a' b n)"
proof (induction i arbitrary: a)
  case 0
  then show ?case by (auto simp: seg_sorted_def)
next
  case (Suc i)
  define a1 where "a1 = a[b := a ! (b + Suc i), b + Suc i := a ! b]"
  have s1: "swap_el a b (b + Suc i) = Some a1" using Suc(2,3) by (simp add: a1_def)
  have p1: "seg_perm b (Suc (Suc i)) a a1" unfolding a1_def using Suc(2,3) by (intro seg_perm_swap) simp_all
  have l1: "length a1 = length a" by (simp add: a1_def)
  from sift_value [of b "Suc i" a1 0 cmp 0] Suc(2,3) l1 obtain a2 where a2: "sift cmp a1 b 0 (Suc i) = Some a2"
    "seg_perm b (Suc i) a1 a2" "comparator cmp \<longrightarrow> heap_except cmp a1 b 0 0 (Suc i) \<longrightarrow> heap cmp a2 b 0 (Suc i)"
    by auto
  have l2: "length a2 = length a" using seg_perm_length [OF a2(2)] l1 by simp
  have p2: "seg_perm b (Suc (Suc i)) a a2"
    using seg_perm_trans [OF p1 seg_perm_sub [OF a2(2)]] by simp
  then have pn: "seg_perm b n a a2" using seg_perm_sub [OF p2, of b n] Suc(3) by simp
  from Suc(1) [of a2] Suc(2,3) l2 obtain a' where a': "heap_out cmp a2 b i = Some a'" "seg_perm b n a2 a'"
    "comparator cmp \<longrightarrow> heap cmp a2 b 0 (Suc i) \<longrightarrow>
      (\<forall>x y. x < y \<longrightarrow> i < y \<longrightarrow> y < n \<longrightarrow> cmp (a2 ! (b + x)) (a2 ! (b + y)) \<le> 0) \<longrightarrow> seg_sorted cmp a' b n"
    by auto
  have "seg_sorted cmp a' b n" if c: "comparator cmp" and h: "heap cmp a b 0 (Suc (Suc i))"
    and t: "\<forall>x y. x < y \<longrightarrow> Suc i < y \<longrightarrow> y < n \<longrightarrow> cmp (a ! (b + x)) (a ! (b + y)) \<le> 0"
  proof -
    have nth1: "k < n \<Longrightarrow> a1 ! (b + k) = (if k = Suc i then a ! b else if k = 0 then a ! (b + Suc i) else a ! (b + k))" for k
      using Suc(2,3) by (auto simp: a1_def nth_list_update)
    have "heap_except cmp a1 b 0 0 (Suc i)"
      using h Suc(3) child_less by (fastforce simp: heap_except_def heap_def nth1 dest: child_less)
    then have "heap cmp a2 b 0 (Suc i)" using a2(3) c by simp
    moreover have "cmp (a2 ! (b + x)) (a2 ! (b + y)) \<le> 0" if xy: "x < y" "i < y" "y < n" for x y
    proof (cases "y = Suc i")
      case True
      have "a2 ! (b + y) = a1 ! (b + y)"
        using seg_perm_outside [OF a2(2), of "b + y"] True Suc(2,3) l1 by simp
      then have y: "a2 ! (b + y) = a ! b" using nth1 [of y] xy True by simp
      obtain x' where "b \<le> x'" "x' < b + Suc (Suc i)" "a2 ! (b + x) = a ! x'"
        using seg_perm_elem [OF p2, of "b + x"] xy True Suc(2,3) by auto
      then show ?thesis using heap_root [OF c h, of "x' - b"] y by simp
    next
      case False
      then have yi: "Suc i < y" using xy by simp
      have y: "a2 ! (b + y) = a ! (b + y)"
        using seg_perm_outside [OF p2, of "b + y"] yi xy(3) Suc(2) by simp
      show ?thesis
      proof (cases "x < Suc (Suc i)")
        case True
        then obtain x' where "b \<le> x'" "x' < b + Suc (Suc i)" "a2 ! (b + x) = a ! x'"
          using seg_perm_elem [OF p2, of "b + x"] Suc(2,3) by auto
        then show ?thesis using t [rule_format, of "x' - b" y] y yi xy(3) by simp
      next
        case False
        then show ?thesis using seg_perm_outside [OF p2, of "b + x"] t xy yi y Suc(2) by simp
      qed
    qed
    ultimately show ?thesis using a'(3) c by blast
  qed
  then show ?case using s1 a2(1) a'(1,2) seg_perm_trans [OF pn a'(2)] by auto
qed

lemma heapsortx_value:
  assumes "b + n \<le> length a"
  shows "\<exists>a'. heapsortx cmp a b n = Some a' \<and> seg_perm b n a a' \<and> (comparator cmp \<longrightarrow> seg_sorted cmp a' b n)"
proof (cases "n > 1")
  case True
  have h0: "heap cmp a b (n div 2) n" by (auto simp: heap_def child_def)
  from heapify_value [of b n a "n div 2" cmp] assms obtain a1 where a1: "heapify cmp a b (n div 2) n = Some a1"
    "seg_perm b n a a1" "comparator cmp \<longrightarrow> heap cmp a1 b 0 n" using h0 by auto
  from heap_out_value [of b n a1 "n - 1" cmp] assms True seg_perm_length [OF a1(2)] obtain a' where
    "heap_out cmp a1 b (n - 1) = Some a'" "seg_perm b n a1 a'"
    "comparator cmp \<longrightarrow> heap cmp a1 b 0 n \<longrightarrow> seg_sorted cmp a' b n" by fastforce
  then show ?thesis using True a1 seg_perm_trans [OF a1(2)] by (auto simp: heapsortx_def)
next
  case False
  then show ?thesis by (auto simp: heapsortx_def seg_sorted_def)
qed

section \<open>Insertion sort\<close>

lemma ins_inner_value:
  "p + n \<le> length a \<Longrightarrow> i < n \<Longrightarrow> j \<le> i \<Longrightarrow> \<exists>a'. ins_inner cmp a p j = Some a' \<and> seg_perm p n a a'
    \<and> (comparator cmp \<longrightarrow>
        (\<forall>x y. x < y \<longrightarrow> y \<le> i \<longrightarrow> y \<noteq> j \<longrightarrow> cmp (a ! (p + x)) (a ! (p + y)) \<le> 0) \<longrightarrow>
        seg_sorted cmp a' p (Suc i))"
proof (induction j arbitrary: a)
  case 0
  then show ?case by (auto simp: seg_sorted_def less_Suc_eq_le)
next
  case (Suc j)
  define k where "k = cmp (a ! (p + j)) (a ! (p + Suc j))"
  define a1 where "a1 = a[p + Suc j := a ! (p + j), p + j := a ! (p + Suc j)]"
  have e: "ins_inner cmp a p (Suc j) = (if k > 0 then ins_inner cmp a1 p j else Some a)"
    using Suc(2-4) by (simp add: k_def a1_def)
  show ?case
  proof (cases "k > 0")
    case True
    have l1: "length a1 = length a" by (simp add: a1_def)
    have p1: "seg_perm p n a a1" unfolding a1_def using Suc(2-4) by (intro seg_perm_swap) simp_all
    from Suc(1) [of a1] Suc(2-4) l1 obtain a' where a': "ins_inner cmp a1 p j = Some a'" "seg_perm p n a1 a'"
      "comparator cmp \<longrightarrow> (\<forall>x y. x < y \<longrightarrow> y \<le> i \<longrightarrow> y \<noteq> j \<longrightarrow> cmp (a1 ! (p + x)) (a1 ! (p + y)) \<le> 0) \<longrightarrow>
        seg_sorted cmp a' p (Suc i)" by auto
    have "cmp (a1 ! (p + x)) (a1 ! (p + y)) \<le> 0" if c: "comparator cmp"
      and o: "\<forall>x y. x < y \<longrightarrow> y \<le> i \<longrightarrow> y \<noteq> Suc j \<longrightarrow> cmp (a ! (p + x)) (a ! (p + y)) \<le> 0"
      and xy: "x < y" "y \<le> i" "y \<noteq> j" for x y
    proof -
      have nth: "z \<le> i \<Longrightarrow> a1 ! (p + z) = (if z = j then a ! (p + Suc j) else if z = Suc j then a ! (p + j) else a ! (p + z))" for z
        using Suc(2-4) by (auto simp: a1_def nth_list_update)
      have less: "cmp (a ! (p + Suc j)) (a ! (p + j)) \<le> 0"
        using comparator.cmp_less_le [OF c] True by (simp add: k_def)
      show ?thesis using xy less nth [of x] nth [of y] Suc(4) o [rule_format, of x y] o [rule_format, of j y]
          o [rule_format, of "Suc j" y] o [rule_format, of x j] by (auto split: if_splits)
    qed
    then show ?thesis using e True a' seg_perm_trans [OF p1 a'(2)] by auto
  next
    case False
    have "seg_sorted cmp a p (Suc i)" if c: "comparator cmp"
      and o: "\<forall>x y. x < y \<longrightarrow> y \<le> i \<longrightarrow> y \<noteq> Suc j \<longrightarrow> cmp (a ! (p + x)) (a ! (p + y)) \<le> 0"
      unfolding seg_sorted_def
    proof (intro allI impI)
      fix x y assume xy: "x < y" "y < Suc i"
      show "cmp (a ! (p + x)) (a ! (p + y)) \<le> 0"
      proof (cases "y = Suc j")
        case True
        have le: "cmp (a ! (p + j)) (a ! (p + y)) \<le> 0" using False True by (simp add: k_def)
        show ?thesis
        proof (cases "x = j")
          case False
          then have "cmp (a ! (p + x)) (a ! (p + j)) \<le> 0" using o xy True Suc(4) by simp
          then show ?thesis using comparator.cmp_trans [OF c] le by blast
        qed (use le in simp)
      qed (use o xy in simp)
    qed
    then show ?thesis using e False by auto
  qed
qed

lemma ins_outer_value:
  "p + n \<le> length a \<Longrightarrow> \<exists>a'. ins_outer cmp a p i n = Some a' \<and> seg_perm p n a a'
    \<and> (comparator cmp \<longrightarrow> seg_sorted cmp a p i \<longrightarrow> seg_sorted cmp a' p n)"
proof (induction "n - i" arbitrary: a i)
  case 0
  then show ?case by (subst ins_outer.simps) (auto simp: seg_sorted_def)
next
  case (Suc m)
  then have i: "i < n" by simp
  from ins_inner_value [of p n a i i cmp] Suc(3) i obtain a1 where a1: "ins_inner cmp a p i = Some a1"
    "seg_perm p n a a1" "comparator cmp \<longrightarrow>
        (\<forall>x y. x < y \<longrightarrow> y \<le> i \<longrightarrow> y \<noteq> i \<longrightarrow> cmp (a ! (p + x)) (a ! (p + y)) \<le> 0) \<longrightarrow>
        seg_sorted cmp a1 p (Suc i)" by auto
  have "m = n - Suc i" using Suc(2) by simp
  from Suc(1) [OF this, of a1] Suc(3) seg_perm_length [OF a1(2)] obtain a' where
    a': "ins_outer cmp a1 p (Suc i) n = Some a'" "seg_perm p n a1 a'"
    "comparator cmp \<longrightarrow> seg_sorted cmp a1 p (Suc i) \<longrightarrow> seg_sorted cmp a' p n" by auto
  have "ins_outer cmp a p i n = Some a'" using i a1(1) a'(1) by (subst ins_outer.simps) simp
  moreover have "seg_sorted cmp a1 p (Suc i)" if "comparator cmp" "seg_sorted cmp a p i"
    using a1(3) that by (auto simp: seg_sorted_def)
  ultimately show ?case using a' seg_perm_trans [OF a1(2) a'(2)] by auto
qed

section \<open>The partition\<close>

text \<open>The four parts during the scans: equal to the pivot, smaller, (not seen), larger, equal.\<close>

definition parts :: "'a cmp_f \<Rightarrow> 'a \<Rightarrow> 'a list \<Rightarrow> nat \<Rightarrow> nat \<Rightarrow> nat \<Rightarrow> nat \<Rightarrow> nat \<Rightarrow> nat \<Rightarrow> bool" where
  "parts cmp v a p n i lt j gt \<longleftrightarrow>
     1 \<le> lt \<and> lt \<le> i \<and> j \<le> gt \<and> gt \<le> n \<and> p + n \<le> length a \<and> a ! p = v
     \<and> (\<forall>k. 1 \<le> k \<longrightarrow> k < lt \<longrightarrow> cmp v (a ! (p + k)) = 0)
     \<and> (\<forall>k. lt \<le> k \<longrightarrow> k < i \<longrightarrow> 0 < cmp v (a ! (p + k)))
     \<and> (\<forall>k. j \<le> k \<longrightarrow> k < gt \<longrightarrow> cmp v (a ! (p + k)) < 0)
     \<and> (\<forall>k. gt \<le> k \<longrightarrow> k < n \<longrightarrow> cmp v (a ! (p + k)) = 0)"

lemma swap_nth:
  "p + n \<le> length a \<Longrightarrow> x < n \<Longrightarrow> y < n \<Longrightarrow> k < n \<Longrightarrow>
    a[p + x := a ! (p + y), p + y := a ! (p + x)] ! (p + k) =
      (if k = y then a ! (p + x) else if k = x then a ! (p + y) else a ! (p + k))"
  by (simp add: nth_list_update)

lemma scan_up_value:
  "parts cmp v a p n i lt j gt \<Longrightarrow> i \<le> j \<Longrightarrow>
    \<exists>a' i' lt'. scan_up cmp a p i lt j = Some (a', i', lt') \<and> parts cmp v a' p n i' lt' j gt
      \<and> i \<le> i' \<and> i' \<le> j \<and> (i' < j \<longrightarrow> cmp v (a' ! (p + i')) < 0) \<and> seg_perm p n a a'"
proof (induction "j - i" arbitrary: a i lt)
  case 0
  then show ?case by (subst scan_up.simps) simp
next
  case (Suc m)
  then have ij: "i < j" "j \<le> n" by (auto simp: parts_def)
  define c where "c = cmp v (a ! (p + i))"
  have b: "p + n \<le> length a" "a ! p = v" "lt \<le> i" "1 \<le> lt" using Suc(3) by (auto simp: parts_def)
  have at: "cmp_at cmp a p (p + i) = Some c" using b ij by (simp add: c_def)
  have m: "m = j - Suc i" "Suc i \<le> j" using Suc(2) ij by simp_all
  consider "c < 0" | "c = 0" | "c > 0" by linarith
  then show ?case
  proof cases
    case 1
    then have "scan_up cmp a p i lt j = Some (a, i, lt)" using ij at by (subst scan_up.simps) simp
    then show ?thesis using Suc(3,4) 1 by (simp add: c_def)
  next
    case 2
    define a1 where "a1 = a[p + lt := a ! (p + i), p + i := a ! (p + lt)]"
    have e: "scan_up cmp a p i lt j = scan_up cmp a1 p (Suc i) (Suc lt) j"
      using ij at 2 b by (subst scan_up.simps) (simp add: a1_def)
    have "a1 ! (p + k) = (if k = i then a ! (p + lt) else if k = lt then a ! (p + i) else a ! (p + k))" if "k < n" for k
      unfolding a1_def using b ij that by (intro swap_nth) simp_all
    moreover have "a1 ! p = v" using b by (auto simp: a1_def nth_list_update)
    moreover have "length a1 = length a" by (simp add: a1_def)
    ultimately have "parts cmp v a1 p n (Suc i) (Suc lt) j gt"
      using Suc(3) ij 2 c_def unfolding parts_def by (simp add: less_Suc_eq)
    from Suc(1) [OF m(1) this m(2)] obtain a' i' lt' where
      r: "scan_up cmp a1 p (Suc i) (Suc lt) j = Some (a', i', lt')" "parts cmp v a' p n i' lt' j gt"
      "Suc i \<le> i'" "i' \<le> j" "i' < j \<longrightarrow> cmp v (a' ! (p + i')) < 0" "seg_perm p n a1 a'" by blast
    have "seg_perm p n a a1" unfolding a1_def using b ij by (intro seg_perm_swap) simp_all
    then have "seg_perm p n a a'" using seg_perm_trans r(6) by blast
    then show ?thesis unfolding e r(1) using r(2-5) by auto
  next
    case 3
    then have e: "scan_up cmp a p i lt j = scan_up cmp a p (Suc i) lt j"
      using ij at by (subst scan_up.simps) simp
    have "parts cmp v a p n (Suc i) lt j gt"
      using Suc(3) 3 c_def unfolding parts_def by (auto simp: less_Suc_eq)
    from Suc(1) [OF m(1) this m(2)] show ?thesis using e by fastforce
  qed
qed

lemma scan_down_value:
  "parts cmp v a p n i lt j gt \<Longrightarrow> i \<le> j \<Longrightarrow> (i < j \<longrightarrow> cmp v (a ! (p + i)) < 0) \<Longrightarrow>
    \<exists>a' j' gt'. scan_down cmp a p i j gt = Some (a', j', gt') \<and> parts cmp v a' p n i lt (Suc j') gt'
      \<and> j' < j \<and> i \<le> Suc j' \<and> (i < j' \<longrightarrow> 0 < cmp v (a' ! (p + j')))
      \<and> (i \<le> j' \<longrightarrow> cmp v (a' ! (p + i)) < 0) \<and> seg_perm p n a a'"
proof (induction j arbitrary: a gt)
  case 0
  then show ?case by (auto simp: parts_def)
next
  case (Suc j)
  have b: "p + n \<le> length a" "a ! p = v" "1 \<le> i" "Suc j \<le> gt" "gt \<le> n" using Suc(2) by (auto simp: parts_def)
  show ?case
  proof (cases "i < j")
    case True
    define c where "c = cmp v (a ! (p + j))"
    have at: "cmp_at cmp a p (p + j) = Some c" using b True by (simp add: c_def)
    consider "c > 0" | "c = 0" | "c < 0" by linarith
    then show ?thesis
    proof cases
      case 1
      then have "scan_down cmp a p i (Suc j) gt = Some (a, j, gt)" using True at by (subst scan_down.simps) simp
      then show ?thesis using Suc(2,4) True 1 by (simp add: c_def)
    next
      case 2
      define a1 where "a1 = a[p + (gt - 1) := a ! (p + j), p + j := a ! (p + (gt - 1))]"
      have e: "scan_down cmp a p i (Suc j) gt = scan_down cmp a1 p i j (gt - 1)"
        using True at 2 b by (subst scan_down.simps) (simp add: a1_def)
      have nth: "a1 ! (p + k) = (if k = j then a ! (p + (gt - 1)) else if k = gt - 1 then a ! (p + j) else a ! (p + k))"
        if "k < n" for k
        unfolding a1_def using b that by (intro swap_nth) simp_all
      have "a1 ! p = v" using b True by (simp add: a1_def)
      moreover have "cmp v (a ! (p + (gt - 1))) < 0 \<or> gt - 1 = j"
      proof (cases "gt - 1 = j")
        case False
        then have "Suc j \<le> gt - 1" "gt - 1 < gt" using b by simp_all
        then show ?thesis using Suc(2) unfolding parts_def by blast
      qed simp
      ultimately have "parts cmp v a1 p n i lt j (gt - 1)"
        using Suc(2) True 2 c_def b nth unfolding parts_def by (auto simp: a1_def)
      moreover have "i \<noteq> gt - 1" using True b by simp
      then have "i < j \<longrightarrow> cmp v (a1 ! (p + i)) < 0" using Suc(4) True nth [of i] b by simp
      ultimately obtain a' j' gt' where r: "scan_down cmp a1 p i j (gt - 1) = Some (a', j', gt')"
        "parts cmp v a' p n i lt (Suc j') gt'" "j' < j" "i \<le> Suc j'" "i < j' \<longrightarrow> 0 < cmp v (a' ! (p + j'))"
        "i \<le> j' \<longrightarrow> cmp v (a' ! (p + i)) < 0" "seg_perm p n a1 a'"
        using Suc(1) [of a1 "gt - 1"] True by auto
      have "seg_perm p n a a1" unfolding a1_def using b by (intro seg_perm_swap) simp_all
      then have "seg_perm p n a a'" using seg_perm_trans r(7) by blast
      then show ?thesis unfolding e r(1) using r(2-6) by auto
    next
      case 3
      then have e: "scan_down cmp a p i (Suc j) gt = scan_down cmp a p i j gt"
        using True at by (subst scan_down.simps) simp
      have "parts cmp v a p n i lt j gt"
      proof -
        have "j = k \<Longrightarrow> cmp v (a ! (p + k)) < 0" for k using 3 by (simp add: c_def)
        moreover have "j \<le> k \<Longrightarrow> j = k \<or> Suc j \<le> k" for k by linarith
        ultimately show ?thesis using Suc(2) unfolding parts_def by (simp add: Suc_leD) blast
      qed
      from Suc(1) [OF this] Suc(4) True obtain a' j' gt' where r: "scan_down cmp a p i j gt = Some (a', j', gt')"
        "parts cmp v a' p n i lt (Suc j') gt'" "j' < j" "i \<le> Suc j'" "i < j' \<longrightarrow> 0 < cmp v (a' ! (p + j'))"
        "i \<le> j' \<longrightarrow> cmp v (a' ! (p + i)) < 0" "seg_perm p n a a'" by auto
      then show ?thesis unfolding e r(1) by auto
    qed
  next
    case False
    then have "scan_down cmp a p i (Suc j) gt = Some (a, j, gt)" by (subst scan_down.simps) simp
    then show ?thesis using Suc(2-4) False by auto
  qed
qed

lemma part_loop_value:
  "parts cmp v a p n i lt j gt \<Longrightarrow> i \<le> j \<Longrightarrow>
    \<exists>a' i' lt' gt'. part_loop cmp a p i lt j gt = Some (a', i', lt', gt')
      \<and> parts cmp v a' p n i' lt' i' gt' \<and> seg_perm p n a a'"
proof (induction "j - i" arbitrary: a i lt j gt rule: less_induct)
  case less
  from scan_up_value [OF less(2,3)] obtain a1 i1 lt1 where up: "scan_up cmp a p i lt j = Some (a1, i1, lt1)"
    "parts cmp v a1 p n i1 lt1 j gt" "i \<le> i1" "i1 \<le> j" "i1 < j \<longrightarrow> cmp v (a1 ! (p + i1)) < 0" "seg_perm p n a a1"
    by blast
  from scan_down_value [OF up(2,4,5)] obtain a2 j2 gt2 where dn: "scan_down cmp a1 p i1 j gt = Some (a2, j2, gt2)"
    "parts cmp v a2 p n i1 lt1 (Suc j2) gt2" "j2 < j" "i1 \<le> Suc j2" "i1 < j2 \<longrightarrow> 0 < cmp v (a2 ! (p + j2))"
    "i1 \<le> j2 \<longrightarrow> cmp v (a2 ! (p + i1)) < 0" "seg_perm p n a1 a2" by blast
  have p2: "seg_perm p n a a2" using seg_perm_trans [OF up(6) dn(7)] .
  show ?case
  proof (cases "i1 \<ge> j2")
    case True
    then have "part_loop cmp a p i lt j gt = Some (a2, i1, lt1, gt2)"
      by (subst part_loop.simps) (simp add: up(1) dn(1))
    moreover have "i1 = j2 \<or> i1 = Suc j2" using True dn(4) by linarith
    then have "parts cmp v a2 p n i1 lt1 i1 gt2"
    proof
      assume i: "i1 = j2"
      then have "j2 = k \<Longrightarrow> cmp v (a2 ! (p + k)) < 0" for k using dn(6) by simp
      moreover have "j2 \<le> k \<Longrightarrow> j2 = k \<or> Suc j2 \<le> k" for k by linarith
      ultimately show ?thesis using dn(2) unfolding i parts_def by (simp add: Suc_leD) blast
    qed (use dn(2) in simp)
    ultimately show ?thesis using p2 by blast
  next
    case False
    define a3 where "a3 = a2[p + i1 := a2 ! (p + j2), p + j2 := a2 ! (p + i1)]"
    have b: "p + n \<le> length a2" "a2 ! p = v" "1 \<le> i1" "j2 < n" using dn(2) by (auto simp: parts_def)
    have e: "part_loop cmp a p i lt j gt = part_loop cmp a3 p (Suc i1) lt1 j2 gt2"
      using False b by (subst part_loop.simps) (simp add: up(1) dn(1) a3_def)
    have "a3 ! (p + k) = (if k = j2 then a2 ! (p + i1) else if k = i1 then a2 ! (p + j2) else a2 ! (p + k))" if "k < n" for k
      unfolding a3_def using b False that by (intro swap_nth) simp_all
    moreover have "a3 ! p = v" using b False by (simp add: a3_def)
    moreover have "\<And>k. j2 \<le> k \<Longrightarrow> k \<noteq> j2 \<Longrightarrow> Suc j2 \<le> k" by simp
    ultimately have "parts cmp v a3 p n (Suc i1) lt1 j2 gt2"
      using dn(2,5,6) False unfolding parts_def by (auto simp: less_Suc_eq a3_def)
    moreover have "j2 - Suc i1 < j - i" "Suc i1 \<le> j2" using False up(3) dn(3) by simp_all
    ultimately obtain a' i' lt' gt' where "part_loop cmp a3 p (Suc i1) lt1 j2 gt2 = Some (a', i', lt', gt')"
      "parts cmp v a' p n i' lt' i' gt'" "seg_perm p n a3 a'" using less(1) by blast
    moreover have "seg_perm p n a2 a3" unfolding a3_def using b False by (intro seg_perm_swap) simp_all
    ultimately show ?thesis using e p2 seg_perm_trans by metis
  qed
qed

text \<open>Two neighbouring runs change places by exchanging as many elements as the shorter one has.\<close>

lemma swap_ends:
  assumes b: "x + l + r \<le> length a" and P: "\<And>k. k < l \<Longrightarrow> P (a ! (x + k))" and Q: "\<And>k. k < r \<Longrightarrow> Q (a ! (x + l + k))"
    and s: "s = min l r"
  shows "\<exists>a'. swap_block a x (x + l + r - s) s = Some a' \<and> seg_perm x (l + r) a a'
    \<and> (\<forall>k < r. Q (a' ! (x + k))) \<and> (\<forall>k < l. P (a' ! (x + r + k)))"
proof -
  define j where "j = x + l + r - s"
  have j: "x + s \<le> j" "j + s = x + l + r" using s by (auto simp: j_def)
  define a' where "a' = swapped a x j s"
  have e: "swap_block a x j s = Some a'" unfolding swap_block_def a'_def
    using exchange_units_swapped [of x j s 1 a] j b by simp
  have p: "seg_perm x (l + r) a a'" unfolding a'_def using j b by (intro seg_perm_swapped) simp_all
  have nth: "a' ! m = (if x \<le> m \<and> m < x + s then a ! (j + (m - x)) else if j \<le> m \<and> m < j + s then a ! (x + (m - j)) else a ! m)"
    if "m < x + l + r" for m
    unfolding a'_def using j b that by (intro swapped_nth) simp_all
  have "Q (a' ! (x + k))" if k: "k < r" for k
  proof (cases "l \<le> r")
    case True
    then have "s = l" "j = x + r" using s by (auto simp: j_def)
    then have "a' ! (x + k) = (if k < l then a ! (x + l + (r + k - l)) else a ! (x + l + (k - l)))"
      using nth [of "x + k"] k True by (auto simp: add.assoc)
    then show ?thesis using Q [of "r + k - l"] Q [of "k - l"] k True by auto
  next
    case False
    then have "s = r" "j = x + l" using s by (auto simp: j_def)
    then have "a' ! (x + k) = a ! (x + l + k)" using nth [of "x + k"] k False by simp
    then show ?thesis using Q k by simp
  qed
  moreover have "P (a' ! (x + r + k))" if k: "k < l" for k
  proof (cases "l \<le> r")
    case True
    then have "s = l" "j = x + r" using s by (auto simp: j_def)
    then have "a' ! (x + r + k) = a ! (x + k)" using nth [of "x + r + k"] k True by auto
    then show ?thesis using P k by simp
  next
    case False
    then have "s = r" "j = x + l" using s by (auto simp: j_def)
    then have "a' ! (x + r + k) = (if l \<le> r + k then a ! (x + (r + k - l)) else a ! (x + (r + k)))"
      using nth [of "x + r + k"] k False by (auto simp: add.assoc)
    then show ?thesis using P [of "r + k - l"] P [of "r + k"] k False by auto
  qed
  ultimately show ?thesis using e p unfolding j_def by blast
qed

lemma med3_value:
  "i < length a \<Longrightarrow> j < length a \<Longrightarrow> k < length a \<Longrightarrow> \<exists>m \<in> {i, j, k}. med3 cmp a i j k = Some m"
  by (simp add: med3_def)

lemma partition_seg_value:
  assumes b: "p + n \<le> length a" and n: "6 < n"
  shows "\<exists>a' lt gt v. partition_seg cmp a p n = Some (a', lt, gt) \<and> seg_perm p n a a' \<and> lt < gt \<and> gt \<le> n
    \<and> (\<forall>k < lt. 0 < cmp v (a' ! (p + k)))
    \<and> (\<forall>k. lt \<le> k \<longrightarrow> k < gt \<longrightarrow> a' ! (p + k) = v \<or> cmp v (a' ! (p + k)) = 0)
    \<and> (\<forall>k. gt \<le> k \<longrightarrow> k < n \<longrightarrow> cmp v (a' ! (p + k)) < 0)"
proof -
  have q: "n div 4 < n" "2 * (n div 4) < n" "3 * (n div 4) < n" using n by linarith+
  then obtain m where m: "med3 cmp a (p + n div 4) (p + 2 * (n div 4)) (p + 3 * (n div 4)) = Some m" "p \<le> m" "m < p + n"
    using med3_value [of "p + n div 4" a "p + 2 * (n div 4)" "p + 3 * (n div 4)" cmp] b by auto
  define v where "v = a ! m"
  define a1 where "a1 = a[p := a ! m, m := a ! p]"
  have s1: "swap_el a p m = Some a1" "seg_perm p n a a1" "length a1 = length a"
    unfolding a1_def using m b n by (simp_all add: seg_perm_swap)
  have "a1 ! p = v" using b m n by (auto simp: a1_def v_def nth_list_update)
  then have "parts cmp v a1 p n 1 1 n n" using b n s1(3) by (auto simp: parts_def)
  from part_loop_value [OF this] n obtain a2 i lt gt where l: "part_loop cmp a1 p 1 1 n n = Some (a2, i, lt, gt)"
    "parts cmp v a2 p n i lt i gt" "seg_perm p n a1 a2" by auto
  have o: "1 \<le> lt" "lt \<le> i" "i \<le> gt" "gt \<le> n" "p + n \<le> length a2" "a2 ! p = v"
    using l(2) by (simp_all add: parts_def)
  define E where "E = (\<lambda>x. x = v \<or> cmp v x = 0)"
  have E: "k < lt \<Longrightarrow> E (a2 ! (p + k))" for k using l(2) o(6) by (cases "k = 0") (auto simp: E_def parts_def)
  have L: "k < i - lt \<Longrightarrow> 0 < cmp v (a2 ! (p + lt + k))" for k using l(2) by (simp add: parts_def add.assoc)
  from swap_ends [of p lt "i - lt" a2 E "\<lambda>x. 0 < cmp v x", OF _ E L refl] o obtain a3 where
    a3: "swap_block a2 p (p + i - min lt (i - lt)) (min lt (i - lt)) = Some a3" "seg_perm p i a2 a3"
      "\<forall>k < i - lt. 0 < cmp v (a3 ! (p + k))" "\<forall>k < lt. E (a3 ! (p + (i - lt) + k))" by auto
  have same3: "i \<le> k \<Longrightarrow> k < n \<Longrightarrow> a3 ! (p + k) = a2 ! (p + k)" for k
    using seg_perm_outside [OF a3(2), of "p + k"] o by simp
  have G: "k < gt - i \<Longrightarrow> cmp v (a3 ! (p + i + k)) < 0" for k
    using same3 [of "i + k"] l(2) o by (simp add: parts_def add.assoc)
  have E2: "k < n - gt \<Longrightarrow> E (a3 ! (p + i + (gt - i) + k))" for k
    using same3 [of "gt + k"] l(2) o by (simp add: parts_def add.assoc E_def)
  have l3: "length a3 = length a2" using seg_perm_length [OF a3(2)] .
  from swap_ends [of "p + i" "gt - i" "n - gt" a3 "\<lambda>x. cmp v x < 0" E, OF _ G E2 refl] o l3 obtain a4 where
    a4: "swap_block a3 (p + i) (p + n - min (n - gt) (gt - i)) (min (n - gt) (gt - i)) = Some a4"
      "seg_perm (p + i) (n - i) a3 a4"
      "\<forall>k < n - gt. E (a4 ! (p + i + k))" "\<forall>k < gt - i. cmp v (a4 ! (p + i + (n - gt) + k)) < 0"
    by (auto simp: min.commute)
  have same4: "k < i \<Longrightarrow> a4 ! (p + k) = a3 ! (p + k)" for k
    using seg_perm_outside [OF a4(2), of "p + k"] o l3 by simp
  define lt' gt' where "lt' = i - lt" and "gt' = n - (gt - i)"
  have "partition_seg cmp a p n = Some (a4, lt', gt')"
    using m(1) s1(1) l(1) a3(1) a4(1) by (simp add: partition_seg_def Let_def lt'_def gt'_def)
  moreover have "seg_perm p n a2 a3" "seg_perm p n a3 a4"
    using seg_perm_sub [OF a3(2), of p n] seg_perm_sub [OF a4(2), of p n] o by simp_all
  then have "seg_perm p n a a4" using s1(2) l(3) seg_perm_trans by blast
  moreover have "lt' < gt'" "gt' \<le> n" using o n by (auto simp: lt'_def gt'_def)
  moreover have "0 < cmp v (a4 ! (p + k))" if "k < lt'" for k
    using a3(3) that same4 [of k] o(1) by (simp add: lt'_def)
  moreover have "E (a4 ! (p + k))" if k: "lt' \<le> k" "k < gt'" for k
  proof (cases "k < i")
    case True
    then have "k - lt' < lt" "p + (i - lt) + (k - lt') = p + k" using k o by (auto simp: lt'_def)
    then show ?thesis using a3(4) same4 [OF True] by metis
  next
    case False
    then have "k - i < n - gt" "p + i + (k - i) = p + k" using k o by (auto simp: gt'_def)
    then show ?thesis using a4(3) by metis
  qed
  moreover have "cmp v (a4 ! (p + k)) < 0" if k: "gt' \<le> k" "k < n" for k
  proof -
    have "k - gt' < gt - i" "p + i + (n - gt) + (k - gt') = p + k" using k o by (auto simp: gt'_def)
    then show ?thesis using a4(4) by metis
  qed
  ultimately show ?thesis unfolding E_def by blast
qed

section \<open>The segments that are left to sort\<close>

definition ivl :: "nat \<times> nat \<Rightarrow> nat set" where
  "ivl s = {fst s..<fst s + snd s}"

definition disjoint :: "(nat \<times> nat) list \<Rightarrow> bool" where
  "disjoint segs \<longleftrightarrow> sorted_wrt (\<lambda>s t. ivl s \<inter> ivl t = {}) segs"

text \<open>The \<open>n\<close> elements at \<open>p\<close> are in order except for pairs inside one of the segments.\<close>

definition ordered :: "'a cmp_f \<Rightarrow> 'a list \<Rightarrow> nat \<Rightarrow> nat \<Rightarrow> (nat \<times> nat) list \<Rightarrow> bool" where
  "ordered cmp a p n segs \<longleftrightarrow> (\<forall>x y. p \<le> x \<longrightarrow> x < y \<longrightarrow> y < p + n \<longrightarrow>
     (\<exists>s \<in> set segs. x \<in> ivl s \<and> y \<in> ivl s) \<or> cmp (a ! x) (a ! y) \<le> 0)"

definition inside :: "nat \<Rightarrow> nat \<Rightarrow> nat \<times> nat \<Rightarrow> bool" where
  "inside p n s \<longleftrightarrow> p \<le> fst s \<and> fst s + snd s \<le> p + n"

lemma seg_sorted_ordered: "seg_sorted cmp a p n \<longleftrightarrow> ordered cmp a p n []"
proof -
  have "cmp (a ! x) (a ! y) \<le> 0" if "seg_sorted cmp a p n" "p \<le> x" "x < y" "y < p + n" for x y
    using that(1) [unfolded seg_sorted_def, rule_format, of "x - p" "y - p"] that(2-4) by simp
  then show ?thesis by (auto simp: ordered_def seg_sorted_def)
qed

text \<open>Rearranging one of the segments keeps that.\<close>

lemma ordered_seg_perm:
  assumes o: "ordered cmp a p n (s # segs)" and d: "disjoint (s # segs)"
    and m: "seg_perm (fst s) (snd s) a a'" and i: "inside p n s" and b: "p + n \<le> length a"
  shows "ordered cmp a' p n (s # segs)"
  unfolding ordered_def
proof (intro allI impI)
  fix x y assume xy: "p \<le> x" "x < y" "y < p + n"
  have le: "(\<exists>t \<in> set (s # segs). x' \<in> ivl t \<and> y' \<in> ivl t) \<or> cmp (a ! x') (a ! y') \<le> 0"
    if "p \<le> x'" "x' < y'" "y' < p + n" for x' y'
    using o that unfolding ordered_def by blast
  have sep: "t \<in> set segs \<Longrightarrow> z \<in> ivl s \<Longrightarrow> z \<notin> ivl t" for t z
    using d by (auto simp: disjoint_def)
  have in_s: "z \<in> ivl s \<longleftrightarrow> fst s \<le> z \<and> z < fst s + snd s" for z by (auto simp: ivl_def)
  have bs: "fst s + snd s \<le> length a" "p \<le> fst s" "fst s + snd s \<le> p + n" using i b by (auto simp: inside_def)
  have out: "z \<notin> ivl s \<Longrightarrow> z < p + n \<Longrightarrow> a' ! z = a ! z" for z
    using seg_perm_outside [OF m, of z] b by (auto simp: in_s)
  have elem: "z \<in> ivl s \<Longrightarrow> \<exists>z'. z' \<in> ivl s \<and> a' ! z = a ! z'" for z
    using seg_perm_elem [OF m bs(1), of z] by (auto simp: in_s)
  show "(\<exists>t \<in> set (s # segs). x \<in> ivl t \<and> y \<in> ivl t) \<or> cmp (a' ! x) (a' ! y) \<le> 0"
  proof (cases "x \<in> ivl s")
    case xs: True
    show ?thesis
    proof (cases "y \<in> ivl s")
      case False
      obtain x' where x': "x' \<in> ivl s" "a' ! x = a ! x'" using elem [OF xs] by blast
      have "x' < y" "p \<le> x'" using False xs x'(1) xy bs by (auto simp: in_s)
      with le [of x' y] xy(3) sep x' False out [OF False xy(3)] show ?thesis by auto
    qed (use xs in auto)
  next
    case xs: False
    show ?thesis
    proof (cases "y \<in> ivl s")
      case True
      obtain y' where y': "y' \<in> ivl s" "a' ! y = a ! y'" using elem [OF True] by blast
      have "x < y'" "y' < p + n" using True xs y'(1) xy bs by (auto simp: in_s)
      with le [of x y'] xy sep y' xs out [OF xs] show ?thesis by auto
    next
      case False
      then show ?thesis using le [OF xy] out xs xy by auto
    qed
  qed
qed

text \<open>A segment may be replaced by segments inside it that account for its disorder.\<close>

lemma ordered_refine:
  assumes "ordered cmp a p n (s # segs)" "ordered cmp a (fst s) (snd s) new"
  shows "ordered cmp a p n (new @ segs)"
  unfolding ordered_def
proof (intro allI impI)
  fix x y assume xy: "p \<le> x" "x < y" "y < p + n"
  then consider "x \<in> ivl s" "y \<in> ivl s" | "\<exists>t \<in> set segs. x \<in> ivl t \<and> y \<in> ivl t" | "cmp (a ! x) (a ! y) \<le> 0"
    using assms(1) unfolding ordered_def by fastforce
  then show "(\<exists>t \<in> set (new @ segs). x \<in> ivl t \<and> y \<in> ivl t) \<or> cmp (a ! x) (a ! y) \<le> 0"
  proof cases
    case 1
    then show ?thesis using assms(2) xy(2) unfolding ordered_def ivl_def by fastforce
  qed auto
qed

lemma ivl_inside: "inside p n s \<Longrightarrow> ivl s \<subseteq> ivl (p, n)"
  by (auto simp: inside_def ivl_def)

lemma partition_ordered:
  assumes c: "comparator cmp" and lg: "lt < gt" "gt \<le> n"
    and less: "\<forall>k < lt. 0 < cmp v (a ! (p + k))"
    and eq: "\<forall>k. lt \<le> k \<longrightarrow> k < gt \<longrightarrow> a ! (p + k) = v \<or> cmp v (a ! (p + k)) = 0"
    and gr: "\<forall>k. gt \<le> k \<longrightarrow> k < n \<longrightarrow> cmp v (a ! (p + k)) < 0"
  shows "ordered cmp a p n [(p + gt, n - gt), (p, lt)]"
  unfolding ordered_def
proof (intro allI impI)
  fix x y assume xy: "p \<le> x" "x < y" "y < p + n"
  define k l where "k = x - p" and "l = y - p"
  have kl: "x = p + k" "y = p + l" "k < l" "l < n" using xy by (auto simp: k_def l_def)
  consider "l < lt" | "gt \<le> k" | "k < gt" "lt \<le> l" by linarith
  then show "(\<exists>s \<in> set [(p + gt, n - gt), (p, lt)]. x \<in> ivl s \<and> y \<in> ivl s) \<or> cmp (a ! x) (a ! y) \<le> 0"
  proof cases
    case 3
    have "cmp (a ! (p + k)) v \<le> 0"
    proof (cases "k < lt")
      case True
      then show ?thesis using less comparator.cmp_less_le [OF c] by blast
    next
      case False
      then have "a ! (p + k) = v \<or> cmp v (a ! (p + k)) = 0" using eq 3 by simp
      then show ?thesis using comparator.cmp_refl [OF c, of v] comparator.flip [OF c, of "a ! (p + k)" v] by auto
    qed
    moreover have "cmp v (a ! (p + l)) \<le> 0"
    proof (cases "l < gt")
      case True
      then have "a ! (p + l) = v \<or> cmp v (a ! (p + l)) = 0" using eq 3 by simp
      then show ?thesis using comparator.cmp_refl [OF c, of v] by auto
    next
      case False
      then show ?thesis using gr [rule_format, of l] kl(4) by simp
    qed
    ultimately show ?thesis unfolding kl using comparator.cmp_trans [OF c] by blast
  qed (use kl in \<open>auto simp: ivl_def\<close>)
qed

section \<open>Sorting a segment from the stack\<close>

definition segs :: "segment list \<Rightarrow> (nat \<times> nat) list" where
  "segs st = map (\<lambda>(p, n, d). (p, n)) st"

definition weight :: "segment list \<Rightarrow> nat" where
  "weight st = sum_list (map (\<lambda>(p, n, d). Suc n) st)"

lemma segs_simps [simp]: "segs [] = []" "segs ((p, n, d) # st) = (p, n) # segs st"
    "segs (xs @ ys) = segs xs @ segs ys"
  by (simp_all add: segs_def)

lemma weight_simps [simp]: "weight [] = 0" "weight ((p, n, d) # st) = Suc n + weight st"
    "weight (xs @ ys) = weight xs + weight ys"
  by (simp_all add: weight_def)

text \<open>A segment was partitioned at least as often as there are segments below it.\<close>

fun stack_ok :: "segment list \<Rightarrow> bool" where
  "stack_ok [] \<longleftrightarrow> True"
| "stack_ok ((p, n, d) # st) \<longleftrightarrow> length st \<le> d \<and> d \<le> 50 \<and> stack_ok st"

lemma rq_seg_value:
  "p + n \<le> length a \<Longrightarrow> length st \<le> d \<Longrightarrow> d \<le> 50 \<Longrightarrow> stack_ok st \<Longrightarrow>
    \<exists>a' new p' n'. rq_seg cmp a st p n d = Some (a', new @ st, p', n') \<and> seg_perm p n a a'
      \<and> weight new + n' \<le> n \<and> (\<forall>s \<in> set ((p', n') # segs new). inside p n s)
      \<and> disjoint ((p', n') # segs new) \<and> stack_ok (new @ st)
      \<and> (comparator cmp \<longrightarrow> ordered cmp a' p n ((p', n') # segs new))"
proof (induction "51 - d" arbitrary: a st p n d rule: less_induct)
  case less
  show ?case
  proof (cases "n > 6")
    case n: False
    have "ordered cmp a p n [(p, n)]" by (auto simp: ordered_def ivl_def)
    then show ?thesis using n less(5)
      by (subst rq_seg.simps) (simp add: inside_def disjoint_def)
  next
    case n: True
    show ?thesis
    proof (cases "d + 1 > 50")
      case True
      from heapsortx_value [OF less(2), of cmp] obtain a' where "heapsortx cmp a p n = Some a'" "seg_perm p n a a'"
        "comparator cmp \<longrightarrow> seg_sorted cmp a' p n" by blast
      then show ?thesis using n True less(5)
        by (subst rq_seg.simps) (simp add: inside_def disjoint_def seg_sorted_ordered ordered_def)
    next
      case False
      from partition_seg_value [OF less(2) n, of cmp] obtain a1 lt gt v where
        part: "partition_seg cmp a p n = Some (a1, lt, gt)" "seg_perm p n a a1" "lt < gt" "gt \<le> n"
          "\<forall>k < lt. 0 < cmp v (a1 ! (p + k))"
          "\<forall>k. lt \<le> k \<longrightarrow> k < gt \<longrightarrow> a1 ! (p + k) = v \<or> cmp v (a1 ! (p + k)) = 0"
          "\<forall>k. gt \<le> k \<longrightarrow> k < n \<longrightarrow> cmp v (a1 ! (p + k)) < 0"
        by (elim exE conjE) (rule that)
      have l1: "length a1 = length a" using seg_perm_length [OF part(2)] .
      define big small where "big = (if lt > n - gt then (p, lt) else (p + gt, n - gt))"
        and "small = (if lt > n - gt then (p + gt, n - gt) else (p, lt))"
      define st1 where "st1 = (fst big, snd big, d + 1) # st"
      have e: "rq_seg cmp a st p n d = rq_seg cmp a1 st1 (fst small) (snd small) (d + 1)"
        using n False less(3) part(1)
        by (subst rq_seg.simps) (auto simp: st1_def big_def small_def)
      have sub: "inside p n big" "inside p n small" "ivl big \<inter> ivl small = {}" "snd big + snd small < n"
        using part(3,4) by (auto simp: big_def small_def inside_def ivl_def)
      have ok: "51 - (d + 1) < 51 - d" "fst small + snd small \<le> length a1" "length st1 \<le> d + 1"
        "d + 1 \<le> 50" "stack_ok st1"
        using False less(2,3,5) sub(2) l1 by (auto simp: st1_def inside_def)
      from less(1) [OF ok] obtain a' new p' n' where
        r: "rq_seg cmp a1 st1 (fst small) (snd small) (d + 1) = Some (a', new @ st1, p', n')"
          "seg_perm (fst small) (snd small) a1 a'" "weight new + n' \<le> snd small"
          "\<forall>s \<in> set ((p', n') # segs new). inside (fst small) (snd small) s"
          "disjoint ((p', n') # segs new)" "stack_ok (new @ st1)"
          "comparator cmp \<longrightarrow> ordered cmp a' (fst small) (snd small) ((p', n') # segs new)" by blast
      define new1 where "new1 = new @ [(fst big, snd big, d + 1)]"
      have "rq_seg cmp a st p n d = Some (a', new1 @ st, p', n')" using e r(1) by (simp add: new1_def st1_def)
      moreover have "seg_perm p n a a'"
        using part(2) seg_perm_sub [OF r(2), of p n] sub(2) seg_perm_trans by (auto simp: inside_def)
      moreover have "weight new1 + n' \<le> n" using r(3) sub(4) by (simp add: new1_def)
      moreover have "\<forall>s \<in> set ((p', n') # segs new1). inside p n s"
        using r(4) sub(1,2) by (auto simp: new1_def inside_def)
      moreover have "disjoint (((p', n') # segs new) @ [big])"
      proof -
        have "ivl s \<inter> ivl big = {}" if "s \<in> set ((p', n') # segs new)" for s
        proof -
          have "ivl s \<subseteq> ivl small" using r(4) that ivl_inside [of "fst small" "snd small" s] by auto
          then show ?thesis using sub(3) by blast
        qed
        then show ?thesis using r(5) unfolding disjoint_def sorted_wrt_append by simp
      qed
      then have "disjoint ((p', n') # segs new1)" by (simp add: new1_def)
      moreover have "stack_ok (new1 @ st)" using r(6) by (simp add: new1_def st1_def)
      moreover have "ordered cmp a' p n ((p', n') # segs new1)" if c: "comparator cmp"
      proof -
        have "ordered cmp a1 p n [(p + gt, n - gt), (p, lt)]" by (rule partition_ordered [OF c part(3-7)])
        then have "ordered cmp a1 p n [small, big]" by (auto simp: ordered_def small_def big_def)
        then have "ordered cmp a' p n [small, big]"
          using sub(2,3) less(2) l1 by (intro ordered_seg_perm [OF _ _ r(2)]) (auto simp: disjoint_def)
        from ordered_refine [OF this] r(7) c have "ordered cmp a' p n (((p', n') # segs new) @ [big])" by blast
        then show ?thesis by (simp add: new1_def)
      qed
      ultimately show ?thesis by blast
    qed
  qed
qed

section \<open>The whole sort\<close>

lemma disjoint_append_sub:
  assumes "disjoint ((p, n) # ss)" "disjoint ts" "\<forall>t \<in> set ts. inside p n t"
  shows "disjoint (ts @ ss)"
proof -
  have "ivl t \<inter> ivl s = {}" if "t \<in> set ts" "s \<in> set ss" for s t
  proof -
    have "ivl t \<subseteq> ivl (p, n)" using assms(3) that(1) ivl_inside by blast
    then show ?thesis using assms(1) that(2) unfolding disjoint_def by auto
  qed
  then show ?thesis using assms(1,2) unfolding disjoint_def sorted_wrt_append by auto
qed

lemma rq_loop_value:
  "b + m \<le> length a \<Longrightarrow> \<forall>s \<in> set (segs st). inside b m s \<Longrightarrow> disjoint (segs st) \<Longrightarrow> stack_ok st \<Longrightarrow>
    \<exists>a'. rq_loop cmp a st = Some a' \<and> seg_perm b m a a'
      \<and> (comparator cmp \<longrightarrow> ordered cmp a b m (segs st) \<longrightarrow> ordered cmp a' b m [])"
proof (induction "weight st" arbitrary: a st rule: less_induct)
  case less
  show ?case
  proof (cases st)
    case Nil
    then show ?thesis by (subst rq_loop.simps) simp
  next
    case (Cons s0 rest)
    obtain p n d where s0: "s0 = (p, n, d)" by (metis prod_cases3)
    have st: "st = (p, n, d) # rest" using Cons s0 by simp
    have h: "p + n \<le> length a" "length rest \<le> d" "d \<le> 50" "stack_ok rest" "inside b m (p, n)"
      using less(2,3,5) by (auto simp: st inside_def)
    from rq_seg_value [OF h(1-4), of cmp] obtain a1 new p' n' where r:
      "rq_seg cmp a rest p n d = Some (a1, new @ rest, p', n')" "seg_perm p n a a1" "weight new + n' \<le> n"
      "\<forall>s \<in> set ((p', n') # segs new). inside p n s" "disjoint ((p', n') # segs new)" "stack_ok (new @ rest)"
      "comparator cmp \<longrightarrow> ordered cmp a1 p n ((p', n') # segs new)"
      by (elim exE conjE) (rule that)
    have l1: "length a1 = length a" using seg_perm_length [OF r(2)] .
    have in1: "inside p n (p', n')" "inside b m (p', n')" using r(4) h(5) by (auto simp: inside_def)
    then have b1: "p' + n' \<le> length a1" using h(1) l1 by (simp add: inside_def)
    from ins_outer_value [OF b1, of cmp 1] obtain a2 where ins: "ins_outer cmp a1 p' 1 n' = Some a2"
      "seg_perm p' n' a1 a2" "comparator cmp \<longrightarrow> seg_sorted cmp a1 p' 1 \<longrightarrow> seg_sorted cmp a2 p' n'" by blast
    have l2: "length a2 = length a" using seg_perm_length [OF ins(2)] l1 by simp
    have e: "rq_loop cmp a st = rq_loop cmp a2 (new @ rest)"
      by (subst rq_loop.simps) (simp add: st r(1) ins(1) [simplified])
    have all: "disjoint (((p', n') # segs new) @ segs rest)"
      using less(4) r(4,5) by (intro disjoint_append_sub [of p n]) (simp_all add: st)
    have "weight (new @ rest) < weight st" "b + m \<le> length a2" "\<forall>s \<in> set (segs (new @ rest)). inside b m s"
      "disjoint (segs (new @ rest))" "stack_ok (new @ rest)"
      using r(3,4,6) less(2,3) l2 h(5) all by (auto simp: st inside_def disjoint_def)
    from less(1) [OF this] obtain a' where a': "rq_loop cmp a2 (new @ rest) = Some a'" "seg_perm b m a2 a'"
      "comparator cmp \<longrightarrow> ordered cmp a2 b m (segs (new @ rest)) \<longrightarrow> ordered cmp a' b m []" by blast
    have "seg_perm b m a a1" "seg_perm b m a1 a2"
      using seg_perm_sub [OF r(2), of b m] seg_perm_sub [OF ins(2), of b m] h(5) in1(2) by (auto simp: inside_def)
    then have "seg_perm b m a a'" using a'(2) seg_perm_trans by blast
    moreover have "ordered cmp a2 b m (segs (new @ rest))" if c: "comparator cmp" and o: "ordered cmp a b m (segs st)"
    proof -
      have "ordered cmp a1 b m ((p, n) # segs rest)"
      proof (rule ordered_seg_perm [of cmp a])
        show "ordered cmp a b m ((p, n) # segs rest)" using o by (simp add: st)
        show "disjoint ((p, n) # segs rest)" using less(4) by (simp add: st)
      qed (use h(5) r(2) less(2) in simp_all)
      from ordered_refine [OF this, of "(p', n') # segs new"] r(7) c
      have o1: "ordered cmp a1 b m ((p', n') # segs new @ segs rest)" by simp
      have "ordered cmp a2 b m ((p', n') # segs new @ segs rest)"
      proof (rule ordered_seg_perm [OF o1])
        show "disjoint ((p', n') # segs new @ segs rest)" using all by simp
      qed (use in1(2) ins(2) less(2) l1 in simp_all)
      moreover have "seg_sorted cmp a2 p' n'" using ins(3) c by (simp add: seg_sorted_def)
      then have "ordered cmp a2 (fst (p', n')) (snd (p', n')) []" by (simp add: seg_sorted_ordered)
      ultimately have "ordered cmp a2 b m ([] @ segs new @ segs rest)" by (rule ordered_refine)
      then show ?thesis by simp
    qed
    ultimately show ?thesis using e a' by auto
  qed
qed

lemma rqsort_value:
  assumes "base + n \<le> length a"
  shows "\<exists>a'. rqsort cmp a base n = Some a' \<and> seg_perm base n a a'
    \<and> (comparator cmp \<longrightarrow> seg_sorted cmp a' base n)"
proof (cases "n < 2")
  case True
  then show ?thesis by (auto simp: rqsort_def seg_sorted_def)
next
  case False
  have "ordered cmp a base n (segs [(base, n, 0)])" by (auto simp: ordered_def ivl_def)
  with rq_loop_value [OF assms, of "[(base, n, 0)]" cmp] False show ?thesis
    by (auto simp: rqsort_def inside_def disjoint_def seg_sorted_ordered)
qed

section \<open>The comparison of intervals\<close>

text \<open>The comparison that \<open>cr_sort_and_remove_overlap\<close> of \<^verbatim>\<open>libunicode.c\<close> sorts with, on pairs of points.\<close>

definition point_cmp :: "(u32 \<times> u32) cmp_f" where
  "point_cmp p1 p2 = of_bool (fst p1 > fst p2) - of_bool (fst p1 < fst p2)"

interpretation points: comparator point_cmp
proof
  show "point_cmp x y \<le> 0 \<longleftrightarrow> 0 \<le> point_cmp y x" for x y
    by (auto simp: point_cmp_def of_bool_def)
  show "point_cmp x y \<le> 0 \<Longrightarrow> point_cmp y z \<le> 0 \<Longrightarrow> point_cmp x z \<le> 0" for x y z
    by (auto simp: point_cmp_def of_bool_def split: if_splits)
qed

section \<open>The properties\<close>

text \<open>Property C3 (functional): \<open>rqsort\<close> on \<open>n\<close> elements at \<open>base\<close> returns for any comparison at all, also an
  inconsistent one: it ends, no element access is outside the array, the stack of 50 segments does not
  overflow, and the result is a rearrangement of the segment that leaves the rest of the array
  alone. If the comparison is a total preorder, the segment is sorted.\<close>
theorem rqsort_sorts:
  assumes "base + n \<le> length a"
  shows "\<exists>a'. rqsort cmp a base n = Some a'
    \<and> take base a' = take base a \<and> drop (base + n) a' = drop (base + n) a
    \<and> mset (take n (drop base a')) = mset (take n (drop base a))
    \<and> (comparator cmp \<longrightarrow> sorted_wrt (\<lambda>x y. cmp x y \<le> 0) (take n (drop base a')))"
proof -
  from rqsort_value [OF assms, of cmp] obtain a' where a': "rqsort cmp a base n = Some a'" "seg_perm base n a a'"
    "comparator cmp \<longrightarrow> seg_sorted cmp a' base n" by blast
  have "sorted_wrt (\<lambda>x y. cmp x y \<le> 0) (take n (drop base a'))" if "seg_sorted cmp a' base n"
    using that assms seg_perm_length [OF a'(2)] by (auto simp: sorted_wrt_iff_nth_less seg_sorted_def)
  then show ?thesis using a' seg_perm_mset [OF a'(2) assms] by (auto simp: seg_perm_def)
qed

theorem rqsort_sorts_witness:
  "\<exists>a'. rqsort point_cmp [(9, 0), (5, 6), (1, 2), (3, 4), (0, 0)] 1 3 = Some a'
    \<and> sorted_wrt (\<lambda>x y. point_cmp x y \<le> 0) (take 3 (drop 1 a')) \<and> take 1 a' = [(9, 0)]"
  using rqsort_sorts [of 1 3 "[(9, 0), (5, 6), (1, 2), (3, 4), (0, 0)]" point_cmp] points.comparator_axioms
  by auto

end
