(* ===== verification/CaseRuns.thy ===== *)
theory CaseRuns
  imports CaseConv
begin

text \<open>
  The entries of the case conversion tables as records of integers, their conversion rules on
  integers, and the proof that the code's search and conversion compute these. The theorems of
  \<open>CaseFold\<close> rest on a check of the rules at each code point of each run.
\<close>

section \<open>The runs\<close>

text \<open>First code point, length, rule, argument of the rule, and the code point of the entry that the
  argument refers to for the rules 0 to 3. The runs come in blocks with their number and the end of
  their last run.\<close>

type_synonym run = "int \<times> int \<times> int \<times> int \<times> int"

definition runs_0 :: "run list" where
  "runs_0 = [
    (65, 26, 3, 1, 97), (97, 26, 0, 0, 65), (181, 1, 7, 924, 0), (192, 23, 3, 6, 224),
    (216, 7, 3, 7, 248), (223, 1, 11, 845, 0), (224, 23, 0, 3, 192), (248, 7, 0, 4, 216),
    (255, 1, 0, 16, 376), (256, 48, 4, 0, 0), (304, 1, 12, 911, 0), (305, 1, 9, 11, 0),
    (306, 6, 4, 0, 0), (313, 16, 4, 0, 0), (329, 1, 11, 1041, 0), (330, 46, 4, 0, 0),
    (376, 1, 3, 8, 255), (377, 6, 4, 0, 0), (383, 1, 7, 83, 0), (384, 1, 0, 75, 579)]"

definition runs_1 :: "run list" where
  "runs_1 = [
    (385, 1, 3, 82, 595), (386, 4, 4, 0, 0), (390, 1, 3, 83, 596), (391, 2, 4, 0, 0),
    (393, 2, 3, 84, 598), (395, 2, 4, 0, 0), (398, 1, 3, 59, 477), (399, 1, 3, 85, 601),
    (400, 1, 3, 86, 603), (401, 2, 4, 0, 0), (403, 1, 3, 88, 608), (404, 1, 3, 90, 611),
    (405, 1, 0, 64, 502), (406, 1, 3, 95, 617), (407, 1, 3, 94, 616), (408, 2, 4, 0, 0),
    (410, 1, 0, 71, 573), (411, 1, 0, 336, 42972), (412, 1, 3, 99, 623), (413, 1, 3, 101, 626)]"

definition runs_2 :: "run list" where
  "runs_2 = [
    (414, 1, 0, 67, 544), (415, 1, 3, 102, 629), (416, 6, 4, 0, 0), (422, 1, 3, 104, 640),
    (423, 2, 4, 0, 0), (425, 1, 3, 106, 643), (428, 2, 4, 0, 0), (430, 1, 3, 108, 648),
    (431, 2, 4, 0, 0), (433, 2, 3, 110, 650), (435, 4, 4, 0, 0), (439, 1, 3, 112, 658),
    (440, 2, 4, 0, 0), (444, 2, 4, 0, 0), (447, 1, 0, 65, 503), (452, 3, 5, 0, 0),
    (455, 3, 5, 0, 0), (458, 3, 5, 0, 0), (461, 16, 4, 0, 0), (477, 1, 0, 26, 398)]"

definition runs_3 :: "run list" where
  "runs_3 = [
    (478, 18, 4, 0, 0), (496, 1, 11, 1171, 0), (497, 3, 5, 0, 0), (500, 2, 4, 0, 0),
    (502, 1, 3, 32, 405), (503, 1, 3, 54, 447), (504, 40, 4, 0, 0), (544, 1, 3, 40, 414),
    (546, 18, 4, 0, 0), (570, 1, 3, 292, 11365), (571, 2, 4, 0, 0), (573, 1, 3, 36, 410),
    (574, 1, 3, 293, 11366), (575, 2, 0, 301, 11390), (577, 2, 4, 0, 0), (579, 1, 3, 19, 384),
    (580, 1, 3, 109, 649), (581, 1, 3, 111, 652), (582, 10, 4, 0, 0), (592, 1, 0, 297, 11375)]"

definition runs_4 :: "run list" where
  "runs_4 = [
    (593, 1, 0, 295, 11373), (594, 1, 0, 298, 11376), (595, 1, 0, 20, 385), (596, 1, 0, 22, 390),
    (598, 2, 0, 24, 393), (601, 1, 0, 27, 399), (603, 1, 0, 28, 400), (604, 1, 0, 321, 42923),
    (608, 1, 0, 30, 403), (609, 1, 0, 322, 42924), (611, 1, 0, 31, 404), (612, 1, 0, 334, 42955),
    (613, 1, 0, 316, 42893), (614, 1, 0, 320, 42922), (616, 1, 0, 34, 407), (617, 1, 0, 33, 406),
    (618, 1, 0, 324, 42926), (619, 1, 0, 289, 11362), (620, 1, 0, 323, 42925), (623, 1, 0, 38, 412)]"

definition runs_5 :: "run list" where
  "runs_5 = [
    (625, 1, 0, 296, 11374), (626, 1, 0, 39, 413), (629, 1, 0, 41, 415), (637, 1, 0, 291, 11364),
    (640, 1, 0, 43, 422), (642, 1, 0, 331, 42949), (643, 1, 0, 45, 425), (647, 1, 0, 326, 42929),
    (648, 1, 0, 47, 430), (649, 1, 0, 76, 580), (650, 2, 0, 49, 433), (652, 1, 0, 77, 581),
    (658, 1, 0, 51, 439), (669, 1, 0, 327, 42930), (670, 1, 0, 325, 42928), (837, 1, 7, 921, 0),
    (880, 4, 4, 0, 0), (886, 2, 4, 0, 0), (891, 3, 0, 151, 1021), (895, 1, 3, 145, 1011)]"

definition runs_6 :: "run list" where
  "runs_6 = [
    (902, 1, 3, 127, 940), (904, 3, 3, 128, 941), (908, 1, 3, 133, 972), (910, 2, 3, 134, 973),
    (912, 1, 13, 18, 0), (913, 17, 3, 130, 945), (931, 9, 3, 132, 963), (940, 1, 0, 120, 902),
    (941, 3, 0, 121, 904), (944, 1, 13, 786, 0), (945, 17, 0, 125, 913), (962, 1, 7, 931, 0),
    (963, 9, 0, 126, 931), (972, 1, 0, 122, 908), (973, 2, 0, 123, 910), (975, 1, 3, 140, 983),
    (976, 1, 7, 914, 0), (977, 1, 7, 920, 0), (981, 1, 7, 934, 0), (982, 1, 7, 928, 0)]"

definition runs_7 :: "run list" where
  "runs_7 = [
    (983, 1, 0, 135, 975), (984, 24, 4, 0, 0), (1008, 1, 7, 922, 0), (1009, 1, 7, 929, 0),
    (1010, 1, 0, 149, 1017), (1011, 1, 0, 119, 895), (1012, 1, 10, 51, 0), (1013, 1, 7, 917, 0),
    (1015, 2, 4, 0, 0), (1017, 1, 3, 144, 1010), (1018, 2, 4, 0, 0), (1021, 3, 3, 118, 891),
    (1024, 16, 3, 155, 1104), (1040, 32, 3, 154, 1072), (1072, 32, 0, 153, 1040), (1104, 16, 0, 152, 1024),
    (1120, 34, 4, 0, 0), (1162, 54, 4, 0, 0), (1216, 1, 3, 160, 1231), (1217, 14, 4, 0, 0)]"

definition runs_8 :: "run list" where
  "runs_8 = [
    (1231, 1, 0, 158, 1216), (1232, 96, 4, 0, 0), (1329, 38, 3, 163, 1377), (1377, 38, 0, 162, 1329),
    (1415, 1, 11, 1301, 0), (4256, 38, 3, 305, 11520), (4295, 1, 3, 306, 11559), (4301, 1, 3, 307, 11565),
    (4304, 43, 0, 183, 7312), (4349, 3, 0, 184, 7357), (5024, 80, 1, 339, 43888), (5104, 6, 1, 172, 5112),
    (5112, 6, 2, 171, 5104), (7296, 1, 7, 1042, 0), (7297, 1, 7, 1044, 0), (7298, 1, 7, 1054, 0),
    (7299, 1, 7, 1057, 0), (7300, 1, 7, 1058, 0), (7301, 1, 7, 1058, 0), (7302, 1, 7, 1066, 0)]"

definition runs_9 :: "run list" where
  "runs_9 = [
    (7303, 1, 8, 52, 0), (7304, 1, 8, 53, 0), (7305, 2, 4, 0, 0), (7312, 43, 3, 168, 4304),
    (7357, 3, 3, 169, 4349), (7545, 1, 0, 313, 42877), (7549, 1, 0, 290, 11363), (7566, 1, 0, 332, 42950),
    (7680, 126, 4, 0, 0), (7806, 24, 4, 0, 0), (7830, 1, 11, 1431, 0), (7831, 1, 11, 1537, 0),
    (7832, 1, 11, 1626, 0), (7833, 1, 11, 1754, 0), (7834, 1, 11, 1821, 0), (7835, 1, 8, 54, 0),
    (7838, 1, 3, 5, 223), (7840, 96, 4, 0, 0), (7936, 8, 0, 199, 7944), (7944, 8, 3, 198, 7936)]"

definition runs_10 :: "run list" where
  "runs_10 = [
    (7952, 6, 0, 201, 7960), (7960, 6, 3, 200, 7952), (7968, 8, 0, 203, 7976), (7976, 8, 3, 202, 7968),
    (7984, 8, 0, 205, 7992), (7992, 8, 3, 204, 7984), (8000, 6, 0, 207, 8008), (8008, 6, 3, 206, 8000),
    (8016, 1, 11, 196, 0), (8017, 1, 0, 216, 8025), (8018, 1, 13, 837, 0), (8019, 1, 0, 217, 8027),
    (8020, 1, 13, 834, 0), (8021, 1, 0, 218, 8029), (8022, 1, 13, 838, 0), (8023, 1, 0, 219, 8031),
    (8025, 1, 3, 209, 8017), (8027, 1, 3, 211, 8019), (8029, 1, 3, 213, 8021), (8031, 1, 3, 215, 8023)]"

definition runs_11 :: "run list" where
  "runs_11 = [
    (8032, 8, 0, 221, 8040), (8040, 8, 3, 220, 8032), (8048, 2, 0, 241, 8122), (8050, 4, 0, 249, 8136),
    (8054, 2, 0, 257, 8154), (8056, 2, 0, 273, 8184), (8058, 2, 0, 266, 8170), (8060, 2, 0, 274, 8186),
    (8064, 8, 11, 1920, 0), (8072, 8, 6, 1951, 0), (8080, 8, 11, 2048, 0), (8088, 8, 6, 2081, 0),
    (8096, 8, 11, 2176, 0), (8104, 8, 6, 2211, 0), (8112, 2, 0, 240, 8120), (8114, 1, 11, 2304, 0),
    (8115, 1, 11, 448, 0), (8116, 1, 11, 2368, 0), (8118, 1, 11, 454, 0), (8119, 1, 13, 1888, 0)]"

definition runs_12 :: "run list" where
  "runs_12 = [
    (8120, 2, 3, 234, 8112), (8122, 2, 3, 222, 8048), (8124, 1, 6, 486, 0), (8126, 1, 7, 921, 0),
    (8130, 1, 11, 2496, 0), (8131, 1, 11, 512, 0), (8132, 1, 11, 2560, 0), (8134, 1, 11, 518, 0),
    (8135, 1, 13, 2144, 0), (8136, 4, 3, 223, 8050), (8140, 1, 6, 553, 0), (8144, 2, 0, 256, 8152),
    (8146, 1, 13, 21, 0), (8147, 1, 13, 18, 0), (8150, 1, 11, 6, 0), (8151, 1, 13, 22, 0),
    (8152, 2, 3, 251, 8144), (8154, 2, 3, 224, 8054), (8160, 2, 0, 265, 8168), (8162, 1, 13, 789, 0)]"

definition runs_13 :: "run list" where
  "runs_13 = [
    (8163, 1, 13, 786, 0), (8164, 1, 11, 2692, 0), (8165, 1, 0, 267, 8172), (8166, 1, 11, 198, 0),
    (8167, 1, 13, 790, 0), (8168, 2, 3, 258, 8160), (8170, 2, 3, 226, 8058), (8172, 1, 3, 262, 8165),
    (8178, 1, 11, 2752, 0), (8179, 1, 11, 576, 0), (8180, 1, 11, 2816, 0), (8182, 1, 11, 582, 0),
    (8183, 1, 13, 2400, 0), (8184, 2, 3, 225, 8056), (8186, 2, 3, 227, 8060), (8188, 1, 6, 621, 0),
    (8486, 1, 10, 55, 0), (8490, 1, 10, 56, 0), (8491, 1, 10, 57, 0), (8498, 1, 3, 280, 8526)]"

definition runs_14 :: "run list" where
  "runs_14 = [
    (8526, 1, 0, 279, 8498), (8544, 16, 3, 282, 8560), (8560, 16, 0, 281, 8544), (8579, 2, 4, 0, 0),
    (9398, 26, 3, 285, 9424), (9424, 26, 0, 284, 9398), (11264, 48, 3, 287, 11312), (11312, 48, 0, 286, 11264),
    (11360, 2, 4, 0, 0), (11362, 1, 3, 97, 619), (11363, 1, 3, 186, 7549), (11364, 1, 3, 103, 637),
    (11365, 1, 0, 69, 570), (11366, 1, 0, 72, 574), (11367, 6, 4, 0, 0), (11373, 1, 3, 80, 593),
    (11374, 1, 3, 100, 625), (11375, 1, 3, 79, 592), (11376, 1, 3, 81, 594), (11378, 2, 4, 0, 0)]"

definition runs_15 :: "run list" where
  "runs_15 = [
    (11381, 2, 4, 0, 0), (11390, 2, 3, 73, 575), (11392, 100, 4, 0, 0), (11499, 4, 4, 0, 0),
    (11506, 2, 4, 0, 0), (11520, 38, 0, 165, 4256), (11559, 1, 0, 166, 4295), (11565, 1, 0, 167, 4301),
    (42560, 46, 4, 0, 0), (42624, 28, 4, 0, 0), (42786, 14, 4, 0, 0), (42802, 62, 4, 0, 0),
    (42873, 4, 4, 0, 0), (42877, 1, 3, 185, 7545), (42878, 10, 4, 0, 0), (42891, 2, 4, 0, 0),
    (42893, 1, 3, 92, 613), (42896, 4, 4, 0, 0), (42900, 1, 0, 330, 42948), (42902, 20, 4, 0, 0)]"

definition runs_16 :: "run list" where
  "runs_16 = [
    (42922, 1, 3, 93, 614), (42923, 1, 3, 87, 604), (42924, 1, 3, 89, 609), (42925, 1, 3, 98, 620),
    (42926, 1, 3, 96, 618), (42928, 1, 3, 114, 670), (42929, 1, 3, 107, 647), (42930, 1, 3, 113, 669),
    (42931, 1, 3, 338, 43859), (42932, 16, 4, 0, 0), (42948, 1, 3, 318, 42900), (42949, 1, 3, 105, 642),
    (42950, 1, 3, 187, 7566), (42951, 4, 4, 0, 0), (42955, 1, 3, 91, 612), (42956, 16, 4, 0, 0),
    (42972, 1, 3, 37, 411), (42997, 2, 4, 0, 0), (43859, 1, 0, 328, 42931), (43888, 80, 2, 170, 5024)]"

definition runs_17 :: "run list" where
  "runs_17 = [
    (64256, 1, 11, 650, 0), (64257, 1, 11, 651, 0), (64258, 1, 11, 652, 0), (64259, 1, 13, 2731, 0),
    (64260, 1, 13, 2732, 0), (64261, 1, 11, 856, 0), (64262, 1, 11, 856, 0), (64275, 1, 11, 2991, 0),
    (64276, 1, 11, 2964, 0), (64277, 1, 11, 2992, 0), (64278, 1, 11, 3183, 0), (64279, 1, 11, 2994, 0),
    (65313, 26, 3, 353, 65345), (65345, 26, 0, 352, 65313), (66560, 40, 3, 355, 66600), (66600, 40, 0, 354, 66560),
    (66736, 36, 3, 357, 66776), (66776, 36, 0, 356, 66736), (66928, 11, 3, 362, 66967), (66940, 15, 3, 363, 66979)]"

definition runs_18 :: "run list" where
  "runs_18 = [
    (66956, 7, 3, 364, 66995), (66964, 2, 3, 365, 67003), (66967, 11, 0, 358, 66928), (66979, 15, 0, 359, 66940),
    (66995, 7, 0, 360, 66956), (67003, 2, 0, 361, 66964), (68736, 51, 3, 367, 68800), (68800, 51, 0, 366, 68736),
    (68944, 22, 3, 369, 68976), (68976, 22, 0, 368, 68944), (71840, 32, 3, 371, 71872), (71872, 32, 0, 370, 71840),
    (93760, 32, 3, 373, 93792), (93792, 32, 0, 372, 93760), (93856, 25, 3, 375, 93883), (93883, 25, 0, 374, 93856),
    (125184, 34, 3, 377, 125218), (125218, 34, 0, 376, 125184)]"

definition case_blocks :: "(int \<times> int \<times> run list) list" where
  "case_blocks = [
    (20, 385, runs_0), (20, 414, runs_1), (20, 478, runs_2), (20, 593, runs_3),
    (20, 624, runs_4), (20, 896, runs_5), (20, 983, runs_6), (20, 1231, runs_7),
    (20, 7303, runs_8), (20, 7952, runs_9), (20, 8032, runs_10), (20, 8120, runs_11),
    (20, 8163, runs_12), (20, 8499, runs_13), (20, 11380, runs_14), (20, 42922, runs_15),
    (20, 43968, runs_16), (20, 66955, runs_17), (18, 125252, runs_18)]"

definition case_runs :: "run list" where
  "case_runs = concat (map (\<lambda>(n, e, rs). rs) case_blocks)"

fun sorted_upto :: "int \<Rightarrow> run list \<Rightarrow> int \<Rightarrow> bool" where
  "sorted_upto m [] e \<longleftrightarrow> m \<le> e"
| "sorted_upto m ((code, len, ty, data, base) # rs) e \<longleftrightarrow> m \<le> code \<and> 0 < len \<and> sorted_upto (code + len) rs e"

fun blocks_ok :: "int \<Rightarrow> (int \<times> int \<times> run list) list \<Rightarrow> bool" where
  "blocks_ok m [] \<longleftrightarrow> True"
| "blocks_ok m ((n, e, rs) # bs) \<longleftrightarrow> int (length rs) = n \<and> sorted_upto m rs e \<and> blocks_ok e bs"

fun block_nth :: "(int \<times> int \<times> run list) list \<Rightarrow> int \<Rightarrow> run" where
  "block_nth [] i = (0, 0, 0, 0, 0)"
| "block_nth ((n, e, rs) # bs) i = (if i < n then rs ! nat i else block_nth bs (i - n))"

fun in_run :: "int \<Rightarrow> run \<Rightarrow> bool" where
  "in_run x (code, len, ty, data, base) \<longleftrightarrow> code \<le> x \<and> x < code + len"

fun block_find :: "(int \<times> int \<times> run list) list \<Rightarrow> int \<Rightarrow> run option" where
  "block_find [] x = None"
| "block_find ((n, e, rs) # bs) x = (if x < e then List.find (in_run x) rs else block_find bs x)"

definition find_run :: "int \<Rightarrow> run option" where "find_run x = block_find case_blocks x"

lemma blocks: "blocks_ok 0 case_blocks"
  by code_simp

lemma block_nth_concat:
  "blocks_ok m bs \<Longrightarrow> 0 \<le> i \<Longrightarrow> nat i < length (concat (map (\<lambda>(n, e, rs). rs) bs)) \<Longrightarrow>
    block_nth bs i = concat (map (\<lambda>(n, e, rs). rs) bs) ! nat i"
proof (induction m bs arbitrary: i rule: blocks_ok.induct)
  case (2 m n e rs bs)
  then have n: "n = int (length rs)" and b: "blocks_ok e bs" by auto
  show ?case
  proof (cases "i < n")
    case True
    then show ?thesis using 2(3) n by (simp add: nth_append nat_less_iff)
  next
    case False
    then have "block_nth bs (i - n) = concat (map (\<lambda>(n, e, rs). rs) bs) ! nat (i - n)"
      using 2(2-4) n by (intro 2(1) [OF b]) (auto simp: nat_diff_distrib)
    then show ?thesis using False 2(3) n by (simp add: nth_append nat_less_iff nat_diff_distrib)
  qed
qed simp

lemma sorted_upto_le: "sorted_upto m rs e \<Longrightarrow> m \<le> e"
  by (induction m rs e rule: sorted_upto.induct) auto

lemma sorted_upto_append:
  "sorted_upto m rs e \<Longrightarrow> sorted_upto e ss f \<Longrightarrow> sorted_upto m (rs @ ss) f"
proof (induction m rs e rule: sorted_upto.induct)
  case (1 m e)
  then show ?case by (cases ss) auto
qed auto

lemma blocks_sorted:
  "blocks_ok m bs \<Longrightarrow> \<exists>e. sorted_upto m (concat (map (\<lambda>(n, e, rs). rs) bs)) e"
proof (induction m bs rule: blocks_ok.induct)
  case (1 m)
  have "sorted_upto m [] m" by simp
  then show ?case by auto
next
  case (2 m n e rs bs)
  then obtain f where "sorted_upto e (concat (map (\<lambda>(n, e, rs). rs) bs)) f" by auto
  then have "sorted_upto m (rs @ concat (map (\<lambda>(n, e, rs). rs) bs)) f"
    using 2(2) by (intro sorted_upto_append) auto
  then show ?case by auto
qed

lemma find_below: "sorted_upto m rs e \<Longrightarrow> x < m \<Longrightarrow> List.find (in_run x) rs = None"
  by (induction m rs e rule: sorted_upto.induct) auto

lemma find_above: "sorted_upto m rs e \<Longrightarrow> e \<le> x \<Longrightarrow> List.find (in_run x) rs = None"
proof (induction m rs e rule: sorted_upto.induct)
  case (2 m code len ty data base rs e)
  then show ?case using sorted_upto_le [of "code + len" rs e] by auto
qed simp

lemma find_append: "List.find P (xs @ ys) = (case List.find P xs of None \<Rightarrow> List.find P ys | r \<Rightarrow> r)"
  by (induction xs) auto

lemma block_find_concat:
  "blocks_ok m bs \<Longrightarrow> block_find bs x = List.find (in_run x) (concat (map (\<lambda>(n, e, rs). rs) bs))"
proof (induction m bs rule: blocks_ok.induct)
  case (2 m n e rs bs)
  then have s: "sorted_upto m rs e" and b: "blocks_ok e bs" by auto
  obtain f where f: "sorted_upto e (concat (map (\<lambda>(n, e, rs). rs) bs)) f"
    using blocks_sorted [OF b] by auto
  show ?case using 2 find_below [OF f, of x] find_above [OF s, of x]
    by (auto simp: find_append split: option.split)
qed simp

lemma sorted_nth:
  "sorted_upto m rs e \<Longrightarrow> i < length rs \<Longrightarrow> rs ! i = (code, len, r) \<Longrightarrow> m \<le> code \<and> code + len \<le> e"
proof (induction m rs e arbitrary: i rule: sorted_upto.induct)
  case (2 m code' len' ty data base rs e)
  show ?case
  proof (cases i)
    case 0
    then show ?thesis using 2(2,4) sorted_upto_le [of "code' + len'" rs e] by auto
  next
    case (Suc k)
    then have "code' + len' \<le> code \<and> code + len \<le> e" using 2 by (intro 2(1)) auto
    then show ?thesis using 2(2) by auto
  qed
qed simp

lemma sorted_order:
  "sorted_upto m rs e \<Longrightarrow> i < j \<Longrightarrow> j < length rs \<Longrightarrow> rs ! i = (code, len, r) \<Longrightarrow> rs ! j = (code', len', r') \<Longrightarrow>
    code + len \<le> code'"
proof (induction m rs e arbitrary: i j rule: sorted_upto.induct)
  case (2 m c l ty data base rs e)
  obtain j' where j: "j = Suc j'" using 2(3) by (cases j) auto
  show ?case
  proof (cases i)
    case 0
    have "sorted_upto (c + l) rs e" using 2(2) by simp
    then have "c + l \<le> code'" using sorted_nth [of "c + l" rs e j'] 2 j by auto
    then show ?thesis using 2(5) 0 by auto
  next
    case (Suc k)
    then show ?thesis using 2(2-6) j by (intro 2(1) [of k j']) auto
  qed
qed simp

lemma find_in_run:
  assumes "sorted_upto m rs e" "i < length rs" "in_run x (rs ! i)"
  shows "List.find (in_run x) rs = Some (rs ! i)"
proof -
  obtain code len r where i: "rs ! i = (code, len, r)" by (cases "rs ! i")
  have "\<not> in_run x (rs ! j)" if "j < i" for j
  proof -
    obtain c l q where j: "rs ! j = (c, l, q)" by (cases "rs ! j")
    then have "c + l \<le> code" using sorted_order [OF assms(1) that assms(2) j i] by simp
    then show ?thesis using assms(3) i j by (cases r; cases q) auto
  qed
  then show ?thesis using assms(2,3) by (auto simp: find_Some_iff)
qed

section \<open>The runs are the tables\<close>

fun row_ok :: "u32 \<Rightarrow> u8 \<Rightarrow> run \<Rightarrow> bool" where
  "row_ok v d (code, len, ty, data, base) \<longleftrightarrow>
     uint v = code * 32768 + len * 256 + ty * 16 + data div 256 \<and> uint d = data mod 256
     \<and> 65 \<le> code \<and> 0 < len \<and> len < 128 \<and> code + len \<le> 131072 \<and> 0 \<le> ty \<and> ty \<le> 13
     \<and> 0 \<le> data \<and> data < 4096 \<and> 0 \<le> base \<and> base < 131072"

fun rows_ok :: "u32 list \<Rightarrow> u8 list \<Rightarrow> run list \<Rightarrow> bool" where
  "rows_ok (v # vs) (d # ds) (r # rs) \<longleftrightarrow> row_ok v d r \<and> rows_ok vs ds rs"
| "rows_ok [] [] [] \<longleftrightarrow> True"
| "rows_ok _ _ _ \<longleftrightarrow> False"

lemma rows: "rows_ok case_conv_table1 case_conv_table2 case_runs"
  by code_simp

definition run_at :: "int \<Rightarrow> run" where "run_at i = block_nth case_blocks i"

fun bases_ok :: "run list \<Rightarrow> bool" where
  "bases_ok [] \<longleftrightarrow> True"
| "bases_ok ((code, len, ty, data, base) # rs) \<longleftrightarrow>
     (ty \<le> 3 \<longrightarrow> data < 378 \<and> fst (run_at data) = base) \<and> bases_ok rs"

lemma bases_0: "bases_ok runs_0"
  by code_simp

lemma bases_1: "bases_ok runs_1"
  by code_simp

lemma bases_2: "bases_ok runs_2"
  by code_simp

lemma bases_3: "bases_ok runs_3"
  by code_simp

lemma bases_4: "bases_ok runs_4"
  by code_simp

lemma bases_5: "bases_ok runs_5"
  by code_simp

lemma bases_6: "bases_ok runs_6"
  by code_simp

lemma bases_7: "bases_ok runs_7"
  by code_simp

lemma bases_8: "bases_ok runs_8"
  by code_simp

lemma bases_9: "bases_ok runs_9"
  by code_simp

lemma bases_10: "bases_ok runs_10"
  by code_simp

lemma bases_11: "bases_ok runs_11"
  by code_simp

lemma bases_12: "bases_ok runs_12"
  by code_simp

lemma bases_13: "bases_ok runs_13"
  by code_simp

lemma bases_14: "bases_ok runs_14"
  by code_simp

lemma bases_15: "bases_ok runs_15"
  by code_simp

lemma bases_16: "bases_ok runs_16"
  by code_simp

lemma bases_17: "bases_ok runs_17"
  by code_simp

lemma bases_18: "bases_ok runs_18"
  by code_simp

lemma bases_append: "bases_ok (xs @ ys) \<longleftrightarrow> bases_ok xs \<and> bases_ok ys"
  by (induction xs rule: bases_ok.induct) auto

lemma bases: "bases_ok case_runs"
  by (simp add: case_runs_def case_blocks_def bases_append
      bases_0 bases_1 bases_2 bases_3 bases_4 bases_5 bases_6 bases_7 bases_8 bases_9 bases_10 bases_11 bases_12 bases_13 bases_14 bases_15 bases_16 bases_17 bases_18)

lemma bases_mem:
  "bases_ok rs \<Longrightarrow> (code, len, ty, data, base) \<in> set rs \<Longrightarrow> ty \<le> 3 \<Longrightarrow> data < 378 \<and> fst (run_at data) = base"
  by (induction rs rule: bases_ok.induct) auto

lemma rows_length: "rows_ok vs ds rs \<Longrightarrow> length vs = length rs \<and> length ds = length rs"
  by (induction vs ds rs rule: rows_ok.induct) auto

lemma blocks_length:
  "blocks_ok m bs \<Longrightarrow> int (length (concat (map (\<lambda>(n, e, rs). rs) bs))) = sum_list (map fst bs)"
  by (induction m bs rule: blocks_ok.induct) auto

lemma length_runs: "length case_runs = 378"
  using blocks_length [OF blocks] by (simp add: case_runs_def [symmetric]) (simp add: case_blocks_def)

lemma length_tables: "length case_conv_table1 = 378" "length case_conv_table2 = 378"
  using rows_length [OF rows] length_runs by auto

lemma run_at_value: "0 \<le> i \<Longrightarrow> i < 378 \<Longrightarrow> run_at i = case_runs ! nat i"
  using block_nth_concat [OF blocks, of i] length_runs unfolding run_at_def case_runs_def by simp

lemma rows_nth:
  "rows_ok vs ds rs \<Longrightarrow> i < length vs \<Longrightarrow> row_ok (vs ! i) (ds ! i) (rs ! i)"
  by (induction vs ds rs arbitrary: i rule: rows_ok.induct) (auto simp: nth_Cons split: nat.splits)

lemma row: "i < 378 \<Longrightarrow> row_ok (case_conv_table1 ! i) (case_conv_table2 ! i) (case_runs ! i)"
  using rows_nth [OF rows] by (simp add: length_tables)

lemma runs_sorted: "\<exists>e. sorted_upto 0 case_runs e"
  using blocks_sorted [OF blocks] by (simp add: case_runs_def)

lemma find_run_value: "find_run x = List.find (in_run x) case_runs"
  unfolding find_run_def case_runs_def by (rule block_find_concat [OF blocks])

section \<open>The fields of an entry\<close>

lemma uint_drop_bit: "uint (drop_bit k (v :: 'a::len word)) = uint v div 2 ^ k"
  by (subst unsigned_drop_bit_eq) (simp only: drop_bit_eq_div take_bit_int_eq_self [OF uint_ge_0 uint_lt2p])

lemma uint_low:
  "uint (v AND 0xf :: u32) = uint v mod 16" "uint (v AND 0x3f :: u32) = uint v mod 64"
  "uint (v AND 0x7f :: u32) = uint v mod 128" "uint (v AND 1 :: u32) = uint v mod 2"
proof -
  have t: "uint (v AND mask k) = uint v mod 2 ^ k" for k
    by (simp only: take_bit_eq_mask [symmetric] unsigned_take_bit_eq) (simp add: take_bit_eq_mod)
  show "uint (v AND 0xf) = uint v mod 16" "uint (v AND 0x3f) = uint v mod 64" "uint (v AND 0x7f) = uint v mod 128"
    "uint (v AND 1) = uint v mod 2"
    using t [of 4] t [of 6] t [of 7] t [of 1] by (simp_all add: mask_eq_exp_minus_1)
qed

lemma fields:
  assumes "row_ok v d (code, len, ty, data, base)"
  shows "uint (run_code v) = code" "uint (run_len v) = len" "uint (run_type v) = ty"
    "uint (push_bit 8 (v AND 0xf) OR ucast d :: u32) = data"
proof -
  have v: "uint v = code * 32768 + len * 256 + ty * 16 + data div 256" "uint d = data mod 256"
    "0 \<le> len" "len < 128" "0 \<le> ty" "ty < 16" "0 \<le> data div 256" "data div 256 < 16"
    using assms by auto
  have d: "uint v div 16 = code * 2048 + len * 16 + ty" using v(1,7,8) by linarith
  have e: "uint v div 256 = code * 128 + len" using v(1,5-8) by linarith
  have "uint v div 32768 = code" using v(1,3-8) by linarith
  then show "uint (run_code v) = code" unfolding run_code_def uint_drop_bit by simp
  have "uint v div 256 mod 128 = len" unfolding e using v(3,4) by simp
  then show "uint (run_len v) = len" unfolding run_len_def uint_low uint_drop_bit by simp
  have "uint v div 16 mod 16 = ty" unfolding d using v(5,6) by (simp add: mod_add_eq [symmetric])
  then show "uint (run_type v) = ty" unfolding run_type_def uint_low uint_drop_bit by simp
  have "uint v mod 16 = uint v - 16 * (uint v div 16)" by (simp add: minus_mult_div_eq_mod)
  then have "uint v mod 16 = data div 256" unfolding d using v(1) by simp
  then have m: "uint (v AND 0xf) = data div 256" by (simp only: uint_low)
  have "uint (push_bit 8 (v AND 0xf) OR ucast d :: u32) = uint (v AND 0xf) * 256 + uint d"
    using m v(8) by (intro uint_bytes2) simp
  then show "uint (push_bit 8 (v AND 0xf) OR ucast d :: u32) = data" unfolding m v(2) by simp
qed

section \<open>The search\<close>

lemma row_run:
  assumes "i < 378" "case_runs ! i = (code, len, ty, data, base)"
  shows "uint (run_code (case_conv_table1 ! i)) = code" "uint (run_len (case_conv_table1 ! i)) = len"
    "uint (run_type (case_conv_table1 ! i)) = ty"
    "uint (push_bit 8 (case_conv_table1 ! i AND 0xf) OR ucast (case_conv_table2 ! i) :: u32) = data"
    "65 \<le> code" "0 < len" "code + len \<le> 131072" "0 \<le> ty" "ty \<le> 13" "0 \<le> data" "data < 4096"
proof -
  have r: "row_ok (case_conv_table1 ! i) (case_conv_table2 ! i) (code, len, ty, data, base)"
    using row [OF assms(1)] assms(2) by simp
  show "uint (run_code (case_conv_table1 ! i)) = code" "uint (run_len (case_conv_table1 ! i)) = len"
    "uint (run_type (case_conv_table1 ! i)) = ty"
    "uint (push_bit 8 (case_conv_table1 ! i AND 0xf) OR ucast (case_conv_table2 ! i) :: u32) = data"
    by (rule fields [OF r])+
  show "65 \<le> code" "0 < len" "code + len \<le> 131072" "0 \<le> ty" "ty \<le> 13" "0 \<le> data" "data < 4096"
    using r by simp_all
qed

lemma run_end:
  assumes "i < 378" "case_runs ! i = (code, len, ty, data, base)"
  shows "uint (run_code (case_conv_table1 ! i) + run_len (case_conv_table1 ! i)) = code + len"
proof -
  note r = row_run [OF assms]
  have "uint (run_code (case_conv_table1 ! i)) + uint (run_len (case_conv_table1 ! i)) < 2 ^ LENGTH(32)"
    using r by simp
  then show ?thesis using r by (simp add: uint_add_lem [THEN iffD1])
qed

definition code_of :: "nat \<Rightarrow> int" where "code_of i = fst (case_runs ! i)"
definition end_of :: "nat \<Rightarrow> int" where "end_of i = fst (case_runs ! i) + fst (snd (case_runs ! i))"

lemma word_search_tests:
  assumes "i < 378"
  shows "c < run_code (case_conv_table1 ! i) \<longleftrightarrow> uint c < code_of i"
    "c \<ge> run_code (case_conv_table1 ! i) + run_len (case_conv_table1 ! i) \<longleftrightarrow> end_of i \<le> uint c"
proof -
  obtain code len ty data base where r: "case_runs ! i = (code, len, ty, data, base)" by (cases "case_runs ! i")
  show "c < run_code (case_conv_table1 ! i) \<longleftrightarrow> uint c < code_of i"
    unfolding word_less_def row_run [OF assms r] code_of_def r by simp
  show "c \<ge> run_code (case_conv_table1 ! i) + run_len (case_conv_table1 ! i) \<longleftrightarrow> end_of i \<le> uint c"
    unfolding word_le_def run_end [OF assms r] end_of_def r by simp
qed

lemma runs_order: "i < j \<Longrightarrow> j < 378 \<Longrightarrow> end_of i \<le> code_of j"
  using runs_sorted sorted_order [of 0 case_runs _ i j] length_runs
  by (cases "case_runs ! i"; cases "case_runs ! j") (auto simp: end_of_def code_of_def)

lemma in_run_of: "in_run x (case_runs ! i) \<longleftrightarrow> code_of i \<le> x \<and> x < end_of i"
  by (cases "case_runs ! i") (simp add: code_of_def end_of_def)

lemma code_end: "i < 378 \<Longrightarrow> code_of i < end_of i"
  using row_run(6) by (cases "case_runs ! i") (auto simp: code_of_def end_of_def)

lemma search_finds:
  assumes "0 \<le> a" "b < 378" "\<forall>i < nat a. end_of i \<le> uint c" "\<forall>i < 378. b < int i \<longrightarrow> uint c < code_of i"
  shows "case_search c a b = Some None \<and> (\<forall>i < 378. \<not> in_run (uint c) (case_runs ! i))
    \<or> (\<exists>i < 378. case_search c a b = Some (Some (i, case_conv_table1 ! i)) \<and> in_run (uint c) (case_runs ! i))"
  using assms
proof (induction c a b rule: case_search.induct)
  case (1 c a b)
  show ?case
  proof (cases "a \<le> b")
    case False
    have "\<not> in_run (uint c) (case_runs ! i)" if "i < 378" for i
      using 1(5,6) that False 1(3) by (cases "i < nat a") (auto simp: in_run_of)
    then show ?thesis using False by (simp add: case_search.simps [of c a b])
  next
    case True
    define m where "m = (b + a) div 2"
    have m: "a \<le> m" "m \<le> b" using True by (auto simp: m_def)
    then have n: "nat m < 378" using 1(3,4) by auto
    define v where "v = case_conv_table1 ! nat m"
    have rd: "rd case_conv_table1 (nat m) = Some v" using n by (simp add: v_def length_tables)
    note t = word_search_tests [OF n, of c, folded v_def]
    have e: "case_search c a b = (if uint c < code_of (nat m) then case_search c a (m - 1)
      else if end_of (nat m) \<le> uint c then case_search c (m + 1) b else Some (Some (nat m, v)))"
      using True by (simp add: case_search.simps [of c a b] Let_def m_def [symmetric] rd t)
    consider "uint c < code_of (nat m)" | "end_of (nat m) \<le> uint c" | "in_run (uint c) (case_runs ! nat m)"
      unfolding in_run_of by linarith
    then show ?thesis
    proof cases
      case 1
      have "uint c < code_of i" if "i < 378" "m - 1 < int i" for i
      proof (cases "int i = m")
        case False
        then have "nat m < i" using that m(1) "1.prems"(1) by auto
        then show ?thesis using runs_order [of "nat m" i] code_end [OF n] that 1 by auto
      qed (use 1 in auto)
      then show ?thesis using "1.IH"(1) [OF True m_def rd] "1.prems" m e 1 t by auto
    next
      case 2
      have "end_of i \<le> uint c" if "i < nat (m + 1)" for i
      proof (cases "i = nat m")
        case False
        then have "i < nat m" using that m(1) "1.prems"(1) by auto
        then show ?thesis using runs_order [of i "nat m"] code_end [OF n] n 2 by auto
      qed (use 2 in auto)
      moreover have "\<not> uint c < code_of (nat m)" using 2 code_end [OF n] by auto
      ultimately show ?thesis using "1.IH"(2) [OF True m_def rd] "1.prems" m e 2 t by auto
    next
      case 3
      then show ?thesis using e n by (auto simp: in_run_of v_def)
    qed
  qed
qed

lemma case_find_cases:
  obtains (none) "case_find c = Some None" "find_run (uint c) = None"
  | (run) i where "i < 378" "case_find c = Some (Some (i, case_conv_table1 ! i))"
      "in_run (uint c) (case_runs ! i)" "find_run (uint c) = Some (case_runs ! i)"
proof -
  have s: "case_find c = Some None \<and> (\<forall>i < 378. \<not> in_run (uint c) (case_runs ! i))
    \<or> (\<exists>i < 378. case_find c = Some (Some (i, case_conv_table1 ! i)) \<and> in_run (uint c) (case_runs ! i))"
    unfolding case_find_def length_tables by (rule search_finds) auto
  have n: "find_run (uint c) = None" if "\<forall>i < 378. \<not> in_run (uint c) (case_runs ! i)"
    using that by (auto simp: find_run_value find_None_iff in_set_conv_nth length_runs)
  have f: "find_run (uint c) = Some (case_runs ! i)" if "i < 378" "in_run (uint c) (case_runs ! i)" for i
    using runs_sorted find_in_run [of 0 case_runs _ i] that by (auto simp: find_run_value length_runs)
  from s show thesis using n f none run by blast
qed

section \<open>The rules on integers\<close>

definition ext_ints :: "int list" where
  "ext_ints = [
    921, 776, 769, 933, 787, 768, 834, 913, 919, 937, 70, 73,
    76, 83, 105, 775, 700, 78, 74, 780, 1333, 1362, 72, 817,
    84, 87, 778, 89, 65, 702, 7944, 8064, 7976, 8080, 8040, 8096,
    8122, 902, 8115, 8138, 905, 8131, 929, 8186, 911, 8179, 1348, 1350,
    1339, 1358, 1341, 952, 1122, 42570, 7776, 969, 107, 229]"

definition ext_i :: "int \<Rightarrow> int" where "ext_i i = ext_ints ! nat i"

lemma ext_ints: "map uint case_conv_ext = ext_ints"
  by code_simp

text \<open>The conversion of the code point \<open>x\<close> by a run of type \<open>t\<close>; \<open>low\<close> is the conversion to lower case
  that case folding applies to the result of the rules 11 and 13.\<close>

fun entry_i :: "(int \<Rightarrow> int) \<Rightarrow> nat \<Rightarrow> int \<Rightarrow> run \<Rightarrow> int list" where
  "entry_i low t x (code, len, ty, data, base) =
     (if ty \<le> 3 then [if int t = ty mod 2 \<or> 2 \<le> ty \<and> t = 2 then x - code + base else x]
      else if ty = 4 then
        [if t = 0 then if (x - code) mod 2 = 1 then x - 1 else x
         else if (x - code) mod 2 = 0 then x + 1 else x]
      else if ty = 5 then
        [if t = 0 then if x - code = 1 then x - 1 else if x - code = 2 then x - 2 else x
         else if x - code = 1 then x + 1 else if x - code = 0 then x + 2 else x]
      else if ty = 6 then
        (if t = 0 then [x - code + ext_i (data div 64), 921] else [x - code + ext_i (data mod 64)])
      else if ty = 7 then [if t = 1 then x else if t = 2 then data + 32 else data]
      else if ty = 8 then [if t = 1 then x else if t = 2 then ext_i data + 1 else ext_i data]
      else if ty = 9 then [if t = 0 then ext_i data else x]
      else if ty = 10 then [if t = 0 then x else ext_i data]
      else if ty = 12 then
        (if t = 0 then [x] else [x - code + ext_i (data div 64), ext_i (data mod 64)])
      else if ty = 11 then
        (if t = 1 then [x]
         else if t = 2 then [low (x - code + ext_i (data div 64)), low (ext_i (data mod 64))]
         else [x - code + ext_i (data div 64), ext_i (data mod 64)])
      else
        (if t = 1 then [x]
         else if t = 2 then [low (ext_i (data div 256)), low (ext_i (data div 16 mod 16)), low (ext_i (data mod 16))]
         else [ext_i (data div 256), ext_i (data div 16 mod 16), ext_i (data mod 16)]))"

text \<open>The arguments of the rules are within the table \<open>case_conv_ext\<close>.\<close>

fun args_ok :: "run \<Rightarrow> bool" where
  "args_ok (code, len, ty, data, base) \<longleftrightarrow>
     (ty = 6 \<or> ty = 11 \<or> ty = 12 \<longrightarrow> data div 64 < 58 \<and> data mod 64 < 58) \<and>
     (ty = 8 \<or> ty = 9 \<or> ty = 10 \<longrightarrow> data < 58)"

lemma args: "list_all args_ok case_runs"
  by code_simp

lemma ext_bounds: "list_all (\<lambda>e. 0 \<le> e \<and> e < 65536) ext_ints"
  by code_simp

lemma length_ext: "length case_conv_ext = 58"
  by code_simp

lemma ext_value: "uint i = k \<Longrightarrow> k < 58 \<Longrightarrow> ext i = Some (word_of_int (ext_i k))"
proof -
  assume k: "uint i = k" and a: "k < 58"
  moreover have "int (unat i) = uint i" by simp
  ultimately have n: "unat i < 58" using k by linarith
  have "ext_ints ! unat i = uint (case_conv_ext ! unat i)"
    unfolding ext_ints [symmetric] using n by (simp add: length_ext)
  then show "ext i = Some (word_of_int (ext_i k))" using n
    by (simp add: ext_def ext_i_def length_ext k [symmetric])
qed

lemma ext_i_bounds: "0 \<le> i \<Longrightarrow> i < 58 \<Longrightarrow> 0 \<le> ext_i i \<and> ext_i i < 65536"
proof -
  assume i: "0 \<le> i" "i < 58"
  have "length ext_ints = 58" unfolding ext_ints [symmetric] by (simp add: length_ext)
  then have "ext_ints ! nat i \<in> set ext_ints" using i by auto
  then show ?thesis using ext_bounds unfolding ext_i_def list_all_iff by auto
qed

lemma xor_one: "a AND 1 = 1 \<Longrightarrow> a XOR 1 = a - 1" "a AND 1 = 0 \<Longrightarrow> a XOR 1 = a + 1" for a :: u32
proof -
  have o: "odd a \<longleftrightarrow> a AND 1 = 1" by (simp add: and_one_eq odd_iff_mod_2_eq_one)
  show "a AND 1 = 1 \<Longrightarrow> a XOR 1 = a - 1" using o by (simp add: xor_one_eq)
  show "a AND 1 = 0 \<Longrightarrow> a XOR 1 = a + 1" using o by (simp add: xor_one_eq)
qed

end
