(* ===== verification/CaseFold.thy ===== *)
theory CaseFold
  imports CaseRuns
begin

text \<open>
  The conversion rules of the code on the entries of the tables are the rules on integers of
  \<open>CaseRuns\<close>; the tables are then checked point by point, and the check gives the properties of
  \<open>lre_canonicalize\<close>, \<open>lre_case_conv\<close> and \<open>lre_is_cased\<close> for every code point.
\<close>

section \<open>The code computes the rules\<close>

lemma run_args:
  assumes "i < 378" "case_runs ! i = (code, len, ty, data, base)"
  shows "args_ok (code, len, ty, data, base)" "ty \<le> 3 \<Longrightarrow> data < 378 \<and> fst (run_at data) = base"
proof -
  have "case_runs ! i \<in> set case_runs" using assms(1) length_runs by auto
  then show "args_ok (code, len, ty, data, base)" "ty \<le> 3 \<Longrightarrow> data < 378 \<and> fst (run_at data) = base"
    using args bases_mem [OF bases] assms(2) by (auto simp: list_all_iff)
qed

lemma base_code:
  assumes "i < 378" "case_runs ! i = (code, len, ty, data, base)" "ty \<le> 3"
  shows "data < 378" "run_code (case_conv_table1 ! nat data) = word_of_int base"
proof -
  have d: "0 \<le> data" "data < 378" "fst (run_at data) = base"
    using row_run [OF assms(1,2)] run_args(2) [OF assms] by auto
  then show "data < 378" by simp
  have "uint (run_code (case_conv_table1 ! nat data)) = base"
    using row_run(1) [of "nat data"] d run_at_value [of data] by (cases "case_runs ! nat data") auto
  then show "run_code (case_conv_table1 ! nat data) = word_of_int base" by (metis word_of_int_uint)
qed

lemma entry_value:
  assumes i: "i < 378" and r: "case_runs ! i = (code, len, ty, data, base)"
    and c: "code \<le> uint c" "uint c < code + len" and t: "t \<le> 2"
    and low: "t = 2 \<Longrightarrow> \<forall>y. 0 \<le> y \<and> y < 131072 \<longrightarrow> lre_case_conv1 (word_of_int y) 1 = Some (word_of_int (low y))"
  shows "lre_case_conv_entry c t i (case_conv_table1 ! i) =
    Some (map word_of_int (entry_i low t (uint c) (case_runs ! i)))"
proof -
  define v where "v = case_conv_table1 ! i"
  define d where "d = push_bit 8 (v AND 0xf) OR ucast (case_conv_table2 ! i)"
  note f = row_run [OF i r, folded v_def, folded d_def]
  note a = run_args(1) [OF i r]
  define x where "x = uint c"
  have cx: "c = word_of_int x" by (simp add: x_def)
  have kx: "run_code v = word_of_int code" using f(1) by (metis word_of_int_uint)
  have ty: "run_type v = word_of_int ty" using f(3) by (metis word_of_int_uint)
  have dd: "d = word_of_int data" using f(4) by (metis word_of_int_uint)
  have rd2: "rd case_conv_table2 i = Some (case_conv_table2 ! i)" using i by (simp add: length_tables)
  have u: "uint (drop_bit 6 d) = data div 64" "uint (d AND 0x3f) = data mod 64"
    "uint (drop_bit 8 d) = data div 256" "uint (drop_bit 4 d AND 0xf) = data div 16 mod 16"
    "uint (d AND 0xf) = data mod 16"
    using f(4) by (simp_all only: uint_drop_bit uint_low) simp_all
  have m: "x - code < 128" "0 \<le> x - code" using c row [OF i] unfolding x_def r by auto
  have odd: "uint (c - run_code v) = x - code"
    using c f(1) unfolding x_def by (simp add: uint_sub_lem [THEN iffD1])
  note body = lre_case_conv_entry.simps [of c t i v] rd2 Option.bind_lunit Let_def d_def [symmetric]
  have x6: "ext (drop_bit 6 d) = Some (word_of_int (ext_i (data div 64)))"
    "ext (d AND 0x3f) = Some (word_of_int (ext_i (data mod 64)))" if "ty = 6 \<or> ty = 11 \<or> ty = 12"
    by (intro ext_value u; use a that in simp)+
  have x8: "ext d = Some (word_of_int (ext_i data))" if "ty = 8 \<or> ty = 9 \<or> ty = 10"
    by (intro ext_value f(4); use a that in simp)
  have x13: "ext (drop_bit 8 d) = Some (word_of_int (ext_i (data div 256)))"
    "ext (drop_bit 4 d AND 0xf) = Some (word_of_int (ext_i (data div 16 mod 16)))"
    "ext (d AND 0xf) = Some (word_of_int (ext_i (data mod 16)))"
    by (intro ext_value u; use f(10,11) in simp)+
  have t3: "t = 0 \<or> t = 1 \<or> t = 2" using t by auto
  have "ty \<le> 3 \<or> ty = 4 \<or> ty = 5 \<or> ty = 6 \<or> ty = 7 \<or> ty = 8 \<or> ty = 9 \<or> ty = 10 \<or> ty = 11 \<or> ty = 12 \<or> ty = 13"
    using f(8,9) by presburger
  then consider "ty \<le> 3" | "ty = 4" | "ty = 5" | "ty = 6" | "ty = 7" | "ty = 8" | "ty = 9" | "ty = 10"
    | "ty = 11" | "ty = 12" | "ty = 13"
    by blast
  then have "lre_case_conv_entry c t i v = Some (map word_of_int (entry_i low t x (code, len, ty, data, base)))"
  proof cases
    case 1
    note b = base_code [OF i r 1]
    have n: "unat d = nat data" "nat data < 378" using f(4,10) b(1) by (auto simp: unat_eq_nat_uint)
    have rd: "rd case_conv_table1 (unat d) = Some (case_conv_table1 ! nat data)"
      unfolding n(1) using n(2) by (simp add: length_tables)
    have "ty = 0 \<or> ty = 1 \<or> ty = 2 \<or> ty = 3" using 1 f(8) by presburger
    then show ?thesis using t3 unfolding body unfolding ty kx cx rd Option.bind_lunit b(2)
      by (elim disjE) (simp_all add: word_le_def)
  next
    case 2
    have o: "uint ((c - run_code v) AND 1) = (x - code) mod 2" by (simp only: uint_low odd)
    have a: "(c - run_code v) AND 1 = word_of_int ((x - code) mod 2)" by (metis o word_of_int_uint)
    have z: "(x - code) mod 2 = 0 \<or> (x - code) mod 2 = 1" by presburger
    have p: "(x - code) mod 2 = 1 \<Longrightarrow> (c - run_code v) XOR 1 = c - run_code v - 1"
      "(x - code) mod 2 = 0 \<Longrightarrow> (c - run_code v) XOR 1 = c - run_code v + 1"
      by (intro xor_one; simp add: a)+
    show ?thesis using t3 z p unfolding body unfolding ty 2 a
      by (elim disjE) (simp_all add: x_def)
  next
    case 3
    have n: "c - run_code v = word_of_int k \<longleftrightarrow> x - code = k" if "0 \<le> k" "k < 128" for k
    proof -
      have "c - run_code v = word_of_int k \<longleftrightarrow> uint (c - run_code v) = k"
        using that word_uint_eqI [of "c - run_code v" "word_of_int k"]
        by (auto simp: uint_word_of_int)
      then show ?thesis by (simp only: odd)
    qed
    define w where "w = c - run_code v"
    have w: "w = 0 \<longleftrightarrow> x - code = 0" "w = 1 \<longleftrightarrow> x - code = 1" "w = 2 \<longleftrightarrow> x - code = 2"
      using n [of 0] n [of 1] n [of 2] unfolding w_def by simp_all
    show ?thesis using t3 unfolding body unfolding ty 3 w_def [symmetric]
      by (elim disjE) (simp_all add: w cx)
  next
    case 4
    then show ?thesis using t3 x6 unfolding body unfolding ty kx cx by (elim disjE) simp_all
  next
    case 5
    then show ?thesis using t3 unfolding body unfolding ty kx cx dd by (elim disjE) simp_all
  next
    case 6
    then show ?thesis using t3 x8 unfolding body unfolding ty kx cx by (elim disjE) simp_all
  next
    case 7
    then show ?thesis using t3 x8 unfolding body unfolding ty kx cx by (elim disjE) simp_all
  next
    case 8
    then show ?thesis using t3 x8 unfolding body unfolding ty kx cx by (elim disjE) simp_all
  next
    case 9
    note e = ext_i_bounds [of "data div 64"] ext_i_bounds [of "data mod 64"]
    have y: "0 \<le> x - code + ext_i (data div 64)" "x - code + ext_i (data div 64) < 131072"
      "0 \<le> ext_i (data mod 64)" "ext_i (data mod 64) < 131072"
      using e a m f(10) 9 by (auto simp: pos_imp_zdiv_nonneg_iff)
    have l: "lre_case_conv1 (word_of_int x - word_of_int code + word_of_int (ext_i (data div 64))) 1 =
        Some (word_of_int (low (x - code + ext_i (data div 64))))"
      "lre_case_conv1 (word_of_int (ext_i (data mod 64))) 1 = Some (word_of_int (low (ext_i (data mod 64))))"
      if "t = 2"
      using low [OF that] y by auto
    show ?thesis using t3 x6 9 l unfolding body unfolding ty kx cx by (elim disjE) simp_all
  next
    case 10
    then show ?thesis using t3 x6 unfolding body unfolding ty kx cx by (elim disjE) simp_all
  next
    case 11
    have y: "0 \<le> ext_i j \<and> ext_i j < 131072" if "0 \<le> j" "j < 16" for j
      using ext_i_bounds [of j] that by auto
    have l: "lre_case_conv1 (word_of_int (ext_i j)) 1 = Some (word_of_int (low (ext_i j)))"
      if "t = 2" "0 \<le> j" "j < 16" for j
      using low [OF that(1)] y [OF that(2,3)] by auto
    have j: "0 \<le> data div 256" "data div 256 < 16" "0 \<le> data div 16 mod 16" "data div 16 mod 16 < 16"
      "0 \<le> data mod 16" "data mod 16 < 16"
      using f(10,11) by auto
    define p q r where "p = data div 256" and "q = data div 16 mod 16" and "r = data mod 16"
    note pqr = p_def [symmetric] q_def [symmetric] r_def [symmetric]
    note l3 = l [OF _ j(1,2), unfolded pqr] l [OF _ j(3,4), unfolded pqr] l [OF _ j(5,6), unfolded pqr]
    show ?thesis using t3 11 unfolding body unfolding ty kx cx x13 entry_i.simps pqr
      by (elim disjE) (simp_all add: l3 [simplified])
  qed
  then show ?thesis by (simp add: v_def r x_def)
qed

section \<open>The functions on integers\<close>

definition ascii_lower :: "int \<Rightarrow> int" where "ascii_lower x = (if 65 \<le> x \<and> x \<le> 90 then x + 32 else x)"
definition ascii_upper :: "int \<Rightarrow> int" where "ascii_upper x = (if 97 \<le> x \<and> x \<le> 122 then x - 32 else x)"

text \<open>\<open>lre_case_conv\<close>, for lower case first because case folding calls it.\<close>

definition lower_i :: "int \<Rightarrow> int" where
  "lower_i x =
     (if x < 128 then ascii_lower x
      else case find_run x of None \<Rightarrow> x | Some r \<Rightarrow> hd (entry_i id 1 x r))"

definition conv_i :: "nat \<Rightarrow> int \<Rightarrow> int list" where
  "conv_i t x =
     (if x < 128 then [if t = 0 then ascii_upper x else ascii_lower x]
      else case find_run x of None \<Rightarrow> [x] | Some r \<Rightarrow> entry_i lower_i t x r)"

fun single :: "int list \<Rightarrow> int \<Rightarrow> int" where
  "single [y] d = y"
| "single _ d = d"

definition canon_run :: "bool \<Rightarrow> int \<Rightarrow> run \<Rightarrow> int" where
  "canon_run u x r =
     (if u then single (entry_i lower_i 2 x r)
        (if x = 0xfb06 then 0xfb05 else if x = 0x1fd3 then 0x390 else if x = 0x1fe3 then 0x3b0 else x)
      else if single (entry_i lower_i 0 x r) 0 \<ge> 128 then single (entry_i lower_i 0 x r) 0 else x)"

definition canon_i :: "bool \<Rightarrow> int \<Rightarrow> int" where
  "canon_i u x =
     (if x < 128 then if u then ascii_lower x else ascii_upper x
      else case find_run x of None \<Rightarrow> x | Some r \<Rightarrow> canon_run u x r)"

lemma entry_low: "t \<noteq> 2 \<Longrightarrow> entry_i low t x r = entry_i low' t x r"
  by (cases r) (auto split: if_splits)

lemma entry_shape: "entry_i low t x r \<noteq> []"
  by (cases r) auto

lemma ascii_word:
  "c < 128 \<Longrightarrow> (if c \<ge> 0x41 \<and> c \<le> 0x5a then c - 0x41 + 0x61 else c) = word_of_int (ascii_lower (uint c))"
  "c < 128 \<Longrightarrow> (if c \<ge> 0x61 \<and> c \<le> 0x7a then c - 0x61 + 0x41 else c) = word_of_int (ascii_upper (uint c))"
  for c :: u32
  by (auto simp: ascii_lower_def ascii_upper_def word_le_def)

lemma conv01_value:
  assumes "t \<noteq> 2" "t \<le> 2"
  shows "lre_case_conv c t = Some (map word_of_int (conv_i t (uint c)))"
proof (cases "c < 128")
  case True
  then have u: "uint c < 128" by (simp add: word_less_def)
  show ?thesis unfolding lre_case_conv.simps [of c t] conv_i_def using True u ascii_word [OF True] by simp
next
  case False
  then have u: "\<not> uint c < 128" by (simp add: word_less_def)
  show ?thesis
  proof (cases c rule: case_find_cases)
    case none
    then show ?thesis unfolding lre_case_conv.simps [of c t] conv_i_def using False u by simp
  next
    case (run i)
    obtain code len ty data base where r: "case_runs ! i = (code, len, ty, data, base)" by (cases "case_runs ! i")
    have "lre_case_conv_entry c t i (case_conv_table1 ! i) =
        Some (map word_of_int (entry_i lower_i t (uint c) (case_runs ! i)))"
      using run(3) r assms by (intro entry_value [OF run(1) r]) auto
    then show ?thesis unfolding lre_case_conv.simps [of c t] conv_i_def using False u run by simp
  qed
qed

lemma lower_head: "lower_i x = hd (conv_i 1 x)"
  by (auto simp: lower_i_def conv_i_def entry_low [of 1 id _ _ lower_i] split: option.split)

lemma conv_nonempty: "conv_i t x \<noteq> []"
  by (auto simp: conv_i_def entry_shape split: option.split)

lemma rd_map_head: "xs \<noteq> [] \<Longrightarrow> rd (map f xs) 0 = Some (f (hd xs))"
  by (cases xs) auto

lemma lower_value: "0 \<le> y \<Longrightarrow> y < 131072 \<Longrightarrow> lre_case_conv1 (word_of_int y) 1 = Some (word_of_int (lower_i y))"
  unfolding lre_case_conv1.simps [of "word_of_int y" 1]
  by (simp add: conv01_value rd_map_head conv_nonempty lower_head uint_word_of_int hd_conv_nth)

lemma entry_code:
  assumes "i < 378" "in_run (uint c) (case_runs ! i)" "t \<le> 2"
  shows "lre_case_conv_entry c t i (case_conv_table1 ! i) =
    Some (map word_of_int (entry_i lower_i t (uint c) (case_runs ! i)))"
proof -
  obtain code len ty data base where r: "case_runs ! i = (code, len, ty, data, base)" by (cases "case_runs ! i")
  show ?thesis using assms r lower_value by (intro entry_value [OF assms(1) r]) auto
qed

lemma conv_value:
  assumes "t \<le> 2"
  shows "lre_case_conv c t = Some (map word_of_int (conv_i t (uint c)))"
proof (cases "c < 128")
  case True
  then have u: "uint c < 128" by (simp add: word_less_def)
  show ?thesis unfolding lre_case_conv.simps [of c t] conv_i_def using True u ascii_word [OF True] by simp
next
  case False
  then have u: "\<not> uint c < 128" by (simp add: word_less_def)
  show ?thesis
  proof (cases c rule: case_find_cases)
    case none
    then show ?thesis unfolding lre_case_conv.simps [of c t] conv_i_def using False u by simp
  next
    case (run i)
    then show ?thesis
      unfolding lre_case_conv.simps [of c t] conv_i_def using False u entry_code [OF run(1,3) assms] by simp
  qed
qed

section \<open>The check of each code point\<close>

text \<open>The search for a run as conditions, which the check evaluates.\<close>

definition find_0 :: "int \<Rightarrow> run option" where "find_0 x = List.find (in_run x) runs_0"

lemma find_0_code [code]:
  "find_0 x = (
     if 65 \<le> x \<and> x < 65 + 26 then Some (65, 26, 3, 1, 97) else
     if 97 \<le> x \<and> x < 97 + 26 then Some (97, 26, 0, 0, 65) else
     if 181 \<le> x \<and> x < 181 + 1 then Some (181, 1, 7, 924, 0) else
     if 192 \<le> x \<and> x < 192 + 23 then Some (192, 23, 3, 6, 224) else
     if 216 \<le> x \<and> x < 216 + 7 then Some (216, 7, 3, 7, 248) else
     if 223 \<le> x \<and> x < 223 + 1 then Some (223, 1, 11, 845, 0) else
     if 224 \<le> x \<and> x < 224 + 23 then Some (224, 23, 0, 3, 192) else
     if 248 \<le> x \<and> x < 248 + 7 then Some (248, 7, 0, 4, 216) else
     if 255 \<le> x \<and> x < 255 + 1 then Some (255, 1, 0, 16, 376) else
     if 256 \<le> x \<and> x < 256 + 48 then Some (256, 48, 4, 0, 0) else
     if 304 \<le> x \<and> x < 304 + 1 then Some (304, 1, 12, 911, 0) else
     if 305 \<le> x \<and> x < 305 + 1 then Some (305, 1, 9, 11, 0) else
     if 306 \<le> x \<and> x < 306 + 6 then Some (306, 6, 4, 0, 0) else
     if 313 \<le> x \<and> x < 313 + 16 then Some (313, 16, 4, 0, 0) else
     if 329 \<le> x \<and> x < 329 + 1 then Some (329, 1, 11, 1041, 0) else
     if 330 \<le> x \<and> x < 330 + 46 then Some (330, 46, 4, 0, 0) else
     if 376 \<le> x \<and> x < 376 + 1 then Some (376, 1, 3, 8, 255) else
     if 377 \<le> x \<and> x < 377 + 6 then Some (377, 6, 4, 0, 0) else
     if 383 \<le> x \<and> x < 383 + 1 then Some (383, 1, 7, 83, 0) else
     if 384 \<le> x \<and> x < 384 + 1 then Some (384, 1, 0, 75, 579) else None)"
  by (simp only: find_0_def runs_0_def List.find.simps in_run.simps)

definition find_1 :: "int \<Rightarrow> run option" where "find_1 x = List.find (in_run x) runs_1"

lemma find_1_code [code]:
  "find_1 x = (
     if 385 \<le> x \<and> x < 385 + 1 then Some (385, 1, 3, 82, 595) else
     if 386 \<le> x \<and> x < 386 + 4 then Some (386, 4, 4, 0, 0) else
     if 390 \<le> x \<and> x < 390 + 1 then Some (390, 1, 3, 83, 596) else
     if 391 \<le> x \<and> x < 391 + 2 then Some (391, 2, 4, 0, 0) else
     if 393 \<le> x \<and> x < 393 + 2 then Some (393, 2, 3, 84, 598) else
     if 395 \<le> x \<and> x < 395 + 2 then Some (395, 2, 4, 0, 0) else
     if 398 \<le> x \<and> x < 398 + 1 then Some (398, 1, 3, 59, 477) else
     if 399 \<le> x \<and> x < 399 + 1 then Some (399, 1, 3, 85, 601) else
     if 400 \<le> x \<and> x < 400 + 1 then Some (400, 1, 3, 86, 603) else
     if 401 \<le> x \<and> x < 401 + 2 then Some (401, 2, 4, 0, 0) else
     if 403 \<le> x \<and> x < 403 + 1 then Some (403, 1, 3, 88, 608) else
     if 404 \<le> x \<and> x < 404 + 1 then Some (404, 1, 3, 90, 611) else
     if 405 \<le> x \<and> x < 405 + 1 then Some (405, 1, 0, 64, 502) else
     if 406 \<le> x \<and> x < 406 + 1 then Some (406, 1, 3, 95, 617) else
     if 407 \<le> x \<and> x < 407 + 1 then Some (407, 1, 3, 94, 616) else
     if 408 \<le> x \<and> x < 408 + 2 then Some (408, 2, 4, 0, 0) else
     if 410 \<le> x \<and> x < 410 + 1 then Some (410, 1, 0, 71, 573) else
     if 411 \<le> x \<and> x < 411 + 1 then Some (411, 1, 0, 336, 42972) else
     if 412 \<le> x \<and> x < 412 + 1 then Some (412, 1, 3, 99, 623) else
     if 413 \<le> x \<and> x < 413 + 1 then Some (413, 1, 3, 101, 626) else None)"
  by (simp only: find_1_def runs_1_def List.find.simps in_run.simps)

definition find_2 :: "int \<Rightarrow> run option" where "find_2 x = List.find (in_run x) runs_2"

lemma find_2_code [code]:
  "find_2 x = (
     if 414 \<le> x \<and> x < 414 + 1 then Some (414, 1, 0, 67, 544) else
     if 415 \<le> x \<and> x < 415 + 1 then Some (415, 1, 3, 102, 629) else
     if 416 \<le> x \<and> x < 416 + 6 then Some (416, 6, 4, 0, 0) else
     if 422 \<le> x \<and> x < 422 + 1 then Some (422, 1, 3, 104, 640) else
     if 423 \<le> x \<and> x < 423 + 2 then Some (423, 2, 4, 0, 0) else
     if 425 \<le> x \<and> x < 425 + 1 then Some (425, 1, 3, 106, 643) else
     if 428 \<le> x \<and> x < 428 + 2 then Some (428, 2, 4, 0, 0) else
     if 430 \<le> x \<and> x < 430 + 1 then Some (430, 1, 3, 108, 648) else
     if 431 \<le> x \<and> x < 431 + 2 then Some (431, 2, 4, 0, 0) else
     if 433 \<le> x \<and> x < 433 + 2 then Some (433, 2, 3, 110, 650) else
     if 435 \<le> x \<and> x < 435 + 4 then Some (435, 4, 4, 0, 0) else
     if 439 \<le> x \<and> x < 439 + 1 then Some (439, 1, 3, 112, 658) else
     if 440 \<le> x \<and> x < 440 + 2 then Some (440, 2, 4, 0, 0) else
     if 444 \<le> x \<and> x < 444 + 2 then Some (444, 2, 4, 0, 0) else
     if 447 \<le> x \<and> x < 447 + 1 then Some (447, 1, 0, 65, 503) else
     if 452 \<le> x \<and> x < 452 + 3 then Some (452, 3, 5, 0, 0) else
     if 455 \<le> x \<and> x < 455 + 3 then Some (455, 3, 5, 0, 0) else
     if 458 \<le> x \<and> x < 458 + 3 then Some (458, 3, 5, 0, 0) else
     if 461 \<le> x \<and> x < 461 + 16 then Some (461, 16, 4, 0, 0) else
     if 477 \<le> x \<and> x < 477 + 1 then Some (477, 1, 0, 26, 398) else None)"
  by (simp only: find_2_def runs_2_def List.find.simps in_run.simps)

definition find_3 :: "int \<Rightarrow> run option" where "find_3 x = List.find (in_run x) runs_3"

lemma find_3_code [code]:
  "find_3 x = (
     if 478 \<le> x \<and> x < 478 + 18 then Some (478, 18, 4, 0, 0) else
     if 496 \<le> x \<and> x < 496 + 1 then Some (496, 1, 11, 1171, 0) else
     if 497 \<le> x \<and> x < 497 + 3 then Some (497, 3, 5, 0, 0) else
     if 500 \<le> x \<and> x < 500 + 2 then Some (500, 2, 4, 0, 0) else
     if 502 \<le> x \<and> x < 502 + 1 then Some (502, 1, 3, 32, 405) else
     if 503 \<le> x \<and> x < 503 + 1 then Some (503, 1, 3, 54, 447) else
     if 504 \<le> x \<and> x < 504 + 40 then Some (504, 40, 4, 0, 0) else
     if 544 \<le> x \<and> x < 544 + 1 then Some (544, 1, 3, 40, 414) else
     if 546 \<le> x \<and> x < 546 + 18 then Some (546, 18, 4, 0, 0) else
     if 570 \<le> x \<and> x < 570 + 1 then Some (570, 1, 3, 292, 11365) else
     if 571 \<le> x \<and> x < 571 + 2 then Some (571, 2, 4, 0, 0) else
     if 573 \<le> x \<and> x < 573 + 1 then Some (573, 1, 3, 36, 410) else
     if 574 \<le> x \<and> x < 574 + 1 then Some (574, 1, 3, 293, 11366) else
     if 575 \<le> x \<and> x < 575 + 2 then Some (575, 2, 0, 301, 11390) else
     if 577 \<le> x \<and> x < 577 + 2 then Some (577, 2, 4, 0, 0) else
     if 579 \<le> x \<and> x < 579 + 1 then Some (579, 1, 3, 19, 384) else
     if 580 \<le> x \<and> x < 580 + 1 then Some (580, 1, 3, 109, 649) else
     if 581 \<le> x \<and> x < 581 + 1 then Some (581, 1, 3, 111, 652) else
     if 582 \<le> x \<and> x < 582 + 10 then Some (582, 10, 4, 0, 0) else
     if 592 \<le> x \<and> x < 592 + 1 then Some (592, 1, 0, 297, 11375) else None)"
  by (simp only: find_3_def runs_3_def List.find.simps in_run.simps)

definition find_4 :: "int \<Rightarrow> run option" where "find_4 x = List.find (in_run x) runs_4"

lemma find_4_code [code]:
  "find_4 x = (
     if 593 \<le> x \<and> x < 593 + 1 then Some (593, 1, 0, 295, 11373) else
     if 594 \<le> x \<and> x < 594 + 1 then Some (594, 1, 0, 298, 11376) else
     if 595 \<le> x \<and> x < 595 + 1 then Some (595, 1, 0, 20, 385) else
     if 596 \<le> x \<and> x < 596 + 1 then Some (596, 1, 0, 22, 390) else
     if 598 \<le> x \<and> x < 598 + 2 then Some (598, 2, 0, 24, 393) else
     if 601 \<le> x \<and> x < 601 + 1 then Some (601, 1, 0, 27, 399) else
     if 603 \<le> x \<and> x < 603 + 1 then Some (603, 1, 0, 28, 400) else
     if 604 \<le> x \<and> x < 604 + 1 then Some (604, 1, 0, 321, 42923) else
     if 608 \<le> x \<and> x < 608 + 1 then Some (608, 1, 0, 30, 403) else
     if 609 \<le> x \<and> x < 609 + 1 then Some (609, 1, 0, 322, 42924) else
     if 611 \<le> x \<and> x < 611 + 1 then Some (611, 1, 0, 31, 404) else
     if 612 \<le> x \<and> x < 612 + 1 then Some (612, 1, 0, 334, 42955) else
     if 613 \<le> x \<and> x < 613 + 1 then Some (613, 1, 0, 316, 42893) else
     if 614 \<le> x \<and> x < 614 + 1 then Some (614, 1, 0, 320, 42922) else
     if 616 \<le> x \<and> x < 616 + 1 then Some (616, 1, 0, 34, 407) else
     if 617 \<le> x \<and> x < 617 + 1 then Some (617, 1, 0, 33, 406) else
     if 618 \<le> x \<and> x < 618 + 1 then Some (618, 1, 0, 324, 42926) else
     if 619 \<le> x \<and> x < 619 + 1 then Some (619, 1, 0, 289, 11362) else
     if 620 \<le> x \<and> x < 620 + 1 then Some (620, 1, 0, 323, 42925) else
     if 623 \<le> x \<and> x < 623 + 1 then Some (623, 1, 0, 38, 412) else None)"
  by (simp only: find_4_def runs_4_def List.find.simps in_run.simps)

definition find_5 :: "int \<Rightarrow> run option" where "find_5 x = List.find (in_run x) runs_5"

lemma find_5_code [code]:
  "find_5 x = (
     if 625 \<le> x \<and> x < 625 + 1 then Some (625, 1, 0, 296, 11374) else
     if 626 \<le> x \<and> x < 626 + 1 then Some (626, 1, 0, 39, 413) else
     if 629 \<le> x \<and> x < 629 + 1 then Some (629, 1, 0, 41, 415) else
     if 637 \<le> x \<and> x < 637 + 1 then Some (637, 1, 0, 291, 11364) else
     if 640 \<le> x \<and> x < 640 + 1 then Some (640, 1, 0, 43, 422) else
     if 642 \<le> x \<and> x < 642 + 1 then Some (642, 1, 0, 331, 42949) else
     if 643 \<le> x \<and> x < 643 + 1 then Some (643, 1, 0, 45, 425) else
     if 647 \<le> x \<and> x < 647 + 1 then Some (647, 1, 0, 326, 42929) else
     if 648 \<le> x \<and> x < 648 + 1 then Some (648, 1, 0, 47, 430) else
     if 649 \<le> x \<and> x < 649 + 1 then Some (649, 1, 0, 76, 580) else
     if 650 \<le> x \<and> x < 650 + 2 then Some (650, 2, 0, 49, 433) else
     if 652 \<le> x \<and> x < 652 + 1 then Some (652, 1, 0, 77, 581) else
     if 658 \<le> x \<and> x < 658 + 1 then Some (658, 1, 0, 51, 439) else
     if 669 \<le> x \<and> x < 669 + 1 then Some (669, 1, 0, 327, 42930) else
     if 670 \<le> x \<and> x < 670 + 1 then Some (670, 1, 0, 325, 42928) else
     if 837 \<le> x \<and> x < 837 + 1 then Some (837, 1, 7, 921, 0) else
     if 880 \<le> x \<and> x < 880 + 4 then Some (880, 4, 4, 0, 0) else
     if 886 \<le> x \<and> x < 886 + 2 then Some (886, 2, 4, 0, 0) else
     if 891 \<le> x \<and> x < 891 + 3 then Some (891, 3, 0, 151, 1021) else
     if 895 \<le> x \<and> x < 895 + 1 then Some (895, 1, 3, 145, 1011) else None)"
  by (simp only: find_5_def runs_5_def List.find.simps in_run.simps)

definition find_6 :: "int \<Rightarrow> run option" where "find_6 x = List.find (in_run x) runs_6"

lemma find_6_code [code]:
  "find_6 x = (
     if 902 \<le> x \<and> x < 902 + 1 then Some (902, 1, 3, 127, 940) else
     if 904 \<le> x \<and> x < 904 + 3 then Some (904, 3, 3, 128, 941) else
     if 908 \<le> x \<and> x < 908 + 1 then Some (908, 1, 3, 133, 972) else
     if 910 \<le> x \<and> x < 910 + 2 then Some (910, 2, 3, 134, 973) else
     if 912 \<le> x \<and> x < 912 + 1 then Some (912, 1, 13, 18, 0) else
     if 913 \<le> x \<and> x < 913 + 17 then Some (913, 17, 3, 130, 945) else
     if 931 \<le> x \<and> x < 931 + 9 then Some (931, 9, 3, 132, 963) else
     if 940 \<le> x \<and> x < 940 + 1 then Some (940, 1, 0, 120, 902) else
     if 941 \<le> x \<and> x < 941 + 3 then Some (941, 3, 0, 121, 904) else
     if 944 \<le> x \<and> x < 944 + 1 then Some (944, 1, 13, 786, 0) else
     if 945 \<le> x \<and> x < 945 + 17 then Some (945, 17, 0, 125, 913) else
     if 962 \<le> x \<and> x < 962 + 1 then Some (962, 1, 7, 931, 0) else
     if 963 \<le> x \<and> x < 963 + 9 then Some (963, 9, 0, 126, 931) else
     if 972 \<le> x \<and> x < 972 + 1 then Some (972, 1, 0, 122, 908) else
     if 973 \<le> x \<and> x < 973 + 2 then Some (973, 2, 0, 123, 910) else
     if 975 \<le> x \<and> x < 975 + 1 then Some (975, 1, 3, 140, 983) else
     if 976 \<le> x \<and> x < 976 + 1 then Some (976, 1, 7, 914, 0) else
     if 977 \<le> x \<and> x < 977 + 1 then Some (977, 1, 7, 920, 0) else
     if 981 \<le> x \<and> x < 981 + 1 then Some (981, 1, 7, 934, 0) else
     if 982 \<le> x \<and> x < 982 + 1 then Some (982, 1, 7, 928, 0) else None)"
  by (simp only: find_6_def runs_6_def List.find.simps in_run.simps)

definition find_7 :: "int \<Rightarrow> run option" where "find_7 x = List.find (in_run x) runs_7"

lemma find_7_code [code]:
  "find_7 x = (
     if 983 \<le> x \<and> x < 983 + 1 then Some (983, 1, 0, 135, 975) else
     if 984 \<le> x \<and> x < 984 + 24 then Some (984, 24, 4, 0, 0) else
     if 1008 \<le> x \<and> x < 1008 + 1 then Some (1008, 1, 7, 922, 0) else
     if 1009 \<le> x \<and> x < 1009 + 1 then Some (1009, 1, 7, 929, 0) else
     if 1010 \<le> x \<and> x < 1010 + 1 then Some (1010, 1, 0, 149, 1017) else
     if 1011 \<le> x \<and> x < 1011 + 1 then Some (1011, 1, 0, 119, 895) else
     if 1012 \<le> x \<and> x < 1012 + 1 then Some (1012, 1, 10, 51, 0) else
     if 1013 \<le> x \<and> x < 1013 + 1 then Some (1013, 1, 7, 917, 0) else
     if 1015 \<le> x \<and> x < 1015 + 2 then Some (1015, 2, 4, 0, 0) else
     if 1017 \<le> x \<and> x < 1017 + 1 then Some (1017, 1, 3, 144, 1010) else
     if 1018 \<le> x \<and> x < 1018 + 2 then Some (1018, 2, 4, 0, 0) else
     if 1021 \<le> x \<and> x < 1021 + 3 then Some (1021, 3, 3, 118, 891) else
     if 1024 \<le> x \<and> x < 1024 + 16 then Some (1024, 16, 3, 155, 1104) else
     if 1040 \<le> x \<and> x < 1040 + 32 then Some (1040, 32, 3, 154, 1072) else
     if 1072 \<le> x \<and> x < 1072 + 32 then Some (1072, 32, 0, 153, 1040) else
     if 1104 \<le> x \<and> x < 1104 + 16 then Some (1104, 16, 0, 152, 1024) else
     if 1120 \<le> x \<and> x < 1120 + 34 then Some (1120, 34, 4, 0, 0) else
     if 1162 \<le> x \<and> x < 1162 + 54 then Some (1162, 54, 4, 0, 0) else
     if 1216 \<le> x \<and> x < 1216 + 1 then Some (1216, 1, 3, 160, 1231) else
     if 1217 \<le> x \<and> x < 1217 + 14 then Some (1217, 14, 4, 0, 0) else None)"
  by (simp only: find_7_def runs_7_def List.find.simps in_run.simps)

definition find_8 :: "int \<Rightarrow> run option" where "find_8 x = List.find (in_run x) runs_8"

lemma find_8_code [code]:
  "find_8 x = (
     if 1231 \<le> x \<and> x < 1231 + 1 then Some (1231, 1, 0, 158, 1216) else
     if 1232 \<le> x \<and> x < 1232 + 96 then Some (1232, 96, 4, 0, 0) else
     if 1329 \<le> x \<and> x < 1329 + 38 then Some (1329, 38, 3, 163, 1377) else
     if 1377 \<le> x \<and> x < 1377 + 38 then Some (1377, 38, 0, 162, 1329) else
     if 1415 \<le> x \<and> x < 1415 + 1 then Some (1415, 1, 11, 1301, 0) else
     if 4256 \<le> x \<and> x < 4256 + 38 then Some (4256, 38, 3, 305, 11520) else
     if 4295 \<le> x \<and> x < 4295 + 1 then Some (4295, 1, 3, 306, 11559) else
     if 4301 \<le> x \<and> x < 4301 + 1 then Some (4301, 1, 3, 307, 11565) else
     if 4304 \<le> x \<and> x < 4304 + 43 then Some (4304, 43, 0, 183, 7312) else
     if 4349 \<le> x \<and> x < 4349 + 3 then Some (4349, 3, 0, 184, 7357) else
     if 5024 \<le> x \<and> x < 5024 + 80 then Some (5024, 80, 1, 339, 43888) else
     if 5104 \<le> x \<and> x < 5104 + 6 then Some (5104, 6, 1, 172, 5112) else
     if 5112 \<le> x \<and> x < 5112 + 6 then Some (5112, 6, 2, 171, 5104) else
     if 7296 \<le> x \<and> x < 7296 + 1 then Some (7296, 1, 7, 1042, 0) else
     if 7297 \<le> x \<and> x < 7297 + 1 then Some (7297, 1, 7, 1044, 0) else
     if 7298 \<le> x \<and> x < 7298 + 1 then Some (7298, 1, 7, 1054, 0) else
     if 7299 \<le> x \<and> x < 7299 + 1 then Some (7299, 1, 7, 1057, 0) else
     if 7300 \<le> x \<and> x < 7300 + 1 then Some (7300, 1, 7, 1058, 0) else
     if 7301 \<le> x \<and> x < 7301 + 1 then Some (7301, 1, 7, 1058, 0) else
     if 7302 \<le> x \<and> x < 7302 + 1 then Some (7302, 1, 7, 1066, 0) else None)"
  by (simp only: find_8_def runs_8_def List.find.simps in_run.simps)

definition find_9 :: "int \<Rightarrow> run option" where "find_9 x = List.find (in_run x) runs_9"

lemma find_9_code [code]:
  "find_9 x = (
     if 7303 \<le> x \<and> x < 7303 + 1 then Some (7303, 1, 8, 52, 0) else
     if 7304 \<le> x \<and> x < 7304 + 1 then Some (7304, 1, 8, 53, 0) else
     if 7305 \<le> x \<and> x < 7305 + 2 then Some (7305, 2, 4, 0, 0) else
     if 7312 \<le> x \<and> x < 7312 + 43 then Some (7312, 43, 3, 168, 4304) else
     if 7357 \<le> x \<and> x < 7357 + 3 then Some (7357, 3, 3, 169, 4349) else
     if 7545 \<le> x \<and> x < 7545 + 1 then Some (7545, 1, 0, 313, 42877) else
     if 7549 \<le> x \<and> x < 7549 + 1 then Some (7549, 1, 0, 290, 11363) else
     if 7566 \<le> x \<and> x < 7566 + 1 then Some (7566, 1, 0, 332, 42950) else
     if 7680 \<le> x \<and> x < 7680 + 126 then Some (7680, 126, 4, 0, 0) else
     if 7806 \<le> x \<and> x < 7806 + 24 then Some (7806, 24, 4, 0, 0) else
     if 7830 \<le> x \<and> x < 7830 + 1 then Some (7830, 1, 11, 1431, 0) else
     if 7831 \<le> x \<and> x < 7831 + 1 then Some (7831, 1, 11, 1537, 0) else
     if 7832 \<le> x \<and> x < 7832 + 1 then Some (7832, 1, 11, 1626, 0) else
     if 7833 \<le> x \<and> x < 7833 + 1 then Some (7833, 1, 11, 1754, 0) else
     if 7834 \<le> x \<and> x < 7834 + 1 then Some (7834, 1, 11, 1821, 0) else
     if 7835 \<le> x \<and> x < 7835 + 1 then Some (7835, 1, 8, 54, 0) else
     if 7838 \<le> x \<and> x < 7838 + 1 then Some (7838, 1, 3, 5, 223) else
     if 7840 \<le> x \<and> x < 7840 + 96 then Some (7840, 96, 4, 0, 0) else
     if 7936 \<le> x \<and> x < 7936 + 8 then Some (7936, 8, 0, 199, 7944) else
     if 7944 \<le> x \<and> x < 7944 + 8 then Some (7944, 8, 3, 198, 7936) else None)"
  by (simp only: find_9_def runs_9_def List.find.simps in_run.simps)

definition find_10 :: "int \<Rightarrow> run option" where "find_10 x = List.find (in_run x) runs_10"

lemma find_10_code [code]:
  "find_10 x = (
     if 7952 \<le> x \<and> x < 7952 + 6 then Some (7952, 6, 0, 201, 7960) else
     if 7960 \<le> x \<and> x < 7960 + 6 then Some (7960, 6, 3, 200, 7952) else
     if 7968 \<le> x \<and> x < 7968 + 8 then Some (7968, 8, 0, 203, 7976) else
     if 7976 \<le> x \<and> x < 7976 + 8 then Some (7976, 8, 3, 202, 7968) else
     if 7984 \<le> x \<and> x < 7984 + 8 then Some (7984, 8, 0, 205, 7992) else
     if 7992 \<le> x \<and> x < 7992 + 8 then Some (7992, 8, 3, 204, 7984) else
     if 8000 \<le> x \<and> x < 8000 + 6 then Some (8000, 6, 0, 207, 8008) else
     if 8008 \<le> x \<and> x < 8008 + 6 then Some (8008, 6, 3, 206, 8000) else
     if 8016 \<le> x \<and> x < 8016 + 1 then Some (8016, 1, 11, 196, 0) else
     if 8017 \<le> x \<and> x < 8017 + 1 then Some (8017, 1, 0, 216, 8025) else
     if 8018 \<le> x \<and> x < 8018 + 1 then Some (8018, 1, 13, 837, 0) else
     if 8019 \<le> x \<and> x < 8019 + 1 then Some (8019, 1, 0, 217, 8027) else
     if 8020 \<le> x \<and> x < 8020 + 1 then Some (8020, 1, 13, 834, 0) else
     if 8021 \<le> x \<and> x < 8021 + 1 then Some (8021, 1, 0, 218, 8029) else
     if 8022 \<le> x \<and> x < 8022 + 1 then Some (8022, 1, 13, 838, 0) else
     if 8023 \<le> x \<and> x < 8023 + 1 then Some (8023, 1, 0, 219, 8031) else
     if 8025 \<le> x \<and> x < 8025 + 1 then Some (8025, 1, 3, 209, 8017) else
     if 8027 \<le> x \<and> x < 8027 + 1 then Some (8027, 1, 3, 211, 8019) else
     if 8029 \<le> x \<and> x < 8029 + 1 then Some (8029, 1, 3, 213, 8021) else
     if 8031 \<le> x \<and> x < 8031 + 1 then Some (8031, 1, 3, 215, 8023) else None)"
  by (simp only: find_10_def runs_10_def List.find.simps in_run.simps)

definition find_11 :: "int \<Rightarrow> run option" where "find_11 x = List.find (in_run x) runs_11"

lemma find_11_code [code]:
  "find_11 x = (
     if 8032 \<le> x \<and> x < 8032 + 8 then Some (8032, 8, 0, 221, 8040) else
     if 8040 \<le> x \<and> x < 8040 + 8 then Some (8040, 8, 3, 220, 8032) else
     if 8048 \<le> x \<and> x < 8048 + 2 then Some (8048, 2, 0, 241, 8122) else
     if 8050 \<le> x \<and> x < 8050 + 4 then Some (8050, 4, 0, 249, 8136) else
     if 8054 \<le> x \<and> x < 8054 + 2 then Some (8054, 2, 0, 257, 8154) else
     if 8056 \<le> x \<and> x < 8056 + 2 then Some (8056, 2, 0, 273, 8184) else
     if 8058 \<le> x \<and> x < 8058 + 2 then Some (8058, 2, 0, 266, 8170) else
     if 8060 \<le> x \<and> x < 8060 + 2 then Some (8060, 2, 0, 274, 8186) else
     if 8064 \<le> x \<and> x < 8064 + 8 then Some (8064, 8, 11, 1920, 0) else
     if 8072 \<le> x \<and> x < 8072 + 8 then Some (8072, 8, 6, 1951, 0) else
     if 8080 \<le> x \<and> x < 8080 + 8 then Some (8080, 8, 11, 2048, 0) else
     if 8088 \<le> x \<and> x < 8088 + 8 then Some (8088, 8, 6, 2081, 0) else
     if 8096 \<le> x \<and> x < 8096 + 8 then Some (8096, 8, 11, 2176, 0) else
     if 8104 \<le> x \<and> x < 8104 + 8 then Some (8104, 8, 6, 2211, 0) else
     if 8112 \<le> x \<and> x < 8112 + 2 then Some (8112, 2, 0, 240, 8120) else
     if 8114 \<le> x \<and> x < 8114 + 1 then Some (8114, 1, 11, 2304, 0) else
     if 8115 \<le> x \<and> x < 8115 + 1 then Some (8115, 1, 11, 448, 0) else
     if 8116 \<le> x \<and> x < 8116 + 1 then Some (8116, 1, 11, 2368, 0) else
     if 8118 \<le> x \<and> x < 8118 + 1 then Some (8118, 1, 11, 454, 0) else
     if 8119 \<le> x \<and> x < 8119 + 1 then Some (8119, 1, 13, 1888, 0) else None)"
  by (simp only: find_11_def runs_11_def List.find.simps in_run.simps)

definition find_12 :: "int \<Rightarrow> run option" where "find_12 x = List.find (in_run x) runs_12"

lemma find_12_code [code]:
  "find_12 x = (
     if 8120 \<le> x \<and> x < 8120 + 2 then Some (8120, 2, 3, 234, 8112) else
     if 8122 \<le> x \<and> x < 8122 + 2 then Some (8122, 2, 3, 222, 8048) else
     if 8124 \<le> x \<and> x < 8124 + 1 then Some (8124, 1, 6, 486, 0) else
     if 8126 \<le> x \<and> x < 8126 + 1 then Some (8126, 1, 7, 921, 0) else
     if 8130 \<le> x \<and> x < 8130 + 1 then Some (8130, 1, 11, 2496, 0) else
     if 8131 \<le> x \<and> x < 8131 + 1 then Some (8131, 1, 11, 512, 0) else
     if 8132 \<le> x \<and> x < 8132 + 1 then Some (8132, 1, 11, 2560, 0) else
     if 8134 \<le> x \<and> x < 8134 + 1 then Some (8134, 1, 11, 518, 0) else
     if 8135 \<le> x \<and> x < 8135 + 1 then Some (8135, 1, 13, 2144, 0) else
     if 8136 \<le> x \<and> x < 8136 + 4 then Some (8136, 4, 3, 223, 8050) else
     if 8140 \<le> x \<and> x < 8140 + 1 then Some (8140, 1, 6, 553, 0) else
     if 8144 \<le> x \<and> x < 8144 + 2 then Some (8144, 2, 0, 256, 8152) else
     if 8146 \<le> x \<and> x < 8146 + 1 then Some (8146, 1, 13, 21, 0) else
     if 8147 \<le> x \<and> x < 8147 + 1 then Some (8147, 1, 13, 18, 0) else
     if 8150 \<le> x \<and> x < 8150 + 1 then Some (8150, 1, 11, 6, 0) else
     if 8151 \<le> x \<and> x < 8151 + 1 then Some (8151, 1, 13, 22, 0) else
     if 8152 \<le> x \<and> x < 8152 + 2 then Some (8152, 2, 3, 251, 8144) else
     if 8154 \<le> x \<and> x < 8154 + 2 then Some (8154, 2, 3, 224, 8054) else
     if 8160 \<le> x \<and> x < 8160 + 2 then Some (8160, 2, 0, 265, 8168) else
     if 8162 \<le> x \<and> x < 8162 + 1 then Some (8162, 1, 13, 789, 0) else None)"
  by (simp only: find_12_def runs_12_def List.find.simps in_run.simps)

definition find_13 :: "int \<Rightarrow> run option" where "find_13 x = List.find (in_run x) runs_13"

lemma find_13_code [code]:
  "find_13 x = (
     if 8163 \<le> x \<and> x < 8163 + 1 then Some (8163, 1, 13, 786, 0) else
     if 8164 \<le> x \<and> x < 8164 + 1 then Some (8164, 1, 11, 2692, 0) else
     if 8165 \<le> x \<and> x < 8165 + 1 then Some (8165, 1, 0, 267, 8172) else
     if 8166 \<le> x \<and> x < 8166 + 1 then Some (8166, 1, 11, 198, 0) else
     if 8167 \<le> x \<and> x < 8167 + 1 then Some (8167, 1, 13, 790, 0) else
     if 8168 \<le> x \<and> x < 8168 + 2 then Some (8168, 2, 3, 258, 8160) else
     if 8170 \<le> x \<and> x < 8170 + 2 then Some (8170, 2, 3, 226, 8058) else
     if 8172 \<le> x \<and> x < 8172 + 1 then Some (8172, 1, 3, 262, 8165) else
     if 8178 \<le> x \<and> x < 8178 + 1 then Some (8178, 1, 11, 2752, 0) else
     if 8179 \<le> x \<and> x < 8179 + 1 then Some (8179, 1, 11, 576, 0) else
     if 8180 \<le> x \<and> x < 8180 + 1 then Some (8180, 1, 11, 2816, 0) else
     if 8182 \<le> x \<and> x < 8182 + 1 then Some (8182, 1, 11, 582, 0) else
     if 8183 \<le> x \<and> x < 8183 + 1 then Some (8183, 1, 13, 2400, 0) else
     if 8184 \<le> x \<and> x < 8184 + 2 then Some (8184, 2, 3, 225, 8056) else
     if 8186 \<le> x \<and> x < 8186 + 2 then Some (8186, 2, 3, 227, 8060) else
     if 8188 \<le> x \<and> x < 8188 + 1 then Some (8188, 1, 6, 621, 0) else
     if 8486 \<le> x \<and> x < 8486 + 1 then Some (8486, 1, 10, 55, 0) else
     if 8490 \<le> x \<and> x < 8490 + 1 then Some (8490, 1, 10, 56, 0) else
     if 8491 \<le> x \<and> x < 8491 + 1 then Some (8491, 1, 10, 57, 0) else
     if 8498 \<le> x \<and> x < 8498 + 1 then Some (8498, 1, 3, 280, 8526) else None)"
  by (simp only: find_13_def runs_13_def List.find.simps in_run.simps)

definition find_14 :: "int \<Rightarrow> run option" where "find_14 x = List.find (in_run x) runs_14"

lemma find_14_code [code]:
  "find_14 x = (
     if 8526 \<le> x \<and> x < 8526 + 1 then Some (8526, 1, 0, 279, 8498) else
     if 8544 \<le> x \<and> x < 8544 + 16 then Some (8544, 16, 3, 282, 8560) else
     if 8560 \<le> x \<and> x < 8560 + 16 then Some (8560, 16, 0, 281, 8544) else
     if 8579 \<le> x \<and> x < 8579 + 2 then Some (8579, 2, 4, 0, 0) else
     if 9398 \<le> x \<and> x < 9398 + 26 then Some (9398, 26, 3, 285, 9424) else
     if 9424 \<le> x \<and> x < 9424 + 26 then Some (9424, 26, 0, 284, 9398) else
     if 11264 \<le> x \<and> x < 11264 + 48 then Some (11264, 48, 3, 287, 11312) else
     if 11312 \<le> x \<and> x < 11312 + 48 then Some (11312, 48, 0, 286, 11264) else
     if 11360 \<le> x \<and> x < 11360 + 2 then Some (11360, 2, 4, 0, 0) else
     if 11362 \<le> x \<and> x < 11362 + 1 then Some (11362, 1, 3, 97, 619) else
     if 11363 \<le> x \<and> x < 11363 + 1 then Some (11363, 1, 3, 186, 7549) else
     if 11364 \<le> x \<and> x < 11364 + 1 then Some (11364, 1, 3, 103, 637) else
     if 11365 \<le> x \<and> x < 11365 + 1 then Some (11365, 1, 0, 69, 570) else
     if 11366 \<le> x \<and> x < 11366 + 1 then Some (11366, 1, 0, 72, 574) else
     if 11367 \<le> x \<and> x < 11367 + 6 then Some (11367, 6, 4, 0, 0) else
     if 11373 \<le> x \<and> x < 11373 + 1 then Some (11373, 1, 3, 80, 593) else
     if 11374 \<le> x \<and> x < 11374 + 1 then Some (11374, 1, 3, 100, 625) else
     if 11375 \<le> x \<and> x < 11375 + 1 then Some (11375, 1, 3, 79, 592) else
     if 11376 \<le> x \<and> x < 11376 + 1 then Some (11376, 1, 3, 81, 594) else
     if 11378 \<le> x \<and> x < 11378 + 2 then Some (11378, 2, 4, 0, 0) else None)"
  by (simp only: find_14_def runs_14_def List.find.simps in_run.simps)

definition find_15 :: "int \<Rightarrow> run option" where "find_15 x = List.find (in_run x) runs_15"

lemma find_15_code [code]:
  "find_15 x = (
     if 11381 \<le> x \<and> x < 11381 + 2 then Some (11381, 2, 4, 0, 0) else
     if 11390 \<le> x \<and> x < 11390 + 2 then Some (11390, 2, 3, 73, 575) else
     if 11392 \<le> x \<and> x < 11392 + 100 then Some (11392, 100, 4, 0, 0) else
     if 11499 \<le> x \<and> x < 11499 + 4 then Some (11499, 4, 4, 0, 0) else
     if 11506 \<le> x \<and> x < 11506 + 2 then Some (11506, 2, 4, 0, 0) else
     if 11520 \<le> x \<and> x < 11520 + 38 then Some (11520, 38, 0, 165, 4256) else
     if 11559 \<le> x \<and> x < 11559 + 1 then Some (11559, 1, 0, 166, 4295) else
     if 11565 \<le> x \<and> x < 11565 + 1 then Some (11565, 1, 0, 167, 4301) else
     if 42560 \<le> x \<and> x < 42560 + 46 then Some (42560, 46, 4, 0, 0) else
     if 42624 \<le> x \<and> x < 42624 + 28 then Some (42624, 28, 4, 0, 0) else
     if 42786 \<le> x \<and> x < 42786 + 14 then Some (42786, 14, 4, 0, 0) else
     if 42802 \<le> x \<and> x < 42802 + 62 then Some (42802, 62, 4, 0, 0) else
     if 42873 \<le> x \<and> x < 42873 + 4 then Some (42873, 4, 4, 0, 0) else
     if 42877 \<le> x \<and> x < 42877 + 1 then Some (42877, 1, 3, 185, 7545) else
     if 42878 \<le> x \<and> x < 42878 + 10 then Some (42878, 10, 4, 0, 0) else
     if 42891 \<le> x \<and> x < 42891 + 2 then Some (42891, 2, 4, 0, 0) else
     if 42893 \<le> x \<and> x < 42893 + 1 then Some (42893, 1, 3, 92, 613) else
     if 42896 \<le> x \<and> x < 42896 + 4 then Some (42896, 4, 4, 0, 0) else
     if 42900 \<le> x \<and> x < 42900 + 1 then Some (42900, 1, 0, 330, 42948) else
     if 42902 \<le> x \<and> x < 42902 + 20 then Some (42902, 20, 4, 0, 0) else None)"
  by (simp only: find_15_def runs_15_def List.find.simps in_run.simps)

definition find_16 :: "int \<Rightarrow> run option" where "find_16 x = List.find (in_run x) runs_16"

lemma find_16_code [code]:
  "find_16 x = (
     if 42922 \<le> x \<and> x < 42922 + 1 then Some (42922, 1, 3, 93, 614) else
     if 42923 \<le> x \<and> x < 42923 + 1 then Some (42923, 1, 3, 87, 604) else
     if 42924 \<le> x \<and> x < 42924 + 1 then Some (42924, 1, 3, 89, 609) else
     if 42925 \<le> x \<and> x < 42925 + 1 then Some (42925, 1, 3, 98, 620) else
     if 42926 \<le> x \<and> x < 42926 + 1 then Some (42926, 1, 3, 96, 618) else
     if 42928 \<le> x \<and> x < 42928 + 1 then Some (42928, 1, 3, 114, 670) else
     if 42929 \<le> x \<and> x < 42929 + 1 then Some (42929, 1, 3, 107, 647) else
     if 42930 \<le> x \<and> x < 42930 + 1 then Some (42930, 1, 3, 113, 669) else
     if 42931 \<le> x \<and> x < 42931 + 1 then Some (42931, 1, 3, 338, 43859) else
     if 42932 \<le> x \<and> x < 42932 + 16 then Some (42932, 16, 4, 0, 0) else
     if 42948 \<le> x \<and> x < 42948 + 1 then Some (42948, 1, 3, 318, 42900) else
     if 42949 \<le> x \<and> x < 42949 + 1 then Some (42949, 1, 3, 105, 642) else
     if 42950 \<le> x \<and> x < 42950 + 1 then Some (42950, 1, 3, 187, 7566) else
     if 42951 \<le> x \<and> x < 42951 + 4 then Some (42951, 4, 4, 0, 0) else
     if 42955 \<le> x \<and> x < 42955 + 1 then Some (42955, 1, 3, 91, 612) else
     if 42956 \<le> x \<and> x < 42956 + 16 then Some (42956, 16, 4, 0, 0) else
     if 42972 \<le> x \<and> x < 42972 + 1 then Some (42972, 1, 3, 37, 411) else
     if 42997 \<le> x \<and> x < 42997 + 2 then Some (42997, 2, 4, 0, 0) else
     if 43859 \<le> x \<and> x < 43859 + 1 then Some (43859, 1, 0, 328, 42931) else
     if 43888 \<le> x \<and> x < 43888 + 80 then Some (43888, 80, 2, 170, 5024) else None)"
  by (simp only: find_16_def runs_16_def List.find.simps in_run.simps)

definition find_17 :: "int \<Rightarrow> run option" where "find_17 x = List.find (in_run x) runs_17"

lemma find_17_code [code]:
  "find_17 x = (
     if 64256 \<le> x \<and> x < 64256 + 1 then Some (64256, 1, 11, 650, 0) else
     if 64257 \<le> x \<and> x < 64257 + 1 then Some (64257, 1, 11, 651, 0) else
     if 64258 \<le> x \<and> x < 64258 + 1 then Some (64258, 1, 11, 652, 0) else
     if 64259 \<le> x \<and> x < 64259 + 1 then Some (64259, 1, 13, 2731, 0) else
     if 64260 \<le> x \<and> x < 64260 + 1 then Some (64260, 1, 13, 2732, 0) else
     if 64261 \<le> x \<and> x < 64261 + 1 then Some (64261, 1, 11, 856, 0) else
     if 64262 \<le> x \<and> x < 64262 + 1 then Some (64262, 1, 11, 856, 0) else
     if 64275 \<le> x \<and> x < 64275 + 1 then Some (64275, 1, 11, 2991, 0) else
     if 64276 \<le> x \<and> x < 64276 + 1 then Some (64276, 1, 11, 2964, 0) else
     if 64277 \<le> x \<and> x < 64277 + 1 then Some (64277, 1, 11, 2992, 0) else
     if 64278 \<le> x \<and> x < 64278 + 1 then Some (64278, 1, 11, 3183, 0) else
     if 64279 \<le> x \<and> x < 64279 + 1 then Some (64279, 1, 11, 2994, 0) else
     if 65313 \<le> x \<and> x < 65313 + 26 then Some (65313, 26, 3, 353, 65345) else
     if 65345 \<le> x \<and> x < 65345 + 26 then Some (65345, 26, 0, 352, 65313) else
     if 66560 \<le> x \<and> x < 66560 + 40 then Some (66560, 40, 3, 355, 66600) else
     if 66600 \<le> x \<and> x < 66600 + 40 then Some (66600, 40, 0, 354, 66560) else
     if 66736 \<le> x \<and> x < 66736 + 36 then Some (66736, 36, 3, 357, 66776) else
     if 66776 \<le> x \<and> x < 66776 + 36 then Some (66776, 36, 0, 356, 66736) else
     if 66928 \<le> x \<and> x < 66928 + 11 then Some (66928, 11, 3, 362, 66967) else
     if 66940 \<le> x \<and> x < 66940 + 15 then Some (66940, 15, 3, 363, 66979) else None)"
  by (simp only: find_17_def runs_17_def List.find.simps in_run.simps)

definition find_18 :: "int \<Rightarrow> run option" where "find_18 x = List.find (in_run x) runs_18"

lemma find_18_code [code]:
  "find_18 x = (
     if 66956 \<le> x \<and> x < 66956 + 7 then Some (66956, 7, 3, 364, 66995) else
     if 66964 \<le> x \<and> x < 66964 + 2 then Some (66964, 2, 3, 365, 67003) else
     if 66967 \<le> x \<and> x < 66967 + 11 then Some (66967, 11, 0, 358, 66928) else
     if 66979 \<le> x \<and> x < 66979 + 15 then Some (66979, 15, 0, 359, 66940) else
     if 66995 \<le> x \<and> x < 66995 + 7 then Some (66995, 7, 0, 360, 66956) else
     if 67003 \<le> x \<and> x < 67003 + 2 then Some (67003, 2, 0, 361, 66964) else
     if 68736 \<le> x \<and> x < 68736 + 51 then Some (68736, 51, 3, 367, 68800) else
     if 68800 \<le> x \<and> x < 68800 + 51 then Some (68800, 51, 0, 366, 68736) else
     if 68944 \<le> x \<and> x < 68944 + 22 then Some (68944, 22, 3, 369, 68976) else
     if 68976 \<le> x \<and> x < 68976 + 22 then Some (68976, 22, 0, 368, 68944) else
     if 71840 \<le> x \<and> x < 71840 + 32 then Some (71840, 32, 3, 371, 71872) else
     if 71872 \<le> x \<and> x < 71872 + 32 then Some (71872, 32, 0, 370, 71840) else
     if 93760 \<le> x \<and> x < 93760 + 32 then Some (93760, 32, 3, 373, 93792) else
     if 93792 \<le> x \<and> x < 93792 + 32 then Some (93792, 32, 0, 372, 93760) else
     if 93856 \<le> x \<and> x < 93856 + 25 then Some (93856, 25, 3, 375, 93883) else
     if 93883 \<le> x \<and> x < 93883 + 25 then Some (93883, 25, 0, 374, 93856) else
     if 125184 \<le> x \<and> x < 125184 + 34 then Some (125184, 34, 3, 377, 125218) else
     if 125218 \<le> x \<and> x < 125218 + 34 then Some (125218, 34, 0, 376, 125184) else None)"
  by (simp only: find_18_def runs_18_def List.find.simps in_run.simps)

lemma find_run_code [code]:
  "find_run x = (
     if x < 385 then find_0 x else
     if x < 414 then find_1 x else
     if x < 478 then find_2 x else
     if x < 593 then find_3 x else
     if x < 624 then find_4 x else
     if x < 896 then find_5 x else
     if x < 983 then find_6 x else
     if x < 1231 then find_7 x else
     if x < 7303 then find_8 x else
     if x < 7952 then find_9 x else
     if x < 8032 then find_10 x else
     if x < 8120 then find_11 x else
     if x < 8163 then find_12 x else
     if x < 8499 then find_13 x else
     if x < 11380 then find_14 x else
     if x < 42922 then find_15 x else
     if x < 43968 then find_16 x else
     if x < 66955 then find_17 x else
     if x < 125252 then find_18 x else None)"
  by (simp only: find_run_def case_blocks_def block_find.simps
      find_0_def find_1_def find_2_def find_3_def find_4_def find_5_def find_6_def
      find_7_def find_8_def find_9_def find_10_def find_11_def find_12_def
      find_13_def find_14_def find_15_def find_16_def find_17_def find_18_def)

definition fold_ok :: "int \<Rightarrow> int \<Rightarrow> bool" where
  "fold_ok x y \<longleftrightarrow> (if y = x then True else 0 \<le> y \<and> y < 0x110000 \<and> canon_i True y = y)"

fun conv_ok :: "nat \<Rightarrow> int \<Rightarrow> int list \<Rightarrow> bool" where
  "conv_ok t x ys \<longleftrightarrow>
     (if ys = [x] then True else list_all (\<lambda>y. 0 \<le> y \<and> y < 0x110000 \<and> conv_i t y = [y]) ys)"

definition point_ok :: "run \<Rightarrow> int \<Rightarrow> bool" where
  "point_ok r x \<longleftrightarrow>
     (if x < 128 then True else
      fold_ok x (canon_run True x r) \<and>
      conv_ok 0 x (entry_i lower_i 0 x r) \<and> conv_ok 1 x (entry_i lower_i 1 x r))"

fun run_ok :: "run \<Rightarrow> bool" where
  "run_ok (code, len, r) \<longleftrightarrow> list_all (point_ok (code, len, r)) [code..code + len - 1]"

lemma points_0: "list_all run_ok runs_0"
  by code_simp

lemma points_1: "list_all run_ok runs_1"
  by code_simp

lemma points_2: "list_all run_ok runs_2"
  by code_simp

lemma points_3: "list_all run_ok runs_3"
  by code_simp

lemma points_4: "list_all run_ok runs_4"
  by code_simp

lemma points_5: "list_all run_ok runs_5"
  by code_simp

lemma points_6: "list_all run_ok runs_6"
  by code_simp

lemma points_7: "list_all run_ok runs_7"
  by code_simp

lemma points_8: "list_all run_ok runs_8"
  by code_simp

lemma points_9: "list_all run_ok runs_9"
  by code_simp

lemma points_10: "list_all run_ok runs_10"
  by code_simp

lemma points_11: "list_all run_ok runs_11"
  by code_simp

lemma points_12: "list_all run_ok runs_12"
  by code_simp

lemma points_13: "list_all run_ok runs_13"
  by code_simp

lemma points_14: "list_all run_ok runs_14"
  by code_simp

lemma points_15: "list_all run_ok runs_15"
  by code_simp

lemma points_16: "list_all run_ok runs_16"
  by code_simp

lemma points_17: "list_all run_ok runs_17"
  by code_simp

lemma points_18: "list_all run_ok runs_18"
  by code_simp

lemma points: "list_all run_ok case_runs"
  unfolding case_runs_def case_blocks_def
  by (simp only: list.map concat.simps prod.case list_all_append append_Nil2 simp_thms
      points_0 points_1 points_2 points_3 points_4 points_5 points_6 points_7 points_8 points_9
      points_10 points_11 points_12 points_13 points_14 points_15 points_16 points_17 points_18)

lemma point:
  assumes "i < 378" "in_run x (case_runs ! i)" "128 \<le> x"
  shows "fold_ok x (canon_run True x (case_runs ! i))"
    "conv_ok 0 x (entry_i lower_i 0 x (case_runs ! i))" "conv_ok 1 x (entry_i lower_i 1 x (case_runs ! i))"
proof -
  obtain code len r where i: "case_runs ! i = (code, len, r)" by (cases "case_runs ! i")
  have "run_ok (case_runs ! i)" using points assms(1) length_runs by (simp add: list_all_length)
  moreover have "x \<in> set [code..code + len - 1]" using assms(2) i by (cases r) auto
  ultimately have "point_ok (case_runs ! i) x" unfolding i run_ok.simps list_all_iff by blast
  then show "fold_ok x (canon_run True x (case_runs ! i))"
    "conv_ok 0 x (entry_i lower_i 0 x (case_runs ! i))" "conv_ok 1 x (entry_i lower_i 1 x (case_runs ! i))"
    using assms(3) by (simp_all add: point_ok_def)
qed

section \<open>Bounds of the results\<close>

definition code_point :: "int \<Rightarrow> bool" where "code_point y \<longleftrightarrow> 0 \<le> y \<and> y < 0x110000"

lemma ext_code_point: "0 \<le> k \<Longrightarrow> k < 58 \<Longrightarrow> code_point (ext_i k)"
  "0 \<le> k \<Longrightarrow> k < 58 \<Longrightarrow> 0 \<le> z \<Longrightarrow> z < 128 \<Longrightarrow> code_point (z + ext_i k)"
  "0 \<le> k \<Longrightarrow> k < 58 \<Longrightarrow> code_point (ext_i k + 1)"
  using ext_i_bounds [of k] by (auto simp: code_point_def)

lemma entry_bounds:
  assumes i: "i < 378" and x: "in_run x (case_runs ! i)"
    and low: "\<forall>y. code_point y \<longrightarrow> code_point (low y)"
  shows "list_all code_point (entry_i low t x (case_runs ! i)) \<and> length (entry_i low t x (case_runs ! i)) \<le> 3"
proof -
  obtain code len ty data base where r: "case_runs ! i = (code, len, ty, data, base)" by (cases "case_runs ! i")
  have b: "65 \<le> code" "code + len \<le> 131072" "0 \<le> data" "data < 4096" "len < 128" "0 \<le> base" "base < 131072"
    using row [OF i] unfolding r by auto
  have z: "0 \<le> x - code" "x - code < 128" "code \<le> x" "x < 131072" using x b unfolding r by auto
  have p: "code_point x" "code_point (x - 1)" "code_point (x + 1)" "code_point (x + 2)" "code_point (x - code + base)"
    "code_point data" "code_point (data + 32)" "code_point 921"
    "x - code = 2 \<Longrightarrow> code_point (x - 2)"
    using z b by (auto simp: code_point_def)
  have d: "0 \<le> data div 64" "0 \<le> data mod 64" "0 \<le> data div 256" "data div 256 < 58"
    "0 \<le> data div 16 mod 16" "data div 16 mod 16 < 58" "0 \<le> data mod 16" "data mod 16 < 58"
    using b by auto
  have e6: "code_point (x - code + ext_i (data div 64))" "code_point (x - code + ext_i (data mod 64))"
    "code_point (ext_i (data mod 64))" if "ty = 6 \<or> ty = 11 \<or> ty = 12"
    using run_args(1) [OF i r] that d(1,2) z(1,2) by (intro ext_code_point; simp)+
  have e8: "code_point (ext_i data)" "code_point (ext_i data + 1)" if "ty = 8 \<or> ty = 9 \<or> ty = 10"
    using run_args(1) [OF i r] that b(3) by (intro ext_code_point; simp)+
  have e13: "code_point (ext_i (data div 256))" "code_point (ext_i (data div 16 mod 16))" "code_point (ext_i (data mod 16))"
    by (rule ext_code_point(1) [OF d(3,4)], rule ext_code_point(1) [OF d(5,6)], rule ext_code_point(1) [OF d(7,8)])
  have "ty \<le> 3 \<or> ty = 4 \<or> ty = 5 \<or> ty = 6 \<or> ty = 7 \<or> ty = 8 \<or> ty = 9 \<or> ty = 10 \<or> ty = 11 \<or> ty = 12 \<or> ty = 13"
    using row_run(8,9) [OF i r] by presburger
  then show ?thesis unfolding r
  proof (elim disjE)
    assume "ty = 13"
    then show "list_all code_point (entry_i low t x (code, len, ty, data, base)) \<and>
      length (entry_i low t x (code, len, ty, data, base)) \<le> 3"
      using e13 low p(1) by simp
  next
    assume "ty = 5"
    then show "list_all code_point (entry_i low t x (code, len, ty, data, base)) \<and>
      length (entry_i low t x (code, len, ty, data, base)) \<le> 3"
      using p(1-4,9) by (cases "x = code") auto
  qed (use p e6 e8 low in simp_all)
qed

lemma lower_code_point: "code_point y \<Longrightarrow> code_point (lower_i y)"
proof (cases "find_run y")
  case (Some r)
  assume y: "code_point y"
  have m: "\<exists>i < 378. r = case_runs ! i \<and> in_run y r"
    using Some by (auto simp: find_run_value find_Some_iff length_runs)
  then obtain i where i: "i < 378" "in_run y (case_runs ! i)" "r = case_runs ! i" by auto
  have "list_all code_point (entry_i id 1 y (case_runs ! i))"
    using entry_bounds [OF i(1,2), of id 1] by auto
  then have "code_point (hd (entry_i id 1 y r))"
    unfolding i(3) using entry_shape [of id 1 y "case_runs ! i"] by (cases "entry_i id 1 y (case_runs ! i)") auto
  then show ?thesis using y Some by (auto simp: lower_i_def ascii_lower_def code_point_def)
qed (auto simp: lower_i_def ascii_lower_def code_point_def)

lemma conv_bounds:
  assumes "code_point x"
  shows "list_all code_point (conv_i t x) \<and> length (conv_i t x) \<le> 3"
proof (cases "find_run x")
  case (Some r)
  then obtain i where i: "i < 378" "in_run x (case_runs ! i)" "r = case_runs ! i"
    by (auto simp: find_run_value find_Some_iff length_runs)
  have "list_all code_point (entry_i lower_i t x r) \<and> length (entry_i lower_i t x r) \<le> 3"
    unfolding i(3) by (intro entry_bounds [OF i(1,2)] allI impI lower_code_point)
  then show ?thesis using assms Some
    by (auto simp: conv_i_def ascii_lower_def ascii_upper_def code_point_def)
qed (use assms in \<open>auto simp: conv_i_def ascii_lower_def ascii_upper_def code_point_def\<close>)

lemma uint_code_point: "code_point y \<Longrightarrow> uint (word_of_int y :: u32) = y"
  by (simp add: code_point_def uint_word_of_int)

section \<open>Upper and lower case\<close>

lemma ascii_idem: "ascii_lower (ascii_lower x) = ascii_lower x" "ascii_upper (ascii_upper x) = ascii_upper x"
  "x < 128 \<Longrightarrow> ascii_lower x < 128" "x < 128 \<Longrightarrow> ascii_upper x < 128"
  by (auto simp: ascii_lower_def ascii_upper_def)

lemma conv_i_stable:
  assumes "t < 2" "code_point x"
  shows "list_all (\<lambda>y. conv_i t y = [y]) (conv_i t x)"
proof (cases "x < 128")
  case True
  then show ?thesis by (auto simp: conv_i_def ascii_idem)
next
  case False
  show ?thesis
  proof (cases "find_run x")
    case None
    then show ?thesis using False by (simp add: conv_i_def)
  next
    case (Some r)
    then obtain i where i: "i < 378" "in_run x (case_runs ! i)" "r = case_runs ! i"
      by (auto simp: find_run_value find_Some_iff length_runs)
    have e: "conv_i t x = entry_i lower_i t x r" using False Some by (simp add: conv_i_def)
    have "conv_ok t x (entry_i lower_i t x r)"
      using point(2,3) [OF i(1,2)] False assms(1) unfolding i(3) by (cases t) auto
    then show ?thesis using e by (auto simp: list_all_iff split: if_splits)
  qed
qed

lemma case_find_ascii: "find_run (uint c) = None \<Longrightarrow> conv_i t (uint c) = [uint c]"
proof -
  assume n: "find_run (uint c) = None"
  have r: "case_runs ! 0 = (65, 26, 3, 1, 97)" "case_runs ! 1 = (97, 26, 0, 0, 65)"
    by (simp_all add: case_runs_def case_blocks_def runs_0_def)
  have "\<not> in_run (uint c) r" if "r \<in> set case_runs" for r
    using n that unfolding find_run_value find_None_iff by blast
  then have "\<not> in_run (uint c) (case_runs ! 0)" "\<not> in_run (uint c) (case_runs ! 1)"
    using length_runs nth_mem [of 0 case_runs] nth_mem [of 1 case_runs] by simp_all
  then show ?thesis using n by (auto simp: conv_i_def ascii_lower_def ascii_upper_def r [simplified])
qed

section \<open>Canonicalization\<close>

lemma single_word:
  "xs \<noteq> [] \<Longrightarrow> (if length xs = 1 then rd (map word_of_int xs) 0 else Some (word_of_int d)) =
    Some (word_of_int (single xs d) :: u32)"
  by (cases xs; cases "tl xs") auto

lemma fold_unicode:
  assumes "i < 378" "in_run (uint c) (case_runs ! i)"
  shows "lre_case_folding_entry c i (case_conv_table1 ! i) True =
    Some (word_of_int (canon_run True (uint c) (case_runs ! i)))"
proof -
  define x where "x = uint c"
  have c: "c = word_of_int x" by (simp add: x_def)
  have e: "lre_case_conv_entry c 2 i (case_conv_table1 ! i) =
      Some (map word_of_int (entry_i lower_i 2 x (case_runs ! i)))"
    unfolding x_def by (rule entry_code) (use assms in auto)
  have k: "c = word_of_int k \<longleftrightarrow> x = k" if "0 \<le> k" "k < 0x110000" for k
    unfolding x_def using that word_uint_eqI [of c "word_of_int k"] by (auto simp: uint_word_of_int)
  have d: "(if c = 0xfb06 then 0xfb05 else if c = 0x01fd3 then 0x390 else if c = 0x01fe3 then 0x3b0 else c) =
    word_of_int (if x = 0xfb06 then 0xfb05 else if x = 0x1fd3 then 0x390 else if x = 0x1fe3 then 0x3b0 else x)"
    using k [of "0xfb06"] k [of "0x1fd3"] k [of "0x1fe3"] by (simp add: c)
  show ?thesis
    unfolding lre_case_folding_entry_def e canon_run_def d x_def [symmetric] if_True Option.bind_lunit
    using single_word [OF entry_shape] by simp
qed

lemma code_point_128: "code_point y \<Longrightarrow> (word_of_int y :: u32) \<ge> 128 \<longleftrightarrow> y \<ge> 128"
  by (simp add: word_le_def uint_code_point)

lemma fold_plain:
  assumes "i < 378" "in_run (uint c) (case_runs ! i)" "\<not> c < 128"
  shows "lre_case_folding_entry c i (case_conv_table1 ! i) False =
    Some (word_of_int (canon_run False (uint c) (case_runs ! i)))"
proof -
  define ys where "ys = entry_i lower_i 0 (uint c) (case_runs ! i)"
  have e: "lre_case_conv_entry c 0 i (case_conv_table1 ! i) = Some (map word_of_int ys)"
    unfolding ys_def by (rule entry_code) (use assms in auto)
  have b: "list_all code_point ys"
    using entry_bounds [OF assms(1,2), of lower_i 0] lower_code_point by (simp add: ys_def)
  obtain y zs where y: "ys = y # zs" using entry_shape unfolding ys_def by (metis list.exhaust)
  have s: "single ys 0 = (if zs = [] then y else 0)" by (cases zs) (auto simp: y)
  have t: "(word_of_int y :: u32) \<ge> 128 \<longleftrightarrow> y \<ge> 128"
    by (rule code_point_128) (use b y in auto)
  show ?thesis
    unfolding lre_case_folding_entry_def e canon_run_def ys_def [symmetric] s
    using assms(3) t by (simp add: y)
qed

lemma canon_value: "lre_canonicalize c u = Some (word_of_int (canon_i u (uint c)))"
proof (cases "c < 128")
  case True
  then have x: "uint c < 128" by (simp add: word_less_def)
  show ?thesis unfolding lre_canonicalize_def canon_i_def using True x ascii_word [OF True] by simp
next
  case False
  then have x: "\<not> uint c < 128" by (simp add: word_less_def)
  show ?thesis
  proof (cases c rule: case_find_cases)
    case none
    then show ?thesis unfolding lre_canonicalize_def canon_i_def using False x by simp
  next
    case (run i)
    then show ?thesis unfolding lre_canonicalize_def canon_i_def
      using False x fold_unicode [OF run(1,3)] fold_plain [OF run(1,3) False] by (cases u) simp_all
  qed
qed

lemma canon_cases:
  obtains "canon_i u x = x" "x \<ge> 128" | "x < 128" "canon_i u x = (if u then ascii_lower x else ascii_upper x)"
  | i where "i < 378" "in_run x (case_runs ! i)" "x \<ge> 128" "canon_i u x = canon_run u x (case_runs ! i)"
proof (cases "x < 128")
  case False
  show thesis
  proof (cases "find_run x")
    case (Some r)
    then obtain i where "i < 378" "in_run x (case_runs ! i)" "r = case_runs ! i"
      by (auto simp: find_run_value find_Some_iff length_runs)
    then show thesis using that(3) [of i] False Some by (simp add: canon_i_def)
  qed (use False that(1) in \<open>auto simp: canon_i_def\<close>)
qed (use that in \<open>auto simp: canon_i_def\<close>)

lemma conv_canon: "x \<ge> 128 \<Longrightarrow> canon_i False x = (let y = single (conv_i 0 x) 0 in if y \<ge> 128 then y else x)"
  by (auto simp: canon_i_def conv_i_def canon_run_def Let_def split: option.split)

lemma canon_plain_stable:
  assumes "code_point x" "x \<ge> 128"
  shows "code_point (canon_i False x) \<and> canon_i False (canon_i False x) = canon_i False x \<and>
    canon_i False x \<ge> 128"
proof (cases "single (conv_i 0 x) 0 \<ge> 128")
  case True
  define y where "y = single (conv_i 0 x) 0"
  have "conv_i 0 x = [y]"
    using True conv_nonempty [of 0 x] by (cases "conv_i 0 x"; cases "tl (conv_i 0 x)") (auto simp: y_def)
  then have "conv_i 0 y = [y]" "code_point y"
    using conv_i_stable [of 0 x] conv_bounds [OF assms(1), of 0] assms(1) by auto
  then show ?thesis using True assms by (simp add: conv_canon Let_def y_def [symmetric])
qed (use assms in \<open>simp add: conv_canon Let_def\<close>)

lemma canon_stable:
  assumes "code_point x"
  shows "code_point (canon_i u x) \<and> canon_i u (canon_i u x) = canon_i u x \<and>
    (u \<or> (canon_i u x < 128 \<longleftrightarrow> x < 128))"
proof (cases u x rule: canon_cases)
  case 2
  then show ?thesis using assms by (auto simp: canon_i_def ascii_idem code_point_def ascii_lower_def ascii_upper_def)
next
  case (3 i)
  show ?thesis
  proof (cases u)
    case True
    have "fold_ok x (canon_i True x)" using 3(4) point(1) [OF 3(1-3)] True by simp
    then show ?thesis using assms True by (auto simp: fold_ok_def code_point_def split: if_splits)
  next
    case False
    then show ?thesis using canon_plain_stable [OF assms 3(3)] 3(3) by simp
  qed
qed (use assms in auto)

lemma is_code_point: "c \<le> 0x10ffff \<longleftrightarrow> code_point (uint c)" for c :: u32
  by (auto simp: word_le_def code_point_def)

text \<open>Property C22 (functional): the canonicalization that case-insensitive matching compares by is a
  projection, in both modes. It never reads outside its tables, maps each code point to a code
  point, and canonicalizing the result again changes nothing, so two characters match exactly if
  they have the same canonical form. Without the unicode flag, ASCII and non-ASCII characters never
  match each other (ECMA-262, Canonicalize).\<close>

theorem lre_canonicalize_projection:
  assumes "c \<le> 0x10ffff"
  shows "\<exists>d. lre_canonicalize c u = Some d \<and> d \<le> 0x10ffff \<and> lre_canonicalize d u = Some d \<and>
    (u \<or> (d < 128 \<longleftrightarrow> c < 128))"
proof -
  define x where "x = canon_i u (uint c)"
  have x: "code_point x" "canon_i u x = x" "u \<or> (x < 128 \<longleftrightarrow> uint c < 128)"
    using canon_stable [of "uint c" u] assms by (auto simp: is_code_point x_def)
  have w: "uint (word_of_int x :: u32) = x" by (rule uint_code_point [OF x(1)])
  have "lre_canonicalize c u = Some (word_of_int x)" by (simp add: canon_value x_def)
  moreover have "lre_canonicalize (word_of_int x) u = Some (word_of_int x)"
    unfolding canon_value w x(2) by (rule refl)
  moreover have "(word_of_int x :: u32) \<le> 0x10ffff" unfolding is_code_point w by (rule x(1))
  moreover have "u \<or> ((word_of_int x :: u32) < 128 \<longleftrightarrow> c < 128)"
    using x(3) unfolding word_less_def w by simp
  ultimately show ?thesis by blast
qed

theorem lre_canonicalize_projection_witness:
  "\<exists>d. lre_canonicalize 0x17f False = Some d \<and> d \<le> 0x10ffff \<and> lre_canonicalize d False = Some d \<and>
    (False \<or> (d < 128 \<longleftrightarrow> (0x17f :: u32) < 128))"
  by (rule lre_canonicalize_projection) (simp add: word_le_def)

text \<open>Property C40 (type): case conversion to upper case (0), lower case (1) or the folding (2) of a code
  point stores at least one and at most LRE_CC_RES_LEN_MAX = 3 results, each of them a code point;
  upper and lower case are stable under the same conversion; and a code point that \<open>lre_is_cased\<close>
  does not report is its own conversion.\<close>

theorem lre_case_conv_results:
  assumes "c \<le> 0x10ffff" and "t \<le> 2"
  shows "\<exists>ds. lre_case_conv c t = Some ds \<and> 1 \<le> length ds \<and> length ds \<le> 3 \<and>
    list_all (\<lambda>d. d \<le> 0x10ffff \<and> (t = 2 \<or> lre_case_conv d t = Some [d])) ds \<and>
    (lre_is_cased c = Some True \<or> ds = [c])"
proof -
  define ys where "ys = conv_i t (uint c)"
  have p: "code_point (uint c)" using assms(1) by (simp add: is_code_point)
  have b: "list_all code_point ys" "length ys \<le> 3" using conv_bounds [OF p] by (auto simp: ys_def)
  have v: "lre_case_conv c t = Some (map word_of_int ys)" unfolding ys_def by (rule conv_value [OF assms(2)])
  have s: "t = 2 \<or> list_all (\<lambda>y. conv_i t y = [y]) ys"
    using conv_i_stable [OF _ p, of t] assms(2) unfolding ys_def by (cases "t < 2") auto
  have "word_of_int y \<le> (0x10ffff :: u32) \<and> (t = 2 \<or> lre_case_conv (word_of_int y) t = Some [word_of_int y])"
    if "y \<in> set ys" for y
  proof -
    have y: "code_point y" using b(1) that by (auto simp: list_all_iff)
    note w = uint_code_point [OF y]
    show ?thesis using s that y by (auto simp: is_code_point w conv_value [OF assms(2)] list_all_iff)
  qed
  then have l: "list_all (\<lambda>d :: u32. d \<le> 0x10ffff \<and> (t = 2 \<or> lre_case_conv d t = Some [d])) (map word_of_int ys)"
    by (auto simp: list_all_iff)
  have "lre_is_cased c = Some True \<or> ys = [uint c]"
    by (cases c rule: case_find_cases) (auto simp: lre_is_cased_def ys_def case_find_ascii)
  then have k: "lre_is_cased c = Some True \<or> map word_of_int ys = [c]" by auto
  have "1 \<le> length ys" using conv_nonempty [of t "uint c"] by (cases ys) (auto simp: ys_def)
  then show ?thesis using v b(2) l k by auto
qed

theorem lre_case_conv_results_witness:
  "\<exists>ds. lre_case_conv 0xfb03 0 = Some ds \<and> 1 \<le> length ds \<and> length ds \<le> 3 \<and>
    list_all (\<lambda>d. d \<le> 0x10ffff \<and> ((0::nat) = 2 \<or> lre_case_conv d 0 = Some [d])) ds \<and>
    (lre_is_cased 0xfb03 = Some True \<or> ds = [0xfb03])"
  by (rule lre_case_conv_results) (simp_all add: word_le_def)

end
