(* ===== verification/ReInstr.thy ===== *)
theory ReInstr
  imports Utf8 CBits UniClass CaseConv
begin

text \<open>
  The instructions of the regular expression engine, \<^verbatim>\<open>quickjs/libregexp.c\<close> (\<open>lre_exec_backtrack\<close>)
  with \<^verbatim>\<open>quickjs/libregexp-opcode.h\<close>. An instruction reads the byte code, the subject string and the
  capture array, and then changes the state of the matcher by a few operations, in the order of
  the C code: the value of \<open>instr\<close> is that sequence of operations, and \<open>ReExec\<close> performs it on the
  backtracking stack. An access outside the byte code, the subject or the capture array, a
  capture slot used at another type than it was written with, and the call of \<open>abort\<close> are
  undefined outcomes that name their cause.
\<close>

section \<open>Opcodes\<close>

datatype re_op =
    REOP_invalid | REOP_char | REOP_char_i | REOP_char32 | REOP_char32_i | REOP_dot | REOP_any
  | REOP_space | REOP_not_space | REOP_line_start | REOP_line_start_m | REOP_line_end
  | REOP_line_end_m | REOP_goto | REOP_split_goto_first | REOP_split_next_first | REOP_match
  | REOP_lookahead_match | REOP_negative_lookahead_match | REOP_save_start | REOP_save_end
  | REOP_save_reset | REOP_loop | REOP_loop_split_goto_first | REOP_loop_split_next_first
  | REOP_loop_check_adv_split_goto_first | REOP_loop_check_adv_split_next_first | REOP_set_i32
  | REOP_word_boundary | REOP_word_boundary_i | REOP_not_word_boundary | REOP_not_word_boundary_i
  | REOP_back_reference | REOP_back_reference_i | REOP_backward_back_reference
  | REOP_backward_back_reference_i | REOP_range | REOP_range_i | REOP_range32 | REOP_range32_i
  | REOP_lookahead | REOP_negative_lookahead | REOP_set_char_pos | REOP_check_advance | REOP_prev

text \<open>The table of the opcodes with the size of their instruction, in the order of their codes.\<close>

definition reopcode_info :: "(re_op \<times> nat) list" where
  "reopcode_info = [
    (REOP_invalid, 1), (REOP_char, 3), (REOP_char_i, 3), (REOP_char32, 5), (REOP_char32_i, 5),
    (REOP_dot, 1), (REOP_any, 1), (REOP_space, 1), (REOP_not_space, 1), (REOP_line_start, 1),
    (REOP_line_start_m, 1), (REOP_line_end, 1), (REOP_line_end_m, 1), (REOP_goto, 5),
    (REOP_split_goto_first, 5), (REOP_split_next_first, 5), (REOP_match, 1),
    (REOP_lookahead_match, 1), (REOP_negative_lookahead_match, 1), (REOP_save_start, 2),
    (REOP_save_end, 2), (REOP_save_reset, 3), (REOP_loop, 6), (REOP_loop_split_goto_first, 10),
    (REOP_loop_split_next_first, 10), (REOP_loop_check_adv_split_goto_first, 10),
    (REOP_loop_check_adv_split_next_first, 10), (REOP_set_i32, 6), (REOP_word_boundary, 1),
    (REOP_word_boundary_i, 1), (REOP_not_word_boundary, 1), (REOP_not_word_boundary_i, 1),
    (REOP_back_reference, 2), (REOP_back_reference_i, 2), (REOP_backward_back_reference, 2),
    (REOP_backward_back_reference_i, 2), (REOP_range, 3), (REOP_range_i, 3), (REOP_range32, 3),
    (REOP_range32_i, 3), (REOP_lookahead, 5), (REOP_negative_lookahead, 5),
    (REOP_set_char_pos, 2), (REOP_check_advance, 2), (REOP_prev, 1)]"

definition op_of :: "u32 \<Rightarrow> re_op option" where
  "op_of opcode = map_option fst (rd reopcode_info (unat opcode))"

section \<open>The subject string\<close>

text \<open>A string of 8-bit or of 16-bit units. Pointers into it are indices of units.\<close>

datatype subject = Bytes8 "u8 list" | Units16 "u16 list"

fun units :: "subject \<Rightarrow> nat" where
  "units (Bytes8 bs) = length bs"
| "units (Units16 us) = length us"

fun unit_at :: "subject \<Rightarrow> nat \<Rightarrow> u32 option" where
  "unit_at (Bytes8 bs) p = map_option ucast (rd bs p)"
| "unit_at (Units16 us) p = map_option ucast (rd us p)"

text \<open>A slot of the capture array: a null pointer, a pointer into the subject, or an integer stored in
  a register.\<close>

datatype slot = Null | Ptr nat | Num u32

text \<open>The part of REExecContext that does not change: the byte code with its header, the subject, the
  type of its characters (0 for 8-bit units, 1 for 16-bit units, 2 for UTF-16), the number of
  captures and the unicode flag.\<close>

record re_env =
  bc_buf :: "u8 list"
  cbuf :: subject
  cbuf_type :: nat
  capture_count :: nat
  is_unicode :: bool

definition is_line_terminator :: "u32 \<Rightarrow> bool" where
  "is_line_terminator c \<longleftrightarrow> c = 10 \<or> c = 13 \<or> c = 0x2028 \<or> c = 0x2029"

text \<open>The macros for characters. A pointer before the start of the string cannot be formed.\<close>

definition get_char :: "re_env \<Rightarrow> nat \<Rightarrow> nat \<Rightarrow> (u32 \<times> nat) option" where
  "get_char e p p_end =
     (if cbuf_type e = 0 then do { c \<leftarrow> unit_at (cbuf e) p; Some (c, p + 1) }
      else do {
        c \<leftarrow> unit_at (cbuf e) p;
        let q = p + 1;
        if is_hi_surrogate c \<and> cbuf_type e = 2 \<and> q < p_end then do {
          d \<leftarrow> unit_at (cbuf e) q;
          if is_lo_surrogate d then Some (from_surrogate c d, q + 1) else Some (c, q) }
        else Some (c, q) })"

definition peek_char :: "re_env \<Rightarrow> nat \<Rightarrow> nat \<Rightarrow> u32 option" where
  "peek_char e p p_end =
     (if cbuf_type e = 0 then unit_at (cbuf e) p
      else do {
        c \<leftarrow> unit_at (cbuf e) p;
        let q = p + 1;
        if is_hi_surrogate c \<and> cbuf_type e = 2 \<and> q < p_end then do {
          d \<leftarrow> unit_at (cbuf e) q;
          Some (if is_lo_surrogate d then from_surrogate c d else c) }
        else Some c })"

definition unit_before :: "subject \<Rightarrow> nat \<Rightarrow> (u32 \<times> nat) option" where
  "unit_before t p = (if p = 0 then None else do { c \<leftarrow> unit_at t (p - 1); Some (c, p - 1) })"

definition peek_prev_char :: "re_env \<Rightarrow> nat \<Rightarrow> nat \<Rightarrow> u32 option" where
  "peek_prev_char e p p_start =
     (if cbuf_type e = 0 then map_option fst (unit_before (cbuf e) p)
      else do {
        (c, q) \<leftarrow> unit_before (cbuf e) p;
        if is_lo_surrogate c \<and> cbuf_type e = 2 \<and> q > p_start then do {
          (d, r) \<leftarrow> unit_before (cbuf e) q;
          Some (if is_hi_surrogate d then from_surrogate d c else c) }
        else Some c })"

definition get_prev_char :: "re_env \<Rightarrow> nat \<Rightarrow> nat \<Rightarrow> (u32 \<times> nat) option" where
  "get_prev_char e p p_start =
     (if cbuf_type e = 0 then unit_before (cbuf e) p
      else do {
        (c, q) \<leftarrow> unit_before (cbuf e) p;
        if is_lo_surrogate c \<and> cbuf_type e = 2 \<and> q > p_start then do {
          (d, r) \<leftarrow> unit_before (cbuf e) q;
          Some (if is_hi_surrogate d then (from_surrogate d c, r) else (c, q)) }
        else Some (c, q) })"

definition prev_char :: "re_env \<Rightarrow> nat \<Rightarrow> nat \<Rightarrow> nat option" where
  "prev_char e p p_start =
     (if cbuf_type e = 0 then (if p = 0 then None else Some (p - 1))
      else do {
        (c, q) \<leftarrow> unit_before (cbuf e) p;
        if is_lo_surrogate c \<and> cbuf_type e = 2 \<and> q > p_start then do {
          (d, r) \<leftarrow> unit_before (cbuf e) q;
          Some (if is_hi_surrogate d then r else q) }
        else Some q })"

section \<open>Operations on the state of the matcher\<close>

datatype exec_state = Split | Lookahead | Negative_lookahead

datatype undefined_cause = Bad_code | Bad_text | Bad_slot | Bad_stack | Bad_table | Aborted

text \<open>What an instruction does, in order: \<open>lre_poll_timeout\<close>, CHECK_STACK_SPACE, SAVE_CAPTURE,
  SAVE_CAPTURE_CHECK, the push of a saved state; at the end the next instruction and character, or
  one of the ends of \<open>lre_exec_backtrack\<close>'s \<^verbatim>\<open>switch\<close>.\<close>

datatype effects =
    Next int nat
  | Matched
  | No_match
  | Lookahead_matched
  | Negative_lookahead_matched
  | Bytecode_error
  | Undefined undefined_cause
  | Poll effects
  | Check_stack nat effects
  | Save nat slot effects
  | Save_check nat slot effects
  | Push exec_state int nat effects

fun need :: "undefined_cause \<Rightarrow> 'a option \<Rightarrow> ('a \<Rightarrow> effects) \<Rightarrow> effects" where
  "need u None f = Undefined u"
| "need u (Some x) f = f x"

definition fetch :: "(u8 list \<Rightarrow> nat \<Rightarrow> u32 option) \<Rightarrow> re_env \<Rightarrow> int \<Rightarrow> (u32 \<Rightarrow> effects) \<Rightarrow> effects" where
  "fetch get e pc = need Bad_code (if pc < 0 then None else get (bc_buf e) (nat pc))"

lemma need_cong [fundef_cong]:
  "x = y \<Longrightarrow> (\<And>a. y = Some a \<Longrightarrow> f a = g a) \<Longrightarrow> need u x f = need u y g"
  by (cases y) auto

abbreviation cbuf_end :: "re_env \<Rightarrow> nat" where "cbuf_end e \<equiv> units (cbuf e)"

section \<open>Characters and classes\<close>

definition fold_case :: "re_env \<Rightarrow> bool \<Rightarrow> u32 \<Rightarrow> u32 option" where
  "fold_case e ic c = (if ic then lre_canonicalize c (is_unicode e) else Some c)"

definition test_char :: "re_env \<Rightarrow> bool \<Rightarrow> u32 \<Rightarrow> int \<Rightarrow> nat \<Rightarrow> effects" where
  "test_char e ic val pc cp =
     (if cp \<ge> cbuf_end e then No_match
      else need Bad_text (get_char e cp (cbuf_end e)) (\<lambda>(c, cp).
        need Bad_table (fold_case e ic c) (\<lambda>c.
          if val \<noteq> c then No_match else Next pc cp)))"

definition instr_char32 :: "re_env \<Rightarrow> bool \<Rightarrow> int \<Rightarrow> nat \<Rightarrow> effects" where
  "instr_char32 e ic pc cp = fetch get_u32 e pc (\<lambda>val. test_char e ic val (pc + 4) cp)"

definition instr_char :: "re_env \<Rightarrow> bool \<Rightarrow> int \<Rightarrow> nat \<Rightarrow> effects" where
  "instr_char e ic pc cp = fetch get_u16 e pc (\<lambda>val. test_char e ic val (pc + 2) cp)"

definition instr_class :: "re_env \<Rightarrow> (u32 \<Rightarrow> bool) \<Rightarrow> int \<Rightarrow> nat \<Rightarrow> effects" where
  "instr_class e cls pc cp =
     (if cp = cbuf_end e then No_match
      else need Bad_text (get_char e cp (cbuf_end e)) (\<lambda>(c, cp).
        if \<not> cls c then No_match else Next pc cp))"

definition instr_line_start :: "re_env \<Rightarrow> bool \<Rightarrow> int \<Rightarrow> nat \<Rightarrow> effects" where
  "instr_line_start e multi pc cp =
     (if cp = 0 then Next pc cp
      else if \<not> multi then No_match
      else need Bad_text (peek_prev_char e cp 0) (\<lambda>c.
        if \<not> is_line_terminator c then No_match else Next pc cp))"

definition instr_line_end :: "re_env \<Rightarrow> bool \<Rightarrow> int \<Rightarrow> nat \<Rightarrow> effects" where
  "instr_line_end e multi pc cp =
     (if cp = cbuf_end e then Next pc cp
      else if \<not> multi then No_match
      else need Bad_text (peek_char e cp (cbuf_end e)) (\<lambda>c.
        if \<not> is_line_terminator c then No_match else Next pc cp))"

definition word_char :: "bool \<Rightarrow> u32 \<Rightarrow> bool" where
  "word_char ignore_case c =
     (if c < 256 then lre_is_word_byte (ucast c) \<noteq> 0
      else ignore_case \<and> (c = 0x017f \<or> c = 0x212a))"

definition instr_word_boundary :: "re_env \<Rightarrow> bool \<Rightarrow> bool \<Rightarrow> int \<Rightarrow> nat \<Rightarrow> effects" where
  "instr_word_boundary e ignore_case is_boundary pc cp =
     need Bad_text (if cp = 0 then Some False
       else map_option (word_char ignore_case) (peek_prev_char e cp 0)) (\<lambda>v1.
     need Bad_text (if cp \<ge> cbuf_end e then Some False
       else map_option (word_char ignore_case) (peek_char e cp (cbuf_end e))) (\<lambda>v2.
       if (v1 \<noteq> v2) \<noteq> is_boundary then No_match else Next pc cp))"

definition instr_prev :: "re_env \<Rightarrow> int \<Rightarrow> nat \<Rightarrow> effects" where
  "instr_prev e pc cp =
     (if cp = 0 then No_match else need Bad_text (prev_char e cp 0) (\<lambda>cp. Next pc cp))"

section \<open>Character ranges\<close>

text \<open>The binary search over the \<open>n\<close> pairs of bounds of \<open>w\<close> bytes each. The undefined outcome at
  index 0 is the wrap-around of \<open>idx_max\<close>; the comparison with the first bound excludes it.\<close>

function range_search ::
  "(u8 list \<Rightarrow> nat \<Rightarrow> u32 option) \<Rightarrow> nat \<Rightarrow> re_env \<Rightarrow> int \<Rightarrow> u32 \<Rightarrow> nat \<Rightarrow> nat \<Rightarrow> effects \<Rightarrow> effects" where
  "range_search get w e pc c idx_min idx_max range_match =
     (if idx_min \<le> idx_max then
        let idx = (idx_min + idx_max) div 2 in
        fetch get e (pc + int (idx * (2 * w))) (\<lambda>low.
        fetch get e (pc + int (idx * (2 * w) + w)) (\<lambda>high.
          if c < low then
            (if idx = 0 then Undefined Bad_code
             else range_search get w e pc c idx_min (idx - 1) range_match)
          else if c > high then range_search get w e pc c (idx + 1) idx_max range_match
          else range_match))
      else No_match)"
  by pat_completeness auto
termination
  by (relation "measure (\<lambda>(get, w, e, pc, c, idx_min, idx_max, m). Suc idx_max - idx_min)") auto

declare range_search.simps [simp del]

definition instr_range :: "re_env \<Rightarrow> bool \<Rightarrow> int \<Rightarrow> nat \<Rightarrow> effects" where
  "instr_range e ic pc cp =
     fetch get_u16 e pc (\<lambda>n. let pc = pc + 2 in
       if cp \<ge> cbuf_end e then No_match
       else need Bad_text (get_char e cp (cbuf_end e)) (\<lambda>(c, cp).
         need Bad_table (fold_case e ic c) (\<lambda>c.
         fetch get_u16 e pc (\<lambda>low.
           if c < low then No_match
           else let idx_max = n - 1 in
             fetch get_u16 e (pc + uint (idx_max * 4 + 2)) (\<lambda>high.
               if c \<ge> 0xffff \<and> high = 0xffff then Next (pc + 4 * uint n) cp
               else if c > high then No_match
               else range_search get_u16 2 e pc c 0 (unat idx_max) (Next (pc + 4 * uint n) cp))))))"

definition instr_range32 :: "re_env \<Rightarrow> bool \<Rightarrow> int \<Rightarrow> nat \<Rightarrow> effects" where
  "instr_range32 e ic pc cp =
     fetch get_u16 e pc (\<lambda>n. let pc = pc + 2 in
       if cp \<ge> cbuf_end e then No_match
       else need Bad_text (get_char e cp (cbuf_end e)) (\<lambda>(c, cp).
         need Bad_table (fold_case e ic c) (\<lambda>c.
         fetch get_u32 e pc (\<lambda>low.
           if c < low then No_match
           else let idx_max = n - 1 in
             fetch get_u32 e (pc + uint (idx_max * 8 + 4)) (\<lambda>high.
               if c > high then No_match
               else range_search get_u32 4 e pc c 0 (unat idx_max) (Next (pc + 8 * uint n) cp))))))"

section \<open>Jumps and saved states\<close>

definition instr_split :: "re_env \<Rightarrow> bool \<Rightarrow> int \<Rightarrow> nat \<Rightarrow> effects" where
  "instr_split e next_first pc cp =
     fetch get_u32 e pc (\<lambda>val. let pc = pc + 4 in
       if next_first then Push Split (pc + sint val) cp (Next pc cp)
       else Push Split pc cp (Next (pc + sint val) cp))"

definition instr_lookahead :: "re_env \<Rightarrow> exec_state \<Rightarrow> int \<Rightarrow> nat \<Rightarrow> effects" where
  "instr_lookahead e st pc cp =
     fetch get_u32 e pc (\<lambda>val. let pc = pc + 4 in Push st (pc + sint val) cp (Next pc cp))"

definition instr_goto :: "re_env \<Rightarrow> int \<Rightarrow> nat \<Rightarrow> effects" where
  "instr_goto e pc cp = fetch get_u32 e pc (\<lambda>val. Poll (Next (pc + 4 + sint val) cp))"

section \<open>Captures and registers\<close>

definition instr_save :: "re_env \<Rightarrow> nat \<Rightarrow> int \<Rightarrow> nat \<Rightarrow> effects" where
  "instr_save e k pc cp =
     fetch get_u8 e pc (\<lambda>val. let pc = pc + 1 in
       if unat val \<ge> capture_count e then Bytecode_error
       else Save (2 * unat val + k) (Ptr cp) (Next pc cp))"

fun reset_saves :: "nat list \<Rightarrow> effects \<Rightarrow> effects" where
  "reset_saves [] next = next"
| "reset_saves (val # vals) next = Save (2 * val) Null (Save (2 * val + 1) Null (reset_saves vals next))"

definition instr_save_reset :: "re_env \<Rightarrow> int \<Rightarrow> nat \<Rightarrow> effects" where
  "instr_save_reset e pc cp =
     fetch get_u8 e pc (\<lambda>val. fetch get_u8 e (pc + 1) (\<lambda>val2.
       if unat val2 \<ge> capture_count e then Bytecode_error
       else Check_stack (unat (2 * (val2 - val + 1)))
         (reset_saves [unat val ..< Suc (unat val2)] (Next (pc + 2) cp))))"

definition register :: "re_env \<Rightarrow> int \<Rightarrow> (nat \<Rightarrow> effects) \<Rightarrow> effects" where
  "register e pc f = fetch get_u8 e pc (\<lambda>r. f (2 * capture_count e + unat r))"

definition instr_set_i32 :: "re_env \<Rightarrow> int \<Rightarrow> nat \<Rightarrow> effects" where
  "instr_set_i32 e pc cp =
     register e pc (\<lambda>idx. fetch get_u32 e (pc + 1) (\<lambda>val.
       Save_check idx (Num val) (Next (pc + 5) cp)))"

text \<open>The integer in a register; a null pointer is 0.\<close>

fun slot_num :: "slot \<Rightarrow> u32 option" where
  "slot_num Null = Some 0"
| "slot_num (Num n) = Some n"
| "slot_num (Ptr p) = None"

text \<open>Whether a register holds the position \<open>cp\<close>.\<close>

fun slot_is :: "slot \<Rightarrow> nat \<Rightarrow> bool option" where
  "slot_is Null cp = Some False"
| "slot_is (Ptr p) cp = Some (p = cp)"
| "slot_is (Num n) cp = None"

definition instr_loop :: "re_env \<Rightarrow> slot list \<Rightarrow> int \<Rightarrow> nat \<Rightarrow> effects" where
  "instr_loop e capture pc cp =
     register e pc (\<lambda>idx. fetch get_u32 e (pc + 1) (\<lambda>val. let pc = pc + 5 in
       need Bad_slot (Option.bind (rd capture idx) slot_num) (\<lambda>k. let val2 = k - 1 in
         Save_check idx (Num val2)
           (if val2 \<noteq> 0 then Poll (Next (pc + sint val) cp) else Next pc cp))))"

definition instr_loop_split :: "re_env \<Rightarrow> bool \<Rightarrow> bool \<Rightarrow> slot list \<Rightarrow> int \<Rightarrow> nat \<Rightarrow> effects" where
  "instr_loop_split e check_adv next_first capture pc cp =
     register e pc (\<lambda>idx. fetch get_u32 e (pc + 1) (\<lambda>limit. fetch get_u32 e (pc + 5) (\<lambda>val.
       let pc = pc + 9 in
       need Bad_slot (Option.bind (rd capture idx) slot_num) (\<lambda>k. let val2 = k - 1 in
         Save_check idx (Num val2)
           (if val2 > limit then Poll (Next (pc + sint val) cp)
            else need Bad_slot (if check_adv then Option.bind (rd capture (idx + 1)) (\<lambda>s. slot_is s cp)
                else Some False) (\<lambda>same.
              if same \<and> val2 \<noteq> limit then No_match
              else if val2 \<noteq> 0 then
                (if next_first then Push Split (pc + sint val) cp (Next pc cp)
                 else Push Split pc cp (Next (pc + sint val) cp))
              else Next pc cp))))))"

definition instr_set_char_pos :: "re_env \<Rightarrow> int \<Rightarrow> nat \<Rightarrow> effects" where
  "instr_set_char_pos e pc cp = register e pc (\<lambda>idx. Save_check idx (Ptr cp) (Next (pc + 1) cp))"

definition instr_check_advance :: "re_env \<Rightarrow> slot list \<Rightarrow> int \<Rightarrow> nat \<Rightarrow> effects" where
  "instr_check_advance e capture pc cp =
     register e pc (\<lambda>idx. need Bad_slot (Option.bind (rd capture idx) (\<lambda>s. slot_is s cp)) (\<lambda>same.
       if same then No_match else Next (pc + 1) cp))"

section \<open>Back references\<close>

lemma get_char_less: "get_char e p p_end = Some (c, q) \<Longrightarrow> p < q"
  by (auto simp: get_char_def bind_Some_iff Let_def split: if_splits)

lemma unit_before_less: "unit_before t p = Some (c, q) \<Longrightarrow> q < p"
  by (auto simp: unit_before_def bind_Some_iff split: if_splits)

lemma get_prev_char_less: "get_prev_char e p p_start = Some (c, q) \<Longrightarrow> q < p"
  by (auto simp: get_prev_char_def bind_Some_iff dest!: unit_before_less split: if_splits)

function back_ref_forward :: "re_env \<Rightarrow> bool \<Rightarrow> int \<Rightarrow> nat \<Rightarrow> nat \<Rightarrow> nat \<Rightarrow> effects" where
  "back_ref_forward e ic pc p1 p1_end cp =
     (if p1 < p1_end then
        if cp \<ge> cbuf_end e then No_match
        else need Bad_text (get_char e p1 p1_end) (\<lambda>(c1, p1').
          need Bad_text (get_char e cp (cbuf_end e)) (\<lambda>(c2, cp).
          need Bad_table (fold_case e ic c1) (\<lambda>c1. need Bad_table (fold_case e ic c2) (\<lambda>c2.
            if c1 \<noteq> c2 then No_match else back_ref_forward e ic pc p1' p1_end cp))))
      else Next pc cp)"
  by pat_completeness auto
termination
  by (relation "measure (\<lambda>(e, ic, pc, p1, p1_end, cp). p1_end - p1)") (auto dest: get_char_less)

function back_ref_backward :: "re_env \<Rightarrow> bool \<Rightarrow> int \<Rightarrow> nat \<Rightarrow> nat \<Rightarrow> nat \<Rightarrow> effects" where
  "back_ref_backward e ic pc p1 p1_start cp =
     (if p1 > p1_start then
        if cp = 0 then No_match
        else need Bad_text (get_prev_char e p1 p1_start) (\<lambda>(c1, p1').
          need Bad_text (get_prev_char e cp 0) (\<lambda>(c2, cp).
          need Bad_table (fold_case e ic c1) (\<lambda>c1. need Bad_table (fold_case e ic c2) (\<lambda>c2.
            if c1 \<noteq> c2 then No_match else back_ref_backward e ic pc p1' p1_start cp))))
      else Next pc cp)"
  by pat_completeness auto
termination
  by (relation "measure (\<lambda>(e, ic, pc, p1, p1_start, cp). p1 - p1_start)") (auto dest: get_prev_char_less)

declare back_ref_forward.simps [simp del] back_ref_backward.simps [simp del]

text \<open>The group numbers of the instruction are tried in turn; the first group that took part in the
  match is compared.\<close>

fun back_ref_groups ::
  "re_env \<Rightarrow> bool \<Rightarrow> bool \<Rightarrow> slot list \<Rightarrow> int \<Rightarrow> nat \<Rightarrow> int \<Rightarrow> nat \<Rightarrow> effects" where
  "back_ref_groups e backward ic capture pc1 0 pc cp = Next pc cp"
| "back_ref_groups e backward ic capture pc1 (Suc n) pc cp =
     fetch get_u8 e pc1 (\<lambda>val.
       if unat val \<ge> capture_count e then No_match
       else need Bad_slot (rd capture (2 * unat val)) (\<lambda>s.
         need Bad_slot (rd capture (2 * unat val + 1)) (\<lambda>t.
           if s = Null \<or> t = Null then back_ref_groups e backward ic capture (pc1 + 1) n pc cp
           else case (s, t) of
             (Ptr p_start, Ptr p_end) \<Rightarrow>
               if backward then back_ref_backward e ic pc p_end p_start cp
               else back_ref_forward e ic pc p_start p_end cp
           | _ \<Rightarrow> Undefined Bad_slot)))"

definition instr_back_reference :: "re_env \<Rightarrow> bool \<Rightarrow> bool \<Rightarrow> slot list \<Rightarrow> int \<Rightarrow> nat \<Rightarrow> effects" where
  "instr_back_reference e backward ic capture pc cp =
     fetch get_u8 e pc (\<lambda>n.
       back_ref_groups e backward ic capture (pc + 1) (unat n) (pc + 1 + uint n) cp)"

section \<open>The instructions\<close>

fun instr_op :: "re_env \<Rightarrow> slot list \<Rightarrow> re_op \<Rightarrow> int \<Rightarrow> nat \<Rightarrow> effects" where
  "instr_op e capture REOP_match pc cp = Matched"
| "instr_op e capture REOP_lookahead_match pc cp = Lookahead_matched"
| "instr_op e capture REOP_negative_lookahead_match pc cp = Negative_lookahead_matched"
| "instr_op e capture REOP_char32 pc cp = instr_char32 e False pc cp"
| "instr_op e capture REOP_char32_i pc cp = instr_char32 e True pc cp"
| "instr_op e capture REOP_char pc cp = instr_char e False pc cp"
| "instr_op e capture REOP_char_i pc cp = instr_char e True pc cp"
| "instr_op e capture REOP_split_goto_first pc cp = instr_split e False pc cp"
| "instr_op e capture REOP_split_next_first pc cp = instr_split e True pc cp"
| "instr_op e capture REOP_lookahead pc cp = instr_lookahead e Lookahead pc cp"
| "instr_op e capture REOP_negative_lookahead pc cp = instr_lookahead e Negative_lookahead pc cp"
| "instr_op e capture REOP_goto pc cp = instr_goto e pc cp"
| "instr_op e capture REOP_line_start pc cp = instr_line_start e False pc cp"
| "instr_op e capture REOP_line_start_m pc cp = instr_line_start e True pc cp"
| "instr_op e capture REOP_line_end pc cp = instr_line_end e False pc cp"
| "instr_op e capture REOP_line_end_m pc cp = instr_line_end e True pc cp"
| "instr_op e capture REOP_dot pc cp = instr_class e (\<lambda>c. \<not> is_line_terminator c) pc cp"
| "instr_op e capture REOP_any pc cp = instr_class e (\<lambda>c. True) pc cp"
| "instr_op e capture REOP_space pc cp = instr_class e lre_is_space pc cp"
| "instr_op e capture REOP_not_space pc cp = instr_class e (\<lambda>c. \<not> lre_is_space c) pc cp"
| "instr_op e capture REOP_save_start pc cp = instr_save e 0 pc cp"
| "instr_op e capture REOP_save_end pc cp = instr_save e 1 pc cp"
| "instr_op e capture REOP_save_reset pc cp = instr_save_reset e pc cp"
| "instr_op e capture REOP_set_i32 pc cp = instr_set_i32 e pc cp"
| "instr_op e capture REOP_loop pc cp = instr_loop e capture pc cp"
| "instr_op e capture REOP_loop_split_goto_first pc cp = instr_loop_split e False False capture pc cp"
| "instr_op e capture REOP_loop_split_next_first pc cp = instr_loop_split e False True capture pc cp"
| "instr_op e capture REOP_loop_check_adv_split_goto_first pc cp = instr_loop_split e True False capture pc cp"
| "instr_op e capture REOP_loop_check_adv_split_next_first pc cp = instr_loop_split e True True capture pc cp"
| "instr_op e capture REOP_set_char_pos pc cp = instr_set_char_pos e pc cp"
| "instr_op e capture REOP_check_advance pc cp = instr_check_advance e capture pc cp"
| "instr_op e capture REOP_word_boundary pc cp = instr_word_boundary e False True pc cp"
| "instr_op e capture REOP_word_boundary_i pc cp = instr_word_boundary e True True pc cp"
| "instr_op e capture REOP_not_word_boundary pc cp = instr_word_boundary e False False pc cp"
| "instr_op e capture REOP_not_word_boundary_i pc cp = instr_word_boundary e True False pc cp"
| "instr_op e capture REOP_back_reference pc cp = instr_back_reference e False False capture pc cp"
| "instr_op e capture REOP_back_reference_i pc cp = instr_back_reference e False True capture pc cp"
| "instr_op e capture REOP_backward_back_reference pc cp = instr_back_reference e True False capture pc cp"
| "instr_op e capture REOP_backward_back_reference_i pc cp = instr_back_reference e True True capture pc cp"
| "instr_op e capture REOP_range pc cp = instr_range e False pc cp"
| "instr_op e capture REOP_range_i pc cp = instr_range e True pc cp"
| "instr_op e capture REOP_range32 pc cp = instr_range32 e False pc cp"
| "instr_op e capture REOP_range32_i pc cp = instr_range32 e True pc cp"
| "instr_op e capture REOP_prev pc cp = instr_prev e pc cp"
| "instr_op e capture REOP_invalid pc cp = Undefined Aborted"

definition instr :: "re_env \<Rightarrow> slot list \<Rightarrow> int \<Rightarrow> nat \<Rightarrow> effects" where
  "instr e capture pc cp =
     fetch get_u8 e pc (\<lambda>opcode.
       case op_of opcode of None \<Rightarrow> Undefined Aborted | Some op \<Rightarrow> instr_op e capture op (pc + 1) cp)"

end
