(* ===== verification/ReExec.thy ===== *)
theory ReExec
  imports ReInstr
begin

text \<open>
  The matcher of \<^verbatim>\<open>quickjs/libregexp.c\<close>: the stack of saved states, the undo log of the capture
  array, \<open>lre_exec_backtrack\<close> and \<open>lre_exec\<close>. The functions that the embedding program provides,
  \<open>lre_check_timeout\<close> and \<open>lre_realloc\<close>, are parameters: the first answers whether to stop, the
  second whether it grants a block of the given size, and both may change the state of the
  embedding program. A block that is granted keeps the contents of the old one.
\<close>

section \<open>The state of the matcher\<close>

record 'o re_host =
  check_timeout :: "'o \<Rightarrow> bool \<times> 'o"
  realloc :: "'o \<Rightarrow> nat \<Rightarrow> bool \<times> 'o"

text \<open>The elements of the stack: the three fields of a saved state, the two of a saved capture, and the
  stack pointers that \<open>REOP_lookahead_match\<close> leaves for its copy step.\<close>

datatype stack_elem = Pc int | Cp nat | Bp nat exec_state | Idx nat | Saved slot | Sp nat

text \<open>The fields of REExecContext that change and the local variables of the matcher. \<open>stk\<close> is the stack
  up to the stack pointer, which is its length; \<open>on_heap\<close> tells whether it has left the static buffer.\<close>

record 'o re_ctx =
  stk :: "stack_elem list"
  bp :: nat
  capture :: "slot list"
  stack_size :: nat
  on_heap :: bool
  interrupt_counter :: int
  opaque :: 'o

datatype 'o outcome = Run int nat "'o re_ctx" | Ret int "'o re_ctx" | Undef undefined_cause

abbreviation "LRE_RET_MEMORY_ERROR \<equiv> - 1 :: int"
abbreviation "LRE_RET_TIMEOUT \<equiv> - 2 :: int"
abbreviation "LRE_RET_BYTECODE_ERROR \<equiv> - 3 :: int"

definition INTERRUPT_COUNTER_INIT :: int where "INTERRUPT_COUNTER_INIT = 10000"

text \<open>Whether the time is over.\<close>

definition lre_poll_timeout :: "'o re_host \<Rightarrow> 'o re_ctx \<Rightarrow> bool \<times> 'o re_ctx" where
  "lre_poll_timeout H s =
     (let counter = interrupt_counter s - 1 in
      if counter \<le> 0 then
        let (stop, a) = check_timeout H (opaque s)
        in (stop, s\<lparr>interrupt_counter := INTERRUPT_COUNTER_INIT, opaque := a\<rparr>)
      else (False, s\<lparr>interrupt_counter := counter\<rparr>))"

text \<open>Whether the stack could be enlarged.\<close>

definition stack_realloc :: "'o re_host \<Rightarrow> nat \<Rightarrow> 'o re_ctx \<Rightarrow> bool \<times> 'o re_ctx" where
  "stack_realloc H n s =
     (let new_size = stack_size s * 3 div 2;
          new_size = (if new_size < n then n else new_size);
          (ok, a) = realloc H (opaque s) (new_size * 8)
      in if ok then (True, s\<lparr>stack_size := new_size, on_heap := True, opaque := a\<rparr>)
         else (False, s\<lparr>opaque := a\<rparr>))"

definition check_stack_space :: "'o re_host \<Rightarrow> nat \<Rightarrow> 'o re_ctx \<Rightarrow> bool \<times> 'o re_ctx" where
  "check_stack_space H n s =
     (if stack_size s < length (stk s) + n then stack_realloc H (length (stk s) + n) s else (True, s))"

section \<open>Saved captures and saved states\<close>

text \<open>The search of SAVE_CAPTURE_CHECK for an entry of \<open>idx\<close> above \<open>bp\<close>, downwards from \<open>sp1\<close>.\<close>

fun already_saved :: "stack_elem list \<Rightarrow> nat \<Rightarrow> nat \<Rightarrow> nat \<Rightarrow> bool option" where
  "already_saved stack base idx sp1 =
     (if sp1 > base then
        if sp1 < 2 then None
        else case rd stack (sp1 - 2) of
               Some (Idx j) \<Rightarrow> if j = idx then Some True else already_saved stack base idx (sp1 - 2)
             | _ \<Rightarrow> None
      else Some False)"

declare already_saved.simps [simp del]

text \<open>The loop that undoes the modifications of the capture array above \<open>bp\<close>.\<close>

function undo_captures :: "stack_elem list \<Rightarrow> nat \<Rightarrow> slot list \<Rightarrow> (stack_elem list \<times> slot list) option" where
  "undo_captures stack base caps =
     (if length stack > base then
        case (rd stack (length stack - 2), rd stack (length stack - 1)) of
          (Some (Idx idx), Some (Saved v)) \<Rightarrow> do {
            caps \<leftarrow> wr caps idx v;
            undo_captures (take (length stack - 2) stack) base caps }
        | _ \<Rightarrow> None
      else Some (stack, caps))"
  by pat_completeness auto
termination by (relation "measure (\<lambda>(stack, base, caps). length stack)") auto

declare undo_captures.simps [simp del]

text \<open>The saved state below the stack pointer: program counter, character, kind, previous \<open>bp\<close>.\<close>

definition top_state :: "stack_elem list \<Rightarrow> nat \<Rightarrow> (int \<times> nat \<times> exec_state \<times> nat) option" where
  "top_state stack sp =
     (if sp < 3 then None
      else case (rd stack (sp - 3), rd stack (sp - 2), rd stack (sp - 1)) of
             (Some (Pc pc), Some (Cp cp), Some (Bp b st)) \<Rightarrow> Some (pc, cp, st, b)
           | _ \<Rightarrow> None)"

lemma undo_captures_cases:
  assumes "undo_captures stack base caps = Some (stack', caps')"
  obtains (stop) "length stack \<le> base" "stack' = stack" "caps' = caps"
  | (undo) idx v where "base < length stack" "rd stack (length stack - 2) = Some (Idx idx)"
      "rd stack (length stack - 1) = Some (Saved v)" "idx < length caps"
      "undo_captures (take (length stack - 2) stack) base (caps[idx := v]) = Some (stack', caps')"
proof (cases "base < length stack")
  case True
  then show thesis
    using assms undo unfolding undo_captures.simps [of stack base caps]
    by (simp add: bind_Some_iff split: option.splits stack_elem.splits)
next
  case False
  then have "undo_captures stack base caps = Some (stack, caps)"
    by (subst undo_captures.simps) simp
  then show thesis using assms False by (intro stop) simp_all
qed

lemma undo_captures_length: "undo_captures stack base caps = Some (stack', caps') \<Longrightarrow> length stack' \<le> length stack"
proof (induction "length stack" arbitrary: stack caps rule: less_induct)
  case less
  from less.prems show ?case
  proof (cases rule: undo_captures_cases)
    case (undo idx v)
    then have "length stack' \<le> length (take (length stack - 2) stack)" by (intro less.hyps) auto
    then show ?thesis by simp
  qed simp
qed

text \<open>The loop at the label \<open>no_match\<close>: no saved state is left, or the one to resume.\<close>

datatype resumed = No_state "stack_elem list" "slot list" | Resume int nat "stack_elem list" nat "slot list"

function pop_states :: "stack_elem list \<Rightarrow> nat \<Rightarrow> slot list \<Rightarrow> resumed option" where
  "pop_states stack base caps =
     (if base = 0 then Some (No_state stack caps)
      else case undo_captures stack base caps of None \<Rightarrow> None
      | Some (stack', caps') \<Rightarrow>
          case top_state stack' (length stack') of None \<Rightarrow> None
          | Some (pc, cp, st, b) \<Rightarrow>
              if st \<noteq> Lookahead then Some (Resume pc cp (take (length stack' - 3) stack') b caps')
              else pop_states (take (length stack' - 3) stack') b caps')"
  by pat_completeness auto
termination
  by (relation "measure (\<lambda>(stack, base, caps). length stack)")
     (auto simp: top_state_def dest!: undo_captures_length split: if_splits)

declare pop_states.simps [simp del]

definition no_match :: "'o re_host \<Rightarrow> 'o re_ctx \<Rightarrow> 'o outcome" where
  "no_match H s =
     (case pop_states (stk s) (bp s) (capture s) of
        None \<Rightarrow> Undef Bad_stack
      | Some (No_state stack cap) \<Rightarrow> Ret 0 (s\<lparr>stk := stack, bp := 0, capture := cap\<rparr>)
      | Some (Resume pc cp stack b cap) \<Rightarrow>
          let (stop, s) = lre_poll_timeout H (s\<lparr>stk := stack, bp := b, capture := cap\<rparr>)
          in if stop then Ret LRE_RET_TIMEOUT s else Run pc cp s)"

text \<open>\<open>REOP_negative_lookahead_match\<close>: back to the start of the negative lookahead.\<close>

function pop_negative :: "stack_elem list \<Rightarrow> nat \<Rightarrow> slot list \<Rightarrow> (stack_elem list \<times> nat \<times> slot list) option" where
  "pop_negative stack base caps =
     (case undo_captures stack base caps of None \<Rightarrow> None
      | Some (stack', caps') \<Rightarrow>
          case top_state stack' (length stack') of None \<Rightarrow> None
          | Some (pc, cp, st, b) \<Rightarrow>
              if st = Negative_lookahead then Some (take (length stack' - 3) stack', b, caps')
              else pop_negative (take (length stack' - 3) stack') b caps')"
  by pat_completeness auto
termination
  by (relation "measure (\<lambda>(stack, base, caps). length stack)")
     (auto simp: top_state_def dest!: undo_captures_length split: if_splits)

declare pop_negative.simps [simp del]

definition negative_lookahead_match :: "'o re_host \<Rightarrow> 'o re_ctx \<Rightarrow> 'o outcome" where
  "negative_lookahead_match H s =
     (case pop_negative (stk s) (bp s) (capture s) of
        None \<Rightarrow> Undef Bad_stack
      | Some (stack, b, cap) \<Rightarrow> no_match H (s\<lparr>stk := stack, bp := b, capture := cap\<rparr>))"

section \<open>The end of a lookahead\<close>

fun is_bp :: "stack_elem \<Rightarrow> bool" where
  "is_bp (Bp b st) = True"
| "is_bp _ = False"

lemma fewer_bp:
  "i < length xs \<Longrightarrow> xs ! i = Bp b st \<Longrightarrow> length (filter is_bp (xs[i := Sp sp])) < length (filter is_bp xs)"
  by (subst (2) id_take_nth_drop [of i xs]) (auto simp: upd_conv_take_nth_drop)

text \<open>The first loop of \<open>REOP_lookahead_match\<close>, from the stack pointer \<open>sp\<close>: the saved states are dropped
  down to the one of the lookahead, each with the old stack pointer stored in it.\<close>

function drop_states :: "stack_elem list \<Rightarrow> nat \<Rightarrow> nat \<Rightarrow> (int \<times> nat \<times> stack_elem list \<times> nat \<times> nat) option" where
  "drop_states stack sp base =
     (case top_state stack base of None \<Rightarrow> None
      | Some (pc, cp, st, b) \<Rightarrow>
          let stack' = stack[base - 1 := Sp sp] in
          if st = Lookahead then Some (pc, cp, stack', base - 3, b)
          else drop_states stack' (base - 3) b)"
  by pat_completeness auto

termination
  by (relation "measure (\<lambda>(stack, sp, base). length (filter is_bp stack))")
     (auto simp: top_state_def intro!: fewer_bp split: if_splits option.splits stack_elem.splits)

declare drop_states.simps [simp del]

text \<open>The copy step: the saved captures of the dropped states move down to \<open>sp\<close>.\<close>

function copy_run :: "stack_elem list \<Rightarrow> nat \<Rightarrow> nat \<Rightarrow> nat \<Rightarrow> (stack_elem list \<times> nat \<times> nat) option" where
  "copy_run stack sp sp1 next_sp =
     (if sp1 < next_sp then do {
        x \<leftarrow> rd stack sp1; stack \<leftarrow> wr stack sp x; copy_run stack (sp + 1) (sp1 + 1) next_sp }
      else Some (stack, sp, sp1))"
  by pat_completeness auto
termination by (relation "measure (\<lambda>(stack, sp, sp1, next_sp). next_sp - sp1)") auto

declare copy_run.simps [simp del]

lemma copy_run_mono: "copy_run stack sp sp1 next_sp = Some (stack', sp', sp1') \<Longrightarrow> sp1 \<le> sp1'"
proof (induction stack sp sp1 next_sp rule: copy_run.induct)
  case (1 stack sp sp1 next_sp)
  show ?case
  proof (cases "sp1 < next_sp")
    case True
    then obtain x stack1 where x: "rd stack sp1 = Some x" "wr stack sp x = Some stack1"
      "copy_run stack1 (sp + 1) (sp1 + 1) next_sp = Some (stack', sp', sp1')"
      using 1(2) unfolding copy_run.simps [of stack sp] by (simp add: bind_Some_iff)
    then show ?thesis using 1(1) [OF True x] by simp
  next
    case False
    then show ?thesis using 1(2) unfolding copy_run.simps [of stack sp] by simp
  qed
qed

function copy_undo :: "stack_elem list \<Rightarrow> nat \<Rightarrow> nat \<Rightarrow> nat \<Rightarrow> (stack_elem list \<times> nat) option" where
  "copy_undo stack sp sp1 sp_top =
     (if sp1 < sp_top then
        case rd stack (sp1 + 2) of
          Some (Sp next_sp) \<Rightarrow>
            (case copy_run stack sp (sp1 + 3) next_sp of None \<Rightarrow> None
             | Some (stack', sp', sp1') \<Rightarrow> copy_undo stack' sp' sp1' sp_top)
        | _ \<Rightarrow> None
      else Some (stack, sp))"
  by pat_completeness auto
termination
  by (relation "measure (\<lambda>(stack, sp, sp1, sp_top). sp_top - sp1)") (auto dest!: copy_run_mono)

declare copy_undo.simps [simp del]

definition lookahead_match :: "'o re_ctx \<Rightarrow> 'o outcome" where
  "lookahead_match s =
     (case drop_states (stk s) (length (stk s)) (bp s) of None \<Rightarrow> Undef Bad_stack
      | Some (pc, cp, stack, sp, b) \<Rightarrow>
          if sp \<noteq> 0 then
            case copy_undo stack sp sp (length (stk s)) of None \<Rightarrow> Undef Bad_stack
            | Some (stack, sp) \<Rightarrow> Run pc cp (s\<lparr>stk := take sp stack, bp := b\<rparr>)
          else Run pc cp (s\<lparr>stk := [], bp := b\<rparr>))"

section \<open>The main loop\<close>

fun perform :: "'o re_host \<Rightarrow> effects \<Rightarrow> 'o re_ctx \<Rightarrow> 'o outcome" where
  "perform H (Next pc cp) s = Run pc cp s"
| "perform H Matched s = Ret 1 s"
| "perform H No_match s = no_match H s"
| "perform H Lookahead_matched s = lookahead_match s"
| "perform H Negative_lookahead_matched s = negative_lookahead_match H s"
| "perform H Bytecode_error s = Ret LRE_RET_BYTECODE_ERROR s"
| "perform H (Undefined u) s = Undef u"
| "perform H (Poll k) s =
     (let (stop, s) = lre_poll_timeout H s in if stop then Ret LRE_RET_TIMEOUT s else perform H k s)"
| "perform H (Check_stack n k) s =
     (let (ok, s) = check_stack_space H n s in if ok then perform H k s else Ret LRE_RET_MEMORY_ERROR s)"
| "perform H (Save idx v k) s =
     (let (ok, s) = check_stack_space H 2 s in
      if \<not> ok then Ret LRE_RET_MEMORY_ERROR s
      else case rd (capture s) idx of None \<Rightarrow> Undef Bad_slot
      | Some old \<Rightarrow>
          perform H k (s\<lparr>stk := stk s @ [Idx idx, Saved old], capture := (capture s)[idx := v]\<rparr>))"
| "perform H (Save_check idx v k) s =
     (case already_saved (stk s) (bp s) idx (length (stk s)) of None \<Rightarrow> Undef Bad_stack
      | Some True \<Rightarrow>
          (case wr (capture s) idx v of None \<Rightarrow> Undef Bad_slot
           | Some cap \<Rightarrow> perform H k (s\<lparr>capture := cap\<rparr>))
      | Some False \<Rightarrow>
          let (ok, s) = check_stack_space H 2 s in
          if \<not> ok then Ret LRE_RET_MEMORY_ERROR s
          else case rd (capture s) idx of None \<Rightarrow> Undef Bad_slot
          | Some old \<Rightarrow>
              perform H k (s\<lparr>stk := stk s @ [Idx idx, Saved old], capture := (capture s)[idx := v]\<rparr>))"
| "perform H (Push st pc1 cp k) s =
     (let (ok, s) = check_stack_space H 3 s in
      if \<not> ok then Ret LRE_RET_MEMORY_ERROR s
      else perform H k (s\<lparr>stk := stk s @ [Pc pc1, Cp cp, Bp (bp s) st], bp := length (stk s) + 3\<rparr>))"

definition step :: "'o re_host \<Rightarrow> re_env \<Rightarrow> int \<Rightarrow> nat \<Rightarrow> 'o re_ctx \<Rightarrow> 'o outcome" where
  "step H e pc cp s = perform H (instr e (capture s) pc cp) s"

text \<open>The result \<open>None\<close> is a loop that does not end.\<close>

partial_function (option) exec_loop ::
  "'o re_host \<Rightarrow> re_env \<Rightarrow> int \<Rightarrow> nat \<Rightarrow> 'o re_ctx \<Rightarrow> 'o outcome option" where
  "exec_loop H e pc cp s =
     (case step H e pc cp s of Run pc cp s \<Rightarrow> exec_loop H e pc cp s | r \<Rightarrow> Some r)"

declare exec_loop.simps [code]

definition start_ctx :: "slot list \<Rightarrow> 'o \<Rightarrow> 'o re_ctx" where
  "start_ctx caps a = \<lparr>stk = [], bp = 0, capture = caps, stack_size = 32, on_heap = False,
     interrupt_counter = INTERRUPT_COUNTER_INIT, opaque = a\<rparr>"

definition lre_exec_backtrack ::
  "'o re_host \<Rightarrow> re_env \<Rightarrow> slot list \<Rightarrow> 'o \<Rightarrow> int \<Rightarrow> nat \<Rightarrow> 'o outcome option" where
  "lre_exec_backtrack H e caps a pc cp = exec_loop H e pc cp (start_ctx caps a)"

text \<open>The states that the main loop goes through.\<close>

inductive reachable ::
  "'o re_host \<Rightarrow> re_env \<Rightarrow> int \<Rightarrow> nat \<Rightarrow> 'o re_ctx \<Rightarrow> int \<Rightarrow> nat \<Rightarrow> 'o re_ctx \<Rightarrow> bool"
  for H e pc0 cp0 s0 where
  start: "reachable H e pc0 cp0 s0 pc0 cp0 s0"
| next_step: "reachable H e pc0 cp0 s0 pc cp s \<Longrightarrow> step H e pc cp s = Run pc' cp' s' \<Longrightarrow>
    reachable H e pc0 cp0 s0 pc' cp' s'"

section \<open>The entry point and the header of the byte code\<close>

definition lre_get_flags :: "u8 list \<Rightarrow> u32 option" where "lre_get_flags bc = get_u16 bc 0"
definition lre_get_capture_count :: "u8 list \<Rightarrow> u32 option" where "lre_get_capture_count bc = get_u8 bc 2"

definition lre_get_alloc_count :: "u8 list \<Rightarrow> u32 option" where
  "lre_get_alloc_count bc = do { c \<leftarrow> get_u8 bc 2; r \<leftarrow> get_u8 bc 3; Some (c * 2 + r) }"

definition lre_check_bytecode :: "u8 list \<Rightarrow> int option" where
  "lre_check_bytecode bc =
     (if length bc < 8 then Some (- 1)
      else do { n \<leftarrow> get_u32 bc 4; Some (if unat n > length bc - 8 then - 1 else 0) })"

definition re_env_of :: "u8 list \<Rightarrow> subject \<Rightarrow> re_env option" where
  "re_env_of bc t = do {
     flags \<leftarrow> lre_get_flags bc;
     let unicode = flags AND (push_bit 4 1 OR push_bit 8 1) \<noteq> 0;
     n \<leftarrow> get_u8 bc 2;
     let ty = (case t of Bytes8 _ \<Rightarrow> 0 | Units16 _ \<Rightarrow> if unicode then 2 else 1);
     Some \<lparr>bc_buf = bc, cbuf = t, cbuf_type = ty, capture_count = unat n, is_unicode = unicode\<rparr> }"

text \<open>The start of the match; in UTF-16 the middle of a surrogate pair is moved back to its start.\<close>

definition start_pos :: "re_env \<Rightarrow> nat \<Rightarrow> nat option" where
  "start_pos e cindex =
     (if 0 < cindex \<and> cindex < cbuf_end e \<and> cbuf_type e = 2 then do {
        c \<leftarrow> unit_at (cbuf e) cindex;
        d \<leftarrow> unit_at (cbuf e) (cindex - 1);
        Some (if is_lo_surrogate c \<and> is_hi_surrogate d then cindex - 1 else cindex) }
      else Some cindex)"

text \<open>\<open>lre_exec\<close> for a subject of length \<open>clen\<close>: the return value, the capture array and the state of
  the embedding program, or a cause why the behaviour is undefined.\<close>

definition lre_exec ::
  "'o re_host \<Rightarrow> slot list \<Rightarrow> u8 list \<Rightarrow> subject \<Rightarrow> nat \<Rightarrow> 'o \<Rightarrow>
    (undefined_cause + int \<times> slot list \<times> 'o) option" where
  "lre_exec H caps bc t cindex a =
     (case re_env_of bc t of None \<Rightarrow> Some (Inl Bad_code)
      | Some e \<Rightarrow>
          if length caps < 2 * capture_count e then Some (Inl Bad_slot)
          else case start_pos e cindex of None \<Rightarrow> Some (Inl Bad_text)
          | Some cp \<Rightarrow>
              case lre_exec_backtrack H e
                  (replicate (2 * capture_count e) Null @ drop (2 * capture_count e) caps) a 8 cp of
                None \<Rightarrow> None
              | Some (Ret r s) \<Rightarrow>
                  Some (Inr (r, capture s, if on_heap s then snd (realloc H (opaque s) 0) else opaque s))
              | Some (Undef u) \<Rightarrow> Some (Inl u)
              | Some (Run _ _ _) \<Rightarrow> None)"

end
