(* ===== verification/ReRefine.thy ===== *)
theory ReRefine
  imports ReExec
begin

text \<open>
  The specification of the matcher is a machine in which every saved state holds a copy of the
  capture array. The undo log of the C code, with its duplicate check, and the copy step at the
  end of a lookahead implement these copies: the two machines run in step.
\<close>

section \<open>The machine with snapshots\<close>

type_synonym choice = "int \<times> nat \<times> exec_state \<times> slot list"

datatype snapshot_outcome =
    SRun int nat "slot list" "choice list" | SRet int "slot list" | SUndef undefined_cause

fun spec_fail :: "choice list \<Rightarrow> slot list \<Rightarrow> snapshot_outcome" where
  "spec_fail [] caps = SRet 0 caps"
| "spec_fail ((pc, cp, st, snap) # cs) caps = (if st = Lookahead then spec_fail cs snap else SRun pc cp snap cs)"

fun spec_lookahead :: "choice list \<Rightarrow> slot list \<Rightarrow> snapshot_outcome" where
  "spec_lookahead [] caps = SUndef Bad_stack"
| "spec_lookahead ((pc, cp, st, snap) # cs) caps =
     (if st = Lookahead then SRun pc cp caps cs else spec_lookahead cs caps)"

fun spec_negative :: "choice list \<Rightarrow> snapshot_outcome" where
  "spec_negative [] = SUndef Bad_stack"
| "spec_negative ((pc, cp, st, snap) # cs) =
     (if st = Negative_lookahead then spec_fail cs snap else spec_negative cs)"

fun spec_perform :: "effects \<Rightarrow> slot list \<Rightarrow> choice list \<Rightarrow> snapshot_outcome" where
  "spec_perform (Next pc cp) caps cs = SRun pc cp caps cs"
| "spec_perform Matched caps cs = SRet 1 caps"
| "spec_perform No_match caps cs = spec_fail cs caps"
| "spec_perform Lookahead_matched caps cs = spec_lookahead cs caps"
| "spec_perform Negative_lookahead_matched caps cs = spec_negative cs"
| "spec_perform Bytecode_error caps cs = SRet LRE_RET_BYTECODE_ERROR caps"
| "spec_perform (Undefined u) caps cs = SUndef u"
| "spec_perform (Poll k) caps cs = spec_perform k caps cs"
| "spec_perform (Check_stack n k) caps cs = spec_perform k caps cs"
| "spec_perform (Save idx v k) caps cs =
     (case wr caps idx v of None \<Rightarrow> SUndef Bad_slot | Some caps \<Rightarrow> spec_perform k caps cs)"
| "spec_perform (Save_check idx v k) caps cs =
     (case wr caps idx v of None \<Rightarrow> SUndef Bad_slot | Some caps \<Rightarrow> spec_perform k caps cs)"
| "spec_perform (Push st pc1 cp k) caps cs = spec_perform k caps ((pc1, cp, st, caps) # cs)"

definition spec_step :: "re_env \<Rightarrow> int \<Rightarrow> nat \<Rightarrow> slot list \<Rightarrow> choice list \<Rightarrow> snapshot_outcome" where
  "spec_step e pc cp caps cs = spec_perform (instr e caps pc cp) caps cs"

partial_function (option) spec_loop ::
  "re_env \<Rightarrow> int \<Rightarrow> nat \<Rightarrow> slot list \<Rightarrow> choice list \<Rightarrow> snapshot_outcome option" where
  "spec_loop e pc cp caps cs =
     (case spec_step e pc cp caps cs of SRun pc cp caps cs \<Rightarrow> spec_loop e pc cp caps cs | r \<Rightarrow> Some r)"

definition snapshot_exec ::
  "slot list \<Rightarrow> u8 list \<Rightarrow> subject \<Rightarrow> nat \<Rightarrow> (undefined_cause + int \<times> slot list) option" where
  "snapshot_exec caps bc t cindex =
     (case re_env_of bc t of None \<Rightarrow> Some (Inl Bad_code)
      | Some e \<Rightarrow>
          if length caps < 2 * capture_count e then Some (Inl Bad_slot)
          else case start_pos e cindex of None \<Rightarrow> Some (Inl Bad_text)
          | Some cp \<Rightarrow>
              case spec_loop e 8 cp
                  (replicate (2 * capture_count e) Null @ drop (2 * capture_count e) caps) [] of
                None \<Rightarrow> None
              | Some (SRet r caps) \<Rightarrow> Some (Inr (r, caps))
              | Some (SUndef u) \<Rightarrow> Some (Inl u)
              | Some (SRun _ _ _ _) \<Rightarrow> None)"

section \<open>The stack of the code as a list of saved states\<close>

type_synonym saves = "(nat \<times> slot) list"
type_synonym frame = "int \<times> nat \<times> exec_state \<times> saves"

fun pairs :: "saves \<Rightarrow> stack_elem list" where
  "pairs [] = []"
| "pairs ((i, v) # d) = Idx i # Saved v # pairs d"

text \<open>The last frame is the first of the list; \<open>d0\<close> are the captures saved below the first frame.\<close>

fun flat :: "saves \<Rightarrow> frame list \<Rightarrow> stack_elem list" and base :: "saves \<Rightarrow> frame list \<Rightarrow> nat" where
  "flat d0 [] = pairs d0"
| "flat d0 ((pc, cp, st, d) # fs) = flat d0 fs @ [Pc pc, Cp cp, Bp (base d0 fs) st] @ pairs d"
| "base d0 [] = 0"
| "base d0 ((pc, cp, st, d) # fs) = length (flat d0 fs) + 3"

definition undo :: "saves \<Rightarrow> slot list \<Rightarrow> slot list" where
  "undo d caps = foldr (\<lambda>(i, v) c. c[i := v]) d caps"

fun choices :: "frame list \<Rightarrow> slot list \<Rightarrow> choice list" where
  "choices [] caps = []"
| "choices ((pc, cp, st, d) # fs) caps = (pc, cp, st, undo d caps) # choices fs (undo d caps)"

definition in_caps :: "slot list \<Rightarrow> saves \<Rightarrow> bool" where
  "in_caps caps d \<longleftrightarrow> list_all (\<lambda>(i, v). i < length caps) d"

definition frames_ok :: "slot list \<Rightarrow> frame list \<Rightarrow> bool" where
  "frames_ok caps fs \<longleftrightarrow> list_all (\<lambda>(pc, cp, st, d). in_caps caps d) fs"

lemma pairs_append [simp]: "pairs (d @ d') = pairs d @ pairs d'"
  by (induction d rule: pairs.induct) auto

lemma length_pairs [simp]: "length (pairs d) = 2 * length d"
  by (induction d rule: pairs.induct) auto

lemma undo_simps [simp]: "undo [] caps = caps" "undo (d @ d') caps = undo d (undo d' caps)"
  "undo [(i, v)] caps = caps[i := v]"
  by (simp_all add: undo_def)

lemma length_undo [simp]: "length (undo d caps) = length caps"
  by (induction d) (auto simp: undo_def)

lemma in_caps_simps [simp]: "in_caps caps []" "in_caps caps (d @ d') \<longleftrightarrow> in_caps caps d \<and> in_caps caps d'"
  "in_caps caps [(i, v)] \<longleftrightarrow> i < length caps" "in_caps (undo d caps) d' = in_caps caps d'"
  "in_caps (caps[i := v]) d = in_caps caps d"
  by (simp_all add: in_caps_def)

lemma frames_ok_simps [simp]: "frames_ok caps []"
  "frames_ok caps ((pc, cp, st, d) # fs) \<longleftrightarrow> in_caps caps d \<and> frames_ok caps fs"
  "frames_ok (undo d caps) fs = frames_ok caps fs" "frames_ok (caps[i := v]) fs = frames_ok caps fs"
  by (simp_all add: frames_ok_def)

lemma undo_update: "i \<in> fst ` set d \<Longrightarrow> undo d (caps[i := v]) = undo d caps"
proof (induction d arbitrary: caps rule: rev_induct)
  case (snoc x d)
  obtain j w where x: "x = (j, w)" by (cases x)
  show ?case
  proof (cases "i = j")
    case False
    then show ?thesis using snoc x list_update_swap [of i j caps v w] by simp
  qed (simp add: x)
qed simp

lemma length_flat_base: "base d0 fs \<le> length (flat d0 fs)"
  by (cases fs) auto

section \<open>Undoing\<close>

lemma undo_captures_pairs:
  "in_caps caps d \<Longrightarrow> undo_captures (A @ pairs d) (length A) caps = Some (A, undo d caps)"
proof (induction d arbitrary: caps rule: rev_induct)
  case Nil
  show ?case by (subst undo_captures.simps) simp
next
  case (snoc x d)
  obtain i v where x: "x = (i, v)" by (cases x)
  have "undo_captures (A @ pairs (d @ [x])) (length A) caps = undo_captures (A @ pairs d) (length A) (caps[i := v])"
    by (subst undo_captures.simps) (use snoc.prems in \<open>simp add: x nth_append\<close>)
  then show ?case using snoc by (simp add: x)
qed

lemma top_state_flat:
  "top_state (A @ Pc pc # Cp cp # Bp b st # R) (length A + 3) = Some (pc, cp, st, b)"
  by (simp add: top_state_def nth_append)

lemma top_state_end:
  "top_state (A @ [Pc pc, Cp cp, Bp b st]) (Suc (Suc (Suc (length A)))) = Some (pc, cp, st, b)"
  using top_state_flat [of A pc cp b st "[]"] by (simp add: numeral_3_eq_3)

lemma undo_captures_stop: "undo_captures stack b caps = Some (stack', caps') \<Longrightarrow> length stack' \<le> b"
proof (induction "length stack" arbitrary: stack caps rule: less_induct)
  case less
  from less.prems show ?case
  proof (cases rule: undo_captures_cases)
    case (undo idx v)
    then show ?thesis by (intro less.hyps [OF _ undo(5)]) auto
  qed simp
qed

text \<open>The frame that is undone first.\<close>

lemma undo_flat:
  "in_caps caps d \<Longrightarrow> undo_captures (flat d0 ((pc, cp, st, d) # fs)) (base d0 ((pc, cp, st, d) # fs)) caps =
    Some (flat d0 fs @ [Pc pc, Cp cp, Bp (base d0 fs) st], undo d caps)"
  using undo_captures_pairs [of caps d "flat d0 fs @ [Pc pc, Cp cp, Bp (base d0 fs) st]"]
  by (simp add: numeral_3_eq_3)

fun unwinds :: "resumed option \<Rightarrow> saves \<Rightarrow> nat \<Rightarrow> snapshot_outcome \<Rightarrow> bool" where
  "unwinds (Some (No_state stack caps)) d0 n r \<longleftrightarrow> r = SRet 0 caps \<and> stack = flat d0 []"
| "unwinds (Some (Resume pc cp stack b caps)) d0 n r \<longleftrightarrow>
     (\<exists>fs. r = SRun pc cp caps (choices fs caps) \<and> stack = flat d0 fs \<and> b = base d0 fs \<and> frames_ok caps fs \<and>
       length caps = n)"
| "unwinds None d0 n r \<longleftrightarrow> False"

lemma pop_states_flat:
  "frames_ok caps fs \<Longrightarrow> 
    unwinds (pop_states (flat d0 fs) (base d0 fs) caps) d0 (length caps) (spec_fail (choices fs caps) caps)"
proof (induction fs arbitrary: caps)
  case Nil
  show ?case by (subst pop_states.simps) simp
next
  case (Cons f fs)
  obtain pc cp st d where f: "f = (pc, cp, st, d)" by (cases f)
  have ok: "in_caps caps d" "frames_ok (undo d caps) fs" using Cons.prems by (auto simp: f)
  have "pop_states (flat d0 (f # fs)) (base d0 (f # fs)) caps =
      (if st \<noteq> Lookahead then Some (Resume pc cp (flat d0 fs) (base d0 fs) (undo d caps))
       else pop_states (flat d0 fs) (base d0 fs) (undo d caps))"
    unfolding f by (subst pop_states.simps) (use undo_flat [OF ok(1), of d0 pc cp st fs] in \<open>simp add: top_state_end\<close>)
  then show ?case using Cons.IH [OF ok(2)] ok(2) by (auto simp: f)
qed

lemma pop_negative_flat:
  "frames_ok caps fs \<Longrightarrow>
    (pop_negative (flat d0 fs) (base d0 fs) caps = None \<and> spec_negative (choices fs caps) = SUndef Bad_stack) \<or>
    (\<exists>fs' caps'. pop_negative (flat d0 fs) (base d0 fs) caps = Some (flat d0 fs', base d0 fs', caps') \<and>
       frames_ok caps' fs' \<and> length caps' = length caps \<and>
       spec_negative (choices fs caps) = spec_fail (choices fs' caps') caps')"
proof (induction fs arbitrary: caps)
  case Nil
  have "pop_negative (pairs d0) 0 caps = None"
  proof (cases "undo_captures (pairs d0) 0 caps")
    case None
    then show ?thesis by (subst pop_negative.simps) simp
  next
    case (Some r)
    then have "length (fst r) \<le> 0" by (cases r) (auto dest: undo_captures_stop)
    then show ?thesis using Some by (cases r; subst pop_negative.simps) (auto simp: top_state_def)
  qed
  then show ?case by simp
next
  case (Cons f fs)
  obtain pc cp st d where f: "f = (pc, cp, st, d)" by (cases f)
  have ok: "in_caps caps d" "frames_ok (undo d caps) fs" using Cons.prems by (auto simp: f)
  have e: "pop_negative (flat d0 (f # fs)) (base d0 (f # fs)) caps =
      (if st = Negative_lookahead then Some (flat d0 fs, base d0 fs, undo d caps)
       else pop_negative (flat d0 fs) (base d0 fs) (undo d caps))"
    unfolding f by (subst pop_negative.simps) (use undo_flat [OF ok(1), of d0 pc cp st fs] in \<open>simp add: top_state_end\<close>)
  show ?case
  proof (cases "st = Negative_lookahead")
    case True
    then show ?thesis using e ok(2) by (auto simp: f)
  next
    case False
    then show ?thesis using e Cons.IH [OF ok(2)] by (auto simp: f)
  qed
qed

section \<open>The end of a lookahead\<close>

text \<open>The frames above a stack of length \<open>n\<close>, lowest first, each with the end of its captures in place of
  its \<open>bp\<close>.\<close>

fun marked :: "nat \<Rightarrow> frame list \<Rightarrow> stack_elem list" where
  "marked n [] = []"
| "marked n ((pc, cp, st, d) # gs) =
     [Pc pc, Cp cp, Sp (n + 3 + 2 * length d)] @ pairs d @ marked (n + 3 + 2 * length d) gs"

fun saves_of :: "frame list \<Rightarrow> saves" where
  "saves_of [] = []"
| "saves_of ((pc, cp, st, d) # gs) = d @ saves_of gs"

lemma update_third: "n = length A \<Longrightarrow> (A @ a # b # c # T)[n + 3 - 1 := v] = A @ a # b # v # T"
  by (simp add: list_update_append eval_nat_numeral)

lemma drop_states_flat:
  "(drop_states (flat d0 fs @ marked (length (flat d0 fs)) gs) (length (flat d0 fs)) (base d0 fs) = None \<and>
      spec_lookahead (choices fs (undo (saves_of gs) caps)) caps = SUndef Bad_stack) \<or>
   (\<exists>pc cp fs' gs'. drop_states (flat d0 fs @ marked (length (flat d0 fs)) gs) (length (flat d0 fs)) (base d0 fs) =
        Some (pc, cp, flat d0 fs' @ marked (length (flat d0 fs')) gs', length (flat d0 fs'), base d0 fs') \<and>
      spec_lookahead (choices fs (undo (saves_of gs) caps)) caps =
        SRun pc cp caps (choices fs' (undo (saves_of gs') caps)) \<and>
      (frames_ok caps fs \<longrightarrow> frames_ok caps fs') \<and>
      (frames_ok caps fs \<longrightarrow> in_caps caps (saves_of gs) \<longrightarrow> in_caps caps (saves_of gs')) \<and>
      length (flat d0 fs' @ marked (length (flat d0 fs')) gs') =
        length (flat d0 fs @ marked (length (flat d0 fs)) gs) \<and>
      (\<exists>cp d. dropWhile (\<lambda>(pc, cp, st, d). st \<noteq> Lookahead) fs = (pc, cp, Lookahead, d) # fs'))"
proof (induction fs arbitrary: gs)
  case Nil
  have "drop_states S n 0 = None" for S n
    by (subst drop_states.simps) (simp add: top_state_def)
  then show ?case by simp
next
  case (Cons f fs)
  obtain pc cp st d where f: "f = (pc, cp, st, d)" by (cases f)
  define n where "n = length (flat d0 fs)"
  define T where "T = pairs d @ marked (n + 3 + 2 * length d) gs"
  have flat: "flat d0 (f # fs) @ marked (length (flat d0 (f # fs))) gs =
      flat d0 fs @ Pc pc # Cp cp # Bp (base d0 fs) st # T"
    by (simp add: f n_def T_def numeral_3_eq_3)
  have len: "length (flat d0 (f # fs)) = n + 3 + 2 * length d" by (simp add: f n_def)
  define M where "M = flat d0 fs @ Pc pc # Cp cp # Bp (base d0 fs) st # T"
  have upd: "M[n + 3 - 1 := Sp (n + 3 + 2 * length d)] = flat d0 fs @ marked n (f # gs)"
    using update_third [of n "flat d0 fs" _ _ _ T]
    by (simp only: M_def n_def f T_def marked.simps append.simps)
  have top: "top_state M (n + 3) = Some (pc, cp, st, base d0 fs)"
    unfolding M_def n_def by (rule top_state_flat)
  have b: "base d0 (f # fs) = n + 3" by (simp add: f n_def)
  have "drop_states M (n + 3 + 2 * length d) (n + 3) =
     (if st = Lookahead then Some (pc, cp, flat d0 fs @ marked n (f # gs), n, base d0 fs)
      else drop_states (flat d0 fs @ marked n (f # gs)) n (base d0 fs))"
    unfolding upd [symmetric] by (subst drop_states.simps) (simp add: top Let_def)
  then have e: "drop_states (flat d0 (f # fs) @ marked (length (flat d0 (f # fs))) gs) (length (flat d0 (f # fs)))
      (base d0 (f # fs)) =
     (if st = Lookahead then Some (pc, cp, flat d0 fs @ marked n (f # gs), n, base d0 fs)
      else drop_states (flat d0 fs @ marked n (f # gs)) n (base d0 fs))"
    unfolding flat unfolding len b M_def .
  have l: "length (flat d0 fs @ marked n (f # gs)) = length (flat d0 (f # fs) @ marked (length (flat d0 (f # fs))) gs)"
    unfolding flat by (simp add: f T_def)
  have u: "undo d (undo (saves_of gs) caps) = undo (saves_of (f # gs)) caps" by (simp add: f)
  show ?case
  proof (cases "st = Lookahead")
    case True
    show ?thesis
      by (rule disjI2, rule exI [of _ pc], rule exI [of _ cp], rule exI [of _ fs], rule exI [of _ "f # gs"])
         (use e True u l in \<open>auto simp: f n_def [symmetric]\<close>)
  next
    case False
    have s: "spec_lookahead (choices (f # fs) (undo (saves_of gs) caps)) caps =
        spec_lookahead (choices fs (undo (saves_of (f # gs)) caps)) caps"
      using False u by (simp add: f)
    have i: "frames_ok caps (f # fs) \<longrightarrow> in_caps caps (saves_of gs) \<longrightarrow> in_caps caps (saves_of (f # gs))"
      by (simp add: f)
    show ?thesis
      using Cons.IH [of "f # gs"] e s i l False unfolding n_def [symmetric] by (auto simp: f)
  qed
qed

lemma copy_run_block:
  "length P \<le> n \<Longrightarrow> length Q = n - length P \<Longrightarrow>
   \<exists>Q'. copy_run (P @ Q @ X @ Y) (length P) n (n + length X) = Some (P @ X @ Q' @ Y, length P + length X, n + length X) \<and>
     length Q' = length Q"
proof (induction X arbitrary: P Q n)
  case Nil
  then show ?case by (subst copy_run.simps) simp
next
  case (Cons x X)
  show ?case
  proof (cases Q)
    case Nil
    then have n: "n = length P" using Cons.prems by simp
    have "copy_run (P @ Q @ (x # X) @ Y) (length P) n (n + length (x # X)) =
        copy_run ((P @ [x]) @ [] @ X @ Y) (length (P @ [x])) (n + 1) (n + 1 + length X)"
      by (subst copy_run.simps) (simp add: Nil n nth_append)
    then show ?thesis using Cons.IH [of "P @ [x]" "n + 1" "[]"] Cons.prems Nil n by auto
  next
    case (Cons q Q1)
    define R where "R = Q1 @ [x]"
    define M where "M = P @ Q @ (x # X) @ Y"
    have rd: "rd M n = Some x" using \<open>length P \<le> n\<close> \<open>length Q = n - length P\<close>
      by (simp add: M_def nth_append)
    have wr: "wr M (length P) x = Some ((P @ [x]) @ R @ X @ Y)"
      by (simp add: M_def Cons R_def)
    have "copy_run M (length P) n (n + length (x # X)) =
        copy_run ((P @ [x]) @ R @ X @ Y) (length P + 1) (n + 1) (n + length (x # X))"
      by (subst copy_run.simps) (simp add: rd wr del: append.simps append_assoc)
    then have "copy_run (P @ Q @ (x # X) @ Y) (length P) n (n + length (x # X)) =
        copy_run ((P @ [x]) @ R @ X @ Y) (length (P @ [x])) (n + 1) (n + 1 + length X)"
      by (simp add: M_def)
    moreover have "length (P @ [x]) \<le> n + 1" "length R = n + 1 - length (P @ [x])"
      using Cons.prems Cons by (auto simp: R_def)
    ultimately show ?thesis using Cons.IH [of "P @ [x]" "n + 1" R] by (auto simp: R_def Cons)
  qed
qed

lemma copy_undo_marked:
  "length (P @ Q) = n \<Longrightarrow>
   \<exists>R. copy_undo (P @ Q @ marked n gs) (length P) n (length (P @ Q @ marked n gs)) =
     Some (P @ pairs (saves_of gs) @ R, length (P @ pairs (saves_of gs)))"
proof (induction gs arbitrary: P Q n)
  case Nil
  then show ?case by (subst copy_undo.simps) auto
next
  case (Cons g gs)
  obtain pc cp st d where g: "g = (pc, cp, st, d)" by (cases g)
  define m where "m = n + 3 + 2 * length d"
  define Q1 where "Q1 = Q @ [Pc pc, Cp cp, Sp m]"
  have mem: "P @ Q @ marked n (g # gs) = P @ Q1 @ pairs d @ marked m gs"
    by (simp add: g m_def Q1_def)
  have len: "length Q1 = n + 3 - length P" "length P \<le> n + 3" using Cons.prems by (auto simp: Q1_def)
  from copy_run_block [OF len(2,1), of "pairs d" "marked m gs"] obtain Q' where
    run: "copy_run (P @ Q1 @ pairs d @ marked m gs) (length P) (n + 3) m =
      Some (P @ pairs d @ Q' @ marked m gs, length (P @ pairs d), m)" "length Q' = length Q1"
    by (auto simp: m_def)
  have sp: "rd (P @ Q1 @ pairs d @ marked m gs) (n + 2) = Some (Sp m)"
    unfolding Cons.prems [symmetric] by (simp add: Q1_def nth_append)
  have less: "n < length (P @ Q1 @ pairs d @ marked m gs)" using len(1) by simp
  have "copy_undo (P @ Q1 @ pairs d @ marked m gs) (length P) n (length (P @ Q1 @ pairs d @ marked m gs)) =
      copy_undo ((P @ pairs d) @ Q' @ marked m gs) (length (P @ pairs d)) m
        (length ((P @ pairs d) @ Q' @ marked m gs))"
    using less sp run by (subst copy_undo.simps) (simp add: ac_simps)
  moreover have "length ((P @ pairs d) @ Q') = m" using run(2) len Cons.prems by (simp add: m_def Q1_def)
  ultimately show ?case unfolding mem using Cons.IH [of "P @ pairs d" Q' m] by (auto simp: g)
qed

section \<open>The two machines run in step\<close>

definition represents :: "'o re_ctx \<Rightarrow> slot list \<Rightarrow> choice list \<Rightarrow> bool" where
  "represents s caps cs \<longleftrightarrow>
     (\<exists>d0 fs. stk s = flat d0 fs \<and> bp s = base d0 fs \<and> capture s = caps \<and> cs = choices fs caps \<and>
       in_caps caps d0 \<and> frames_ok caps fs)"

text \<open>A host that grants every request and never stops the matcher.\<close>

definition generous :: "'o re_host \<Rightarrow> bool" where
  "generous H \<longleftrightarrow> (\<forall>a. \<not> fst (check_timeout H a) \<and> (\<forall>n. fst (realloc H a n)))"

fun agrees :: "'o re_host \<Rightarrow> 'o outcome \<Rightarrow> snapshot_outcome \<Rightarrow> bool" where
  "agrees H (Run pc cp s) r \<longleftrightarrow> (\<exists>cs. r = SRun pc cp (capture s) cs \<and> represents s (capture s) cs)"
| "agrees H (Ret n s) r \<longleftrightarrow>
     r = SRet n (capture s) \<or> (n = LRE_RET_MEMORY_ERROR \<or> n = LRE_RET_TIMEOUT) \<and> \<not> generous H"
| "agrees H (Undef u) r \<longleftrightarrow> r = SUndef u"

lemma lre_poll_timeout_keeps:
  assumes "lre_poll_timeout H s = (stop, s')"
  shows "stk s' = stk s" "bp s' = bp s" "capture s' = capture s" "generous H \<Longrightarrow> \<not> stop"
proof -
  obtain b a where c: "check_timeout H (opaque s) = (b, a)" by (cases "check_timeout H (opaque s)")
  then have "generous H \<Longrightarrow> \<not> b" by (metis fst_conv generous_def)
  then show "stk s' = stk s" "bp s' = bp s" "capture s' = capture s" "generous H \<Longrightarrow> \<not> stop"
    using assms c by (auto simp: lre_poll_timeout_def Let_def split: if_splits)
qed

lemma check_stack_space_cases:
  assumes "check_stack_space H n s = (ok, s')"
  obtains (fits) "length (stk s) + n \<le> stack_size s" "ok" "s' = s"
  | (grown) size a where "stack_size s < length (stk s) + n" "length (stk s) + n \<le> size"
      "realloc H (opaque s) (size * 8) = (True, a)" "ok"
      "s' = s\<lparr>stack_size := size, on_heap := True, opaque := a\<rparr>"
  | (refused) size a where "stack_size s < length (stk s) + n" "length (stk s) + n \<le> size"
      "realloc H (opaque s) (size * 8) = (False, a)" "\<not> ok" "s' = s\<lparr>opaque := a\<rparr>"
proof (cases "stack_size s < length (stk s) + n")
  case True
  define size where "size = (if stack_size s * 3 div 2 < length (stk s) + n then length (stk s) + n
    else stack_size s * 3 div 2)"
  obtain b a where r: "realloc H (opaque s) (size * 8) = (b, a)" by fastforce
  have "check_stack_space H n s = (if b then (True, s\<lparr>stack_size := size, on_heap := True, opaque := a\<rparr>)
      else (False, s\<lparr>opaque := a\<rparr>))"
    using True r by (simp add: check_stack_space_def stack_realloc_def Let_def size_def)
  moreover have "length (stk s) + n \<le> size" by (simp add: size_def)
  ultimately show thesis
    using assms True r grown [of size a] refused [of size a] by (cases b) simp_all
next
  case False
  then have "check_stack_space H n s = (True, s)" by (simp add: check_stack_space_def)
  then show thesis using assms False fits by (metis not_less prod.inject)
qed

lemma check_stack_space_keeps:
  assumes "check_stack_space H n s = (ok, s')"
  shows "stk s' = stk s" "bp s' = bp s" "capture s' = capture s" "generous H \<Longrightarrow> ok"
proof -
  have "stk s' = stk s \<and> bp s' = bp s \<and> capture s' = capture s \<and> (generous H \<longrightarrow> ok)"
    using assms
  proof (cases rule: check_stack_space_cases)
    case (refused size a)
    have "\<not> generous H" using refused(3) by (metis fst_conv generous_def)
    then show ?thesis using refused(5) by simp
  qed simp_all
  then show "stk s' = stk s" "bp s' = bp s" "capture s' = capture s" "generous H \<Longrightarrow> ok" by simp_all
qed

lemma represents_keeps:
  "stk s' = stk s \<Longrightarrow> bp s' = bp s \<Longrightarrow> capture s' = capture s \<Longrightarrow> represents s' = represents s"
  unfolding represents_def by simp

lemma poll_represents:
  assumes "lre_poll_timeout H s = (stop, s')"
  shows "represents s' = represents s"
  using lre_poll_timeout_keeps(1-3) [OF assms] by (rule represents_keeps)

lemma space_represents:
  assumes "check_stack_space H n s = (ok, s')"
  shows "represents s' = represents s"
  using check_stack_space_keeps(1-3) [OF assms] by (rule represents_keeps)

lemma represents_capture: "represents s caps cs \<Longrightarrow> capture s = caps"
  by (auto simp: represents_def)

lemma represents_saved:
  assumes "represents s caps cs" "idx < length caps"
  shows "represents (s\<lparr>stk := stk s @ [Idx idx, Saved (caps ! idx)], capture := caps[idx := v]\<rparr>) (caps[idx := v]) cs"
proof -
  obtain d0 fs where r: "stk s = flat d0 fs" "bp s = base d0 fs" "cs = choices fs caps"
    "in_caps caps d0" "frames_ok caps fs"
    using assms(1) unfolding represents_def by blast
  let ?x = "[(idx, caps ! idx)]"
  show ?thesis
  proof (cases fs)
    case Nil
    show ?thesis unfolding represents_def
      by (rule exI [of _ "d0 @ ?x"], rule exI [of _ "[]"]) (use r Nil assms(2) in simp)
  next
    case (Cons f fs')
    obtain pc cp st d where f: "f = (pc, cp, st, d)" by (cases f)
    have u: "undo (d @ ?x) (caps[idx := v]) = undo d caps" by simp
    show ?thesis unfolding represents_def
      by (rule exI [of _ d0], rule exI [of _ "(pc, cp, st, d @ ?x) # fs'"])
         (use r Cons f assms(2) u in simp)
  qed
qed

lemma already_saved_pairs:
  "already_saved (A @ pairs d @ B) (length A) idx (length A + 2 * length d) = Some (idx \<in> fst ` set d)"
proof (induction d arbitrary: B rule: rev_induct)
  case Nil
  show ?case by (subst already_saved.simps) simp
next
  case (snoc x d)
  obtain j w where x: "x = (j, w)" by (cases x)
  have "rd (A @ pairs (d @ [x]) @ B) (length A + 2 * length d) = Some (Idx j)"
    by (simp add: x nth_append)
  then have "already_saved (A @ pairs (d @ [x]) @ B) (length A) idx (length A + 2 * length (d @ [x])) =
      (if j = idx then Some True
       else already_saved (A @ pairs d @ pairs [x] @ B) (length A) idx (length A + 2 * length d))"
    by (subst already_saved.simps) simp
  then show ?case using snoc.IH [of "pairs [x] @ B"] by (auto simp: x)
qed

lemma already_saved_flat:
  "\<exists>b. already_saved (flat d0 fs) (base d0 fs) idx (length (flat d0 fs)) = Some b \<and>
     (b \<longrightarrow> (case fs of [] \<Rightarrow> idx \<in> fst ` set d0 | (pc, cp, st, d) # fs' \<Rightarrow> idx \<in> fst ` set d))"
proof (cases fs)
  case Nil
  then show ?thesis using already_saved_pairs [of "[]" d0 "[]" idx] by simp
next
  case (Cons f fs')
  obtain pc cp st d where f: "f = (pc, cp, st, d)" by (cases f)
  let ?A = "flat d0 fs' @ [Pc pc, Cp cp, Bp (base d0 fs') st]"
  have "already_saved (?A @ pairs d @ []) (length ?A) idx (length ?A + 2 * length d) = Some (idx \<in> fst ` set d)"
    by (rule already_saved_pairs)
  then show ?thesis by (simp add: Cons f numeral_3_eq_3)
qed

lemma represents_again:
  assumes "represents s caps cs" "already_saved (stk s) (bp s) idx (length (stk s)) = Some True"
  shows "idx < length caps \<and> represents (s\<lparr>capture := caps[idx := v]\<rparr>) (caps[idx := v]) cs"
proof -
  obtain d0 fs where r: "stk s = flat d0 fs" "bp s = base d0 fs" "cs = choices fs caps"
    "in_caps caps d0" "frames_ok caps fs"
    using assms(1) unfolding represents_def by blast
  have saved: "case fs of [] \<Rightarrow> idx \<in> fst ` set d0 | (pc, cp, st, d) # fs' \<Rightarrow> idx \<in> fst ` set d"
    using already_saved_flat [of d0 fs idx] assms(2) r by auto
  have less: "idx < length caps" if "in_caps caps d" "idx \<in> fst ` set d" for d
    using that by (auto simp: in_caps_def list_all_iff)
  have c: "choices fs (caps[idx := v]) = choices fs caps" "idx < length caps"
    using saved r(4,5) less undo_update [of idx _ caps v] by (cases fs; auto)+
  show ?thesis unfolding represents_def
    by (rule conjI [OF c(2)], rule exI [of _ d0], rule exI [of _ fs]) (use c r in simp)
qed

lemma already_saved_defined:
  "represents s caps cs \<Longrightarrow> already_saved (stk s) (bp s) idx (length (stk s)) \<noteq> None"
  using already_saved_flat unfolding represents_def by fastforce

lemma represents_push:
  assumes "represents s caps cs"
  shows "represents (s\<lparr>stk := stk s @ [Pc pc1, Cp cp, Bp (bp s) st], bp := length (stk s) + 3\<rparr>) caps
    ((pc1, cp, st, caps) # cs)"
proof -
  obtain d0 fs where r: "stk s = flat d0 fs" "bp s = base d0 fs" "cs = choices fs caps" "capture s = caps"
    "in_caps caps d0" "frames_ok caps fs"
    using assms unfolding represents_def by blast
  show ?thesis unfolding represents_def
    by (rule exI [of _ d0], rule exI [of _ "(pc1, cp, st, []) # fs"]) (use r in simp)
qed

lemma no_match_agrees:
  assumes "represents s caps cs"
  shows "agrees H (no_match H s) (spec_fail cs caps)"
proof -
  obtain d0 fs where r: "stk s = flat d0 fs" "bp s = base d0 fs" "cs = choices fs caps" "capture s = caps"
    "in_caps caps d0" "frames_ok caps fs"
    using assms unfolding represents_def by blast
  have "unwinds (pop_states (stk s) (bp s) caps) d0 (length caps) (spec_fail cs caps)"
    unfolding r(1-3) by (rule pop_states_flat [OF r(6)])
  then consider (none) stack caps' where "pop_states (stk s) (bp s) caps = Some (No_state stack caps')"
      "spec_fail cs caps = SRet 0 caps'"
    | (resume) pc cp stack b caps' fs' where "pop_states (stk s) (bp s) caps = Some (Resume pc cp stack b caps')"
      "spec_fail cs caps = SRun pc cp caps' (choices fs' caps')" "stack = flat d0 fs'" "b = base d0 fs'"
      "frames_ok caps' fs'" "length caps' = length caps"
  proof (cases "pop_states (stk s) (bp s) caps")
    case (Some x)
    then show thesis
      using that \<open>unwinds _ _ _ _\<close> by (cases x) auto
  qed (use \<open>unwinds _ _ _ _\<close> in simp)
  then show ?thesis
  proof cases
    case none
    then show ?thesis by (simp add: no_match_def r(4))
  next
    case resume
    obtain stop s' where p: "lre_poll_timeout H (s\<lparr>stk := stack, bp := b, capture := caps'\<rparr>) = (stop, s')"
      by (cases "lre_poll_timeout H (s\<lparr>stk := stack, bp := b, capture := caps'\<rparr>)")
    note k = lre_poll_timeout_keeps [OF p]
    have "in_caps caps' d0" using r(5) resume(6) by (simp add: in_caps_def)
    then have "represents s' caps' (choices fs' caps')"
      unfolding represents_def using k(1-3) resume by auto
    then show ?thesis using resume(1,2) p k by (auto simp: no_match_def r(4))
  qed
qed

lemma negative_agrees:
  assumes "represents s caps cs"
  shows "agrees H (negative_lookahead_match H s) (spec_negative cs)"
proof -
  obtain d0 fs where r: "stk s = flat d0 fs" "bp s = base d0 fs" "cs = choices fs caps" "capture s = caps"
    "in_caps caps d0" "frames_ok caps fs"
    using assms unfolding represents_def by blast
  consider "pop_negative (stk s) (bp s) caps = None" "spec_negative cs = SUndef Bad_stack"
    | fs' caps' where "pop_negative (stk s) (bp s) caps = Some (flat d0 fs', base d0 fs', caps')"
      "frames_ok caps' fs'" "length caps' = length caps" "spec_negative cs = spec_fail (choices fs' caps') caps'"
    using pop_negative_flat [OF r(6), of d0] unfolding r(1-3) by auto
  then show ?thesis
  proof cases
    case 1
    then show ?thesis by (simp add: negative_lookahead_match_def r(4))
  next
    case (2 fs' caps')
    define s' where "s' = s\<lparr>stk := flat d0 fs', bp := base d0 fs', capture := caps'\<rparr>"
    have "in_caps caps' d0" using r(5) 2(3) by (simp add: in_caps_def)
    then have "represents s' caps' (choices fs' caps')"
      unfolding represents_def s'_def using 2(2) by auto
    then show ?thesis using no_match_agrees [of s' caps' _ H] 2(1,4)
      by (simp add: negative_lookahead_match_def r(4) s'_def)
  qed
qed

text \<open>The frames after the copy step: those below the lookahead, the last one with more saved captures.\<close>

definition holds :: "saves \<Rightarrow> frame list \<Rightarrow> 'o re_ctx \<Rightarrow> bool" where
  "holds d0 fs s \<longleftrightarrow> stk s = flat d0 fs \<and> bp s = base d0 fs \<and> in_caps (capture s) d0 \<and> frames_ok (capture s) fs"

lemma represents_holds: "represents s caps cs \<longleftrightarrow> (\<exists>d0 fs. holds d0 fs s \<and> capture s = caps \<and> cs = choices fs caps)"
  by (auto simp: represents_def holds_def)

fun more_saves :: "saves \<Rightarrow> frame list \<Rightarrow> saves \<Rightarrow> saves \<times> frame list" where
  "more_saves d0 [] d = (d0 @ d, [])"
| "more_saves d0 ((pc, cp, st, d1) # fs) d = (d0, (pc, cp, st, d1 @ d) # fs)"

lemma holds_more_saves:
  assumes "holds d0 fs s" "in_caps (capture s) d" "more_saves d0 fs d = (d0', fs')"
  shows "holds d0' fs' (s\<lparr>stk := stk s @ pairs d\<rparr>)" "choices fs' caps = choices fs (undo d caps) \<or> fs = []"
    "fs = [] \<longrightarrow> fs' = []"
  using assms by (cases fs; auto simp: holds_def)+

lemma lookahead_match_holds:
  assumes "holds d0 fs s"
  shows "(lookahead_match s = Undef Bad_stack \<and> spec_lookahead (choices fs (capture s)) (capture s) = SUndef Bad_stack) \<or>
    (\<exists>pc cp fs' d d0' fs1 s'. lookahead_match s = Run pc cp s' \<and> holds d0' fs1 s' \<and>
       s' = s\<lparr>stk := stk s', bp := bp s'\<rparr> \<and>
       spec_lookahead (choices fs (capture s)) (capture s) = SRun pc cp (capture s) (choices fs1 (capture s)) \<and>
       (\<exists>cp d. dropWhile (\<lambda>(pc, cp, st, d). st \<noteq> Lookahead) fs = (pc, cp, Lookahead, d) # fs') \<and>
       more_saves d0 fs' d = (d0', fs1))"
proof -
  define caps where "caps = capture s"
  have r: "stk s = flat d0 fs" "bp s = base d0 fs" "in_caps caps d0" "frames_ok caps fs"
    using assms unfolding holds_def caps_def by auto
  consider "drop_states (stk s) (length (stk s)) (bp s) = None" "spec_lookahead (choices fs caps) caps = SUndef Bad_stack"
    | pc cp fs' gs where "drop_states (stk s) (length (stk s)) (bp s) =
        Some (pc, cp, flat d0 fs' @ marked (length (flat d0 fs')) gs, length (flat d0 fs'), base d0 fs')"
      "spec_lookahead (choices fs caps) caps = SRun pc cp caps (choices fs' (undo (saves_of gs) caps))"
      "frames_ok caps fs'" "in_caps caps (saves_of gs)"
      "length (flat d0 fs' @ marked (length (flat d0 fs')) gs) = length (stk s)"
      "\<exists>cp d. dropWhile (\<lambda>(pc, cp, st, d). st \<noteq> Lookahead) fs = (pc, cp, Lookahead, d) # fs'"
    using drop_states_flat [of d0 fs "[]" caps] r(4) unfolding r(1,2) by auto
  then show ?thesis
  proof cases
    case 1
    then show ?thesis by (simp add: lookahead_match_def caps_def)
  next
    case (2 pc cp fs' gs)
    define A where "A = flat d0 fs'"
    define D where "D = (if A = [] then [] else saves_of gs)"
    define s' where "s' = s\<lparr>stk := A @ pairs D, bp := base d0 fs'\<rparr>"
    have fs': "fs' = []" if "A = []" using that by (cases fs') (auto simp: A_def)
    have run: "lookahead_match s = Run pc cp s'"
    proof (cases "A = []")
      case True
      then show ?thesis using 2(1) by (simp add: lookahead_match_def A_def D_def s'_def)
    next
      case False
      obtain R where "copy_undo (A @ marked (length A) gs) (length A) (length A) (length (stk s)) =
          Some (A @ pairs D @ R, length (A @ pairs D))"
        using copy_undo_marked [of A "[]" "length A" gs] 2(5) False unfolding A_def D_def by auto
      then show ?thesis using 2(1) False
        by (simp add: lookahead_match_def A_def [symmetric] s'_def)
    qed
    obtain d0' fs1 where m: "more_saves d0 fs' D = (d0', fs1)" by fastforce
    define s0 where "s0 = s\<lparr>stk := A, bp := base d0 fs'\<rparr>"
    have "holds d0 fs' s0" "in_caps (capture s0) D"
      using 2(3,4) r(3) by (auto simp: holds_def s0_def A_def D_def caps_def)
    then have h: "holds d0' fs1 (s0\<lparr>stk := stk s0 @ pairs D\<rparr>)" "choices fs1 caps = choices fs' (undo D caps) \<or> fs' = []"
      "fs' = [] \<longrightarrow> fs1 = []"
      using holds_more_saves [OF _ _ m] by blast+
    have c: "choices fs1 caps = choices fs' (undo (saves_of gs) caps)"
      using h(2,3) fs' by (cases "A = []") (auto simp: D_def)
    have "s0\<lparr>stk := stk s0 @ pairs D\<rparr> = s'" by (simp add: s0_def s'_def)
    then show ?thesis using run h(1) c 2(2,6) m unfolding caps_def
      by (intro disjI2 exI [of _ pc] exI [of _ cp] exI [of _ fs'] exI [of _ D] exI [of _ d0'] exI [of _ fs1]
          exI [of _ s']) (auto simp: s'_def)
  qed
qed

lemma lookahead_agrees:
  assumes "represents s caps cs"
  shows "agrees H (lookahead_match s) (spec_lookahead cs caps)"
proof -
  obtain d0 fs where r: "holds d0 fs s" "capture s = caps" "cs = choices fs caps"
    using assms unfolding represents_holds by blast
  consider "lookahead_match s = Undef Bad_stack" "spec_lookahead cs caps = SUndef Bad_stack"
    | pc cp d0' fs1 s' where "lookahead_match s = Run pc cp s'" "holds d0' fs1 s'" "s' = s\<lparr>stk := stk s', bp := bp s'\<rparr>"
      "spec_lookahead cs caps = SRun pc cp caps (choices fs1 caps)"
    using lookahead_match_holds [OF r(1)] unfolding r(2,3) by blast
  then show ?thesis
  proof cases
    case (2 pc cp d0' fs1 s')
    have "capture s' = caps" using 2(3) r(2) by (metis re_ctx.select_convs(3) re_ctx.surjective re_ctx.update_convs(1,2))
    then show ?thesis using 2 by (auto simp: represents_holds)
  qed simp
qed

lemma perform_agrees:
  "represents s caps cs \<Longrightarrow> agrees H (perform H k s) (spec_perform k caps cs)"
proof (induction k arbitrary: s caps cs)
  case (Next pc cp)
  then show ?case by (auto simp: represents_def)
next
  case Matched
  then show ?case by (auto simp: represents_def)
next
  case Bytecode_error
  then show ?case by (auto simp: represents_def)
next
  case No_match
  then show ?case by (simp add: no_match_agrees)
next
  case Lookahead_matched
  then show ?case by (simp add: lookahead_agrees)
next
  case Negative_lookahead_matched
  then show ?case by (simp add: negative_agrees)
next
  case (Undefined u)
  then show ?case by simp
next
  case (Poll k)
  obtain stop s' where p: "lre_poll_timeout H s = (stop, s')" by (cases "lre_poll_timeout H s")
  show ?case using Poll p poll_represents [OF p] lre_poll_timeout_keeps(4) [OF p] by auto
next
  case (Check_stack n k)
  obtain ok s' where p: "check_stack_space H n s = (ok, s')" by (cases "check_stack_space H n s")
  show ?case using Check_stack p space_represents [OF p] check_stack_space_keeps(4) [OF p] by auto
next
  case (Save idx v k)
  obtain ok s' where p: "check_stack_space H 2 s = (ok, s')" by (cases "check_stack_space H 2 s")
  have c: "capture s' = caps" "represents s' caps cs"
    using Save.prems check_stack_space_keeps(3) [OF p] space_represents [OF p]
    by (auto dest: represents_capture)
  show ?case
  proof (cases "ok \<and> idx < length caps")
    case True
    then show ?thesis using Save.IH [OF represents_saved [OF c(2), of idx v]] p c(1) by simp
  next
    case False
    then show ?thesis using p c(1) check_stack_space_keeps(4) [OF p] by (auto simp: wr_def rd_def)
  qed
next
  case (Save_check idx v k)
  obtain ok s' where p: "check_stack_space H 2 s = (ok, s')" by (cases "check_stack_space H 2 s")
  have c: "capture s' = caps" "represents s' caps cs" "capture s = caps"
    using Save_check.prems check_stack_space_keeps(3) [OF p] space_represents [OF p]
    by (auto dest: represents_capture)
  obtain b where b: "already_saved (stk s) (bp s) idx (length (stk s)) = Some b"
    using already_saved_defined [OF Save_check.prems] by blast
  show ?case
  proof (cases b)
    case True
    then have "already_saved (stk s) (bp s) idx (length (stk s)) = Some True" using b by simp
    from represents_again [OF Save_check.prems this, of v] Save_check.IH b True c(3)
    show ?thesis by simp
  next
    case False
    show ?thesis
    proof (cases "ok \<and> idx < length caps")
      case True
      then show ?thesis using Save_check.IH [OF represents_saved [OF c(2), of idx v]] p c(1) b False by simp
    next
      case f: False
      then show ?thesis using p c(1) check_stack_space_keeps(4) [OF p] b False by (auto simp: wr_def rd_def)
    qed
  qed
next
  case (Push st pc1 cp k)
  obtain ok s' where p: "check_stack_space H 3 s = (ok, s')" by (cases "check_stack_space H 3 s")
  have r: "represents s' caps cs" using Push.prems space_represents [OF p] by simp
  show ?case
    using Push.IH [OF represents_push [OF r, of pc1 cp st]] p check_stack_space_keeps(4) [OF p] by auto
qed

lemma step_agrees:
  assumes "represents s caps cs"
  shows "agrees H (step H e pc cp s) (spec_step e pc cp caps cs)"
  using perform_agrees [OF assms] represents_capture [OF assms] by (simp add: step_def spec_step_def)

lemmas exec_loop_induct = exec_loop.raw_induct [rotated, consumes 1, case_names step]
lemmas spec_loop_induct = spec_loop.raw_induct [rotated, consumes 1, case_names step]

lemma exec_loop_agrees:
  "exec_loop H e pc cp s = Some r \<Longrightarrow> represents s caps cs \<Longrightarrow>
    (\<exists>n s'. r = Ret n s' \<and> (n = LRE_RET_MEMORY_ERROR \<or> n = LRE_RET_TIMEOUT) \<and> \<not> generous H) \<or>
    (\<exists>n s'. r = Ret n s' \<and> spec_loop e pc cp caps cs = Some (SRet n (capture s'))) \<or>
    (\<exists>u. r = Undef u \<and> spec_loop e pc cp caps cs = Some (SUndef u))"
proof (induction arbitrary: caps cs rule: exec_loop_induct)
  case (step loop H e pc cp s r)
  have a: "agrees H (ReExec.step H e pc cp s) (spec_step e pc cp caps cs)"
    using step_agrees [OF step.prems] .
  show ?case
  proof (cases "ReExec.step H e pc cp s")
    case (Run pc' cp' s')
    then obtain cs' where r: "spec_step e pc cp caps cs = SRun pc' cp' (capture s') cs'"
      "represents s' (capture s') cs'"
      using a by auto
    then show ?thesis using step.IH [OF _ r(2)] step.hyps Run by (simp add: spec_loop.simps [of e pc cp caps cs])
  next
    case (Ret n s')
    then have "r = Ret n s'" using step.hyps by simp
    then show ?thesis using a unfolding Ret by (auto simp: spec_loop.simps [of e pc cp caps cs])
  next
    case (Undef u)
    then have "r = Undef u" using step.hyps by simp
    then show ?thesis using a unfolding Undef by (auto simp: spec_loop.simps [of e pc cp caps cs])
  qed
qed

lemma spec_loop_agrees:
  "spec_loop e pc cp caps cs = Some r \<Longrightarrow> represents s caps cs \<Longrightarrow> exec_loop H e pc cp s \<noteq> None"
proof (induction arbitrary: s rule: spec_loop_induct)
  case (step loop e pc cp caps cs r)
  have a: "agrees H (ReExec.step H e pc cp s) (spec_step e pc cp caps cs)"
    using step_agrees [OF step.prems] .
  show ?case
  proof (cases "ReExec.step H e pc cp s")
    case (Run pc' cp' s')
    then obtain cs' where r: "spec_step e pc cp caps cs = SRun pc' cp' (capture s') cs'"
      "represents s' (capture s') cs'"
      using a by auto
    then show ?thesis using step.IH [OF _ r(2)] step.hyps Run by (simp add: exec_loop.simps [of H e pc cp s])
  qed (simp_all add: exec_loop.simps [of H e pc cp s])
qed

lemma exec_loop_result: "exec_loop H e pc cp s \<noteq> Some (Run pc' cp' s')"
proof
  assume "exec_loop H e pc cp s = Some (Run pc' cp' s')"
  then show False
  proof (induction H e pc cp s "Run pc' cp' s'" rule: exec_loop_induct)
    case (step loop H e pc cp s)
    then show False by (auto split: outcome.splits)
  qed
qed

lemma represents_start: "represents (start_ctx caps a) caps []"
  unfolding represents_def start_ctx_def by (rule exI [of _ "[]"], rule exI [of _ "[]"]) simp

text \<open>The results agree: a memory error or a time-out is the only difference.\<close>

fun same_result ::
  "(undefined_cause + int \<times> slot list \<times> 'o) option \<Rightarrow> (undefined_cause + int \<times> slot list) option \<Rightarrow> bool" where
  "same_result None r \<longleftrightarrow> r = None"
| "same_result (Some (Inl u)) r \<longleftrightarrow> r = Some (Inl u)"
| "same_result (Some (Inr (n, caps, a))) r \<longleftrightarrow>
     n = LRE_RET_MEMORY_ERROR \<or> n = LRE_RET_TIMEOUT \<or> r = Some (Inr (n, caps))"

lemma backtrack_agrees:
  "(case lre_exec_backtrack H e caps a pc cp of
      None \<Rightarrow> spec_loop e pc cp caps [] = None
    | Some (Ret n s) \<Rightarrow> ((n = LRE_RET_MEMORY_ERROR \<or> n = LRE_RET_TIMEOUT) \<and> \<not> generous H) \<or>
        spec_loop e pc cp caps [] = Some (SRet n (capture s))
    | Some (Undef u) \<Rightarrow> spec_loop e pc cp caps [] = Some (SUndef u)
    | Some (Run _ _ _) \<Rightarrow> False)"
proof -
  define s where "s = start_ctx caps a"
  have r: "represents s caps []" unfolding s_def by (rule represents_start)
  have e: "lre_exec_backtrack H e caps a pc cp = exec_loop H e pc cp s"
    by (simp add: lre_exec_backtrack_def s_def)
  show ?thesis
  proof (cases "exec_loop H e pc cp s")
    case None
    then show ?thesis using spec_loop_agrees [OF _ r] by (cases "spec_loop e pc cp caps []") (auto simp: e)
  next
    case (Some x)
    then show ?thesis using exec_loop_agrees [OF Some r] exec_loop_result by (cases x) (auto simp: e)
  qed
qed

lemma exec_matches_snapshots:
  "same_result (lre_exec H caps bc t cindex a) (snapshot_exec caps bc t cindex) \<and>
   (\<not> generous H \<or>
     map_option (map_sum id (\<lambda>(n, caps, a). (n, caps))) (lre_exec H caps bc t cindex a) =
       snapshot_exec caps bc t cindex)"
proof (cases "re_env_of bc t")
  case (Some e)
  show ?thesis
  proof (cases "start_pos e cindex")
    case (Some cp)
    define cs where "cs = replicate (2 * capture_count e) Null @ drop (2 * capture_count e) caps"
    show ?thesis
      using backtrack_agrees [where H = H and e = e and caps = cs and a = a and pc = 8 and cp = cp]
      by (cases "lre_exec_backtrack H e cs a 8 cp"; cases "the (lre_exec_backtrack H e cs a 8 cp)")
         (auto simp: lre_exec_def snapshot_exec_def \<open>re_env_of bc t = Some e\<close> Some cs_def)
  qed (simp add: lre_exec_def snapshot_exec_def Some)
qed (simp add: lre_exec_def snapshot_exec_def)

text \<open>Property C1 (refinement): \<open>lre_exec\<close> implements the matcher in which each saved state holds a copy
  of all captures and registers. For every byte code, subject, capture array and host, the undo log
  with its duplicate check and the copy at the end of a lookahead give the same result, the same
  captures and the same undefined outcomes, and return if and only if the specification does, except
  that the code may stop with a memory error or a time-out; with a host that always grants memory
  and never stops the matcher, they agree completely.\<close>

theorem lre_exec_refines_snapshots:
  "same_result (lre_exec H caps bc t cindex a) (snapshot_exec caps bc t cindex) \<and>
   (\<not> generous H \<or>
     map_option (map_sum id (\<lambda>(n, caps, a). (n, caps))) (lre_exec H caps bc t cindex a) =
       snapshot_exec caps bc t cindex)"
  by (rule exec_matches_snapshots)

text \<open>Byte code that steps back by one character and then matches \<^verbatim>\<open>ab\<close>, run on \<^verbatim>\<open>ab\<close> from index 1.\<close>

theorem lre_exec_refines_snapshots_witness:
  "map_option (map_sum id (\<lambda>(n, caps, a). (n, caps)))
      (lre_exec \<lparr>check_timeout = (\<lambda>a. (False, a)), realloc = (\<lambda>a n. (True, a))\<rparr> [Num 1, Num 2]
        [0, 0, 1, 0, 11, 0, 0, 0, 19, 0, 44, 1, 97, 0, 1, 98, 0, 20, 0, 16] (Bytes8 [97, 98]) 1 ()) =
    snapshot_exec [Num 1, Num 2] [0, 0, 1, 0, 11, 0, 0, 0, 19, 0, 44, 1, 97, 0, 1, 98, 0, 20, 0, 16] (Bytes8 [97, 98]) 1"
  using lre_exec_refines_snapshots [of "\<lparr>check_timeout = (\<lambda>a. (False, a)), realloc = (\<lambda>a n. (True, a))\<rparr>"
    "[Num 1, Num 2]" "[0, 0, 1, 0, 11, 0, 0, 0, 19, 0, 44, 1, 97, 0, 1, 98, 0, 20, 0, 16]" "Bytes8 [97, 98]" 1 "()"]
  by (simp add: generous_def)

end
