(* ===== verification/ReSafe.thy ===== *)
theory ReSafe
  imports ReRefine CaseFold
begin

text \<open>
  Bounds of the matcher: whatever the byte code, as long as its steps are defined it reads the subject
  only inside its bounds, and the captures it returns point into the subject. The bounds are an invariant of the machine with
  snapshots and hold of the code by refinement.
\<close>

section \<open>Characters inside the subject\<close>

lemma unit_at_in: "p < units t \<Longrightarrow> \<exists>c. unit_at t p = Some c"
  by (cases t) auto

text \<open>The units that a macro may look at.\<close>

lemma two_units:
  assumes "p < p_end" "p_end \<le> units t"
  shows "\<exists>c d. unit_at t p = Some c \<and> (p + 1 < p_end \<longrightarrow> unit_at t (p + 1) = Some d)"
proof (cases "p + 1 < p_end")
  case True
  then show ?thesis using unit_at_in [of p t] unit_at_in [of "p + 1" t] assms by auto
next
  case False
  then show ?thesis using unit_at_in [of p t] assms by auto
qed

lemma unit_before_in: "0 < p \<Longrightarrow> p \<le> units t \<Longrightarrow> \<exists>c. unit_before t p = Some (c, p - 1)"
  using unit_at_in [of "p - 1" t] by (cases p) (auto simp: unit_before_def)

lemma two_units_before:
  assumes "p_start < p" "p \<le> units t"
  shows "\<exists>c d. unit_before t p = Some (c, p - 1) \<and>
    (p_start < p - 1 \<longrightarrow> unit_before t (p - 1) = Some (d, p - 1 - 1))"
proof -
  obtain c where c: "unit_before t p = Some (c, p - 1)" using unit_before_in [of p t] assms by auto
  show ?thesis
  proof (cases "p_start < p - 1")
    case True
    then obtain d where "unit_before t (p - 1) = Some (d, p - 1 - 1)"
      using unit_before_in [of "p - 1" t] assms(2) by fastforce
    then show ?thesis using c by blast
  qed (use c in blast)
qed

lemma get_char_in:
  assumes "p < p_end" "p_end \<le> cbuf_end e"
  shows "\<exists>c q. get_char e p p_end = Some (c, q) \<and> p < q \<and> q \<le> p_end"
proof -
  obtain c d where "unit_at (cbuf e) p = Some c" "p + 1 < p_end \<longrightarrow> unit_at (cbuf e) (p + 1) = Some d"
    using two_units [OF assms] by blast
  then show ?thesis using assms by (cases "p + 1 < p_end") (auto simp: get_char_def Let_def)
qed

lemma peek_char_in:
  assumes "p < p_end" "p_end \<le> cbuf_end e"
  shows "\<exists>c. peek_char e p p_end = Some c"
proof -
  obtain c d where "unit_at (cbuf e) p = Some c" "p + 1 < p_end \<longrightarrow> unit_at (cbuf e) (p + 1) = Some d"
    using two_units [OF assms] by blast
  then show ?thesis by (cases "p + 1 < p_end") (auto simp: peek_char_def Let_def)
qed

lemma get_prev_char_in:
  assumes "p_start < p" "p \<le> cbuf_end e"
  shows "\<exists>c q. get_prev_char e p p_start = Some (c, q) \<and> p_start \<le> q \<and> q < p"
proof -
  obtain c d where "unit_before (cbuf e) p = Some (c, p - 1)"
    "p_start < p - 1 \<longrightarrow> unit_before (cbuf e) (p - 1) = Some (d, p - 1 - 1)"
    using two_units_before [OF assms] by blast
  then show ?thesis using assms by (cases "p_start < p - 1") (auto simp: get_prev_char_def)
qed

lemma peek_prev_char_in:
  assumes "p_start < p" "p \<le> cbuf_end e"
  shows "\<exists>c. peek_prev_char e p p_start = Some c"
proof -
  obtain c d where "unit_before (cbuf e) p = Some (c, p - 1)"
    "p_start < p - 1 \<longrightarrow> unit_before (cbuf e) (p - 1) = Some (d, p - 1 - 1)"
    using two_units_before [OF assms] by blast
  then show ?thesis by (cases "p_start < p - 1") (auto simp: peek_prev_char_def)
qed

lemma prev_char_in:
  assumes "0 < p" "p \<le> cbuf_end e"
  shows "\<exists>q. prev_char e p 0 = Some q \<and> q < p"
proof -
  obtain c d where "unit_before (cbuf e) p = Some (c, p - 1)"
    "0 < p - 1 \<longrightarrow> unit_before (cbuf e) (p - 1) = Some (d, p - 1 - 1)"
    using two_units_before [OF assms] by (elim exE conjE)
  then show ?thesis using assms by (cases "0 < p - 1") (auto simp: prev_char_def)
qed

section \<open>Effects that stay inside the subject\<close>

fun slot_in :: "nat \<Rightarrow> slot \<Rightarrow> bool" where
  "slot_in n Null = True"
| "slot_in n (Ptr p) = (p \<le> n)"
| "slot_in n (Num k) = False"

text \<open>\<open>n\<close> is the length of the subject, the first \<open>m\<close> slots are captures, and \<open>l\<close> is the number of slots.\<close>

fun stays_in :: "nat \<Rightarrow> nat \<Rightarrow> effects \<Rightarrow> bool" where
  "stays_in n m (Next pc cp) \<longleftrightarrow> cp \<le> n"
| "stays_in n m (Undefined u) \<longleftrightarrow> u \<noteq> Bad_text \<and> u \<noteq> Bad_table"
| "stays_in n m (Poll k) \<longleftrightarrow> stays_in n m k"
| "stays_in n m (Check_stack i k) \<longleftrightarrow> stays_in n m k"
| "stays_in n m (Save i v k) \<longleftrightarrow> (i < m \<longrightarrow> slot_in n v) \<and> stays_in n m k"
| "stays_in n m (Save_check i v k) \<longleftrightarrow> (i < m \<longrightarrow> slot_in n v) \<and> stays_in n m k"
| "stays_in n m (Push st pc1 cp k) \<longleftrightarrow> cp \<le> n \<and> stays_in n m k"
| "stays_in n m _ \<longleftrightarrow> True"

definition caps_in :: "nat \<Rightarrow> nat \<Rightarrow> nat \<Rightarrow> slot list \<Rightarrow> bool" where
  "caps_in n m l caps \<longleftrightarrow> length caps = l \<and> (\<forall>i < m. i < l \<longrightarrow> slot_in n (caps ! i))"

lemma stays_need:
  "x = Some a \<Longrightarrow> stays_in n m (f a) \<Longrightarrow> stays_in n m (need u x f)"
  "u \<noteq> Bad_text \<Longrightarrow> u \<noteq> Bad_table \<Longrightarrow> (\<And>a. x = Some a \<Longrightarrow> stays_in n m (f a)) \<Longrightarrow> stays_in n m (need u x f)"
  by (cases x; simp)+

lemma stays_fetch: "(\<And>v. stays_in n m (f v)) \<Longrightarrow> stays_in n m (fetch get e pc f)"
  unfolding fetch_def by (rule stays_need(2)) auto

lemma fold_case_defined: "\<exists>d. fold_case e ic c = Some d"
  by (simp add: fold_case_def canon_value)

lemma stays_fold: "(\<And>d. stays_in n m (f d)) \<Longrightarrow> stays_in n m (need Bad_table (fold_case e ic c) f)"
  using fold_case_defined [of e ic c] by auto

lemma stays_get_char:
  assumes "p < p_end" "p_end \<le> cbuf_end e" "\<And>c q. p < q \<Longrightarrow> q \<le> p_end \<Longrightarrow> stays_in n m (f (c, q))"
  shows "stays_in n m (need Bad_text (get_char e p p_end) f)"
proof -
  obtain c q where g: "get_char e p p_end = Some (c, q)" "p < q" "q \<le> p_end"
    using get_char_in [OF assms(1,2)] by blast
  show ?thesis using stays_need(1) [OF g(1)] assms(3) [OF g(2,3)] by blast
qed

lemma stays_get_prev_char:
  assumes "p_start < p" "p \<le> cbuf_end e" "\<And>c q. p_start \<le> q \<Longrightarrow> q < p \<Longrightarrow> stays_in n m (f (c, q))"
  shows "stays_in n m (need Bad_text (get_prev_char e p p_start) f)"
proof -
  obtain c q where g: "get_prev_char e p p_start = Some (c, q)" "p_start \<le> q" "q < p"
    using get_prev_char_in [OF assms(1,2)] by blast
  show ?thesis using stays_need(1) [OF g(1)] assms(3) [OF g(2,3)] by blast
qed

lemma stays_range_search:
  "stays_in n m k \<Longrightarrow> stays_in n m (range_search get w e pc c idx_min idx_max k)"
proof (induction "Suc idx_max - idx_min" arbitrary: idx_min idx_max rule: less_induct)
  case less
  show ?case
    by (subst range_search.simps) (auto simp: Let_def intro!: stays_fetch less)
qed

lemma stays_back_ref_forward:
  "p1_end \<le> cbuf_end e \<Longrightarrow> cp \<le> cbuf_end e \<Longrightarrow> stays_in (cbuf_end e) m (back_ref_forward e ic pc p1 p1_end cp)"
proof (induction "p1_end - p1" arbitrary: p1 cp rule: less_induct)
  case less
  show ?case
    by (subst back_ref_forward.simps)
       (auto simp: less.prems intro!: stays_get_char stays_fold less.hyps)
qed

lemma stays_back_ref_backward:
  "p1 \<le> cbuf_end e \<Longrightarrow> cp \<le> cbuf_end e \<Longrightarrow> stays_in (cbuf_end e) m (back_ref_backward e ic pc p1 p1_start cp)"
proof (induction p1 arbitrary: cp rule: less_induct)
  case (less p1)
  show ?case
    by (subst back_ref_backward.simps)
       (use less.prems in \<open>auto intro!: stays_get_prev_char stays_fold less.IH\<close>)
qed

lemma stays_back_ref_groups:
  "caps_in (cbuf_end e) (2 * capture_count e) l caps \<Longrightarrow> cp \<le> cbuf_end e \<Longrightarrow>
    stays_in (cbuf_end e) m (back_ref_groups e backward ic caps pc1 n pc cp)"
proof (induction n arbitrary: pc1)
  case (Suc n)
  have s: "p \<le> cbuf_end e" if "caps ! (2 * k) = Ptr p" "2 * k < length caps" "k < capture_count e" for k p
    using Suc.prems(1) that unfolding caps_in_def by (metis mult_less_mono2 slot_in.simps(2) zero_less_numeral)
  have t: "p \<le> cbuf_end e" if "caps ! Suc (2 * k) = Ptr p" "Suc (2 * k) < length caps" "k < capture_count e" for k p
  proof -
    have "Suc (2 * k) < 2 * capture_count e" using that(3) by linarith
    then show ?thesis using Suc.prems(1) that unfolding caps_in_def by (metis slot_in.simps(2))
  qed
  show ?case
    by (auto intro!: stays_fetch stays_need(2) Suc stays_back_ref_forward stays_back_ref_backward
        split: slot.splits dest: s simp: not_le)
       (rule t, assumption, assumption, assumption)+
qed simp

lemma stays_reset_saves: "stays_in n m k \<Longrightarrow> stays_in n m (reset_saves vals k)"
  by (induction vals) auto

lemmas instr_defs = instr_char32_def instr_char_def test_char_def instr_class_def instr_line_start_def
  instr_line_end_def instr_word_boundary_def instr_prev_def instr_range_def instr_range32_def
  instr_split_def instr_lookahead_def instr_goto_def instr_save_def instr_save_reset_def
  register_def instr_set_i32_def instr_loop_def instr_loop_split_def instr_set_char_pos_def
  instr_check_advance_def instr_back_reference_def

lemma stays_char_test:
  assumes "cp < cbuf_end e" "\<And>c q. q \<le> cbuf_end e \<Longrightarrow> stays_in (cbuf_end e) m (f c q)"
  shows "stays_in (cbuf_end e) m (need Bad_text (get_char e cp (cbuf_end e)) (\<lambda>(c, q). f c q))"
  using assms by (intro stays_get_char) auto

lemma stays_peeks:
  "0 < cp \<Longrightarrow> cp \<le> cbuf_end e \<Longrightarrow> (\<And>c. stays_in n m (f c)) \<Longrightarrow> stays_in n m (need Bad_text (peek_prev_char e cp 0) f)"
  "cp < cbuf_end e \<Longrightarrow> (\<And>c. stays_in n m (f c)) \<Longrightarrow> stays_in n m (need Bad_text (peek_char e cp (cbuf_end e)) f)"
  "0 < cp \<Longrightarrow> cp \<le> cbuf_end e \<Longrightarrow> (\<And>q. q < cp \<Longrightarrow> stays_in n m (g q)) \<Longrightarrow> stays_in n m (need Bad_text (prev_char e cp 0) g)"
  using peek_prev_char_in [of 0 cp e] peek_char_in [of cp "cbuf_end e" e] prev_char_in [of cp e] by auto

lemma stays_word_boundary:
  "cp \<le> cbuf_end e \<Longrightarrow> stays_in (cbuf_end e) m (instr_word_boundary e ic b pc cp)"
  using peek_prev_char_in [of 0 cp e] peek_char_in [of cp "cbuf_end e" e]
  unfolding instr_word_boundary_def
  by (cases "cp = 0"; cases "cp < cbuf_end e") auto

lemma stays_chars:
  assumes "cp \<le> cbuf_end e"
  shows "stays_in (cbuf_end e) m (test_char e ic val pc cp)"
    "stays_in (cbuf_end e) m (instr_class e cls pc cp)"
    "stays_in (cbuf_end e) m (instr_line_start e multi pc cp)"
    "stays_in (cbuf_end e) m (instr_line_end e multi pc cp)"
    "stays_in (cbuf_end e) m (instr_prev e pc cp)"
    "stays_in (cbuf_end e) m (instr_range e ic pc cp)"
    "stays_in (cbuf_end e) m (instr_range32 e ic pc cp)"
  using assms
  by (auto simp: test_char_def instr_class_def instr_line_start_def instr_line_end_def instr_prev_def
      instr_range_def instr_range32_def Let_def
      intro!: stays_char_test stays_fold stays_peeks stays_fetch stays_range_search)

lemma stays_stack:
  assumes "cp \<le> cbuf_end e"
  shows "stays_in (cbuf_end e) (2 * capture_count e) (instr_split e first pc cp)"
    "stays_in (cbuf_end e) (2 * capture_count e) (instr_lookahead e st pc cp)"
    "stays_in (cbuf_end e) (2 * capture_count e) (instr_goto e pc cp)"
    "stays_in (cbuf_end e) (2 * capture_count e) (instr_save e k pc cp)"
    "stays_in (cbuf_end e) (2 * capture_count e) (instr_save_reset e pc cp)"
    "stays_in (cbuf_end e) (2 * capture_count e) (instr_set_i32 e pc cp)"
    "stays_in (cbuf_end e) (2 * capture_count e) (instr_loop e caps pc cp)"
    "stays_in (cbuf_end e) (2 * capture_count e) (instr_loop_split e adv first caps pc cp)"
    "stays_in (cbuf_end e) (2 * capture_count e) (instr_set_char_pos e pc cp)"
    "stays_in (cbuf_end e) (2 * capture_count e) (instr_check_advance e caps pc cp)"
  using assms
  by (auto simp: instr_split_def instr_lookahead_def instr_goto_def instr_save_def instr_save_reset_def
      register_def instr_set_i32_def instr_loop_def instr_loop_split_def instr_set_char_pos_def
      instr_check_advance_def Let_def
      intro!: stays_fetch stays_need(2) stays_reset_saves)

lemma instr_stays:
  assumes "caps_in (cbuf_end e) (2 * capture_count e) l caps" "cp \<le> cbuf_end e"
  shows "stays_in (cbuf_end e) (2 * capture_count e) (instr e caps pc cp)"
proof -
  have "stays_in (cbuf_end e) (2 * capture_count e) (instr_op e caps op pc cp)" for op pc
    by (cases op)
       (auto simp: instr_char32_def instr_char_def instr_back_reference_def assms
        intro!: stays_chars stays_stack stays_word_boundary stays_back_ref_groups [OF assms(1)] stays_fetch)
  then show ?thesis by (auto simp: instr_def intro!: stays_fetch split: option.splits)
qed

section \<open>The invariant\<close>

definition choices_in :: "nat \<Rightarrow> nat \<Rightarrow> nat \<Rightarrow> choice list \<Rightarrow> bool" where
  "choices_in n m l cs \<longleftrightarrow> list_all (\<lambda>(pc, cp, st, snap). cp \<le> n \<and> caps_in n m l snap) cs"

fun outcome_in :: "nat \<Rightarrow> nat \<Rightarrow> nat \<Rightarrow> snapshot_outcome \<Rightarrow> bool" where
  "outcome_in n m l (SRun pc cp caps cs) \<longleftrightarrow> cp \<le> n \<and> caps_in n m l caps \<and> choices_in n m l cs"
| "outcome_in n m l (SRet r caps) \<longleftrightarrow> caps_in n m l caps"
| "outcome_in n m l (SUndef u) \<longleftrightarrow> u \<noteq> Bad_text \<and> u \<noteq> Bad_table"

lemma choices_in_simps [simp]: "choices_in n m l []"
  "choices_in n m l ((pc, cp, st, snap) # cs) \<longleftrightarrow> cp \<le> n \<and> caps_in n m l snap \<and> choices_in n m l cs"
  by (simp_all add: choices_in_def)

lemma caps_in_update: "caps_in n m l caps \<Longrightarrow> (i < m \<longrightarrow> slot_in n v) \<Longrightarrow> caps_in n m l (caps[i := v])"
  by (cases "i < length caps") (auto simp: caps_in_def nth_list_update)

lemma spec_fail_in: "caps_in n m l caps \<Longrightarrow> choices_in n m l cs \<Longrightarrow> outcome_in n m l (spec_fail cs caps)"
  by (induction cs caps rule: spec_fail.induct) auto

lemma spec_lookahead_in: "caps_in n m l caps \<Longrightarrow> choices_in n m l cs \<Longrightarrow> outcome_in n m l (spec_lookahead cs caps)"
  by (induction cs caps rule: spec_lookahead.induct) auto

lemma spec_negative_in: "choices_in n m l cs \<Longrightarrow> outcome_in n m l (spec_negative cs)"
  by (induction cs rule: spec_negative.induct) (auto intro: spec_fail_in)

lemma spec_perform_in:
  "stays_in n m k \<Longrightarrow> caps_in n m l caps \<Longrightarrow> choices_in n m l cs \<Longrightarrow> outcome_in n m l (spec_perform k caps cs)"
proof (induction k arbitrary: caps cs)
  case (Save i v k)
  then show ?case by (auto split: option.splits intro!: Save.IH caps_in_update)
next
  case (Save_check i v k)
  then show ?case by (auto split: option.splits intro!: Save_check.IH caps_in_update)
qed (auto intro: spec_fail_in spec_lookahead_in spec_negative_in)

lemma spec_loop_in:
  "spec_loop e pc cp caps cs = Some r \<Longrightarrow> cp \<le> cbuf_end e \<Longrightarrow>
    caps_in (cbuf_end e) (2 * capture_count e) l caps \<Longrightarrow> choices_in (cbuf_end e) (2 * capture_count e) l cs \<Longrightarrow>
    outcome_in (cbuf_end e) (2 * capture_count e) l r"
proof (induction rule: spec_loop_induct)
  case (step loop e pc cp caps cs r)
  have "outcome_in (cbuf_end e) (2 * capture_count e) l (spec_step e pc cp caps cs)"
    unfolding spec_step_def using step.prems instr_stays by (intro spec_perform_in) auto
  then show ?case using step.hyps step.IH by (cases "spec_step e pc cp caps cs") auto
qed

section \<open>Results\<close>

lemma start_pos_in: "cindex \<le> cbuf_end e \<Longrightarrow> \<exists>cp. start_pos e cindex = Some cp \<and> cp \<le> cbuf_end e"
proof (cases "0 < cindex \<and> cindex < cbuf_end e \<and> cbuf_type e = 2")
  case True
  then obtain c where "unit_at (cbuf e) cindex = Some c"
    using unit_at_in [of cindex "cbuf e"] by auto
  moreover have "cindex - 1 < cbuf_end e" using True by linarith
  then obtain d where "unit_at (cbuf e) (cindex - 1) = Some d"
    using unit_at_in [of "cindex - 1" "cbuf e"] by auto
  ultimately show ?thesis using True by (auto simp: start_pos_def)
qed (auto simp: start_pos_def)

lemma re_env_of_fields:
  assumes "re_env_of bc t = Some e"
  shows "cbuf e = t" "capture_count e = unat (bc ! 2)"
proof -
  have "\<exists>n. get_u8 bc 2 = Some n \<and> cbuf e = t \<and> capture_count e = unat n"
    using assms by (auto simp: re_env_of_def bind_Some_iff Let_def)
  then show "cbuf e = t" "capture_count e = unat (bc ! 2)"
    by (auto simp: get_u8_def bind_Some_iff unat_widen)
qed

fun result_in :: "nat \<Rightarrow> nat \<Rightarrow> nat \<Rightarrow> (undefined_cause + int \<times> slot list) option \<Rightarrow> bool" where
  "result_in n m l None \<longleftrightarrow> True"
| "result_in n m l (Some (Inl u)) \<longleftrightarrow> u \<noteq> Bad_text \<and> u \<noteq> Bad_table"
| "result_in n m l (Some (Inr (r, caps))) \<longleftrightarrow> length caps = l \<and> list_all (slot_in n) (take m caps)"

lemma caps_in_take: "caps_in n m l caps \<Longrightarrow> list_all (slot_in n) (take m caps)"
  by (auto simp: caps_in_def list_all_length)

lemma snapshot_result_in:
  assumes "cindex \<le> units t"
  shows "result_in (units t) (2 * unat (bc ! 2)) (length caps) (snapshot_exec caps bc t cindex)"
proof (cases "re_env_of bc t")
  case (Some e)
  note f = re_env_of_fields [OF Some]
  obtain cp where cp: "start_pos e cindex = Some cp" "cp \<le> cbuf_end e"
    using start_pos_in [of cindex e] assms f(1) by auto
  define cs where "cs = replicate (2 * capture_count e) Null @ drop (2 * capture_count e) caps"
  show ?thesis
  proof (cases "length caps < 2 * capture_count e")
    case True
    then show ?thesis by (simp add: snapshot_exec_def Some)
  next
    case False
    have c: "caps_in (cbuf_end e) (2 * capture_count e) (length caps) cs"
      using False by (auto simp: caps_in_def cs_def nth_append)
    have "outcome_in (cbuf_end e) (2 * capture_count e) (length caps) r"
      if "spec_loop e 8 cp cs [] = Some r" for r
      using spec_loop_in [OF that cp(2) c] by simp
    then show ?thesis
      using False Some cp(1) f
      by (cases "spec_loop e 8 cp cs []"; cases "the (spec_loop e 8 cp cs [])")
         (auto simp: snapshot_exec_def cs_def caps_in_take caps_in_def)
  qed
qed (simp add: snapshot_exec_def)

text \<open>Property C16 (safety): up to the first step that is undefined for another reason, if a run has one,
  \<open>lre_exec\<close> started inside the subject reads no character outside it and nothing outside the case
  conversion tables, for every byte code, host and capture array, in 8-bit, 16-bit and UTF-16 mode,
  forwards, backwards and in back references. So where the behaviour is undefined, the first cause is
  another: an instruction reads outside the byte code, a capture slot is missing or holds no position,
  the stack does not hold what the instruction takes from it, or the opcode is unknown and the program
  aborts. What C does after such a step is not claimed. When the code matches, the array has its old
  length and every capture is unset or points into the subject (or to its end).\<close>

theorem lre_exec_in_bounds:
  assumes "cindex \<le> units t"
  shows "case lre_exec H caps bc t cindex a of
      None \<Rightarrow> True
    | Some (Inl u) \<Rightarrow> u \<in> {Bad_code, Bad_slot, Bad_stack, Aborted}
    | Some (Inr (r, caps', a')) \<Rightarrow>
        r = 1 \<longrightarrow> length caps' = length caps \<and> list_all (slot_in (units t)) (take (2 * unat (bc ! 2)) caps')"
proof -
  define z where "z = snapshot_exec caps bc t cindex"
  have s: "same_result (lre_exec H caps bc t cindex a) z"
    using exec_matches_snapshots [of H caps bc t cindex a] by (simp add: z_def)
  have z: "result_in (units t) (2 * unat (bc ! 2)) (length caps) z"
    unfolding z_def by (rule snapshot_result_in [OF assms])
  have u: "u \<in> {Bad_code, Bad_slot, Bad_stack, Aborted} \<longleftrightarrow> u \<noteq> Bad_text \<and> u \<noteq> Bad_table" for u
    by (cases u) simp_all
  show ?thesis unfolding u using s z by (auto split: option.splits sum.splits)
qed

text \<open>Byte code that steps back by one character and then matches \<^verbatim>\<open>ab\<close>, run on \<^verbatim>\<open>ab\<close> from index 1.\<close>

theorem lre_exec_in_bounds_witness:
  "case lre_exec \<lparr>check_timeout = (\<lambda>a. (False, a)), realloc = (\<lambda>a n. (True, a))\<rparr> [Num 1, Num 2]
      [0, 0, 1, 0, 11, 0, 0, 0, 19, 0, 44, 1, 97, 0, 1, 98, 0, 20, 0, 16] (Bytes8 [97, 98]) 1 () of
      None \<Rightarrow> True
    | Some (Inl u) \<Rightarrow> u \<in> {Bad_code, Bad_slot, Bad_stack, Aborted}
    | Some (Inr (r, caps', a')) \<Rightarrow>
        r = 1 \<longrightarrow> length caps' = length [Num 1, Num 2] \<and>
          list_all (slot_in (units (Bytes8 [97, 98])))
            (take (2 * unat ([0, 0, 1, 0, 11, 0, 0, 0, 19, 0, 44, 1, 97, 0, 1, 98, 0, 20, 0, 16 :: u8] ! 2)) caps')"
  by (rule lre_exec_in_bounds) simp

end
