(* ===== verification/ReError.thy ===== *)
theory ReError
  imports ReSafe
begin

text \<open>
  The return codes of \<open>lre_exec\<close> and their causes.
\<close>

section \<open>Return codes\<close>

fun no_fail :: "effects \<Rightarrow> bool" where
  "no_fail Bytecode_error \<longleftrightarrow> False"
| "no_fail (Poll k) \<longleftrightarrow> no_fail k"
| "no_fail (Check_stack n k) \<longleftrightarrow> no_fail k"
| "no_fail (Save i v k) \<longleftrightarrow> no_fail k"
| "no_fail (Save_check i v k) \<longleftrightarrow> no_fail k"
| "no_fail (Push st pc cp k) \<longleftrightarrow> no_fail k"
| "no_fail _ \<longleftrightarrow> True"

lemma not_fail_need: "(\<And>a. x = Some a \<Longrightarrow> no_fail (f a)) \<Longrightarrow> no_fail (need u x f)"
  by (cases x) auto

lemma not_fail_fetch: "(\<And>v. no_fail (f v)) \<Longrightarrow> no_fail (fetch get e pc f)"
  unfolding fetch_def by (rule not_fail_need)

lemma not_fail_range_search:
  "no_fail k \<Longrightarrow> no_fail (range_search get w e pc c idx_min idx_max k)"
proof (induction "Suc idx_max - idx_min" arbitrary: idx_min idx_max rule: less_induct)
  case less
  show ?case by (subst range_search.simps) (auto simp: Let_def intro!: not_fail_fetch less)
qed

lemma not_fail_back_ref_forward: "no_fail (back_ref_forward e ic pc p1 p1_end cp)"
proof (induction "p1_end - p1" arbitrary: p1 cp rule: less_induct)
  case less
  show ?case
    by (subst back_ref_forward.simps) (auto intro!: not_fail_need less diff_less_mono2 dest!: get_char_less)
qed

lemma not_fail_back_ref_backward: "no_fail (back_ref_backward e ic pc p1 p1_start cp)"
proof (induction p1 arbitrary: cp rule: less_induct)
  case (less p1)
  show ?case
    by (subst back_ref_backward.simps) (auto intro!: not_fail_need less dest: get_prev_char_less)
qed

lemma not_fail_back_ref_groups: "no_fail (back_ref_groups e backward ic caps pc1 n pc cp)"
  by (induction n arbitrary: pc1)
     (auto intro!: not_fail_fetch not_fail_need not_fail_back_ref_forward not_fail_back_ref_backward
       split: slot.splits)

lemma not_fail_reset_saves: "no_fail k \<Longrightarrow> no_fail (reset_saves vals k)"
  by (induction vals) auto

text \<open>An instruction that saves or resets a capture that does not exist.\<close>

definition bad_save :: "re_env \<Rightarrow> int \<Rightarrow> bool" where
  "bad_save e pc \<longleftrightarrow>
     (\<exists>opcode n v. get_u8 (bc_buf e) (nat pc) = Some opcode \<and> get_u8 (bc_buf e) (nat (pc + n)) = Some v \<and>
        unat v \<ge> capture_count e \<and>
        (n = 1 \<and> op_of opcode \<in> {Some REOP_save_start, Some REOP_save_end} \<or>
         n = 2 \<and> op_of opcode = Some REOP_save_reset))"

lemma not_fail_word_boundary: "no_fail (instr_word_boundary e ic b pc cp)"
  unfolding instr_word_boundary_def by (intro not_fail_need) simp

lemma instr_op_not_fail:
  "op \<notin> {REOP_save_start, REOP_save_end, REOP_save_reset} \<Longrightarrow> no_fail (instr_op e caps op pc cp)"
  by (cases op)
     (auto simp: instr_char32_def instr_char_def test_char_def instr_class_def instr_line_start_def
       instr_line_end_def instr_prev_def instr_range_def instr_range32_def
       instr_split_def instr_lookahead_def instr_goto_def register_def instr_set_i32_def instr_loop_def
       instr_loop_split_def instr_set_char_pos_def instr_check_advance_def instr_back_reference_def Let_def
       intro!: not_fail_fetch not_fail_need not_fail_range_search not_fail_back_ref_groups
       not_fail_word_boundary)

lemma fetch_cases:
  assumes "\<not> no_fail (fetch get e pc f)"
  obtains v where "0 \<le> pc" "get (bc_buf e) (nat pc) = Some v" "\<not> no_fail (f v)"
  using assms unfolding fetch_def
  by (cases "pc < 0"; cases "get (bc_buf e) (nat pc)") auto

lemma instr_no_fail:
  assumes "\<not> no_fail (instr e caps pc cp)"
  shows "bad_save e pc"
proof -
  from assms obtain v where v: "0 \<le> pc" "get_u8 (bc_buf e) (nat pc) = Some v"
    "\<not> no_fail (case op_of v of None \<Rightarrow> Undefined Aborted | Some op \<Rightarrow> instr_op e caps op (pc + 1) cp)"
    unfolding instr_def by (rule fetch_cases)
  then obtain op where op: "op_of v = Some op" "\<not> no_fail (instr_op e caps op (pc + 1) cp)"
    by (cases "op_of v") auto
  then have "op \<in> {REOP_save_start, REOP_save_end, REOP_save_reset}" using instr_op_not_fail by blast
  then consider k where "op \<in> {REOP_save_start, REOP_save_end}" "\<not> no_fail (instr_save e k (pc + 1) cp)"
    | "op = REOP_save_reset" "\<not> no_fail (instr_save_reset e (pc + 1) cp)"
    using op(2) by auto
  then show ?thesis
  proof cases
    case 1
    from 1(2) obtain w where "get_u8 (bc_buf e) (nat (pc + 1)) = Some w" "unat w \<ge> capture_count e"
      unfolding instr_save_def by (rule fetch_cases) (auto split: if_splits)
    then show ?thesis unfolding bad_save_def using v(2) op(1) 1(1) by blast
  next
    case 2
    from 2(2) obtain w where w: "get_u8 (bc_buf e) (nat (pc + 1 + 1)) = Some w" "unat w \<ge> capture_count e"
      unfolding instr_save_reset_def
      by (elim fetch_cases) (auto simp: not_fail_reset_saves split: if_splits)
    have "pc + 1 + 1 = pc + 2" by simp
    then show ?thesis unfolding bad_save_def using v(2) op(1) 2(1) w by metis
  qed
qed

definition return_cause :: "'o re_host \<Rightarrow> re_env \<Rightarrow> int \<Rightarrow> bool" where
  "return_cause H e r \<longleftrightarrow> r = 0 \<or> r = 1 \<or>
     r = LRE_RET_MEMORY_ERROR \<and> (\<exists>a n. n > 32 * 8 \<and> \<not> fst (realloc H a n)) \<or>
     r = LRE_RET_TIMEOUT \<and> (\<exists>a. fst (check_timeout H a)) \<or>
     r = LRE_RET_BYTECODE_ERROR \<and> (\<exists>pc. bad_save e pc)"

text \<open>One step: the code of a result has its cause, and the stack keeps its capacity.\<close>

fun caused :: "'o re_host \<Rightarrow> re_env \<Rightarrow> 'o outcome \<Rightarrow> bool" where
  "caused H e (Ret r s) \<longleftrightarrow> return_cause H e r"
| "caused H e (Run pc cp s) \<longleftrightarrow> 32 \<le> stack_size s"
| "caused H e (Undef u) \<longleftrightarrow> True"

lemma poll_caused:
  assumes "lre_poll_timeout H s = (stop, s')"
  shows "stack_size s' = stack_size s" "stop \<Longrightarrow> return_cause H e LRE_RET_TIMEOUT"
proof -
  obtain b a where c: "check_timeout H (opaque s) = (b, a)" by (cases "check_timeout H (opaque s)")
  then have "b \<Longrightarrow> \<exists>a. fst (check_timeout H a)" by (metis fst_conv)
  then show "stack_size s' = stack_size s" "stop \<Longrightarrow> return_cause H e LRE_RET_TIMEOUT"
    using assms c by (auto simp: lre_poll_timeout_def Let_def return_cause_def split: if_splits)
qed

lemma space_caused:
  assumes "check_stack_space H n s = (ok, s')" "32 \<le> stack_size s"
  shows "32 \<le> stack_size s'" "\<not> ok \<Longrightarrow> return_cause H e LRE_RET_MEMORY_ERROR"
proof -
  have "32 \<le> stack_size s' \<and> (\<not> ok \<longrightarrow> return_cause H e LRE_RET_MEMORY_ERROR)"
    using assms(1)
  proof (cases rule: check_stack_space_cases)
    case (refused size a)
    have "\<not> fst (realloc H (opaque s) (size * 8))" "size * 8 > 32 * 8" using refused assms(2) by auto
    then have "\<exists>a n. n > 32 * 8 \<and> \<not> fst (realloc H a n)" by blast
    then show ?thesis using refused(5) assms(2) unfolding return_cause_def by simp
  qed (use assms(2) in simp_all)
  then show "32 \<le> stack_size s'" "\<not> ok \<Longrightarrow> return_cause H e LRE_RET_MEMORY_ERROR" by auto
qed

lemma no_match_caused:
  assumes "32 \<le> stack_size s"
  shows "caused H e (no_match H s)"
proof (cases "pop_states (stk s) (bp s) (capture s)")
  case (Some x)
  show ?thesis
  proof (cases x)
    case (Resume pc cp stack b cap)
    obtain stop s' where p: "lre_poll_timeout H (s\<lparr>stk := stack, bp := b, capture := cap\<rparr>) = (stop, s')"
      by fastforce
    show ?thesis using Some Resume p poll_caused [OF p] assms by (auto simp: no_match_def)
  qed (use Some in \<open>simp add: no_match_def return_cause_def\<close>)
qed (simp add: no_match_def)

lemma lookahead_caused: "32 \<le> stack_size s \<Longrightarrow> caused H e (lookahead_match s)"
  by (auto simp: lookahead_match_def split: option.split prod.split)

lemma negative_caused: "32 \<le> stack_size s \<Longrightarrow> caused H e (negative_lookahead_match H s)"
  by (auto simp: negative_lookahead_match_def intro!: no_match_caused split: option.split prod.split)

lemma perform_caused:
  "32 \<le> stack_size s \<Longrightarrow> (\<not> no_fail k \<Longrightarrow> \<exists>pc. bad_save e pc) \<Longrightarrow> caused H e (perform H k s)"
proof (induction k arbitrary: s)
  case (Poll k)
  obtain stop s' where p: "lre_poll_timeout H s = (stop, s')" by (cases "lre_poll_timeout H s")
  show ?case using Poll p poll_caused [OF p] by auto
next
  case (Check_stack n k)
  obtain ok s' where p: "check_stack_space H n s = (ok, s')" by (cases "check_stack_space H n s")
  show ?case using Check_stack p space_caused [OF p] by auto
next
  case (Save i v k)
  obtain ok s' where p: "check_stack_space H 2 s = (ok, s')" by (cases "check_stack_space H 2 s")
  show ?case using Save p space_caused [OF p] by (auto split: option.split)
next
  case (Save_check i v k)
  obtain ok s' where p: "check_stack_space H 2 s = (ok, s')" by (cases "check_stack_space H 2 s")
  show ?case using Save_check p space_caused [OF p] by (auto split: option.split bool.split)
next
  case (Push st pc cp k)
  obtain ok s' where p: "check_stack_space H 3 s = (ok, s')" by (cases "check_stack_space H 3 s")
  show ?case using Push p space_caused [OF p] by auto
qed (auto simp: return_cause_def intro: no_match_caused lookahead_caused negative_caused)

lemma exec_loop_caused:
  "exec_loop H e pc cp s = Some r \<Longrightarrow> 32 \<le> stack_size s \<Longrightarrow> caused H e r"
proof (induction rule: exec_loop_induct)
  case (step loop H e pc cp s r)
  have "caused H e (ReExec.step H e pc cp s)"
    unfolding step_def using step.prems instr_no_fail by (intro perform_caused) blast+
  then show ?case using step.hyps step.IH by (cases "ReExec.step H e pc cp s") auto
qed


text \<open>Byte code that saves group 5 of 1.\<close>

definition quiet_host :: "unit re_host" where
  "quiet_host = \<lparr>check_timeout = (\<lambda>a. (False, a)), realloc = (\<lambda>a n. (n \<le> 4096, a))\<rparr>"

lemma bad_group_result:
  "lre_exec quiet_host [Null, Null] [0, 0, 1, 0, 2, 0, 0, 0, 19, 5] (Bytes8 []) 0 () = Some (Inr (-3, [Null, Null], ()))"
  by code_simp


end
