(* ===== verification/ReLive.thy ===== *)
theory ReLive
  imports ReError
begin

text \<open>
  The matcher returns. Between two polls of the interrupt counter the byte code can only move
  forward, push a saved state or end a lookahead, and the memory that the host grants bounds the
  stack; so the matcher polls again and again until it is done, and a host that does not let it go
  on for ever gets a result, unless the byte code leads to a step that C does not define.
\<close>

section \<open>The order that the steps decrease\<close>

abbreviation "pair_order \<equiv> (less_than <*lex*> less_than) :: ((nat \<times> nat) \<times> nat \<times> nat) set"

text \<open>The patience of the host and the counter of the next poll.\<close>

definition rank :: "('o \<Rightarrow> nat) \<Rightarrow> 'o re_ctx \<Rightarrow> nat \<times> nat" where
  "rank f s = (f (opaque s), nat (interrupt_counter s))"

definition digit :: "nat \<Rightarrow> int \<Rightarrow> nat \<Rightarrow> int \<Rightarrow> nat \<times> nat" where
  "digit M C n p = (Suc (M - n), nat (C - p))"

text \<open>The room left on the stack and the way left in the byte code, outside of each open lookahead.\<close>

fun levels :: "nat \<Rightarrow> int \<Rightarrow> saves \<Rightarrow> frame list \<Rightarrow> (nat \<times> nat) list" where
  "levels M C d0 [] = []"
| "levels M C d0 ((pc, cp, st, d) # fs) =
     levels M C d0 fs @ (if st = Lookahead then [digit M C (length (flat d0 fs)) pc] else [])"

definition pad :: "nat \<Rightarrow> (nat \<times> nat) list \<Rightarrow> (nat \<times> nat) list" where
  "pad D xs = xs @ replicate (D - length xs) (0, 0)"

definition progress :: "nat \<Rightarrow> int \<Rightarrow> saves \<Rightarrow> frame list \<Rightarrow> int \<Rightarrow> (nat \<times> nat) list" where
  "progress M C d0 fs pc = pad (M + 2) (levels M C d0 fs @ [digit M C (length (flat d0 fs)) pc])"

lemma length_levels: "length (levels M C d0 fs) \<le> length (flat d0 fs)"
  by (induction fs) auto

lemma pad_less:
  assumes "(y, x) \<in> pair_order" "length (ls @ x # r) \<le> D" "length (ls @ y # r') \<le> D"
  shows "(pad D (ls @ y # r'), pad D (ls @ x # r)) \<in> lex pair_order"
  using assms unfolding lex_conv pad_def
  by (cases x; cases y) (auto simp del: in_lex_prod intro!: exI [of _ ls])

lemma pad_shorter:
  assumes "length (ls @ x # r) \<le> D" "((0, 0), x) \<in> pair_order"
  shows "(pad D ls, pad D (ls @ x # r)) \<in> lex pair_order"
proof -
  have "pad D ls = pad D (ls @ [(0, 0)])"
    using assms(1) by (simp add: pad_def Suc_diff_Suc replicate_app_Cons_same flip: replicate_Suc)
  then show ?thesis using pad_less [OF assms(2,1), of "[]"] assms(1) by simp
qed

lemma digit_less:
  "n0 \<le> n \<Longrightarrow> n \<le> M \<Longrightarrow> L < C \<Longrightarrow> n0 < n \<or> L < pc \<Longrightarrow> (digit M C n pc, digit M C n0 L) \<in> pair_order"
  by (auto simp: digit_def)

lemma digit_pos: "((0, 0), digit M C n pc) \<in> pair_order"
  by (simp add: digit_def)

lemma levels_more_saves:
  "more_saves d0 fs d = (d0', fs') \<Longrightarrow> levels M C d0' fs' = levels M C d0 fs \<and> length (flat d0 fs) \<le> length (flat d0' fs')"
  by (cases fs) auto

lemma levels_dropWhile:
  "dropWhile (\<lambda>(pc, cp, st, d). st \<noteq> Lookahead) fs = (pc, cp, Lookahead, d) # fs' \<Longrightarrow>
    levels M C d0 fs = levels M C d0 fs' @ [digit M C (length (flat d0 fs')) pc]"
  by (induction fs) (auto split: if_splits)

section \<open>Instructions move forward\<close>

text \<open>From an instruction at \<open>L\<close>; \<open>b\<close> tells that the stack has grown.\<close>

fun forward :: "int \<Rightarrow> bool \<Rightarrow> effects \<Rightarrow> bool" where
  "forward L b (Next pc cp) \<longleftrightarrow> b \<or> L < pc"
| "forward L b Lookahead_matched \<longleftrightarrow> False"
| "forward L b (Poll k) \<longleftrightarrow> True"
| "forward L b (Check_stack n k) \<longleftrightarrow> forward L b k"
| "forward L b (Save i v k) \<longleftrightarrow> forward L True k"
| "forward L b (Save_check i v k) \<longleftrightarrow> forward L b k"
| "forward L b (Push st pc cp k) \<longleftrightarrow>
     (if st = Lookahead then L < pc \<and> (\<exists>p q. k = Next p q) else forward L True k)"
| "forward L b _ \<longleftrightarrow> True"

definition lookahead_forward :: "re_env \<Rightarrow> int \<Rightarrow> bool" where
  "lookahead_forward e pc \<longleftrightarrow>
     (case get_u8 (bc_buf e) (nat pc) of None \<Rightarrow> True
      | Some opcode \<Rightarrow> op_of opcode = Some REOP_lookahead \<longrightarrow>
          (case get_u32 (bc_buf e) (nat (pc + 1)) of None \<Rightarrow> True | Some val \<Rightarrow> 0 \<le> sint val))"

lemma forward_need: "(\<And>a. x = Some a \<Longrightarrow> forward L b (f a)) \<Longrightarrow> forward L b (need u x f)"
  by (cases x) auto

lemma forward_fetch: "(\<And>v. forward L b (f v)) \<Longrightarrow> forward L b (fetch get e pc f)"
  unfolding fetch_def by (rule forward_need)

lemma forward_range_search:
  "forward L b k \<Longrightarrow> forward L b (range_search get w e pc c idx_min idx_max k)"
proof (induction "Suc idx_max - idx_min" arbitrary: idx_min idx_max rule: less_induct)
  case less
  show ?case by (subst range_search.simps) (auto simp: Let_def intro!: forward_fetch less)
qed

lemma forward_back_ref_forward: "L < pc \<Longrightarrow> forward L b (back_ref_forward e ic pc p1 p1_end cp)"
proof (induction "p1_end - p1" arbitrary: p1 cp rule: less_induct)
  case less
  show ?case
    by (subst back_ref_forward.simps)
       (use less.prems in \<open>auto intro!: forward_need less diff_less_mono2 dest!: get_char_less\<close>)
qed

lemma forward_back_ref_backward: "L < pc \<Longrightarrow> forward L b (back_ref_backward e ic pc p1 p1_start cp)"
proof (induction p1 arbitrary: cp rule: less_induct)
  case (less p1)
  show ?case
    by (subst back_ref_backward.simps)
       (use less.prems in \<open>auto intro!: forward_need less dest: get_prev_char_less\<close>)
qed

lemma forward_back_ref_groups: "L < pc \<Longrightarrow> forward L b (back_ref_groups e backward ic caps pc1 n pc cp)"
  by (induction n arbitrary: pc1)
     (auto intro!: forward_fetch forward_need forward_back_ref_forward forward_back_ref_backward
       split: slot.splits)

lemma forward_reset_saves: "(\<And>b. forward L b k) \<Longrightarrow> forward L b (reset_saves vals k)"
  by (induction vals arbitrary: b) auto

lemma less_operand: "L < pc \<Longrightarrow> L < pc + 1 + uint (v :: 'w :: len word)"
  using uint_ge_0 [of v] by linarith

lemma forward_back_reference: "L < pc \<Longrightarrow> forward L b (instr_back_reference e backward ic caps pc cp)"
  unfolding instr_back_reference_def
  by (intro forward_fetch forward_back_ref_groups) (rule less_operand)

lemma forward_range_end: "L < pc \<Longrightarrow> forward L b (Next (pc + 2 + k * uint (n :: u32)) cp)" if "0 \<le> k" for k
  using mult_nonneg_nonneg [OF that, of "uint n"] by simp

lemma forward_ranges:
  "L < pc \<Longrightarrow> forward L b (instr_range e ic pc cp)" "L < pc \<Longrightarrow> forward L b (instr_range32 e ic pc cp)"
  unfolding instr_range_def instr_range32_def Let_def
  by (auto intro!: forward_fetch forward_need forward_range_search forward_range_end simp del: forward.simps(1))

lemma forward_word_boundary: "L < pc \<Longrightarrow> forward L b (instr_word_boundary e ic bd pc cp)"
  unfolding instr_word_boundary_def by (intro forward_need) simp

lemma forward_save_reset: "L < pc \<Longrightarrow> forward L b (instr_save_reset e pc cp)"
  unfolding instr_save_reset_def by (auto intro!: forward_fetch forward_reset_saves)

lemma forward_lookahead:
  assumes "lookahead_forward e L" "get_u8 (bc_buf e) (nat L) = Some opcode" "op_of opcode = Some REOP_lookahead"
  shows "forward L False (instr_lookahead e Lookahead (L + 1) cp)"
proof -
  have "forward L False (Push Lookahead (L + 1 + 4 + sint val) cp (Next (L + 1 + 4) cp))"
    if "get_u32 (bc_buf e) (nat (L + 1)) = Some val" for val
    using assms that by (simp add: lookahead_forward_def)
  then show ?thesis
    unfolding instr_lookahead_def fetch_def Let_def by (intro forward_need) (auto split: if_splits)
qed

lemma instr_op_forward:
  assumes "op \<noteq> REOP_lookahead" "op \<noteq> REOP_lookahead_match"
  shows "forward L False (instr_op e caps op (L + 1) cp)"
  using assms
  by (cases op)
     (auto simp: instr_char32_def instr_char_def test_char_def instr_class_def instr_line_start_def
       instr_line_end_def instr_prev_def instr_split_def instr_lookahead_def instr_goto_def register_def
       instr_save_def instr_set_i32_def instr_loop_def
       instr_loop_split_def instr_set_char_pos_def instr_check_advance_def Let_def
       intro!: forward_fetch forward_need forward_back_reference forward_ranges forward_save_reset
       forward_word_boundary)

lemma instr_forward:
  assumes "lookahead_forward e L"
  shows "instr e caps L cp = Lookahead_matched \<or> forward L False (instr e caps L cp)"
proof (cases "L < 0 \<or> get_u8 (bc_buf e) (nat L) = None")
  case True
  then show ?thesis by (auto simp: instr_def fetch_def)
next
  case False
  then obtain v where v: "get_u8 (bc_buf e) (nat L) = Some v" "\<not> L < 0" by auto
  show ?thesis
  proof (cases "op_of v")
    case (Some op)
    then have i: "instr e caps L cp = instr_op e caps op (L + 1) cp" by (simp add: instr_def fetch_def v)
    show ?thesis
      using forward_lookahead [OF assms v(1)] instr_op_forward [of op L e caps cp] Some
      unfolding i by (cases "op = REOP_lookahead"; cases "op = REOP_lookahead_match") auto
  qed (simp add: instr_def fetch_def v)
qed

section \<open>Steps\<close>

text \<open>A host that grants blocks up to \<open>M\<close> stack elements and does not answer for ever that the matcher
  may go on.\<close>

definition bounded_host :: "'o re_host \<Rightarrow> ('o \<Rightarrow> nat) \<Rightarrow> nat \<Rightarrow> bool" where
  "bounded_host H f M \<longleftrightarrow> 32 \<le> M \<and>
     (\<forall>a a'. check_timeout H a = (False, a') \<longrightarrow> f a' < f a) \<and>
     (\<forall>a n b a'. realloc H a n = (b, a') \<longrightarrow> f a' \<le> f a \<and> (b \<longrightarrow> n \<le> M * 8))"

definition fits :: "nat \<Rightarrow> 'o re_ctx \<Rightarrow> bool" where
  "fits M s \<longleftrightarrow> length (stk s) \<le> stack_size s \<and> stack_size s \<le> M"

lemma poll_rank:
  assumes "lre_poll_timeout H s = (False, s')" "bounded_host H f M"
  shows "(rank f s', rank f s) \<in> pair_order" "fits M s' = fits M s" "stk s' = stk s" "bp s' = bp s"
    "capture s' = capture s"
proof -
  obtain b a where c: "check_timeout H (opaque s) = (b, a)" by fastforce
  then have "\<not> b \<Longrightarrow> f a < f (opaque s)" using assms(2) by (simp add: bounded_host_def)
  then show "(rank f s', rank f s) \<in> pair_order" "fits M s' = fits M s" "stk s' = stk s" "bp s' = bp s"
    "capture s' = capture s"
    using assms(1) c by (auto simp: lre_poll_timeout_def Let_def rank_def fits_def split: if_splits)
qed

lemma space_rank:
  assumes "check_stack_space H n s = (True, s')" "bounded_host H f M" "fits M s"
  shows "(rank f s', rank f s) \<in> pair_order\<^sup>=" "length (stk s') + n \<le> stack_size s'" "fits M s'"
    "stk s' = stk s" "bp s' = bp s" "capture s' = capture s"
proof -
  have "(rank f s', rank f s) \<in> pair_order\<^sup>= \<and> length (stk s') + n \<le> stack_size s' \<and> fits M s'"
    using assms(1)
  proof (cases rule: check_stack_space_cases)
    case (grown size a)
    then have "f a \<le> f (opaque s) \<and> size * 8 \<le> M * 8" using assms(2) unfolding bounded_host_def by blast
    then show ?thesis using grown by (auto simp: rank_def fits_def)
  qed (use assms(3) in \<open>auto\<close>)
  then show "(rank f s', rank f s) \<in> pair_order\<^sup>=" "length (stk s') + n \<le> stack_size s'" "fits M s'" by auto
  show "stk s' = stk s" "bp s' = bp s" "capture s' = capture s"
    using check_stack_space_keeps(1-3) [OF assms(1)] by auto
qed

lemma pop_states_length: "pop_states stack b caps = Some (Resume pc cp stack' b' caps') \<Longrightarrow> length stack' \<le> length stack"
proof (induction stack b caps rule: pop_states.induct)
  case (1 stack b caps)
  obtain st1 cs1 where u: "undo_captures stack b caps = Some (st1, cs1)" "b \<noteq> 0"
    using 1(2) unfolding pop_states.simps [of stack b] by (auto split: if_splits option.splits)
  note l = undo_captures_length [OF u(1)]
  obtain pc1 cp1 ty b1 where t: "top_state st1 (length st1) = Some (pc1, cp1, ty, b1)"
    using 1(2) u unfolding pop_states.simps [of stack b] by (auto split: option.splits)
  show ?case
  proof (cases "ty = Lookahead")
    case True
    have "pop_states (take (length st1 - 3) st1) b1 cs1 = Some (Resume pc cp stack' b' caps')"
      using 1(2) u t True unfolding pop_states.simps [of stack b] by simp
    then show ?thesis using 1(1) [OF u(2,1) refl t] True l by fastforce
  next
    case False
    then show ?thesis using 1(2) u t l unfolding pop_states.simps [of stack b] by auto
  qed
qed

lemma no_match_rank:
  assumes "no_match H s = Run pc cp s'" "bounded_host H f M" "fits M s"
  shows "(rank f s', rank f s) \<in> pair_order" "fits M s'"
proof -
  obtain stack b caps where p: "pop_states (stk s) (bp s) (capture s) = Some (Resume pc cp stack b caps)"
    "lre_poll_timeout H (s\<lparr>stk := stack, bp := b, capture := caps\<rparr>) = (False, s')"
    using assms(1) unfolding no_match_def
    by (cases "pop_states (stk s) (bp s) (capture s)") (auto split: resumed.splits prod.splits if_splits)
  note r = poll_rank [OF p(2) assms(2)]
  show "(rank f s', rank f s) \<in> pair_order" "fits M s'"
    using r(1,2) pop_states_length [OF p(1)] assms(3) by (auto simp: rank_def fits_def)
qed

lemma pop_negative_length: "pop_negative stack b caps = Some (stack', b', caps') \<Longrightarrow> length stack' \<le> length stack"
proof (induction stack b caps rule: pop_negative.induct)
  case (1 stack b caps)
  obtain st1 cs1 where u: "undo_captures stack b caps = Some (st1, cs1)"
    using 1(2) unfolding pop_negative.simps [of stack b] by (auto split: option.splits)
  note l = undo_captures_length [OF u]
  obtain pc1 cp1 ty b1 where t: "top_state st1 (length st1) = Some (pc1, cp1, ty, b1)"
    using 1(2) u unfolding pop_negative.simps [of stack b] by (auto split: option.splits)
  show ?case
  proof (cases "ty = Negative_lookahead")
    case False
    have "pop_negative (take (length st1 - 3) st1) b1 cs1 = Some (stack', b', caps')"
      using 1(2) u t False unfolding pop_negative.simps [of stack b] by simp
    then show ?thesis using 1(1) [OF u refl t] False l by fastforce
  next
    case True
    then show ?thesis using 1(2) u t l unfolding pop_negative.simps [of stack b] by auto
  qed
qed

lemma negative_rank:
  assumes "negative_lookahead_match H s = Run pc cp s'" "bounded_host H f M" "fits M s"
  shows "(rank f s', rank f s) \<in> pair_order" "fits M s'"
proof -
  obtain stack b caps where p: "pop_negative (stk s) (bp s) (capture s) = Some (stack, b, caps)"
    "no_match H (s\<lparr>stk := stack, bp := b, capture := caps\<rparr>) = Run pc cp s'"
    using assms(1) unfolding negative_lookahead_match_def by (auto split: option.splits)
  have "fits M (s\<lparr>stk := stack, bp := b, capture := caps\<rparr>)"
    using pop_negative_length [OF p(1)] assms(3) by (simp add: fits_def)
  then show "(rank f s', rank f s) \<in> pair_order" "fits M s'"
    using no_match_rank [OF p(2) assms(2)] by (auto simp: rank_def)
qed

lemma drop_states_length: "drop_states stack sp b = Some (pc, cp, stack', sp', b') \<Longrightarrow> length stack' = length stack"
proof (induction stack sp b rule: drop_states.induct)
  case (1 stack sp b)
  obtain pc1 cp1 ty b1 where t: "top_state stack b = Some (pc1, cp1, ty, b1)"
    using 1(2) unfolding drop_states.simps [of stack sp] by (auto split: option.splits)
  show ?case
    using 1(1) [OF t refl refl refl refl] 1(2) t unfolding drop_states.simps [of stack sp]
    by (auto simp: Let_def split: if_splits)
qed

lemma copy_run_length: "copy_run stack sp sp1 next_sp = Some (stack', sp', sp1') \<Longrightarrow> length stack' = length stack"
proof (induction stack sp sp1 next_sp rule: copy_run.induct)
  case (1 stack sp sp1 next_sp)
  show ?case
  proof (cases "sp1 < next_sp")
    case True
    then obtain x stack1 where x: "rd stack sp1 = Some x" "wr stack sp x = Some stack1"
      "copy_run stack1 (sp + 1) (sp1 + 1) next_sp = Some (stack', sp', sp1')"
      using 1(2) unfolding copy_run.simps [of stack sp] by (simp add: bind_Some_iff)
    then show ?thesis using 1(1) [OF True x] by (auto simp: wr_Some_iff)
  next
    case False
    then show ?thesis using 1(2) unfolding copy_run.simps [of stack sp] by simp
  qed
qed

lemma copy_undo_length: "copy_undo stack sp sp1 sp_top = Some (stack', sp') \<Longrightarrow> length stack' = length stack"
proof (induction stack sp sp1 sp_top rule: copy_undo.induct)
  case (1 stack sp sp1 sp_top)
  show ?case
  proof (cases "sp1 < sp_top")
    case True
    then obtain next_sp st1 sp2 sp3 where x: "rd stack (sp1 + 2) = Some (Sp next_sp)"
      "copy_run stack sp (sp1 + 3) next_sp = Some (st1, sp2, sp3)" "copy_undo st1 sp2 sp3 sp_top = Some (stack', sp')"
      using 1(2) unfolding copy_undo.simps [of stack sp] by (auto split: option.splits stack_elem.splits)
    then show ?thesis using 1(1) [OF True x(1) refl x(2) refl refl x(3)] copy_run_length [OF x(2)] by simp
  next
    case False
    then show ?thesis using 1(2) unfolding copy_undo.simps [of stack sp] by simp
  qed
qed

lemma lookahead_rank:
  assumes "lookahead_match s = Run pc cp s'" "fits M s"
  shows "rank f s' = rank f s" "fits M s'"
proof -
  obtain pc1 cp1 stack sp b where d: "drop_states (stk s) (length (stk s)) (bp s) = Some (pc1, cp1, stack, sp, b)"
    using assms(1) by (auto simp: lookahead_match_def split: option.splits)
  have "length (stk s') \<le> length (stk s) \<and> s' = s\<lparr>stk := stk s', bp := bp s'\<rparr>"
  proof (cases "sp = 0")
    case False
    then obtain st1 sp1 where "copy_undo stack sp sp (length (stk s)) = Some (st1, sp1)"
      using assms(1) d by (auto simp: lookahead_match_def split: option.splits)
    then show ?thesis
      using assms(1) d False copy_undo_length drop_states_length [OF d] by (auto simp: lookahead_match_def)
  qed (use assms(1) d in \<open>auto simp: lookahead_match_def\<close>)
  then show "rank f s' = rank f s" "fits M s'" using assms(2) by (cases s'; auto simp: rank_def fits_def)+
qed

lemma rank_trans: "(x, y) \<in> pair_order\<^sup>= \<Longrightarrow> (y, z) \<in> pair_order\<^sup>= \<Longrightarrow> (x, z) \<in> pair_order\<^sup>="
  by (cases x; cases y; cases z) auto

lemma rank_less_trans: "(x, y) \<in> pair_order\<^sup>= \<Longrightarrow> (y, z) \<in> pair_order \<Longrightarrow> (x, z) \<in> pair_order"
  by (cases x; cases y; cases z) auto

text \<open>No operation raises the rank or breaks the capacity of the stack.\<close>

lemma saved_rank:
  "rank f (s\<lparr>stk := xs\<rparr>) = rank f s" "rank f (s\<lparr>capture := cs\<rparr>) = rank f s" "rank f (s\<lparr>bp := b\<rparr>) = rank f s"
  "fits M (s\<lparr>capture := cs\<rparr>) = fits M s"
  "stack_size s \<le> M \<Longrightarrow> length xs \<le> stack_size s \<Longrightarrow> fits M (s\<lparr>stk := xs, capture := cs\<rparr>)"
  "stack_size s \<le> M \<Longrightarrow> length xs \<le> stack_size s \<Longrightarrow> fits M (s\<lparr>stk := xs, bp := b\<rparr>)"
  by (simp_all add: rank_def fits_def)

lemma perform_rank:
  assumes H: "bounded_host H f M"
  shows "perform H k s = Run pc cp s' \<Longrightarrow> fits M s \<Longrightarrow> (rank f s', rank f s) \<in> pair_order\<^sup>= \<and> fits M s'"
proof (induction k arbitrary: s)
  case No_match
  then show ?case using no_match_rank [of H s pc cp s', OF _ H] by simp
next
  case Lookahead_matched
  then show ?case using lookahead_rank [of s pc cp s'] by simp
next
  case Negative_lookahead_matched
  then show ?case using negative_rank [of H s pc cp s', OF _ H] by simp
next
  case (Poll k)
  obtain s1 where p: "lre_poll_timeout H s = (False, s1)" "perform H k s1 = Run pc cp s'"
    using Poll.prems by (auto split: prod.splits if_splits)
  show ?case using Poll.IH [OF p(2)] poll_rank(1,2) [OF p(1) H] Poll.prems(2) rank_trans by blast
next
  case (Check_stack n k)
  obtain s1 where p: "check_stack_space H n s = (True, s1)" "perform H k s1 = Run pc cp s'"
    using Check_stack.prems by (auto split: prod.splits if_splits)
  show ?case using Check_stack.IH [OF p(2)] space_rank(1,3) [OF p(1) H Check_stack.prems(2)] rank_trans by blast
next
  case (Save i v k)
  obtain s1 old where p: "check_stack_space H 2 s = (True, s1)"
    "perform H k (s1\<lparr>stk := stk s1 @ [Idx i, Saved old], capture := (capture s1)[i := v]\<rparr>) = Run pc cp s'"
    using Save.prems by (auto split: prod.splits if_splits option.splits)
  note r = space_rank [OF p(1) H Save.prems(2)]
  then show ?case using Save.IH [OF p(2)] rank_trans [OF _ r(1)] by (simp add: saved_rank fits_def)
next
  case (Save_check i v k)
  show ?case
  proof (cases "already_saved (stk s) (bp s) i (length (stk s)) = Some True")
    case True
    then obtain cap where "perform H k (s\<lparr>capture := cap\<rparr>) = Run pc cp s'"
      using Save_check.prems by (auto split: option.splits)
    from Save_check.IH [OF this] show ?thesis using Save_check.prems(2) by (simp add: saved_rank)
  next
    case False
    then obtain s1 old where p: "check_stack_space H 2 s = (True, s1)"
      "perform H k (s1\<lparr>stk := stk s1 @ [Idx i, Saved old], capture := (capture s1)[i := v]\<rparr>) = Run pc cp s'"
      using Save_check.prems by (auto split: prod.splits if_splits option.splits bool.splits)
    note r = space_rank [OF p(1) H Save_check.prems(2)]
    then show ?thesis using Save_check.IH [OF p(2)] rank_trans [OF _ r(1)] by (simp add: saved_rank fits_def)
  qed
next
  case (Push st pc1 cp1 k)
  obtain s1 where p: "check_stack_space H 3 s = (True, s1)"
    "perform H k (s1\<lparr>stk := stk s1 @ [Pc pc1, Cp cp1, Bp (bp s1) st], bp := length (stk s1) + 3\<rparr>) = Run pc cp s'"
    using Push.prems by (auto split: prod.splits if_splits)
  note r = space_rank [OF p(1) H Push.prems(2)]
  then show ?case using Push.IH [OF p(2)] rank_trans [OF _ r(1)] by (simp add: saved_rank fits_def)
qed auto

section \<open>Progress between two polls\<close>

lemma holds_keeps: "holds d0 fs s \<Longrightarrow> stk s' = stk s \<Longrightarrow> bp s' = bp s \<Longrightarrow> capture s' = capture s \<Longrightarrow> holds d0 fs s'"
  by (simp add: holds_def)

lemma holds_capture: "holds d0 fs s \<Longrightarrow> holds d0 fs (s\<lparr>capture := (capture s)[i := v]\<rparr>)"
  by (simp add: holds_def)

lemma holds_saved:
  assumes "holds d0 fs s" "i < length (capture s)"
  obtains d0' fs' where "holds d0' fs' (s\<lparr>stk := stk s @ [Idx i, Saved x], capture := (capture s)[i := v]\<rparr>)"
    "levels M C d0' fs' = levels M C d0 fs"
proof -
  obtain d0' fs' where m: "more_saves d0 fs [(i, x)] = (d0', fs')" by fastforce
  have "holds d0' fs' (s\<lparr>stk := stk s @ pairs [(i, x)]\<rparr>)"
    using holds_more_saves(1) [OF assms(1) _ m] assms(2) by simp
  then have "holds d0' fs' (s\<lparr>stk := stk s @ [Idx i, Saved x], capture := (capture s)[i := v]\<rparr>)"
    using holds_capture [of d0' fs' "s\<lparr>stk := stk s @ pairs [(i, x)]\<rparr>" i v] by simp
  then show thesis using that levels_more_saves [OF m] by blast
qed

lemma save_step:
  assumes "check_stack_space H 2 s = (True, s1)" "bounded_host H f M" "fits M s" "holds d0 fs s"
    "rd (capture s1) i = Some old"
  obtains t d0' fs' where "t = s1\<lparr>stk := stk s1 @ [Idx i, Saved old], capture := (capture s1)[i := v]\<rparr>"
    "fits M t" "holds d0' fs' t" "levels M C d0' fs' = levels M C d0 fs" "(rank f t, rank f s) \<in> pair_order\<^sup>="
    "length (stk t) = length (stk s) + 2"
proof -
  define t where "t = s1\<lparr>stk := stk s1 @ [Idx i, Saved old], capture := (capture s1)[i := v]\<rparr>"
  note r = space_rank [OF assms(1-3)]
  have h: "holds d0 fs s1" using assms(4) r(4-6) by (rule holds_keeps)
  have i: "i < length (capture s1)" using assms(5) by (simp add: rd_Some_iff)
  obtain d0' fs' where "holds d0' fs' t" "levels M C d0' fs' = levels M C d0 fs"
    unfolding t_def by (rule holds_saved [OF h i])
  moreover have "fits M t" "rank f t = rank f s1" "length (stk t) = length (stk s) + 2"
    using r by (simp_all add: t_def fits_def saved_rank)
  ultimately show thesis using that [OF t_def] r(1) by simp
qed

lemma rank_step:
  "(r1, r0) \<in> pair_order\<^sup>= \<Longrightarrow> (r', r1) \<in> pair_order \<or> r' = r1 \<and> Q \<Longrightarrow> (r', r0) \<in> pair_order \<or> r' = r0 \<and> Q"
  using rank_less_trans [of r' r1 r0] rank_less_trans [of r1 r0 r0]
  by (metis Un_iff mem_Collect_eq pair_in_Id_conv rank_trans)

text \<open>The position and the stack after an instruction at \<open>L\<close> that started with \<open>n0\<close> stack elements and the
  levels \<open>ls\<close>.\<close>

definition advances :: "nat \<Rightarrow> int \<Rightarrow> (nat \<times> nat) list \<Rightarrow> nat \<Rightarrow> int \<Rightarrow> int \<Rightarrow> 'o re_ctx \<Rightarrow> bool" where
  "advances M C ls n0 L pc s \<longleftrightarrow> (\<exists>d0 fs y r. holds d0 fs s \<and>
     levels M C d0 fs @ [digit M C (length (flat d0 fs)) pc] = ls @ y # r \<and> (y, digit M C n0 L) \<in> pair_order)"

lemma perform_progress:
  assumes H: "bounded_host H f M" and L: "L < C"
  shows "perform H k s = Run pc cp s' \<Longrightarrow> fits M s \<Longrightarrow> holds d0 fs s \<Longrightarrow> forward L b k \<Longrightarrow>
    (if b then n0 < length (stk s) else n0 \<le> length (stk s)) \<Longrightarrow>
    (rank f s', rank f s) \<in> pair_order \<or> rank f s' = rank f s \<and> advances M C (levels M C d0 fs) n0 L pc s'"
proof (induction k arbitrary: s d0 fs b)
  case (Next pc1 cp1)
  then have s: "s' = s" "pc1 = pc" "length (flat d0 fs) = length (stk s)" by (auto simp: holds_def)
  have "(digit M C (length (stk s)) pc, digit M C n0 L) \<in> pair_order"
    using Next s L by (intro digit_less) (auto simp: fits_def split: if_splits)
  then show ?case using Next.prems(3) s unfolding advances_def by fastforce
next
  case No_match
  then show ?case using no_match_rank [of H s pc cp s', OF _ H] by simp
next
  case Negative_lookahead_matched
  then show ?case using negative_rank [of H s pc cp s', OF _ H] by simp
next
  case (Poll k)
  obtain s1 where p: "lre_poll_timeout H s = (False, s1)" "perform H k s1 = Run pc cp s'"
    using Poll.prems(1) by (auto split: prod.splits if_splits)
  note r = poll_rank [OF p(1) H]
  have "(rank f s', rank f s1) \<in> pair_order\<^sup>=" using perform_rank [OF H p(2)] r(2) Poll.prems(2) by simp
  then show ?case using r(1) rank_less_trans by blast
next
  case (Check_stack n k)
  obtain s1 where p: "check_stack_space H n s = (True, s1)" "perform H k s1 = Run pc cp s'"
    using Check_stack.prems(1) by (auto split: prod.splits if_splits)
  note r = space_rank [OF p(1) H Check_stack.prems(2)]
  have "(rank f s', rank f s1) \<in> pair_order \<or> rank f s' = rank f s1 \<and> advances M C (levels M C d0 fs) n0 L pc s'"
    using Check_stack.prems(4,5) r(4)
    by (intro Check_stack.IH [OF p(2) r(3) holds_keeps [OF Check_stack.prems(3) r(4-6)], of b]) auto
  then show ?case by (rule rank_step [OF r(1)])
next
  case (Save i v k)
  obtain s1 old where p: "check_stack_space H 2 s = (True, s1)" "rd (capture s1) i = Some old"
    "perform H k (s1\<lparr>stk := stk s1 @ [Idx i, Saved old], capture := (capture s1)[i := v]\<rparr>) = Run pc cp s'"
    using Save.prems(1) by (auto split: prod.splits if_splits option.splits)
  obtain t d0' fs' where t: "t = s1\<lparr>stk := stk s1 @ [Idx i, Saved old], capture := (capture s1)[i := v]\<rparr>"
    "fits M t" "holds d0' fs' t" "levels M C d0' fs' = levels M C d0 fs" "(rank f t, rank f s) \<in> pair_order\<^sup>="
    "length (stk t) = length (stk s) + 2"
    by (rule save_step [OF p(1) H Save.prems(2,3) p(2)])
  have "(rank f s', rank f t) \<in> pair_order \<or> rank f s' = rank f t \<and> advances M C (levels M C d0' fs') n0 L pc s'"
    using Save.prems(4,5) t(6) p(3) unfolding t(1) [symmetric]
    by (intro Save.IH [OF _ t(2,3), of True]) (auto split: if_splits)
  then show ?case unfolding t(4) by (rule rank_step [OF t(5)])
next
  case (Save_check i v k)
  show ?case
  proof (cases "already_saved (stk s) (bp s) i (length (stk s)) = Some True")
    case True
    then have p: "perform H k (s\<lparr>capture := (capture s)[i := v]\<rparr>) = Run pc cp s'"
      using Save_check.prems(1) by (auto simp: wr_Some_iff split: option.splits)
    show ?thesis
      using Save_check.IH [OF p _ holds_capture [OF Save_check.prems(3)], of b] Save_check.prems(2,4,5)
      by (simp add: saved_rank)
  next
    case False
    then obtain s1 old where p: "check_stack_space H 2 s = (True, s1)" "rd (capture s1) i = Some old"
      "perform H k (s1\<lparr>stk := stk s1 @ [Idx i, Saved old], capture := (capture s1)[i := v]\<rparr>) = Run pc cp s'"
      using Save_check.prems(1) by (auto split: prod.splits if_splits option.splits bool.splits)
    obtain t d0' fs' where t: "t = s1\<lparr>stk := stk s1 @ [Idx i, Saved old], capture := (capture s1)[i := v]\<rparr>"
      "fits M t" "holds d0' fs' t" "levels M C d0' fs' = levels M C d0 fs" "(rank f t, rank f s) \<in> pair_order\<^sup>="
      "length (stk t) = length (stk s) + 2"
      by (rule save_step [OF p(1) H Save_check.prems(2,3) p(2)])
    have "(rank f s', rank f t) \<in> pair_order \<or> rank f s' = rank f t \<and> advances M C (levels M C d0' fs') n0 L pc s'"
      using Save_check.prems(4,5) t(6) p(3) unfolding t(1) [symmetric]
      by (intro Save_check.IH [OF _ t(2,3), of b]) (auto split: if_splits)
    then show ?thesis unfolding t(4) by (rule rank_step [OF t(5)])
  qed
next
  case (Push st pc1 cp1 k)
  obtain s1 where p: "check_stack_space H 3 s = (True, s1)"
    "perform H k (s1\<lparr>stk := stk s1 @ [Pc pc1, Cp cp1, Bp (bp s1) st], bp := length (stk s1) + 3\<rparr>) = Run pc cp s'"
    using Push.prems(1) by (auto split: prod.splits if_splits)
  define t where "t = s1\<lparr>stk := stk s1 @ [Pc pc1, Cp cp1, Bp (bp s1) st], bp := length (stk s1) + 3\<rparr>"
  define fs' where "fs' = (pc1, cp1, st, []) # fs"
  note r = space_rank [OF p(1) H Push.prems(2)]
  have h: "holds d0 fs s1" using Push.prems(3) r(4-6) by (rule holds_keeps)
  then have t: "holds d0 fs' t" by (simp add: holds_def t_def fs'_def)
  have k: "fits M t" "rank f t = rank f s1" "length (stk t) = length (stk s) + 3"
    using r by (simp_all add: t_def fits_def saved_rank)
  have "(rank f s', rank f t) \<in> pair_order \<or> rank f s' = rank f t \<and> advances M C (levels M C d0 fs) n0 L pc s'"
  proof (cases "st = Lookahead")
    case True
    then obtain q where "L < pc1" "k = Next pc q" "s' = t"
      using Push.prems(4) p(2) unfolding t_def by auto
    moreover have "length (flat d0 fs) = length (stk s)" using Push.prems(3) by (simp add: holds_def)
    moreover have "(digit M C (length (stk s)) pc1, digit M C n0 L) \<in> pair_order"
      using Push.prems(2,5) L \<open>L < pc1\<close> by (intro digit_less) (auto simp: fits_def split: if_splits)
    ultimately show ?thesis using t True unfolding advances_def fs'_def by fastforce
  next
    case False
    have "levels M C d0 fs' = levels M C d0 fs" using False by (simp add: fs'_def)
    then show ?thesis
      using Push.IH [OF p(2) [folded t_def] k(1) t, of True] Push.prems(4,5) False k(3) by (simp split: if_splits)
  qed
  then show ?case unfolding k(2) by (rule rank_step [OF r(1)])
qed auto

abbreviation "code_end e \<equiv> int (length (bc_buf e))"
abbreviation "step_order \<equiv> pair_order <*lex*> lex pair_order"

lemma wf_step_order: "wf step_order"
  by (intro wf_lex_prod wf_lex wf_less_than)

lemma advances_progress:
  assumes "advances M C (levels M C d0 fs) (length (flat d0 fs)) L pc s" "length (flat d0 fs) \<le> M" "fits M s"
  obtains d0' fs' where "holds d0' fs' s" "(progress M C d0' fs' pc, progress M C d0 fs L) \<in> lex pair_order"
proof -
  obtain d0' fs' y r where a: "holds d0' fs' s" "(y, digit M C (length (flat d0 fs)) L) \<in> pair_order"
    "levels M C d0' fs' @ [digit M C (length (flat d0' fs')) pc] = levels M C d0 fs @ y # r"
    using assms(1) unfolding advances_def by blast
  have "length (flat d0' fs') \<le> M" using a(1) assms(3) by (simp add: holds_def fits_def)
  then have "length (levels M C d0 fs @ y # r) \<le> M + 2" "length (levels M C d0 fs @ [digit M C (length (flat d0 fs)) L]) \<le> M + 2"
    using length_levels [of M C d0 fs] length_levels [of M C d0' fs'] assms(2) unfolding a(3) [symmetric] by auto
  then have "(progress M C d0' fs' pc, progress M C d0 fs L) \<in> lex pair_order"
    unfolding progress_def a(3) using a(2) by (intro pad_less)
  then show thesis using that a(1) by blast
qed

lemma lookahead_progress:
  assumes "lookahead_match s = Run pc cp s'" "fits M s" "holds d0 fs s"
  obtains d0' fs' where "holds d0' fs' s'" "(progress M C d0' fs' pc, progress M C d0 fs L) \<in> lex pair_order"
proof -
  have "\<exists>fs0 d cp1 d1 d0' fs'. holds d0' fs' s' \<and> more_saves d0 fs0 d = (d0', fs') \<and>
      dropWhile (\<lambda>(pc, cp, st, d). st \<noteq> Lookahead) fs = (pc, cp1, Lookahead, d1) # fs0"
    using lookahead_match_holds [OF assms(3)] assms(1) by (elim disjE exE conjE) auto
  then obtain fs0 d cp1 d1 d0' fs' where h: "holds d0' fs' s'" "more_saves d0 fs0 d = (d0', fs')"
    "dropWhile (\<lambda>(pc, cp, st, d). st \<noteq> Lookahead) fs = (pc, cp1, Lookahead, d1) # fs0"
    by blast
  define n where "n = length (flat d0 fs0)"
  define n' where "n' = length (flat d0' fs')"
  define cur where "cur = digit M C (length (flat d0 fs)) L"
  have l: "levels M C d0' fs' = levels M C d0 fs0" "n \<le> n'"
    using levels_more_saves [OF h(2)] by (auto simp: n_def n'_def)
  have l0: "levels M C d0 fs = levels M C d0 fs0 @ [digit M C n pc]"
    unfolding n_def by (rule levels_dropWhile [OF h(3)])
  have b: "n' \<le> M" "length (flat d0 fs) \<le> M"
    using h(1) assms(2,3) lookahead_rank(2) [OF assms(1,2)] by (auto simp: n'_def holds_def fits_def)
  have len: "length (levels M C d0 fs0 @ [digit M C n pc, cur]) \<le> M + 2"
    using length_levels [of M C d0 fs] b(2) by (simp add: l0)
  have p: "progress M C d0 fs L = pad (M + 2) (levels M C d0 fs0 @ [digit M C n pc, cur])"
    "progress M C d0' fs' pc = pad (M + 2) (levels M C d0 fs0 @ [digit M C n' pc])"
    by (simp_all add: progress_def l l0 cur_def n'_def)
  have "(progress M C d0' fs' pc, progress M C d0 fs L) \<in> lex pair_order"
  proof (cases "n = n'")
    case True
    then show ?thesis
      using pad_shorter [of "levels M C d0 fs0 @ [digit M C n pc]" cur "[]" "M + 2"] len
      unfolding p by (simp add: cur_def digit_def)
  next
    case False
    then have "(digit M C n' pc, digit M C n pc) \<in> pair_order" using l(2) b(1) by (auto simp: digit_def)
    then show ?thesis unfolding p using pad_less [of _ _ _ "[cur]" "M + 2" "[]"] len by simp
  qed
  then show thesis using that h(1) by blast
qed

lemma step_progress:
  assumes "bounded_host H f M" "lookahead_forward e pc" "fits M s" "holds d0 fs s"
    "ReExec.step H e pc cp s = Run pc' cp' s'"
  obtains d0' fs' where "fits M s'" "holds d0' fs' s'"
    "((rank f s', progress M (code_end e) d0' fs' pc'), (rank f s, progress M (code_end e) d0 fs pc)) \<in> step_order"
proof -
  let ?C = "code_end e" and ?k = "instr e (capture s) pc cp"
  have run: "perform H ?k s = Run pc' cp' s'" using assms(5) by (simp add: step_def)
  have L: "pc < ?C"
  proof (rule ccontr)
    assume "\<not> pc < ?C"
    then have "get_u8 (bc_buf e) (nat pc) = None" by (simp add: get_u8_def rd_def)
    then show False using run by (cases "pc < 0") (simp_all add: instr_def fetch_def)
  qed
  have n: "length (flat d0 fs) = length (stk s)" "length (flat d0 fs) \<le> M"
    using assms(3,4) by (auto simp: holds_def fits_def)
  have f: "fits M s'" using perform_rank [OF assms(1) run assms(3)] by simp
  consider "?k = Lookahead_matched" | "forward pc False ?k" using instr_forward [OF assms(2)] by blast
  then show thesis
  proof cases
    case 1
    then have r: "lookahead_match s = Run pc' cp' s'" using run by simp
    obtain d0' fs' where "holds d0' fs' s'" "(progress M ?C d0' fs' pc', progress M ?C d0 fs pc) \<in> lex pair_order"
      by (rule lookahead_progress [OF r assms(3,4)])
    then show ?thesis using that [OF f] lookahead_rank(1) [OF r assms(3), of f] by simp
  next
    case 2
    then consider (poll) "(rank f s', rank f s) \<in> pair_order"
      | (move) "rank f s' = rank f s" "advances M ?C (levels M ?C d0 fs) (length (flat d0 fs)) pc pc' s'"
      using perform_progress [OF assms(1) L run assms(3,4), of False "length (stk s)"] n by auto
    then show ?thesis
    proof cases
      case poll
      have "agrees H (Run pc' cp' s') (spec_perform ?k (capture s) (choices fs (capture s)))"
        unfolding run [symmetric] by (rule perform_agrees) (use assms(4) in \<open>auto simp: represents_holds\<close>)
      then obtain d0' fs' where "holds d0' fs' s'" by (auto simp: represents_holds)
      then show ?thesis using that [OF f] poll by simp
    next
      case move
      obtain d0' fs' where "holds d0' fs' s'" "(progress M ?C d0' fs' pc', progress M ?C d0 fs pc) \<in> lex pair_order"
        by (rule advances_progress [OF move(2) n(2) f])
      then show ?thesis using that [OF f] move(1) by simp
    qed
  qed
qed

lemma exec_loop_returns:
  assumes H: "bounded_host H f M" and code: "\<And>pc cp s. reachable H e pc0 cp0 s0 pc cp s \<Longrightarrow> lookahead_forward e pc"
  shows "reachable H e pc0 cp0 s0 pc cp s \<Longrightarrow> fits M s \<Longrightarrow> holds d0 fs s \<Longrightarrow> \<exists>r. exec_loop H e pc cp s = Some r"
proof (induction "(rank f s, progress M (code_end e) d0 fs pc)" arbitrary: pc cp s d0 fs rule: wf_induct_rule [OF wf_step_order])
  case less: 1
  show ?case
  proof (cases "ReExec.step H e pc cp s")
    case (Run pc' cp' s')
    obtain d0' fs' where p: "fits M s'" "holds d0' fs' s'"
      "((rank f s', progress M (code_end e) d0' fs' pc'), (rank f s, progress M (code_end e) d0 fs pc)) \<in> step_order"
      by (rule step_progress [OF H code [OF less(2)] less(3,4) Run])
    have "\<exists>r. exec_loop H e pc' cp' s' = Some r"
      using less(1) [OF p(3) reachable.next_step [OF less(2) Run] p(1,2)] .
    then show ?thesis using Run by (simp add: exec_loop.simps [of H e pc])
  qed (simp_all add: exec_loop.simps [of H e pc])
qed

section \<open>The matcher returns\<close>

lemma lre_exec_backtrack_returns:
  assumes "bounded_host H f M"
    "\<And>pc cp s. reachable H e pc0 cp0 (start_ctx caps a) pc cp s \<Longrightarrow> lookahead_forward e pc"
  shows "\<exists>r. lre_exec_backtrack H e caps a pc0 cp0 = Some r"
proof -
  have "fits M (start_ctx caps a)" using assms(1) by (simp add: fits_def start_ctx_def bounded_host_def)
  moreover have "holds [] [] (start_ctx caps a)" by (simp add: holds_def start_ctx_def)
  ultimately show ?thesis
    unfolding lre_exec_backtrack_def using assms by (intro exec_loop_returns [OF assms reachable.start])
qed

text \<open>What C does not define: an argument that is too short, or a step that the run comes to.\<close>

definition undefined_exec ::
  "'o re_host \<Rightarrow> slot list \<Rightarrow> u8 list \<Rightarrow> subject \<Rightarrow> nat \<Rightarrow> 'o \<Rightarrow> undefined_cause \<Rightarrow> bool" where
  "undefined_exec H caps bc t cindex a u \<longleftrightarrow>
     (case re_env_of bc t of None \<Rightarrow> u = Bad_code
      | Some e \<Rightarrow>
          if length caps < 2 * capture_count e then u = Bad_slot
          else case start_pos e cindex of None \<Rightarrow> u = Bad_text
          | Some cp0 \<Rightarrow>
              \<exists>pc cp s. reachable H e 8 cp0
                  (start_ctx (replicate (2 * capture_count e) Null @ drop (2 * capture_count e) caps) a) pc cp s
                \<and> ReExec.step H e pc cp s = Undef u)"

lemma exec_loop_undefined:
  "exec_loop H e pc cp s = Some r \<Longrightarrow> r = Undef u \<Longrightarrow> reachable H e pc0 cp0 s0 pc cp s \<Longrightarrow>
    \<exists>pc cp s. reachable H e pc0 cp0 s0 pc cp s \<and> ReExec.step H e pc cp s = Undef u"
proof (induction rule: exec_loop_induct)
  case (step loop H e pc cp s r)
  show ?case
  proof (cases "ReExec.step H e pc cp s")
    case (Run pc' cp' s')
    then show ?thesis using step.IH [OF _ step.prems(1) reachable.next_step [OF step.prems(2) Run]] step.hyps by simp
  next
    case (Undef v)
    then show ?thesis using step.hyps step.prems by auto
  qed (use step.hyps step.prems in simp)
qed

text \<open>Property C5 (liveness): \<open>lre_exec\<close> ends. The host may answer for any time, but not for ever, that
  the matcher may go on (each answer lowers \<open>f\<close>), and grants at most \<open>M\<close> stack elements; and no run
  reaches a lookahead instruction that continues before itself. Then the matcher either returns 1, 0
  or one of its three error codes, or the run comes to a step (or the call has an argument) whose
  behaviour C leaves undefined or which aborts the program: an unknown opcode, or a lookahead end
  without a lookahead, for example. In particular it returns a code whenever every step it
  reaches is defined. Loops that read no character, splits back, and nested lookaheads need no
  further condition: each way round a loop polls or takes memory.\<close>

theorem lre_exec_returns:
  assumes "bounded_host H f M"
    "\<And>e caps cp0 pc cp s. re_env_of bc t = Some e \<Longrightarrow> reachable H e 8 cp0 (start_ctx caps a) pc cp s \<Longrightarrow>
      lookahead_forward e pc"
  shows "(\<exists>r caps' a'. lre_exec H caps bc t cindex a = Some (Inr (r, caps', a'))
      \<and> r \<in> {1, 0, LRE_RET_MEMORY_ERROR, LRE_RET_TIMEOUT, LRE_RET_BYTECODE_ERROR})
    \<or> (\<exists>u. lre_exec H caps bc t cindex a = Some (Inl u) \<and> undefined_exec H caps bc t cindex a u)"
proof (cases "re_env_of bc t")
  case e: (Some e)
  show ?thesis
  proof (cases "length caps < 2 * capture_count e \<or> start_pos e cindex = None")
    case True
    then show ?thesis by (auto simp: lre_exec_def undefined_exec_def e)
  next
    case False
    then obtain cp where cp: "\<not> length caps < 2 * capture_count e" "start_pos e cindex = Some cp" by auto
    define cs where "cs = replicate (2 * capture_count e) Null @ drop (2 * capture_count e) caps"
    obtain x where x: "lre_exec_backtrack H e cs a 8 cp = Some x"
      using lre_exec_backtrack_returns [OF assms(1)] assms(2) e by blast
    note loop = x [unfolded lre_exec_backtrack_def]
    have res: "lre_exec H caps bc t cindex a = (case x of
        Ret r s \<Rightarrow> Some (Inr (r, capture s, if on_heap s then snd (realloc H (opaque s) 0) else opaque s))
      | Undef u \<Rightarrow> Some (Inl u) | Run _ _ _ \<Rightarrow> None)"
      using e cp x by (simp add: lre_exec_def cs_def split: outcome.split)
    show ?thesis
    proof (cases x)
      case (Run pc' cp' s')
      then show ?thesis using exec_loop_result loop by blast
    next
      case (Ret r s)
      have "caused H e (Ret r s)"
        by (rule exec_loop_caused [OF loop [unfolded Ret]]) (simp add: start_ctx_def)
      then have "r \<in> {1, 0, LRE_RET_MEMORY_ERROR, LRE_RET_TIMEOUT, LRE_RET_BYTECODE_ERROR}"
        by (auto simp: return_cause_def)
      then show ?thesis unfolding res Ret by simp
    next
      case (Undef u)
      then have "undefined_exec H caps bc t cindex a u"
        using exec_loop_undefined [OF loop Undef reachable.start] e cp by (simp add: undefined_exec_def cs_def)
      then show ?thesis unfolding res Undef by simp
    qed
  qed
qed (simp add: lre_exec_def undefined_exec_def)

text \<open>Byte code of \<^verbatim>\<open>(?=a)a\<close> and a host that stops the matcher at its fourth poll.\<close>

definition patient_host :: "nat re_host" where
  "patient_host = \<lparr>check_timeout = (\<lambda>a. if a = 0 then (True, 0) else (False, a - 1)),
     realloc = (\<lambda>a n. (n \<le> 4096, a))\<rparr>"

definition lookahead_code :: "u8 list" where
  "lookahead_code = [0, 0, 1, 0, 17, 0, 0, 0, 19, 0, 40, 4, 0, 0, 0, 1, 97, 0, 17, 1, 97, 0, 20, 0, 16]"

lemma lookahead_code_forward:
  assumes "re_env_of lookahead_code t = Some e"
  shows "lookahead_forward e pc"
proof -
  have bc: "bc_buf e = lookahead_code"
    using assms by (auto simp: re_env_of_def bind_Some_iff Let_def)
  have "list_all (\<lambda>n. case get_u8 lookahead_code n of None \<Rightarrow> True
      | Some opcode \<Rightarrow> op_of opcode = Some REOP_lookahead \<longrightarrow> n = 10) [0..<25]"
    by code_simp
  moreover have "get_u8 lookahead_code n = None" if "25 \<le> n" for n
    using that by (simp add: get_u8_def rd_def lookahead_code_def)
  ultimately have "case get_u8 lookahead_code (nat pc) of None \<Rightarrow> True
      | Some opcode \<Rightarrow> op_of opcode = Some REOP_lookahead \<longrightarrow> nat pc = 10"
    by (cases "nat pc < 25") (auto simp: list_all_iff simp flip: not_less)
  moreover have "nat (pc + 1) = 11" if "nat pc = 10" using that by simp
  moreover have "get_u32 lookahead_code 11 = Some 4" by code_simp
  ultimately show ?thesis unfolding lookahead_forward_def bc by (auto split: option.splits)
qed

text \<open>Code that ends a lookahead which it has not begun, and code with an unknown opcode.\<close>

lemma undefined_examples:
  "lre_exec patient_host [Null, Null] [0, 0, 1, 0, 1, 0, 0, 0, 17] (Bytes8 [97]) 0 3 = Some (Inl Bad_stack)"
  "lre_exec patient_host [Null, Null] [0, 0, 1, 0, 1, 0, 0, 0, 0] (Bytes8 [97]) 0 3 = Some (Inl Aborted)"
  by code_simp+

theorem lre_exec_returns_witness:
  "(\<exists>r caps' a'. lre_exec patient_host [Null, Null] lookahead_code (Bytes8 [97]) 0 3 = Some (Inr (r, caps', a'))
      \<and> r \<in> {1, 0, LRE_RET_MEMORY_ERROR, LRE_RET_TIMEOUT, LRE_RET_BYTECODE_ERROR})
    \<or> (\<exists>u. lre_exec patient_host [Null, Null] lookahead_code (Bytes8 [97]) 0 3 = Some (Inl u)
      \<and> undefined_exec patient_host [Null, Null] lookahead_code (Bytes8 [97]) 0 3 u)"
proof (rule lre_exec_returns [where f = id and M = 512])
  show "bounded_host patient_host id 512" by (auto simp: bounded_host_def patient_host_def split: if_splits)
qed (rule lookahead_code_forward)

end
