(* ===== verification/Gc.thy ===== *)
theory Gc
  imports Prelude
begin

text \<open>
  The cycle collector of \<^verbatim>\<open>quickjs/quickjs.c\<close> up to the point where it knows what to free: the marking
  of the children of an object (\<open>mark_children\<close> with the callbacks of the classes), \<open>gc_decref\<close> and
  \<open>gc_scan\<close>. The heap maps the address of a garbage-collected block to its contents, which these
  passes do not change; the header of a block (reference count and mark) and the lists of blocks are
  the state. A list of the C code is the list of its elements, as theory CircList justifies.
  \<open>None\<close> is a failed assertion, an access to a block that does not exist, or a step along a list from
  a block that is no longer in it.
\<close>

section \<open>The objects\<close>

type_synonym gc_ptr = nat

text \<open>Values that refer to a garbage-collected block (JS_TAG_OBJECT, JS_TAG_FUNCTION_BYTECODE), and all
  others.\<close>

datatype js_value = Object_value gc_ptr | Bytecode_value gc_ptr | Other_value

text \<open>A property with the flags of its shape entry: a deleted entry (JS_ATOM_NULL), or the four kinds
  under JS_PROP_TMASK.\<close>

datatype js_property =
    Deleted
  | Normal js_value
  | Getset "gc_ptr option" "gc_ptr option"
  | Varref gc_ptr
  | Autoinit gc_ptr

text \<open>The class-specific part of an object. \<open>Class_marks\<close> stands for the classes whose callback is not
  written out here and lists the blocks that it marks.\<close>

datatype class_data =
    No_class_data
  | Array_data "js_value list"
  | Object_data js_value
  | C_function "gc_ptr option"
  | C_function_data "js_value list"
  | Bytecode_function "gc_ptr option" "gc_ptr option" "gc_ptr option list"
  | Bound_function js_value js_value "js_value list"
  | For_in_iterator js_value
  | Class_marks "gc_ptr list"

text \<open>The frame of a coroutine: the function, the receiver, and its stack unless it is running.\<close>

record async_state =
  cur_func :: js_value
  this_val :: js_value
  saved_stack :: "js_value list option"

text \<open>The values of a module: attributes of its requests, variables of its local exports, its own values.\<close>

record js_module =
  request_attributes :: "js_value list"
  export_var_refs :: "gc_ptr option list"
  module_values :: "js_value list"

text \<open>A block by its type. The values and the shapes of a context are in the order of their marking.\<close>

datatype gc_obj =
    Js_object gc_ptr "js_property list" "js_value list" class_data
  | Function_bytecode "js_value list" "gc_ptr option"
  | Shape "gc_ptr option"
  | Var_ref bool bool js_value gc_ptr
  | Async_function bool async_state js_value js_value
  | Js_context "js_module list" "js_value list" "gc_ptr option list"

type_synonym gc_heap = "gc_ptr \<Rightarrow> gc_obj option"

section \<open>The children of an object\<close>

text \<open>The blocks that \<open>mark_func\<close> is called on, in order.\<close>

fun JS_MarkValue :: "js_value \<Rightarrow> gc_ptr list" where
  "JS_MarkValue (Object_value p) = [p]"
| "JS_MarkValue (Bytecode_value p) = [p]"
| "JS_MarkValue Other_value = []"

definition mark_values :: "js_value list \<Rightarrow> gc_ptr list" where
  "mark_values vs = concat (map JS_MarkValue vs)"

fun mark_ptr :: "gc_ptr option \<Rightarrow> gc_ptr list" where
  "mark_ptr None = []"
| "mark_ptr (Some p) = [p]"

text \<open>An open variable reference is a garbage-collected block only if it captures a coroutine local.\<close>

definition mark_var_ref :: "gc_heap \<Rightarrow> gc_ptr \<Rightarrow> gc_ptr list option" where
  "mark_var_ref h v =
     (case h v of Some (Var_ref is_detached is_coro value owner) \<Rightarrow>
        Some (if is_detached \<or> is_coro then [v] else [])
      | _ \<Rightarrow> None)"

fun mark_all :: "gc_ptr list option list \<Rightarrow> gc_ptr list option" where
  "mark_all [] = Some []"
| "mark_all (m # ms) = do { ps \<leftarrow> m; qs \<leftarrow> mark_all ms; Some (ps @ qs) }"

definition js_autoinit_mark :: "gc_ptr \<Rightarrow> gc_ptr list" where "js_autoinit_mark realm = [realm]"

fun mark_property :: "gc_heap \<Rightarrow> js_property \<Rightarrow> gc_ptr list option" where
  "mark_property h Deleted = Some []"
| "mark_property h (Normal v) = Some (JS_MarkValue v)"
| "mark_property h (Getset getter setter) = Some (mark_ptr getter @ mark_ptr setter)"
| "mark_property h (Varref v) = mark_var_ref h v"
| "mark_property h (Autoinit realm) = Some (js_autoinit_mark realm)"

definition mark_weak_map_value :: "js_value list \<Rightarrow> gc_ptr list" where
  "mark_weak_map_value values = mark_values values"

text \<open>The callbacks of the classes.\<close>

definition js_array_mark :: "js_value list \<Rightarrow> gc_ptr list" where "js_array_mark values = mark_values values"
definition js_object_data_mark :: "js_value \<Rightarrow> gc_ptr list" where "js_object_data_mark v = JS_MarkValue v"
definition js_c_function_mark :: "gc_ptr option \<Rightarrow> gc_ptr list" where "js_c_function_mark realm = mark_ptr realm"
definition js_c_function_data_mark :: "js_value list \<Rightarrow> gc_ptr list" where
  "js_c_function_data_mark data = mark_values data"

definition js_bytecode_function_mark ::
  "gc_heap \<Rightarrow> gc_ptr option \<Rightarrow> gc_ptr option \<Rightarrow> gc_ptr option list \<Rightarrow> gc_ptr list option" where
  "js_bytecode_function_mark h home_object b var_refs = do {
     vs \<leftarrow> (if b = None then Some []
       else mark_all (map (\<lambda>v. case v of None \<Rightarrow> Some [] | Some v \<Rightarrow> mark_var_ref h v) var_refs));
     Some (mark_ptr home_object @ vs @ mark_ptr b) }"

definition js_bound_function_mark :: "js_value \<Rightarrow> js_value \<Rightarrow> js_value list \<Rightarrow> gc_ptr list" where
  "js_bound_function_mark func this args = JS_MarkValue func @ JS_MarkValue this @ mark_values args"

definition js_for_in_iterator_mark :: "js_value \<Rightarrow> gc_ptr list" where "js_for_in_iterator_mark v = JS_MarkValue v"

fun class_gc_mark :: "gc_heap \<Rightarrow> class_data \<Rightarrow> gc_ptr list option" where
  "class_gc_mark h No_class_data = Some []"
| "class_gc_mark h (Array_data values) = Some (js_array_mark values)"
| "class_gc_mark h (Object_data v) = Some (js_object_data_mark v)"
| "class_gc_mark h (C_function realm) = Some (js_c_function_mark realm)"
| "class_gc_mark h (C_function_data data) = Some (js_c_function_data_mark data)"
| "class_gc_mark h (Bytecode_function home_object b var_refs) = js_bytecode_function_mark h home_object b var_refs"
| "class_gc_mark h (Bound_function func this args) = Some (js_bound_function_mark func this args)"
| "class_gc_mark h (For_in_iterator v) = Some (js_for_in_iterator_mark v)"
| "class_gc_mark h (Class_marks ps) = Some ps"

definition js_mark_module_def :: "js_module \<Rightarrow> gc_ptr list" where
  "js_mark_module_def m =
     mark_values (request_attributes m) @ concat (map mark_ptr (export_var_refs m)) @ mark_values (module_values m)"

definition JS_MarkContext :: "js_module list \<Rightarrow> js_value list \<Rightarrow> gc_ptr option list \<Rightarrow> gc_ptr list" where
  "JS_MarkContext modules values shapes =
     concat (map js_mark_module_def modules) @ mark_values values @ concat (map mark_ptr shapes)"

definition async_func_mark :: "async_state \<Rightarrow> gc_ptr list" where
  "async_func_mark s =
     JS_MarkValue (cur_func s) @ JS_MarkValue (this_val s) @
     (case saved_stack s of None \<Rightarrow> [] | Some vs \<Rightarrow> mark_values vs)"

fun mark_obj :: "gc_heap \<Rightarrow> gc_obj \<Rightarrow> gc_ptr list option" where
  "mark_obj h (Js_object shape props weak_values cls) = do {
     ps \<leftarrow> mark_all (map (mark_property h) props);
     cs \<leftarrow> class_gc_mark h cls;
     Some (shape # ps @ mark_weak_map_value weak_values @ cs) }"
| "mark_obj h (Function_bytecode cpool realm) = Some (mark_values cpool @ mark_ptr realm)"
| "mark_obj h (Var_ref is_detached is_coro value owner) =
     (if is_detached then Some (JS_MarkValue value) else if is_coro then Some [owner] else None)"
| "mark_obj h (Async_function is_active state resolve reject) =
     Some ((if is_active then async_func_mark state else []) @ JS_MarkValue resolve @ JS_MarkValue reject)"
| "mark_obj h (Shape proto) = Some (mark_ptr proto)"
| "mark_obj h (Js_context modules values shapes) = Some (JS_MarkContext modules values shapes)"

definition mark_children :: "gc_heap \<Rightarrow> gc_ptr \<Rightarrow> gc_ptr list option" where
  "mark_children h p = Option.bind (h p) (mark_obj h)"

section \<open>The passes\<close>

record gc_rt =
  heap :: gc_heap
  ref_count :: "gc_ptr \<Rightarrow> int"
  mark :: "gc_ptr \<Rightarrow> nat"
  gc_obj_list :: "gc_ptr list"
  tmp_obj_list :: "gc_ptr list"

text \<open>\<open>list_del\<close> and \<open>list_add_tail\<close> on the two lists; an element is in one of them.\<close>

definition move_to_tmp :: "gc_ptr \<Rightarrow> gc_rt \<Rightarrow> gc_rt" where
  "move_to_tmp p s = s\<lparr>gc_obj_list := remove1 p (gc_obj_list s), tmp_obj_list := remove1 p (tmp_obj_list s) @ [p]\<rparr>"

definition move_to_gc :: "gc_ptr \<Rightarrow> gc_rt \<Rightarrow> gc_rt" where
  "move_to_gc p s = s\<lparr>gc_obj_list := remove1 p (gc_obj_list s) @ [p], tmp_obj_list := remove1 p (tmp_obj_list s)\<rparr>"

text \<open>The element after \<open>p\<close>; \<open>None\<close> inside the option is the head of the list.\<close>

fun next_in :: "gc_ptr list \<Rightarrow> gc_ptr \<Rightarrow> gc_ptr option option" where
  "next_in [] p = None"
| "next_in (q # qs) p = (if q = p then Some (case qs of [] \<Rightarrow> None | r # rs \<Rightarrow> Some r) else next_in qs p)"

fun first_in :: "gc_ptr list \<Rightarrow> gc_ptr option" where
  "first_in [] = None"
| "first_in (q # qs) = Some q"

fun for_children :: "(gc_ptr \<Rightarrow> gc_rt \<Rightarrow> gc_rt option) \<Rightarrow> gc_ptr list \<Rightarrow> gc_rt \<Rightarrow> gc_rt option" where
  "for_children f [] s = Some s"
| "for_children f (p # ps) s = Option.bind (f p s) (for_children f ps)"

definition gc_decref_child :: "gc_ptr \<Rightarrow> gc_rt \<Rightarrow> gc_rt option" where
  "gc_decref_child p s =
     (if \<not> ref_count s p > 0 then None
      else let s = s\<lparr>ref_count := (ref_count s)(p := ref_count s p - 1)\<rparr> in
        Some (if ref_count s p = 0 \<and> mark s p = 1 then move_to_tmp p s else s))"

text \<open>One round of the loop of \<open>gc_decref\<close>, then the rest from the element \<open>el1\<close> saved before the round.\<close>

definition gc_decref_body :: "gc_ptr \<Rightarrow> gc_rt \<Rightarrow> gc_rt option" where
  "gc_decref_body p s =
     (if mark s p \<noteq> 0 then None
      else do {
        cs \<leftarrow> mark_children (heap s) p;
        s \<leftarrow> for_children gc_decref_child cs s;
        let s = s\<lparr>mark := (mark s)(p := 1)\<rparr>;
        Some (if ref_count s p = 0 then move_to_tmp p s else s) })"

partial_function (option) gc_decref_from :: "gc_ptr option \<Rightarrow> gc_rt \<Rightarrow> gc_rt option" where
  "gc_decref_from el s =
     (case el of None \<Rightarrow> Some s
      | Some p \<Rightarrow> do {
          el1 \<leftarrow> next_in (gc_obj_list s) p;
          s \<leftarrow> gc_decref_body p s;
          gc_decref_from el1 s })"

definition gc_decref :: "gc_rt \<Rightarrow> gc_rt option" where
  "gc_decref s = (let s = s\<lparr>tmp_obj_list := []\<rparr> in gc_decref_from (first_in (gc_obj_list s)) s)"

definition gc_scan_incref_child :: "gc_ptr \<Rightarrow> gc_rt \<Rightarrow> gc_rt option" where
  "gc_scan_incref_child p s =
     (let s = s\<lparr>ref_count := (ref_count s)(p := ref_count s p + 1)\<rparr> in
      Some (if ref_count s p = 1 then (move_to_gc p s)\<lparr>mark := (mark s)(p := 0)\<rparr> else s))"

definition gc_scan_incref_child2 :: "gc_ptr \<Rightarrow> gc_rt \<Rightarrow> gc_rt option" where
  "gc_scan_incref_child2 p s = Some (s\<lparr>ref_count := (ref_count s)(p := ref_count s p + 1)\<rparr>)"

text \<open>The first loop reads the next element after the body, which may have added elements to the list.\<close>

definition gc_scan_body :: "gc_ptr \<Rightarrow> gc_rt \<Rightarrow> gc_rt option" where
  "gc_scan_body p s =
     (if \<not> ref_count s p > 0 then None
      else do {
        let s = s\<lparr>mark := (mark s)(p := 0)\<rparr>;
        cs \<leftarrow> mark_children (heap s) p;
        for_children gc_scan_incref_child cs s })"

partial_function (option) gc_scan_from :: "gc_ptr option \<Rightarrow> gc_rt \<Rightarrow> gc_rt option" where
  "gc_scan_from el s =
     (case el of None \<Rightarrow> Some s
      | Some p \<Rightarrow> do {
          s \<leftarrow> gc_scan_body p s;
          el \<leftarrow> next_in (gc_obj_list s) p;
          gc_scan_from el s })"

partial_function (option) gc_restore_from :: "gc_ptr option \<Rightarrow> gc_rt \<Rightarrow> gc_rt option" where
  "gc_restore_from el s =
     (case el of None \<Rightarrow> Some s
      | Some p \<Rightarrow> do {
          cs \<leftarrow> mark_children (heap s) p;
          s \<leftarrow> for_children gc_scan_incref_child2 cs s;
          el \<leftarrow> next_in (tmp_obj_list s) p;
          gc_restore_from el s })"

definition gc_scan :: "gc_rt \<Rightarrow> gc_rt option" where
  "gc_scan s = do {
     s \<leftarrow> gc_scan_from (first_in (gc_obj_list s)) s;
     gc_restore_from (first_in (tmp_obj_list s)) s }"

text \<open>The two passes of \<open>JS_RunGC\<close> that decide what is freed.\<close>

definition gc_find_cycles :: "gc_rt \<Rightarrow> gc_rt option" where
  "gc_find_cycles s = Option.bind (gc_decref s) gc_scan"

declare gc_decref_from.simps [code] gc_scan_from.simps [code] gc_restore_from.simps [code]

section \<open>What is live\<close>

definition children :: "gc_heap \<Rightarrow> gc_ptr \<Rightarrow> gc_ptr list" where
  "children h p = (case mark_children h p of None \<Rightarrow> [] | Some cs \<Rightarrow> cs)"

definition refs_from :: "gc_heap \<Rightarrow> gc_ptr list \<Rightarrow> gc_ptr \<Rightarrow> int" where
  "refs_from h ps q = (\<Sum>p\<leftarrow>ps. int (count_list (children h p) q))"

text \<open>The references to a block that come from outside the collected blocks: from the C stack, the stack
  of the interpreter, handles of the embedding program.\<close>

definition outside_refs :: "gc_rt \<Rightarrow> gc_ptr \<Rightarrow> int" where
  "outside_refs s q = ref_count s q - refs_from (heap s) (gc_obj_list s) q"

definition gc_roots :: "gc_rt \<Rightarrow> gc_ptr set" where
  "gc_roots s = {q \<in> set (gc_obj_list s). outside_refs s q > 0}"

definition points_to :: "gc_heap \<Rightarrow> (gc_ptr \<times> gc_ptr) set" where
  "points_to h = {(p, q). q \<in> set (children h p)}"

definition gc_live :: "gc_rt \<Rightarrow> gc_ptr set" where
  "gc_live s = (points_to (heap s))\<^sup>* `` gc_roots s"

text \<open>The state between two operations of the engine: the blocks are listed once, their children exist
  and are listed, each reference is counted, and the marks are clear.\<close>

definition gc_ready :: "gc_rt \<Rightarrow> bool" where
  "gc_ready s \<longleftrightarrow> distinct (gc_obj_list s) \<and>
     (\<forall>p\<in>set (gc_obj_list s). mark s p = 0 \<and> outside_refs s p \<ge> 0 \<and>
        mark_children (heap s) p \<noteq> None \<and> set (children (heap s) p) \<subseteq> set (gc_obj_list s))"

end
