(* ===== verification/GcLive.thy ===== *)
theory GcLive
  imports Gc
begin

text \<open>
  The first two passes of the cycle collector find the blocks that are not reachable from outside:
  the invariants of the loops of \<open>gc_decref\<close> and \<open>gc_scan\<close> on the two lists, and their result.
\<close>

section \<open>Lists\<close>

lemma next_in_append: "p \<notin> set xs \<Longrightarrow> next_in (xs @ p # ys) p = Some (first_in ys)"
  by (induction xs) (auto split: list.split)

lemma remove1_filter:
  "distinct L \<Longrightarrow> remove1 p (filter P L) = filter (\<lambda>q. P q \<and> q \<noteq> p) L"
  by (auto simp: distinct_remove1_removeAll removeAll_filter_not_eq intro: filter_cong)

lemma refs_from_simps [simp]: "refs_from h [] q = 0"
  "refs_from h (p # ps) q = int (count_list (children h p) q) + refs_from h ps q"
  "refs_from h (ps @ qs) q = refs_from h ps q + refs_from h qs q"
  by (simp_all add: refs_from_def)

lemma refs_from_nonneg: "0 \<le> refs_from h ps q"
  by (induction ps) auto

lemma refs_from_pos: "0 < refs_from h ps q \<longleftrightarrow> (\<exists>p\<in>set ps. q \<in> set (children h p))"
proof (induction ps)
  case (Cons p ps)
  have "0 < int (count_list (children h p) q) \<longleftrightarrow> q \<in> set (children h p)"
    by (auto simp: count_list_0_iff zero_less_iff_neq_zero)
  then show ?case using Cons refs_from_nonneg [of h ps q] by auto
qed simp

lemma refs_from_perm: "distinct ps \<Longrightarrow> distinct qs \<Longrightarrow> set ps = set qs \<Longrightarrow> refs_from h ps q = refs_from h qs q"
  unfolding refs_from_def by (simp add: sum_list_distinct_conv_sum_set)

section \<open>The first pass\<close>

text \<open>Marked blocks without references are in the second list, all others in the first.\<close>

definition decref_inv :: "gc_heap \<Rightarrow> gc_ptr list \<Rightarrow> gc_rt \<Rightarrow> bool" where
  "decref_inv h L s \<longleftrightarrow> heap s = h \<and> distinct L \<and> distinct (tmp_obj_list s) \<and>
     gc_obj_list s = filter (\<lambda>q. \<not> (mark s q = 1 \<and> ref_count s q = 0)) L \<and>
     set (tmp_obj_list s) = {q \<in> set L. mark s q = 1 \<and> ref_count s q = 0}"

lemma decref_child:
  assumes "decref_inv h L s" "p \<in> set L" "0 < ref_count s p"
  obtains s' where "gc_decref_child p s = Some s'" "decref_inv h L s'" "mark s' = mark s"
    "ref_count s' = (ref_count s)(p := ref_count s p - 1)"
proof -
  define s1 where "s1 = s\<lparr>ref_count := (ref_count s)(p := ref_count s p - 1)\<rparr>"
  define s' where "s' = (if ref_count s1 p = 0 \<and> mark s1 p = 1 then move_to_tmp p s1 else s1)"
  have "gc_decref_child p s = Some s'" using assms(3) by (simp add: gc_decref_child_def s'_def s1_def Let_def)
  moreover have "decref_inv h L s'"
    using assms unfolding decref_inv_def s'_def s1_def move_to_tmp_def
    by (auto simp: remove1_filter remove1_idem intro!: filter_cong)
  moreover have "mark s' = mark s" "ref_count s' = (ref_count s)(p := ref_count s p - 1)"
    by (simp_all add: s'_def s1_def move_to_tmp_def)
  ultimately show thesis by (rule that)
qed

lemma decref_children:
  "decref_inv h L s \<Longrightarrow> set cs \<subseteq> set L \<Longrightarrow> (\<And>q. q \<in> set cs \<Longrightarrow> int (count_list cs q) \<le> ref_count s q) \<Longrightarrow>
   \<exists>s'. for_children gc_decref_child cs s = Some s' \<and> decref_inv h L s' \<and> mark s' = mark s \<and>
     (\<forall>q. ref_count s' q = ref_count s q - int (count_list cs q))"
proof (induction cs arbitrary: s)
  case (Cons p cs)
  have "0 < ref_count s p" using Cons.prems(3) [of p] by simp
  then obtain s1 where s1: "gc_decref_child p s = Some s1" "decref_inv h L s1" "mark s1 = mark s"
    "ref_count s1 = (ref_count s)(p := ref_count s p - 1)"
    using decref_child [OF Cons.prems(1), of p] Cons.prems(2) by auto
  have "int (count_list cs q) \<le> ref_count s1 q" if "q \<in> set cs" for q
    using Cons.prems(3) [of q] that s1(4) by (auto split: if_splits)
  then obtain s' where "for_children gc_decref_child cs s1 = Some s'" "decref_inv h L s'" "mark s' = mark s1"
    "\<forall>q. ref_count s' q = ref_count s1 q - int (count_list cs q)"
    using Cons.IH [OF s1(2)] Cons.prems(2) by auto
  then show ?case using s1 by auto
qed simp

lemma decref_body:
  assumes "decref_inv h L s" "p \<in> set L" "mark s p = 0" "mark_children h p = Some cs" "set cs \<subseteq> set L"
    "\<And>q. q \<in> set cs \<Longrightarrow> int (count_list cs q) \<le> ref_count s q"
  obtains s' where "gc_decref_body p s = Some s'" "decref_inv h L s'" "mark s' = (mark s)(p := 1)"
    "\<And>q. ref_count s' q = ref_count s q - int (count_list cs q)"
proof -
  obtain s1 where s1: "for_children gc_decref_child cs s = Some s1" "decref_inv h L s1" "mark s1 = mark s"
    "\<forall>q. ref_count s1 q = ref_count s q - int (count_list cs q)"
    using decref_children [OF assms(1,5,6)] by blast
  define s2 where "s2 = s1\<lparr>mark := (mark s1)(p := 1)\<rparr>"
  define s' where "s' = (if ref_count s2 p = 0 then move_to_tmp p s2 else s2)"
  have "heap s = h" using assms(1) by (simp add: decref_inv_def)
  then have "gc_decref_body p s = Some s'"
    using assms(3,4) s1(1) by (simp add: gc_decref_body_def s'_def s2_def Let_def)
  moreover have "decref_inv h L s'"
    using s1(2) assms(2,3) s1(3) unfolding decref_inv_def s'_def s2_def move_to_tmp_def
    by (auto simp: remove1_filter remove1_idem intro!: filter_cong)
  moreover have "mark s' = (mark s)(p := 1)" "ref_count s' q = ref_count s q - int (count_list cs q)" for q
    using s1(3,4) by (simp_all add: s'_def s2_def move_to_tmp_def)
  ultimately show thesis by (rule that)
qed

lemma children_eq: "mark_children h p = Some cs \<Longrightarrow> children h p = cs"
  by (simp add: children_def)

lemma decref_from:
  assumes L: "\<And>p. p \<in> set L \<Longrightarrow> mark_children h p \<noteq> None \<and> set (children h p) \<subseteq> set L"
  shows "L = D @ R \<Longrightarrow> decref_inv h L s \<Longrightarrow> (\<And>q. q \<in> set D \<Longrightarrow> mark s q = 1) \<Longrightarrow>
    (\<And>q. q \<in> set R \<Longrightarrow> mark s q = 0) \<Longrightarrow> (\<And>q. q \<in> set L \<Longrightarrow> refs_from h R q \<le> ref_count s q) \<Longrightarrow>
    \<exists>s'. gc_decref_from (first_in R) s = Some s' \<and> decref_inv h L s' \<and> (\<forall>q\<in>set L. mark s' q = 1) \<and>
      (\<forall>q. ref_count s' q = ref_count s q - refs_from h R q)"
proof (induction R arbitrary: D s)
  case Nil
  then show ?case by (subst gc_decref_from.simps) auto
next
  case (Cons p R)
  note inv = Cons.prems(2)
  have p: "p \<in> set L" "p \<notin> set D" "p \<notin> set R" "\<And>q. q \<in> set D \<Longrightarrow> q \<notin> set R"
    using inv Cons.prems(1) by (auto simp: decref_inv_def)
  obtain cs where cs: "mark_children h p = Some cs" "children h p = cs" "set cs \<subseteq> set L"
    using L [OF p(1)] by (auto simp: children_def)
  have "int (count_list cs q) \<le> ref_count s q" if "q \<in> set cs" for q
    using Cons.prems(5) [of q] that cs refs_from_nonneg [of h R q] by auto
  then obtain s1 where s1: "gc_decref_body p s = Some s1" "decref_inv h L s1" "mark s1 = (mark s)(p := 1)"
    "\<And>q. ref_count s1 q = ref_count s q - int (count_list cs q)"
    using decref_body [OF inv p(1) _ cs(1,3)] Cons.prems(4) [of p] by auto
  have m: "\<not> (mark s q = 1 \<and> ref_count s q = 0)" if "q \<in> set (p # R)" for q
    using Cons.prems(4) [OF that] by simp
  have "gc_obj_list s = filter (\<lambda>q. \<not> (mark s q = 1 \<and> ref_count s q = 0)) D @ p # R"
    using inv m by (simp add: decref_inv_def Cons.prems(1) cong: filter_cong) 
  then have n: "next_in (gc_obj_list s) p = Some (first_in R)" using p(2) by (simp add: next_in_append)
  have "\<exists>s'. gc_decref_from (first_in R) s1 = Some s' \<and> decref_inv h L s' \<and> (\<forall>q\<in>set L. mark s' q = 1) \<and>
      (\<forall>q. ref_count s' q = ref_count s1 q - refs_from h R q)"
  proof (rule Cons.IH [of "D @ [p]" s1])
    show "refs_from h R q \<le> ref_count s1 q" if "q \<in> set L" for q
      using Cons.prems(5) [OF that] s1(4) cs(2) by simp
  qed (use Cons.prems(1,3,4) s1(2,3) p in auto)
  then obtain s' where s': "gc_decref_from (first_in R) s1 = Some s'" "decref_inv h L s'" "\<forall>q\<in>set L. mark s' q = 1"
    "\<forall>q. ref_count s' q = ref_count s1 q - refs_from h R q"
    by blast
  have "gc_decref_from (first_in (p # R)) s = Some s'"
    by (subst gc_decref_from.simps) (simp add: n s1(1) s'(1))
  then show ?case using s'(2-4) s1(4) cs(2) by auto
qed

lemma gc_decref_result:
  assumes "gc_ready s"
  obtains s' where "gc_decref s = Some s'" "decref_inv (heap s) (gc_obj_list s) s'"
    "\<And>q. q \<in> set (gc_obj_list s) \<Longrightarrow> mark s' q = 1" "\<And>q. ref_count s' q = outside_refs s q"
proof -
  define s0 where "s0 = s\<lparr>tmp_obj_list := []\<rparr>"
  have "decref_inv (heap s) (gc_obj_list s) s0"
    using assms by (auto simp: decref_inv_def gc_ready_def s0_def)
  then have "\<exists>s'. gc_decref_from (first_in (gc_obj_list s)) s0 = Some s' \<and> decref_inv (heap s) (gc_obj_list s) s' \<and>
      (\<forall>q\<in>set (gc_obj_list s). mark s' q = 1) \<and> (\<forall>q. ref_count s' q = ref_count s0 q - refs_from (heap s) (gc_obj_list s) q)"
    using assms by (intro decref_from [of _ _ "[]"]) (auto simp: gc_ready_def s0_def outside_refs_def)
  then show thesis using that by (auto simp: gc_decref_def s0_def outside_refs_def Let_def)
qed

section \<open>The second pass\<close>

text \<open>Blocks with references are in the first list and live, the others in the second.\<close>

definition scan_inv :: "gc_heap \<Rightarrow> gc_ptr set \<Rightarrow> gc_ptr set \<Rightarrow> gc_rt \<Rightarrow> bool" where
  "scan_inv h L W s \<longleftrightarrow> heap s = h \<and> distinct (gc_obj_list s) \<and> distinct (tmp_obj_list s) \<and>
     set (gc_obj_list s) = {q \<in> L. 0 < ref_count s q} \<and> set (tmp_obj_list s) = {q \<in> L. ref_count s q = 0} \<and>
     (\<forall>q\<in>L. 0 \<le> ref_count s q) \<and> set (gc_obj_list s) \<subseteq> W"

lemma incref_child:
  assumes "scan_inv h L W s" "p \<in> L" "p \<in> W"
  obtains s' zs where "gc_scan_incref_child p s = Some s'" "scan_inv h L W s'" "gc_obj_list s' = gc_obj_list s @ zs"
    "ref_count s' = (ref_count s)(p := ref_count s p + 1)" "\<And>q. mark s q = 0 \<Longrightarrow> mark s' q = 0"
proof -
  define s1 where "s1 = s\<lparr>ref_count := (ref_count s)(p := ref_count s p + 1)\<rparr>"
  define s' where "s' = (if ref_count s1 p = 1 then (move_to_gc p s1)\<lparr>mark := (mark s1)(p := 0)\<rparr> else s1)"
  have "gc_scan_incref_child p s = Some s'" by (simp add: gc_scan_incref_child_def s'_def s1_def Let_def)
  moreover have new: "ref_count s p = 0 \<Longrightarrow> p \<notin> set (gc_obj_list s)" "0 \<le> ref_count s p"
    using assms(1,2) by (auto simp: scan_inv_def)
  moreover have "scan_inv h L W s'"
    using assms new unfolding scan_inv_def s'_def s1_def move_to_gc_def
    by (auto simp: remove1_idem)
  moreover have "gc_obj_list s' = gc_obj_list s @ (if ref_count s p = 0 then [p] else [])"
    using new by (simp add: s'_def s1_def move_to_gc_def remove1_idem)
  moreover have "ref_count s' = (ref_count s)(p := ref_count s p + 1)" "mark s q = 0 \<Longrightarrow> mark s' q = 0" for q
    by (simp_all add: s'_def s1_def move_to_gc_def)
  ultimately show thesis using that by blast
qed

lemma incref_children:
  "scan_inv h L W s \<Longrightarrow> set cs \<subseteq> L \<Longrightarrow> set cs \<subseteq> W \<Longrightarrow>
   \<exists>s' zs. for_children gc_scan_incref_child cs s = Some s' \<and> scan_inv h L W s' \<and>
     gc_obj_list s' = gc_obj_list s @ zs \<and> (\<forall>q. ref_count s' q = ref_count s q + int (count_list cs q)) \<and>
     (\<forall>q. mark s q = 0 \<longrightarrow> mark s' q = 0)"
proof (induction cs arbitrary: s)
  case (Cons p cs)
  obtain s1 zs where s1: "gc_scan_incref_child p s = Some s1" "scan_inv h L W s1"
    "gc_obj_list s1 = gc_obj_list s @ zs" "ref_count s1 = (ref_count s)(p := ref_count s p + 1)"
    "\<And>q. mark s q = 0 \<Longrightarrow> mark s1 q = 0"
    using incref_child [OF Cons.prems(1), of p] Cons.prems(2,3) by auto
  obtain s' ys where "for_children gc_scan_incref_child cs s1 = Some s'" "scan_inv h L W s'"
    "gc_obj_list s' = gc_obj_list s1 @ ys" "\<forall>q. ref_count s' q = ref_count s1 q + int (count_list cs q)"
    "\<forall>q. mark s1 q = 0 \<longrightarrow> mark s' q = 0"
    using Cons.IH [OF s1(2)] Cons.prems(2,3) by auto
  then show ?case using s1 by auto
qed simp

lemma scan_body:
  assumes "scan_inv h L W s" "p \<in> set (gc_obj_list s)" "mark_children h p = Some cs" "set cs \<subseteq> L" "set cs \<subseteq> W"
  obtains s' zs where "gc_scan_body p s = Some s'" "scan_inv h L W s'" "gc_obj_list s' = gc_obj_list s @ zs"
    "\<And>q. ref_count s' q = ref_count s q + int (count_list cs q)" "mark s' p = 0"
    "\<And>q. mark s q = 0 \<Longrightarrow> mark s' q = 0"
proof -
  define s0 where "s0 = s\<lparr>mark := (mark s)(p := 0)\<rparr>"
  have "scan_inv h L W s0" "heap s0 = h" using assms(1) by (auto simp: scan_inv_def s0_def)
  then obtain s' zs where s': "for_children gc_scan_incref_child cs s0 = Some s'" "scan_inv h L W s'"
    "gc_obj_list s' = gc_obj_list s0 @ zs" "\<forall>q. ref_count s' q = ref_count s0 q + int (count_list cs q)"
    "\<forall>q. mark s0 q = 0 \<longrightarrow> mark s' q = 0"
    using incref_children [of h L W s0 cs] assms(4,5) by auto
  have "0 < ref_count s p" using assms(1,2) by (auto simp: scan_inv_def)
  then have "gc_scan_body p s = Some s'"
    using s'(1) assms(3) \<open>heap s0 = h\<close> by (simp add: gc_scan_body_def s0_def Let_def)
  then show thesis using s' that [of s' zs] by (simp add: s0_def)
qed

lemma scan_from:
  assumes L: "\<And>p. p \<in> L \<Longrightarrow> mark_children h p \<noteq> None \<and> set (children h p) \<subseteq> L" "finite L"
    and W: "\<And>p. p \<in> W \<Longrightarrow> set (children h p) \<subseteq> W"
  shows "gc_obj_list s = P @ Q \<Longrightarrow> scan_inv h L W s \<Longrightarrow> (\<And>q. ref_count s q = X q + refs_from h P q) \<Longrightarrow>
    (\<And>q. q \<in> set P \<Longrightarrow> mark s q = 0) \<Longrightarrow>
    \<exists>s'. gc_scan_from (first_in Q) s = Some s' \<and> scan_inv h L W s' \<and>
      (\<forall>q. ref_count s' q = X q + refs_from h (gc_obj_list s') q) \<and> (\<forall>q\<in>set (gc_obj_list s'). mark s' q = 0)"
proof (induction "card L - length P" arbitrary: P Q s rule: less_induct)
  case less
  show ?case
  proof (cases Q)
    case Nil
    then show ?thesis using less.prems by (subst gc_scan_from.simps) auto
  next
    case (Cons p Q')
    note inv = less.prems(2)
    have d: "distinct (P @ p # Q')" "set (P @ p # Q') \<subseteq> L" "p \<in> W"
      using inv less.prems(1) Cons by (auto simp: scan_inv_def)
    obtain cs where cs: "mark_children h p = Some cs" "children h p = cs" "set cs \<subseteq> L" "set cs \<subseteq> W"
      using L(1) [of p] W [OF d(3)] d(2) by (auto simp: children_def)
    obtain s1 zs where s1: "gc_scan_body p s = Some s1" "scan_inv h L W s1" "gc_obj_list s1 = gc_obj_list s @ zs"
      "\<And>q. ref_count s1 q = ref_count s q + int (count_list cs q)" "mark s1 p = 0"
      "\<And>q. mark s q = 0 \<Longrightarrow> mark s1 q = 0"
      using scan_body [OF inv _ cs(1,3,4)] less.prems(1) Cons by (metis in_set_conv_decomp)
    have l: "gc_obj_list s1 = P @ p # Q' @ zs" using s1(3) less.prems(1) Cons by simp
    then have n: "next_in (gc_obj_list s1) p = Some (first_in (Q' @ zs))" using d(1) by (simp add: next_in_append)
    have "length (P @ p # Q') \<le> card L" using d L(2) by (metis card_mono distinct_card)
    then have "\<exists>s'. gc_scan_from (first_in (Q' @ zs)) s1 = Some s' \<and> scan_inv h L W s' \<and>
      (\<forall>q. ref_count s' q = X q + refs_from h (gc_obj_list s') q) \<and> (\<forall>q\<in>set (gc_obj_list s'). mark s' q = 0)"
      using s1(2,4-6) less.prems(3,4) l cs(2) by (intro less.hyps [of "P @ [p]"]) auto
    moreover have "gc_scan_from (first_in Q) s = gc_scan_from (first_in (Q' @ zs)) s1"
      unfolding Cons by (subst gc_scan_from.simps) (simp add: n s1(1))
    ultimately show ?thesis by simp
  qed
qed

lemma restore_children:
  "\<exists>s'. for_children gc_scan_incref_child2 cs s = Some s' \<and>
     (\<forall>q. ref_count s' q = ref_count s q + int (count_list cs q)) \<and> s' = s\<lparr>ref_count := ref_count s'\<rparr>"
proof (induction cs arbitrary: s)
  case (Cons p cs)
  define s1 where "s1 = s\<lparr>ref_count := (ref_count s)(p := ref_count s p + 1)\<rparr>"
  obtain s' where "for_children gc_scan_incref_child2 cs s1 = Some s'"
    "\<forall>q. ref_count s' q = ref_count s1 q + int (count_list cs q)" "s' = s1\<lparr>ref_count := ref_count s'\<rparr>"
    using Cons.IH by blast
  moreover have "gc_scan_incref_child2 p s = Some s1" by (simp add: gc_scan_incref_child2_def s1_def)
  ultimately show ?case by (auto simp: s1_def)
qed simp

lemma restore_from:
  assumes "\<And>p. p \<in> set (tmp_obj_list s) \<Longrightarrow> mark_children (heap s) p \<noteq> None"
  shows "tmp_obj_list s = P @ Q \<Longrightarrow> distinct (tmp_obj_list s) \<Longrightarrow>
    \<exists>s'. gc_restore_from (first_in Q) s = Some s' \<and>
      (\<forall>q. ref_count s' q = ref_count s q + refs_from (heap s) Q q) \<and> s' = s\<lparr>ref_count := ref_count s'\<rparr>"
  using assms
proof (induction Q arbitrary: P s)
  case Nil
  then show ?case by (subst gc_restore_from.simps) simp
next
  case (Cons p Q)
  obtain cs where cs: "mark_children (heap s) p = Some cs" "children (heap s) p = cs"
    using Cons.prems(1) Cons.prems(3) [of p] by (auto simp: children_def)
  obtain s1 where s1: "for_children gc_scan_incref_child2 cs s = Some s1"
    "\<forall>q. ref_count s1 q = ref_count s q + int (count_list cs q)" "s1 = s\<lparr>ref_count := ref_count s1\<rparr>"
    using restore_children [of cs s] by blast
  have k: "tmp_obj_list s1 = tmp_obj_list s" "heap s1 = heap s" by (subst s1(3); simp)+
  have n: "next_in (tmp_obj_list s1) p = Some (first_in Q)"
    using Cons.prems(1,2) by (simp add: k next_in_append)
  obtain s' where s': "gc_restore_from (first_in Q) s1 = Some s'"
    "\<forall>q. ref_count s' q = ref_count s1 q + refs_from (heap s1) Q q" "s' = s1\<lparr>ref_count := ref_count s'\<rparr>"
    using Cons.IH [of s1 "P @ [p]"] Cons.prems k by auto
  have "gc_restore_from (first_in (p # Q)) s = Some s'"
    by (subst gc_restore_from.simps) (simp add: cs s1(1) n s'(1))
  moreover have "s' = s\<lparr>ref_count := ref_count s'\<rparr>"
    by (subst s'(3), subst s1(3)) simp
  ultimately show ?case using s1(2) s'(2) cs(2) k by auto
qed

section \<open>The result\<close>

lemma gc_find_cycles_result:
  assumes "gc_ready s"
  obtains s' where "gc_find_cycles s = Some s'" "set (gc_obj_list s') = gc_live s"
    "set (tmp_obj_list s') = set (gc_obj_list s) - gc_live s" "distinct (gc_obj_list s')" "distinct (tmp_obj_list s')"
    "ref_count s' = ref_count s" "\<And>q. q \<in> gc_live s \<Longrightarrow> mark s' q = 0" "heap s' = heap s"
proof -
  define h where "h = heap s"
  define L where "L = gc_obj_list s"
  define X where "X = outside_refs s"
  define W where "W = gc_live s"
  have L: "mark_children h p \<noteq> None \<and> set (children h p) \<subseteq> set L" if "p \<in> set L" for p
    using assms that by (simp add: gc_ready_def h_def L_def)
  have d: "distinct L" "\<And>q. q \<in> set L \<Longrightarrow> 0 \<le> X q"
    using assms by (simp_all add: gc_ready_def L_def X_def)
  have W: "set (children h p) \<subseteq> W" if "p \<in> W" for p
    using that unfolding W_def gc_live_def
    by (auto simp: points_to_def h_def intro: ImageI rtrancl_into_rtrancl)
  have roots: "q \<in> W" if "q \<in> set L" "0 < X q" for q
    using that unfolding W_def gc_live_def gc_roots_def by (auto simp: L_def X_def)
  have sub: "W \<subseteq> set L"
  proof
    fix q assume "q \<in> W"
    then obtain r where "(r, q) \<in> (points_to h)\<^sup>*" "r \<in> set L"
      by (auto simp: W_def gc_live_def gc_roots_def h_def L_def)
    then show "q \<in> set L" by induction (use L in \<open>auto simp: points_to_def\<close>)
  qed
  obtain s1 where s1: "gc_decref s = Some s1" "decref_inv h L s1" "\<And>q. q \<in> set L \<Longrightarrow> mark s1 q = 1"
    "\<And>q. ref_count s1 q = X q"
    using gc_decref_result [OF assms] unfolding h_def L_def X_def by blast
  have "scan_inv h (set L) W s1"
    using s1(2) d roots unfolding scan_inv_def decref_inv_def by (auto simp: s1(3,4) order.order_iff_strict)
  then obtain s2 where s2: "gc_scan_from (first_in (gc_obj_list s1)) s1 = Some s2" "scan_inv h (set L) W s2"
    "\<And>q. ref_count s2 q = X q + refs_from h (gc_obj_list s2) q" "\<And>q. q \<in> set (gc_obj_list s2) \<Longrightarrow> mark s2 q = 0"
    using scan_from [OF L _ W, of s1 "[]" "gc_obj_list s1" X] s1(4) by auto
  have live: "set (gc_obj_list s2) = W"
  proof
    show "set (gc_obj_list s2) \<subseteq> W" using s2(2) unfolding scan_inv_def by blast
    have closed: "q \<in> set (gc_obj_list s2)" if "p \<in> set (gc_obj_list s2)" "q \<in> set (children h p)" for p q
    proof -
      have "p \<in> set L" "q \<in> set L" using that L s2(2) by (auto simp: scan_inv_def)
      moreover have "0 < refs_from h (gc_obj_list s2) q" using that by (auto simp: refs_from_pos)
      ultimately show ?thesis using s2(2,3) d(2) [of q] by (auto simp: scan_inv_def)
    qed
    show "W \<subseteq> set (gc_obj_list s2)"
    proof
      fix q assume "q \<in> W"
      then obtain r where "(r, q) \<in> (points_to h)\<^sup>*" "r \<in> set L" "0 < X r"
        by (auto simp: W_def gc_live_def gc_roots_def h_def L_def X_def)
      then show "q \<in> set (gc_obj_list s2)"
      proof induction
        case base
        then show ?case using s2(2,3) refs_from_nonneg [of h "gc_obj_list s2" r] by (auto simp: scan_inv_def)
      next
        case (step q q')
        then show ?case using closed by (auto simp: points_to_def)
      qed
    qed
  qed
  have tmp: "set (tmp_obj_list s2) = set L - W" "distinct (tmp_obj_list s2)" "distinct (gc_obj_list s2)" "heap s2 = h"
    using s2(2) live by (auto simp: scan_inv_def)
  obtain s' where s': "gc_restore_from (first_in (tmp_obj_list s2)) s2 = Some s'"
    "\<forall>q. ref_count s' q = ref_count s2 q + refs_from h (tmp_obj_list s2) q" "s' = s2\<lparr>ref_count := ref_count s'\<rparr>"
    using restore_from [of s2 "[]" "tmp_obj_list s2"] tmp L by auto
  have "refs_from h (gc_obj_list s2 @ tmp_obj_list s2) q = refs_from h L q" for q
    using live tmp sub d(1) by (intro refs_from_perm) auto
  then have "ref_count s' = ref_count s"
    using s'(2) s2(3) by (auto simp: X_def outside_refs_def h_def L_def)
  moreover have "gc_find_cycles s = Some s'"
    using s1(1) s2(1) s'(1) by (simp add: gc_find_cycles_def gc_scan_def)
  moreover have "gc_obj_list s' = gc_obj_list s2" "tmp_obj_list s' = tmp_obj_list s2" "mark s' = mark s2" "heap s' = heap s2"
    by (subst s'(3); simp)+
  ultimately show thesis using that live tmp s2(4) by (auto simp: W_def L_def h_def)
qed

text \<open>Property C4 (functional): the collector finds the garbage. In a state where each reference between
  listed blocks is counted and the other references only add to the counts, \<open>gc_decref\<close> and \<open>gc_scan\<close>
  return without a failed assertion and without losing their place in a list; then the first list
  holds each block once that is reachable from a block with an outside reference, the second list
  holds each of the other blocks once, all reference counts are what they were, and the marks of the
  live blocks are clear for the next collection.\<close>

theorem gc_find_cycles_correct:
  assumes "gc_ready s"
  shows "\<exists>s'. gc_find_cycles s = Some s' \<and> set (gc_obj_list s') = gc_live s \<and>
    set (tmp_obj_list s') = set (gc_obj_list s) - gc_live s \<and>
    distinct (gc_obj_list s') \<and> distinct (tmp_obj_list s') \<and>
    ref_count s' = ref_count s \<and> (\<forall>q\<in>gc_live s. mark s' q = 0) \<and> heap s' = heap s"
  using gc_find_cycles_result [OF assms] by metis

text \<open>An object 1 that the program holds and that refers to object 5, two objects 3 and 4 that only refer to
  each other, and their shape 2.\<close>

definition gc_example :: gc_rt where
  "gc_example = \<lparr>
     heap = [1 \<mapsto> Js_object 2 [Normal (Object_value 5)] [] No_class_data, 2 \<mapsto> Shape None,
       3 \<mapsto> Js_object 2 [Getset (Some 4) None, Deleted] [] No_class_data,
       4 \<mapsto> Js_object 2 [] [] (Array_data [Object_value 3, Other_value]),
       5 \<mapsto> Js_object 2 [] [] No_class_data],
     ref_count = (\<lambda>p. if p = 2 then 4 else 1),
     mark = (\<lambda>p. 0), gc_obj_list = [2, 3, 1, 4, 5], tmp_obj_list = []\<rparr>"

lemma gc_example_ready: "gc_ready gc_example"
  by code_simp

lemma gc_example_result: "map_option (\<lambda>s. (gc_obj_list s, tmp_obj_list s)) (gc_find_cycles gc_example) = Some ([1, 2, 5], [3, 4])"
  by code_simp

theorem gc_find_cycles_correct_witness:
  "\<exists>s'. gc_find_cycles gc_example = Some s' \<and> set (gc_obj_list s') = gc_live gc_example \<and>
    set (tmp_obj_list s') = {2, 3, 1, 4, 5} - gc_live gc_example \<and>
    distinct (gc_obj_list s') \<and> distinct (tmp_obj_list s') \<and>
    ref_count s' = ref_count gc_example \<and> (\<forall>q\<in>gc_live gc_example. mark s' q = 0) \<and> heap s' = heap gc_example"
proof -
  have "set (gc_obj_list gc_example) = {2, 3, 1, 4, 5}" by (simp add: gc_example_def)
  then show ?thesis using gc_find_cycles_correct [OF gc_example_ready] by simp
qed

end
