(* ===== verification/BigLimbs.thy ===== *)
theory BigLimbs
  imports Limbs CBits
begin

text \<open>
  The limb arithmetic of big integers in \<^verbatim>\<open>quickjs/quickjs.c\<close> (ADDC and \<open>js_mp_add\<close> to \<open>js_mp_shr\<close>).
  Numbers are lists of 32-bit limbs, least significant first. Where the C text is that of a function
  of \<^verbatim>\<open>dtoa.c\<close>, the definition is that of theory Limbs. The number of limbs is the length of the
  list; an operation on part of an array takes and returns that part.
\<close>

section \<open>The code\<close>

definition addc :: "limb \<Rightarrow> limb \<Rightarrow> limb \<Rightarrow> limb \<times> limb" where
  "addc op1 op2 carry_in =
     (let a = op1 + op2; k1 = (if a < op1 then 1 else 0); a = a + carry_in
      in (a, (if a < carry_in then 1 else 0) OR k1))"

definition js_limb_clz :: "limb \<Rightarrow> nat" where
  "js_limb_clz a = (if a = 0 then 32 else clz32 a)"

fun js_mp_add :: "limb list \<Rightarrow> limb list \<Rightarrow> limb \<Rightarrow> limb list \<times> limb" where
  "js_mp_add (x # xs) (y # ys) carry =
     (let (r, carry) = addc x y carry; (rs, c) = js_mp_add xs ys carry in (r # rs, c))"
| "js_mp_add _ _ carry = ([], carry)"

fun js_mp_sub :: "limb list \<Rightarrow> limb list \<Rightarrow> limb \<Rightarrow> limb list \<times> limb" where
  "js_mp_sub (v # xs) (y # ys) k =
     (let a = v - y; k1 = (if a > v then 1 else 0); r = a - k;
          (rs, c) = js_mp_sub xs ys ((if r > a then 1 else 0) OR k1)
      in (r # rs, c))"
| "js_mp_sub _ _ k = ([], k)"

text \<open>No caller of \<open>js_mp_neg\<close> uses its return value.\<close>

fun neg_limbs :: "limb list \<Rightarrow> limb \<Rightarrow> limb list \<times> limb" where
  "neg_limbs [] carry = ([], carry)"
| "neg_limbs (x # xs) carry =
     (let v = NOT x + carry; (rs, c) = neg_limbs xs (if v < carry then 1 else 0) in (v # rs, c))"

definition js_mp_neg :: "limb list \<Rightarrow> limb list" where
  "js_mp_neg xs = fst (neg_limbs xs 1)"

definition js_mp_mul1 :: "limb list \<Rightarrow> limb \<Rightarrow> limb \<Rightarrow> limb list \<times> limb" where
  "js_mp_mul1 = mp_mul1"

definition js_mp_div1 :: "limb list \<Rightarrow> limb \<Rightarrow> limb \<Rightarrow> limb list \<times> limb" where
  "js_mp_div1 = mp_div1"

fun add_mul1_loop :: "limb list \<Rightarrow> limb list \<Rightarrow> limb \<Rightarrow> limb \<Rightarrow> limb list \<times> limb" where
  "add_mul1_loop (r # rs) (x # xs) b l =
     (let t = (ucast x :: u64) * ucast b + ucast l + ucast r;
          (ts, c) = add_mul1_loop rs xs b (ucast (drop_bit 32 t))
      in (ucast t # ts, c))"
| "add_mul1_loop _ _ b l = ([], l)"

definition js_mp_add_mul1 :: "limb list \<Rightarrow> limb list \<Rightarrow> limb \<Rightarrow> limb list \<times> limb" where
  "js_mp_add_mul1 tabr taba b = add_mul1_loop tabr taba b 0"

text \<open>The rows of the product from the second on; \<open>result\<close> has \<open>op1_size + i\<close> limbs.\<close>

fun mul_rows :: "limb list \<Rightarrow> limb list \<Rightarrow> nat \<Rightarrow> limb list \<Rightarrow> limb list" where
  "mul_rows result op1 i [] = result"
| "mul_rows result op1 i (d # ds) =
     (let (hi, r) = js_mp_add_mul1 (drop i result) op1 d
      in mul_rows (take i result @ hi @ [r]) op1 (i + 1) ds)"

definition js_mp_mul_basecase :: "limb list \<Rightarrow> limb list \<Rightarrow> limb list" where
  "js_mp_mul_basecase op1 op2 =
     (let (rs, r) = js_mp_mul1 op1 (hd op2) 0 in mul_rows (rs @ [r]) op1 1 (tl op2))"

fun sub_mul1_loop :: "limb list \<Rightarrow> limb list \<Rightarrow> limb \<Rightarrow> limb \<Rightarrow> limb list \<times> limb" where
  "sub_mul1_loop (r # rs) (x # xs) b l =
     (let t = (ucast r :: u64) - ucast x * ucast b - ucast l;
          (ts, c) = sub_mul1_loop rs xs b (- ucast (drop_bit 32 t))
      in (ucast t # ts, c))"
| "sub_mul1_loop _ _ b l = ([], l)"

definition js_mp_sub_mul1 :: "limb list \<Rightarrow> limb list \<Rightarrow> limb \<Rightarrow> limb list \<times> limb" where
  "js_mp_sub_mul1 tabr taba b = sub_mul1_loop tabr taba b 0"

definition js_udiv1norm_init :: "limb \<Rightarrow> limb" where "js_udiv1norm_init = udiv1norm_init"

definition js_udiv1norm :: "limb \<Rightarrow> limb \<Rightarrow> limb \<Rightarrow> limb \<Rightarrow> limb \<times> limb" where
  "js_udiv1norm = udiv1norm"

definition UDIV1NORM_THRESHOLD :: nat where "UDIV1NORM_THRESHOLD = 3"

definition js_mp_div1norm :: "limb list \<Rightarrow> limb \<Rightarrow> limb \<Rightarrow> limb list \<times> limb" where
  "js_mp_div1norm taba b r =
     (if length taba \<ge> UDIV1NORM_THRESHOLD then mp_div1norm_loop taba b r (js_udiv1norm_init b)
      else mp_div1 taba b r)"

text \<open>The comparison from the highest limb down.\<close>

fun cmp_limbs :: "limb list \<Rightarrow> limb list \<Rightarrow> int" where
  "cmp_limbs (x # xs) (y # ys) =
     (let r = cmp_limbs xs ys in
      if r \<noteq> 0 then r else if x \<noteq> y then (if x < y then - 1 else 1) else 0)"
| "cmp_limbs _ _ = 0"

text \<open>The loop that corrects a quotient digit that is too large: \<open>a\<close> is the limb above \<open>mid\<close>.\<close>

partial_function (option) add_back :: "limb list \<Rightarrow> limb list \<Rightarrow> limb \<Rightarrow> limb \<Rightarrow> (limb list \<times> limb) option" where
  "add_back tabb mid a q =
     (let q = q - 1; (mid, c) = js_mp_add mid tabb 0 in
      if c \<noteq> 0 then (let a = a + 1 in if a = 0 then Some (mid, q) else add_back tabb mid a q)
      else add_back tabb mid a q)"

text \<open>One digit: \<open>window\<close> are the limbs \<open>i\<close> to \<open>i + nb\<close> of the dividend; the result are the limbs \<open>i\<close> to
  \<open>i + nb - 1\<close> of the remainder and the digit.\<close>

definition div_digit :: "limb list \<Rightarrow> limb \<Rightarrow> limb \<Rightarrow> limb list \<Rightarrow> (limb list \<times> limb) option" where
  "div_digit tabb b1 b1_inv window =
     (let nb = length tabb; v = window ! nb; lo = window ! (nb - 1);
          q = (if v \<ge> b1 then - 1
               else if b1_inv \<noteq> 0 then fst (js_udiv1norm v lo b1 b1_inv)
               else ucast ((push_bit 32 (ucast v :: u64) OR ucast lo) div ucast b1));
          (mid, r) = js_mp_sub_mul1 (take nb window) tabb q;
          a = v - r
      in if a > v then add_back tabb mid a q else Some (mid, q))"

fun div_digits :: "limb list \<Rightarrow> limb \<Rightarrow> limb \<Rightarrow> limb list \<Rightarrow> limb list \<Rightarrow> (limb list \<times> limb list) option" where
  "div_digits tabb b1 b1_inv [] high = Some ([], high)"
| "div_digits tabb b1 b1_inv (x # xs) high = do {
     (qs, r) \<leftarrow> div_digits tabb b1 b1_inv xs high;
     (r, q) \<leftarrow> div_digit tabb b1 b1_inv (x # r);
     Some (q # qs, r) }"

text \<open>Quotient and remainder.\<close>

definition js_mp_divnorm :: "limb list \<Rightarrow> limb list \<Rightarrow> (limb list \<times> limb list) option" where
  "js_mp_divnorm taba tabb =
     (let nb = length tabb; b1 = tabb ! (nb - 1) in
      if nb = 1 then (let (qs, r) = js_mp_div1norm taba b1 0 in Some (qs, [r]))
      else
        let n = length taba - nb;
            b1_inv = (if n \<ge> UDIV1NORM_THRESHOLD then js_udiv1norm_init b1 else 0);
            high = drop n taba;
            q = (if cmp_limbs high tabb < 0 then 0 else 1);
            high = (if q \<noteq> 0 then fst (js_mp_sub high tabb 0) else high)
        in do {
          (qs, r) \<leftarrow> div_digits tabb b1 b1_inv (take n taba) high;
          Some (qs @ [q], r) })"

definition js_mp_shl :: "limb list \<Rightarrow> nat \<Rightarrow> limb list \<times> limb" where
  "js_mp_shl taba shift = mp_shl taba shift 0"

definition js_mp_shr :: "limb list \<Rightarrow> nat \<Rightarrow> limb \<Rightarrow> limb list \<times> limb" where
  "js_mp_shr = mp_shr"

declare add_back.simps [code]

section \<open>Addition and subtraction\<close>

abbreviation "limb_base n \<equiv> (4294967296 :: nat) ^ n"

lemma carry_value:
  "unat (x + y :: limb) + 4294967296 * (if x + y < x then 1 else 0) = unat x + unat y"
  "unat (x + y :: limb) + 4294967296 * (if x + y < y then 1 else 0) = unat x + unat y"
  using unat_u32_less [of x] unat_u32_less [of y] by (auto simp: word_less_nat_alt unat_word_ariths mod_if)

lemma borrow_value:
  "unat (x - y :: limb) + unat y = unat x + 4294967296 * (if x - y > x then 1 else 0)"
  using unat_u32_less [of x] unat_u32_less [of y] by (auto simp: word_less_nat_alt unat_sub_if')

lemma unat_flags:
  "unat ((if P then 1 else 0) OR (if Q then 1 else 0) :: limb) = (if P \<or> Q then 1 else 0)"
  by simp

lemma addc_value:
  assumes "addc x y k = (r, c)" "unat k \<le> 1"
  shows "unat r + 4294967296 * unat c = unat x + unat y + unat k" "unat c \<le> 1"
proof -
  define a where "a = x + y"
  define P where "P \<longleftrightarrow> a < x"
  define Q where "Q \<longleftrightarrow> a + k < k"
  have r: "r = a + k" "unat c = (if P \<or> Q then 1 else 0)"
    using assms(1) by (auto simp: addc_def Let_def a_def P_def Q_def)
  have "unat a + 4294967296 * (if P then 1 else 0) = unat x + unat y"
    unfolding a_def P_def by (rule carry_value)
  moreover have "unat r + 4294967296 * (if Q then 1 else 0) = unat a + unat k"
    unfolding r Q_def by (rule carry_value)
  ultimately show "unat r + 4294967296 * unat c = unat x + unat y + unat k" "unat c \<le> 1"
    using r(2) assms(2) unat_u32_less [of x] unat_u32_less [of y] by (auto split: if_splits)
qed

lemma js_mp_add_value:
  "js_mp_add xs ys k = (rs, c) \<Longrightarrow> length xs = length ys \<Longrightarrow> unat k \<le> 1 \<Longrightarrow>
    mpv rs + limb_base (length xs) * unat c = mpv xs + mpv ys + unat k \<and> unat c \<le> 1 \<and> length rs = length xs"
proof (induction xs ys k arbitrary: rs c rule: js_mp_add.induct)
  case (1 x xs y ys k)
  obtain r k' where a: "addc x y k = (r, k')" by fastforce
  obtain ts where t: "js_mp_add xs ys k' = (ts, c)" and rs: "rs = r # ts"
    using 1(2) a by (auto split: prod.splits)
  note v = addc_value [OF a 1(4)]
  have "mpv ts + limb_base (length xs) * unat c = mpv xs + mpv ys + unat k' \<and> unat c \<le> 1 \<and> length ts = length xs"
    using 1(1) [OF a [symmetric] refl t] 1(3) v(2) by simp
  then show ?case using v(1) by (simp add: rs algebra_simps)
qed auto

lemma sub_limb_value:
  assumes "unat (k :: limb) \<le> 1" "a = v - y" "r = a - k" "c = (if r > a then 1 else 0) OR (if a > v then 1 else 0)"
  shows "unat r + unat y + unat k = unat v + 4294967296 * unat (c :: limb)" "unat c \<le> 1"
proof -
  define P where "P \<longleftrightarrow> a > v"
  define Q where "Q \<longleftrightarrow> r > a"
  have c: "unat c = (if Q \<or> P then 1 else 0)" unfolding assms(4) Q_def P_def by (rule unat_flags)
  have "unat a + unat y = unat v + 4294967296 * (if P then 1 else 0)"
    unfolding assms(2) P_def by (rule borrow_value)
  moreover have "unat r + unat k = unat a + 4294967296 * (if Q then 1 else 0)"
    unfolding assms(3) Q_def by (rule borrow_value)
  ultimately show "unat r + unat y + unat k = unat v + 4294967296 * unat c" "unat c \<le> 1"
    using c assms(1) unat_u32_less [of r] unat_u32_less [of y] by (auto split: if_splits)
qed

lemma js_mp_sub_value:
  "js_mp_sub xs ys k = (rs, c) \<Longrightarrow> length xs = length ys \<Longrightarrow> unat k \<le> 1 \<Longrightarrow>
    mpv rs + mpv ys + unat k = mpv xs + limb_base (length xs) * unat c \<and> unat c \<le> 1 \<and> length rs = length xs"
proof (induction xs ys k arbitrary: rs c rule: js_mp_sub.induct)
  case (1 v xs y ys k)
  define a where "a = v - y"
  define r where "r = a - k"
  define k' :: limb where "k' = (if r > a then 1 else 0) OR (if a > v then 1 else 0)"
  obtain ts where t: "js_mp_sub xs ys k' = (ts, c)" and rs: "rs = r # ts"
    using 1(2) by (auto simp: a_def r_def k'_def Let_def split: prod.splits)
  note w = sub_limb_value [OF 1(4) a_def r_def k'_def]
  have "mpv ts + mpv ys + unat k' = mpv xs + limb_base (length xs) * unat c \<and> unat c \<le> 1 \<and> length ts = length xs"
    using 1(1) [OF a_def refl r_def] t 1(3) w(2) unfolding k'_def by simp
  then show ?case using w(1) by (simp add: rs algebra_simps)
qed auto

lemma unat_not32: "unat (NOT x :: limb) = 4294967295 - unat x"
proof -
  have "NOT x = - 1 - x" by (simp add: not_eq_complement)
  moreover have "x \<le> - 1" by simp
  ultimately show ?thesis by (simp add: unat_sub unsigned_minus_1_eq_mask mask_eq_exp_minus_1)
qed

lemma neg_limbs_value:
  "neg_limbs xs k = (rs, c) \<Longrightarrow> unat k \<le> 1 \<Longrightarrow>
    mpv rs + mpv xs + 1 + limb_base (length xs) * unat c = limb_base (length xs) + unat k \<and> unat c \<le> 1 \<and>
    length rs = length xs"
proof (induction xs k arbitrary: rs c rule: neg_limbs.induct)
  case (2 x xs k)
  define v where "v = NOT x + k"
  define k' :: limb where "k' = (if v < k then 1 else 0)"
  obtain ts where t: "neg_limbs xs k' = (ts, c)" and rs: "rs = v # ts"
    using 2(2) by (auto simp: v_def k'_def Let_def split: prod.splits)
  have "unat v + 4294967296 * unat k' = (4294967295 - unat x) + unat k" "unat k' \<le> 1"
    using carry_value(2) [of "NOT x" k]
    by (cases "NOT x + k < k"; simp_all add: v_def k'_def unat_not32)+
  moreover have "unat x \<le> 4294967295" by (rule unat_limb_less)
  ultimately have v: "unat v + 4294967296 * unat k' + unat x = 4294967295 + unat k" "unat k' \<le> 1" by linarith+
  have "mpv ts + mpv xs + 1 + limb_base (length xs) * unat c = limb_base (length xs) + unat k' \<and> unat c \<le> 1 \<and>
      length ts = length xs"
    using 2(1) [OF v_def] t v(2) unfolding k'_def by simp
  then show ?case using v(1) by (simp add: rs algebra_simps)
qed auto

lemma js_mp_neg_value:
  "mpv (js_mp_neg xs) = (if mpv xs = 0 then 0 else limb_base (length xs) - mpv xs)" "length (js_mp_neg xs) = length xs"
proof -
  obtain rs c where n: "neg_limbs xs 1 = (rs, c)" by fastforce
  have v: "mpv rs + mpv xs + limb_base (length xs) * unat c = limb_base (length xs)" "unat c \<le> 1" "length rs = length xs"
    using neg_limbs_value [OF n] by simp_all
  have "mpv rs < limb_base (length xs)" "mpv xs < limb_base (length xs)"
    using mpv_less [of rs] mpv_less [of xs] v(3) by (simp_all add: power_mult)
  moreover have "unat c = 0 \<or> unat c = 1" using v(2) by linarith
  ultimately have "mpv rs = (if mpv xs = 0 then 0 else limb_base (length xs) - mpv xs)"
    using v(1) by auto
  then show "mpv (js_mp_neg xs) = (if mpv xs = 0 then 0 else limb_base (length xs) - mpv xs)"
    "length (js_mp_neg xs) = length xs"
    using n v(3) by (simp_all add: js_mp_neg_def)
qed

section \<open>Multiplication\<close>

lemma add_mul1_loop_value:
  "add_mul1_loop rs xs b l = (ts, c) \<Longrightarrow> length rs = length xs \<Longrightarrow>
    mpv ts + limb_base (length xs) * unat c = mpv rs + mpv xs * unat b + unat l \<and> length ts = length xs"
proof (induction rs xs b l arbitrary: ts c rule: add_mul1_loop.induct)
  case (1 r rs x xs b l)
  define t where "t = (ucast x :: u64) * ucast b + ucast l + ucast r"
  obtain us where u: "add_mul1_loop rs xs b (ucast (drop_bit 32 t)) = (us, c)" and ts: "ts = ucast t # us"
    using 1(2) by (auto simp: t_def Let_def split: prod.splits)
  have "unat x * unat b + unat l + unat r < 2 ^ 64"
    using limb_prod_le [of x b] unat_limb_less [of l] unat_limb_less [of r] by simp
  then have t: "unat t = unat x * unat b + unat l + unat r"
    unfolding t_def by (subst unat_word_ariths(1)) (simp only: unat_muladd unat_up64, simp)
  have m: "unat (ucast t :: limb) + 4294967296 * unat (ucast (drop_bit 32 t) :: limb) = unat t"
    unfolding unat_high64 unfolding unat_low64 by simp
  have "mpv us + limb_base (length xs) * unat c = mpv rs + mpv xs * unat b + unat (ucast (drop_bit 32 t) :: limb) \<and>
      length us = length xs"
    using 1(1) [OF t_def u] 1(3) by simp
  then show ?case using m t by (simp add: ts algebra_simps)
qed auto

lemma js_mp_add_mul1_value:
  "js_mp_add_mul1 rs xs b = (ts, c) \<Longrightarrow> length rs = length xs \<Longrightarrow>
    mpv ts + limb_base (length xs) * unat c = mpv rs + mpv xs * unat b \<and> length ts = length xs"
  unfolding js_mp_add_mul1_def using add_mul1_loop_value by fastforce

lemma mpv_app: "mpv (xs @ ys) = mpv xs + limb_base (length xs) * mpv ys"
  by (induction xs) (simp_all add: algebra_simps)

lemma mpv_split: "i \<le> length xs \<Longrightarrow> mpv xs = mpv (take i xs) + limb_base i * mpv (drop i xs)"
  using mpv_app [of "take i xs" "drop i xs"] by simp

lemma mul_rows_value:
  "length res = length op1 + i \<Longrightarrow>
    mpv (mul_rows res op1 i ds) = mpv res + limb_base i * mpv op1 * mpv ds \<and>
    length (mul_rows res op1 i ds) = length res + length ds"
proof (induction ds arbitrary: res i)
  case (Cons d ds)
  obtain hi r where h: "js_mp_add_mul1 (drop i res) op1 d = (hi, r)" by fastforce
  have v: "mpv hi + limb_base (length op1) * unat r = mpv (drop i res) + mpv op1 * unat d" "length hi = length op1"
    using js_mp_add_mul1_value [OF h] Cons.prems by simp_all
  define res' where "res' = take i res @ hi @ [r]"
  have "mpv res' = mpv (take i res) + limb_base i * (mpv hi + limb_base (length op1) * unat r)"
    using Cons.prems v(2) by (simp add: res'_def mpv_app)
  also have "\<dots> = mpv res + limb_base i * mpv op1 * unat d"
    using mpv_split [of i res] Cons.prems unfolding v(1) by (simp add: algebra_simps)
  finally have "mpv res' = mpv res + limb_base i * mpv op1 * unat d" .
  moreover have l: "length res' = length op1 + (i + 1)" using Cons.prems v(2) by (simp add: res'_def)
  ultimately show ?case using Cons.IH [OF l] Cons.prems h by (simp add: res'_def [symmetric] algebra_simps)
qed simp

lemma js_mp_mul_basecase_value:
  assumes "op2 \<noteq> []"
  shows "mpv (js_mp_mul_basecase op1 op2) = mpv op1 * mpv op2"
    "length (js_mp_mul_basecase op1 op2) = length op1 + length op2"
proof -
  obtain rs r where m: "js_mp_mul1 op1 (hd op2) 0 = (rs, r)" by fastforce
  have v: "mpv rs + limb_base (length op1) * unat r = mpv op1 * unat (hd op2)" "length rs = length op1"
    using mp_mul1_value mp_mul1_length m unfolding js_mp_mul1_def by (fastforce simp: power_mult)+
  obtain d ds where d: "op2 = d # ds" using assms by (cases op2) auto
  show "mpv (js_mp_mul_basecase op1 op2) = mpv op1 * mpv op2"
    "length (js_mp_mul_basecase op1 op2) = length op1 + length op2"
    using mul_rows_value [of "rs @ [r]" op1 1 ds] m v
    by (simp_all add: js_mp_mul_basecase_def d mpv_app algebra_simps)
qed

section \<open>Division\<close>

lemma unat_neg32: "unat (- w :: limb) = (if unat w = 0 then 0 else 4294967296 - unat w)"
  using unat_sub_if' [of 0 w] by (simp add: unat_eq_0)

lemma sub_mul_limb:
  fixes r x b l :: limb
  defines "t \<equiv> (ucast r :: u64) - ucast x * ucast b - ucast l"
  shows "unat r + 4294967296 * unat (- ucast (drop_bit 32 t) :: limb) = unat (ucast t :: limb) + unat x * unat b + unat l"
proof -
  define P where "P = unat x * unat b + unat l"
  define h where "h = unat t div 4294967296"
  have P: "P \<le> 18446744069414584320"
    using limb_prod_le [of x b] unat_limb_less [of l] by (simp add: P_def)
  have r: "unat r \<le> 4294967295" by (rule unat_limb_less)
  have "t = ucast r - (ucast x * ucast b + ucast l)" by (simp add: t_def)
  then have t: "unat t = (if P \<le> unat r then unat r - P else unat r + 2 ^ LENGTH(64) - P)"
    by (simp only: unat_sub_if' unat_muladd unat_up64 P_def [symmetric])
  have low: "unat (ucast t :: limb) + 4294967296 * h = unat t" unfolding unat_low64 h_def by simp
  have h: "unat (ucast (drop_bit 32 t) :: limb) = h" unfolding unat_high64 h_def ..
  have neg: "unat (- ucast (drop_bit 32 t) :: limb) = (if h = 0 then 0 else 4294967296 - h)"
    unfolding unat_neg32 h ..
  show ?thesis
  proof (cases "P \<le> unat r")
    case True
    then have "h = 0" using t r by (simp add: h_def)
    then show ?thesis using True t low neg by (simp add: P_def)
  next
    case False
    then have t': "unat t + P = unat r + 18446744073709551616" using t P by simp
    then have h': "h \<noteq> 0" "h < 4294967296"
      using unat_u64_less [of t] P by (simp_all add: h_def div_eq_0_iff less_mult_imp_div_less)
    then have "unat (- ucast (drop_bit 32 t) :: limb) + h = 4294967296" using neg by simp
    then have "unat r + 4294967296 * unat (- ucast (drop_bit 32 t) :: limb) = unat (ucast t :: limb) + P"
      using low t' by linarith
    then show ?thesis by (simp only: P_def add.assoc)
  qed
qed

lemma sub_mul1_loop_value:
  "sub_mul1_loop rs xs b l = (ts, c) \<Longrightarrow> length rs = length xs \<Longrightarrow>
    mpv rs + limb_base (length xs) * unat c = mpv ts + mpv xs * unat b + unat l \<and> length ts = length xs"
proof (induction rs xs b l arbitrary: ts c rule: sub_mul1_loop.induct)
  case (1 r rs x xs b l)
  define t where "t = (ucast r :: u64) - ucast x * ucast b - ucast l"
  obtain us where u: "sub_mul1_loop rs xs b (- ucast (drop_bit 32 t)) = (us, c)" and ts: "ts = ucast t # us"
    using 1(2) by (auto simp: t_def Let_def split: prod.splits)
  have "mpv rs + limb_base (length xs) * unat c = mpv us + mpv xs * unat b + unat (- ucast (drop_bit 32 t) :: limb) \<and>
      length us = length xs"
    using 1(1) [OF t_def u] 1(3) by simp
  then show ?case using sub_mul_limb [of r x b l, folded t_def] by (simp add: ts algebra_simps)
qed auto

lemma js_mp_sub_mul1_value:
  "js_mp_sub_mul1 rs xs b = (ts, c) \<Longrightarrow> length rs = length xs \<Longrightarrow>
    mpv rs + limb_base (length xs) * unat c = mpv ts + mpv xs * unat b \<and> length ts = length xs"
  unfolding js_mp_sub_mul1_def using sub_mul1_loop_value by fastforce

lemma cmp_limbs_value:
  "length xs = length ys \<Longrightarrow> cmp_limbs xs ys = (if mpv xs < mpv ys then - 1 else if mpv xs = mpv ys then 0 else 1)"
proof (induction xs ys rule: list_induct2)
  case (Cons x xs y ys)
  have "unat x < 4294967296" "unat y < 4294967296" by (rule unat_u32_less)+
  then show ?case using Cons.IH by (auto simp: Let_def word_less_nat_alt word_unat_eq_iff)
qed simp

lemma js_mp_div1norm_value:
  assumes "2147483648 \<le> unat b" "unat r < unat b" "js_mp_div1norm xs b r = (qs, r')"
  shows "mpv qs = (mpv xs + limb_base (length xs) * unat r) div unat b"
    "unat r' = (mpv xs + limb_base (length xs) * unat r) mod unat b" "length qs = length xs"
proof -
  have "mp_div1 xs b r = (qs, r')"
    using assms mp_div1norm_loop_is_mp_div1 [OF assms(1,2), of xs]
    by (simp add: js_mp_div1norm_def js_udiv1norm_init_def split: if_splits)
  then show "mpv qs = (mpv xs + limb_base (length xs) * unat r) div unat b"
    "unat r' = (mpv xs + limb_base (length xs) * unat r) mod unat b" "length qs = length xs"
    using mp_div1_value [OF _ assms(2)] by (simp_all add: power_mult)
qed

text \<open>The correction loop. The number that the limbs \<open>mid\<close> and \<open>a\<close> stand for is negative and \<open>D\<close> below
  zero; the loop adds the divisor until it is not.\<close>

lemma add_back_value:
  assumes "mpv tabb = B" "0 < B" "length mid = length tabb"
    "int (mpv mid) + int (limb_base (length tabb)) * (int (unat a) - 4294967296) = int W - int (unat q) * int B"
    "int W - int (unat q) * int B < 0"
  shows "\<exists>mid' q'. add_back tabb mid a q = Some (mid', q') \<and> mpv mid' = W mod B \<and> unat q' = W div B \<and>
    length mid' = length tabb"
  using assms(3-5)
proof (induction "nat (int (unat q) * int B - int W)" arbitrary: mid a q rule: less_induct)
  case less
  define K where "K = limb_base (length tabb)"
  have K: "mpv tabb < K" "mpv mid < K" using mpv_less [of tabb] mpv_less [of mid] less.prems(1) by (simp_all add: K_def power_mult)
  obtain mid1 c where m: "js_mp_add mid tabb 0 = (mid1, c)" by fastforce
  have v: "mpv mid1 + K * unat c = mpv mid + B" "unat c \<le> 1" "length mid1 = length tabb"
    using js_mp_add_value [OF m] less.prems(1) assms(1) by (simp_all add: K_def)
  have K1: "mpv mid1 < K" using mpv_less [of mid1] v(3) by (simp add: K_def power_mult)
  have "unat q \<noteq> 0" using less.prems(3) by (intro notI) simp
  then have "unat (q - 1) = unat q - 1" using unat_minus_one [of q] by (auto simp: unat_eq_0)
  then have q: "int (unat (q - 1)) = int (unat q) - 1" using \<open>unat q \<noteq> 0\<close> by linarith
  define D where "D = int W - int (unat q) * int B"
  have D1: "int W - int (unat (q - 1)) * int B = D + int B" by (simp only: D_def q) (simp add: algebra_simps)
  have e: "int (mpv mid) + int K * (int (unat a) - 4294967296) = D" "D < 0"
    using less.prems(2,3) by (simp_all add: K_def D_def)
  have v': "int (mpv mid1) + int K * int (unat c) = int (mpv mid) + int B" using v(1) by (metis of_nat_add of_nat_mult)
  have dec: "nat (int (unat (q - 1)) * int B - int W) < nat (int (unat q) * int B - int W)"
    using D1 e(2) assms(2) unfolding D_def by linarith
  have a: "int (unat a) \<le> 4294967295" using unat_limb_less [of a] by linarith
  consider (stay) "c = 0" | (carry) "c = 1" "a + 1 \<noteq> 0" | (stop) "c = 1" "a + 1 = 0"
    using v(2) by (cases "c = 0"; cases "a + 1 = 0") (auto simp: unat_arith_simps le_Suc_eq)
  then show ?case
  proof cases
    case stay
    have n: "int (mpv mid1) + int K * (int (unat a) - 4294967296) = D + int B" using v' e(1) stay by simp
    have "int K * (int (unat a) - 4294967296) \<le> int K * (- 1)" using a by (intro mult_left_mono) auto
    then have "D + int B < 0" using n K1 by linarith
    then have "\<exists>mid' q'. add_back tabb mid1 a (q - 1) = Some (mid', q') \<and> mpv mid' = W mod B \<and> unat q' = W div B \<and>
        length mid' = length tabb"
      using n D1 v(3) by (intro less.hyps [OF dec]) (simp_all add: K_def)
    then show ?thesis using m stay by (subst add_back.simps) simp
  next
    case carry
    then have "unat (a + 1) = Suc (unat a)" using unatSuc [of a] by (simp add: add.commute)
    then have a1: "int (unat (a + 1)) = int (unat a) + 1" by linarith
    have n: "int (mpv mid1) + int K * (int (unat (a + 1)) - 4294967296) = D + int B"
      using v' e(1) carry(1) unfolding a1 by (simp add: algebra_simps)
    have "int (unat (a + 1)) \<le> 4294967295" using unat_limb_less [of "a + 1"] by linarith
    then have "int K * (int (unat (a + 1)) - 4294967296) \<le> int K * (- 1)" by (intro mult_left_mono) auto
    then have "D + int B < 0" using n K1 by linarith
    then have "\<exists>mid' q'. add_back tabb mid1 (a + 1) (q - 1) = Some (mid', q') \<and> mpv mid' = W mod B \<and> unat q' = W div B \<and>
        length mid' = length tabb"
      using n D1 v(3) by (intro less.hyps [OF dec]) (simp_all add: K_def)
    then show ?thesis using m carry by (subst add_back.simps) simp
  next
    case stop
    have "a = - 1" using stop(2) by (simp add: eq_neg_iff_add_eq_0)
    then have "unat a = 4294967295" by (simp add: unsigned_minus_1_eq_mask mask_eq_exp_minus_1)
    then have n: "int (mpv mid1) = D + int B" using v' e(1) stop(1) by (simp add: algebra_simps)
    then have w: "int W = int (unat (q - 1)) * int B + int (mpv mid1)" "mpv mid1 < B" using D1 e(2) by linarith+
    then have "W = unat (q - 1) * B + mpv mid1" by (metis of_nat_add of_nat_eq_iff of_nat_mult)
    then have "mpv mid1 = W mod B" "unat (q - 1) = W div B" using w(2) by simp_all
    then show ?thesis using m stop v(3) by (subst add_back.simps) simp
  qed
qed

lemma mpv_bound: "mpv xs < limb_base (length xs)"
  using mpv_less [of xs] by (simp add: power_mult)

lemma estimate_high:
  fixes W B :: nat
  assumes "W div K = h" "b1 * K \<le> B" "0 < b1" "0 < K"
  shows "W div B \<le> h div b1"
proof -
  have "W div B \<le> W div (b1 * K)" using assms by (intro div_le_mono2) auto
  also have "\<dots> = h div b1" using assms(1) by (simp add: div_mult2_eq mult.commute)
  finally show ?thesis .
qed

lemma div_digit_value:
  assumes len: "2 \<le> length tabb" "length rem = length tabb" and norm: "2147483648 \<le> unat (last tabb)"
    and less: "mpv rem < mpv tabb" and inv: "b1_inv = 0 \<or> b1_inv = js_udiv1norm_init (last tabb)"
  shows "\<exists>r q. div_digit tabb (last tabb) b1_inv (x # rem) = Some (r, q) \<and> mpv r = mpv (x # rem) mod mpv tabb \<and>
    unat q = mpv (x # rem) div mpv tabb \<and> length r = length tabb"
proof -
  obtain ts b1 where tabb: "tabb = ts @ [b1]" using len(1) by (cases tabb rule: rev_cases) auto
  obtain ys v where ys: "rem = ys @ [v]" using len by (cases rem rule: rev_cases) auto
  obtain ms lo where ms: "ys = ms @ [lo]" using len ys by (cases ys rule: rev_cases) auto
  have l: "length ts = Suc (length ms)" using len(2) by (simp add: tabb ys ms)
  define K where "K = limb_base (Suc (length ms))"
  define B where "B = mpv tabb"
  define W where "W = mpv (x # rem)"
  define h where "h = unat v * 4294967296 + unat lo"
  have K: "0 < K" "mpv (x # ms) < K" "mpv ts < K"
    using mpv_bound [of "x # ms"] mpv_bound [of ts] l by (simp_all add: K_def)
  have B: "B = mpv ts + K * unat b1" unfolding B_def tabb by (simp add: mpv_app l K_def)
  have W: "W = mpv (x # ms) + K * h" unfolding W_def ys ms by (simp add: mpv_app K_def h_def algebra_simps)
  have Wh: "W div K = h" unfolding W using K by simp
  have b1: "2147483648 \<le> unat b1" "0 < unat b1" using norm by (auto simp: tabb)
  have WB: "W < 4294967296 * B"
  proof -
    have "W < 4294967296 * (mpv rem + 1)" unfolding W_def using unat_u32_less [of x] by simp
    also have "\<dots> \<le> 4294967296 * B" using less by (simp add: B_def)
    finally show ?thesis .
  qed
  define q where "q = (if v \<ge> b1 then - 1 else if b1_inv \<noteq> 0 then fst (js_udiv1norm v lo b1 b1_inv)
    else ucast ((push_bit 32 (ucast v :: u64) OR ucast lo) div ucast b1))"
  have q: "W div B \<le> unat q"
  proof (cases "v \<ge> b1")
    case True
    then have "unat q = 4294967295" by (simp add: q_def unsigned_minus_1_eq_mask mask_eq_exp_minus_1)
    then show ?thesis using less_mult_imp_div_less [OF WB] by simp
  next
    case False
    then have v: "unat v < unat b1" by (simp add: word_le_nat_alt)
    have "h div unat b1 < 4294967296" using limb_div_less [OF v, of lo] by (simp add: h_def algebra_simps)
    then have "unat q = h div unat b1"
      using False inv udiv1norm_value [OF b1(1) v, of lo] div1_of_nat(1) [OF v, of lo]
      by (auto simp: q_def js_udiv1norm_def js_udiv1norm_init_def tabb h_def unat_of_nat)
    moreover have "W div B \<le> h div unat b1" using Wh K(1) b1(2) B by (intro estimate_high [of W K]) auto
    ultimately show ?thesis by simp
  qed
  obtain mid r where m: "js_mp_sub_mul1 (x # ys) tabb q = (mid, r)" by fastforce
  have mv: "mpv (x # ys) + 4294967296 * K * unat r = mpv mid + B * unat q" "length mid = length tabb"
    using js_mp_sub_mul1_value [OF m] l by (simp_all add: tabb B_def ms K_def)
  have Wv: "W = mpv (x # ys) + 4294967296 * K * unat v"
    unfolding W ms h_def by (simp add: mpv_app K_def algebra_simps)
  define a where "a = v - r"
  define T where "T = 4294967296 * K"
  have T: "mpv mid < T" using mpv_bound [of mid] mv(2) l by (simp add: tabb T_def K_def)
  have "0 < B" using B K b1 by simp
  have d: "div_digit tabb (last tabb) b1_inv (x # rem) = (if a > v then add_back tabb mid a q else Some (mid, q))"
  proof -
    have "(x # rem) ! length tabb = v" "(x # rem) ! (length tabb - 1) = lo" "take (length tabb) (x # rem) = x # ys"
      using l by (simp_all add: ys ms tabb nth_append)
    then show ?thesis using m by (simp add: div_digit_def Let_def tabb q_def a_def cong: if_cong)
  qed
  show ?thesis
  proof (cases "a > v")
    case True
    have "unat a + unat r = unat v + 4294967296" using borrow_value [of v r] True by (simp add: a_def)
    then have e: "int (unat a) - 4294967296 = int (unat v) - int (unat r)" by linarith
    have n: "int (mpv mid) + int T * (int (unat a) - 4294967296) = int W - int (unat q) * int B"
    proof -
      have "mpv mid + B * unat q + T * unat v = W + T * unat r" using mv(1) Wv unfolding T_def [symmetric] by linarith
      then have "int (mpv mid) + int B * int (unat q) + int T * int (unat v) = int W + int T * int (unat r)"
        by (metis of_nat_add of_nat_mult)
      then show ?thesis unfolding e right_diff_distrib by (simp only: mult.commute [of "int B"])
    qed
    moreover have "int W - int (unat q) * int B < 0"
    proof -
      have "int (unat a) \<le> 4294967295" using unat_limb_less [of a] by linarith
      then have "int T * (int (unat a) - 4294967296) \<le> int T * (- 1)" by (intro mult_left_mono) auto
      then show ?thesis using n T by linarith
    qed
    moreover have "int (limb_base (length tabb)) = int T" using l by (simp add: tabb T_def K_def)
    ultimately show ?thesis using \<open>0 < B\<close>
      using add_back_value [of tabb B mid a W q] mv(2) True unfolding d by (simp add: B_def W_def)
  next
    case False
    have "unat a + unat r = unat v" using borrow_value [of v r] False by (simp add: a_def)
    then have "T * unat a + T * unat r = T * unat v" by (metis distrib_left)
    then have e: "mpv mid + T * unat a + B * unat q = W" using mv(1) Wv unfolding T_def [symmetric] by linarith
    then have "B * unat q \<le> W" by linarith
    then have "unat q \<le> W div B" using \<open>0 < B\<close> by (simp add: less_eq_div_iff_mult_less_eq mult.commute)
    then have qe: "unat q = W div B" using q by simp
    then have "mpv mid + T * unat a = W mod B" using e by (metis add_right_cancel mod_mult_div_eq)
    moreover have "W mod B < T" using \<open>0 < B\<close> mpv_bound [of tabb] l by (simp add: B_def T_def K_def tabb less_trans [OF mod_less_divisor])
    ultimately have "mpv mid = W mod B" by (cases "unat a") auto
    then show ?thesis using False mv(2) qe unfolding d by (simp add: B_def W_def)
  qed
qed

lemma div_digits_value:
  assumes "2 \<le> length tabb" "2147483648 \<le> unat (last tabb)" "b1_inv = 0 \<or> b1_inv = js_udiv1norm_init (last tabb)"
    "length high = length tabb" "mpv high < mpv tabb"
  shows "\<exists>qs r. div_digits tabb (last tabb) b1_inv xs high = Some (qs, r) \<and>
    mpv r = (mpv xs + limb_base (length xs) * mpv high) mod mpv tabb \<and>
    mpv qs = (mpv xs + limb_base (length xs) * mpv high) div mpv tabb \<and> length r = length tabb \<and> length qs = length xs"
proof (induction xs)
  case Nil
  then show ?case using assms(4,5) by simp
next
  case (Cons x xs)
  define B where "B = mpv tabb"
  define W where "W = mpv xs + limb_base (length xs) * mpv high"
  obtain qs r where r: "div_digits tabb (last tabb) b1_inv xs high = Some (qs, r)" "mpv r = W mod B"
    "mpv qs = W div B" "length r = length tabb" "length qs = length xs"
    using Cons.IH unfolding W_def B_def by blast
  have "mpv r < B" using r(2) assms(5) by (simp add: B_def)
  then obtain r' q where q: "div_digit tabb (last tabb) b1_inv (x # r) = Some (r', q)"
    "mpv r' = (unat x + 4294967296 * (W mod B)) mod B" "unat q = (unat x + 4294967296 * (W mod B)) div B"
    "length r' = length tabb"
    using div_digit_value [OF assms(1) r(4) assms(2) _ assms(3), of x] r(2) by (auto simp: B_def)
  have w: "mpv (x # xs) + limb_base (length (x # xs)) * mpv high = unat x + 4294967296 * W"
    by (simp add: W_def algebra_simps)
  have "unat x + 4294967296 * W = (unat x + 4294967296 * (W mod B)) + B * (4294967296 * (W div B))"
  proof -
    have "4294967296 * W = 4294967296 * (B * (W div B) + W mod B)" by simp
    also have "\<dots> = B * (4294967296 * (W div B)) + 4294967296 * (W mod B)" by (simp only: distrib_left mult.left_commute)
    finally show ?thesis by linarith
  qed
  then have "(unat x + 4294967296 * W) mod B = mpv r'" "(unat x + 4294967296 * W) div B = unat q + 4294967296 * (W div B)"
    using mod_mult_self2 [of "unat x + 4294967296 * (W mod B)" B] \<open>mpv r < B\<close>
      div_mult_self2 [of B "unat x + 4294967296 * (W mod B)"] unfolding q(2,3) by (metis add.commute less_nat_zero_code)+
  then show ?case unfolding w using r q by (simp add: B_def)
qed

text \<open>The quotient has one limb more than the difference of the lengths, the remainder the length of the
  divisor.\<close>

lemma js_mp_divnorm_value:
  assumes "tabb \<noteq> []" "2147483648 \<le> unat (last tabb)" "length tabb \<le> length taba"
  shows "\<exists>qs r. js_mp_divnorm taba tabb = Some (qs, r) \<and> mpv qs = mpv taba div mpv tabb \<and>
    mpv r = mpv taba mod mpv tabb \<and> length qs = length taba - length tabb + 1 \<and> length r = length tabb"
proof -
  have b1: "tabb ! (length tabb - 1) = last tabb" using assms(1) by (simp add: last_conv_nth)
  show ?thesis
  proof (cases "length tabb = 1")
    case True
    then obtain b where b: "tabb = [b]" by (auto simp: length_Suc_conv)
    obtain qs r where d: "js_mp_div1norm taba b 0 = (qs, r)" by fastforce
    have "2147483648 \<le> unat b" "unat (0 :: limb) < unat b" using assms(2) by (auto simp: b)
    from js_mp_div1norm_value [OF this d] show ?thesis
      using d assms(3) by (simp add: js_mp_divnorm_def b Let_def)
  next
    case False
    then have l: "2 \<le> length tabb" using assms(1) by (cases tabb) (auto simp: Suc_le_eq)
    define n where "n = length taba - length tabb"
    define high where "high = drop n taba"
    define q :: limb where "q = (if cmp_limbs high tabb < 0 then 0 else 1)"
    define high' where "high' = (if q \<noteq> 0 then fst (js_mp_sub high tabb 0) else high)"
    define b1_inv where "b1_inv = (if n \<ge> UDIV1NORM_THRESHOLD then js_udiv1norm_init (last tabb) else 0)"
    define B where "B = mpv tabb"
    have lh: "length high = length tabb" using assms(3) by (simp add: high_def n_def)
    have q: "unat q = (if mpv high < B then 0 else 1)" using cmp_limbs_value [OF lh] by (simp add: q_def B_def)
    have top_bit: "mpv high < 2 * B"
    proof -
      have t: "tabb = butlast tabb @ [last tabb]" using assms(1) by simp
      have "B = mpv (butlast tabb) + limb_base (length tabb - 1) * unat (last tabb)"
        unfolding B_def by (subst t, subst mpv_app) simp
      then have "limb_base (length tabb - 1) * 2147483648 \<le> B" using assms(2) by (simp add: trans_le_add2)
      moreover have "limb_base (length tabb) = 4294967296 * limb_base (length tabb - 1)" using l by (cases "length tabb") auto
      ultimately show ?thesis using mpv_bound [of high] lh by simp
    qed
    have h': "mpv high = B * unat q + mpv high'" "length high' = length tabb" "mpv high' < B"
    proof -
      obtain rs c where s: "js_mp_sub high tabb 0 = (rs, c)" by fastforce
      have v: "mpv rs + B = mpv high + limb_base (length high) * unat c" "unat c \<le> 1" "length rs = length high"
        using js_mp_sub_value [OF s lh] by (simp_all add: B_def)
      have "unat c = 0" if "B \<le> mpv high"
        using that v mpv_bound [of rs] by (cases "unat c") auto
      then show "mpv high = B * unat q + mpv high'" "length high' = length tabb" "mpv high' < B"
        using v q lh top_bit s by (auto simp: high'_def unat_eq_0 split: if_splits)
    qed
    have inv: "b1_inv = 0 \<or> b1_inv = js_udiv1norm_init (last tabb)" by (simp add: b1_inv_def)
    have lt: "length (take n taba) = n" by (simp add: n_def)
    obtain qs r where r: "div_digits tabb (last tabb) b1_inv (take n taba) high' = Some (qs, r)"
      "mpv r = (mpv (take n taba) + limb_base n * mpv high') mod B"
      "mpv qs = (mpv (take n taba) + limb_base n * mpv high') div B" "length r = length tabb" "length qs = n"
      using div_digits_value [OF l assms(2) inv h'(2) h'(3) [unfolded B_def], of "take n taba"]
      unfolding lt B_def [symmetric] by blast
    have "mpv taba = mpv (take n taba) + limb_base n * mpv high" unfolding high_def n_def by (intro mpv_split) simp
    then have a: "mpv taba = mpv (take n taba) + limb_base n * mpv high' + B * (limb_base n * unat q)"
      unfolding h'(1) by (simp add: algebra_simps)
    have B: "0 < B" using h'(3) by simp
    have "js_mp_divnorm taba tabb = Some (qs @ [q], r)"
      using False r(1) unfolding js_mp_divnorm_def b1 Let_def n_def [symmetric] high_def [symmetric] q_def [symmetric]
        high'_def [symmetric] b1_inv_def [symmetric] by simp
    moreover have "mpv (qs @ [q]) = mpv taba div B" "mpv r = mpv taba mod B"
      unfolding a using r(2,3,5) B by (simp_all add: mpv_app)
    ultimately show ?thesis using r(4,5) by (simp add: B_def n_def)
  qed
qed

end
