(* ===== verification/BigInt.thy ===== *)
theory BigInt
  imports BigLimbs Mpb
begin

text \<open>
  The big integers of \<^verbatim>\<open>quickjs/quickjs.c\<close> (\<open>js_bigint_new\<close> to \<open>js_bigint_pow\<close> and
  \<open>js_bigint_cmp\<close>): two's complement numbers of 32-bit limbs, of minimal length. A number is the list
  of its limbs, least significant first; \<open>len\<close> is the length of the list. The parameter \<open>mok\<close> tells
  whether an allocation of so many limbs is granted; within one operation it gives the same answer to
  requests of the same size. A shift count is a natural number: counts beyond 32 bits, which C does not
  pass, are refused as too large. An operation returns the number or the
  exception that it throws; freeing is not represented.
\<close>

section \<open>Numbers\<close>

type_synonym js_bigint = "limb list"

datatype bigint_error = Too_large | Out_of_memory | Division_by_zero | Negative_exponent | Undefined_behaviour

type_synonym bigint_result = "bigint_error + js_bigint"

definition JS_BIGINT_MAX_SIZE :: nat where "JS_BIGINT_MAX_SIZE = (1024 * 1024) div 32"

text \<open>A number of \<open>len\<close> limbs is allocated and then given its limbs.\<close>

definition js_bigint_new :: "(nat \<Rightarrow> bool) \<Rightarrow> nat \<Rightarrow> (unit \<Rightarrow> bigint_result) \<Rightarrow> bigint_result" where
  "js_bigint_new mok len fill =
     (if len > JS_BIGINT_MAX_SIZE then Inl Too_large
      else if \<not> mok len then Inl Out_of_memory
      else fill ())"

definition js_bigint_new_si :: "(nat \<Rightarrow> bool) \<Rightarrow> limb \<Rightarrow> bigint_result" where
  "js_bigint_new_si mok a = js_bigint_new mok 1 (\<lambda>_. Inr [a])"

definition js_bigint_set_si :: "limb \<Rightarrow> js_bigint" where "js_bigint_set_si a = [a]"

definition js_bigint_set_si64 :: "u64 \<Rightarrow> js_bigint" where
  "js_bigint_set_si64 a =
     (if - 2147483648 \<le> sint a \<and> sint a \<le> 2147483647 then [ucast a]
      else [ucast a, ucast (signed_drop_bit 32 a)])"

definition js_bigint_new_si64 :: "(nat \<Rightarrow> bool) \<Rightarrow> u64 \<Rightarrow> bigint_result" where
  "js_bigint_new_si64 mok a =
     (if - 2147483648 \<le> sint a \<and> sint a \<le> 2147483647 then js_bigint_new_si mok (ucast a)
      else js_bigint_new mok 2 (\<lambda>_. Inr [ucast a, ucast (signed_drop_bit 32 a)]))"

definition js_bigint_new_ui64 :: "(nat \<Rightarrow> bool) \<Rightarrow> u64 \<Rightarrow> bigint_result" where
  "js_bigint_new_ui64 mok a =
     (if unat a \<le> 9223372036854775807 then js_bigint_new_si64 mok a
      else js_bigint_new mok 3 (\<lambda>_. Inr [ucast a, ucast (drop_bit 32 a), 0]))"

definition js_bigint_new_di :: "(nat \<Rightarrow> bool) \<Rightarrow> u64 \<Rightarrow> bigint_result" where
  "js_bigint_new_di mok a =
     (if a = scast (ucast a :: limb) then js_bigint_new mok 1 (\<lambda>_. Inr [ucast a])
      else js_bigint_new mok 2 (\<lambda>_. Inr [ucast a, ucast (signed_drop_bit 32 a)]))"

text \<open>How many of the first \<open>l\<close> limbs are not redundant.\<close>

fun norm_len :: "js_bigint \<Rightarrow> nat \<Rightarrow> nat" where
  "norm_len a (Suc (Suc l)) =
     (let v = a ! Suc l in
      if v \<noteq> 0 \<and> v \<noteq> - 1 \<or> v AND 1 \<noteq> drop_bit 31 (a ! l) then Suc (Suc l) else norm_len a (Suc l))"
| "norm_len a l = l"

definition js_bigint_normalize1 :: "js_bigint \<Rightarrow> nat \<Rightarrow> js_bigint" where
  "js_bigint_normalize1 a l = take (norm_len a l) a"

definition js_bigint_normalize :: "js_bigint \<Rightarrow> js_bigint" where
  "js_bigint_normalize a = js_bigint_normalize1 a (length a)"

definition js_bigint_sign :: "js_bigint \<Rightarrow> limb" where
  "js_bigint_sign a = drop_bit 31 (a ! (length a - 1))"

definition js_bigint_get_si_sat :: "js_bigint \<Rightarrow> int" where
  "js_bigint_get_si_sat a =
     (if length a = 1 then sint (a ! 0) else if js_bigint_sign a \<noteq> 0 then - 2147483648 else 2147483647)"

definition js_bigint_extend :: "(nat \<Rightarrow> bool) \<Rightarrow> js_bigint \<Rightarrow> limb \<Rightarrow> bigint_result" where
  "js_bigint_extend mok r op1 =
     (if op1 \<noteq> 0 \<and> op1 \<noteq> - 1 \<or> op1 AND 1 \<noteq> drop_bit 31 (r ! (length r - 1)) then
        (if mok (length r + 1) then Inr (r @ [op1]) else Inl Out_of_memory)
      else Inr (js_bigint_normalize r))"

section \<open>Addition, multiplication, division\<close>

definition js_bigint_add :: "(nat \<Rightarrow> bool) \<Rightarrow> js_bigint \<Rightarrow> js_bigint \<Rightarrow> bool \<Rightarrow> bigint_result" where
  "js_bigint_add mok a b b_neg =
     (let n2 = max (length a) (length b); n1 = min (length a) (length b);
          m = (if b_neg then - 1 else 0)
      in js_bigint_new mok n2 (\<lambda>_.
        let (r1, carry) = js_mp_add (take n1 a) (map (\<lambda>x. x XOR m) (take n1 b)) (if b_neg then 1 else 0);
            a_sign = - js_bigint_sign a;
            b_sign = (- js_bigint_sign b) XOR m;
            (r2, carry) =
              (if length a > length b then js_mp_add (drop n1 a) (replicate (n2 - n1) b_sign) carry
               else if length a < length b then
                 js_mp_add (replicate (n2 - n1) a_sign) (map (\<lambda>x. x XOR m) (drop n1 b)) carry
               else ([], carry))
        in js_bigint_extend mok (r1 @ r2) (a_sign + b_sign + carry)))"

definition js_bigint_neg :: "(nat \<Rightarrow> bool) \<Rightarrow> js_bigint \<Rightarrow> bigint_result" where
  "js_bigint_neg mok a = js_bigint_add mok (js_bigint_set_si 0) a True"

definition js_bigint_mul :: "(nat \<Rightarrow> bool) \<Rightarrow> js_bigint \<Rightarrow> js_bigint \<Rightarrow> bigint_result" where
  "js_bigint_mul mok a b =
     js_bigint_new mok (length a + length b) (\<lambda>_.
       let r = js_mp_mul_basecase a b;
           r = (if js_bigint_sign a \<noteq> 0
             then take (length a) r @ fst (js_mp_sub (drop (length a) r) b 0) else r);
           r = (if js_bigint_sign b \<noteq> 0
             then take (length b) r @ fst (js_mp_sub (drop (length b) r) a 0) else r)
       in Inr (js_bigint_normalize r))"

text \<open>The limbs of the absolute value, without high limbs that are 0.\<close>

definition abs_limbs :: "js_bigint \<Rightarrow> limb list" where
  "abs_limbs a = mpb_renorm (if js_bigint_sign a \<noteq> 0 then js_mp_neg a else a)"

definition js_bigint_divrem :: "(nat \<Rightarrow> bool) \<Rightarrow> js_bigint \<Rightarrow> js_bigint \<Rightarrow> bool \<Rightarrow> bigint_result" where
  "js_bigint_divrem mok a b is_rem =
     (if length b = 1 \<and> b ! 0 = 0 then Inl Division_by_zero
      else
        let a_sign = js_bigint_sign a; b_sign = js_bigint_sign b in
        js_bigint_new mok (length a + 2) (\<lambda>_.
          if \<not> mok (length b) then Inl Out_of_memory
          else
            let r = abs_limbs a; tabb = abs_limbs b; na = length r; nb = length tabb in
            if na < nb then
              (if is_rem then js_bigint_new mok (length a) (\<lambda>_. Inr a) else js_bigint_new_si mok 0)
            else
              let shift = js_limb_clz (tabb ! (nb - 1));
                  (tabb, r) =
                    (if shift \<noteq> 0
                     then (let (r', h) = js_mp_shl r shift
                           in (fst (js_mp_shl tabb shift), if h \<noteq> 0 then r' @ [h] else r'))
                     else (tabb, r));
                  na = length r
              in js_bigint_new mok (na - nb + 2) (\<lambda>_.
                case js_mp_divnorm r tabb of None \<Rightarrow> Inl Undefined_behaviour
                | Some (q, r) \<Rightarrow>
                    if is_rem then
                      let r = (if shift \<noteq> 0 then fst (js_mp_shr r shift 0) else r) @ [0];
                          r = (if a_sign \<noteq> 0 then js_mp_neg r else r)
                      in Inr (js_bigint_normalize1 r (nb + 1))
                    else
                      let q = q @ [0];
                          q = (if a_sign XOR b_sign \<noteq> 0 then js_mp_neg q else q)
                      in Inr (js_bigint_normalize q))))"

section \<open>Bitwise operations\<close>

datatype logic_op = OP_or | OP_and | OP_xor

fun limb_logic :: "logic_op \<Rightarrow> limb \<Rightarrow> limb \<Rightarrow> limb" where
  "limb_logic OP_or x y = x OR y"
| "limb_logic OP_and x y = x AND y"
| "limb_logic OP_xor x y = x XOR y"

definition js_bigint_logic :: "(nat \<Rightarrow> bool) \<Rightarrow> js_bigint \<Rightarrow> js_bigint \<Rightarrow> logic_op \<Rightarrow> bigint_result" where
  "js_bigint_logic mok a b op =
     (let (a, b) = (if length a < length b then (b, a) else (a, b));
          a_len = length a; b_len = length b;
          b_sign = - js_bigint_sign b
      in js_bigint_new mok a_len (\<lambda>_.
        Inr (js_bigint_normalize
          (map2 (limb_logic op) (take b_len a) b @ map (\<lambda>x. limb_logic op x b_sign) (drop b_len a)))))"

definition js_bigint_not :: "(nat \<Rightarrow> bool) \<Rightarrow> js_bigint \<Rightarrow> bigint_result" where
  "js_bigint_not mok a = js_bigint_new mok (length a) (\<lambda>_. Inr (map NOT a))"

definition js_bigint_shl :: "(nat \<Rightarrow> bool) \<Rightarrow> js_bigint \<Rightarrow> nat \<Rightarrow> bigint_result" where
  "js_bigint_shl mok a shift1 =
     (if length a = 1 \<and> a ! 0 = 0 then js_bigint_new_si mok 0
      else
        let d = shift1 div 32; shift = shift1 mod 32 in
        js_bigint_new mok (length a + d) (\<lambda>_.
          if shift = 0 then Inr (replicate d 0 @ a)
          else
            let (r, l) = js_mp_shl a shift;
                l = (if js_bigint_sign a \<noteq> 0 then l OR push_bit shift (- 1) else l)
            in js_bigint_extend mok (replicate d 0 @ r) l))"

definition js_bigint_shr :: "(nat \<Rightarrow> bool) \<Rightarrow> js_bigint \<Rightarrow> nat \<Rightarrow> bigint_result" where
  "js_bigint_shr mok a shift1 =
     (let d = shift1 div 32; shift = shift1 mod 32; a_sign = js_bigint_sign a in
      if d \<ge> length a then js_bigint_new_si mok (- a_sign)
      else
        js_bigint_new mok (length a - d) (\<lambda>_.
          if shift = 0 then Inr (drop d a)
          else Inr (js_bigint_normalize (fst (js_mp_shr (drop d a) shift (- a_sign))))))"

section \<open>Powers and comparison\<close>

text \<open>The loop over the bits \<open>i - 1\<close> to 0 of the exponent.\<close>

fun pow_loop :: "(nat \<Rightarrow> bool) \<Rightarrow> js_bigint \<Rightarrow> limb \<Rightarrow> nat \<Rightarrow> js_bigint \<Rightarrow> bigint_result" where
  "pow_loop mok a e 0 r = Inr r"
| "pow_loop mok a e (Suc i) r =
     (case js_bigint_mul mok r r of Inl x \<Rightarrow> Inl x
      | Inr r \<Rightarrow>
          if drop_bit i e AND 1 \<noteq> 0 then
            (case js_bigint_mul mok r a of Inl x \<Rightarrow> Inl x | Inr r \<Rightarrow> pow_loop mok a e i r)
          else pow_loop mok a e i r)"

definition pow_general :: "(nat \<Rightarrow> bool) \<Rightarrow> js_bigint \<Rightarrow> js_bigint \<Rightarrow> bigint_result" where
  "pow_general mok a b =
     (if length b > 1 then Inl Too_large
      else if unat (b ! 0) > 2147483647 then Inl Too_large
      else
        let e = b ! 0; n_bits = 32 - clz32 e in
        js_bigint_new mok (length a) (\<lambda>_. pow_loop mok a e (n_bits - 1) a))"

text \<open>The power of a limb whose absolute value is a power \<open>v\<close> of 2.\<close>

definition pow_of_two :: "(nat \<Rightarrow> bool) \<Rightarrow> limb \<Rightarrow> bool \<Rightarrow> js_bigint \<Rightarrow> bigint_result" where
  "pow_of_two mok v is_neg b =
     (let n = 31 - js_limb_clz v in
      if length b > 1 then Inl Too_large
      else if unat (b ! 0) > 2147483647 then Inl Too_large
      else
        let e1 = unat (b ! 0) * n in
        if e1 > JS_BIGINT_MAX_SIZE * 32 then Inl Too_large
        else
          let e = e1; neg = is_neg \<and> b ! 0 AND 1 \<noteq> 0;
              len = (e + 32 + 1 - (if neg then 1 else 0)) div 32
          in js_bigint_new mok len (\<lambda>_.
            Inr ((replicate len 0)[e div 32 := push_bit (e mod 32) (if neg then - 1 else 1)])))"

definition js_bigint_pow :: "(nat \<Rightarrow> bool) \<Rightarrow> js_bigint \<Rightarrow> js_bigint \<Rightarrow> bigint_result" where
  "js_bigint_pow mok a b =
     (if js_bigint_sign b \<noteq> 0 then Inl Negative_exponent
      else if length b = 1 \<and> b ! 0 = 0 then js_bigint_new_si mok 1
      else if length a = 1 then
        let v = a ! 0 in
        if v \<le> 1 then js_bigint_new_si mok v
        else if v = - 1 then js_bigint_new_si mok (1 - 2 * (b ! 0 AND 1))
        else
          let is_neg = (sint v < 0); v = (if is_neg then - v else v) in
          if v AND (v - 1) = 0 then pow_of_two mok v is_neg b else pow_general mok a b
      else pow_general mok a b)"

definition js_bigint_cmp :: "js_bigint \<Rightarrow> js_bigint \<Rightarrow> int" where
  "js_bigint_cmp a b =
     (let a_sign = js_bigint_sign a; b_sign = js_bigint_sign b in
      if a_sign \<noteq> b_sign then 1 - 2 * uint a_sign
      else if length a \<noteq> length b then
        (if length a < length b then 2 * uint a_sign - 1 else 1 - 2 * uint a_sign)
      else cmp_limbs a b)"

section \<open>Values\<close>

fun bval :: "js_bigint \<Rightarrow> int" where
  "bval [] = 0"
| "bval [x] = sint x"
| "bval (x # y # ys) = uint x + 4294967296 * bval (y # ys)"

text \<open>Minimal length.\<close>

definition bigint_ok :: "js_bigint \<Rightarrow> bool" where
  "bigint_ok a \<longleftrightarrow> a \<noteq> [] \<and>
     (1 < length a \<longrightarrow> \<not> (last a = 0 \<and> a ! (length a - 2) < 2147483648 \<or>
       last a = - 1 \<and> \<not> a ! (length a - 2) < 2147483648))"

abbreviation "B32 n \<equiv> (4294967296 :: int) ^ n"

lemma bval_append: "ys \<noteq> [] \<Longrightarrow> bval (xs @ ys) = int (mpv xs) + B32 (length xs) * bval ys"
proof (induction xs rule: induct_list012)
  case (2 x)
  then show ?case by (cases ys) simp_all
next
  case (3 x y zs)
  then show ?case by (simp add: algebra_simps)
qed simp

lemma bval_last: "a \<noteq> [] \<Longrightarrow> bval a = int (mpv (butlast a)) + B32 (length a - 1) * sint (last a)"
  using bval_append [of "[last a]" "butlast a"] by simp

lemma limb_high_bit:
  "unat (x :: limb) div 2147483648 = (if x < 2147483648 then 0 else 1)"
  "bit x 31 \<longleftrightarrow> \<not> x < 2147483648"
proof -
  show d: "unat x div 2147483648 = (if x < 2147483648 then 0 else 1)"
    using unat_u32_less [of x] by (auto simp: word_less_nat_alt intro!: div_nat_eqI)
  have "bit x 31 \<longleftrightarrow> odd (unat x div 2147483648)"
    using bit_unsigned_iff [of x 31, where 'a = nat] by (simp add: bit_iff_odd)
  then show "bit x 31 \<longleftrightarrow> \<not> x < 2147483648" unfolding d by simp
qed

lemma drop_bit_31: "drop_bit 31 (x :: limb) = (if x < 2147483648 then 0 else 1)"
proof -
  have "unat (drop_bit 31 x) = (if x < 2147483648 then 0 else 1)" by (simp add: unat_drop_bit limb_high_bit(1))
  then show ?thesis by (simp add: word_unat_eq_iff)
qed

lemma sint_limb: "sint (x :: limb) = int (unat x) - (if x < 2147483648 then 0 else 4294967296)"
proof -
  have "sint x = take_bit 32 (uint x) - 4294967296 * of_bool (bit (uint x) 31)"
    by (simp add: sint_uint signed_take_bit_eq_take_bit_minus)
  moreover have "bit (uint x) 31 \<longleftrightarrow> \<not> x < 2147483648" using limb_high_bit(2) [of x] by (simp add: bit_uint_iff)
  moreover have "take_bit 32 (uint x) = int (unat x)" using uint_bounded [of x] by (simp add: take_bit_eq_mod)
  ultimately show ?thesis by simp
qed

lemma sint_limb_bounds: "- 2147483648 \<le> sint (x :: limb)" "sint x < 2147483648"
  using sint_range_size [of x] by (simp_all add: word_size)

lemma sign_last: "a \<noteq> [] \<Longrightarrow> js_bigint_sign a = (if last a < 2147483648 then 0 else 1)"
  by (simp add: js_bigint_sign_def drop_bit_31 last_conv_nth)

lemma bval_mpv:
  assumes "a \<noteq> []"
  shows "bval a = int (mpv a) - (if js_bigint_sign a = 0 then 0 else B32 (length a))"
proof -
  have l: "length (butlast a) = length a - 1" by simp
  have "B32 (length a) = B32 (length a - 1) * 4294967296" using assms by (cases a) simp_all
  moreover have "int (mpv a) = int (mpv (butlast a)) + B32 (length a - 1) * int (unat (last a))"
    using mpv_app [of "butlast a" "[last a]"] assms by simp
  ultimately show ?thesis
    using bval_last [OF assms] by (cases "last a < 2147483648") (simp_all add: sign_last [OF assms] sint_limb algebra_simps)
qed

lemma bval_range:
  assumes "a \<noteq> []"
  shows "- (B32 (length a - 1) * 2147483648) \<le> bval a" "bval a < B32 (length a - 1) * 2147483648"
proof -
  have m: "0 \<le> int (mpv (butlast a))" "int (mpv (butlast a)) < B32 (length a - 1)"
    using mpv_bound [of "butlast a"] by (simp_all flip: of_nat_power_less_of_nat_cancel_iff)
  have "- 2147483648 \<le> sint (last a)" "sint (last a) \<le> 2147483647" using sint_limb_bounds [of "last a"] by simp_all
  then have "B32 (length a - 1) * - 2147483648 \<le> B32 (length a - 1) * sint (last a)"
    "B32 (length a - 1) * sint (last a) \<le> B32 (length a - 1) * 2147483647"
    by (intro mult_left_mono; simp)+
  then show "- (B32 (length a - 1) * 2147483648) \<le> bval a" "bval a < B32 (length a - 1) * 2147483648"
    unfolding bval_last [OF assms] using m by linarith+
qed

lemma bval_unique:
  assumes "a \<noteq> []" "int (mpv a) = v + B32 (length a) * k"
    "- (B32 (length a - 1) * 2147483648) \<le> v" "v < B32 (length a - 1) * 2147483648"
  shows "bval a = v"
proof -
  define T where "T = B32 (length a)"
  define h where "h = B32 (length a - 1) * 2147483648"
  have T: "T = 2 * h" using assms(1) by (cases a) (simp_all add: T_def h_def)
  define k' where "k' = k - (if js_bigint_sign a = 0 then 0 else 1)"
  have e: "bval a = v + T * k'" using bval_mpv [OF assms(1)] assms(2)
    by (cases "js_bigint_sign a = 0") (simp_all add: T_def k'_def algebra_simps)
  have b: "- h \<le> bval a" "bval a < h" "- h \<le> v" "v < h"
    using bval_range [OF assms(1)] assms(3,4) by (simp_all add: h_def)
  have "0 < h" by (simp add: h_def)
  have "k' = 0"
  proof (rule ccontr)
    assume "k' \<noteq> 0"
    then consider "1 \<le> k'" | "k' \<le> - 1" by linarith
    then show False
    proof cases
      case 1
      then have "T * 1 \<le> T * k'" using \<open>0 < h\<close> T by (intro mult_left_mono) simp_all
      then show False using e b T by linarith
    next
      case 2
      then have "T * k' \<le> T * - 1" using \<open>0 < h\<close> T by (intro mult_left_mono) simp_all
      then show False using e b T by linarith
    qed
  qed
  then show ?thesis using e by simp
qed

lemma limb_and_1: "v = 0 \<or> v = - 1 \<Longrightarrow> v AND 1 = (if v = 0 then 0 else 1 :: limb)"
  by auto

lemma norm_len_value:
  "0 < l \<Longrightarrow> l \<le> length a \<Longrightarrow> 0 < norm_len a l \<and> norm_len a l \<le> l \<and>
    bval (take (norm_len a l) a) = bval (take l a) \<and> bigint_ok (take (norm_len a l) a)"
proof (induction a l rule: norm_len.induct)
  case (1 a l)
  define v where "v = a ! Suc l"
  define u where "u = a ! l"
  have t: "take (Suc (Suc l)) a = take l a @ [u, v]" using 1(3) by (simp add: take_Suc_conv_app_nth u_def v_def)
  have t1: "take (Suc l) a = take l a @ [u]" using 1(3) by (simp add: take_Suc_conv_app_nth u_def)
  have len: "length (take l a) = l" using 1(3) by simp
  show ?case
  proof (cases "v \<noteq> 0 \<and> v \<noteq> - 1 \<or> v AND 1 \<noteq> drop_bit 31 u")
    case True
    have "bigint_ok (take l a @ [u, v])"
      using True limb_and_1 [of v] 1(3) by (auto simp: bigint_ok_def nth_append drop_bit_31 split: if_splits)
    then show ?thesis using True 1(3) by (simp add: t v_def [symmetric] u_def [symmetric])
  next
    case False
    then have n: "norm_len a (Suc (Suc l)) = norm_len a (Suc l)" unfolding v_def u_def by (subst norm_len.simps) (simp only: Let_def if_False)
    have "bval (take l a @ [u, v]) = bval (take l a @ [u])"
      using False limb_and_1 [of v] by (auto simp: bval_append len drop_bit_31 sint_limb unsigned_minus_1_eq_mask mask_eq_exp_minus_1 split: if_splits)
    then show ?thesis using 1(1) [OF v_def] False 1(3) unfolding n t t1 v_def [symmetric] u_def [symmetric] by (simp add: t1 [symmetric])
  qed
qed (auto simp: bigint_ok_def)

lemma normalize1_value:
  assumes "0 < l" "l \<le> length a"
  shows "bval (js_bigint_normalize1 a l) = bval (take l a)" "bigint_ok (js_bigint_normalize1 a l)"
  using norm_len_value [OF assms] by (simp_all add: js_bigint_normalize1_def)

lemma normalize_value:
  assumes "a \<noteq> []"
  shows "bval (js_bigint_normalize a) = bval a" "bigint_ok (js_bigint_normalize a)"
  using normalize1_value [of "length a" a] assms by (simp_all add: js_bigint_normalize_def)

section \<open>Addition\<close>

lemma extend_value:
  assumes "js_bigint_extend mok r op1 = Inr z" "r \<noteq> []"
  shows "bval z = int (mpv r) + B32 (length r) * sint op1" "bigint_ok z"
proof -
  have e: "js_bigint_extend mok r op1 =
    (if op1 \<noteq> 0 \<and> op1 \<noteq> - 1 \<or> op1 AND 1 \<noteq> js_bigint_sign r then
        (if mok (length r + 1) then Inr (r @ [op1]) else Inl Out_of_memory)
      else Inr (js_bigint_normalize r))"
    by (simp only: js_bigint_extend_def js_bigint_sign_def)
  show "bval z = int (mpv r) + B32 (length r) * sint op1" "bigint_ok z"
  proof (atomize(full), cases "op1 \<noteq> 0 \<and> op1 \<noteq> - 1 \<or> op1 AND 1 \<noteq> js_bigint_sign r")
    case True
    then have z: "z = r @ [op1]" using assms(1) unfolding e by (auto split: if_splits)
    have "bigint_ok z"
      using True assms(2) limb_and_1 [of op1] sign_last [OF assms(2)]
      by (auto simp: z bigint_ok_def nth_append last_conv_nth split: if_splits)
    then show "bval z = int (mpv r) + B32 (length r) * sint op1 \<and> bigint_ok z" by (simp add: z bval_append)
  next
    case False
    then have z: "z = js_bigint_normalize r" using assms(1) unfolding e if_not_P [OF False] by simp
    have "sint op1 = - (if js_bigint_sign r = 0 then 0 else 1)"
      using False limb_and_1 [of op1] by (auto split: if_splits)
    then show "bval z = int (mpv r) + B32 (length r) * sint op1 \<and> bigint_ok z"
      using normalize_value [OF assms(2)] bval_mpv [OF assms(2)] by (auto simp: z split: if_splits)
  qed
qed

lemma js_mp_add_append:
  "length xs = length ys \<Longrightarrow> js_mp_add (xs @ xs') (ys @ ys') k =
    (let (r, c) = js_mp_add xs ys k; (r', c') = js_mp_add xs' ys' c in (r @ r', c'))"
  by (induction xs ys arbitrary: k rule: list_induct2) (auto simp: Let_def split: prod.splits)

text \<open>A number extended with its sign to \<open>n\<close> limbs.\<close>

definition sign_extend :: "js_bigint \<Rightarrow> nat \<Rightarrow> limb list" where
  "sign_extend a n = a @ replicate (n - length a) (- js_bigint_sign a)"

lemma mpv_ones: "int (mpv (replicate n (- 1))) = B32 n - 1"
  by (induction n) (simp_all add: unsigned_minus_1_eq_mask mask_eq_exp_minus_1)

lemma mpv_sign_extend:
  assumes "a \<noteq> []" "length a \<le> n"
  shows "int (mpv (sign_extend a n)) = bval a + (if js_bigint_sign a = 0 then 0 else B32 n)"
    "length (sign_extend a n) = n"
proof -
  have "B32 n = B32 (length a) * B32 (n - length a)" using assms(2) by (simp add: power_add [symmetric])
  then show "int (mpv (sign_extend a n)) = bval a + (if js_bigint_sign a = 0 then 0 else B32 n)"
    using bval_mpv [OF assms(1)] sign_last [OF assms(1)]
    by (cases "last a < 2147483648") (simp_all add: sign_extend_def mpv_app mpv_ones algebra_simps)
qed (use assms(2) in \<open>simp add: sign_extend_def\<close>)

lemma not_less_high: "NOT x < (2147483648 :: limb) \<longleftrightarrow> \<not> x < 2147483648"
  using limb_high_bit(2) [of "NOT x"] limb_high_bit(2) [of x] by (simp add: bit_not_iff)

lemma bval_not: "bval (map NOT a) = (if a = [] then 0 else - bval a - 1)"
proof (induction a rule: bval.induct)
  case (2 x)
  have "sint (NOT x) = - sint x - 1"
    using unat_not32 [of x] unat_limb_less [of x] not_less_high [of x] by (simp add: sint_limb of_nat_diff del: of_nat_unat)
  then show ?case by simp
next
  case (3 x y ys)
  have "uint (NOT x) = 4294967295 - uint x"
    using unat_not32 [of x] unat_limb_less [of x] by (metis of_nat_diff of_nat_numeral of_nat_unat)
  then show ?case using 3 by simp
qed simp

lemma map_xor: "map (\<lambda>x. x XOR (if p then - 1 else 0 :: limb)) a = (if p then map NOT a else a)"
  by simp

lemma sign_not: "a \<noteq> [] \<Longrightarrow> js_bigint_sign (map NOT a) = 1 - js_bigint_sign a"
  by (simp add: sign_last last_map not_less_high)

lemma js_bigint_new_Inr:
  "js_bigint_new mok n f = Inr z \<longleftrightarrow> n \<le> JS_BIGINT_MAX_SIZE \<and> mok n \<and> f () = Inr z"
  by (auto simp: js_bigint_new_def)

lemma add_value:
  assumes "a \<noteq> []" "b \<noteq> []" "js_bigint_add mok a b b_neg = Inr z"
  shows "bval z = (if b_neg then bval a - bval b else bval a + bval b)" "bigint_ok z"
proof -
  define n1 where "n1 = min (length a) (length b)"
  define n2 where "n2 = max (length a) (length b)"
  define b' where "b' = (if b_neg then map NOT b else b)"
  define k :: limb where "k = (if b_neg then 1 else 0)"
  have b': "b' \<noteq> []" "length b' = length b" "map (\<lambda>x. x XOR (if b_neg then - 1 else 0)) b = b'"
    "(- js_bigint_sign b) XOR (if b_neg then - 1 else 0) = - js_bigint_sign b'"
    using assms(2) sign_not [OF assms(2)] sign_last [OF assms(2)] by (simp_all add: b'_def)
  obtain rs c where s: "js_mp_add (sign_extend a n2) (sign_extend b' n2) k = (rs, c)" by fastforce
  have len: "length (sign_extend a n2) = n2" "length (sign_extend b' n2) = n2"
    using mpv_sign_extend(2) [OF assms(1), of n2] mpv_sign_extend(2) [OF b'(1), of n2] b'(2) by (simp_all add: n2_def)
  have v: "mpv rs + limb_base n2 * unat c = mpv (sign_extend a n2) + mpv (sign_extend b' n2) + unat k" "unat c \<le> 1"
    "length rs = n2"
    using js_mp_add_value [OF s] len by (simp_all add: k_def)
  have parts: "sign_extend a n2 = take n1 a @ (if length a > length b then drop n1 a
      else if length a < length b then replicate (n2 - n1) (- js_bigint_sign a) else [])"
    "sign_extend b' n2 = take n1 b' @ (if length a > length b then replicate (n2 - n1) (- js_bigint_sign b')
      else if length a < length b then drop n1 b' else [])"
    using b'(2) by (auto simp: sign_extend_def n1_def n2_def)
  have "js_mp_add (sign_extend a n2) (sign_extend b' n2) k =
    (let (r1, carry) = js_mp_add (take n1 a) (take n1 b') k;
         (r2, carry) = (if length a > length b then js_mp_add (drop n1 a) (replicate (n2 - n1) (- js_bigint_sign b')) carry
               else if length a < length b then js_mp_add (replicate (n2 - n1) (- js_bigint_sign a)) (drop n1 b') carry
               else ([], carry)) in (r1 @ r2, carry))"
    unfolding parts using b'(2) by (simp add: js_mp_add_append n1_def split: prod.splits)
  moreover have "map (\<lambda>x. x XOR (if b_neg then - 1 else 0)) (take n1 b) = take n1 b'"
    "map (\<lambda>x. x XOR (if b_neg then - 1 else 0)) (drop n1 b) = drop n1 b'"
    by (simp_all add: b'_def take_map drop_map)
  ultimately have z: "js_bigint_extend mok rs (- js_bigint_sign b' - js_bigint_sign a + c) = Inr z"
    using assms(3) s b'(4) unfolding js_bigint_add_def n1_def [symmetric] n2_def [symmetric] k_def [symmetric]
    by (cases "length a > length b"; cases "length a < length b")
      (auto simp: js_bigint_new_Inr Let_def split: prod.splits)
  have "unat c = 0 \<or> unat c = 1" using v(2) by linarith
  then have "c = 0 \<or> c = 1" by (simp add: word_unat_eq_iff)
  then have o: "sint (- js_bigint_sign b' - js_bigint_sign a + c) =
      int (unat c) - (if js_bigint_sign a = 0 then 0 else 1) - (if js_bigint_sign b' = 0 then 0 else 1)"
    by (elim disjE) (simp_all add: sign_last [OF assms(1)] sign_last [OF b'(1)])
  have "rs \<noteq> []" using v(3) assms(1) by (auto simp: n2_def)
  from extend_value [OF z this] show "bigint_ok z" by simp
  have i: "int (mpv rs) + B32 n2 * int (unat c) = int (mpv (sign_extend a n2)) + int (mpv (sign_extend b' n2)) + int (unat k)"
    using arg_cong [OF v(1), of int] by (simp only: of_nat_add of_nat_mult of_nat_power of_nat_numeral)
  have "bval z = bval a + bval b' + int (unat k)"
    unfolding extend_value(1) [OF z \<open>rs \<noteq> []\<close>] o v(3)
    using i mpv_sign_extend(1) [OF assms(1), of n2] mpv_sign_extend(1) [OF b'(1), of n2] b'(2)
    by (simp add: n2_def algebra_simps split: if_splits)
  then show "bval z = (if b_neg then bval a - bval b else bval a + bval b)"
    using assms(2) by (simp add: b'_def k_def bval_not)
qed

lemma neg_value: "b \<noteq> [] \<Longrightarrow> js_bigint_neg mok b = Inr z \<Longrightarrow> bval z = - bval b \<and> bigint_ok z"
  using add_value [of "js_bigint_set_si 0" b mok True z] by (simp add: js_bigint_neg_def js_bigint_set_si_def)

section \<open>Multiplication\<close>

text \<open>Subtracting at the high limbs.\<close>

lemma sub_high:
  assumes "js_mp_sub (drop i r) b 0 = (hi, c)" "length r = i + length b"
  shows "int (mpv (take i r @ hi)) = int (mpv r) - B32 i * int (mpv b) + B32 (length r) * int (unat c)"
    "length (take i r @ hi) = length r"
proof -
  have v: "mpv hi + mpv b = mpv (drop i r) + limb_base (length b) * unat c" "length hi = length b"
    using js_mp_sub_value [OF assms(1)] assms(2) by simp_all
  have "int (mpv hi) + int (mpv b) = int (mpv (drop i r)) + B32 (length b) * int (unat c)"
    using arg_cong [OF v(1), of int] by (simp only: of_nat_add of_nat_mult of_nat_power of_nat_numeral)
  then have h: "int (mpv hi) = int (mpv (drop i r)) + B32 (length b) * int (unat c) - int (mpv b)" by linarith
  have s: "int (mpv r) = int (mpv (take i r)) + B32 i * int (mpv (drop i r))"
    using arg_cong [OF mpv_split [of i r], of int] assms(2) by simp
  have "int (mpv (take i r @ hi)) = int (mpv (take i r)) + B32 i * int (mpv hi)"
    using assms(2) by (simp add: mpv_app)
  then show "int (mpv (take i r @ hi)) = int (mpv r) - B32 i * int (mpv b) + B32 (length r) * int (unat c)"
    unfolding h s assms(2) power_add by (simp add: algebra_simps)
  show "length (take i r @ hi) = length r" using v(2) assms(2) by simp
qed

lemma mul_range:
  assumes "a \<noteq> []" "b \<noteq> []"
  shows "- (B32 (length a + length b - 1) * 2147483648) \<le> bval a * bval b"
    "bval a * bval b < B32 (length a + length b - 1) * 2147483648"
proof -
  define p where "p = B32 (length a - 1)"
  define q where "q = B32 (length b - 1)"
  have e: "length a + length b - 1 = (length a - 1) + (length b - 1) + 1" using assms by (cases a; cases b) auto
  have pq: "B32 (length a + length b - 1) = p * q * 4294967296" unfolding e power_add p_def q_def by simp
  have "\<bar>bval a\<bar> \<le> p * 2147483648" "\<bar>bval b\<bar> \<le> q * 2147483648"
    using bval_range [OF assms(1)] bval_range [OF assms(2)] unfolding p_def q_def by linarith+
  then have "\<bar>bval a\<bar> * \<bar>bval b\<bar> \<le> (p * 2147483648) * (q * 2147483648)" by (intro mult_mono) (simp_all add: p_def)
  moreover have "0 < p * q" by (simp add: p_def q_def)
  ultimately show "- (B32 (length a + length b - 1) * 2147483648) \<le> bval a * bval b"
    "bval a * bval b < B32 (length a + length b - 1) * 2147483648"
    unfolding pq abs_mult [symmetric] by linarith+
qed

lemma mul_value:
  assumes "a \<noteq> []" "b \<noteq> []" "js_bigint_mul mok a b = Inr z"
  shows "bval z = bval a * bval b" "bigint_ok z"
proof -
  define r0 where "r0 = js_mp_mul_basecase a b"
  define r1 where "r1 = (if js_bigint_sign a \<noteq> 0 then take (length a) r0 @ fst (js_mp_sub (drop (length a) r0) b 0) else r0)"
  define r2 where "r2 = (if js_bigint_sign b \<noteq> 0 then take (length b) r1 @ fst (js_mp_sub (drop (length b) r1) a 0) else r1)"
  define N where "N = length a + length b"
  have z: "z = js_bigint_normalize r2"
    using assms(3) unfolding js_bigint_mul_def js_bigint_new_Inr Let_def r2_def r1_def r0_def by (simp only: sum.inject)
  have r0: "int (mpv r0) = int (mpv a) * int (mpv b)" "length r0 = N"
    using js_mp_mul_basecase_value [OF assms(2), of a] by (simp_all add: r0_def N_def)
  have r1: "\<exists>c. int (mpv r1) = int (mpv r0) - (if js_bigint_sign a = 0 then 0 else B32 (length a)) * int (mpv b) + B32 N * c \<and> length r1 = N"
  proof (cases "js_bigint_sign a = 0")
    case True
    then show ?thesis using r0(2) by (auto simp: r1_def intro: exI [of _ 0])
  next
    case False
    obtain hi c where h: "js_mp_sub (drop (length a) r0) b 0 = (hi, c)" by fastforce
    show ?thesis using sub_high [OF h] r0(2) False by (auto simp: r1_def h N_def)
  qed
  then obtain c where c: "int (mpv r1) = int (mpv r0) - (if js_bigint_sign a = 0 then 0 else B32 (length a)) * int (mpv b) + B32 N * c"
    "length r1 = N" by blast
  have "\<exists>d. int (mpv r2) = int (mpv r1) - (if js_bigint_sign b = 0 then 0 else B32 (length b)) * int (mpv a) + B32 N * d \<and> length r2 = N"
  proof (cases "js_bigint_sign b = 0")
    case True
    then show ?thesis using c(2) by (auto simp: r2_def intro: exI [of _ 0])
  next
    case False
    obtain hi d where h: "js_mp_sub (drop (length b) r1) a 0 = (hi, d)" by fastforce
    show ?thesis using sub_high [OF h] c(2) False by (auto simp: r2_def h N_def)
  qed
  then obtain d where d: "int (mpv r2) = int (mpv r1) - (if js_bigint_sign b = 0 then 0 else B32 (length b)) * int (mpv a) + B32 N * d"
    "length r2 = N" by blast
  have P: "B32 N = B32 (length a) * B32 (length b)" by (simp add: N_def power_add)
  have "\<exists>k. int (mpv r2) = bval a * bval b + B32 N * k"
    unfolding d c r0 P bval_mpv [OF assms(1)] bval_mpv [OF assms(2)]
    by (cases "js_bigint_sign a = 0"; cases "js_bigint_sign b = 0";
      rule exI [of _ "c + d - (if js_bigint_sign a = 0 \<or> js_bigint_sign b = 0 then 0 else 1)"]; simp add: algebra_simps)
  then obtain k where k: "int (mpv r2) = bval a * bval b + B32 N * k" ..
  have r2: "r2 \<noteq> []" using d(2) assms(1) by (auto simp: N_def)
  have "bval r2 = bval a * bval b"
    by (rule bval_unique [OF r2 k [folded d(2)]]) (use mul_range [OF assms(1,2)] in \<open>simp_all add: d(2) N_def\<close>)
  then show "bval z = bval a * bval b" "bigint_ok z" using normalize_value [OF r2] by (simp_all add: z)
qed

end
