(* ===== verification/BigIntOps.thy ===== *)
theory BigIntOps
  imports BigInt "HOL-Library.Signed_Division"
begin

text \<open>
  What the big integers of \<^verbatim>\<open>quickjs/quickjs.c\<close> compute: the operators of the theory BigInt against
  those of the unbounded integers. A result is always of minimal length.
\<close>

section \<open>Bitwise operations\<close>

lemma take_bit_limb: "take_bit 32 (uint (x :: limb)) = uint x"
  using uint_bounded [of x] by (simp add: take_bit_int_eq_self)

lemma bval_Cons: "ys \<noteq> [] \<Longrightarrow> bval (x # ys) = concat_bit 32 (uint x) (bval ys)"
  by (cases ys) (simp_all add: concat_bit_eq push_bit_eq_mult take_bit_limb)

fun int_logic :: "logic_op \<Rightarrow> int \<Rightarrow> int \<Rightarrow> int" where
  "int_logic OP_or x y = x OR y"
| "int_logic OP_and x y = x AND y"
| "int_logic OP_xor x y = x XOR y"

lemma int_logic_concat:
  "int_logic op (concat_bit n k l) (concat_bit n k' l') = concat_bit n (int_logic op k k') (int_logic op l l')"
  by (cases op; rule bit_eqI) (auto simp: bit_concat_bit_iff bit_or_iff bit_and_iff bit_xor_iff)

lemma uint_limb_logic: "uint (limb_logic op x y) = int_logic op (uint x) (uint y)"
  by (cases op) (simp_all add: uint_or uint_and uint_xor)

lemma sint_limb_logic: "sint (limb_logic op x y) = int_logic op (sint x) (sint y)"
  by (cases op) (simp_all add: signed_or_eq signed_and_eq signed_xor_eq)

lemma logic_sign_value:
  "xs \<noteq> [] \<Longrightarrow> m = 0 \<or> m = - 1 \<Longrightarrow> bval (map (\<lambda>x. limb_logic op x m) xs) = int_logic op (bval xs) (sint m)"
proof (induction xs rule: bval.induct)
  case (2 x)
  then show ?case by (simp add: sint_limb_logic)
next
  case (3 x y ys)
  have m: "sint m = concat_bit 32 (uint m) (sint m)" using 3(3)
    by (auto simp: concat_bit_eq push_bit_eq_mult unsigned_minus_1_eq_mask mask_eq_exp_minus_1)
  have "bval (map (\<lambda>x. limb_logic op x m) (x # y # ys)) =
    concat_bit 32 (uint (limb_logic op x m)) (bval (map (\<lambda>x. limb_logic op x m) (y # ys)))"
    by (simp add: bval_Cons del: bval.simps)
  also have "\<dots> = int_logic op (concat_bit 32 (uint x) (bval (y # ys))) (concat_bit 32 (uint m) (sint m))"
    using 3 by (simp add: int_logic_concat uint_limb_logic)
  finally show ?case using m by (simp add: bval_Cons del: bval.simps)
qed simp

lemma logic_loop_value:
  "ys \<noteq> [] \<Longrightarrow> length ys \<le> length xs \<Longrightarrow> m = - js_bigint_sign ys \<Longrightarrow>
    bval (map2 (limb_logic op) (take (length ys) xs) ys @ map (\<lambda>x. limb_logic op x m) (drop (length ys) xs)) =
    int_logic op (bval xs) (bval ys)"
proof (induction ys arbitrary: xs rule: bval.induct)
  case (2 y)
  then obtain x xs' where xs: "xs = x # xs'" by (cases xs) auto
  show ?case
  proof (cases "xs' = []")
    case True
    then show ?thesis by (simp add: xs sint_limb_logic)
  next
    case False
    have m: "m = 0 \<or> m = - 1" "sint m = (if y < 2147483648 then 0 else - 1)"
      using 2(3) by (auto simp: js_bigint_sign_def drop_bit_31)
    have y: "sint y = concat_bit 32 (uint y) (sint m)"
      by (simp add: concat_bit_eq push_bit_eq_mult sint_limb [of y] take_bit_limb m(2))
    have "bval (limb_logic op x y # map (\<lambda>x. limb_logic op x m) xs') =
      int_logic op (concat_bit 32 (uint x) (bval xs')) (concat_bit 32 (uint y) (sint m))"
      using False logic_sign_value [OF False m(1)] by (simp add: bval_Cons int_logic_concat uint_limb_logic)
    then show ?thesis using False by (simp add: xs y [symmetric] bval_Cons)
  qed
next
  case (3 y y' ys)
  then obtain x xs' where xs: "xs = x # xs'" "xs' \<noteq> []" by (cases xs; cases "tl xs") auto
  define R where "R = map2 (limb_logic op) (take (length (y' # ys)) xs') (y' # ys) @
    map (\<lambda>x. limb_logic op x m) (drop (length (y' # ys)) xs')"
  have R: "R \<noteq> []" using xs by (cases xs') (simp_all add: R_def)
  have "bval R = int_logic op (bval xs') (bval (y' # ys))"
    unfolding R_def using 3 xs by (intro 3(1)) (simp_all add: js_bigint_sign_def)
  then have "bval (limb_logic op x y # R) =
    int_logic op (concat_bit 32 (uint x) (bval xs')) (concat_bit 32 (uint y) (bval (y' # ys)))"
    using R by (simp add: bval_Cons int_logic_concat uint_limb_logic)
  then show ?case using xs by (simp add: R_def bval_Cons del: bval.simps)
qed simp

lemma int_logic_commute: "int_logic op x y = int_logic op y x"
  by (cases op) (simp_all add: ac_simps)

lemma logic_value:
  assumes "a \<noteq> []" "b \<noteq> []" "js_bigint_logic mok a b op = Inr z"
  shows "bval z = int_logic op (bval a) (bval b)" "bigint_ok z"
proof -
  obtain x y where xy: "(if length a < length b then (b, a) else (a, b)) = (x, y)" by fastforce
  have v: "int_logic op (bval x) (bval y) = int_logic op (bval a) (bval b)" "length y \<le> length x" "y \<noteq> []"
    using xy assms(1,2) int_logic_commute by (auto split: if_splits)
  define R where "R = map2 (limb_logic op) (take (length y) x) y @
    map (\<lambda>t. limb_logic op t (- js_bigint_sign y)) (drop (length y) x)"
  have R: "bval R = int_logic op (bval a) (bval b)" "R \<noteq> []"
    using logic_loop_value [OF v(3,2) refl, of op] v by (cases y; cases x; simp add: R_def)+
  have "z = js_bigint_normalize R"
    using assms(3) unfolding js_bigint_logic_def xy by (simp add: js_bigint_new_Inr Let_def R_def)
  then show "bval z = int_logic op (bval a) (bval b)" "bigint_ok z" using normalize_value [OF R(2)] R(1) by simp_all
qed

lemma not_limb_iff: "NOT (x :: limb) = 0 \<longleftrightarrow> x = - 1" "NOT x = - 1 \<longleftrightarrow> x = 0"
  by (metis bit.double_compl bit.compl_zero)+

lemma bigint_ok_not: "bigint_ok a \<Longrightarrow> bigint_ok (map NOT a)"
  by (auto simp: bigint_ok_def last_map not_less_high not_limb_iff)

lemma not_value:
  assumes "bigint_ok a" "js_bigint_not mok a = Inr z"
  shows "bval z = NOT (bval a) \<and> bigint_ok z"
  using assms bigint_ok_not [OF assms(1)] by (auto simp: js_bigint_not_def js_bigint_new_Inr bval_not not_int_def bigint_ok_def)

section \<open>Shifts\<close>

lemma B32_two: "B32 n = 2 ^ (32 * n)"
  by (simp add: power_mult)

lemma js_bigint_sign_01: "js_bigint_sign a = 0 \<or> js_bigint_sign a = 1"
  by (simp add: js_bigint_sign_def drop_bit_31)

lemma ones_mod: "s \<le> 32 \<Longrightarrow> (4294967295 :: nat) mod 2 ^ s = 2 ^ s - 1"
  using mask_mod_exp [of 32 s, where 'a = nat] by (simp add: min_def)

text \<open>The high limb of a shifted number, with the sign bits that come in.\<close>

lemma or_ones:
  assumes "unat (l :: limb) < 2 ^ s" "0 < s" "s < 32"
  shows "sint (l OR push_bit s (- 1)) = int (unat l) - 2 ^ s" "sint l = int (unat l)"
proof -
  have d: "(2 :: nat) ^ s \<le> 2 ^ 31" using assms(3) by (intro power_increasing) simp_all
  have e: "(4294967296 :: nat) = 2 ^ (32 - s) * 2 ^ s" using assms(3) by (simp add: power_add [symmetric])
  have "push_bit s (- 1) OR l = push_bit s (- 1 :: limb) OR l" ..
  have "unat (push_bit s (- 1) OR l) = (4294967295 mod 2 ^ (32 - s)) * 2 ^ s + unat l"
    using unat_shl_or [of s l "- 1"] assms by (simp add: unsigned_minus_1_eq_mask mask_eq_exp_minus_1)
  moreover have "(4294967295 :: nat) mod 2 ^ (32 - s) = 2 ^ (32 - s) - 1" by (rule ones_mod) simp
  ultimately have u: "unat (l OR push_bit s (- 1)) + 2 ^ s = 4294967296 + unat l"
    using e d by (simp add: or.commute algebra_simps)
  then have "\<not> l OR push_bit s (- 1) < 2147483648" using d by (simp add: word_less_nat_alt)
  moreover have "int (unat (l OR push_bit s (- 1))) + 2 ^ s = 4294967296 + int (unat l)"
    using arg_cong [OF u, of int] by (simp del: of_nat_unat)
  ultimately show "sint (l OR push_bit s (- 1)) = int (unat l) - 2 ^ s" by (simp only: sint_limb) simp
  show "sint l = int (unat l)" using d assms(1) by (simp only: sint_limb) (simp add: word_less_nat_alt)
qed

lemma bigint_ok_append:
  assumes "bigint_ok a" "\<not> (length a = 1 \<and> a ! 0 = 0)"
  shows "bigint_ok (replicate d 0 @ a)"
proof (cases "length a = 1")
  case True
  then obtain x where "a = [x]" by (cases a) auto
  then show ?thesis using assms by (cases d) (auto simp: bigint_ok_def nth_append nth_Cons')
next
  case False
  have "length a > 1" using False assms(1) by (cases a) (auto simp: bigint_ok_def)
  then show ?thesis using assms(1) by (auto simp: bigint_ok_def nth_append)
qed

lemma mpv_zeros: "mpv (replicate d 0 @ a) = limb_base d * mpv a"
  by (induction d) simp_all

lemma bval_zeros: "a \<noteq> [] \<Longrightarrow> bval (replicate d 0 @ a) = B32 d * bval a"
  using mpv_zeros [of d "[]"] by (simp add: bval_append)

lemma shl_value:
  assumes "bigint_ok a" "js_bigint_shl mok a n = Inr z"
  shows "bval z = bval a * 2 ^ n" "bigint_ok z"
proof -
  define d where "d = n div 32"
  define s where "s = n mod 32"
  have n: "(2 :: int) ^ n = B32 d * 2 ^ s" by (simp add: d_def s_def B32_two power_add [symmetric])
  have a: "a \<noteq> []" using assms(1) by (simp add: bigint_ok_def)
  have "bval z = bval a * 2 ^ n \<and> bigint_ok z"
  proof (cases "length a = 1 \<and> a ! 0 = 0")
    case True
    then have "a = [0]" by (cases a) auto
    then show ?thesis using assms by (auto simp: js_bigint_shl_def js_bigint_new_si_def js_bigint_new_Inr)
  next
    case False
    note nz = this
    show ?thesis
    proof (cases "s = 0")
      case True
      then have "z = replicate d 0 @ a"
        using assms(2) nz by (auto simp: js_bigint_shl_def Let_def js_bigint_new_Inr d_def s_def)
      then show ?thesis using bigint_ok_append [OF assms(1) nz] True bval_zeros [OF a] by (simp add: n)
    next
      case False
      obtain r l where r: "js_mp_shl a s = (r, l)" by fastforce
      define l' where "l' = (if js_bigint_sign a \<noteq> 0 then l OR push_bit s (- 1) else l)"
      have z: "js_bigint_extend mok (replicate d 0 @ r) l' = Inr z"
        using assms(2) nz False r unfolding js_bigint_shl_def Let_def js_bigint_new_Inr d_def [symmetric] s_def [symmetric] l'_def
        by (auto simp: js_bigint_new_Inr)
      have s: "0 < s" "s < 32" using False by (simp_all add: s_def)
      have v: "mpv r + 2 ^ (32 * length a) * unat l = mpv a * 2 ^ s" "unat l < 2 ^ s"
        using mp_shl_value [of a s 0 r l] r s by (simp_all add: js_mp_shl_def)
      have len: "length r = length a" using mp_shl_length r by (auto simp: js_mp_shl_def)
      then have rne: "replicate d 0 @ r \<noteq> []" using a by auto
      have "int (mpv r) + B32 (length a) * int (unat l) = int (mpv a) * 2 ^ s"
        using arg_cong [OF v(1), of int] by (simp only: of_nat_add of_nat_mult of_nat_power of_nat_numeral B32_two)
      moreover have "uint l = sint l' + (if js_bigint_sign a = 0 then 0 else 2 ^ s)"
        using or_ones [OF v(2) s] by (simp add: l'_def)
      ultimately have "int (mpv r) + B32 (length a) * sint l' = bval a * 2 ^ s"
        by (simp add: bval_mpv [OF a] algebra_simps split: if_splits)
      moreover have "bval z = B32 d * (int (mpv r) + B32 (length a) * sint l')"
        using extend_value(1) [OF z rne] len by (simp add: mpv_zeros power_add algebra_simps)
      ultimately have "bval z = bval a * 2 ^ n" by (simp add: n)
      moreover have "bigint_ok z" using extend_value(2) [OF z rne] .
      ultimately show ?thesis ..
    qed
  qed
  then show "bval z = bval a * 2 ^ n" "bigint_ok z" by simp_all
qed

lemma bigint_ok_drop: "bigint_ok a \<Longrightarrow> d < length a \<Longrightarrow> bigint_ok (drop d a)"
  by (auto simp: bigint_ok_def)

lemma bval_drop:
  assumes "d < length a"
  shows "bval (drop d a) = bval a div B32 d"
proof -
  have "bval a = int (mpv (take d a)) + B32 d * bval (drop d a)"
    using bval_append [of "drop d a" "take d a"] assms by simp
  moreover have "int (mpv (take d a)) < B32 d"
    using mpv_bound [of "take d a"] assms by (simp flip: of_nat_power_less_of_nat_cancel_iff)
  ultimately show ?thesis by (simp add: div_add1_eq)
qed

lemma shr_limbs_value:
  assumes "a \<noteq> []" "0 < s" "s < 32"
  shows "bval (fst (js_mp_shr a s (- js_bigint_sign a))) = bval a div 2 ^ s"
    "length (fst (js_mp_shr a s (- js_bigint_sign a))) = length a"
proof -
  define h where "h = - js_bigint_sign a"
  obtain r l where r: "mp_shr_loop a s h = (r, l)" by fastforce
  have f: "fst (js_mp_shr a s (- js_bigint_sign a)) = r" by (simp add: js_mp_shr_def mp_shr_def r h_def [symmetric])
  define m where "m = unat l mod 2 ^ s"
  have v: "mpv r * 2 ^ s + m = mpv a + 2 ^ (32 * length a) * (unat h mod 2 ^ s)" "length r = length a"
    using mp_shr_loop_value [OF r] assms by (simp_all add: m_def)
  define S where "S = (2 :: int) ^ s"
  define T where "T = B32 (length a)"
  have "(4294967295 :: nat) mod 2 ^ s = 2 ^ s - 1" using assms(3) by (intro ones_mod) simp
  then have "int (unat h mod 2 ^ s) = (if js_bigint_sign a = 0 then 0 else S - 1)"
    using js_bigint_sign_01 [of a] by (auto simp: h_def S_def unsigned_minus_1_eq_mask mask_eq_exp_minus_1 of_nat_diff)
  moreover have "int (mpv r) * S + int m = int (mpv a) + T * int (unat h mod 2 ^ s)"
    using arg_cong [OF v(1), of int] unfolding S_def T_def
    by (simp only: of_nat_add of_nat_mult of_nat_power of_nat_numeral B32_two)
  ultimately have i: "int (mpv r) * S + int m = bval a + (if js_bigint_sign a = 0 then 0 else T * S)"
    unfolding bval_mpv [OF assms(1)] T_def by (simp add: algebra_simps)
  have m: "0 \<le> int m" "int m < S" by (simp_all add: m_def S_def)
  have i': "bval a = int m + (int (mpv r) - (if js_bigint_sign a = 0 then 0 else T)) * S"
    using i by (simp add: algebra_simps split: if_splits)
  have q: "bval a div S = int (mpv r) - (if js_bigint_sign a = 0 then 0 else T)"
    unfolding i' using m by (simp add: div_add1_eq)
  have r0: "r \<noteq> []" using v(2) assms(1) by auto
  have S1: "1 \<le> S" by (simp add: S_def)
  define H where "H = B32 (length a - 1) * 2147483648"
  have H: "- H \<le> bval a" "bval a < H" "0 < H" using bval_range [OF assms(1)] by (simp_all add: H_def)
  have "- H \<le> bval a div S"
  proof -
    have "- H * S \<le> - H * 1" using H S1 by (intro mult_left_mono_neg) simp_all
    also have "- H * 1 \<le> bval a" using H by simp
    finally have "(- H) * S div S \<le> bval a div S" using S1 by (intro zdiv_mono1) simp_all
    moreover have "(- H) * S div S = - H" using S1 by (intro nonzero_mult_div_cancel_right) simp
    ultimately show ?thesis by simp
  qed
  moreover have "bval a div S < H"
  proof -
    have "bval a div S * 1 \<le> bval a div S * S" if "0 \<le> bval a div S" using that S1 by (intro mult_left_mono) simp_all
    moreover have "bval a div S * S \<le> bval a" using S1 by (metis div_mult_mod_eq pos_mod_sign le_add_same_cancel1 zero_less_one order_less_le_trans)
    ultimately show ?thesis using H by linarith
  qed
  ultimately have "bval r = bval a div S"
    by (intro bval_unique [OF r0, where k = "if js_bigint_sign a = 0 then 0 else 1"]) (simp_all add: q v(2) T_def H_def)
  then show "bval (fst (js_mp_shr a s (- js_bigint_sign a))) = bval a div 2 ^ s" unfolding f S_def .
  show "length (fst (js_mp_shr a s (- js_bigint_sign a))) = length a" unfolding f by (rule v(2))
qed

lemma shr_value:
  assumes "bigint_ok a" "js_bigint_shr mok a n = Inr z"
  shows "bval z = bval a div 2 ^ n" "bigint_ok z"
proof -
  define d where "d = n div 32"
  define s where "s = n mod 32"
  have n: "(2 :: int) ^ n = B32 d * 2 ^ s" by (simp add: d_def s_def B32_two power_add [symmetric])
  have a: "a \<noteq> []" using assms(1) by (simp add: bigint_ok_def)
  have "bval z = bval a div 2 ^ n \<and> bigint_ok z"
  proof (cases "length a \<le> d")
    case True
    then have z: "z = [- js_bigint_sign a]"
      using assms(2) by (auto simp: js_bigint_shr_def Let_def js_bigint_new_si_def js_bigint_new_Inr d_def)
    have "B32 (length a) \<le> B32 d" using True by (intro power_increasing) simp_all
    also have "B32 d \<le> 2 ^ n" by (simp add: n)
    finally have b: "B32 (length a) \<le> 2 ^ n" .
    have "0 \<le> int (mpv a)" "int (mpv a) < B32 (length a)"
      using mpv_bound [of a] by (simp_all flip: of_nat_power_less_of_nat_cancel_iff)
    then have "0 \<le> int (mpv a)" "int (mpv a) < 2 ^ n" "int (mpv a) < B32 (length a)" using b by linarith+
    then have "bval a div 2 ^ n = - (if js_bigint_sign a = 0 then 0 else 1)"
      using b unfolding bval_mpv [OF a]
      by (intro int_div_pos_eq [where r = "int (mpv a) + (if js_bigint_sign a = 0 then 0 else 2 ^ n - B32 (length a))"])
        (use b in \<open>auto simp del: of_nat_less_numeral_power_cancel_iff of_nat_power_less_of_nat_cancel_iff split: if_splits\<close>)
    then show ?thesis using z js_bigint_sign_01 [of a] by (auto simp: bigint_ok_def)
  next
    case False
    have q: "bval a div 2 ^ n = bval (drop d a) div 2 ^ s"
      using False by (simp add: n bval_drop div_mult2_eq zdiv_zmult2_eq)
    show ?thesis
    proof (cases "s = 0")
      case True
      then have "z = drop d a" using assms(2) False by (auto simp: js_bigint_shr_def Let_def js_bigint_new_Inr d_def s_def)
      then show ?thesis using q True bigint_ok_drop [OF assms(1)] False by simp
    next
      case s: False
      have sg: "js_bigint_sign (drop d a) = js_bigint_sign a" using False by (simp add: js_bigint_sign_def)
      define r where "r = fst (js_mp_shr (drop d a) s (- js_bigint_sign a))"
      have r: "bval r = bval (drop d a) div 2 ^ s" "r \<noteq> []"
        using shr_limbs_value [of "drop d a" s] False s sg by (auto simp: r_def s_def)
      have "z = js_bigint_normalize r"
        using assms(2) False s unfolding r_def by (auto simp: js_bigint_shr_def Let_def js_bigint_new_Inr d_def s_def)
      then show ?thesis using normalize_value [OF r(2)] r(1) q by simp
    qed
  qed
  then show "bval z = bval a div 2 ^ n" "bigint_ok z" by simp_all
qed

section \<open>Comparison\<close>

text \<open>A number of minimal length is at least as large as its length says.\<close>

lemma bigint_ok_large:
  assumes "bigint_ok a" "1 < length a"
  shows "js_bigint_sign a = 0 \<Longrightarrow> B32 (length a - 2) * 2147483648 \<le> bval a"
    "js_bigint_sign a \<noteq> 0 \<Longrightarrow> bval a < - (B32 (length a - 2) * 2147483648)"
proof -
  define u where "u = a ! (length a - 2)"
  define w where "w = last a"
  define K where "K = B32 (length a - 2)"
  have a: "a = take (length a - 2) a @ [u, w]"
  proof -
    have "length a - 1 = Suc (length a - 2)" using assms(2) by simp
    then have "butlast a = take (length a - 2) a @ [u]"
      using assms(2) take_Suc_conv_app_nth [of "length a - 2" a] by (simp only: butlast_conv_take u_def)
    moreover have "a = butlast a @ [w]" using append_butlast_last_id [of a] assms(2) by (cases a) (simp_all add: w_def)
    ultimately show ?thesis by simp
  qed
  have K: "0 < K" by (simp add: K_def)
  have m: "0 \<le> int (mpv (take (length a - 2) a))" "int (mpv (take (length a - 2) a)) < K"
    using mpv_bound [of "take (length a - 2) a"] assms(2) by (simp_all add: K_def flip: of_nat_power_less_of_nat_cancel_iff)
  have v: "bval a = int (mpv (take (length a - 2) a)) + K * (int (unat u) + 4294967296 * sint w)"
    using bval_append [of "[u, w]" "take (length a - 2) a"] a assms(2) by (simp add: K_def)
  have "a \<noteq> []" using assms(2) by auto
  from sign_last [OF this] have s: "js_bigint_sign a = (if w < 2147483648 then 0 else 1)" by (simp add: w_def)
  have ok: "\<not> (w = 0 \<and> u < 2147483648 \<or> w = - 1 \<and> \<not> u < 2147483648)"
    using assms by (auto simp: bigint_ok_def u_def w_def)
  have u: "0 \<le> int (unat u)" "int (unat u) < 4294967296" "u < 2147483648 \<longleftrightarrow> int (unat u) < 2147483648"
    using unat_u32_less [of u] by (simp_all add: word_less_nat_alt del: of_nat_unat)
  show "B32 (length a - 2) * 2147483648 \<le> bval a" if "js_bigint_sign a = 0"
  proof -
    have "2147483648 \<le> int (unat u) + 4294967296 * sint w"
    proof (cases "w = 0")
      case True
      then show ?thesis using ok u by auto
    next
      case False
      then have "unat w \<noteq> 0" by (simp add: unat_eq_0)
      moreover have "sint w = int (unat w)" using that s unfolding sint_limb by (simp split: if_splits)
      ultimately have "1 \<le> sint w" by linarith
      then show ?thesis using u by linarith
    qed
    then have "K * 2147483648 \<le> K * (int (unat u) + 4294967296 * sint w)" using K by (intro mult_left_mono) simp_all
    then show ?thesis using m v unfolding K_def [symmetric] by linarith
  qed
  show "bval a < - (B32 (length a - 2) * 2147483648)" if "js_bigint_sign a \<noteq> 0"
  proof -
    have "int (unat u) + 4294967296 * sint w \<le> - 2147483648 - 1"
    proof (cases "w = - 1")
      case True
      then show ?thesis using ok u by auto
    next
      case False
      have "sint w = int (unat w) - 4294967296" using that s unfolding sint_limb by (simp split: if_splits)
      moreover have "unat w \<noteq> 4294967295" using False
        by (simp add: word_unat_eq_iff unsigned_minus_1_eq_mask mask_eq_exp_minus_1)
      ultimately have "sint w \<le> - 2" using unat_u32_less [of w] by linarith
      then show ?thesis using u by linarith
    qed
    then have "K * (int (unat u) + 4294967296 * sint w) \<le> K * (- 2147483648 - 1)" using K by (intro mult_left_mono) simp_all
    then show ?thesis using m v unfolding K_def [symmetric] by (simp add: algebra_simps)
  qed
qed

lemma bval_sign:
  assumes "a \<noteq> []"
  shows "js_bigint_sign a = 0 \<longleftrightarrow> 0 \<le> bval a"
proof -
  have "int (mpv a) < B32 (length a)" using mpv_bound [of a] by (simp flip: of_nat_power_less_of_nat_cancel_iff)
  then show ?thesis unfolding bval_mpv [OF assms] by auto
qed

lemma longer_is_larger:
  assumes "bigint_ok a" "bigint_ok b" "length b < length a"
  shows "js_bigint_sign a = 0 \<Longrightarrow> bval b < bval a" "js_bigint_sign a \<noteq> 0 \<Longrightarrow> bval a < bval b"
proof -
  have b: "b \<noteq> []" and l: "1 < length a" using assms by (cases b; auto simp: bigint_ok_def)+
  have "B32 (length b - 1) \<le> B32 (length a - 2)" using assms(3) by (intro power_increasing) auto
  then show "js_bigint_sign a = 0 \<Longrightarrow> bval b < bval a" "js_bigint_sign a \<noteq> 0 \<Longrightarrow> bval a < bval b"
    using bval_range [OF b] bigint_ok_large [OF assms(1) l] by linarith+
qed

lemma cmp_value:
  assumes "bigint_ok a" "bigint_ok b"
  shows "js_bigint_cmp a b = (if bval a < bval b then - 1 else if bval a = bval b then 0 else 1)"
proof -
  have ne: "a \<noteq> []" "b \<noteq> []" using assms by (simp_all add: bigint_ok_def)
  note s = bval_sign [OF ne(1)] bval_sign [OF ne(2)]
  consider "js_bigint_sign a \<noteq> js_bigint_sign b" | "js_bigint_sign a = js_bigint_sign b" "length a < length b"
    | "js_bigint_sign a = js_bigint_sign b" "length b < length a" | "js_bigint_sign a = js_bigint_sign b" "length a = length b"
    by linarith
  then show ?thesis
  proof cases
    case 1
    then show ?thesis using s js_bigint_sign_01 [of a] js_bigint_sign_01 [of b] by (auto simp: js_bigint_cmp_def)
  next
    case 2
    then show ?thesis using longer_is_larger [OF assms(2,1)] js_bigint_sign_01 [of a] by (auto simp: js_bigint_cmp_def)
  next
    case 3
    then show ?thesis using longer_is_larger [OF assms] js_bigint_sign_01 [of a] by (auto simp: js_bigint_cmp_def)
  next
    case 4
    then have "js_bigint_cmp a b = cmp_limbs a b" by (simp add: js_bigint_cmp_def)
    then show ?thesis using 4 bval_mpv [OF ne(1)] bval_mpv [OF ne(2)] by (auto simp: cmp_limbs_value)
  qed
qed

text \<open>So a number has one representation of minimal length.\<close>

lemma bval_inj:
  assumes "bigint_ok a" "bigint_ok b" "bval a = bval b"
  shows "length a = length b"
proof (rule ccontr)
  assume "length a \<noteq> length b"
  then consider "length a < length b" | "length b < length a" by linarith
  then show False using longer_is_larger [OF assms(2,1)] longer_is_larger [OF assms(1,2)] assms(3) by cases auto
qed

lemma bval_inject:
  assumes "bigint_ok a" "bigint_ok b"
  shows "bval a = bval b \<longleftrightarrow> a = b"
proof
  assume e: "bval a = bval b"
  have ne: "a \<noteq> []" "b \<noteq> []" using assms by (simp_all add: bigint_ok_def)
  have l: "length a = length b" by (rule bval_inj [OF assms e])
  moreover have "js_bigint_sign a = js_bigint_sign b"
    using bval_sign [OF ne(1)] bval_sign [OF ne(2)] e js_bigint_sign_01 [of a] js_bigint_sign_01 [of b] by auto
  ultimately have "mpv a = mpv b" using bval_mpv [OF ne(1)] bval_mpv [OF ne(2)] e by (auto split: if_splits)
  then show "a = b" by (rule mpv_inj [OF l])
qed simp

section \<open>Division\<close>

lemma abs_limbs_value:
  assumes "a \<noteq> []"
  shows "int (mpv (abs_limbs a)) = \<bar>bval a\<bar>" "mpb_ok (abs_limbs a)"
proof -
  have "int (mpv a) < B32 (length a)" using mpv_bound [of a] by (simp flip: of_nat_power_less_of_nat_cancel_iff)
  then have m: "mpv a < limb_base (length a)" using mpv_bound by simp
  have "mpv a \<noteq> 0" if "js_bigint_sign a \<noteq> 0"
  proof -
    have "last a \<noteq> 0" using that sign_last [OF assms] by (auto split: if_splits)
    then have "2 ^ (32 * (length a - 1)) \<le> mpv a" using last_limb_iff [OF assms] by simp
    moreover have "0 < (2 :: nat) ^ (32 * (length a - 1))" by simp
    ultimately show ?thesis by linarith
  qed
  moreover have "int (limb_base (length a) - mpv a) = B32 (length a) - int (mpv a)" using m by (simp add: of_nat_diff)
  ultimately have n: "int (mpv (js_mp_neg a)) = B32 (length a) - int (mpv a)" if "js_bigint_sign a \<noteq> 0"
    using that by (simp add: js_mp_neg_value(1))
  show "int (mpv (abs_limbs a)) = \<bar>bval a\<bar>"
  proof (cases "js_bigint_sign a = 0")
    case True
    then show ?thesis using bval_mpv [OF assms] by (simp add: abs_limbs_def)
  next
    case False
    then have "bval a < 0" using bval_sign [OF assms] by simp
    moreover have "int (mpv (js_mp_neg a)) = - bval a" using n [OF False] bval_mpv [OF assms] False by simp
    ultimately show ?thesis using False by (simp add: abs_limbs_def)
  qed
  have "js_mp_neg a \<noteq> []" using js_mp_neg_value(2) [of a] assms by (metis length_0_conv)
  then show "mpb_ok (abs_limbs a)" unfolding abs_limbs_def using assms by (intro mpb_ok_renorm) simp
qed

lemma bigint_zero: "bigint_ok b \<Longrightarrow> bval b = 0 \<Longrightarrow> length b = 1 \<and> b ! 0 = 0"
  using bval_inj [of b "[0]"] by (cases b) (auto simp: bigint_ok_def signed_eq_0_iff)

text \<open>A high limb 0 is there for the sign.\<close>

lemma signed_limbs:
  assumes "x = (if p then js_mp_neg (r @ [0]) else r @ [0])"
  shows "bval x = (if p then - int (mpv r) else int (mpv r))" "length x = length r + 1"
proof -
  show len: "length x = length r + 1" using js_mp_neg_value(2) [of "r @ [0]"] by (simp add: assms)
  have m: "mpv r < limb_base (length r)" by (rule mpv_bound)
  have i: "int (mpv r) < B32 (length r)" using m by (simp flip: of_nat_power_less_of_nat_cancel_iff)
  have v: "mpv (r @ [0]) = mpv r" by (simp add: mpv_app)
  have x: "int (mpv x) = (if p then - int (mpv r) else int (mpv r)) + B32 (length x) * (if p \<and> mpv r \<noteq> 0 then 1 else 0)"
    using js_mp_neg_value(1) [of "r @ [0]"] m unfolding len by (auto simp: assms v of_nat_diff)
  show "bval x = (if p then - int (mpv r) else int (mpv r))"
  proof (rule bval_unique [OF _ x])
    show "x \<noteq> []" using len by auto
    show "- (B32 (length x - 1) * 2147483648) \<le> (if p then - int (mpv r) else int (mpv r))"
      "(if p then - int (mpv r) else int (mpv r)) < B32 (length x - 1) * 2147483648"
      unfolding len add_diff_cancel_right' using i of_nat_0_le_iff [of "mpv r"]
      by (cases p; simp only: if_True if_False; linarith)+
  qed
qed

lemma last_high:
  assumes "xs \<noteq> []" "limb_base (length xs - 1) * 2147483648 \<le> mpv xs"
  shows "2147483648 \<le> unat (last xs)"
proof (rule ccontr)
  define K where "K = limb_base (length xs - 1)"
  assume "\<not> 2147483648 \<le> unat (last xs)"
  then have "K * (unat (last xs) + 1) \<le> K * 2147483648" by (intro mult_left_mono) simp_all
  moreover have "mpv xs = mpv (butlast xs) + K * unat (last xs)"
    using mpv_app [of "butlast xs" "[last xs]"] assms(1) by (simp add: K_def)
  moreover have "mpv (butlast xs) < K" using mpv_bound [of "butlast xs"] by (simp add: K_def)
  ultimately show False using assms(2) unfolding K_def [symmetric] add_mult_distrib2 mult_1_right by linarith
qed

lemma clz_shift:
  assumes "last t \<noteq> 0" "t \<noteq> []" "s = js_limb_clz (last t)" "t' = (if s \<noteq> 0 then fst (js_mp_shl t s) else t)"
  shows "mpv t' = mpv t * 2 ^ s" "length t' = length t" "2147483648 \<le> unat (last t')" "s \<le> 31"
proof -
  have s: "s = clz32 (last t)" using assms(1,3) by (simp add: js_limb_clz_def)
  show s31: "s \<le> 31" using clz32_bounds(1) [OF assms(1)] by (simp add: s)
  define K where "K = limb_base (length t - 1)"
  have K: "limb_base (length t) = K * 4294967296" "0 < K" using assms(2) by (cases t; simp add: K_def)+
  have m: "mpv t = mpv (butlast t) + K * unat (last t)"
    using mpv_app [of "butlast t" "[last t]"] assms(2) by (simp add: K_def)
  have bl: "mpv (butlast t) < K" using mpv_bound [of "butlast t"] by (simp add: K_def)
  obtain r h where r: "mp_shl t s 0 = (r, h)" by fastforce
  have v: "mpv r + limb_base (length t) * unat h = mpv t * 2 ^ s" "length r = length t"
    using mp_shl_value [OF r] mp_shl_length [OF r] s31 by (simp_all add: power_mult)
  have "unat (last t) + 1 \<le> 2 ^ (32 - s)" using clz32_bounds(3) [OF assms(1)] by (simp add: s)
  then have "K * (unat (last t) + 1) * 2 ^ s \<le> K * 2 ^ (32 - s) * 2 ^ s" by (intro mult_right_mono mult_left_mono) simp_all
  also have "\<dots> = K * 4294967296" using s31 by (simp add: mult.assoc power_add [symmetric])
  finally have "K * (unat (last t) + 1) * 2 ^ s \<le> K * 4294967296" .
  moreover have "mpv t * 2 ^ s < K * (unat (last t) + 1) * 2 ^ s" using m bl by (simp add: algebra_simps)
  ultimately have less: "mpv t * 2 ^ s < K * 4294967296" by linarith
  have "unat h = 0"
  proof (rule ccontr)
    assume "unat h \<noteq> 0"
    then have "K * 4294967296 * 1 \<le> K * 4294967296 * unat h" by (intro mult_left_mono) simp_all
    then show False using v(1) less unfolding K by linarith
  qed
  then have t': "mpv t' = mpv t * 2 ^ s" "length t' = length t" using v by (simp_all add: assms(4) js_mp_shl_def r)
  then show "mpv t' = mpv t * 2 ^ s" "length t' = length t" by simp_all
  have "K * 2147483648 \<le> K * (unat (last t) * 2 ^ s)" using clz32_normalizes(2) [OF assms(1)] s by (intro mult_left_mono) simp_all
  also have "\<dots> \<le> mpv t * 2 ^ s" by (simp add: m algebra_simps)
  finally show "2147483648 \<le> unat (last t')" using t' assms(2) by (intro last_high) (auto simp: K_def)
qed

lemma divrem_normalized:
  assumes "T \<noteq> []" "last T \<noteq> 0" "length T \<le> length R" "s = js_limb_clz (T ! (length T - 1))"
    "T' = (if s \<noteq> 0 then fst (js_mp_shl T s) else T)"
    "R' = (if s \<noteq> 0 then (let (r', h) = js_mp_shl R s in if h \<noteq> 0 then r' @ [h] else r') else R)"
  shows "\<exists>qs r. js_mp_divnorm R' T' = Some (qs, r) \<and> mpv qs = mpv R div mpv T \<and> mpv r = (mpv R mod mpv T) * 2 ^ s \<and>
      length qs = length R' - length T' + 1 \<and> length r = length T"
    "length R' \<le> length R + 1" "s \<le> 31" "length T' = length T"
proof -
  have T': "mpv T' = mpv T * 2 ^ s" "length T' = length T" "2147483648 \<le> unat (last T')" "s \<le> 31"
    using clz_shift [OF assms(2,1) _ assms(5)] assms(1,4) by (simp_all add: last_conv_nth)
  then show "s \<le> 31" "length T' = length T" by simp_all
  obtain r h where r: "mp_shl R s 0 = (r, h)" by fastforce
  have R': "mpv R' = mpv R * 2 ^ s" "length R \<le> length R'" "length R' \<le> length R + 1"
    using mp_shl_value [OF r] mp_shl_length [OF r] T'(4) by (auto simp: assms(6) js_mp_shl_def r mpv_app power_mult)
  then show "length R' \<le> length R + 1" by simp
  have l: "length T' \<le> length R'" "T' \<noteq> []" using assms(1,3) T'(2) R'(2) by auto
  show "\<exists>qs r. js_mp_divnorm R' T' = Some (qs, r) \<and> mpv qs = mpv R div mpv T \<and> mpv r = (mpv R mod mpv T) * 2 ^ s \<and>
      length qs = length R' - length T' + 1 \<and> length r = length T"
    using js_mp_divnorm_value [OF l(2) T'(3) l(1)] by (simp add: R'(1) T'(1,2) mult_mod_left)
qed

lemma length_renorm: "length (mpb_renorm r) \<le> length r"
  by (induction r rule: mpb_renorm.induct) (subst mpb_renorm.simps, auto)

lemma abs_limbs_length: "length (abs_limbs a) \<le> length a"
  using length_renorm [of a] length_renorm [of "js_mp_neg a"] by (simp add: abs_limbs_def js_mp_neg_value(2))

lemma abs_limbs_nonzero:
  assumes "b \<noteq> []" "bval b \<noteq> 0"
  shows "last (abs_limbs b) \<noteq> 0" "abs_limbs b \<noteq> []"
proof -
  have "mpb_ok (abs_limbs b)" "mpv (abs_limbs b) \<noteq> 0" using abs_limbs_value [OF assms(1)] assms(2) by auto
  then show "last (abs_limbs b) \<noteq> 0" "abs_limbs b \<noteq> []"
    by (cases "abs_limbs b"; cases "tl (abs_limbs b)"; auto simp: mpb_ok_def)+
qed

text \<open>The operands of the division proper.\<close>

lemma divrem_pair:
  "(if s \<noteq> 0 then (case js_mp_shl R s of (r', h) \<Rightarrow> (fst (js_mp_shl T s), if h \<noteq> 0 then r' @ [h] else r')) else (T, R)) =
    (if s \<noteq> 0 then fst (js_mp_shl T s) else T,
     if s \<noteq> 0 then (let (r', h) = js_mp_shl R s in if h \<noteq> 0 then r' @ [h] else r') else R)"
  by (simp split: prod.splits)

lemma divrem_value:
  assumes "bigint_ok a" "bigint_ok b" "js_bigint_divrem mok a b is_rem = Inr z"
  shows "bval b \<noteq> 0" "bval z = (if is_rem then bval a smod bval b else bval a sdiv bval b)" "bigint_ok z"
proof -
  have ne: "a \<noteq> []" "b \<noteq> []" using assms(1,2) by (simp_all add: bigint_ok_def)
  have nz: "\<not> (length b = 1 \<and> b ! 0 = 0)" using assms(3) by (auto simp: js_bigint_divrem_def)
  then show b0: "bval b \<noteq> 0" using bigint_zero [OF assms(2)] by blast
  define R where "R = abs_limbs a"
  define T where "T = abs_limbs b"
  have R: "int (mpv R) = \<bar>bval a\<bar>" "mpb_ok R" and T: "int (mpv T) = \<bar>bval b\<bar>" "mpb_ok T"
    using abs_limbs_value ne by (simp_all add: R_def T_def)
  have ne': "R \<noteq> []" "T \<noteq> []" using R(2) T(2) by (simp_all add: mpb_ok_def)
  have lastT: "last T \<noteq> 0" using abs_limbs_nonzero [OF ne(2) b0] by (simp add: T_def)
  have "bval z = (if is_rem then bval a smod bval b else bval a sdiv bval b) \<and> bigint_ok z"
  proof (cases "length R < length T")
    case True
    have "limb_base (length R) \<le> limb_base (length T - 1)" using True by (intro power_increasing) auto
    also have "\<dots> \<le> mpv T" using last_limb_iff [OF ne'(2)] lastT by (simp add: power_mult)
    finally have "mpv R < mpv T" using mpv_bound [of R] by linarith
    then have "\<bar>bval a\<bar> < \<bar>bval b\<bar>" using R(1) T(1) by linarith
    moreover have "z = (if is_rem then a else [0])"
      using assms(3) nz True
      by (auto simp: js_bigint_divrem_def js_bigint_new_Inr js_bigint_new_si_def Let_def R_def T_def split: if_splits)
    ultimately show ?thesis using assms(1)
      by (auto simp: signed_divide_int_def signed_modulo_int_def bigint_ok_def abs_mult_sgn mult.commute)
  next
    case False
    define s where "s = js_limb_clz (T ! (length T - 1))"
    define T' where "T' = (if s \<noteq> 0 then fst (js_mp_shl T s) else T)"
    define R' where "R' = (if s \<noteq> 0 then (let (r', h) = js_mp_shl R s in if h \<noteq> 0 then r' @ [h] else r') else R)"
    obtain qs r where d: "js_mp_divnorm R' T' = Some (qs, r)" "mpv qs = mpv R div mpv T" "mpv r = (mpv R mod mpv T) * 2 ^ s"
      "length qs = length R' - length T' + 1" "length r = length T" and s31: "s \<le> 31"
      using divrem_normalized [OF ne'(2) lastT _ s_def T'_def R'_def] False by auto
    define r1 where "r1 = (if s \<noteq> 0 then fst (js_mp_shr r s 0) else r)"
    note q = d(2)
    obtain y w where y: "mp_shr r s 0 = (y, w)" by fastforce
    then have r1: "mpv r1 = mpv R mod mpv T" "length r1 = length T"
      using mp_shr_value [OF y s31] d(3,5) by (simp_all add: r1_def js_mp_shr_def y)
    define x where "x = (if is_rem then (if js_bigint_sign a \<noteq> 0 then js_mp_neg (r1 @ [0]) else r1 @ [0])
      else (if js_bigint_sign a XOR js_bigint_sign b \<noteq> 0 then js_mp_neg (qs @ [0]) else qs @ [0]))"
    have z: "z = (if is_rem then js_bigint_normalize1 x (length T + 1) else js_bigint_normalize x)"
      using assms(3) nz False d(1) d(4)
      unfolding js_bigint_divrem_def js_bigint_new_Inr R_def [symmetric] T_def [symmetric] Let_def if_not_P [OF nz]
        s_def [symmetric] divrem_pair T'_def [symmetric] R'_def [unfolded Let_def, symmetric] x_def r1_def
      by (auto simp: js_bigint_new_Inr split: if_splits)
    have sg: "js_bigint_sign a XOR js_bigint_sign b \<noteq> 0 \<longleftrightarrow> (bval a < 0) \<noteq> (bval b < 0)"
      using bval_sign [OF ne(1)] bval_sign [OF ne(2)] js_bigint_sign_01 [of a] js_bigint_sign_01 [of b] by auto
    show ?thesis
    proof (cases is_rem)
      case True
      have x: "bval x = (if js_bigint_sign a \<noteq> 0 then - int (mpv r1) else int (mpv r1))" "length x = length T + 1"
        using signed_limbs [of x "js_bigint_sign a \<noteq> 0" r1] True r1(2) by (simp_all add: x_def)
      have "int (mpv r1) = \<bar>bval a\<bar> mod \<bar>bval b\<bar>" using r1(1) R(1) T(1) by (simp add: zmod_int)
      then have "bval x = bval a smod bval b"
        using x(1) bval_sign [OF ne(1)] by (auto simp: signed_modulo_int_def sgn_if)
      then show ?thesis using normalize1_value [of "length T + 1" x] x(2) True by (simp add: z)
    next
      case False
      have x: "bval x = (if js_bigint_sign a XOR js_bigint_sign b \<noteq> 0 then - int (mpv qs) else int (mpv qs))" "x \<noteq> []"
        using signed_limbs [of x "js_bigint_sign a XOR js_bigint_sign b \<noteq> 0" qs] False by (auto simp add: x_def)
      have "int (mpv qs) = \<bar>bval a\<bar> div \<bar>bval b\<bar>" using q R(1) T(1) by (simp add: zdiv_int)
      then have "bval x = bval a sdiv bval b"
        using x(1) sg b0 by (auto simp: signed_divide_int_def sgn_if)
      then show ?thesis using normalize_value [OF x(2)] False by (simp add: z)
    qed
  qed
  then show "bval z = (if is_rem then bval a smod bval b else bval a sdiv bval b)" "bigint_ok z" by simp_all
qed

section \<open>Powers\<close>

lemma new_si_value: "js_bigint_new_si mok v = Inr z \<Longrightarrow> z = [v] \<and> bigint_ok z"
  by (auto simp: js_bigint_new_si_def js_bigint_new_Inr bigint_ok_def)

lemma limb_bit: "drop_bit i e AND 1 \<noteq> (0 :: limb) \<longleftrightarrow> odd (unat e div 2 ^ i)"
proof -
  have "drop_bit i e AND 1 \<noteq> (0 :: limb) \<longleftrightarrow> bit e i" by (simp add: and_one_eq bit_iff_odd_drop_bit odd_iff_mod_2_eq_one)
  also have "\<dots> \<longleftrightarrow> bit (unat e) i" using bit_imp_le_length [of e i] by (auto simp: bit_unsigned_iff)
  finally show ?thesis by (simp add: bit_iff_odd)
qed

lemma pow_loop_value:
  "pow_loop mok a e i r = Inr z \<Longrightarrow> bigint_ok a \<Longrightarrow> bigint_ok r \<Longrightarrow> bval r = bval a ^ (unat e div 2 ^ i) \<Longrightarrow>
    bval z = bval a ^ unat e \<and> bigint_ok z"
proof (induction i arbitrary: r)
  case (Suc i)
  define k where "k = unat e div 2 ^ i"
  have "unat e div 2 ^ Suc i = k div 2" unfolding k_def power_Suc2 by (rule div_mult2_eq)
  moreover have "k = 2 * (k div 2) + (if odd k then 1 else 0)" by presburger
  ultimately have k: "k = 2 * (unat e div 2 ^ Suc i) + (if odd k then 1 else 0)" by simp
  have ne: "a \<noteq> []" "r \<noteq> []" using Suc.prems(2,3) by (simp_all add: bigint_ok_def)
  obtain r1 where r1: "js_bigint_mul mok r r = Inr r1" using Suc.prems(1) by (auto split: sum.splits)
  have v1: "bval r1 = bval a ^ (2 * (unat e div 2 ^ Suc i))" "bigint_ok r1"
    using mul_value [OF ne(2,2) r1] Suc.prems(4) by (simp_all add: power_mult power2_eq_square power_mult_distrib mult.commute)
  show ?case
  proof (cases "odd k")
    case False
    then have p: "pow_loop mok a e i r1 = Inr z" using Suc.prems(1) r1 limb_bit [of i e] by (simp add: k_def)
    have "bval r1 = bval a ^ (unat e div 2 ^ i)" using v1(1) k False by (simp add: k_def)
    from Suc.IH [OF p Suc.prems(2) v1(2) this] show ?thesis .
  next
    case True
    then obtain r2 where r2: "js_bigint_mul mok r1 a = Inr r2" "pow_loop mok a e i r2 = Inr z"
      using Suc.prems(1) r1 limb_bit [of i e] by (auto simp: k_def split: sum.splits)
    have "r1 \<noteq> []" using v1(2) by (simp add: bigint_ok_def)
    from mul_value [OF this ne(1) r2(1)] v1(1) have v2: "bval r2 = bval a ^ Suc (2 * (unat e div 2 ^ Suc i))" "bigint_ok r2"
      by simp_all
    have "bval r2 = bval a ^ (unat e div 2 ^ i)" using v2(1) k True by (simp add: k_def)
    from Suc.IH [OF r2(2) Suc.prems(2) v2(2) this] show ?thesis .
  qed
qed simp

lemma single_limb: "length b = 1 \<Longrightarrow> b = [b ! 0]"
  by (cases b) auto

text \<open>An exponent that is not too large.\<close>

lemma small_exponent:
  assumes "js_bigint_sign b = 0" "length b = 1"
  shows "bval b = int (unat (b ! 0))"
proof -
  obtain x where b: "b = [x]" using assms(2) by (cases b) auto
  show ?thesis using bval_mpv [of b] assms(1) by (simp add: b)
qed

lemma pow_general_value:
  assumes "bigint_ok a" "bigint_ok b" "js_bigint_sign b = 0" "bval b \<noteq> 0" "pow_general mok a b = Inr z"
  shows "bval z = bval a ^ nat (bval b) \<and> bigint_ok z"
proof -
  define e where "e = b ! 0"
  have l: "length b = 1" using assms(2,5) by (cases b) (auto simp: pow_general_def bigint_ok_def split: if_splits)
  have p: "pow_loop mok a e (32 - clz32 e - 1) a = Inr z"
    using assms(5) l by (auto simp: pow_general_def js_bigint_new_Inr Let_def e_def split: if_splits)
  have b: "bval b = int (unat e)" using small_exponent [OF assms(3) l] by (simp add: e_def)
  then have e: "e \<noteq> 0" using assms(4) by auto
  have c: "32 - clz32 e - 1 = 31 - clz32 e" by simp
  have "unat e div 2 ^ (31 - clz32 e) = 1"
  proof (rule div_nat_eqI)
    have "32 - clz32 e = Suc (31 - clz32 e)" using clz32_bounds(1) [OF e] by simp
    then show "unat e < 2 ^ (31 - clz32 e) * Suc 1" using clz32_bounds(3) [OF e] by simp
  qed (use clz32_bounds(2) [OF e] in simp)
  then have "bval a = bval a ^ (unat e div 2 ^ (31 - clz32 e))" by simp
  from pow_loop_value [OF p [unfolded c] assms(1,1) this] show ?thesis by (simp add: b)
qed

text \<open>A power of 2 with a sign, in as many limbs as it needs.\<close>

lemma two_power_limbs:
  assumes "len = (e1 + 32 + 1 - (if neg then 1 else 0)) div 32"
    "z = (replicate len 0)[e1 div 32 := push_bit (e1 mod 32) (if neg then - 1 else 1)]"
  shows "bval z = (if neg then - (2 ^ e1) else 2 ^ e1)" "bigint_ok z"
proof -
  define q where "q = e1 div 32"
  define m where "m = e1 mod 32"
  define L :: limb where "L = push_bit m (if neg then - 1 else 1)"
  have e1: "e1 = 32 * q + m" "m < 32" by (simp_all add: q_def m_def)
  have two: "(2 :: int) ^ e1 = B32 q * 2 ^ m" by (simp add: e1(1) power_add B32_two)
  have "(2 :: nat) ^ m < 2 ^ 32" using e1(2) by (intro power_strict_increasing) simp_all
  then have uL: "unat L = 2 ^ m" if "\<not> neg" using that unat_shl_small [of 1 m] by (simp add: L_def)
  have sL: "sint L = - (2 ^ m)" if neg
  proof (cases "m = 0")
    case False
    have "sint ((0 :: limb) OR push_bit m (- 1)) = int (unat (0 :: limb)) - 2 ^ m"
      using False e1(2) by (intro or_ones) simp_all
    then show ?thesis using that by (simp add: L_def)
  qed (use that in \<open>simp add: L_def\<close>)
  show "bval z = (if neg then - (2 ^ e1) else 2 ^ e1)" "bigint_ok z"
  proof (atomize(full), cases "\<not> neg \<and> m = 31")
    case True
    have "len = q + 2" using True by (simp add: assms(1) e1(1))
    then have "z = replicate q 0 @ [L, 0]"
      using replicate_add [of q 2 "0 :: limb"]
      by (simp add: assms(2) q_def [symmetric] m_def [symmetric] L_def [symmetric] list_update_append numeral_2_eq_2 del: replicate.simps)
        (simp only: replicate.simps list_update.simps nat.case)
    moreover have "\<not> L < 2147483648" using uL True by (simp add: word_less_nat_alt)
    moreover have "uint L = 2 ^ m" using uL True by (metis of_nat_numeral of_nat_power uint_nat)
    ultimately show "bval z = (if neg then - (2 ^ e1) else 2 ^ e1) \<and> bigint_ok z"
      using True two mpv_zeros [of q "[]"] by (simp add: bval_append bigint_ok_def nth_append)
  next
    case False
    have "len = q + 1" using False e1 by (auto simp: assms(1))
    then have z: "z = replicate q 0 @ [L]"
      by (simp add: assms(2) q_def [symmetric] m_def [symmetric] L_def [symmetric] list_update_append replicate_add
          flip: replicate_append_same)
    have "sint L = (if neg then - (2 ^ m) else 2 ^ m)"
    proof (cases neg)
      case False
      then have "m < 31" using \<open>\<not> (\<not> neg \<and> m = 31)\<close> e1(2) by auto
      then have "(2 :: nat) ^ m < 2 ^ 31" by (intro power_strict_increasing) simp_all
      then have "L < 2147483648" using uL [OF False] by (simp add: word_less_nat_alt)
      then show ?thesis using uL [OF False] False unfolding sint_limb by (simp del: of_nat_unat)
    qed (simp add: sL)
    moreover from this have "L \<noteq> 0" by (cases neg) auto
    ultimately show "bval z = (if neg then - (2 ^ e1) else 2 ^ e1) \<and> bigint_ok z"
      using two mpv_zeros [of q "[]"] by (auto simp: z bval_append bigint_ok_def nth_append)
  qed
qed

lemma power_of_two_limb:
  assumes "v \<noteq> 0" "v AND (v - 1) = (0 :: limb)"
  shows "unat v = 2 ^ (31 - js_limb_clz v)"
proof -
  define k where "k = 31 - js_limb_clz v"
  have "Suc k = 32 - clz32 v" using clz32_bounds(1) [OF assms(1)] assms(1) by (simp add: k_def js_limb_clz_def)
  moreover have "k = 31 - clz32 v" using assms(1) by (simp add: k_def js_limb_clz_def)
  ultimately have c: "2 ^ k \<le> unat v" "unat v < 2 ^ Suc k" "k < 32"
    using clz32_bounds(2,3) [OF assms(1)] by simp_all
  have s: "unat (v - 1) = unat v - 1" using assms(1) by (simp add: unat_minus_one)
  show ?thesis unfolding k_def [symmetric]
  proof (rule ccontr)
    assume "unat v \<noteq> 2 ^ k"
    then have l: "2 ^ k \<le> unat v - 1" "unat v - 1 < 2 ^ Suc k" using c by auto
    have "unat v div 2 ^ k = 1" by (rule div_nat_eqI) (use c in simp_all)
    moreover have "(unat v - 1) div 2 ^ k = 1" by (rule div_nat_eqI) (use l in simp_all)
    ultimately have "bit (unat v) k" "bit (unat (v - 1)) k" by (simp_all add: bit_iff_odd s)
    then have "bit (v AND (v - 1)) k" by (auto simp: bit_and_iff bit_unsigned_iff)
    then show False using assms(2) by simp
  qed
qed

lemma pow_of_two_value:
  assumes "v \<noteq> 0" "v AND (v - 1) = 0" "bval a = (if is_neg then - int (unat v) else int (unat v))"
    "js_bigint_sign b = 0" "b \<noteq> []" "pow_of_two mok v is_neg b = Inr z"
  shows "bval z = bval a ^ nat (bval b) \<and> bigint_ok z"
proof -
  define n where "n = 31 - js_limb_clz v"
  define e where "e = unat (b ! 0)"
  define neg where "neg \<longleftrightarrow> is_neg \<and> b ! 0 AND 1 \<noteq> 0"
  have l: "length b = 1" using assms(5,6) by (cases b) (auto simp: pow_of_two_def Let_def split: if_splits)
  have b: "nat (bval b) = e" using small_exponent [OF assms(4) l] by (simp add: e_def)
  have odd: "b ! 0 AND 1 \<noteq> 0 \<longleftrightarrow> odd e" using limb_bit [of 0 "b ! 0"] by (simp add: e_def)
  have z: "z = (replicate ((e * n + 32 + 1 - (if neg then 1 else 0)) div 32) 0)
      [e * n div 32 := push_bit (e * n mod 32) (if neg then - 1 else 1)]"
    using assms(6) l by (auto simp: pow_of_two_def js_bigint_new_Inr Let_def n_def e_def neg_def split: if_splits)
  have v: "int (unat v) = 2 ^ n" using power_of_two_limb [OF assms(1,2)] by (simp add: n_def del: of_nat_unat)
  have "bval a ^ e = (if neg then - (2 ^ (e * n)) else 2 ^ (e * n))"
    unfolding assms(3) v neg_def odd by (simp add: power_mult mult.commute [of e] power_minus_odd power_minus_even)
  then show ?thesis using two_power_limbs [OF refl z] by (simp add: b)
qed

lemma limb_le_1: "v \<le> 1 \<longleftrightarrow> v = 0 \<or> v = (1 :: limb)"
  by (auto simp: word_le_nat_alt word_unat_eq_iff)

lemma even_uint: "even (uint (x :: limb)) \<longleftrightarrow> even (unat x)"
proof -
  have "even (int (unat x)) \<longleftrightarrow> even (unat x)" by (rule even_of_nat)
  then show ?thesis by simp
qed

lemma limb_and_1_cases: "x AND 1 = (0 :: limb) \<or> x AND 1 = 1"
  by (cases "even x") (simp_all add: and_one_eq even_iff_mod_2_eq_zero odd_iff_mod_2_eq_one)

lemma bval_parity: "b \<noteq> [] \<Longrightarrow> odd (bval b) \<longleftrightarrow> b ! 0 AND 1 \<noteq> 0"
proof (induction b rule: bval.induct)
  case (2 x)
  then show ?case using limb_bit [of 0 x] by (simp add: sint_limb even_uint)
next
  case (3 x y ys)
  then show ?case using limb_bit [of 0 x] by (simp add: even_uint)
qed simp

lemma pow_value:
  assumes "bigint_ok a" "bigint_ok b" "js_bigint_pow mok a b = Inr z"
  shows "0 \<le> bval b" "bval z = bval a ^ nat (bval b)" "bigint_ok z"
proof -
  have ne: "a \<noteq> []" "b \<noteq> []" using assms(1,2) by (simp_all add: bigint_ok_def)
  have sb: "js_bigint_sign b = 0" using assms(3) by (auto simp: js_bigint_pow_def split: if_splits)
  then show "0 \<le> bval b" using bval_sign [OF ne(2)] by simp
  have "bval z = bval a ^ nat (bval b) \<and> bigint_ok z"
  proof (cases "length b = 1 \<and> b ! 0 = 0")
    case True
    then have "bval b = 0" by (cases b) auto
    then show ?thesis using assms(3) True sb new_si_value [of mok 1 z] by (auto simp: js_bigint_pow_def)
  next
    case False
    then have b0: "bval b \<noteq> 0" using bigint_zero [OF assms(2)] by blast
    then have pos: "0 < nat (bval b)" using \<open>0 \<le> bval b\<close> by simp
    note general = pow_general_value [OF assms(1,2) sb b0]
    show ?thesis
    proof (cases "length a = 1")
      case True
      then obtain v where a: "a = [v]" by (cases a) auto
      consider "v = 0" | "v = 1" | "\<not> v \<le> 1" "v = - 1" | "\<not> v \<le> 1" "v \<noteq> - 1"
        using limb_le_1 [of v] by blast
      then show ?thesis
      proof cases
        case 1
        then show ?thesis using assms(3) False sb new_si_value [of mok 0 z] pos by (auto simp: js_bigint_pow_def a)
      next
        case 2
        then show ?thesis using assms(3) False sb new_si_value [of mok 1 z] pos by (auto simp: js_bigint_pow_def a)
      next
        case 3
        then have z: "z = [1 - 2 * (b ! 0 AND 1)] \<and> bigint_ok z"
          using assms(3) False sb new_si_value [of mok "1 - 2 * (b ! 0 AND 1)" z] by (auto simp: js_bigint_pow_def a)
        have "odd (nat (bval b)) \<longleftrightarrow> b ! 0 AND 1 \<noteq> 0"
          using bval_parity [OF ne(2)] \<open>0 \<le> bval b\<close> by (simp add: even_nat_iff)
        moreover have "b ! 0 AND 1 = 0 \<or> b ! 0 AND 1 = 1" by (rule limb_and_1_cases)
        ultimately show ?thesis using z 3 by (auto simp: a uminus_power_if)
      next
        case 4
        define is_neg where "is_neg \<longleftrightarrow> sint v < 0"
        define w where "w = (if is_neg then - v else v)"
        show ?thesis
        proof (cases "w AND (w - 1) = 0")
          case True
          have p: "pow_of_two mok w is_neg b = Inr z"
            using assms(3) False sb 4 True by (auto simp: js_bigint_pow_def a Let_def w_def is_neg_def split: if_splits)
          have w: "w \<noteq> 0" using 4 by (auto simp: w_def)
          have "bval a = (if is_neg then - int (unat w) else int (unat w))"
            using unat_neg32 [of v] unat_u32_less [of v] w
            by (auto simp: a w_def is_neg_def sint_limb of_nat_diff unat_eq_0 simp del: of_nat_unat)
          from pow_of_two_value [OF w True this sb ne(2) p] show ?thesis .
        next
          case w: False
          show ?thesis
            using assms(3) False sb 4 w by (intro general) (auto simp: js_bigint_pow_def a Let_def w_def is_neg_def split: if_splits)
        qed
      qed
    next
      case nt: False
      show ?thesis using assms(3) False sb nt by (intro general) (auto simp: js_bigint_pow_def)
    qed
  qed
  then show "bval z = bval a ^ nat (bval b)" "bigint_ok z" by simp_all
qed

section \<open>Contracts\<close>

text \<open>
  An operation whose result has at most \<open>n\<close> limbs either returns the value \<open>v\<close> in minimal length, or
  throws: a range error only if \<open>n\<close> exceeds the limit, an out-of-memory error only if some allocation
  is refused.
\<close>

definition bigint_outcome :: "(nat \<Rightarrow> bool) \<Rightarrow> nat \<Rightarrow> int \<Rightarrow> bigint_result \<Rightarrow> bool" where
  "bigint_outcome mok n v r \<longleftrightarrow>
     (case r of Inr z \<Rightarrow> bval z = v \<and> bigint_ok z
      | Inl e \<Rightarrow> e = Too_large \<and> JS_BIGINT_MAX_SIZE < n \<or> e = Out_of_memory \<and> \<not> (\<forall>k. mok k))"

lemma outcomeI:
  assumes "\<And>z. r = Inr z \<Longrightarrow> bval z = v \<and> bigint_ok z"
    "\<And>e. r = Inl e \<Longrightarrow> e = Too_large \<and> JS_BIGINT_MAX_SIZE < n \<or> e = Out_of_memory \<and> \<not> (\<forall>k. mok k)"
  shows "bigint_outcome mok n v r"
  using assms by (auto simp: bigint_outcome_def split: sum.splits)

lemma js_bigint_new_Inl:
  "js_bigint_new mok n f = Inl e \<longleftrightarrow> (if JS_BIGINT_MAX_SIZE < n then e = Too_large
     else if \<not> mok n then e = Out_of_memory else f () = Inl e)"
  by (auto simp: js_bigint_new_def)

lemma js_bigint_extend_Inl: "js_bigint_extend mok r l = Inl e \<Longrightarrow> e = Out_of_memory \<and> \<not> (\<forall>k. mok k)"
  by (auto simp: js_bigint_extend_def split: if_splits)

text \<open>The contract of an operation with two operands that computes \<open>g\<close>.\<close>

locale bigint_operation =
  fixes f :: "(nat \<Rightarrow> bool) \<Rightarrow> js_bigint \<Rightarrow> js_bigint \<Rightarrow> bigint_result"
    and g :: "int \<Rightarrow> int \<Rightarrow> int"
    and bound :: "js_bigint \<Rightarrow> js_bigint \<Rightarrow> nat"
  assumes outcome: "bigint_ok a \<Longrightarrow> bigint_ok b \<Longrightarrow> bigint_outcome mok (bound a b) (g (bval a) (bval b)) (f mok a b)"
begin

lemma exact:
  assumes "bigint_ok a" "bigint_ok b" "f mok a b = Inr z"
  shows "bval z = g (bval a) (bval b)" "bigint_ok z"
  using outcome [OF assms(1,2), of mok] assms(3) by (simp_all add: bigint_outcome_def)

lemma returns:
  assumes "bigint_ok a" "bigint_ok b" "bound a b \<le> JS_BIGINT_MAX_SIZE" "\<forall>k. mok k"
  shows "\<exists>z. f mok a b = Inr z"
  using outcome [OF assms(1,2), of mok] assms(3,4) by (auto simp: bigint_outcome_def split: sum.splits)

text \<open>The result depends on the values only.\<close>

lemma result_unique:
  assumes "bigint_ok a" "bigint_ok b" "bigint_ok c" "g (bval a) (bval b) = bval c" "f mok a b = Inr z"
  shows "z = c"
  using exact [OF assms(1,2,5)] assms(3,4) by (simp flip: bval_inject)

end

lemma add_outcome:
  assumes "bigint_ok a" "bigint_ok b"
  shows "bigint_outcome mok (max (length a) (length b)) (if p then bval a - bval b else bval a + bval b)
    (js_bigint_add mok a b p)"
proof (rule outcomeI)
  show "bval z = (if p then bval a - bval b else bval a + bval b) \<and> bigint_ok z" if "js_bigint_add mok a b p = Inr z" for z
    using add_value [OF _ _ that] assms by (simp add: bigint_ok_def)
  show "e = Too_large \<and> JS_BIGINT_MAX_SIZE < max (length a) (length b) \<or> e = Out_of_memory \<and> \<not> (\<forall>k. mok k)"
    if e: "js_bigint_add mok a b p = Inl e" for e
  proof -
    obtain r l where "js_bigint_add mok a b p =
      js_bigint_new mok (max (length a) (length b)) (\<lambda>_. js_bigint_extend mok r l)"
      by (simp only: js_bigint_add_def Let_def case_prod_beta)
    from e [unfolded this js_bigint_new_Inl] show ?thesis
      by (auto dest: js_bigint_extend_Inl split: if_split_asm)
  qed
qed

lemma mul_outcome:
  assumes "bigint_ok a" "bigint_ok b"
  shows "bigint_outcome mok (length a + length b) (bval a * bval b) (js_bigint_mul mok a b)"
proof (rule outcomeI)
  show "bval z = bval a * bval b \<and> bigint_ok z" if "js_bigint_mul mok a b = Inr z" for z
    using mul_value [OF _ _ that] assms by (simp add: bigint_ok_def)
  show "e = Too_large \<and> JS_BIGINT_MAX_SIZE < length a + length b \<or> e = Out_of_memory \<and> \<not> (\<forall>k. mok k)"
    if "js_bigint_mul mok a b = Inl e" for e
    using that unfolding js_bigint_mul_def Let_def js_bigint_new_Inl sum.distinct(2) by (auto split: if_split_asm)
qed

lemma logic_outcome:
  assumes "bigint_ok a" "bigint_ok b"
  shows "bigint_outcome mok (max (length a) (length b)) (int_logic op (bval a) (bval b)) (js_bigint_logic mok a b op)"
proof (rule outcomeI)
  show "bval z = int_logic op (bval a) (bval b) \<and> bigint_ok z" if "js_bigint_logic mok a b op = Inr z" for z
    using logic_value [OF _ _ that] assms by (simp add: bigint_ok_def)
  show "e = Too_large \<and> JS_BIGINT_MAX_SIZE < max (length a) (length b) \<or> e = Out_of_memory \<and> \<not> (\<forall>k. mok k)"
    if "js_bigint_logic mok a b op = Inl e" for e
    using that by (auto simp: js_bigint_logic_def js_bigint_new_Inl Let_def split: if_splits)
qed

lemma new_si_outcome: "1 \<le> n \<Longrightarrow> bigint_outcome mok n (sint x) (js_bigint_new_si mok x)"
  by (auto simp: bigint_outcome_def js_bigint_new_si_def js_bigint_new_def bigint_ok_def JS_BIGINT_MAX_SIZE_def)

lemma neg_outcome:
  assumes "bigint_ok b"
  shows "bigint_outcome mok (length b) (- bval b) (js_bigint_neg mok b)"
proof -
  have "1 \<le> length b" using assms by (cases b) (simp_all add: bigint_ok_def)
  moreover have "bigint_outcome mok (max (length (js_bigint_set_si 0)) (length b)) (- bval b) (js_bigint_neg mok b)"
    using add_outcome [of "js_bigint_set_si 0" b mok True] assms
    by (simp add: js_bigint_neg_def js_bigint_set_si_def bigint_ok_def)
  ultimately show ?thesis by (simp add: js_bigint_set_si_def max_def split: if_splits)
qed

lemma not_outcome:
  assumes "bigint_ok a"
  shows "bigint_outcome mok (length a) (NOT (bval a)) (js_bigint_not mok a)"
  using not_value [OF assms] by (intro outcomeI) (auto simp: js_bigint_not_def js_bigint_new_Inl split: if_splits)

lemma shl_outcome:
  assumes "bigint_ok a"
  shows "bigint_outcome mok (length a + n div 32) (bval a * 2 ^ n) (js_bigint_shl mok a n)"
proof (rule outcomeI)
  show "bval z = bval a * 2 ^ n \<and> bigint_ok z" if "js_bigint_shl mok a n = Inr z" for z
    using shl_value [OF assms that] by simp
  have "1 \<le> length a" using assms by (cases a) (simp_all add: bigint_ok_def)
  then show "e = Too_large \<and> JS_BIGINT_MAX_SIZE < length a + n div 32 \<or> e = Out_of_memory \<and> \<not> (\<forall>k. mok k)"
    if "js_bigint_shl mok a n = Inl e" for e
    using that unfolding js_bigint_shl_def Let_def js_bigint_new_si_def case_prod_beta
    by (auto simp: js_bigint_new_Inl dest: js_bigint_extend_Inl split: if_splits)
qed

lemma shr_outcome:
  assumes "bigint_ok a"
  shows "bigint_outcome mok (length a) (bval a div 2 ^ n) (js_bigint_shr mok a n)"
proof (rule outcomeI)
  show "bval z = bval a div 2 ^ n \<and> bigint_ok z" if "js_bigint_shr mok a n = Inr z" for z
    using shr_value [OF assms that] by simp
  have "1 \<le> length a" using assms by (cases a) (simp_all add: bigint_ok_def)
  then show "e = Too_large \<and> JS_BIGINT_MAX_SIZE < length a \<or> e = Out_of_memory \<and> \<not> (\<forall>k. mok k)"
    if "js_bigint_shr mok a n = Inl e" for e
    using that unfolding js_bigint_shr_def Let_def js_bigint_new_si_def
    by (auto simp: js_bigint_new_Inl split: if_splits)
qed

lemma divrem_outcome:
  assumes "bigint_ok a" "bigint_ok b"
  shows "if bval b = 0 then js_bigint_divrem mok a b is_rem = Inl Division_by_zero
    else bigint_outcome mok (length a + 2) (if is_rem then bval a smod bval b else bval a sdiv bval b)
      (js_bigint_divrem mok a b is_rem)"
proof (cases "bval b = 0")
  case True
  then show ?thesis using bigint_zero [OF assms(2)] by (simp add: js_bigint_divrem_def)
next
  case b0: False
  then have nz: "\<not> (length b = 1 \<and> b ! 0 = 0)" using single_limb by fastforce
  have "bigint_outcome mok (length a + 2) (if is_rem then bval a smod bval b else bval a sdiv bval b)
      (js_bigint_divrem mok a b is_rem)"
  proof (rule outcomeI)
    show "bval z = (if is_rem then bval a smod bval b else bval a sdiv bval b) \<and> bigint_ok z"
      if "js_bigint_divrem mok a b is_rem = Inr z" for z
      using divrem_value [OF assms that] by simp
    show "e = Too_large \<and> JS_BIGINT_MAX_SIZE < length a + 2 \<or> e = Out_of_memory \<and> \<not> (\<forall>k. mok k)"
      if e: "js_bigint_divrem mok a b is_rem = Inl e" for e
    proof -
      define R where "R = abs_limbs a"
      define T where "T = abs_limbs b"
      define s where "s = js_limb_clz (T ! (length T - 1))"
      define T' where "T' = (if s \<noteq> 0 then fst (js_mp_shl T s) else T)"
      define R' where "R' = (if s \<noteq> 0 then (let (r', h) = js_mp_shl R s in if h \<noteq> 0 then r' @ [h] else r') else R)"
      have "b \<noteq> []" using assms(2) by (simp add: bigint_ok_def)
      note T = abs_limbs_nonzero [OF this b0, folded T_def]
      have R: "length R \<le> length a" by (simp add: R_def abs_limbs_length)
      show ?thesis
      proof (cases "length R < length T")
        case True
        then show ?thesis using e nz
          by (auto simp: js_bigint_divrem_def js_bigint_new_Inl js_bigint_new_si_def Let_def R_def T_def split: if_splits)
      next
        case False
        then obtain qs r where d: "js_mp_divnorm R' T' = Some (qs, r)" and l: "length R' \<le> length R + 1" "length T' = length T"
          using divrem_normalized [OF T(2,1) _ s_def T'_def R'_def] by auto
        have "0 < length T'" using T(2) l(2) by simp
        then have n: "length R' - length T' + 2 \<le> length a + 2" using l(1) R by linarith
        show ?thesis using e n False d l(2)
          unfolding js_bigint_divrem_def js_bigint_new_Inl R_def [symmetric] T_def [symmetric] Let_def if_not_P [OF nz]
            s_def [symmetric] divrem_pair T'_def [symmetric] R'_def [unfolded Let_def, symmetric]
          by (auto simp: js_bigint_new_Inl split: if_split_asm)
      qed
    qed
  qed
  then show ?thesis using b0 by simp
qed

text \<open>A number with many limbs is large: a product whose limbs may exceed the limit has at least so many bits.\<close>

definition too_large_bits :: nat where "too_large_bits = 1048542"

lemma bigint_ok_abs:
  assumes "bigint_ok a" "1 < length a"
  shows "2 ^ (32 * (length a - 2) + 31) \<le> \<bar>bval a\<bar>"
  using bigint_ok_large [OF assms] by (cases "js_bigint_sign a = 0") (simp_all add: B32_two power_add)

lemma large_product:
  assumes "bigint_ok a" "bigint_ok b" "bval a \<noteq> 0" "bval b \<noteq> 0" "JS_BIGINT_MAX_SIZE < length a + length b"
  shows "2 ^ too_large_bits \<le> \<bar>bval a * bval b\<bar>"
proof -
  have one: "2 ^ too_large_bits \<le> \<bar>bval x * bval y\<bar>"
    if "bigint_ok x" "bval y \<noteq> 0" "32768 \<le> length x" for x y :: js_bigint
  proof -
    have "too_large_bits \<le> 32 * (length x - 2) + 31" using that(3) by (simp add: too_large_bits_def)
    then have "(2 :: int) ^ too_large_bits \<le> 2 ^ (32 * (length x - 2) + 31)" by (rule power_increasing) simp
    also have "\<dots> * 1 \<le> \<bar>bval x\<bar> * \<bar>bval y\<bar>" using bigint_ok_abs [OF that(1)] that(2,3) by (intro mult_mono) simp_all
    finally show ?thesis by (simp add: abs_mult)
  qed
  consider "length a \<le> 1" | "length b \<le> 1" | "1 < length a" "1 < length b" by linarith
  then show ?thesis
  proof cases
    case 1
    then show ?thesis using one [of b a] assms by (simp add: JS_BIGINT_MAX_SIZE_def mult.commute)
  next
    case 2
    then show ?thesis using one [of a b] assms by (simp add: JS_BIGINT_MAX_SIZE_def)
  next
    case 3
    have "too_large_bits \<le> (32 * (length a - 2) + 31) + (32 * (length b - 2) + 31)"
      using assms(5) 3 unfolding JS_BIGINT_MAX_SIZE_def too_large_bits_def by simp
    then have "(2 :: int) ^ too_large_bits \<le> 2 ^ ((32 * (length a - 2) + 31) + (32 * (length b - 2) + 31))"
      by (rule power_increasing) simp
    also have "\<dots> \<le> \<bar>bval a\<bar> * \<bar>bval b\<bar>"
      unfolding power_add [of _ "32 * (length a - 2) + 31"] using bigint_ok_abs assms(1,2) 3 by (intro mult_mono) simp_all
    finally show ?thesis by (simp add: abs_mult)
  qed
qed

lemma abs_power_mono:
  assumes "(a :: int) \<noteq> 0" "m \<le> n"
  shows "\<bar>a ^ m\<bar> \<le> \<bar>a ^ n\<bar>"
  unfolding power_abs using assms by (intro power_increasing) simp_all

lemma pow_loop_error:
  "pow_loop mok a e i r = Inl x \<Longrightarrow> bigint_ok a \<Longrightarrow> bval a \<noteq> 0 \<Longrightarrow> bigint_ok r \<Longrightarrow> bval r = bval a ^ (unat e div 2 ^ i) \<Longrightarrow>
    x = Too_large \<and> 2 ^ too_large_bits \<le> \<bar>bval a ^ unat e\<bar> \<or> x = Out_of_memory \<and> \<not> (\<forall>k. mok k)"
proof (induction i arbitrary: r)
  case (Suc i)
  define k where "k = unat e div 2 ^ i"
  have "unat e div 2 ^ Suc i = k div 2" unfolding k_def power_Suc2 by (rule div_mult2_eq)
  moreover have "k = 2 * (k div 2) + (if odd k then 1 else 0)" by presburger
  ultimately have k: "k = 2 * (unat e div 2 ^ Suc i) + (if odd k then 1 else 0)" by simp
  have ke: "k \<le> unat e" by (simp add: k_def)
  have v: "bval r * bval r = bval a ^ (2 * (unat e div 2 ^ Suc i))" "bval r \<noteq> 0"
    using Suc.prems(3,5) by (simp_all add: power_mult power2_eq_square power_mult_distrib mult.commute)
  note mul_r = mul_outcome [OF Suc.prems(4,4), of mok, unfolded bigint_outcome_def]
  show ?case
  proof (cases "js_bigint_mul mok r r")
    case (Inl y)
    then have "x = y" using Suc.prems(1) by simp
    moreover have "2 ^ too_large_bits \<le> \<bar>bval a ^ unat e\<bar>" if "JS_BIGINT_MAX_SIZE < length r + length r"
      using large_product [OF Suc.prems(4,4) v(2,2) that] abs_power_mono [OF Suc.prems(3), of "2 * (unat e div 2 ^ Suc i)" "unat e"] k ke
      unfolding v(1) by linarith
    ultimately show ?thesis using mul_r Inl by auto
  next
    case (Inr r1)
    then have r1: "bval r1 = bval a ^ (2 * (unat e div 2 ^ Suc i))" "bigint_ok r1" "bval r1 \<noteq> 0"
      using mul_r v Suc.prems(3) by auto
    show ?thesis
    proof (cases "odd k")
      case False
      then have p: "pow_loop mok a e i r1 = Inl x" using Suc.prems(1) Inr limb_bit [of i e] by (simp add: k_def)
      have "bval r1 = bval a ^ (unat e div 2 ^ i)" using r1(1) k False by (simp add: k_def)
      from Suc.IH [OF p Suc.prems(2,3) r1(2) this] show ?thesis .
    next
      case True
      note mul_a = mul_outcome [OF r1(2) Suc.prems(2), of mok, unfolded bigint_outcome_def]
      have ra: "bval r1 * bval a = bval a ^ k" using r1(1) k True by simp
      have step: "pow_loop mok a e (Suc i) r =
        (case js_bigint_mul mok r1 a of Inl x \<Rightarrow> Inl x | Inr r \<Rightarrow> pow_loop mok a e i r)"
        using Inr True limb_bit [of i e] by (simp add: k_def)
      show ?thesis
      proof (cases "js_bigint_mul mok r1 a")
        case (Inl y)
        then have "x = y" using Suc.prems(1) step by simp
        moreover have "2 ^ too_large_bits \<le> \<bar>bval a ^ unat e\<bar>" if "JS_BIGINT_MAX_SIZE < length r1 + length a"
          using large_product [OF r1(2) Suc.prems(2) r1(3) Suc.prems(3) that] abs_power_mono [OF Suc.prems(3) ke]
          unfolding ra by linarith
        ultimately show ?thesis using mul_a Inl by auto
      next
        case (Inr r2)
        have "bval r2 = bval a ^ (unat e div 2 ^ i)" "bigint_ok r2" using mul_a Inr ra by (simp_all add: k_def)
        moreover have "pow_loop mok a e i r2 = Inl x" using Suc.prems(1) step Inr by simp
        ultimately show ?thesis using Suc.IH Suc.prems(2,3) by blast
      qed
    qed
  qed
qed simp

text \<open>An exponent that the code rejects.\<close>

lemma large_exponent:
  assumes "bigint_ok b" "js_bigint_sign b = 0" "1 < length b \<or> 2147483647 < unat (b ! 0)"
  shows "too_large_bits \<le> nat (bval b)"
proof (cases "1 < length b")
  case True
  have "1 * 2147483648 \<le> B32 (length b - 2) * 2147483648" by (intro mult_right_mono) simp_all
  then have "2147483648 \<le> bval b" using bigint_ok_large(1) [OF assms(1) True assms(2)] by linarith
  then show ?thesis unfolding too_large_bits_def by linarith
next
  case False
  then obtain x where "b = [x]" using assms(1) by (cases b) (auto simp: bigint_ok_def)
  then show ?thesis using assms(2,3) by (auto simp: js_bigint_sign_def drop_bit_31 word_less_nat_alt split: if_splits)
qed

lemma power_two_le:
  assumes "2 \<le> \<bar>a :: int\<bar>" "k \<le> n"
  shows "2 ^ k \<le> \<bar>a ^ n\<bar>"
proof -
  have "(2 :: int) ^ k \<le> 2 ^ n" using assms(2) by (intro power_increasing) simp_all
  also have "\<dots> \<le> \<bar>a\<bar> ^ n" using assms(1) by (intro power_mono) simp_all
  finally show ?thesis by (simp add: power_abs)
qed

lemma pow_general_error:
  assumes "bigint_ok a" "bigint_ok b" "js_bigint_sign b = 0" "bval b \<noteq> 0" "2 \<le> \<bar>bval a\<bar>" "pow_general mok a b = Inl x"
  shows "x = Too_large \<and> 2 ^ too_large_bits \<le> \<bar>bval a ^ nat (bval b)\<bar> \<or> x = Out_of_memory \<and> \<not> (\<forall>k. mok k)"
proof (cases "1 < length b \<or> 2147483647 < unat (b ! 0)")
  case True
  then have "x = Too_large" using assms(6) by (auto simp: pow_general_def split: if_splits)
  then show ?thesis using power_two_le [OF assms(5) large_exponent [OF assms(2,3) True]] by simp
next
  case False
  define e where "e = b ! 0"
  have l: "length b = 1" using False assms(2) by (cases b) (auto simp: bigint_ok_def)
  have b: "bval b = int (unat e)" using small_exponent [OF assms(3) l] by (simp add: e_def)
  then have e: "e \<noteq> 0" using assms(4) by auto
  have c: "32 - clz32 e - 1 = 31 - clz32 e" by simp
  have n: "js_bigint_new mok (length a) (\<lambda>_. pow_loop mok a e (31 - clz32 e) a) = Inl x"
    using assms(6) False l by (simp add: pow_general_def Let_def e_def [symmetric])
  have a1: "bval a = bval a ^ (unat e div 2 ^ (31 - clz32 e))"
  proof -
    have "unat e div 2 ^ (31 - clz32 e) = 1"
    proof (rule div_nat_eqI)
      have "32 - clz32 e = Suc (31 - clz32 e)" using clz32_bounds(1) [OF e] by simp
      then show "unat e < 2 ^ (31 - clz32 e) * Suc 1" using clz32_bounds(3) [OF e] by simp
    qed (use clz32_bounds(2) [OF e] in simp)
    then show ?thesis by simp
  qed
  have a0: "bval a \<noteq> 0" using assms(5) by auto
  consider "JS_BIGINT_MAX_SIZE < length a" "x = Too_large" | "\<not> mok (length a)" "x = Out_of_memory"
    | "pow_loop mok a e (31 - clz32 e) a = Inl x"
    using n unfolding js_bigint_new_Inl by (auto split: if_splits)
  then show ?thesis
  proof cases
    case 1
    have "bigint_ok [1]" by (simp add: bigint_ok_def)
    from large_product [OF assms(1) this a0] 1 have "2 ^ too_large_bits \<le> \<bar>bval a\<bar>" by simp
    moreover have "1 \<le> unat e" using b assms(4) by (cases "unat e") (simp_all del: of_nat_unat)
    then have "\<bar>bval a ^ 1\<bar> \<le> \<bar>bval a ^ unat e\<bar>" by (intro abs_power_mono a0)
    ultimately have "2 ^ too_large_bits \<le> \<bar>bval a ^ unat e\<bar>" unfolding power_one_right by linarith
    then show ?thesis using 1 by (simp add: b)
  next
    case 2
    then show ?thesis by blast
  next
    case 3
    from pow_loop_error [OF this assms(1) a0 assms(1) a1] show ?thesis by (simp add: b)
  qed
qed

lemma pow_of_two_error:
  assumes "v \<noteq> 0" "v AND (v - 1) = 0" "\<bar>bval a\<bar> = int (unat v)" "2 \<le> \<bar>bval a\<bar>"
    "bigint_ok b" "js_bigint_sign b = 0" "pow_of_two mok v is_neg b = Inl x"
  shows "x = Too_large \<and> 2 ^ too_large_bits \<le> \<bar>bval a ^ nat (bval b)\<bar> \<or> x = Out_of_memory \<and> \<not> (\<forall>k. mok k)"
proof (cases "1 < length b \<or> 2147483647 < unat (b ! 0)")
  case True
  then have "x = Too_large" using assms(7) by (auto simp: pow_of_two_def split: if_splits)
  then show ?thesis using power_two_le [OF assms(4) large_exponent [OF assms(5,6) True]] by simp
next
  case False
  define n where "n = 31 - js_limb_clz v"
  define e where "e = unat (b ! 0)"
  have l: "length b = 1" using False assms(5) by (cases b) (auto simp: bigint_ok_def)
  have b: "nat (bval b) = e" using small_exponent [OF assms(6) l] by (simp add: e_def)
  have v: "\<bar>bval a\<bar> = 2 ^ n"
    using power_of_two_limb [OF assms(1,2)] by (simp only: assms(3) n_def) (simp del: of_nat_unat)
  have big: "2 ^ too_large_bits \<le> \<bar>bval a ^ e\<bar>" if "too_large_bits \<le> e * n"
    using power_increasing [OF that, of "2 :: int"] by (simp add: power_abs v power_mult [symmetric] mult.commute)
  define len where "len = (e * n + 32 + 1 - (if is_neg \<and> b ! 0 AND 1 \<noteq> 0 then 1 else 0)) div 32"
  have "32 * len \<le> e * n + 33" unfolding len_def by simp
  then have "too_large_bits \<le> e * n" if "JS_BIGINT_MAX_SIZE < len" using that by (simp add: JS_BIGINT_MAX_SIZE_def too_large_bits_def)
  moreover have "too_large_bits \<le> e * n" if "JS_BIGINT_MAX_SIZE * 32 < e * n"
    using that by (simp add: JS_BIGINT_MAX_SIZE_def too_large_bits_def)
  moreover have "x = Too_large \<and> JS_BIGINT_MAX_SIZE * 32 < e * n \<or> x = Too_large \<and> JS_BIGINT_MAX_SIZE < len \<or>
    x = Out_of_memory \<and> \<not> mok len"
    using assms(7) False l unfolding pow_of_two_def Let_def n_def [symmetric] e_def [symmetric] len_def [symmetric] js_bigint_new_Inl
    by (auto simp: js_bigint_new_Inl e_def len_def split: if_splits)
  ultimately show ?thesis using big unfolding b by blast
qed

lemma pow_error:
  assumes "bigint_ok a" "bigint_ok b" "js_bigint_pow mok a b = Inl x"
  shows "x = Negative_exponent \<and> bval b < 0 \<or>
    x = Too_large \<and> 2 ^ too_large_bits \<le> \<bar>bval a ^ nat (bval b)\<bar> \<or> x = Out_of_memory \<and> \<not> (\<forall>k. mok k)"
proof -
  have ne: "a \<noteq> []" "b \<noteq> []" using assms(1,2) by (simp_all add: bigint_ok_def)
  have si: "x = Out_of_memory \<and> \<not> (\<forall>k. mok k)" if "js_bigint_new_si mok w = Inl x" for w
    using that by (auto simp: js_bigint_new_si_def js_bigint_new_Inl JS_BIGINT_MAX_SIZE_def split: if_splits)
  show ?thesis
  proof (cases "js_bigint_sign b = 0")
    case False
    then show ?thesis using assms(3) bval_sign [OF ne(2)] by (auto simp: js_bigint_pow_def)
  next
    case sb: True
    show ?thesis
    proof (cases "length b = 1 \<and> b ! 0 = 0")
      case True
      then show ?thesis using assms(3) sb by (auto simp: js_bigint_pow_def dest: si)
    next
      case b0: False
      then have nz: "bval b \<noteq> 0" using bigint_zero [OF assms(2)] by blast
      note general = pow_general_error [OF assms(1,2) sb nz]
      show ?thesis
      proof (cases "length a = 1")
        case False
        then have "1 < length a" using ne(1) by (cases a) auto
        then have "2 ^ (32 * (length a - 2) + 31) \<le> \<bar>bval a\<bar>" by (rule bigint_ok_abs [OF assms(1)])
        moreover have "(2 :: int) ^ 1 \<le> 2 ^ (32 * (length a - 2) + 31)" by (rule power_increasing) simp_all
        ultimately have "2 \<le> \<bar>bval a\<bar>" unfolding power_one_right by linarith
        moreover have "pow_general mok a b = Inl x" using assms(3) False sb b0 by (auto simp: js_bigint_pow_def)
        ultimately show ?thesis using general by blast
      next
        case True
        then obtain v where a: "a = [v]" by (cases a) auto
        show ?thesis
        proof (cases "v \<le> 1 \<or> v = - 1")
          case True
          then show ?thesis using assms(3) b0 sb by (auto simp: js_bigint_pow_def a Let_def dest: si split: if_splits)
        next
          case v: False
          define is_neg where "is_neg \<longleftrightarrow> sint v < 0"
          define w where "w = (if is_neg then - v else v)"
          have "unat v \<noteq> 0" "unat v \<noteq> 1" "unat v \<noteq> 4294967295"
            using v limb_le_1 [of v] by (auto simp: word_unat_eq_iff unsigned_minus_1_eq_mask mask_eq_exp_minus_1)
          then have v': "2 \<le> unat v" "unat v \<le> 4294967294" using unat_u32_less [of v] by linarith+
          have abs: "\<bar>bval a\<bar> = int (unat w)" "2 \<le> \<bar>bval a\<bar>" "w \<noteq> 0"
            using v' unat_neg32 [of v] unat_u32_less [of v]
            by (auto simp: a w_def is_neg_def sint_limb of_nat_diff unat_eq_0 simp del: of_nat_unat split: if_splits)
          show ?thesis
          proof (cases "w AND (w - 1) = 0")
            case True
            have "pow_of_two mok w is_neg b = Inl x"
              using assms(3) b0 sb v True by (auto simp: js_bigint_pow_def a Let_def w_def is_neg_def split: if_splits)
            from pow_of_two_error [OF abs(3) True abs(1,2) assms(2) sb this] show ?thesis by blast
          next
            case False
            have "pow_general mok a b = Inl x"
              using assms(3) b0 sb v False by (auto simp: js_bigint_pow_def a Let_def w_def is_neg_def split: if_splits)
            then show ?thesis using general [OF abs(2)] by blast
          qed
        qed
      qed
    qed
  qed
qed

interpretation sum: bigint_operation "\<lambda>mok a b. js_bigint_add mok a b False" "(+)" "\<lambda>a b. max (length a) (length b)"
  by unfold_locales (use add_outcome [where p = False] in simp)

interpretation difference: bigint_operation "\<lambda>mok a b. js_bigint_add mok a b True" "(-)" "\<lambda>a b. max (length a) (length b)"
  by unfold_locales (use add_outcome [where p = True] in simp)

interpretation product: bigint_operation js_bigint_mul "(*)" "\<lambda>a b. length a + length b"
  by unfold_locales (rule mul_outcome)

interpretation bitwise: bigint_operation "\<lambda>mok a b. js_bigint_logic mok a b op" "int_logic op"
    "\<lambda>a b. max (length a) (length b)" for op
  by unfold_locales (rule logic_outcome)

section \<open>Properties\<close>

text \<open>A range error is thrown exactly if \<open>n\<close> limbs are more than the limit.\<close>

definition too_large_from :: "nat \<Rightarrow> bigint_result \<Rightarrow> bool" where
  "too_large_from n r \<longleftrightarrow> (r = Inl Too_large \<longleftrightarrow> JS_BIGINT_MAX_SIZE < n)"

lemma too_large_fromI:
  assumes "bigint_outcome mok n v r" "JS_BIGINT_MAX_SIZE < n \<Longrightarrow> r = Inl Too_large"
  shows "too_large_from n r"
  using assms by (auto simp: too_large_from_def bigint_outcome_def)

lemma add_too_large: "JS_BIGINT_MAX_SIZE < max (length a) (length b) \<Longrightarrow> js_bigint_add mok a b neg = Inl Too_large"
  by (simp add: js_bigint_add_def js_bigint_new_def Let_def)

lemma mul_too_large: "JS_BIGINT_MAX_SIZE < length a + length b \<Longrightarrow> js_bigint_mul mok a b = Inl Too_large"
  by (simp add: js_bigint_mul_def js_bigint_new_def)

lemma divrem_too_large:
  assumes "bigint_ok b" "bval b \<noteq> 0" "JS_BIGINT_MAX_SIZE < length a + 2"
  shows "js_bigint_divrem mok a b is_rem = Inl Too_large"
proof -
  have "\<not> (length b = 1 \<and> b ! 0 = 0)" using assms(2) single_limb by fastforce
  then show ?thesis using assms(3) by (auto simp: js_bigint_divrem_def js_bigint_new_def Let_def)
qed

text \<open>Property C2 (functional): on numbers of minimal length, addition, subtraction, negation and
  multiplication return exactly the sum, difference, opposite and product, and division returns the
  quotient truncated toward zero or its remainder, again in minimal length; or they throw. Division
  by zero is always an error of its own, an out-of-memory error is thrown only if an allocation is
  refused, and a range error exactly if the limbs that the operation allocates exceed the limit,
  whether or not the result needs them: as many as the longer operand has for a sum or a difference,
  as both operands have together for a product, and two more than the dividend has for a quotient or
  a remainder. So a number of the two greatest lengths cannot be divided by anything, and a product
  by zero or one may be refused.\<close>

theorem js_bigint_arithmetic:
  assumes "bigint_ok a" "bigint_ok b"
  shows "bigint_outcome mok (max (length a) (length b)) (bval a + bval b) (js_bigint_add mok a b False) \<and>
    too_large_from (max (length a) (length b)) (js_bigint_add mok a b False) \<and>
    bigint_outcome mok (max (length a) (length b)) (bval a - bval b) (js_bigint_add mok a b True) \<and>
    too_large_from (max (length a) (length b)) (js_bigint_add mok a b True) \<and>
    bigint_outcome mok (length b) (- bval b) (js_bigint_neg mok b) \<and>
    too_large_from (length b) (js_bigint_neg mok b) \<and>
    bigint_outcome mok (length a + length b) (bval a * bval b) (js_bigint_mul mok a b) \<and>
    too_large_from (length a + length b) (js_bigint_mul mok a b) \<and>
    (if bval b = 0 then js_bigint_divrem mok a b is_rem = Inl Division_by_zero
     else bigint_outcome mok (length a + 2) (if is_rem then bval a smod bval b else bval a sdiv bval b)
         (js_bigint_divrem mok a b is_rem) \<and>
       too_large_from (length a + 2) (js_bigint_divrem mok a b is_rem))"
proof -
  have neg: "js_bigint_neg mok b = Inl Too_large" if "JS_BIGINT_MAX_SIZE < length b"
    using that by (simp add: js_bigint_neg_def add_too_large)
  have divrem: "bigint_outcome mok (length a + 2) (if is_rem then bval a smod bval b else bval a sdiv bval b)
      (js_bigint_divrem mok a b is_rem) \<and> too_large_from (length a + 2) (js_bigint_divrem mok a b is_rem)" if "bval b \<noteq> 0"
    using divrem_outcome [OF assms, of mok is_rem] that
      too_large_fromI [OF _ divrem_too_large [OF assms(2) that], of mok "length a + 2" _ mok a is_rem]
    by (metis (full_types))
  then have last: "if bval b = 0 then js_bigint_divrem mok a b is_rem = Inl Division_by_zero
     else bigint_outcome mok (length a + 2) (if is_rem then bval a smod bval b else bval a sdiv bval b)
         (js_bigint_divrem mok a b is_rem) \<and> too_large_from (length a + 2) (js_bigint_divrem mok a b is_rem)"
    using divrem_outcome [OF assms, of mok is_rem] by presburger
  show ?thesis
    by (intro conjI last sum.outcome difference.outcome neg_outcome product.outcome too_large_fromI [OF sum.outcome add_too_large]
        too_large_fromI [OF difference.outcome add_too_large] too_large_fromI [OF neg_outcome neg]
        too_large_fromI [OF product.outcome mul_too_large] assms)
qed

theorem js_bigint_arithmetic_witness:
  "bigint_outcome (\<lambda>_. True) 2 4294967293 (js_bigint_add (\<lambda>_. True) [0, 1] [- 3] False) \<and>
    bigint_outcome (\<lambda>_. True) 4 (4294967296 sdiv - 3) (js_bigint_divrem (\<lambda>_. True) [0, 1] [- 3] False)"
proof -
  have "bigint_ok [0, 1]" "bigint_ok [- 3]" by (simp_all add: bigint_ok_def)
  from js_bigint_arithmetic [OF this, of "\<lambda>_. True" False] show ?thesis by (simp add: eval_nat_numeral)
qed

text \<open>Instances that are refused although the results are numbers: a long number divided by 1, and times 0.\<close>

lemma fitting_result_refused:
  assumes "bigint_ok a" "length a = JS_BIGINT_MAX_SIZE"
  shows "js_bigint_divrem mok a [1] False = Inl Too_large" "js_bigint_mul mok a [0] = Inl Too_large"
proof -
  have "bval [1] = 1" "bigint_ok [1]" by (simp_all add: bigint_ok_def)
  then show "js_bigint_divrem mok a [1] False = Inl Too_large" using divrem_too_large [of "[1]" a] assms(2) by simp
  show "js_bigint_mul mok a [0] = Inl Too_large" using mul_too_large [of a "[0]"] assms(2) by simp
qed

text \<open>Property C17 (equivalence): the bitwise operators agree with those of unbounded integers in two's
  complement, a left shift multiplies by a power of 2 and a right shift divides by it, rounding down.
  The results have minimal length. An operation is only refused for want of memory, or, with a range
  error, if the limbs of the longer operand, and for a left shift those that it adds, exceed the
  limit.\<close>

theorem js_bigint_bitwise:
  assumes "bigint_ok a" "bigint_ok b"
  shows "bigint_outcome mok (max (length a) (length b)) (bval a AND bval b) (js_bigint_logic mok a b OP_and) \<and>
    bigint_outcome mok (max (length a) (length b)) (bval a OR bval b) (js_bigint_logic mok a b OP_or) \<and>
    bigint_outcome mok (max (length a) (length b)) (bval a XOR bval b) (js_bigint_logic mok a b OP_xor) \<and>
    bigint_outcome mok (length a) (NOT (bval a)) (js_bigint_not mok a) \<and>
    bigint_outcome mok (length a + n div 32) (bval a * 2 ^ n) (js_bigint_shl mok a n) \<and>
    bigint_outcome mok (length a) (bval a div 2 ^ n) (js_bigint_shr mok a n)"
  using bitwise.outcome [OF assms, of mok OP_and] bitwise.outcome [OF assms, of mok OP_or]
    bitwise.outcome [OF assms, of mok OP_xor] not_outcome shl_outcome shr_outcome assms(1) by simp

theorem js_bigint_bitwise_witness:
  "bigint_outcome (\<lambda>_. True) 2 4294967292 (js_bigint_logic (\<lambda>_. True) [- 1, 0] [- 4] OP_and) \<and>
    bigint_outcome (\<lambda>_. True) 2 1073741823 (js_bigint_shr (\<lambda>_. True) [- 1, 0] 2)"
proof -
  have "bigint_ok [- 1, 0]" "bigint_ok [- 4]" by (simp_all add: bigint_ok_def)
  from js_bigint_bitwise [OF this, of "\<lambda>_. True" 2] show ?thesis by (simp add: unsigned_minus_1_eq_mask mask_eq_exp_minus_1 numeral_2_eq_2)
qed

text \<open>Property C29 (error): a power is exact and of minimal length. It is refused only when the exponent is
  negative, when an allocation is refused, or when the result has at least \<open>too_large_bits\<close> bits, close to
  the limit of a number.\<close>

theorem js_bigint_pow_outcome:
  assumes "bigint_ok a" "bigint_ok b"
  shows "case js_bigint_pow mok a b of
      Inr z \<Rightarrow> 0 \<le> bval b \<and> bval z = bval a ^ nat (bval b) \<and> bigint_ok z
    | Inl e \<Rightarrow> e = Negative_exponent \<and> bval b < 0 \<or>
        e = Too_large \<and> 2 ^ too_large_bits \<le> \<bar>bval a ^ nat (bval b)\<bar> \<or> e = Out_of_memory \<and> \<not> (\<forall>k. mok k)"
  using pow_value [OF assms] pow_error [OF assms] by (cases "js_bigint_pow mok a b") auto

theorem js_bigint_pow_outcome_witness:
  "case js_bigint_pow (\<lambda>_. True) [- 8] [11] of
      Inr z \<Rightarrow> 0 \<le> bval [11] \<and> bval z = bval [- 8] ^ nat (bval [11]) \<and> bigint_ok z
    | Inl e \<Rightarrow> e = Negative_exponent \<and> bval [11] < 0 \<or>
        e = Too_large \<and> 2 ^ too_large_bits \<le> \<bar>bval [- 8] ^ nat (bval [11])\<bar> \<or>
        e = Out_of_memory \<and> \<not> (\<forall>k. (\<lambda>_. True) (k :: nat))"
  by (rule js_bigint_pow_outcome) (simp_all add: bigint_ok_def)

text \<open>Property C25 (functional): numbers of minimal length are compared by value, and only equal lists of
  limbs compare equal.\<close>

theorem js_bigint_cmp_order:
  assumes "bigint_ok a" "bigint_ok b"
  shows "js_bigint_cmp a b = sgn (bval a - bval b) \<and> (js_bigint_cmp a b = 0 \<longleftrightarrow> a = b)"
  using cmp_value [OF assms] bval_inject [OF assms] by (auto simp: sgn_if)

theorem js_bigint_cmp_order_witness:
  "js_bigint_cmp [0, - 1] [- 7] = sgn (bval [0, - 1] - bval [- 7]) \<and> (js_bigint_cmp [0, - 1] [- 7] = 0 \<longleftrightarrow> [0, - 1] = [- 7 :: limb])"
  by (rule js_bigint_cmp_order) (simp_all add: bigint_ok_def)

end
