(* ===== verification/BigFloat.thy ===== *)
theory BigFloat
  imports BigIntOps
begin

unbundle bit_operations_syntax

text \<open>
  Big integers and doubles in \<^verbatim>\<open>quickjs/quickjs.c\<close>: \<open>js_bigint_get_mant_exp\<close> to
  \<open>js_bigint_float64_cmp\<close>. A double is its bit pattern.
\<close>

section \<open>Code\<close>

text \<open>The limbs of the absolute value are \<open>(x XOR - sgn) + carry\<close>, from the lowest up. Of the low limbs only
  the carry and their disjunction are kept.\<close>

fun mant_low :: "limb \<Rightarrow> limb list \<Rightarrow> limb \<Rightarrow> limb \<Rightarrow> limb \<times> limb" where
  "mant_low m [] carry low_bits = (carry, low_bits)"
| "mant_low m (x # xs) carry low_bits =
     (let v = (x XOR m) + carry in mant_low m xs (if v < carry then 1 else 0) (low_bits OR v))"

fun mant_high :: "limb \<Rightarrow> limb list \<Rightarrow> limb \<Rightarrow> limb list" where
  "mant_high m [] carry = []"
| "mant_high m (x # xs) carry =
     (let v = (x XOR m) + carry in v # mant_high m xs (if v < carry then 1 else 0))"

definition js_bigint_get_mant_exp :: "js_bigint \<Rightarrow> u64 \<times> int" where
  "js_bigint_get_mant_exp a =
     (let n1 = length a - 3; sgn = js_bigint_sign a;
          (carry, low_bits) = mant_low (- sgn) (take n1 a) sgn 0;
          t = replicate (3 - length a) 0 @ mant_high (- sgn) (drop n1 a) carry;
          a1 = push_bit 32 (ucast (t ! 2)) OR ucast (t ! 1);
          a0 = push_bit 32 (ucast (t ! 0)) OR (if low_bits \<noteq> 0 then 1 else 0);
          shift = clz64 a1;
          (a1, a0) =
            (if shift \<noteq> 0 then (push_bit shift a1 OR drop_bit (64 - shift) a0, push_bit shift a0) else (a1, a0));
          a1 = a1 OR (if a0 \<noteq> 0 then 1 else 0)
      in (a1, int (length a) * 32 - int shift - 1))"

definition shr_rndn :: "u64 \<Rightarrow> nat \<Rightarrow> u64" where
  "shr_rndn a n = drop_bit n (a + ((drop_bit n a AND 1) + (push_bit (n - 1) 1 - 1)))"

text \<open>The conversion of a 32-bit integer to a double by the compiler, which is exact.\<close>

definition double_of_int32 :: "limb \<Rightarrow> u64" where
  "double_of_int32 x =
     (if x = 0 then 0
      else
        let m = (if sint x < 0 then - x else x); e = 31 - clz32 m
        in (if sint x < 0 then push_bit 63 1 else 0) OR
          (push_bit 52 (of_nat (e + 1023)) OR (push_bit (52 - e) (ucast m) AND mask 52)))"

definition js_bigint_to_float64 :: "js_bigint \<Rightarrow> u64" where
  "js_bigint_to_float64 a =
     (if length a = 1 then double_of_int32 (a ! 0)
      else
        let sgn = js_bigint_sign a; (mant, e) = js_bigint_get_mant_exp a;
            (mant, e) =
              (if e > 1023 then (0, 1024)
               else
                 let mant = shr_rndn (drop_bit 1 mant OR (mant AND 1)) 10;
                     (mant, e) = (if mant \<ge> push_bit 53 1 then (drop_bit 1 mant, e + 1) else (mant, e))
                 in (mant AND (push_bit 52 1 - 1), e))
        in push_bit 63 (ucast sgn) OR push_bit 52 (of_int (e + 1023)) OR mant)"

text \<open>The result is \<open>*pres\<close> and, if there is one, the outcome of the conversion.\<close>

definition js_bigint_from_float64 :: "(nat \<Rightarrow> bool) \<Rightarrow> u64 \<Rightarrow> nat \<times> bigint_result option" where
  "js_bigint_from_float64 mok a =
     (let sgn = drop_bit 63 a; e = uint (drop_bit 52 a AND (push_bit 11 1 - 1));
          mant = a AND (push_bit 52 1 - 1)
      in if e = 2047 then (2, None)
         else if e = 0 \<and> mant = 0 then (0, Some (js_bigint_new_si mok 0))
         else
           let e = e - 1023 in
           if e < 0 then (1, None)
           else
             let mant = mant OR push_bit 52 1 in
             if e < 52 \<and> mant AND (push_bit (nat (52 - e)) 1 - 1) \<noteq> 0 then (1, None)
             else
               let (mant, e) = (if e < 52 then (drop_bit (nat (52 - e)) mant, 0) else (mant, e - 52));
                   mant = (if sgn \<noteq> 0 then - mant else mant)
               in (0, Some (js_bigint_shl mok (js_bigint_set_si64 mant) (nat e))))"

definition js_bigint_float64_cmp :: "js_bigint \<Rightarrow> u64 \<Rightarrow> int" where
  "js_bigint_float64_cmp a b1 =
     (let b_sign = uint (drop_bit 63 b1); e = uint (drop_bit 52 b1 AND (push_bit 11 1 - 1));
          mant = b1 AND (push_bit 52 1 - 1); a_sign = uint (js_bigint_sign a)
      in if e = 2047 then (if mant \<noteq> 0 then 2 else 2 * b_sign - 1)
         else if e = 0 \<and> mant = 0 then (if length a = 1 \<and> a ! 0 = 0 then 0 else 1 - 2 * a_sign)
         else if length a = 1 \<and> a ! 0 = 0 then 2 * b_sign - 1
         else if a_sign \<noteq> b_sign then 1 - 2 * a_sign
         else
           let e = e - 1023; (a_mant, f) = js_bigint_get_mant_exp a in
           if f \<noteq> e then (if f < e then - 1 else 1)
           else
             let mant = push_bit 11 (mant OR push_bit 52 1) in
             if a_mant < mant then 2 * a_sign - 1 else if a_mant > mant then 1 - 2 * a_sign else 0)"

section \<open>The value of a double\<close>

text \<open>Sign, exponent and fraction of a bit pattern.\<close>

definition f64_neg :: "u64 \<Rightarrow> bool" where "f64_neg b \<longleftrightarrow> bit b 63"

definition f64_field :: "u64 \<Rightarrow> nat" where "f64_field b = unat b div 2 ^ 52 mod 2048"

definition f64_frac :: "u64 \<Rightarrow> nat" where "f64_frac b = unat b mod 2 ^ 52"

definition f64_finite :: "u64 \<Rightarrow> bool" where "f64_finite b \<longleftrightarrow> f64_field b \<noteq> 2047"

text \<open>A finite double is an integer multiple of the least positive one, \<open>2\<^sup>-\<^sup>1\<^sup>0\<^sup>7\<^sup>4\<close>.\<close>

definition f64_one :: int where "f64_one = 2 ^ 1022 * 2 ^ 52"

definition f64_mag :: "u64 \<Rightarrow> nat" where
  "f64_mag b = (if f64_field b = 0 then f64_frac b else (2 ^ 52 + f64_frac b) * 2 ^ (f64_field b - 1))"

definition f64_val :: "u64 \<Rightarrow> int" where
  "f64_val b = (if f64_neg b then - int (f64_mag b) else int (f64_mag b))"

lemma f64_fields:
  "unat (drop_bit 52 b AND (push_bit 11 1 - 1)) = f64_field b" "unat (b AND (push_bit 52 1 - 1)) = f64_frac b"
  "drop_bit 63 b = (if f64_neg b then 1 else 0)"
proof -
  have m: "push_bit 11 1 - 1 = (mask 11 :: u64)" "push_bit 52 1 - 1 = (mask 52 :: u64)"
    by (simp_all add: mask_eq_exp_minus_1 push_bit_eq_mult)
  show "unat (drop_bit 52 b AND (push_bit 11 1 - 1)) = f64_field b"
    unfolding m f64_field_def take_bit_eq_mask [symmetric] unsigned_take_bit_eq by (simp add: take_bit_eq_mod unat_drop_bit)
  show "unat (b AND (push_bit 52 1 - 1)) = f64_frac b"
    unfolding m f64_frac_def take_bit_eq_mask [symmetric] unsigned_take_bit_eq by (simp add: take_bit_eq_mod)
  show "drop_bit 63 b = (if f64_neg b then 1 else 0)"
  proof (rule bit_word_eqI)
    fix n :: nat
    show "bit (drop_bit 63 b) n \<longleftrightarrow> bit (if f64_neg b then 1 else 0 :: u64) n"
      by (cases "n = 0") (auto simp: bit_drop_bit_eq f64_neg_def bit_1_iff dest: bit_imp_le_length)
  qed
qed

section \<open>Mantissa and exponent\<close>

lemma neg_limbs_append:
  "neg_limbs (xs @ ys) c = (let (us, d) = neg_limbs xs c; (vs, d') = neg_limbs ys d in (us @ vs, d'))"
  by (induction xs arbitrary: c) (auto simp: Let_def split: prod.splits)

lemma mant_neg:
  "mant_high (- 1) xs c = fst (neg_limbs xs c)"
  "mant_low (- 1) xs c l = (snd (neg_limbs xs c), foldl (OR) l (fst (neg_limbs xs c)))"
proof -
  show "mant_high (- 1) xs c = fst (neg_limbs xs c)"
    by (induction xs arbitrary: c) (simp_all add: Let_def case_prod_beta)
  show "mant_low (- 1) xs c l = (snd (neg_limbs xs c), foldl (OR) l (fst (neg_limbs xs c)))"
    by (induction xs arbitrary: c l) (simp_all add: Let_def case_prod_beta)
qed

lemma mant_pos: "mant_high 0 xs 0 = xs" "mant_low 0 xs 0 l = (0, foldl (OR) l xs)"
  by (induction xs arbitrary: l) simp_all

text \<open>The limbs of the absolute value, in the length of the number.\<close>

definition magnitude :: "js_bigint \<Rightarrow> limb list" where
  "magnitude a = (if js_bigint_sign a \<noteq> 0 then js_mp_neg a else a)"

lemma magnitude_value:
  assumes "a \<noteq> []"
  shows "int (mpv (magnitude a)) = \<bar>bval a\<bar>" "length (magnitude a) = length a"
  using abs_limbs_value(1) [OF assms] by (simp_all add: magnitude_def abs_limbs_def js_mp_neg_value(2))

lemma mant_parts:
  assumes "mant_low (- js_bigint_sign a) (take n a) (js_bigint_sign a) 0 = (carry, low_bits)"
  shows "mant_high (- js_bigint_sign a) (drop n a) carry = drop n (magnitude a)"
    "low_bits = foldl (OR) 0 (take n (magnitude a))"
proof -
  have "mant_high (- js_bigint_sign a) (drop n a) carry = drop n (magnitude a) \<and>
    low_bits = foldl (OR) 0 (take n (magnitude a))"
  proof (cases "js_bigint_sign a = 0")
    case True
    then show ?thesis using assms by (simp add: magnitude_def mant_pos)
  next
    case False
    then have s: "js_bigint_sign a = 1" using js_bigint_sign_01 [of a] by simp
    obtain us d where u: "neg_limbs (take n a) 1 = (us, d)" by fastforce
    obtain vs d' where v: "neg_limbs (drop n a) d = (vs, d')" by fastforce
    have "neg_limbs a 1 = (us @ vs, d')" using neg_limbs_append [of "take n a" "drop n a" 1] by (simp add: u v)
    then have m: "magnitude a = us @ vs" by (simp add: magnitude_def s js_mp_neg_def)
    have l: "length us = length (take n a)" using neg_limbs_value [OF u] by simp
    have "take n (magnitude a) = us \<and> drop n (magnitude a) = vs"
    proof (cases "n \<le> length a")
      case False
      then have "vs = []" using v by simp
      then show ?thesis using l False by (simp add: m)
    qed (use l in \<open>simp add: m\<close>)
    then show ?thesis using assms v by (auto simp: s mant_neg u)
  qed
  then show "mant_high (- js_bigint_sign a) (drop n a) carry = drop n (magnitude a)"
    "low_bits = foldl (OR) 0 (take n (magnitude a))" by simp_all
qed

lemma foldl_or_0: "foldl (OR) l xs = (0 :: limb) \<longleftrightarrow> l = 0 \<and> mpv xs = 0"
proof (induction xs arbitrary: l)
  case (Cons x xs)
  have "l OR x = 0 \<longleftrightarrow> l = 0 \<and> x = 0" by (simp add: or_eq_0_iff)
  then show ?case using Cons by (auto simp: unat_eq_0)
qed simp

text \<open>A quotient by a power of 2 whose lowest bit also tells whether there is a remainder.\<close>

definition sticky :: "nat \<Rightarrow> nat \<Rightarrow> nat" where
  "sticky x d = x div 2 ^ d OR of_bool (x mod 2 ^ d \<noteq> 0)"

lemma sticky_scale: "sticky (x * 2 ^ k) (d + k) = sticky x d"
  by (simp add: sticky_def power_add)

lemma sticky_split:
  "sticky x (c + d) = x div 2 ^ c div 2 ^ d OR of_bool (x div 2 ^ c mod 2 ^ d \<noteq> 0 \<or> x mod 2 ^ c \<noteq> 0)"
  by (auto simp: sticky_def power_add div_mult2_eq mod_mult2_eq)

text \<open>The shift of the high 96 bits \<open>h\<close> of a number, as the code does it on two words.\<close>

lemma normalize_mant:
  fixes a1 a0 :: u64 and h l :: nat
  assumes a1: "unat a1 = h div 2 ^ 32" and a0: "unat a0 = (h mod 2 ^ 32) * 2 ^ 32 + l" and l: "l \<le> 1"
    and h: "2 ^ 63 \<le> h" and s: "s = clz64 a1"
    and r: "(if s \<noteq> 0 then (push_bit s a1 OR drop_bit (64 - s) a0, push_bit s a0) else (a1, a0)) = (b1, b0)"
  shows "s \<le> 32" "unat b1 = h div 2 ^ (32 - s)" "2 ^ 63 \<le> unat b1" "b0 = 0 \<longleftrightarrow> h mod 2 ^ (32 - s) = 0 \<and> l = 0"
    "2 ^ 64 \<le> h \<Longrightarrow> s < 32"
proof -
  define t where "t = h mod 2 ^ 32"
  have t: "t < 2 ^ 32" by (simp add: t_def)
  have "2 ^ 31 \<le> unat a1" using div_le_mono [OF h, of "2 ^ 32"] by (simp add: a1)
  then have "a1 \<noteq> 0" by auto
  note c = clz64_bounds [OF this, folded s]
  have "(2 :: nat) ^ 31 < 2 ^ (64 - s)" using c(3) \<open>2 ^ 31 \<le> unat a1\<close> by linarith
  then have "31 < 64 - s" by (simp only: power_strict_increasing_iff)
  then show s32: "s \<le> 32" by simp
  show "s < 32" if "2 ^ 64 \<le> h"
  proof -
    have "2 ^ 32 \<le> unat a1" using div_le_mono [OF that, of "2 ^ 32"] by (simp add: a1)
    then have "(2 :: nat) ^ 32 < 2 ^ (64 - s)" using c(3) by linarith
    then have "32 < 64 - s" by (simp only: power_strict_increasing_iff)
    then show ?thesis by simp
  qed
  have p64: "(2 :: nat) ^ (64 - s) * 2 ^ s = 2 ^ 64" and p32: "(2 :: nat) ^ (32 - s) * 2 ^ s = 2 ^ 32"
    and p63: "(2 :: nat) ^ (63 - s) * 2 ^ s = 2 ^ 63" using s32 by (simp_all add: power_add [symmetric])
  have h': "h = unat a1 * 2 ^ 32 + t" by (simp add: a1 t_def)
  have q: "h div 2 ^ (32 - s) = unat a1 * 2 ^ s + t div 2 ^ (32 - s)"
  proof -
    have "h = t + unat a1 * 2 ^ s * 2 ^ (32 - s)" using h' p32 by (simp add: algebra_simps)
    then show ?thesis by (simp add: div_mult_self1)
  qed
  have m: "h mod 2 ^ (32 - s) = t mod 2 ^ (32 - s)"
    unfolding t_def by (rule mod_mod_cancel [symmetric], rule le_imp_power_dvd) simp
  have "unat a1 * 2 ^ s < 2 ^ (64 - s) * 2 ^ s" using c(3) by (intro mult_strict_right_mono) simp_all
  then have small: "unat a1 * 2 ^ s < 2 ^ 64" by (simp only: p64)
  have u1: "unat (push_bit s a1) = unat a1 * 2 ^ s"
    using small unfolding unat_push_bit by simp
  have u0: "unat (drop_bit (64 - s) a0) = t div 2 ^ (32 - s)"
  proof -
    have "64 - s = 32 + (32 - s)" using s32 by simp
    then have e: "(2 :: nat) ^ (64 - s) = 2 ^ 32 * 2 ^ (32 - s)" by (simp only: power_add)
    have "(t * 2 ^ 32 + l) div 2 ^ 32 = t" using l by simp
    then show ?thesis unfolding unat_drop_bit a0 t_def [symmetric] e div_mult2_eq by simp
  qed
  have v0: "unat (push_bit s a0) = (t mod 2 ^ (32 - s) * 2 ^ 32 + l) * 2 ^ s"
  proof -
    define k where "k = t div 2 ^ (32 - s)"
    define y where "y = t mod 2 ^ (32 - s)"
    have ty: "t = k * 2 ^ (32 - s) + y" unfolding k_def y_def by (rule div_mult_mod_eq [symmetric])
    have "(t * 2 ^ 32 + l) * 2 ^ s = (y * 2 ^ 32 + l) * 2 ^ s + k * (2 ^ (32 - s) * 2 ^ s) * 2 ^ 32"
      unfolding ty by (simp add: algebra_simps)
    also have "\<dots> = (y * 2 ^ 32 + l) * 2 ^ s + k * 2 ^ 64" unfolding p32 by simp
    finally have e: "(t * 2 ^ 32 + l) * 2 ^ s = (y * 2 ^ 32 + l) * 2 ^ s + k * 2 ^ 64" .
    have "y + 1 \<le> 2 ^ (32 - s)" by (simp add: y_def Suc_le_eq)
    then have "(y + 1) * 2 ^ 32 * 2 ^ s \<le> 2 ^ (32 - s) * 2 ^ 32 * 2 ^ s" by (intro mult_right_mono) simp_all
    also have "\<dots> = 2 ^ 64" using p32 by (simp add: mult.commute mult.left_commute)
    finally have "(y + 1) * 2 ^ 32 * 2 ^ s \<le> 2 ^ 64" .
    moreover have "(y * 2 ^ 32 + l) * 2 ^ s < (y + 1) * 2 ^ 32 * 2 ^ s" using l by simp
    ultimately have "(y * 2 ^ 32 + l) * 2 ^ s < 2 ^ 64" by linarith
    then show ?thesis unfolding unat_push_bit a0 unfolding t_def [symmetric] unfolding y_def [symmetric] e by simp
  qed
  have b: "unat b1 = unat a1 * 2 ^ s + t div 2 ^ (32 - s) \<and> unat b0 = (t mod 2 ^ (32 - s) * 2 ^ 32 + l) * 2 ^ s"
  proof (cases "s = 0")
    case True
    then show ?thesis using r a0 t by (simp add: t_def)
  next
    case False
    have "t < 2 ^ s * 2 ^ (32 - s)" using t p32 by (simp only: mult.commute [of "2 ^ s"])
    then have "t div 2 ^ (32 - s) < 2 ^ s" by (rule less_mult_imp_div_less)
    then have "unat (push_bit s a1 OR drop_bit (64 - s) a0) = unat a1 * 2 ^ s + t div 2 ^ (32 - s)"
      using nat_or_add [of "t div 2 ^ (32 - s)" s "unat a1"]
      by (simp only: unsigned_or_eq u1 u0 or.commute [of "unat a1 * 2 ^ s"] add.commute [of "unat a1 * 2 ^ s"])
    then show ?thesis using r False v0 by auto
  qed
  show "unat b1 = h div 2 ^ (32 - s)" using b q by simp
  have "2 ^ (63 - s) * 2 ^ s \<le> unat a1 * 2 ^ s" using c(2) by (intro mult_right_mono) simp_all
  then show "2 ^ 63 \<le> unat b1" using b unfolding p63 by linarith
  show "b0 = 0 \<longleftrightarrow> h mod 2 ^ (32 - s) = 0 \<and> l = 0" using b m by (auto simp: unat_eq_0 word_unat_eq_iff)
qed

lemma bigint_ok_log:
  assumes "bigint_ok a" "bval a \<noteq> 0"
  shows "2 ^ 63 \<le> nat \<bar>bval a\<bar> * 2 ^ (32 * (3 - length a)) div 2 ^ (32 * (length a - 3))"
proof -
  define A where "A = nat \<bar>bval a\<bar>"
  have A: "1 \<le> A" using assms(2) by (simp add: A_def)
  have ne: "a \<noteq> []" using assms(1) by (simp add: bigint_ok_def)
  consider "length a = 1" | "length a = 2" | "3 \<le> length a"
    using ne by (cases a; cases "tl a"; cases "tl (tl a)") auto
  then show ?thesis
  proof cases
    case 1
    then show ?thesis using A by (simp add: A_def [symmetric])
  next
    case 2
    have "2 ^ 31 \<le> A" using bigint_ok_abs [OF assms(1)] 2 by (simp add: A_def nat_le_iff le_nat_iff)
    then show ?thesis using 2 by (simp add: A_def [symmetric])
  next
    case 3
    have "(2 :: int) ^ (32 * (length a - 2) + 31) \<le> \<bar>bval a\<bar>" using bigint_ok_abs [OF assms(1)] 3 by simp
    then have "2 ^ (32 * (length a - 2) + 31) \<le> A" by (simp add: A_def le_nat_iff)
    moreover have "32 * (length a - 2) + 31 = 63 + 32 * (length a - 3)" using 3 by simp
    ultimately have "2 ^ 63 * 2 ^ (32 * (length a - 3)) \<le> A" by (simp only: power_add)
    then have "2 ^ 63 * 2 ^ (32 * (length a - 3)) div 2 ^ (32 * (length a - 3)) \<le> A div 2 ^ (32 * (length a - 3))"
      by (rule div_le_mono)
    then show ?thesis using 3 by (simp add: A_def [symmetric])
  qed
qed

lemma get_mant_exp_value:
  assumes "bigint_ok a" "bval a \<noteq> 0" "js_bigint_get_mant_exp a = (mant, e)"
  defines "A \<equiv> nat \<bar>bval a\<bar>"
  shows "0 \<le> e" "2 ^ nat e \<le> A" "A < 2 ^ (nat e + 1)" "unat mant = sticky (A * 2 ^ 63) (nat e)"
    "e < 32 * int (length a)"
proof -
  have ne: "a \<noteq> []" using assms(1) by (simp add: bigint_ok_def)
  define n1 where "n1 = length a - 3"
  define w where "w = replicate (3 - length a) 0 @ magnitude a"
  obtain carry low_bits where low: "mant_low (- js_bigint_sign a) (take n1 a) (js_bigint_sign a) 0 = (carry, low_bits)"
    by fastforce
  define t where "t = replicate (3 - length a) 0 @ mant_high (- js_bigint_sign a) (drop n1 a) carry"
  have lm: "length (magnitude a) = length a" and vm: "mpv (magnitude a) = A"
    using magnitude_value [OF ne] by (simp_all add: A_def)
  have lw: "length w = n1 + 3" "length w = max 3 (length a)" by (simp_all add: w_def lm n1_def)
  have vw: "mpv w = A * 2 ^ (32 * (3 - length a))" by (simp add: w_def mpv_zeros vm power_mult)
  have tw: "t = drop n1 w" and lo: "mpv (take n1 (magnitude a)) = mpv w mod 2 ^ (32 * n1)"
    using mant_parts [OF low] mpv_take [of n1 w] by (cases "3 \<le> length a"; simp add: t_def w_def n1_def)+
  define h where "h = mpv w div 2 ^ (32 * n1)"
  have ht: "mpv t = h" unfolding tw h_def by (rule mpv_drop)
  have "length t = 3" using lw(1) tw by simp
  then obtain t0 t1 t2 where t: "t = [t0, t1, t2]" by (auto simp: numeral_3_eq_3 length_Suc_conv)
  have hv: "h = unat t0 + 2 ^ 32 * (unat t1 + 2 ^ 32 * unat t2)" using ht by (simp add: t)
  define l where "l = (if low_bits \<noteq> 0 then 1 else 0 :: nat)"
  have l0: "l = 0 \<longleftrightarrow> mpv w mod 2 ^ (32 * n1) = 0"
    using mant_parts(2) [OF low] lo foldl_or_0 [of 0 "take n1 (magnitude a)"] by (simp add: l_def)
  define a1 where "a1 = (push_bit 32 (ucast (t ! 2)) OR ucast (t ! 1) :: u64)"
  define a0 where "a0 = (push_bit 32 (ucast (t ! 0)) OR (if low_bits \<noteq> 0 then 1 else 0) :: u64)"
  define s where "s = clz64 a1"
  obtain b1 b0 where b: "(if s \<noteq> 0 then (push_bit s a1 OR drop_bit (64 - s) a0, push_bit s a0) else (a1, a0)) = (b1, b0)"
    by fastforce
  have me: "mant = b1 OR (if b0 \<noteq> 0 then 1 else 0)" "e = int (length a) * 32 - int s - 1"
    using assms(3) unfolding js_bigint_get_mant_exp_def Let_def n1_def [symmetric] low prod.case
      t_def [symmetric] a1_def [symmetric] a0_def [symmetric] s_def [symmetric] b
    by simp_all
  have "unat (push_bit 32 (ucast t2) :: u64) = unat t2 * 2 ^ 32" "unat (push_bit 32 (ucast t0) :: u64) = unat t0 * 2 ^ 32"
    using unat_u32_less [of t2] unat_u32_less [of t0] by (simp_all add: unat_push_bit unat_ucast_mod)
  moreover have "unat (ucast t1 :: u64) = unat t1" using unat_u32_less [of t1] by (simp add: unat_ucast_mod)
  moreover have "unat (if low_bits \<noteq> 0 then 1 else 0 :: u64) = l" by (simp add: l_def)
  ultimately have "unat a1 = unat t1 OR unat t2 * 2 ^ 32" "unat a0 = l OR unat t0 * 2 ^ 32"
    by (simp_all only: a1_def a0_def t unsigned_or_eq nth_Cons_0 nth_Cons_Suc numeral_2_eq_2 One_nat_def or.commute)
  moreover have "l < 2 ^ 32" "unat t1 < 2 ^ 32" using unat_u32_less [of t1] by (simp_all add: l_def)
  ultimately have u: "unat a1 = unat t1 + unat t2 * 2 ^ 32" "unat a0 = l + unat t0 * 2 ^ 32"
    by (simp_all only: nat_or_add)
  have hd: "h div 2 ^ 32 = unat a1" "h mod 2 ^ 32 = unat t0"
    unfolding hv u(1) div_mult_self2 mod_mult_self2 using unat_u32_less [of t0] by simp_all
  have h63: "2 ^ 63 \<le> h" using bigint_ok_log [OF assms(1,2)] by (simp add: h_def vw n1_def A_def)
  have l1: "l \<le> 1" by (simp add: l_def)
  have ua0: "unat a0 = (h mod 2 ^ 32) * 2 ^ 32 + l" using u(2) hd(2) by simp
  note nm = normalize_mant [OF hd(1) [symmetric] ua0 l1 h63 s_def b]
  have len: "1 \<le> length a" using ne by (cases a) simp_all
  have "s < 32 * length a"
  proof (cases "length a = 1")
    case True
    have "1 \<le> A" using assms(2) by (simp add: A_def)
    then have "2 ^ 64 \<le> h" using True by (simp add: h_def vw n1_def)
    then show ?thesis using nm(5) True by simp
  qed (use nm(1) len in simp)
  then have e0: "0 \<le> e" "nat e = 32 * length a - s - 1" using me(2) by linarith+
  show "0 \<le> e" "e < 32 * int (length a)" using e0(1) me(2) by simp_all
  have z: "nat e + 32 * (3 - length a) = 63 + (32 * n1 + (32 - s))" using nm(1) len \<open>s < 32 * length a\<close> unfolding e0(2) n1_def by linarith
  have st: "sticky (A * 2 ^ 63) (nat e) = sticky (mpv w) (32 * n1 + (32 - s))"
  proof -
    have "sticky (A * 2 ^ 63) (nat e) = sticky (A * 2 ^ 63 * 2 ^ (32 * (3 - length a))) (nat e + 32 * (3 - length a))"
      by (rule sticky_scale [symmetric])
    also have "\<dots> = sticky (mpv w * 2 ^ 63) ((32 * n1 + (32 - s)) + 63)"
      unfolding z vw by (simp only: ac_simps)
    finally show ?thesis unfolding sticky_scale .
  qed
  show "unat mant = sticky (A * 2 ^ 63) (nat e)"
    unfolding st sticky_split h_def [symmetric] me(1) unsigned_or_eq nm(2) using nm(4) l0 by simp
  have q: "(A * 2 ^ 63) div 2 ^ nat e = unat b1"
  proof -
    have "(A * 2 ^ 63) div 2 ^ nat e = (A * 2 ^ 63 * 2 ^ (32 * (3 - length a))) div 2 ^ (nat e + 32 * (3 - length a))"
      by (simp add: power_add)
    also have "\<dots> = (mpv w * 2 ^ 63) div (2 ^ (32 * n1 + (32 - s)) * 2 ^ 63)"
      unfolding z vw by (simp only: ac_simps power_add)
    also have "\<dots> = mpv w div 2 ^ (32 * n1 + (32 - s))" by (rule div_mult_mult2) simp
    finally show ?thesis by (simp add: power_add div_mult2_eq h_def nm(2))
  qed
  have "2 ^ 63 * 2 ^ nat e \<le> A * 2 ^ 63" using nm(3) unfolding q [symmetric] by (simp add: less_eq_div_iff_mult_less_eq)
  then show "2 ^ nat e \<le> A" by simp
  have "unat b1 < 2 ^ 64" by (rule order_less_le_trans [OF unsigned_less]) simp
  then have "A * 2 ^ 63 < 2 ^ 64 * 2 ^ nat e" unfolding q [symmetric] by (simp add: div_less_iff_less_mult)
  then show "A < 2 ^ (nat e + 1)" by simp
qed

section \<open>Rounding\<close>

lemma round_scale:
  assumes "0 < d"
  shows "round_shr JS_RNDN (x * 2 ^ k) (d + k) = round_shr JS_RNDN x d"
proof -
  obtain c where c: "d = Suc c" using assms by (cases d) auto
  have "(2 :: nat) ^ (d + k) div 2 = 2 ^ c * 2 ^ k" "(2 :: nat) ^ d div 2 = 2 ^ c" by (simp_all add: c power_add)
  moreover have "x * 2 ^ k div 2 ^ (d + k) = x div 2 ^ d" "x * 2 ^ k mod 2 ^ (d + k) = x mod 2 ^ d * 2 ^ k"
    by (simp_all add: power_add mult_mod_left)
  ultimately show ?thesis by (simp add: round_shr_def Let_def)
qed

lemma sticky_cases: "sticky x d = (if x mod 2 ^ d \<noteq> 0 \<and> even (x div 2 ^ d) then x div 2 ^ d + 1 else x div 2 ^ d)"
  using or_one_eq [of "x div 2 ^ d"] by (auto simp: sticky_def)

text \<open>Adding half a unit and the parity rounds a quotient that still tells whether there is a remainder.\<close>

lemma round_sticky:
  "(sticky x d + (sticky x d div 1024 mod 2) + 511) div 1024 = round_shr JS_RNDN x (d + 10)"
proof -
  define q where "q = x div 2 ^ d"
  define r where "r = x mod 2 ^ d"
  define D where "D = (2 :: nat) ^ d"
  define b where "b = q div 1024"
  define l where "l = q mod 1024"
  have D: "0 < D" "r < D" by (simp_all add: D_def r_def)
  have q: "q = 1024 * b + l" "l < 1024" by (simp_all add: b_def l_def)
  have e: "(2 :: nat) ^ (d + 10) = D * 1024" "(2 :: nat) ^ (d + 10) div 2 = D * 512" by (simp_all add: D_def power_add)
  have v: "x div 2 ^ (d + 10) = b" "x mod 2 ^ (d + 10) = D * l + r"
    unfolding e(1) div_mult2_eq mod_mult2_eq by (simp_all add: b_def l_def q_def r_def D_def)
  have half: "D * 512 < D * l + r \<longleftrightarrow> 513 \<le> l \<or> l = 512 \<and> r \<noteq> 0" "D * 512 = D * l + r \<longleftrightarrow> l = 512 \<and> r = 0"
  proof -
    consider "l \<le> 511" | "l = 512" | "513 \<le> l" by linarith
    then have "(D * 512 < D * l + r \<longleftrightarrow> 513 \<le> l \<or> l = 512 \<and> r \<noteq> 0) \<and> (D * 512 = D * l + r \<longleftrightarrow> l = 512 \<and> r = 0)"
    proof cases
      case 1
      then have "D * l \<le> D * 511" by (rule mult_le_mono2)
      then have "D * l + r < D * 512" using D by linarith
      then show ?thesis using 1 by simp
    next
      case 3
      then have "D * 513 \<le> D * l" by (rule mult_le_mono2)
      then have "D * 512 < D * l + r" using D by linarith
      then show ?thesis using 3 by simp
    qed (use D in auto)
    then show "D * 512 < D * l + r \<longleftrightarrow> 513 \<le> l \<or> l = 512 \<and> r \<noteq> 0" "D * 512 = D * l + r \<longleftrightarrow> l = 512 \<and> r = 0"
      by simp_all
  qed
  define t where "t = (if r \<noteq> 0 \<and> even q then l + 1 else l)"
  have ev: "even q \<longleftrightarrow> even l" by (simp add: q(1))
  have t: "t < 1024" "513 \<le> t \<longleftrightarrow> 513 \<le> l \<or> l = 512 \<and> r \<noteq> 0" "t = 512 \<longleftrightarrow> l = 512 \<and> r = 0"
    using q(2) ev by (auto simp: t_def elim!: evenE) presburger+
  have s: "sticky x d = 1024 * b + t" by (simp add: sticky_cases q_def [symmetric] r_def [symmetric] t_def q(1))
  have sb: "(1024 * b + t) div 1024 = b" using t(1) by simp
  have "(1024 * b + t + b mod 2 + 511) div 1024 = (if 513 \<le> t \<or> t = 512 \<and> odd b then b + 1 else b)"
    using t(1) by (cases "even b") (auto simp: odd_iff_mod_2_eq_one even_iff_mod_2_eq_zero intro!: div_nat_eqI)
  then show ?thesis unfolding s sb round_shr_def e(2) v Let_def rnd_mode.case half using t(2,3) by auto
qed

lemma round_bounds:
  assumes "2 ^ e \<le> A" "A < 2 ^ (e + 1)" "0 < e"
  shows "2 ^ 52 \<le> round_shr JS_RNDN (A * 2 ^ 52) e" "round_shr JS_RNDN (A * 2 ^ 52) e \<le> 2 ^ 53"
proof -
  have q: "A * 2 ^ 52 div 2 ^ e \<le> round_shr JS_RNDN (A * 2 ^ 52) e"
    "round_shr JS_RNDN (A * 2 ^ 52) e \<le> A * 2 ^ 52 div 2 ^ e + 1"
    by (auto simp: round_shr_def Let_def)
  have "2 ^ 52 * 2 ^ e div 2 ^ e \<le> A * 2 ^ 52 div 2 ^ e" using assms(1) by (intro div_le_mono) simp
  then show "2 ^ 52 \<le> round_shr JS_RNDN (A * 2 ^ 52) e" using q(1) by simp
  have "A * 2 ^ 52 < 2 ^ 53 * 2 ^ e" using assms(2) by simp
  then have "A * 2 ^ 52 div 2 ^ e < 2 ^ 53" by (rule less_mult_imp_div_less)
  then show "round_shr JS_RNDN (A * 2 ^ 52) e \<le> 2 ^ 53" using q(2) by linarith
qed

lemma unat_shr_rndn:
  assumes "unat a < 2 ^ 63"
  shows "unat (shr_rndn a 10) = (unat a + (unat a div 1024 mod 2) + 511) div 1024"
proof -
  have "unat (drop_bit 10 a AND 1) = unat a div 1024 mod 2"
  proof -
    have e: "drop_bit 10 a AND 1 = take_bit 1 (drop_bit 10 a)" by (simp add: take_bit_eq_mask)
    show ?thesis unfolding e unsigned_take_bit_eq unat_drop_bit by (simp add: take_bit_eq_mod)
  qed
  moreover have "unat (push_bit (10 - 1) 1 - 1 :: u64) = 511" by (simp add: push_bit_eq_mult)
  ultimately have "unat (a + ((drop_bit 10 a AND 1) + (push_bit (10 - 1) 1 - 1))) = unat a + (unat a div 1024 mod 2) + 511"
    using assms by (simp add: unat_word_ariths)
  then show ?thesis by (simp add: shr_rndn_def unat_drop_bit)
qed

text \<open>The three fields, put together.\<close>

lemma unat_fields:
  assumes "F < 2048" "f < 2 ^ 52" "unat w = F" "unat m = f"
  shows "unat (push_bit 63 (of_bool n) OR push_bit 52 w OR m :: u64) = of_bool n * 2 ^ 63 + F * 2 ^ 52 + f"
proof -
  have "unat (push_bit 52 w) = F * 2 ^ 52" using assms(1,3) by (simp add: unat_push_bit)
  then have l: "unat (push_bit 52 w OR m) = F * 2 ^ 52 + f"
    using nat_or_add [OF assms(2), of F] assms(4) by (simp add: unsigned_or_eq or.commute add.commute)
  have "F * 2 ^ 52 + f < 2 ^ 63"
  proof -
    have "F * 2 ^ 52 \<le> 2047 * 2 ^ 52" using assms(1) by (intro mult_right_mono) simp_all
    then show ?thesis using assms(2) by simp
  qed
  moreover have "unat (push_bit 63 (of_bool n) :: u64) = of_bool n * 2 ^ 63" by (cases n) (simp_all add: unat_push_bit)
  ultimately show ?thesis using nat_or_add [of "F * 2 ^ 52 + f" 63 "of_bool n"] l
    unfolding or.assoc unsigned_or_eq by (simp add: or.commute add.commute add.left_commute)
qed

lemma fields_of_unat:
  assumes "unat b = of_bool n * 2 ^ 63 + F * 2 ^ 52 + f" "F < 2048" "f < 2 ^ 52"
  shows "f64_neg b \<longleftrightarrow> n" "f64_field b = F" "f64_frac b = f"
proof -
  have "of_bool n * 2 ^ 63 + F * 2 ^ 52 + f = f + (of_bool n * 2048 + F) * 2 ^ 52" by simp
  then have u: "unat b = f + (of_bool n * 2048 + F) * 2 ^ 52" using assms(1) by simp
  have d: "unat b div 2 ^ 52 = of_bool n * 2048 + F" unfolding u using assms(3) by simp
  show "f64_field b = F" unfolding f64_field_def d using assms(2) by simp
  show "f64_frac b = f" unfolding f64_frac_def u mod_mult_self1 using assms(3) by simp
  have "unat b div 2 ^ 63 = unat b div 2 ^ 52 div 2048" by (simp add: div_mult2_eq [symmetric])
  also have "\<dots> = of_bool n" unfolding d using assms(2) by simp
  finally have "odd (unat b div 2 ^ 63) \<longleftrightarrow> n" by simp
  moreover have "bit b 63 \<longleftrightarrow> bit (unat b) 63" by (simp add: bit_unsigned_iff)
  ultimately show "f64_neg b \<longleftrightarrow> n" unfolding f64_neg_def by (simp only: bit_iff_odd)
qed

text \<open>The bits of a number with absolute value \<open>A\<close>: the rounded significand carries into the exponent.\<close>

definition f64_bits_of :: "bool \<Rightarrow> nat \<Rightarrow> nat \<Rightarrow> nat" where
  "f64_bits_of n A e = of_bool n * 2 ^ 63 +
     (if 1023 < e then 2047 * 2 ^ 52 else (e + 1022) * 2 ^ 52 + round_shr JS_RNDN (A * 2 ^ 52) e)"

lemma double_of_int32_bits:
  assumes "x \<noteq> 0"
  defines "A \<equiv> nat \<bar>sint x\<bar>"
  shows "\<exists>e\<le>31. 2 ^ e \<le> A \<and> A < 2 ^ (e + 1) \<and>
    unat (double_of_int32 x) = of_bool (sint x < 0) * 2 ^ 63 + (e + 1022) * 2 ^ 52 + A * 2 ^ (52 - e)"
proof -
  define n where "n \<longleftrightarrow> sint x < 0"
  define m where "m = (if n then - x else x)"
  have m: "unat m = A" using unat_neg32 [of x] assms(1) sint_limb [of x] unat_u32_less [of x]
    by (auto simp: m_def n_def A_def of_nat_diff unat_eq_0 simp del: of_nat_unat split: if_splits)
  have m0: "m \<noteq> 0" using assms(1) by (simp add: m_def)
  define e where "e = 31 - clz32 m"
  have c: "e \<le> 31" "2 ^ e \<le> A" using clz32_bounds [OF m0] by (simp_all add: e_def m)
  have "32 - clz32 m = e + 1" using clz32_bounds(1) [OF m0] by (simp add: e_def)
  then have c2: "A < 2 ^ (e + 1)" using clz32_bounds(3) [OF m0] by (simp only: m)
  have p: "(2 :: nat) ^ 52 = 2 ^ (52 - e) * 2 ^ e" "(2 :: nat) ^ 53 = 2 ^ (52 - e) * 2 ^ (e + 1)"
    using c(1) by (simp_all only: power_add [symmetric]) simp_all
  have "2 ^ (52 - e) * 2 ^ e \<le> 2 ^ (52 - e) * A" "2 ^ (52 - e) * A < 2 ^ (52 - e) * 2 ^ (e + 1)" using c(2) c2 by simp_all
  then have lo: "2 ^ 52 \<le> A * 2 ^ (52 - e)" "A * 2 ^ (52 - e) < 2 ^ 53" unfolding p by (simp_all add: mult.commute)
  define f where "f = A * 2 ^ (52 - e) - 2 ^ 52"
  have f: "f < 2 ^ 52" "A * 2 ^ (52 - e) = 2 ^ 52 + f" using lo by (simp_all add: f_def)
  have "unat (ucast m :: u64) = A" using unat_u32_less [of m] m by (simp add: unat_ucast_mod)
  then have "unat (push_bit (52 - e) (ucast m) :: u64) = A * 2 ^ (52 - e)" using lo(2) by (simp add: unat_push_bit)
  then have "unat (push_bit (52 - e) (ucast m) AND mask 52 :: u64) = A * 2 ^ (52 - e) mod 2 ^ 52"
    by (simp only: take_bit_eq_mask [symmetric] unsigned_take_bit_eq) (simp add: take_bit_eq_mod)
  also have "\<dots> = f" unfolding f(2) using f(1) by simp
  finally have uf: "unat (push_bit (52 - e) (ucast m) AND mask 52 :: u64) = f" .
  have "unat (of_nat (e + 1023) :: u64) = e + 1023" using c(1) by (simp add: unat_of_nat del: of_nat_add)
  from unat_fields [OF _ f(1) this uf, of n] c(1)
  have "unat (double_of_int32 x) = of_bool n * 2 ^ 63 + (e + 1023) * 2 ^ 52 + f"
    unfolding double_of_int32_def Let_def n_def [symmetric] m_def [symmetric] e_def [symmetric] using assms(1)
    by (cases n) (simp_all add: or.assoc)
  then have "unat (double_of_int32 x) = of_bool n * 2 ^ 63 + (e + 1022) * 2 ^ 52 + A * 2 ^ (52 - e)" unfolding f(2) by simp
  then show ?thesis using c c2 unfolding n_def by blast
qed

lemma to_float64_bits:
  assumes "bigint_ok a" "length a \<noteq> 1"
  defines "A \<equiv> nat \<bar>bval a\<bar>"
  shows "\<exists>e>0. 2 ^ e \<le> A \<and> A < 2 ^ (e + 1) \<and> unat (js_bigint_to_float64 a) = f64_bits_of (bval a < 0) A e"
proof -
  have ne: "a \<noteq> []" using assms(1) by (simp add: bigint_ok_def)
  have l: "1 < length a" using ne assms(2) by (cases a) auto
  have big: "2 ^ (32 * (length a - 2) + 31) \<le> \<bar>bval a\<bar>" by (rule bigint_ok_abs [OF assms(1) l])
  have "(0 :: int) < 2 ^ (32 * (length a - 2) + 31)" by simp
  then have b0: "bval a \<noteq> 0" using big by linarith
  obtain mant f where me: "js_bigint_get_mant_exp a = (mant, f)" by fastforce
  note v = get_mant_exp_value [OF assms(1) b0 me, folded A_def]
  define e where "e = nat f"
  have fe: "f = int e" using v(1) by (simp add: e_def)
  have "(2 :: int) ^ 31 \<le> 2 ^ (32 * (length a - 2) + 31)" by (rule power_increasing) simp_all
  then have "(2 :: int) ^ 31 \<le> \<bar>bval a\<bar>" using big by (rule order_trans)
  then have "2 ^ 31 \<le> A" by (simp add: A_def le_nat_iff)
  then have "(2 :: nat) ^ 31 < 2 ^ (e + 1)" using v(3) by (simp add: e_def)
  then have "31 < e + 1" by (simp only: power_strict_increasing_iff)
  then have e0: "0 < e" by simp
  define x where "x = drop_bit 1 mant OR (mant AND 1)"
  have "unat x = unat mant div 2 OR unat mant mod 2"
  proof -
    have m1: "mant AND 1 = take_bit 1 mant" by (simp add: take_bit_eq_mask)
    have "unat x = unat mant div 2 OR unat mant mod 2"
      unfolding x_def m1 unsigned_or_eq unat_drop_bit unsigned_take_bit_eq by (simp add: take_bit_eq_mod)
    then show ?thesis .
  qed
  note xm = this
  have x63: "unat x < 2 ^ 63"
  proof -
    have "unat mant < 2 ^ 64" by (rule order_less_le_trans [OF unsigned_less]) simp
    then have y: "unat mant div 2 < 2 ^ 63" by simp
    have "unat mant mod 2 = 0 \<or> unat mant mod 2 = 1" by auto
    then show ?thesis unfolding xm using y or_one_eq [of "unat mant div 2"] by (cases "even (unat mant div 2)") (auto elim!: evenE)
  qed
  have ux: "unat x = sticky (A * 2 ^ 62) e"
  proof -
    note xm
    also have "unat mant mod 2 = of_bool (A * 2 ^ 63 div 2 ^ e mod 2 \<noteq> 0 \<or> A * 2 ^ 63 mod 2 ^ e \<noteq> 0)"
      using v(4) by (auto simp: e_def sticky_cases mod_2_eq_odd)
    also have "unat mant div 2 = A * 2 ^ 63 div 2 ^ e div 2 ^ 1"
      using v(4) by (auto simp: e_def sticky_cases)
    also have "A * 2 ^ 63 div 2 ^ e div 2 ^ 1 OR of_bool (A * 2 ^ 63 div 2 ^ e mod 2 \<noteq> 0 \<or> A * 2 ^ 63 mod 2 ^ e \<noteq> 0)
      = sticky (A * 2 ^ 63) (e + 1)" unfolding sticky_split power_one_right ..
    also have "\<dots> = sticky (A * 2 ^ 62 * 2 ^ 1) (e + 1)" by (simp add: mult.commute)
    also have "\<dots> = sticky (A * 2 ^ 62) e" by (rule sticky_scale)
    finally show ?thesis .
  qed
  define R where "R = round_shr JS_RNDN (A * 2 ^ 52) e"
  have R: "2 ^ 52 \<le> R" "R \<le> 2 ^ 53" using round_bounds [of e A] v(2,3) e0 by (simp_all add: R_def e_def)
  have uR: "unat (shr_rndn x 10) = R"
  proof -
    have "unat (shr_rndn x 10) = round_shr JS_RNDN (A * 2 ^ 52 * 2 ^ 10) (e + 10)"
      using unat_shr_rndn [OF x63] unfolding ux round_sticky by (simp add: mult.commute)
    then show ?thesis unfolding round_scale [OF e0] R_def .
  qed
  have sgn: "ucast (js_bigint_sign a) = (of_bool (bval a < 0) :: u64)"
    using bval_sign [OF ne] js_bigint_sign_01 [of a] by auto
  have "unat (js_bigint_to_float64 a) = f64_bits_of (bval a < 0) A e"
  proof (cases "1023 < e")
    case True
    have "js_bigint_to_float64 a = push_bit 63 (of_bool (bval a < 0)) OR push_bit 52 2047 OR 0"
      using assms(2) True unfolding js_bigint_to_float64_def Let_def me prod.case sgn fe by simp
    then show ?thesis using unat_fields [of 2047 0 2047 0 "bval a < 0"] True by (simp add: f64_bits_of_def)
  next
    case False
    define mr where "mr = shr_rndn x 10"
    have m2: "(unat mr < 2 ^ 53) \<longleftrightarrow> \<not> push_bit 53 1 \<le> mr" by (simp add: word_le_nat_alt push_bit_eq_mult not_le)
    define F where "F = (if push_bit 53 1 \<le> mr then e + 1024 else e + 1023)"
    define fr where "fr = (if push_bit 53 1 \<le> mr then drop_bit 1 mr else mr) AND (push_bit 52 1 - 1)"
    have FR: "F < 2048" "F * 2 ^ 52 + unat fr = (e + 1022) * 2 ^ 52 + R" "unat fr < 2 ^ 52"
    proof -
      have k: "push_bit 52 1 - 1 = (mask 52 :: u64)" by (simp add: mask_eq_exp_minus_1 push_bit_eq_mult)
      have "unat fr = (if push_bit 53 1 \<le> mr then unat mr div 2 else unat mr) mod 2 ^ 52"
        unfolding fr_def k take_bit_eq_mask [symmetric] unsigned_take_bit_eq by (simp add: take_bit_eq_mod unat_drop_bit)
      also have "\<dots> = (if push_bit 53 1 \<le> mr then 0 else R - 2 ^ 52)"
      proof (cases "push_bit 53 1 \<le> mr")
        case True
        then have "R = 2 ^ 53" using m2 R(2) uR by (simp add: mr_def)
        then show ?thesis using True uR by (simp add: mr_def)
      next
        case False
        then have "R < 2 ^ 53" using m2 uR by (simp add: mr_def)
        then have "R = (R - 2 ^ 52) + 1 * 2 ^ 52" "R - 2 ^ 52 < 2 ^ 52" using R(1) by simp_all
        then have "R mod 2 ^ 52 = R - 2 ^ 52" by (metis mod_mult_self1 mod_less)
        then show ?thesis using False uR by (simp add: mr_def)
      qed
      finally have u: "unat fr = (if push_bit 53 1 \<le> mr then 0 else R - 2 ^ 52)" .
      have r: "push_bit 53 1 \<le> mr \<longleftrightarrow> R = 2 ^ 53" using m2 R(2) uR by (auto simp: mr_def)
      show "F < 2048" "F * 2 ^ 52 + unat fr = (e + 1022) * 2 ^ 52 + R" "unat fr < 2 ^ 52"
        using False R u r by (auto simp: F_def split: if_splits)
    qed
    have "js_bigint_to_float64 a = push_bit 63 (of_bool (bval a < 0)) OR push_bit 52 (of_nat F) OR fr"
      using assms(2) False unfolding js_bigint_to_float64_def Let_def me prod.case sgn fe x_def [symmetric] mr_def [symmetric]
      by (simp add: F_def fr_def add.commute)
    moreover have "unat (of_nat F :: u64) = F" using FR(1) by (simp add: unat_of_nat)
    ultimately have "unat (js_bigint_to_float64 a) = of_bool (bval a < 0) * 2 ^ 63 + F * 2 ^ 52 + unat fr"
      using unat_fields [OF FR(1,3) _ refl] by simp
    then show ?thesis using False FR(2) by (simp add: f64_bits_of_def R_def)
  qed
  then show ?thesis using v(2,3) e0 unfolding e_def by blast
qed

lemma carried_fields:
  assumes "unat b = of_bool n * 2 ^ 63 + k * 2 ^ 52 + R" "2 ^ 52 \<le> R" "R \<le> 2 ^ 53" "k \<le> 2045"
  shows "f64_neg b \<longleftrightarrow> n" "f64_finite b \<longleftrightarrow> \<not> (k = 2045 \<and> R = 2 ^ 53)" "f64_mag b = R * 2 ^ k"
    "even (f64_frac b) \<longleftrightarrow> even R" "k = 2045 \<and> R = 2 ^ 53 \<Longrightarrow> f64_frac b = 0"
proof -
  have "(f64_neg b \<longleftrightarrow> n) \<and> (f64_finite b \<longleftrightarrow> \<not> (k = 2045 \<and> R = 2 ^ 53)) \<and> f64_mag b = R * 2 ^ k \<and>
    (even (f64_frac b) \<longleftrightarrow> even R) \<and> (k = 2045 \<and> R = 2 ^ 53 \<longrightarrow> f64_frac b = 0)"
  proof (cases "R = 2 ^ 53")
    case True
    then have "unat b = of_bool n * 2 ^ 63 + (k + 2) * 2 ^ 52 + 0" using assms(1) by simp
    from fields_of_unat [OF this] assms(4) show ?thesis
      using True by (simp add: f64_finite_def f64_mag_def)
  next
    case False
    define f where "f = R - 2 ^ 52"
    have f: "R = 2 ^ 52 + f" "f < 2 ^ 52" using False assms(2,3) by (simp_all add: f_def)
    then have "unat b = of_bool n * 2 ^ 63 + (k + 1) * 2 ^ 52 + f" using assms(1) by simp
    from fields_of_unat [OF this _ f(2)] assms(4) show ?thesis
      using False by (simp add: f64_finite_def f64_mag_def f(1))
  qed
  then show "f64_neg b \<longleftrightarrow> n" "f64_finite b \<longleftrightarrow> \<not> (k = 2045 \<and> R = 2 ^ 53)" "f64_mag b = R * 2 ^ k"
    "even (f64_frac b) \<longleftrightarrow> even R" "k = 2045 \<and> R = 2 ^ 53 \<Longrightarrow> f64_frac b = 0" by simp_all
qed

text \<open>Rounding to an integer goes to a closest one, to the even one of two.\<close>

lemma round_closest:
  fixes x d k :: nat
  assumes "0 < d"
  defines "D \<equiv> 2 ^ d :: int" and "R \<equiv> int (round_shr JS_RNDN x d)"
  shows "2 * \<bar>R * D - int x\<bar> \<le> D" "2 * \<bar>R * D - int x\<bar> = D \<longrightarrow> even R"
    "\<bar>R * D - int x\<bar> \<le> \<bar>int k * D - int x\<bar>" "\<bar>R * D - int x\<bar> = \<bar>int k * D - int x\<bar> \<longrightarrow> int k = R \<or> even R"
proof -
  define q where "q = int (x div 2 ^ d)"
  define r where "r = int (x mod 2 ^ d)"
  obtain c where c: "d = Suc c" using assms(1) by (cases d) auto
  define H where "H = (2 :: int) ^ c"
  have D: "D = 2 * H" "0 < H" by (simp_all add: D_def H_def c)
  have x: "int x = q * D + r"
    using arg_cong [OF div_mult_mod_eq [of x "2 ^ d"], of int] by (simp add: q_def r_def D_def)
  have r: "0 \<le> r" "r < D" using mod_less_divisor [of "2 ^ d" x] unfolding r_def D_def
    by (simp, metis of_nat_less_iff of_nat_numeral of_nat_power zero_less_numeral zero_less_power)
  have rn: "(2 ^ d div 2 < x mod 2 ^ d) \<longleftrightarrow> H < r" "(2 ^ d div 2 = x mod 2 ^ d) \<longleftrightarrow> H = r"
  proof -
    have "(2 :: nat) ^ d div 2 = 2 ^ c" by (simp add: c)
    moreover have "H = int (2 ^ c)" by (simp add: H_def)
    ultimately show "(2 ^ d div 2 < x mod 2 ^ d) \<longleftrightarrow> H < r" "(2 ^ d div 2 = x mod 2 ^ d) \<longleftrightarrow> H = r"
      unfolding r_def by (simp_all only: of_nat_less_iff of_nat_eq_iff)
  qed
  have R: "R = (if H < r \<or> H = r \<and> odd q then q + 1 else q)"
    unfolding R_def round_shr_def Let_def rnd_mode.case rn by (simp add: q_def)
  have d: "R * D - int x = (if H < r \<or> H = r \<and> odd q then D - r else - r)" unfolding R x by (simp add: algebra_simps)
  show two: "2 * \<bar>R * D - int x\<bar> \<le> D" using d r D by auto
  show ev: "2 * \<bar>R * D - int x\<bar> = D \<longrightarrow> even R" using d r D R by auto
  have "int k = R \<or> D \<le> \<bar>int k * D - R * D\<bar>"
  proof (cases "int k = R")
    case False
    then have "1 \<le> \<bar>int k - R\<bar>" by linarith
    then have "1 * D \<le> \<bar>int k - R\<bar> * D" using D by (intro mult_right_mono) simp_all
    also have "\<dots> = \<bar>int k * D - R * D\<bar>" using D by (simp add: abs_mult left_diff_distrib [symmetric])
    finally show ?thesis by simp
  qed simp
  then show "\<bar>R * D - int x\<bar> \<le> \<bar>int k * D - int x\<bar>" "\<bar>R * D - int x\<bar> = \<bar>int k * D - int x\<bar> \<longrightarrow> int k = R \<or> even R"
  proof (atomize (full), elim disjE)
    assume "D \<le> \<bar>int k * D - R * D\<bar>"
    then have t: "D \<le> \<bar>int k * D - int x\<bar> + \<bar>R * D - int x\<bar>" by linarith
    define u where "u = \<bar>R * D - int x\<bar>"
    define v where "v = \<bar>int k * D - int x\<bar>"
    have "D \<le> v + u" "2 * u \<le> D" "2 * u = D \<longrightarrow> even R" using t two ev by (simp_all only: u_def v_def)
    then have "u \<le> v \<and> (u = v \<longrightarrow> int k = R \<or> even R)" by auto
    then show "\<bar>R * D - int x\<bar> \<le> \<bar>int k * D - int x\<bar> \<and>
      (\<bar>R * D - int x\<bar> = \<bar>int k * D - int x\<bar> \<longrightarrow> int k = R \<or> even R)"
      unfolding u_def v_def .
  qed simp
qed

text \<open>A finite double is a multiple of the unit of every binade that it does not lie below.\<close>

lemma f64_mag_multiple:
  assumes "2 ^ (52 + u) \<le> f64_mag y"
  shows "\<exists>k. f64_mag y = k * 2 ^ u"
proof -
  have fr: "f64_frac y < 2 ^ 52" by (simp add: f64_frac_def)
  have "(2 :: nat) ^ 52 \<le> 2 ^ (52 + u)" by (rule power_increasing) simp_all
  then have m: "2 ^ 52 \<le> f64_mag y" using assms by (rule order_trans)
  have F: "f64_field y \<noteq> 0"
  proof
    assume "f64_field y = 0"
    then have "f64_mag y = f64_frac y" by (simp add: f64_mag_def)
    then show False using m fr by linarith
  qed
  have "u \<le> f64_field y - 1"
  proof (rule ccontr)
    assume "\<not> u \<le> f64_field y - 1"
    then have "(2 :: nat) ^ Suc (f64_field y - 1) \<le> 2 ^ u" by (intro power_increasing) simp_all
    then have "(2 :: nat) ^ 52 * 2 ^ Suc (f64_field y - 1) \<le> 2 ^ 52 * 2 ^ u" by (rule mult_le_mono2)
    moreover have "f64_mag y < 2 ^ 53 * 2 ^ (f64_field y - 1)" using fr F by (simp add: f64_mag_def)
    moreover have "(2 :: nat) ^ 53 * 2 ^ (f64_field y - 1) = 2 ^ 52 * 2 ^ Suc (f64_field y - 1)" by simp
    ultimately have "f64_mag y < 2 ^ 52 * 2 ^ u" by (simp only: order_less_le_trans)
    then show False using assms by (simp add: power_add)
  qed
  then have "(2 :: nat) ^ (f64_field y - 1) = 2 ^ (f64_field y - 1 - u) * 2 ^ u" by (simp add: power_add [symmetric])
  then show ?thesis using F by (auto simp: f64_mag_def intro!: exI [of _ "(2 ^ 52 + f64_frac y) * 2 ^ (f64_field y - 1 - u)"])
qed

lemma nearest_mag:
  assumes "2 ^ e \<le> A" "0 < e" "2 ^ 52 \<le> R" "R = round_shr JS_RNDN (A * 2 ^ 52) e"
  defines "U \<equiv> 2 ^ 1022 :: int"
  shows "\<bar>int R * (U * 2 ^ e) - int A * (U * 2 ^ 52)\<bar> \<le> \<bar>int (f64_mag y) - int A * (U * 2 ^ 52)\<bar>"
    "\<bar>int R * (U * 2 ^ e) - int A * (U * 2 ^ 52)\<bar> = \<bar>int (f64_mag y) - int A * (U * 2 ^ 52)\<bar> \<longrightarrow>
      int (f64_mag y) = int R * (U * 2 ^ e) \<or> even R"
proof -
  define D where "D = (2 :: int) ^ e"
  define X where "X = int (A * 2 ^ 52)"
  have U: "0 < U" by (simp add: U_def)
  have D: "0 < D" by (simp add: D_def)
  have XD: "2 ^ 52 * D \<le> X"
  proof -
    have "int (2 ^ e) \<le> int A" using assms(1) by (simp only: of_nat_le_iff)
    then have "2 ^ 52 * int (2 ^ e) \<le> 2 ^ 52 * int A" by (rule mult_left_mono) simp
    then show ?thesis by (simp add: X_def D_def)
  qed
  note rc = round_closest [OF assms(2), of "A * 2 ^ 52", folded D_def X_def assms(4)]
  have e: "int R * (U * 2 ^ e) - int A * (U * 2 ^ 52) = U * (int R * D - X)" by (simp add: D_def X_def algebra_simps)
  have ea: "\<bar>int R * (U * 2 ^ e) - int A * (U * 2 ^ 52)\<bar> = U * \<bar>int R * D - X\<bar>" unfolding e using U by (simp add: abs_mult)
  show "\<bar>int R * (U * 2 ^ e) - int A * (U * 2 ^ 52)\<bar> \<le> \<bar>int (f64_mag y) - int A * (U * 2 ^ 52)\<bar>"
    "\<bar>int R * (U * 2 ^ e) - int A * (U * 2 ^ 52)\<bar> = \<bar>int (f64_mag y) - int A * (U * 2 ^ 52)\<bar> \<longrightarrow>
      int (f64_mag y) = int R * (U * 2 ^ e) \<or> even R"
  proof (atomize (full), cases "2 ^ (52 + (e + 1022)) \<le> f64_mag y")
    case True
    then obtain k where k: "f64_mag y = k * 2 ^ (e + 1022)" using f64_mag_multiple [of "e + 1022" y] by blast
    have m: "int (f64_mag y) = U * (int k * D)" unfolding k U_def D_def by (simp add: power_add)
    have "\<bar>int (f64_mag y) - int A * (U * 2 ^ 52)\<bar> = U * \<bar>int k * D - X\<bar>"
    proof -
      have "int (f64_mag y) - int A * (U * 2 ^ 52) = U * (int k * D - X)" unfolding m by (simp add: X_def algebra_simps)
      then show ?thesis using U by (simp add: abs_mult)
    qed
    moreover have "int (f64_mag y) = int R * (U * 2 ^ e) \<longleftrightarrow> int k = int R" unfolding m using U D by (auto simp: D_def)
    ultimately show "\<bar>int R * (U * 2 ^ e) - int A * (U * 2 ^ 52)\<bar> \<le> \<bar>int (f64_mag y) - int A * (U * 2 ^ 52)\<bar> \<and>
      (\<bar>int R * (U * 2 ^ e) - int A * (U * 2 ^ 52)\<bar> = \<bar>int (f64_mag y) - int A * (U * 2 ^ 52)\<bar> \<longrightarrow>
        int (f64_mag y) = int R * (U * 2 ^ e) \<or> even R)"
      using rc(3,4) [of k] U unfolding ea by (simp add: mult_le_cancel_left)
  next
    case False
    have "int (f64_mag y) < int (2 ^ (52 + (e + 1022)))" using False by (simp only: of_nat_less_iff not_le)
    also have "int (2 ^ (52 + (e + 1022))) = U * (2 ^ 52 * D)" unfolding U_def D_def by (simp add: power_add)
    finally have y: "int (f64_mag y) < U * (2 ^ 52 * D)" .
    have "\<bar>int R * D - X\<bar> \<le> \<bar>int (2 ^ 52) * D - X\<bar>" by (rule rc(3))
    then have "\<bar>int R * D - X\<bar> \<le> X - 2 ^ 52 * D" using XD by simp
    then have "U * \<bar>int R * D - X\<bar> \<le> U * (X - 2 ^ 52 * D)" using U by (intro mult_left_mono) simp_all
    also have "\<dots> = int A * (U * 2 ^ 52) - U * (2 ^ 52 * D)" by (simp add: X_def algebra_simps)
    finally have "U * \<bar>int R * D - X\<bar> < \<bar>int (f64_mag y) - int A * (U * 2 ^ 52)\<bar>" using y by linarith
    then show "\<bar>int R * (U * 2 ^ e) - int A * (U * 2 ^ 52)\<bar> \<le> \<bar>int (f64_mag y) - int A * (U * 2 ^ 52)\<bar> \<and>
      (\<bar>int R * (U * 2 ^ e) - int A * (U * 2 ^ 52)\<bar> = \<bar>int (f64_mag y) - int A * (U * 2 ^ 52)\<bar> \<longrightarrow>
        int (f64_mag y) = int R * (U * 2 ^ e) \<or> even R)"
      unfolding ea by simp
  qed
qed

text \<open>From here on a number rounds to infinity: half a unit above the greatest finite double.\<close>

definition f64_overflow :: nat where "f64_overflow = (2 ^ 54 - 1) * 2 ^ 970"

definition f64_nearest :: "int \<Rightarrow> u64 \<Rightarrow> bool" where
  "f64_nearest v z \<longleftrightarrow> (\<forall>y. f64_finite y \<longrightarrow> \<bar>f64_val z - v\<bar> \<le> \<bar>f64_val y - v\<bar> \<and>
     (\<bar>f64_val z - v\<bar> = \<bar>f64_val y - v\<bar> \<longrightarrow> f64_val y = f64_val z \<or> even (f64_frac z)))"

lemma f64_nearest_exact: "f64_val z = v \<Longrightarrow> f64_nearest v z"
  by (auto simp: f64_nearest_def)

lemma f64_nearestI:
  assumes "2 ^ e \<le> A" "0 < e" "2 ^ 52 \<le> R" "R = round_shr JS_RNDN (A * 2 ^ 52) e" "int A = \<bar>v\<bar>"
    "f64_neg z \<longleftrightarrow> v < 0" "f64_mag z = R * 2 ^ (e + 1022)" "even (f64_frac z) \<longleftrightarrow> even R"
  shows "f64_nearest (v * f64_one) z"
  unfolding f64_nearest_def
proof (intro allI impI)
  fix y
  note n = nearest_mag [OF assms(1-4)]
  define w where "w = int A * (2 ^ 1022 * 2 ^ 52)"
  have mz: "int (f64_mag z) = int R * (2 ^ 1022 * 2 ^ e)" by (simp add: assms(7) power_add)
  have w: "v * f64_one = (if v < 0 then - w else w)" using assms(5) by (simp add: w_def f64_one_def abs_if split: if_splits)
  have w0: "0 \<le> w" by (simp add: w_def)
  have z: "f64_val z = (if v < 0 then - int (f64_mag z) else int (f64_mag z))" by (simp add: f64_val_def assms(6))
  have dz: "\<bar>f64_val z - v * f64_one\<bar> = \<bar>int (f64_mag z) - w\<bar>" unfolding w z by (cases "v < 0") simp_all
  have near: "\<bar>int (f64_mag z) - w\<bar> \<le> \<bar>int (f64_mag u) - w\<bar>"
    "\<bar>int (f64_mag z) - w\<bar> = \<bar>int (f64_mag u) - w\<bar> \<longrightarrow> int (f64_mag u) = int (f64_mag z) \<or> even (f64_frac z)" for u
    using n [of u] unfolding mz w_def assms(8) by simp_all
  show "\<bar>f64_val z - v * f64_one\<bar> \<le> \<bar>f64_val y - v * f64_one\<bar> \<and>
    (\<bar>f64_val z - v * f64_one\<bar> = \<bar>f64_val y - v * f64_one\<bar> \<longrightarrow> f64_val y = f64_val z \<or> even (f64_frac z))"
  proof (cases "f64_neg y = (v < 0)")
    case True
    then have y: "f64_val y = (if v < 0 then - int (f64_mag y) else int (f64_mag y))" by (simp add: f64_val_def)
    have "\<bar>f64_val y - v * f64_one\<bar> = \<bar>int (f64_mag y) - w\<bar>" unfolding w y by (cases "v < 0") simp_all
    then show ?thesis unfolding dz using near [of y] by (auto simp: y z)
  next
    case False
    then have y: "f64_val y = (if v < 0 then int (f64_mag y) else - int (f64_mag y))" by (auto simp: f64_val_def)
    have dy: "\<bar>f64_val y - v * f64_one\<bar> = int (f64_mag y) + w" unfolding w y using w0 by (cases "v < 0") simp_all
    have m0: "f64_mag 0 = 0" by (simp add: f64_mag_def f64_field_def f64_frac_def)
    have "0 < R" using assms(3) by (cases R) simp_all
    then have mz0: "int (f64_mag z) \<noteq> 0" by (simp add: assms(7))
    have "\<bar>int (f64_mag z) - w\<bar> \<le> w" "\<bar>int (f64_mag z) - w\<bar> = w \<longrightarrow> even (f64_frac z)"
      using near [of 0] w0 mz0 by (auto simp: m0)
    then show ?thesis unfolding dz dy by (auto simp: y z)
  qed
qed

lemma overflow_bounds:
  "2 ^ e \<le> A \<Longrightarrow> 1023 < e \<Longrightarrow> f64_overflow \<le> A"
  "A < 2 ^ (e + 1) \<Longrightarrow> e < 1023 \<Longrightarrow> A < f64_overflow"
proof -
  define P where "P = (2 :: nat) ^ 970"
  have V: "f64_overflow = (2 ^ 54 - 1) * P" by (simp add: f64_overflow_def P_def)
  have p: "(2 :: nat) ^ 1024 = 2 ^ 54 * P" "(2 :: nat) ^ 1023 = 2 ^ 53 * P" unfolding P_def by (simp_all only: power_add [symmetric]) simp_all
  show "f64_overflow \<le> A" if "2 ^ e \<le> A" "1023 < e"
  proof -
    have "(2 :: nat) ^ 1024 \<le> 2 ^ e" using that(2) by (intro power_increasing) simp_all
    then show ?thesis using that(1) unfolding p V by simp
  qed
  show "A < f64_overflow" if "A < 2 ^ (e + 1)" "e < 1023"
  proof -
    have "(2 :: nat) ^ (e + 1) \<le> 2 ^ 1023" using that(2) by (intro power_increasing) simp_all
    then show ?thesis using that(1) unfolding p V by simp
  qed
qed

lemma overflow_iff:
  assumes "2 ^ e \<le> A" "e = 1023" "A < 2 ^ (e + 1)"
  shows "round_shr JS_RNDN (A * 2 ^ 52) e = 2 ^ 53 \<longleftrightarrow> f64_overflow \<le> A"
proof -
  define P where "P = (2 :: int) ^ 970"
  define R where "R = round_shr JS_RNDN (A * 2 ^ 52) e"
  have P: "0 < P" by (simp add: P_def)
  have V: "int f64_overflow = (2 ^ 54 - 1) * P" by (simp add: f64_overflow_def P_def)
  have D: "(2 :: int) ^ e = 2 ^ 53 * P" unfolding P_def assms(2) by (simp only: power_add [symmetric]) simp
  have "0 < e" using assms(2) by simp
  note rc = round_closest(1,2) [OF this, of "A * 2 ^ 52", folded R_def, unfolded D]
  have X: "int (A * 2 ^ 52) = 2 ^ 52 * int A" by simp
  define Y where "Y = int R * (2 ^ 53 * P)"
  have r: "2 * \<bar>Y - 2 ^ 52 * int A\<bar> \<le> 2 ^ 53 * P" "2 * \<bar>Y - 2 ^ 52 * int A\<bar> = 2 ^ 53 * P \<longrightarrow> even R"
    using rc unfolding X Y_def by simp_all
  have le: "R \<le> 2 ^ 53" using round_bounds(2) [OF assms(1,3) \<open>0 < e\<close>] by (simp add: R_def)
  have "R = 2 ^ 53 \<longleftrightarrow> (2 ^ 54 - 1) * P \<le> int A"
  proof
    assume "R = 2 ^ 53"
    then have "Y = 2 ^ 53 * (2 ^ 53 * P)" by (simp add: Y_def)
    then show "(2 ^ 54 - 1) * P \<le> int A" using r(1) by simp
  next
    assume A: "(2 ^ 54 - 1) * P \<le> int A"
    show "R = 2 ^ 53"
    proof (rule ccontr)
      assume "R \<noteq> 2 ^ 53"
      then consider "R = 2 ^ 53 - 1" | "R \<le> 2 ^ 53 - 2" using le by linarith
      then show False
      proof cases
        case 1
        then have "int R = 2 ^ 53 - 1" by simp
        then have "Y = (2 ^ 53 - 1) * (2 ^ 53 * P)" by (simp add: Y_def)
        then have "2 * \<bar>Y - 2 ^ 52 * int A\<bar> = 2 ^ 53 * P" using A r(1) by simp
        then show False using r(2) 1 by simp
      next
        case 2
        then have "int R \<le> 2 ^ 53 - 2" by simp
        then have "Y \<le> (2 ^ 53 - 2) * (2 ^ 53 * P)" unfolding Y_def using P by (intro mult_right_mono) simp_all
        then show False using A r(1) P by simp
      qed
    qed
  qed
  then show ?thesis unfolding R_def [symmetric] V [symmetric] of_nat_le_iff .
qed

text \<open>Property C6 (functional): \<^verbatim>\<open>js_bigint_to_float64\<close> rounds to nearest, ties to even: no finite double is
  closer to the number than the result, and if another one is as close then the fraction of the result is
  even. The result has the sign of the number, and is infinite exactly from the number on that lies half
  a unit above the greatest finite double.\<close>

theorem js_bigint_to_float64_nearest:
  assumes "bigint_ok a"
  shows "let z = js_bigint_to_float64 a in
    (f64_neg z \<longleftrightarrow> bval a < 0) \<and> (f64_finite z \<longleftrightarrow> \<bar>bval a\<bar> < int f64_overflow) \<and>
    (if f64_finite z then f64_nearest (bval a * f64_one) z else f64_frac z = 0)"
proof (cases "length a = 1")
  case True
  then obtain x where a: "a = [x]" by (cases a) auto
  have ov: "\<bar>bval a\<bar> < int f64_overflow" using sint_limb_bounds [of x] by (simp add: a f64_overflow_def)
  show ?thesis
  proof (cases "x = 0")
    case True
    then show ?thesis using ov
      by (auto simp: a Let_def js_bigint_to_float64_def double_of_int32_def f64_neg_def f64_finite_def f64_field_def
          f64_frac_def f64_mag_def f64_val_def intro!: f64_nearest_exact)
  next
    case False
    define z where "z = double_of_int32 x"
    obtain e where e: "e \<le> 31" "2 ^ e \<le> nat \<bar>sint x\<bar>" "nat \<bar>sint x\<bar> < 2 ^ (e + 1)"
      "unat z = of_bool (sint x < 0) * 2 ^ 63 + (e + 1022) * 2 ^ 52 + nat \<bar>sint x\<bar> * 2 ^ (52 - e)"
      using double_of_int32_bits [OF False] by (auto simp: z_def)
    have p: "(2 :: nat) ^ 52 = 2 ^ e * 2 ^ (52 - e)" "(2 :: nat) ^ 53 = 2 ^ (e + 1) * 2 ^ (52 - e)"
      using e(1) by (simp_all only: power_add [symmetric]) simp_all
    have r: "2 ^ 52 \<le> nat \<bar>sint x\<bar> * 2 ^ (52 - e)" "nat \<bar>sint x\<bar> * 2 ^ (52 - e) \<le> 2 ^ 53"
      unfolding p using e(2,3) by (simp_all add: less_imp_le del: power_Suc)
    have k: "e + 1022 \<le> 2045" "e + 1022 \<noteq> 2045" using e(1) by simp_all
    note c = carried_fields [OF e(4) r k(1)]
    have "(2 :: nat) ^ (52 - e) * 2 ^ (e + 1022) = 2 ^ 1022 * 2 ^ 52" using e(1) by (simp add: power_add [symmetric])
    then have "f64_mag z = nat \<bar>sint x\<bar> * (2 ^ 1022 * 2 ^ 52)" unfolding c(3) by (simp add: mult.assoc)
    then have "int (f64_mag z) = \<bar>sint x\<bar> * f64_one" by (simp add: f64_one_def)
    then have "f64_val z = sint x * f64_one" unfolding f64_val_def c(1) by (simp add: abs_if)
    then have "f64_nearest (sint x * f64_one) z" by (rule f64_nearest_exact)
    moreover have "js_bigint_to_float64 a = z" by (simp add: a js_bigint_to_float64_def z_def)
    ultimately show ?thesis using c(1,2) k(2) ov by (simp add: Let_def a)
  qed
next
  case False
  define z where "z = js_bigint_to_float64 a"
  define A where "A = nat \<bar>bval a\<bar>"
  have iA: "int A = \<bar>bval a\<bar>" by (simp add: A_def)
  obtain e where e: "0 < e" "2 ^ e \<le> A" "A < 2 ^ (e + 1)" "unat z = f64_bits_of (bval a < 0) A e"
    using to_float64_bits [OF assms False] unfolding A_def z_def by blast
  have goal: "(f64_neg z \<longleftrightarrow> bval a < 0) \<and> (f64_finite z \<longleftrightarrow> A < f64_overflow) \<and>
    (if f64_finite z then f64_nearest (bval a * f64_one) z else f64_frac z = 0)"
  proof (cases "1023 < e")
    case True
    then have u: "unat z = of_bool (bval a < 0) * 2 ^ 63 + 2047 * 2 ^ 52 + 0" using e(4) by (simp add: f64_bits_of_def)
    have "f64_overflow \<le> A" using overflow_bounds(1) [OF e(2)] True by simp
    then show ?thesis using fields_of_unat [OF u] by (simp add: f64_finite_def)
  next
    case False
    define R where "R = round_shr JS_RNDN (A * 2 ^ 52) e"
    have u: "unat z = of_bool (bval a < 0) * 2 ^ 63 + (e + 1022) * 2 ^ 52 + R" using e(4) False by (simp add: f64_bits_of_def R_def)
    note r = round_bounds [OF e(2,3,1), folded R_def]
    have k: "e + 1022 \<le> 2045" using False by simp
    note c = carried_fields [OF u r k]
    have "e + 1022 = 2045 \<and> R = 2 ^ 53 \<longleftrightarrow> f64_overflow \<le> A"
    proof (cases "e = 1023")
      case True
      then show ?thesis using overflow_iff [OF e(2) _ e(3)] by (simp add: R_def)
    next
      case F: False
      then show ?thesis using overflow_bounds(2) [OF e(3)] False by simp
    qed
    then have "f64_finite z \<longleftrightarrow> A < f64_overflow" unfolding c(2) by auto
    moreover have "f64_nearest (bval a * f64_one) z" by (rule f64_nearestI [OF e(2,1) r(1) R_def iA c(1,3,4)])
    moreover have "\<not> f64_finite z \<Longrightarrow> f64_frac z = 0" using c(2,5) by blast
    ultimately show ?thesis using c(1) by simp
  qed
  then show ?thesis unfolding Let_def z_def [symmetric] iA [symmetric] of_nat_less_iff .
qed

theorem js_bigint_to_float64_nearest_witness:
  "let z = js_bigint_to_float64 [1, 0, 2097152] in
    (f64_neg z \<longleftrightarrow> bval [1, 0, 2097152] < 0) \<and> (f64_finite z \<longleftrightarrow> \<bar>bval [1, 0, 2097152]\<bar> < int f64_overflow) \<and>
    (if f64_finite z then f64_nearest (bval [1, 0, 2097152] * f64_one) z else f64_frac z = 0)"
  by (rule js_bigint_to_float64_nearest) (simp add: bigint_ok_def)

end
