(* ===== verification/BigFloatCmp.thy ===== *)
theory BigFloatCmp
  imports BigFloat
begin

unbundle bit_operations_syntax

text \<open>
  Doubles that are converted to big integers and doubles that are compared with them
  (\<open>js_bigint_from_float64\<close>, \<open>js_bigint_float64_cmp\<close> of \<^verbatim>\<open>quickjs/quickjs.c\<close>).
\<close>

section \<open>Conversion to a big integer\<close>

lemma sint_ucast_limb: "- 2147483648 \<le> sint (a :: u64) \<Longrightarrow> sint a \<le> 2147483647 \<Longrightarrow> sint (ucast a :: limb) = sint a"
proof -
  assume r: "- 2147483648 \<le> sint a" "sint a \<le> 2147483647"
  have "sint (ucast a :: limb) = signed_take_bit 31 (sint a)"
    by (simp add: sint_uint unsigned_ucast_eq signed_take_bit_take_bit)
  also have "\<dots> = sint a" using r by (intro signed_take_bit_int_eq_self) simp_all
  finally show ?thesis .
qed

lemma set_si64_value: "bval (js_bigint_set_si64 a) = sint a" "bigint_ok (js_bigint_set_si64 a)" "length (js_bigint_set_si64 a) \<le> 2"
proof -
  have "bval (js_bigint_set_si64 a) = sint a \<and> bigint_ok (js_bigint_set_si64 a) \<and> length (js_bigint_set_si64 a) \<le> 2"
  proof (cases "- 2147483648 \<le> sint a \<and> sint a \<le> 2147483647")
    case True
    then show ?thesis by (simp add: js_bigint_set_si64_def sint_ucast_limb bigint_ok_def)
  next
    case False
    define lo where "lo = (ucast a :: limb)"
    define hi where "hi = (ucast (signed_drop_bit 32 a) :: limb)"
    have r: "- (2 ^ 63) \<le> sint a" "sint a < 2 ^ 63" using sint_range_size [of a] by (simp_all add: word_size)
    have h: "sint (signed_drop_bit 32 a) = sint a div 4294967296" by (simp add: sint_signed_drop_bit_eq drop_bit_eq_div)
    have "- 2147483648 \<le> sint a div 4294967296" "sint a div 4294967296 \<le> 2147483647"
      using zdiv_mono1 [OF r(1), of 4294967296] r(2) by simp_all
    then have hi: "sint hi = sint a div 4294967296" unfolding hi_def h [symmetric] by (rule sint_ucast_limb [unfolded h, folded h])
    have lo: "uint lo = sint a mod 4294967296"
    proof -
      have "take_bit 32 (sint a) = take_bit 32 (uint a)" by (simp add: sint_uint take_bit_signed_take_bit)
      then show ?thesis by (simp add: lo_def unsigned_ucast_eq take_bit_eq_mod)
    qed
    have v: "uint lo + 4294967296 * sint hi = sint a" unfolding lo hi by simp
    have "bigint_ok [lo, hi]"
    proof -
      have lo2: "0 \<le> uint lo" "uint lo < 4294967296" "lo < 2147483648 \<longleftrightarrow> uint lo < 2147483648"
        using uint_bounded [of lo] by (simp_all add: word_less_def)
      have "\<not> (hi = 0 \<and> lo < 2147483648)"
      proof
        assume "hi = 0 \<and> lo < 2147483648"
        then have "uint lo = sint a" "uint lo < 2147483648" using v lo2(3) by simp_all
        then show False using False lo2(1) by linarith
      qed
      moreover have "\<not> (hi = - 1 \<and> \<not> lo < 2147483648)"
      proof
        assume "hi = - 1 \<and> \<not> lo < 2147483648"
        then have "uint lo - 4294967296 = sint a" "\<not> uint lo < 2147483648" using v lo2(3) by simp_all
        then show False using False lo2(2) by linarith
      qed
      ultimately show ?thesis by (auto simp: bigint_ok_def)
    qed
    moreover have "js_bigint_set_si64 a = [lo, hi]"
      unfolding js_bigint_set_si64_def lo_def hi_def using False by (rule if_not_P)
    ultimately show ?thesis using v by simp
  qed
  then show "bval (js_bigint_set_si64 a) = sint a" "bigint_ok (js_bigint_set_si64 a)" "length (js_bigint_set_si64 a) \<le> 2" by simp_all
qed

lemma dvd_two_power: "(2 :: nat) ^ n dvd M * 2 ^ k \<longleftrightarrow> n \<le> k \<or> M mod 2 ^ (n - k) = 0"
proof (cases "n \<le> k")
  case True
  then show ?thesis by (simp add: le_imp_power_dvd dvd_mult)
next
  case False
  then have "n = (n - k) + k" by simp
  then have p: "(2 :: nat) ^ n = 2 ^ (n - k) * 2 ^ k" by (metis power_add)
  show ?thesis unfolding p using False by (simp add: mod_eq_0_iff_dvd)
qed

text \<open>The significand with the leading bit that a normal number does not store.\<close>

lemma significand:
  fixes b :: u64
  defines "mant \<equiv> (b AND (push_bit 52 1 - 1)) OR push_bit 52 1"
  shows "unat mant = 2 ^ 52 + f64_frac b"
proof -
  have "f64_frac b < 2 ^ 52" by (simp add: f64_frac_def)
  moreover have "unat (push_bit 52 1 :: u64) = 2 ^ 52" by (simp add: push_bit_eq_mult)
  ultimately show ?thesis using nat_or_add [of "f64_frac b" 52 1]
    unfolding mant_def unsigned_or_eq f64_fields(2) by (simp add: add.commute)
qed

lemma and_low_bits:
  fixes m :: u64
  assumes "s < 64"
  shows "m AND (push_bit s 1 - 1) \<noteq> 0 \<longleftrightarrow> unat m mod 2 ^ s \<noteq> 0"
proof -
  have "push_bit s 1 - 1 = (mask s :: u64)" by (simp add: mask_eq_exp_minus_1 push_bit_eq_mult)
  then have "m AND (push_bit s 1 - 1) = take_bit s m" by (simp only: take_bit_eq_mask)
  moreover have "take_bit s m = 0 \<longleftrightarrow> unat (take_bit s m) = 0" by (simp only: unat_eq_0)
  moreover have "unat (take_bit s m) = unat m mod 2 ^ s" unfolding unsigned_take_bit_eq by (rule take_bit_eq_mod)
  ultimately show ?thesis by simp
qed

lemma sint_small:
  fixes m :: u64
  assumes "unat m < 2 ^ 53"
  shows "sint m = int (unat m)" "sint (- m) = - int (unat m)"
proof -
  have b: "\<not> bit (uint m) 63"
  proof -
    have "unat m div 2 ^ 63 = 0" using assms by simp
    then have "\<not> bit (unat m) 63" by (simp add: bit_iff_odd)
    then show ?thesis by (simp add: bit_unsigned_iff)
  qed
  have s: "sint m = uint m" using b uint_bounded [of m] by (simp add: take_bit_int_eq_self sint_uint signed_take_bit_eq_take_bit_minus)
  then show "sint m = int (unat m)" by simp
  show "sint (- m) = - int (unat m)"
  proof -
    have "- m = word_of_int (- sint m)" by simp
    then have "sint (- m) = signed_take_bit 63 (- sint m)" using sint_sbintrunc' [of "- sint m", where 'a = 64] by simp
    also have "\<dots> = - sint m"
    proof (rule signed_take_bit_int_eq_self)
      have "int (unat m) < 2 ^ 53" using assms by (simp del: of_nat_unat flip: of_nat_less_numeral_power_cancel_iff)
      then show "- (2 ^ 63) \<le> - sint m" unfolding s by simp
      have "0 \<le> uint m" by simp
      then have "- uint m \<le> 0" by (simp only: neg_le_0_iff_le)
      then show "- sint m < 2 ^ 63" unfolding s by (rule order_le_less_trans) simp
    qed
    finally show ?thesis using s by simp
  qed
qed

definition from_float64_spec :: "(nat \<Rightarrow> bool) \<Rightarrow> u64 \<Rightarrow> nat \<times> bigint_result option \<Rightarrow> bool" where
  "from_float64_spec mok b r \<longleftrightarrow>
     (if \<not> f64_finite b then r = (2, None)
      else if \<not> f64_one dvd f64_val b then r = (1, None)
      else \<exists>z. r = (0, Some z) \<and> bigint_outcome mok 34 (f64_val b div f64_one) z)"

lemma f64_mag_normal: "0 < f64_field b \<Longrightarrow> f64_mag b = (2 ^ 52 + f64_frac b) * 2 ^ (f64_field b - 1)"
  by (simp add: f64_mag_def)

lemma f64_one_nat: "f64_one = int (2 ^ (1022 + 52))"
  unfolding f64_one_def power_add by simp

lemma f64_dvd: "f64_one dvd f64_val b \<longleftrightarrow> 2 ^ (1022 + 52) dvd f64_mag b"
  unfolding f64_val_def f64_one_nat by (cases "f64_neg b") (simp_all only: dvd_minus_iff int_dvd_int_iff if_True if_False)

lemma f64_mag_small:
  assumes "f64_field b < 1023" "f64_mag b \<noteq> 0"
  shows "\<not> 2 ^ (1022 + 52) dvd f64_mag b"
proof -
  have f: "f64_frac b < 2 ^ 52" by (simp add: f64_frac_def)
  have "f64_mag b < 2 ^ 53 * 2 ^ (f64_field b - 1)" using f by (simp add: f64_mag_def)
  also have "\<dots> = 2 ^ (53 + (f64_field b - 1))" by (simp only: power_add)
  also have "\<dots> \<le> 2 ^ (1022 + 52)" using assms(1) by (intro power_increasing) simp_all
  finally have "f64_mag b < 2 ^ (1022 + 52)" .
  then show ?thesis using assms(2) dvd_imp_le [of "2 ^ (1022 + 52)" "f64_mag b"] by (auto simp only: not_less [symmetric])
qed

lemma from_float64_value: "from_float64_spec mok b (js_bigint_from_float64 mok b)"
proof -
  define F where "F = f64_field b"
  define m where "m = f64_frac b"
  have f: "m < 2 ^ 52" by (simp add: m_def f64_frac_def)
  define mant where "mant = (b AND (push_bit 52 1 - 1)) OR push_bit 52 1"
  have um: "unat mant = 2 ^ 52 + m" using significand [of b] by (simp add: mant_def m_def)
  have eF: "uint (drop_bit 52 b AND (push_bit 11 1 - 1)) = int F" unfolding F_def f64_fields(1) [symmetric] by (rule of_nat_unat [symmetric])
  have m0: "b AND (push_bit 52 1 - 1) = 0 \<longleftrightarrow> m = 0" unfolding m_def f64_fields(2) [symmetric] by (simp only: unat_eq_0)
  consider "F = 2047" | "F = 0" "m = 0" | "F < 1023" "F \<noteq> 0 \<or> m \<noteq> 0" | "1023 \<le> F" "F \<noteq> 2047" by linarith
  then show ?thesis
  proof cases
    case 1
    then show ?thesis unfolding js_bigint_from_float64_def Let_def eF by (simp add: from_float64_spec_def f64_finite_def F_def)
  next
    case 2
    then have "f64_val b = 0" by (simp add: f64_val_def f64_mag_def F_def m_def)
    then show ?thesis using 2 new_si_outcome [of 34 mok 0] unfolding js_bigint_from_float64_def Let_def eF m0
      by (simp add: from_float64_spec_def f64_finite_def F_def)
  next
    case 3
    have "f64_mag b \<noteq> 0" using 3 by (auto simp: f64_mag_def F_def m_def)
    then have "\<not> f64_one dvd f64_val b" using f64_mag_small [of b] 3 by (simp add: f64_dvd F_def)
    then show ?thesis using 3 unfolding js_bigint_from_float64_def Let_def eF m0
      by (auto simp: from_float64_spec_def f64_finite_def F_def)
  next
    case 4
    define e where "e = F - 1023"
    have eI: "int F - 1023 = int e" "F - 1 = e + 1022" using 4 by (simp_all add: e_def of_nat_diff)
    have mag: "f64_mag b = unat mant * 2 ^ (e + 1022)" using 4 eI(2) by (simp add: f64_mag_normal F_def um m_def)
    have dv: "f64_one dvd f64_val b \<longleftrightarrow> 52 \<le> e \<or> unat mant mod 2 ^ (52 - e) = 0"
      unfolding f64_dvd mag dvd_two_power by (simp add: add.commute)
    have lt: "unat mant < 2 ^ 53" using um f by simp
    define k where "k = (if e < 52 then 52 - e else 0)"
    define w where "w = (if e < 52 then drop_bit (52 - e) mant else mant)"
    define i where "i = (if e < 52 then 0 else e - 52)"
    have uw: "unat w = unat mant div 2 ^ k" by (simp add: w_def k_def unat_drop_bit)
    have lw: "unat w < 2 ^ 53" using lt div_le_dividend [of "unat mant" "2 ^ k"] unfolding uw by linarith
    define v where "v = (if f64_neg b then - w else w)"
    have sv: "sint v = (if f64_neg b then - int (unat w) else int (unat w))" using sint_small [OF lw] by (simp add: v_def)
    have frac: "int e < 52 \<and> mant AND (push_bit (nat (52 - int e)) 1 - 1) \<noteq> 0 \<longleftrightarrow> \<not> f64_one dvd f64_val b"
    proof (cases "e < 52")
      case True
      have "nat (52 - int e) = 52 - e" by linarith
      then show ?thesis using True and_low_bits [of "52 - e" mant] dv by simp
    qed (use dv in simp)
    have code: "js_bigint_from_float64 mok b =
      (if \<not> f64_one dvd f64_val b then (1, None) else (0, Some (js_bigint_shl mok (js_bigint_set_si64 v) i)))"
    proof -
      have n: "nat (52 - int e) = 52 - e" "nat (int e - 52) = e - 52" by linarith+
      show ?thesis
        using 4 unfolding js_bigint_from_float64_def Let_def eF m0 f64_fields(3) eI(1) mant_def [symmetric] frac
        by (simp add: n v_def w_def i_def)
    qed
    have "bigint_outcome mok 34 (f64_val b div f64_one) (js_bigint_shl mok (js_bigint_set_si64 v) i)" if "f64_one dvd f64_val b"
    proof -
      have sh: "bigint_outcome mok (length (js_bigint_set_si64 v) + i div 32) (sint v * 2 ^ i) (js_bigint_shl mok (js_bigint_set_si64 v) i)"
        using shl_outcome [OF set_si64_value(2)] by (simp add: set_si64_value(1))
      have "F < 2048" by (simp add: F_def f64_field_def)
      then have "e \<le> 1024" unfolding e_def by linarith
      then have "i \<le> 1024" unfolding i_def by (cases "e < 52"; simp only: if_True if_False; linarith)
      then have "i div 32 \<le> 1024 div 32" by (rule div_le_mono)
      then have b34: "length (js_bigint_set_si64 v) + i div 32 \<le> 34" using set_si64_value(3) [of v] by simp
      have "unat mant = unat w * 2 ^ k"
        using that dv unfolding uw by (auto simp: k_def)
      moreover have "k + (e + 1022) = i + (1022 + 52)" by (simp add: k_def i_def)
      ultimately have "f64_mag b = unat w * 2 ^ i * 2 ^ (1022 + 52)"
        unfolding mag by (simp only: mult.assoc power_add [symmetric])
      then have "int (f64_mag b) = int (unat w) * 2 ^ i * f64_one" unfolding f64_one_nat by (simp only: of_nat_mult of_nat_power of_nat_numeral)
      then have "f64_val b = sint v * 2 ^ i * f64_one" unfolding f64_val_def sv by simp
      moreover have "f64_one \<noteq> 0" by (simp add: f64_one_def)
      ultimately have "f64_val b div f64_one = sint v * 2 ^ i" by simp
      then show ?thesis using sh b34 by (auto simp: bigint_outcome_def split: sum.splits)
    qed
    moreover have "f64_finite b" using 4 by (simp add: f64_finite_def F_def)
    ultimately show ?thesis unfolding code from_float64_spec_def by simp
  qed
qed

text \<open>Numbers that fit into the significand are converted exactly.\<close>

lemma to_float64_exact:
  assumes "bigint_ok a" "\<bar>bval a\<bar> < 2 ^ 53"
  shows "f64_val (js_bigint_to_float64 a) = bval a * f64_one" "f64_finite (js_bigint_to_float64 a)"
proof -
  define z where "z = js_bigint_to_float64 a"
  have n: "(f64_neg z \<longleftrightarrow> bval a < 0) \<and> (f64_finite z \<longleftrightarrow> \<bar>bval a\<bar> < int f64_overflow) \<and>
    (if f64_finite z then f64_nearest (bval a * f64_one) z else f64_frac z = 0)"
    using js_bigint_to_float64_nearest [OF assms(1)] unfolding Let_def z_def [symmetric] .
  have "(2 :: nat) ^ 53 \<le> f64_overflow"
  proof -
    have "(2 :: nat) ^ 53 * 1 \<le> (2 ^ 54 - 1) * 2 ^ 970" by (intro mult_le_mono) simp_all
    then show ?thesis by (simp only: f64_overflow_def mult_1_right)
  qed
  then have "int (2 ^ 53) \<le> int f64_overflow" by (simp only: of_nat_le_iff)
  then have fin: "f64_finite z" using n assms(2) by (simp del: of_nat_le_iff)
  then show "f64_finite (js_bigint_to_float64 a)" by (simp add: z_def)
  have near: "\<bar>f64_val z - bval a * f64_one\<bar> \<le> \<bar>f64_val y - bval a * f64_one\<bar>" if "f64_finite y" for y
    using n fin that by (simp add: f64_nearest_def)
  define A where "A = nat \<bar>bval a\<bar>"
  have "\<exists>y. f64_finite y \<and> f64_val y = bval a * f64_one"
  proof (cases "A = 0")
    case True
    then have "f64_finite 0 \<and> f64_val 0 = bval a * f64_one"
      by (simp add: A_def f64_finite_def f64_val_def f64_mag_def f64_field_def f64_frac_def)
    then show ?thesis ..
  next
    case False
    then obtain e where e: "2 ^ e \<le> A" "A < 2 ^ (e + 1)" using ex_power_ivl1 [of 2 A] by auto
    have "A < 2 ^ 53" using assms(2) by (simp add: A_def nat_less_iff)
    then have "(2 :: nat) ^ e < 2 ^ 53" using e(1) by linarith
    then have "e < 53" by (simp only: power_strict_increasing_iff)
    then have e52: "e \<le> 52" by simp
    have p: "(2 :: nat) ^ 52 = 2 ^ e * 2 ^ (52 - e)" "(2 :: nat) ^ 53 = 2 ^ (e + 1) * 2 ^ (52 - e)"
      using e52 by (simp_all only: power_add [symmetric]) simp_all
    have r: "2 ^ 52 \<le> A * 2 ^ (52 - e)" "A * 2 ^ (52 - e) \<le> 2 ^ 53"
      unfolding p using e by (simp_all add: less_imp_le del: power_Suc)
    define w where "w = of_bool (bval a < 0) * 2 ^ 63 + (e + 1022) * 2 ^ 52 + A * 2 ^ (52 - e)"
    have "(e + 1022) * 2 ^ 52 \<le> 1074 * 2 ^ 52" using e52 by (intro mult_right_mono) simp_all
    moreover have "(of_bool (bval a < 0) :: nat) * 2 ^ 63 \<le> 1 * 2 ^ 63" by (intro mult_right_mono) simp_all
    ultimately have "w < 2 ^ LENGTH(64)" using r(2) by (simp add: w_def)
    then have u: "unat (of_nat w :: u64) = of_bool (bval a < 0) * 2 ^ 63 + (e + 1022) * 2 ^ 52 + A * 2 ^ (52 - e)"
      unfolding w_def [symmetric] by (simp add: unat_of_nat)
    have k: "e + 1022 \<le> 2045" "e + 1022 \<noteq> 2045" using e52 by simp_all
    note c = carried_fields [OF u r k(1)]
    have "(52 - e) + (e + 1022) = 1022 + 52" using e52 by simp
    then have "f64_mag (of_nat w) = A * 2 ^ (1022 + 52)" unfolding c(3) mult.assoc power_add [symmetric] by simp
    then have "int (f64_mag (of_nat w)) = \<bar>bval a\<bar> * f64_one" unfolding f64_one_nat by (simp add: A_def)
    then have "f64_val (of_nat w) = bval a * f64_one" unfolding f64_val_def c(1) by (simp add: abs_if)
    moreover have "f64_finite (of_nat w)" using c(2) k(2) by simp
    ultimately show ?thesis by blast
  qed
  then show "f64_val (js_bigint_to_float64 a) = bval a * f64_one" using near unfolding z_def [symmetric] by fastforce
qed

lemma from_to_float64:
  assumes "bigint_ok a" "\<bar>bval a\<bar> < 2 ^ 53" "\<forall>k. mok k"
  shows "js_bigint_from_float64 mok (js_bigint_to_float64 a) = (0, Some (Inr a))"
proof -
  note e = to_float64_exact [OF assms(1,2)]
  have "f64_one \<noteq> 0" by (simp add: f64_one_def)
  then obtain z where z: "js_bigint_from_float64 mok (js_bigint_to_float64 a) = (0, Some z)" "bigint_outcome mok 34 (bval a) z"
    using from_float64_value [of mok "js_bigint_to_float64 a"] e unfolding from_float64_spec_def by auto
  then obtain x where "z = Inr x" "bval x = bval a" "bigint_ok x"
    using assms(3) by (auto simp: bigint_outcome_def JS_BIGINT_MAX_SIZE_def split: sum.splits)
  then show ?thesis using z(1) bval_inject [of x a] assms(1) by simp
qed

section \<open>Comparison\<close>

lemma sticky_compare:
  assumes "even n"
  shows "sticky x d < n \<longleftrightarrow> x < n * 2 ^ d" "n < sticky x d \<longleftrightarrow> n * 2 ^ d < x"
proof -
  define q where "q = x div 2 ^ d"
  define r where "r = x mod 2 ^ d"
  define D where "D = (2 :: nat) ^ d"
  have x: "x = q * D + r" "r < D" unfolding q_def r_def D_def by (rule div_mult_mod_eq [symmetric]) simp
  have s: "sticky x d = (if r \<noteq> 0 \<and> even q then q + 1 else q)" by (simp add: sticky_cases q_def r_def)
  consider "q < n" | "q = n" | "n < q" by linarith
  then have "(sticky x d < n \<longleftrightarrow> x < n * D) \<and> (n < sticky x d \<longleftrightarrow> n * D < x)"
  proof cases
    case 1
    then have "(q + 1) * D \<le> n * D" by (intro mult_le_mono1) simp
    then have "x < n * D" using x by simp
    moreover have "even q \<Longrightarrow> q + 1 < n" using assms 1 by presburger
    then have "sticky x d < n" using 1 by (simp add: s)
    ultimately show ?thesis by simp
  next
    case 3
    then have "(n + 1) * D \<le> q * D" by (intro mult_le_mono1) simp
    then have "n * D + D \<le> q * D" by simp
    moreover have "0 < D" by (simp add: D_def)
    ultimately have "n * D < x" using x(1) by linarith
    then show ?thesis using 3 s by auto
  qed (use x s assms in auto)
  then show "sticky x d < n \<longleftrightarrow> x < n * 2 ^ d" "n < sticky x d \<longleftrightarrow> n * 2 ^ d < x" by (simp_all add: D_def)
qed

text \<open>Two numbers have the same exponent of 2; the second is in multiples of \<open>f64_one\<close>.\<close>

definition same_exponent :: "int \<Rightarrow> int \<Rightarrow> bool" where
  "same_exponent v w \<longleftrightarrow> (\<exists>k. 2 ^ k \<le> \<bar>v\<bar> \<and> \<bar>v\<bar> < 2 ^ (k + 1) \<and> 2 ^ k * f64_one \<le> \<bar>w\<bar> \<and> \<bar>w\<bar> < 2 ^ (k + 1) * f64_one)"

text \<open>The magnitude of a double lies between two powers of 2.\<close>

lemma f64_mag_range:
  assumes "f64_field b \<noteq> 0"
  shows "2 ^ (f64_field b + 51) \<le> f64_mag b" "f64_mag b < 2 ^ (f64_field b + 52)"
proof -
  have fr: "f64_frac b < 2 ^ 52" by (simp add: f64_frac_def)
  have p: "(2 :: nat) ^ (f64_field b + 51) = 2 ^ 52 * 2 ^ (f64_field b - 1)" "(2 :: nat) ^ (f64_field b + 52) = 2 ^ 53 * 2 ^ (f64_field b - 1)"
    using assms by (simp_all only: power_add [symmetric]) simp_all
  have m: "f64_mag b = (2 ^ 52 + f64_frac b) * 2 ^ (f64_field b - 1)" using assms by (simp add: f64_mag_def)
  show "2 ^ (f64_field b + 51) \<le> f64_mag b" unfolding p m by (intro mult_le_mono1) simp
  show "f64_mag b < 2 ^ (f64_field b + 52)" unfolding p m using fr by (intro mult_strict_right_mono) simp_all
qed

lemma f64_mag_denormal: "f64_field b = 0 \<Longrightarrow> f64_mag b < 2 ^ 52"
  by (simp add: f64_mag_def f64_frac_def)

lemma compare_magnitude:
  assumes "bigint_ok a" "bval a \<noteq> 0" "js_bigint_get_mant_exp a = (am, f)" "f64_mag b \<noteq> 0"
  defines "A \<equiv> nat \<bar>bval a\<bar>" and "e \<equiv> int (f64_field b) - 1023"
    and "bm \<equiv> push_bit 11 ((b AND (push_bit 52 1 - 1)) OR push_bit 52 1)"
  shows "f < e \<Longrightarrow> A * 2 ^ (1022 + 52) < f64_mag b" "e < f \<Longrightarrow> f64_mag b < A * 2 ^ (1022 + 52)"
    "f = e \<Longrightarrow> am < bm \<longleftrightarrow> A * 2 ^ (1022 + 52) < f64_mag b" "f = e \<Longrightarrow> bm < am \<longleftrightarrow> f64_mag b < A * 2 ^ (1022 + 52)"
    "f = e \<longleftrightarrow> (\<exists>k. 2 ^ k \<le> A \<and> A < 2 ^ (k + 1) \<and> 2 ^ k * 2 ^ (1022 + 52) \<le> f64_mag b \<and> f64_mag b < 2 ^ (k + 1) * 2 ^ (1022 + 52))"
proof -
  define F where "F = f64_field b"
  define m where "m = f64_mag b"
  define k where "k = nat f"
  note v = get_mant_exp_value [OF assms(1-3), folded A_def]
  have k: "f = int k" "2 ^ k \<le> A" "A < 2 ^ (k + 1)" using v(1-3) by (simp_all add: k_def)
  have lo: "2 ^ (k + (1022 + 52)) \<le> A * 2 ^ (1022 + 52)" unfolding power_add [of 2 k] using k(2) by (rule mult_le_mono1)
  have hi: "A * 2 ^ (1022 + 52) < 2 ^ (k + 1 + (1022 + 52))" unfolding power_add [of 2 "k + 1"]
    using k(3) by (intro mult_strict_right_mono) simp_all
  have small: "m < 2 ^ (F + 52)"
  proof (cases "F = 0")
    case True
    then show ?thesis using f64_mag_denormal [of b] by (simp add: m_def F_def)
  qed (use f64_mag_range(2) [of b] in \<open>simp add: m_def F_def\<close>)
  have below: "2 ^ (k + 1 + (1022 + 52)) \<le> m" if "f < e"
  proof -
    have "k + 1024 \<le> F" using that by (simp add: e_def F_def k(1))
    then have "(2 :: nat) ^ (k + 1 + (1022 + 52)) \<le> 2 ^ (F + 51)" by (intro power_increasing) simp_all
    also have "\<dots> \<le> m" using f64_mag_range(1) [of b] \<open>k + 1024 \<le> F\<close> by (simp add: F_def m_def)
    finally show ?thesis .
  qed
  have above: "m < 2 ^ (k + (1022 + 52))" if "e < f"
  proof -
    have "F + 52 \<le> k + (1022 + 52)" using that by (simp add: e_def F_def k(1))
    then have "(2 :: nat) ^ (F + 52) \<le> 2 ^ (k + (1022 + 52))" by (intro power_increasing) simp_all
    then show ?thesis using small by (rule order_less_le_trans [rotated])
  qed
  show "f < e \<Longrightarrow> A * 2 ^ (1022 + 52) < f64_mag b" using below hi unfolding m_def by (blast intro: order_less_le_trans)
  show "e < f \<Longrightarrow> f64_mag b < A * 2 ^ (1022 + 52)" using above lo unfolding m_def by (blast intro: order_less_le_trans)
  have eq: "(am < bm \<longleftrightarrow> A * 2 ^ (1022 + 52) < m) \<and> (bm < am \<longleftrightarrow> m < A * 2 ^ (1022 + 52)) \<and> F = k + 1023" if "f = e"
  proof -
    have F: "F = k + 1023" using that by (simp add: e_def F_def k(1))
    define M where "M = 2 ^ 52 + f64_frac b"
    have M: "M < 2 ^ 53" by (simp add: M_def f64_frac_def)
    have ubm: "unat bm = M * 2 ^ 11" unfolding bm_def unat_push_bit significand M_def [symmetric] using M by simp
    have mag: "m = M * 2 ^ (k + 1022)" using F by (simp add: m_def f64_mag_def F_def M_def)
    have st: "unat am = sticky (A * 2 ^ 63) k" using v(4) by (simp add: k_def)
    have ev: "even (M * 2 ^ 11)" by simp
    define U where "U = (2 :: nat) ^ 1022"
    define N where "N = M * 2 ^ k"
    have U: "0 < U" by (simp add: U_def)
    have one: "A * 2 ^ (1022 + 52) = A * 2 ^ 52 * U" "m = N * U" unfolding mag U_def N_def power_add by (simp_all only: ac_simps)
    have c: "A * 2 ^ 63 < M * 2 ^ 11 * 2 ^ k \<longleftrightarrow> A * 2 ^ 52 < N" "M * 2 ^ 11 * 2 ^ k < A * 2 ^ 63 \<longleftrightarrow> N < A * 2 ^ 52"
      unfolding N_def by (simp_all add: mult.commute mult.left_commute)
    have "am < bm \<longleftrightarrow> A * 2 ^ 63 < M * 2 ^ 11 * 2 ^ k" "bm < am \<longleftrightarrow> M * 2 ^ 11 * 2 ^ k < A * 2 ^ 63"
      unfolding word_less_nat_alt ubm st by (rule sticky_compare [OF ev])+
    then show ?thesis unfolding one c using U F by simp
  qed
  show "f = e \<Longrightarrow> am < bm \<longleftrightarrow> A * 2 ^ (1022 + 52) < f64_mag b" "f = e \<Longrightarrow> bm < am \<longleftrightarrow> f64_mag b < A * 2 ^ (1022 + 52)"
    using eq by (simp_all only: m_def)
  show "f = e \<longleftrightarrow> (\<exists>k. 2 ^ k \<le> A \<and> A < 2 ^ (k + 1) \<and> 2 ^ k * 2 ^ (1022 + 52) \<le> f64_mag b \<and> f64_mag b < 2 ^ (k + 1) * 2 ^ (1022 + 52))"
  proof
    assume fe: "f = e"
    then have F: "F = k + 1023" using eq by blast
    have "2 ^ (k + (1022 + 52)) \<le> m" "m < 2 ^ (k + 1 + (1022 + 52))"
      using f64_mag_range [of b] F unfolding F_def [symmetric] m_def [symmetric] by (simp_all add: ac_simps)
    then have "2 ^ k \<le> A \<and> A < 2 ^ (k + 1) \<and> 2 ^ k * 2 ^ (1022 + 52) \<le> f64_mag b \<and> f64_mag b < 2 ^ (k + 1) * 2 ^ (1022 + 52)"
      using k(2,3) unfolding m_def power_add [of _ _ "1022 + 52"] by blast
    then show "\<exists>k. 2 ^ k \<le> A \<and> A < 2 ^ (k + 1) \<and> 2 ^ k * 2 ^ (1022 + 52) \<le> f64_mag b \<and> f64_mag b < 2 ^ (k + 1) * 2 ^ (1022 + 52)" ..
  next
    assume "\<exists>k. 2 ^ k \<le> A \<and> A < 2 ^ (k + 1) \<and> 2 ^ k * 2 ^ (1022 + 52) \<le> f64_mag b \<and> f64_mag b < 2 ^ (k + 1) * 2 ^ (1022 + 52)"
    then obtain j where j: "2 ^ j \<le> A" "A < 2 ^ (j + 1)" "2 ^ (j + (1022 + 52)) \<le> m" "m < 2 ^ (j + 1 + (1022 + 52))"
      unfolding m_def power_add [of _ _ "1022 + 52"] by blast
    have "(2 :: nat) ^ j < 2 ^ (k + 1)" "(2 :: nat) ^ k < 2 ^ (j + 1)" using j(1,2) k(2,3) by linarith+
    then have "j < k + 1" "k < j + 1" by (simp_all only: power_strict_increasing_iff)
    then have "j = k" by simp
    then show "f = e" using below above j(3,4) by (metis linorder_neqE_linordered_idom not_less)
  qed
qed

lemma same_exponent_nat:
  "same_exponent v (f64_val b) \<longleftrightarrow> (\<exists>k. 2 ^ k \<le> nat \<bar>v\<bar> \<and> nat \<bar>v\<bar> < 2 ^ (k + 1) \<and>
    2 ^ k * 2 ^ (1022 + 52) \<le> f64_mag b \<and> f64_mag b < 2 ^ (k + 1) * 2 ^ (1022 + 52))"
proof -
  have v: "int (2 ^ k) \<le> \<bar>v\<bar> \<longleftrightarrow> 2 ^ k \<le> nat \<bar>v\<bar>" "\<bar>v\<bar> < int (2 ^ k) \<longleftrightarrow> nat \<bar>v\<bar> < 2 ^ k" for k
    by (simp_all add: le_nat_iff nat_less_iff)
  have m: "\<bar>f64_val b\<bar> = int (f64_mag b)" by (simp add: f64_val_def)
  have o: "(2 :: int) ^ k * f64_one = int (2 ^ k * 2 ^ (1022 + 52))" for k unfolding f64_one_nat by simp
  have p: "(2 :: int) ^ k = int (2 ^ k)" for k by simp
  show ?thesis unfolding same_exponent_def unfolding o m of_nat_le_iff of_nat_less_iff unfolding p v ..
qed

lemma float64_cmp_value:
  assumes "bigint_ok a"
  shows "js_bigint_float64_cmp a b =
    (if f64_finite b then
       let d = sgn (bval a * f64_one - f64_val b)
       in if bval a < 0 \<and> f64_val b < 0 \<and> \<not> same_exponent (bval a) (f64_val b) then - d else d
     else if f64_frac b \<noteq> 0 then 2 else if f64_neg b then 1 else - 1)"
proof -
  define F where "F = f64_field b"
  define m where "m = f64_frac b"
  have ne: "a \<noteq> []" using assms by (simp add: bigint_ok_def)
  have eF: "uint (drop_bit 52 b AND (push_bit 11 1 - 1)) = int F" unfolding F_def f64_fields(1) [symmetric] by (rule of_nat_unat [symmetric])
  have m0: "b AND (push_bit 52 1 - 1) = 0 \<longleftrightarrow> m = 0" unfolding m_def f64_fields(2) [symmetric] by (simp only: unat_eq_0)
  have bs: "uint (drop_bit 63 b) = (if f64_neg b then 1 else 0)" by (simp add: f64_fields(3))
  have as: "uint (js_bigint_sign a) = (if bval a < 0 then 1 else 0)"
    using bval_sign [OF ne] js_bigint_sign_01 [of a] by auto
  have az: "length a = 1 \<and> a ! 0 = 0 \<longleftrightarrow> bval a = 0"
    using bigint_zero [OF assms] single_limb [of a] by (metis bval.simps(2) signed_0)
  have one: "0 < f64_one" by (simp add: f64_one_def)
  have mag0: "f64_mag b = 0 \<longleftrightarrow> F = 0 \<and> m = 0" by (simp add: f64_mag_def F_def m_def)
  note code = js_bigint_float64_cmp_def [of a b, unfolded Let_def eF m0 bs as az]
  consider "F = 2047" | "F \<noteq> 2047" "f64_mag b = 0" | "F \<noteq> 2047" "f64_mag b \<noteq> 0" "bval a = 0"
    | "F \<noteq> 2047" "f64_mag b \<noteq> 0" "bval a \<noteq> 0" "bval a < 0 \<longleftrightarrow> \<not> f64_neg b"
    | "F \<noteq> 2047" "f64_mag b \<noteq> 0" "bval a \<noteq> 0" "bval a < 0 \<longleftrightarrow> f64_neg b" by blast
  then show ?thesis
  proof cases
    case 1
    then show ?thesis unfolding code by (simp add: f64_finite_def F_def m_def)
  next
    case 2
    then have "sgn (bval a * f64_one - f64_val b) = sgn (bval a)" "f64_val b = 0" using one by (simp_all add: f64_val_def sgn_mult)
    then show ?thesis using 2 unfolding code by (auto simp: f64_finite_def F_def [symmetric] mag0 sgn_if)
  next
    case 3
    then show ?thesis unfolding code using mag0 by (auto simp: f64_finite_def F_def [symmetric] f64_val_def)
  next
    case 4
    have "sgn (bval a * f64_one - f64_val b) = (if bval a < 0 then - 1 else 1)"
    proof (cases "bval a < 0")
      case True
      then have "bval a * f64_one < 0" using one by (simp add: mult_less_0_iff)
      then show ?thesis using True 4 by (simp add: f64_val_def)
    next
      case False
      then have "0 < bval a * f64_one" using one 4(3) by simp
      then show ?thesis using False 4 by (simp add: f64_val_def)
    qed
    moreover have "\<not> (bval a < 0 \<and> f64_val b < 0)" using 4 by (auto simp: f64_val_def)
    ultimately show ?thesis using 4 mag0 unfolding code by (auto simp: f64_finite_def F_def [symmetric])
  next
    case 5
    obtain am f where me: "js_bigint_get_mant_exp a = (am, f)" by fastforce
    define A where "A = nat \<bar>bval a\<bar>"
    define P where "P = A * 2 ^ (1022 + 52)"
    define bm where "bm = push_bit 11 ((b AND (push_bit 52 1 - 1)) OR push_bit 52 1)"
    define e where "e = int F - 1023"
    note c = compare_magnitude [OF assms 5(3) me 5(2), folded A_def, folded P_def bm_def F_def, folded e_def]
    have iP: "int P = \<bar>bval a\<bar> * f64_one" unfolding P_def f64_one_nat A_def by simp
    have d: "sgn (bval a * f64_one - f64_val b) =
      (if bval a < 0 then sgn (int (f64_mag b) - int P) else sgn (int P - int (f64_mag b)))"
      unfolding iP f64_val_def using 5(4) by (auto simp: algebra_simps)
    have se: "same_exponent (bval a) (f64_val b) \<longleftrightarrow> f = e"
      unfolding same_exponent_nat A_def [symmetric] c(5) ..
    have bneg: "f64_val b < 0 \<longleftrightarrow> bval a < 0" using 5 by (auto simp: f64_val_def)
    have r: "js_bigint_float64_cmp a b =
      (if f \<noteq> e then if f < e then - 1 else 1
       else if am < bm then 2 * (if bval a < 0 then 1 else 0) - 1
       else if bm < am then 1 - 2 * (if bval a < 0 then 1 else 0) else 0)"
      using 5 mag0 unfolding code me prod.case e_def [symmetric] bm_def [symmetric] by auto
    have fin: "f64_finite b" using 5 by (simp add: f64_finite_def F_def)
    consider "f < e" | "e < f" | "f = e" by linarith
    then show ?thesis
    proof cases
      case 1
      then show ?thesis using c(1) fin unfolding r d se bneg by (simp add: Let_def)
    next
      case 2
      then show ?thesis using c(2) fin unfolding r d se bneg by (simp add: Let_def)
    next
      case 3
      then show ?thesis using c(3,4) fin unfolding r d se bneg by (auto simp: Let_def sgn_if)
    qed
  qed
qed

section \<open>Properties\<close>

text \<open>Property C26 (roundtrip): where allocations are granted, a number of less than 54 bits comes back unchanged
  from its double. For every double, and whatever is granted, \<^verbatim>\<open>js_bigint_from_float64\<close> tells an
  infinity or a NaN, a finite value that is not an integer, and an integer apart, and returns the
  integer exactly or, for want of memory, throws.\<close>

theorem js_bigint_float64_roundtrip:
  assumes "bigint_ok a" "\<bar>bval a\<bar> < 2 ^ 53" "\<forall>k. mok k"
  shows "js_bigint_from_float64 mok (js_bigint_to_float64 a) = (0, Some (Inr a)) \<and>
    from_float64_spec mok' b (js_bigint_from_float64 mok' b)"
  using from_to_float64 [OF assms] from_float64_value by blast

theorem js_bigint_float64_roundtrip_witness:
  "js_bigint_from_float64 (\<lambda>_. True) (js_bigint_to_float64 [7, - 2]) = (0, Some (Inr [7, - 2])) \<and>
    from_float64_spec (\<lambda>_. True) 0x4004000000000000 (js_bigint_from_float64 (\<lambda>_. True) 0x4004000000000000)"
  by (rule js_bigint_float64_roundtrip) (simp_all add: bigint_ok_def)

text \<open>Property C24 (functional): the comparison of a number with a double is the comparison of their values,
  with \<open>2\<close> for a NaN, except between a negative number and a negative double of different exponents: there
  the code returns the opposite of the order.\<close>

theorem js_bigint_float64_cmp_order:
  assumes "bigint_ok a"
  shows "js_bigint_float64_cmp a b =
    (if f64_finite b then
       let d = sgn (bval a * f64_one - f64_val b)
       in if bval a < 0 \<and> f64_val b < 0 \<and> \<not> same_exponent (bval a) (f64_val b) then - d else d
     else if f64_frac b \<noteq> 0 then 2 else if f64_neg b then 1 else - 1)"
  by (rule float64_cmp_value [OF assms])

theorem js_bigint_float64_cmp_order_witness:
  "js_bigint_float64_cmp [5] 0x4014000000000000 =
    (if f64_finite 0x4014000000000000 then
       let d = sgn (bval [5] * f64_one - f64_val 0x4014000000000000)
       in if bval [5] < 0 \<and> f64_val 0x4014000000000000 < 0 \<and> \<not> same_exponent (bval [5]) (f64_val 0x4014000000000000)
          then - d else d
     else if f64_frac 0x4014000000000000 \<noteq> 0 then 2 else if f64_neg 0x4014000000000000 then 1 else - 1)"
  by (rule js_bigint_float64_cmp_order) (simp add: bigint_ok_def)

text \<open>So \<open>-2n < -4.5\<close> is true in the engine: the bit pattern is that of \<open>-4.5\<close>.\<close>

lemma float64_cmp_negative:
  "js_bigint_float64_cmp [- 2] 0xC012000000000000 = - 1 \<and> f64_val 0xC012000000000000 < bval [- 2] * f64_one"
proof -
  have b: "f64_field 0xC012000000000000 = 1025" "f64_frac 0xC012000000000000 = 2 ^ 49" "f64_neg 0xC012000000000000"
    by (simp_all add: f64_field_def f64_frac_def f64_neg_def bit_iff_odd)
  define P where "P = (2 :: int) ^ 1022"
  have "(2 :: int) ^ 1024 = 4 * P" unfolding P_def by (simp add: power_add [symmetric])
  then have "int (f64_mag 0xC012000000000000) = (2 ^ 52 + 2 ^ 49) * (4 * P)" unfolding f64_mag_def b by simp
  moreover have "0 < P" "f64_one = P * 2 ^ 52" by (simp_all add: P_def f64_one_def)
  ultimately have v: "2 * f64_val 0xC012000000000000 = - 9 * f64_one" "0 < f64_one" using b(3) by (simp_all add: f64_val_def)
  then have less: "f64_val 0xC012000000000000 < bval [- 2] * f64_one" by simp
  have "\<not> same_exponent (bval [- 2]) (f64_val 0xC012000000000000)"
  proof
    assume "same_exponent (bval [- 2]) (f64_val 0xC012000000000000)"
    then obtain k where k: "(2 :: int) ^ k \<le> 2" "\<bar>f64_val 0xC012000000000000\<bar> < 2 ^ (k + 1) * f64_one"
      by (auto simp: same_exponent_def)
    have "2 ^ (k + 1) * f64_one \<le> 4 * f64_one" using k(1) v(2) by (intro mult_right_mono) simp_all
    then show False using k(2) v by linarith
  qed
  moreover have "f64_finite 0xC012000000000000" by (simp add: f64_finite_def b)
  moreover have "bigint_ok [- 2]" by (simp add: bigint_ok_def)
  moreover have "f64_val 0xC012000000000000 < 0" using v by linarith
  ultimately have "js_bigint_float64_cmp [- 2] 0xC012000000000000 = - 1"
    using less float64_cmp_value [of "[- 2]" "0xC012000000000000"] by simp
  then show ?thesis using less by blast
qed

end
