(* ===== verification/BigStr.thy ===== *)
theory BigStr
  imports BigIntOps Itoa CString
begin

text \<open>
  The text of big integers (\<^verbatim>\<open>quickjs/quickjs.c\<close>, \<open>js_bigint_from_string\<close> and
  \<open>js_bigint_to_string1\<close>). A text that is read is a block of memory with a NUL, and \<open>None\<close> an access
  outside a block. The number that is read has room for \<open>n_limbs\<close> limbs; the list holds those in
  use. A text that is written grows from the end of its buffer downwards: the pair of the room left
  and the text so far stands for the pointer \<open>q\<close>. The host grants the buffer of a text with \<open>aok\<close> and
  the string object with \<open>sok\<close>.
\<close>

section \<open>The code\<close>

definition js_to_digit :: "u8 \<Rightarrow> nat" where
  "js_to_digit c =
     (if 48 \<le> c \<and> c \<le> 57 then unat c - 48
      else if 65 \<le> c \<and> c \<le> 90 then unat c - 65 + 10
      else if 97 \<le> c \<and> c \<le> 122 then unat c - 97 + 10
      else 36)"

definition js_pow_dec :: "limb list" where
  "js_pow_dec = [1, 10, 100, 1000, 10000, 100000, 1000000, 10000000, 100000000, 1000000000]"

fun skip_zeros :: "u8 list \<Rightarrow> u8 list option" where
  "skip_zeros [] = None"
| "skip_zeros (c # p) = (if c = 48 then skip_zeros p else Some (c # p))"

text \<open>At most \<open>room\<close> decimal digits: their value, how many, and the rest of the text.\<close>

fun read_chunk :: "nat \<Rightarrow> u8 list \<Rightarrow> limb \<Rightarrow> nat \<Rightarrow> (limb \<times> nat \<times> u8 list) option" where
  "read_chunk 0 p v i = Some (v, i, p)"
| "read_chunk (Suc room) [] v i = None"
| "read_chunk (Suc room) (ch # p) v i =
     (let c = js_to_digit ch in
      if c \<ge> 10 then Some (v, i, ch # p) else read_chunk room p (v * 10 + of_nat c) (i + 1))"

definition push_limb :: "nat \<Rightarrow> limb list \<Rightarrow> limb \<Rightarrow> limb list option" where
  "push_limb n_limbs tab h = (if length tab < n_limbs then Some (tab @ [h]) else None)"

lemma read_chunk_length: "read_chunk room p v i = Some (v', i', p') \<Longrightarrow> length p' + i' = length p + i"
  by (induction room p v i rule: read_chunk.induct) (auto simp: Let_def split: if_splits)

function dec_loop :: "nat \<Rightarrow> u8 list \<Rightarrow> limb list \<Rightarrow> limb list option" where
  "dec_loop n_limbs p tab =
     (case read_chunk 9 p 0 0 of None \<Rightarrow> None
      | Some (v, i, p) \<Rightarrow>
        if i = 0 then Some tab
        else
          let res = (if length tab = 1 \<and> tab ! 0 = 0 then Some [v]
                      else let (t, h) = js_mp_mul1 tab (js_pow_dec ! i) v
                           in if h \<noteq> 0 then push_limb n_limbs t h else Some t)
          in case res of None \<Rightarrow> None | Some tab \<Rightarrow> dec_loop n_limbs p tab)"
  by pat_completeness auto
termination
  by (relation "measure (\<lambda>(n, p, tab). length p)") (auto dest: read_chunk_length)

declare dec_loop.simps [simp del]

text \<open>Radix a power of two: the digits from the last one on; \<open>i\<close> of them have been read.\<close>

fun bin_loop :: "nat \<Rightarrow> nat \<Rightarrow> u8 list \<Rightarrow> nat \<Rightarrow> limb list \<Rightarrow> limb list option" where
  "bin_loop radix log2_radix [] i tab = Some tab"
| "bin_loop radix log2_radix (ch # chs) i tab =
     (let c = js_to_digit ch; bit_pos = i * log2_radix; shift = bit_pos mod 32; pos = bit_pos div 32
      in if c \<ge> radix then None
         else do {
           t \<leftarrow> rd tab pos;
           tab \<leftarrow> wr tab pos (t OR push_bit shift (of_nat c));
           tab \<leftarrow> (if shift + log2_radix > 32 then do {
               t \<leftarrow> rd tab (pos + 1);
               wr tab (pos + 1) (t OR drop_bit (32 - shift) (of_nat c)) }
             else Some tab);
           bin_loop radix log2_radix chs (i + 1) tab })"

definition js_bigint_from_string :: "(nat \<Rightarrow> bool) \<Rightarrow> u8 list \<Rightarrow> nat \<Rightarrow> bigint_result option" where
  "js_bigint_from_string mok str radix = do {
     c \<leftarrow> rd str 0;
     let is_neg = (c = 45);
     p \<leftarrow> skip_zeros (if is_neg then drop 1 str else str);
     n_digits \<leftarrow> strlen p;
     if n_digits > JS_BIGINT_MAX_SIZE * 32 then Some (Inl Too_large)
     else
       let log2_radix = 32 - clz32 (of_nat (radix - 1));
           n_bits = (if radix = 10 then (n_digits * 27 + 7) div 8 else n_digits * log2_radix);
           n_limbs = max 1 (n_bits div 32 + 1)
       in case js_bigint_new mok n_limbs (\<lambda>_. Inr []) of
            Inl e \<Rightarrow> Some (Inl e)
          | Inr _ \<Rightarrow> do {
              tab \<leftarrow> (if radix = 10 then do {
                  tab \<leftarrow> dec_loop n_limbs p [0];
                  if drop_bit 31 (tab ! (length tab - 1)) \<noteq> 0 then push_limb n_limbs tab 0 else Some tab }
                else bin_loop radix log2_radix (rev (take n_digits p)) 0 (replicate n_limbs 0));
              let r = js_bigint_normalize tab;
              Some (if is_neg then js_bigint_neg mok r else Inr r) } }"

definition js_digits :: "u8 list" where
  "js_digits = [48, 49, 50, 51, 52, 53, 54, 55, 56, 57,
    97, 98, 99, 100, 101, 102, 103, 104, 105, 106,
    107, 108, 109, 110, 111, 112, 113, 114, 115, 116,
    117, 118, 119, 120, 121, 122]"

type_synonym backward = "nat \<times> u8 list"

definition put_back :: "u8 \<Rightarrow> backward \<Rightarrow> backward option" where
  "put_back c q = (case q of (0, s) \<Rightarrow> None | (Suc room, s) \<Rightarrow> Some (room, c # s))"

function js_u64toa :: "backward \<Rightarrow> u64 \<Rightarrow> u32 \<Rightarrow> backward option" where
  "js_u64toa q n base =
     (let digit = unat (n mod ucast base); n = n div ucast base
      in case put_back (if base = 10 then of_nat (48 + digit) else js_digits ! digit) q of
           None \<Rightarrow> None
         | Some q \<Rightarrow> if n \<noteq> 0 then js_u64toa q n base else Some q)"
  by pat_completeness auto
termination
  by (relation "measure (\<lambda>(q, n, base). fst q)") (auto simp: put_back_def split: prod.splits nat.splits)

declare js_u64toa.simps [simp del]

fun js_limb_to_a :: "backward \<Rightarrow> limb \<Rightarrow> u32 \<Rightarrow> nat \<Rightarrow> backward option" where
  "js_limb_to_a q n radix 0 = Some q"
| "js_limb_to_a q n radix (Suc len) =
     (let digit = unat (n mod radix); n = n div radix
      in do { q \<leftarrow> put_back (if radix = 10 then of_nat (digit + 48) else js_digits ! digit) q;
              js_limb_to_a q n radix len })"

definition js_digits_per_limb_table :: "nat list" where
  "js_digits_per_limb_table = [
    32,20,16,13,12,11,10,10, 9, 9, 8, 8, 8, 8, 8, 7, 7, 7, 7, 7, 7, 7, 6, 6, 6, 6, 6, 6, 6, 6, 6, 6, 6, 6, 6]"

definition js_radix_base_table :: "limb list" where
  "js_radix_base_table = [
    0x00000000, 0xcfd41b91, 0x00000000, 0x48c27395,
    0x81bf1000, 0x75db9c97, 0x40000000, 0xcfd41b91,
    0x3b9aca00, 0x8c8b6d2b, 0x19a10000, 0x309f1021,
    0x57f6c100, 0x98c29b81, 0x00000000, 0x18754571,
    0x247dbc80, 0x3547667b, 0x4c4b4000, 0x6b5a6e1d,
    0x94ace180, 0xcaf18367, 0x0b640000, 0x0e8d4a51,
    0x1269ae40, 0x17179149, 0x1cb91000, 0x23744899,
    0x2b73a840, 0x34e63b41, 0x40000000, 0x4cfa3cc1,
    0x5c13d840, 0x6d91b519, 0x81bf1000]"

text \<open>The loops over the limbs of the number. \<open>mpb_renorm\<close> removes leading zero limbs.\<close>

partial_function (option) str_div_loop :: "backward \<Rightarrow> limb list \<Rightarrow> u32 \<Rightarrow> limb \<Rightarrow> nat \<Rightarrow> backward option" where
  "str_div_loop q tab radix radix_base digits_per_limb =
     (let tab = mpb_renorm tab in
      if length tab = 1 \<and> tab ! 0 < radix_base then
        (let v = tab ! 0 in if v \<noteq> 0 then js_u64toa q (ucast v) radix else Some q)
      else
        let (tab, v) = js_mp_div1 tab radix_base 0 in
        do { q \<leftarrow> js_limb_to_a q v radix digits_per_limb;
             str_div_loop q tab radix radix_base digits_per_limb })"

fun str_bin_loop :: "backward \<Rightarrow> limb list \<Rightarrow> u32 \<Rightarrow> nat \<Rightarrow> nat \<Rightarrow> nat \<Rightarrow> backward option" where
  "str_bin_loop q tab radix log2_radix i 0 = Some q"
| "str_bin_loop q tab radix log2_radix i (Suc n) =
     (let bit_pos = i * log2_radix; pos = bit_pos div 32; shift = bit_pos mod 32
      in do {
        t \<leftarrow> rd tab pos;
        let c = drop_bit shift t;
        let c = (if shift + log2_radix > 32 \<and> pos + 1 < length tab
                 then c OR push_bit (32 - shift) (tab ! (pos + 1)) else c);
        let c = c AND (radix - 1);
        q \<leftarrow> put_back (js_digits ! unat c) q;
        str_bin_loop q tab radix log2_radix (i + 1) n })"

datatype bigint_value = Short_big_int limb | Big_int js_bigint

text \<open>A number of one limb is kept in the value itself.\<close>

definition JS_CompactBigInt :: "js_bigint \<Rightarrow> bigint_value" where
  "JS_CompactBigInt p = (if length p = 1 then Short_big_int (p ! 0) else Big_int p)"

definition new_string8 :: "(nat \<Rightarrow> bool) \<Rightarrow> u8 list \<Rightarrow> bigint_error + u8 list" where
  "new_string8 sok s = (if sok (length s) then Inr s else Inl Out_of_memory)"

definition big_to_string :: "(nat \<Rightarrow> bool) \<Rightarrow> (nat \<Rightarrow> bool) \<Rightarrow> (nat \<Rightarrow> bool) \<Rightarrow> js_bigint \<Rightarrow> u32 \<Rightarrow>
    (bigint_error + u8 list) option" where
  "big_to_string mok aok sok r radix =
     (if length r = 1 \<and> r ! 0 = 0 then Some (new_string8 sok [48])
      else
        let is_binary_radix = (radix AND (radix - 1) = 0); is_neg = js_bigint_sign r;
            tmp = (if is_neg \<noteq> 0 then js_bigint_neg mok r
                   else if \<not> is_binary_radix then js_bigint_new mok (length r) (\<lambda>_. Inr r)
                   else Inr r)
        in case tmp of
             Inl e \<Rightarrow> Some (Inl e)
           | Inr r \<Rightarrow>
             let log2_radix = 31 - clz32 radix;
                 n_bits = length r * 32 - js_limb_clz (r ! (length r - 1));
                 n_digits = (n_bits + log2_radix - 1) div log2_radix
             in if \<not> aok (n_digits + unat is_neg + 1) then Some (Inl Out_of_memory)
                else do {
                  (room, _) \<leftarrow> put_back 0 (n_digits + unat is_neg + 1, []);
                  q \<leftarrow> (if \<not> is_binary_radix then do {
                      radix_base \<leftarrow> rd js_radix_base_table (unat (radix - 2));
                      digits_per_limb \<leftarrow> rd js_digits_per_limb_table (unat (radix - 2));
                      str_div_loop (room, []) r radix radix_base digits_per_limb }
                    else str_bin_loop (room, []) r radix log2_radix 0 n_digits);
                  (room, s) \<leftarrow> (if is_neg \<noteq> 0 then put_back 45 q else Some q);
                  Some (new_string8 sok s) })"

definition js_bigint_to_string1 :: "(nat \<Rightarrow> bool) \<Rightarrow> (nat \<Rightarrow> bool) \<Rightarrow> (nat \<Rightarrow> bool) \<Rightarrow> bigint_value \<Rightarrow> u32 \<Rightarrow>
    (bigint_error + u8 list) option" where
  "js_bigint_to_string1 mok aok sok val radix =
     (case val of
        Short_big_int v \<Rightarrow> do {
          (buf, len) \<leftarrow> i64toa_radix (replicate 66 0) 0 (scast v) radix;
          Some (new_string8 sok (take len buf)) }
      | Big_int r \<Rightarrow> big_to_string mok aok sok r radix)"


section \<open>Writing digits\<close>

lemma js_to_digit_eq: "js_to_digit = to_digit"
  by (rule ext) (simp add: js_to_digit_def to_digit_def)

lemma js_digits_char: "d < 36 \<Longrightarrow> js_digits ! d = digit_char d"
proof -
  have "\<forall>d \<in> set [0..<36]. js_digits ! d = digit_char d"
    by code_simp
  then show "d < 36 \<Longrightarrow> js_digits ! d = digit_char d" by simp
qed

lemma js_digit_written:
  assumes "d < r" "r \<le> 36" "base = 10 \<longleftrightarrow> r = 10"
  shows "(if base = (10 :: u32) then of_nat (48 + d) else js_digits ! d) = digit_char d"
    "(if base = (10 :: u32) then of_nat (d + 48) else js_digits ! d) = digit_char d"
  using assms by (simp_all add: js_digits_char) (simp_all add: digit_char_def add.commute)

lemma put_back_Suc [simp]: "put_back c (Suc room, s) = Some (room, c # s)"
  by (simp add: put_back_def)

lemma put_back_pos: "0 < room \<Longrightarrow> put_back c (room, s) = Some (room - 1, c # s)"
  by (cases room) simp_all

lemma unat_radix_10: "radix = (10 :: u32) \<longleftrightarrow> unat radix = 10"
  by (simp add: word_unat_eq_iff)

lemma js_limb_to_a_value:
  "len \<le> room \<Longrightarrow> 2 \<le> unat radix \<Longrightarrow> unat radix \<le> 36 \<Longrightarrow>
    js_limb_to_a (room, s) n radix len = Some (room - len, pad (unat radix) len (unat n) @ s)"
proof (induction len arbitrary: room s n)
  case (Suc len)
  have d: "unat (n mod radix) = unat n mod unat radix" "unat n mod unat radix < unat radix"
    using Suc(3) by (simp_all add: unat_mod_distrib)
  obtain room' where room: "room = Suc room'" using Suc(2) by (cases room) auto
  have "js_limb_to_a (room, s) n radix (Suc len)
      = js_limb_to_a (room', digit_char (unat n mod unat radix) # s) (n div radix) radix len"
    unfolding js_limb_to_a.simps Let_def d(1) js_digit_written(2) [OF d(2) Suc(4) unat_radix_10] room by simp
  also have "\<dots> = Some (room' - len, pad (unat radix) len (unat n div unat radix) @ digit_char (unat n mod unat radix) # s)"
    using Suc(2-4) by (subst Suc.IH) (simp_all add: room unat_div_distrib)
  finally show ?case by (simp add: room)
qed simp

lemma js_u64toa_value:
  "length (digits_of (unat base) (unat n)) \<le> room \<Longrightarrow> 2 \<le> unat base \<Longrightarrow> unat base \<le> 36 \<Longrightarrow>
    js_u64toa (room, s) n base = Some (room - length (digits_of (unat base) (unat n)), digits_of (unat base) (unat n) @ s)"
proof (induction room arbitrary: s n)
  case 0
  then show ?case by (simp add: digits_of.simps [of "unat base" "unat n"] split: if_splits)
next
  case (Suc room)
  define r where "r = unat base"
  have d: "unat (n mod ucast base) = unat n mod r" "unat n mod r < r"
    using Suc(3) by (simp_all add: r_def unat_mod_distrib unat_up64)
  have u: "unat (n div ucast base) = unat n div r" by (simp add: r_def unat_div_distrib unat_up64)
  have r36: "r \<le> 36" "2 \<le> r" using Suc(3,4) by (simp_all add: r_def)
  have b10: "base = 10 \<longleftrightarrow> r = 10" unfolding r_def by (rule unat_radix_10)
  have step: "js_u64toa (Suc room, s) n base = (if n div ucast base \<noteq> 0
      then js_u64toa (room, digit_char (unat n mod r) # s) (n div ucast base) base
      else Some (room, digit_char (unat n mod r) # s))"
    by (subst js_u64toa.simps) (simp add: Let_def d(1) js_digit_written(1) [OF d(2) r36(1) b10])
  show ?case
  proof (cases "unat n < r")
    case True
    then have "n div ucast base = 0" using u by (simp add: word_unat_eq_iff)
    then show ?thesis unfolding step using True by (simp add: digits_of_small r_def [symmetric])
  next
    case False
    then have "0 < unat n div r" using r36 by (simp add: div_greater_zero_iff)
    then have nz: "n div ucast base \<noteq> 0" using u by (metis less_numeral_extra(3) unat_0)
    have dd: "digits_of r (unat n) = digits_of r (unat n div r) @ [digit_char (unat n mod r)]"
      using False r36 by (intro digits_of_big) simp_all
    have "length (digits_of r (unat n div r)) \<le> room" using Suc(2) unfolding r_def [symmetric] dd by simp
    then show ?thesis unfolding step using nz Suc.IH [of "n div ucast base"] Suc(3,4) 
      by (simp add: u r_def [symmetric] dd)
  qed
qed

section \<open>The loops over the limbs\<close>

lemma small_number:
  assumes "mpb_ok t" "unat base \<noteq> 0"
  shows "length t = 1 \<and> t ! 0 < base \<longleftrightarrow> mpv t < unat (base :: limb)"
proof (cases "length t = 1")
  case True
  then obtain x where "t = [x]" by (cases t) auto
  then show ?thesis by (simp add: word_less_nat_alt)
next
  case False
  then have l: "1 < length t" using assms(1) by (cases t) (auto simp: mpb_ok_def)
  then have "2 ^ (32 * (length t - 1)) \<le> mpv t" using assms(1) by (simp add: mpb_ok_value)
  moreover have "(2 :: nat) ^ 32 \<le> 2 ^ (32 * (length t - 1))" using l by (intro power_increasing) simp_all
  ultimately show ?thesis using False unat_u32_less [of base] by simp
qed

lemma digits_of_length: "2 \<le> r \<Longrightarrow> n < r ^ k \<Longrightarrow> 0 < k \<Longrightarrow> length (digits_of r n) \<le> k"
proof (induction k arbitrary: n)
  case (Suc k)
  show ?case
  proof (cases "n < r")
    case False
    have l: "n div r < r ^ k" using Suc(2,3) by (simp add: less_mult_imp_div_less mult.commute)
    moreover have "0 < n div r" using False Suc(2) by (simp add: div_greater_zero_iff)
    ultimately have "0 < k" by (cases k) simp_all
    then show ?thesis using Suc.IH [OF Suc(2) l] False Suc(2) by (simp add: digits_of_big)
  qed (simp add: digits_of_small)
qed simp

lemma str_div_loop_value:
  assumes "2 \<le> unat radix" "unat radix \<le> 36" "unat base = unat radix ^ k" "0 < k"
  shows "tab \<noteq> [] \<Longrightarrow> 0 < mpv tab \<Longrightarrow> length (digits_of (unat radix) (mpv tab)) \<le> room \<Longrightarrow>
    \<exists>room'. str_div_loop (room, s) tab radix base k = Some (room', digits_of (unat radix) (mpv tab) @ s)
      \<and> room' = room - length (digits_of (unat radix) (mpv tab))"
proof (induction "mpv tab" arbitrary: tab room s rule: less_induct)
  case less
  define r where "r = unat radix"
  have r2: "2 \<le> r" "r \<le> 36" using assms by (simp_all add: r_def)
  have "r ^ 1 \<le> r ^ k" using r2 assms(4) by (intro power_increasing) simp_all
  then have B: "unat base = r ^ k" "2 \<le> unat base" using assms(3) r2 by (simp_all add: r_def)
  then have Bnz: "unat base \<noteq> 0" by linarith
  define t where "t = mpb_renorm tab"
  have t: "mpb_ok t" "mpv t = mpv tab" using less(2) by (simp_all add: t_def mpb_ok_renorm)
  have small: "length t = 1 \<and> t ! 0 < base \<longleftrightarrow> mpv tab < unat base"
    using small_number [OF t(1), of base] t(2) Bnz by simp
  show ?case
  proof (cases "mpv tab < unat base")
    case True
    then have l: "length t = 1" "t ! 0 < base" using small by simp_all
    then obtain x where x: "t = [x]" by (cases t) auto
    then have v: "unat x = mpv tab" using t(2) by simp
    then have "x \<noteq> 0" using less(3) by auto
    moreover have "js_u64toa (room, s) (ucast x) radix = Some (room - length (digits_of r (mpv tab)), digits_of r (mpv tab) @ s)"
      using js_u64toa_value [of radix "ucast x" room s] less(4) r2 by (simp add: r_def v unat_up64)
    ultimately show ?thesis using l
      by (subst str_div_loop.simps) (simp add: t_def [symmetric] x r_def)
  next
    case False
    have lt: "unat (0 :: limb) < unat base" using Bnz by simp
    obtain qs v where dv: "js_mp_div1 t base 0 = (qs, v)" by fastforce
    have q: "mpv qs = mpv tab div r ^ k" "unat v = mpv tab mod r ^ k" "length qs = length t"
      using mp_div1_value [OF dv [unfolded js_mp_div1_def] lt] t(2) B(1) by simp_all
    have a0: "0 < mpv tab div r ^ k" using False B r2 by (simp add: div_greater_zero_iff)
    have a1: "mpv tab div r ^ k < mpv tab" using B r2 less(3) by simp
    have e: "mpv tab = mpv tab div r ^ k * r ^ k + mpv tab mod r ^ k"
      by (rule div_mult_mod_eq [symmetric])
    have dd: "digits_of r (mpv tab) = digits_of r (mpv tab div r ^ k) @ pad r k (mpv tab mod r ^ k)"
      using r2 by (subst e, subst digits_of_append_pad [OF _ a0]) simp_all
    then have len: "k + length (digits_of r (mpv tab div r ^ k)) \<le> room" using less(4) by (simp add: r_def)
    have "qs \<noteq> []" using q(3) t(1) by (auto simp: mpb_ok_def)
    then obtain room' where "str_div_loop (room - k, pad r k (mpv tab mod r ^ k) @ s) qs radix base k
        = Some (room', digits_of r (mpv tab div r ^ k) @ pad r k (mpv tab mod r ^ k) @ s)"
      "room' = room - k - length (digits_of r (mpv tab div r ^ k))"
      using less(1) [of qs "room - k" "pad r k (mpv tab mod r ^ k) @ s"] len a0 a1 by (auto simp: q r_def)
    moreover have "js_limb_to_a (room, s) v radix k = Some (room - k, pad r k (mpv tab mod r ^ k) @ s)"
      using js_limb_to_a_value [of k room radix s v] len r2 by (simp add: r_def q)
    ultimately show ?thesis using False small
      by (subst str_div_loop.simps) (auto simp: t_def [symmetric] dv dd r_def [symmetric] Let_def)
  qed
qed

text \<open>The bits of a number.\<close>

lemma limb_odd: "odd (unat (x :: limb) div 2 ^ k) \<longleftrightarrow> bit x k"
  unfolding bit_iff_odd [of "unat x", symmetric] by (simp add: bit_unsigned_iff)

lemma bit_mpv: "bit (mpv t) j \<longleftrightarrow> j div 32 < length t \<and> bit (t ! (j div 32)) (j mod 32)"
proof -
  have "bit (mpv t) j \<longleftrightarrow> mpb_get_bit t j \<noteq> 0" unfolding mpb_get_bit_iff by (rule bit_iff_odd)
  also have "\<dots> \<longleftrightarrow> j div 32 < length t \<and> bit (t ! (j div 32)) (j mod 32)"
  proof (cases "j div 32 < length t")
    case True
    then have "mpb_get_bit t j = drop_bit (j mod 32) (t ! (j div 32)) AND 1" unfolding mpb_get_bit_def Let_def by auto
    then show ?thesis using True by (simp only: limb_bit limb_odd simp_thms)
  qed (simp add: mpb_get_bit_def)
  finally show ?thesis .
qed

lemma bit_position:
  fixes b j :: nat
  shows "j < 32 - b mod 32 \<Longrightarrow> (b + j) div 32 = b div 32 \<and> (b + j) mod 32 = b mod 32 + j"
    "32 - b mod 32 \<le> j \<Longrightarrow> j < 32 \<Longrightarrow> (b + j) div 32 = b div 32 + 1 \<and> (b + j) mod 32 = j - (32 - b mod 32)"
proof -
  define q m where "q = b div 32" and "m = b mod 32"
  have b: "b = 32 * q + m" "m < 32" by (simp_all add: q_def m_def)
  have e: "b + j = 32 * ((b + j) div 32) + (b + j) mod 32" by simp
  show "(b + j) div 32 = b div 32 \<and> (b + j) mod 32 = b mod 32 + j" if "j < 32 - b mod 32"
  proof -
    have j: "m + j < 32" using that by (simp add: m_def)
    have d: "(b + j) div 32 = q" using b j by (intro div_nat_eqI) simp_all
    have "(b + j) mod 32 = m + j" using e b(1) unfolding d by linarith
    with d show ?thesis by (simp add: q_def m_def)
  qed
  show "(b + j) div 32 = b div 32 + 1 \<and> (b + j) mod 32 = j - (32 - b mod 32)" if "32 - b mod 32 \<le> j" "j < 32"
  proof -
    have j: "32 \<le> m + j" "j < 32" using that by (simp_all add: m_def)
    have d: "(b + j) div 32 = q + 1" using b j by (intro div_nat_eqI) simp_all
    have "(b + j) mod 32 + 32 = m + j" using e b(1) unfolding d by simp
    then have "(b + j) mod 32 = j - (32 - m)" using b(2) j by simp
    with d show ?thesis by (simp add: q_def m_def)
  qed
qed

lemma str_bin_digit:
  assumes lg: "lg \<le> 32" and pos: "b div 32 < length tab" and radix: "radix - 1 = mask lg"
    and c: "c = drop_bit (b mod 32) (tab ! (b div 32))"
    and c': "c' = (if b mod 32 + lg > 32 \<and> b div 32 + 1 < length tab
      then c OR push_bit (32 - b mod 32) (tab ! (b div 32 + 1)) else c)"
  shows "unat (c' AND (radix - 1)) = mpv tab div 2 ^ b mod 2 ^ lg"
proof -
  have "unat (c' AND mask lg) = take_bit lg (drop_bit b (mpv tab))"
  proof (rule bit_eqI)
    fix j
    show "bit (unat (c' AND mask lg)) j = bit (take_bit lg (drop_bit b (mpv tab))) j"
    proof (cases "j < lg")
      case True
      then have j: "j < 32" using lg by linarith
      have "bit c' j \<longleftrightarrow> bit (mpv tab) (b + j)"
      proof (cases "j < 32 - b mod 32")
        case True
        then have "bit c j \<longleftrightarrow> bit (mpv tab) (b + j)"
          using bit_position(1) [OF True] pos unfolding bit_mpv c by (simp add: bit_drop_bit_eq)
        then show ?thesis using True by (auto simp: c' bit_or_iff bit_push_bit_iff)
      next
        case False
        then have f: "32 - b mod 32 \<le> j" "b mod 32 + lg > 32" using \<open>j < lg\<close> by linarith+
        have "\<not> bit c j" using f unfolding c by (auto simp: bit_drop_bit_eq dest: bit_imp_le_length)
        then show ?thesis using bit_position(2) [OF f(1) j] f j unfolding bit_mpv c'
          by (auto simp: bit_or_iff bit_push_bit_iff)
      qed
      then show ?thesis using True j
        by (simp add: bit_unsigned_iff bit_and_iff bit_mask_iff bit_take_bit_iff bit_drop_bit_eq)
    qed (simp add: bit_unsigned_iff bit_and_iff bit_mask_iff bit_take_bit_iff)
  qed
  then show ?thesis by (simp add: radix take_bit_eq_mod drop_bit_eq_div)
qed

lemma str_bin_loop_value:
  assumes lg: "0 < lg" "lg \<le> 5" and radix: "unat radix = 2 ^ lg"
  shows "(i + n - 1) * lg < 32 * length tab \<Longrightarrow> n \<le> room \<Longrightarrow>
    str_bin_loop (room, s) tab radix lg i n = Some (room - n, pad (2 ^ lg) n (mpv tab div (2 ^ lg) ^ i) @ s)"
proof (induction n arbitrary: room s i)
  case (Suc n)
  have "radix = of_nat (2 ^ lg)" by (simp flip: radix)
  then have m: "radix - 1 = mask lg" by (simp add: mask_eq_exp_minus_1 push_bit_eq_mult)
  have "i * lg \<le> (i + Suc n - 1) * lg" by simp
  then have pos: "i * lg div 32 < length tab" using Suc(2) by linarith
  define t where "t = tab ! (i * lg div 32)"
  define c where "c = (if i * lg mod 32 + lg > 32 \<and> i * lg div 32 + 1 < length tab
      then drop_bit (i * lg mod 32) t OR push_bit (32 - i * lg mod 32) (tab ! (i * lg div 32 + 1)) else drop_bit (i * lg mod 32) t)"
  have d: "unat (c AND (radix - 1)) = mpv tab div (2 ^ lg) ^ i mod 2 ^ lg"
    using str_bin_digit [OF _ pos m, of "drop_bit (i * lg mod 32) t" c] lg
    by (simp add: c_def t_def power_mult [symmetric] mult.commute)
  have "(2 :: nat) ^ lg \<le> 2 ^ 5" using lg by (intro power_increasing) simp_all
  then have "mpv tab div (2 ^ lg) ^ i mod 2 ^ lg < (36 :: nat)" by (intro order_less_le_trans [OF mod_less_divisor]) simp_all
  note dig = js_digits_char [OF this]
  obtain room' where room: "room = Suc room'" using Suc(3) by (cases room) auto
  have "str_bin_loop (room, s) tab radix lg i (Suc n)
      = str_bin_loop (room', digit_char (mpv tab div (2 ^ lg) ^ i mod 2 ^ lg) # s) tab radix lg (i + 1) n"
    using pos by (simp add: Let_def t_def [symmetric] c_def [symmetric, simplified] d [simplified] dig room)
  also have "\<dots> = Some (room' - n, pad (2 ^ lg) n (mpv tab div (2 ^ lg) ^ (i + 1)) @
      digit_char (mpv tab div (2 ^ lg) ^ i mod 2 ^ lg) # s)"
    using Suc(2,3) by (intro Suc.IH) (simp_all add: room)
  finally show ?case by (simp add: room div_mult2_eq [symmetric] mult.commute)
qed simp

section \<open>Writing a number\<close>

lemma js_radix_tables:
  assumes "2 \<le> unat (radix :: u32)" "unat radix \<le> 36" "radix AND (radix - 1) \<noteq> 0"
  obtains base k where "rd js_radix_base_table (unat (radix - 2)) = Some base"
    "rd js_digits_per_limb_table (unat (radix - 2)) = Some k" "unat base = unat radix ^ k" "0 < k"
proof -
  have t: "\<forall>r \<in> set [2..<37]. of_nat r AND (of_nat r - 1) \<noteq> (0 :: u32) \<longrightarrow>
      unat (js_radix_base_table ! (r - 2)) = r ^ (js_digits_per_limb_table ! (r - 2)) \<and> 0 < js_digits_per_limb_table ! (r - 2)"
    by (simp add: upt_rec_numeral js_digits_per_limb_table_def js_radix_base_table_def)
  have "unat (2 :: u32) \<le> unat radix" using assms(1) by simp
  then have "unat (radix - 2) = unat radix - 2" by (subst unat_sub) (simp_all add: word_le_nat_alt)
  moreover have "unat radix - 2 < 35" using assms(2) by linarith
  moreover have "unat radix \<in> set [2..<37]" using assms(1,2) unfolding set_upt atLeastLessThan_iff by linarith
  note bspec [OF t this]
  ultimately show ?thesis using assms(3)
    by (intro that [of "js_radix_base_table ! (unat radix - 2)" "js_digits_per_limb_table ! (unat radix - 2)"])
      (simp_all add: js_radix_base_table_def js_digits_per_limb_table_def)
qed

text \<open>The number of bits of a positive number.\<close>

lemma number_bits:
  assumes "bigint_ok a" "0 < bval a" "n = length a * 32 - js_limb_clz (a ! (length a - 1))"
  shows "2 ^ (n - 1) \<le> mpv a" "mpv a < 2 ^ n" "0 < n" "n \<le> 32 * length a" "bval a = int (mpv a)"
proof -
  have ne: "a \<noteq> []" using assms(1) by (simp add: bigint_ok_def)
  have s: "js_bigint_sign a = 0" using assms(2) bval_sign [OF ne] js_bigint_sign_01 [of a] by auto
  show v: "bval a = int (mpv a)" using bval_mpv [OF ne] s by simp
  define l where "l = length a - 1"
  have l: "length a = l + 1" using ne by (cases a) (simp_all add: l_def)
  have la: "a ! (length a - 1) = last a" using ne by (simp add: last_conv_nth)
  have m: "mpv a = mpv (butlast a) + 2 ^ (32 * l) * unat (last a)"
    using mpv_butlast_last [OF ne] by (simp add: l_def)
  have b: "mpv (butlast a) < 2 ^ (32 * l)" using mpv_less [of "butlast a"] by (simp add: l_def)
  show "n \<le> 32 * length a" by (simp add: assms(3))
  have "2 ^ (n - 1) \<le> mpv a \<and> mpv a < 2 ^ n \<and> 0 < n"
  proof (cases "last a = 0")
    case False
    define c where "c = clz32 (last a)"
    note c = clz32_bounds [OF False, folded c_def]
    have n: "n = 32 * l + (32 - c)" using False c(1) unfolding assms(3) la by (simp add: js_limb_clz_def c_def l)
    have n1: "n - 1 = 32 * l + (31 - c)" using n c(1) by simp
    have "2 ^ (32 * l) * 2 ^ (31 - c) \<le> 2 ^ (32 * l) * unat (last a)" using c(2) by simp
    moreover have "2 ^ (32 * l) * (unat (last a) + 1) \<le> 2 ^ (32 * l) * 2 ^ (32 - c)" using c(3) by (intro mult_left_mono) simp_all
    moreover have "2 ^ (32 * l) * (unat (last a) + 1) = 2 ^ (32 * l) * unat (last a) + 2 ^ (32 * l)" by simp
    ultimately have "2 ^ (32 * l) * 2 ^ (31 - c) \<le> mpv a" "mpv a < 2 ^ (32 * l) * 2 ^ (32 - c)" using m b by linarith+
    moreover have "0 < n" using n c(1) by simp
    ultimately show ?thesis unfolding n1 unfolding n power_add by simp
  next
    case True
    have "l \<noteq> 0"
    proof
      assume "l = 0"
      then have "mpv a = 0" using m b True by simp
      then show False using assms(2) v by simp
    qed
    then obtain k where k: "l = Suc k" by (cases l) auto
    have high: "\<not> a ! k < 2147483648" using assms(1) True l k by (simp add: bigint_ok_def)
    have n: "n = 32 * l" using True unfolding assms(3) la by (simp add: js_limb_clz_def l)
    have nb: "butlast a \<noteq> []" "length (butlast a) = l" using l k by (auto simp: butlast_conv_take)
    have lk: "length a - Suc (Suc 0) = k" using l k by simp
    have "last (butlast a) = a ! k" using nb k by (simp add: last_conv_nth nth_butlast)
    then have m': "mpv a = mpv (butlast (butlast a)) + 2 ^ (32 * k) * unat (a ! k)"
      using mpv_butlast_last [OF nb(1)] m True lk by simp
    have "2 ^ (32 * k) * 2 ^ 31 \<le> 2 ^ (32 * k) * unat (a ! k)"
      using high by (intro mult_left_mono) (simp_all add: word_less_nat_alt)
    then have "2 ^ (32 * k + 31) \<le> mpv a" using m' unfolding power_add by linarith
    moreover have "n - 1 = 32 * k + 31" using n k by simp
    ultimately have "2 ^ (n - 1) \<le> mpv a" by simp
    then show ?thesis using m b True n k by simp
  qed
  then show "2 ^ (n - 1) \<le> mpv a" "mpv a < 2 ^ n" "0 < n" by simp_all
qed

text \<open>The text of a positive number fits its buffer exactly, or with room to spare.\<close>

lemma write_number:
  assumes "bigint_ok a" "0 < bval a" "2 \<le> unat radix" "unat radix \<le> 36"
    and n: "n_bits = length a * 32 - js_limb_clz (a ! (length a - 1))"
    and lg: "lg = 31 - clz32 radix" and nd: "n_digits = (n_bits + lg - 1) div lg" and room: "n_digits \<le> room"
  defines "s \<equiv> digits_of (unat radix) (nat (bval a))"
  shows "length s \<le> n_digits"
    "(if radix AND (radix - 1) \<noteq> 0 then do {
        radix_base \<leftarrow> rd js_radix_base_table (unat (radix - 2));
        digits_per_limb \<leftarrow> rd js_digits_per_limb_table (unat (radix - 2));
        str_div_loop (room, []) a radix radix_base digits_per_limb }
      else str_bin_loop (room, []) a radix lg 0 n_digits) = Some (room - length s, s)"
proof -
  note b = number_bits [OF assms(1,2) n]
  have rnz: "radix \<noteq> 0" using assms(3) by auto
  have "lg + 1 = 32 - clz32 radix" using clz32_bounds(1) [OF rnz] by (simp add: lg)
  then have radix_lg: "2 ^ lg \<le> unat radix" "unat radix < 2 ^ (lg + 1)"
    using clz32_bounds(2,3) [OF rnz] by (simp_all only: lg)
  have lg0: "0 < lg" using radix_lg(2) assms(3) by (cases lg) simp_all
  have "(2 :: nat) ^ lg < 2 ^ 6" using radix_lg(1) assms(4) by simp
  then have lg5: "lg \<le> 5" by (subst (asm) power_strict_increasing_iff) simp_all
  have "lg * n_digits + (n_bits + lg - 1) mod lg = n_bits + lg - 1" unfolding nd by simp
  moreover have "(n_bits + lg - 1) mod lg < lg" using lg0 by simp
  ultimately have d: "n_bits \<le> lg * n_digits" "lg * n_digits < n_bits + lg" using lg0 b(3) by linarith+
  have nd0: "0 < n_digits" using d(1) b(3) by (cases n_digits) simp_all
  define v where "v = mpv a"
  have s: "s = digits_of (unat radix) v" using b(5) by (simp add: s_def v_def)
  have "v < 2 ^ (lg * n_digits)" using b(2) d(1) unfolding v_def
    by (intro order_less_le_trans [OF b(2)] power_increasing) simp_all
  also have "\<dots> = (2 ^ lg) ^ n_digits" by (simp add: power_mult)
  also have "\<dots> \<le> unat radix ^ n_digits" using radix_lg(1) by (intro power_mono) simp_all
  finally show len: "length s \<le> n_digits" unfolding s using assms(3) nd0 by (intro digits_of_length)
  have v0: "0 < v" using assms(2) b(5) by (simp add: v_def)
  have ne: "a \<noteq> []" using assms(1) by (simp add: bigint_ok_def)
  show "(if radix AND (radix - 1) \<noteq> 0 then do {
        radix_base \<leftarrow> rd js_radix_base_table (unat (radix - 2));
        digits_per_limb \<leftarrow> rd js_digits_per_limb_table (unat (radix - 2));
        str_div_loop (room, []) a radix radix_base digits_per_limb }
      else str_bin_loop (room, []) a radix lg 0 n_digits) = Some (room - length s, s)"
  proof (cases "radix AND (radix - 1) = 0")
    case False
    obtain base k where t: "rd js_radix_base_table (unat (radix - 2)) = Some base"
      "rd js_digits_per_limb_table (unat (radix - 2)) = Some k" "unat base = unat radix ^ k" "0 < k"
      by (rule js_radix_tables [OF assms(3,4) False])
    have "str_div_loop (room, []) a radix base k = Some (room - length s, s)"
      using str_div_loop_value [OF assms(3,4) t(3,4) ne, of room "[]"] v0 len room by (simp add: s v_def)
    with False t(1,2) show ?thesis by simp
  next
    case True
    have r: "unat radix = 2 ^ lg" using power_of_two_radix [OF True rnz] by (simp add: lg)
    obtain k where k: "n_digits = Suc k" using nd0 by (cases n_digits) auto
    have k1: "lg * k \<le> n_bits - 1" using d(2) k lg0 by simp
    then have "(2 ^ lg) ^ k \<le> v" unfolding v_def power_mult [symmetric]
      by (intro order_trans [OF power_increasing b(1)]) simp_all
    moreover have "v < (2 ^ lg) ^ Suc k" using \<open>v < 2 ^ (lg * n_digits)\<close> k by (simp add: power_mult [symmetric] power_add)
    moreover have "(2 :: nat) \<le> 2 ^ lg" using lg0 self_le_power [of 2 lg] by simp
    ultimately have p: "pad (2 ^ lg) n_digits v = s" unfolding k s r by (intro pad_digits_of)
    then have ls: "length s = n_digits" by (metis length_pad)
    have "(0 + n_digits - 1) * lg < 32 * length a" using k1 b(3,4) k by (simp add: mult.commute)
    then have "str_bin_loop (room, []) a radix lg 0 n_digits = Some (room - n_digits, pad (2 ^ lg) n_digits v)"
      using str_bin_loop_value [OF lg0 lg5 r, of 0 n_digits a room "[]"] room by (simp add: v_def)
    with True p ls show ?thesis by simp
  qed
qed

text \<open>
  The string \<open>s\<close>, or an exception: a range error only if the number has more limbs than
  the limit, an out-of-memory error only if some allocation is refused.
\<close>

definition text_outcome :: "bool \<Rightarrow> nat \<Rightarrow> u8 list \<Rightarrow> bigint_error + u8 list \<Rightarrow> bool" where
  "text_outcome granted n s r \<longleftrightarrow>
     (case r of Inr t \<Rightarrow> t = s
      | Inl e \<Rightarrow> e = Too_large \<and> JS_BIGINT_MAX_SIZE < n \<or> e = Out_of_memory \<and> \<not> granted)"

definition all_granted :: "(nat \<Rightarrow> bool) \<Rightarrow> (nat \<Rightarrow> bool) \<Rightarrow> (nat \<Rightarrow> bool) \<Rightarrow> bool" where
  "all_granted mok aok sok \<longleftrightarrow> (\<forall>k. mok k \<and> aok k \<and> sok k)"

lemma new_string8_outcome: "text_outcome (all_granted mok aok sok) n s (new_string8 sok s)"
  by (auto simp: text_outcome_def all_granted_def new_string8_def)

lemma text_outcome_granted:
  "n \<le> JS_BIGINT_MAX_SIZE \<Longrightarrow> text_outcome (all_granted (\<lambda>_. True) (\<lambda>_. True) (\<lambda>_. True)) n s r \<longleftrightarrow> r = Inr s"
  by (auto simp: text_outcome_def all_granted_def split: sum.splits)

text \<open>The operand that is written: the number itself, a copy, or its negation.\<close>

lemma written_number:
  fixes mok :: "nat \<Rightarrow> bool" and p :: bool
  assumes "bigint_ok r"
  defines "tmp \<equiv> (if js_bigint_sign r \<noteq> 0 then js_bigint_neg mok r
      else if p then js_bigint_new mok (length r) (\<lambda>_. Inr r) else Inr r)"
  shows "bigint_outcome mok (length r) \<bar>bval r\<bar> tmp"
proof -
  have ne: "r \<noteq> []" using assms by (simp add: bigint_ok_def)
  show ?thesis
  proof (cases "js_bigint_sign r = 0")
    case True
    then have "0 \<le> bval r" using bval_sign [OF ne] by simp
    then show ?thesis using True assms by (auto simp: tmp_def bigint_outcome_def js_bigint_new_def)
  next
    case False
    then have "\<bar>bval r\<bar> = - bval r" using bval_sign [OF ne] by simp
    then show ?thesis using False neg_outcome [OF assms(1)] by (simp add: tmp_def)
  qed
qed

lemma big_to_string_value:
  assumes "bigint_ok r" "2 \<le> unat radix" "unat radix \<le> 36"
  shows "\<exists>t. big_to_string mok aok sok r radix = Some t \<and>
    text_outcome (all_granted mok aok sok) (length r) (int_str (unat radix) (bval r)) t"
proof (cases "bval r = 0")
  case True
  then have "length r = 1 \<and> r ! 0 = 0" using bigint_zero assms(1) by blast
  then show ?thesis using True assms(2) new_string8_outcome
    by (simp add: big_to_string_def int_str_def digits_of_small digit_char_def)
next
  case False
  have ne: "r \<noteq> []" using assms by (simp add: bigint_ok_def)
  have nz: "\<not> (length r = 1 \<and> r ! 0 = 0)"
  proof
    assume "length r = 1 \<and> r ! 0 = 0"
    then have "r = [0]" by (cases r) auto
    then show False using False by simp
  qed
  define neg where "neg = js_bigint_sign r"
  have neg: "neg \<noteq> 0 \<longleftrightarrow> bval r < 0" "unat neg = of_bool (bval r < 0)"
    using bval_sign [OF ne] js_bigint_sign_01 [of r] by (auto simp: neg_def)
  define tmp where "tmp = (if neg \<noteq> 0 then js_bigint_neg mok r
      else if radix AND (radix - 1) \<noteq> 0 then js_bigint_new mok (length r) (\<lambda>_. Inr r) else Inr r)"
  have out: "bigint_outcome mok (length r) \<bar>bval r\<bar> tmp"
    using written_number [OF assms(1)] unfolding tmp_def neg_def .
  note def = big_to_string_def [of mok aok sok r radix, unfolded Let_def, folded neg_def, folded tmp_def]
  show ?thesis
  proof (cases tmp)
    case (Inl e)
    then show ?thesis using out nz unfolding def by (auto simp: bigint_outcome_def text_outcome_def all_granted_def)
  next
    case (Inr a)
    then have a: "bigint_ok a" "bval a = \<bar>bval r\<bar>" "0 < bval a" using out False by (simp_all add: bigint_outcome_def)
    define lg where "lg = 31 - clz32 radix"
    define n where "n = length a * 32 - js_limb_clz (a ! (length a - 1))"
    define nd where "nd = (n + lg - 1) div lg"
    define s where "s = digits_of (unat radix) (nat (bval a))"
    note w = write_number [OF a(1,3) assms(2,3) n_def lg_def nd_def le_add1 [of nd "unat neg"], folded s_def]
    have pb: "put_back 0 (nd + unat neg + 1, []) = Some (nd + unat neg, [0])" by simp
    have istr: "int_str (unat radix) (bval r) = (if neg \<noteq> 0 then 45 # s else s)"
      using neg(1) a(2) by (simp add: int_str_def s_def)
    have sign: "(if neg \<noteq> 0 then put_back 45 (nd + unat neg - length s, s) else Some (nd + unat neg - length s, s))
        = Some (nd - length s, if neg \<noteq> 0 then 45 # s else s)"
      using w(1) neg by (auto simp: put_back_pos)
    have "big_to_string mok aok sok r radix = (if \<not> aok (nd + unat neg + 1) then Some (Inl Out_of_memory)
        else Some (new_string8 sok (int_str (unat radix) (bval r))))"
      unfolding def Inr istr if_not_P [OF nz] sum.case lg_def [symmetric] n_def [symmetric] nd_def [symmetric]
      by (simp only: pb Option.bind.simps prod.case w(2) sign)
    then show ?thesis using new_string8_outcome
      by (auto simp: text_outcome_def all_granted_def)
  qed
qed

lemma short_to_string:
  assumes "2 \<le> unat radix"
  shows "\<exists>buf. i64toa_radix (replicate 66 0) 0 (scast (v :: limb)) radix
      = Some (buf, length (int_str (unat radix) (sint v)))
    \<and> take (length (int_str (unat radix) (sint v))) buf = int_str (unat radix) (sint v)"
proof -
  have sv: "sint (scast v :: u64) = sint v" using sint_limb_bounds [of v]
    by (simp add: signed_scast_eq signed_take_bit_int_eq_self)
  define m where "m = nat \<bar>sint v\<bar>"
  have "m < 2 ^ 32" using sint_limb_bounds [of v] by (simp add: m_def)
  also have "(2 :: nat) ^ 32 \<le> unat radix ^ 32" using assms by (intro power_mono) simp_all
  finally have l: "length (digits_of (unat radix) m) \<le> 32" using assms by (intro digits_of_length) simp_all
  have "int_str (unat radix) (sint v) = (if sint v < 0 then 45 # digits_of (unat radix) m else digits_of (unat radix) m)"
    by (simp add: int_str_def m_def)
  then have "length (int_str (unat radix) (sint v)) \<le> 33" using l by simp
  then show ?thesis using i64toa_radix_value [OF assms, of 0 "scast v" "replicate 66 0"]
    by (simp add: sv str_put_def)
qed

lemma to_string_value:
  assumes "bigint_ok r" "2 \<le> unat radix" "unat radix \<le> 36"
  shows "\<exists>t. js_bigint_to_string1 mok aok sok (JS_CompactBigInt r) radix = Some t \<and>
    text_outcome (all_granted mok aok sok) (length r) (int_str (unat radix) (bval r)) t"
proof (cases "length r = 1")
  case True
  then have "r = [r ! 0]" by (rule single_limb)
  then have v: "bval r = sint (r ! 0)" by (metis bval.simps(2))
  obtain buf where "i64toa_radix (replicate 66 0) 0 (scast (r ! 0)) radix
      = Some (buf, length (int_str (unat radix) (bval r)))"
    "take (length (int_str (unat radix) (bval r))) buf = int_str (unat radix) (bval r)"
    using short_to_string [OF assms(2), of "r ! 0"] unfolding v by blast
  then show ?thesis using True new_string8_outcome
    by (simp add: js_bigint_to_string1_def JS_CompactBigInt_def)
next
  case False
  then show ?thesis using big_to_string_value [OF assms]
    by (simp add: js_bigint_to_string1_def JS_CompactBigInt_def)
qed

section \<open>Reading digits\<close>

lemma read_digits_append: "read_digits r (p @ q) = read_digits r p * r ^ length q + read_digits r q"
proof (induction q rule: rev_induct)
  case (snoc c q)
  have snoc': "read_digits r (xs @ [c]) = read_digits r xs * r + to_digit c" for xs by (simp add: read_digits_def)
  show ?case unfolding append_assoc [symmetric] snoc' snoc.IH by (simp add: algebra_simps)
qed (simp add: read_digits_def)

lemma read_digits_Nil [simp]: "read_digits r [] = 0"
  by (simp add: read_digits_def)

lemma read_digits_single [simp]: "read_digits r [c] = to_digit c"
  by (simp add: read_digits_def)

lemma read_digits_less: "\<forall>c \<in> set p. to_digit c < r \<Longrightarrow> read_digits r p < r ^ length p"
proof (induction p rule: rev_induct)
  case (snoc c p)
  then have "read_digits r p + 1 \<le> r ^ length p" "to_digit c < r" by simp_all
  then have "(read_digits r p + 1) * r \<le> r ^ length p * r" by (intro mult_right_mono) simp_all
  then show ?case using \<open>to_digit c < r\<close> by (simp add: read_digits_append algebra_simps)
qed simp

lemma js_pow_dec_value: "i \<le> 9 \<Longrightarrow> unat (js_pow_dec ! i) = 10 ^ i"
proof -
  have "\<forall>i \<in> set [0,1,2,3,4,5,6,7,8,9]. unat (js_pow_dec ! i) = 10 ^ i" by (simp add: js_pow_dec_def)
  moreover assume "i \<le> 9"
  then have "i \<in> set [0,1,2,3,4,5,6,7,8,9]" by (simp, presburger)
  ultimately show ?thesis by blast
qed

lemma read_chunk_value:
  assumes "\<not> to_digit e < 10"
  shows "\<forall>c \<in> set ds. to_digit c < 10 \<Longrightarrow> unat v < 10 ^ i \<Longrightarrow> i + room \<le> 9 \<Longrightarrow> k = min room (length ds) \<Longrightarrow>
    \<exists>v'. read_chunk room (ds @ e # rest) v i = Some (v', i + k, drop k ds @ e # rest)
      \<and> unat v' = unat v * 10 ^ k + read_digits 10 (take k ds)"
proof (induction room arbitrary: ds v i k)
  case (Suc room)
  show ?case
  proof (cases ds)
    case Nil
    then show ?thesis using assms Suc(5) by (simp add: js_to_digit_eq Let_def)
  next
    case (Cons c ds')
    have c: "to_digit c < 10" "\<forall>c \<in> set ds'. to_digit c < 10" using Suc(2) Cons by simp_all
    have "unat v * 10 + to_digit c < 10 ^ (i + 1)" using Suc(3) c(1) by simp
    moreover have "(10 :: nat) ^ (i + 1) \<le> 10 ^ 9" using Suc(4) by (intro power_increasing) simp_all
    ultimately have u: "unat (v * 10 + of_nat (to_digit c)) = unat v * 10 + to_digit c"
      "unat v * 10 + to_digit c < 10 ^ (i + 1)" using c(1) by (simp_all add: unat_word_ariths unat_of_nat)
    define k' where "k' = min room (length ds')"
    have k: "k = Suc k'" using Suc(5) Cons by (simp add: k'_def)
    obtain v' where "read_chunk room (ds' @ e # rest) (v * 10 + of_nat (to_digit c)) (i + 1)
        = Some (v', i + 1 + k', drop k' ds' @ e # rest)"
      "unat v' = (unat v * 10 + to_digit c) * 10 ^ k' + read_digits 10 (take k' ds')"
      using Suc.IH [of ds' "v * 10 + of_nat (to_digit c)" "i + 1", OF c(2) _ _ k'_def] u Suc(4) by auto
    moreover have "read_digits 10 (c # take k' ds') = to_digit c * 10 ^ k' + read_digits 10 (take k' ds')"
      using read_digits_append [of 10 "[c]" "take k' ds'"] by (simp add: k'_def)
    ultimately show ?thesis using c(1) by (simp add: js_to_digit_eq k Cons Let_def algebra_simps)
  qed
qed simp

lemma mpb_ok_snoc: "h \<noteq> 0 \<Longrightarrow> mpb_ok (t @ [h])"
  by (simp add: mpb_ok_def)

text \<open>One step of the decimal reader.\<close>

lemma dec_step:
  assumes "mpb_ok tab" "i \<le> 9" "unat v < 10 ^ i" "mpv tab * 10 ^ i + unat v < 2 ^ (32 * n)"
  shows "\<exists>tab'. (if length tab = 1 \<and> tab ! 0 = 0 then Some [v]
      else let (t, h) = js_mp_mul1 tab (js_pow_dec ! i) v
           in if h \<noteq> 0 then push_limb n t h else Some t) = Some tab'
    \<and> mpb_ok tab' \<and> mpv tab' = mpv tab * 10 ^ i + unat v"
proof (cases "length tab = 1 \<and> tab ! 0 = 0")
  case True
  then have "tab = [0]" by (cases tab) auto
  then show ?thesis by (simp add: mpb_ok_def)
next
  case False
  obtain t h where m: "js_mp_mul1 tab (js_pow_dec ! i) v = (t, h)" by fastforce
  have v: "mpv t + 2 ^ (32 * length tab) * unat h = mpv tab * 10 ^ i + unat v"
    using mp_mul1_value [of tab "js_pow_dec ! i" v t h] m js_pow_dec_value [OF assms(2)] by (simp add: js_mp_mul1_def)
  have l: "length t = length tab" using m mp_mul1_length [of tab "js_pow_dec ! i" v] by (simp add: js_mp_mul1_def)
  show ?thesis
  proof (cases "h = 0")
    case True
    have "mpv tab \<le> mpv tab * 10 ^ i" by simp
    moreover have "mpv t = mpv tab * 10 ^ i + unat v" using v True by simp
    ultimately have "mpv tab \<le> mpv t" by linarith
    then have "mpb_ok t" using assms(1) l unfolding mpb_ok_value by fastforce
    then show ?thesis using v True False by (auto simp: m)
  next
    case h: False
    have a: "mpv (t @ [h]) = mpv tab * 10 ^ i + unat v" using v l mpv_app [of t "[h]"] by (simp add: power_mult)
    have "2 ^ (32 * length t) \<le> mpv (t @ [h])" using last_limb_iff [of "t @ [h]"] h by simp
    then have "(2 :: nat) ^ (32 * length t) < 2 ^ (32 * n)" using assms(4) a by linarith
    then have "length t < n" by (subst (asm) power_strict_increasing_iff) simp_all
    then show ?thesis using False h a mpb_ok_snoc [OF h] by (auto simp: m push_limb_def)
  qed
qed

lemma dec_loop_value:
  assumes "\<not> to_digit e < 10"
  shows "\<forall>c \<in> set ds. to_digit c < 10 \<Longrightarrow> mpb_ok tab \<Longrightarrow> mpv tab * 10 ^ length ds + read_digits 10 ds < 2 ^ (32 * n) \<Longrightarrow>
    \<exists>tab'. dec_loop n (ds @ e # rest) tab = Some tab' \<and> mpb_ok tab'
      \<and> mpv tab' = mpv tab * 10 ^ length ds + read_digits 10 ds"
proof (induction "length ds" arbitrary: ds tab rule: less_induct)
  case less
  define k where "k = min 9 (length ds)"
  obtain v where v: "read_chunk 9 (ds @ e # rest) 0 0 = Some (v, k, drop k ds @ e # rest)"
    "unat v = read_digits 10 (take k ds)"
    using read_chunk_value [OF assms less(2), of 0 0 9 k rest] by (auto simp: k_def)
  show ?case
  proof (cases "ds = []")
    case True
    then show ?thesis using v less(3) by (subst dec_loop.simps) (simp add: k_def)
  next
    case False
    then have k0: "0 < k" "k \<le> 9" "k \<le> length ds" by (simp_all add: k_def)
    have "\<forall>c \<in> set (take k ds). to_digit c < 10" using less(2) by (meson in_set_takeD)
    then have "read_digits 10 (take k ds) < 10 ^ k" using read_digits_less [of "take k ds" 10] k0 by simp
    then have v10: "unat v < 10 ^ k" using v(2) by simp
    define d where "d = length ds - k"
    have split: "read_digits 10 ds = read_digits 10 (take k ds) * 10 ^ d + read_digits 10 (drop k ds)"
      using read_digits_append [of 10 "take k ds" "drop k ds"] by (simp add: d_def)
    have pow: "(10 :: nat) ^ length ds = 10 ^ k * 10 ^ d" using k0 by (simp add: d_def power_add [symmetric])
    have whole: "mpv tab * 10 ^ length ds + read_digits 10 ds = (mpv tab * 10 ^ k + unat v) * 10 ^ d + read_digits 10 (drop k ds)"
      unfolding split pow v(2) by (simp add: algebra_simps)
    have "x \<le> x * 10 ^ d" for x :: nat by simp
    from this [of "mpv tab * 10 ^ k + unat v"] have "mpv tab * 10 ^ k + unat v < 2 ^ (32 * n)"
      using less(4) unfolding whole by (rule order_le_less_trans [OF _ order_le_less_trans [OF le_add1]])
    from dec_step [OF less(3) k0(2) v10 this] obtain t where
      t: "(if length tab = 1 \<and> tab ! 0 = 0 then Some [v]
        else let (t, h) = js_mp_mul1 tab (js_pow_dec ! k) v
             in if h \<noteq> 0 then push_limb n t h else Some t) = Some t"
      "mpb_ok t" "mpv t = mpv tab * 10 ^ k + unat v" by blast
    have "\<forall>c \<in> set (drop k ds). to_digit c < 10" using less(2) by (meson in_set_dropD)
    from less(1) [OF _ this t(2)] k0 less(4) whole False
    obtain t' where "dec_loop n (drop k ds @ e # rest) t = Some t'" "mpb_ok t'"
      "mpv t' = mpv tab * 10 ^ length ds + read_digits 10 ds"
      by (auto simp: t(3) d_def)
    moreover have "dec_loop n (ds @ e # rest) tab = dec_loop n (drop k ds @ e # rest) t"
      using k0(1) by (subst dec_loop.simps) (simp only: v option.case prod.case t(1), simp)
    ultimately show ?thesis by simp
  qed
qed

text \<open>Or-ing a digit into the zeros above the digits read so far adds it.\<close>

lemma or_digit_value:
  assumes x: "unat (x :: limb) < 2 ^ lg" and lg: "lg \<le> 32" and low: "mpv tab < 2 ^ b" and room: "b + lg \<le> 32 * length tab"
    and pos: "pos = b div 32" and shift: "shift = b mod 32" and in_tab: "pos < length tab"
    and t1: "tab1 = tab[pos := tab ! pos OR push_bit shift x]"
    and t2: "tab2 = (if shift + lg > 32 then tab1[pos + 1 := tab1 ! (pos + 1) OR drop_bit (32 - shift) x] else tab1)"
  shows "mpv tab2 = mpv tab + unat x * 2 ^ b"
proof -
  have b: "b = 32 * pos + shift" "shift < 32" by (simp_all add: pos shift)
  have len: "length tab2 = length tab" by (simp add: t1 t2)
  have next_in: "pos + 1 < length tab" if "shift + lg > 32" using that room b by linarith
  have x_high: "\<not> bit x k" if "lg \<le> k" for k
  proof -
    have "unat x < 2 ^ k" by (rule order_less_le_trans [OF x power_increasing [OF that]]) simp
    then show ?thesis by (simp add: limb_odd [symmetric])
  qed
  have low_bits: "\<not> bit (mpv tab) j" if "b \<le> j" for j
  proof -
    have "mpv tab < 2 ^ j" by (rule order_less_le_trans [OF low power_increasing [OF that]]) simp
    then show ?thesis by (simp add: bit_iff_odd)
  qed
  have "mpv tab2 = mpv tab OR push_bit b (unat x)"
  proof (rule bit_eqI)
    fix j :: nat
    define q m where "q = j div 32" and "m = j mod 32"
    have j: "j = 32 * q + m" "m < 32" by (simp_all add: q_def m_def)
    have rhs: "bit (mpv tab OR push_bit b (unat x)) j \<longleftrightarrow> bit (mpv tab) j \<or> b \<le> j \<and> bit x (j - b)"
      by (simp add: bit_or_iff bit_push_bit_iff bit_unsigned_iff)
    have lhs: "bit (mpv tab2) j \<longleftrightarrow> q < length tab \<and> bit (tab2 ! q) m" "bit (mpv tab) j \<longleftrightarrow> q < length tab \<and> bit (tab ! q) m"
      unfolding bit_mpv len by (simp_all add: q_def m_def)
    consider "q < pos" | "q = pos" | "q = pos + 1" | "pos + 1 < q" by linarith
    then show "bit (mpv tab2) j = bit (mpv tab OR push_bit b (unat x)) j"
    proof cases
      case 1
      then have "\<not> b \<le> j" using b j by simp
      then show ?thesis using 1 unfolding rhs unfolding lhs by (simp add: t1 t2)
    next
      case 2
      then have "tab2 ! q = tab ! q OR push_bit shift x" using in_tab by (simp add: t1 t2)
      moreover have "b \<le> j \<longleftrightarrow> shift \<le> m" "j - b = m - shift" using 2 b j by simp_all
      ultimately show ?thesis using 2 in_tab j(2) unfolding rhs unfolding lhs by (simp add: bit_or_iff bit_push_bit_iff)
    next
      case 3
      have jb: "b \<le> j" "j - b = 32 - shift + m" using 3 b j by simp_all
      show ?thesis
      proof (cases "shift + lg > 32")
        case True
        then have "tab2 ! q = tab ! q OR drop_bit (32 - shift) x" using 3 next_in by (simp add: t1 t2)
        then show ?thesis using 3 next_in [OF True] jb unfolding rhs unfolding lhs by (simp add: bit_or_iff bit_drop_bit_eq)
      next
        case False
        then have "\<not> bit x (j - b)" using jb by (intro x_high) simp
        then show ?thesis using False 3 unfolding rhs unfolding lhs by (simp add: t1 t2)
      qed
    next
      case 4
      then have "32 \<le> j - b" using b j by simp
      then have "\<not> bit x (j - b)" using lg by (intro x_high) simp
      then show ?thesis using 4 unfolding rhs unfolding lhs by (simp add: t1 t2)
    qed
  qed
  also have "\<dots> = mpv tab + unat x * 2 ^ b" using nat_or_add [OF low, of "unat x"] by (simp add: push_bit_eq_mult)
  finally show ?thesis .
qed

lemma bin_loop_value:
  assumes lg: "0 < lg" "lg \<le> 5"
  shows "\<forall>c \<in> set chs. to_digit c < 2 ^ lg \<Longrightarrow> mpv tab < 2 ^ (i * lg) \<Longrightarrow> (i + length chs) * lg \<le> 32 * length tab \<Longrightarrow>
    \<exists>tab'. bin_loop (2 ^ lg) lg chs i tab = Some tab' \<and> length tab' = length tab
      \<and> mpv tab' = mpv tab + 2 ^ (i * lg) * read_digits (2 ^ lg) (rev chs)"
proof (induction chs arbitrary: i tab)
  case (Cons c chs)
  define b where "b = i * lg"
  define x :: limb where "x = of_nat (to_digit c)"
  have c: "to_digit c < 2 ^ lg" using Cons(2) by simp
  have "(2 :: nat) ^ lg \<le> 2 ^ 5" using lg by (intro power_increasing) simp_all
  then have ux: "unat x = to_digit c" using c by (simp add: x_def unat_of_nat)
  have room: "b + lg \<le> 32 * length tab" using Cons(4) by (simp add: b_def algebra_simps)
  then have in_tab: "b div 32 < length tab" using lg by linarith
  define t1 where "t1 = tab[b div 32 := tab ! (b div 32) OR push_bit (b mod 32) x]"
  define t2 where "t2 = (if b mod 32 + lg > 32
      then t1[b div 32 + 1 := t1 ! (b div 32 + 1) OR drop_bit (32 - b mod 32) x] else t1)"
  have v: "mpv t2 = mpv tab + to_digit c * 2 ^ b"
    using or_digit_value [of x lg tab b, OF _ _ _ room refl refl in_tab t1_def t2_def] c ux lg Cons(3) by (simp add: b_def)
  have l: "length t2 = length tab" by (simp add: t1_def t2_def)
  have "(to_digit c + 1) * 2 ^ b \<le> 2 ^ lg * 2 ^ b" using c by (intro mult_right_mono) simp_all
  then have "mpv t2 < 2 ^ ((i + 1) * lg)" using v Cons(3) by (simp add: b_def power_add algebra_simps)
  moreover have "\<forall>c \<in> set chs. to_digit c < 2 ^ lg" using Cons(2) by simp
  ultimately obtain t' where t': "bin_loop (2 ^ lg) lg chs (i + 1) t2 = Some t'" "length t' = length t2"
    "mpv t' = mpv t2 + 2 ^ ((i + 1) * lg) * read_digits (2 ^ lg) (rev chs)"
    using Cons.IH [of t2 "i + 1"] Cons(4) l by auto
  have "b div 32 + 1 < length tab" if "b mod 32 + lg > 32"
  proof -
    have "b = 32 * (b div 32) + b mod 32" by simp
    then show ?thesis using that room by linarith
  qed
  then have "bin_loop (2 ^ lg) lg (c # chs) i tab = bin_loop (2 ^ lg) lg chs (i + 1) t2"
    using c in_tab by (simp add: js_to_digit_eq Let_def b_def [symmetric] x_def [symmetric] t1_def [symmetric] t2_def)
      (auto simp: t1_def)
  then show ?case using t' l v by (simp add: read_digits_append b_def power_add algebra_simps)
qed simp

section \<open>Reading a number\<close>

lemma skip_zeros_value: "skip_zeros (p @ 0 # rest) = Some (dropWhile (\<lambda>c. c = 48) p @ 0 # rest)"
  by (induction p) simp_all

lemma to_digit_special: "to_digit 0 = 36" "to_digit 45 = 36" "to_digit 48 = 0"
  by (simp_all add: to_digit_def)

lemma read_digits_leading: "read_digits r (dropWhile (\<lambda>c. c = 48) p) = read_digits r p"
proof (induction p)
  case (Cons c p)
  have "read_digits r (48 # p) = read_digits r p"
    using read_digits_append [of r "[48]" p] by (simp add: to_digit_special)
  then show ?case using Cons by auto
qed simp

lemma strlen_value: "0 \<notin> set p \<Longrightarrow> strlen (p @ 0 # rest) = Some (length p)"
  by (simp add: strlen_def cstr_append)

text \<open>The limbs that the reader asks for: a bound of the bits of the digits, and one for the sign.\<close>

definition limbs_for :: "nat \<Rightarrow> u8 list \<Rightarrow> nat" where
  "limbs_for radix p =
     (let m = length (dropWhile (\<lambda>c. c = 48) p)
      in (if radix = 10 then (m * 27 + 7) div 8 else m * (32 - clz32 (of_nat (radix - 1)))) div 32 + 1)"

lemma decimal_bits: "(10 :: nat) ^ m \<le> 2 ^ ((m * 27 + 7) div 8)"
proof -
  define b where "b = (m * 27 + 7) div 8"
  have "27 * m \<le> 8 * b" unfolding b_def by simp
  have "((10 :: nat) ^ m) ^ 8 = (10 ^ 8) ^ m" by (simp only: power_mult [symmetric] mult.commute)
  also have "\<dots> \<le> (2 ^ 27) ^ m" by (intro power_mono) simp_all
  also have "\<dots> = 2 ^ (27 * m)" by (simp only: power_mult)
  also have "\<dots> \<le> 2 ^ (8 * b)" using \<open>27 * m \<le> 8 * b\<close> by (intro power_increasing) simp_all
  also have "\<dots> = (2 ^ b) ^ 8" by (simp only: power_mult [symmetric] mult.commute)
  finally have "((10 :: nat) ^ m) ^ 8 \<le> (2 ^ b) ^ 8" .
  then show ?thesis unfolding b_def [symmetric] by (subst (asm) power_mono_iff) simp_all
qed

text \<open>A number without a sign bit, normalized.\<close>

lemma unsigned_value:
  assumes "tab \<noteq> []" "mpv tab < 2 ^ (32 * length tab - 1)"
  shows "bval (js_bigint_normalize tab) = int (mpv tab)" "bigint_ok (js_bigint_normalize tab)"
    "length (js_bigint_normalize tab) \<le> length tab"
proof -
  define l where "l = length tab - 1"
  have l: "length tab = l + 1" using assms(1) by (cases tab) (simp_all add: l_def)
  have "mpv tab = mpv (butlast tab) + 2 ^ (32 * l) * unat (last tab)"
    using mpv_butlast_last [OF assms(1)] by (simp add: l_def)
  moreover have "mpv tab < 2 ^ (32 * l + 31)" using assms(2) by (simp add: l add.commute)
  then have "mpv tab < 2 ^ (32 * l) * 2 ^ 31" unfolding power_add .
  ultimately have "2 ^ (32 * l) * unat (last tab) < 2 ^ (32 * l) * 2 ^ 31" by linarith
  then have "unat (last tab) < 2 ^ 31" by simp
  then have "js_bigint_sign tab = 0" by (simp add: sign_last [OF assms(1)] word_less_nat_alt)
  then show "bval (js_bigint_normalize tab) = int (mpv tab)" using normalize_value(1) [OF assms(1)] bval_mpv [OF assms(1)] by simp
  show "bigint_ok (js_bigint_normalize tab)" by (rule normalize_value(2) [OF assms(1)])
  show "length (js_bigint_normalize tab) \<le> length tab" by (simp add: js_bigint_normalize_def js_bigint_normalize1_def)
qed

lemma read_decimal:
  assumes "\<forall>c \<in> set ds. to_digit c < 10" "n = (length ds * 27 + 7) div 8 div 32 + 1"
  shows "\<exists>tab. do { tab \<leftarrow> dec_loop n (ds @ 0 # rest) [0];
      if drop_bit 31 (tab ! (length tab - 1)) \<noteq> 0 then push_limb n tab 0 else Some tab } = Some tab
    \<and> tab \<noteq> [] \<and> length tab \<le> n \<and> mpv tab = read_digits 10 ds \<and> mpv tab < 2 ^ (32 * length tab - 1)"
proof -
  define b where "b = (length ds * 27 + 7) div 8"
  define v where "v = read_digits 10 ds"
  have "v < 2 ^ b" unfolding v_def b_def
    by (rule order_less_le_trans [OF read_digits_less [OF assms(1)] decimal_bits])
  have n: "n = b div 32 + 1" "b < 32 * n" using assms(2) by (simp_all add: b_def)
  have "v < 2 ^ (32 * n)" by (rule order_less_le_trans [OF \<open>v < 2 ^ b\<close> power_increasing]) (use n in simp_all)
  moreover have "\<not> to_digit 0 < 10" by (simp add: to_digit_special)
  ultimately obtain t where t: "dec_loop n (ds @ 0 # rest) [0] = Some t" "mpb_ok t" "mpv t = v"
    using dec_loop_value [of 0 ds "[0]" n rest] assms(1) by (auto simp: v_def mpb_ok_def)
  have ne: "t \<noteq> []" using t(2) by (simp add: mpb_ok_def)
  define l where "l = length t - 1"
  have l: "length t = l + 1" using ne by (cases t) (simp_all add: l_def)
  have last: "t ! (length t - 1) = last t" using ne by (simp add: last_conv_nth)
  have m: "v = mpv (butlast t) + 2 ^ (32 * l) * unat (last t)"
    using mpv_butlast_last [OF ne] t(3) by (simp add: l_def)
  have bl: "mpv (butlast t) < 2 ^ (32 * l)" using mpv_less [of "butlast t"] by (simp add: l_def)
  have p31: "(2 :: nat) ^ (32 * l + 31) = 2 ^ (32 * l) * 2147483648" by (simp add: power_add)
  show ?thesis
  proof (cases "last t < 2147483648")
    case True
    then have "2 ^ (32 * l) * (unat (last t) + 1) \<le> 2 ^ (32 * l) * 2147483648"
      by (intro mult_left_mono) (simp_all add: word_less_nat_alt)
    then have "2 ^ (32 * l) * unat (last t) + 2 ^ (32 * l) \<le> 2 ^ (32 * l) * 2147483648" by simp
    then have "v < 2 ^ (32 * l + 31)" using m bl unfolding p31 by linarith
    moreover have "length t \<le> n"
    proof (cases "l = 0")
      case False
      then have "2 ^ (32 * l) \<le> v" using t(2,3) l by (simp add: mpb_ok_value)
      then have "(2 :: nat) ^ (32 * l) < 2 ^ b" using \<open>v < 2 ^ b\<close> by linarith
      then have "32 * l < b" by (subst (asm) power_strict_increasing_iff) simp_all
      then show ?thesis using n l by linarith
    qed (use n l in simp)
    moreover have "t ! l = last t" using last l by simp
    ultimately show ?thesis using t ne True l by (simp add: drop_bit_31 v_def add.commute)
  next
    case False
    then have "2 ^ (32 * l) * 2147483648 \<le> 2 ^ (32 * l) * unat (last t)"
      by (intro mult_left_mono) (simp_all add: word_less_nat_alt)
    then have "(2 :: nat) ^ (32 * l + 31) < 2 ^ b" using m \<open>v < 2 ^ b\<close> unfolding p31 by linarith
    then have "32 * l + 31 < b" by (subst (asm) power_strict_increasing_iff) simp_all
    then have room: "length t < n" using n(1) l by linarith
    have "v < 2 ^ (32 * length t)" using mpv_less [of t] t(3) by simp
    also have "(2 :: nat) ^ (32 * length t) \<le> 2 ^ (32 * (length t + 1) - 1)" by (intro power_increasing) simp_all
    finally have "v < 2 ^ (32 * (length t + 1) - 1)" .
    moreover have "mpv (t @ [0]) = v" using t(3) mpv_app [of t "[0]"] by simp
    ultimately show ?thesis using t False room by (simp add: last [unfolded One_nat_def] drop_bit_31 v_def push_limb_def)
  qed
qed

lemma read_binary:
  assumes "0 < lg" "lg \<le> 5" "\<forall>c \<in> set ds. to_digit c < 2 ^ lg" "n = length ds * lg div 32 + 1"
  shows "\<exists>tab. bin_loop (2 ^ lg) lg (rev ds) 0 (replicate n 0) = Some tab
    \<and> tab \<noteq> [] \<and> length tab \<le> n \<and> mpv tab = read_digits (2 ^ lg) ds \<and> mpv tab < 2 ^ (32 * length tab - 1)"
proof -
  have n: "length ds * lg < 32 * n" using assms(4) by simp
  have z: "mpv (replicate n 0) = 0" using mpv_zeros [of n "[]"] by simp
  obtain t where t: "bin_loop (2 ^ lg) lg (rev ds) 0 (replicate n 0) = Some t" "length t = n"
    "mpv t = read_digits (2 ^ lg) ds"
    using bin_loop_value [OF assms(1,2), of "rev ds" "replicate n 0" 0] assms(3) n z by auto
  have "read_digits (2 ^ lg) ds < (2 ^ lg) ^ length ds" by (rule read_digits_less [OF assms(3)])
  also have "\<dots> \<le> 2 ^ (32 * n - 1)" unfolding power_mult [symmetric]
    using n by (intro power_increasing) (simp_all add: mult.commute)
  finally show ?thesis using t assms(4) by auto
qed

lemma radix_log:
  assumes "radix \<in> {2, 8, 10, 16}" "radix \<noteq> 10"
  obtains lg where "0 < lg" "lg \<le> 5" "radix = 2 ^ lg" "32 - clz32 (of_nat (radix - 1)) = lg"
proof -
  from assms consider "radix = 2" | "radix = 8" | "radix = 16" by auto
  then show ?thesis
  proof cases
    case 1
    then show ?thesis by (intro that [of 1]) (simp_all add: clz32_def bit_len.simps)
  next
    case 2
    then show ?thesis by (intro that [of 3]) (simp_all add: clz32_def bit_len.simps)
  next
    case 3
    then show ?thesis by (intro that [of 4]) (simp_all add: clz32_def bit_len.simps)
  qed
qed

lemma many_digits:
  assumes "radix \<in> {2, 8, 10, 16}" "JS_BIGINT_MAX_SIZE * 32 < length (dropWhile (\<lambda>c. c = 48) p)"
  shows "JS_BIGINT_MAX_SIZE < limbs_for radix p"
proof -
  define m where "m = length (dropWhile (\<lambda>c. c = 48) p)"
  define b where "b = (if radix = 10 then (m * 27 + 7) div 8 else m * (32 - clz32 (of_nat (radix - 1))))"
  have "m \<le> b"
  proof (cases "radix = 10")
    case False
    then obtain lg where "0 < lg" "32 - clz32 (of_nat (radix - 1)) = lg" using radix_log [OF assms(1)] by metis
    then show ?thesis using False by (simp add: b_def)
  qed (simp add: b_def)
  then have "JS_BIGINT_MAX_SIZE * 32 \<le> b" using assms(2) by (simp add: m_def)
  then have "JS_BIGINT_MAX_SIZE \<le> b div 32" by (simp add: less_eq_div_iff_mult_less_eq)
  then show ?thesis by (simp add: limbs_for_def m_def [symmetric] b_def [symmetric] Let_def)
qed

lemma signed_text_start:
  fixes neg :: bool and rest :: "u8 list"
  assumes "\<forall>c \<in> set p. to_digit c < radix" "radix \<le> 36"
  defines "str \<equiv> (if neg then [45] else []) @ p @ 0 # rest"
  shows "rd str 0 = Some (str ! 0)" "str ! 0 = 45 \<longleftrightarrow> neg" "(if neg then drop 1 str else str) = p @ 0 # rest"
  using assms(1,2) by (cases p; auto simp: str_def to_digit_special)+

lemma from_string_value:
  assumes radix: "radix \<in> {2, 8, 10, 16}" and p: "\<forall>c \<in> set p. to_digit c < radix"
  shows "\<exists>r. js_bigint_from_string mok ((if neg then [45] else []) @ p @ 0 # rest) radix = Some r
    \<and> bigint_outcome mok (limbs_for radix p) ((if neg then - 1 else 1) * int (read_digits radix p)) r"
proof -
  define ds where "ds = dropWhile (\<lambda>c. c = 48) p"
  have ds: "\<forall>c \<in> set ds. to_digit c < radix" using p set_dropWhileD [of _ "\<lambda>c. c = 48" p] by (auto simp: ds_def)
  have r36: "radix \<le> 36" using radix by auto
  have "0 \<notin> set ds" using ds r36 to_digit_special(1) by fastforce
  note len = strlen_value [OF this, of rest]
  note start = signed_text_start [OF p r36, of neg rest]
  define lg where "lg = 32 - clz32 (of_nat (radix - 1))"
  define n where "n = limbs_for radix p"
  have n: "n = (if radix = 10 then (length ds * 27 + 7) div 8 else length ds * lg) div 32 + 1"
    by (simp add: n_def limbs_for_def ds_def lg_def Let_def)
  define fill where "fill = (if radix = 10 then do {
      tab \<leftarrow> dec_loop n (ds @ 0 # rest) [0];
      if drop_bit 31 (tab ! (length tab - 1)) \<noteq> 0 then push_limb n tab 0 else Some tab }
    else bin_loop radix lg (rev ds) 0 (replicate n 0))"
  have "\<exists>tab. fill = Some tab \<and> tab \<noteq> [] \<and> length tab \<le> n \<and> mpv tab = read_digits radix ds \<and> mpv tab < 2 ^ (32 * length tab - 1)"
  proof (cases "radix = 10")
    case True
    then show ?thesis using read_decimal [of ds n rest] ds n unfolding fill_def by simp
  next
    case False
    obtain k where k: "0 < k" "k \<le> 5" "radix = 2 ^ k" "lg = k" using radix_log [OF radix False] unfolding lg_def by metis
    then show ?thesis using read_binary [OF k(1,2), of ds n] ds n False unfolding fill_def by simp
  qed
  then obtain tab where tab: "fill = Some tab" "tab \<noteq> []" "length tab \<le> n" "mpv tab = read_digits radix p"
    "mpv tab < 2 ^ (32 * length tab - 1)" by (auto simp: ds_def read_digits_leading)
  note u = unsigned_value [OF tab(2,5), unfolded tab(4)]
  define r where "r = js_bigint_normalize tab"
  have mx: "max 1 n = n" by (simp add: n)
  have tk: "take (length ds) (ds @ 0 # rest) = ds" by simp
  have code: "js_bigint_from_string mok ((if neg then [45] else []) @ p @ 0 # rest) radix =
      (if length ds > JS_BIGINT_MAX_SIZE * 32 then Some (Inl Too_large)
       else case js_bigint_new mok n (\<lambda>_. Inr []) of
         Inl e \<Rightarrow> Some (Inl e)
       | Inr _ \<Rightarrow> do { tab \<leftarrow> fill; let r = js_bigint_normalize tab; Some (if neg then js_bigint_neg mok r else Inr r) })"
    unfolding js_bigint_from_string_def start(1) Let_def Option.bind.simps start(2,3) skip_zeros_value
      ds_def [symmetric] len lg_def [symmetric] if_distrib [of "\<lambda>b. b div 32 + 1", symmetric] n [symmetric] mx tk
    unfolding fill_def by (rule refl)
  show ?thesis
  proof (cases "length ds > JS_BIGINT_MAX_SIZE * 32")
    case True
    then show ?thesis unfolding code using many_digits [OF radix] by (simp add: bigint_outcome_def ds_def)
  next
    case False
    show ?thesis
    proof (cases "js_bigint_new mok n (\<lambda>_. Inr [])")
      case (Inl e)
      then show ?thesis unfolding code using False n_def
        by (auto simp: bigint_outcome_def js_bigint_new_def split: if_splits)
    next
      case (Inr x)
      have neg_out: "bigint_outcome mok n (- bval r) (js_bigint_neg mok r)"
        using neg_outcome [of r mok] u tab(3) unfolding r_def bigint_outcome_def by (auto split: sum.splits)
      have v: "(if neg then - 1 else 1) * int (read_digits radix p) = (if neg then - bval r else bval r)"
        using u by (simp add: r_def)
      show ?thesis unfolding code n_def [symmetric] v using False Inr neg_out u(2)
        by (simp add: tab(1) r_def [symmetric] bigint_outcome_def)
    qed
  qed
qed

text \<open>
  The limbs are reckoned with 27 bits for 8 decimal digits. So there are numbers below the size limit
  whose decimal text is refused.
\<close>

lemma decimal_text_refused:
  assumes "\<forall>c \<in> set p. to_digit c < 10" "hd p \<noteq> 48" "310689 \<le> length p" "length p \<le> 314572"
  shows "js_bigint_from_string mok (p @ 0 # rest) 10 = Some (Inl Too_large)"
    "read_digits 10 p < 2 ^ (JS_BIGINT_MAX_SIZE * 32 - 1)"
proof -
  obtain c q where cq: "p = c # q" using assms(3) by (cases p) simp_all
  then have dw: "dropWhile (\<lambda>c. c = 48) p = p" using assms(2) by simp
  have c45: "rd (p @ 0 # rest) 0 = Some c" "c \<noteq> 45" using assms(1) to_digit_special(2) by (auto simp: cq)
  have "0 \<notin> set p" using assms(1) to_digit_special(1) by fastforce
  note len = strlen_value [OF this, of rest]
  have size: "JS_BIGINT_MAX_SIZE = 32768" by (simp add: JS_BIGINT_MAX_SIZE_def)
  have "32768 * 32 \<le> (length p * 27 + 7) div 8" using assms(3) by simp
  then have "JS_BIGINT_MAX_SIZE < max 1 ((length p * 27 + 7) div 8 div 32 + 1)" unfolding size by simp
  moreover have "\<not> length p > JS_BIGINT_MAX_SIZE * 32" using assms(4) unfolding size by simp
  ultimately show "js_bigint_from_string mok (p @ 0 # rest) 10 = Some (Inl Too_large)"
    unfolding js_bigint_from_string_def c45(1) Option.bind.simps Let_def
    using c45(2) by (simp add: skip_zeros_value dw len js_bigint_new_def)
  have "((10 :: nat) ^ length p) ^ 3 = (10 ^ 3) ^ length p" by (simp only: power_mult [symmetric] mult.commute)
  also have "\<dots> \<le> (2 ^ 10) ^ length p" by (intro power_mono) simp_all
  also have "\<dots> = 2 ^ (10 * length p)" by (simp only: power_mult)
  also have "\<dots> \<le> 2 ^ (3 * (JS_BIGINT_MAX_SIZE * 32 - 1))"
    using assms(4) unfolding size by (intro power_increasing) simp_all
  also have "\<dots> = (2 ^ (JS_BIGINT_MAX_SIZE * 32 - 1)) ^ 3" by (simp only: power_mult [symmetric] mult.commute)
  finally have "((10 :: nat) ^ length p) ^ 3 \<le> (2 ^ (JS_BIGINT_MAX_SIZE * 32 - 1)) ^ 3" .
  then have "(10 :: nat) ^ length p \<le> 2 ^ (JS_BIGINT_MAX_SIZE * 32 - 1)" by (subst (asm) power_mono_iff) simp_all
  then show "read_digits 10 p < 2 ^ (JS_BIGINT_MAX_SIZE * 32 - 1)"
    using read_digits_less [OF assms(1)] by (rule order_less_le_trans [rotated])
qed

section \<open>Properties\<close>

text \<open>Property C12 (functional):
  \<open>js_bigint_to_string1\<close> writes the number. For every radix from 2 to 36 it returns, without
  leaving its buffer or the number, the digits of the absolute value, most significant first and
  without leading zeros, after a minus sign if the number is negative; or an exception, a range error
  only for a number above the size limit and an out-of-memory error only if an allocation is refused.
  Small numbers, which the value holds itself, powers of two, which are read bit by bit, and
  other radices, which divide by the largest power that fits a limb, give the same text.\<close>

theorem js_bigint_to_string_correct:
  assumes "bigint_ok a" "2 \<le> unat radix" "unat radix \<le> 36"
  shows "\<exists>r. js_bigint_to_string1 mok aok sok (JS_CompactBigInt a) radix = Some r
    \<and> text_outcome (all_granted mok aok sok) (length a) (int_str (unat radix) (bval a)) r"
  by (rule to_string_value [OF assms])

theorem js_bigint_to_string_correct_witness:
  "js_bigint_to_string1 (\<lambda>_. True) (\<lambda>_. True) (\<lambda>_. True) (JS_CompactBigInt [0, 1]) 16
    = Some (Inr [49, 48, 48, 48, 48, 48, 48, 48, 48])"
  using js_bigint_to_string_correct [of "[0, 1]" 16 "\<lambda>_. True" "\<lambda>_. True" "\<lambda>_. True"]
  by (simp add: bigint_ok_def text_outcome_granted int_str_def digits_of.simps digit_char_def JS_BIGINT_MAX_SIZE_def)

text \<open>Property C28 (functional):
  \<open>js_bigint_from_string\<close> reads the number. From a text of digits in radix 2, 8, 10 or 16, with or
  without a minus sign and leading zeros, it stays inside the limbs it has allocated and returns the
  number that the digits denote, in the fewest limbs; or an exception, a range error only if the limbs
  reckoned from the number of digits exceed the limit, an out-of-memory error only if an allocation is
  refused.\<close>

theorem js_bigint_from_string_correct:
  assumes "radix \<in> {2, 8, 10, 16}" "\<forall>c \<in> set p. to_digit c < radix"
  shows "\<exists>r. js_bigint_from_string mok ((if neg then [45] else []) @ p @ 0 # rest) radix = Some r
    \<and> bigint_outcome mok (limbs_for radix p) ((if neg then - 1 else 1) * int (read_digits radix p)) r"
  by (rule from_string_value [OF assms])

theorem js_bigint_from_string_correct_witness:
  "\<exists>r. js_bigint_from_string (\<lambda>_. True) [45, 48, 57, 57, 0] 10 = Some r \<and> bigint_outcome (\<lambda>_. True) 1 (- 99) r"
  using js_bigint_from_string_correct [of 10 "[48, 57, 57]" "\<lambda>_. True" True "[]"]
  by (simp add: to_digit_def read_digits_def limbs_for_def)

text \<open>Property C13 (roundtrip):
  The text of a big integer in radix 2, 8, 10 or 16 reads back as that number, limb for limb. The reader
  can only fail for want of memory, or because the limbs it reckons for so many digits exceed the
  limit, which for decimal digits are more than the number needs.\<close>

theorem js_bigint_string_roundtrip:
  assumes "bigint_ok a" "unat radix \<in> {2, 8, 10, 16}"
    "js_bigint_to_string1 mok aok sok (JS_CompactBigInt a) radix = Some (Inr s)"
  shows "\<exists>r. js_bigint_from_string mok (s @ [0]) (unat radix) = Some r
    \<and> (case r of Inr z \<Rightarrow> z = a
       | Inl e \<Rightarrow> e = Too_large \<and> JS_BIGINT_MAX_SIZE < limbs_for (unat radix) (digits_of (unat radix) (nat \<bar>bval a\<bar>))
           \<or> e = Out_of_memory \<and> \<not> (\<forall>k. mok k))"
proof -
  define p where "p = digits_of (unat radix) (nat \<bar>bval a\<bar>)"
  have r: "2 \<le> unat radix" "unat radix \<le> 36" using assms(2) by auto
  have s: "s = (if bval a < 0 then [45] else []) @ p"
    using to_string_value [OF assms(1) r, of mok aok sok] assms(3)
    by (auto simp: text_outcome_def int_str_def p_def)
  have p: "read_digits (unat radix) p = nat \<bar>bval a\<bar>" "\<forall>c \<in> set p. to_digit c < unat radix"
    using read_digits_of [OF r] by (simp_all add: p_def)
  have v: "(if bval a < 0 then - 1 else 1) * int (read_digits (unat radix) p) = bval a" by (simp add: p(1))
  have "\<exists>r. js_bigint_from_string mok (s @ [0]) (unat radix) = Some r
      \<and> bigint_outcome mok (limbs_for (unat radix) p) (bval a) r"
    using from_string_value [OF assms(2) p(2), of mok "bval a < 0" "[]"] unfolding v by (simp add: s)
  then show ?thesis unfolding p_def [symmetric] using bval_inject [OF _ assms(1)]
    by (auto simp: bigint_outcome_def split: sum.splits)
qed

theorem js_bigint_string_roundtrip_witness:
  "\<exists>r. js_bigint_from_string (\<lambda>_. True) ([45, 49, 48, 48, 48, 48, 48, 48, 48, 48] @ [0]) 16 = Some r \<and> r = Inr [0, - 1]"
proof -
  have t: "js_bigint_to_string1 (\<lambda>_. True) (\<lambda>_. True) (\<lambda>_. True) (JS_CompactBigInt [0, - 1]) 16
      = Some (Inr [45, 49, 48, 48, 48, 48, 48, 48, 48, 48])"
    using to_string_value [of "[0, - 1]" 16 "\<lambda>_. True" "\<lambda>_. True" "\<lambda>_. True"]
    by (simp add: bigint_ok_def text_outcome_granted int_str_def digits_of.simps digit_char_def JS_BIGINT_MAX_SIZE_def)
  have "bigint_ok [0, - 1]" "unat (16 :: u32) \<in> {2, 8, 10, 16}" by (simp_all add: bigint_ok_def)
  from js_bigint_string_roundtrip [OF this t] obtain r where
    r: "js_bigint_from_string (\<lambda>_. True) ([45, 49, 48, 48, 48, 48, 48, 48, 48, 48] @ [0]) 16 = Some r"
    "case r of Inr z \<Rightarrow> z = [0, - 1]
      | Inl e \<Rightarrow> e = Too_large \<and> JS_BIGINT_MAX_SIZE < limbs_for 16 (digits_of 16 4294967296)"
    by (force cong: sum.case_cong)
  have "\<not> JS_BIGINT_MAX_SIZE < limbs_for 16 (digits_of 16 4294967296)"
    by (simp add: limbs_for_def digits_of.simps digit_char_def JS_BIGINT_MAX_SIZE_def clz32_def bit_len.simps Let_def)
  then have "r = Inr [0, - 1]" using r(2) by (cases r) simp_all
  then show ?thesis using r(1) by blast
qed

end
