(* ===== verification/DateCalc.thy ===== *)
theory DateCalc
  imports Prelude "HOL-Library.Signed_Division"
begin

text \<open>
  Dates (\<^verbatim>\<open>quickjs/quickjs.c\<close>, \<open>math_mod\<close> to \<open>set_date_fields\<close>): from milliseconds since 1970 to the
  fields of a date and back. Fields and times are integers; division and remainder are those of C
  (\<open>sdiv\<close>, \<open>smod\<close>). Time values reach to \<open>8.64e15\<close>, so that no 64-bit operation overflows
  (\<open>year_arithmetic_fits\<close>), and for other values, which no date holds, the integers of the model do not
  wrap. Where the code computes with doubles, in \<open>set_date_fields\<close>, the model
  has a result only if all products and sums are at most \<open>2^53\<close> and thus exact; only the sum of the
  year and the months' years is not checked, because a sum that large is refused, rounded or not. A time value is
  \<open>Not_a_number\<close> or a number of milliseconds. The host's time zone is the parameter \<open>tzo\<close>
  (\<open>getTimezoneOffset\<close>, in minutes). Fields are a list: year, month, day, hour, minute, second,
  millisecond, week day, offset.
\<close>

section \<open>The code\<close>

definition math_mod :: "int \<Rightarrow> int \<Rightarrow> int" where
  "math_mod a b = (let m = a smod b in m + of_bool (m < 0) * b)"

definition floor_div_int64 :: "int \<Rightarrow> int \<Rightarrow> int" where
  "floor_div_int64 a b = (let m = a smod b in (a - (m + of_bool (m < 0) * b)) sdiv b)"

definition days_from_year :: "int \<Rightarrow> int" where
  "days_from_year y = 365 * (y - 1970) + floor_div_int64 (y - 1969) 4 -
     floor_div_int64 (y - 1901) 100 + floor_div_int64 (y - 1601) 400"

definition days_in_year :: "int \<Rightarrow> int" where
  "days_in_year y = 365 + of_bool (y smod 4 = 0) - of_bool (y smod 100 = 0) + of_bool (y smod 400 = 0)"

text \<open>The loop computes \<open>d1\<close> from \<open>d\<close> in each round; only \<open>y\<close> lives on.\<close>

partial_function (option) year_loop :: "int \<Rightarrow> int \<Rightarrow> (int \<times> int) option" where
  "year_loop d y =
     (let d1 = d - days_from_year y in
      if d1 < 0 then year_loop d (y - 1)
      else let nd = days_in_year y in if d1 < nd then Some (y, d1) else year_loop d (y + 1))"

definition year_from_days :: "int \<Rightarrow> (int \<times> int) option" where
  "year_from_days d = year_loop d (floor_div_int64 (d * 10000) 3652425 + 1970)"

definition month_days :: "int list" where
  "month_days = [31, 28, 31, 30, 31, 30, 31, 31, 30, 31, 30, 31]"

text \<open>The length of month \<open>i\<close>, as the loops over the months compute it.\<close>

definition days_in_month :: "int \<Rightarrow> nat \<Rightarrow> int" where
  "days_in_month y i = (let md = month_days ! i in if i = 1 then md + (days_in_year y - 365) else md)"

function month_loop :: "int \<Rightarrow> nat \<Rightarrow> int \<Rightarrow> nat \<times> int" where
  "month_loop y i days =
     (if i < 11 then let md = days_in_month y i in
        if days < md then (i, days) else month_loop y (i + 1) (days - md)
      else (i, days))"
  by pat_completeness auto
termination by (relation "measure (\<lambda>(y, i, days). 11 - i)") auto

declare month_loop.simps [simp del]

datatype time_value = Not_a_number | Time int

text \<open>\<open>Some None\<close> stands for the result \<open>false\<close>: the date is not a number.\<close>

definition get_date_fields :: "(int \<Rightarrow> int) \<Rightarrow> time_value \<Rightarrow> bool \<Rightarrow> bool \<Rightarrow> int list option option" where
  "get_date_fields tzo dval is_local force =
     (if dval = Not_a_number \<and> \<not> force then Some None
      else
        let (d, tz) = (case dval of
              Not_a_number \<Rightarrow> (0, 0)
            | Time d \<Rightarrow> if is_local then let tz = - tzo d in (d + tz * 60000, tz) else (d, 0));
            h = math_mod d 86400000;
            days = (d - h) sdiv 86400000;
            ms = h smod 1000;
            h = (h - ms) sdiv 1000;
            s = h smod 60;
            h = (h - s) sdiv 60;
            m = h smod 60;
            h = (h - m) sdiv 60;
            wd = math_mod (days + 4) 7
        in do {
          (y, days) \<leftarrow> year_from_days days;
          let (i, days) = month_loop y 0 days;
          Some (Some [y, int i, days + 1, h, m, s, ms, wd, tz]) })"

definition time_clip :: "int \<Rightarrow> time_value" where
  "time_clip t = (if t \<ge> - 8640000000000000 \<and> t \<le> 8640000000000000 then Time t else Not_a_number)"

text \<open>An integer that a double represents.\<close>

definition exact :: "int \<Rightarrow> int option" where
  "exact x = (if \<bar>x\<bar> \<le> 2 ^ 53 then Some x else None)"

fun month_sum :: "int \<Rightarrow> nat \<Rightarrow> int" where
  "month_sum yi 0 = 0"
| "month_sum yi (Suc i) = month_sum yi i + days_in_month yi i"

definition set_date_fields :: "(int \<Rightarrow> int) \<Rightarrow> int list \<Rightarrow> bool \<Rightarrow> time_value option" where
  "set_date_fields tzo fields is_local =
     (let y = fields ! 0; m = fields ! 1; dt = fields ! 2;
          ym = y + m div 12;
          mn = m smod 12;
          mn = (if mn < 0 then mn + 12 else mn)
      in if ym < - 271821 \<or> ym > 275760 then Some Not_a_number
         else
           let days = days_from_year ym + month_sum ym (nat mn); day = days + dt - 1;
               h = fields ! 3; m = fields ! 4; s = fields ! 5; milli = fields ! 6
           in do {
             day \<leftarrow> exact day;
             time \<leftarrow> exact (h * 3600000);
             temp \<leftarrow> exact (m * 60000);
             time \<leftarrow> exact (time + temp);
             temp \<leftarrow> exact (s * 1000);
             time \<leftarrow> exact (time + temp);
             time \<leftarrow> exact (time + milli);
             temp \<leftarrow> exact (day * 86400000);
             tv \<leftarrow> exact (temp + time);
             tv \<leftarrow> (if is_local then exact (tv + tzo tv * 60000) else Some tv);
             Some (time_clip tv) })"

section \<open>Years\<close>

lemma smod_zero: "a smod b = 0 \<longleftrightarrow> b dvd a" for a b :: int
  by (auto simp: signed_modulo_int_def sgn_if mod_eq_0_iff_dvd)

lemma smod_nonneg: "0 \<le> a \<Longrightarrow> 0 < b \<Longrightarrow> a smod b = a mod b" for a b :: int
  by (simp add: signed_modulo_int_def sgn_if)

lemma sdiv_dvd: "b dvd a \<Longrightarrow> a sdiv b = a div b" for a b :: int
  by (simp add: signed_divide_int_eq_divide_int)

lemma math_mod_eq: "0 < b \<Longrightarrow> math_mod a b = a mod b"
proof -
  assume b: "0 < b"
  define m where "m = a smod b"
  have e: "a = b * (a sdiv b) + m" by (simp add: m_def mult_sdiv_smod_eq)
  have r: "\<bar>m\<bar> < b" using b by (simp add: m_def signed_modulo_int_def abs_mult abs_sgn_eq)
  have "a mod b = (m + of_bool (m < 0) * b) mod b" by (subst e) simp
  also have "\<dots> = m + of_bool (m < 0) * b" using r by (intro mod_pos_pos_trivial) (auto simp: abs_if split: if_splits)
  finally show ?thesis by (simp add: math_mod_def m_def Let_def)
qed

lemma floor_div_eq: "0 < b \<Longrightarrow> floor_div_int64 a b = a div b"
proof -
  assume b: "0 < b"
  have "floor_div_int64 a b = (a - math_mod a b) sdiv b" by (simp add: floor_div_int64_def math_mod_def Let_def)
  also have "\<dots> = (a - a mod b) div b" by (simp add: math_mod_eq [OF b] sdiv_dvd dvd_minus_mod)
  also have "\<dots> = a div b" using b by (simp add: minus_mod_eq_div_mult)
  finally show ?thesis .
qed

lemma days_from_year_eq:
  "days_from_year y = 365 * (y - 1970) + (y - 1969) div 4 - (y - 1901) div 100 + (y - 1601) div 400"
  by (simp add: days_from_year_def floor_div_eq)

lemma days_in_year_eq: "days_in_year y = 365 + of_bool (4 dvd y) - of_bool (100 dvd y) + of_bool (400 dvd y)"
  by (simp add: days_in_year_def smod_zero)

lemma div_next:
  fixes a n :: int
  assumes "0 < n"
  shows "(a + 1) div n = a div n + of_bool (n dvd a + 1)"
proof -
  define q r where "q = a div n" and "r = a mod n"
  have a: "a = n * q + r" "0 \<le> r" "r < n" using assms by (simp_all add: q_def r_def)
  show ?thesis
  proof (cases "r + 1 = n")
    case True
    then have "a + 1 = n * (q + 1)" using a by (simp add: algebra_simps)
    then show ?thesis using assms by (simp flip: q_def)
  next
    case False
    have e: "a + 1 = n * q + (r + 1)" using a by simp
    have "(a + 1) div n = q" "(a + 1) mod n = r + 1"
      using False a(2,3) by (intro int_div_pos_eq [OF e] int_mod_pos_eq [OF e]; simp)+
    moreover have "r + 1 \<noteq> 0" using a by simp
    ultimately show ?thesis by (simp add: q_def dvd_eq_mod_eq_0)
  qed
qed

lemma dvd_minus_multiple: "n dvd c \<Longrightarrow> n dvd y - c \<longleftrightarrow> n dvd y" for n c y :: int
  using dvd_diff [of n y c] dvd_add [of n "y - c" c] by auto

lemma days_in_year_bounds: "365 \<le> days_in_year y" "days_in_year y \<le> 366"
proof -
  have "100 dvd y \<Longrightarrow> 4 dvd y" "400 dvd y \<Longrightarrow> 100 dvd y" by (auto intro: dvd_trans [of _ 100] dvd_trans [of _ 400])
  then show "365 \<le> days_in_year y" "days_in_year y \<le> 366" by (auto simp: days_in_year_eq)
qed

lemma next_year: "days_from_year (y + 1) = days_from_year y + days_in_year y"
proof -
  have "(y - 1968) div 4 = (y - 1969) div 4 + of_bool (4 dvd y - 1968)" using div_next [of 4 "y - 1969"] by simp
  moreover have "(y - 1900) div 100 = (y - 1901) div 100 + of_bool (100 dvd y - 1900)" using div_next [of 100 "y - 1901"] by simp
  moreover have "(y - 1600) div 400 = (y - 1601) div 400 + of_bool (400 dvd y - 1600)" using div_next [of 400 "y - 1601"] by simp
  moreover have "4 dvd y - 1968 \<longleftrightarrow> 4 dvd y" "100 dvd y - 1900 \<longleftrightarrow> 100 dvd y" "400 dvd y - 1600 \<longleftrightarrow> 400 dvd y"
    by (intro dvd_minus_multiple; simp)+
  ultimately show ?thesis by (simp add: days_from_year_eq days_in_year_eq)
qed

lemma year_loop_value:
  "\<exists>y' d1. year_loop d y = Some (y', d1) \<and> 0 \<le> d1 \<and> d1 < days_in_year y' \<and> d = days_from_year y' + d1"
proof (induction "nat \<bar>d - days_from_year y\<bar>" arbitrary: y rule: less_induct)
  case less
  define d1 where "d1 = d - days_from_year y"
  note nd = days_in_year_bounds(1) [of y] days_in_year_bounds [of "y - 1"]
  have prev: "days_from_year y = days_from_year (y - 1) + days_in_year (y - 1)" using next_year [of "y - 1"] by simp
  consider "d1 < 0" "d1 + days_in_year (y - 1) < 0" | "d1 < 0" "0 \<le> d1 + days_in_year (y - 1)"
    | "0 \<le> d1" "d1 < days_in_year y" | "days_in_year y \<le> d1" by linarith
  then show ?case
  proof cases
    case 1
    then have "nat \<bar>d - days_from_year (y - 1)\<bar> < nat \<bar>d - days_from_year y\<bar>" using prev nd by (simp add: d1_def)
    from less [OF this] show ?thesis using 1 by (subst year_loop.simps) (simp add: d1_def Let_def)
  next
    case 2
    then have "year_loop d (y - 1) = Some (y - 1, d1 + days_in_year (y - 1))"
      using prev by (subst year_loop.simps) (simp add: d1_def Let_def)
    then have "year_loop d y = Some (y - 1, d1 + days_in_year (y - 1))"
      using 2 by (subst year_loop.simps) (simp add: d1_def Let_def)
    then show ?thesis using 2 prev by (simp add: d1_def)
  next
    case 3
    then show ?thesis by (subst year_loop.simps) (simp add: d1_def Let_def)
  next
    case 4
    then have "nat \<bar>d - days_from_year (y + 1)\<bar> < nat \<bar>d - days_from_year y\<bar>" using next_year [of y] nd by (simp add: d1_def)
    from less [OF this] show ?thesis using 4 nd by (subst year_loop.simps) (simp add: d1_def Let_def)
  qed
qed

lemma days_from_year_mono: "y < z \<Longrightarrow> days_from_year y + days_in_year y \<le> days_from_year z"
proof (induction z rule: int_gr_induct)
  case base
  then show ?case by (simp add: next_year)
next
  case (step z)
  then show ?case using next_year [of z] days_in_year_bounds(1) [of z] by linarith
qed

text \<open>A day belongs to one year.\<close>

lemma year_unique:
  assumes "0 \<le> a" "a < days_in_year y" "0 \<le> b" "b < days_in_year z" "days_from_year y + a = days_from_year z + b"
  shows "y = z \<and> a = b"
  using days_from_year_mono [of y z] days_from_year_mono [of z y] assms by (cases y z rule: linorder_cases) simp_all

lemma year_from_days_value:
  assumes "0 \<le> a" "a < days_in_year y"
  shows "year_from_days (days_from_year y + a) = Some (y, a)"
  using year_loop_value [of "days_from_year y + a"] year_unique [OF assms] unfolding year_from_days_def by metis

section \<open>Months and the time of day\<close>

lemma days_in_month_cases:
  "i < 12 \<Longrightarrow> days_in_month y i \<in> {28, 29, 30, 31}"
proof -
  assume i: "i < 12"
  have "i \<in> set [0, 1, 2, 3, 4, 5, 6, 7, 8, 9, 10, 11]" using i by (simp, presburger)
  moreover have "days_in_year y = 365 \<or> days_in_year y = 366" using days_in_year_bounds [of y] by linarith
  ultimately show ?thesis by (auto simp: days_in_month_def month_days_def)
qed

lemma days_in_month_pos: "i < 12 \<Longrightarrow> 28 \<le> days_in_month y i \<and> days_in_month y i \<le> 31"
  using days_in_month_cases [of i y] by auto

lemma month_sum_year: "month_sum y 12 = days_in_year y"
  by (simp add: eval_nat_numeral days_in_month_def month_days_def)

lemma month_loop_value:
  assumes "month_loop y i days = (j, r)" "i \<le> 11" "0 \<le> days" "month_sum y i + days < days_in_year y"
  shows "j \<le> 11 \<and> 0 \<le> r \<and> r < days_in_month y j \<and> month_sum y i + days = month_sum y j + r"
  using assms
proof (induction y i days rule: month_loop.induct)
  case (1 y i days)
  show ?case
  proof (cases "i < 11 \<and> days_in_month y i \<le> days")
    case True
    then have m: "month_loop y (i + 1) (days - days_in_month y i) = (j, r)" using 1(2)
      by (subst (asm) month_loop.simps) (simp add: Let_def)
    show ?thesis using 1(1) [OF _ refl _ m] True 1(5) by simp
  next
    case False
    then have e: "j = i" "r = days" using 1(2)
      by (subst (asm) month_loop.simps; simp add: Let_def split: if_splits)+
    have "days < days_in_month y i"
    proof (cases "i = 11")
      case True
      have "month_sum y 11 + days_in_month y 11 = days_in_year y"
        using month_sum_year [of y] by (simp add: eval_nat_numeral)
      then show ?thesis using 1(5) True by simp
    qed (use False 1(3) in simp)
    then show ?thesis using e 1(3,4) by simp
  qed
qed

lemma month_sum_mono: "i \<le> j \<Longrightarrow> j \<le> 12 \<Longrightarrow> month_sum y i \<le> month_sum y j"
proof (induction j)
  case (Suc j)
  then show ?case using days_in_month_pos [of j y] by (cases "i = Suc j") auto
qed simp

text \<open>A day of a year belongs to one month.\<close>

lemma month_unique:
  assumes "0 \<le> a" "a < days_in_month y i" "0 \<le> b" "b < days_in_month y j" "i < 12" "j < 12"
    "month_sum y i + a = month_sum y j + b"
  shows "i = j \<and> a = b"
proof (cases i j rule: linorder_cases)
  case less
  then show ?thesis using month_sum_mono [of "Suc i" j y] assms by simp
next
  case greater
  then show ?thesis using month_sum_mono [of "Suc j" i y] assms by simp
qed (use assms(7) in simp)

text \<open>The milliseconds that valid fields denote, and what makes fields valid.\<close>

definition time_of :: "int list \<Rightarrow> int" where
  "time_of f = (days_from_year (f ! 0) + month_sum (f ! 0) (nat (f ! 1)) + f ! 2 - 1) * 86400000
     + f ! 3 * 3600000 + f ! 4 * 60000 + f ! 5 * 1000 + f ! 6"

definition fields_ok :: "int list \<Rightarrow> bool" where
  "fields_ok f \<longleftrightarrow> length f = 9 \<and> 0 \<le> f ! 1 \<and> f ! 1 < 12
     \<and> 1 \<le> f ! 2 \<and> f ! 2 \<le> days_in_month (f ! 0) (nat (f ! 1))
     \<and> 0 \<le> f ! 3 \<and> f ! 3 < 24 \<and> 0 \<le> f ! 4 \<and> f ! 4 < 60 \<and> 0 \<le> f ! 5 \<and> f ! 5 < 60
     \<and> 0 \<le> f ! 6 \<and> f ! 6 < 1000"

text \<open>The day of the week: the first of January 1970 was a Thursday, day 4.\<close>

definition week_day :: "int \<Rightarrow> int" where
  "week_day d = (d div 86400000 + 4) mod 7"

lemma split_day:
  assumes "h = d mod (86400000 :: int)"
  defines "h1 \<equiv> (h - h smod 1000) sdiv 1000"
  defines "h2 \<equiv> (h1 - h1 smod 60) sdiv 60"
  defines "h3 \<equiv> (h2 - h2 smod 60) sdiv 60"
  shows "(d - h) sdiv 86400000 = d div 86400000" "0 \<le> h smod 1000 \<and> h smod 1000 < 1000"
    "0 \<le> h1 smod 60 \<and> h1 smod 60 < 60" "0 \<le> h2 smod 60 \<and> h2 smod 60 < 60" "0 \<le> h3 \<and> h3 < 24"
    "d = d div 86400000 * 86400000 + h3 * 3600000 + h2 smod 60 * 60000 + h1 smod 60 * 1000 + h smod 1000"
proof -
  have h: "0 \<le> h" "h < 86400000" by (simp_all add: assms(1))
  have step: "(x - x smod n) sdiv n = x div n \<and> x smod n = x mod n \<and> 0 \<le> x div n" if "0 \<le> x" "0 < n" for x n :: int
    using that by (simp add: smod_nonneg sdiv_dvd dvd_minus_mod minus_mod_eq_div_mult pos_imp_zdiv_nonneg_iff)
  have "h1 = h div 1000 \<and> h smod 1000 = h mod 1000 \<and> 0 \<le> h div 1000"
    unfolding h1_def by (rule step [OF h(1)]) simp
  then have s1: "h1 = h div 1000" "h smod 1000 = h mod 1000" "0 \<le> h1" by simp_all
  have "h2 = h1 div 60 \<and> h1 smod 60 = h1 mod 60 \<and> 0 \<le> h1 div 60"
    unfolding h2_def by (rule step [OF s1(3)]) simp
  then have s2: "h2 = h1 div 60" "h1 smod 60 = h1 mod 60" "0 \<le> h2" by simp_all
  have "h3 = h2 div 60 \<and> h2 smod 60 = h2 mod 60 \<and> 0 \<le> h2 div 60"
    unfolding h3_def by (rule step [OF s2(3)]) simp
  then have s3: "h3 = h2 div 60" "h2 smod 60 = h2 mod 60" "0 \<le> h3" by simp_all
  show "(d - h) sdiv 86400000 = d div 86400000" by (simp add: assms(1) sdiv_dvd dvd_minus_mod minus_mod_eq_div_mult)
  show "0 \<le> h smod 1000 \<and> h smod 1000 < 1000" "0 \<le> h1 smod 60 \<and> h1 smod 60 < 60" "0 \<le> h2 smod 60 \<and> h2 smod 60 < 60"
    unfolding s1(2) s2(2) s3(2) by simp_all
  have e: "h = h1 * 1000 + h smod 1000" "h1 = h2 * 60 + h1 smod 60" "h2 = h3 * 60 + h2 smod 60"
    unfolding s1(2) s2(2) s3(2) unfolding s3(1) by (simp_all add: s1(1) s2(1))
  have "h3 < 24"
  proof (rule ccontr)
    assume "\<not> h3 < 24"
    then have "86400000 \<le> h" using e \<open>0 \<le> h smod 1000 \<and> _\<close> \<open>0 \<le> h1 smod 60 \<and> _\<close> \<open>0 \<le> h2 smod 60 \<and> _\<close> by linarith
    then show False using h by simp
  qed
  then show "0 \<le> h3 \<and> h3 < 24" using s3(3) by simp
  have "d = d div 86400000 * 86400000 + h" by (simp add: assms(1))
  then show "d = d div 86400000 * 86400000 + h3 * 3600000 + h2 smod 60 * 60000 + h1 smod 60 * 1000 + h smod 1000"
    using e by linarith
qed

section \<open>Fields and times\<close>

lemma get_date_fields_value:
  "\<exists>f. get_date_fields tzo (Time t) is_local force = Some (Some f) \<and> fields_ok f
    \<and> f ! 8 = (if is_local then - tzo t else 0) \<and> time_of f = t + f ! 8 * 60000 \<and> f ! 7 = week_day (time_of f)"
proof -
  define tz where "tz = (if is_local then - tzo t else 0)"
  define d where "d = t + tz * 60000"
  define h where "h = d mod 86400000"
  note p = split_day [OF h_def]
  define h1 where "h1 = (h - h smod 1000) sdiv 1000"
  define h2 where "h2 = (h1 - h1 smod 60) sdiv 60"
  define h3 where "h3 = (h2 - h2 smod 60) sdiv 60"
  note p = p [folded h1_def, folded h2_def, folded h3_def]
  obtain y d1 where y: "year_from_days (d div 86400000) = Some (y, d1)" "0 \<le> d1" "d1 < days_in_year y"
    "d div 86400000 = days_from_year y + d1"
    using year_loop_value [of "d div 86400000"] unfolding year_from_days_def by blast
  obtain i r where m: "month_loop y 0 d1 = (i, r)" by fastforce
  have ir: "i \<le> 11" "0 \<le> r" "r < days_in_month y i" "d1 = month_sum y i + r"
    using month_loop_value [OF m] y(2,3) by simp_all
  define f where "f = [y, int i, r + 1, h3, h2 smod 60, h1 smod 60, h smod 1000, (d div 86400000 + 4) mod 7, tz]"
  have dt: "(case Time t of Not_a_number \<Rightarrow> (0, 0)
      | Time d \<Rightarrow> if is_local then (d + - tzo d * 60000, - tzo d) else (d, 0)) = (d, tz)"
    by (simp add: d_def tz_def)
  have "get_date_fields tzo (Time t) is_local force = Some (Some f)"
    unfolding get_date_fields_def Let_def unfolding dt prod.case math_mod_eq [of 86400000, simplified] h_def [symmetric] p(1)
      h1_def [symmetric] h2_def [symmetric] h3_def [symmetric] math_mod_eq [of 7, simplified] y(1) Option.bind.simps m f_def
    by simp
  moreover have "fields_ok f" using p(2-5) ir by (simp add: fields_ok_def f_def)
  moreover have tf: "time_of f = d"
    using p(6) y(4) ir(4) by (simp add: time_of_def f_def algebra_simps)
  moreover have "f ! 7 = week_day d" by (simp add: f_def week_day_def)
  ultimately show ?thesis by (intro exI [of _ f]) (simp add: f_def d_def tz_def)
qed

text \<open>Valid fields are determined by their time.\<close>

lemma fields_parts:
  assumes "fields_ok f"
  defines "day \<equiv> days_from_year (f ! 0) + month_sum (f ! 0) (nat (f ! 1)) + f ! 2 - 1"
  shows "time_of f div 86400000 = day" "time_of f mod 86400000 = f ! 3 * 3600000 + f ! 4 * 60000 + f ! 5 * 1000 + f ! 6"
    "0 \<le> month_sum (f ! 0) (nat (f ! 1)) + f ! 2 - 1"
    "month_sum (f ! 0) (nat (f ! 1)) + f ! 2 - 1 < days_in_year (f ! 0)"
proof -
  define r where "r = f ! 3 * 3600000 + f ! 4 * 60000 + f ! 5 * 1000 + f ! 6"
  have r: "0 \<le> r" "r < 86400000" using assms(1) by (simp_all add: fields_ok_def r_def)
  have e: "time_of f = 86400000 * day + r" by (simp add: time_of_def day_def r_def)
  show "time_of f div 86400000 = day" by (rule int_div_pos_eq [OF e r])
  show "time_of f mod 86400000 = f ! 3 * 3600000 + f ! 4 * 60000 + f ! 5 * 1000 + f ! 6"
    using int_mod_pos_eq [OF e r] by (simp add: r_def)
  define i where "i = nat (f ! 1)"
  have i: "i < 12" "1 \<le> f ! 2" "f ! 2 \<le> days_in_month (f ! 0) i" using assms(1) by (simp_all add: fields_ok_def i_def nat_less_iff)
  have "0 \<le> month_sum (f ! 0) i" using month_sum_mono [of 0 i "f ! 0"] i(1) by simp
  then show "0 \<le> month_sum (f ! 0) (nat (f ! 1)) + f ! 2 - 1" using i by (simp add: i_def)
  have "month_sum (f ! 0) i + days_in_month (f ! 0) i \<le> days_in_year (f ! 0)"
    using month_sum_mono [of "Suc i" 12 "f ! 0"] i(1) by (simp add: month_sum_year)
  then show "month_sum (f ! 0) (nat (f ! 1)) + f ! 2 - 1 < days_in_year (f ! 0)" using i(3) unfolding i_def by linarith
qed

lemma mixed_radix:
  assumes "a * n + b = c * n + d" "0 \<le> b" "b < n" "0 \<le> d" "d < (n :: int)"
  shows "a = c \<and> b = d"
proof -
  have "(a * n + b) div n = a" using assms(2,3) by (intro int_div_pos_eq) simp_all
  moreover have "(a * n + b) div n = c" using assms by (intro int_div_pos_eq [of _ n c d]) simp_all
  ultimately show ?thesis using assms(1) by auto
qed

lemma fields_unique:
  assumes "fields_ok f" "fields_ok g" "time_of f = time_of g"
  shows "take 7 f = take 7 g"
proof -
  note pf = fields_parts [OF assms(1)] and pg = fields_parts [OF assms(2)]
  have ok: "f ! 6 < 1000" "f ! 5 < 60" "f ! 4 < 60" "g ! 6 < 1000" "g ! 5 < 60" "g ! 4 < 60"
    "0 \<le> f ! 6" "0 \<le> f ! 5" "0 \<le> f ! 4" "0 \<le> g ! 6" "0 \<le> g ! 5" "0 \<le> g ! 4"
    using assms(1,2) by (simp_all add: fields_ok_def)
  define i j where "i = nat (f ! 1)" and "j = nat (g ! 1)"
  have y: "f ! 0 = g ! 0" "month_sum (f ! 0) i + f ! 2 - 1 = month_sum (g ! 0) j + g ! 2 - 1"
    using year_unique [OF pf(3,4) pg(3,4)] pf(1) pg(1) assms(3) by (simp_all add: i_def j_def)
  have "i = j \<and> f ! 2 - 1 = g ! 2 - 1"
    using y assms(1,2) by (intro month_unique [of _ "f ! 0"]) (simp_all add: fields_ok_def i_def j_def nat_less_iff)
  moreover have "f ! 1 = int i" "g ! 1 = int j" using assms(1,2) by (simp_all add: fields_ok_def i_def j_def)
  ultimately have m: "f ! 1 = g ! 1" "f ! 2 = g ! 2" by simp_all
  have t: "(f ! 3 * 3600 + f ! 4 * 60 + f ! 5) * 1000 + f ! 6 = (g ! 3 * 3600 + g ! 4 * 60 + g ! 5) * 1000 + g ! 6"
    using pf(2) pg(2) assms(3) by simp
  have t1: "f ! 6 = g ! 6" "(f ! 3 * 60 + f ! 4) * 60 + f ! 5 = (g ! 3 * 60 + g ! 4) * 60 + g ! 5"
    using mixed_radix [OF t] ok by simp_all
  have t2: "f ! 5 = g ! 5" "f ! 3 * 60 + f ! 4 = g ! 3 * 60 + g ! 4" using mixed_radix [OF t1(2)] ok by simp_all
  have t3: "f ! 4 = g ! 4" "f ! 3 = g ! 3" using mixed_radix [OF t2(2)] ok by simp_all
  have "length f = 9" "length g = 9" using assms(1,2) by (simp_all add: fields_ok_def)
  then show ?thesis using y(1) m t1(1) t2(1) t3 by (intro nth_equalityI) (auto simp: less_Suc_eq eval_nat_numeral)
qed

section \<open>Back to a time\<close>

lemma days_from_year_le: "y \<le> z \<Longrightarrow> days_from_year y \<le> days_from_year z"
  using days_from_year_mono [of y z] days_in_year_bounds(1) [of y] by (cases "y = z") auto

text \<open>Fields that may denote a date: a month of the year, and small numbers that may overflow.\<close>

definition fields_small :: "int list \<Rightarrow> bool" where
  "fields_small f \<longleftrightarrow> 0 \<le> f ! 1 \<and> f ! 1 < 12 \<and> (\<forall>i \<in> {2, 3, 4, 5, 6}. \<bar>f ! i\<bar> \<le> 1000)"

lemma set_date_fields_value:
  assumes "fields_small f" "\<And>t. \<bar>tzo t\<bar> \<le> 1000000"
  shows "set_date_fields tzo f is_local =
    Some (if f ! 0 < - 271821 \<or> f ! 0 > 275760 then Not_a_number
      else time_clip (time_of f + (if is_local then tzo (time_of f) * 60000 else 0)))"
proof -
  have f1: "0 \<le> f ! 1" "f ! 1 < 12" using assms(1) by (simp_all add: fields_small_def)
  have mn: "f ! 1 div 12 = 0" "f ! 1 smod 12 = f ! 1" using f1 by (simp_all add: smod_nonneg)
  have neg: "\<not> f ! 1 < 0" using f1 by simp
  show ?thesis
  proof (cases "f ! 0 < - 271821 \<or> f ! 0 > 275760")
    case True
    then show ?thesis unfolding set_date_fields_def Let_def mn add_0_right if_not_P [OF neg] by simp
  next
    case False
    then have "days_from_year (- 271821) \<le> days_from_year (f ! 0)" "days_from_year (f ! 0) \<le> days_from_year 275760"
      by (simp_all add: days_from_year_le)
    then have "- 100100000 \<le> days_from_year (f ! 0)" "days_from_year (f ! 0) \<le> 100100000"
      by (simp_all add: days_from_year_eq)
    moreover have i12: "nat (f ! 1) \<le> 12" using f1 by linarith
    moreover have "0 \<le> month_sum (f ! 0) (nat (f ! 1))" using month_sum_mono [OF _ i12, of 0 "f ! 0"] by simp
    moreover have "month_sum (f ! 0) (nat (f ! 1)) \<le> 366"
      using month_sum_mono [OF i12 order_refl, of "f ! 0"] days_in_year_bounds(2) [of "f ! 0"] by (simp add: month_sum_year)
    moreover have s: "\<bar>f ! 2\<bar> \<le> 1000" "\<bar>f ! 3\<bar> \<le> 1000" "\<bar>f ! 4\<bar> \<le> 1000" "\<bar>f ! 5\<bar> \<le> 1000" "\<bar>f ! 6\<bar> \<le> 1000"
      using assms(1) by (simp_all add: fields_small_def)
    define day where "day = days_from_year (f ! 0) + month_sum (f ! 0) (nat (f ! 1)) + f ! 2 - 1"
    ultimately have day: "\<bar>day\<bar> \<le> 100110000" unfolding day_def using s(1) by linarith
    have ex: "exact x = Some x" if "\<bar>x\<bar> \<le> 9000000000000000" for x using that by (simp add: exact_def)
    have t: "time_of f = day * 86400000 + (f ! 3 * 3600000 + f ! 4 * 60000 + f ! 5 * 1000 + f ! 6)"
      by (simp add: time_of_def day_def)
    have tz: "\<bar>tzo (time_of f) * 60000\<bar> \<le> 60000000000" using assms(2) [of "time_of f"] by (simp add: abs_mult)
    have tb: "\<bar>day * 86400000\<bar> \<le> 8649504000000000" using day by (simp add: abs_mult)
    have p: "\<bar>f ! 3 * 3600000\<bar> \<le> 3600000000" "\<bar>f ! 4 * 60000\<bar> \<le> 60000000" "\<bar>f ! 5 * 1000\<bar> \<le> 1000000"
      using s by (simp_all add: abs_mult)
    define a b c where "a = f ! 3 * 3600000" and "b = f ! 4 * 60000" and "c = f ! 5 * 1000"
    define u v where "u = day * 86400000" and "v = tzo (time_of f) * 60000"
    have tu: "time_of f = u + (a + b + c + f ! 6)" unfolding t a_def b_def c_def u_def ..
    note bounds = p [folded a_def b_def c_def] tb [folded u_def] tz [folded v_def] s(5)
    have e1: "\<bar>a + b\<bar> \<le> 4000000000" using bounds(1,2) by linarith
    then have e2: "\<bar>a + b + c\<bar> \<le> 5000000000" using bounds(3) by linarith
    then have e3: "\<bar>a + b + c + f ! 6\<bar> \<le> 6000000000" using bounds(6) by linarith
    then have e4: "\<bar>u + (a + b + c + f ! 6)\<bar> \<le> 8700000000000000" using bounds(4) by linarith
    then have e5: "\<bar>u + (a + b + c + f ! 6) + v\<bar> \<le> 8800000000000000" using bounds(5) by linarith
    have e: "exact day = Some day" "exact a = Some a" "exact b = Some b" "exact c = Some c" "exact u = Some u"
      "exact (a + b) = Some (a + b)" "exact (a + b + c) = Some (a + b + c)"
      "exact (a + b + c + f ! 6) = Some (a + b + c + f ! 6)" "exact (u + (a + b + c + f ! 6)) = Some (u + (a + b + c + f ! 6))"
      "exact (u + (a + b + c + f ! 6) + v) = Some (u + (a + b + c + f ! 6) + v)"
      by (rule ex [OF order_trans [OF day]], simp, rule ex [OF order_trans [OF bounds(1)]], simp, rule ex [OF order_trans [OF bounds(2)]], simp, rule ex [OF order_trans [OF bounds(3)]], simp, rule ex [OF order_trans [OF bounds(4)]], simp, rule ex [OF order_trans [OF e1]], simp, rule ex [OF order_trans [OF e2]], simp, rule ex [OF order_trans [OF e3]], simp, rule ex [OF order_trans [OF e4]], simp, rule ex [OF order_trans [OF e5]], simp)
    have tzv: "tzo (u + (a + b + c + f ! 6)) * 60000 = v" unfolding v_def tu ..
    show ?thesis using False
      unfolding set_date_fields_def Let_def mn add_0_right if_not_P [OF neg] if_not_P [OF False] day_def [symmetric]
        a_def [symmetric] b_def [symmetric] c_def [symmetric] u_def [symmetric] tu e Option.bind.simps tzv
      by (simp add: e)
  qed
qed

lemma fields_ok_small: "fields_ok f \<Longrightarrow> fields_small f"
  using days_in_month_pos [of "nat (f ! 1)" "f ! 0"] by (auto simp: fields_ok_def fields_small_def nat_less_iff)

text \<open>Times within the range belong to years within the range.\<close>

lemma year_in_range:
  assumes "fields_ok f" "\<bar>time_of f\<bar> \<le> 8640000086400000"
  shows "- 271821 \<le> f ! 0" "f ! 0 \<le> 275760"
proof -
  note p = fields_parts [OF assms(1)]
  have d: "- 100000001 \<le> time_of f div 86400000" "time_of f div 86400000 \<le> 100000001"
    using assms(2) zdiv_mono1 [of "- 8640000086400000" "time_of f" 86400000]
      zdiv_mono1 [of "time_of f" 8640000086400000 86400000] by simp_all
  show "- 271821 \<le> f ! 0"
  proof (rule ccontr)
    assume "\<not> - 271821 \<le> f ! 0"
    then have "days_from_year (f ! 0) + days_in_year (f ! 0) \<le> days_from_year (- 271821)" by (intro days_from_year_mono) simp
    then show False using p(1,4) d(1) by (simp add: days_from_year_eq [of "- 271821"])
  qed
  show "f ! 0 \<le> 275760"
  proof (rule ccontr)
    assume "\<not> f ! 0 \<le> 275760"
    then have "days_from_year 275761 \<le> days_from_year (f ! 0)" by (intro days_from_year_le) simp
    then show False using p(1,3) d(2) by (simp add: days_from_year_eq [of 275761])
  qed
qed

lemma year_arithmetic_fits:
  fixes d y :: int
  assumes "\<bar>d\<bar> \<le> 200000000"
  shows "\<bar>d * 10000\<bar> < 2 ^ 63" "\<bar>d * 10000 div 3652425 + 1970\<bar> \<le> 1000000"
    "\<bar>y\<bar> \<le> 1000000 \<Longrightarrow> \<bar>365 * (y - 1970)\<bar> < 2 ^ 63 \<and> \<bar>days_from_year y\<bar> < 2 ^ 62"
proof -
  show "\<bar>d * 10000\<bar> < 2 ^ 63" using assms by simp
  have "d * 10000 div 3652425 \<le> 2000000000000 div 3652425" "(- 2000000000000) div 3652425 \<le> d * 10000 div 3652425"
    using assms by (auto intro!: zdiv_mono1)
  then show "\<bar>d * 10000 div 3652425 + 1970\<bar> \<le> 1000000" by simp
  assume y: "\<bar>y\<bar> \<le> 1000000"
  then have "days_from_year (- 1000000) \<le> days_from_year y" "days_from_year y \<le> days_from_year 1000000"
    by (intro days_from_year_le; simp)+
  then have "- 400000000 \<le> days_from_year y" "days_from_year y \<le> 400000000"
    by (simp_all add: days_from_year_eq [of "- 1000000"] days_from_year_eq [of 1000000])
  then have "\<bar>days_from_year y\<bar> \<le> 400000000" by linarith
  moreover have "365 * (y - 1970) \<le> 400000000" "- 400000000 \<le> 365 * (y - 1970)" using y by simp_all
  then have "\<bar>365 * (y - 1970)\<bar> \<le> 400000000" by linarith
  ultimately show "\<bar>365 * (y - 1970)\<bar> < 2 ^ 63 \<and> \<bar>days_from_year y\<bar> < 2 ^ 62" by simp
qed

section \<open>Properties\<close>

text \<open>Property C7 (functional):
  \<open>get_date_fields\<close> computes the calendar date. For every time it returns (the search for the year
  ends) fields of a day that exists in the Gregorian calendar and of a time of day, which denote the
  time shifted by the offset of the zone, and the right day of the week; no other valid fields denote
  that time.\<close>

theorem date_fields_correct:
  "\<exists>f. get_date_fields tzo (Time t) is_local force = Some (Some f) \<and> fields_ok f
    \<and> f ! 8 = (if is_local then - tzo t else 0) \<and> time_of f = t + f ! 8 * 60000 \<and> f ! 7 = week_day (time_of f)
    \<and> (\<forall>g. fields_ok g \<and> time_of g = time_of f \<longrightarrow> take 7 g = take 7 f)"
proof -
  obtain f where f: "get_date_fields tzo (Time t) is_local force = Some (Some f)" "fields_ok f"
    "f ! 8 = (if is_local then - tzo t else 0)" "time_of f = t + f ! 8 * 60000" "f ! 7 = week_day (time_of f)"
    using get_date_fields_value [of tzo t is_local force] by blast
  then show ?thesis using fields_unique [OF _ f(2)] by (intro exI [of _ f]) blast
qed

theorem date_fields_correct_witness:
  "\<exists>f. get_date_fields (\<lambda>_. 0) (Time 951782400000) False False = Some (Some f)
    \<and> take 7 [2000, 1, 29, 0, 0, 0, 0, 2, 0 :: int] = take 7 f"
proof -
  obtain f where f: "get_date_fields (\<lambda>_. 0) (Time 951782400000) False False = Some (Some f)"
    "f ! 8 = 0" "time_of f = 951782400000 + f ! 8 * 60000"
    "\<forall>g. fields_ok g \<and> time_of g = time_of f \<longrightarrow> take 7 g = take 7 f"
    using date_fields_correct [of "\<lambda>_. 0" 951782400000 False False] by auto
  have g: "fields_ok [2000, 1, 29, 0, 0, 0, 0, 2, 0]" "time_of [2000, 1, 29, 0, 0, 0, 0, 2, 0] = 951782400000"
    by (simp_all add: fields_ok_def time_of_def days_in_month_def month_days_def days_in_year_eq days_from_year_eq)
  have "time_of f = 951782400000" using f(2,3) by simp
  with g(2) have "time_of [2000, 1, 29, 0, 0, 0, 0, 2, 0] = time_of f" by (rule trans [OF _ sym])
  then show ?thesis using f(1) f(4) g(1) by blast
qed

text \<open>Property C8 (roundtrip):
  \<open>set_date_fields\<close> undoes \<open>get_date_fields\<close> for every time within the range, in UTC and in a local
  zone with offsets of at most a day whose offset at the local time, taken for a time in UTC, is the
  same.\<close>

theorem date_fields_roundtrip:
  assumes "\<bar>t\<bar> \<le> 8640000000000000" "\<And>u. \<bar>tzo u\<bar> \<le> 1440" "is_local \<Longrightarrow> tzo (t - tzo t * 60000) = tzo t"
  shows "\<exists>f. get_date_fields tzo (Time t) is_local force = Some (Some f) \<and> set_date_fields tzo f is_local = Some (Time t)"
proof -
  obtain f where f: "get_date_fields tzo (Time t) is_local force = Some (Some f)" "fields_ok f"
    "f ! 8 = (if is_local then - tzo t else 0)" "time_of f = t + f ! 8 * 60000"
    using get_date_fields_value [of tzo t is_local force] by blast
  have b: "\<bar>tzo u\<bar> \<le> 1000000" for u using assms(2) [of u] by simp
  have "\<bar>f ! 8 * 60000\<bar> \<le> 1440 * 60000" using assms(2) [of t] f(3) by (simp add: abs_mult)
  then have "\<bar>time_of f\<bar> \<le> 8640000086400000" using assms(1) f(4) by linarith
  note y = year_in_range [OF f(2) this]
  have "time_of f + (if is_local then tzo (time_of f) * 60000 else 0) = t" using assms(3) f(3,4) by simp
  then show ?thesis
    using set_date_fields_value [OF fields_ok_small [OF f(2)] b, where is_local = is_local] y f(1) assms(1) by (auto simp: time_clip_def)
qed

theorem date_fields_roundtrip_witness:
  "\<exists>f. get_date_fields (\<lambda>_. - 60) (Time (- 1)) True False = Some (Some f) \<and> set_date_fields (\<lambda>_. - 60) f True = Some (Time (- 1))"
  by (rule date_fields_roundtrip) simp_all

end
