(* ===== verification/DateText.thy ===== *)
theory DateText
  imports DateCalc Itoa
begin

text \<open>
  The text of dates (\<^verbatim>\<open>quickjs/quickjs.c\<close>, \<open>get_date_string\<close> and \<open>js_Date_parse\<close>). Bytes are words,
  numbers integers. A parser reads a block of bytes, at whose end the code has put a NUL, from a
  position; \<open>None\<close> is a read behind the block, \<open>Some None\<close> the result \<open>false\<close>, otherwise there are values
  and the next position. A failed parser leaves the position and the fields that its caller goes
  on to use as they were.
\<close>

section \<open>Writing\<close>

definition month_names :: "u8 list" where
  "month_names = [74,97,110, 70,101,98, 77,97,114, 65,112,114, 77,97,121, 74,117,110,
    74,117,108, 65,117,103, 83,101,112, 79,99,116, 78,111,118, 68,101,99]"

definition day_names :: "u8 list" where
  "day_names = [83,117,110, 77,111,110, 84,117,101, 87,101,100, 84,104,117, 70,114,105, 83,97,116]"

definition name3 :: "u8 list \<Rightarrow> int \<Rightarrow> u8 list" where
  "name3 names i = take 3 (drop (nat (i * 3)) names)"

text \<open>The conversions \<^verbatim>\<open>%0wd\<close> and \<^verbatim>\<open>%+0wd\<close> of \<open>snprintf\<close>.\<close>

definition zero_pad :: "nat \<Rightarrow> int \<Rightarrow> u8 list" where
  "zero_pad w n = (let s = digits_of 10 (nat n) in replicate (w - length s) 48 @ s)"

definition fmt_d :: "nat \<Rightarrow> int \<Rightarrow> u8 list" where
  "fmt_d w x = (if x < 0 then 45 # zero_pad (w - 1) (- x) else zero_pad w x)"

definition fmt_plus_d :: "nat \<Rightarrow> int \<Rightarrow> u8 list" where
  "fmt_plus_d w x = (if x < 0 then 45 # zero_pad (w - 1) (- x) else 43 # zero_pad (w - 1) x)"

datatype date_error = Range_error

definition date_part :: "nat \<Rightarrow> nat \<Rightarrow> int list \<Rightarrow> u8 list" where
  "date_part fmt part f =
     (let y = f ! 0; mon = f ! 1; d = f ! 2; wd = f ! 7; yw = 4 + of_bool (y < 0)
      in if fmt = 0 then name3 day_names wd @ [44, 32] @ fmt_d 2 d @ [32] @ name3 month_names mon @ [32] @ fmt_d yw y @ [32]
         else if fmt = 1 then name3 day_names wd @ [32] @ name3 month_names mon @ [32] @ fmt_d 2 d @ [32] @ fmt_d yw y
           @ (if part = 3 then [32] else [])
         else if fmt = 2 then (if y \<ge> 0 \<and> y \<le> 9999 then fmt_d 4 y else fmt_plus_d 7 y)
           @ [45] @ fmt_d 2 (mon + 1) @ [45] @ fmt_d 2 d @ [84]
         else fmt_d 2 (mon + 1) @ [47] @ fmt_d 2 d @ [47] @ fmt_d yw y @ (if part = 3 then [44, 32] else []))"

definition time_part :: "nat \<Rightarrow> int list \<Rightarrow> u8 list" where
  "time_part fmt f =
     (let h = f ! 3; m = f ! 4; s = f ! 5; ms = f ! 6; tz = f ! 8
      in if fmt = 0 then fmt_d 2 h @ [58] @ fmt_d 2 m @ [58] @ fmt_d 2 s @ [32, 71, 77, 84]
         else if fmt = 1 then fmt_d 2 h @ [58] @ fmt_d 2 m @ [58] @ fmt_d 2 s @ [32, 71, 77, 84]
           @ (let (c, tz) = (if tz < 0 then (45, - tz) else (43, tz)) in [c] @ fmt_d 2 (tz sdiv 60) @ fmt_d 2 (tz smod 60))
         else if fmt = 2 then fmt_d 2 h @ [58] @ fmt_d 2 m @ [58] @ fmt_d 2 s @ [46] @ fmt_d 3 ms @ [90]
         else fmt_d 2 ((h + 11) smod 12 + 1) @ [58] @ fmt_d 2 m @ [58] @ fmt_d 2 s @ [32, if h < 12 then 65 else 80, 77])"

text \<open>Bits 0 and 1 of \<open>part\<close> ask for the date and the time. The texts fit the buffer of 64 bytes.\<close>

definition get_date_string :: "(int \<Rightarrow> int) \<Rightarrow> time_value \<Rightarrow> nat \<Rightarrow> nat \<Rightarrow> (date_error + u8 list) option" where
  "get_date_string tzo dval fmt part = do {
     res \<leftarrow> get_date_fields tzo dval (odd fmt) False;
     case res of
       None \<Rightarrow> Some (if fmt = 2 then Inl Range_error else Inr [73,110,118,97,108,105,100,32,68,97,116,101])
     | Some f \<Rightarrow> Some (Inr ((if odd part then date_part fmt part f else [])
           @ (if odd (part div 2) then time_part fmt f else []))) }"

section \<open>Parsers of small items\<close>

definition string_skip_char :: "u8 list \<Rightarrow> nat \<Rightarrow> u8 \<Rightarrow> (bool \<times> nat) option" where
  "string_skip_char sp p c = do { x \<leftarrow> rd sp p; Some (if x = c then (True, p + 1) else (False, p)) }"

function skip_while :: "(u8 \<Rightarrow> bool) \<Rightarrow> u8 list \<Rightarrow> nat \<Rightarrow> (u8 \<times> nat) option" where
  "skip_while P sp p =
     (if p < length sp then (if P (sp ! p) then skip_while P sp (p + 1) else Some (sp ! p, p)) else None)"
  by pat_completeness auto
termination by (relation "measure (\<lambda>(P, sp, p). length sp - p)") auto

declare skip_while.simps [simp del]

definition string_skip_spaces :: "u8 list \<Rightarrow> nat \<Rightarrow> (u8 \<times> nat) option" where
  "string_skip_spaces = skip_while (\<lambda>c. c = 32)"

definition string_skip_separators :: "u8 list \<Rightarrow> nat \<Rightarrow> (u8 \<times> nat) option" where
  "string_skip_separators = skip_while (\<lambda>c. c = 45 \<or> c = 47 \<or> c = 46 \<or> c = 44)"

text \<open>\<^verbatim>\<open>strchr\<close> also finds the NUL that ends the stop list.\<close>

definition string_skip_until :: "u8 list \<Rightarrow> nat \<Rightarrow> u8 list \<Rightarrow> (u8 \<times> nat) option" where
  "string_skip_until sp p stoplist = skip_while (\<lambda>c. \<not> (c = 0 \<or> c \<in> set stoplist)) sp p"

function digits_loop :: "u8 list \<Rightarrow> nat \<Rightarrow> nat \<Rightarrow> int \<Rightarrow> nat \<Rightarrow> (int \<times> nat) option option" where
  "digits_loop sp p_start max_digits v p =
     (if p < length sp then
        let c = sp ! p in
        if 48 \<le> c \<and> c \<le> 57 then
          (if v \<ge> 100000000 then Some None
           else
             let v = v * 10 + (uint c - 48) in
             if p + 1 - p_start = max_digits then Some (Some (v, p + 1))
             else digits_loop sp p_start max_digits v (p + 1))
        else Some (Some (v, p))
      else None)"
  by pat_completeness auto
termination by (relation "measure (\<lambda>(sp, p_start, max_digits, v, p). length sp - p)") auto

declare digits_loop.simps [simp del]

definition string_get_digits :: "u8 list \<Rightarrow> nat \<Rightarrow> nat \<Rightarrow> nat \<Rightarrow> (int \<times> nat) option option" where
  "string_get_digits sp p min_digits max_digits = do {
     r \<leftarrow> digits_loop sp p max_digits 0 p;
     Some (case r of None \<Rightarrow> None | Some (v, q) \<Rightarrow> if q - p < min_digits then None else Some (v, q)) }"

function ms_loop :: "u8 list \<Rightarrow> nat \<Rightarrow> int \<Rightarrow> int \<Rightarrow> nat \<Rightarrow> (int \<times> nat) option" where
  "ms_loop sp p_start mul ms p =
     (if p < length sp then
        let c = sp ! p in
        if 48 \<le> c \<and> c \<le> 57 then
          let ms = ms + (uint c - 48) * mul; mul = mul sdiv 10 in
          if p + 1 - p_start = 9 then Some (ms, p + 1) else ms_loop sp p_start mul ms (p + 1)
        else Some (ms, p)
      else None)"
  by pat_completeness auto
termination by (relation "measure (\<lambda>(sp, p_start, mul, ms, p). length sp - p)") auto

declare ms_loop.simps [simp del]

definition string_get_milliseconds :: "u8 list \<Rightarrow> nat \<Rightarrow> int \<Rightarrow> (int \<times> nat) option" where
  "string_get_milliseconds sp p val = do {
     c \<leftarrow> rd sp p;
     if c = 46 \<or> c = 44 then do {
       (ms, q) \<leftarrow> ms_loop sp (p + 1) 100 0 (p + 1);
       Some (if q > p + 1 then (ms, q) else (val, p)) }
     else Some (val, p) }"

text \<open>Of \<open>n\<close> digits the first four.\<close>

fun first_digits :: "nat \<Rightarrow> int \<Rightarrow> nat \<times> int" where
  "first_digits n hh = (if n > 4 then first_digits (n - 2) (hh sdiv 100) else (n, hh))"

declare first_digits.simps [simp del]

definition string_get_tzoffset :: "u8 list \<Rightarrow> nat \<Rightarrow> bool \<Rightarrow> (int \<times> nat) option option" where
  "string_get_tzoffset sp p strict = do {
     sgn \<leftarrow> rd sp p;
     let p = p + 1;
     if sgn = 43 \<or> sgn = 45 then do {
       r \<leftarrow> string_get_digits sp p 1 0;
       case r of None \<Rightarrow> Some None
       | Some (hh, q) \<Rightarrow>
         let n = q - p; p = q in
         if strict \<and> n \<noteq> 2 \<and> n \<noteq> 4 then Some None
         else
           let (n, hh) = first_digits n hh in
           do {
             r \<leftarrow> (if n > 2 then Some (Some (hh smod 100, hh sdiv 100, p))
                else do {
                  (colon, p) \<leftarrow> string_skip_char sp p 58;
                  if colon then do {
                    r \<leftarrow> string_get_digits sp p 2 2;
                    Some (case r of None \<Rightarrow> None | Some (mm, p) \<Rightarrow> Some (mm, hh, p)) }
                  else Some (Some (0, hh, p)) });
             Some (case r of None \<Rightarrow> None
               | Some (mm, hh, p) \<Rightarrow>
                 if hh > 23 \<or> mm > 59 then None
                 else let tz = hh * 60 + mm in Some (if sgn \<noteq> 43 then - tz else tz, p)) } }
     else if sgn \<noteq> 90 then Some None
     else Some (Some (0, p)) }"

definition to_upper_ascii :: "u8 \<Rightarrow> u8" where
  "to_upper_ascii c = (if 97 \<le> c \<and> c \<le> 122 then c - 97 + 65 else c)"

fun string_match :: "u8 list \<Rightarrow> nat \<Rightarrow> u8 list \<Rightarrow> nat option option" where
  "string_match sp p [] = Some (Some p)"
| "string_match sp p (s # ss) = do {
     c \<leftarrow> rd sp p;
     if to_upper_ascii c \<noteq> to_upper_ascii s then Some None else string_match sp (p + 1) ss }"

text \<open>The names are tried in turn, each like \<open>string_match\<close>.\<close>

fun find_abbrev :: "u8 list \<Rightarrow> nat \<Rightarrow> u8 list \<Rightarrow> nat \<Rightarrow> nat \<Rightarrow> int option" where
  "find_abbrev sp p list n 0 = Some (- 1)"
| "find_abbrev sp p list n (Suc count) = do {
     r \<leftarrow> string_match sp p (take 3 (drop (n * 3) list));
     case r of Some _ \<Rightarrow> Some (int n) | None \<Rightarrow> find_abbrev sp p list (n + 1) count }"

definition string_get_month :: "u8 list \<Rightarrow> nat \<Rightarrow> (int \<times> nat) option option" where
  "string_get_month sp p = do {
     n \<leftarrow> find_abbrev sp p month_names 0 12;
     Some (if n < 0 then None else Some (n + 1, p + 3)) }"

definition js_tzabbr :: "(u8 list \<times> int) list" where
  "js_tzabbr = [
    ([71,77,84], 0), ([85,84,67], 0), ([85,84], 0), ([90], 0),
    ([69,68,84], - 4 * 60), ([69,83,84], - 5 * 60), ([67,68,84], - 5 * 60), ([67,83,84], - 6 * 60),
    ([77,68,84], - 6 * 60), ([77,83,84], - 7 * 60), ([80,68,84], - 7 * 60), ([80,83,84], - 8 * 60),
    ([87,69,84], 0 * 60), ([87,69,83,84], 1 * 60), ([67,69,84], 1 * 60), ([67,69,83,84], 2 * 60),
    ([69,69,84], 2 * 60), ([69,69,83,84], 3 * 60)]"

fun tzabbr_from :: "u8 list \<Rightarrow> nat \<Rightarrow> (u8 list \<times> int) list \<Rightarrow> (int \<times> nat) option option" where
  "tzabbr_from sp p [] = Some None"
| "tzabbr_from sp p ((name, offset) # ts) = do {
     r \<leftarrow> string_match sp p name;
     case r of Some q \<Rightarrow> Some (Some (offset, q)) | None \<Rightarrow> tzabbr_from sp p ts }"

definition string_get_tzabbr :: "u8 list \<Rightarrow> nat \<Rightarrow> (int \<times> nat) option option" where
  "string_get_tzabbr sp p = tzabbr_from sp p js_tzabbr"

section \<open>The ISO format\<close>

definition iso_year :: "u8 list \<Rightarrow> int list \<Rightarrow> (int list \<times> nat) option option" where
  "iso_year sp fields = do {
     sgn \<leftarrow> rd sp 0;
     if sgn = 45 \<or> sgn = 43 then do {
       r \<leftarrow> string_get_digits sp 1 6 6;
       Some (case r of None \<Rightarrow> None
         | Some (y, p) \<Rightarrow> if sgn = 45 then (if y = 0 then None else Some (fields[0 := - y], p)) else Some (fields[0 := y], p)) }
     else do {
       r \<leftarrow> string_get_digits sp 0 4 4;
       Some (case r of None \<Rightarrow> None | Some (y, p) \<Rightarrow> Some (fields[0 := y], p)) } }"

definition iso_month_day :: "u8 list \<Rightarrow> int list \<Rightarrow> nat \<Rightarrow> (int list \<times> nat) option option" where
  "iso_month_day sp fields p = do {
     (dash, p) \<leftarrow> string_skip_char sp p 45;
     if \<not> dash then Some (Some (fields, p))
     else do {
       r \<leftarrow> string_get_digits sp p 2 2;
       case r of None \<Rightarrow> Some None
       | Some (mon, p) \<Rightarrow>
         if mon < 1 then Some None
         else do {
           let fields = fields[1 := mon - 1];
           (dash, p) \<leftarrow> string_skip_char sp p 45;
           if \<not> dash then Some (Some (fields, p))
           else do {
             r \<leftarrow> string_get_digits sp p 2 2;
             Some (case r of None \<Rightarrow> None | Some (d, p) \<Rightarrow> if d < 1 then None else Some (fields[2 := d], p)) } } } }"

text \<open>Without a position the caller returns at once, with an hour that it will not accept.\<close>

definition iso_time :: "u8 list \<Rightarrow> int list \<Rightarrow> nat \<Rightarrow> (int list \<times> bool \<times> nat option) option option" where
  "iso_time sp fields p = do {
     (t, p) \<leftarrow> string_skip_char sp p 84;
     if \<not> t then Some (Some (fields, False, Some p))
     else do {
       r \<leftarrow> string_get_digits sp p 2 2;
       case r of None \<Rightarrow> Some (Some (fields[3 := 100], True, None))
       | Some (h, p) \<Rightarrow> do {
           (colon, p) \<leftarrow> string_skip_char sp p 58;
           if \<not> colon then Some (Some (fields[3 := 100], True, None))
           else do {
             r \<leftarrow> string_get_digits sp p 2 2;
             case r of None \<Rightarrow> Some (Some (fields[3 := 100], True, None))
             | Some (m, p) \<Rightarrow> do {
                 let fields = fields[3 := h, 4 := m];
                 (colon, p) \<leftarrow> string_skip_char sp p 58;
                 if \<not> colon then Some (Some (fields, True, Some p))
                 else do {
                   r \<leftarrow> string_get_digits sp p 2 2;
                   case r of None \<Rightarrow> Some None
                   | Some (s, p) \<Rightarrow> do {
                       (ms, p) \<leftarrow> string_get_milliseconds sp p (fields ! 6);
                       Some (Some (fields[5 := s, 6 := ms], True, Some p)) } } } } } } }"

definition iso_zone :: "u8 list \<Rightarrow> int list \<Rightarrow> bool \<Rightarrow> nat \<Rightarrow> (int list \<times> bool) option option" where
  "iso_zone sp fields is_local p = do {
     c \<leftarrow> rd sp p;
     if c = 0 then Some (Some (fields, is_local))
     else do {
       r \<leftarrow> string_get_tzoffset sp p True;
       case r of None \<Rightarrow> Some None
       | Some (tz, p) \<Rightarrow> do { c \<leftarrow> rd sp p; Some (if c = 0 then Some (fields[8 := tz], False) else None) } } }"

definition js_date_parse_isostring :: "u8 list \<Rightarrow> (int list \<times> bool) option option" where
  "js_date_parse_isostring sp = do {
     r \<leftarrow> iso_year sp [0, 0, 1, 0, 0, 0, 0, 0, 0];
     case r of None \<Rightarrow> Some None
     | Some (fields, p) \<Rightarrow> do {
         r \<leftarrow> iso_month_day sp fields p;
         case r of None \<Rightarrow> Some None
         | Some (fields, p) \<Rightarrow> do {
             r \<leftarrow> iso_time sp fields p;
             case r of None \<Rightarrow> Some None
             | Some (fields, is_local, None) \<Rightarrow> Some (Some (fields, is_local))
             | Some (fields, is_local, Some p) \<Rightarrow> iso_zone sp fields is_local p } } }"

section \<open>Other formats\<close>

record other_state =
  os_fields :: "int list"
  os_local :: bool
  os_year :: bool
  os_mon :: bool
  os_time :: bool
  os_num :: "int list"
  os_pos :: nat

definition expand_year :: "int \<Rightarrow> int" where
  "expand_year v = v + of_bool (v < 100) * 1900 + of_bool (v < 50) * 100"

text \<open>
  The items. The result is the state and whether separators are skipped next (the code goes on with
  the next item otherwise), or \<open>None\<close> for a text that is not a date.
\<close>

definition other_sign :: "u8 list \<Rightarrow> u8 \<Rightarrow> other_state \<Rightarrow> (other_state \<times> bool) option option" where
  "other_sign sp c st = do {
     let p = os_pos st;
     tz \<leftarrow> (if os_time st then string_get_tzoffset sp p False else Some None);
     case tz of
       Some (tz, q) \<Rightarrow> Some (Some (st\<lparr>os_fields := (os_fields st)[8 := tz], os_local := False, os_pos := q\<rparr>, True))
     | None \<Rightarrow> do {
         r \<leftarrow> string_get_digits sp (p + 1) 1 0;
         Some (case r of
           None \<Rightarrow> Some (st\<lparr>os_pos := p + 1\<rparr>, True)
         | Some (val, q) \<Rightarrow>
             if c = 45 \<and> val = 0 then None
             else Some (st\<lparr>os_fields := (os_fields st)[0 := if c = 45 then - val else val], os_year := True, os_pos := q\<rparr>, True)) } }"

definition other_time :: "u8 list \<Rightarrow> int \<Rightarrow> nat \<Rightarrow> other_state \<Rightarrow> (other_state \<times> bool) option option" where
  "other_time sp val p st = do {
     r \<leftarrow> string_get_digits sp p 1 2;
     case r of None \<Rightarrow> Some None
     | Some (m, p) \<Rightarrow> do {
         let f = (os_fields st)[3 := val, 4 := m];
         (colon, p) \<leftarrow> string_skip_char sp p 58;
         if colon then do {
           r \<leftarrow> string_get_digits sp p 1 2;
           case r of None \<Rightarrow> Some None
           | Some (s, p) \<Rightarrow> do {
               (ms, p) \<leftarrow> string_get_milliseconds sp p (f ! 6);
               Some (Some (st\<lparr>os_fields := f[5 := s, 6 := ms], os_time := True, os_pos := p\<rparr>, True)) } }
         else do {
           c \<leftarrow> rd sp p;
           Some (if c \<noteq> 0 \<and> c \<noteq> 32 then None
             else Some (st\<lparr>os_fields := f, os_time := True, os_pos := p\<rparr>, True)) } } }"

definition other_number :: "int \<Rightarrow> nat \<Rightarrow> other_state \<Rightarrow> (other_state \<times> bool) option" where
  "other_number val q st =
     (if q - os_pos st > 2 then Some (st\<lparr>os_fields := (os_fields st)[0 := val], os_year := True, os_pos := q\<rparr>, True)
      else if val < 1 \<or> val > 31 then
        Some (st\<lparr>os_fields := (os_fields st)[0 := expand_year val], os_year := True, os_pos := q\<rparr>, True)
      else if length (os_num st) = 3 then None
      else Some (st\<lparr>os_num := os_num st @ [val], os_pos := q\<rparr>, True))"

function paren_loop :: "u8 list \<Rightarrow> int \<Rightarrow> nat \<Rightarrow> (int \<times> nat) option" where
  "paren_loop sp level p =
     (if p < length sp then
        let c = sp ! p in
        if c \<noteq> 0 then
          let level = level + of_bool (c = 40) - of_bool (c = 41) in
          if level = 0 then Some (level, p + 1) else paren_loop sp level (p + 1)
        else Some (level, p)
      else None)"
  by pat_completeness auto
termination by (relation "measure (\<lambda>(sp, level, p). length sp - p)") auto

declare paren_loop.simps [simp del]

definition other_skip :: "u8 list \<Rightarrow> u8 \<Rightarrow> other_state \<Rightarrow> (other_state \<times> bool) option option" where
  "other_skip sp c st =
     (if c = 40 then do {
        (level, p) \<leftarrow> paren_loop sp 0 (os_pos st);
        Some (if level > 0 then None else Some (st\<lparr>os_pos := p\<rparr>, True)) }
      else if c = 41 then Some None
      else if os_year st \<or> os_mon st \<or> os_time st \<or> os_num st \<noteq> [] then Some None
      else do {
        (c, p) \<leftarrow> string_skip_until sp (os_pos st) [32, 45, 47, 40];
        Some (Some (st\<lparr>os_pos := p\<rparr>, True)) })"

definition other_word :: "u8 list \<Rightarrow> u8 \<Rightarrow> other_state \<Rightarrow> (other_state \<times> bool) option option" where
  "other_word sp c st = do {
     let p = os_pos st;
     let f = os_fields st;
     month \<leftarrow> string_get_month sp p;
     case month of
       Some (mon, q) \<Rightarrow> do {
         (c, q) \<leftarrow> string_skip_until sp q [48, 49, 50, 51, 52, 53, 54, 55, 56, 57, 32, 45, 47, 40];
         Some (Some (st\<lparr>os_fields := f[1 := mon], os_mon := True, os_pos := q\<rparr>, True)) }
     | None \<Rightarrow> do {
         pm \<leftarrow> (if os_time st then string_match sp p [80, 77] else Some None);
         case pm of
           Some q \<Rightarrow> Some (Some (st\<lparr>os_fields := (if f ! 3 \<noteq> 12 then f[3 := f ! 3 + 12] else f), os_pos := q\<rparr>, False))
         | None \<Rightarrow> do {
             am \<leftarrow> (if os_time st then string_match sp p [65, 77] else Some None);
             case am of
               Some q \<Rightarrow> Some (if f ! 3 > 12 then None
                 else Some (st\<lparr>os_fields := (if f ! 3 = 12 then f[3 := f ! 3 - 12] else f), os_pos := q\<rparr>, False))
             | None \<Rightarrow> do {
                 tz \<leftarrow> string_get_tzabbr sp p;
                 case tz of
                   Some (offset, q) \<Rightarrow> Some (Some (st\<lparr>os_fields := f[8 := offset], os_local := False, os_pos := q\<rparr>, False))
                 | None \<Rightarrow> other_skip sp c st } } } }"

definition other_item :: "u8 list \<Rightarrow> u8 \<Rightarrow> other_state \<Rightarrow> (other_state \<times> bool) option option" where
  "other_item sp c st =
     (if c = 43 \<or> c = 45 then other_sign sp c st
      else do {
        r \<leftarrow> string_get_digits sp (os_pos st) 1 0;
        case r of
          Some (val, q) \<Rightarrow> do {
            (colon, q') \<leftarrow> string_skip_char sp q 58;
            if colon then other_time sp val q' st else Some (other_number val q st) }
        | None \<Rightarrow> other_word sp c st })"

partial_function (option) other_loop :: "u8 list \<Rightarrow> other_state \<Rightarrow> other_state option option" where
  "other_loop sp st = do {
     (c, p) \<leftarrow> string_skip_spaces sp (os_pos st);
     if c = 0 then Some (Some st)
     else do {
       r \<leftarrow> other_item sp c (st\<lparr>os_pos := p\<rparr>);
       case r of None \<Rightarrow> Some None
       | Some (st, separators) \<Rightarrow>
           if separators then do {
             (c, p) \<leftarrow> string_skip_separators sp (os_pos st);
             other_loop sp (st\<lparr>os_pos := p\<rparr>) }
           else other_loop sp st } }"

declare other_loop.simps [code]

definition other_finish :: "other_state \<Rightarrow> (int list \<times> bool) option" where
  "other_finish st =
     (let f = os_fields st; num = os_num st; has_year = os_year st; has_mon = os_mon st in
      if length num + of_bool has_year + of_bool has_mon > 3 then None
      else
        let g = (case num of
            [] \<Rightarrow> if \<not> has_year then None else Some f
          | [a] \<Rightarrow> Some (if has_mon then f[2 := a] else f[1 := a])
          | [a, b] \<Rightarrow> Some (if has_year then f[1 := a, 2 := b]
              else if has_mon then f[0 := expand_year b, 2 := a]
              else f[1 := a, 2 := b])
          | [a, b, c] \<Rightarrow> Some (f[0 := expand_year c, 1 := a, 2 := b])
          | _ \<Rightarrow> None)
        in case g of None \<Rightarrow> None
           | Some f \<Rightarrow> if f ! 1 < 1 \<or> f ! 2 < 1 then None else Some (f[1 := f ! 1 - 1], os_local st))"

definition js_date_parse_otherstring :: "u8 list \<Rightarrow> (int list \<times> bool) option option" where
  "js_date_parse_otherstring sp = do {
     r \<leftarrow> other_loop sp \<lparr>os_fields = [2001, 1, 1, 0, 0, 0, 0, 0, 0], os_local = True,
            os_year = False, os_mon = False, os_time = False, os_num = [], os_pos = 0\<rparr>;
     Some (case r of None \<Rightarrow> None | Some st \<Rightarrow> other_finish st) }"

section \<open>\<open>Date.parse\<close>\<close>

definition date_byte :: "u16 \<Rightarrow> u8" where
  "date_byte c = (if c > 255 then (if c = 0x2212 then 45 else 120) else ucast c)"

definition field_max :: "int list" where "field_max = [0, 11, 31, 24, 59, 59]"

definition fields_valid :: "int list \<Rightarrow> bool" where
  "fields_valid f \<longleftrightarrow> (\<forall>i \<in> {1, 2, 3, 4, 5}. f ! i \<le> field_max ! i)
     \<and> \<not> (f ! 3 = 24 \<and> (f ! 4 OR f ! 5 OR f ! 6) \<noteq> 0)"

definition js_Date_parse :: "(int \<Rightarrow> int) \<Rightarrow> u16 list \<Rightarrow> time_value option" where
  "js_Date_parse tzo s = do {
     let buf = map date_byte (take 127 s) @ [0];
     r \<leftarrow> js_date_parse_isostring buf;
     r \<leftarrow> (case r of Some r \<Rightarrow> Some (Some r) | None \<Rightarrow> js_date_parse_otherstring buf);
     case r of
       None \<Rightarrow> Some Not_a_number
     | Some (f, is_local) \<Rightarrow>
         if fields_valid f then do {
           d \<leftarrow> set_date_fields tzo f is_local;
           Some (case d of Not_a_number \<Rightarrow> Not_a_number | Time d \<Rightarrow> Time (d - f ! 8 * 60000)) }
         else Some Not_a_number }"

section \<open>Numbers in a text\<close>

lemma at_pos_app: "at_pos bs p (xs @ ys) \<longleftrightarrow> at_pos bs p xs \<and> at_pos bs (p + length xs) ys"
proof (induction xs arbitrary: p)
  case Nil
  then show ?case by (cases ys) (auto simp: at_pos_def)
qed auto

lemma pad_zero: "pad 10 w 0 = replicate w 48"
  by (induction w) (simp_all add: digit_char_def replicate_append_same)

lemma zero_pad_eq:
  assumes "0 \<le> n" "n < 10 ^ w" "0 < w"
  shows "zero_pad w n = pad 10 w (nat n)"
proof -
  have "replicate (w - length (digits_of 10 m)) 48 @ digits_of 10 m = pad 10 w m" if "m < 10 ^ w" "0 < w" for m w
    using that
  proof (induction w arbitrary: m)
    case (Suc w)
    show ?case
    proof (cases "m < 10")
      case True
      then show ?thesis by (simp add: digits_of_small pad_zero)
    next
      case False
      then have d: "digits_of 10 m = digits_of 10 (m div 10) @ [digit_char (m mod 10)]" by (simp add: digits_of_big)
      have l: "m div 10 < 10 ^ w" using Suc(2) by (simp add: less_mult_imp_div_less mult.commute)
      moreover have "0 < w" using False Suc(2) by (cases w) simp_all
      ultimately show ?thesis using Suc.IH [OF l] by (simp add: d)
    qed
  qed simp
  moreover have "nat n < 10 ^ w" using assms(1,2) by (simp add: nat_less_iff)
  ultimately show ?thesis using assms(3) by (simp add: zero_pad_def Let_def)
qed

lemma digit_byte:
  assumes "d < 10"
  shows "48 \<le> digit_char d" "digit_char d \<le> 57" "uint (digit_char d) = int d + 48"
proof -
  have "digit_char d = of_nat (d + 48)" unfolding digit_char_def using assms by (simp only: if_True)
  then have u: "unat (digit_char d) = d + 48" using assms by (simp only: unat_of_nat) simp
  then show "48 \<le> digit_char d" "digit_char d \<le> 57" using assms by (simp_all add: word_le_nat_alt)
  show "uint (digit_char d) = int d + 48" unfolding uint_nat u by simp
qed

lemma pad_Cons: "pad 10 (Suc k) n = digit_char (n div 10 ^ k mod 10) # pad 10 k (n mod 10 ^ k)"
proof (induction k arbitrary: n)
  case (Suc k)
  have m: "n mod 10 ^ Suc k = 10 * (n div 10 mod 10 ^ k) + n mod 10" using mod_mult2_eq [of n 10 "10 ^ k"] by simp
  have "pad 10 (Suc (Suc k)) n = pad 10 (Suc k) (n div 10) @ [digit_char (n mod 10)]" by simp
  also have "\<dots> = digit_char (n div 10 div 10 ^ k mod 10) # pad 10 k (n div 10 mod 10 ^ k) @ [digit_char (n mod 10)]"
    unfolding Suc.IH by simp
  also have "pad 10 k (n div 10 mod 10 ^ k) @ [digit_char (n mod 10)] = pad 10 (Suc k) (n mod 10 ^ Suc k)"
    unfolding pad.simps m by simp
  also have "n div 10 div 10 ^ k = n div 10 ^ Suc k" by (simp add: div_mult2_eq)
  finally show ?case .
qed simp

lemma digits_loop_pad:
  "at_pos sp p (pad 10 k n) \<Longrightarrow> n < 10 ^ k \<Longrightarrow> 0 < k \<Longrightarrow> p0 \<le> p \<Longrightarrow> p + k = p0 + m \<Longrightarrow> m \<le> 8 \<Longrightarrow> 0 \<le> v \<Longrightarrow> v < 10 ^ (p - p0) \<Longrightarrow>
    digits_loop sp p0 m v p = Some (Some (v * 10 ^ k + int n, p + k))"
proof (induction k arbitrary: p v n)
  case (Suc k)
  define q r where "q = n div 10 ^ k" and "r = n mod 10 ^ k"
  have q: "q < 10" using Suc(3) by (simp add: q_def less_mult_imp_div_less)
  have head: "pad 10 (Suc k) n = digit_char q # pad 10 k r"
    using q by (simp only: pad_Cons q_def r_def mod_less)
  have at: "p < length sp" "sp ! p = digit_char q" "at_pos sp (Suc p) (pad 10 k r)" using Suc(2) unfolding head by simp_all
  have "(10 :: int) ^ (p - p0) \<le> 10 ^ 7" using Suc(4-7) by (intro power_increasing) simp_all
  then have small: "\<not> 100000000 \<le> v" using Suc(9) by simp
  have "n = q * 10 ^ k + r" by (simp only: q_def r_def div_mult_mod_eq)
  then have n: "int n = int q * 10 ^ k + int r" by (simp only: of_nat_add of_nat_mult of_nat_power of_nat_numeral)
  have step: "digits_loop sp p0 m v p = (if p + 1 - p0 = m then Some (Some (v * 10 + int q, p + 1))
      else digits_loop sp p0 m (v * 10 + int q) (p + 1))"
    using digit_byte [OF q] at small by (subst digits_loop.simps) (simp add: Let_def)
  show ?case
  proof (cases "k = 0")
    case True
    then show ?thesis using Suc(5,6) n unfolding step by (simp add: r_def)
  next
    case False
    have "v * 10 + int q < 10 ^ (p + 1 - p0)"
    proof -
      have "v + 1 \<le> 10 ^ (p - p0)" using Suc(9) by simp
      then show ?thesis using q Suc(5) by (simp add: Suc_diff_le)
    qed
    then have "digits_loop sp p0 m (v * 10 + int q) (p + 1) = Some (Some ((v * 10 + int q) * 10 ^ k + int r, p + 1 + k))"
      using False Suc(5-8) at(3) by (intro Suc.IH) (simp_all add: r_def)
    then show ?thesis using False Suc(5,6) n unfolding step by (simp add: algebra_simps)
  qed
qed simp

lemma get_digits_pad:
  assumes "at_pos sp p (pad 10 k n)" "n < 10 ^ k" "0 < k" "k \<le> 8"
  shows "string_get_digits sp p k k = Some (Some (int n, p + k))"
  using digits_loop_pad [OF assms(1-3), of p k 0] assms(4) by (simp add: string_get_digits_def)

section \<open>The ISO text reads back\<close>

lemma skip_char_here: "p < length sp \<Longrightarrow> sp ! p = c \<Longrightarrow> string_skip_char sp p c = Some (True, p + 1)"
  by (simp add: string_skip_char_def)

lemma iso_year_value:
  assumes "at_pos sp 0 ((if 0 \<le> y \<and> y \<le> 9999 then fmt_d 4 y else fmt_plus_d 7 y) @ rest)" "\<bar>y\<bar> \<le> 999999"
  shows "iso_year sp f = Some (Some (f[0 := y], length (if 0 \<le> y \<and> y \<le> 9999 then fmt_d 4 y else fmt_plus_d 7 y)))"
proof (cases "0 \<le> y \<and> y \<le> 9999")
  case True
  then have e: "fmt_d 4 y = pad 10 4 (nat y)" by (simp add: fmt_d_def zero_pad_eq)
  have n: "nat y < 10 ^ 4" using True by (simp add: nat_less_iff)
  have at: "at_pos sp 0 (pad 10 4 (nat y))" using assms(1) True e by (simp add: at_pos_app)
  have four: "Suc 3 = 4" by simp
  have "at_pos sp 0 (digit_char (nat y div 10 ^ 3 mod 10) # pad 10 3 (nat y mod 10 ^ 3))"
    using at unfolding pad_Cons [of 3 "nat y", unfolded four] .
  then have h: "0 < length sp" "sp ! 0 = digit_char (nat y div 10 ^ 3 mod 10)" by auto
  have "nat y div 10 ^ 3 mod 10 < 10" by simp
  from digit_byte [OF this] h(2) have "sp ! 0 \<noteq> 45" "sp ! 0 \<noteq> 43" by auto
  then show ?thesis using True h(1) get_digits_pad [OF at n] e by (simp add: iso_year_def)
next
  case False
  define z where "z = nat \<bar>y\<bar>"
  have z: "z < 10 ^ 6" using assms(2) by (simp add: z_def)
  have e: "fmt_plus_d 7 y = (if y < 0 then 45 else 43) # pad 10 6 z"
    using assms(2) by (simp add: fmt_plus_d_def zero_pad_eq z_def)
  have at: "0 < length sp" "sp ! 0 = (if y < 0 then 45 else 43)" "at_pos sp 1 (pad 10 6 z)"
    using assms(1) False unfolding e by (auto simp: at_pos_app)
  have "string_get_digits sp 1 6 6 = Some (Some (\<bar>y\<bar>, 7))" using get_digits_pad [OF at(3) z] by (simp add: z_def)
  then show ?thesis using False at(1,2) e by (auto simp: iso_year_def abs_if)
qed

lemma iso_month_day_value:
  assumes "at_pos sp p ([45] @ pad 10 2 mon @ [45] @ pad 10 2 d @ rest)" "1 \<le> mon" "mon < 100" "1 \<le> d" "d < 100"
  shows "iso_month_day sp f p = Some (Some (f[1 := int mon - 1, 2 := int d], p + 6))"
proof -
  have at: "p < length sp" "sp ! p = 45" "at_pos sp (p + 1) (pad 10 2 mon)" "p + 3 < length sp" "sp ! (p + 3) = 45"
    "at_pos sp (p + 4) (pad 10 2 d)"
    using assms(1) by (auto simp: at_pos_app eval_nat_numeral simp del: pad.simps)
  have "string_get_digits sp (p + 1) 2 2 = Some (Some (int mon, p + 3))"
    "string_get_digits sp (p + 4) 2 2 = Some (Some (int d, p + 6))"
    using get_digits_pad [OF at(3)] get_digits_pad [OF at(6)] assms(3,5) by simp_all
  moreover have "string_skip_char sp p 45 = Some (True, p + 1)" "string_skip_char sp (p + 3) 45 = Some (True, p + 4)"
    using skip_char_here [OF at(1,2)] skip_char_here [OF at(4,5)] by simp_all
  ultimately show ?thesis using assms(2,4) unfolding iso_month_day_def by simp
qed

lemma ms_loop_value:
  assumes "at_pos sp p (pad 10 3 n @ [e])" "n < 1000" "\<not> (48 \<le> e \<and> e \<le> 57)"
  shows "ms_loop sp p 100 0 p = Some (int n, p + 3)"
proof -
  define a b c where "a = n div 100" and "b = n div 10 mod 10" and "c = n mod 10"
  have d: "a < 10" "b < 10" "c < 10" using assms(2) by (simp_all add: a_def b_def c_def less_mult_imp_div_less)
  have "a = n div 10 div 10 mod 10" using d(1) unfolding a_def by (simp add: div_mult2_eq [symmetric])
  then have "pad 10 3 n = [digit_char a, digit_char b, digit_char c]" by (simp add: numeral_3_eq_3 b_def c_def)
  then have "at_pos sp p [digit_char a, digit_char b, digit_char c, e]" using assms(1) by (simp only: append.simps)
  then have at: "p + 3 < length sp" "sp ! p = digit_char a" "sp ! (p + 1) = digit_char b" "sp ! (p + 2) = digit_char c" "sp ! (p + 3) = e"
    by (simp_all add: eval_nat_numeral)
  have n: "int n = int a * 100 + int b * 10 + int c"
  proof -
    have "n = 10 * (n div 10) + c" "n div 10 = 10 * (n div 10 div 10) + b" by (simp_all add: b_def c_def)
    moreover have "a = n div 10 div 10" by (simp add: a_def div_mult2_eq [symmetric])
    ultimately show ?thesis by linarith
  qed
  have q: "(100 :: int) sdiv 10 = 10" "(10 :: int) sdiv 10 = 1" "(1 :: int) sdiv 10 = 0" by (simp_all add: signed_divide_int_def)
  have s1: "ms_loop sp p 100 0 p = ms_loop sp p 10 (int a * 100) (p + 1)"
    using at digit_byte [OF d(1)] by (subst ms_loop.simps) (simp add: Let_def q)
  have s2: "ms_loop sp p 10 (int a * 100) (p + 1) = ms_loop sp p 1 (int a * 100 + int b * 10) (p + 2)"
    using at digit_byte [OF d(2)] by (subst ms_loop.simps) (simp add: Let_def q)
  have s3: "ms_loop sp p 1 (int a * 100 + int b * 10) (p + 2) = ms_loop sp p 0 (int n) (p + 3)"
    using at digit_byte [OF d(3)] by (subst ms_loop.simps) (simp add: Let_def q n numeral_3_eq_3)
  have s4: "ms_loop sp p 0 (int n) (p + 3) = Some (int n, p + 3)"
    using at assms(3) by (subst ms_loop.simps) (auto simp: Let_def)
  show ?thesis unfolding s1 s2 s3 s4 ..
qed

lemma get_ms_value:
  assumes "q < length sp" "sp ! q = 46" "at_pos sp (Suc q) (pad 10 3 n @ [e])" "n < 1000" "\<not> (48 \<le> e \<and> e \<le> 57)"
  shows "string_get_milliseconds sp q v = Some (int n, q + 4)"
  using assms(1,2) ms_loop_value [OF assms(3-5)] by (simp add: string_get_milliseconds_def)

lemma iso_time_value:
  assumes "at_pos sp p ([84] @ pad 10 2 h @ [58] @ pad 10 2 m @ [58] @ pad 10 2 s @ [46] @ pad 10 3 ms @ [e])"
    "h < 100" "m < 100" "s < 100" "ms < 1000" "\<not> (48 \<le> e \<and> e \<le> 57)"
  shows "iso_time sp f p = Some (Some (f[3 := int h, 4 := int m, 5 := int s, 6 := int ms], True, Some (p + 13)))"
proof -
  have at: "p < length sp" "sp ! p = 84" "at_pos sp (p + 1) (pad 10 2 h)" "p + 3 < length sp" "sp ! (p + 3) = 58"
    "at_pos sp (p + 4) (pad 10 2 m)" "p + 6 < length sp" "sp ! (p + 6) = 58" "at_pos sp (p + 7) (pad 10 2 s)"
    "p + 9 < length sp" "sp ! (p + 9) = 46" "at_pos sp (Suc (p + 9)) (pad 10 3 ms @ [e])"
    using assms(1) by (auto simp: at_pos_app eval_nat_numeral simp del: pad.simps)
  have d: "string_get_digits sp (p + 1) 2 2 = Some (Some (int h, p + 3))"
    "string_get_digits sp (p + 4) 2 2 = Some (Some (int m, p + 6))" "string_get_digits sp (p + 7) 2 2 = Some (Some (int s, p + 9))"
    using get_digits_pad [OF at(3)] get_digits_pad [OF at(6)] get_digits_pad [OF at(9)] assms(2-4) by simp_all
  have c: "string_skip_char sp p 84 = Some (True, p + 1)" "string_skip_char sp (p + 3) 58 = Some (True, p + 4)"
    "string_skip_char sp (p + 6) 58 = Some (True, p + 7)"
    using skip_char_here [OF at(1,2)] skip_char_here [OF at(4,5)] skip_char_here [OF at(7,8)] by simp_all
  have "string_get_milliseconds sp (p + 9) v = Some (int ms, p + 13)" for v
    using get_ms_value [OF at(10-12) assms(5,6)] by simp
  then show ?thesis unfolding iso_time_def using c d by simp
qed

lemma iso_zone_utc:
  "p + 1 < length sp \<Longrightarrow> sp ! p = 90 \<Longrightarrow> sp ! (p + 1) = 0 \<Longrightarrow> iso_zone sp f l p = Some (Some (f[8 := 0], False))"
  by (simp add: iso_zone_def string_get_tzoffset_def)

lemma date_byte_ucast: "date_byte (ucast c) = c"
proof -
  have u: "unat (ucast c :: u16) = unat c" using unsigned_less [of c, where 'a = nat] by (simp add: unat_ucast_mod)
  then have "\<not> (ucast c :: u16) > 255" using unsigned_less [of c, where 'a = nat] by (simp add: word_less_nat_alt)
  moreover have "ucast (ucast c :: u16) = c" using u unsigned_less [of c, where 'a = nat] by (simp add: word_unat_eq_iff unat_ucast_mod)
  ultimately show ?thesis by (simp add: date_byte_def)
qed

text \<open>The ISO text of valid fields, and its length.\<close>

lemma iso_text:
  assumes "fields_ok f" "\<bar>f ! 0\<bar> \<le> 999999"
  defines "year \<equiv> (if 0 \<le> f ! 0 \<and> f ! 0 \<le> 9999 then fmt_d 4 (f ! 0) else fmt_plus_d 7 (f ! 0))"
  shows "date_part 2 3 f @ time_part 2 f = year @
      ([45] @ pad 10 2 (nat (f ! 1 + 1)) @ [45] @ pad 10 2 (nat (f ! 2))) @
      ([84] @ pad 10 2 (nat (f ! 3)) @ [58] @ pad 10 2 (nat (f ! 4)) @ [58] @ pad 10 2 (nat (f ! 5)) @ [46] @ pad 10 3 (nat (f ! 6))) @ [90]"
    "length year \<le> 7"
proof -
  have b: "0 \<le> f ! 1" "f ! 1 < 12" "1 \<le> f ! 2" "f ! 2 \<le> 31" "0 \<le> f ! 3" "f ! 3 < 24" "0 \<le> f ! 4" "f ! 4 < 60"
    "0 \<le> f ! 5" "f ! 5 < 60" "0 \<le> f ! 6" "f ! 6 < 1000"
    using assms(1) days_in_month_pos [of "nat (f ! 1)" "f ! 0"] by (auto simp: fields_ok_def nat_less_iff)
  have p2: "fmt_d 2 x = pad 10 2 (nat x)" if "0 \<le> x" "x < 100" for x using that by (simp add: fmt_d_def zero_pad_eq)
  have p3: "fmt_d 3 x = pad 10 3 (nat x)" if "0 \<le> x" "x < 1000" for x using that by (simp add: fmt_d_def zero_pad_eq)
  have "fmt_d 2 (f ! 1 + 1) = pad 10 2 (nat (f ! 1 + 1))" "fmt_d 2 (f ! 2) = pad 10 2 (nat (f ! 2))"
    "fmt_d 2 (f ! 3) = pad 10 2 (nat (f ! 3))" "fmt_d 2 (f ! 4) = pad 10 2 (nat (f ! 4))"
    "fmt_d 2 (f ! 5) = pad 10 2 (nat (f ! 5))" "fmt_d 3 (f ! 6) = pad 10 3 (nat (f ! 6))"
    using b by (intro p2 p3; linarith)+
  then show "date_part 2 3 f @ time_part 2 f = year @
      ([45] @ pad 10 2 (nat (f ! 1 + 1)) @ [45] @ pad 10 2 (nat (f ! 2))) @
      ([84] @ pad 10 2 (nat (f ! 3)) @ [58] @ pad 10 2 (nat (f ! 4)) @ [58] @ pad 10 2 (nat (f ! 5)) @ [46] @ pad 10 3 (nat (f ! 6))) @ [90]"
    unfolding date_part_def time_part_def Let_def year_def by (simp del: pad.simps)
  show "length year \<le> 7"
    using assms(2) unfolding year_def fmt_d_def fmt_plus_d_def by (auto simp: zero_pad_eq)
qed

lemma iso_parses_zone:
  assumes "fields_ok f" "\<bar>f ! 0\<bar> \<le> 999999" "sp = butlast (date_part 2 3 f @ time_part 2 f) @ z"
    and zone: "\<And>g q. at_pos sp q z \<Longrightarrow> iso_zone sp g True q = Some (Some (g[8 := off], False))"
    and z: "z = e # zs" "\<not> (48 \<le> e \<and> e \<le> 57)"
  shows "js_date_parse_isostring sp = Some (Some (take 7 f @ [0, off], False))"
proof -
  have b: "0 \<le> f ! 1" "f ! 1 < 12" "1 \<le> f ! 2" "f ! 2 \<le> 31" "0 \<le> f ! 3" "f ! 3 < 24" "0 \<le> f ! 4" "f ! 4 < 60"
    "0 \<le> f ! 5" "f ! 5 < 60" "0 \<le> f ! 6" "f ! 6 < 1000" "length f = 9"
    using assms(1) days_in_month_pos [of "nat (f ! 1)" "f ! 0"] by (auto simp: fields_ok_def nat_less_iff)
  define year where "year = (if 0 \<le> f ! 0 \<and> f ! 0 \<le> 9999 then fmt_d 4 (f ! 0) else fmt_plus_d 7 (f ! 0))"
  define L where "L = length year"
  define D where "D = [45] @ pad 10 2 (nat (f ! 1 + 1)) @ [45] @ pad 10 2 (nat (f ! 2))"
  define T where "T = [84] @ pad 10 2 (nat (f ! 3)) @ [58] @ pad 10 2 (nat (f ! 4)) @ [58] @ pad 10 2 (nat (f ! 5)) @ [46] @ pad 10 3 (nat (f ! 6))"
  have len: "length D = 6" "length T = 13" unfolding D_def T_def by (simp_all del: pad.simps)
  have "date_part 2 3 f @ time_part 2 f = (year @ D @ T) @ [90]"
    unfolding iso_text(1) [OF assms(1,2)] by (simp add: year_def D_def T_def del: pad.simps)
  then have "butlast (date_part 2 3 f @ time_part 2 f) = year @ D @ T" by (simp only: butlast_snoc)
  then have sp: "sp = year @ D @ T @ z" unfolding assms(3) by simp
  have "at_pos sp 0 (year @ D @ T @ z)" unfolding sp by (simp add: at_pos_def)
  note Y = iso_year_value [OF this [unfolded year_def] assms(2), folded year_def, folded L_def]
  have atD: "at_pos sp L (D @ [])" using at_pos_append [of year D "T @ z"] by (simp add: sp L_def)
  have D: "iso_month_day sp g L = Some (Some (g[1 := f ! 1, 2 := f ! 2], L + 6))" for g
    using iso_month_day_value [OF atD [unfolded D_def append_assoc], of g] b by simp
  have atT: "at_pos sp (L + 6) (T @ [e])" using at_pos_append [of "year @ D" "T @ [e]" zs] by (simp add: sp z L_def len)
  have atz: "at_pos sp (L + 19) z" using at_pos_append [of "year @ D @ T" z "[]"] by (simp add: sp L_def len)
  have T: "iso_time sp g (L + 6) = Some (Some (g[3 := f ! 3, 4 := f ! 4, 5 := f ! 5, 6 := f ! 6], True, Some (L + 19)))" for g
    using iso_time_value [OF atT [unfolded T_def append_assoc], of g] b z(2) by (simp add: nat_less_iff add.commute)
  note Z = zone [OF atz]
  have f7: "take 7 f = [f ! 0, f ! 1, f ! 2, f ! 3, f ! 4, f ! 5, f ! 6]"
    using b(13) by (intro nth_equalityI) (auto simp: less_Suc_eq eval_nat_numeral)
  show ?thesis unfolding js_date_parse_isostring_def Y Option.bind.simps option.case prod.case D T Z f7
    by (simp add: eval_nat_numeral)
qed

lemma iso_parses:
  assumes "fields_ok f" "\<bar>f ! 0\<bar> \<le> 999999" "sp = (date_part 2 3 f @ time_part 2 f) @ [0]"
  shows "js_date_parse_isostring sp = Some (Some (take 7 f @ [0, 0], False))"
proof (rule iso_parses_zone [OF assms(1,2), of sp "[90, 0]" 0 90 "[0]"])
  show "sp = butlast (date_part 2 3 f @ time_part 2 f) @ [90, 0]" unfolding assms(3) iso_text(1) [OF assms(1,2)] by (simp add: butlast_append)
  show "iso_zone sp g True q = Some (Some (g[8 := 0], False))" if "at_pos sp q [90, 0]" for g q
    using that by (intro iso_zone_utc) simp_all
qed simp_all

text \<open>Property C10 (roundtrip):
  the text of \<open>toISOString\<close> reads back. For every time value a date can hold, years before 0 and
  after 9999 included, \<open>get_date_string\<close> in the ISO format returns at most 27 bytes, which fit its
  buffer of 64, and \<open>Date.parse\<close> of them is the time, to the millisecond, in every time zone of the
  host.\<close>

theorem iso_string_roundtrip:
  assumes "\<bar>t\<bar> \<le> 8640000000000000"
  shows "\<exists>s. get_date_string tzo (Time t) 2 3 = Some (Inr s) \<and> length s \<le> 27
    \<and> js_Date_parse tzo (map ucast s) = Some (Time t)"
proof -
  obtain f where f: "get_date_fields tzo (Time t) False False = Some (Some f)" "fields_ok f" "time_of f = t"
    using get_date_fields_value [of tzo t False False] by auto
  have b: "0 \<le> f ! 1" "f ! 1 < 12" "1 \<le> f ! 2" "f ! 2 \<le> 31" "0 \<le> f ! 3" "f ! 3 < 24" "0 \<le> f ! 4" "f ! 4 < 60"
    "0 \<le> f ! 5" "f ! 5 < 60" "0 \<le> f ! 6" "f ! 6 < 1000" "length f = 9"
    using f(2) days_in_month_pos [of "nat (f ! 1)" "f ! 0"] by (auto simp: fields_ok_def nat_less_iff)
  have "\<bar>time_of f\<bar> \<le> 8640000086400000" using assms f(3) by simp
  note y = year_in_range [OF f(2) this]
  then have y6: "\<bar>f ! 0\<bar> \<le> 999999" by linarith
  define s where "s = date_part 2 3 f @ time_part 2 f"
  have str: "get_date_string tzo (Time t) 2 3 = Some (Inr s)" by (simp add: get_date_string_def f(1) s_def)
  have len: "length s \<le> 27" using iso_text(2) [OF f(2) y6] unfolding s_def iso_text(1) [OF f(2) y6] by (simp del: pad.simps)
  from len have buf: "map date_byte (take 127 (map ucast s)) @ [0] = s @ [0]" by (simp add: comp_def date_byte_ucast)
  define g where "g = take 7 f @ [0, 0]"
  have gn: "g ! i = f ! i" if "i < 7" for i using that b(13) by (simp add: g_def nth_append)
  have gn_all: "g ! 0 = f ! 0" "g ! 1 = f ! 1" "g ! 2 = f ! 2" "g ! 3 = f ! 3" "g ! 4 = f ! 4" "g ! 5 = f ! 5" "g ! 6 = f ! 6"
    by (simp_all add: gn)
  have "js_date_parse_isostring (s @ [0]) = Some (Some (g, False))" using iso_parses [OF f(2) y6 refl] by (simp add: s_def g_def)
  moreover have "fields_valid g" using b by (simp add: fields_valid_def field_max_def gn eval_nat_numeral)
  moreover have "set_date_fields tzo g False = set_date_fields (\<lambda>_. 0) f False"
    unfolding set_date_fields_def Let_def by (simp only: gn_all if_False)
  moreover have "set_date_fields (\<lambda>_. 0) f False = Some (Time t)"
    using set_date_fields_value [OF fields_ok_small [OF f(2)], of "\<lambda>_. 0" False] y f(3) assms by (auto simp: time_clip_def)
  moreover have "g ! 8 = 0" using b(13) by (simp add: g_def nth_append)
  ultimately have "js_Date_parse tzo (map ucast s) = Some (Time t)"
    unfolding js_Date_parse_def Let_def buf by simp
  then show ?thesis using str len by blast
qed

lemma iso_string_roundtrip_witness:
  "\<exists>s. get_date_string (\<lambda>_. 60) (Time (- 62198755200001)) 2 3 = Some (Inr s) \<and> length s \<le> 27
    \<and> js_Date_parse (\<lambda>_. 60) (map ucast s) = Some (Time (- 62198755200001))"
  using iso_string_roundtrip [of "- 62198755200001" "\<lambda>_. 60"] by simp

end
