(* ===== verification/DateParse.thy ===== *)
theory DateParse
  imports DateText
begin

text \<open>
  \<open>Date.parse\<close> on every text: the parsers stay inside the block, each item of a text makes progress,
  and the fields that are accepted are those of a date that \<open>set_date_fields\<close> computes exactly. The
  properties of the text of dates.
\<close>

section \<open>Parsers stay inside the text\<close>

text \<open>A block ends with a NUL; a parser returns a later position inside it.\<close>

definition terminated :: "u8 list \<Rightarrow> bool" where
  "terminated sp \<longleftrightarrow> sp \<noteq> [] \<and> last sp = 0"

lemma terminated_next: "terminated sp \<Longrightarrow> p < length sp \<Longrightarrow> sp ! p \<noteq> 0 \<Longrightarrow> p + 1 < length sp"
  unfolding terminated_def by (cases "p = length sp - 1") (auto simp: last_conv_nth)

lemma skip_while_inside:
  "terminated sp \<Longrightarrow> p < length sp \<Longrightarrow> \<not> P 0 \<Longrightarrow>
    \<exists>c q. skip_while P sp p = Some (c, q) \<and> p \<le> q \<and> q < length sp \<and> c = sp ! q \<and> \<not> P c \<and> (P (sp ! p) \<longrightarrow> p < q)"
proof (induction P sp p rule: skip_while.induct)
  case (1 P sp p)
  show ?case
  proof (cases "P (sp ! p)")
    case True
    then have "p + 1 < length sp" using 1(2-4) by (intro terminated_next) auto
    then show ?thesis using 1(1) [OF 1(3) True 1(2) _ 1(4)] 1(3) True by (subst skip_while.simps) auto
  next
    case False
    then show ?thesis using 1(3) by (subst skip_while.simps) simp
  qed
qed

lemma digit_not_nul: "48 \<le> c \<Longrightarrow> c \<noteq> (0 :: u8)"
  by auto

lemma digit_value: "48 \<le> c \<Longrightarrow> 0 \<le> uint (c :: u8) - 48"
  by (simp add: word_le_def)

lemma digits_loop_inside:
  "terminated sp \<Longrightarrow> p < length sp \<Longrightarrow> 0 \<le> v \<Longrightarrow>
    \<exists>r. digits_loop sp p0 m v p = Some r \<and> (\<forall>w q. r = Some (w, q) \<longrightarrow> 0 \<le> w \<and> p \<le> q \<and> q < length sp)"
proof (induction sp p0 m v p rule: digits_loop.induct)
  case (1 sp p0 m v p)
  show ?case
  proof (cases "48 \<le> sp ! p \<and> sp ! p \<le> 57 \<and> v < 100000000 \<and> p + 1 - p0 \<noteq> m")
    case True
    then have n: "p + 1 < length sp" "0 \<le> v * 10 + (uint (sp ! p) - 48)"
      using terminated_next [OF 1(2,3)] digit_not_nul [of "sp ! p"] digit_value [of "sp ! p"] 1(4) by auto
    obtain r where "digits_loop sp p0 m (v * 10 + (uint (sp ! p) - 48)) (p + 1) = Some r"
      "\<forall>w q. r = Some (w, q) \<longrightarrow> 0 \<le> w \<and> p + 1 \<le> q \<and> q < length sp"
      using 1(1) [OF 1(3) refl _ _ refl _ 1(2) n] True by auto
    then show ?thesis using True 1(3) by (subst digits_loop.simps) (auto simp: Let_def)
  next
    case False
    then show ?thesis using 1(3,4) terminated_next [OF 1(2,3)] digit_not_nul [of "sp ! p"] digit_value [of "sp ! p"]
      by (subst digits_loop.simps) (auto simp: Let_def)
  qed
qed

lemma get_digits_inside:
  assumes "terminated sp" "p < length sp"
  shows "\<exists>r. string_get_digits sp p a b = Some r
    \<and> (\<forall>w q. r = Some (w, q) \<longrightarrow> 0 \<le> w \<and> p + a \<le> q \<and> q < length sp)"
proof -
  obtain r where "digits_loop sp p b 0 p = Some r" "\<forall>w q. r = Some (w, q) \<longrightarrow> 0 \<le> w \<and> p \<le> q \<and> q < length sp"
    using digits_loop_inside [OF assms order_refl] by blast
  then show ?thesis by (auto simp: string_get_digits_def split: option.splits prod.splits)
qed

lemma skip_char_inside:
  assumes "terminated sp" "p < length sp" "c \<noteq> 0"
  shows "\<exists>b q. string_skip_char sp p c = Some (b, q) \<and> q < length sp \<and> q = (if b then p + 1 else p)"
  using assms terminated_next [OF assms(1,2)] by (auto simp: string_skip_char_def)

lemma ms_loop_inside:
  "terminated sp \<Longrightarrow> p < length sp \<Longrightarrow> 0 \<le> ms \<Longrightarrow>
    mul \<in> {1, 10, 100} \<and> ms \<le> 1000 - 10 * mul \<or> mul = 0 \<and> ms \<le> 999 \<Longrightarrow>
    \<exists>w q. ms_loop sp p0 mul ms p = Some (w, q) \<and> 0 \<le> w \<and> w \<le> 999 \<and> p \<le> q \<and> q < length sp"
proof (induction sp p0 mul ms p rule: ms_loop.induct)
  case (1 sp p0 mul ms p)
  define c where "c = sp ! p"
  define ms' where "ms' = ms + (uint c - 48) * mul"
  define mul' where "mul' = mul sdiv 10"
  show ?case
  proof (cases "48 \<le> c \<and> c \<le> 57")
    case True
    then have d: "0 \<le> uint c - 48" "uint c - 48 \<le> 9" by (simp_all add: word_le_def)
    have "0 \<le> (uint c - 48) * mul" "(uint c - 48) * mul \<le> 9 * mul" using d 1(5) by (auto intro!: mult_right_mono)
    moreover have "mul' = (if mul = 100 then 10 else if mul = 10 then 1 else 0)"
      using 1(5) by (auto simp: mul'_def signed_divide_int_def)
    ultimately have inv: "0 \<le> ms'" "mul' \<in> {1, 10, 100} \<and> ms' \<le> 1000 - 10 * mul' \<or> mul' = 0 \<and> ms' \<le> 999" "ms' \<le> 999"
      using 1(4,5) unfolding ms'_def by auto
    have n: "p + 1 < length sp" using terminated_next [OF 1(2,3)] True digit_not_nul [of c] by (auto simp: c_def)
    show ?thesis
    proof (cases "p + 1 - p0 = 9")
      case True
      then show ?thesis using \<open>48 \<le> c \<and> c \<le> 57\<close> 1(3) n inv
        by (subst ms_loop.simps) (simp add: Let_def c_def [symmetric] ms'_def [symmetric])
    next
      case False
      obtain w q where "ms_loop sp p0 mul' ms' (p + 1) = Some (w, q)" "0 \<le> w" "w \<le> 999" "p + 1 \<le> q" "q < length sp"
        using 1(1) [OF 1(3) c_def True ms'_def mul'_def False 1(2) n inv(1,2)] by blast
      then show ?thesis using \<open>48 \<le> c \<and> c \<le> 57\<close> 1(3) False
        by (subst ms_loop.simps) (simp add: Let_def c_def [symmetric] ms'_def [symmetric] mul'_def [symmetric])
    qed
  next
    case False
    then show ?thesis using 1(3-5) by (subst ms_loop.simps) (auto simp: Let_def c_def)
  qed
qed

lemma get_ms_inside:
  assumes "terminated sp" "p < length sp" "0 \<le> v" "v \<le> 999"
  shows "\<exists>w q. string_get_milliseconds sp p v = Some (w, q) \<and> 0 \<le> w \<and> w \<le> 999 \<and> p \<le> q \<and> q < length sp"
proof (cases "sp ! p = 46 \<or> sp ! p = 44")
  case True
  then have n: "p + 1 < length sp" using terminated_next [OF assms(1,2)] by auto
  obtain w q where "ms_loop sp (p + 1) 100 0 (p + 1) = Some (w, q)" "0 \<le> w" "w \<le> 999" "p + 1 \<le> q" "q < length sp"
    using ms_loop_inside [OF assms(1) n, of 0 100 "p + 1"] by auto
  then show ?thesis using True assms by (auto simp: string_get_milliseconds_def)
next
  case False
  then show ?thesis using assms by (simp add: string_get_milliseconds_def)
qed

lemma first_digits_nonneg: "0 \<le> hh \<Longrightarrow> 0 \<le> snd (first_digits n hh)"
proof (induction n hh rule: first_digits.induct)
  case (1 n hh)
  have "0 \<le> hh sdiv 100" using 1(2) by (simp add: signed_divide_int_def sgn_if)
  then show ?case using 1 by (subst first_digits.simps) simp
qed

lemma tzoffset_inside:
  assumes "terminated sp" "p < length sp"
  shows "\<exists>r. string_get_tzoffset sp p strict = Some r
    \<and> (\<forall>tz q. r = Some (tz, q) \<longrightarrow> \<bar>tz\<bar> \<le> 1439 \<and> p < q \<and> q < length sp)"
proof (cases "sp ! p = 43 \<or> sp ! p = 45")
  case False
  then show ?thesis using assms terminated_next [OF assms] by (auto simp: string_get_tzoffset_def Let_def)
next
  case True
  then have p1: "p + 1 < length sp" using terminated_next [OF assms] by auto
  obtain r where r: "string_get_digits sp (p + 1) 1 0 = Some r"
    "\<And>w q. r = Some (w, q) \<Longrightarrow> 0 \<le> w \<and> p + 1 + 1 \<le> q \<and> q < length sp"
    using get_digits_inside [OF assms(1) p1] by blast
  show ?thesis
  proof (cases r)
    case None
    then show ?thesis using True assms r(1) by (simp add: string_get_tzoffset_def)
  next
    case (Some wq)
    then obtain w q where rq: "r = Some (w, q)" by (cases wq) simp
    then have wq: "0 \<le> w" "p + 1 < q" "q < length sp" using r(2) [of w q] by simp_all
    obtain n hh where nh: "first_digits (q - (p + 1)) w = (n, hh)" by fastforce
    have hh: "0 \<le> hh" using first_digits_nonneg [OF wq(1), of "q - (p + 1)"] nh by simp
    then have m: "0 \<le> hh smod 100" "0 \<le> hh sdiv 100" by (simp_all add: signed_modulo_int_def signed_divide_int_def sgn_if)
    have inner: "\<exists>r. (if n > 2 then Some (Some (hh smod 100, hh sdiv 100, q))
        else do {
          (colon, p) \<leftarrow> string_skip_char sp q 58;
          if colon then do {
            r \<leftarrow> string_get_digits sp p 2 2;
            Some (case r of None \<Rightarrow> None | Some (mm, p) \<Rightarrow> Some (mm, hh, p)) }
          else Some (Some (0, hh, p)) }) = Some r
      \<and> (\<forall>mm h p'. r = Some (mm, h, p') \<longrightarrow> 0 \<le> mm \<and> 0 \<le> h \<and> q \<le> p' \<and> p' < length sp)"
    proof (cases "n > 2")
      case True
      then show ?thesis using m wq by simp
    next
      case False
      obtain b q' where sk: "string_skip_char sp q 58 = Some (b, q')" "q' < length sp" "q' = (if b then q + 1 else q)"
        using skip_char_inside [OF assms(1) wq(3), of 58] by auto
      obtain r2 where "string_get_digits sp q' 2 2 = Some r2"
        "\<forall>w p'. r2 = Some (w, p') \<longrightarrow> 0 \<le> w \<and> q' + 2 \<le> p' \<and> p' < length sp"
        using get_digits_inside [OF assms(1) sk(2)] by blast
      then show ?thesis using False sk hh by (auto split: option.splits prod.splits)
    qed
    then obtain r3 where r3: "(if n > 2 then Some (Some (hh smod 100, hh sdiv 100, q))
        else do {
          (colon, p) \<leftarrow> string_skip_char sp q 58;
          if colon then do {
            r \<leftarrow> string_get_digits sp p 2 2;
            Some (case r of None \<Rightarrow> None | Some (mm, p) \<Rightarrow> Some (mm, hh, p)) }
          else Some (Some (0, hh, p)) }) = Some r3"
      "\<forall>mm h p'. r3 = Some (mm, h, p') \<longrightarrow> 0 \<le> mm \<and> 0 \<le> h \<and> q \<le> p' \<and> p' < length sp" by blast
    have sgn: "rd sp p = Some (sp ! p)" using assms(2) by simp
    have "string_get_tzoffset sp p strict =
      (if strict \<and> q - (p + 1) \<noteq> 2 \<and> q - (p + 1) \<noteq> 4 then Some None
       else Some (case r3 of None \<Rightarrow> None
               | Some (mm, hh, p') \<Rightarrow>
                 if hh > 23 \<or> mm > 59 then None
                 else let tz = hh * 60 + mm in Some (if sp ! p \<noteq> 43 then - tz else tz, p')))"
      unfolding string_get_tzoffset_def sgn Option.bind.simps Let_def if_P [OF True] r(1) rq option.case prod.case nh r3(1) ..
    then show ?thesis using r3(2) wq by (auto simp: Let_def split: option.splits)
  qed
qed

lemma match_inside:
  "terminated sp \<Longrightarrow> p < length sp \<Longrightarrow> 0 \<notin> set s \<Longrightarrow>
    \<exists>r. string_match sp p s = Some r \<and> (\<forall>q. r = Some q \<longrightarrow> q = p + length s \<and> q < length sp)"
proof (induction s arbitrary: p)
  case (Cons c s)
  show ?case
  proof (cases "to_upper_ascii (sp ! p) = to_upper_ascii c")
    case True
    have "sp ! p \<noteq> 0"
    proof
      assume z: "sp ! p = 0"
      then have "to_upper_ascii c = 0" using True by (simp add: to_upper_ascii_def)
      moreover have "c \<noteq> 0" using Cons(4) by auto
      moreover have "c - 97 + 65 \<noteq> 0" if "97 \<le> c" "c \<le> 122"
      proof
        assume "c - 97 + 65 = 0"
        then have "c = 32" by simp
        then show False using that by simp
      qed
      ultimately show False by (auto simp: to_upper_ascii_def split: if_splits)
    qed
    then have "p + 1 < length sp" using terminated_next [OF Cons(2,3)] by simp
    then show ?thesis using Cons.IH [OF Cons(2), of "p + 1"] Cons(3,4) True by auto
  next
    case False
    then show ?thesis using Cons(3) by simp
  qed
qed simp

lemma find_abbrev_inside:
  assumes "terminated sp" "p < length sp" "0 \<notin> set list"
  shows "3 * (n + k) \<le> length list \<Longrightarrow>
    \<exists>r. find_abbrev sp p list n k = Some r \<and> (0 \<le> r \<longrightarrow> p + 3 < length sp)"
proof (induction k arbitrary: n)
  case (Suc k)
  define s where "s = take 3 (drop (n * 3) list)"
  have s: "0 \<notin> set s" "length s = 3" using assms(3) Suc(2) by (auto simp: s_def dest: in_set_takeD in_set_dropD)
  obtain r where r: "string_match sp p s = Some r" "\<forall>q. r = Some q \<longrightarrow> q = p + length s \<and> q < length sp"
    using match_inside [OF assms(1,2) s(1)] by blast
  then show ?case using Suc.IH [of "n + 1"] Suc(2) s(2) by (cases r) (auto simp: s_def [symmetric])
qed simp

lemma month_inside:
  assumes "terminated sp" "p < length sp"
  shows "\<exists>r. string_get_month sp p = Some r \<and> (\<forall>m q. r = Some (m, q) \<longrightarrow> p < q \<and> q < length sp)"
proof -
  have "0 \<notin> set month_names" "3 * (0 + 12) \<le> length month_names" by (simp_all add: month_names_def)
  from find_abbrev_inside [OF assms this] show ?thesis by (auto simp: string_get_month_def)
qed

lemma tzabbr_from_inside:
  assumes "terminated sp" "p < length sp"
  shows "\<forall>(s, z) \<in> set ts. 0 \<notin> set s \<and> s \<noteq> [] \<and> \<bar>z\<bar> \<le> 1439 \<Longrightarrow>
    \<exists>r. tzabbr_from sp p ts = Some r \<and> (\<forall>z q. r = Some (z, q) \<longrightarrow> \<bar>z\<bar> \<le> 1439 \<and> p < q \<and> q < length sp)"
proof (induction ts)
  case (Cons t ts)
  obtain s z where t: "t = (s, z)" by fastforce
  then have s: "0 \<notin> set s" "s \<noteq> []" "\<bar>z\<bar> \<le> 1439" using Cons(2) by auto
  obtain r where r: "string_match sp p s = Some r" "\<forall>q. r = Some q \<longrightarrow> q = p + length s \<and> q < length sp"
    using match_inside [OF assms s(1)] by blast
  then show ?case using Cons s by (cases r) (auto simp: t)
qed simp

lemma tzabbr_inside:
  assumes "terminated sp" "p < length sp"
  shows "\<exists>r. string_get_tzabbr sp p = Some r \<and> (\<forall>z q. r = Some (z, q) \<longrightarrow> \<bar>z\<bar> \<le> 1439 \<and> p < q \<and> q < length sp)"
  unfolding string_get_tzabbr_def by (rule tzabbr_from_inside [OF assms]) (simp add: js_tzabbr_def)

lemma paren_loop_inside:
  "terminated sp \<Longrightarrow> p < length sp \<Longrightarrow>
    \<exists>l q. paren_loop sp level p = Some (l, q) \<and> p \<le> q \<and> q < length sp \<and> (sp ! p \<noteq> 0 \<longrightarrow> p < q)"
proof (induction sp level p rule: paren_loop.induct)
  case (1 sp level p)
  define c where "c = sp ! p"
  define l where "l = level + of_bool (c = 40) - of_bool (c = 41)"
  show ?case
  proof (cases "c = 0")
    case False
    then have n: "p + 1 < length sp" using terminated_next [OF 1(2,3)] by (simp add: c_def)
    show ?thesis
    proof (cases "l = 0")
      case True
      then show ?thesis using False 1(3) n by (subst paren_loop.simps) (simp add: Let_def c_def [symmetric] l_def [symmetric])
    next
      case l0: False
      then show ?thesis using 1(1) [OF 1(3) c_def False l_def l0 1(2) n] 1(3) False
        by (subst paren_loop.simps) (fastforce simp: Let_def c_def [symmetric] l_def [symmetric])
    qed
  next
    case True
    then show ?thesis using 1(3) by (subst paren_loop.simps) (simp add: Let_def c_def [symmetric])
  qed
qed

section \<open>Each item makes progress\<close>

definition time_fields_ok :: "int list \<Rightarrow> bool" where
  "time_fields_ok f \<longleftrightarrow> length f = 9 \<and> 0 \<le> f ! 3 \<and> 0 \<le> f ! 4 \<and> 0 \<le> f ! 5 \<and> 0 \<le> f ! 6 \<and> f ! 6 \<le> 999 \<and> \<bar>f ! 8\<bar> \<le> 1439"

lemma time_fields_update:
  assumes "time_fields_ok f"
  shows "i \<le> 2 \<Longrightarrow> time_fields_ok (f[i := v])" "3 \<le> i \<Longrightarrow> i \<le> 5 \<Longrightarrow> 0 \<le> v \<Longrightarrow> time_fields_ok (f[i := v])"
    "0 \<le> v \<Longrightarrow> v \<le> 999 \<Longrightarrow> time_fields_ok (f[6 := v])" "\<bar>v\<bar> \<le> 1439 \<Longrightarrow> time_fields_ok (f[8 := v])"
  using assms by (auto simp: time_fields_ok_def nth_list_update)

text \<open>
  The outcome of an item that starts at \<open>p\<close>: no progress is only possible at a slash, which the
  separators after it include.
\<close>

definition advances :: "u8 list \<Rightarrow> nat \<Rightarrow> (other_state \<times> bool) option option \<Rightarrow> bool" where
  "advances sp p r \<longleftrightarrow> (\<exists>x. r = Some x \<and> (\<forall>st b. x = Some (st, b) \<longrightarrow>
     time_fields_ok (os_fields st) \<and> os_pos st < length sp \<and> (p < os_pos st \<or> p = os_pos st \<and> b \<and> sp ! p = 47)))"

lemma advances_simps [simp]:
  "advances sp p (Some None)"
  "advances sp p (Some (Some (st, b))) \<longleftrightarrow> time_fields_ok (os_fields st) \<and> os_pos st < length sp \<and>
     (p < os_pos st \<or> p = os_pos st \<and> b \<and> sp ! p = 47)"
  by (auto simp: advances_def)

lemma other_sign_advances:
  assumes "terminated sp" "os_pos st < length sp" "time_fields_ok (os_fields st)" "sp ! os_pos st = c" "c = 43 \<or> c = 45"
  shows "advances sp (os_pos st) (other_sign sp c st)"
proof -
  define p where "p = os_pos st"
  have n: "p + 1 < length sp" using assms terminated_next [OF assms(1,2)] by (auto simp: p_def)
  obtain tz where tz: "(if os_time st then string_get_tzoffset sp p False else Some None) = Some tz"
    "\<forall>z q. tz = Some (z, q) \<longrightarrow> \<bar>z\<bar> \<le> 1439 \<and> p < q \<and> q < length sp"
    using tzoffset_inside [OF assms(1,2), of False] by (cases "os_time st") (auto simp: p_def)
  obtain r where r: "string_get_digits sp (p + 1) 1 0 = Some r" "\<forall>w q. r = Some (w, q) \<longrightarrow> 0 \<le> w \<and> p + 1 + 1 \<le> q \<and> q < length sp"
    using get_digits_inside [OF assms(1) n] by blast
  show ?thesis
    unfolding other_sign_def Let_def p_def [symmetric] tz(1) Option.bind.simps r(1)
    using tz(2) r(2) n time_fields_update [OF assms(3)] assms(3) by (auto split: option.splits)
qed

lemma other_time_advances:
  assumes "terminated sp" "p < length sp" "time_fields_ok (os_fields st)" "p0 < p" "0 \<le> v"
  shows "advances sp p0 (other_time sp v p st)"
proof -
  obtain r where r: "string_get_digits sp p 1 2 = Some r" "\<forall>w q. r = Some (w, q) \<longrightarrow> 0 \<le> w \<and> p + 1 \<le> q \<and> q < length sp"
    using get_digits_inside [OF assms(1,2)] by blast
  show ?thesis
  proof (cases r)
    case None
    then show ?thesis using r(1) by (simp add: other_time_def)
  next
    case (Some mq)
    then obtain m q where mq: "r = Some (m, q)" "0 \<le> m" "p + 1 \<le> q" "q < length sp" using r(2) by (cases mq) auto
    define f where "f = (os_fields st)[3 := v, 4 := m]"
    have f: "time_fields_ok f" unfolding f_def using assms(3,5) mq(2) by (intro time_fields_update(2)) simp_all
    obtain b q2 where sk: "string_skip_char sp q 58 = Some (b, q2)" "q2 < length sp" "q2 = (if b then q + 1 else q)"
      using skip_char_inside [OF assms(1) mq(4), of 58] by auto
    obtain r2 where r2: "string_get_digits sp q2 1 2 = Some r2" "\<forall>w q. r2 = Some (w, q) \<longrightarrow> 0 \<le> w \<and> q2 + 1 \<le> q \<and> q < length sp"
      using get_digits_inside [OF assms(1) sk(2)] by blast
    show ?thesis
    proof (cases "b \<and> r2 \<noteq> None")
      case True
      then obtain s q3 where sq: "r2 = Some (s, q3)" "0 \<le> s" "q2 + 1 \<le> q3" "q3 < length sp" using r2(2) by (cases r2) auto
      have f6: "0 \<le> f ! 6" "f ! 6 \<le> 999" using f by (simp_all add: time_fields_ok_def)
      obtain ms q4 where ms: "string_get_milliseconds sp q3 (f ! 6) = Some (ms, q4)" "0 \<le> ms" "ms \<le> 999" "q3 \<le> q4" "q4 < length sp"
        using get_ms_inside [OF assms(1) sq(4) f6] by blast
      have "time_fields_ok (f[5 := s, 6 := ms])" using f sq(2) ms(2,3) by (simp add: time_fields_update)
      then show ?thesis using True ms sq mq sk assms(4)
        unfolding other_time_def r(1) mq(1) Option.bind.simps option.case prod.case Let_def f_def [symmetric] sk(1) r2(1) sq(1)
        by (simp split: if_splits)
    next
      case False
      have stop: "rd sp q = Some (sp ! q)" using mq(4) by simp
      have out: "other_time sp v p st = (if b then Some None
          else Some (if sp ! q \<noteq> 0 \<and> sp ! q \<noteq> 32 then None else Some (st\<lparr>os_fields := f, os_time := True, os_pos := q\<rparr>, True)))"
      proof (cases b)
        case True
        then have "r2 = None" using False by (cases r2) auto
        then show ?thesis using True
          unfolding other_time_def r(1) mq(1) Option.bind.simps option.case prod.case Let_def f_def [symmetric] sk(1) r2(1)
          by simp
      next
        case nb: False
        then have "q2 = q" using sk(3) by simp
        then show ?thesis using nb stop
          unfolding other_time_def r(1) mq(1) Option.bind.simps option.case prod.case Let_def f_def [symmetric] sk(1)
          by simp
      qed
      show ?thesis unfolding out using f mq assms(4) by simp
    qed
  qed
qed

lemma other_number_advances:
  assumes "time_fields_ok (os_fields st)" "os_pos st < q" "q < length sp"
  shows "advances sp (os_pos st) (Some (other_number v q st))"
  using assms time_fields_update(1) [OF assms(1)] by (simp add: other_number_def)

lemma other_skip_advances:
  assumes "terminated sp" "os_pos st < length sp" "time_fields_ok (os_fields st)" "sp ! os_pos st = c"
    "c \<noteq> 0" "c \<noteq> 32" "c \<noteq> 45"
  shows "advances sp (os_pos st) (other_skip sp c st)"
proof -
  obtain l q where p: "paren_loop sp 0 (os_pos st) = Some (l, q)" "os_pos st < q" "q < length sp"
    using paren_loop_inside [OF assms(1,2), of 0] assms(4,5) by auto
  obtain d q2 where u: "string_skip_until sp (os_pos st) [32, 45, 47, 40] = Some (d, q2)" "os_pos st \<le> q2" "q2 < length sp"
    "\<not> (c = 0 \<or> c \<in> set [32, 45, 47, 40]) \<longrightarrow> os_pos st < q2"
    using skip_while_inside [OF assms(1,2), of "\<lambda>c. \<not> (c = 0 \<or> c \<in> set [32, 45, 47, 40])"] assms(4)
    unfolding string_skip_until_def by blast
  show ?thesis using p u assms by (auto simp: other_skip_def)
qed

lemma word_match:
  assumes "terminated sp" "p < length sp" "0 \<notin> set w" "w \<noteq> []"
  shows "\<exists>r. (if b then string_match sp p w else Some None) = Some r \<and> (\<forall>q. r = Some q \<longrightarrow> p < q \<and> q < length sp)"
proof -
  obtain r where "string_match sp p w = Some r" "\<forall>q. r = Some q \<longrightarrow> q = p + length w \<and> q < length sp"
    using match_inside [OF assms(1-3)] by blast
  moreover have "p < p + length w" using assms(4) by simp
  ultimately have "string_match sp p w = Some r" "\<forall>q. r = Some q \<longrightarrow> p < q \<and> q < length sp" by metis+
  then show ?thesis by (cases b) (simp_all only: if_True if_False, blast, simp)
qed

lemma other_word_advances:
  assumes "terminated sp" "os_pos st < length sp" "time_fields_ok (os_fields st)" "sp ! os_pos st = c"
    "c \<noteq> 0" "c \<noteq> 32" "c \<noteq> 45"
  shows "advances sp (os_pos st) (other_word sp c st)"
proof -
  define p f where "p = os_pos st" and "f = os_fields st"
  have p: "p < length sp" and f: "time_fields_ok f" using assms by (simp_all add: p_def f_def)
  obtain mo where mo: "string_get_month sp p = Some mo" "\<forall>m q. mo = Some (m, q) \<longrightarrow> p < q \<and> q < length sp"
    using month_inside [OF assms(1) p] by blast
  have "\<exists>r. (if os_time st then string_match sp p [80, 77] else Some None) = Some r \<and> (\<forall>q. r = Some q \<longrightarrow> p < q \<and> q < length sp)"
    by (rule word_match [OF assms(1) p]) simp_all
  then obtain pm where pm: "(if os_time st then string_match sp p [80, 77] else Some None) = Some pm"
    "\<forall>q. pm = Some q \<longrightarrow> p < q \<and> q < length sp" by blast
  have "\<exists>r. (if os_time st then string_match sp p [65, 77] else Some None) = Some r \<and> (\<forall>q. r = Some q \<longrightarrow> p < q \<and> q < length sp)"
    by (rule word_match [OF assms(1) p]) simp_all
  then obtain am where am: "(if os_time st then string_match sp p [65, 77] else Some None) = Some am"
    "\<forall>q. am = Some q \<longrightarrow> p < q \<and> q < length sp" by blast
  obtain tz where tz: "string_get_tzabbr sp p = Some tz" "\<forall>z q. tz = Some (z, q) \<longrightarrow> \<bar>z\<bar> \<le> 1439 \<and> p < q \<and> q < length sp"
    using tzabbr_inside [OF assms(1) p] by blast
  have skip: "advances sp p (other_skip sp c st)" using other_skip_advances [OF assms] by (simp add: p_def)
  show ?thesis
  proof (cases mo)
    case (Some mq)
    then obtain m q where mq: "mo = Some (m, q)" "p < q" "q < length sp" using mo(2) by (cases mq) auto
    obtain d q2 where u: "string_skip_until sp q [48, 49, 50, 51, 52, 53, 54, 55, 56, 57, 32, 45, 47, 40] = Some (d, q2)"
      "q \<le> q2" "q2 < length sp"
      using skip_while_inside [OF assms(1) mq(3), of "\<lambda>c. \<not> (c = 0 \<or> c \<in> set [48, 49, 50, 51, 52, 53, 54, 55, 56, 57, 32, 45, 47, 40])"]
      unfolding string_skip_until_def by blast
    then show ?thesis using mq time_fields_update(1) [OF f, of 1 m]
      unfolding other_word_def Let_def p_def [symmetric] f_def [symmetric] mo(1) Option.bind.simps by simp
  next
    case None
    have g: "0 \<le> f ! 3" using f by (simp add: time_fields_ok_def)
    show ?thesis
      unfolding other_word_def Let_def p_def [symmetric] f_def [symmetric] mo(1) None Option.bind.simps option.case pm(1) am(1) tz(1)
      using pm(2) am(2) tz(2) skip f g time_fields_update [OF f] by (auto split: option.splits)
  qed
qed

lemma other_item_advances:
  assumes "terminated sp" "os_pos st < length sp" "time_fields_ok (os_fields st)" "sp ! os_pos st = c" "c \<noteq> 0" "c \<noteq> 32"
  shows "advances sp (os_pos st) (other_item sp c st)"
proof (cases "c = 43 \<or> c = 45")
  case True
  then show ?thesis using other_sign_advances [OF assms(1-4) True] by (simp add: other_item_def)
next
  case False
  obtain r where r: "string_get_digits sp (os_pos st) 1 0 = Some r"
    "\<forall>w q. r = Some (w, q) \<longrightarrow> 0 \<le> w \<and> os_pos st + 1 \<le> q \<and> q < length sp"
    using get_digits_inside [OF assms(1,2)] by blast
  show ?thesis
  proof (cases r)
    case None
    then show ?thesis using other_word_advances [OF assms] False
      unfolding other_item_def if_not_P [OF False] r(1) Option.bind.simps None option.case by simp
  next
    case (Some vq)
    then obtain v q where vq: "r = Some (v, q)" "0 \<le> v" "os_pos st < q" "q < length sp" using r(2) by (cases vq) auto
    obtain b q2 where sk: "string_skip_char sp q 58 = Some (b, q2)" "q2 < length sp" "q2 = (if b then q + 1 else q)"
      using skip_char_inside [OF assms(1) vq(4), of 58] by auto
    have "advances sp (os_pos st) (other_time sp v q2 st)"
      using other_time_advances [OF assms(1) sk(2) assms(3) _ vq(2)] sk(3) vq(3) by simp
    then show ?thesis using other_number_advances [OF assms(3) vq(3,4)]
      unfolding other_item_def if_not_P [OF False] r(1) Option.bind.simps vq(1) option.case prod.case sk(1) by simp
  qed
qed

lemma other_loop_returns:
  "terminated sp \<Longrightarrow> os_pos st < length sp \<Longrightarrow> time_fields_ok (os_fields st) \<Longrightarrow>
    \<exists>r. other_loop sp st = Some r \<and> (\<forall>st'. r = Some st' \<longrightarrow> time_fields_ok (os_fields st'))"
proof (induction "length sp - os_pos st" arbitrary: st rule: less_induct)
  case less
  obtain c p where sk: "string_skip_spaces sp (os_pos st) = Some (c, p)" "os_pos st \<le> p" "p < length sp" "c = sp ! p" "c \<noteq> 32"
    using skip_while_inside [OF less(2,3), of "\<lambda>c. c = 32"] unfolding string_skip_spaces_def by auto
  show ?case
  proof (cases "c = 0")
    case True
    then show ?thesis using less(4) by (subst other_loop.simps) (simp add: sk(1))
  next
    case False
    define st1 where "st1 = st\<lparr>os_pos := p\<rparr>"
    have "advances sp p (other_item sp c st1)"
      using other_item_advances [OF less(2), of st1 c] sk less(4) False by (simp add: st1_def)
    then obtain x where x: "other_item sp c st1 = Some x" "advances sp p (Some x)" by (auto simp: advances_def)
    show ?thesis
    proof (cases x)
      case None
      then show ?thesis using False x(1) by (subst other_loop.simps) (simp add: sk(1) st1_def)
    next
      case (Some stb)
      obtain st2 b where st2: "x = Some (st2, b)" using Some by (cases stb) simp
      then have inv: "time_fields_ok (os_fields st2)" "os_pos st2 < length sp"
        "p < os_pos st2 \<or> p = os_pos st2 \<and> b \<and> sp ! p = 47" using x(2) by simp_all
      obtain d q where se: "string_skip_separators sp (os_pos st2) = Some (d, q)" "os_pos st2 \<le> q" "q < length sp"
        "sp ! os_pos st2 = 47 \<longrightarrow> os_pos st2 < q"
        using skip_while_inside [OF less(2) inv(2), of "\<lambda>c. c = 45 \<or> c = 47 \<or> c = 46 \<or> c = 44"]
        unfolding string_skip_separators_def by auto
      define st3 where "st3 = (if b then st2\<lparr>os_pos := q\<rparr> else st2)"
      have "os_pos st < os_pos st3" "os_pos st3 < length sp" "time_fields_ok (os_fields st3)"
        using inv se sk(2) by (auto simp: st3_def)
      then have "\<exists>r. other_loop sp st3 = Some r \<and> (\<forall>st'. r = Some st' \<longrightarrow> time_fields_ok (os_fields st'))"
        using less(1) [of st3] less(2) by simp
      moreover have "other_loop sp st = other_loop sp st3"
        using False se(1) by (subst other_loop.simps) (simp add: sk(1) x(1) [unfolded st1_def] st2 st3_def)
      ultimately show ?thesis by simp
    qed
  qed
qed

section \<open>The fields that are accepted\<close>

definition date_fields_ok :: "int list \<Rightarrow> bool" where
  "date_fields_ok f \<longleftrightarrow> time_fields_ok f \<and> 0 \<le> f ! 1 \<and> 1 \<le> f ! 2"

lemma date_fields_update:
  assumes "date_fields_ok f"
  shows "date_fields_ok (f[0 := v])" "0 \<le> v \<Longrightarrow> date_fields_ok (f[1 := v])" "1 \<le> v \<Longrightarrow> date_fields_ok (f[2 := v])"
    "3 \<le> i \<Longrightarrow> i \<le> 5 \<Longrightarrow> 0 \<le> v \<Longrightarrow> date_fields_ok (f[i := v])"
    "0 \<le> v \<Longrightarrow> v \<le> 999 \<Longrightarrow> date_fields_ok (f[6 := v])" "\<bar>v\<bar> \<le> 1439 \<Longrightarrow> date_fields_ok (f[8 := v])"
  using assms by (auto simp: date_fields_ok_def time_fields_ok_def nth_list_update)

lemma iso_year_inside:
  assumes "terminated sp" "date_fields_ok f"
  shows "\<exists>r. iso_year sp f = Some r \<and> (\<forall>g p. r = Some (g, p) \<longrightarrow> date_fields_ok g \<and> p < length sp)"
proof -
  have 0: "0 < length sp" using assms(1) by (simp add: terminated_def)
  show ?thesis
  proof (cases "sp ! 0 = 45 \<or> sp ! 0 = 43")
    case True
    then have n: "1 < length sp" using terminated_next [OF assms(1) 0] by auto
    obtain r where "string_get_digits sp 1 6 6 = Some r" "\<forall>w q. r = Some (w, q) \<longrightarrow> 0 \<le> w \<and> 1 + 6 \<le> q \<and> q < length sp"
      using get_digits_inside [OF assms(1) n] by blast
    then show ?thesis using True 0 date_fields_update(1) [OF assms(2)] by (auto simp: iso_year_def split: option.splits)
  next
    case False
    obtain r where "string_get_digits sp 0 4 4 = Some r" "\<forall>w q. r = Some (w, q) \<longrightarrow> 0 \<le> w \<and> 0 + 4 \<le> q \<and> q < length sp"
      using get_digits_inside [OF assms(1) 0] by blast
    then show ?thesis using False 0 date_fields_update(1) [OF assms(2)] by (auto simp: iso_year_def split: option.splits)
  qed
qed

lemma iso_month_day_inside:
  assumes "terminated sp" "p < length sp" "date_fields_ok f"
  shows "\<exists>r. iso_month_day sp f p = Some r \<and> (\<forall>g q. r = Some (g, q) \<longrightarrow> date_fields_ok g \<and> q < length sp)"
proof -
  obtain b p1 where s1: "string_skip_char sp p 45 = Some (b, p1)" "p1 < length sp"
    using skip_char_inside [OF assms(1,2), of 45] by auto
  obtain r1 where d1: "string_get_digits sp p1 2 2 = Some r1" "\<forall>w q. r1 = Some (w, q) \<longrightarrow> 0 \<le> w \<and> p1 + 2 \<le> q \<and> q < length sp"
    using get_digits_inside [OF assms(1) s1(2)] by blast
  consider "\<not> b" | "b" "r1 = None" | mon p2 where "b" "r1 = Some (mon, p2)" "mon < 1"
    | mon p2 where "b" "r1 = Some (mon, p2)" "1 \<le> mon" "p2 < length sp" using d1(2) by (cases r1) force+
  then show ?thesis
  proof cases
    case (4 mon p2)
    note r1 = 4
    obtain b2 p3 where s2: "string_skip_char sp p2 45 = Some (b2, p3)" "p3 < length sp"
      using skip_char_inside [OF assms(1) r1(4), of 45] by auto
    obtain r2 where d2: "string_get_digits sp p3 2 2 = Some r2" "\<forall>w q. r2 = Some (w, q) \<longrightarrow> 0 \<le> w \<and> p3 + 2 \<le> q \<and> q < length sp"
      using get_digits_inside [OF assms(1) s2(2)] by blast
    have g: "date_fields_ok (f[1 := mon - 1])" using date_fields_update(2) [OF assms(3)] r1(3) by simp
    show ?thesis using r1 s1 d1(1) s2 d2 g date_fields_update(3) [OF g]
      by (auto simp: iso_month_day_def Let_def split: option.splits)
  qed (use s1 d1(1) assms(3) in \<open>simp_all add: iso_month_day_def\<close>)
qed

text \<open>The hour 100 stands for a time that is cut short.\<close>

lemma iso_time_inside:
  assumes "terminated sp" "p < length sp" "date_fields_ok f"
  shows "\<exists>r. iso_time sp f p = Some r \<and> (\<forall>g l q. r = Some (g, l, q) \<longrightarrow> date_fields_ok g \<and> (\<forall>x. q = Some x \<longrightarrow> x < length sp))"
proof -
  have late: "date_fields_ok (f[3 := 100])" using date_fields_update(4) [OF assms(3), of 3 100] by simp
  obtain b p1 where s1: "string_skip_char sp p 84 = Some (b, p1)" "p1 < length sp"
    using skip_char_inside [OF assms(1,2), of 84] by auto
  obtain r1 where d1: "string_get_digits sp p1 2 2 = Some r1" "\<forall>w q. r1 = Some (w, q) \<longrightarrow> 0 \<le> w \<and> p1 + 2 \<le> q \<and> q < length sp"
    using get_digits_inside [OF assms(1) s1(2)] by blast
  show ?thesis
  proof (cases "b \<and> r1 \<noteq> None")
    case False
    then show ?thesis using s1 d1(1) assms(3) late by (cases r1) (auto simp: iso_time_def)
  next
    case True
    then obtain h p2 where r1: "r1 = Some (h, p2)" "0 \<le> h" "p2 < length sp" using d1(2) by (cases r1) auto
    obtain c p3 where s2: "string_skip_char sp p2 58 = Some (c, p3)" "p3 < length sp"
      using skip_char_inside [OF assms(1) r1(3), of 58] by auto
    obtain r2 where d2: "string_get_digits sp p3 2 2 = Some r2" "\<forall>w q. r2 = Some (w, q) \<longrightarrow> 0 \<le> w \<and> p3 + 2 \<le> q \<and> q < length sp"
      using get_digits_inside [OF assms(1) s2(2)] by blast
    show ?thesis
    proof (cases "c \<and> r2 \<noteq> None")
      case False
      then show ?thesis using True s1 d1(1) r1 s2 d2(1) late by (cases r2) (auto simp: iso_time_def)
    next
      case c: True
      then obtain m p4 where r2: "r2 = Some (m, p4)" "0 \<le> m" "p4 < length sp" using d2(2) by (cases r2) auto
      define g where "g = f[3 := h, 4 := m]"
      have g: "date_fields_ok g" unfolding g_def using assms(3) r1(2) r2(2) by (intro date_fields_update(4)) simp_all
      obtain e p5 where s3: "string_skip_char sp p4 58 = Some (e, p5)" "p5 < length sp"
        using skip_char_inside [OF assms(1) r2(3), of 58] by auto
      obtain r3 where d3: "string_get_digits sp p5 2 2 = Some r3" "\<forall>w q. r3 = Some (w, q) \<longrightarrow> 0 \<le> w \<and> p5 + 2 \<le> q \<and> q < length sp"
        using get_digits_inside [OF assms(1) s3(2)] by blast
      have e: "iso_time sp f p = (if \<not> e then Some (Some (g, True, Some p5)) else
          case r3 of None \<Rightarrow> Some None
          | Some (s, p) \<Rightarrow> do { (ms, p) \<leftarrow> string_get_milliseconds sp p (g ! 6); Some (Some (g[5 := s, 6 := ms], True, Some p)) })"
        unfolding iso_time_def using True c s1 d1(1) r1 s2 d2(1) r2 s3(1) d3(1) by (simp add: g_def Let_def split: option.split)
      show ?thesis
      proof (cases "e \<and> r3 \<noteq> None")
        case False
        then show ?thesis unfolding e using g s3(2) by (cases r3) auto
      next
        case t: True
        then obtain s p6 where r3: "r3 = Some (s, p6)" "0 \<le> s" "p6 < length sp" using d3(2) by (cases r3) auto
        have "0 \<le> g ! 6" "g ! 6 \<le> 999" using g by (simp_all add: date_fields_ok_def time_fields_ok_def)
        from get_ms_inside [OF assms(1) r3(3) this] obtain ms p7 where
          ms: "string_get_milliseconds sp p6 (g ! 6) = Some (ms, p7)" "0 \<le> ms" "ms \<le> 999" "p7 < length sp" by blast
        have "date_fields_ok (g[5 := s, 6 := ms])"
          using ms(2,3) by (intro date_fields_update(5) date_fields_update(4) [OF g]) (simp_all add: r3(2))
        then show ?thesis unfolding e using t r3(1) ms by simp
      qed
    qed
  qed
qed

lemma iso_zone_inside:
  assumes "terminated sp" "p < length sp" "date_fields_ok f"
  shows "\<exists>r. iso_zone sp f l p = Some r \<and> (\<forall>g l'. r = Some (g, l') \<longrightarrow> date_fields_ok g)"
proof -
  obtain r where r: "string_get_tzoffset sp p True = Some r" "\<forall>tz q. r = Some (tz, q) \<longrightarrow> \<bar>tz\<bar> \<le> 1439 \<and> p < q \<and> q < length sp"
    using tzoffset_inside [OF assms(1,2)] by blast
  show ?thesis using assms(2,3) r date_fields_update(6) [OF assms(3)] by (auto simp: iso_zone_def split: option.splits)
qed

lemma isostring_returns:
  assumes "terminated sp"
  shows "\<exists>r. js_date_parse_isostring sp = Some r \<and> (\<forall>f l. r = Some (f, l) \<longrightarrow> date_fields_ok f)"
proof -
  have "date_fields_ok [0, 0, 1, 0, 0, 0, 0, 0, 0]" by (simp add: date_fields_ok_def time_fields_ok_def)
  from iso_year_inside [OF assms this] obtain r1 where
    r1: "iso_year sp [0, 0, 1, 0, 0, 0, 0, 0, 0] = Some r1" "\<forall>g p. r1 = Some (g, p) \<longrightarrow> date_fields_ok g \<and> p < length sp" by blast
  show ?thesis
  proof (cases r1)
    case None
    then show ?thesis using r1(1) by (simp add: js_date_parse_isostring_def)
  next
    case (Some gp)
    then obtain g1 p1 where g1: "r1 = Some (g1, p1)" "date_fields_ok g1" "p1 < length sp" using r1(2) by (cases gp) auto
    obtain r2 where r2: "iso_month_day sp g1 p1 = Some r2" "\<forall>g p. r2 = Some (g, p) \<longrightarrow> date_fields_ok g \<and> p < length sp"
      using iso_month_day_inside [OF assms g1(3,2)] by blast
    show ?thesis
    proof (cases r2)
      case None
      then show ?thesis using r1(1) g1(1) r2(1) by (simp add: js_date_parse_isostring_def)
    next
      case (Some gp)
      then obtain g2 p2 where g2: "r2 = Some (g2, p2)" "date_fields_ok g2" "p2 < length sp" using r2(2) by (cases gp) auto
      obtain r3 where r3: "iso_time sp g2 p2 = Some r3"
        "\<forall>g l q. r3 = Some (g, l, q) \<longrightarrow> date_fields_ok g \<and> (\<forall>x. q = Some x \<longrightarrow> x < length sp)"
        using iso_time_inside [OF assms g2(3,2)] by blast
      have e: "js_date_parse_isostring sp = (case r3 of None \<Rightarrow> Some None
          | Some (f, is_local, None) \<Rightarrow> Some (Some (f, is_local))
          | Some (f, is_local, Some p) \<Rightarrow> iso_zone sp f is_local p)"
        using r1(1) g1(1) r2(1) g2(1) r3(1) by (simp add: js_date_parse_isostring_def)
      show ?thesis unfolding e using r3(2) iso_zone_inside [OF assms] by (auto split: option.split)
    qed
  qed
qed

lemma other_finish_ok:
  assumes "other_finish st = Some (f, l)" "time_fields_ok (os_fields st)"
  shows "date_fields_ok f"
proof -
  define h where "h = os_fields st"
  define G where "G = (case os_num st of
            [] \<Rightarrow> if \<not> os_year st then None else Some h
          | [a] \<Rightarrow> Some (if os_mon st then h[2 := a] else h[1 := a])
          | [a, b] \<Rightarrow> Some (if os_year st then h[1 := a, 2 := b]
              else if os_mon st then h[0 := expand_year b, 2 := a]
              else h[1 := a, 2 := b])
          | [a, b, c] \<Rightarrow> Some (h[0 := expand_year c, 1 := a, 2 := b])
          | _ \<Rightarrow> None)"
  have "other_finish st = (if length (os_num st) + of_bool (os_year st) + of_bool (os_mon st) > 3 then None
      else case G of None \<Rightarrow> None
         | Some f \<Rightarrow> if f ! 1 < 1 \<or> f ! 2 < 1 then None else Some (f[1 := f ! 1 - 1], os_local st))"
    unfolding other_finish_def Let_def G_def h_def ..
  then obtain g where g: "G = Some g" "1 \<le> g ! 1" "1 \<le> g ! 2" "f = g[1 := g ! 1 - 1]"
    using assms(1) by (cases G) (simp_all split: if_splits)
  have h: "time_fields_ok h" using assms(2) by (simp add: h_def)
  have up: "time_fields_ok (x[i := v])" if "time_fields_ok x" "i \<le> 2" for x i v using time_fields_update(1) [OF that] .
  have "time_fields_ok g" using g(1) h unfolding G_def by (auto simp: up split: list.splits if_splits)
  then show ?thesis using g(2-4) by (auto simp: date_fields_ok_def time_fields_ok_def)
qed

lemma otherstring_returns:
  assumes "terminated sp"
  shows "\<exists>r. js_date_parse_otherstring sp = Some r \<and> (\<forall>f l. r = Some (f, l) \<longrightarrow> date_fields_ok f)"
proof -
  define st0 where "st0 = \<lparr>os_fields = [2001, 1, 1, 0, 0, 0, 0, 0, 0], os_local = True,
            os_year = False, os_mon = False, os_time = False, os_num = [], os_pos = 0\<rparr>"
  have "os_pos st0 < length sp" "time_fields_ok (os_fields st0)"
    using assms by (simp_all add: st0_def terminated_def time_fields_ok_def)
  from other_loop_returns [OF assms this] obtain r where
    r: "other_loop sp st0 = Some r" "\<forall>st. r = Some st \<longrightarrow> time_fields_ok (os_fields st)" by blast
  show ?thesis using r other_finish_ok by (cases r) (auto simp: js_date_parse_otherstring_def st0_def [symmetric])
qed

section \<open>Every text\<close>

lemma accepted_fields_small:
  assumes "date_fields_ok f" "fields_valid f"
  shows "fields_small f"
  using assms by (auto simp: date_fields_ok_def time_fields_ok_def fields_valid_def field_max_def fields_small_def eval_nat_numeral)

lemma time_clip_bound: "time_clip t = Time d \<Longrightarrow> \<bar>d\<bar> \<le> 8640000000000000"
  by (auto simp: time_clip_def split: if_splits)

text \<open>Property C9 (termination):
  \<open>Date.parse\<close> returns on every text: the parsers never read past the NUL that ends the buffer, the loop
  over the items of the other formats ends, and with a time zone of less than a million minutes the
  arithmetic is exact. The answer is not a number, or a time that passes the limit of 100 million
  days by no more than the largest offset, 23:59.\<close>

theorem js_Date_parse_returns:
  assumes "\<forall>u. \<bar>tzo u\<bar> \<le> 1000000"
  shows "\<exists>r. js_Date_parse tzo s = Some r
    \<and> (r = Not_a_number \<or> (\<exists>d. r = Time d \<and> \<bar>d\<bar> \<le> 8640000000000000 + 1439 * 60000))"
proof -
  define buf where "buf = map date_byte (take 127 s) @ [0]"
  have t: "terminated buf" by (simp add: buf_def terminated_def)
  obtain r1 where r1: "js_date_parse_isostring buf = Some r1" "\<forall>f l. r1 = Some (f, l) \<longrightarrow> date_fields_ok f"
    using isostring_returns [OF t] by blast
  obtain r2 where r2: "js_date_parse_otherstring buf = Some r2" "\<forall>f l. r2 = Some (f, l) \<longrightarrow> date_fields_ok f"
    using otherstring_returns [OF t] by blast
  define r where "r = (case r1 of Some r \<Rightarrow> Some r | None \<Rightarrow> r2)"
  have e: "js_Date_parse tzo s = (case r of
       None \<Rightarrow> Some Not_a_number
     | Some (f, is_local) \<Rightarrow>
         if fields_valid f then do {
           d \<leftarrow> set_date_fields tzo f is_local;
           Some (case d of Not_a_number \<Rightarrow> Not_a_number | Time d \<Rightarrow> Time (d - f ! 8 * 60000)) }
         else Some Not_a_number)"
    unfolding js_Date_parse_def Let_def buf_def [symmetric] r1(1) r2(1) r_def by (cases r1) simp_all
  show ?thesis
  proof (cases r)
    case None
    then show ?thesis unfolding e by simp
  next
    case (Some fl)
    then obtain f l where fl: "r = Some (f, l)" by (cases fl) simp
    then have ok: "date_fields_ok f" using r1(2) r2(2) by (cases r1) (simp_all add: r_def)
    show ?thesis
    proof (cases "fields_valid f")
      case True
      obtain d where d: "set_date_fields tzo f l = Some d" "\<forall>x. d = Time x \<longrightarrow> \<bar>x\<bar> \<le> 8640000000000000"
        using set_date_fields_value [OF accepted_fields_small [OF ok True], of tzo l] assms time_clip_bound by auto
      moreover have "\<bar>f ! 8 * 60000\<bar> \<le> 1439 * 60000" using ok by (simp add: date_fields_ok_def time_fields_ok_def abs_mult)
      ultimately show ?thesis unfolding e fl option.case prod.case if_P [OF True] by (cases d) auto
    next
      case False
      then show ?thesis unfolding e fl by simp
    qed
  qed
qed

lemma js_Date_parse_returns_witness:
  "\<exists>r. js_Date_parse (\<lambda>_. 120) [84, 104, 117, 32, 40, 74, 97, 110] = Some r
    \<and> (r = Not_a_number \<or> (\<exists>d. r = Time d \<and> \<bar>d\<bar> \<le> 8640000000000000 + 1439 * 60000))"
  by (rule js_Date_parse_returns) simp

section \<open>Times with an offset\<close>

lemma digits_until:
  assumes "at_pos sp p (pad 10 2 n @ [58])" "n < 100"
  shows "string_get_digits sp p 1 0 = Some (Some (int n, p + 2))"
proof -
  define a b where "a = n div 10" and "b = n mod 10"
  have d: "a < 10" "b < 10" using assms(2) by (simp_all add: a_def b_def less_mult_imp_div_less)
  have n: "int n = int a * 10 + int b"
  proof -
    have "n = 10 * a + b" by (simp add: a_def b_def)
    then show ?thesis by simp
  qed
  have "pad 10 2 n = [digit_char a, digit_char b]" using d(1) by (simp add: numeral_2_eq_2 a_def b_def)
  then have "at_pos sp p [digit_char a, digit_char b, 58]" using assms(1) by (simp only: append.simps)
  then have at: "p + 2 < length sp" "sp ! p = digit_char a" "sp ! (p + 1) = digit_char b" "sp ! (p + 2) = 58" by simp_all
  have s1: "digits_loop sp p 0 0 p = digits_loop sp p 0 (int a) (p + 1)"
    using at digit_byte [OF d(1)] by (subst digits_loop.simps) (simp add: Let_def)
  have s2: "digits_loop sp p 0 (int a) (p + 1) = digits_loop sp p 0 (int n) (p + 2)"
    using at digit_byte [OF d(2)] d(1) by (subst digits_loop.simps) (simp add: Let_def n)
  have s3: "digits_loop sp p 0 (int n) (p + 2) = Some (Some (int n, p + 2))"
    using at by (subst digits_loop.simps) (simp add: Let_def)
  show ?thesis unfolding string_get_digits_def s1 s2 s3 by simp
qed

definition zone_text :: "bool \<Rightarrow> nat \<Rightarrow> nat \<Rightarrow> u8 list" where
  "zone_text neg hh mm = [if neg then 45 else 43] @ pad 10 2 hh @ [58] @ pad 10 2 mm"

definition zone_offset :: "bool \<Rightarrow> nat \<Rightarrow> nat \<Rightarrow> int" where
  "zone_offset neg hh mm = (if neg then - (int hh * 60 + int mm) else int hh * 60 + int mm)"

lemma iso_zone_offset:
  assumes "at_pos sp p (zone_text neg hh mm @ [0])" "hh < 24" "mm < 60"
  shows "iso_zone sp f l p = Some (Some (f[8 := zone_offset neg hh mm], False))"
proof -
  have at: "p < length sp" "sp ! p = (if neg then 45 else 43)" "at_pos sp (p + 1) (pad 10 2 hh @ [58])" "p + 3 < length sp" "sp ! (p + 3) = 58"
    "at_pos sp (p + 4) (pad 10 2 mm)" "p + 6 < length sp" "sp ! (p + 6) = 0"
    using assms(1) unfolding zone_text_def by (auto simp: at_pos_app eval_nat_numeral simp del: pad.simps)
  have h: "string_get_digits sp (p + 1) 1 0 = Some (Some (int hh, p + 3))" using digits_until [OF at(3)] assms(2) by simp
  have m: "string_get_digits sp (p + 4) 2 2 = Some (Some (int mm, p + 6))" using get_digits_pad [OF at(6)] assms(3) by simp
  have c: "string_skip_char sp (p + 3) 58 = Some (True, p + 4)" using skip_char_here [OF at(4,5)] by simp
  have fd: "first_digits 2 x = (2, x)" for x by (subst first_digits.simps) simp
  have "string_get_tzoffset sp p True = Some (Some (zone_offset neg hh mm, p + 6))"
    unfolding string_get_tzoffset_def using at(1,2) assms(2,3) h m c
    by (simp add: zone_offset_def fd)
  then show ?thesis using at by (simp add: iso_zone_def)
qed

text \<open>Property C11 (functional):
  a time with an offset. On the ISO text of any valid fields whose year is in the range of the type,
  followed by an offset, \<open>Date.parse\<close> is the time of the fields less the offset, in every time zone of
  the host, and not a number if the fields alone denote a time beyond 100 million days. The code
  clips before it subtracts the offset: a text may give a time out of range, and the text of a time
  in range may be refused.\<close>

theorem iso_offset_value:
  assumes "fields_ok f" "- 271821 \<le> f ! 0" "f ! 0 \<le> 275760" "hh < 24" "mm < 60"
  shows "js_Date_parse tzo (map ucast (butlast (date_part 2 3 f @ time_part 2 f) @ zone_text neg hh mm)) =
    Some (case time_clip (time_of f) of Not_a_number \<Rightarrow> Not_a_number
      | Time t \<Rightarrow> Time (t - zone_offset neg hh mm * 60000))"
proof -
  define s where "s = butlast (date_part 2 3 f @ time_part 2 f) @ zone_text neg hh mm"
  define z where "z = zone_text neg hh mm @ [0]"
  have b: "0 \<le> f ! 1" "f ! 1 < 12" "1 \<le> f ! 2" "f ! 2 \<le> 31" "0 \<le> f ! 3" "f ! 3 < 24" "0 \<le> f ! 4" "f ! 4 < 60"
    "0 \<le> f ! 5" "f ! 5 < 60" "0 \<le> f ! 6" "f ! 6 < 1000" "length f = 9"
    using assms(1) days_in_month_pos [of "nat (f ! 1)" "f ! 0"] by (auto simp: fields_ok_def nat_less_iff)
  have y6: "\<bar>f ! 0\<bar> \<le> 999999" using assms(2,3) by linarith
  have len: "length s \<le> 32" using iso_text(2) [OF assms(1) y6]
    unfolding s_def iso_text(1) [OF assms(1) y6] zone_text_def by (simp del: pad.simps)
  from len have buf: "map date_byte (take 127 (map ucast s)) @ [0] = s @ [0]" by (simp add: comp_def date_byte_ucast)
  define g where "g = take 7 f @ [0, zone_offset neg hh mm]"
  have gn: "g ! 0 = f ! 0" "g ! 1 = f ! 1" "g ! 2 = f ! 2" "g ! 3 = f ! 3" "g ! 4 = f ! 4" "g ! 5 = f ! 5" "g ! 6 = f ! 6"
    and g8: "g ! 8 = zone_offset neg hh mm"
    using b(13) by (simp_all add: g_def nth_append)
  have "js_date_parse_isostring (s @ [0]) = Some (Some (g, False))" unfolding g_def
  proof (rule iso_parses_zone [OF assms(1) y6, of _ z _ "if neg then 45 else 43"])
    show "s @ [0] = butlast (date_part 2 3 f @ time_part 2 f) @ z" by (simp add: s_def z_def)
    show "iso_zone sp h True q = Some (Some (h[8 := zone_offset neg hh mm], False))" if "at_pos sp q z" for sp h q
      using iso_zone_offset that assms(4,5) by (simp add: z_def)
    show "z = (if neg then 45 else 43) # pad 10 2 hh @ [58] @ pad 10 2 mm @ [0]" by (simp add: z_def zone_text_def)
  qed simp
  moreover have "fields_valid g" using b by (simp add: fields_valid_def field_max_def gn [unfolded One_nat_def])
  moreover have "set_date_fields tzo g False = set_date_fields (\<lambda>_. 0) f False"
    unfolding set_date_fields_def Let_def by (simp only: gn if_False)
  moreover have "set_date_fields (\<lambda>_. 0) f False = Some (time_clip (time_of f))"
    using set_date_fields_value [OF fields_ok_small [OF assms(1)], of "\<lambda>_. 0" False] assms(2,3) by auto
  ultimately have "js_Date_parse tzo (map ucast s) = Some (case time_clip (time_of f) of Not_a_number \<Rightarrow> Not_a_number
      | Time t \<Rightarrow> Time (t - zone_offset neg hh mm * 60000))"
    unfolding js_Date_parse_def Let_def buf by (simp add: g8 split: time_value.split)
  then show ?thesis unfolding s_def .
qed

lemma iso_offset_value_witness:
  "js_Date_parse (\<lambda>_. 60) (map ucast (butlast (date_part 2 3 [275760, 8, 13, 0, 0, 0, 0, 6, 0] @ time_part 2 [275760, 8, 13, 0, 0, 0, 0, 6, 0])
      @ zone_text True 1 0)) = Some (Time 8640000003600000)"
proof -
  have "fields_ok [275760, 8, 13, 0, 0, 0, 0, 6, 0]" "time_clip (time_of [275760, 8, 13, 0, 0, 0, 0, 6, 0]) = Time 8640000000000000"
    "zone_offset True 1 0 = - 60"
    by code_simp+
  then show ?thesis using iso_offset_value [of "[275760, 8, 13, 0, 0, 0, 0, 6, 0]" 1 0 "\<lambda>_. 60" True] by simp
qed

text \<open>
  A text of a time that is one hour beyond the last one, and a text of the last time itself:
  \<^verbatim>\<open>+275760-09-13T00:00:00.000-01:00\<close> and \<^verbatim>\<open>+275760-09-13T01:00:00.000+01:00\<close>.
\<close>

lemma offset_after_clip:
  "js_Date_parse tzo [43,50,55,53,55,54,48,45,48,57,45,49,51,84,48,48,58,48,48,58,48,48,46,48,48,48,45,48,49,58,48,48] = Some (Time 8640000003600000)"
  "js_Date_parse tzo [43,50,55,53,55,54,48,45,48,57,45,49,51,84,48,49,58,48,48,58,48,48,46,48,48,48,43,48,49,58,48,48] = Some Not_a_number"
  by code_simp+

text \<open>Other formats, with a named month, a time after noon and a named zone.\<close>

lemma other_format_examples:
  "js_Date_parse tzo (map of_nat [77,97,114,32,49,44,32,50,48,50,52,32,49,58,48,48,32,112,109,32,69,83,84]) = Some (Time 1709316000000)"
  "js_Date_parse tzo (map of_nat [49,51,47,49,47,50,48,50,52]) = Some Not_a_number"
  by code_simp+

end
