(* ===== verification/Spec2Isabelle.thy ===== *)
theory Spec2Isabelle
  imports Prelude Utf8 Utf8_Buffers CharRange CBits Limbs Mpb Itoa Dtoa UniIndex UniTables UniClass DynBuf CString CircList Exchange Rqsort CaseConv CaseRuns CaseFold ReInstr ReExec ReRefine ReSafe ReError ReLive Gc GcLive BigLimbs BigInt BigIntOps BigFloat BigFloatCmp BigStr DateCalc DateText DateParse
begin

text \<open>
  A model of the C libraries that the indexer \<^verbatim>\<open>zponder\<close> embeds with the JavaScript engine
  QuickJS-ng, under \<^verbatim>\<open>src/src/quickjs\<close>: text encodings and buffers (\<^verbatim>\<open>cutils.h\<close>), circular lists
  (\<^verbatim>\<open>list.h\<close>), Unicode data (\<^verbatim>\<open>libunicode.c\<close>), printing of numbers (\<^verbatim>\<open>dtoa.c\<close>), the regular
  expression matcher (\<^verbatim>\<open>libregexp.c\<close>), and of the engine itself (\<^verbatim>\<open>quickjs.c\<close>) the search for
  unreachable cycles, the big integers, the calendar and the text of dates. The matcher calls the character classes and the case
  folding of the Unicode library and the loads and the surrogate tests of \<^verbatim>\<open>cutils.h\<close>; the float
  printer works on the limbs and the digit writers; the Unicode library sorts with \<^verbatim>\<open>rqsort\<close>.

  Conventions. C integers are words of their width and wrap; \<open>size_t\<close> counters of elements of an
  existing array are natural numbers. An array is a list and a pointer into it an index. An access
  outside an array is \<open>None\<close> (or an \<open>Undefined\<close> outcome of the matcher), never a default value, so
  that a theorem with a result \<open>Some\<close> also says that the code stays inside its arrays. A loop is a
  recursive function over what the C loop keeps in variables. A callback is a function argument.

  Theories.

  \<^item> \<open>Prelude\<close>: types, checked access, shifts and masks as arithmetic.

  \<^item> \<open>Utf8\<close>, \<open>Utf8_Buffers\<close>: \<^verbatim>\<open>utf8_encode\<close>, \<^verbatim>\<open>utf8_decode\<close>, \<^verbatim>\<open>utf8_scan\<close> and the buffer
  conversions. Decoding accepts exactly the well-formed sequences; scanning predicts decoding;
  encoding fits its buffer; UTF-16 text survives the way through UTF-8.

  \<^item> \<open>CBits\<close>: minima, hashes, zero counts, loads, stores and byte swaps on a little-endian
  64-bit host.

  \<^item> \<open>DynBuf\<close>: the growable buffer. Its allocator is the locale \<open>dbuf_allocator\<close>, interpreted on
  \<^verbatim>\<open>dbuf_default_realloc\<close>; the buffer refines a list with appends, for every pattern of refused
  requests, as long as \<^verbatim>\<open>vsnprintf\<close> does not fail (where it does, \<^verbatim>\<open>dbuf_printf\<close> is undefined).
  \<open>CString\<close>: bounded string copies and tests.

  \<^item> \<open>CircList\<close>: the rings of \<^verbatim>\<open>list.h\<close> on a heap of nodes, refining lists of addresses, and the
  loop macros.

  \<^item> \<open>Exchange\<close>, \<open>Rqsort\<close>: \<^verbatim>\<open>rqsort\<close> returns a sorted permutation for every total preorder and
  does not overflow its stack of 50 segments; its exchange functions exchange elements.

  \<^item> \<open>CharRange\<close>: \<^verbatim>\<open>CharRange\<close> and its set operations as sets of code points, with refused
  allocations.

  \<^item> \<open>UniIndex\<close>, \<open>UniTables\<close>, \<open>UniClass\<close>: the compressed property tables. The indexed look-up is
  the scan of the whole table, and the several implementations of a class agree.

  \<^item> \<open>CaseConv\<close>, \<open>CaseRuns\<close>, \<open>CaseFold\<close>: case conversion and case folding with their tables;
  \<^verbatim>\<open>lre_canonicalize\<close> is a projection, results are code points.

  \<^item> \<open>Limbs\<close>, \<open>Mpb\<close>, \<open>Itoa\<close>, \<open>Dtoa\<close>: \<^verbatim>\<open>dtoa.c\<close> from limb arithmetic to the digits of integers and
  of multi-precision numbers, with the exact error of each rounding.

  \<^item> \<open>ReInstr\<close>, \<open>ReExec\<close>: \<^verbatim>\<open>lre_exec_backtrack\<close> and \<^verbatim>\<open>lre_exec\<close>. The value of an instruction is the
  sequence of its operations on the matcher (\<open>effects\<close>); \<open>perform\<close> carries them out on the stack of
  saved states, with its undo log, its reallocation and the counter of the interrupt poll.
  \<open>exec_loop\<close> is a \<open>partial_function\<close>: a run that does not end is \<open>None\<close>.
  \<open>ReRefine\<close>: the matcher refines a machine that copies all captures into each saved state.
  Byte code can make the matcher do what C does not define; the run then ends with the cause
  (\<open>undefined_cause\<close>), and nothing is claimed about what C does afterwards.
  \<open>ReSafe\<close>: its reads up to there stay inside the subject, its captures point into it.
  \<open>ReError\<close>: each return code has its cause. \<open>ReLive\<close>: it returns or comes to an undefined step, if
  the host does not answer for ever that it may go on.

  \<^item> \<open>Gc\<close>, \<open>GcLive\<close>: the children of a block (\<^verbatim>\<open>mark_children\<close>) and the passes \<^verbatim>\<open>gc_decref\<close> and
  \<^verbatim>\<open>gc_scan\<close> over the lists of live and of suspected blocks. When they end, the suspected blocks are
  exactly those that no live reference reaches, and the counts of the others are restored.

  \<^item> \<open>BigLimbs\<close>: the limb arithmetic of \<^verbatim>\<open>js_mp_add\<close> to \<^verbatim>\<open>js_mp_shr\<close>, with Knuth's division and its
  correction of the estimated digit. \<open>BigInt\<close>: big integers in two's complement with the fewest
  limbs, their operations, and the value \<open>bval\<close> of a list of limbs. An allocation may be refused
  (\<open>mok\<close>, asked with the number of limbs, with one answer for each number during an operation) and a
  request may be too large, though the result would not be. \<open>BigIntOps\<close>: the operations
  refine the integers (\<open>bigint_outcome\<close>); what sum, difference, product and the bitwise operators
  have in common is the locale \<open>bigint_operation\<close>.

  \<^item> \<open>BigFloat\<close>, \<open>BigFloatCmp\<close>: doubles as bit patterns and, scaled by \<open>f64_one\<close>, as integers.
  \<^verbatim>\<open>js_bigint_to_float64\<close> returns the nearest double, ties to even; \<^verbatim>\<open>js_bigint_from_float64\<close> takes
  exactly the integral ones back; \<^verbatim>\<open>js_bigint_float64_cmp\<close> orders as the values do, except for two
  negative operands with different exponents, which it swaps. \<open>BigStr\<close>: \<^verbatim>\<open>js_bigint_to_string1\<close> writes
  the positional notation into a buffer that is filled from its end, \<^verbatim>\<open>js_bigint_from_string\<close> reads it
  back within the limbs it has reckoned.

  \<^item> \<open>DateCalc\<close>: \<^verbatim>\<open>get_date_fields\<close> and \<^verbatim>\<open>set_date_fields\<close> with the search for the year. The fields are
  the Gregorian date of the time, and going back gives the time; the arithmetic on doubles is
  modelled where it is exact. \<open>DateText\<close>: \<^verbatim>\<open>get_date_string\<close> and the parsers of \<^verbatim>\<open>js_Date_parse\<close>, which
  read a block of bytes that ends with a NUL; the ISO text of every time reads back
  (\<open>iso_string_roundtrip\<close>). \<open>DateParse\<close>: no parser reads behind the block, every item of a text makes
  progress, so \<^verbatim>\<open>js_Date_parse\<close> returns on every text (\<open>js_Date_parse_returns\<close>); an offset is subtracted
  from the clipped time (\<open>iso_offset_value\<close>), so that the result may leave the range of times.

  Termination. Most recursions decrease a measure. The loops that end only under a condition on the
  state are \<open>partial_function\<close>s into \<open>option\<close>: the loop of \<open>rqsort\<close> (it returns: part of
  \<open>rqsort_sorts\<close>), the loops over a list (\<open>list_loops_terminate\<close>), the correction of a quotient digit (\<open>add_back\<close>, part of
  \<open>js_bigint_arithmetic\<close>), the digits of a big integer (\<open>str_div_loop\<close>, part of \<open>js_bigint_to_string_correct\<close>), the search for a
  year (\<open>year_loop\<close>, part of \<open>date_fields_correct\<close>), the items of a date (\<open>other_loop\<close>, in
  \<open>js_Date_parse_returns\<close>) and the matcher (\<open>lre_exec_returns\<close>). No fuel is used.
  Table properties are checked by evaluation in the kernel, one block or one run at a time.

  Not modelled. Of \<^verbatim>\<open>quickjs.c\<close> the parser, the byte code interpreter, objects, strings, the
  built-ins, the finalizers that \<^verbatim>\<open>gc_free_cycles\<close> runs, and the operators that choose between
  small and big integers; in the modelled part, the freeing of temporaries. Of its libraries the compiler of regular
  expressions, normalization and the script and category tables, and the final composition of
  \<^verbatim>\<open>js_dtoa\<close> and \<^verbatim>\<open>js_atod\<close>. The indexer itself is written in Zig. Dumps under \<^verbatim>\<open>DUMP_REOP\<close> and
  \<^verbatim>\<open>DUMP_EXEC\<close> are compiled out. The functions that libregexp asks of its host,
  \<^verbatim>\<open>lre_check_timeout\<close> and \<^verbatim>\<open>lre_realloc\<close>, are parameters, and so is the system's heap.
\<close>

end
